(* ===== verification/Prelude.thy ===== *)
theory Prelude
  imports Main "HOL-Library.Word" "HOL-Library.List_Lexorder" "HOL-Library.Char_ord"
begin

text \<open>
  Shared ground of the development: Rust results as sums, the replay of a list of
  fallible steps, the ordered map of the Rust standard library (\<open>BTreeMap\<close>), the
  searches \<open>Iterator::position\<close> and \<open>rposition\<close>, decimal printing, and
  the collections of facts the component theories extend.
\<close>

named_theorems base_simps \<open>projections of the shared base fields\<close>
named_theorems wf_simps \<open>unfoldings of well-formedness predicates\<close>

subsection \<open>Machine integers\<close>

text \<open>
  \<open>i64\<close> counters are 64-bit words (attempt numbers, \<open>u32\<close>, 32-bit words) whose \<open>+\<close> wraps, as in a release build.
  Sequence numbers, list lengths and indexes (\<open>u64\<close>, \<open>usize\<close>) are natural
  numbers: they grow by one per stored item and are only compared.
\<close>

type_synonym i64 = "64 word"

type_synonym u32 = "32 word"

subsection \<open>Results\<close>

text \<open>\<open>Result<T, E>\<close> is \<open>E + T\<close>: \<open>Inl\<close> is \<open>Err\<close>, \<open>Inr\<close> is \<open>Ok\<close>; \<open>?\<close> is \<open>res_bind\<close>.\<close>

fun res_bind :: "'e + 'a \<Rightarrow> ('a \<Rightarrow> 'e + 'b) \<Rightarrow> 'e + 'b" where
  "res_bind (Inl e) f = Inl e"
| "res_bind (Inr x) f = f x"

definition ensure :: "bool \<Rightarrow> 'e \<Rightarrow> 'e + unit" where
  "ensure b e = (if b then Inr () else Inl e)"

definition ok_or :: "'a option \<Rightarrow> 'e \<Rightarrow> 'e + 'a" where
  "ok_or x e = (case x of None \<Rightarrow> Inl e | Some y \<Rightarrow> Inr y)"

lemma res_bind_Inr_iff [simp]:
  "res_bind r f = Inr y \<longleftrightarrow> (\<exists>x. r = Inr x \<and> f x = Inr y)"
  by (cases r) auto

lemma res_bind_Inl_iff:
  "res_bind r f = Inl e \<longleftrightarrow> r = Inl e \<or> (\<exists>x. r = Inr x \<and> f x = Inl e)"
  by (cases r) auto

lemma ensure_Inr_iff [simp]: "ensure b e = Inr u \<longleftrightarrow> b"
  by (simp add: ensure_def)

lemma ensure_Inl_iff [simp]: "ensure b e = Inl e' \<longleftrightarrow> \<not> b \<and> e' = e"
  by (auto simp: ensure_def)

lemma ensure_True [simp]: "ensure True e = Inr ()"
  by (simp add: ensure_def)

lemma ensure_False [simp]: "ensure False e = Inl e"
  by (simp add: ensure_def)

lemma ok_or_Inr_iff [simp]: "ok_or x e = Inr y \<longleftrightarrow> x = Some y"
  by (auto simp: ok_or_def split: option.splits)

lemma ok_or_Inl_iff [simp]: "ok_or x e = Inl e' \<longleftrightarrow> x = None \<and> e' = e"
  by (auto simp: ok_or_def split: option.splits)

lemma ok_or_Some [simp]: "ok_or (Some y) e = Inr y"
  by (simp add: ok_or_def)

lemma ok_or_None [simp]: "ok_or None e = Inl e"
  by (simp add: ok_or_def)

text \<open>A loop whose body may return early: \<open>for m in ms { s.step(m)?; }\<close>.\<close>

fun fold_res :: "('s \<Rightarrow> 'm \<Rightarrow> 'e + 's) \<Rightarrow> 's \<Rightarrow> 'm list \<Rightarrow> 'e + 's" where
  "fold_res f s [] = Inr s"
| "fold_res f s (m # ms) = res_bind (f s m) (\<lambda>t. fold_res f t ms)"

lemma fold_res_append:
  "fold_res f s (xs @ ys) = res_bind (fold_res f s xs) (\<lambda>t. fold_res f t ys)"
proof (induction xs arbitrary: s)
  case (Cons x xs)
  then show ?case by (cases "f s x") auto
qed simp

lemma fold_res_snoc:
  "fold_res f s (xs @ [x]) = Inr t \<longleftrightarrow> (\<exists>u. fold_res f s xs = Inr u \<and> f u x = Inr t)"
  by (auto simp: fold_res_append)

text \<open>
  The contract of a fallible step function that keeps an invariant. Whatever is replayed
  from a good state ends in a good state.
\<close>

locale checked_steps =
  fixes step :: "'a \<Rightarrow> 'b \<Rightarrow> 'c + 'a"
    and inv :: "'a \<Rightarrow> bool"
  assumes step_keeps: "inv s \<Longrightarrow> step s m = Inr t \<Longrightarrow> inv t"
begin

lemma replay_keeps: "inv s \<Longrightarrow> fold_res step s ms = Inr t \<Longrightarrow> inv t"
  by (induction ms arbitrary: s) (auto intro: step_keeps)

lemma replay_prefix_keeps:
  assumes "inv s" and "fold_res step s (xs @ ys) = Inr t"
  shows "\<exists>u. fold_res step s xs = Inr u \<and> inv u \<and> fold_res step u ys = Inr t"
  using assms by (auto simp: fold_res_append intro: replay_keeps)

end

text \<open>
  A step function that refines an abstract one: a successful step is the abstract step on
  the abstraction of the state, hence so is a successful replay.
\<close>

locale refined_steps = checked_steps +
  fixes abs :: "'a \<Rightarrow> 'd"
    and spec :: "'d \<Rightarrow> 'b \<Rightarrow> 'd"
  assumes step_refines: "inv s \<Longrightarrow> step s m = Inr t \<Longrightarrow> abs t = spec (abs s) m"
begin

lemma replay_refines: "inv s \<Longrightarrow> fold_res step s ms = Inr t \<Longrightarrow> abs t = foldl spec (abs s) ms"
proof (induction ms arbitrary: s)
  case (Cons m ms)
  then obtain u where "step s m = Inr u" "fold_res step u ms = Inr t" by auto
  with Cons step_keeps step_refines show ?case by fastforce
qed simp

end

subsection \<open>Ordered maps\<close>

text \<open>\<open>BTreeMap<K, V>\<close>: an association list, strictly ascending in its keys.\<close>

type_synonym ('k, 'v) btree = "('k \<times> 'v) list"

fun bt_insert :: "'k::linorder \<Rightarrow> 'v \<Rightarrow> ('k, 'v) btree \<Rightarrow> ('k, 'v) btree" where
  "bt_insert k v [] = [(k, v)]"
| "bt_insert k v ((k', v') # m) =
     (if k < k' then (k, v) # (k', v') # m
      else if k = k' then (k, v) # m
      else (k', v') # bt_insert k v m)"

abbreviation bt_sorted :: "('k::linorder, 'v) btree \<Rightarrow> bool" where
  "bt_sorted m \<equiv> sorted_wrt (<) (map fst m)"

lemma map_of_bt_insert [simp]: "map_of (bt_insert k v m) = (map_of m)(k \<mapsto> v)"
  by (induction m) auto

lemma set_fst_bt_insert [simp]: "fst ` set (bt_insert k v m) = insert k (fst ` set m)"
proof (induction m)
  case (Cons x m)
  then show ?case by (cases x) auto
qed simp

lemma set_bt_insert: "set (bt_insert k v m) \<subseteq> insert (k, v) (set m)"
  by (induction m) (auto split: if_splits)

lemma bt_sorted_insert [simp]: "bt_sorted m \<Longrightarrow> bt_sorted (bt_insert k v m)"
proof (induction m)
  case (Cons x m)
  obtain k' v' where x: "x = (k', v')" by (cases x)
  have "fst ` set (bt_insert k v m) = insert k (fst ` set m)" by simp
  with Cons x show ?case by auto
qed simp

lemma bt_sorted_filter: "bt_sorted m \<Longrightarrow> bt_sorted (filter P m)"
  by (induction m) auto

lemma bt_sorted_distinct: "bt_sorted m \<Longrightarrow> distinct (map fst m)"
  by (induction m) force+

lemma bt_insert_last:
  assumes "\<forall>k' \<in> fst ` set m. k' < k"
  shows "bt_insert k v m = m @ [(k, v)]"
  using assms by (induction m) auto

subsection \<open>Searches\<close>

fun position :: "('a \<Rightarrow> bool) \<Rightarrow> 'a list \<Rightarrow> nat option" where
  "position P [] = None"
| "position P (x # xs) = (if P x then Some 0 else map_option Suc (position P xs))"

fun rposition :: "('a \<Rightarrow> bool) \<Rightarrow> 'a list \<Rightarrow> nat option" where
  "rposition P [] = None"
| "rposition P (x # xs) =
     (case rposition P xs of Some i \<Rightarrow> Some (Suc i)
      | None \<Rightarrow> if P x then Some 0 else None)"

lemma position_None_iff: "position P xs = None \<longleftrightarrow> (\<forall>x \<in> set xs. \<not> P x)"
  by (induction xs) auto

lemma position_Some_iff:
  "position P xs = Some i \<longleftrightarrow>
     i < length xs \<and> P (xs ! i) \<and> (\<forall>j < i. \<not> P (xs ! j))"
proof (induction xs arbitrary: i)
  case (Cons x xs)
  then show ?case by (cases i) (auto simp: less_Suc_eq_0_disj)
qed simp

lemma rposition_None_iff: "rposition P xs = None \<longleftrightarrow> (\<forall>x \<in> set xs. \<not> P x)"
  by (induction xs) (auto split: option.splits)

lemma rposition_SomeD:
  "rposition P xs = Some i \<Longrightarrow>
     i < length xs \<and> P (xs ! i) \<and> (\<forall>x \<in> set (drop (Suc i) xs). \<not> P x)"
proof (induction xs arbitrary: i)
  case (Cons x xs)
  then show ?case
    by (auto split: option.splits if_splits simp: rposition_None_iff)
qed simp

lemma filter_take_position:
  "position P xs = Some i \<Longrightarrow> filter (\<lambda>x. \<not> P x) xs = take i xs @ filter (\<lambda>x. \<not> P x) (drop i xs)"
  by (induction xs arbitrary: i) auto

text \<open>\<open>Iterator::filter_map\<close>.\<close>

fun filter_map :: "('a \<Rightarrow> 'b option) \<Rightarrow> 'a list \<Rightarrow> 'b list" where
  "filter_map f [] = []"
| "filter_map f (x # xs) =
     (case f x of None \<Rightarrow> filter_map f xs | Some y \<Rightarrow> y # filter_map f xs)"

lemma filter_map_append [simp]: "filter_map f (xs @ ys) = filter_map f xs @ filter_map f ys"
  by (induction xs) (auto split: option.splits)

lemma set_filter_map: "set (filter_map f xs) = {y. \<exists>x \<in> set xs. f x = Some y}"
  by (induction xs) (auto split: option.splits)

lemma filter_map_cong: "(\<And>x. x \<in> set xs \<Longrightarrow> f x = g x) \<Longrightarrow> filter_map f xs = filter_map g xs"
  by (induction xs) (auto split: option.splits)

lemma filter_map_all_None: "(\<And>x. x \<in> set xs \<Longrightarrow> f x = None) \<Longrightarrow> filter_map f xs = []"
  by (induction xs) auto

lemma filter_map_Some [simp]: "filter_map Some xs = xs"
  by (induction xs) auto

lemma filter_map_map: "filter_map f (map g xs) = filter_map (f \<circ> g) xs"
  by (induction xs) (auto split: option.splits)

lemma map_filter_map: "map h (filter_map f xs) = filter_map (map_option h \<circ> f) xs"
  by (induction xs) (auto split: option.splits)

lemma filter_map_filter_map:
  "filter_map g (filter_map f xs) = filter_map (\<lambda>x. Option.bind (f x) g) xs"
  by (induction xs) (auto split: option.splits)

lemma filter_map_if: "filter_map (\<lambda>x. if P x then Some (h x) else None) xs = map h (filter P xs)"
  by (induction xs) auto

text \<open>The kept elements keep their order, at the position that counts those kept before.\<close>

lemma nth_filter_take:
  "i < length xs \<Longrightarrow> P (xs ! i) \<Longrightarrow>
     filter P xs ! length (filter P (take i xs)) = xs ! i
     \<and> length (filter P (take i xs)) < length (filter P xs)"
proof (induction xs arbitrary: i)
  case (Cons x xs)
  then show ?case by (cases i) auto
qed simp

lemma upt_split_at:
  assumes "xs @ ys = [0..<n]" and "\<forall>i \<in> set xs. i < f" and "\<forall>i \<in> set ys. f \<le> i" and "f \<le> n"
  shows "xs = [0..<f] \<and> ys = [f..<n]"
proof -
  have "[0..<n] = [0..<f] @ [f..<n]"
    using assms(4) by (metis add_0 le_Suc_ex upt_add_eq_append zero_le)
  moreover have "filter (\<lambda>i. i < f) (xs @ ys) = xs" "filter (\<lambda>i. \<not> i < f) (xs @ ys) = ys"
    using assms(2,3) by (auto simp: filter_id_conv filter_empty_conv not_less)
  moreover have "filter (\<lambda>i. i < f) ([0..<f] @ [f..<n]) = [0..<f]"
    "filter (\<lambda>i. \<not> i < f) ([0..<f] @ [f..<n]) = [f..<n]"
    by (auto simp: filter_id_conv filter_empty_conv)
  ultimately show ?thesis using assms(1) by metis
qed

text \<open>A list up to and including the first element that satisfies \<open>P\<close>.\<close>

fun take_until :: "('a \<Rightarrow> bool) \<Rightarrow> 'a list \<Rightarrow> 'a list" where
  "take_until P [] = []"
| "take_until P (x # xs) = (if P x then [x] else x # take_until P xs)"

lemma take_until_none: "\<forall>x \<in> set xs. \<not> P x \<Longrightarrow> take_until P xs = xs"
  by (induction xs) auto

lemma take_until_hit:
  "\<exists>x \<in> set xs. P x \<Longrightarrow> \<exists>ys y. take_until P xs = ys @ [y] \<and> P y \<and> (\<forall>x \<in> set ys. \<not> P x)"
proof (induction xs)
  case (Cons x xs)
  then show ?case by (auto intro: exI [of _ "[]"]) (metis append_Cons set_ConsD)
qed simp

lemma set_take_until: "set (take_until P xs) \<subseteq> set xs"
  by (induction xs) auto

text \<open>
  \<open>results.push(x); if limit is reached { break; }\<close>: the loop the queries share. A limit
  of \<open>0\<close> is refused before, so the loop is a filter cut at the limit.
\<close>

fun collect_limited :: "('a \<Rightarrow> bool) \<Rightarrow> nat option \<Rightarrow> 'a list \<Rightarrow> 'a list \<Rightarrow> 'a list" where
  "collect_limited P limit acc [] = acc"
| "collect_limited P limit acc (x # xs) =
     (if P x then
        (if (case limit of None \<Rightarrow> False | Some l \<Rightarrow> l \<le> length (acc @ [x])) then acc @ [x]
         else collect_limited P limit (acc @ [x]) xs)
      else collect_limited P limit acc xs)"

definition take_opt :: "nat option \<Rightarrow> 'a list \<Rightarrow> 'a list" where
  "take_opt limit xs = (case limit of None \<Rightarrow> xs | Some l \<Rightarrow> take l xs)"

lemma collect_limited_eq:
  assumes "case limit of None \<Rightarrow> True | Some l \<Rightarrow> length acc < l"
  shows "collect_limited P limit acc xs = take_opt limit (acc @ filter P xs)"
  using assms
proof (induction xs arbitrary: acc)
  case Nil
  then show ?case by (auto simp: take_opt_def split: option.splits)
next
  case (Cons x xs)
  then show ?case by (cases limit) (auto simp: take_opt_def take_Cons')
qed

lemma collect_limited_filter:
  "limit \<noteq> Some 0 \<Longrightarrow> collect_limited P limit [] xs = take_opt limit (filter P xs)"
  by (subst collect_limited_eq) (auto split: option.splits)

subsection \<open>Decimal numerals\<close>

fun show_nat :: "nat \<Rightarrow> string" where
  "show_nat n =
     (if n < 10 then [char_of (48 + n)]
      else show_nat (n div 10) @ [char_of (48 + n mod 10)])"

declare show_nat.simps [simp del]

definition digits_value :: "string \<Rightarrow> nat" where
  "digits_value cs = foldl (\<lambda>a c. 10 * a + (of_char c - 48)) 0 cs"

lemma of_char_digit: "d < 10 \<Longrightarrow> (of_char (char_of (48 + d)) :: nat) = 48 + d"
  by simp

lemma digits_value_show: "digits_value (show_nat n) = n"
proof (induction n rule: less_induct)
  case (less n)
  show ?case
  proof (cases "n < 10")
    case True
    then show ?thesis
      by (subst show_nat.simps) (simp add: digits_value_def of_char_digit del: of_char_of)
  next
    case False
    then have IH: "digits_value (show_nat (n div 10)) = n div 10" using less by simp
    from False have "digits_value (show_nat n) = 10 * digits_value (show_nat (n div 10)) + n mod 10"
      by (subst show_nat.simps) (simp add: digits_value_def of_char_digit del: of_char_of)
    also have "\<dots> = n" unfolding IH by simp
    finally show ?thesis .
  qed
qed

lemma show_nat_inj [simp]: "show_nat m = show_nat n \<longleftrightarrow> m = n"
  by (metis digits_value_show)

lemma show_nat_digits: "c \<in> set (show_nat n) \<Longrightarrow> 48 \<le> (of_char c :: nat)"
proof (induction n rule: less_induct)
  case (less n)
  show ?case
  proof (cases "n < 10")
    case True
    then show ?thesis
      using less.prems by (subst (asm) show_nat.simps) (simp add: of_char_digit del: of_char_of)
  next
    case False
    then have "c \<in> set (show_nat (n div 10)) \<or> c = char_of (48 + n mod 10)"
      using less.prems by (subst (asm) show_nat.simps) auto
    then show ?thesis
      using less.IH [of "n div 10"] False of_char_digit [of "n mod 10"] by auto
  qed
qed

lemma split_at_last:
  assumes "xs @ x # ys = xs' @ x # ys'" and "x \<notin> set ys" and "x \<notin> set ys'"
  shows "xs = xs' \<and> ys = ys'"
proof -
  have "rev ys @ x # rev xs = rev ys' @ x # rev xs'"
    using arg_cong [OF assms(1), of rev] by simp
  moreover have "takeWhile (\<lambda>y. y \<noteq> x) (zs @ x # us) = zs" if "x \<notin> set zs" for zs us
    using that by (subst takeWhile_append2) auto
  from this [of "rev ys" "rev xs"] this [of "rev ys'" "rev xs'"]
  have "takeWhile (\<lambda>y. y \<noteq> x) (rev ys @ x # rev xs) = rev ys"
    "takeWhile (\<lambda>y. y \<noteq> x) (rev ys' @ x # rev xs') = rev ys'"
    using assms(2,3) by simp_all
  ultimately have "ys = ys'" by (metis rev_rev_ident)
  with assms(1) show ?thesis by simp
qed

text \<open>The last value a list gives.\<close>

definition last_of :: "('a \<Rightarrow> 'b option) \<Rightarrow> 'a list \<Rightarrow> 'b option" where
  "last_of f xs = (let ys = filter_map f xs in if ys = [] then None else Some (last ys))"

lemma last_of_simps [simp]:
  "last_of f [] = None"
  "last_of f (xs @ [x]) = (case f x of None \<Rightarrow> last_of f xs | Some y \<Rightarrow> Some y)"
  by (auto simp: last_of_def Let_def split: option.split)

end
