(* ===== verification/Json.thy ===== *)
theory Json
  imports Prelude "HOL-Library.Finite_Map"
begin

text \<open>
  The data of \<open>serde_json::Value\<close> as the program uses it. The crate is not part of the
  repository: only its public data (the six kinds of JSON value) and the documented
  accessors the program calls appear here. An object is a finite map, because two objects
  are compared key by key and the program never depends on the order of the keys. A
  64-bit float is a value of the type parameter \<open>'f\<close>.
\<close>

datatype 'f json =
    JNull
  | JBool bool
  | JInt int
  | JFloat 'f
  | JString string
  | JArray "'f json list"
  | JObject "(string, 'f json) fmap"

fun json_get :: "string \<Rightarrow> 'f json \<Rightarrow> 'f json option" where
  "json_get k (JObject m) = fmlookup m k"
| "json_get k _ = None"

fun json_as_str :: "'f json \<Rightarrow> string option" where
  "json_as_str (JString s) = Some s"
| "json_as_str _ = None"

fun json_as_i64 :: "'f json \<Rightarrow> int option" where
  "json_as_i64 (JInt n) = (if - (2 ^ 63) \<le> n \<and> n < 2 ^ 63 then Some n else None)"
| "json_as_i64 _ = None"

fun json_as_bool :: "'f json \<Rightarrow> bool option" where
  "json_as_bool (JBool b) = Some b"
| "json_as_bool _ = None"

fun json_as_u64 :: "'f json \<Rightarrow> nat option" where
  "json_as_u64 (JInt n) = (if 0 \<le> n \<and> n < 2 ^ 64 then Some (nat n) else None)"
| "json_as_u64 _ = None"

fun json_insert :: "string \<Rightarrow> 'f json \<Rightarrow> 'f json \<Rightarrow> 'f json" where
  "json_insert k v (JObject m) = JObject (fmupd k v m)"
| "json_insert k v j = j"

fun json_remove :: "string \<Rightarrow> 'f json \<Rightarrow> 'f json" where
  "json_remove k (JObject m) = JObject (fmdrop k m)"
| "json_remove k j = j"

text \<open>Building an object field by field; a later insertion of a key replaces the earlier one.\<close>

definition json_object :: "(string \<times> 'f json) list \<Rightarrow> 'f json" where
  "json_object kvs = JObject (fold (\<lambda>(k, v) m. fmupd k v m) kvs fmempty)"

definition json_opt :: "string \<Rightarrow> ('a \<Rightarrow> 'f json) \<Rightarrow> 'a option \<Rightarrow> (string \<times> 'f json) list" where
  "json_opt k f x = (case x of None \<Rightarrow> [] | Some y \<Rightarrow> [(k, f y)])"

definition json_nullable :: "('a \<Rightarrow> 'f json) \<Rightarrow> 'a option \<Rightarrow> 'f json" where
  "json_nullable f x = (case x of None \<Rightarrow> JNull | Some y \<Rightarrow> f y)"

lemma fmlookup_fold_fmupd:
  "fmlookup (fold (\<lambda>(k, v) m. fmupd k v m) kvs m0) k =
     (case map_of (rev kvs) k of Some v \<Rightarrow> Some v | None \<Rightarrow> fmlookup m0 k)"
proof (induction kvs arbitrary: m0)
  case (Cons x kvs)
  then show ?case
    by (cases x) (auto simp: map_add_def split: option.splits)
qed simp

lemma json_get_object: "json_get k (json_object kvs) = map_of (rev kvs) k"
  by (simp add: json_object_def fmlookup_fold_fmupd split: option.splits)

lemma json_get_remove: "json_get k (json_remove k' j) = (if k = k' then None else json_get k j)"
  by (cases j) auto

lemma json_object_eq_iff:
  "json_object kvs = json_object kvs' \<longleftrightarrow> map_of (rev kvs) = map_of (rev kvs')"
proof
  assume "json_object kvs = json_object kvs'"
  then show "map_of (rev kvs) = map_of (rev kvs')"
    by (metis ext json_get_object)
next
  assume eq: "map_of (rev kvs) = map_of (rev kvs')"
  have "fold (\<lambda>(k, v) m. fmupd k v m) kvs fmempty = fold (\<lambda>(k, v) m. fmupd k v m) kvs' fmempty"
    by (rule fmap_ext) (simp add: fmlookup_fold_fmupd eq)
  then show "json_object kvs = json_object kvs'"
    by (simp add: json_object_def)
qed

lemma map_of_rev_filter_key:
  "map_of (rev (filter (\<lambda>(k', v). k' \<noteq> k) kvs)) = (map_of (rev kvs))(k := None)"
  by (induction kvs) (auto simp: fun_eq_iff map_add_def split: option.splits)

lemma json_remove_object:
  "json_remove k (json_object kvs) = json_object (filter (\<lambda>(k', v). k' \<noteq> k) kvs)"
proof -
  have "fmdrop k (fold (\<lambda>(k, v) m. fmupd k v m) kvs fmempty) =
        fold (\<lambda>(k, v) m. fmupd k v m) (filter (\<lambda>(k', v). k' \<noteq> k) kvs) fmempty"
    by (rule fmap_ext) (auto simp: fmlookup_fold_fmupd map_of_rev_filter_key split: option.splits)
  then show ?thesis
    by (simp add: json_object_def)
qed

end
