(* ===== verification/Ai_Types.thy ===== *)
theory Ai_Types
  imports Json
begin

text \<open>
  The message vocabulary the session layer stores: \<open>crates/evo-ai/src/types.rs\<close>
  (content blocks, usage, stop reasons, the three base messages) and
  \<open>crates/evo-agent/src/message.rs\<close> (\<open>AgentMessage\<close>, its roles, custom
  messages). The zero-sized \<open>kind\<close>/\<open>role\<close> markers of the structs carry no data
  and are left out. The parameter \<open>'f\<close> is the type of 64-bit floats.
\<close>

subsection \<open>Content blocks\<close>

record text_content =
  tx_text :: string
  tx_text_signature :: "string option"

record thinking_content =
  th_thinking :: string
  th_thinking_signature :: "string option"
  th_redacted :: bool

record image_content =
  im_data :: string
  im_mime_type :: string

record 'f tool_call =
  tcall_id :: string
  tcall_name :: string
  tcall_arguments :: "'f json"
  tcall_thought_signature :: "string option"
  tcall_namespace :: "string option"
  tcall_recorded :: "'f json option"

datatype 'f content =
    Content_Text text_content
  | Content_Thinking thinking_content
  | Content_Image image_content
  | Content_ToolCall "'f tool_call"

definition content_text :: "string \<Rightarrow> 'f content" where
  "content_text s = Content_Text \<lparr>tx_text = s, tx_text_signature = None\<rparr>"

subsection \<open>Usage and stop reasons\<close>

record 'f usage_cost =
  uc_input :: 'f
  uc_output :: 'f
  uc_cache_read :: 'f
  uc_cache_write :: 'f
  uc_total :: 'f

record 'f usage =
  us_input :: i64
  us_output :: i64
  us_cache_read :: i64
  us_cache_write :: i64
  us_cache_write_1h :: "i64 option"
  us_reasoning :: "i64 option"
  us_total_tokens :: i64
  us_cost :: "'f usage_cost"

definition usage_zero :: "'f::zero usage" where
  "usage_zero =
     \<lparr>us_input = 0, us_output = 0, us_cache_read = 0, us_cache_write = 0,
      us_cache_write_1h = None, us_reasoning = None, us_total_tokens = 0,
      us_cost = \<lparr>uc_input = 0, uc_output = 0, uc_cache_read = 0, uc_cache_write = 0, uc_total = 0\<rparr>\<rparr>"

datatype stop_reason =
    StopReason_Pending
  | StopReason_Stop
  | StopReason_Length
  | StopReason_ToolUse
  | StopReason_Error
  | StopReason_Aborted
  | StopReason_Deferred

datatype api =
    Api_OpenaiCompletions
  | Api_MistralConversations
  | Api_OpenaiResponses
  | Api_AzureOpenaiResponses
  | Api_OpenaiCodexResponses
  | Api_AnthropicMessages
  | Api_BedrockConverseStream
  | Api_GoogleGenerativeAi
  | Api_GoogleVertex
  | Api_EvoMessages
  | Api_Faux
  | Api_Other string

subsection \<open>Messages\<close>

record 'f deferred_handle =
  dh_provider :: string
  dh_model_id :: string
  dh_api :: string
  dh_id :: string
  dh_expires_at :: "i64 option"
  dh_poll_after_ms :: "i64 option"
  dh_data :: "'f json option"

datatype 'f user_content = UserContent_Text string | UserContent_Blocks "'f content list"

record 'f user_message =
  um_content :: "'f user_content"
  um_timestamp :: i64

record 'f tool_result_message =
  tr_tool_call_id :: string
  tr_tool_name :: string
  tr_content :: "'f content list"
  tr_details :: "'f json option"
  tr_usage :: "'f usage option"
  tr_added_tool_names :: "string list"
  tr_is_error :: bool
  tr_timestamp :: i64

record 'f assistant_message =
  am_content :: "'f content list"
  am_api :: api
  am_provider :: string
  am_model :: string
  am_response_model :: "string option"
  am_response_id :: "string option"
  am_usage :: "'f usage"
  am_stop_reason :: stop_reason
  am_deferred :: "'f deferred_handle option"
  am_error_message :: "string option"
  am_raw_stop_reason :: "string option"
  am_end_turn :: "bool option"
  am_timestamp :: i64

definition assistant_empty :: "api \<Rightarrow> string \<Rightarrow> string \<Rightarrow> i64 \<Rightarrow> 'f::zero assistant_message" where
  "assistant_empty a p m t =
     \<lparr>am_content = [], am_api = a, am_provider = p, am_model = m, am_response_model = None,
      am_response_id = None, am_usage = usage_zero, am_stop_reason = StopReason_Pending,
      am_deferred = None, am_error_message = None, am_raw_stop_reason = None,
      am_end_turn = None, am_timestamp = t\<rparr>"

record 'f custom_message =
  cm_role :: string
  cm_content :: "'f content list"
  cm_data :: "'f json"
  cm_timestamp :: i64

datatype 'f agent_message =
    AgentMessage_User "'f user_message"
  | AgentMessage_Assistant "'f assistant_message"
  | AgentMessage_ToolResult "'f tool_result_message"
  | AgentMessage_Custom "'f custom_message"

datatype agent_message_role = Role_User | Role_Assistant | Role_ToolResult | Role_Custom string

fun message_role :: "'f agent_message \<Rightarrow> agent_message_role" where
  "message_role (AgentMessage_User _) = Role_User"
| "message_role (AgentMessage_Assistant _) = Role_Assistant"
| "message_role (AgentMessage_ToolResult _) = Role_ToolResult"
| "message_role (AgentMessage_Custom c) = Role_Custom (cm_role c)"

fun is_assistant :: "'f agent_message \<Rightarrow> bool" where
  "is_assistant (AgentMessage_Assistant _) = True"
| "is_assistant _ = False"

text \<open>The tool calls of an assistant message, in content order.\<close>

fun content_tool_call :: "'f content \<Rightarrow> 'f tool_call option" where
  "content_tool_call (Content_ToolCall t) = Some t"
| "content_tool_call _ = None"

definition tool_calls_of :: "'f content list \<Rightarrow> 'f tool_call list" where
  "tool_calls_of cs = filter_map content_tool_call cs"

lemma tool_calls_of_simps [simp]:
  "tool_calls_of [] = []"
  "tool_calls_of (c # cs) =
     (case content_tool_call c of None \<Rightarrow> tool_calls_of cs | Some t \<Rightarrow> t # tool_calls_of cs)"
  by (simp_all add: tool_calls_of_def split: option.split)

lemma tool_calls_of_append [simp]: "tool_calls_of (xs @ ys) = tool_calls_of xs @ tool_calls_of ys"
  by (simp add: tool_calls_of_def)

end
