(* ===== verification/Session_Types.thy ===== *)
theory Session_Types
  imports Ai_Types
begin

text \<open>
  The durable data model of \<open>crates/evo-harness/src/session/types.rs\<close>, entries part:
  the seven kinds of entry with their shared base, provisioned entries (what callers hand
  to a storage before it stamps \<open>seq\<close>, \<open>parent_id\<close> and \<open>timestamp\<close>), and
  the flat JSON view of an entry. Errors are those of
  \<open>crates/evo-harness/src/error.rs\<close>.
\<close>

subsection \<open>Errors\<close>

datatype session_error_code =
    NotFound | AlreadyExists | InvalidEntry | InvalidPayload | InvalidLane | InvalidQuery
  | InvalidForkTarget | Storage

text \<open>
  \<open>Index_Panic\<close> is not a value of the source: it stands for the panic of a slice index
  that is out of range. The invariant of the session state excludes it.
\<close>

datatype session_error = Session_Error session_error_code string | Index_Panic

abbreviation "err_not_found m \<equiv> Session_Error NotFound m"
abbreviation "err_already_exists m \<equiv> Session_Error AlreadyExists m"
abbreviation "err_invalid_entry m \<equiv> Session_Error InvalidEntry m"
abbreviation "err_invalid_lane m \<equiv> Session_Error InvalidLane m"
abbreviation "err_invalid_query m \<equiv> Session_Error InvalidQuery m"
abbreviation "err_invalid_fork_target m \<equiv> Session_Error InvalidForkTarget m"
abbreviation "err_storage m \<equiv> Session_Error Storage m"

subsection \<open>Entries\<close>

record entry_base =
  eb_entry_type :: string
  eb_id :: string
  eb_seq :: nat
  eb_parent_id :: "string option"
  eb_timestamp :: i64

record 'f message_entry =
  me_base :: entry_base
  me_message :: "'f agent_message"
  me_terminate :: "bool option"

record model_change_entry =
  mc_base :: entry_base
  mc_provider :: string
  mc_model_id :: string

record thinking_level_entry =
  tl_base :: entry_base
  tl_thinking_level :: string

record active_tools_entry =
  at_base :: entry_base
  at_active_tool_names :: "string list"

record 'f compaction_entry =
  ce_base :: entry_base
  ce_summary :: string
  ce_retained_tail :: "'f agent_message list"
  ce_tokens_before :: i64
  ce_details :: "'f json option"
  ce_usage :: "'f usage option"

record 'f branch_summary_entry =
  bs_base :: entry_base
  bs_from_id :: string
  bs_summary :: string
  bs_details :: "'f json option"
  bs_usage :: "'f usage option"

record 'f custom_entry =
  cu_base :: entry_base
  cu_custom_type :: string
  cu_data :: "'f json option"

datatype 'f entry =
    Entry_Message "'f message_entry"
  | Entry_ModelChange model_change_entry
  | Entry_ThinkingLevel thinking_level_entry
  | Entry_ActiveTools active_tools_entry
  | Entry_Compaction "'f compaction_entry"
  | Entry_BranchSummary "'f branch_summary_entry"
  | Entry_Custom "'f custom_entry"

fun entry_base_of :: "'f entry \<Rightarrow> entry_base" where
  "entry_base_of (Entry_Message e) = me_base e"
| "entry_base_of (Entry_ModelChange e) = mc_base e"
| "entry_base_of (Entry_ThinkingLevel e) = tl_base e"
| "entry_base_of (Entry_ActiveTools e) = at_base e"
| "entry_base_of (Entry_Compaction e) = ce_base e"
| "entry_base_of (Entry_BranchSummary e) = bs_base e"
| "entry_base_of (Entry_Custom e) = cu_base e"

fun entry_base_mut :: "(entry_base \<Rightarrow> entry_base) \<Rightarrow> 'f entry \<Rightarrow> 'f entry" where
  "entry_base_mut f (Entry_Message e) = Entry_Message (me_base_update f e)"
| "entry_base_mut f (Entry_ModelChange e) = Entry_ModelChange (mc_base_update f e)"
| "entry_base_mut f (Entry_ThinkingLevel e) = Entry_ThinkingLevel (tl_base_update f e)"
| "entry_base_mut f (Entry_ActiveTools e) = Entry_ActiveTools (at_base_update f e)"
| "entry_base_mut f (Entry_Compaction e) = Entry_Compaction (ce_base_update f e)"
| "entry_base_mut f (Entry_BranchSummary e) = Entry_BranchSummary (bs_base_update f e)"
| "entry_base_mut f (Entry_Custom e) = Entry_Custom (cu_base_update f e)"

definition entry_id :: "'f entry \<Rightarrow> string" where
  "entry_id e = eb_id (entry_base_of e)"

definition entry_seq :: "'f entry \<Rightarrow> nat" where
  "entry_seq e = eb_seq (entry_base_of e)"

definition entry_parent_id :: "'f entry \<Rightarrow> string option" where
  "entry_parent_id e = eb_parent_id (entry_base_of e)"

definition entry_timestamp :: "'f entry \<Rightarrow> i64" where
  "entry_timestamp e = eb_timestamp (entry_base_of e)"

fun entry_type :: "'f entry \<Rightarrow> string" where
  "entry_type (Entry_Message _) = ''message''"
| "entry_type (Entry_ModelChange _) = ''model_change''"
| "entry_type (Entry_ThinkingLevel _) = ''thinking_level_change''"
| "entry_type (Entry_ActiveTools _) = ''active_tools_change''"
| "entry_type (Entry_Compaction _) = ''compaction''"
| "entry_type (Entry_BranchSummary _) = ''branch_summary''"
| "entry_type (Entry_Custom _) = ''custom''"

fun entry_message_role :: "'f entry \<Rightarrow> agent_message_role option" where
  "entry_message_role (Entry_Message m) = Some (message_role (me_message m))"
| "entry_message_role _ = None"

fun entry_as_message :: "'f entry \<Rightarrow> 'f agent_message option" where
  "entry_as_message (Entry_Message m) = Some (me_message m)"
| "entry_as_message _ = None"

fun is_compaction :: "'f entry \<Rightarrow> bool" where
  "is_compaction (Entry_Compaction _) = True"
| "is_compaction _ = False"

fun is_branch_summary :: "'f entry \<Rightarrow> bool" where
  "is_branch_summary (Entry_BranchSummary _) = True"
| "is_branch_summary _ = False"

fun is_message_entry :: "'f entry \<Rightarrow> bool" where
  "is_message_entry (Entry_Message _) = True"
| "is_message_entry _ = False"

lemma entry_base_of_mut [base_simps, simp]:
  "entry_base_of (entry_base_mut f e) = f (entry_base_of e)"
  by (cases e) auto

lemma entry_type_mut [base_simps, simp]: "entry_type (entry_base_mut f e) = entry_type e"
  by (cases e) auto

lemma entry_base_mut_comp: "entry_base_mut f (entry_base_mut g e) = entry_base_mut (f \<circ> g) e"
  by (cases e) auto

subsection \<open>Provisioned entries\<close>

datatype 'f provisioned_kind =
    Prov_Message "'f agent_message" "bool option"
  | Prov_ModelChange string string
  | Prov_ThinkingLevel string
  | Prov_ActiveTools "string list"
  | Prov_Compaction string "'f agent_message list" i64 "'f json option" "'f usage option"
  | Prov_BranchSummary string string "'f json option" "'f usage option"
  | Prov_Custom string "'f json option"

record 'f provisioned_entry =
  pe_id :: string
  pe_kind :: "'f provisioned_kind"

fun kind_type_tag :: "'f provisioned_kind \<Rightarrow> string" where
  "kind_type_tag (Prov_Message _ _) = ''message''"
| "kind_type_tag (Prov_ModelChange _ _) = ''model_change''"
| "kind_type_tag (Prov_ThinkingLevel _) = ''thinking_level_change''"
| "kind_type_tag (Prov_ActiveTools _) = ''active_tools_change''"
| "kind_type_tag (Prov_Compaction _ _ _ _ _) = ''compaction''"
| "kind_type_tag (Prov_BranchSummary _ _ _ _) = ''branch_summary''"
| "kind_type_tag (Prov_Custom _ _) = ''custom''"

definition type_tag :: "'f provisioned_entry \<Rightarrow> string" where
  "type_tag p = kind_type_tag (pe_kind p)"

definition provisioned_into_entry ::
  "'f provisioned_entry \<Rightarrow> nat \<Rightarrow> string option \<Rightarrow> i64 \<Rightarrow> 'f entry" where
  "provisioned_into_entry p sq parent ts =
     (let base = \<lparr>eb_entry_type = type_tag p, eb_id = pe_id p, eb_seq = sq,
                  eb_parent_id = parent, eb_timestamp = ts\<rparr>
      in case pe_kind p of
           Prov_Message m t \<Rightarrow> Entry_Message \<lparr>me_base = base, me_message = m, me_terminate = t\<rparr>
         | Prov_ModelChange pr mi \<Rightarrow>
             Entry_ModelChange \<lparr>mc_base = base, mc_provider = pr, mc_model_id = mi\<rparr>
         | Prov_ThinkingLevel l \<Rightarrow> Entry_ThinkingLevel \<lparr>tl_base = base, tl_thinking_level = l\<rparr>
         | Prov_ActiveTools ns \<Rightarrow> Entry_ActiveTools \<lparr>at_base = base, at_active_tool_names = ns\<rparr>
         | Prov_Compaction s rt tb d u \<Rightarrow>
             Entry_Compaction \<lparr>ce_base = base, ce_summary = s, ce_retained_tail = rt,
               ce_tokens_before = tb, ce_details = d, ce_usage = u\<rparr>
         | Prov_BranchSummary f s d u \<Rightarrow>
             Entry_BranchSummary \<lparr>bs_base = base, bs_from_id = f, bs_summary = s,
               bs_details = d, bs_usage = u\<rparr>
         | Prov_Custom ct d \<Rightarrow>
             Entry_Custom \<lparr>cu_base = base, cu_custom_type = ct, cu_data = d\<rparr>)"

fun entry_kind :: "'f entry \<Rightarrow> 'f provisioned_kind" where
  "entry_kind (Entry_Message m) = Prov_Message (me_message m) (me_terminate m)"
| "entry_kind (Entry_ModelChange m) = Prov_ModelChange (mc_provider m) (mc_model_id m)"
| "entry_kind (Entry_ThinkingLevel m) = Prov_ThinkingLevel (tl_thinking_level m)"
| "entry_kind (Entry_ActiveTools m) = Prov_ActiveTools (at_active_tool_names m)"
| "entry_kind (Entry_Compaction m) =
     Prov_Compaction (ce_summary m) (ce_retained_tail m) (ce_tokens_before m) (ce_details m) (ce_usage m)"
| "entry_kind (Entry_BranchSummary m) =
     Prov_BranchSummary (bs_from_id m) (bs_summary m) (bs_details m) (bs_usage m)"
| "entry_kind (Entry_Custom m) = Prov_Custom (cu_custom_type m) (cu_data m)"

definition provisioned_from_entry :: "'f entry \<Rightarrow> 'f provisioned_entry" where
  "provisioned_from_entry e = \<lparr>pe_id = entry_id e, pe_kind = entry_kind e\<rparr>"

lemma kind_type_tag_entry_kind [simp]: "kind_type_tag (entry_kind e) = entry_type e"
  by (cases e) auto

lemma entry_kind_into [simp]: "entry_kind (provisioned_into_entry p sq parent ts) = pe_kind p"
  by (cases "pe_kind p") (auto simp: provisioned_into_entry_def Let_def)

lemma entry_base_into [base_simps, simp]:
  "entry_base_of (provisioned_into_entry p sq parent ts) =
     \<lparr>eb_entry_type = type_tag p, eb_id = pe_id p, eb_seq = sq, eb_parent_id = parent,
      eb_timestamp = ts\<rparr>"
  by (cases "pe_kind p") (auto simp: provisioned_into_entry_def Let_def)

text \<open>Entries are equal exactly when base and kind-specific payload are.\<close>

lemma entry_eqI: "entry_base_of e = entry_base_of e' \<Longrightarrow> entry_kind e = entry_kind e' \<Longrightarrow> e = e'"
  by (cases e; cases e') auto

subsection \<open>The flat JSON of an entry\<close>

text \<open>
  The derived serializers of the messages and of \<open>Usage\<close> are produced by the build
  (serde's macros); they are parameters of the JSON view. The entry structs' own fields
  follow their serde attributes: camel case, absent optionals skipped, \<open>parentId\<close>
  nullable.
\<close>

record 'f serializers =
  ser_message :: "'f agent_message \<Rightarrow> 'f json"
  ser_usage :: "'f usage \<Rightarrow> 'f json"

definition base_json :: "entry_base \<Rightarrow> (string \<times> 'f json) list" where
  "base_json b =
     [(''type'', JString (eb_entry_type b)), (''id'', JString (eb_id b)),
      (''seq'', JInt (int (eb_seq b))), (''parentId'', json_nullable JString (eb_parent_id b)),
      (''timestamp'', JInt (sint (eb_timestamp b)))]"

fun arm_json :: "'f serializers \<Rightarrow> 'f entry \<Rightarrow> (string \<times> 'f json) list" where
  "arm_json S (Entry_Message e) =
     base_json (me_base e) @ [(''message'', ser_message S (me_message e))]
       @ json_opt ''terminate'' JBool (me_terminate e)"
| "arm_json S (Entry_ModelChange e) =
     base_json (mc_base e) @ [(''provider'', JString (mc_provider e)), (''modelId'', JString (mc_model_id e))]"
| "arm_json S (Entry_ThinkingLevel e) =
     base_json (tl_base e) @ [(''thinkingLevel'', JString (tl_thinking_level e))]"
| "arm_json S (Entry_ActiveTools e) =
     base_json (at_base e) @ [(''activeToolNames'', JArray (map JString (at_active_tool_names e)))]"
| "arm_json S (Entry_Compaction e) =
     base_json (ce_base e) @
     [(''summary'', JString (ce_summary e)),
      (''retainedTail'', JArray (map (ser_message S) (ce_retained_tail e))),
      (''tokensBefore'', JInt (sint (ce_tokens_before e)))]
     @ json_opt ''details'' (\<lambda>d. d) (ce_details e) @ json_opt ''usage'' (ser_usage S) (ce_usage e)"
| "arm_json S (Entry_BranchSummary e) =
     base_json (bs_base e) @
     [(''fromId'', JString (bs_from_id e)), (''summary'', JString (bs_summary e))]
     @ json_opt ''details'' (\<lambda>d. d) (bs_details e) @ json_opt ''usage'' (ser_usage S) (bs_usage e)"
| "arm_json S (Entry_Custom e) =
     base_json (cu_base e) @ [(''customType'', JString (cu_custom_type e))]
     @ json_opt ''data'' (\<lambda>d. d) (cu_data e)"

definition base_keys :: "string list" where
  "base_keys = [''type'', ''id'', ''seq'', ''parentId'', ''timestamp'']"

definition flat_fields :: "'f serializers \<Rightarrow> 'f entry \<Rightarrow> (string \<times> 'f json) list" where
  "flat_fields S e =
     (let b = entry_base_of e in
      [(''type'', JString (entry_type e)), (''id'', JString (eb_id b)),
       (''seq'', JInt (int (eb_seq b))), (''parentId'', json_nullable JString (eb_parent_id b)),
       (''timestamp'', JInt (sint (eb_timestamp b)))]
      @ filter (\<lambda>(k, v). k \<notin> set base_keys) (arm_json S e))"

definition to_flat_json :: "'f serializers \<Rightarrow> 'f entry \<Rightarrow> 'f json" where
  "to_flat_json S e = json_object (flat_fields S e)"

end
