(* ===== verification/Session_Records.thy ===== *)
theory Session_Records
  imports Session_Types
begin

text \<open>
  The durable data model of \<open>crates/evo-harness/src/session/types.rs\<close>, records part:
  the operation log of a lane, the queries over a session, the mutations the state
  reduces, the log items and the fork options.
\<close>

subsection \<open>Lane records\<close>

record record_base =
  rb_id :: string
  rb_seq :: nat
  rb_lane :: string
  rb_timestamp :: i64

datatype 'f operation_intent =
    Intent_Run (run_original_prompt: "'f agent_message list") (run_initial_messages: "'f json list")
      (run_system_prompt_override: "string option") (run_resume_data: "(string, 'f json) btree option")
  | Intent_Compaction (comp_custom_instructions: "string option") (comp_result_entry_id: string)
  | Intent_Navigation (nav_target_id: "string option") (nav_summarize: bool)
      (nav_custom_instructions: "string option") (nav_label: "string option")
      (nav_summary_entry_id: "string option")

fun intent_kind :: "'f operation_intent \<Rightarrow> string" where
  "intent_kind (Intent_Run _ _ _ _) = ''run''"
| "intent_kind (Intent_Compaction _ _) = ''compaction''"
| "intent_kind (Intent_Navigation _ _ _ _ _) = ''navigation''"

record 'f operation_started =
  os_base :: record_base
  os_source_leaf_id :: "string option"
  os_intent :: "'f operation_intent"

record abort_requested =
  ar_base :: record_base
  ar_run_id :: string

datatype operation_outcome = Outcome_Completed | Outcome_Aborted | Outcome_Failed | Outcome_Declined

record operation_error =
  oe_code :: string
  oe_message :: string

record run_result_identity =
  ri_leaf_id :: string
  ri_final_entry_id :: "string option"
  ri_assistant_entry_id :: "string option"

record operation_finished =
  of_base :: record_base
  of_run_id :: string
  of_outcome :: operation_outcome
  of_error :: "operation_error option"
  of_result :: "run_result_identity option"

datatype compaction_reason = Reason_Manual | Reason_Threshold | Reason_Overflow

datatype step_kind = Step_Assistant | Step_BranchSummary | Step_Compaction

record step_attempt =
  sa_base :: record_base
  sa_run_id :: string
  sa_step :: step_kind
  sa_attempt :: u32
  sa_result_entry_id :: string
  sa_compaction_reason :: "compaction_reason option"

datatype frame_op = Frame_Append | Frame_CommitStream | Frame_ClearStream | Frame_ClearRun

record 'f assistant_frame =
  af_base :: record_base
  af_run_id :: string
  af_stream_index :: nat
  af_op :: frame_op
  af_frame :: "'f json option"

record retry_pending =
  rp_base :: record_base
  rp_run_id :: string
  rp_attempt :: u32
  rp_result_entry_id :: string

datatype tool_replay = Replay_Never | Replay_Safe

record 'f tool_started =
  ts_base :: record_base
  ts_run_id :: string
  ts_assistant_entry_id :: string
  ts_tool_index :: nat
  ts_tool_call_id :: string
  ts_tool_name :: string
  ts_effective_args :: "'f json"
  ts_result_entry_id :: string
  ts_replay :: tool_replay

datatype queue_kind = Queue_Steer | Queue_FollowUp | Queue_NextRun | Queue_Context

fun queue_kind_str :: "queue_kind \<Rightarrow> string" where
  "queue_kind_str Queue_Steer = ''steer''"
| "queue_kind_str Queue_FollowUp = ''followUp''"
| "queue_kind_str Queue_NextRun = ''nextRun''"
| "queue_kind_str Queue_Context = ''context''"

record 'f queue_enqueued =
  qe_base :: record_base
  qe_queue :: queue_kind
  qe_run_id :: "string option"
  qe_target :: "'f json"

record queue_cancelled =
  qc_base :: record_base
  qc_run_id :: "string option"
  qc_entry_id :: string

record 'f write_deferred =
  wd_base :: record_base
  wd_run_id :: string
  wd_target :: "'f json"

datatype usage_cause =
    Cause_Assistant | Cause_Compaction | Cause_BranchSummary | Cause_DeferredFetch | Cause_Tool
  | Cause_Hook | Cause_Adjustment

datatype session_stop_reason =
    SessionStop_Stop | SessionStop_Length | SessionStop_ToolUse | SessionStop_Error
  | SessionStop_Aborted | SessionStop_Deferred

record 'f usage_record =
  ur_base :: record_base
  ur_usage :: "'f usage"
  ur_cause :: usage_cause
  ur_run_id :: "string option"
  ur_entry_id :: "string option"
  ur_attempt :: "u32 option"
  ur_stop_reason :: "session_stop_reason option"
  ur_tool_call_id :: "string option"
  ur_details :: "'f json option"

datatype 'f lane_record =
    Rec_OperationStarted "'f operation_started"
  | Rec_AbortRequested abort_requested
  | Rec_OperationFinished operation_finished
  | Rec_StepAttempt step_attempt
  | Rec_ToolStarted "'f tool_started"
  | Rec_QueueEnqueued "'f queue_enqueued"
  | Rec_QueueCancelled queue_cancelled
  | Rec_WriteDeferred "'f write_deferred"
  | Rec_Usage "'f usage_record"
  | Rec_AssistantFrame "'f assistant_frame"
  | Rec_RetryPending retry_pending

fun record_base_of :: "'f lane_record \<Rightarrow> record_base" where
  "record_base_of (Rec_OperationStarted r) = os_base r"
| "record_base_of (Rec_AbortRequested r) = ar_base r"
| "record_base_of (Rec_OperationFinished r) = of_base r"
| "record_base_of (Rec_StepAttempt r) = sa_base r"
| "record_base_of (Rec_ToolStarted r) = ts_base r"
| "record_base_of (Rec_QueueEnqueued r) = qe_base r"
| "record_base_of (Rec_QueueCancelled r) = qc_base r"
| "record_base_of (Rec_WriteDeferred r) = wd_base r"
| "record_base_of (Rec_Usage r) = ur_base r"
| "record_base_of (Rec_AssistantFrame r) = af_base r"
| "record_base_of (Rec_RetryPending r) = rp_base r"

definition record_seq :: "'f lane_record \<Rightarrow> nat" where
  "record_seq r = rb_seq (record_base_of r)"

definition record_lane :: "'f lane_record \<Rightarrow> string" where
  "record_lane r = rb_lane (record_base_of r)"

definition record_id :: "'f lane_record \<Rightarrow> string" where
  "record_id r = rb_id (record_base_of r)"

fun record_type :: "'f lane_record \<Rightarrow> string" where
  "record_type (Rec_OperationStarted _) = ''operation_started''"
| "record_type (Rec_AbortRequested _) = ''abort_requested''"
| "record_type (Rec_OperationFinished _) = ''operation_finished''"
| "record_type (Rec_StepAttempt _) = ''step_attempt''"
| "record_type (Rec_ToolStarted _) = ''tool_started''"
| "record_type (Rec_QueueEnqueued _) = ''queue_enqueued''"
| "record_type (Rec_QueueCancelled _) = ''queue_cancelled''"
| "record_type (Rec_WriteDeferred _) = ''write_deferred''"
| "record_type (Rec_Usage _) = ''usage''"
| "record_type (Rec_AssistantFrame _) = ''assistant_frame''"
| "record_type (Rec_RetryPending _) = ''retry_pending''"

fun record_run_id :: "'f lane_record \<Rightarrow> string option" where
  "record_run_id (Rec_OperationStarted _) = None"
| "record_run_id (Rec_AbortRequested r) = Some (ar_run_id r)"
| "record_run_id (Rec_OperationFinished r) = Some (of_run_id r)"
| "record_run_id (Rec_StepAttempt r) = Some (sa_run_id r)"
| "record_run_id (Rec_ToolStarted r) = Some (ts_run_id r)"
| "record_run_id (Rec_QueueEnqueued r) = qe_run_id r"
| "record_run_id (Rec_QueueCancelled r) = qc_run_id r"
| "record_run_id (Rec_WriteDeferred r) = Some (wd_run_id r)"
| "record_run_id (Rec_Usage r) = ur_run_id r"
| "record_run_id (Rec_AssistantFrame r) = Some (af_run_id r)"
| "record_run_id (Rec_RetryPending r) = Some (rp_run_id r)"

subsection \<open>Queries\<close>

datatype entry_order = NewestFirst | OldestFirst

record entry_cursor =
  ec_after_seq :: nat

text \<open>The two archival custom types (\<open>tool_program_body.rs\<close>).\<close>

definition chunk_custom_type :: string where
  "chunk_custom_type = ''evo.tool_program.body_chunk.v1''"

definition commit_custom_type :: string where
  "commit_custom_type = ''evo.tool_program.body_commit.v1''"

definition is_tool_program_body_type :: "string \<Rightarrow> bool" where
  "is_tool_program_body_type ct \<longleftrightarrow> ct = chunk_custom_type \<or> ct = commit_custom_type"

record entry_query =
  eq_exclude_tool_program_bodies :: bool
  eq_entry_type :: "string option"
  eq_custom_type :: "string option"
  eq_entry_id :: "string option"
  eq_tool_call_id :: "string option"
  eq_message_boundary_only :: bool
  eq_outbox_key :: "string option"
  eq_order :: "entry_order option"
  eq_limit :: "nat option"
  eq_cursor :: "entry_cursor option"

definition entry_query_default :: entry_query where
  "entry_query_default =
     \<lparr>eq_exclude_tool_program_bodies = False, eq_entry_type = None, eq_custom_type = None,
      eq_entry_id = None, eq_tool_call_id = None, eq_message_boundary_only = False,
      eq_outbox_key = None, eq_order = None, eq_limit = None, eq_cursor = None\<rparr>"

record branch_bounds =
  bb_start :: "string option"
  bb_stop_at_type :: "string option"
  bb_stop_at_id :: "string option"

definition branch_bounds_default :: branch_bounds where
  "branch_bounds_default = \<lparr>bb_start = None, bb_stop_at_type = None, bb_stop_at_id = None\<rparr>"

record entry_ancestry =
  ea_id :: string
  ea_parent_id :: "string option"

record record_query =
  rq_lane :: "string option"
  rq_record_type :: "string option"
  rq_run_id :: "string option"
  rq_operation_kind :: "string option"
  rq_queue_kind :: "queue_kind option"
  rq_tool_call_id :: "string option"
  rq_target_entry_id :: "string option"
  rq_pending_queue_only :: bool
  rq_after_seq :: "nat option"
  rq_order :: "entry_order option"
  rq_limit :: "nat option"

definition record_query_default :: record_query where
  "record_query_default =
     \<lparr>rq_lane = None, rq_record_type = None, rq_run_id = None, rq_operation_kind = None,
      rq_queue_kind = None, rq_tool_call_id = None, rq_target_entry_id = None,
      rq_pending_queue_only = False, rq_after_seq = None, rq_order = None, rq_limit = None\<rparr>"

record record_page_query =
  pq_lane :: string
  pq_after_seq :: "nat option"
  pq_before_seq :: "nat option"
  pq_limit :: nat
  pq_from_end :: bool

record 'f record_page =
  pg_records :: "'f lane_record list"
  pg_total :: nat

record 'f session_stats =
  st_message_count :: nat
  st_cached_tokens :: i64
  st_uncached_tokens :: i64
  st_total_tokens :: i64
  st_cost_total :: 'f

definition session_stats_default :: "'f::zero session_stats" where
  "session_stats_default =
     \<lparr>st_message_count = 0, st_cached_tokens = 0, st_uncached_tokens = 0, st_total_tokens = 0,
      st_cost_total = 0\<rparr>"

record lane_pointer =
  lp_lane :: string
  lp_leaf_id :: "string option"

subsection \<open>Mutations and log items\<close>

datatype 'f log_item =
    Log_Entry nat "'f entry"
  | Log_Record nat "'f lane_record"
  | Log_Lane nat string "string option"
  | Log_FactName nat "string option"
  | Log_FactLabel nat string "string option"

fun log_item_seq :: "'f log_item \<Rightarrow> nat" where
  "log_item_seq (Log_Entry sq _) = sq"
| "log_item_seq (Log_Record sq _) = sq"
| "log_item_seq (Log_Lane sq _ _) = sq"
| "log_item_seq (Log_FactName sq _) = sq"
| "log_item_seq (Log_FactLabel sq _ _) = sq"

datatype 'f session_mutation =
    Mut_Entry nat i64 "string option" "'f entry"
  | Mut_Record "'f lane_record"
  | Mut_Lane nat string "string option"
  | Mut_FactName nat "string option"
  | Mut_FactLabel nat string "string option"

fun mutation_seq :: "'f session_mutation \<Rightarrow> nat" where
  "mutation_seq (Mut_Entry sq _ _ _) = sq"
| "mutation_seq (Mut_Lane sq _ _) = sq"
| "mutation_seq (Mut_FactName sq _) = sq"
| "mutation_seq (Mut_FactLabel sq _ _) = sq"
| "mutation_seq (Mut_Record r) = record_seq r"

record log_options =
  lo_after_seq :: "nat option"
  lo_limit :: "nat option"

datatype fork_position = Fork_Before | Fork_At

datatype fork_options = Fork_Tree | Fork_Branch "string option" "fork_position option"

end
