(* ===== verification/Entry_Meta.thy ===== *)
theory Entry_Meta
  imports Session_Records
begin

text \<open>
  \<open>crates/evo-harness/src/session/state/metadata.rs\<close>: the small typed facts the index
  keeps of each entry, so that branch walks and queries never touch a payload.
\<close>

record 'f entry_meta =
  em_kind :: string
  em_id :: string
  em_parent_id :: "string option"
  em_seq :: nat
  em_timestamp :: i64
  em_role :: "agent_message_role option"
  em_custom_type :: "string option"
  em_message_timestamp :: "i64 option"
  em_assistant_provider :: "string option"
  em_assistant_model :: "string option"
  em_model_change :: "(string \<times> string) option"
  em_thinking_level :: "string option"
  em_active_tools :: "string list option"
  em_usage :: "'f usage option"
  em_context_message_count :: nat
  em_stop_reason :: "stop_reason option"

fun is_deferred_message :: "'f agent_message \<Rightarrow> bool" where
  "is_deferred_message (AgentMessage_Assistant a) = (am_stop_reason a = StopReason_Deferred)"
| "is_deferred_message _ = False"

fun context_message_count_of :: "'f entry \<Rightarrow> nat" where
  "context_message_count_of (Entry_Message m) = (if is_deferred_message (me_message m) then 0 else 1)"
| "context_message_count_of (Entry_Compaction c) = 1 + length (ce_retained_tail c)"
| "context_message_count_of (Entry_BranchSummary b) = (if bs_summary b = [] then 0 else 1)"
| "context_message_count_of _ = 0"

definition meta_base :: "'f entry \<Rightarrow> 'f entry_meta" where
  "meta_base e =
     \<lparr>em_kind = entry_type e, em_id = entry_id e, em_parent_id = entry_parent_id e,
      em_seq = entry_seq e, em_timestamp = entry_timestamp e, em_role = entry_message_role e,
      em_custom_type = None, em_message_timestamp = None, em_assistant_provider = None,
      em_assistant_model = None, em_model_change = None, em_thinking_level = None,
      em_active_tools = None, em_usage = None,
      em_context_message_count = context_message_count_of e, em_stop_reason = None\<rparr>"

fun meta_message :: "'f agent_message \<Rightarrow> 'f entry_meta \<Rightarrow> 'f entry_meta" where
  "meta_message (AgentMessage_Assistant a) m =
     m\<lparr>em_message_timestamp := Some (am_timestamp a), em_assistant_provider := Some (am_provider a),
       em_assistant_model := Some (am_model a), em_usage := Some (am_usage a),
       em_stop_reason := Some (am_stop_reason a)\<rparr>"
| "meta_message (AgentMessage_User u) m = m\<lparr>em_message_timestamp := Some (um_timestamp u)\<rparr>"
| "meta_message _ m = m"

fun entry_meta_of :: "'f entry \<Rightarrow> 'f entry_meta" where
  "entry_meta_of (Entry_Message e) = meta_message (me_message e) (meta_base (Entry_Message e))"
| "entry_meta_of (Entry_ModelChange e) =
     (meta_base (Entry_ModelChange e))\<lparr>em_model_change := Some (mc_provider e, mc_model_id e)\<rparr>"
| "entry_meta_of (Entry_ThinkingLevel e) =
     (meta_base (Entry_ThinkingLevel e))\<lparr>em_thinking_level := Some (tl_thinking_level e)\<rparr>"
| "entry_meta_of (Entry_ActiveTools e) =
     (meta_base (Entry_ActiveTools e))\<lparr>em_active_tools := Some (at_active_tool_names e)\<rparr>"
| "entry_meta_of (Entry_Custom e) =
     (meta_base (Entry_Custom e))\<lparr>em_custom_type := Some (cu_custom_type e)\<rparr>"
| "entry_meta_of (Entry_Compaction e) = (meta_base (Entry_Compaction e))\<lparr>em_usage := ce_usage e\<rparr>"
| "entry_meta_of (Entry_BranchSummary e) =
     (meta_base (Entry_BranchSummary e))\<lparr>em_usage := bs_usage e\<rparr>"

definition meta_is_user :: "'f entry_meta \<Rightarrow> bool" where
  "meta_is_user m \<longleftrightarrow> em_role m = Some Role_User"

definition meta_is_transcript :: "'f entry_meta \<Rightarrow> bool" where
  "meta_is_transcript m \<longleftrightarrow> em_kind m = ''message'' \<or> em_kind m = ''compaction''"

definition query_order :: "entry_query \<Rightarrow> entry_order" where
  "query_order q = (case eq_order q of None \<Rightarrow> NewestFirst | Some ord \<Rightarrow> ord)"

definition matches_query :: "'f entry_meta \<Rightarrow> entry_query \<Rightarrow> bool" where
  "matches_query m q \<longleftrightarrow>
     \<not> (eq_exclude_tool_program_bodies q
        \<and> (case em_custom_type m of None \<Rightarrow> False | Some ct \<Rightarrow> is_tool_program_body_type ct))
     \<and> (case eq_entry_type q of None \<Rightarrow> True | Some k \<Rightarrow> em_kind m = k)
     \<and> (case eq_custom_type q of None \<Rightarrow> True | Some k \<Rightarrow> em_custom_type m = Some k)
     \<and> (case eq_entry_id q of None \<Rightarrow> True | Some i \<Rightarrow> em_id m = i)
     \<and> (case eq_cursor q of None \<Rightarrow> True
        | Some c \<Rightarrow> (case query_order q of
            OldestFirst \<Rightarrow> em_seq m > ec_after_seq c
          | NewestFirst \<Rightarrow> em_seq m < ec_after_seq c))
     \<and> (\<not> eq_message_boundary_only q
        \<or> em_role m = Some Role_User \<or> em_role m = Some Role_Assistant)"

lemma entry_meta_base [base_simps, simp]:
  "em_kind (entry_meta_of e) = entry_type e"
  "em_id (entry_meta_of e) = entry_id e"
  "em_parent_id (entry_meta_of e) = entry_parent_id e"
  "em_seq (entry_meta_of e) = entry_seq e"
  "em_role (entry_meta_of e) = entry_message_role e"
  "em_context_message_count (entry_meta_of e) = context_message_count_of e"
proof -
  have msg: "em_kind (meta_message m b) = em_kind b \<and> em_id (meta_message m b) = em_id b
     \<and> em_parent_id (meta_message m b) = em_parent_id b \<and> em_seq (meta_message m b) = em_seq b
     \<and> em_role (meta_message m b) = em_role b
     \<and> em_context_message_count (meta_message m b) = em_context_message_count b"
    for m :: "'f agent_message" and b
    by (cases m) auto
  show "em_kind (entry_meta_of e) = entry_type e" "em_id (entry_meta_of e) = entry_id e"
    "em_parent_id (entry_meta_of e) = entry_parent_id e" "em_seq (entry_meta_of e) = entry_seq e"
    "em_role (entry_meta_of e) = entry_message_role e"
    "em_context_message_count (entry_meta_of e) = context_message_count_of e"
    by (cases e; simp add: msg meta_base_def)+
qed

declare entry_meta_of.simps [simp del]

lemma meta_is_user_iff:
  "meta_is_user (entry_meta_of e) \<longleftrightarrow> (\<exists>u. entry_as_message e = Some (AgentMessage_User u))"
proof (cases e)
  case (Entry_Message m)
  then show ?thesis by (cases "me_message m") (auto simp: meta_is_user_def)
qed (auto simp: meta_is_user_def)

lemma matches_default [simp]:
  "matches_query m (entry_query_default\<lparr>eq_order := ord\<rparr>)"
  by (simp add: matches_query_def entry_query_default_def)

end
