(* ===== verification/Session_Index.thy ===== *)
theory Session_Index
  imports Entry_Meta
begin

text \<open>
  \<open>crates/evo-harness/src/session/state/index.rs\<close>: the payload-independent mutation
  reducer. The state \<open>IndexedState<P>\<close> is the record \<open>indexed_state\<close>, polymorphic
  in the payload; each arm of \<open>apply_mutation\<close> is a definition of its own. A failed
  mutation leaves the state as it was, so an error carries no state. The retirement of
  cleared frames (\<open>state.rs\<close>) is modelled as the in-place algorithm it is: split off
  the tail at the first retired record, rebuild it, and renumber the log's references.
\<close>

subsection \<open>The state\<close>

datatype 'f stored_log_item =
    Stored_Entry nat
  | Stored_Record nat
  | Stored_Other "'f log_item"

record ('f, 'p) indexed_state =
  ix_sequence :: nat
  ix_used_ids :: "string set"
  ix_entries :: "'p list"
  ix_metadata :: "'f entry_meta list"
  ix_entries_by_id :: "string \<rightharpoonup> nat"
  ix_nearest_user :: "nat option list"
  ix_records :: "'f lane_record list"
  ix_hot_append_count :: nat
  ix_open_ops :: "string \<rightharpoonup> (nat, 'f operation_started) btree"
  ix_lanes :: "(string, string option) btree"
  ix_lane_generations :: "(string, nat) btree"
  ix_log :: "'f stored_log_item list"
  ix_stats :: "'f session_stats"
  ix_name :: "string option"
  ix_labels :: "string \<rightharpoonup> string"

definition index_new :: "('f::zero, 'p) indexed_state" where
  "index_new =
     \<lparr>ix_sequence = 0, ix_used_ids = {}, ix_entries = [], ix_metadata = [],
      ix_entries_by_id = Map.empty, ix_nearest_user = [], ix_records = [],
      ix_hot_append_count = 0, ix_open_ops = Map.empty, ix_lanes = [(''main'', None)],
      ix_lane_generations = [(''main'', 0)], ix_log = [], ix_stats = session_stats_default,
      ix_name = None, ix_labels = Map.empty\<rparr>"

definition next_sequence :: "('f, 'p) indexed_state \<Rightarrow> nat" where
  "next_sequence s = ix_sequence s + 1"

definition slice_get :: "'a list \<Rightarrow> nat \<Rightarrow> session_error + 'a" where
  "slice_get xs i = (if i < length xs then Inr (xs ! i) else Inl Index_Panic)"

subsection \<open>Lane and identity checks\<close>

definition require_lane :: "('f, 'p) indexed_state \<Rightarrow> string \<Rightarrow> session_error + string option" where
  "require_lane s lane = ok_or (map_of (ix_lanes s) lane) (err_invalid_lane (''Lane not found: '' @ lane))"

definition lane_branch :: "('f, 'p) indexed_state \<Rightarrow> string \<Rightarrow> session_error + (string option \<times> nat)" where
  "lane_branch s lane =
     res_bind (require_lane s lane) (\<lambda>leaf.
     res_bind (ok_or (map_of (ix_lane_generations s) lane)
                (err_storage ''lane branch generation is unavailable'')) (\<lambda>generation.
     Inr (leaf, generation)))"

definition get_lanes :: "('f, 'p) indexed_state \<Rightarrow> lane_pointer list" where
  "get_lanes s = map (\<lambda>(lane, leaf). \<lparr>lp_lane = lane, lp_leaf_id = leaf\<rparr>) (ix_lanes s)"

definition validate_new_lane :: "('f, 'p) indexed_state \<Rightarrow> string \<Rightarrow> session_error + unit" where
  "validate_new_lane s lane =
     ensure (map_of (ix_lanes s) lane = None) (err_already_exists (''Lane already exists: '' @ lane))"

definition validate_target :: "('f, 'p) indexed_state \<Rightarrow> string option \<Rightarrow> session_error + unit" where
  "validate_target s target =
     (case target of None \<Rightarrow> Inr ()
      | Some i \<Rightarrow> ensure (ix_entries_by_id s i \<noteq> None) (err_not_found (''Entry not found: '' @ i)))"

definition validate_unused_id :: "('f, 'p) indexed_state \<Rightarrow> string \<Rightarrow> session_error + unit" where
  "validate_unused_id s i =
     ensure (i \<notin> ix_used_ids s) (err_already_exists (''Session id already exists: '' @ i))"

definition check_revision :: "('f, 'p) indexed_state \<Rightarrow> nat \<Rightarrow> session_error + unit" where
  "check_revision s expected =
     ensure (ix_sequence s = expected)
       (err_storage ''branch write conflict: history changed during conditional write'')"

definition resync_sequence :: "nat \<Rightarrow> ('f, 'p) indexed_state \<Rightarrow> ('f, 'p) indexed_state" where
  "resync_sequence sq s = (if sq > ix_sequence s then s\<lparr>ix_sequence := sq\<rparr> else s)"

definition reserve_cold_frame_identity ::
  "('f, 'p) indexed_state \<Rightarrow> string \<Rightarrow> nat \<Rightarrow> string \<Rightarrow> session_error + ('f, 'p) indexed_state" where
  "reserve_cold_frame_identity s i sq lane =
     res_bind (ensure (sq = ix_sequence s + 1)
                (err_invalid_entry ''non-consecutive cold frame sequence'')) (\<lambda>_.
     res_bind (ensure (map_of (ix_lanes s) lane \<noteq> None)
                (err_invalid_entry (''Invalid session mutation: references missing lane '' @ lane))) (\<lambda>_.
     res_bind (validate_unused_id s i) (\<lambda>_.
     Inr (s\<lparr>ix_sequence := sq, ix_used_ids := insert i (ix_used_ids s)\<rparr>))))"

definition reserve_cold_frame ::
  "('f, 'p) indexed_state \<Rightarrow> 'f assistant_frame \<Rightarrow> session_error + ('f, 'p) indexed_state" where
  "reserve_cold_frame s f =
     reserve_cold_frame_identity s (rb_id (af_base f)) (rb_seq (af_base f)) (rb_lane (af_base f))"

subsection \<open>Retiring cleared frames\<close>

definition is_append :: "'f lane_record \<Rightarrow> bool" where
  "is_append r = (case r of Rec_AssistantFrame f \<Rightarrow> af_op f = Frame_Append | _ \<Rightarrow> False)"

definition frame_retired :: "string \<Rightarrow> nat option \<Rightarrow> nat \<Rightarrow> 'f lane_record \<Rightarrow> bool" where
  "frame_retired run stream before r =
     (case r of
        Rec_AssistantFrame f \<Rightarrow>
          af_op f = Frame_Append \<and> rb_seq (af_base f) < before \<and> af_run_id f = run
          \<and> (case stream of None \<Rightarrow> True | Some i \<Rightarrow> af_stream_index f = i)
      | _ \<Rightarrow> False)"

text \<open>
  The loop over the split-off tail. Its state: the next kept index, the new index of each
  tail record (\<open>moved\<close>), the records kept so far and the count of resident appends.
\<close>

fun retire_tail ::
  "('f lane_record \<Rightarrow> bool) \<Rightarrow> 'f lane_record list \<Rightarrow> nat \<Rightarrow> nat option list \<Rightarrow> 'f lane_record list
     \<Rightarrow> nat \<Rightarrow> nat option list \<times> 'f lane_record list \<times> nat" where
  "retire_tail retired [] kept moved recs hot = (moved, recs, hot)"
| "retire_tail retired (r # rs) kept moved recs hot =
     (if \<not> retired r then retire_tail retired rs (kept + 1) (moved @ [Some kept]) (recs @ [r]) hot
      else retire_tail retired rs kept (moved @ [None]) recs (hot - 1))"

text \<open>The log items behind \<open>log_tail\<close>: a reference is renumbered or dropped.\<close>

fun remap_log ::
  "nat \<Rightarrow> nat option list \<Rightarrow> 'f stored_log_item list \<Rightarrow> session_error + 'f stored_log_item list" where
  "remap_log first moved [] = Inr []"
| "remap_log first moved (Stored_Record i # items) =
     (if i < first \<or> length moved \<le> i - first then Inl Index_Panic
      else res_bind (remap_log first moved items) (\<lambda>rest.
        Inr (case moved ! (i - first) of
               Some now \<Rightarrow> Stored_Record now # rest
             | None \<Rightarrow> rest)))"
| "remap_log first moved (item # items) =
     res_bind (remap_log first moved items) (\<lambda>rest. Inr (item # rest))"

definition log_tail_start :: "nat \<Rightarrow> 'f stored_log_item list \<Rightarrow> nat" where
  "log_tail_start first log =
     (case rposition (\<lambda>item. case item of Stored_Record i \<Rightarrow> i < first | _ \<Rightarrow> False) log of
        None \<Rightarrow> 0 | Some at \<Rightarrow> at + 1)"

definition retire_frames ::
  "('f, 'p) indexed_state \<Rightarrow> string \<Rightarrow> nat option \<Rightarrow> nat \<Rightarrow> session_error + ('f, 'p) indexed_state" where
  "retire_frames s run stream before =
     (if ix_hot_append_count s = 0 then Inr s
      else case position (frame_retired run stream before) (ix_records s) of
        None \<Rightarrow> Inr s
      | Some first \<Rightarrow>
          (let (moved, recs, hot) =
                 retire_tail (frame_retired run stream before) (drop first (ix_records s)) first []
                   (take first (ix_records s)) (ix_hot_append_count s);
               log_tail = log_tail_start first (ix_log s)
           in res_bind (remap_log first moved (drop log_tail (ix_log s))) (\<lambda>rest.
                Inr (s\<lparr>ix_records := recs, ix_hot_append_count := hot,
                       ix_log := take log_tail (ix_log s) @ rest\<rparr>))))"

definition retire_cleared_frames ::
  "('f, 'p) indexed_state \<Rightarrow> 'f assistant_frame \<Rightarrow> session_error + ('f, 'p) indexed_state" where
  "retire_cleared_frames s f =
     (case af_op f of
        Frame_ClearStream \<Rightarrow> retire_frames s (af_run_id f) (Some (af_stream_index f)) (rb_seq (af_base f))
      | Frame_ClearRun \<Rightarrow> retire_frames s (af_run_id f) None (rb_seq (af_base f))
      | _ \<Rightarrow> Inr s)"

subsection \<open>Applying a mutation\<close>

datatype 'f apply_outcome =
    Applied_Entry "'f entry" | Applied_Record "'f lane_record" | Applied_Lane | Applied_Fact

definition msg_missing :: "string \<Rightarrow> string \<Rightarrow> string" where
  "msg_missing what name = ''Invalid session mutation: references missing '' @ what @ '' '' @ name"

definition check_lane_chain ::
  "('f, 'p) indexed_state \<Rightarrow> string option \<Rightarrow> 'f entry \<Rightarrow> session_error + unit" where
  "check_lane_chain s lane e =
     (case lane of None \<Rightarrow> Inr ()
      | Some l \<Rightarrow>
          res_bind (ok_or (map_of (ix_lanes s) l) (err_invalid_entry (msg_missing ''lane'' l))) (\<lambda>leaf.
          ensure (entry_parent_id e = leaf)
            (err_invalid_entry ''Invalid session mutation: does not chain to the lane leaf'')))"

definition check_parent :: "('f, 'p) indexed_state \<Rightarrow> 'f entry \<Rightarrow> session_error + unit" where
  "check_parent s e =
     (case entry_parent_id e of None \<Rightarrow> Inr ()
      | Some p \<Rightarrow> ensure (ix_entries_by_id s p \<noteq> None) (err_invalid_entry (msg_missing ''parent'' p)))"

definition nearest_user_for ::
  "('f, 'p) indexed_state \<Rightarrow> 'f entry \<Rightarrow> session_error + nat option" where
  "nearest_user_for s e =
     (if meta_is_user (entry_meta_of e) then Inr (Some (length (ix_entries s)))
      else case Option.bind (entry_parent_id e) (ix_entries_by_id s) of
             None \<Rightarrow> Inr None
           | Some i \<Rightarrow> slice_get (ix_nearest_user s) i)"

definition set_lane_leaf ::
  "string option \<Rightarrow> string \<Rightarrow> (string, string option) btree \<Rightarrow> (string, string option) btree" where
  "set_lane_leaf lane i lanes =
     (case lane of None \<Rightarrow> lanes
      | Some l \<Rightarrow> (if map_of lanes l = None then lanes else bt_insert l (Some i) lanes))"

definition apply_entry ::
  "('f entry \<Rightarrow> 'p) \<Rightarrow> ('f, 'p) indexed_state \<Rightarrow> nat \<Rightarrow> string option \<Rightarrow> 'f entry
     \<Rightarrow> session_error + (('f, 'p) indexed_state \<times> 'f apply_outcome)" where
  "apply_entry payload s sq lane e =
     res_bind (validate_unused_id s (entry_id e)) (\<lambda>_.
     res_bind (check_lane_chain s lane e) (\<lambda>_.
     res_bind (check_parent s e) (\<lambda>_.
     res_bind (nearest_user_for s e) (\<lambda>nearest.
     Inr (s\<lparr>ix_nearest_user := ix_nearest_user s @ [nearest],
            ix_sequence := sq,
            ix_used_ids := insert (entry_id e) (ix_used_ids s),
            ix_entries_by_id := (ix_entries_by_id s)(entry_id e \<mapsto> length (ix_entries s)),
            ix_lanes := set_lane_leaf lane (entry_id e) (ix_lanes s),
            ix_log := ix_log s @ [Stored_Entry (length (ix_entries s))],
            ix_metadata := ix_metadata s @ [entry_meta_of e],
            ix_entries := ix_entries s @ [payload e],
            ix_stats := (if is_message_entry e
                         then (ix_stats s)\<lparr>st_message_count := st_message_count (ix_stats s) + 1\<rparr>
                         else ix_stats s)\<rparr>,
          Applied_Entry e)))))"

definition track_operation ::
  "string \<Rightarrow> nat \<Rightarrow> 'f lane_record \<Rightarrow> (string \<rightharpoonup> (nat, 'f operation_started) btree)
     \<Rightarrow> (string \<rightharpoonup> (nat, 'f operation_started) btree)" where
  "track_operation lane sq r ops =
     (case r of
        Rec_OperationStarted started \<Rightarrow>
          ops(lane \<mapsto> bt_insert sq started (case ops lane of None \<Rightarrow> [] | Some m \<Rightarrow> m))
      | Rec_OperationFinished finished \<Rightarrow>
          (case ops lane of None \<Rightarrow> ops
           | Some m \<Rightarrow>
               (let m' = filter (\<lambda>(k, started). rb_id (os_base started) \<noteq> of_run_id finished) m
                in if m' = [] then ops(lane := None) else ops(lane \<mapsto> m')))
      | _ \<Rightarrow> ops)"

definition add_usage :: "'f::plus lane_record \<Rightarrow> 'f session_stats \<Rightarrow> 'f session_stats" where
  "add_usage r st =
     (case r of
        Rec_Usage u \<Rightarrow>
          st\<lparr>st_cached_tokens := st_cached_tokens st + us_cache_read (ur_usage u),
             st_uncached_tokens :=
               st_uncached_tokens st + (us_input (ur_usage u) + us_cache_write (ur_usage u)),
             st_total_tokens := st_total_tokens st + us_total_tokens (ur_usage u),
             st_cost_total := st_cost_total st + uc_total (us_cost (ur_usage u))\<rparr>
      | _ \<Rightarrow> st)"

definition push_record ::
  "('f::plus, 'p) indexed_state \<Rightarrow> 'f lane_record \<Rightarrow> ('f, 'p) indexed_state" where
  "push_record s r =
     s\<lparr>ix_sequence := record_seq r,
       ix_used_ids := insert (record_id r) (ix_used_ids s),
       ix_open_ops := track_operation (record_lane r) (record_seq r) r (ix_open_ops s),
       ix_stats := add_usage r (ix_stats s),
       ix_log := ix_log s @ [Stored_Record (length (ix_records s))],
       ix_records := ix_records s @ [r],
       ix_hot_append_count := ix_hot_append_count s + (if is_append r then 1 else 0)\<rparr>"

definition apply_record ::
  "('f::plus, 'p) indexed_state \<Rightarrow> 'f lane_record
     \<Rightarrow> session_error + (('f, 'p) indexed_state \<times> 'f apply_outcome)" where
  "apply_record s r =
     res_bind (ensure (map_of (ix_lanes s) (record_lane r) \<noteq> None)
                (err_invalid_entry (msg_missing ''lane'' (record_lane r)))) (\<lambda>_.
     res_bind (validate_unused_id s (record_id r)) (\<lambda>_.
     res_bind (case r of
                 Rec_AssistantFrame f \<Rightarrow> retire_cleared_frames (push_record s r) f
               | _ \<Rightarrow> Inr (push_record s r)) (\<lambda>s'.
     Inr (s', Applied_Record r))))"

definition apply_lane ::
  "('f, 'p) indexed_state \<Rightarrow> nat \<Rightarrow> string \<Rightarrow> string option
     \<Rightarrow> session_error + (('f, 'p) indexed_state \<times> 'f apply_outcome)" where
  "apply_lane s sq lane leaf =
     res_bind (case leaf of None \<Rightarrow> Inr ()
               | Some l \<Rightarrow> ensure (ix_entries_by_id s l \<noteq> None)
                            (err_invalid_entry (msg_missing ''lane target'' l))) (\<lambda>_.
     Inr (s\<lparr>ix_sequence := sq,
            ix_lanes := bt_insert lane leaf (ix_lanes s),
            ix_lane_generations := bt_insert lane sq (ix_lane_generations s),
            ix_log := ix_log s @ [Stored_Other (Log_Lane sq lane leaf)]\<rparr>,
          Applied_Lane))"

definition apply_fact_name ::
  "('f, 'p) indexed_state \<Rightarrow> nat \<Rightarrow> string option
     \<Rightarrow> session_error + (('f, 'p) indexed_state \<times> 'f apply_outcome)" where
  "apply_fact_name s sq name =
     Inr (s\<lparr>ix_sequence := sq, ix_name := name,
            ix_log := ix_log s @ [Stored_Other (Log_FactName sq name)]\<rparr>,
          Applied_Fact)"

definition apply_fact_label ::
  "('f, 'p) indexed_state \<Rightarrow> nat \<Rightarrow> string \<Rightarrow> string option
     \<Rightarrow> session_error + (('f, 'p) indexed_state \<times> 'f apply_outcome)" where
  "apply_fact_label s sq target label =
     res_bind (ensure (ix_entries_by_id s target \<noteq> None)
                (err_invalid_entry (msg_missing ''label target'' target))) (\<lambda>_.
     Inr (s\<lparr>ix_sequence := sq,
            ix_labels := (ix_labels s)(target := label),
            ix_log := ix_log s @ [Stored_Other (Log_FactLabel sq target label)]\<rparr>,
          Applied_Fact))"

definition apply_mutation ::
  "('f entry \<Rightarrow> 'p) \<Rightarrow> ('f::plus, 'p) indexed_state \<Rightarrow> 'f session_mutation
     \<Rightarrow> session_error + (('f, 'p) indexed_state \<times> 'f apply_outcome)" where
  "apply_mutation payload s m =
     res_bind (ensure (mutation_seq m = ix_sequence s + 1)
        (err_invalid_entry
          (''Invalid session mutation: has non-consecutive seq '' @ show_nat (mutation_seq m)))) (\<lambda>_.
     (case m of
        Mut_Entry sq ts lane e \<Rightarrow> apply_entry payload s sq lane e
      | Mut_Record r \<Rightarrow> apply_record s r
      | Mut_Lane sq lane leaf \<Rightarrow> apply_lane s sq lane leaf
      | Mut_FactName sq name \<Rightarrow> apply_fact_name s sq name
      | Mut_FactLabel sq target label \<Rightarrow> apply_fact_label s sq target label))"

text \<open>The state after a mutation, without the outcome: the step that replay folds.\<close>

definition step_mutation ::
  "('f entry \<Rightarrow> 'p) \<Rightarrow> ('f::plus, 'p) indexed_state \<Rightarrow> 'f session_mutation
     \<Rightarrow> session_error + ('f, 'p) indexed_state" where
  "step_mutation payload s m = res_bind (apply_mutation payload s m) (\<lambda>(s', out). Inr s')"

end
