(* ===== verification/Session_Retire.thy ===== *)
theory Session_Retire
  imports Session_Index
begin

text \<open>
  The retirement of cleared frames (\<open>retire_frames\<close> in
  \<open>crates/evo-harness/src/session/state.rs\<close>) against its specification. The code
  splits the records, rebuilds the tail and renumbers only the log items behind the last
  reference to an untouched record; the specification filters the records and renumbers
  every reference by counting. The two agree on every state whose log lists its records
  in order, and then no slice index is out of range.
\<close>

subsection \<open>References of the log\<close>

definition record_ref :: "'f stored_log_item \<Rightarrow> nat option" where
  "record_ref item = (case item of Stored_Record i \<Rightarrow> Some i | _ \<Rightarrow> None)"

definition entry_ref :: "'f stored_log_item \<Rightarrow> nat option" where
  "entry_ref item = (case item of Stored_Entry i \<Rightarrow> Some i | _ \<Rightarrow> None)"

lemma ref_simps [simp]:
  "record_ref (Stored_Record i) = Some i" "record_ref (Stored_Entry i) = None"
  "record_ref (Stored_Other x) = None"
  "entry_ref (Stored_Record i) = None" "entry_ref (Stored_Entry i) = Some i"
  "entry_ref (Stored_Other x) = None"
  by (simp_all add: record_ref_def entry_ref_def)

lemma record_ref_Some_iff [simp]: "record_ref item = Some i \<longleftrightarrow> item = Stored_Record i"
  by (cases item) auto

lemma entry_ref_Some_iff [simp]: "entry_ref item = Some i \<longleftrightarrow> item = Stored_Entry i"
  by (cases item) auto

lemma filter_map_record_ref_set:
  "i \<in> set (filter_map record_ref log) \<longleftrightarrow> Stored_Record i \<in> set log"
  by (auto simp: set_filter_map)

subsection \<open>The specification\<close>

definition renumber :: "('a \<Rightarrow> bool) \<Rightarrow> 'a list \<Rightarrow> nat \<Rightarrow> nat option" where
  "renumber P xs i = (if P (xs ! i) then None else Some (length (filter (\<lambda>x. \<not> P x) (take i xs))))"

definition renumber_item ::
  "('f lane_record \<Rightarrow> bool) \<Rightarrow> 'f lane_record list \<Rightarrow> 'f stored_log_item \<Rightarrow> 'f stored_log_item option" where
  "renumber_item P rs item =
     (case item of Stored_Record i \<Rightarrow> map_option Stored_Record (renumber P rs i) | _ \<Rightarrow> Some item)"

definition retire_spec ::
  "('f lane_record \<Rightarrow> bool) \<Rightarrow> ('f, 'p) indexed_state \<Rightarrow> ('f, 'p) indexed_state" where
  "retire_spec P s =
     s\<lparr>ix_records := filter (\<lambda>r. \<not> P r) (ix_records s),
       ix_hot_append_count := length (filter is_append (filter (\<lambda>r. \<not> P r) (ix_records s))),
       ix_log := filter_map (renumber_item P (ix_records s)) (ix_log s)\<rparr>"

definition records_in_order :: "('f, 'p) indexed_state \<Rightarrow> bool" where
  "records_in_order s \<longleftrightarrow>
     filter_map record_ref (ix_log s) = [0..<length (ix_records s)]
     \<and> ix_hot_append_count s = length (filter is_append (ix_records s))"

subsection \<open>The tail loop\<close>

lemma retire_tail_eq:
  "retire_tail P rs kept moved recs hot =
     (moved @ map (\<lambda>j. if P (rs ! j) then None
                       else Some (kept + length (filter (\<lambda>r. \<not> P r) (take j rs)))) [0..<length rs],
      recs @ filter (\<lambda>r. \<not> P r) rs,
      hot - length (filter P rs))"
proof (induction rs arbitrary: kept moved recs hot)
  case (Cons r rs)
  have "[0..<length (r # rs)] = 0 # map Suc [0..<length rs]"
    by (simp add: upt_conv_Cons map_Suc_upt del: upt_Suc)
  then show ?case by (auto simp: Cons.IH comp_def)
qed simp

lemma remap_log_eq:
  assumes "\<forall>i. Stored_Record i \<in> set items \<longrightarrow> first \<le> i \<and> i - first < length moved"
  shows "remap_log first moved items =
     Inr (filter_map (\<lambda>item. case item of
            Stored_Record i \<Rightarrow> map_option Stored_Record (moved ! (i - first))
          | _ \<Rightarrow> Some item) items)"
  using assms
proof (induction items)
  case (Cons item items)
  then have IH: "remap_log first moved items =
     Inr (filter_map (\<lambda>item. case item of
            Stored_Record i \<Rightarrow> map_option Stored_Record (moved ! (i - first))
          | _ \<Rightarrow> Some item) items)" by simp
  show ?case
    using Cons.prems by (cases item) (auto simp: IH split: option.split)
qed simp

lemma log_split_at_first:
  assumes refs: "filter_map record_ref log = [0..<n]" and first: "first \<le> n"
  defines "t \<equiv> log_tail_start first log"
  shows "filter_map record_ref (take t log) = [0..<first]"
    and "filter_map record_ref (drop t log) = [first..<n]"
proof -
  let ?P = "\<lambda>item. case item of Stored_Record i \<Rightarrow> i < first | _ \<Rightarrow> False"
  have split: "filter_map record_ref (take t log) @ filter_map record_ref (drop t log) = [0..<n]"
    using refs by (metis append_take_drop_id filter_map_append)
  have low: "\<forall>i \<in> set (filter_map record_ref (take t log)). i < first"
  proof (cases "rposition ?P log")
    case None
    then show ?thesis by (simp add: t_def log_tail_start_def)
  next
    case (Some a)
    then have "a < length log \<and> ?P (log ! a)"
      using rposition_SomeD [of ?P log a] by blast
    then obtain i where a: "a < length log" "log ! a = Stored_Record i" "i < first"
      by (cases "log ! a") auto
    have t: "take t log = take a log @ [Stored_Record i]"
      using Some a by (simp add: t_def log_tail_start_def take_Suc_conv_app_nth)
    have "sorted [0..<n]" by simp
    then have "sorted (filter_map record_ref (take t log))"
      using split by (metis sorted_append)
    then show ?thesis using a(3) by (auto simp: t sorted_append)
  qed
  have high: "\<forall>i \<in> set (filter_map record_ref (drop t log)). first \<le> i"
  proof (cases "rposition ?P log")
    case None
    then have "\<forall>item \<in> set log. \<not> ?P item" by (simp add: rposition_None_iff)
    then show ?thesis
      by (auto simp: set_filter_map t_def log_tail_start_def None not_less dest!: bspec)
  next
    case (Some a)
    then have "\<forall>item \<in> set (drop t log). \<not> ?P item"
      by (auto dest!: rposition_SomeD simp: t_def log_tail_start_def)
    then show ?thesis
      by (auto simp: set_filter_map not_less dest!: bspec)
  qed
  from upt_split_at [OF split low high first]
  show "filter_map record_ref (take t log) = [0..<first]"
    and "filter_map record_ref (drop t log) = [first..<n]" by auto
qed

lemma frame_retired_append: "frame_retired run st sq r \<Longrightarrow> is_append r"
  by (cases r) (auto simp: frame_retired_def is_append_def)

lemma retired_filter_comm:
  assumes "\<And>r. P r \<Longrightarrow> is_append r"
  shows "length (filter is_append rs) - length (filter P rs)
           = length (filter is_append (filter (\<lambda>r. \<not> P r) rs))"
proof -
  have "length (filter is_append rs)
      = length (filter is_append (filter (\<lambda>r. \<not> P r) rs)) + length (filter P rs)"
    using assms by (induction rs) auto
  then show ?thesis by simp
qed

lemma retire_spec_id:
  assumes wf: "records_in_order s" and none: "\<forall>r \<in> set (ix_records s). \<not> P r"
  shows "retire_spec P s = s"
proof -
  have f: "filter (\<lambda>r. \<not> P r) (ix_records s) = ix_records s"
    using none by (simp add: filter_id_conv)
  have "renumber_item P (ix_records s) item = Some item" if "item \<in> set (ix_log s)" for item
  proof (cases item)
    case (Stored_Record i)
    then have "i \<in> set (filter_map record_ref (ix_log s))"
      using that by (simp add: filter_map_record_ref_set)
    then have i: "i < length (ix_records s)"
      using wf by (simp add: records_in_order_def)
    moreover have "filter (\<lambda>x. \<not> P x) (take i (ix_records s)) = take i (ix_records s)"
      using none by (auto simp: filter_id_conv dest: in_set_takeD)
    ultimately show ?thesis
      using none Stored_Record by (simp add: renumber_item_def renumber_def)
  qed (simp_all add: renumber_item_def)
  then have "filter_map (renumber_item P (ix_records s)) (ix_log s) = ix_log s"
    using filter_map_cong [of "ix_log s" "renumber_item P (ix_records s)" Some] by simp
  then show ?thesis
    using wf f by (simp add: retire_spec_def records_in_order_def)
qed

subsection \<open>The algorithm refines its specification\<close>

lemma renumber_before:
  assumes pos: "position P xs = Some first" and i: "i < first"
  shows "renumber P xs i = Some i"
proof -
  from pos have f: "first < length xs" "\<forall>j < first. \<not> P (xs ! j)"
    by (auto simp: position_Some_iff)
  have "\<forall>x \<in> set (take i xs). \<not> P x"
    using f i by (auto simp: in_set_conv_nth)
  then have "filter (\<lambda>x. \<not> P x) (take i xs) = take i xs"
    by (simp add: filter_id_conv)
  with f i show ?thesis by (simp add: renumber_def)
qed

lemma renumber_from:
  assumes pos: "position P xs = Some first" and i: "first \<le> i" "i < length xs"
  shows "renumber P xs i =
    (if P (drop first xs ! (i - first)) then None
     else Some (first + length (filter (\<lambda>x. \<not> P x) (take (i - first) (drop first xs)))))"
proof -
  from pos have f: "first < length xs" "\<forall>j < first. \<not> P (xs ! j)"
    by (auto simp: position_Some_iff)
  have "take i xs = take first xs @ take (i - first) (drop first xs)"
    using i by (metis le_add_diff_inverse take_add)
  moreover have "filter (\<lambda>x. \<not> P x) (take first xs) = take first xs"
    using f by (auto simp: filter_id_conv in_set_conv_nth)
  ultimately show ?thesis
    using f i by (simp add: renumber_def)
qed

lemma remap_log_renumbers:
  assumes refs: "filter_map record_ref log = [0..<length rs]"
    and pos: "position P rs = Some first"
    and moved: "moved = map (\<lambda>j. if P (drop first rs ! j) then None
                  else Some (first + length (filter (\<lambda>r. \<not> P r) (take j (drop first rs)))))
                [0..<length (drop first rs)]"
  defines "t \<equiv> log_tail_start first log"
  shows "\<exists>rest. remap_log first moved (drop t log) = Inr rest
    \<and> take t log @ rest = filter_map (renumber_item P rs) log"
proof -
  from pos have f: "first < length rs" by (auto simp: position_Some_iff)
  note split = log_split_at_first [OF refs less_imp_le [OF f], folded t_def]
  have low: "i < first" if "Stored_Record i \<in> set (take t log)" for i
  proof -
    from that have "i \<in> set (filter_map record_ref (take t log))"
      by (simp add: filter_map_record_ref_set)
    then show ?thesis by (simp add: split)
  qed
  have high: "first \<le> i \<and> i < length rs" if "Stored_Record i \<in> set (drop t log)" for i
  proof -
    from that have "i \<in> set (filter_map record_ref (drop t log))"
      by (simp add: filter_map_record_ref_set)
    then show ?thesis by (simp add: split)
  qed
  have len: "length moved = length rs - first" by (simp add: moved)
  let ?g = "\<lambda>item. case item of
            Stored_Record i \<Rightarrow> map_option Stored_Record (moved ! (i - first)) | _ \<Rightarrow> Some item"
  have r: "remap_log first moved (drop t log) = Inr (filter_map ?g (drop t log))"
  proof (rule remap_log_eq, intro allI impI)
    fix i
    assume "Stored_Record i \<in> set (drop t log)"
    from high [OF this] show "first \<le> i \<and> i - first < length moved"
      using len by auto
  qed
  have "filter_map ?g (drop t log) = filter_map (renumber_item P rs) (drop t log)"
  proof (rule filter_map_cong)
    fix item
    assume item: "item \<in> set (drop t log)"
    show "?g item = renumber_item P rs item"
    proof (cases item)
      case (Stored_Record i)
      with high [of i] item have "first \<le> i" "i < length rs" by auto
      then show ?thesis
        using Stored_Record by (simp add: renumber_item_def renumber_from [OF pos] moved)
    qed (simp_all add: renumber_item_def)
  qed
  moreover have "filter_map (renumber_item P rs) (take t log) = take t log"
  proof -
    have "filter_map (renumber_item P rs) (take t log) = filter_map Some (take t log)"
    proof (rule filter_map_cong)
      fix item
      assume item: "item \<in> set (take t log)"
      show "renumber_item P rs item = Some item"
      proof (cases item)
        case (Stored_Record i)
        with low [of i] item have "i < first" by simp
        then show ?thesis
          using Stored_Record by (simp add: renumber_item_def renumber_before [OF pos])
      qed (simp_all add: renumber_item_def)
    qed
    then show ?thesis by simp
  qed
  ultimately have "take t log @ filter_map ?g (drop t log) = filter_map (renumber_item P rs) log"
    by (metis append_take_drop_id filter_map_append)
  with r show ?thesis by blast
qed

lemma retire_frames_eq:
  assumes wf: "records_in_order s"
  shows "retire_frames s run stream before = Inr (retire_spec (frame_retired run stream before) s)"
proof -
  let ?P = "frame_retired run stream before" and ?rs = "ix_records s"
  have refs: "filter_map record_ref (ix_log s) = [0..<length ?rs]"
    and hot: "ix_hot_append_count s = length (filter is_append ?rs)"
    using wf by (auto simp: records_in_order_def)
  show ?thesis
  proof (cases "ix_hot_append_count s = 0")
    case True
    then have "\<forall>r \<in> set ?rs. \<not> ?P r"
      using hot by (auto simp: filter_empty_conv dest: frame_retired_append)
    then show ?thesis
      using True by (simp add: retire_frames_def retire_spec_id [OF wf])
  next
    case hot0: False
    show ?thesis
    proof (cases "position ?P ?rs")
      case None
      then have "\<forall>r \<in> set ?rs. \<not> ?P r" by (simp add: position_None_iff)
      then show ?thesis
        using None hot0 by (simp add: retire_frames_def retire_spec_id [OF wf])
    next
      case (Some first)
      let ?moved = "map (\<lambda>j. if ?P (drop first ?rs ! j) then None
                  else Some (first + length (filter (\<lambda>r. \<not> ?P r) (take j (drop first ?rs)))))
                [0..<length (drop first ?rs)]"
      obtain rest where rest:
        "remap_log first ?moved (drop (log_tail_start first (ix_log s)) (ix_log s)) = Inr rest"
        "take (log_tail_start first (ix_log s)) (ix_log s) @ rest
           = filter_map (renumber_item ?P ?rs) (ix_log s)"
        using remap_log_renumbers [OF refs Some refl] by blast
      have recs: "take first ?rs @ filter (\<lambda>r. \<not> ?P r) (drop first ?rs) = filter (\<lambda>r. \<not> ?P r) ?rs"
        using filter_take_position [OF Some] by simp
      have "length (filter ?P (drop first ?rs)) = length (filter ?P ?rs)"
      proof -
        have "filter ?P (take first ?rs) = []"
          using Some by (auto simp: position_Some_iff filter_empty_conv in_set_conv_nth)
        then show ?thesis by (metis append_Nil append_take_drop_id filter_append)
      qed
      then have cnt: "ix_hot_append_count s - length (filter ?P (drop first ?rs))
          = length (filter is_append (filter (\<lambda>r. \<not> ?P r) ?rs))"
        using hot by (simp add: retired_filter_comm frame_retired_append)
      show ?thesis
        using hot0 Some rest recs cnt
        by (simp add: retire_frames_def retire_tail_eq retire_spec_def Let_def)
    qed
  qed
qed

end
