(* ===== verification/Session_Wf.thy ===== *)
theory Session_Wf
  imports Session_Retire
begin

text \<open>
  The well-formedness of the indexed state and its preservation by every operation that
  changes it: each component of the invariant has one lemma per operation, and the
  summary lemmas state the whole invariant for \<open>apply_mutation\<close>, the reservation of
  a cold frame and the resynchronisation of the sequence.
\<close>

subsection \<open>The invariant\<close>

text \<open>The entry table: identifiers and indexes agree, parents precede their children.\<close>

definition wf_table :: "('f, 'p) indexed_state \<Rightarrow> bool" where
  "wf_table s \<longleftrightarrow>
     length (ix_entries s) = length (ix_metadata s)
     \<and> (\<forall>i < length (ix_metadata s). ix_entries_by_id s (em_id (ix_metadata s ! i)) = Some i)
     \<and> (\<forall>k i. ix_entries_by_id s k = Some i \<longrightarrow>
          i < length (ix_metadata s) \<and> em_id (ix_metadata s ! i) = k)
     \<and> (\<forall>i < length (ix_metadata s). \<forall>p. em_parent_id (ix_metadata s ! i) = Some p \<longrightarrow>
          (\<exists>j < i. ix_entries_by_id s p = Some j))"

text \<open>The index of the nearest user message at or above an entry.\<close>

definition wf_users :: "('f, 'p) indexed_state \<Rightarrow> bool" where
  "wf_users s \<longleftrightarrow>
     length (ix_nearest_user s) = length (ix_metadata s)
     \<and> (\<forall>i < length (ix_metadata s).
          ix_nearest_user s ! i =
            (if meta_is_user (ix_metadata s ! i) then Some i
             else case Option.bind (em_parent_id (ix_metadata s ! i)) (ix_entries_by_id s) of
                    None \<Rightarrow> None | Some j \<Rightarrow> ix_nearest_user s ! j))"

definition live_ids :: "('f, 'p) indexed_state \<Rightarrow> string list" where
  "live_ids s = map em_id (ix_metadata s) @ map record_id (ix_records s)"

definition wf_ids :: "('f, 'p) indexed_state \<Rightarrow> bool" where
  "wf_ids s \<longleftrightarrow> distinct (live_ids s) \<and> set (live_ids s) \<subseteq> ix_used_ids s"

definition lane_item :: "string \<Rightarrow> 'f stored_log_item \<Rightarrow> nat option" where
  "lane_item lane item =
     (case item of
        Stored_Other (Log_Lane sq l leaf) \<Rightarrow> (if l = lane then Some sq else None)
      | _ \<Rightarrow> None)"

definition last_lane_seq :: "string \<Rightarrow> 'f stored_log_item list \<Rightarrow> nat" where
  "last_lane_seq lane log =
     (let sqs = filter_map (lane_item lane) log in if sqs = [] then 0 else last sqs)"

definition lanes_logged :: "('f, 'p) indexed_state \<Rightarrow> bool" where
  "lanes_logged s \<longleftrightarrow>
     (\<forall>sq lane leaf. Stored_Other (Log_Lane sq lane leaf) \<in> set (ix_log s) \<longrightarrow>
        map_of (ix_lanes s) lane \<noteq> None)"

definition wf_lanes :: "('f, 'p) indexed_state \<Rightarrow> bool" where
  "wf_lanes s \<longleftrightarrow>
     bt_sorted (ix_lanes s)
     \<and> map_of (ix_lanes s) ''main'' \<noteq> None
     \<and> (\<forall>lane leaf. map_of (ix_lanes s) lane = Some (Some leaf) \<longrightarrow> ix_entries_by_id s leaf \<noteq> None)
     \<and> ix_lane_generations s = map (\<lambda>(lane, leaf). (lane, last_lane_seq lane (ix_log s))) (ix_lanes s)
     \<and> (\<forall>r \<in> set (ix_records s). map_of (ix_lanes s) (record_lane r) \<noteq> None)
     \<and> lanes_logged s
     \<and> (\<forall>i. ix_labels s i \<noteq> None \<longrightarrow> ix_entries_by_id s i \<noteq> None)"

definition stored_seq :: "('f, 'p) indexed_state \<Rightarrow> 'f stored_log_item \<Rightarrow> nat" where
  "stored_seq s item =
     (case item of
        Stored_Entry i \<Rightarrow> em_seq (ix_metadata s ! i)
      | Stored_Record i \<Rightarrow> record_seq (ix_records s ! i)
      | Stored_Other x \<Rightarrow> log_item_seq x)"

fun is_fact_item :: "'f stored_log_item \<Rightarrow> bool" where
  "is_fact_item (Stored_Other (Log_Entry _ _)) = False"
| "is_fact_item (Stored_Other (Log_Record _ _)) = False"
| "is_fact_item _ = True"

definition log_seqs :: "('f, 'p) indexed_state \<Rightarrow> nat list" where
  "log_seqs s = map (stored_seq s) (ix_log s)"

definition wf_log :: "('f, 'p) indexed_state \<Rightarrow> bool" where
  "wf_log s \<longleftrightarrow>
     records_in_order s
     \<and> filter_map entry_ref (ix_log s) = [0..<length (ix_metadata s)]
     \<and> list_all is_fact_item (ix_log s)
     \<and> sorted_wrt (<) (0 # log_seqs s)
     \<and> (\<forall>sq \<in> set (log_seqs s). sq \<le> ix_sequence s)"

text \<open>Open operations and statistics are what the records determine.\<close>

definition open_ops_of :: "'f lane_record list \<Rightarrow> (string \<rightharpoonup> (nat, 'f operation_started) btree)" where
  "open_ops_of rs = fold (\<lambda>r. track_operation (record_lane r) (record_seq r) r) rs Map.empty"

definition stats_of :: "'f::{zero,plus} entry_meta list \<Rightarrow> 'f lane_record list \<Rightarrow> 'f session_stats" where
  "stats_of ms rs =
     (fold add_usage rs session_stats_default)
       \<lparr>st_message_count := length (filter (\<lambda>m. em_kind m = ''message'') ms)\<rparr>"

definition wf_derived :: "('f::{zero,plus}, 'p) indexed_state \<Rightarrow> bool" where
  "wf_derived s \<longleftrightarrow>
     ix_open_ops s = open_ops_of (ix_records s) \<and> ix_stats s = stats_of (ix_metadata s) (ix_records s)"

text \<open>A clear covers the appends it retires; no covered append stays resident.\<close>

definition covered :: "'f lane_record \<Rightarrow> 'f lane_record \<Rightarrow> bool" where
  "covered c r =
     (case c of
        Rec_AssistantFrame f \<Rightarrow>
          (case af_op f of
             Frame_ClearStream \<Rightarrow>
               frame_retired (af_run_id f) (Some (af_stream_index f)) (rb_seq (af_base f)) r
           | Frame_ClearRun \<Rightarrow> frame_retired (af_run_id f) None (rb_seq (af_base f)) r
           | _ \<Rightarrow> False)
      | _ \<Rightarrow> False)"

definition wf_frames :: "('f, 'p) indexed_state \<Rightarrow> bool" where
  "wf_frames s \<longleftrightarrow> (\<forall>c \<in> set (ix_records s). \<forall>r \<in> set (ix_records s). \<not> covered c r)"

definition index_wf :: "('f::{zero,plus}, 'p) indexed_state \<Rightarrow> bool" where
  "index_wf s \<longleftrightarrow>
     wf_table s \<and> wf_users s \<and> wf_ids s \<and> wf_lanes s \<and> wf_log s \<and> wf_derived s \<and> wf_frames s"

lemmas index_wf_defs = wf_table_def wf_users_def wf_ids_def wf_lanes_def wf_log_def
  wf_derived_def wf_frames_def

text \<open>
  The storage stamps an entry with the sequence number of its mutation; a mutation that is
  replayed from a log carries the entry's own number.
\<close>

fun well_stamped :: "'f session_mutation \<Rightarrow> bool" where
  "well_stamped (Mut_Entry sq ts lane e) = (entry_seq e = sq)"
| "well_stamped _ = True"

lemma index_wf_new [simp]: "index_wf index_new"
  by (simp add: index_wf_def index_wf_defs index_new_def live_ids_def records_in_order_def
      log_seqs_def open_ops_of_def stats_of_def session_stats_default_def last_lane_seq_def
      lanes_logged_def)

subsection \<open>Inversion of the operations\<close>

definition extend_entry ::
  "('f entry \<Rightarrow> 'p) \<Rightarrow> ('f, 'p) indexed_state \<Rightarrow> nat \<Rightarrow> string option \<Rightarrow> 'f entry \<Rightarrow> nat option
     \<Rightarrow> ('f, 'p) indexed_state" where
  "extend_entry payload s sq lane e nearest =
     s\<lparr>ix_nearest_user := ix_nearest_user s @ [nearest],
       ix_sequence := sq,
       ix_used_ids := insert (entry_id e) (ix_used_ids s),
       ix_entries_by_id := (ix_entries_by_id s)(entry_id e \<mapsto> length (ix_entries s)),
       ix_lanes := set_lane_leaf lane (entry_id e) (ix_lanes s),
       ix_log := ix_log s @ [Stored_Entry (length (ix_entries s))],
       ix_metadata := ix_metadata s @ [entry_meta_of e],
       ix_entries := ix_entries s @ [payload e],
       ix_stats := (if is_message_entry e
                    then (ix_stats s)\<lparr>st_message_count := st_message_count (ix_stats s) + 1\<rparr>
                    else ix_stats s)\<rparr>"

lemma apply_entry_Inr_iff:
  "apply_entry payload s sq lane e = Inr (t, out) \<longleftrightarrow>
     (\<exists>nearest. entry_id e \<notin> ix_used_ids s \<and> check_lane_chain s lane e = Inr ()
        \<and> check_parent s e = Inr () \<and> nearest_user_for s e = Inr nearest
        \<and> t = extend_entry payload s sq lane e nearest \<and> out = Applied_Entry e)"
  by (auto simp: apply_entry_def extend_entry_def validate_unused_id_def)

lemma covered_append: "covered c r \<Longrightarrow> is_append r"
  by (auto simp: covered_def split: lane_record.splits frame_op.splits dest: frame_retired_append)

lemma records_in_order_push: "records_in_order s \<Longrightarrow> records_in_order (push_record s r)"
  by (simp add: records_in_order_def push_record_def)

lemma apply_record_Inr_iff:
  assumes wf: "records_in_order s"
  shows "apply_record s r = Inr (t, out) \<longleftrightarrow>
     map_of (ix_lanes s) (record_lane r) \<noteq> None \<and> record_id r \<notin> ix_used_ids s
     \<and> t = retire_spec (covered r) (push_record s r) \<and> out = Applied_Record r"
proof -
  note wf' = records_in_order_push [OF wf]
  have id: "retire_spec (\<lambda>_. False) (push_record s x) = push_record s x" for x
    by (rule retire_spec_id [OF wf']) simp
  have "(case r of Rec_AssistantFrame f \<Rightarrow> retire_cleared_frames (push_record s r) f
           | _ \<Rightarrow> Inr (push_record s r)) = Inr (retire_spec (covered r) (push_record s r))"
  proof (cases r)
    case (Rec_AssistantFrame f)
    then show ?thesis
      by (cases "af_op f")
        (simp_all add: retire_cleared_frames_def retire_frames_eq [OF wf'] covered_def [abs_def] id)
  qed (simp_all add: covered_def [abs_def] id)
  then show ?thesis
    by (auto simp: apply_record_def validate_unused_id_def)
qed

subsection \<open>Appending an entry\<close>

lemma by_id_used: "wf_table s \<Longrightarrow> wf_ids s \<Longrightarrow> ix_entries_by_id s k = Some i \<Longrightarrow> k \<in> ix_used_ids s"
  by (force simp: wf_table_def wf_ids_def live_ids_def)

lemma by_id_fresh: "wf_table s \<Longrightarrow> wf_ids s \<Longrightarrow> k \<notin> ix_used_ids s \<Longrightarrow> ix_entries_by_id s k = None"
  by (cases "ix_entries_by_id s k") (auto dest: by_id_used)

lemma extend_entry_simps [simp]:
  "ix_sequence (extend_entry payload s sq lane e nearest) = sq"
  "ix_used_ids (extend_entry payload s sq lane e nearest) = insert (entry_id e) (ix_used_ids s)"
  "ix_entries (extend_entry payload s sq lane e nearest) = ix_entries s @ [payload e]"
  "ix_metadata (extend_entry payload s sq lane e nearest) = ix_metadata s @ [entry_meta_of e]"
  "ix_entries_by_id (extend_entry payload s sq lane e nearest)
     = (ix_entries_by_id s)(entry_id e \<mapsto> length (ix_entries s))"
  "ix_nearest_user (extend_entry payload s sq lane e nearest) = ix_nearest_user s @ [nearest]"
  "ix_records (extend_entry payload s sq lane e nearest) = ix_records s"
  "ix_hot_append_count (extend_entry payload s sq lane e nearest) = ix_hot_append_count s"
  "ix_open_ops (extend_entry payload s sq lane e nearest) = ix_open_ops s"
  "ix_lanes (extend_entry payload s sq lane e nearest) = set_lane_leaf lane (entry_id e) (ix_lanes s)"
  "ix_lane_generations (extend_entry payload s sq lane e nearest) = ix_lane_generations s"
  "ix_log (extend_entry payload s sq lane e nearest) = ix_log s @ [Stored_Entry (length (ix_entries s))]"
  "ix_name (extend_entry payload s sq lane e nearest) = ix_name s"
  "ix_labels (extend_entry payload s sq lane e nearest) = ix_labels s"
  "ix_stats (extend_entry payload s sq lane e nearest)
     = (if is_message_entry e
        then (ix_stats s)\<lparr>st_message_count := st_message_count (ix_stats s) + 1\<rparr> else ix_stats s)"
  by (simp_all add: extend_entry_def)

lemma check_parent_ok:
  "check_parent s e = Inr () \<longleftrightarrow>
     (\<forall>p. entry_parent_id e = Some p \<longrightarrow> ix_entries_by_id s p \<noteq> None)"
  by (auto simp: check_parent_def split: option.splits)

lemma wf_table_extend:
  assumes wf: "wf_table s" and fresh: "ix_entries_by_id s (entry_id e) = None"
    and parent: "check_parent s e = Inr ()"
  shows "wf_table (extend_entry payload s sq lane e nearest)"
proof -
  have ids: "em_id (ix_metadata s ! i) \<noteq> entry_id e" if "i < length (ix_metadata s)" for i
    using wf fresh that by (force simp: wf_table_def)
  have par: "\<exists>j < length (ix_metadata s). p \<noteq> entry_id e \<and> ix_entries_by_id s p = Some j"
    if "entry_parent_id e = Some p" for p
  proof -
    from parent that obtain j where "ix_entries_by_id s p = Some j"
      by (auto simp: check_parent_ok)
    with wf fresh show ?thesis by (auto simp: wf_table_def)
  qed
  have old: "p \<noteq> entry_id e" if "ix_entries_by_id s p = Some j" for p j
    using that fresh by auto
  show ?thesis
    using wf ids par old
    by (simp add: wf_table_def nth_append less_Suc_eq) (metis old)
qed

lemma wf_users_extend:
  assumes wf: "wf_table s" "wf_users s" and fresh: "ix_entries_by_id s (entry_id e) = None"
    and parent: "check_parent s e = Inr ()" and nearest: "nearest_user_for s e = Inr nearest"
  shows "wf_users (extend_entry payload s sq lane e nearest)"
proof -
  define t where "t = extend_entry payload s sq lane e nearest"
  have len: "length (ix_nearest_user s) = length (ix_metadata s)"
    "length (ix_entries s) = length (ix_metadata s)"
    using wf by (auto simp: wf_users_def wf_table_def)
  have t: "ix_metadata t = ix_metadata s @ [entry_meta_of e]"
    "ix_nearest_user t = ix_nearest_user s @ [nearest]"
    "ix_entries_by_id t = (ix_entries_by_id s)(entry_id e \<mapsto> length (ix_metadata s))"
    by (simp_all add: t_def len)
  define above where "above q = (case Option.bind q (ix_entries_by_id s) of
      None \<Rightarrow> None | Some j \<Rightarrow> ix_nearest_user s ! j)" for q
  have up: "(case Option.bind q (ix_entries_by_id t) of None \<Rightarrow> None | Some j \<Rightarrow> ix_nearest_user t ! j)
      = above q"
    if "\<forall>p. q = Some p \<longrightarrow> ix_entries_by_id s p \<noteq> None" for q
    using that fresh wf(1) len
    by (cases q) (auto simp: nth_append wf_table_def t above_def dest!: spec)
  have "ix_nearest_user t ! i = (if meta_is_user (ix_metadata t ! i) then Some i
       else case Option.bind (em_parent_id (ix_metadata t ! i)) (ix_entries_by_id t) of
              None \<Rightarrow> None | Some j \<Rightarrow> ix_nearest_user t ! j)"
    if i: "i < length (ix_metadata t)" for i
  proof (cases "i < length (ix_metadata s)")
    case True
    have "\<forall>p. em_parent_id (ix_metadata s ! i) = Some p \<longrightarrow> ix_entries_by_id s p \<noteq> None"
      using wf(1) True unfolding wf_table_def by blast
    note q = up [OF this]
    have "ix_metadata t ! i = ix_metadata s ! i" "ix_nearest_user t ! i = ix_nearest_user s ! i"
      using True len by (simp_all add: t nth_append)
    with q True wf(2) show ?thesis by (simp add: wf_users_def above_def)
  next
    case False
    with i have i: "i = length (ix_metadata s)" by (simp add: t)
    have "\<forall>p. entry_parent_id e = Some p \<longrightarrow> ix_entries_by_id s p \<noteq> None"
      using parent by (auto simp: check_parent_ok)
    note q = up [OF this]
    have "nearest = (if meta_is_user (entry_meta_of e) then Some i else above (entry_parent_id e))"
      using nearest
      by (auto simp: nearest_user_for_def slice_get_def i len above_def split: if_splits option.splits)
    with q show ?thesis by (simp add: i t nth_append len)
  qed
  then show ?thesis by (simp add: wf_users_def t len flip: t_def)
qed

lemma wf_ids_extend:
  assumes "wf_ids s" and "entry_id e \<notin> ix_used_ids s"
  shows "wf_ids (extend_entry payload s sq lane e nearest)"
  using assms by (auto simp: wf_ids_def live_ids_def)

lemma set_lane_leaf_map_of:
  "map_of (set_lane_leaf lane i lanes) l =
     (if lane = Some l \<and> map_of lanes l \<noteq> None then Some (Some i) else map_of lanes l)"
  by (auto simp: set_lane_leaf_def split: option.splits)

lemma bt_insert_same_keys: "map_of m k \<noteq> None \<Longrightarrow> bt_sorted m \<Longrightarrow> map fst (bt_insert k v m) = map fst m"
proof (induction m)
  case (Cons x m)
  obtain k' v' where x: "x = (k', v')" by (cases x)
  show ?case
  proof (cases "k < k'")
    case True
    have "k \<in> fst ` set (x # m)"
      using Cons.prems(1) by (metis map_of_eq_None_iff)
    then show ?thesis using Cons.prems(2) True x by auto
  next
    case False
    then show ?thesis using Cons x by auto
  qed
qed simp

lemma set_lane_leaf_keys: "bt_sorted lanes \<Longrightarrow> map fst (set_lane_leaf lane i lanes) = map fst lanes"
  by (auto simp: set_lane_leaf_def bt_insert_same_keys split: option.splits)

lemma gens_from_keys: "map (\<lambda>(l, x). (l, g l)) lanes = map (\<lambda>l. (l, g l)) (map fst lanes)"
  by (induction lanes) auto

lemma last_lane_seq_append_other:
  "lane_item lane item = None \<Longrightarrow> last_lane_seq lane (log @ [item]) = last_lane_seq lane log"
  by (simp add: last_lane_seq_def)

lemma lane_item_simps [simp]:
  "lane_item l (Stored_Entry k) = None" "lane_item l (Stored_Record k) = None"
  "lane_item l (Stored_Other (Log_Lane sq l' leaf)) = (if l' = l then Some sq else None)"
  "lane_item l (Stored_Other (Log_FactName sq nm)) = None"
  "lane_item l (Stored_Other (Log_FactLabel sq i lb)) = None"
  by (simp_all add: lane_item_def)

lemma wf_lanes_extend:
  assumes wf: "wf_lanes s"
  shows "wf_lanes (extend_entry payload s sq lane e nearest)"
proof -
  have sorted: "bt_sorted (ix_lanes s)" using wf by (simp add: wf_lanes_def)
  note keys = set_lane_leaf_keys [OF sorted, of lane "entry_id e"]
  have "map_of (set_lane_leaf lane (entry_id e) (ix_lanes s)) l = None \<longleftrightarrow> map_of (ix_lanes s) l = None" for l
    by (simp add: set_lane_leaf_map_of)
  then show ?thesis
    using wf by (auto simp: wf_lanes_def keys lanes_logged_def gens_from_keys set_lane_leaf_map_of
        last_lane_seq_append_other split: if_splits)
qed

lemma entry_ref_bound:
  "wf_log s \<Longrightarrow> Stored_Entry i \<in> set (ix_log s) \<Longrightarrow> i < length (ix_metadata s)"
proof -
  assume "wf_log s" "Stored_Entry i \<in> set (ix_log s)"
  then have "i \<in> set (filter_map entry_ref (ix_log s))" by (auto simp: set_filter_map)
  with \<open>wf_log s\<close> show ?thesis by (simp add: wf_log_def)
qed

lemma record_ref_bound:
  "wf_log s \<Longrightarrow> Stored_Record i \<in> set (ix_log s) \<Longrightarrow> i < length (ix_records s)"
proof -
  assume "wf_log s" "Stored_Record i \<in> set (ix_log s)"
  then have "i \<in> set (filter_map record_ref (ix_log s))" by (auto simp: set_filter_map)
  with \<open>wf_log s\<close> show ?thesis by (simp add: wf_log_def records_in_order_def)
qed

text \<open>A log that grows by one item keeps its order when the item is the newest.\<close>

lemma wf_log_snoc:
  assumes wf: "wf_log s"
    and log: "ix_log t = ix_log s @ [item]"
    and old: "\<And>x. x \<in> set (ix_log s) \<Longrightarrow> stored_seq t x = stored_seq s x"
    and new: "stored_seq t item = ix_sequence t" "ix_sequence s < ix_sequence t" "is_fact_item item"
    and order: "records_in_order t" "filter_map entry_ref (ix_log t) = [0..<length (ix_metadata t)]"
  shows "wf_log t"
proof -
  have "log_seqs t = log_seqs s @ [ix_sequence t]"
    using old by (simp add: log_seqs_def log new(1))
  then show ?thesis
    using wf new order by (auto simp: wf_log_def log sorted_wrt_append)
qed

lemma wf_log_extend:
  assumes wf: "wf_log s" "wf_table s" and sq: "entry_seq e = sq" "ix_sequence s < sq"
  shows "wf_log (extend_entry payload s sq lane e nearest)"
proof (rule wf_log_snoc [OF wf(1)])
  fix x
  assume x: "x \<in> set (ix_log s)"
  show "stored_seq (extend_entry payload s sq lane e nearest) x = stored_seq s x"
  proof (cases x)
    case (Stored_Entry i)
    with entry_ref_bound [OF wf(1)] x show ?thesis by (simp add: stored_seq_def nth_append)
  qed (simp_all add: stored_seq_def)
qed (use wf sq in \<open>auto simp: stored_seq_def nth_append wf_table_def wf_log_def records_in_order_def\<close>)

lemma is_message_kind: "is_message_entry e \<longleftrightarrow> entry_type e = ''message''"
  by (cases e) auto

lemma wf_derived_extend:
  assumes "wf_derived s"
  shows "wf_derived (extend_entry payload s sq lane e nearest)"
  using assms by (auto simp: wf_derived_def stats_of_def is_message_kind)

lemma wf_frames_extend: "wf_frames s \<Longrightarrow> wf_frames (extend_entry payload s sq lane e nearest)"
  by (simp add: wf_frames_def)

subsection \<open>Appending a record\<close>

lemma push_record_simps [simp]:
  "ix_sequence (push_record s r) = record_seq r"
  "ix_used_ids (push_record s r) = insert (record_id r) (ix_used_ids s)"
  "ix_entries (push_record s r) = ix_entries s"
  "ix_metadata (push_record s r) = ix_metadata s"
  "ix_entries_by_id (push_record s r) = ix_entries_by_id s"
  "ix_nearest_user (push_record s r) = ix_nearest_user s"
  "ix_records (push_record s r) = ix_records s @ [r]"
  "ix_open_ops (push_record s r)
     = track_operation (record_lane r) (record_seq r) r (ix_open_ops s)"
  "ix_lanes (push_record s r) = ix_lanes s"
  "ix_lane_generations (push_record s r) = ix_lane_generations s"
  "ix_log (push_record s r) = ix_log s @ [Stored_Record (length (ix_records s))]"
  "ix_stats (push_record s r) = add_usage r (ix_stats s)"
  "ix_name (push_record s r) = ix_name s"
  "ix_labels (push_record s r) = ix_labels s"
  by (simp_all add: push_record_def)

lemma retire_spec_simps [simp]:
  "ix_sequence (retire_spec P s) = ix_sequence s"
  "ix_used_ids (retire_spec P s) = ix_used_ids s"
  "ix_entries (retire_spec P s) = ix_entries s"
  "ix_metadata (retire_spec P s) = ix_metadata s"
  "ix_entries_by_id (retire_spec P s) = ix_entries_by_id s"
  "ix_nearest_user (retire_spec P s) = ix_nearest_user s"
  "ix_records (retire_spec P s) = filter (\<lambda>r. \<not> P r) (ix_records s)"
  "ix_open_ops (retire_spec P s) = ix_open_ops s"
  "ix_lanes (retire_spec P s) = ix_lanes s"
  "ix_lane_generations (retire_spec P s) = ix_lane_generations s"
  "ix_log (retire_spec P s) = filter_map (renumber_item P (ix_records s)) (ix_log s)"
  "ix_stats (retire_spec P s) = ix_stats s"
  "ix_name (retire_spec P s) = ix_name s"
  "ix_labels (retire_spec P s) = ix_labels s"
  by (simp_all add: retire_spec_def)

lemma wf_log_push:
  assumes wf: "wf_log s" and sq: "ix_sequence s < record_seq r"
  shows "wf_log (push_record s r)"
proof (rule wf_log_snoc [OF wf])
  fix x
  assume x: "x \<in> set (ix_log s)"
  show "stored_seq (push_record s r) x = stored_seq s x"
  proof (cases x)
    case (Stored_Record i)
    with record_ref_bound [OF wf] x show ?thesis by (simp add: stored_seq_def nth_append)
  qed (simp_all add: stored_seq_def)
next
  show "records_in_order (push_record s r)"
    using wf by (intro records_in_order_push) (simp add: wf_log_def)
qed (use wf sq in \<open>auto simp: stored_seq_def nth_append wf_log_def\<close>)

lemma renumber_append:
  "i < length xs \<Longrightarrow> renumber P (xs @ ys) i = renumber P xs i"
  by (simp add: renumber_def nth_append)

lemma filter_map_renumber:
  "filter_map (renumber P xs) [0..<length xs] = [0..<length (filter (\<lambda>x. \<not> P x) xs)]"
proof (induction xs rule: rev_induct)
  case (snoc x xs)
  have "filter_map (renumber P (xs @ [x])) [0..<length xs] = filter_map (renumber P xs) [0..<length xs]"
    by (rule filter_map_cong) (simp add: renumber_append)
  moreover have "renumber P (xs @ [x]) (length xs) =
      (if P x then None else Some (length (filter (\<lambda>x. \<not> P x) xs)))"
    by (simp add: renumber_def)
  ultimately show ?case using snoc by simp
qed simp

lemma record_ref_renumber:
  "filter_map record_ref (filter_map (renumber_item P rs) log)
     = filter_map (renumber P rs) (filter_map record_ref log)"
  by (induction log)
    (auto simp: renumber_item_def split: stored_log_item.splits option.splits)

lemma other_ref_renumber:
  assumes "\<And>i. g (Stored_Record i) = None"
  shows "filter_map g (filter_map (renumber_item P rs) log) = filter_map g log"
  using assms
  by (induction log)
    (auto simp: renumber_item_def split: stored_log_item.splits option.splits)

lemma renumbered_item_cases:
  assumes "x \<in> set (filter_map (renumber_item P rs) log)"
  obtains i where "x = Stored_Record i" | "x \<in> set log"
proof -
  obtain y where y: "y \<in> set log" "renumber_item P rs y = Some x"
    using assms by (auto simp: set_filter_map)
  have "(\<exists>i. x = Stored_Record i) \<or> x = y"
    using y(2) unfolding renumber_item_def by (auto split: stored_log_item.splits)
  then show ?thesis using y(1) that by blast
qed

definition kept_item :: "('f lane_record \<Rightarrow> bool) \<Rightarrow> 'f lane_record list \<Rightarrow> 'f stored_log_item \<Rightarrow> bool" where
  "kept_item P rs item = (case item of Stored_Record i \<Rightarrow> \<not> P (rs ! i) | _ \<Rightarrow> True)"

lemma map_renumbered_log:
  assumes refs: "filter_map record_ref log = [0..<length rs]"
    and rec: "\<And>i. i < length rs \<Longrightarrow> \<not> P (rs ! i) \<Longrightarrow>
        h (Stored_Record (length (filter (\<lambda>r. \<not> P r) (take i rs)))) = g (Stored_Record i)"
    and same: "\<And>i. h (Stored_Entry i) = g (Stored_Entry i)" "\<And>x. h (Stored_Other x) = g (Stored_Other x)"
  shows "map h (filter_map (renumber_item P rs) log) = map g (filter (kept_item P rs) log)"
proof -
  have "filter_map (map_option h \<circ> renumber_item P rs) log
      = filter_map (\<lambda>item. if kept_item P rs item then Some (g item) else None) log"
  proof (rule filter_map_cong)
    fix item
    assume item: "item \<in> set log"
    show "(map_option h \<circ> renumber_item P rs) item
        = (if kept_item P rs item then Some (g item) else None)"
    proof (cases item)
      case (Stored_Record i)
      with item have "i \<in> set (filter_map record_ref log)" by (simp add: filter_map_record_ref_set)
      then have "i < length rs" by (simp add: refs)
      then show ?thesis
        using Stored_Record rec by (simp add: renumber_item_def renumber_def kept_item_def)
    qed (simp_all add: renumber_item_def kept_item_def same)
  qed
  then show ?thesis by (simp add: map_filter_map filter_map_if)
qed

lemma log_seqs_retire:
  assumes "records_in_order s"
  shows "log_seqs (retire_spec P s) = map (stored_seq s) (filter (kept_item P (ix_records s)) (ix_log s))"
  unfolding log_seqs_def retire_spec_simps
  using assms
  by (intro map_renumbered_log) (auto simp: records_in_order_def stored_seq_def nth_filter_take)

lemma sorted_wrt_map_filter: "sorted_wrt R (map f xs) \<Longrightarrow> sorted_wrt R (map f (filter P xs))"
  by (induction xs) auto

lemma wf_log_retire:
  assumes wf: "wf_log s"
  shows "wf_log (retire_spec P s)"
proof -
  have order: "records_in_order s" and ent: "filter_map entry_ref (ix_log s) = [0..<length (ix_metadata s)]"
    and fact: "list_all is_fact_item (ix_log s)" and inc: "sorted_wrt (<) (0 # log_seqs s)"
    and top: "\<forall>sq \<in> set (log_seqs s). sq \<le> ix_sequence s"
    using wf by (auto simp: wf_log_def)
  have "records_in_order (retire_spec P s)"
    using order by (simp add: records_in_order_def record_ref_renumber filter_map_renumber retire_spec_def)
  moreover have "is_fact_item x"
    if "x \<in> set (filter_map (renumber_item P (ix_records s)) (ix_log s))" for x
    using that fact by (cases rule: renumbered_item_cases) (auto simp: list_all_iff)
  then have "list_all is_fact_item (filter_map (renumber_item P (ix_records s)) (ix_log s))"
    by (simp add: list_all_iff)
  moreover have "sorted_wrt (<) (0 # log_seqs (retire_spec P s))"
    unfolding log_seqs_retire [OF order]
    using inc by (auto simp: log_seqs_def sorted_wrt_map_filter)
  moreover have "\<forall>sq \<in> set (log_seqs (retire_spec P s)). sq \<le> ix_sequence s"
    unfolding log_seqs_retire [OF order]
    using top by (auto simp: log_seqs_def)
  ultimately show ?thesis
    using ent by (simp add: wf_log_def other_ref_renumber)
qed

lemma fold_skip:
  assumes "\<And>x. P x \<Longrightarrow> f x = id"
  shows "fold f (filter (\<lambda>x. \<not> P x) xs) = fold f xs"
  using assms by (induction xs) auto

lemma append_untracked:
  "is_append r \<Longrightarrow> track_operation l sq r = id" "is_append r \<Longrightarrow> add_usage r = id"
  by (auto simp: is_append_def track_operation_def add_usage_def fun_eq_iff split: lane_record.splits)

lemma derived_filter:
  assumes "\<And>r. P r \<Longrightarrow> is_append r"
  shows "open_ops_of (filter (\<lambda>r. \<not> P r) rs) = open_ops_of rs"
    and "stats_of ms (filter (\<lambda>r. \<not> P r) rs) = stats_of ms rs"
  by (simp_all add: open_ops_of_def stats_of_def fold_skip append_untracked assms)

lemma stats_of_snoc:
  "stats_of ms (rs @ [r]) = add_usage r (stats_of ms rs)"
  by (cases r) (simp_all add: stats_of_def add_usage_def)

lemma record_seq_le:
  assumes wf: "wf_log s" and r: "r \<in> set (ix_records s)"
  shows "record_seq r \<le> ix_sequence s"
proof -
  from r obtain i where i: "i < length (ix_records s)" "r = ix_records s ! i"
    by (auto simp: in_set_conv_nth)
  then have "i \<in> set (filter_map record_ref (ix_log s))"
    using wf by (simp add: wf_log_def records_in_order_def)
  then have "Stored_Record i \<in> set (ix_log s)" by (simp add: filter_map_record_ref_set)
  then have "stored_seq s (Stored_Record i) \<in> set (log_seqs s)" by (auto simp: log_seqs_def)
  then show ?thesis using wf i by (auto simp: wf_log_def stored_seq_def)
qed

lemma covered_seq: "covered c r \<Longrightarrow> record_seq r < record_seq c"
  by (auto simp: covered_def frame_retired_def record_seq_def
      split: lane_record.splits frame_op.splits)

lemma wf_frames_record:
  assumes wf: "wf_frames s" "wf_log s" and sq: "ix_sequence s < record_seq r"
  shows "wf_frames (retire_spec (covered r) (push_record s r))"
proof -
  have "\<not> covered c r" if "c \<in> set (ix_records s)" for c
    using record_seq_le [OF wf(2) that] covered_seq [of c r] sq by auto
  then show ?thesis
    using wf(1) by (auto simp: wf_frames_def)
qed

lemma wf_ids_record:
  assumes "wf_ids s" and "record_id r \<notin> ix_used_ids s"
  shows "wf_ids (retire_spec P (push_record s r))"
proof -
  have d: "distinct (map record_id (filter Q rs))" if "distinct (map record_id rs)" for Q and rs :: "'c lane_record list"
    using that by (induction rs) auto
  show ?thesis
    using assms by (auto simp: wf_ids_def live_ids_def intro!: distinct_map_filter)
qed

lemma wf_lanes_record:
  assumes "wf_lanes s" and "map_of (ix_lanes s) (record_lane r) \<noteq> None"
  shows "wf_lanes (retire_spec P (push_record s r))"
proof -
  have "last_lane_seq l (filter_map (renumber_item P rs) (ix_log s @ [Stored_Record k])) = last_lane_seq l (ix_log s)"
    for l rs k
    by (simp only: last_lane_seq_def other_ref_renumber [of "lane_item l", OF lane_item_simps(2)]) simp
  moreover have "lanes_logged (retire_spec P (push_record s r))"
    unfolding lanes_logged_def
  proof (intro allI impI)
    fix sq lane leaf
    assume "Stored_Other (Log_Lane sq lane leaf) \<in> set (ix_log (retire_spec P (push_record s r)))"
    then have "Stored_Other (Log_Lane sq lane leaf) \<in> set (ix_log s)"
      unfolding retire_spec_simps by (cases rule: renumbered_item_cases) auto
    then show "map_of (ix_lanes (retire_spec P (push_record s r))) lane \<noteq> None"
      using assms(1) unfolding wf_lanes_def lanes_logged_def retire_spec_simps push_record_simps
      by blast
  qed
  ultimately show ?thesis
    using assms by (auto simp: wf_lanes_def simp del: filter_map_append)
qed

lemma index_wf_record:
  assumes wf: "index_wf s" and ok: "map_of (ix_lanes s) (record_lane r) \<noteq> None"
    "record_id r \<notin> ix_used_ids s" and sq: "ix_sequence s < record_seq r"
  shows "index_wf (retire_spec (covered r) (push_record s r))"
proof -
  from wf have parts: "wf_table s" "wf_users s" "wf_ids s" "wf_lanes s" "wf_log s" "wf_derived s"
    "wf_frames s" by (auto simp: index_wf_def)
  have "wf_table (retire_spec (covered r) (push_record s r))"
    "wf_users (retire_spec (covered r) (push_record s r))"
    using parts by (simp_all add: wf_table_def wf_users_def cong: option.case_cong)
  moreover have "wf_derived (retire_spec (covered r) (push_record s r))"
    using parts(6) derived_filter [of "covered r"] covered_append [of r]
    by (simp add: wf_derived_def derived_filter stats_of_snoc del: filter_append)
      (simp add: open_ops_of_def)
  ultimately show ?thesis
    using parts ok sq
    by (simp add: index_wf_def wf_ids_record wf_lanes_record wf_log_retire wf_log_push wf_frames_record)
qed

subsection \<open>Lane moves, facts and reserved numbers\<close>

lemma bt_insert_map:
  assumes "bt_sorted m"
  shows "bt_insert k w (map (\<lambda>(l, x). (l, g l)) m) = map (\<lambda>(l, x). (l, (g(k := w)) l)) (bt_insert k v m)"
  using assms
proof (induction m)
  case (Cons x m)
  obtain k' v' where x: "x = (k', v')" by (cases x)
  have same: "map (\<lambda>(l, x). (l, g l)) m = map (\<lambda>(l, x). (l, (g(k := w)) l)) m" if "k \<le> k'"
    using Cons.prems x that by (force simp: fun_upd_def)
  show ?case
    using Cons x same by (cases "k < k'"; cases "k = k'") auto
qed simp

lemma index_wf_push_fact:
  assumes wf: "index_wf s" and sq: "ix_sequence s < sq" "log_item_seq x = sq"
    and fact: "is_fact_item (Stored_Other x)"
    and same: "ix_sequence t = sq" "ix_used_ids t = ix_used_ids s" "ix_entries t = ix_entries s"
      "ix_metadata t = ix_metadata s" "ix_entries_by_id t = ix_entries_by_id s"
      "ix_nearest_user t = ix_nearest_user s" "ix_records t = ix_records s"
      "ix_hot_append_count t = ix_hot_append_count s" "ix_open_ops t = ix_open_ops s"
      "ix_log t = ix_log s @ [Stored_Other x]" "ix_stats t = ix_stats s"
    and lanes: "wf_lanes t"
  shows "index_wf t"
proof -
  have "wf_log t"
  proof (rule wf_log_snoc [of s])
    fix y
    show "stored_seq t y = stored_seq s y"
      by (cases y) (simp_all add: stored_seq_def same)
  qed (use wf sq fact in \<open>auto simp: same stored_seq_def index_wf_def wf_log_def records_in_order_def\<close>)
  then show ?thesis
    using wf lanes
    by (simp add: index_wf_def wf_table_def wf_users_def wf_ids_def live_ids_def wf_derived_def
        wf_frames_def same cong: option.case_cong)
qed

lemma lane_item_other:
  "(\<And>sq l leaf. x \<noteq> Log_Lane sq l leaf) \<Longrightarrow> lane_item lane (Stored_Other x) = None"
  by (cases x) (auto simp: lane_item_def)

lemma wf_lanes_fact:
  assumes wf: "wf_lanes s" and x: "\<And>sq l leaf. x \<noteq> Log_Lane sq l leaf"
    and same: "ix_lanes t = ix_lanes s" "ix_entries_by_id t = ix_entries_by_id s"
      "ix_lane_generations t = ix_lane_generations s" "ix_records t = ix_records s"
      "ix_log t = ix_log s @ [Stored_Other x]"
    and labels: "\<And>i. ix_labels t i \<noteq> None \<Longrightarrow> ix_entries_by_id s i \<noteq> None"
  shows "wf_lanes t"
proof -
  have "lanes_logged s" using wf by (simp add: wf_lanes_def)
  then have "lanes_logged t"
    unfolding lanes_logged_def same
  proof (intro allI impI)
    fix sq lane leaf
    assume logged: "\<forall>sq lane leaf. Stored_Other (Log_Lane sq lane leaf) \<in> set (ix_log s) \<longrightarrow>
        map_of (ix_lanes s) lane \<noteq> None"
      and "Stored_Other (Log_Lane sq lane leaf) \<in> set (ix_log s @ [Stored_Other x])"
    with x [of sq lane leaf] have "Stored_Other (Log_Lane sq lane leaf) \<in> set (ix_log s)" by auto
    with logged show "map_of (ix_lanes s) lane \<noteq> None" by blast
  qed
  then show ?thesis
    using wf x labels
    by (auto simp: wf_lanes_def same last_lane_seq_append_other lane_item_other)
qed

lemma last_lane_seq_snoc_lane:
  "last_lane_seq l (log @ [Stored_Other (Log_Lane sq lane leaf)])
     = ((\<lambda>l. last_lane_seq l log)(lane := sq)) l"
  by (auto simp: last_lane_seq_def)

lemma wf_lanes_move:
  assumes wf: "wf_lanes s" and leaf: "\<And>l. leaf = Some l \<Longrightarrow> ix_entries_by_id s l \<noteq> None"
  shows "wf_lanes (s\<lparr>ix_sequence := sq, ix_lanes := bt_insert lane leaf (ix_lanes s),
            ix_lane_generations := bt_insert lane sq (ix_lane_generations s),
            ix_log := ix_log s @ [Stored_Other (Log_Lane sq lane leaf)]\<rparr>)"
proof -
  have sorted: "bt_sorted (ix_lanes s)" using wf by (simp add: wf_lanes_def)
  have gens: "ix_lane_generations s = map (\<lambda>(l, x). (l, last_lane_seq l (ix_log s))) (ix_lanes s)"
    using wf by (simp add: wf_lanes_def)
  have "bt_insert lane sq (ix_lane_generations s) =
     map (\<lambda>(l, x). (l, last_lane_seq l (ix_log s @ [Stored_Other (Log_Lane sq lane leaf)])))
       (bt_insert lane leaf (ix_lanes s))"
    unfolding last_lane_seq_snoc_lane gens by (rule bt_insert_map [OF sorted])
  then show ?thesis
    using wf leaf by (auto simp: wf_lanes_def lanes_logged_def)
qed

lemma index_wf_reserved:
  assumes wf: "index_wf s" and sq: "ix_sequence s \<le> sq" and ids: "ix_used_ids s \<subseteq> ids"
  shows "index_wf (s\<lparr>ix_sequence := sq, ix_used_ids := ids\<rparr>)"
proof -
  let ?t = "s\<lparr>ix_sequence := sq, ix_used_ids := ids\<rparr>"
  from wf have parts: "wf_table s" "wf_users s" "wf_ids s" "wf_lanes s" "wf_log s" "wf_derived s"
    "wf_frames s" by (auto simp: index_wf_def)
  have "stored_seq ?t item = stored_seq s item" for item
    by (cases item) (simp_all add: stored_seq_def)
  then have "log_seqs ?t = log_seqs s" by (simp add: log_seqs_def)
  then have "wf_log ?t"
    using parts(5) sq by (auto simp: wf_log_def records_in_order_def)
  moreover have "wf_table ?t" "wf_lanes ?t" "wf_derived ?t" "wf_frames ?t"
    using parts by (simp_all add: wf_table_def wf_lanes_def lanes_logged_def wf_derived_def wf_frames_def)
  moreover have "wf_users ?t"
    using parts(2) by (simp add: wf_users_def cong: option.case_cong)
  moreover have "wf_ids ?t"
    using parts(3) ids by (auto simp: wf_ids_def live_ids_def)
  ultimately show ?thesis by (simp add: index_wf_def)
qed

lemma index_wf_resync: "index_wf s \<Longrightarrow> index_wf (resync_sequence sq s)"
  using index_wf_reserved [of s sq "ix_used_ids s"] by (simp add: resync_sequence_def)

lemma index_wf_reserve:
  assumes "index_wf s" and "reserve_cold_frame_identity s i sq lane = Inr t"
  shows "index_wf t"
  using assms index_wf_reserved [of s "Suc (ix_sequence s)" "insert i (ix_used_ids s)"]
  by (auto simp: reserve_cold_frame_identity_def)

subsection \<open>Every mutation keeps the invariant\<close>

lemma index_wf_entry:
  assumes wf: "index_wf s" and step: "apply_entry payload s sq lane e = Inr (t, out)"
    and sq: "entry_seq e = sq" "ix_sequence s < sq"
  shows "index_wf t"
proof -
  from wf have parts: "wf_table s" "wf_users s" "wf_ids s" "wf_lanes s" "wf_log s" "wf_derived s"
    "wf_frames s" by (auto simp: index_wf_def)
  from step obtain nearest where ok: "entry_id e \<notin> ix_used_ids s" "check_parent s e = Inr ()"
    "nearest_user_for s e = Inr nearest" and t: "t = extend_entry payload s sq lane e nearest"
    by (auto simp: apply_entry_Inr_iff)
  have fresh: "ix_entries_by_id s (entry_id e) = None"
    using by_id_fresh [OF parts(1,3) ok(1)] .
  show ?thesis
    using parts ok sq fresh unfolding t index_wf_def
    by (simp add: wf_table_extend wf_users_extend wf_ids_extend wf_lanes_extend wf_log_extend
        wf_derived_extend wf_frames_extend del: extend_entry_simps)
qed

lemma index_wf_apply:
  assumes wf: "index_wf s" and stamped: "well_stamped m"
    and step: "apply_mutation payload s m = Inr (t, out)"
  shows "index_wf t"
proof -
  have next_sq: "mutation_seq m = Suc (ix_sequence s)"
    using step by (auto simp: apply_mutation_def)
  have order: "records_in_order s" and lanes: "wf_lanes s"
    using wf by (simp_all add: index_wf_def wf_log_def)
  show ?thesis
  proof (cases m)
    case (Mut_Entry sq ts lane e)
    then have "apply_entry payload s sq lane e = Inr (t, out)" "entry_seq e = sq"
      "ix_sequence s < sq"
      using step stamped next_sq by (auto simp: apply_mutation_def)
    then show ?thesis by (rule index_wf_entry [OF wf])
  next
    case (Mut_Record r)
    then have "apply_record s r = Inr (t, out)" "record_seq r = Suc (ix_sequence s)"
      using step next_sq by (simp_all add: apply_mutation_def)
    then show ?thesis
      using index_wf_record [OF wf, of r] by (auto simp: apply_record_Inr_iff [OF order])
  next
    case (Mut_Lane sq lane leaf)
    then have sq: "sq = Suc (ix_sequence s)"
      and leaf: "\<And>l. leaf = Some l \<Longrightarrow> ix_entries_by_id s l \<noteq> None"
      and t: "t = s\<lparr>ix_sequence := sq, ix_lanes := bt_insert lane leaf (ix_lanes s),
            ix_lane_generations := bt_insert lane sq (ix_lane_generations s),
            ix_log := ix_log s @ [Stored_Other (Log_Lane sq lane leaf)]\<rparr>"
      using step next_sq by (auto simp: apply_mutation_def apply_lane_def split: option.splits)
    show ?thesis
      by (rule index_wf_push_fact [OF wf, of sq "Log_Lane sq lane leaf"])
        (use wf_lanes_move [OF lanes leaf, where sq = sq and lane = lane] in \<open>simp_all add: t sq\<close>)
  next
    case (Mut_FactName sq name)
    then have sq: "sq = Suc (ix_sequence s)"
      and t: "t = s\<lparr>ix_sequence := sq, ix_name := name,
            ix_log := ix_log s @ [Stored_Other (Log_FactName sq name)]\<rparr>"
      using step next_sq by (auto simp: apply_mutation_def apply_fact_name_def)
    have "wf_lanes t"
      by (rule wf_lanes_fact [OF lanes, of "Log_FactName sq name"])
        (use lanes in \<open>auto simp: t wf_lanes_def\<close>)
    then show ?thesis
      by (intro index_wf_push_fact [OF wf, of sq "Log_FactName sq name"]) (simp_all add: t sq)
  next
    case (Mut_FactLabel sq target label)
    then have sq: "sq = Suc (ix_sequence s)" and target: "ix_entries_by_id s target \<noteq> None"
      and t: "t = s\<lparr>ix_sequence := sq, ix_labels := (ix_labels s)(target := label),
            ix_log := ix_log s @ [Stored_Other (Log_FactLabel sq target label)]\<rparr>"
      using step next_sq by (auto simp: apply_mutation_def apply_fact_label_def)
    have "wf_lanes t"
      by (rule wf_lanes_fact [OF lanes, of "Log_FactLabel sq target label"])
        (use lanes target in \<open>auto simp: t wf_lanes_def split: if_splits\<close>)
    then show ?thesis
      by (intro index_wf_push_fact [OF wf, of sq "Log_FactLabel sq target label"]) (simp_all add: t sq)
  qed
qed

end
