(* ===== verification/Session_State.thy ===== *)
theory Session_State
  imports Session_Wf
begin

text \<open>
  \<open>SessionState\<close> of \<open>crates/evo-harness/src/session/state.rs\<close>: the indexed
  state whose payloads are the entries themselves. The theory states which mutations are
  accepted, that every reachable state is well formed (through the contract
  \<open>checked_steps\<close>), and refines the state to its abstract history: the list of
  log items, to which a mutation appends and from which a clear filters.
\<close>

subsection \<open>The state with entry payloads\<close>

type_synonym 'f session_state = "('f, 'f entry) indexed_state"

definition session_new :: "'f::zero session_state" where
  "session_new = index_new"

definition session_apply ::
  "'f::plus session_state \<Rightarrow> 'f session_mutation \<Rightarrow> session_error + ('f session_state \<times> 'f apply_outcome)" where
  "session_apply s m = apply_mutation (\<lambda>e. e) s m"

definition session_step ::
  "'f::plus session_state \<Rightarrow> 'f session_mutation \<Rightarrow> session_error + 'f session_state" where
  "session_step s m = step_mutation (\<lambda>e. e) s m"

definition get_entry :: "'f session_state \<Rightarrow> string \<Rightarrow> 'f entry option" where
  "get_entry s i = map_option (\<lambda>k. ix_entries s ! k) (ix_entries_by_id s i)"

definition session_wf :: "'f::{zero,plus} session_state \<Rightarrow> bool" where
  "session_wf s \<longleftrightarrow> index_wf s \<and> ix_metadata s = map entry_meta_of (ix_entries s)"

lemma session_wfD [wf_simps]:
  "session_wf s \<Longrightarrow> index_wf s"
  "session_wf s \<Longrightarrow> ix_metadata s = map entry_meta_of (ix_entries s)"
  "session_wf s \<Longrightarrow> wf_table s" "session_wf s \<Longrightarrow> wf_users s" "session_wf s \<Longrightarrow> wf_ids s"
  "session_wf s \<Longrightarrow> wf_lanes s" "session_wf s \<Longrightarrow> wf_log s" "session_wf s \<Longrightarrow> wf_derived s"
  "session_wf s \<Longrightarrow> wf_frames s" "session_wf s \<Longrightarrow> records_in_order s"
  by (simp_all add: session_wf_def index_wf_def wf_log_def)

lemma session_wf_new [simp]: "session_wf session_new"
  by (simp add: session_wf_def session_new_def) (simp add: index_new_def)

lemma session_step_iff:
  "session_step s m = Inr t \<longleftrightarrow> (\<exists>out. session_apply s m = Inr (t, out))"
  by (auto simp: session_step_def step_mutation_def session_apply_def)

lemma metadata_of_entries:
  assumes meta: "ix_metadata s = map entry_meta_of (ix_entries s)" and order: "records_in_order s"
    and step: "session_apply s m = Inr (t, out)"
  shows "ix_metadata t = map entry_meta_of (ix_entries t)"
proof (cases m)
  case (Mut_Entry sq ts lane e)
  then show ?thesis
    using meta step by (auto simp: session_apply_def apply_mutation_def apply_entry_Inr_iff)
next
  case (Mut_Record r)
  then show ?thesis
    using meta step by (auto simp: session_apply_def apply_mutation_def apply_record_Inr_iff [OF order])
qed (use meta step in \<open>auto simp: session_apply_def apply_mutation_def apply_lane_def
      apply_fact_name_def apply_fact_label_def split: option.splits\<close>)

lemma session_wf_apply:
  assumes "session_wf s" and "well_stamped m" and "session_apply s m = Inr (t, out)"
  shows "session_wf t"
  using assms metadata_of_entries [of s m t out] index_wf_apply [of s m "\<lambda>e. e" t out]
  by (auto simp: session_wf_def session_apply_def index_wf_def wf_log_def)

lemma session_wf_step:
  "session_wf s \<Longrightarrow> session_step s m = Inr t \<Longrightarrow> well_stamped m \<Longrightarrow> session_wf t"
  by (auto simp: session_step_iff intro: session_wf_apply)

text \<open>The entry table, read on the entries themselves.\<close>

lemma session_id_of:
  "session_wf s \<Longrightarrow> k < length (ix_entries s) \<Longrightarrow> ix_entries_by_id s (entry_id (ix_entries s ! k)) = Some k"
  using session_wfD(2,3) [of s] unfolding wf_table_def by (metis entry_meta_base(2) length_map nth_map)

lemma session_of_id:
  "session_wf s \<Longrightarrow> ix_entries_by_id s i = Some k \<Longrightarrow> k < length (ix_entries s) \<and> entry_id (ix_entries s ! k) = i"
  using session_wfD(2,3) [of s] unfolding wf_table_def by (metis entry_meta_base(2) length_map nth_map)

lemma session_parent_of:
  "session_wf s \<Longrightarrow> k < length (ix_entries s) \<Longrightarrow> entry_parent_id (ix_entries s ! k) = Some p \<Longrightarrow>
     \<exists>j < k. ix_entries_by_id s p = Some j"
  using session_wfD(2,3) [of s] unfolding wf_table_def by (metis entry_meta_base(3) length_map nth_map)

lemma session_id_known:
  "session_wf s \<Longrightarrow> ix_entries_by_id s i \<noteq> None \<longleftrightarrow> i \<in> entry_id ` set (ix_entries s)"
  using session_id_of [of s] session_of_id [of s i] by (force simp: in_set_conv_nth image_iff)

text \<open>
  Replay of stamped mutations: the step of the contract refuses a mutation whose entry
  carries another sequence number, which no storage produces.
\<close>

definition stamped_step ::
  "'f::plus session_state \<Rightarrow> 'f session_mutation \<Rightarrow> session_error + 'f session_state" where
  "stamped_step s m =
     (if well_stamped m then session_step s m else Inl (err_invalid_entry ''unstamped mutation''))"

interpretation session: checked_steps stamped_step session_wf
  by unfold_locales (auto simp: stamped_step_def session_step_iff split: if_splits intro: session_wf_apply)

lemma fold_stamped:
  "list_all well_stamped ms \<Longrightarrow> fold_res session_step s ms = fold_res stamped_step s ms"
proof (induction ms arbitrary: s)
  case (Cons m ms)
  then show ?case by (cases "session_step s m") (auto simp: stamped_step_def)
qed simp

lemma session_wf_replay:
  "session_wf s \<Longrightarrow> list_all well_stamped ms \<Longrightarrow> fold_res session_step s ms = Inr t \<Longrightarrow> session_wf t"
  by (metis fold_stamped session.replay_keeps)

subsection \<open>Reachable states\<close>

inductive session_reach :: "'f::{zero,plus} session_state \<Rightarrow> bool" where
  reach_new: "session_reach session_new"
| reach_mutation:
    "session_reach s \<Longrightarrow> well_stamped m \<Longrightarrow> session_apply s m = Inr (t, out) \<Longrightarrow> session_reach t"
| reach_cold: "session_reach s \<Longrightarrow> reserve_cold_frame s f = Inr t \<Longrightarrow> session_reach t"
| reach_resync: "session_reach s \<Longrightarrow> session_reach (resync_sequence sq s)"

lemma reserve_keeps_entries:
  "reserve_cold_frame s f = Inr t \<Longrightarrow> ix_entries t = ix_entries s \<and> ix_metadata t = ix_metadata s"
  by (auto simp: reserve_cold_frame_def reserve_cold_frame_identity_def)

lemma session_wf_reserve: "session_wf s \<Longrightarrow> reserve_cold_frame s f = Inr t \<Longrightarrow> session_wf t"
  using reserve_keeps_entries [of s f t]
  by (auto simp: session_wf_def reserve_cold_frame_def intro: index_wf_reserve)

lemma session_wf_resync: "session_wf s \<Longrightarrow> session_wf (resync_sequence sq s)"
  using index_wf_resync [of s sq] by (auto simp: session_wf_def resync_sequence_def)

lemma reach_wf: "session_reach s \<Longrightarrow> session_wf s"
  by (induction rule: session_reach.induct)
    (auto intro: session_wf_apply session_wf_reserve session_wf_resync)

lemma session_wf_get_entry:
  "session_wf s \<Longrightarrow> get_entry s i = Some e \<Longrightarrow> entry_id e = i \<and> e \<in> set (ix_entries s)"
  by (auto simp: get_entry_def session_wf_def index_wf_def wf_table_def) (metis nth_map entry_meta_base(2))

end
