(* ===== verification/Session_Demo.thy ===== *)
theory Session_Demo
  imports Session_State
begin

text \<open>
  A concrete session, for the statements that need one: a user message, an assistant
  message with a tool call, a navigation back to the first entry, a second branch, an
  operation whose streamed frames are cleared, a name and a label. Costs are integers.
\<close>

definition demo_entry_base :: "string \<Rightarrow> nat \<Rightarrow> string option \<Rightarrow> entry_base" where
  "demo_entry_base i sq parent =
     \<lparr>eb_entry_type = ''message'', eb_id = i, eb_seq = sq, eb_parent_id = parent, eb_timestamp = 0\<rparr>"

definition demo_user :: "string \<Rightarrow> int agent_message" where
  "demo_user t = AgentMessage_User \<lparr>um_content = UserContent_Text t, um_timestamp = 0\<rparr>"

definition demo_message :: "string \<Rightarrow> nat \<Rightarrow> string option \<Rightarrow> int agent_message \<Rightarrow> int entry" where
  "demo_message i sq parent m =
     Entry_Message \<lparr>me_base = demo_entry_base i sq parent, me_message = m, me_terminate = None\<rparr>"

definition demo_call :: "string \<Rightarrow> int content" where
  "demo_call i =
     Content_ToolCall \<lparr>tcall_id = i, tcall_name = ''read'', tcall_arguments = JNull,
       tcall_thought_signature = None, tcall_namespace = None, tcall_recorded = None\<rparr>"

definition demo_assistant :: "int content list \<Rightarrow> int agent_message" where
  "demo_assistant cs =
     AgentMessage_Assistant
       ((assistant_empty Api_Faux ''faux'' ''faux-1'' 0)
          \<lparr>am_content := cs, am_stop_reason := StopReason_ToolUse\<rparr>)"

definition demo_base :: "string \<Rightarrow> nat \<Rightarrow> record_base" where
  "demo_base i sq = \<lparr>rb_id = i, rb_seq = sq, rb_lane = ''main'', rb_timestamp = 0\<rparr>"

definition demo_started :: "int operation_started" where
  "demo_started =
     \<lparr>os_base = demo_base ''run'' 5, os_source_leaf_id = Some ''b'',
      os_intent = Intent_Run [] [] None None\<rparr>"

definition demo_frame :: "string \<Rightarrow> nat \<Rightarrow> frame_op \<Rightarrow> int lane_record" where
  "demo_frame i sq op' =
     Rec_AssistantFrame \<lparr>af_base = demo_base i sq, af_run_id = ''run'', af_stream_index = 0,
       af_op = op', af_frame = None\<rparr>"

definition demo_enqueued :: "int queue_enqueued" where
  "demo_enqueued =
     \<lparr>qe_base = demo_base ''q'' 9, qe_queue = Queue_Steer, qe_run_id = Some ''run'',
      qe_target = json_object [(''id'', JString ''t'')]\<rparr>"

definition demo_mutations :: "int session_mutation list" where
  "demo_mutations =
     [Mut_Entry 1 0 (Some ''main'') (demo_message ''a'' 1 None (demo_user ''hello'')),
      Mut_Entry 2 0 (Some ''main'') (demo_message ''b'' 2 (Some ''a'') (demo_assistant [demo_call ''c1''])),
      Mut_Lane 3 ''side'' (Some ''a''),
      Mut_Entry 4 0 (Some ''side'') (demo_message ''d'' 4 (Some ''a'') (demo_user ''again'')),
      Mut_Record (Rec_OperationStarted demo_started),
      Mut_Record (demo_frame ''f1'' 6 Frame_Append),
      Mut_Record (demo_frame ''f2'' 7 Frame_Append),
      Mut_Record (demo_frame ''f3'' 8 Frame_ClearStream),
      Mut_Record (Rec_QueueEnqueued demo_enqueued),
      Mut_FactName 10 (Some ''demo''),
      Mut_FactLabel 11 ''a'' (Some ''start'')]"

definition demo_state :: "int session_state" where
  "demo_state = projr (fold_res session_step session_new demo_mutations)"

lemmas demo_defs = demo_entry_base_def demo_user_def demo_message_def demo_call_def
  demo_assistant_def demo_base_def demo_started_def demo_frame_def demo_enqueued_def

lemma demo_stamped: "list_all well_stamped demo_mutations"
  by code_simp

lemma demo_accepted: "\<not> isl (fold_res session_step session_new demo_mutations)"
  by code_simp

lemma demo_replay: "fold_res session_step session_new demo_mutations = Inr demo_state"
  using demo_accepted by (simp add: demo_state_def sum.expand)

lemma demo_records: "map record_id (ix_records demo_state) = [''run'', ''f3'', ''q'']"
  by code_simp

lemma demo_wf: "session_wf demo_state"
  by (rule session_wf_replay [OF session_wf_new demo_stamped demo_replay])

lemma reach_replay:
  "session_reach s \<Longrightarrow> list_all well_stamped ms \<Longrightarrow> fold_res session_step s ms = Inr t \<Longrightarrow> session_reach t"
proof (induction ms arbitrary: s)
  case (Cons m ms)
  then obtain u where u: "session_step s m = Inr u" "fold_res session_step u ms = Inr t" by auto
  with Cons.prems have "session_reach u" by (auto simp: session_step_iff intro: reach_mutation)
  with Cons u show ?case by simp
qed simp

lemma demo_reach: "session_reach demo_state"
  by (rule reach_replay [OF reach_new demo_stamped demo_replay])

text \<open>The same session before its stream is cleared, with two resident frames.\<close>

definition demo_hot :: "int session_state" where
  "demo_hot = projr (fold_res session_step session_new (take 7 demo_mutations))"

lemma demo_hot_replay: "fold_res session_step session_new (take 7 demo_mutations) = Inr demo_hot"
proof -
  have "\<not> isl (fold_res session_step session_new (take 7 demo_mutations))" by code_simp
  then show ?thesis by (simp add: demo_hot_def sum.expand)
qed

lemma demo_hot_reach: "session_reach demo_hot"
proof -
  have "list_all well_stamped (take 7 demo_mutations)" by code_simp
  then show ?thesis by (rule reach_replay [OF reach_new _ demo_hot_replay])
qed

end
