(* ===== verification/Session_History.thy ===== *)
theory Session_History
  imports Session_Demo
begin

text \<open>
  What a session promises, free of its indexes: which mutations it accepts, and the
  history it shows. The history is the list of log items \<open>get_log\<close> returns. A mutation
  appends one item; a clear also takes the appends it covers out of the history. The
  entries, the records, the name and the labels of a state are functions of its history,
  and the state is a refinement of it (contract \<open>refined_steps\<close>).
\<close>

subsection \<open>Accepted mutations\<close>

definition opt_all :: "'a option \<Rightarrow> ('a \<Rightarrow> bool) \<Rightarrow> bool" where
  "opt_all x P = (case x of None \<Rightarrow> True | Some y \<Rightarrow> P y)"

lemma opt_all_iff: "opt_all x P \<longleftrightarrow> (\<forall>y. x = Some y \<longrightarrow> P y)"
  by (cases x) (auto simp: opt_all_def)

definition accepts :: "'f session_state \<Rightarrow> 'f session_mutation \<Rightarrow> bool" where
  "accepts s m \<longleftrightarrow> mutation_seq m = ix_sequence s + 1 \<and>
     (case m of
        Mut_Entry sq ts lane e \<Rightarrow>
          entry_id e \<notin> ix_used_ids s
          \<and> opt_all lane (\<lambda>l. map_of (ix_lanes s) l = Some (entry_parent_id e))
          \<and> opt_all (entry_parent_id e) (\<lambda>p. get_entry s p \<noteq> None)
      | Mut_Record r \<Rightarrow> map_of (ix_lanes s) (record_lane r) \<noteq> None \<and> record_id r \<notin> ix_used_ids s
      | Mut_Lane sq lane leaf \<Rightarrow> opt_all leaf (\<lambda>l. get_entry s l \<noteq> None)
      | Mut_FactName sq name \<Rightarrow> True
      | Mut_FactLabel sq target label \<Rightarrow> get_entry s target \<noteq> None)"

lemma get_entry_None_iff [simp]: "get_entry s i = None \<longleftrightarrow> ix_entries_by_id s i = None"
  by (simp add: get_entry_def)

lemma nearest_user_total:
  assumes wf: "session_wf s"
  shows "\<exists>n. nearest_user_for s e = Inr n"
proof -
  have len: "length (ix_nearest_user s) = length (ix_metadata s)"
    using session_wfD(4) [OF wf] unfolding wf_users_def by blast
  have "i < length (ix_nearest_user s)" if "ix_entries_by_id s k = Some i" for k i
    using session_wfD(3) [OF wf] that unfolding wf_table_def len by blast
  then show ?thesis
    by (auto simp: nearest_user_for_def slice_get_def split: option.splits bind_splits)
qed

lemma nearest_user_no_panic: "session_wf s \<Longrightarrow> nearest_user_for s e \<noteq> Inl Index_Panic"
  using nearest_user_total [of s e] by auto

lemma check_lane_chain_ok:
  "check_lane_chain s lane e = Inr () \<longleftrightarrow>
     (\<forall>l. lane = Some l \<longrightarrow> map_of (ix_lanes s) l = Some (entry_parent_id e))"
  by (auto simp: check_lane_chain_def split: option.splits)

lemma apply_iff_accepts:
  assumes wf: "session_wf s"
  shows "(\<exists>t out. session_apply s m = Inr (t, out)) \<longleftrightarrow> accepts s m"
proof (cases m)
  case (Mut_Entry sq ts lane e)
  have "(\<exists>t out. apply_entry (\<lambda>e. e) s sq lane e = Inr (t, out)) \<longleftrightarrow>
      entry_id e \<notin> ix_used_ids s \<and> check_lane_chain s lane e = Inr () \<and> check_parent s e = Inr ()"
    using nearest_user_total [OF wf, of e] by (auto simp: apply_entry_Inr_iff)
  then show ?thesis
    by (auto simp: Mut_Entry session_apply_def apply_mutation_def accepts_def opt_all_iff check_lane_chain_ok
        check_parent_ok)
next
  case (Mut_Record r)
  show ?thesis
    by (auto simp: Mut_Record session_apply_def apply_mutation_def accepts_def opt_all_iff
        apply_record_Inr_iff [OF session_wfD(10) [OF wf]])
qed (auto simp: session_apply_def apply_mutation_def accepts_def opt_all_iff apply_lane_def apply_fact_name_def
    apply_fact_label_def split: option.splits)

lemma apply_no_panic:
  assumes wf: "session_wf s"
  shows "session_apply s m \<noteq> Inl Index_Panic"
proof (cases "\<exists>r. m = Mut_Record r")
  case True
  then obtain r where m: "m = Mut_Record r" by blast
  have "apply_record s r \<noteq> Inl Index_Panic"
  proof (cases "map_of (ix_lanes s) (record_lane r) \<noteq> None \<and> record_id r \<notin> ix_used_ids s")
    case True
    then have "\<exists>t out. apply_record s r = Inr (t, out)"
      using apply_record_Inr_iff [OF session_wfD(10) [OF wf]] by blast
    then show ?thesis by auto
  next
    case False
    then show ?thesis
      by (auto simp: apply_record_def res_bind_Inl_iff validate_unused_id_def)
  qed
  then show ?thesis by (auto simp: m session_apply_def apply_mutation_def res_bind_Inl_iff)
next
  case False
  then show ?thesis
    using nearest_user_no_panic [OF wf]
    by (cases m) (auto simp: session_apply_def apply_mutation_def res_bind_Inl_iff apply_entry_def
        validate_unused_id_def check_lane_chain_def check_parent_def apply_lane_def
        apply_fact_name_def apply_fact_label_def split: option.splits)
qed

subsection \<open>The history\<close>

fun resolve_item :: "'f session_state \<Rightarrow> 'f stored_log_item \<Rightarrow> 'f log_item" where
  "resolve_item s (Stored_Entry i) = Log_Entry (entry_seq (ix_entries s ! i)) (ix_entries s ! i)"
| "resolve_item s (Stored_Record i) = Log_Record (record_seq (ix_records s ! i)) (ix_records s ! i)"
| "resolve_item s (Stored_Other x) = x"

definition history :: "'f session_state \<Rightarrow> 'f log_item list" where
  "history s = map (resolve_item s) (ix_log s)"

fun history_item :: "'f session_mutation \<Rightarrow> 'f log_item" where
  "history_item (Mut_Entry sq ts lane e) = Log_Entry (entry_seq e) e"
| "history_item (Mut_Record r) = Log_Record (record_seq r) r"
| "history_item (Mut_Lane sq lane leaf) = Log_Lane sq lane leaf"
| "history_item (Mut_FactName sq name) = Log_FactName sq name"
| "history_item (Mut_FactLabel sq target label) = Log_FactLabel sq target label"

fun clears_item :: "'f session_mutation \<Rightarrow> 'f log_item \<Rightarrow> bool" where
  "clears_item (Mut_Record c) (Log_Record _ r) = covered c r"
| "clears_item _ _ = False"

definition history_step :: "'f log_item list \<Rightarrow> 'f session_mutation \<Rightarrow> 'f log_item list" where
  "history_step h m = filter (\<lambda>x. \<not> clears_item m x) h @ [history_item m]"

definition hist_entry :: "'f log_item \<Rightarrow> 'f entry option" where
  "hist_entry x = (case x of Log_Entry _ e \<Rightarrow> Some e | _ \<Rightarrow> None)"

definition hist_record :: "'f log_item \<Rightarrow> 'f lane_record option" where
  "hist_record x = (case x of Log_Record _ r \<Rightarrow> Some r | _ \<Rightarrow> None)"

fun name_after :: "string option \<Rightarrow> 'f log_item \<Rightarrow> string option" where
  "name_after n (Log_FactName _ name) = name"
| "name_after n _ = n"

fun labels_after :: "(string \<rightharpoonup> string) \<Rightarrow> 'f log_item \<Rightarrow> (string \<rightharpoonup> string)" where
  "labels_after ls (Log_FactLabel _ target label) = ls(target := label)"
| "labels_after ls _ = ls"

definition history_facts :: "'f session_state \<Rightarrow> bool" where
  "history_facts s \<longleftrightarrow>
     ix_name s = foldl name_after None (history s)
     \<and> ix_labels s = foldl labels_after Map.empty (history s)"

lemma map_nth_refs:
  assumes "filter_map f xs = [0..<length ys]"
  shows "filter_map (\<lambda>x. map_option ((!) ys) (f x)) xs = ys"
proof -
  have "filter_map (\<lambda>x. map_option ((!) ys) (f x)) xs = map ((!) ys) (filter_map f xs)"
    by (simp add: map_filter_map comp_def)
  then show ?thesis by (simp add: assms map_nth)
qed

lemma is_fact_item_no_entry: "is_fact_item (Stored_Other x) \<Longrightarrow> hist_entry x = None \<and> hist_record x = None"
  by (cases x) (auto simp: hist_entry_def hist_record_def)

lemma history_entries:
  assumes wf: "session_wf s"
  shows "filter_map hist_entry (history s) = ix_entries s"
proof -
  have log: "filter_map entry_ref (ix_log s) = [0..<length (ix_entries s)]" "list_all is_fact_item (ix_log s)"
    using session_wfD(2,7) [OF wf] by (auto simp: wf_log_def)
  have "filter_map hist_entry (history s) =
      filter_map (\<lambda>x. map_option ((!) (ix_entries s)) (entry_ref x)) (ix_log s)"
    unfolding history_def filter_map_map
  proof (rule filter_map_cong)
    fix x
    assume "x \<in> set (ix_log s)"
    with log(2) have "is_fact_item x" by (auto simp: list_all_iff)
    then show "(hist_entry \<circ> resolve_item s) x = map_option ((!) (ix_entries s)) (entry_ref x)"
      using is_fact_item_no_entry by (cases x) (auto simp: hist_entry_def)
  qed
  then show ?thesis using map_nth_refs [OF log(1)] by simp
qed

lemma history_records:
  assumes wf: "session_wf s"
  shows "filter_map hist_record (history s) = ix_records s"
proof -
  have log: "filter_map record_ref (ix_log s) = [0..<length (ix_records s)]" "list_all is_fact_item (ix_log s)"
    using session_wfD(7) [OF wf] by (auto simp: wf_log_def records_in_order_def)
  have "filter_map hist_record (history s) =
      filter_map (\<lambda>x. map_option ((!) (ix_records s)) (record_ref x)) (ix_log s)"
    unfolding history_def filter_map_map
  proof (rule filter_map_cong)
    fix x
    assume "x \<in> set (ix_log s)"
    with log(2) have "is_fact_item x" by (auto simp: list_all_iff)
    then show "(hist_record \<circ> resolve_item s) x = map_option ((!) (ix_records s)) (record_ref x)"
      using is_fact_item_no_entry by (cases x) (auto simp: hist_record_def)
  qed
  then show ?thesis using map_nth_refs [OF log(1)] by simp
qed

lemma stored_seq_resolve:
  assumes wf: "session_wf s" and x: "x \<in> set (ix_log s)"
  shows "log_item_seq (resolve_item s x) = stored_seq s x"
proof (cases x)
  case (Stored_Entry i)
  then have "i < length (ix_metadata s)"
    using x session_wfD(7) [OF wf] entry_ref_bound by blast
  then show ?thesis using session_wfD(2) [OF wf] by (simp add: Stored_Entry stored_seq_def)
qed (simp_all add: stored_seq_def)

subsection \<open>A mutation is a step of the history\<close>

lemma history_push:
  assumes log: "ix_log t = ix_log s @ [x]"
    and pre: "\<exists>es rs. ix_entries t = ix_entries s @ es \<and> ix_records t = ix_records s @ rs"
    and wf: "session_wf s"
  shows "history t = history s @ [resolve_item t x]"
proof -
  have wlog: "wf_log s" and len: "length (ix_metadata s) = length (ix_entries s)"
    using session_wfD(2,7) [OF wf] by simp_all
  have "resolve_item t y = resolve_item s y" if y: "y \<in> set (ix_log s)" for y
  proof (cases y)
    case (Stored_Entry i)
    with y wlog len have "i < length (ix_entries s)" by (auto dest: entry_ref_bound)
    with pre Stored_Entry show ?thesis by (auto simp: nth_append)
  next
    case (Stored_Record i)
    with y wlog have "i < length (ix_records s)" by (auto dest: record_ref_bound)
    with pre Stored_Record show ?thesis by (auto simp: nth_append)
  qed simp
  then show ?thesis by (simp add: history_def log)
qed

lemma history_retire:
  assumes "records_in_order s" and "list_all is_fact_item (ix_log s)"
  shows "history (retire_spec P s) =
    filter (\<lambda>x. case x of Log_Record _ r \<Rightarrow> \<not> P r | _ \<Rightarrow> True) (history s)"
proof -
  have "history (retire_spec P s) = map (resolve_item s) (filter (kept_item P (ix_records s)) (ix_log s))"
    unfolding history_def retire_spec_simps
    by (rule map_renumbered_log)
      (use assms in \<open>auto simp: records_in_order_def nth_filter_take\<close>)
  also have "\<dots> = filter (\<lambda>x. case x of Log_Record _ r \<Rightarrow> \<not> P r | _ \<Rightarrow> True) (history s)"
  proof -
    have "kept_item P (ix_records s) y =
        (case resolve_item s y of Log_Record _ r \<Rightarrow> \<not> P r | _ \<Rightarrow> True)"
      if "y \<in> set (ix_log s)" for y
    proof (cases y)
      case (Stored_Other x)
      with that assms(2) have "is_fact_item (Stored_Other x)" by (auto simp: list_all_iff)
      then show ?thesis by (cases x) (auto simp: Stored_Other kept_item_def)
    qed (auto simp: kept_item_def)
    then show ?thesis by (simp add: history_def filter_map comp_def cong: filter_cong)
  qed
  finally show ?thesis .
qed

lemma filter_no_clears: "(\<And>x. \<not> clears_item m x) \<Longrightarrow> history_step h m = h @ [history_item m]"
  by (simp add: history_step_def)

lemma clears_record: "clears_item (Mut_Record c) x = (case x of Log_Record _ r \<Rightarrow> covered c r | _ \<Rightarrow> False)"
  by (cases x) auto

lemma history_apply_record:
  assumes wf: "session_wf s" and t: "t = retire_spec (covered r) (push_record s r)"
  shows "history t = history_step (history s) (Mut_Record r)"
proof -
  let ?u = "push_record s r"
  have log: "wf_log s" using session_wfD(7) [OF wf] .
  have push: "history ?u = history s @ [Log_Record (record_seq r) r]"
    using history_push [of ?u s "Stored_Record (length (ix_records s))", OF _ _ wf] by simp
  have "history t = filter (\<lambda>x. case x of Log_Record _ r' \<Rightarrow> \<not> covered r r' | _ \<Rightarrow> True) (history ?u)"
    unfolding t by (rule history_retire)
      (use log in \<open>auto simp: wf_log_def records_in_order_push\<close>)
  moreover have "\<not> covered r r" using covered_seq [of r r] by auto
  ultimately show ?thesis
    by (auto simp: push history_step_def clears_record intro!: filter_cong split: log_item.splits)
qed

lemma history_apply:
  assumes wf: "session_wf s" and step: "session_apply s m = Inr (t, out)"
  shows "history t = history_step (history s) m"
proof (cases m)
  case (Mut_Entry sq ts lane e)
  then obtain n where t: "t = extend_entry (\<lambda>e. e) s sq lane e n"
    using step by (auto simp: session_apply_def apply_mutation_def apply_entry_Inr_iff)
  have "history t = history s @ [resolve_item t (Stored_Entry (length (ix_entries s)))]"
    by (rule history_push [OF _ _ wf]) (simp_all add: t)
  then show ?thesis by (simp add: Mut_Entry filter_no_clears t)
next
  case (Mut_Record r)
  then have "t = retire_spec (covered r) (push_record s r)"
    using step
    by (auto simp: session_apply_def apply_mutation_def apply_record_Inr_iff [OF session_wfD(10) [OF wf]])
  with history_apply_record [OF wf] show ?thesis by (simp add: Mut_Record)
qed (use step history_push [of t s _, OF _ _ wf] in \<open>force simp: session_apply_def apply_mutation_def
      apply_lane_def apply_fact_name_def apply_fact_label_def filter_no_clears split: option.splits\<close>)+

lemma history_facts_apply:
  assumes wf: "session_wf s" and facts: "history_facts s" and step: "session_apply s m = Inr (t, out)"
  shows "history_facts t"
proof -
  have same: "foldl name_after n (filter (\<lambda>x. \<not> clears_item m x) h) = foldl name_after n h"
    "foldl labels_after ls (filter (\<lambda>x. \<not> clears_item m x) h) = foldl labels_after ls h" for n ls h
  proof -
    have *: "name_after n x = n \<and> labels_after ls x = ls" if "clears_item m x" for n ls x
      using that by (cases m; cases x) auto
    show "foldl name_after n (filter (\<lambda>x. \<not> clears_item m x) h) = foldl name_after n h"
      "foldl labels_after ls (filter (\<lambda>x. \<not> clears_item m x) h) = foldl labels_after ls h"
      using * by (induction h arbitrary: n ls) auto
  qed
  have folds: "foldl name_after None (history t) = name_after (ix_name s) (history_item m)"
    "foldl labels_after Map.empty (history t) = labels_after (ix_labels s) (history_item m)"
    using facts by (simp_all add: history_apply [OF wf step] history_step_def history_facts_def same)
  have "ix_name t = name_after (ix_name s) (history_item m)
      \<and> ix_labels t = labels_after (ix_labels s) (history_item m)"
    using step
    by (cases m) (auto simp: session_apply_def apply_mutation_def apply_entry_Inr_iff
        apply_record_Inr_iff [OF session_wfD(10) [OF wf]] apply_lane_def apply_fact_name_def
        apply_fact_label_def split: option.splits)
  then show ?thesis by (simp add: history_facts_def folds)
qed

interpretation session_history: refined_steps stamped_step session_wf history history_step
  by unfold_locales
    (auto simp: stamped_step_def session_step_iff split: if_splits intro: history_apply)

lemma history_replay:
  "session_wf s \<Longrightarrow> list_all well_stamped ms \<Longrightarrow> fold_res session_step s ms = Inr t \<Longrightarrow>
     history t = foldl history_step (history s) ms"
  by (metis fold_stamped session_history.replay_refines)

lemma history_new [simp]: "history session_new = []" "history_facts session_new"
  by (simp_all add: history_def history_facts_def session_new_def index_new_def)

text \<open>Reserved cold frames and a resynchronised counter leave no trace in the history.\<close>

lemma history_same:
  assumes "ix_log t = ix_log s" "ix_entries t = ix_entries s" "ix_records t = ix_records s"
  shows "history t = history s"
proof -
  have "resolve_item t x = resolve_item s x" for x
    using assms by (cases x) auto
  then show ?thesis using assms(1) by (simp add: history_def)
qed

lemma history_reserve: "reserve_cold_frame s f = Inr t \<Longrightarrow> history t = history s"
  by (rule history_same) (auto simp: reserve_cold_frame_def reserve_cold_frame_identity_def)

lemma history_resync: "history (resync_sequence q s) = history s"
  by (rule history_same) (auto simp: resync_sequence_def)

lemma reach_facts: "session_reach s \<Longrightarrow> history_facts s"
proof (induction rule: session_reach.induct)
  case (reach_mutation s m t out)
  then show ?case using history_facts_apply reach_wf by blast
next
  case (reach_cold s f t)
  then have "ix_name t = ix_name s" "ix_labels t = ix_labels s"
    by (auto simp: reserve_cold_frame_def reserve_cold_frame_identity_def)
  with reach_cold history_reserve show ?case by (fastforce simp: history_facts_def)
next
  case (reach_resync s sq)
  then show ?case by (simp add: history_facts_def history_resync) (simp add: resync_sequence_def)
qed simp

subsection \<open>Properties of the session state\<close>

text \<open>
  C1. Every session a storage can reach (a new session, stamped mutations, reserved cold
  frames and a resynchronised counter, in any order) is well formed: the entry table, the
  nearest-user index, the identifiers, the lanes, the log, the derived facts and the frames
  satisfy the invariant.
\<close>

theorem reachable_session_wf: "session_reach s \<Longrightarrow> session_wf s"
  by (rule reach_wf)

theorem reachable_session_wf_witness: "session_wf demo_state"
  by (rule reachable_session_wf [OF demo_reach])

text \<open>
  C2. A reachable session accepts exactly the mutations that follow the sequence, chain to
  the leaf of the lane they name, reference entries and lanes that exist and carry an
  unused identifier.
\<close>

theorem mutation_accepted_iff:
  "session_reach s \<Longrightarrow> (\<exists>t out. session_apply s m = Inr (t, out)) \<longleftrightarrow> accepts s m"
  by (rule apply_iff_accepts [OF reach_wf])

theorem mutation_accepted_iff_witness:
  "\<exists>t out. session_apply demo_state (Mut_Entry 12 0 (Some ''side'')
     (demo_message ''e'' 12 (Some ''d'') (demo_assistant []))) = Inr (t, out)"
  unfolding mutation_accepted_iff [OF demo_reach] by code_simp

text \<open>No mutation, accepted or refused, indexes out of range in a reachable session.\<close>

theorem mutation_never_panics: "session_reach s \<Longrightarrow> session_apply s m \<noteq> Inl Index_Panic"
  by (rule apply_no_panic [OF reach_wf])

theorem mutation_never_panics_witness:
  "session_apply demo_state (Mut_Entry 99 0 (Some ''gone'')
     (demo_message ''a'' 99 (Some ''zz'') (demo_assistant []))) \<noteq> Inl Index_Panic"
  by (rule mutation_never_panics [OF demo_reach])

text \<open>
  C3. Replaying stamped mutations refines the abstract history: each mutation appends one log
  item, and a clear removes exactly the streamed appends it covers.
\<close>

theorem replay_refines_history:
  assumes "session_reach s" and "list_all well_stamped ms" and "fold_res session_step s ms = Inr t"
  shows "history t = foldl history_step (history s) ms"
  using assms by (intro history_replay) (simp_all add: reach_wf)

theorem replay_refines_history_witness:
  "history demo_state = foldl history_step (history session_new) demo_mutations"
  by (rule replay_refines_history [OF reach_new demo_stamped demo_replay])

text \<open>
  The history determines a reachable session: its entries, records, name and labels are
  read off the log, and the statistics and the open operations are functions of those.
\<close>

theorem history_determines_session:
  assumes "session_reach s"
  shows "ix_entries s = filter_map hist_entry (history s)
     \<and> ix_records s = filter_map hist_record (history s)
     \<and> ix_name s = foldl name_after None (history s)
     \<and> ix_labels s = foldl labels_after Map.empty (history s)
     \<and> ix_stats s = stats_of (map entry_meta_of (ix_entries s)) (ix_records s)
     \<and> ix_open_ops s = open_ops_of (ix_records s)"
  using reach_wf [OF assms] reach_facts [OF assms] session_wfD [of s]
  by (simp_all add: history_entries history_records history_facts_def wf_derived_def)

theorem history_determines_session_witness:
  "ix_records demo_state = filter_map hist_record (history demo_state)
     \<and> ix_labels demo_state = foldl labels_after Map.empty (history demo_state)"
  using history_determines_session [OF demo_reach] by blast

text \<open>
  In a reachable session no two live entries or records share an identifier, and the
  log lists its items in strictly ascending sequence numbers, none above the counter.
\<close>

theorem ids_and_sequences:
  assumes "session_reach s"
  shows "distinct (map entry_id (ix_entries s) @ map record_id (ix_records s))
     \<and> sorted_wrt (<) (map log_item_seq (history s))
     \<and> (\<forall>x \<in> set (history s). 0 < log_item_seq x \<and> log_item_seq x \<le> ix_sequence s)"
proof (intro conjI)
  have wf: "session_wf s" using reach_wf [OF assms] .
  have seqs: "map log_item_seq (history s) = log_seqs s"
    using stored_seq_resolve [OF wf] by (simp add: history_def log_seqs_def)
  show "distinct (map entry_id (ix_entries s) @ map record_id (ix_records s))"
    using session_wfD(2,5) [OF wf] by (simp add: wf_ids_def live_ids_def comp_def)
  show "sorted_wrt (<) (map log_item_seq (history s))"
    using session_wfD(7) [OF wf] by (simp add: seqs wf_log_def)
  have "\<forall>sq \<in> set (map log_item_seq (history s)). 0 < sq \<and> sq \<le> ix_sequence s"
    using session_wfD(7) [OF wf] by (simp add: seqs wf_log_def)
  then show "\<forall>x \<in> set (history s). 0 < log_item_seq x \<and> log_item_seq x \<le> ix_sequence s"
    by simp
qed

theorem ids_and_sequences_witness: "sorted_wrt (<) (map log_item_seq (history demo_state))"
  using ids_and_sequences [OF demo_reach] by blast

text \<open>
  Retiring cleared frames in place (split the tail off, rebuild it, renumber the end of
  the log) is filtering the records and renumbering every reference by counting; it never
  indexes out of range on a log that lists its records in order.
\<close>

theorem retire_frames_refines:
  assumes "records_in_order s"
  shows "retire_frames s run stream before = Inr (retire_spec (frame_retired run stream before) s)"
  by (rule retire_frames_eq [OF assms])

theorem retire_frames_refines_witness:
  "retire_frames demo_hot ''run'' (Some 0) 8 = Inr (retire_spec (frame_retired ''run'' (Some 0) 8) demo_hot)
     \<and> length (ix_records demo_hot) = 3
     \<and> length (ix_records (retire_spec (frame_retired ''run'' (Some 0) 8) demo_hot)) = 1"
proof -
  have "length (ix_records demo_hot) = 3"
    "length (ix_records (retire_spec (frame_retired ''run'' (Some 0) 8) demo_hot)) = 1"
    by code_simp+
  then show ?thesis
    using retire_frames_refines [OF session_wfD(10) [OF reach_wf [OF demo_hot_reach]]] by simp
qed

end
