(* ===== verification/Session_Branch.thy ===== *)
theory Session_Branch
  imports Session_History
begin

text \<open>
  Branch walks and candidate selection (\<open>crates/evo-harness/src/session/state/selection.rs\<close>)
  and the entry queries over them (\<open>state.rs\<close>). The walk to the root carries the set of
  visited indexes and stops with an error on a cycle; on a well-formed state it is the
  lineage of the start, cut at the first bound, and no error but an unknown start occurs.
\<close>

subsection \<open>The walk\<close>

definition bound_hit :: "branch_bounds \<Rightarrow> 'f entry_meta \<Rightarrow> bool" where
  "bound_hit b m \<longleftrightarrow>
     bb_stop_at_id b = Some (em_id m)
     \<or> (case bb_stop_at_type b of None \<Rightarrow> False | Some k \<Rightarrow> k = em_kind m)"

function (sequential) walk_from ::
  "('f, 'p) indexed_state \<Rightarrow> branch_bounds \<Rightarrow> nat set \<Rightarrow> nat list \<Rightarrow> string option
     \<Rightarrow> session_error + nat list" where
  "walk_from s b visited path None = Inr path"
| "walk_from s b visited path (Some i) =
     (case ix_entries_by_id s i of
        None \<Rightarrow> Inl (err_not_found (''Entry not found: '' @ i))
      | Some k \<Rightarrow>
          if length (ix_metadata s) \<le> k then Inl Index_Panic
          else if k \<in> visited then
            Inl (err_invalid_entry (''Session branch contains a cycle at '' @ em_id (ix_metadata s ! k)))
          else if bound_hit b (ix_metadata s ! k) \<or> em_parent_id (ix_metadata s ! k) = None
          then Inr (path @ [k])
          else walk_from s b (insert k visited) (path @ [k]) (em_parent_id (ix_metadata s ! k)))"
  by pat_completeness auto

termination
proof (relation "measure (\<lambda>(s, b, visited, path, next). card ({..<length (ix_metadata s)} - visited))",
    goal_cases)
  case (2 s b visited path i k)
  then have "k < length (ix_metadata s)" "k \<notin> visited" by simp_all
  then have "{..<length (ix_metadata s)} - insert k visited \<subset> {..<length (ix_metadata s)} - visited"
    by blast
  then show ?case by (simp add: psubset_card_mono)
qed simp

declare walk_from.simps(2) [simp del]

definition walk_to_root ::
  "('f, 'p) indexed_state \<Rightarrow> string option \<Rightarrow> branch_bounds \<Rightarrow> session_error + nat list" where
  "walk_to_root s start b = walk_from s b {} [] start"

definition branch_ancestry ::
  "('f, 'p) indexed_state \<Rightarrow> branch_bounds \<Rightarrow> string \<Rightarrow> session_error + entry_ancestry list" where
  "branch_ancestry s b start =
     res_bind (walk_to_root s (Some start) b) (\<lambda>path.
     Inr (map (\<lambda>k. \<lparr>ea_id = em_id (ix_metadata s ! k), ea_parent_id = em_parent_id (ix_metadata s ! k)\<rparr>)
       path))"

subsection \<open>The lineage of an entry\<close>

definition parent_index :: "('f, 'p) indexed_state \<Rightarrow> nat \<Rightarrow> nat option" where
  "parent_index s k = Option.bind (em_parent_id (ix_metadata s ! k)) (ix_entries_by_id s)"

function lineage :: "('f, 'p) indexed_state \<Rightarrow> nat \<Rightarrow> nat list" where
  "lineage s k =
     k # (case parent_index s k of None \<Rightarrow> [] | Some j \<Rightarrow> if j < k then lineage s j else [])"
  by pat_completeness auto

termination
  by (relation "measure snd") auto

declare lineage.simps [simp del]

lemma parent_index_less:
  assumes "wf_table s" and "k < length (ix_metadata s)" and "parent_index s k = Some j"
  shows "j < k"
proof -
  from assms(3) obtain p where "em_parent_id (ix_metadata s ! k) = Some p" "ix_entries_by_id s p = Some j"
    by (auto simp: parent_index_def bind_eq_Some_conv)
  then show ?thesis using assms(1,2) unfolding wf_table_def by fastforce
qed

lemma parent_index_None:
  assumes wf: "wf_table s" and k: "k < length (ix_metadata s)"
  shows "parent_index s k = None \<longleftrightarrow> em_parent_id (ix_metadata s ! k) = None"
proof (cases "em_parent_id (ix_metadata s ! k)")
  case (Some p)
  then obtain j where "ix_entries_by_id s p = Some j"
    using wf k unfolding wf_table_def by blast
  with Some show ?thesis by (simp add: parent_index_def)
qed (simp add: parent_index_def)

lemma root_index:
  "em_parent_id (ix_metadata s ! k) = None \<Longrightarrow> parent_index s k = None"
  by (simp add: parent_index_def)

lemma lineage_unfold:
  assumes "wf_table s" and "k < length (ix_metadata s)"
  shows "lineage s k = k # (case parent_index s k of None \<Rightarrow> [] | Some j \<Rightarrow> lineage s j)"
  using parent_index_less [OF assms] by (subst lineage.simps) (auto split: option.splits)

lemma lineage_le: "j \<in> set (lineage s k) \<Longrightarrow> j \<le> k"
proof (induction s k rule: lineage.induct)
  case (1 s k)
  then show ?case by (subst (asm) lineage.simps) (force split: option.splits if_splits)
qed

lemma lineage_descending: "sorted_wrt (>) (lineage s k)"
proof (induction s k rule: lineage.induct)
  case (1 s k)
  then show ?case
    by (subst lineage.simps) (auto split: option.splits dest: lineage_le)
qed

lemma lineage_root:
  assumes wf: "wf_table s"
  shows "k < length (ix_metadata s) \<Longrightarrow> em_parent_id (ix_metadata s ! last (lineage s k)) = None"
proof (induction k rule: less_induct)
  case (less k)
  show ?case
  proof (cases "parent_index s k")
    case None
    then have "em_parent_id (ix_metadata s ! k) = None"
      by (simp flip: parent_index_None [OF wf less.prems])
    then show ?thesis using None by (simp add: lineage_unfold [OF wf less.prems])
  next
    case (Some j)
    then have "j < k" using parent_index_less [OF wf less.prems] by simp
    moreover have "lineage s j \<noteq> []" by (subst lineage.simps) simp
    ultimately show ?thesis using less Some wf by (simp add: lineage_unfold)
  qed
qed

text \<open>The walk meets every index of the lineage once, so it reports no cycle.\<close>

lemma walk_from_lineage:
  assumes wf: "wf_table s"
  shows "ix_entries_by_id s i = Some k \<Longrightarrow> \<forall>v \<in> visited. k < v \<Longrightarrow>
     walk_from s b visited path (Some i) =
       Inr (path @ take_until (\<lambda>j. bound_hit b (ix_metadata s ! j)) (lineage s k))"
proof (induction k arbitrary: i visited path rule: less_induct)
  case (less k)
  have k: "k < length (ix_metadata s)" "k \<notin> visited"
    using wf less.prems by (auto simp: wf_table_def)
  note unfold = lineage_unfold [OF wf k(1)] and walk = walk_from.simps(2) [of s b visited path i]
  show ?case
  proof (cases "em_parent_id (ix_metadata s ! k)")
    case None
    then show ?thesis
      using k less.prems by (simp add: unfold walk root_index)
  next
    case (Some p)
    then obtain j where j: "parent_index s k = Some j" "ix_entries_by_id s p = Some j" "j < k"
      using parent_index_None [OF wf k(1)] parent_index_less [OF wf k(1)]
      by (cases "parent_index s k") (auto simp: parent_index_def)
    have tail: "walk_from s b (insert k visited) (path @ [k]) (Some p) =
        Inr ((path @ [k]) @ take_until (\<lambda>j. bound_hit b (ix_metadata s ! j)) (lineage s j))"
      using less.prems(2) j(3) by (intro less.IH [OF j(3) j(2)]) auto
    show ?thesis
      using k less.prems(1) Some j(1) by (simp add: unfold walk tail)
  qed
qed

lemma walk_to_root_eq:
  assumes "wf_table s"
  shows "walk_to_root s (Some i) b =
     (case ix_entries_by_id s i of
        None \<Rightarrow> Inl (err_not_found (''Entry not found: '' @ i))
      | Some k \<Rightarrow> Inr (take_until (\<lambda>j. bound_hit b (ix_metadata s ! j)) (lineage s k)))"
proof (cases "ix_entries_by_id s i")
  case (Some k)
  then show ?thesis
    using walk_from_lineage [OF assms Some, of "{}" b "[]"] by (simp add: walk_to_root_def)
qed (simp add: walk_to_root_def walk_from.simps)

text \<open>The lineage, read on the entries.\<close>

lemma lineage_links:
  assumes wf: "session_wf s"
  shows "k < length (ix_entries s) \<Longrightarrow>
     hd (lineage s k) = k
     \<and> (\<forall>i. Suc i < length (lineage s k) \<longrightarrow>
          entry_parent_id (ix_entries s ! (lineage s k ! i)) = Some (entry_id (ix_entries s ! (lineage s k ! Suc i))))
     \<and> entry_parent_id (ix_entries s ! last (lineage s k)) = None"
proof (induction k rule: less_induct)
  case (less k)
  have table: "wf_table s" using session_wfD(3) [OF wf] .
  have k: "k < length (ix_metadata s)"
    and meta: "em_parent_id (ix_metadata s ! k) = entry_parent_id (ix_entries s ! k)"
    using less.prems session_wfD(2) [OF wf] by simp_all
  note unfold = lineage_unfold [OF table k]
  show ?case
  proof (cases "parent_index s k")
    case None
    then have "entry_parent_id (ix_entries s ! k) = None"
      using parent_index_None [OF table k] by (simp add: meta)
    with None show ?thesis by (simp add: unfold)
  next
    case (Some j)
    then have j: "j < k" by (rule parent_index_less [OF table k])
    then have IH: "hd (lineage s j) = j"
      "\<And>i. Suc i < length (lineage s j) \<Longrightarrow>
         entry_parent_id (ix_entries s ! (lineage s j ! i)) = Some (entry_id (ix_entries s ! (lineage s j ! Suc i)))"
      "entry_parent_id (ix_entries s ! last (lineage s j)) = None"
      using less by auto
    obtain p where p: "entry_parent_id (ix_entries s ! k) = Some p" "ix_entries_by_id s p = Some j"
      using Some by (auto simp: parent_index_def meta bind_eq_Some_conv)
    then have "p = entry_id (ix_entries s ! j)" using session_of_id [OF wf] by metis
    moreover have "lineage s j \<noteq> []" by (subst lineage.simps) simp
    then have "lineage s j ! 0 = j" using IH(1) by (simp add: hd_conv_nth)
    ultimately show ?thesis
      using Some IH p \<open>lineage s j \<noteq> []\<close> by (auto simp: unfold nth_Cons split: nat.split)
  qed
qed

subsection \<open>Entry queries\<close>

definition validate_limit :: "nat option \<Rightarrow> session_error + unit" where
  "validate_limit limit = ensure (limit \<noteq> Some 0) (err_invalid_query ''limit must be a positive integer'')"

text \<open>Reversed for an oldest-first query, then cut after its first bound.\<close>

definition oldest_first_path ::
  "('f, 'p) indexed_state \<Rightarrow> branch_bounds \<Rightarrow> nat list \<Rightarrow> nat list" where
  "oldest_first_path s b path =
     (case position (\<lambda>k. bound_hit b (ix_metadata s ! k)) (rev path) of
        None \<Rightarrow> rev path
      | Some end \<Rightarrow> take (end + 1) (rev path))"

definition select_entry_indices ::
  "('f, 'p) indexed_state \<Rightarrow> entry_query \<Rightarrow> (branch_bounds \<times> string) option
     \<Rightarrow> session_error + nat list" where
  "select_entry_indices s q branch =
     res_bind (validate_limit (eq_limit q)) (\<lambda>_.
     res_bind (case branch of
                 Some (b, start) \<Rightarrow>
                   res_bind (walk_to_root s (Some start) b) (\<lambda>path.
                   Inr (case query_order q of
                          OldestFirst \<Rightarrow> oldest_first_path s b path
                        | NewestFirst \<Rightarrow> path))
               | None \<Rightarrow>
                   Inr (case query_order q of
                          NewestFirst \<Rightarrow> rev [0..<length (ix_metadata s)]
                        | OldestFirst \<Rightarrow> [0..<length (ix_metadata s)])) (\<lambda>indices.
     Inr (filter (\<lambda>k. matches_query (ix_metadata s ! k) q) indices)))"

text \<open>The predicates that need the payload: the host outbox key and the tool call.\<close>

definition outbox_matches :: "string option \<Rightarrow> 'f entry \<Rightarrow> bool" where
  "outbox_matches key e =
     (case key of None \<Rightarrow> True
      | Some k \<Rightarrow>
          (case entry_as_message e of
             Some (AgentMessage_Custom c) \<Rightarrow>
               Option.bind (Option.bind (json_get ''__evoOutbox'' (cm_data c)) (json_get ''key'')) json_as_str
                 = Some k
           | _ \<Rightarrow> False))"

definition tool_matches :: "string option \<Rightarrow> 'f entry \<Rightarrow> bool" where
  "tool_matches tc e =
     (case tc of None \<Rightarrow> True
      | Some i \<Rightarrow>
          (case entry_as_message e of
             Some (AgentMessage_Assistant a) \<Rightarrow> list_ex (\<lambda>t. tcall_id t = i) (tool_calls_of (am_content a))
           | Some (AgentMessage_ToolResult r) \<Rightarrow> tr_tool_call_id r = i
           | _ \<Rightarrow> False))"

definition matches_entry_payload :: "'f entry \<Rightarrow> entry_query \<Rightarrow> bool" where
  "matches_entry_payload e q \<longleftrightarrow> outbox_matches (eq_outbox_key q) e \<and> tool_matches (eq_tool_call_id q) e"

definition matches_entry_query :: "'f entry \<Rightarrow> entry_query \<Rightarrow> bool" where
  "matches_entry_query e q \<longleftrightarrow> matches_query (entry_meta_of e) q \<and> matches_entry_payload e q"

definition hydrate ::
  "'f session_state \<Rightarrow> entry_query \<Rightarrow> nat list \<Rightarrow> 'f entry list" where
  "hydrate s q indices =
     collect_limited (\<lambda>e. matches_entry_payload e q) (eq_limit q) []
       (map ((!) (ix_entries s)) indices)"

definition find_entries :: "'f session_state \<Rightarrow> entry_query \<Rightarrow> session_error + 'f entry list" where
  "find_entries s q =
     res_bind (select_entry_indices s q None) (\<lambda>indices. Inr (hydrate s q indices))"

definition find_entries_on_branch ::
  "'f session_state \<Rightarrow> entry_query \<Rightarrow> branch_bounds \<Rightarrow> string \<Rightarrow> session_error + 'f entry list" where
  "find_entries_on_branch s q b start =
     res_bind (select_entry_indices s q (Some (b, start))) (\<lambda>indices. Inr (hydrate s q indices))"

subsection \<open>What the entry queries return\<close>

text \<open>The branch of an entry, newest first, and the bound on entries.\<close>

definition branch_of :: "'f session_state \<Rightarrow> nat \<Rightarrow> 'f entry list" where
  "branch_of s k = map ((!) (ix_entries s)) (lineage s k)"

definition entry_bound :: "branch_bounds \<Rightarrow> 'f entry \<Rightarrow> bool" where
  "entry_bound b e \<longleftrightarrow>
     bb_stop_at_id b = Some (entry_id e)
     \<or> (case bb_stop_at_type b of None \<Rightarrow> False | Some k \<Rightarrow> k = entry_type e)"

lemma bound_hit_meta: "bound_hit b (entry_meta_of e) = entry_bound b e"
  by (simp add: bound_hit_def entry_bound_def split: option.split)

definition ordered :: "entry_order \<Rightarrow> 'a list \<Rightarrow> 'a list" where
  "ordered ord xs = (case ord of OldestFirst \<Rightarrow> xs | NewestFirst \<Rightarrow> rev xs)"

lemma lineage_bound:
  "wf_table s \<Longrightarrow> k < length (ix_metadata s) \<Longrightarrow> j \<in> set (lineage s k) \<Longrightarrow> j < length (ix_metadata s)"
  using lineage_le by fastforce

lemma hydrate_select:
  assumes wf: "session_wf s" and limit: "eq_limit q \<noteq> Some 0"
    and bound: "\<And>k. k \<in> set ks \<Longrightarrow> k < length (ix_entries s)"
  shows "hydrate s q (filter (\<lambda>k. matches_query (ix_metadata s ! k) q) ks) =
     take_opt (eq_limit q) (filter (\<lambda>e. matches_entry_query e q) (map ((!) (ix_entries s)) ks))"
proof -
  have "filter (\<lambda>k. matches_query (ix_metadata s ! k) q) ks =
      filter (\<lambda>k. matches_query (entry_meta_of (ix_entries s ! k)) q) ks"
    using bound session_wfD(2) [OF wf] by (auto intro: filter_cong)
  then show ?thesis
    by (simp add: hydrate_def collect_limited_filter [OF limit] filter_map comp_def
        matches_entry_query_def conj_commute)
qed

lemma find_entries_eq:
  assumes wf: "session_wf s" and limit: "eq_limit q \<noteq> Some 0"
  shows "find_entries s q =
     Inr (take_opt (eq_limit q)
       (filter (\<lambda>e. matches_entry_query e q) (ordered (query_order q) (ix_entries s))))"
proof -
  have len: "length (ix_metadata s) = length (ix_entries s)" using session_wfD(2) [OF wf] by simp
  have ord: "map ((!) (ix_entries s)) (ordered ord [0..<length (ix_entries s)]) = ordered ord (ix_entries s)"
    for ord by (cases ord) (simp_all add: ordered_def map_nth flip: rev_map)
  have sel: "select_entry_indices s q None =
      Inr (filter (\<lambda>k. matches_query (ix_metadata s ! k) q)
        (ordered (query_order q) [0..<length (ix_entries s)]))"
    using limit by (simp add: select_entry_indices_def validate_limit_def ordered_def len split: entry_order.split)
  show ?thesis
    using hydrate_select [OF wf limit, of "ordered (query_order q) [0..<length (ix_entries s)]"] ord
    by (auto simp: find_entries_def sel ordered_def split: entry_order.splits)
qed

lemma filter_eq_singleton_take:
  "position P xs = Some i \<Longrightarrow> \<exists>y ys. take (i + 1) xs = ys @ [y] \<and> P y \<and> (\<forall>x \<in> set ys. \<not> P x)"
  by (rule exI [of _ "xs ! i"], rule exI [of _ "take i xs"])
    (auto simp: position_Some_iff take_Suc_conv_app_nth in_set_conv_nth)

text \<open>
  Oldest first, a bound on the branch leaves only the bound's own entry, because the walk
  already ended there; without one the whole branch is returned.
\<close>

definition bounded_branch :: "branch_bounds \<Rightarrow> entry_order \<Rightarrow> 'f entry list \<Rightarrow> 'f entry list" where
  "bounded_branch b ord newest_first =
     (case ord of
        NewestFirst \<Rightarrow> take_until (entry_bound b) newest_first
      | OldestFirst \<Rightarrow>
          (case find (entry_bound b) newest_first of
             None \<Rightarrow> rev newest_first
           | Some e \<Rightarrow> [e]))"

lemma take_until_map: "take_until P (map f xs) = map f (take_until (P \<circ> f) xs)"
  by (induction xs) auto

lemma take_until_cong: "(\<And>x. x \<in> set xs \<Longrightarrow> P x = Q x) \<Longrightarrow> take_until P xs = take_until Q xs"
  by (induction xs) auto

lemma oldest_first_cut:
  "(case position P (rev (take_until P xs)) of
      None \<Rightarrow> rev (take_until P xs)
    | Some end \<Rightarrow> take (end + 1) (rev (take_until P xs))) =
   (case find P xs of None \<Rightarrow> rev xs | Some e \<Rightarrow> [e])"
proof (cases "\<exists>x \<in> set xs. P x")
  case True
  then obtain ys y where y: "take_until P xs = ys @ [y]" "P y" "\<forall>x \<in> set ys. \<not> P x"
    using take_until_hit by metis
  moreover have "find P xs = Some y"
    using y by (induction xs arbitrary: ys) (auto simp: Cons_eq_append_conv split: if_splits)
  ultimately show ?thesis by simp
next
  case False
  then have "find P xs = None" by (simp add: find_None_iff)
  with False show ?thesis
    by (simp add: take_until_none position_None_iff [THEN iffD2])
qed

lemma find_map: "find P (map f xs) = map_option f (find (P \<circ> f) xs)"
  by (induction xs) auto

lemma find_cong_set: "(\<And>x. x \<in> set xs \<Longrightarrow> P x = Q x) \<Longrightarrow> find P xs = find Q xs"
  by (induction xs) auto

lemma find_entries_on_branch_eq:
  assumes wf: "session_wf s" and limit: "eq_limit q \<noteq> Some 0"
    and start: "ix_entries_by_id s start = Some k"
  shows "find_entries_on_branch s q b start =
     Inr (take_opt (eq_limit q)
       (filter (\<lambda>e. matches_entry_query e q) (bounded_branch b (query_order q) (branch_of s k))))"
proof -
  have meta: "ix_metadata s = map entry_meta_of (ix_entries s)" and table: "wf_table s"
    using session_wfD(2,3) [OF wf] by auto
  have k: "k < length (ix_metadata s)" using table start by (simp add: wf_table_def)
  let ?P = "\<lambda>j. bound_hit b (ix_metadata s ! j)"
  have bound: "j < length (ix_entries s)" if "j \<in> set (lineage s k)" for j
    using lineage_bound [OF table k that] by (simp add: meta)
  have hit: "?P j = entry_bound b (ix_entries s ! j)" if "j \<in> set (lineage s k)" for j
    using bound [OF that] by (simp add: meta bound_hit_meta)
  let ?ks = "case query_order q of
      OldestFirst \<Rightarrow> (case find ?P (lineage s k) of None \<Rightarrow> rev (lineage s k) | Some e \<Rightarrow> [e])
    | NewestFirst \<Rightarrow> take_until ?P (lineage s k)"
  have sel: "select_entry_indices s q (Some (b, start)) =
      Inr (filter (\<lambda>j. matches_query (ix_metadata s ! j) q) ?ks)"
    using limit oldest_first_cut [of ?P "lineage s k"]
    by (simp add: select_entry_indices_def validate_limit_def walk_to_root_eq [OF table] start
        oldest_first_path_def split: entry_order.split)
  have "j \<in> set (lineage s k)" if "j \<in> set ?ks" for j
    using that set_take_until [of ?P "lineage s k"]
    by (auto split: entry_order.splits option.splits dest: find_Some_iff [THEN iffD1])
  then have "hydrate s q (filter (\<lambda>j. matches_query (ix_metadata s ! j) q) ?ks) =
      take_opt (eq_limit q) (filter (\<lambda>e. matches_entry_query e q) (map ((!) (ix_entries s)) ?ks))"
    using bound by (intro hydrate_select [OF wf limit]) blast
  moreover have "map ((!) (ix_entries s)) ?ks = bounded_branch b (query_order q) (branch_of s k)"
    using take_until_cong [of "lineage s k", OF hit] find_cong_set [of "lineage s k", OF hit]
    by (auto simp: bounded_branch_def branch_of_def take_until_map find_map comp_def rev_map
        split: entry_order.split option.split)
  ultimately show ?thesis by (simp add: find_entries_on_branch_def sel)
qed

subsection \<open>Properties of the branch queries\<close>

text \<open>
  C4. On a reachable session the walk to the root returns the lineage of the start, newest
  first, cut after the first bound; it never reports a cycle or indexes out of range, and
  the only error is an unknown start.
\<close>

theorem walk_is_lineage:
  assumes "session_reach s"
  shows "walk_to_root s (Some i) b =
     (case ix_entries_by_id s i of
        None \<Rightarrow> Inl (err_not_found (''Entry not found: '' @ i))
      | Some k \<Rightarrow> Inr (take_until (\<lambda>j. bound_hit b (ix_metadata s ! j)) (lineage s k)))"
  by (rule walk_to_root_eq [OF session_wfD(3) [OF reach_wf [OF assms]]])

theorem walk_is_lineage_witness:
  "walk_to_root demo_state (Some ''d'') branch_bounds_default = Inr [2, 0]"
  using walk_is_lineage [OF demo_reach, of "''d''" branch_bounds_default]
  by (rule trans) code_simp

text \<open>
  The lineage the walk returns goes from the entry up to a root: strictly descending
  indexes, each the parent of the one before, ending at an entry without a parent.
\<close>

theorem lineage_is_branch:
  assumes "session_reach s" and "k < length (ix_entries s)"
  shows "hd (lineage s k) = k \<and> sorted_wrt (>) (lineage s k)
     \<and> (\<forall>i. Suc i < length (lineage s k) \<longrightarrow>
       entry_parent_id (ix_entries s ! (lineage s k ! i)) = Some (entry_id (ix_entries s ! (lineage s k ! Suc i))))
     \<and> entry_parent_id (ix_entries s ! last (lineage s k)) = None"
  using lineage_links [OF reach_wf [OF assms(1)] assms(2)] lineage_descending by auto

theorem lineage_is_branch_witness: "entry_parent_id (ix_entries demo_state ! last (lineage demo_state 2)) = None"
proof -
  have "2 < length (ix_entries demo_state)" by code_simp
  from lineage_is_branch [OF demo_reach this] show ?thesis by blast
qed

text \<open>
  \<open>find_entries\<close> returns the entries that match the whole query (metadata and payload
  predicates), in the order asked for, cut at the limit.
\<close>

theorem find_entries_spec:
  assumes "session_reach s" and "eq_limit q \<noteq> Some 0"
  shows "find_entries s q =
     Inr (take_opt (eq_limit q)
       (filter (\<lambda>e. matches_entry_query e q) (ordered (query_order q) (ix_entries s))))"
  by (rule find_entries_eq [OF reach_wf [OF assms(1)] assms(2)])

theorem find_entries_spec_witness:
  "find_entries demo_state (entry_query_default\<lparr>eq_tool_call_id := Some ''c1'', eq_limit := Some 2\<rparr>) =
     Inr [demo_message ''b'' 2 (Some ''a'') (demo_assistant [demo_call ''c1''])]"
proof -
  have "eq_limit (entry_query_default\<lparr>eq_tool_call_id := Some ''c1'', eq_limit := Some 2\<rparr>) \<noteq> Some 0"
    by code_simp
  from find_entries_spec [OF demo_reach this] show ?thesis by (rule trans) code_simp
qed

text \<open>
  A branch query filters the bounded branch of its start. Newest first, the branch is cut
  after the first bound; oldest first, a bound on the branch leaves the bound's own entry
  only, and without one the whole branch is read.
\<close>

theorem find_entries_on_branch_spec:
  assumes "session_reach s" and "eq_limit q \<noteq> Some 0" and "ix_entries_by_id s start = Some k"
  shows "find_entries_on_branch s q b start =
     Inr (take_opt (eq_limit q)
       (filter (\<lambda>e. matches_entry_query e q) (bounded_branch b (query_order q) (branch_of s k))))"
  by (rule find_entries_on_branch_eq [OF reach_wf [OF assms(1)] assms(2,3)])

theorem find_entries_on_branch_spec_witness:
  "find_entries_on_branch demo_state (entry_query_default\<lparr>eq_order := Some OldestFirst\<rparr>)
       (branch_bounds_default\<lparr>bb_stop_at_id := Some ''a''\<rparr>) ''d'' =
     Inr [demo_message ''a'' 1 None (demo_user ''hello'')]"
proof -
  have "eq_limit (entry_query_default\<lparr>eq_order := Some OldestFirst\<rparr>) \<noteq> Some 0"
    "ix_entries_by_id demo_state ''d'' = Some 2"
    by code_simp+
  from find_entries_on_branch_spec [OF demo_reach this] show ?thesis by (rule trans) code_simp
qed

end
