(* ===== verification/Session_Query.thy ===== *)
theory Session_Query
  imports Session_Branch
begin

text \<open>
  Log and record queries (\<open>state/index.rs\<close>, \<open>state/selection.rs\<close>, \<open>state.rs\<close>):
  the log, record searches with the pending-queue predicate, record pages, open
  operations, and the validation of a batch of queue cancellations.
\<close>

subsection \<open>The log\<close>

definition log_items ::
  "('f, 'p) indexed_state \<Rightarrow> log_options \<Rightarrow> session_error + 'f stored_log_item list" where
  "log_items s opts =
     res_bind (validate_limit (lo_limit opts)) (\<lambda>_.
     Inr (take_opt (lo_limit opts)
       (filter (\<lambda>item. case lo_after_seq opts of None \<Rightarrow> True | Some after \<Rightarrow> stored_seq s item > after)
         (ix_log s))))"

definition get_log :: "'f session_state \<Rightarrow> log_options \<Rightarrow> session_error + 'f log_item list" where
  "get_log s opts =
     res_bind (log_items s opts) (\<lambda>items.
     Inr (collect_limited (\<lambda>_. True) (lo_limit opts) [] (map (resolve_item s) items)))"

lemma take_opt_idem: "take_opt l (take_opt l xs) = take_opt l xs"
  by (cases l) (simp_all add: take_opt_def)

lemma take_opt_map: "take_opt l (map f xs) = map f (take_opt l xs)"
  by (cases l) (simp_all add: take_opt_def take_map)

lemma get_log_eq:
  assumes wf: "session_wf s" and limit: "lo_limit opts \<noteq> Some 0"
  shows "get_log s opts =
     Inr (take_opt (lo_limit opts)
       (filter (\<lambda>x. \<forall>after. lo_after_seq opts = Some after \<longrightarrow> log_item_seq x > after) (history s)))"
proof -
  have "filter (\<lambda>x. \<forall>after. lo_after_seq opts = Some after \<longrightarrow> log_item_seq x > after) (history s) =
      map (resolve_item s) (filter (\<lambda>item. case lo_after_seq opts of None \<Rightarrow> True
        | Some after \<Rightarrow> stored_seq s item > after) (ix_log s))"
    using stored_seq_resolve [OF wf]
    by (auto simp: history_def filter_map comp_def intro!: arg_cong [where f = "map (resolve_item s)"]
        filter_cong split: option.split)
  then show ?thesis
    using limit
    by (simp add: get_log_def log_items_def validate_limit_def collect_limited_filter take_opt_map
        take_opt_idem)
qed

subsection \<open>Record searches\<close>

definition target_id :: "'f queue_enqueued \<Rightarrow> string option" where
  "target_id q = Option.bind (json_get ''id'' (qe_target q)) json_as_str"

definition matches_record_query :: "'f lane_record \<Rightarrow> record_query \<Rightarrow> bool" where
  "matches_record_query r q \<longleftrightarrow>
     opt_all (rq_lane q) (\<lambda>l. record_lane r = l)
     \<and> opt_all (rq_record_type q) (\<lambda>t. t = record_type r)
     \<and> opt_all (rq_run_id q)
         (\<lambda>run. case r of Rec_OperationStarted st \<Rightarrow> rb_id (os_base st) = run
                | _ \<Rightarrow> record_run_id r = Some run)
     \<and> opt_all (rq_operation_kind q)
         (\<lambda>k. case r of Rec_OperationStarted st \<Rightarrow> intent_kind (os_intent st) = k | _ \<Rightarrow> False)
     \<and> opt_all (rq_after_seq q) (\<lambda>after. record_seq r > after)
     \<and> opt_all (rq_queue_kind q)
         (\<lambda>k. case r of Rec_QueueEnqueued e \<Rightarrow> qe_queue e = k | _ \<Rightarrow> False)
     \<and> opt_all (rq_target_entry_id q)
         (\<lambda>i. case r of Rec_QueueEnqueued e \<Rightarrow> target_id e = Some i | _ \<Rightarrow> False)
     \<and> opt_all (rq_tool_call_id q)
         (\<lambda>i. case r of Rec_ToolStarted t \<Rightarrow> ts_tool_call_id t = i | _ \<Rightarrow> False)"

definition cancelled_pairs :: "'f lane_record list \<Rightarrow> (string \<times> string) set" where
  "cancelled_pairs rs =
     set (filter_map (\<lambda>r. case r of
       Rec_QueueCancelled c \<Rightarrow> Some (rb_lane (qc_base c), qc_entry_id c) | _ \<Rightarrow> None) rs)"

definition pending_enqueue ::
  "('f, 'p) indexed_state \<Rightarrow> (string \<times> string) set \<Rightarrow> 'f lane_record \<Rightarrow> bool" where
  "pending_enqueue s cancelled r =
     (case r of
        Rec_QueueEnqueued e \<Rightarrow>
          (case target_id e of
             None \<Rightarrow> False
           | Some i \<Rightarrow> \<not> (ix_entries_by_id s i \<noteq> None \<or> (record_lane r, i) \<in> cancelled))
      | _ \<Rightarrow> False)"

definition find_records ::
  "('f, 'p) indexed_state \<Rightarrow> record_query \<Rightarrow> session_error + 'f lane_record list" where
  "find_records s q =
     res_bind (validate_limit (rq_limit q)) (\<lambda>_.
     (let ord = (case rq_order q of None \<Rightarrow> NewestFirst | Some o' \<Rightarrow> o');
          cancelled = (if rq_pending_queue_only q then cancelled_pairs (ix_records s) else {})
      in Inr (collect_limited
           (\<lambda>r. matches_record_query r q \<and> (rq_pending_queue_only q \<longrightarrow> pending_enqueue s cancelled r))
           (rq_limit q) []
           (case ord of OldestFirst \<Rightarrow> ix_records s | NewestFirst \<Rightarrow> rev (ix_records s)))))"

lemma find_records_eq:
  assumes "rq_limit q \<noteq> Some 0"
  shows "find_records s q =
     Inr (take_opt (rq_limit q)
       (filter (\<lambda>r. matches_record_query r q
            \<and> (rq_pending_queue_only q \<longrightarrow> pending_enqueue s (cancelled_pairs (ix_records s)) r))
         (ordered (case rq_order q of None \<Rightarrow> NewestFirst | Some o' \<Rightarrow> o') (ix_records s))))"
  using assms
  by (auto simp: find_records_def validate_limit_def collect_limited_filter ordered_def
      split: entry_order.split intro!: arg_cong [where f = "take_opt (rq_limit q)"] filter_cong)

subsection \<open>Record pages\<close>

definition page_matches :: "record_page_query \<Rightarrow> 'f lane_record \<Rightarrow> bool" where
  "page_matches q r \<longleftrightarrow>
     record_lane r = pq_lane q
     \<and> opt_all (pq_after_seq q) (\<lambda>sq. record_seq r > sq)
     \<and> opt_all (pq_before_seq q) (\<lambda>sq. record_seq r < sq)"

definition get_record_page ::
  "('f, 'p) indexed_state \<Rightarrow> record_page_query \<Rightarrow> session_error + 'f record_page" where
  "get_record_page s q =
     res_bind (validate_limit (Some (pq_limit q))) (\<lambda>_.
     (let total = length (filter (page_matches q) (ix_records s));
          recs = (if pq_from_end q
                  then rev (take (pq_limit q) (filter (page_matches q) (rev (ix_records s))))
                  else take (pq_limit q) (filter (page_matches q) (ix_records s)))
      in Inr \<lparr>pg_records = recs, pg_total = total\<rparr>))"

text \<open>The records of a well-formed state are in strictly ascending sequence.\<close>

lemma records_ascending:
  assumes wf: "wf_log s"
  shows "sorted_wrt (\<lambda>r r'. record_seq r < record_seq r') (ix_records s)"
proof -
  have refs: "filter_map record_ref (ix_log s) = [0..<length (ix_records s)]"
    and inc: "sorted_wrt (<) (log_seqs s)"
    using wf by (auto simp: wf_log_def records_in_order_def)
  have "sorted_wrt (<) (map (\<lambda>i. record_seq (ix_records s ! i)) (filter_map record_ref log))"
    if "sorted_wrt (<) (map (stored_seq s) log)" for log
    using that
  proof (induction log)
    case (Cons x log)
    then show ?case
      by (cases x) (auto simp: stored_seq_def set_filter_map)
  qed simp
  from this [OF inc [unfolded log_seqs_def]]
  have "sorted_wrt (<) (map record_seq (map ((!) (ix_records s)) [0..<length (ix_records s)]))"
    by (simp add: refs comp_def)
  then show ?thesis by (simp only: map_nth sorted_wrt_map)
qed

lemma ascending_split:
  assumes "sorted_wrt (\<lambda>r r'. f r < (f r' :: nat)) xs" and "xs = ys @ zs" and "ys \<noteq> []"
  shows "filter (\<lambda>r. f r > f (last ys)) xs = zs"
proof -
  have low: "f y \<le> f (last ys)" if "y \<in> set ys" for y
  proof -
    have "sorted_wrt (\<lambda>r r'. f r < f r') ys" using assms(1,2) by (simp add: sorted_wrt_append)
    with that \<open>ys \<noteq> []\<close> show ?thesis
      by (induction ys) (auto intro: less_imp_le)
  qed
  have "f (last ys) < f z" if "z \<in> set zs" for z
    using assms that by (auto simp: sorted_wrt_append)
  with low show ?thesis
    by (auto simp: assms(2) filter_id_conv filter_empty_conv not_less)
qed

text \<open>Forward paging: the cursor after a page selects exactly what the page left.\<close>

lemma page_then_rest:
  assumes wf: "wf_log s" and page: "get_record_page s q = Inr pg" and fwd: "\<not> pq_from_end q"
    and some: "pg_records pg \<noteq> []"
  shows "filter (page_matches q) (ix_records s) =
     pg_records pg
       @ filter (page_matches (q\<lparr>pq_after_seq := Some (record_seq (last (pg_records pg)))\<rparr>)) (ix_records s)"
proof -
  let ?all = "filter (page_matches q) (ix_records s)"
  have pg: "pg_records pg = take (pq_limit q) ?all"
    using page fwd by (auto simp: get_record_page_def)
  have asc: "sorted_wrt (\<lambda>r r'. record_seq r < record_seq r') ?all"
    using records_ascending [OF wf] by (rule sorted_wrt_filter)
  have "filter (\<lambda>r. record_seq r > record_seq (last (pg_records pg))) ?all = drop (pq_limit q) ?all"
    by (rule ascending_split [OF asc]) (use some in \<open>simp_all add: pg\<close>)
  moreover have "filter (\<lambda>r. record_seq r > record_seq (last (pg_records pg))) ?all =
      filter (page_matches (q\<lparr>pq_after_seq := Some (record_seq (last (pg_records pg)))\<rparr>)) (ix_records s)"
  proof -
    have "last (pg_records pg) \<in> set ?all"
      using some by (metis in_set_takeD last_in_set pg)
    then have "opt_all (pq_after_seq q) (\<lambda>sq. record_seq (last (pg_records pg)) > sq)"
      by (simp add: page_matches_def)
    then show ?thesis
      by (auto simp: page_matches_def opt_all_def intro!: filter_cong split: option.splits)
  qed
  ultimately show ?thesis by (metis append_take_drop_id pg)
qed

subsection \<open>Open operations\<close>

definition find_open_operations ::
  "('f, 'p) indexed_state \<Rightarrow> string \<Rightarrow> nat option \<Rightarrow> session_error + 'f operation_started list" where
  "find_open_operations s lane limit =
     res_bind (validate_limit limit) (\<lambda>_.
     Inr (take_opt limit (case ix_open_ops s lane of None \<Rightarrow> [] | Some m \<Rightarrow> rev (map snd m))))"

definition has_open_operation_except ::
  "('f, 'p) indexed_state \<Rightarrow> string \<Rightarrow> string option \<Rightarrow> bool" where
  "has_open_operation_except s lane except =
     (case ix_open_ops s lane of None \<Rightarrow> False
      | Some m \<Rightarrow> list_ex (\<lambda>(k, st). Some (rb_id (os_base st)) \<noteq> except) m)"

definition completed_progress_runs :: "('f, 'p) indexed_state \<Rightarrow> (string \<rightharpoonup> string set)" where
  "completed_progress_runs s =
     fold (\<lambda>r done. case r of
         Rec_OperationFinished f \<Rightarrow>
           done(rb_lane (of_base f) \<mapsto>
             insert (of_run_id f) (case done (rb_lane (of_base f)) of None \<Rightarrow> {} | Some runs \<Rightarrow> runs))
       | _ \<Rightarrow> done) (ix_records s) Map.empty"

lemma completed_progress_runs_iff:
  "(case completed_progress_runs s lane of None \<Rightarrow> False | Some runs \<Rightarrow> run \<in> runs) \<longleftrightarrow>
     (\<exists>f. Rec_OperationFinished f \<in> set (ix_records s) \<and> rb_lane (of_base f) = lane \<and> of_run_id f = run)"
proof -
  have "(case fold (\<lambda>r done. case r of
         Rec_OperationFinished f \<Rightarrow>
           done(rb_lane (of_base f) \<mapsto>
             insert (of_run_id f) (case done (rb_lane (of_base f)) of None \<Rightarrow> {} | Some runs \<Rightarrow> runs))
       | _ \<Rightarrow> done) rs Map.empty lane of None \<Rightarrow> False | Some runs \<Rightarrow> run \<in> runs) \<longleftrightarrow>
     (\<exists>f. Rec_OperationFinished f \<in> set rs \<and> rb_lane (of_base f) = lane \<and> of_run_id f = run)"
    for rs :: "'a lane_record list"
  proof (induction rs rule: rev_induct)
    case (snoc r rs)
    then show ?case by (cases r) (auto split: option.splits)
  qed simp
  then show ?thesis unfolding completed_progress_runs_def .
qed

text \<open>Started in the lane, and not finished by a later record of the lane.\<close>

definition finishes :: "string \<Rightarrow> 'f operation_started \<Rightarrow> 'f lane_record \<Rightarrow> bool" where
  "finishes lane st r =
     (case r of Rec_OperationFinished f \<Rightarrow> rb_lane (of_base f) = lane \<and> rb_id (os_base st) = of_run_id f
      | _ \<Rightarrow> False)"

fun still_open :: "string \<Rightarrow> 'f lane_record list \<Rightarrow> 'f operation_started list" where
  "still_open lane [] = []"
| "still_open lane (r # rs) =
     (case r of
        Rec_OperationStarted st \<Rightarrow>
          if rb_lane (os_base st) = lane \<and> \<not> list_ex (finishes lane st) rs
          then st # still_open lane rs else still_open lane rs
      | _ \<Rightarrow> still_open lane rs)"

lemma still_open_snoc:
  "still_open lane (rs @ [r]) =
     filter (\<lambda>st. \<not> finishes lane st r) (still_open lane rs)
       @ (case r of Rec_OperationStarted st \<Rightarrow> if rb_lane (os_base st) = lane then [st] else [] | _ \<Rightarrow> [])"
  by (induction rs) (auto split: lane_record.splits)

lemma still_open_in: "st \<in> set (still_open lane rs) \<Longrightarrow> Rec_OperationStarted st \<in> set rs"
  by (induction rs) (auto split: lane_record.splits if_splits)

lemma record_lane_simps [simp]:
  "record_lane (Rec_OperationStarted st) = rb_lane (os_base st)"
  "record_lane (Rec_OperationFinished f) = rb_lane (of_base f)"
  "record_lane (Rec_QueueCancelled c) = rb_lane (qc_base c)"
  "record_seq (Rec_OperationStarted st) = rb_seq (os_base st)"
  "record_id (Rec_QueueCancelled c) = rb_id (qc_base c)"
  by (simp_all add: record_lane_def record_seq_def record_id_def)

lemma open_ops_of_snoc:
  "open_ops_of (rs @ [r]) = track_operation (record_lane r) (record_seq r) r (open_ops_of rs)"
  by (simp add: open_ops_of_def)

lemma open_ops_still_open:
  "sorted_wrt (\<lambda>r r'. record_seq r < record_seq r') rs \<Longrightarrow>
     open_ops_of rs lane =
       (if still_open lane rs = [] then None
        else Some (map (\<lambda>st. (rb_seq (os_base st), st)) (still_open lane rs)))"
proof (induction rs rule: rev_induct)
  case Nil
  then show ?case by (simp add: open_ops_of_def)
next
  case (snoc r rs)
  then have IH: "open_ops_of rs lane = (if still_open lane rs = [] then None
        else Some (map (\<lambda>st. (rb_seq (os_base st), st)) (still_open lane rs)))"
    and asc: "\<And>r'. r' \<in> set rs \<Longrightarrow> record_seq r' < record_seq r"
    by (auto simp: sorted_wrt_append)
  show ?case
  proof (cases r)
    case (Rec_OperationStarted st)
    have "bt_insert (rb_seq (os_base st)) st (map (\<lambda>st. (rb_seq (os_base st), st)) (still_open lane rs))
        = map (\<lambda>st. (rb_seq (os_base st), st)) (still_open lane rs) @ [(rb_seq (os_base st), st)]"
      by (rule bt_insert_last) (use asc still_open_in Rec_OperationStarted in force)
    with IH show ?thesis
      by (auto simp: Rec_OperationStarted open_ops_of_snoc still_open_snoc track_operation_def finishes_def)
  next
    case (Rec_OperationFinished f)
    show ?thesis
    proof (cases "rb_lane (of_base f) = lane")
      case True
      with IH show ?thesis
        by (simp add: Rec_OperationFinished open_ops_of_snoc still_open_snoc track_operation_def
            finishes_def filter_map comp_def Let_def)
    next
      case False
      with IH show ?thesis
        by (simp add: Rec_OperationFinished open_ops_of_snoc still_open_snoc track_operation_def
            finishes_def Let_def split: option.split)
    qed
  qed (use IH in \<open>simp_all add: open_ops_of_snoc still_open_snoc track_operation_def finishes_def\<close>)
qed

lemma find_open_operations_eq:
  assumes wf: "index_wf s" and limit: "limit \<noteq> Some 0"
  shows "find_open_operations s lane limit = Inr (take_opt limit (rev (still_open lane (ix_records s))))"
proof -
  have ops: "ix_open_ops s = open_ops_of (ix_records s)" and log: "wf_log s"
    using wf by (auto simp: index_wf_def wf_derived_def)
  show ?thesis
    using limit
    by (simp add: find_open_operations_def validate_limit_def ops comp_def
        open_ops_still_open [OF records_ascending [OF log]])
qed

subsection \<open>Queue cancellations\<close>

definition pending_query :: "queue_cancelled \<Rightarrow> record_query" where
  "pending_query c =
     record_query_default\<lparr>rq_lane := Some (rb_lane (qc_base c)), rq_target_entry_id := Some (qc_entry_id c),
       rq_pending_queue_only := True, rq_limit := Some 1\<rparr>"

fun check_cancellations ::
  "('f, 'p) indexed_state \<Rightarrow> string set \<Rightarrow> string set \<Rightarrow> 'f lane_record list \<Rightarrow> session_error + unit" where
  "check_cancellations s ids targets [] = Inr ()"
| "check_cancellations s ids targets (r # rs) =
     (case r of
        Rec_QueueCancelled c \<Rightarrow>
          res_bind (require_lane s (rb_lane (qc_base c))) (\<lambda>_.
          res_bind (validate_unused_id s (rb_id (qc_base c))) (\<lambda>_.
          res_bind (ensure (rb_id (qc_base c) \<notin> ids \<and> qc_entry_id c \<notin> targets)
                     (err_storage ''duplicate queue cancellation'')) (\<lambda>_.
          res_bind (find_records s (pending_query c)) (\<lambda>enqueue.
          res_bind (ensure (case enqueue of
                              Rec_QueueEnqueued e # _ \<Rightarrow> qe_run_id e = qc_run_id c
                            | _ \<Rightarrow> False)
                     (err_storage ''queue cancellation has no pending matching enqueue'')) (\<lambda>_.
          check_cancellations s (insert (rb_id (qc_base c)) ids) (insert (qc_entry_id c) targets) rs)))))
      | _ \<Rightarrow> Inl (err_storage ''cancellation batch contains a non-cancellation''))"

definition validate_queue_cancellations ::
  "('f, 'p) indexed_state \<Rightarrow> 'f lane_record list \<Rightarrow> session_error + unit" where
  "validate_queue_cancellations s rs = check_cancellations s {} {} rs"

fun is_cancellation :: "'f lane_record \<Rightarrow> bool" where
  "is_cancellation (Rec_QueueCancelled _) = True"
| "is_cancellation _ = False"

lemma check_cancellations_facts:
  "check_cancellations s ids targets rs = Inr () \<Longrightarrow>
     list_all is_cancellation rs
     \<and> (\<forall>r \<in> set rs. map_of (ix_lanes s) (record_lane r) \<noteq> None \<and> record_id r \<notin> ix_used_ids s \<union> ids)
     \<and> distinct (map record_id rs)"
proof (induction rs arbitrary: ids targets)
  case (Cons r rs)
  show ?case
  proof (cases r)
    case (Rec_QueueCancelled c)
    with Cons.prems have "check_cancellations s (insert (rb_id (qc_base c)) ids) (insert (qc_entry_id c) targets) rs = Inr ()"
      and "map_of (ix_lanes s) (rb_lane (qc_base c)) \<noteq> None" "rb_id (qc_base c) \<notin> ix_used_ids s"
      "rb_id (qc_base c) \<notin> ids"
      by (auto simp: require_lane_def validate_unused_id_def)
    then show ?thesis using Cons.IH [of "insert (rb_id (qc_base c)) ids"] Rec_QueueCancelled by force
  qed (use Cons.prems in simp_all)
qed simp

definition consecutive_from :: "nat \<Rightarrow> 'f lane_record list \<Rightarrow> bool" where
  "consecutive_from n rs \<longleftrightarrow> map record_seq rs = [Suc n..<Suc n + length rs]"

lemma consecutive_from_Cons [simp]:
  "consecutive_from n (r # rs) \<longleftrightarrow> record_seq r = Suc n \<and> consecutive_from (Suc n) rs"
  by (auto simp: consecutive_from_def upt_conv_Cons)

text \<open>A record that no clear is involved in is appended as it is.\<close>

lemma apply_cancellation:
  assumes r: "is_cancellation r" "record_seq r = Suc (ix_sequence s)"
    and ok: "map_of (ix_lanes s) (record_lane r) \<noteq> None" "record_id r \<notin> ix_used_ids s"
  shows "session_step s (Mut_Record r) = Inr (push_record s r)"
  using assms
  by (cases r) (auto simp: session_step_def step_mutation_def apply_mutation_def apply_record_def
      validate_unused_id_def)

lemma cancellations_commit:
  "list_all is_cancellation rs \<Longrightarrow> consecutive_from (ix_sequence s) rs \<Longrightarrow>
     \<forall>r \<in> set rs. map_of (ix_lanes s) (record_lane r) \<noteq> None \<and> record_id r \<notin> ix_used_ids s \<Longrightarrow>
     distinct (map record_id rs) \<Longrightarrow>
     \<exists>t. fold_res session_step s (map Mut_Record rs) = Inr t \<and> ix_records t = ix_records s @ rs"
proof (induction rs arbitrary: s)
  case (Cons r rs)
  have step: "session_step s (Mut_Record r) = Inr (push_record s r)"
    using Cons.prems by (intro apply_cancellation) auto
  have "\<exists>t. fold_res session_step (push_record s r) (map Mut_Record rs) = Inr t
      \<and> ix_records t = ix_records (push_record s r) @ rs"
    using Cons.prems by (intro Cons.IH) (auto simp: image_iff)
  with step show ?case by simp
qed simp

text \<open>A target with a cancellation in the records of its lane is not pending any more.\<close>

lemma cancelled_not_pending:
  assumes "Rec_QueueCancelled c \<in> set (ix_records s)"
  shows "find_records s (pending_query c) = Inr []"
proof -
  have "(rb_lane (qc_base c), qc_entry_id c) \<in> cancelled_pairs (ix_records s)"
    using assms by (force simp: cancelled_pairs_def set_filter_map)
  then have "\<not> (matches_record_query r (pending_query c) \<and> pending_enqueue s (cancelled_pairs (ix_records s)) r)"
    for r
    by (cases r) (auto simp: matches_record_query_def pending_query_def pending_enqueue_def opt_all_def
        record_query_default_def record_lane_def split: option.splits)
  then have "filter (\<lambda>r. matches_record_query r (pending_query c)
      \<and> pending_enqueue s (cancelled_pairs (ix_records s)) r) rs = []" for rs
    by simp
  then show ?thesis
    by (subst find_records_eq) (simp_all add: pending_query_def record_query_default_def take_opt_def)
qed

subsection \<open>Properties of the log and record queries\<close>

text \<open>
  \<open>get_log\<close> is the history behind a sequence number, cut at the limit: index
  references are resolved without a trace of the indexes.
\<close>

theorem get_log_spec:
  assumes "session_reach s" and "lo_limit opts \<noteq> Some 0"
  shows "get_log s opts =
     Inr (take_opt (lo_limit opts)
       (filter (\<lambda>x. \<forall>after. lo_after_seq opts = Some after \<longrightarrow> log_item_seq x > after) (history s)))"
  by (rule get_log_eq [OF reach_wf [OF assms(1)] assms(2)])

theorem get_log_spec_witness:
  "\<exists>items. get_log demo_state \<lparr>lo_after_seq = Some 4, lo_limit = Some 3\<rparr> = Inr items
     \<and> map log_item_seq items = [5, 8, 9]"
proof -
  have log: "get_log demo_state \<lparr>lo_after_seq = Some 4, lo_limit = Some 3\<rparr> =
      Inr (take_opt (Some 3) (filter (\<lambda>x. log_item_seq x > 4) (history demo_state)))"
    using get_log_spec [OF demo_reach, of "\<lparr>lo_after_seq = Some 4, lo_limit = Some 3\<rparr>"] by simp
  have seqs: "map log_item_seq (take_opt (Some 3) (filter (\<lambda>x. log_item_seq x > 4) (history demo_state))) = [5, 8, 9]"
    by code_simp
  show ?thesis by (rule exI, rule conjI, rule log, rule seqs)
qed

text \<open>
  Forward paging loses and repeats nothing: the records a page query selects are the page
  followed by what the same query selects behind the page's last sequence number.
\<close>

theorem pages_partition_records:
  assumes "session_reach s" and "get_record_page s q = Inr pg" and "\<not> pq_from_end q"
    and "pg_records pg \<noteq> []"
  shows "filter (page_matches q) (ix_records s) =
     pg_records pg
       @ filter (page_matches (q\<lparr>pq_after_seq := Some (record_seq (last (pg_records pg)))\<rparr>)) (ix_records s)"
  by (rule page_then_rest [OF session_wfD(7) [OF reach_wf [OF assms(1)]] assms(2-4)])

theorem pages_partition_records_witness:
  "\<exists>pg. get_record_page demo_state \<lparr>pq_lane = ''main'', pq_after_seq = None, pq_before_seq = None, pq_limit = 2,
       pq_from_end = False\<rparr> = Inr pg
     \<and> filter (page_matches \<lparr>pq_lane = ''main'', pq_after_seq = None, pq_before_seq = None, pq_limit = 2,
         pq_from_end = False\<rparr>) (ix_records demo_state) =
       pg_records pg
         @ filter (page_matches \<lparr>pq_lane = ''main'', pq_after_seq = Some (record_seq (last (pg_records pg))),
             pq_before_seq = None, pq_limit = 2, pq_from_end = False\<rparr>) (ix_records demo_state)"
proof -
  let ?q = "\<lparr>pq_lane = ''main'', pq_after_seq = None, pq_before_seq = None, pq_limit = 2, pq_from_end = False\<rparr>"
  obtain pg where pg: "get_record_page demo_state ?q = Inr pg"
    by (simp add: get_record_page_def validate_limit_def Let_def)
  have "map record_id (pg_records (projr (get_record_page demo_state ?q))) = [''run'', ''f3'']" by code_simp
  then have "pg_records pg \<noteq> []" by (auto simp: pg)
  from pages_partition_records [OF demo_reach pg _ this] pg show ?thesis by auto
qed

text \<open>
  The open operations of a lane are the started ones no later record of the lane finishes,
  newest first, cut at the limit.
\<close>

theorem open_operations_spec:
  assumes "session_reach s" and "limit \<noteq> Some 0"
  shows "find_open_operations s lane limit = Inr (take_opt limit (rev (still_open lane (ix_records s))))"
proof -
  have "index_wf s" using session_wfD(1) [OF reach_wf [OF assms(1)]] .
  then show ?thesis by (rule find_open_operations_eq [OF _ assms(2)])
qed

theorem open_operations_spec_witness:
  "find_open_operations demo_state ''main'' (Some 2) = Inr [demo_started]"
proof -
  have "Some (2 :: nat) \<noteq> Some 0" by simp
  from open_operations_spec [OF demo_reach this, of "''main''"] show ?thesis by (rule trans) code_simp
qed

text \<open>
  A validated batch of queue cancellations, numbered from the next sequence, commits as a
  whole: every record is accepted, and afterwards no target of the batch is pending.
\<close>

theorem cancellation_batch_commits:
  assumes "session_reach s" and "validate_queue_cancellations s rs = Inr ()"
    and "consecutive_from (ix_sequence s) rs"
  shows "\<exists>t. fold_res session_step s (map Mut_Record rs) = Inr t \<and> ix_records t = ix_records s @ rs
     \<and> (\<forall>c. Rec_QueueCancelled c \<in> set rs \<longrightarrow> find_records t (pending_query c) = Inr [])"
proof -
  have "list_all is_cancellation rs \<and>
      (\<forall>r \<in> set rs. map_of (ix_lanes s) (record_lane r) \<noteq> None \<and> record_id r \<notin> ix_used_ids s)
      \<and> distinct (map record_id rs)"
    using check_cancellations_facts [of s "{}" "{}" rs] assms(2)
    by (simp add: validate_queue_cancellations_def)
  with cancellations_commit [OF _ assms(3)] obtain t where
    t: "fold_res session_step s (map Mut_Record rs) = Inr t" "ix_records t = ix_records s @ rs"
    by blast
  have "find_records t (pending_query c) = Inr []" if "Rec_QueueCancelled c \<in> set rs" for c
    using that by (intro cancelled_not_pending) (simp add: t)
  with t show ?thesis by blast
qed

definition demo_cancelled :: queue_cancelled where
  "demo_cancelled = \<lparr>qc_base = demo_base ''x'' 12, qc_run_id = Some ''run'', qc_entry_id = ''t''\<rparr>"

theorem cancellation_batch_commits_witness:
  "map record_id (projr (find_records demo_state (pending_query demo_cancelled))) = [''q'']
     \<and> (\<exists>t. fold_res session_step demo_state [Mut_Record (Rec_QueueCancelled demo_cancelled)] = Inr t
          \<and> find_records t (pending_query demo_cancelled) = Inr [])"
proof -
  have before: "map record_id (projr (find_records demo_state (pending_query demo_cancelled))) = [''q'']"
    by code_simp
  have "validate_queue_cancellations demo_state [Rec_QueueCancelled demo_cancelled] = Inr ()"
    by code_simp
  moreover have "consecutive_from (ix_sequence demo_state) [Rec_QueueCancelled demo_cancelled]"
    by code_simp
  ultimately show ?thesis
    using before cancellation_batch_commits [OF demo_reach] by fastforce
qed

end
