(* ===== verification/Session_Fork.thy ===== *)
theory Session_Fork
  imports Session_Query
begin

text \<open>
  Forking a session (\<open>create_fork_mutations\<close> in \<open>state.rs\<close>): the copied entries are
  numbered from 1 and named without a lane, then the lane pointers, the name and the labels
  of copied entries follow. Replaying the list in a new session always succeeds, and the
  new session holds what was selected.
\<close>

subsection \<open>The mutation list\<close>

definition restamp :: "nat \<Rightarrow> 'f entry \<Rightarrow> 'f entry" where
  "restamp sq e = entry_base_mut (\<lambda>b. b\<lparr>eb_seq := sq\<rparr>) e"

fun fork_entries :: "nat \<Rightarrow> 'f entry list \<Rightarrow> 'f session_mutation list" where
  "fork_entries sq [] = []"
| "fork_entries sq (e # es) =
     Mut_Entry sq (entry_timestamp e) None (restamp sq e) # fork_entries (sq + 1) es"

fun fork_pointers :: "nat \<Rightarrow> lane_pointer list \<Rightarrow> 'f session_mutation list" where
  "fork_pointers sq [] = []"
| "fork_pointers sq (p # ps) = Mut_Lane sq (lp_lane p) (lp_leaf_id p) # fork_pointers (sq + 1) ps"

fun fork_labels :: "nat \<Rightarrow> (string \<rightharpoonup> string) \<Rightarrow> 'f entry list \<Rightarrow> 'f session_mutation list" where
  "fork_labels sq labels [] = []"
| "fork_labels sq labels (e # es) =
     (case labels (entry_id e) of
        None \<Rightarrow> fork_labels sq labels es
      | Some l \<Rightarrow> Mut_FactLabel sq (entry_id e) (Some l) # fork_labels (sq + 1) labels es)"

definition oldest_first_query :: entry_query where
  "oldest_first_query = entry_query_default\<lparr>eq_order := Some OldestFirst\<rparr>"

definition fork_target ::
  "'f session_state \<Rightarrow> string option \<Rightarrow> fork_position option \<Rightarrow> session_error + string option" where
  "fork_target s entry pos =
     res_bind (case entry of Some i \<Rightarrow> Inr (Some i) | None \<Rightarrow> require_lane s ''main'') (\<lambda>selected.
     (case selected of
        None \<Rightarrow> Inr None
      | Some sel \<Rightarrow>
          res_bind (ok_or (get_entry s sel) (err_not_found (''Entry not found: '' @ sel))) (\<lambda>e.
          res_bind (ensure (\<not> (entry \<noteq> None \<and> \<not> is_message_entry e))
                     (err_invalid_fork_target (''Fork target is not a message entry: '' @ sel))) (\<lambda>_.
          Inr (case (case pos of Some p \<Rightarrow> p
                     | None \<Rightarrow> (case entry of Some _ \<Rightarrow> Fork_Before | None \<Rightarrow> Fork_At)) of
                 Fork_At \<Rightarrow> Some (entry_id e)
               | Fork_Before \<Rightarrow> entry_parent_id e)))))"

definition fork_selection ::
  "'f session_state \<Rightarrow> fork_options \<Rightarrow> session_error + ('f entry list \<times> lane_pointer list)" where
  "fork_selection s opts =
     (case opts of
        Fork_Tree \<Rightarrow>
          res_bind (find_entries s oldest_first_query) (\<lambda>es. Inr (es, get_lanes s))
      | Fork_Branch entry pos \<Rightarrow>
          res_bind (fork_target s entry pos) (\<lambda>target.
          res_bind (case target of
                      Some t \<Rightarrow> find_entries_on_branch s oldest_first_query branch_bounds_default t
                    | None \<Rightarrow> Inr []) (\<lambda>copied.
          Inr (copied, [\<lparr>lp_lane = ''main'', lp_leaf_id = target\<rparr>]))))"

definition fork_plan ::
  "'f entry list \<Rightarrow> lane_pointer list \<Rightarrow> string option \<Rightarrow> (string \<rightharpoonup> string) \<Rightarrow> 'f session_mutation list" where
  "fork_plan es ps name labels =
     (let after_lanes = 1 + length es + length ps;
          names = (case name of None \<Rightarrow> [] | Some n \<Rightarrow> [Mut_FactName after_lanes (Some n)])
      in fork_entries 1 es @ fork_pointers (1 + length es) ps @ names
           @ fork_labels (after_lanes + length names) labels es)"

definition create_fork_mutations ::
  "'f session_state \<Rightarrow> fork_options \<Rightarrow> session_error + 'f session_mutation list" where
  "create_fork_mutations s opts =
     res_bind (fork_selection s opts) (\<lambda>(es, ps). Inr (fork_plan es ps (ix_name s) (ix_labels s)))"

subsection \<open>Replaying entries\<close>

text \<open>A list of entries in which every parent comes before its children.\<close>

fun parents_first :: "string set \<Rightarrow> 'f entry list \<Rightarrow> bool" where
  "parents_first seen [] = True"
| "parents_first seen (e # es) =
     (entry_id e \<notin> seen \<and> (\<forall>p. entry_parent_id e = Some p \<longrightarrow> p \<in> seen)
      \<and> parents_first (insert (entry_id e) seen) es)"

lemma parents_first_append:
  "parents_first seen (es @ es') \<longleftrightarrow>
     parents_first seen es \<and> parents_first (seen \<union> entry_id ` set es) es'"
  by (induction es arbitrary: seen) auto

lemma restamp_simps [simp]:
  "entry_id (restamp sq e) = entry_id e"
  "entry_parent_id (restamp sq e) = entry_parent_id e"
  "entry_seq (restamp sq e) = sq"
  by (simp_all add: restamp_def entry_id_def entry_parent_id_def entry_seq_def)

fun restamped :: "nat \<Rightarrow> 'f entry list \<Rightarrow> 'f entry list" where
  "restamped sq [] = []"
| "restamped sq (e # es) = restamp sq e # restamped (sq + 1) es"

lemma restamped_ids [simp]: "map entry_id (restamped sq es) = map entry_id es"
  by (induction es arbitrary: sq) auto

lemma length_restamped [simp]: "length (restamped sq es) = length es"
  by (induction es arbitrary: sq) auto

lemma nth_restamped: "i < length es \<Longrightarrow> restamped sq es ! i = restamp (sq + i) (es ! i)"
  by (induction es arbitrary: sq i) (auto simp: nth_Cons split: nat.split)

text \<open>What the entry phase keeps and adds.\<close>

definition only_entries :: "'f session_state \<Rightarrow> bool" where
  "only_entries s \<longleftrightarrow> ix_used_ids s = dom (ix_entries_by_id s)"

lemma step_fork_entry:
  assumes wf: "session_wf s" and only: "only_entries s" and sq: "sq = ix_sequence s + 1"
    and first: "parents_first (dom (ix_entries_by_id s)) [e]"
  shows "\<exists>t. session_step s (Mut_Entry sq ts None (restamp sq e)) = Inr t \<and> only_entries t
     \<and> ix_entries t = ix_entries s @ [restamp sq e] \<and> ix_sequence t = sq
     \<and> dom (ix_entries_by_id t) = insert (entry_id e) (dom (ix_entries_by_id s))
     \<and> ix_lanes t = ix_lanes s \<and> ix_name t = ix_name s \<and> ix_labels t = ix_labels s"
proof -
  let ?m = "Mut_Entry sq ts None (restamp sq e)"
  have "accepts s ?m"
    using assms by (auto simp: accepts_def opt_all_iff only_entries_def)
  then obtain t out where t: "session_apply s ?m = Inr (t, out)"
    using apply_iff_accepts [OF wf] by blast
  then obtain n where "t = extend_entry (\<lambda>e. e) s sq None (restamp sq e) n"
    by (auto simp: session_apply_def apply_mutation_def apply_entry_Inr_iff)
  with t only show ?thesis
    by (intro exI [of _ t]) (auto simp: session_step_iff only_entries_def set_lane_leaf_def)
qed

lemma replay_fork_entries:
  "session_wf s \<Longrightarrow> only_entries s \<Longrightarrow> sq = ix_sequence s + 1 \<Longrightarrow>
     parents_first (dom (ix_entries_by_id s)) es \<Longrightarrow>
     \<exists>t. fold_res session_step s (fork_entries sq es) = Inr t \<and> session_wf t
       \<and> ix_entries t = ix_entries s @ restamped sq es \<and> ix_sequence t = ix_sequence s + length es
       \<and> dom (ix_entries_by_id t) = dom (ix_entries_by_id s) \<union> entry_id ` set es
       \<and> ix_lanes t = ix_lanes s \<and> ix_name t = ix_name s \<and> ix_labels t = ix_labels s"
proof (induction es arbitrary: s sq)
  case (Cons e es)
  obtain u where u: "session_step s (Mut_Entry sq (entry_timestamp e) None (restamp sq e)) = Inr u"
    "only_entries u" "ix_entries u = ix_entries s @ [restamp sq e]" "ix_sequence u = sq"
    "dom (ix_entries_by_id u) = insert (entry_id e) (dom (ix_entries_by_id s))"
    "ix_lanes u = ix_lanes s" "ix_name u = ix_name s" "ix_labels u = ix_labels s"
    using step_fork_entry [OF Cons.prems(1,2,3), of e "entry_timestamp e"] Cons.prems(4)
    unfolding parents_first.simps by blast
  have "session_wf u"
    by (rule session_wf_step [OF Cons.prems(1) u(1)]) simp
  then obtain t where t: "fold_res session_step u (fork_entries (sq + 1) es) = Inr t" "session_wf t"
    "ix_entries t = ix_entries u @ restamped (sq + 1) es" "ix_sequence t = ix_sequence u + length es"
    "dom (ix_entries_by_id t) = dom (ix_entries_by_id u) \<union> entry_id ` set es"
    "ix_lanes t = ix_lanes u" "ix_name t = ix_name u" "ix_labels t = ix_labels u"
    using Cons.IH [of u "sq + 1"] Cons.prems(4) u by auto
  then show ?case using u Cons.prems(3) by (intro exI [of _ t]) auto
qed simp

subsection \<open>Replaying lane pointers, the name and the labels\<close>

definition move_lanes ::
  "lane_pointer list \<Rightarrow> (string, string option) btree \<Rightarrow> (string, string option) btree" where
  "move_lanes ps lanes = fold (\<lambda>p. bt_insert (lp_lane p) (lp_leaf_id p)) ps lanes"

lemma replay_fork_pointers:
  "session_wf s \<Longrightarrow> sq = ix_sequence s + 1 \<Longrightarrow>
     \<forall>p \<in> set ps. \<forall>l. lp_leaf_id p = Some l \<longrightarrow> l \<in> dom (ix_entries_by_id s) \<Longrightarrow>
     \<exists>t. fold_res session_step s (fork_pointers sq ps) = Inr t \<and> session_wf t
       \<and> ix_entries t = ix_entries s \<and> ix_sequence t = ix_sequence s + length ps
       \<and> ix_entries_by_id t = ix_entries_by_id s
       \<and> ix_lanes t = move_lanes ps (ix_lanes s) \<and> ix_name t = ix_name s \<and> ix_labels t = ix_labels s"
proof (induction ps arbitrary: s sq)
  case (Cons p ps)
  define u where "u = s\<lparr>ix_sequence := sq, ix_lanes := bt_insert (lp_lane p) (lp_leaf_id p) (ix_lanes s),
      ix_lane_generations := bt_insert (lp_lane p) sq (ix_lane_generations s),
      ix_log := ix_log s @ [Stored_Other (Log_Lane sq (lp_lane p) (lp_leaf_id p))]\<rparr>"
  have step: "session_step s (Mut_Lane sq (lp_lane p) (lp_leaf_id p)) = Inr u"
    using Cons.prems
    by (auto simp: session_step_def step_mutation_def apply_mutation_def apply_lane_def u_def
        split: option.split)
  then have "session_wf u"
    by (rule session_wf_step [OF Cons.prems(1)]) simp
  then obtain t where "fold_res session_step u (fork_pointers (sq + 1) ps) = Inr t" "session_wf t"
    "ix_entries t = ix_entries u" "ix_sequence t = ix_sequence u + length ps"
    "ix_entries_by_id t = ix_entries_by_id u" "ix_lanes t = move_lanes ps (ix_lanes u)"
    "ix_name t = ix_name u" "ix_labels t = ix_labels u"
    using Cons.IH [of u "sq + 1"] Cons.prems(2,3) by (auto simp: u_def)
  then show ?case using step Cons.prems(2) by (intro exI [of _ t]) (auto simp: u_def move_lanes_def)
qed (simp add: move_lanes_def)

lemma replay_fork_labels:
  "session_wf s \<Longrightarrow> sq = ix_sequence s + 1 \<Longrightarrow> entry_id ` set es \<subseteq> dom (ix_entries_by_id s) \<Longrightarrow>
     \<exists>t. fold_res session_step s (fork_labels sq labels es) = Inr t \<and> session_wf t
       \<and> ix_entries t = ix_entries s \<and> ix_lanes t = ix_lanes s \<and> ix_name t = ix_name s
       \<and> ix_labels t = ix_labels s ++ (labels |` (entry_id ` set es))"
proof (induction es arbitrary: s sq)
  case (Cons e es)
  show ?case
  proof (cases "labels (entry_id e)")
    case None
    then have "labels |` insert (entry_id e) (entry_id ` set es) = labels |` (entry_id ` set es)"
      by (auto simp: restrict_map_def fun_eq_iff)
    with None Cons show ?thesis by simp
  next
    case (Some l)
    define u where "u = s\<lparr>ix_sequence := sq, ix_labels := (ix_labels s)(entry_id e \<mapsto> l),
        ix_log := ix_log s @ [Stored_Other (Log_FactLabel sq (entry_id e) (Some l))]\<rparr>"
    have step: "session_step s (Mut_FactLabel sq (entry_id e) (Some l)) = Inr u"
      using Cons.prems
      by (auto simp: session_step_def step_mutation_def apply_mutation_def apply_fact_label_def u_def)
    then have "session_wf u"
      by (rule session_wf_step [OF Cons.prems(1)]) simp
    moreover have "sq + 1 = ix_sequence u + 1" "entry_id ` set es \<subseteq> dom (ix_entries_by_id u)"
      using Cons.prems(3) by (auto simp: u_def)
    ultimately obtain t where t: "fold_res session_step u (fork_labels (sq + 1) labels es) = Inr t"
      "session_wf t" "ix_entries t = ix_entries u" "ix_lanes t = ix_lanes u" "ix_name t = ix_name u"
      "ix_labels t = ix_labels u ++ (labels |` (entry_id ` set es))"
      using Cons.IH by blast
    have "ix_labels t = ix_labels s ++ (labels |` insert (entry_id e) (entry_id ` set es))"
      unfolding t(6) using Some
      by (auto simp: u_def map_add_def restrict_map_def fun_eq_iff split: option.split)
    with t(1-5) step Some show ?thesis by (intro exI [of _ t]) (simp add: u_def)
  qed
qed simp

lemma session_new_simps [simp]:
  "ix_sequence session_new = 0" "ix_entries session_new = []" "ix_used_ids session_new = {}"
  "ix_entries_by_id session_new = Map.empty" "ix_lanes session_new = [(''main'', None)]"
  "ix_name session_new = None" "ix_labels session_new = Map.empty"
  by (simp_all add: session_new_def index_new_def)

lemma replay_fork_plan:
  fixes es :: "'f::{zero,plus} entry list"
  assumes first: "parents_first {} es"
    and leaves: "\<forall>p \<in> set ps. \<forall>l. lp_leaf_id p = Some l \<longrightarrow> l \<in> entry_id ` set es"
  shows "\<exists>t. fold_res session_step session_new (fork_plan es ps name labels) = Inr t \<and> session_wf t
     \<and> ix_entries t = restamped 1 es \<and> ix_lanes t = move_lanes ps [(''main'', None)]
     \<and> ix_name t = name \<and> ix_labels t = labels |` (entry_id ` set es)"
proof -
  have new: "only_entries (session_new :: 'f session_state)" by (simp add: only_entries_def)
  obtain t1 :: "'f session_state" where t1: "fold_res session_step session_new (fork_entries 1 es) = Inr t1"
    "session_wf t1" "ix_entries t1 = restamped 1 es" "ix_sequence t1 = length es"
    "dom (ix_entries_by_id t1) = entry_id ` set es"
    "ix_lanes t1 = [(''main'', None)]" "ix_name t1 = None" "ix_labels t1 = Map.empty"
    using replay_fork_entries [OF session_wf_new new, of 1 es] first by auto
  obtain t2 where t2: "fold_res session_step t1 (fork_pointers (1 + length es) ps) = Inr t2"
    "session_wf t2" "ix_entries t2 = ix_entries t1" "ix_sequence t2 = length es + length ps"
    "ix_entries_by_id t2 = ix_entries_by_id t1" "ix_lanes t2 = move_lanes ps [(''main'', None)]"
    "ix_name t2 = None" "ix_labels t2 = Map.empty"
    using replay_fork_pointers [OF t1(2), of "1 + length es" ps] leaves t1 by auto
  define names :: "'f session_mutation list" where
    "names = (case name of None \<Rightarrow> [] | Some n \<Rightarrow> [Mut_FactName (1 + length es + length ps) (Some n)])"
  obtain t3 where t3: "fold_res session_step t2 names = Inr t3" "session_wf t3"
    "ix_entries t3 = ix_entries t2" "ix_sequence t3 = length es + length ps + length names"
    "ix_entries_by_id t3 = ix_entries_by_id t2" "ix_lanes t3 = ix_lanes t2" "ix_name t3 = name"
    "ix_labels t3 = Map.empty"
  proof (cases name)
    case None
    with t2 that [of t2] show ?thesis by (simp add: names_def)
  next
    case (Some n)
    define u where "u = t2\<lparr>ix_sequence := 1 + length es + length ps, ix_name := Some n,
        ix_log := ix_log t2 @ [Stored_Other (Log_FactName (1 + length es + length ps) (Some n))]\<rparr>"
    have step: "session_step t2 (Mut_FactName (1 + length es + length ps) (Some n)) = Inr u"
      using t2(4) by (simp add: session_step_def step_mutation_def apply_mutation_def apply_fact_name_def u_def)
    then have "session_wf u"
      by (rule session_wf_step [OF t2(2)]) simp
    with t2 step that [of u] Some show ?thesis by (simp add: names_def u_def)
  qed
  obtain t4 where t4: "fold_res session_step t3 (fork_labels (1 + length es + length ps + length names) labels es) = Inr t4"
    "session_wf t4" "ix_entries t4 = ix_entries t3" "ix_lanes t4 = ix_lanes t3" "ix_name t4 = ix_name t3"
    "ix_labels t4 = labels |` (entry_id ` set es)"
    using replay_fork_labels [OF t3(2), of "1 + length es + length ps + length names" es labels] t1 t2 t3
    by auto
  have "fork_plan es ps name labels = fork_entries 1 es @ fork_pointers (1 + length es) ps @ names
      @ fork_labels (1 + length es + length ps + length names) labels es"
    by (simp add: fork_plan_def names_def Let_def split: option.split)
  then show ?thesis
    using t1 t2 t3 t4 by (intro exI [of _ t4]) (simp add: fold_res_append)
qed

subsection \<open>The forks of a session\<close>

lemma entries_parents_first:
  assumes wf: "session_wf s"
  shows "parents_first {} (ix_entries s)"
proof -
  have "n \<le> length (ix_entries s) \<Longrightarrow> parents_first {} (take n (ix_entries s))" for n
  proof (induction n)
    case (Suc n)
    then have n: "n < length (ix_entries s)" by simp
    have ids: "entry_id (ix_entries s ! i) \<noteq> entry_id (ix_entries s ! n)" if "i < n" for i
      using session_id_of [OF wf, of i] session_id_of [OF wf n] that n by auto
    have "\<exists>i < n. p = entry_id (ix_entries s ! i)" if "entry_parent_id (ix_entries s ! n) = Some p" for p
      using session_parent_of [OF wf n that] session_of_id [OF wf] by metis
    then have "p \<in> entry_id ` set (take n (ix_entries s))"
      if "entry_parent_id (ix_entries s ! n) = Some p" for p
      using that n by (force simp: in_set_conv_nth image_iff)
    moreover have "entry_id (ix_entries s ! n) \<notin> entry_id ` set (take n (ix_entries s))"
      using ids n by (force simp: in_set_conv_nth)
    ultimately show ?case
      using Suc by (simp add: take_Suc_conv_app_nth parents_first_append)
  qed simp
  from this [of "length (ix_entries s)"] show ?thesis by simp
qed

lemma branch_parents_first:
  assumes wf: "session_wf s"
  shows "k < length (ix_entries s) \<Longrightarrow> parents_first {} (rev (branch_of s k))"
proof (induction k rule: less_induct)
  case (less k)
  have table: "wf_table s" using session_wfD(3) [OF wf] .
  have meta: "em_parent_id (ix_metadata s ! k) = entry_parent_id (ix_entries s ! k)"
    and k: "k < length (ix_metadata s)"
    using less.prems session_wfD(2) [OF wf] by simp_all
  show ?case
  proof (cases "parent_index s k")
    case None
    then have "entry_parent_id (ix_entries s ! k) = None"
      using parent_index_None [OF table k] by (simp add: meta)
    with None show ?thesis by (simp add: branch_of_def lineage_unfold [OF table k])
  next
    case (Some j)
    have j: "j < k" using parent_index_less [OF table k Some] .
    have IH: "parents_first {} (rev (branch_of s j))" using less j by simp
    have "entry_id (ix_entries s ! k) \<noteq> entry_id (ix_entries s ! i)" if "i \<in> set (lineage s j)" for i
      using session_id_of [OF wf less.prems] session_id_of [OF wf, of i] lineage_le [OF that] j less.prems
      by auto
    then have fresh: "entry_id (ix_entries s ! k) \<notin> entry_id ` set (branch_of s j)"
      by (auto simp: branch_of_def)
    have "p \<in> entry_id ` set (branch_of s j)" if "entry_parent_id (ix_entries s ! k) = Some p" for p
    proof -
      have "ix_entries_by_id s p = Some j" using Some that by (simp add: parent_index_def meta)
      then have "p = entry_id (ix_entries s ! j)" using session_of_id [OF wf] by metis
      moreover have "j \<in> set (lineage s j)" by (subst lineage.simps) simp
      ultimately show ?thesis by (auto simp: branch_of_def)
    qed
    with IH fresh show ?thesis
      using Some by (simp add: branch_of_def lineage_unfold [OF table k] parents_first_append)
  qed
qed

lemma bt_unique:
  assumes "bt_sorted m" and "bt_sorted m'" and "map_of m = map_of m'"
  shows "m = m'"
proof -
  have "map fst m = map fst m'"
    using assms strict_sorted_equal [of "map fst m" "map fst m'"] by (metis dom_map_of_conv_image_fst list.set_map)
  moreover have "map snd m = map (the \<circ> map_of m) (map fst m)" if "distinct (map fst m)" for m :: "('a \<times> 'b) list"
    using that by (auto intro!: map_cong simp: comp_def)
  ultimately show ?thesis
    using assms bt_sorted_distinct by (metis zip_map_fst_snd)
qed

lemma map_of_move_lanes:
  "distinct (map lp_lane ps) \<Longrightarrow>
     map_of (move_lanes ps lanes) l =
       (case map_of (map (\<lambda>p. (lp_lane p, lp_leaf_id p)) ps) l of Some leaf \<Rightarrow> Some leaf | None \<Rightarrow> map_of lanes l)"
  unfolding move_lanes_def
proof (induction ps arbitrary: lanes)
  case (Cons p ps)
  then have "map_of (map (\<lambda>p. (lp_lane p, lp_leaf_id p)) ps) (lp_lane p) = None"
    by (auto simp: map_of_eq_None_iff)
  with Cons show ?case by (auto split: option.split)
qed simp

lemma bt_sorted_move: "bt_sorted lanes \<Longrightarrow> bt_sorted (move_lanes ps lanes)"
  unfolding move_lanes_def by (induction ps arbitrary: lanes) auto

lemma move_lanes_all:
  assumes wf: "wf_lanes s"
  shows "move_lanes (get_lanes s) [(''main'', None)] = ix_lanes s"
proof (rule bt_unique)
  have sorted: "bt_sorted (ix_lanes s)" using wf by (simp add: wf_lanes_def)
  then show "bt_sorted (ix_lanes s)" .
  show "bt_sorted (move_lanes (get_lanes s) [(''main'', None)])" by (rule bt_sorted_move) simp
  have ptrs: "map (\<lambda>p. (lp_lane p, lp_leaf_id p)) (get_lanes s) = ix_lanes s"
    "map lp_lane (get_lanes s) = map fst (ix_lanes s)"
    by (auto simp: get_lanes_def comp_def case_prod_unfold)
  have "map_of (ix_lanes s) ''main'' \<noteq> None" using wf by (simp add: wf_lanes_def)
  then show "map_of (move_lanes (get_lanes s) [(''main'', None)]) = map_of (ix_lanes s)"
    using bt_sorted_distinct [OF sorted]
    by (intro ext) (auto simp: map_of_move_lanes ptrs split: option.split)
qed

lemma find_oldest: "session_wf s \<Longrightarrow> find_entries s oldest_first_query = Inr (ix_entries s)"
  by (subst find_entries_eq) (simp_all add: oldest_first_query_def entry_query_default_def take_opt_def
      query_order_def ordered_def matches_entry_query_def matches_entry_payload_def outbox_matches_def
      tool_matches_def matches_query_def)

lemma find_branch_oldest:
  assumes "session_wf s" and "ix_entries_by_id s t = Some k"
  shows "find_entries_on_branch s oldest_first_query branch_bounds_default t = Inr (rev (branch_of s k))"
proof -
  have "find (entry_bound branch_bounds_default) xs = None" for xs :: "'a entry list"
    by (simp add: find_None_iff entry_bound_def branch_bounds_default_def)
  then show ?thesis
    using assms
    by (subst find_entries_on_branch_eq) (simp_all add: oldest_first_query_def entry_query_default_def
        take_opt_def query_order_def bounded_branch_def matches_entry_query_def
        matches_entry_payload_def outbox_matches_def tool_matches_def matches_query_def)
qed

lemma fork_tree_replay:
  assumes wf: "session_wf s"
  shows "\<exists>ms t. create_fork_mutations s Fork_Tree = Inr ms
     \<and> fold_res session_step session_new ms = Inr t \<and> session_wf t
     \<and> ix_entries t = restamped 1 (ix_entries s) \<and> ix_lanes t = ix_lanes s
     \<and> ix_name t = ix_name s \<and> ix_labels t = ix_labels s"
proof -
  have lanes: "wf_lanes s" using session_wfD(6) [OF wf] .
  note ids = session_id_known [OF wf]
  have leaves: "\<forall>p \<in> set (get_lanes s). \<forall>l. lp_leaf_id p = Some l \<longrightarrow> l \<in> entry_id ` set (ix_entries s)"
  proof (intro ballI allI impI)
    fix p l
    assume "p \<in> set (get_lanes s)" "lp_leaf_id p = Some l"
    then obtain lane where "(lane, Some l) \<in> set (ix_lanes s)" by (auto simp: get_lanes_def)
    then have "map_of (ix_lanes s) lane = Some (Some l)"
      using lanes bt_sorted_distinct by (auto simp: wf_lanes_def intro: map_of_is_SomeI)
    then show "l \<in> entry_id ` set (ix_entries s)"
      using lanes ids unfolding wf_lanes_def by blast
  qed
  have "ix_labels s |` (entry_id ` set (ix_entries s)) = ix_labels s"
  proof
    fix i
    have "ix_labels s i = None" if "i \<notin> entry_id ` set (ix_entries s)"
      using lanes ids that unfolding wf_lanes_def by blast
    then show "(ix_labels s |` (entry_id ` set (ix_entries s))) i = ix_labels s i"
      by (simp add: restrict_map_def)
  qed
  with replay_fork_plan [OF entries_parents_first [OF wf] leaves, of "ix_name s" "ix_labels s"]
  show ?thesis
    by (simp add: create_fork_mutations_def fork_selection_def find_oldest [OF wf] move_lanes_all [OF lanes])
qed

definition branch_copy :: "'f session_state \<Rightarrow> string option \<Rightarrow> 'f entry list" where
  "branch_copy s target =
     (case Option.bind target (ix_entries_by_id s) of None \<Rightarrow> [] | Some k \<Rightarrow> rev (branch_of s k))"

lemma fork_branch_replay:
  assumes wf: "session_wf s" and target: "fork_target s entry pos = Inr target"
    and known: "\<And>i. target = Some i \<Longrightarrow> ix_entries_by_id s i \<noteq> None"
  shows "\<exists>ms t. create_fork_mutations s (Fork_Branch entry pos) = Inr ms
     \<and> fold_res session_step session_new ms = Inr t \<and> session_wf t
     \<and> ix_entries t = restamped 1 (branch_copy s target) \<and> ix_lanes t = [(''main'', target)]
     \<and> ix_name t = ix_name s \<and> ix_labels t = ix_labels s |` (entry_id ` set (branch_copy s target))"
proof -
  let ?ps = "[\<lparr>lp_lane = ''main'', lp_leaf_id = target\<rparr>]"
  have copy: "case target of None \<Rightarrow> branch_copy s target = []
      | Some i \<Rightarrow> \<exists>k. ix_entries_by_id s i = Some k \<and> k < length (ix_entries s)
          \<and> entry_id (ix_entries s ! k) = i \<and> branch_copy s target = rev (branch_of s k)"
    using known session_of_id [OF wf] by (auto simp: branch_copy_def split: option.split)
  have sel: "fork_selection s (Fork_Branch entry pos) = Inr (branch_copy s target, ?ps)"
    using copy find_branch_oldest [OF wf] by (auto simp: fork_selection_def target split: option.splits)
  have first: "parents_first {} (branch_copy s target)"
    using copy branch_parents_first [OF wf] by (auto split: option.splits)
  have "k \<in> set (lineage s k)" for k by (subst lineage.simps) simp
  then have "\<forall>p \<in> set ?ps. \<forall>l. lp_leaf_id p = Some l \<longrightarrow> l \<in> entry_id ` set (branch_copy s target)"
    using copy by (auto simp: branch_of_def)
  from replay_fork_plan [OF first this, of "ix_name s" "ix_labels s"] show ?thesis
    by (simp add: create_fork_mutations_def sel move_lanes_def)
qed

lemma fork_target_known:
  assumes wf: "session_wf s" and target: "fork_target s entry pos = Inr (Some i)"
  shows "ix_entries_by_id s i \<noteq> None"
proof -
  obtain sel e where e: "get_entry s sel = Some e" "i = entry_id e \<or> entry_parent_id e = Some i"
    using target
    by (auto simp: fork_target_def split: option.splits fork_position.splits if_splits;
        metis fork_position.exhaust)
  then obtain k where k: "e = ix_entries s ! k" "k < length (ix_entries s)"
    using session_of_id [OF wf] by (auto simp: get_entry_def)
  with e show ?thesis
    using session_id_of [OF wf k(2)] session_parent_of [OF wf k(2)] by auto
qed

subsection \<open>Properties of forking\<close>

text \<open>
  A tree fork of a reachable session always succeeds and replays in a new session: every
  entry with its identifier, parent and content, renumbered from 1, every lane with its leaf,
  the name and all labels.
\<close>

theorem fork_tree_preserves:
  assumes "session_reach s"
  shows "\<exists>ms t. create_fork_mutations s Fork_Tree = Inr ms
     \<and> fold_res session_step session_new ms = Inr t \<and> session_wf t
     \<and> ix_entries t = restamped 1 (ix_entries s) \<and> ix_lanes t = ix_lanes s
     \<and> ix_name t = ix_name s \<and> ix_labels t = ix_labels s"
  by (rule fork_tree_replay [OF reach_wf [OF assms]])

theorem fork_tree_preserves_witness:
  "\<exists>ms t. create_fork_mutations demo_state Fork_Tree = Inr ms
     \<and> fold_res session_step session_new ms = Inr t
     \<and> ix_entries t = restamped 1 (ix_entries demo_state) \<and> ix_lanes t = ix_lanes demo_state"
  using fork_tree_preserves [OF demo_reach] by blast

text \<open>
  C32. A branch fork of a reachable session succeeds whenever its target resolves: the new
  session holds exactly the branch of the target, its main lane points at it, and the name and
  the labels of copied entries come along.
\<close>

theorem fork_branch_preserves:
  assumes "session_reach s" and "fork_target s entry pos = Inr target"
  shows "\<exists>ms t. create_fork_mutations s (Fork_Branch entry pos) = Inr ms
     \<and> fold_res session_step session_new ms = Inr t \<and> session_wf t
     \<and> ix_entries t = restamped 1 (branch_copy s target) \<and> ix_lanes t = [(''main'', target)]
     \<and> ix_name t = ix_name s \<and> ix_labels t = ix_labels s |` (entry_id ` set (branch_copy s target))"
proof -
  have wf: "session_wf s" using reach_wf [OF assms(1)] .
  show ?thesis
    by (rule fork_branch_replay [OF wf assms(2)]) (use fork_target_known [OF wf] assms(2) in blast)
qed

theorem fork_branch_preserves_witness:
  "\<exists>ms t. create_fork_mutations demo_state (Fork_Branch (Some ''d'') (Some Fork_At)) = Inr ms
     \<and> fold_res session_step session_new ms = Inr t
     \<and> map entry_id (ix_entries t) = [''a'', ''d''] \<and> ix_lanes t = [(''main'', Some ''d'')]"
proof -
  have "fork_target demo_state (Some ''d'') (Some Fork_At) = Inr (Some ''d'')" by code_simp
  moreover have "map entry_id (branch_copy demo_state (Some ''d'')) = [''a'', ''d'']" by code_simp
  ultimately show ?thesis using fork_branch_preserves [OF demo_reach] by fastforce
qed

text \<open>
  An explicit branch target must be a message entry: otherwise the fork is refused, and an
  unknown target is refused as not found.
\<close>

theorem fork_target_refused:
  "fork_target s (Some i) pos =
     (case get_entry s i of
        None \<Rightarrow> Inl (err_not_found (''Entry not found: '' @ i))
      | Some e \<Rightarrow>
          if is_message_entry e
          then Inr (if pos = Some Fork_At then Some (entry_id e) else entry_parent_id e)
          else Inl (err_invalid_fork_target (''Fork target is not a message entry: '' @ i)))"
  by (cases "get_entry s i"; cases pos)
    (auto simp: fork_target_def simp del: get_entry_None_iff split: fork_position.split)

end
