(* ===== verification/Session_Messages.thy ===== *)
theory Session_Messages
  imports Rust_Text Session_Query
begin

text \<open>
  Bounded transcript reads (\<open>state/message_queries.rs\<close>): pages of user messages and
  windows around an anchor, on one pinned branch. The loops follow parent links and would
  not end on a cyclic state, so each is a partial function whose value \<open>None\<close> is not
  returning; on a well-formed state every loop returns, and the selections are slices of
  the lineage. Text is Latin-1: a character of code 128 or more takes two bytes of UTF-8.
\<close>

subsection \<open>Queries and selections\<close>

record message_summary_query =
  sq_limit :: nat
  sq_role :: string
  sq_before_id :: "string option"
  sq_leaf_id :: "string option"

record message_window_query =
  wq_limit :: nat
  wq_anchor_id :: "string option"
  wq_before_id :: "string option"
  wq_after_id :: "string option"
  wq_leaf_id :: "string option"

record summary_selection =
  ss_indices :: "nat list"
  ss_has_more :: bool
  ss_leaf :: "nat option"

record window_selection =
  ws_indices :: "nat list"
  ws_has_more_before :: bool
  ws_has_more_after :: bool
  ws_leaf :: "nat option"

definition validate_message_limit :: "nat \<Rightarrow> session_error + unit" where
  "validate_message_limit limit =
     ensure (1 \<le> limit \<and> limit \<le> 100) (err_invalid_query ''limit must be between 1 and 100'')"

definition validate_id :: "string \<Rightarrow> session_error + unit" where
  "validate_id i =
     ensure (\<not> (i = [] \<or> utf8_len i > 512 \<or> list_ex is_control i)) (err_invalid_query ''invalid entry cursor'')"

subsection \<open>Loops\<close>

text \<open>A computation that may not return (\<open>None\<close>), fail or succeed.\<close>

type_synonym 'a loop = "(session_error + 'a) option"

fun loop_bind :: "'a loop \<Rightarrow> ('a \<Rightarrow> 'b loop) \<Rightarrow> 'b loop" where
  "loop_bind None f = None"
| "loop_bind (Some (Inl e)) f = Some (Inl e)"
| "loop_bind (Some (Inr x)) f = f x"

definition get_meta :: "('f, 'p) indexed_state \<Rightarrow> nat \<Rightarrow> session_error + 'f entry_meta" where
  "get_meta s k = slice_get (ix_metadata s) k"

partial_function (option) query_is_ancestor ::
  "('f, 'p) indexed_state \<Rightarrow> nat \<Rightarrow> nat \<Rightarrow> bool loop" where
  "query_is_ancestor s ancestor leaf =
     (if ancestor = leaf then Some (Inr True)
      else if leaf < ancestor then Some (Inr False)
      else case get_meta s leaf of
        Inl e \<Rightarrow> Some (Inl e)
      | Inr m \<Rightarrow>
          (case Option.bind (em_parent_id m) (ix_entries_by_id s) of
             Some parent \<Rightarrow> query_is_ancestor s ancestor parent
           | None \<Rightarrow> Some (Inr False)))"

definition query_leaf ::
  "('f, 'p) indexed_state \<Rightarrow> string \<Rightarrow> string option \<Rightarrow> nat option loop" where
  "query_leaf s lane requested =
     loop_bind (Some (ok_or (map_of (ix_lanes s) lane) (err_invalid_lane ''invalid lane''))) (\<lambda>selected.
     let current = Option.bind selected (ix_entries_by_id s) in
     (case requested of
        None \<Rightarrow> Some (Inr current)
      | Some i \<Rightarrow>
          loop_bind (Some (validate_id i)) (\<lambda>_.
          loop_bind (Some (ok_or (ix_entries_by_id s i)
            (err_invalid_query ''branch_changed: snapshot leaf not found''))) (\<lambda>pinned.
          loop_bind (case current of None \<Rightarrow> Some (Inr False) | Some c \<Rightarrow> query_is_ancestor s pinned c)
            (\<lambda>on_branch.
          Some (if on_branch then Inr (Some pinned)
                else Inl (err_invalid_query
                  ''branch_changed: snapshot leaf is no longer on the selected branch'')))))))"

definition previous_user :: "('f, 'p) indexed_state \<Rightarrow> nat \<Rightarrow> session_error + nat option" where
  "previous_user s k =
     res_bind (get_meta s k) (\<lambda>m.
     (case Option.bind (em_parent_id m) (ix_entries_by_id s) of
        None \<Rightarrow> Inr None
      | Some parent \<Rightarrow> slice_get (ix_nearest_user s) parent))"

text \<open>\<open>while let Some(index) = next { if index == cursor { break; } next = previous_user(index); }\<close>\<close>

partial_function (option) seek_user ::
  "('f, 'p) indexed_state \<Rightarrow> nat \<Rightarrow> nat option \<Rightarrow> nat option loop" where
  "seek_user s cursor next =
     (case next of
        None \<Rightarrow> Some (Inr None)
      | Some k \<Rightarrow>
          if k = cursor then Some (Inr (Some k))
          else (case previous_user s k of
                  Inl e \<Rightarrow> Some (Inl e)
                | Inr prev \<Rightarrow> seek_user s cursor prev))"

partial_function (option) take_users ::
  "('f, 'p) indexed_state \<Rightarrow> nat \<Rightarrow> nat list \<Rightarrow> nat option \<Rightarrow> (nat list \<times> nat option) loop" where
  "take_users s limit selected next =
     (case next of
        None \<Rightarrow> Some (Inr (selected, None))
      | Some k \<Rightarrow>
          if length selected = limit then Some (Inr (selected, Some k))
          else (case previous_user s k of
                  Inl e \<Rightarrow> Some (Inl e)
                | Inr prev \<Rightarrow> take_users s limit (selected @ [k]) prev))"

definition summary_start ::
  "('f, 'p) indexed_state \<Rightarrow> string option \<Rightarrow> nat option \<Rightarrow> nat option loop" where
  "summary_start s before next =
     (case before of
        None \<Rightarrow> Some (Inr next)
      | Some b \<Rightarrow>
          loop_bind (Some (validate_id b)) (\<lambda>_.
          loop_bind (Some (ok_or (ix_entries_by_id s b) (err_invalid_query ''user cursor not found''))) (\<lambda>cursor.
          loop_bind (Some (get_meta s cursor)) (\<lambda>m.
          loop_bind (Some (ensure (meta_is_user m)
            (err_invalid_query ''cursor must identify a user message''))) (\<lambda>_.
          loop_bind (seek_user s cursor next) (\<lambda>found.
          loop_bind (Some (ensure (found \<noteq> None)
            (err_invalid_query ''user cursor is not on the selected branch snapshot''))) (\<lambda>_.
          Some (previous_user s cursor))))))))"

definition select_message_summaries ::
  "('f, 'p) indexed_state \<Rightarrow> string \<Rightarrow> message_summary_query \<Rightarrow> summary_selection loop" where
  "select_message_summaries s lane q =
     loop_bind (Some (validate_message_limit (sq_limit q))) (\<lambda>_.
     loop_bind (Some (ensure (sq_role q = ''user'') (err_invalid_query ''only role=user is supported''))) (\<lambda>_.
     loop_bind (query_leaf s lane (sq_leaf_id q)) (\<lambda>leaf.
     loop_bind (Some (case leaf of None \<Rightarrow> Inr None | Some k \<Rightarrow> slice_get (ix_nearest_user s) k)) (\<lambda>nearest.
     loop_bind (summary_start s (sq_before_id q) nearest) (\<lambda>next.
     loop_bind (take_users s (sq_limit q) [] next) (\<lambda>(selected, rest).
     Some (Inr \<lparr>ss_indices = rev selected, ss_has_more = (rest \<noteq> None), ss_leaf = leaf\<rparr>)))))))"

text \<open>The first loop of a window: the closest newer messages, up to the anchor.\<close>

partial_function (option) collect_newer ::
  "('f, 'p) indexed_state \<Rightarrow> nat \<Rightarrow> string \<Rightarrow> nat list \<Rightarrow> bool \<Rightarrow> nat option
     \<Rightarrow> (nat option \<times> nat list \<times> bool \<times> nat option) loop" where
  "collect_newer s limit cursor newer discarded next =
     (case next of
        None \<Rightarrow> Some (Inr (None, newer, discarded, None))
      | Some k \<Rightarrow>
          (case get_meta s k of
             Inl e \<Rightarrow> Some (Inl e)
           | Inr m \<Rightarrow>
               (let up = Option.bind (em_parent_id m) (ix_entries_by_id s) in
                if em_id m = cursor then
                  (if \<not> meta_is_transcript m
                   then Some (Inl (err_invalid_query ''cursor must identify a transcript message''))
                   else Some (Inr (Some k, newer, discarded, up)))
                else if meta_is_transcript m then
                  (if length (newer @ [k]) > limit + 1
                   then collect_newer s limit cursor (tl (newer @ [k])) True up
                   else collect_newer s limit cursor (newer @ [k]) discarded up)
                else collect_newer s limit cursor newer discarded up)))"

partial_function (option) collect_older ::
  "('f, 'p) indexed_state \<Rightarrow> nat \<Rightarrow> nat list \<Rightarrow> nat option \<Rightarrow> nat list loop" where
  "collect_older s limit older next =
     (case next of
        None \<Rightarrow> Some (Inr older)
      | Some k \<Rightarrow>
          (case get_meta s k of
             Inl e \<Rightarrow> Some (Inl e)
           | Inr m \<Rightarrow>
               (let up = Option.bind (em_parent_id m) (ix_entries_by_id s) in
                if meta_is_transcript m then
                  (if length (older @ [k]) > limit then Some (Inr (older @ [k]))
                   else collect_older s limit (older @ [k]) up)
                else collect_older s limit older up)))"

definition window_cursor :: "message_window_query \<Rightarrow> session_error + string" where
  "window_cursor q =
     (let cursors = filter_map id [wq_anchor_id q, wq_before_id q, wq_after_id q]
      in res_bind (ensure (length cursors = 1)
           (err_invalid_query ''exactly one of anchorId, beforeId or afterId is required'')) (\<lambda>_.
         Inr (hd cursors)))"

definition choose_window ::
  "message_window_query \<Rightarrow> nat \<Rightarrow> nat list \<Rightarrow> bool \<Rightarrow> nat list \<Rightarrow> nat list \<times> bool \<times> bool" where
  "choose_window q anchor newer discarded older =
     (let limit = wq_limit q in
      if wq_before_id q \<noteq> None then (rev (take limit older), length older > limit, True)
      else if wq_after_id q \<noteq> None then (take limit newer, True, length newer > limit \<or> discarded)
      else
        (let before0 = min (length older) (limit div 3);
             after = min (length newer) (limit - 1 - before0);
             before = min (length older) (limit - 1 - after)
         in (rev (take before older) @ [anchor] @ take after newer,
             length older > before, length newer > after \<or> discarded)))"

definition select_message_window ::
  "('f, 'p) indexed_state \<Rightarrow> string \<Rightarrow> message_window_query \<Rightarrow> window_selection loop" where
  "select_message_window s lane q =
     loop_bind (Some (validate_message_limit (wq_limit q))) (\<lambda>_.
     loop_bind (Some (window_cursor q)) (\<lambda>cursor.
     loop_bind (Some (validate_id cursor)) (\<lambda>_.
     loop_bind (query_leaf s lane (wq_leaf_id q)) (\<lambda>leaf.
     loop_bind (collect_newer s (wq_limit q) cursor [] False leaf) (\<lambda>(found, newest_first, discarded, up).
     loop_bind (Some (ok_or found (err_invalid_query ''message cursor not on selected branch snapshot''))) (\<lambda>anchor.
     loop_bind (collect_older s (wq_limit q) [] up) (\<lambda>older.
     (let (selected, before, after) = choose_window q anchor (rev newest_first) discarded older
      in Some (Inr \<lparr>ws_indices = selected,
                    ws_has_more_before = (before \<and> selected \<noteq> []),
                    ws_has_more_after = (after \<and> selected \<noteq> []), ws_leaf = leaf\<rparr>)))))))))"

subsection \<open>The loops on a well-formed state\<close>

definition chain_of :: "('f, 'p) indexed_state \<Rightarrow> nat option \<Rightarrow> nat list" where
  "chain_of s next = (case next of None \<Rightarrow> [] | Some k \<Rightarrow> lineage s k)"

definition head_of :: "'a list \<Rightarrow> 'a option" where
  "head_of xs = (case xs of [] \<Rightarrow> None | x # _ \<Rightarrow> Some x)"

lemma head_of_simps [simp]: "head_of [] = None" "head_of (x # xs) = Some x"
  by (simp_all add: head_of_def)

lemma chain_of_simps [simp]: "chain_of s None = []" "chain_of s (Some k) = lineage s k"
  by (simp_all add: chain_of_def)

definition known :: "('f, 'p) indexed_state \<Rightarrow> nat option \<Rightarrow> bool" where
  "known s next \<longleftrightarrow> (\<forall>k. next = Some k \<longrightarrow> k < length (ix_metadata s))"

lemma known_simps [simp]: "known s None" "known s (Some k) \<longleftrightarrow> k < length (ix_metadata s)"
  by (simp_all add: known_def)

lemma known_by_id: "wf_table s \<Longrightarrow> known s (Option.bind i (ix_entries_by_id s))"
  by (auto simp: known_def wf_table_def bind_eq_Some_conv)

lemma known_parent: "wf_table s \<Longrightarrow> known s (parent_index s k)"
  unfolding parent_index_def by (rule known_by_id)

lemma lineage_chain:
  "wf_table s \<Longrightarrow> k < length (ix_metadata s) \<Longrightarrow> lineage s k = k # chain_of s (parent_index s k)"
  by (simp add: lineage_unfold chain_of_def)

lemma get_meta_ok [simp]: "k < length (ix_metadata s) \<Longrightarrow> get_meta s k = Inr (ix_metadata s ! k)"
  by (simp add: get_meta_def slice_get_def)

text \<open>Induction along the chain of parents.\<close>

lemma chain_induct [consumes 2, case_names None Some]:
  assumes wf: "wf_table s" and "known s next"
    and none: "P None"
    and some: "\<And>k. k < length (ix_metadata s) \<Longrightarrow> P (parent_index s k) \<Longrightarrow> P (Some k)"
  shows "P next"
proof -
  have "k < length (ix_metadata s) \<Longrightarrow> P (Some k)" for k
  proof (induction k rule: less_induct)
    case (less k)
    have "P (parent_index s k)"
    proof (cases "parent_index s k")
      case (Some j)
      then show ?thesis
        using less parent_index_less [OF wf less.prems Some] known_parent [OF wf, of k] by simp
    qed (simp add: none)
    then show ?case by (rule some [OF less.prems])
  qed
  with assms(2) none show ?thesis by (cases "next") simp_all
qed

lemma ancestor_chain:
  assumes wf: "wf_table s" and "known s next"
  shows "\<forall>k. next = Some k \<longrightarrow> query_is_ancestor s a k = Some (Inr (a \<in> set (lineage s k)))"
  using assms
proof (induction "next" rule: chain_induct)
  case (Some j)
  note unfold = query_is_ancestor.simps [of s a j] and chain = lineage_chain [OF wf Some(1)]
  have below: "i < a" if "j < a" "i \<in> set (lineage s j)" for i
    using lineage_le [OF that(2)] that(1) by simp
  show ?case
    using Some below
    by (cases "parent_index s j") (auto simp: unfold chain simp flip: parent_index_def)
qed simp

lemma query_is_ancestor_eq:
  "wf_table s \<Longrightarrow> k < length (ix_metadata s) \<Longrightarrow>
     query_is_ancestor s a k = Some (Inr (a \<in> set (lineage s k)))"
  using ancestor_chain [of s "Some k"] by simp

subsection \<open>User messages\<close>

definition users_of :: "('f, 'p) indexed_state \<Rightarrow> nat option \<Rightarrow> nat list" where
  "users_of s next = filter (\<lambda>k. meta_is_user (ix_metadata s ! k)) (chain_of s next)"

lemma nearest_user_head:
  assumes wf: "wf_table s" "wf_users s" and "known s next"
  shows "\<forall>k. next = Some k \<longrightarrow> ix_nearest_user s ! k = head_of (users_of s (Some k))"
  using wf(1) assms(3)
proof (induction "next" rule: chain_induct)
  case (Some k)
  have "ix_nearest_user s ! k =
      (if meta_is_user (ix_metadata s ! k) then Some k
       else case parent_index s k of None \<Rightarrow> None | Some j \<Rightarrow> ix_nearest_user s ! j)"
    using wf(2) Some(1) unfolding wf_users_def parent_index_def by blast
  moreover have "ix_nearest_user s ! j = head_of (users_of s (parent_index s k))"
    if "parent_index s k = Some j" for j
    using Some(2) that by simp
  ultimately show ?case
    by (cases "parent_index s k") (auto simp: users_of_def lineage_chain [OF wf(1) Some(1)])
qed simp

lemma nearest_ok:
  assumes wf: "wf_table s" "wf_users s" and k: "k < length (ix_metadata s)"
  shows "slice_get (ix_nearest_user s) k = Inr (head_of (users_of s (Some k)))"
proof -
  have "length (ix_nearest_user s) = length (ix_metadata s)"
    using wf(2) unfolding wf_users_def by blast
  then show ?thesis
    using nearest_user_head [OF wf, of "Some k"] k by (simp add: slice_get_def)
qed

lemma previous_user_eq:
  assumes wf: "wf_table s" "wf_users s" and k: "k < length (ix_metadata s)"
  shows "previous_user s k = Inr (head_of (users_of s (parent_index s k)))"
proof -
  have meta: "get_meta s k = Inr (ix_metadata s ! k)" using k by simp
  show ?thesis
  proof (cases "parent_index s k")
    case None
    then show ?thesis by (simp add: previous_user_def meta users_of_def parent_index_def)
  next
    case (Some j)
    then have "j < length (ix_metadata s)" using known_parent [OF wf(1), of k] by simp
    then show ?thesis
      using Some nearest_ok [OF wf, of j] by (simp add: previous_user_def meta flip: parent_index_def)
  qed
qed

lemma users_of_restart:
  assumes wf: "wf_table s" and "known s next"
  shows "\<forall>u us. users_of s next = u # us \<longrightarrow>
    u < length (ix_metadata s) \<and> meta_is_user (ix_metadata s ! u) \<and> users_of s (parent_index s u) = us"
  using assms
proof (induction "next" rule: chain_induct)
  case (Some k)
  have chain: "users_of s (Some k) =
      (if meta_is_user (ix_metadata s ! k) then k # users_of s (parent_index s k)
       else users_of s (parent_index s k))"
    by (simp add: users_of_def lineage_chain [OF wf Some(1)])
  show ?case
  proof (cases "meta_is_user (ix_metadata s ! k)")
    case True
    then have "users_of s (Some k) = k # users_of s (parent_index s k)" using chain by simp
    with Some(1) True show ?thesis by (metis list.inject)
  next
    case False
    then have "users_of s (Some k) = users_of s (parent_index s k)" using chain by simp
    with Some(2) show ?thesis by metis
  qed
qed (simp add: users_of_def)

lemma seek_user_eq:
  assumes wf: "wf_table s" "wf_users s"
  shows "known s next \<Longrightarrow> users_of s next = us \<Longrightarrow>
     seek_user s c (head_of us) = Some (Inr (if c \<in> set us then Some c else None))"
proof (induction us arbitrary: "next")
  case Nil
  show ?case by (simp add: seek_user.simps)
next
  case (Cons u us)
  have u: "u < length (ix_metadata s)" "users_of s (parent_index s u) = us"
    using users_of_restart [OF wf(1) Cons.prems(1)] Cons.prems(2) by auto
  have "seek_user s c (head_of us) = Some (Inr (if c \<in> set us then Some c else None))"
    by (rule Cons.IH [OF known_parent [OF wf(1)] u(2)])
  then show ?case
    using u by (subst seek_user.simps) (auto simp: previous_user_eq [OF wf])
qed

lemma take_users_eq:
  assumes wf: "wf_table s" "wf_users s"
  shows "known s next \<Longrightarrow> users_of s next = us \<Longrightarrow> length selected \<le> limit \<Longrightarrow>
     take_users s limit selected (head_of us) =
       Some (Inr (selected @ take (limit - length selected) us, head_of (drop (limit - length selected) us)))"
proof (induction us arbitrary: "next" selected)
  case Nil
  show ?case by (simp add: take_users.simps)
next
  case (Cons u us)
  have u: "u < length (ix_metadata s)" "users_of s (parent_index s u) = us"
    using users_of_restart [OF wf(1) Cons.prems(1)] Cons.prems(2) by auto
  show ?case
  proof (cases "length selected = limit")
    case True
    then show ?thesis by (simp add: take_users.simps)
  next
    case False
    then have "take_users s limit (selected @ [u]) (head_of us) =
       Some (Inr ((selected @ [u]) @ take (limit - length (selected @ [u])) us,
                  head_of (drop (limit - length (selected @ [u])) us)))"
      using Cons.prems(3) by (intro Cons.IH [OF known_parent [OF wf(1)] u(2)]) simp
    moreover have "limit - length selected = Suc (limit - length (selected @ [u]))"
      using False Cons.prems(3) by simp
    ultimately show ?thesis
      using u False by (subst take_users.simps) (simp add: previous_user_eq [OF wf])
  qed
qed

lemma query_leaf_returns:
  assumes wf: "wf_table s"
  shows "\<exists>r. query_leaf s lane requested = Some r \<and> r \<noteq> Inl Index_Panic
     \<and> (\<forall>leaf. r = Inr leaf \<longrightarrow> known s leaf)"
proof -
  have current: "known s (Option.bind selected (ix_entries_by_id s))" for selected
    by (rule known_by_id [OF wf])
  show ?thesis
  proof (cases "map_of (ix_lanes s) lane")
    case (Some selected)
    show ?thesis
    proof (cases requested)
      case None
      with Some current show ?thesis by (simp add: query_leaf_def)
    next
      case (Some i)
      have pinned: "k < length (ix_metadata s)" if "ix_entries_by_id s i = Some k" for k
        using wf that unfolding wf_table_def by blast
      show ?thesis
        using \<open>map_of (ix_lanes s) lane = Some selected\<close> Some current [of selected] pinned
        by (cases "Option.bind selected (ix_entries_by_id s)"; cases "validate_id i";
            cases "ix_entries_by_id s i")
          (auto simp: query_leaf_def query_is_ancestor_eq [OF wf] validate_id_def ensure_def split: if_splits)
    qed
  qed (simp add: query_leaf_def)
qed

text \<open>A page of user messages: the newest ones above the cursor, oldest first.\<close>

lemma summaries_from:
  assumes wf: "wf_table s" "wf_users s" and leaf: "query_leaf s lane (sq_leaf_id q) = Some (Inr leaf)"
    and q: "1 \<le> sq_limit q" "sq_limit q \<le> 100" "sq_role q = ''user''"
    and start: "summary_start s (sq_before_id q) (head_of (users_of s leaf)) = Some (Inr (head_of us))"
    and us: "users_of s next = us" "known s next"
  shows "select_message_summaries s lane q =
     Some (Inr \<lparr>ss_indices = rev (take (sq_limit q) us), ss_has_more = (sq_limit q < length us), ss_leaf = leaf\<rparr>)"
proof -
  have "known s leaf" using query_leaf_returns [OF wf(1), of lane "sq_leaf_id q"] leaf by auto
  then have near: "(case leaf of None \<Rightarrow> Inr None | Some k \<Rightarrow> slice_get (ix_nearest_user s) k)
      = Inr (head_of (users_of s leaf))"
    by (cases leaf) (simp_all add: nearest_ok [OF wf] users_of_def)
  have "head_of (drop n us) \<noteq> None \<longleftrightarrow> n < length us" for n
    by (cases "drop n us") (auto simp: drop_eq_Nil not_le [symmetric])
  then show ?thesis
    using take_users_eq [OF wf us(2,1), of "[]" "sq_limit q"] leaf q start
    by (simp add: select_message_summaries_def validate_message_limit_def near)
qed

lemma summaries_newest:
  assumes "wf_table s" "wf_users s" "query_leaf s lane (sq_leaf_id q) = Some (Inr leaf)"
    and "1 \<le> sq_limit q" "sq_limit q \<le> 100" "sq_role q = ''user''" and "sq_before_id q = None"
  shows "select_message_summaries s lane q =
     Some (Inr \<lparr>ss_indices = rev (take (sq_limit q) (users_of s leaf)),
                ss_has_more = (sq_limit q < length (users_of s leaf)), ss_leaf = leaf\<rparr>)"
proof -
  have "known s leaf" using query_leaf_returns [OF assms(1), of lane "sq_leaf_id q"] assms(3) by auto
  then show ?thesis
    using assms by (intro summaries_from) (simp_all add: summary_start_def)
qed

lemma summaries_before:
  assumes wf: "wf_table s" "wf_users s" and leaf: "query_leaf s lane (sq_leaf_id q) = Some (Inr leaf)"
    and q: "1 \<le> sq_limit q" "sq_limit q \<le> 100" "sq_role q = ''user''"
    and before: "sq_before_id q = Some b" "validate_id b = Inr ()" "ix_entries_by_id s b = Some c"
    and split: "users_of s leaf = newer @ c # older"
  shows "select_message_summaries s lane q =
     Some (Inr \<lparr>ss_indices = rev (take (sq_limit q) older), ss_has_more = (sq_limit q < length older),
                ss_leaf = leaf\<rparr>)"
proof -
  have "known s leaf" using query_leaf_returns [OF wf(1), of lane "sq_leaf_id q"] leaf by auto
  have restart: "users_of s next = us \<Longrightarrow> known s next \<Longrightarrow> us = newer @ c # older \<Longrightarrow>
      c < length (ix_metadata s) \<and> meta_is_user (ix_metadata s ! c) \<and> users_of s (parent_index s c) = older"
    for "next" us
  proof (induction newer arbitrary: "next" us)
    case Nil
    then show ?case using users_of_restart [OF wf(1) Nil(2)] by simp
  next
    case (Cons u newer)
    then have "users_of s (parent_index s u) = newer @ c # older"
      using users_of_restart [OF wf(1) Cons.prems(2)] by simp
    then show ?case using Cons.IH known_parent [OF wf(1)] by blast
  qed
  have c: "c < length (ix_metadata s)" "meta_is_user (ix_metadata s ! c)" "users_of s (parent_index s c) = older"
    using restart [OF refl \<open>known s leaf\<close> split] by auto
  have "summary_start s (sq_before_id q) (head_of (users_of s leaf)) = Some (Inr (head_of older))"
    using c before seek_user_eq [OF wf \<open>known s leaf\<close> refl, of c]
    by (simp add: summary_start_def split previous_user_eq [OF wf])
  from summaries_from [OF wf leaf q this c(3) known_parent [OF wf(1)]] show ?thesis .
qed

subsection \<open>Windows\<close>

definition transcript_of :: "('f, 'p) indexed_state \<Rightarrow> nat option \<Rightarrow> nat list" where
  "transcript_of s next = filter (\<lambda>k. meta_is_transcript (ix_metadata s ! k)) (chain_of s next)"

definition last_n :: "nat \<Rightarrow> 'a list \<Rightarrow> 'a list" where
  "last_n n xs = drop (length xs - n) xs"

lemma last_n_short: "length xs \<le> n \<Longrightarrow> last_n n xs = xs"
  by (simp add: last_n_def)

lemma last_n_step: "length xs = Suc n \<Longrightarrow> last_n n (tl xs @ ys) = last_n n (xs @ ys)"
  by (cases xs) (auto simp: last_n_def Suc_diff_le)

lemma collect_older_eq:
  assumes wf: "wf_table s" and "known s next"
  shows "\<forall>older. length older \<le> limit \<longrightarrow>
    collect_older s limit older next =
      Some (Inr (older @ take (limit + 1 - length older) (transcript_of s next)))"
  using assms
proof (induction "next" rule: chain_induct)
  case None
  then show ?case by (simp add: collect_older.simps transcript_of_def)
next
  case (Some k)
  show ?case
  proof (intro allI impI)
    fix older :: "nat list"
    assume len: "length older \<le> limit"
    have IH: "length xs \<le> limit \<Longrightarrow> collect_older s limit xs (parent_index s k) =
        Some (Inr (xs @ take (limit + 1 - length xs) (transcript_of s (parent_index s k))))" for xs
      using Some(2) by blast
    have chain: "transcript_of s (Some k) =
        (if meta_is_transcript (ix_metadata s ! k) then [k] else []) @ transcript_of s (parent_index s k)"
      by (simp add: transcript_of_def lineage_chain [OF wf Some(1)])
    have diff: "limit + 1 - length older = Suc (limit - length older)" using len by simp
    show "collect_older s limit older (Some k) =
        Some (Inr (older @ take (limit + 1 - length older) (transcript_of s (Some k))))"
      using IH len Some(1)
      by (subst collect_older.simps) (auto simp: chain diff simp flip: parent_index_def)
  qed
qed

lemma chain_restart:
  assumes wf: "wf_table s"
  shows "known s next \<Longrightarrow> chain_of s next = pre @ k # post \<Longrightarrow>
     k < length (ix_metadata s) \<and> post = chain_of s (parent_index s k)"
proof (induction pre arbitrary: "next")
  case Nil
  then show ?case by (cases "next") (simp_all add: lineage_chain [OF wf])
next
  case (Cons j pre)
  then have "chain_of s (parent_index s j) = pre @ k # post"
    by (cases "next") (simp_all add: lineage_chain [OF wf])
  then show ?case using Cons.IH known_parent [OF wf] by blast
qed

lemma chain_known:
  assumes wf: "wf_table s" and nx: "known s next" and k: "k \<in> set (chain_of s next)"
  shows "k < length (ix_metadata s)"
proof -
  obtain pre post where "chain_of s next = pre @ k # post" using k by (meson split_list)
  then show ?thesis using chain_restart [OF wf nx] by blast
qed

text \<open>The anchor is met after exactly the entries before it; the closest newer ones are kept.\<close>

lemma collect_newer_before:
  assumes wf: "wf_table s"
  shows "known s next \<Longrightarrow> chain_of s next = pre @ post \<Longrightarrow>
     \<forall>k \<in> set pre. em_id (ix_metadata s ! k) \<noteq> c \<Longrightarrow> length newer \<le> limit + 1 \<Longrightarrow>
     \<exists>n'. known s n' \<and> chain_of s n' = post \<and>
       collect_newer s limit c newer discarded next =
       collect_newer s limit c (last_n (limit + 1) (newer @ filter (\<lambda>k. meta_is_transcript (ix_metadata s ! k)) pre))
         (discarded \<or> limit + 1 < length (newer @ filter (\<lambda>k. meta_is_transcript (ix_metadata s ! k)) pre)) n'"
proof (induction pre arbitrary: "next" newer discarded)
  case Nil
  then show ?case by (intro exI [of _ "next"]) (simp add: last_n_short)
next
  case (Cons k pre)
  let ?t = "\<lambda>k. meta_is_transcript (ix_metadata s ! k)"
  have k: "next = Some k" "k < length (ix_metadata s)" "chain_of s (parent_index s k) = pre @ post"
    using Cons.prems(1,2) by (cases "next"; simp add: lineage_chain [OF wf])+
  have other: "em_id (ix_metadata s ! k) \<noteq> c" "\<forall>k \<in> set pre. em_id (ix_metadata s ! k) \<noteq> c"
    using Cons.prems(3) by simp_all
  note IH = Cons.IH [OF known_parent [OF wf] k(3) other(2)]
  have step: "collect_newer s limit c newer discarded next =
      (if ?t k
       then if length (newer @ [k]) > limit + 1
            then collect_newer s limit c (tl (newer @ [k])) True (parent_index s k)
            else collect_newer s limit c (newer @ [k]) discarded (parent_index s k)
       else collect_newer s limit c newer discarded (parent_index s k))"
    using k other(1) by (subst collect_newer.simps) (simp add: Let_def flip: parent_index_def)
  show ?case
  proof (cases "?t k")
    case False
    then show ?thesis using IH [OF Cons.prems(4), of discarded] by (simp add: step)
  next
    case True
    show ?thesis
    proof (cases "length newer = limit + 1")
      case True
      then have len: "length (tl (newer @ [k])) \<le> limit + 1" by simp
      have "last_n (limit + 1) (tl (newer @ [k]) @ filter ?t pre) =
          last_n (limit + 1) ((newer @ [k]) @ filter ?t pre)"
        by (rule last_n_step) (simp add: True)
      then show ?thesis
        using IH [OF len, of True] True \<open>?t k\<close> by (simp add: step)
    next
      case False
      then have len: "length (newer @ [k]) \<le> limit + 1" using Cons.prems(4) by simp
      then show ?thesis using IH [OF len, of discarded] \<open>?t k\<close> by (simp add: step)
    qed
  qed
qed

lemma filter_split_at:
  "filter P xs = ys @ a # zs \<Longrightarrow>
     \<exists>pre post. xs = pre @ a # post \<and> P a \<and> filter P pre = ys \<and> filter P post = zs"
proof (induction xs arbitrary: ys)
  case (Cons x xs)
  show ?case
  proof (cases "P x \<and> ys = []")
    case True
    with Cons.prems show ?thesis by (intro exI [of _ "[]"] exI [of _ xs]) auto
  next
    case False
    then obtain ys' where ys: "filter P xs = ys' @ a # zs" "ys = (if P x then x # ys' else ys')"
      using Cons.prems by (cases ys) (auto split: if_splits)
    from Cons.IH [OF ys(1)] obtain pre post
      where "xs = pre @ a # post" "P a" "filter P pre = ys'" "filter P post = zs" by blast
    with ys(2) show ?thesis by (intro exI [of _ "x # pre"] exI [of _ post]) auto
  qed
qed simp

lemma collect_newer_anchor:
  assumes wf: "wf_table s" and nx: "known s next"
    and split: "transcript_of s next = newer @ a # older" and a: "em_id (ix_metadata s ! a) = c"
  shows "collect_newer s limit c [] False next =
       Some (Inr (Some a, last_n (limit + 1) newer, limit + 1 < length newer, parent_index s a))
     \<and> transcript_of s (parent_index s a) = older"
proof -
  let ?t = "\<lambda>k. meta_is_transcript (ix_metadata s ! k)"
  obtain pre post where chain: "chain_of s next = pre @ a # post" and "?t a"
    and parts: "filter ?t pre = newer" "filter ?t post = older"
    using filter_split_at [OF split [unfolded transcript_of_def]] by auto
  have a_len: "a < length (ix_metadata s)" "post = chain_of s (parent_index s a)"
    using chain_restart [OF wf nx chain] by auto
  have "distinct (chain_of s next)"
  proof (cases "next")
    case (Some k)
    have "sorted_wrt (<) (rev (lineage s k))" using lineage_descending [of s k] by (simp add: sorted_wrt_rev)
    then have "distinct (rev (lineage s k))" by (simp only: strict_sorted_iff)
    with Some show ?thesis by simp
  qed simp
  then have "em_id (ix_metadata s ! k) \<noteq> c" if "k \<in> set pre" for k
  proof -
    have "k < length (ix_metadata s)" using that chain by (auto intro: chain_known [OF wf nx])
    moreover have "k \<noteq> a" using that chain \<open>distinct (chain_of s next)\<close> by auto
    ultimately show ?thesis using wf a a_len(1) unfolding wf_table_def by (metis option.inject)
  qed
  then obtain n' where n': "known s n'" "chain_of s n' = a # post"
    and eq: "collect_newer s limit c [] False next =
      collect_newer s limit c (last_n (limit + 1) newer) (limit + 1 < length newer) n'"
    using collect_newer_before [OF wf nx chain, of c "[]" limit False] parts by auto
  then have "n' = Some a" by (cases n') (simp_all add: lineage_chain [OF wf])
  then have "collect_newer s limit c (last_n (limit + 1) newer) (limit + 1 < length newer) n' =
      Some (Inr (Some a, last_n (limit + 1) newer, limit + 1 < length newer, parent_index s a))"
    using a a_len(1) \<open>?t a\<close> by (subst collect_newer.simps) (simp add: Let_def flip: parent_index_def)
  then show ?thesis using eq parts a_len by (simp add: transcript_of_def)
qed

text \<open>
  The window: with \<open>newer\<close> and \<open>older\<close> the messages of the branch around the
  anchor, newest first, the code chooses as if it had both lists in full.
\<close>

lemma choose_window_bounded:
  "choose_window q a (rev (last_n (wq_limit q + 1) newer)) (wq_limit q + 1 < length newer)
       (take (wq_limit q + 1) older) =
     choose_window q a (rev newer) False older"
proof -
  have rev: "rev (last_n n newer) = take n (rev newer)" for n
    by (simp add: last_n_def take_rev)
  have short: "take m (take (Suc (wq_limit q)) xs) = take m xs" if "m \<le> wq_limit q" for m and xs :: "nat list"
    using that by (simp add: min_def)
  have len: "length (take (Suc (wq_limit q)) xs) = min (length xs) (Suc (wq_limit q))" for xs :: "nat list"
    by (simp add: min.commute)
  have low: "min (min n (Suc (wq_limit q))) m = min n m" if "m \<le> wq_limit q" for n m
    using that by (auto simp: min_def)
  have more: "m < min n (Suc (wq_limit q)) \<or> Suc (wq_limit q) < n \<longleftrightarrow> m < n" if "m \<le> wq_limit q" for n m
    using that by auto
  have more': "m < min n (Suc (wq_limit q)) \<longleftrightarrow> m < n" if "m \<le> wq_limit q" for n m
    using that by auto
  have third: "wq_limit q div 3 \<le> wq_limit q" by simp
  have plus: "wq_limit q + 1 = Suc (wq_limit q)" by simp
  have extra: "m < n \<or> Suc (wq_limit q) < n \<longleftrightarrow> m < n" if "m \<le> wq_limit q" for n m
    using that by auto
  have bound: "min x (wq_limit q - y) \<le> wq_limit q" for x y
    by (simp add: min.coboundedI2)
  note norm = low [OF third] low short more more' extra bound
  show ?thesis
    unfolding choose_window_def Let_def rev plus len length_rev
    by (cases "wq_before_id q"; cases "wq_after_id q")
      (simp_all add: norm del: length_take take_take min_less_iff_conj min_le_iff_disj)
qed

lemma select_window_eq:
  assumes wf: "wf_table s" and leaf: "query_leaf s lane (wq_leaf_id q) = Some (Inr leaf)"
    and limit: "1 \<le> wq_limit q" "wq_limit q \<le> 100"
    and cursor: "window_cursor q = Inr c" "validate_id c = Inr ()"
    and split: "transcript_of s leaf = newer @ a # older" and a: "em_id (ix_metadata s ! a) = c"
    and choice: "choose_window q a (rev newer) False older = (selected, before, after)"
  shows "select_message_window s lane q =
     Some (Inr \<lparr>ws_indices = selected, ws_has_more_before = (before \<and> selected \<noteq> []),
                ws_has_more_after = (after \<and> selected \<noteq> []), ws_leaf = leaf\<rparr>)"
proof -
  have "known s leaf" using query_leaf_returns [OF wf, of lane "wq_leaf_id q"] leaf by auto
  note newer = collect_newer_anchor [OF wf this split a, of "wq_limit q"]
  have "collect_older s (wq_limit q) [] (parent_index s a) = Some (Inr (take (wq_limit q + 1) older))"
    using collect_older_eq [OF wf known_parent [OF wf], of "wq_limit q" a] newer by simp
  with newer leaf limit cursor choice choose_window_bounded [of q a newer older] show ?thesis
    by (simp add: select_message_window_def validate_message_limit_def)
qed

lemma window_arith:
  fixes l n m b :: nat
  assumes "1 \<le> l" "b \<le> m" "b \<le> l - 1"
  shows "min m (l - 1 - min n (l - 1 - b)) + min n (l - 1 - b) + 1 = min l (n + m + 1)"
proof -
  obtain k where l: "l = Suc k" using assms(1) by (cases l) auto
  show ?thesis
  proof (cases "n \<le> k - b")
    case True
    then have small: "min n (k - b) = n" and "n \<le> k" by simp_all
    have "min m (k - n) + n = min k (n + m)" using \<open>n \<le> k\<close> by linarith
    then show ?thesis using small by (simp add: l)
  next
    case False
    then have "min n (k - b) = k - b" "k - (k - b) = b" "min m b = b" "k < n + m"
      using assms by (simp_all add: l)
    then show ?thesis using assms(3) by (simp add: l)
  qed
qed
lemma window_around:
  assumes q: "wq_before_id q = None" "wq_after_id q = None" and limit: "1 \<le> wq_limit q"
    and f: "f = min (length newer) (wq_limit q - 1 - min (length older) (wq_limit q div 3))"
    and b: "b = min (length older) (wq_limit q - 1 - f)"
  shows "choose_window q a (rev newer) False older =
       (rev (take b older) @ [a] @ take f (rev newer), b < length older, f < length newer)
     \<and> b + f + 1 = min (wq_limit q) (length (newer @ a # older)) \<and> min (length older) (wq_limit q div 3) \<le> b"
proof -
  define b0 where "b0 = min (length older) (wq_limit q div 3)"
  have f': "f = min (length newer) (wq_limit q - 1 - b0)" by (simp add: f b0_def)
  have b0: "b0 \<le> length older" "b0 \<le> wq_limit q - 1"
    using limit by (auto simp: b0_def min_def)
  then have "b + f + 1 = min (wq_limit q) (length newer + length older + 1)" and "b0 \<le> b"
    using window_arith [OF limit, of b0 "length older" "length newer"] by (simp_all add: b f' min_def split: if_splits)
  moreover have "choose_window q a (rev newer) False older =
       (rev (take b older) @ [a] @ take f (rev newer), b < length older, f < length newer)"
    by (simp add: choose_window_def q Let_def b f)
  ultimately show ?thesis by (simp add: b0_def)
qed

lemma transcript_index:
  "wf_table s \<Longrightarrow> known s leaf \<Longrightarrow> k \<in> set (transcript_of s leaf) \<Longrightarrow> k < length (ix_metadata s)"
  by (auto simp: transcript_of_def intro: chain_known)

subsection \<open>Previews and pages\<close>

text \<open>\<open>message_preview.rs\<close>: at most 140 characters of the first 2048, runs of white space collapsed.\<close>

fun append_preview :: "string \<Rightarrow> string \<times> nat \<times> nat \<Rightarrow> string \<times> nat \<times> nat" where
  "append_preview [] st = st"
| "append_preview (c # cs) (p, remaining, count) =
     (if remaining = 0 \<or> 140 \<le> count then (p, remaining, count)
      else if is_whitespace c
      then append_preview cs
        (if p \<noteq> [] \<and> last p \<noteq> CHR '' '' then (p @ '' '', remaining - 1, count + 1)
         else (p, remaining - 1, count))
      else append_preview cs (p @ [c], remaining - 1, count + 1))"

fun preview_blocks :: "'f content list \<Rightarrow> string \<times> nat \<times> nat \<Rightarrow> string \<times> nat \<times> nat" where
  "preview_blocks [] st = st"
| "preview_blocks (b # bs) st =
     (case b of
        Content_Text t \<Rightarrow> preview_blocks bs (append_preview '' '' (append_preview (tx_text t) st))
      | _ \<Rightarrow> preview_blocks bs st)"

fun is_image :: "'f content \<Rightarrow> bool" where
  "is_image (Content_Image _) = True"
| "is_image _ = False"

fun preview :: "'f user_content \<Rightarrow> string \<times> bool" where
  "preview (UserContent_Text t) = (trim_end (fst (append_preview t ([], 2048, 0))), False)"
| "preview (UserContent_Blocks bs) =
     (trim_end (fst (preview_blocks bs ([], 2048, 0))), list_ex is_image bs)"

record message_summary =
  sm_entry_id :: string
  sm_role :: string
  sm_preview :: string
  sm_timestamp :: i64
  sm_has_images :: bool

record message_summary_page =
  sp_filtered :: bool
  sp_role :: string
  sp_messages :: "message_summary list"
  sp_first_id :: "string option"
  sp_last_id :: "string option"
  sp_next_before_id :: "string option"
  sp_has_more :: bool
  sp_leaf_id :: "string option"

record 'f message_window_page =
  wp_entries :: "'f entry list"
  wp_first_id :: "string option"
  wp_last_id :: "string option"
  wp_next_before_id :: "string option"
  wp_next_after_id :: "string option"
  wp_has_more_before :: bool
  wp_has_more_after :: bool
  wp_leaf_id :: "string option"

text \<open>\<open>unreachable!\<close> is \<open>Index_Panic\<close>.\<close>

definition summary_of :: "'f entry \<Rightarrow> session_error + message_summary" where
  "summary_of e =
     (case entry_as_message e of
        Some (AgentMessage_User u) \<Rightarrow>
          Inr \<lparr>sm_entry_id = entry_id e, sm_role = ''user'', sm_preview = fst (preview (um_content u)),
               sm_timestamp = um_timestamp u, sm_has_images = snd (preview (um_content u))\<rparr>
      | _ \<Rightarrow> Inl Index_Panic)"

fun map_res :: "('a \<Rightarrow> 'e + 'b) \<Rightarrow> 'a list \<Rightarrow> 'e + 'b list" where
  "map_res f [] = Inr []"
| "map_res f (x # xs) = res_bind (f x) (\<lambda>y. res_bind (map_res f xs) (\<lambda>ys. Inr (y # ys)))"

definition message_summaries ::
  "'f session_state \<Rightarrow> string \<Rightarrow> message_summary_query \<Rightarrow> message_summary_page loop" where
  "message_summaries s lane q =
     loop_bind (select_message_summaries s lane q) (\<lambda>sel.
     loop_bind (Some (map_res (\<lambda>k. res_bind (slice_get (ix_entries s) k) summary_of) (ss_indices sel))) (\<lambda>msgs.
     (let first = (if msgs = [] then None else Some (sm_entry_id (hd msgs)));
          final = (if msgs = [] then None else Some (sm_entry_id (last msgs)))
      in Some (Inr \<lparr>sp_filtered = True, sp_role = ''user'', sp_messages = msgs, sp_first_id = first,
           sp_last_id = final, sp_next_before_id = (if ss_has_more sel then first else None),
           sp_has_more = ss_has_more sel,
           sp_leaf_id = map_option (\<lambda>k. entry_id (ix_entries s ! k)) (ss_leaf sel)\<rparr>))))"

definition message_window ::
  "'f session_state \<Rightarrow> string \<Rightarrow> message_window_query \<Rightarrow> 'f message_window_page loop" where
  "message_window s lane q =
     loop_bind (select_message_window s lane q) (\<lambda>sel.
     loop_bind (Some (map_res (slice_get (ix_entries s)) (ws_indices sel))) (\<lambda>es.
     (let first = (if es = [] then None else Some (entry_id (hd es)));
          final = (if es = [] then None else Some (entry_id (last es)));
          before = (ws_has_more_before sel \<and> es \<noteq> []);
          after = (ws_has_more_after sel \<and> es \<noteq> [])
      in Some (Inr \<lparr>wp_entries = es, wp_first_id = first, wp_last_id = final,
           wp_next_before_id = (if before then first else None),
           wp_next_after_id = (if after then final else None),
           wp_has_more_before = before, wp_has_more_after = after,
           wp_leaf_id = map_option (\<lambda>k. entry_id (ix_entries s ! k)) (ws_leaf sel)\<rparr>))))"

text \<open>Previews are short, start with text and never hold two blanks in a row.\<close>

definition tidy :: "string \<Rightarrow> bool" where
  "tidy p \<longleftrightarrow> (p \<noteq> [] \<longrightarrow> \<not> is_whitespace (hd p))
     \<and> (\<forall>i. Suc i < length p \<longrightarrow> \<not> (is_whitespace (p ! i) \<and> is_whitespace (p ! Suc i)))
     \<and> (\<forall>c \<in> set p. is_whitespace c \<longrightarrow> c = CHR '' '')"

lemma tidy_snoc:
  assumes "tidy p" and "is_whitespace c \<longrightarrow> p \<noteq> [] \<and> \<not> is_whitespace (last p) \<and> c = CHR '' ''"
  shows "tidy (p @ [c])"
proof -
  have "\<not> (is_whitespace ((p @ [c]) ! i) \<and> is_whitespace ((p @ [c]) ! Suc i))"
    if i: "Suc i < length (p @ [c])" for i
  proof (cases "Suc i < length p")
    case True
    with assms(1) show ?thesis by (simp add: tidy_def nth_append)
  next
    case False
    with i have "Suc i = length p" by simp
    then have "(p @ [c]) ! i = last p" "(p @ [c]) ! Suc i = c"
      by (cases p rule: rev_cases; simp add: nth_append)+
    with assms(2) show ?thesis by auto
  qed
  with assms show ?thesis by (auto simp: tidy_def hd_append)
qed

lemma append_preview_tidy:
  "tidy p \<Longrightarrow> length p = count \<Longrightarrow> count \<le> 140 \<Longrightarrow>
     append_preview cs (p, remaining, count) = (p', remaining', count') \<Longrightarrow>
     tidy p' \<and> length p' = count' \<and> count' \<le> 140"
proof (induction cs arbitrary: p remaining count)
  case (Cons c cs)
  have step: "append_preview (c # cs) (p, remaining, count) =
     (if remaining = 0 \<or> 140 \<le> count then (p, remaining, count)
      else if is_whitespace c \<and> p \<noteq> [] \<and> last p \<noteq> CHR '' ''
      then append_preview cs (p @ '' '', remaining - 1, count + 1)
      else if is_whitespace c then append_preview cs (p, remaining - 1, count)
      else append_preview cs (p @ [c], remaining - 1, count + 1))"
    by simp
  have push: "tidy p' \<and> length p' = count' \<and> count' \<le> 140"
    if "append_preview cs (p @ [x], remaining - 1, count + 1) = (p', remaining', count')"
      "is_whitespace x \<longrightarrow> p \<noteq> [] \<and> last p \<noteq> CHR '' '' \<and> x = CHR '' ''" "count < 140" for x
  proof (rule Cons.IH [OF _ _ _ that(1)])
    have "\<not> is_whitespace (last p)" if "p \<noteq> []" "last p \<noteq> CHR '' ''"
      using that Cons.prems(1) by (auto simp: tidy_def)
    with that(2) Cons.prems(1) show "tidy (p @ [x])" by (intro tidy_snoc) auto
  qed (use Cons.prems that(3) in simp_all)
  consider "remaining = 0 \<or> 140 \<le> count" | "count < 140" "remaining \<noteq> 0" "is_whitespace c" "p \<noteq> [] \<and> last p \<noteq> CHR '' ''"
    | "count < 140" "remaining \<noteq> 0" "is_whitespace c" "\<not> (p \<noteq> [] \<and> last p \<noteq> CHR '' '')"
    | "count < 140" "remaining \<noteq> 0" "\<not> is_whitespace c" by fastforce
  then show ?case
  proof cases
    case 1
    with Cons.prems show ?thesis unfolding step by auto
  next
    case 2
    with Cons.prems(4) push [of "CHR '' ''"] show ?thesis unfolding step by simp
  next
    case 3
    with Cons.prems(4) Cons.IH [OF Cons.prems(1-3), of "remaining - 1"] show ?thesis
      unfolding step by auto
  next
    case 4
    with Cons.prems(4) push [of c] show ?thesis unfolding step by simp
  qed
qed simp

lemma preview_blocks_tidy:
  "tidy p \<Longrightarrow> length p = count \<Longrightarrow> count \<le> 140 \<Longrightarrow>
     preview_blocks bs (p, remaining, count) = (p', remaining', count') \<Longrightarrow>
     tidy p' \<and> length p' = count' \<and> count' \<le> 140"
proof (induction bs arbitrary: p remaining count)
  case (Cons b bs)
  show ?case
  proof (cases b)
    case (Content_Text t)
    obtain p1 r1 c1 where 1: "append_preview (tx_text t) (p, remaining, count) = (p1, r1, c1)"
      by (cases "append_preview (tx_text t) (p, remaining, count)")
    obtain p2 r2 c2 where 2: "append_preview '' '' (p1, r1, c1) = (p2, r2, c2)"
      by (cases "append_preview '' '' (p1, r1, c1)")
    have "tidy p1 \<and> length p1 = c1 \<and> c1 \<le> 140"
      by (rule append_preview_tidy [OF Cons.prems(1-3) 1])
    with append_preview_tidy [OF _ _ _ 2] have "tidy p2 \<and> length p2 = c2 \<and> c2 \<le> 140" by blast
    moreover have "preview_blocks bs (p2, r2, c2) = (p', remaining', count')"
      using Cons.prems(4) by (simp add: Content_Text 1 2 del: append_preview.simps)
    ultimately show ?thesis using Cons.IH by blast
  qed (use Cons in simp_all)
qed simp

lemma tidy_prefix: "tidy (p @ ws) \<Longrightarrow> tidy p"
proof -
  assume t: "tidy (p @ ws)"
  have "\<not> (is_whitespace (p ! i) \<and> is_whitespace (p ! Suc i))" if "Suc i < length p" for i
  proof -
    have "Suc i < length (p @ ws)" using that by simp
    with t have "\<not> (is_whitespace ((p @ ws) ! i) \<and> is_whitespace ((p @ ws) ! Suc i))"
      unfolding tidy_def by blast
    with that show ?thesis by (simp add: nth_append)
  qed
  with t show ?thesis by (auto simp: tidy_def hd_append)
qed

lemma preview_tidy:
  "tidy (fst (preview u)) \<and> length (fst (preview u)) \<le> 140
     \<and> (fst (preview u) \<noteq> [] \<longrightarrow> \<not> is_whitespace (last (fst (preview u))))"
proof -
  have trim: "tidy (trim_end p) \<and> length (trim_end p) \<le> 140
      \<and> (trim_end p \<noteq> [] \<longrightarrow> \<not> is_whitespace (last (trim_end p)))" if "tidy p" "length p \<le> 140" for p
    using trim_end_append [of p] that tidy_prefix by (metis le_add1 le_trans length_append)
  have nil: "tidy []" by (simp add: tidy_def)
  show ?thesis
  proof (cases u)
    case (UserContent_Text t)
    then show ?thesis
      using append_preview_tidy [OF nil, of 0 t 2048] trim
      by (cases "append_preview t ([], 2048, 0)") auto
  next
    case (UserContent_Blocks bs)
    then show ?thesis
      using preview_blocks_tidy [OF nil, of 0 bs 2048] trim
      by (cases "preview_blocks bs ([], 2048, 0)") auto
  qed
qed

subsection \<open>Every read returns\<close>

definition returns :: "('a \<Rightarrow> bool) \<Rightarrow> 'a loop \<Rightarrow> bool" where
  "returns Q l \<longleftrightarrow> (\<exists>r. l = Some r \<and> r \<noteq> Inl Index_Panic \<and> (\<forall>x. r = Inr x \<longrightarrow> Q x))"

lemma returns_bind:
  "returns Q l \<Longrightarrow> (\<And>x. Q x \<Longrightarrow> returns R (f x)) \<Longrightarrow> returns R (loop_bind l f)"
proof -
  assume l: "returns Q l" and f: "\<And>x. Q x \<Longrightarrow> returns R (f x)"
  from l obtain r where r: "l = Some r" "r \<noteq> Inl Index_Panic" "\<forall>x. r = Inr x \<longrightarrow> Q x"
    by (auto simp: returns_def)
  with f show ?thesis by (cases r) (auto simp: returns_def)
qed

lemma returns_res: "r \<noteq> Inl Index_Panic \<Longrightarrow> (\<And>x. r = Inr x \<Longrightarrow> Q x) \<Longrightarrow> returns Q (Some r)"
  by (auto simp: returns_def)

lemma returns_simps [simp]:
  "returns Q (Some (Inr x)) \<longleftrightarrow> Q x" "returns Q (Some (Inl e)) \<longleftrightarrow> e \<noteq> Index_Panic"
  by (auto simp: returns_def)

lemma returns_query_leaf: "wf_table s \<Longrightarrow> returns (known s) (query_leaf s lane requested)"
  using query_leaf_returns [of s lane requested] by (auto simp: returns_def)

lemma summary_start_returns:
  assumes wf: "wf_table s" "wf_users s" and leaf: "known s leaf"
  shows "returns (\<lambda>n. \<exists>nx. known s nx \<and> n = head_of (users_of s nx))
     (summary_start s before (head_of (users_of s leaf)))"
proof (cases before)
  case None
  with leaf show ?thesis by (auto simp: summary_start_def intro: returns_res)
next
  case (Some b)
  show ?thesis
  proof (cases "validate_id b = Inr () \<and> ix_entries_by_id s b \<noteq> None")
    case True
    then obtain c where c: "ix_entries_by_id s b = Some c" by blast
    then have len: "c < length (ix_metadata s)" using wf(1) unfolding wf_table_def by blast
    have "c \<in> set (users_of s leaf) \<or> c \<notin> set (users_of s leaf)" by blast
    then show ?thesis
      using True c len known_parent [OF wf(1), of c] seek_user_eq [OF wf leaf refl, of c]
      by (auto simp: Some summary_start_def previous_user_eq [OF wf] returns_def ensure_def)
  next
    case False
    then show ?thesis
      by (auto simp: Some summary_start_def returns_def validate_id_def ensure_def)
  qed
qed

lemma users_of_user: "k \<in> set (users_of s nx) \<Longrightarrow> meta_is_user (ix_metadata s ! k)"
  by (simp add: users_of_def)

lemma select_summaries_returns:
  assumes wf: "wf_table s" "wf_users s"
  shows "returns (\<lambda>sel. \<forall>k \<in> set (ss_indices sel). k < length (ix_metadata s) \<and> meta_is_user (ix_metadata s ! k))
     (select_message_summaries s lane q)"
  unfolding select_message_summaries_def
proof (intro returns_bind [where Q = "\<lambda>_. True", OF returns_res], goal_cases)
  case (5 _ _)
  show ?case
  proof (rule returns_bind [OF returns_query_leaf [OF wf(1)]], goal_cases)
    case (1 leaf)
    have near: "(case leaf of None \<Rightarrow> Inr None | Some k \<Rightarrow> slice_get (ix_nearest_user s) k)
        = Inr (head_of (users_of s leaf))"
      using 1 by (cases leaf) (simp_all add: nearest_ok [OF wf] users_of_def)
    show ?case
      unfolding near loop_bind.simps
    proof (rule returns_bind [OF summary_start_returns [OF wf 1]], elim exE conjE, goal_cases)
      case (1 n nx)
      have "k < length (ix_metadata s) \<and> meta_is_user (ix_metadata s ! k)" if "k \<in> set (users_of s nx)" for k
        using that chain_known [OF wf(1) 1(1)] by (auto simp: users_of_def)
      then show ?case
        using take_users_eq [OF wf 1(1) refl, of "[]" "sq_limit q"]
        by (auto simp: 1(2) returns_def dest: in_set_takeD)
    qed
  qed
qed (auto simp: validate_message_limit_def ensure_def)

lemma map_res_ok: "(\<And>x. x \<in> set xs \<Longrightarrow> \<exists>y. f x = Inr y) \<Longrightarrow> \<exists>ys. map_res f xs = Inr ys"
  by (induction xs) fastforce+

lemma message_summaries_returns:
  assumes wf: "session_wf s"
  shows "returns (\<lambda>_. True) (message_summaries s lane q)"
  unfolding message_summaries_def
proof (rule returns_bind [OF select_summaries_returns [OF session_wfD(3,4) [OF wf]]], goal_cases)
  case (1 sel)
  have "\<exists>y. res_bind (slice_get (ix_entries s) k) summary_of = Inr y" if "k \<in> set (ss_indices sel)" for k
  proof -
    have "meta_is_user (entry_meta_of (ix_entries s ! k))" "k < length (ix_entries s)"
      using that 1 session_wfD(2) [OF wf] by auto
    then show ?thesis by (auto simp: meta_is_user_iff slice_get_def summary_of_def)
  qed
  then have "\<exists>ys. map_res (\<lambda>k. res_bind (slice_get (ix_entries s) k) summary_of) (ss_indices sel) = Inr ys"
    by (rule map_res_ok)
  then show ?case by (auto simp: returns_def Let_def)
qed

lemma collect_newer_returns:
  assumes wf: "wf_table s" and "known s next"
  shows "\<forall>newer discarded. (\<forall>k \<in> set newer. k < length (ix_metadata s)) \<longrightarrow>
    returns (\<lambda>(a, ks, d, up). known s a \<and> known s up \<and> (\<forall>k \<in> set ks. k < length (ix_metadata s)))
      (collect_newer s limit c newer discarded next)"
  using assms
proof (induction "next" rule: chain_induct)
  case None
  then show ?case by (simp add: collect_newer.simps returns_def)
next
  case (Some k)
  show ?case
  proof (intro allI impI)
    fix newer :: "nat list" and discarded
    assume newer: "\<forall>k \<in> set newer. k < length (ix_metadata s)"
    have "set (tl (newer @ [k])) \<subseteq> set (newer @ [k])" by (cases newer) auto
    then have all: "\<forall>k \<in> set (newer @ [k]). k < length (ix_metadata s)"
      "\<forall>k \<in> set (tl (newer @ [k])). k < length (ix_metadata s)"
      using Some(1) newer by auto
    show "returns (\<lambda>(a, ks, d, up). known s a \<and> known s up \<and> (\<forall>k \<in> set ks. k < length (ix_metadata s)))
        (collect_newer s limit c newer discarded (Some k))"
      using Some newer all known_parent [OF wf, of k]
      by (subst collect_newer.simps) (simp add: Let_def flip: parent_index_def)
  qed
qed

lemma choose_window_set:
  assumes "choose_window q a newer discarded older = (selected, before, after)"
  shows "set selected \<subseteq> insert a (set newer \<union> set older)"
proof -
  have take: "set (take n newer) \<subseteq> set newer" "set (rev (take n older)) \<subseteq> set older" for n
    by (simp_all add: set_take_subset)
  have "selected \<in> {rev (take n older) | n. True} \<union> {take n newer | n. True}
      \<union> {rev (take n older) @ [a] @ take m newer | n m. True}"
    using assms unfolding choose_window_def Let_def by (simp split: if_splits) blast+
  then show ?thesis using take by fastforce
qed

lemma window_cursor_no_panic: "window_cursor q \<noteq> Inl Index_Panic"
  by (auto simp: window_cursor_def Let_def res_bind_Inl_iff)

lemma select_window_returns:
  assumes wf: "wf_table s"
  shows "returns (\<lambda>sel. \<forall>k \<in> set (ws_indices sel). k < length (ix_metadata s)) (select_message_window s lane q)"
  unfolding select_message_window_def
proof (intro returns_bind [where Q = "\<lambda>_. True", OF returns_res], goal_cases)
  case (7 _ cursor _)
  show ?case
  proof (rule returns_bind [OF returns_query_leaf [OF wf]], goal_cases)
    case (1 leaf)
    have "returns (\<lambda>(a, ks, d, up). known s a \<and> known s up \<and> (\<forall>k \<in> set ks. k < length (ix_metadata s)))
        (collect_newer s (wq_limit q) cursor [] False leaf)"
      using collect_newer_returns [OF wf 1] by simp
    then show ?case
    proof (rule returns_bind, clarify, goal_cases)
      case (1 a ks d up)
      have up: "known s up" using 1 by blast
      have older: "collect_older s (wq_limit q) [] up = Some (Inr (take (wq_limit q + 1) (transcript_of s up)))"
        using collect_older_eq [OF wf up, of "wq_limit q"] by simp
      have bound: "k < length (ix_metadata s)" if "k \<in> set (take (wq_limit q + 1) (transcript_of s up))" for k
        using that transcript_index [OF wf up] by (auto dest: in_set_takeD)
      show ?case
      proof (cases a)
        case None
        then show ?thesis by (simp add: returns_def)
      next
        case (Some k)
        obtain selected before after where choice:
          "choose_window q k (rev ks) d (take (wq_limit q + 1) (transcript_of s up)) = (selected, before, after)"
          by (cases "choose_window q k (rev ks) d (take (wq_limit q + 1) (transcript_of s up))")
        have "\<forall>k \<in> set selected. k < length (ix_metadata s)"
          using choose_window_set [OF choice] 1 bound Some by auto
        then show ?thesis using older choice by (simp add: Some returns_def)
      qed
    qed
  qed
qed (auto simp: validate_message_limit_def ensure_def validate_id_def window_cursor_no_panic)

lemma message_window_returns:
  assumes wf: "session_wf s"
  shows "returns (\<lambda>_. True) (message_window s lane q)"
  unfolding message_window_def
proof (rule returns_bind [OF select_window_returns [OF session_wfD(3) [OF wf]]], goal_cases)
  case (1 sel)
  have "\<exists>y. slice_get (ix_entries s) k = Inr y" if "k \<in> set (ws_indices sel)" for k
    using that 1 session_wfD(2) [OF wf] by (simp add: slice_get_def)
  then have "\<exists>ys. map_res (slice_get (ix_entries s)) (ws_indices sel) = Inr ys" by (rule map_res_ok)
  then show ?case by (auto simp: returns_def Let_def)
qed

subsection \<open>Properties of the bounded reads\<close>

text \<open>
  Every message page and message window of a reachable session returns: no loop over
  parent links runs forever, no index is out of range, and the index of user messages never
  names another entry.
\<close>

theorem reads_return:
  assumes "session_reach s"
  shows "returns (\<lambda>_. True) (message_summaries s lane sq) \<and> returns (\<lambda>_. True) (message_window s lane wq)"
  using message_summaries_returns message_window_returns reach_wf [OF assms] by auto

theorem reads_return_witness:
  "returns (\<lambda>_. True) (message_summaries demo_state ''side''
     \<lparr>sq_limit = 1, sq_role = ''user'', sq_before_id = None, sq_leaf_id = None\<rparr>)"
  using reads_return [OF demo_reach] by blast

text \<open>
  Without a cursor, a page of user messages is the newest ones of the branch, oldest
  first, and \<open>has_more\<close> says exactly whether older ones remain.
\<close>

theorem summary_page_newest:
  assumes "session_reach s" and "query_leaf s lane (sq_leaf_id q) = Some (Inr leaf)"
    and "1 \<le> sq_limit q" "sq_limit q \<le> 100" "sq_role q = ''user''" "sq_before_id q = None"
  shows "select_message_summaries s lane q =
     Some (Inr \<lparr>ss_indices = rev (take (sq_limit q) (users_of s leaf)),
                ss_has_more = (sq_limit q < length (users_of s leaf)), ss_leaf = leaf\<rparr>)"
  using assms(2-) reach_wf [OF assms(1)]
  by (intro summaries_newest) (simp_all add: session_wfD)

theorem summary_page_newest_witness:
  "select_message_summaries demo_state ''side'' \<lparr>sq_limit = 1, sq_role = ''user'', sq_before_id = None, sq_leaf_id = None\<rparr>
     = Some (Inr \<lparr>ss_indices = [2], ss_has_more = True, ss_leaf = Some 2\<rparr>)"
proof -
  have leaf: "query_leaf demo_state ''side'' None = Some (Inr (Some 2))" by code_simp
  have users: "users_of demo_state (Some 2) = [2, 0]" by code_simp
  show ?thesis
    using summary_page_newest [OF demo_reach, of "''side''"
        "\<lparr>sq_limit = 1, sq_role = ''user'', sq_before_id = None, sq_leaf_id = None\<rparr>" "Some 2"] leaf users
    by simp
qed

text \<open>
  With a cursor on the branch, the page continues right above it: the user messages of the
  branch split at the cursor, and the page is the closest older ones.
\<close>

theorem summary_page_before:
  assumes "session_reach s" and "query_leaf s lane (sq_leaf_id q) = Some (Inr leaf)"
    and "1 \<le> sq_limit q" "sq_limit q \<le> 100" "sq_role q = ''user''"
    and "sq_before_id q = Some b" "validate_id b = Inr ()" "ix_entries_by_id s b = Some c"
    and "users_of s leaf = newer @ c # older"
  shows "select_message_summaries s lane q =
     Some (Inr \<lparr>ss_indices = rev (take (sq_limit q) older), ss_has_more = (sq_limit q < length older),
                ss_leaf = leaf\<rparr>)"
  using assms(2-) reach_wf [OF assms(1)]
  by (intro summaries_before) (simp_all add: session_wfD)

theorem summary_page_before_witness:
  "select_message_summaries demo_state ''side'' \<lparr>sq_limit = 5, sq_role = ''user'', sq_before_id = Some ''d'', sq_leaf_id = None\<rparr>
     = Some (Inr \<lparr>ss_indices = [0], ss_has_more = False, ss_leaf = Some 2\<rparr>)"
proof -
  have leaf: "query_leaf demo_state ''side'' None = Some (Inr (Some 2))" by code_simp
  have users: "users_of demo_state (Some 2) = [] @ 2 # [0]" by code_simp
  have cursor: "validate_id ''d'' = Inr ()" "ix_entries_by_id demo_state ''d'' = Some 2" by code_simp+
  show ?thesis
    using summary_page_before [OF demo_reach, of "''side''"
        "\<lparr>sq_limit = 5, sq_role = ''user'', sq_before_id = Some ''d'', sq_leaf_id = None\<rparr>" "Some 2" "''d''" 2 "[]" "[0]"]
      leaf users cursor
    by simp
qed

text \<open>
  C30. A window around an anchor is one contiguous slice of the branch's transcript that contains the anchor,
  and its bounds are fixed: a third of the limit, rounded down, is set aside for older messages as far as there are
  any, the newer messages take as many of the other places beside the anchor as they need, and the
  older ones what those leave. So the window holds as many messages as the limit and the transcript
  allow, and the two flags say exactly whether messages remain on either side.
\<close>

theorem window_is_slice:
  assumes "session_reach s" and "query_leaf s lane (wq_leaf_id q) = Some (Inr leaf)"
    and "1 \<le> wq_limit q" "wq_limit q \<le> 100"
    and "wq_anchor_id q = Some c" "wq_before_id q = None" "wq_after_id q = None" "validate_id c = Inr ()"
    and "transcript_of s leaf = newer @ a # older" and "em_id (ix_metadata s ! a) = c"
    and "f = min (length newer) (wq_limit q - 1 - min (length older) (wq_limit q div 3))"
    and "b = min (length older) (wq_limit q - 1 - f)"
  shows "select_message_window s lane q =
       Some (Inr \<lparr>ws_indices = rev (take b older) @ [a] @ take f (rev newer),
                  ws_has_more_before = (b < length older), ws_has_more_after = (f < length newer),
                  ws_leaf = leaf\<rparr>)
     \<and> b + f + 1 = min (wq_limit q) (length (transcript_of s leaf))
     \<and> min (length older) (wq_limit q div 3) \<le> b"
proof -
  have cursor: "window_cursor q = Inr c" using assms(5-7) by (simp add: window_cursor_def)
  note choice = window_around [OF assms(6,7,3,11,12), of a]
  from select_window_eq [OF session_wfD(3) [OF reach_wf [OF assms(1)]] assms(2-4) cursor assms(8-10) conjunct1 [OF choice]]
    choice show ?thesis by (simp add: assms(9))
qed

theorem window_is_slice_witness:
  "select_message_window demo_state ''side'' \<lparr>wq_limit = 2, wq_anchor_id = Some ''d'', wq_before_id = None,
       wq_after_id = None, wq_leaf_id = None\<rparr> =
     Some (Inr \<lparr>ws_indices = [0, 2], ws_has_more_before = False, ws_has_more_after = False, ws_leaf = Some 2\<rparr>)"
proof -
  have leaf: "query_leaf demo_state ''side'' None = Some (Inr (Some 2))" by code_simp
  have tr: "transcript_of demo_state (Some 2) = [] @ 2 # [0]" by code_simp
  have cursor: "validate_id ''d'' = Inr ()" "em_id (ix_metadata demo_state ! 2) = ''d''" by code_simp+
  show ?thesis
    using window_is_slice [OF demo_reach, of "''side''"
        "\<lparr>wq_limit = 2, wq_anchor_id = Some ''d'', wq_before_id = None, wq_after_id = None, wq_leaf_id = None\<rparr>"
        "Some 2" "''d''" "[]" 2 "[0]" 0 1] leaf tr cursor
    by simp
qed

text \<open>
  A message preview has at most 140 characters, neither starts nor ends with white space,
  and holds no two blanks in a row.
\<close>

theorem preview_is_tidy:
  "tidy (fst (preview u)) \<and> length (fst (preview u)) \<le> 140
     \<and> (fst (preview u) \<noteq> [] \<longrightarrow> \<not> is_whitespace (last (fst (preview u))))"
  by (rule preview_tidy)

theorem preview_is_tidy_witness:
  "fst (preview (UserContent_Text ''  hi   there '' :: int user_content)) \<noteq> []
     \<and> \<not> is_whitespace (last (fst (preview (UserContent_Text ''  hi   there '' :: int user_content))))"
proof -
  have "fst (preview (UserContent_Text ''  hi   there '' :: int user_content)) \<noteq> []" by code_simp
  then show ?thesis using preview_is_tidy [of "UserContent_Text ''  hi   there '' :: int user_content"] by blast
qed

end
