(* ===== verification/Record_Log.thy ===== *)
theory Record_Log
  imports Session_Demo "HOL-Library.Multiset"
begin

text \<open>
  \<open>crates/evo-harness/src/session/reducer.rs\<close>: the validator that accepts a lane's
  recovery slice or names the first contradiction. The loop keeps six tables while it walks
  the records in sequence order; the specification \<open>legal_record\<close> states the same
  rules on the list of earlier records, without tables.
\<close>

subsection \<open>Corruption\<close>

datatype corruption_reason =
    MultipleOpenOperations | UnknownOperation | RecordAfterFinish | NonConsecutiveAttempt
  | InvalidCompactionReason | QueueAfterAbort | InvalidQueueCancellation | InconsistentStep
  | ToolCallMismatch | DuplicateToolInvocation | ProvisionedEntryMismatch | InvalidDeferredHandle

record record_log_corruption =
  rc_reason :: corruption_reason
  rc_message :: string

definition corrupt :: "corruption_reason \<Rightarrow> string \<Rightarrow> record_log_corruption" where
  "corrupt r m = \<lparr>rc_reason = r, rc_message = m\<rparr>"

record 'f record_log_slice =
  sl_lane :: string
  sl_open_operations :: "'f operation_started list"
  sl_records :: "'f lane_record list"
  sl_entries :: "'f entry list"

type_synonym 'f entry_table = "string \<rightharpoonup> 'f entry"

definition entries_table :: "'f entry list \<Rightarrow> 'f entry_table" where
  "entries_table es = map_of (rev (map (\<lambda>e. (entry_id e, e)) es))"

subsection \<open>Provisioned entries\<close>

definition entry_provisioned_json :: "'f serializers \<Rightarrow> 'f entry \<Rightarrow> 'f json" where
  "entry_provisioned_json S e =
     json_remove ''timestamp'' (json_remove ''parentId'' (json_remove ''seq'' (to_flat_json S e)))"

definition matches_provisioned_entry :: "'f serializers \<Rightarrow> 'f entry \<Rightarrow> 'f json \<Rightarrow> bool" where
  "matches_provisioned_entry S e target \<longleftrightarrow> entry_provisioned_json S e = target"

definition provisioned_id :: "'f json \<Rightarrow> string option" where
  "provisioned_id target = Option.bind (json_get ''id'' target) json_as_str"

definition validate_exact_provisioned_entry ::
  "'f serializers \<Rightarrow> 'f entry_table \<Rightarrow> 'f json \<Rightarrow> record_log_corruption + unit" where
  "validate_exact_provisioned_entry S tab target =
     (case provisioned_id target of
        None \<Rightarrow> Inr ()
      | Some i \<Rightarrow>
          (case tab i of
             None \<Rightarrow> Inr ()
           | Some e \<Rightarrow>
               ensure (matches_provisioned_entry S e target)
                 (corrupt ProvisionedEntryMismatch
                   (''Provisioned entry '' @ i @ '' exists with content different from its intent''))))"

definition validate_result_entry ::
  "'f entry_table \<Rightarrow> string \<Rightarrow> ('f entry \<Rightarrow> bool) \<Rightarrow> string \<Rightarrow> record_log_corruption + unit" where
  "validate_result_entry tab i ok description =
     (case tab i of
        None \<Rightarrow> Inr ()
      | Some e \<Rightarrow>
          ensure (ok e)
            (corrupt ProvisionedEntryMismatch
              (''Provisioned '' @ description @ '' entry '' @ i @ '' exists with different content'')))"

subsection \<open>Steps\<close>

fun step_debug :: "step_kind \<Rightarrow> string" where
  "step_debug Step_Assistant = ''Assistant''"
| "step_debug Step_BranchSummary = ''BranchSummary''"
| "step_debug Step_Compaction = ''Compaction''"

definition validate_attempt_reason :: "step_attempt \<Rightarrow> record_log_corruption + unit" where
  "validate_attempt_reason r =
     (case sa_step r of
        Step_Compaction \<Rightarrow>
          ensure (sa_compaction_reason r \<noteq> None)
            (corrupt InvalidCompactionReason
              (''Compaction attempt '' @ rb_id (sa_base r) @ '' has no valid compaction reason''))
      | _ \<Rightarrow>
          ensure (sa_compaction_reason r = None)
            (corrupt InvalidCompactionReason
              (step_debug (sa_step r) @ '' attempt '' @ rb_id (sa_base r) @ '' has a compaction reason'')))"

definition continues_series :: "'f entry_table \<Rightarrow> step_attempt option \<Rightarrow> step_attempt \<Rightarrow> bool" where
  "continues_series tab previous r =
     (case previous of
        None \<Rightarrow> False
      | Some p \<Rightarrow>
          sa_step p = sa_step r
          \<and> (case tab (sa_result_entry_id p) of
               None \<Rightarrow> True
             | Some e \<Rightarrow> entry_seq e \<ge> rb_seq (sa_base r)))"

definition expected_attempt :: "'f entry_table \<Rightarrow> step_attempt option \<Rightarrow> step_attempt \<Rightarrow> u32" where
  "expected_attempt tab previous r =
     (if continues_series tab previous r then sa_attempt (the previous) + 1 else 1)"

definition validate_attempt_sequence ::
  "'f entry_table \<Rightarrow> step_attempt option \<Rightarrow> step_attempt \<Rightarrow> record_log_corruption + unit" where
  "validate_attempt_sequence tab previous r =
     res_bind (ensure (sa_attempt r = expected_attempt tab previous r)
       (corrupt NonConsecutiveAttempt
         (step_debug (sa_step r) @ '' attempt '' @ rb_id (sa_base r) @ '' is '' @ show_nat (unat (sa_attempt r))
            @ ''; expected '' @ show_nat (unat (expected_attempt tab previous r))))) (\<lambda>_.
     (if \<not> continues_series tab previous r \<or> sa_step r = Step_Assistant then Inr ()
      else
        res_bind (ensure (sa_result_entry_id r = sa_result_entry_id (the previous))
          (corrupt InconsistentStep
            (step_debug (sa_step r) @ '' attempts disagree on their result entry id''))) (\<lambda>_.
        ensure (sa_compaction_reason r = sa_compaction_reason (the previous))
          (corrupt InconsistentStep
            (step_debug (sa_step r) @ '' attempts disagree on their compaction reason'')))))"

fun is_assistant_entry :: "'f entry \<Rightarrow> bool" where
  "is_assistant_entry (Entry_Message m) = is_assistant (me_message m)"
| "is_assistant_entry _ = False"

definition validate_attempt_result ::
  "'f entry_table \<Rightarrow> step_attempt \<Rightarrow> record_log_corruption + unit" where
  "validate_attempt_result tab r =
     (case sa_step r of
        Step_Assistant \<Rightarrow> validate_result_entry tab (sa_result_entry_id r) is_assistant_entry ''assistant result''
      | Step_Compaction \<Rightarrow> validate_result_entry tab (sa_result_entry_id r) is_compaction ''compaction result''
      | Step_BranchSummary \<Rightarrow>
          validate_result_entry tab (sa_result_entry_id r) is_branch_summary ''branch-summary result'')"

subsection \<open>Tools, deferred handles, operations\<close>

definition invocation_key :: "'f tool_started \<Rightarrow> string" where
  "invocation_key t = ts_assistant_entry_id t @ [CHR 0x00] @ show_nat (ts_tool_index t)"

definition nth_opt :: "'a list \<Rightarrow> nat \<Rightarrow> 'a option" where
  "nth_opt xs n = (if n < length xs then Some (xs ! n) else None)"

definition tool_call_at :: "'f entry option \<Rightarrow> nat \<Rightarrow> 'f tool_call option" where
  "tool_call_at e n =
     (case e of
        Some (Entry_Message m) \<Rightarrow>
          (case me_message m of
             AgentMessage_Assistant a \<Rightarrow> nth_opt (tool_calls_of (am_content a)) n
           | _ \<Rightarrow> None)
      | _ \<Rightarrow> None)"

definition matches_ordinal :: "'f entry_table \<Rightarrow> 'f tool_started \<Rightarrow> bool" where
  "matches_ordinal tab t =
     (case tool_call_at (tab (ts_assistant_entry_id t)) (ts_tool_index t) of
        None \<Rightarrow> False
      | Some c \<Rightarrow> tcall_id c = ts_tool_call_id t \<and> tcall_name c = ts_tool_name t)"

fun is_tool_result_for :: "string \<Rightarrow> string \<Rightarrow> 'f entry \<Rightarrow> bool" where
  "is_tool_result_for i n (Entry_Message m) =
     (case me_message m of
        AgentMessage_ToolResult r \<Rightarrow> tr_tool_call_id r = i \<and> tr_tool_name r = n
      | _ \<Rightarrow> False)"
| "is_tool_result_for i n _ = False"

definition validate_tool_start ::
  "'f entry_table \<Rightarrow> string set \<Rightarrow> 'f tool_started \<Rightarrow> record_log_corruption + string set" where
  "validate_tool_start tab invocations t =
     res_bind (ensure (invocation_key t \<notin> invocations)
       (corrupt DuplicateToolInvocation
         (''Tool invocation '' @ ts_assistant_entry_id t @ '':'' @ show_nat (ts_tool_index t) @ '' is duplicated''))) (\<lambda>_.
     res_bind (ensure (matches_ordinal tab t)
       (corrupt ToolCallMismatch
         (''Tool start '' @ rb_id (ts_base t) @ '' does not match its assistant tool-call ordinal''))) (\<lambda>_.
     res_bind (validate_result_entry tab (ts_result_entry_id t)
       (is_tool_result_for (ts_tool_call_id t) (ts_tool_name t)) ''tool result'') (\<lambda>_.
     Inr (insert (invocation_key t) invocations))))"

definition deferred_without_handle :: "'f entry \<Rightarrow> bool" where
  "deferred_without_handle e =
     (case entry_as_message e of
        Some (AgentMessage_Assistant a) \<Rightarrow> am_stop_reason a = StopReason_Deferred \<and> am_deferred a = None
      | _ \<Rightarrow> False)"

fun validate_deferred_handles :: "'f entry list \<Rightarrow> record_log_corruption + unit" where
  "validate_deferred_handles [] = Inr ()"
| "validate_deferred_handles (e # es) =
     (if deferred_without_handle e
      then Inl (corrupt InvalidDeferredHandle
        (''Deferred assistant entry '' @ entry_id e @ '' does not carry a handle''))
      else validate_deferred_handles es)"

fun validate_all :: "('a \<Rightarrow> 'e + unit) \<Rightarrow> 'a list \<Rightarrow> 'e + unit" where
  "validate_all f [] = Inr ()"
| "validate_all f (x # xs) = res_bind (f x) (\<lambda>_. validate_all f xs)"

definition validate_operation_result ::
  "'f serializers \<Rightarrow> 'f entry_table \<Rightarrow> 'f operation_started \<Rightarrow> record_log_corruption + unit" where
  "validate_operation_result S tab st =
     (case os_intent st of
        Intent_Run prompt initial override resume \<Rightarrow>
          validate_all (validate_exact_provisioned_entry S tab) initial
      | Intent_Compaction instr i \<Rightarrow> validate_result_entry tab i is_compaction ''manual compaction''
      | Intent_Navigation target summarize instr label summary \<Rightarrow>
          (case summary of
             None \<Rightarrow> Inr ()
           | Some i \<Rightarrow> validate_result_entry tab i is_branch_summary ''navigation summary''))"

subsection \<open>The validator\<close>

record 'f validator =
  va_starts :: "string \<rightharpoonup> 'f operation_started"
  va_finished_at :: "string \<rightharpoonup> nat"
  va_aborted_at :: "string \<rightharpoonup> nat"
  va_queue_enqueues :: "string \<rightharpoonup> 'f queue_enqueued"
  va_latest_attempt :: "string \<rightharpoonup> step_attempt"
  va_tool_invocations :: "string set"

definition validator_new :: "'f validator" where
  "validator_new =
     \<lparr>va_starts = Map.empty, va_finished_at = Map.empty, va_aborted_at = Map.empty,
      va_queue_enqueues = Map.empty, va_latest_attempt = Map.empty, va_tool_invocations = {}\<rparr>"

fun is_queue_cancelled :: "'f lane_record \<Rightarrow> bool" where
  "is_queue_cancelled (Rec_QueueCancelled _) = True"
| "is_queue_cancelled _ = False"

definition check_run ::
  "'f validator \<Rightarrow> 'f lane_record \<Rightarrow> record_log_corruption + unit" where
  "check_run v r =
     (case record_run_id r of
        None \<Rightarrow> Inr ()
      | Some run \<Rightarrow>
          res_bind (ensure (va_starts v run \<noteq> None)
            (corrupt UnknownOperation
              (''Record '' @ record_id r @ '' references unknown operation '' @ run))) (\<lambda>_.
          (case va_finished_at v run of
             None \<Rightarrow> Inr ()
           | Some finish \<Rightarrow>
               ensure (\<not> (record_seq r > finish \<and> \<not> is_queue_cancelled r))
                 (corrupt RecordAfterFinish
                   (''Record '' @ record_id r @ '' follows the finish of operation '' @ run)))))"

definition check_enqueue_abort ::
  "'f validator \<Rightarrow> 'f queue_enqueued \<Rightarrow> record_log_corruption + unit" where
  "check_enqueue_abort v q =
     (case Option.bind (qe_run_id q) (va_aborted_at v) of
        Some aborted \<Rightarrow>
          ensure (qe_queue q = Queue_NextRun \<or> \<not> rb_seq (qe_base q) > aborted)
            (corrupt QueueAfterAbort
              (queue_kind_str (qe_queue q) @ '' item ''
                 @ (case provisioned_id (qe_target q) of None \<Rightarrow> '''' | Some i \<Rightarrow> i) @ '' was enqueued after abort''))
      | None \<Rightarrow> Inr ())"

definition cancellation_valid :: "'f validator \<Rightarrow> 'f entry_table \<Rightarrow> queue_cancelled \<Rightarrow> bool" where
  "cancellation_valid v tab c =
     (case va_queue_enqueues v (qc_entry_id c) of
        None \<Rightarrow> False
      | Some q \<Rightarrow>
          rb_seq (qe_base q) < rb_seq (qc_base c) \<and> qe_run_id q = qc_run_id c \<and> tab (qc_entry_id c) = None)"

definition validate_record ::
  "'f serializers \<Rightarrow> 'f entry_table \<Rightarrow> 'f validator \<Rightarrow> 'f lane_record \<Rightarrow> record_log_corruption + 'f validator" where
  "validate_record S tab v r =
     (case r of
        Rec_OperationStarted st \<Rightarrow>
          res_bind (validate_operation_result S tab st) (\<lambda>_.
          Inr (v\<lparr>va_starts := (va_starts v)(rb_id (os_base st) \<mapsto> st)\<rparr>))
      | _ \<Rightarrow>
          res_bind (check_run v r) (\<lambda>_.
          (case r of
             Rec_OperationFinished f \<Rightarrow>
               Inr (v\<lparr>va_finished_at := (va_finished_at v)(of_run_id f \<mapsto> rb_seq (of_base f))\<rparr>)
           | Rec_AbortRequested a \<Rightarrow>
               Inr (v\<lparr>va_aborted_at := (va_aborted_at v)(ar_run_id a \<mapsto> rb_seq (ar_base a))\<rparr>)
           | Rec_StepAttempt a \<Rightarrow>
               res_bind (validate_attempt_reason a) (\<lambda>_.
               res_bind (validate_attempt_sequence tab (va_latest_attempt v (sa_run_id a)) a) (\<lambda>_.
               res_bind (validate_attempt_result tab a) (\<lambda>_.
               Inr (v\<lparr>va_latest_attempt := (va_latest_attempt v)(sa_run_id a \<mapsto> a)\<rparr>))))
           | Rec_ToolStarted t \<Rightarrow>
               res_bind (validate_tool_start tab (va_tool_invocations v) t) (\<lambda>invs.
               Inr (v\<lparr>va_tool_invocations := invs\<rparr>))
           | Rec_QueueEnqueued q \<Rightarrow>
               res_bind (check_enqueue_abort v q) (\<lambda>_.
               res_bind (validate_exact_provisioned_entry S tab (qe_target q)) (\<lambda>_.
               Inr (case provisioned_id (qe_target q) of
                      None \<Rightarrow> v
                    | Some i \<Rightarrow> v\<lparr>va_queue_enqueues := (va_queue_enqueues v)(i \<mapsto> q)\<rparr>)))
           | Rec_QueueCancelled c \<Rightarrow>
               res_bind (ensure (cancellation_valid v tab c)
                 (corrupt InvalidQueueCancellation
                   (''Queue cancellation '' @ rb_id (qc_base c) @ '' has no pending matching enqueue''))) (\<lambda>_.
               Inr v)
           | Rec_WriteDeferred w \<Rightarrow>
               res_bind (validate_exact_provisioned_entry S tab (wd_target w)) (\<lambda>_. Inr v)
           | _ \<Rightarrow> Inr v)))"

definition validate_record_log ::
  "'f serializers \<Rightarrow> 'f record_log_slice \<Rightarrow> record_log_corruption + unit" where
  "validate_record_log S input =
     res_bind (ensure (\<not> length (sl_open_operations input) > 1)
       (corrupt MultipleOpenOperations
         (''Lane '' @ sl_lane input @ '' has at least two open operations''))) (\<lambda>_.
     res_bind (validate_deferred_handles (sl_entries input)) (\<lambda>_.
     res_bind (fold_res (validate_record S (entries_table (sl_entries input))) validator_new
       (sort_key record_seq (sl_records input))) (\<lambda>_. Inr ())))"

subsection \<open>The rules of a legal log\<close>

definition result_ok :: "'f entry_table \<Rightarrow> string \<Rightarrow> ('f entry \<Rightarrow> bool) \<Rightarrow> bool" where
  "result_ok tab i P \<longleftrightarrow> (\<forall>e. tab i = Some e \<longrightarrow> P e)"

definition exact_ok :: "'f serializers \<Rightarrow> 'f entry_table \<Rightarrow> 'f json \<Rightarrow> bool" where
  "exact_ok S tab target \<longleftrightarrow>
     (\<forall>i e. provisioned_id target = Some i \<longrightarrow> tab i = Some e \<longrightarrow> entry_provisioned_json S e = target)"

lemma validate_result_iff [simp]:
  "validate_result_entry tab i P d = Inr () \<longleftrightarrow> result_ok tab i P"
  by (auto simp: validate_result_entry_def result_ok_def split: option.split)

lemma validate_exact_iff [simp]:
  "validate_exact_provisioned_entry S tab target = Inr () \<longleftrightarrow> exact_ok S tab target"
  by (auto simp: validate_exact_provisioned_entry_def exact_ok_def matches_provisioned_entry_def
      split: option.split)

lemma validate_all_iff: "validate_all f xs = Inr () \<longleftrightarrow> (\<forall>x \<in> set xs. f x = Inr ())"
  by (induction xs) auto

definition started_in :: "'f lane_record list \<Rightarrow> string \<Rightarrow> bool" where
  "started_in pre run \<longleftrightarrow> (\<exists>st. Rec_OperationStarted st \<in> set pre \<and> rb_id (os_base st) = run)"

definition finish_of :: "string \<Rightarrow> 'f lane_record \<Rightarrow> nat option" where
  "finish_of run r =
     (case r of Rec_OperationFinished f \<Rightarrow> if of_run_id f = run then Some (rb_seq (of_base f)) else None
      | _ \<Rightarrow> None)"

definition abort_of :: "string \<Rightarrow> 'f lane_record \<Rightarrow> nat option" where
  "abort_of run r =
     (case r of Rec_AbortRequested a \<Rightarrow> if ar_run_id a = run then Some (rb_seq (ar_base a)) else None
      | _ \<Rightarrow> None)"

definition attempt_of :: "string \<Rightarrow> 'f lane_record \<Rightarrow> step_attempt option" where
  "attempt_of run r =
     (case r of Rec_StepAttempt a \<Rightarrow> if sa_run_id a = run then Some a else None | _ \<Rightarrow> None)"

definition enqueue_of :: "string \<Rightarrow> 'f lane_record \<Rightarrow> 'f queue_enqueued option" where
  "enqueue_of i r =
     (case r of Rec_QueueEnqueued q \<Rightarrow> if provisioned_id (qe_target q) = Some i then Some q else None
      | _ \<Rightarrow> None)"

definition same_invocation :: "'f tool_started \<Rightarrow> 'f tool_started \<Rightarrow> bool" where
  "same_invocation t t' \<longleftrightarrow>
     ts_assistant_entry_id t = ts_assistant_entry_id t' \<and> ts_tool_index t = ts_tool_index t'"

lemma invocation_key_iff: "invocation_key t = invocation_key t' \<longleftrightarrow> same_invocation t t'"
proof -
  have "CHR 0x00 \<notin> set (show_nat n)" for n
    using show_nat_digits [of "CHR 0x00" n] by auto
  then show ?thesis
    by (auto simp: invocation_key_def same_invocation_def dest!: split_at_last)
qed

definition legal_attempt :: "'f entry_table \<Rightarrow> step_attempt option \<Rightarrow> step_attempt \<Rightarrow> bool" where
  "legal_attempt tab prev a \<longleftrightarrow>
     (sa_step a = Step_Compaction \<longleftrightarrow> sa_compaction_reason a \<noteq> None)
     \<and> sa_attempt a = expected_attempt tab prev a
     \<and> (continues_series tab prev a \<and> sa_step a \<noteq> Step_Assistant \<longrightarrow>
          sa_result_entry_id a = sa_result_entry_id (the prev)
          \<and> sa_compaction_reason a = sa_compaction_reason (the prev))
     \<and> result_ok tab (sa_result_entry_id a)
         (case sa_step a of Step_Assistant \<Rightarrow> is_assistant_entry | Step_Compaction \<Rightarrow> is_compaction
          | Step_BranchSummary \<Rightarrow> is_branch_summary)"

definition legal_start :: "'f serializers \<Rightarrow> 'f entry_table \<Rightarrow> 'f operation_started \<Rightarrow> bool" where
  "legal_start S tab st \<longleftrightarrow>
     (case os_intent st of
        Intent_Run prompt initial override resume \<Rightarrow> \<forall>target \<in> set initial. exact_ok S tab target
      | Intent_Compaction instr i \<Rightarrow> result_ok tab i is_compaction
      | Intent_Navigation target summarize instr label summary \<Rightarrow>
          (\<forall>i. summary = Some i \<longrightarrow> result_ok tab i is_branch_summary))"

definition legal_run :: "'f lane_record list \<Rightarrow> 'f lane_record \<Rightarrow> bool" where
  "legal_run pre r \<longleftrightarrow>
     (\<forall>run. record_run_id r = Some run \<longrightarrow>
        started_in pre run
        \<and> (is_queue_cancelled r
           \<or> (\<forall>finish. last_of (finish_of run) pre = Some finish \<longrightarrow> record_seq r \<le> finish)))"

definition legal_record ::
  "'f serializers \<Rightarrow> 'f entry_table \<Rightarrow> 'f lane_record list \<Rightarrow> 'f lane_record \<Rightarrow> bool" where
  "legal_record S tab pre r \<longleftrightarrow>
     (case r of
        Rec_OperationStarted st \<Rightarrow> legal_start S tab st
      | _ \<Rightarrow> legal_run pre r \<and>
          (case r of
             Rec_StepAttempt a \<Rightarrow> legal_attempt tab (last_of (attempt_of (sa_run_id a)) pre) a
           | Rec_ToolStarted t \<Rightarrow>
               (\<forall>t'. Rec_ToolStarted t' \<in> set pre \<longrightarrow> \<not> same_invocation t t')
               \<and> matches_ordinal tab t
               \<and> result_ok tab (ts_result_entry_id t) (is_tool_result_for (ts_tool_call_id t) (ts_tool_name t))
           | Rec_QueueEnqueued q \<Rightarrow>
               (\<forall>run aborted. qe_run_id q = Some run \<longrightarrow> last_of (abort_of run) pre = Some aborted \<longrightarrow>
                  qe_queue q = Queue_NextRun \<or> rb_seq (qe_base q) \<le> aborted)
               \<and> exact_ok S tab (qe_target q)
           | Rec_QueueCancelled c \<Rightarrow>
               (\<exists>q. last_of (enqueue_of (qc_entry_id c)) pre = Some q
                  \<and> rb_seq (qe_base q) < rb_seq (qc_base c) \<and> qe_run_id q = qc_run_id c)
               \<and> tab (qc_entry_id c) = None
           | Rec_WriteDeferred w \<Rightarrow> exact_ok S tab (wd_target w)
           | _ \<Rightarrow> True))"

definition legal_log :: "'f serializers \<Rightarrow> 'f record_log_slice \<Rightarrow> bool" where
  "legal_log S input \<longleftrightarrow>
     length (sl_open_operations input) \<le> 1
     \<and> (\<forall>e \<in> set (sl_entries input). \<not> deferred_without_handle e)
     \<and> (let rs = sort_key record_seq (sl_records input)
        in \<forall>i < length rs. legal_record S (entries_table (sl_entries input)) (take i rs) (rs ! i))"

subsection \<open>The tables hold what the earlier records say\<close>

definition tables :: "'f lane_record list \<Rightarrow> 'f validator \<Rightarrow> bool" where
  "tables pre v \<longleftrightarrow>
     (\<forall>run. va_starts v run \<noteq> None \<longleftrightarrow> started_in pre run)
     \<and> (\<forall>run. va_finished_at v run = last_of (finish_of run) pre)
     \<and> (\<forall>run. va_aborted_at v run = last_of (abort_of run) pre)
     \<and> (\<forall>i. va_queue_enqueues v i = last_of (enqueue_of i) pre)
     \<and> (\<forall>run. va_latest_attempt v run = last_of (attempt_of run) pre)
     \<and> va_tool_invocations v = {invocation_key t | t. Rec_ToolStarted t \<in> set pre}"

lemma tables_new [simp]: "tables [] validator_new"
  by (simp add: tables_def validator_new_def started_in_def)

lemma check_run_iff:
  assumes "tables pre v"
  shows "check_run v r = Inr () \<longleftrightarrow> legal_run pre r"
  using assms
  by (auto simp: check_run_def legal_run_def tables_def not_less split: option.split)

lemma attempt_iff:
  "validate_attempt_reason a = Inr () \<and> validate_attempt_sequence tab prev a = Inr ()
     \<and> validate_attempt_result tab a = Inr () \<longleftrightarrow> legal_attempt tab prev a"
  by (cases "sa_step a")
    (auto simp: validate_attempt_reason_def validate_attempt_sequence_def validate_attempt_result_def
      legal_attempt_def)

lemma start_iff: "validate_operation_result S tab st = Inr () \<longleftrightarrow> legal_start S tab st"
  by (auto simp: validate_operation_result_def legal_start_def validate_all_iff
      split: operation_intent.split option.split)

lemmas table_selectors = finish_of_def abort_of_def attempt_of_def enqueue_of_def

definition next_tables :: "'f validator \<Rightarrow> 'f lane_record \<Rightarrow> 'f validator" where
  "next_tables v r =
     (case r of
        Rec_OperationStarted st \<Rightarrow> v\<lparr>va_starts := (va_starts v)(rb_id (os_base st) \<mapsto> st)\<rparr>
      | Rec_OperationFinished f \<Rightarrow>
          v\<lparr>va_finished_at := (va_finished_at v)(of_run_id f \<mapsto> rb_seq (of_base f))\<rparr>
      | Rec_AbortRequested a \<Rightarrow> v\<lparr>va_aborted_at := (va_aborted_at v)(ar_run_id a \<mapsto> rb_seq (ar_base a))\<rparr>
      | Rec_StepAttempt a \<Rightarrow> v\<lparr>va_latest_attempt := (va_latest_attempt v)(sa_run_id a \<mapsto> a)\<rparr>
      | Rec_ToolStarted t \<Rightarrow> v\<lparr>va_tool_invocations := insert (invocation_key t) (va_tool_invocations v)\<rparr>
      | Rec_QueueEnqueued q \<Rightarrow>
          (case provisioned_id (qe_target q) of
             None \<Rightarrow> v
           | Some i \<Rightarrow> v\<lparr>va_queue_enqueues := (va_queue_enqueues v)(i \<mapsto> q)\<rparr>)
      | _ \<Rightarrow> v)"

lemma validate_record_next: "validate_record S tab v r = Inr v' \<Longrightarrow> v' = next_tables v r"
  by (cases r) (auto simp: validate_record_def next_tables_def validate_tool_start_def)

lemma tables_snoc:
  assumes t: "tables pre v"
  shows "tables (pre @ [r]) (next_tables v r)"
proof -
  have "va_starts (next_tables v r) run \<noteq> None \<longleftrightarrow> started_in (pre @ [r]) run" for run
    using t by (cases r) (auto simp: tables_def next_tables_def started_in_def split: option.split)
  moreover have "va_finished_at (next_tables v r) run = last_of (finish_of run) (pre @ [r])" for run
    using t by (cases r) (auto simp: tables_def next_tables_def finish_of_def split: option.split)
  moreover have "va_aborted_at (next_tables v r) run = last_of (abort_of run) (pre @ [r])" for run
    using t by (cases r) (auto simp: tables_def next_tables_def abort_of_def split: option.split)
  moreover have "va_queue_enqueues (next_tables v r) i = last_of (enqueue_of i) (pre @ [r])" for i
    using t by (cases r) (auto simp: tables_def next_tables_def enqueue_of_def split: option.split)
  moreover have "va_latest_attempt (next_tables v r) run = last_of (attempt_of run) (pre @ [r])" for run
    using t by (cases r) (auto simp: tables_def next_tables_def attempt_of_def split: option.split)
  moreover have "va_tool_invocations (next_tables v r) =
      {invocation_key t | t. Rec_ToolStarted t \<in> set (pre @ [r])}"
    using t by (cases r) (auto simp: tables_def next_tables_def split: option.split)
  ultimately show ?thesis unfolding tables_def by blast
qed

lemma validate_record_iff:
  assumes t: "tables pre v"
  shows "(\<exists>v'. validate_record S tab v r = Inr v') \<longleftrightarrow> legal_record S tab pre r"
proof -
  note run = check_run_iff [OF t]
  have invs: "invocation_key t' \<in> va_tool_invocations v \<longleftrightarrow>
      (\<exists>t''. Rec_ToolStarted t'' \<in> set pre \<and> same_invocation t' t'')" for t'
    using t by (auto simp: tables_def invocation_key_iff)
  show ?thesis
  proof (cases r)
    case (Rec_OperationStarted st)
    then show ?thesis by (simp add: validate_record_def legal_record_def start_iff)
  next
    case (Rec_StepAttempt a)
    have "va_latest_attempt v (sa_run_id a) = last_of (attempt_of (sa_run_id a)) pre"
      using t by (simp add: tables_def)
    then show ?thesis
      using run [of r] attempt_iff [of a tab "last_of (attempt_of (sa_run_id a)) pre"]
      by (auto simp: Rec_StepAttempt validate_record_def legal_record_def)
  next
    case (Rec_ToolStarted t')
    then show ?thesis
      using run [of r] invs [of t']
      by (auto simp: validate_record_def legal_record_def validate_tool_start_def)
  next
    case (Rec_QueueEnqueued q)
    have "check_enqueue_abort v q = Inr () \<longleftrightarrow>
        (\<forall>run aborted. qe_run_id q = Some run \<longrightarrow> last_of (abort_of run) pre = Some aborted \<longrightarrow>
           qe_queue q = Queue_NextRun \<or> rb_seq (qe_base q) \<le> aborted)"
      using t
      by (cases "qe_run_id q") (auto simp: check_enqueue_abort_def tables_def not_less split: option.split)
    then show ?thesis
      using run [of r] by (auto simp: Rec_QueueEnqueued validate_record_def legal_record_def)
  next
    case (Rec_QueueCancelled c)
    have "cancellation_valid v tab c \<longleftrightarrow>
        (\<exists>q. last_of (enqueue_of (qc_entry_id c)) pre = Some q
           \<and> rb_seq (qe_base q) < rb_seq (qc_base c) \<and> qe_run_id q = qc_run_id c)
        \<and> tab (qc_entry_id c) = None"
      using t by (auto simp: cancellation_valid_def tables_def split: option.split)
    then show ?thesis
      using run [of r] by (auto simp: Rec_QueueCancelled validate_record_def legal_record_def)
  qed (use run [of r] in \<open>auto simp: validate_record_def legal_record_def\<close>)
qed

lemma validate_records_iff:
  "tables pre v \<Longrightarrow>
     (\<exists>v'. fold_res (validate_record S tab) v rs = Inr v') \<longleftrightarrow>
     (\<forall>i < length rs. legal_record S tab (pre @ take i rs) (rs ! i))"
proof (induction rs arbitrary: pre v)
  case (Cons r rs)
  have head: "(\<exists>v'. validate_record S tab v r = Inr v') \<longleftrightarrow> legal_record S tab pre r"
    by (rule validate_record_iff [OF Cons.prems])
  have tail: "(\<exists>v''. fold_res (validate_record S tab) v' rs = Inr v'') \<longleftrightarrow>
      (\<forall>i < length rs. legal_record S tab ((pre @ [r]) @ take i rs) (rs ! i))"
    if "validate_record S tab v r = Inr v'" for v'
    using Cons.IH [OF tables_snoc [OF Cons.prems]] validate_record_next [OF that] by simp
  have split: "(\<forall>i < length (r # rs). P i) \<longleftrightarrow> P 0 \<and> (\<forall>i < length rs. P (Suc i))" for P
    by (auto simp: less_Suc_eq_0_disj)
  show ?case
    unfolding split using head tail by (cases "validate_record S tab v r") auto
qed simp

lemma validate_deferred_iff:
  "validate_deferred_handles es = Inr () \<longleftrightarrow> (\<forall>e \<in> set es. \<not> deferred_without_handle e)"
  by (induction es) auto

lemma validate_record_log_iff: "validate_record_log S input = Inr () \<longleftrightarrow> legal_log S input"
proof -
  have "(\<exists>v. fold_res (validate_record S tab) validator_new rs = Inr v) \<longleftrightarrow>
      (\<forall>i < length rs. legal_record S tab (take i rs) (rs ! i))" for tab rs
    using validate_records_iff [OF tables_new, of S tab rs] by simp
  then show ?thesis
    by (auto simp: validate_record_log_def legal_log_def validate_deferred_iff not_less Let_def)
qed

text \<open>The order in which a backend returns the records does not matter.\<close>

lemma validate_record_log_perm:
  assumes perm: "mset rs = mset (sl_records input)" and distinct: "distinct (map record_seq rs)"
  shows "validate_record_log S (input\<lparr>sl_records := rs\<rparr>) = validate_record_log S input"
proof -
  have "inj_on record_seq (set rs)" using distinct by (simp add: distinct_map)
  moreover have "mset (sort_key record_seq (sl_records input)) = mset rs" using perm by simp
  ultimately have "sort_key record_seq rs = sort_key record_seq (sl_records input)"
    by (intro sort_key_inj_key_eq) (simp_all add: perm)
  then show ?thesis by (simp add: validate_record_log_def)
qed

subsection \<open>Intents and stamped entries\<close>

text \<open>
  A provisioned entry keeps its JSON view through stamping, and that view determines the
  identifier and the content, when the serializers of messages and of usage are injective.
\<close>

definition content_fields :: "'f serializers \<Rightarrow> 'f entry \<Rightarrow> (string \<times> 'f json) list" where
  "content_fields S e =
     filter (\<lambda>(k, v). k \<noteq> ''timestamp'' \<and> k \<noteq> ''parentId'' \<and> k \<noteq> ''seq'') (flat_fields S e)"

lemma provisioned_json_fields: "entry_provisioned_json S e = json_object (content_fields S e)"
  by (simp add: entry_provisioned_json_def to_flat_json_def json_remove_object content_fields_def
      case_prod_unfold conj_commute conj_left_commute)

fun kind_fields :: "'f serializers \<Rightarrow> 'f provisioned_kind \<Rightarrow> (string \<times> 'f json) list" where
  "kind_fields S (Prov_Message m t) = [(''message'', ser_message S m)] @ json_opt ''terminate'' JBool t"
| "kind_fields S (Prov_ModelChange p m) = [(''provider'', JString p), (''modelId'', JString m)]"
| "kind_fields S (Prov_ThinkingLevel l) = [(''thinkingLevel'', JString l)]"
| "kind_fields S (Prov_ActiveTools ns) = [(''activeToolNames'', JArray (map JString ns))]"
| "kind_fields S (Prov_Compaction s rt tb d u) =
     [(''summary'', JString s), (''retainedTail'', JArray (map (ser_message S) rt)),
      (''tokensBefore'', JInt (sint tb))]
     @ json_opt ''details'' (\<lambda>d. d) d @ json_opt ''usage'' (ser_usage S) u"
| "kind_fields S (Prov_BranchSummary f s d u) =
     [(''fromId'', JString f), (''summary'', JString s)]
     @ json_opt ''details'' (\<lambda>d. d) d @ json_opt ''usage'' (ser_usage S) u"
| "kind_fields S (Prov_Custom ct d) = [(''customType'', JString ct)] @ json_opt ''data'' (\<lambda>d. d) d"

lemma content_fields_eq:
  "content_fields S e =
     [(''type'', JString (entry_type e)), (''id'', JString (entry_id e))] @ kind_fields S (entry_kind e)"
  by (cases e) (simp_all add: content_fields_def flat_fields_def base_keys_def base_json_def json_opt_def
      entry_id_def Let_def split: option.split)

lemma provisioned_json_stamp:
  "entry_provisioned_json S (provisioned_into_entry p sq parent ts) =
     entry_provisioned_json S (provisioned_into_entry p sq' parent' ts')"
proof -
  have "entry_type (provisioned_into_entry p sq parent ts) = type_tag p" for sq parent ts
    by (metis entry_kind_into kind_type_tag_entry_kind type_tag_def)
  then show ?thesis by (simp add: provisioned_json_fields content_fields_eq entry_id_def)
qed

definition lookup_field :: "string \<Rightarrow> (string \<times> 'f json) list \<Rightarrow> 'f json option" where
  "lookup_field k kvs = map_of (rev kvs) k"

lemma lookup_opt [simp]:
  "lookup_field k (kvs @ json_opt k' f x) =
     (if k = k' \<and> x \<noteq> None then map_option f x else lookup_field k kvs)"
  "lookup_field k (kvs @ [(k', v)]) = (if k = k' then Some v else lookup_field k kvs)"
  "lookup_field k [] = None"
  by (auto simp: lookup_field_def json_opt_def split: option.split)

lemma lookup_Cons:
  "lookup_field k ((k', v) # kvs) =
     (case lookup_field k kvs of Some w \<Rightarrow> Some w | None \<Rightarrow> if k = k' then Some v else None)"
  by (auto simp: lookup_field_def map_add_def split: option.split)

lemma provisioned_json_lookup:
  "entry_provisioned_json S e = entry_provisioned_json S e' \<Longrightarrow>
     lookup_field k (content_fields S e) = lookup_field k (content_fields S e')"
  by (simp add: provisioned_json_fields json_object_eq_iff lookup_field_def)

lemma lookup_content:
  "lookup_field ''type'' (content_fields S e) = Some (JString (entry_type e))"
  "lookup_field ''id'' (content_fields S e) = Some (JString (entry_id e))"
  "k \<noteq> ''type'' \<Longrightarrow> k \<noteq> ''id'' \<Longrightarrow>
     lookup_field k (content_fields S e) = lookup_field k (kind_fields S (entry_kind e))"
  by (cases "entry_kind e"; simp add: content_fields_eq lookup_Cons json_opt_def split: option.split)+

lemma lookup_compaction:
  "lookup_field ''summary'' (kind_fields S (Prov_Compaction su rt tb d u)) = Some (JString su)"
  "lookup_field ''retainedTail'' (kind_fields S (Prov_Compaction su rt tb d u)) =
     Some (JArray (map (ser_message S) rt))"
  "lookup_field ''tokensBefore'' (kind_fields S (Prov_Compaction su rt tb d u)) = Some (JInt (sint tb))"
  "lookup_field ''details'' (kind_fields S (Prov_Compaction su rt tb d u)) = d"
  "lookup_field ''usage'' (kind_fields S (Prov_Compaction su rt tb d u)) = map_option (ser_usage S) u"
  by (cases d; cases u; simp add: lookup_Cons json_opt_def)+

lemma lookup_summary:
  "lookup_field ''fromId'' (kind_fields S (Prov_BranchSummary f su d u)) = Some (JString f)"
  "lookup_field ''summary'' (kind_fields S (Prov_BranchSummary f su d u)) = Some (JString su)"
  "lookup_field ''details'' (kind_fields S (Prov_BranchSummary f su d u)) = d"
  "lookup_field ''usage'' (kind_fields S (Prov_BranchSummary f su d u)) = map_option (ser_usage S) u"
  by (cases d; cases u; simp add: lookup_Cons json_opt_def)+

lemma map_option_inj_on:
  "inj_on f (set_option x \<union> set_option y) \<Longrightarrow> map_option f x = map_option f y \<longleftrightarrow> x = y"
  by (cases x; cases y) (auto simp: inj_on_def)

fun kind_messages :: "'f provisioned_kind \<Rightarrow> 'f agent_message set" where
  "kind_messages (Prov_Message m t) = {m}"
| "kind_messages (Prov_Compaction s rt tb d u) = set rt"
| "kind_messages _ = {}"

fun kind_usages :: "'f provisioned_kind \<Rightarrow> 'f usage set" where
  "kind_usages (Prov_Compaction s rt tb d u) = set_option u"
| "kind_usages (Prov_BranchSummary f s d u) = set_option u"
| "kind_usages _ = {}"

text \<open>The serializers tell the messages and the usage of two kinds apart.\<close>

definition separates :: "'f serializers \<Rightarrow> 'f provisioned_kind \<Rightarrow> 'f provisioned_kind \<Rightarrow> bool" where
  "separates S p p' \<longleftrightarrow>
     inj_on (ser_message S) (kind_messages p \<union> kind_messages p')
     \<and> inj_on (ser_usage S) (kind_usages p \<union> kind_usages p')"

lemma kind_fields_inj:
  assumes sep: "separates S p p'" and tag: "kind_type_tag p = kind_type_tag p'"
    and same: "\<And>k. k \<noteq> ''type'' \<Longrightarrow> k \<noteq> ''id'' \<Longrightarrow>
      lookup_field k (kind_fields S p) = lookup_field k (kind_fields S p')"
  shows "p = p'"
proof -
  have maps: "map JString ns = map JString ns' \<longleftrightarrow> ns = ns'" for ns ns'
    using inj_map_eq_map [of JString] by (auto simp: inj_def)
  show ?thesis
  proof (cases p)
    case (Prov_Message m t)
    obtain m' t' where p': "p' = Prov_Message m' t'"
      using tag Prov_Message by (cases p') auto
    have inj: "ser_message S m = ser_message S m' \<longleftrightarrow> m = m'"
      using sep by (auto simp: separates_def Prov_Message p' inj_on_def)
    show ?thesis
      using same [of "''message''"] same [of "''terminate''"]
      by (auto simp: Prov_Message p' lookup_Cons json_opt_def inj split: option.splits)
  next
    case (Prov_ModelChange pr mi)
    obtain pr' mi' where p': "p' = Prov_ModelChange pr' mi'"
      using tag Prov_ModelChange by (cases p') auto
    show ?thesis
      using same [of "''provider''"] same [of "''modelId''"]
      by (simp add: Prov_ModelChange p' lookup_Cons json_opt_def maps split: option.splits)
  next
    case (Prov_ThinkingLevel l)
    obtain l' where p': "p' = Prov_ThinkingLevel l'"
      using tag Prov_ThinkingLevel by (cases p') auto
    show ?thesis
      using same [of "''thinkingLevel''"]
      by (simp add: Prov_ThinkingLevel p' lookup_Cons json_opt_def maps split: option.splits)
  next
    case (Prov_ActiveTools ns)
    obtain ns' where p': "p' = Prov_ActiveTools ns'"
      using tag Prov_ActiveTools by (cases p') auto
    show ?thesis
      using same [of "''activeToolNames''"]
      by (simp add: Prov_ActiveTools p' lookup_Cons json_opt_def maps split: option.splits)
  next
    case (Prov_Compaction su rt tb d u)
    obtain su' rt' tb' d' u' where p': "p' = Prov_Compaction su' rt' tb' d' u'"
      using tag Prov_Compaction by (cases p') auto
    have "sint tb = sint tb' \<longleftrightarrow> tb = tb'" by (rule word_eq_iff_signed [symmetric])
    moreover have "map (ser_message S) rt = map (ser_message S) rt' \<longleftrightarrow> rt = rt'"
      using sep by (simp add: separates_def Prov_Compaction p' inj_on_map_eq_map)
    moreover have "map_option (ser_usage S) u = map_option (ser_usage S) u' \<longleftrightarrow> u = u'"
      using sep by (intro map_option_inj_on) (simp add: separates_def Prov_Compaction p')
    ultimately show ?thesis
      using same [of "''summary''"] same [of "''retainedTail''"] same [of "''tokensBefore''"] same [of "''details''"] same [of "''usage''"]
      by (simp add: Prov_Compaction p' lookup_compaction del: kind_fields.simps)
  next
    case (Prov_BranchSummary f su d u)
    obtain f' su' d' u' where p': "p' = Prov_BranchSummary f' su' d' u'"
      using tag Prov_BranchSummary by (cases p') auto
    have "map_option (ser_usage S) u = map_option (ser_usage S) u' \<longleftrightarrow> u = u'"
      using sep by (intro map_option_inj_on) (simp add: separates_def Prov_BranchSummary p')
    then show ?thesis
      using same [of "''fromId''"] same [of "''summary''"] same [of "''details''"] same [of "''usage''"]
      by (simp add: Prov_BranchSummary p' lookup_summary del: kind_fields.simps)
  next
    case (Prov_Custom ct d)
    obtain ct' d' where p': "p' = Prov_Custom ct' d'"
      using tag Prov_Custom by (cases p') auto
    show ?thesis
      using same [of "''customType''"] same [of "''data''"]
      by (simp add: Prov_Custom p' lookup_Cons json_opt_def maps split: option.splits)
  qed
qed

lemma provisioned_json_iff:
  assumes sep: "separates S (entry_kind e) (entry_kind e')"
  shows "entry_provisioned_json S e = entry_provisioned_json S e' \<longleftrightarrow>
     entry_id e = entry_id e' \<and> entry_kind e = entry_kind e'"
proof
  assume eq: "entry_provisioned_json S e = entry_provisioned_json S e'"
  note look = provisioned_json_lookup [OF eq]
  have "entry_type e = entry_type e'" "entry_id e = entry_id e'"
    using look [of "''type''"] look [of "''id''"] by (simp_all add: lookup_content)
  moreover have "entry_kind e = entry_kind e'"
    by (rule kind_fields_inj [OF sep]) (use look calculation(1) in \<open>simp_all add: lookup_content(3) flip: lookup_content(3)\<close>)
  ultimately show "entry_id e = entry_id e' \<and> entry_kind e = entry_kind e'" by blast
next
  assume "entry_id e = entry_id e' \<and> entry_kind e = entry_kind e'"
  moreover have "entry_type e = entry_type e'" using calculation by (metis kind_type_tag_entry_kind)
  ultimately show "entry_provisioned_json S e = entry_provisioned_json S e'"
    by (simp add: provisioned_json_fields content_fields_eq)
qed

subsection \<open>Runs are bracketed\<close>

lemma last_of_mem: "last_of f xs = Some y \<Longrightarrow> \<exists>x \<in> set xs. f x = Some y"
  by (auto simp: last_of_def Let_def set_filter_map split: if_splits dest!: last_in_set)

lemma filter_map_empty: "filter_map f xs = [] \<longleftrightarrow> (\<forall>x \<in> set xs. f x = None)"
  by (induction xs) (auto split: option.split)

lemma last_of_None: "last_of f xs = None \<longleftrightarrow> (\<forall>x \<in> set xs. f x = None)"
  by (simp add: last_of_def Let_def filter_map_empty)

lemma accepted_bracketed:
  assumes ok: "validate_record_log S input = Inr ()" and distinct: "distinct (map record_seq (sl_records input))"
    and r: "r \<in> set (sl_records input)" "record_run_id r = Some run" "\<not> is_queue_cancelled r"
  shows "(\<exists>st. Rec_OperationStarted st \<in> set (sl_records input) \<and> rb_id (os_base st) = run
       \<and> rb_seq (os_base st) < record_seq r)
     \<and> (\<forall>f. Rec_OperationFinished f \<in> set (sl_records input) \<and> of_run_id f = run \<longrightarrow>
       record_seq r \<le> rb_seq (of_base f))"
proof -
  define rs where "rs = sort_key record_seq (sl_records input)"
  have set: "set rs = set (sl_records input)" by (simp add: rs_def)
  have "distinct (map record_seq rs)"
    using distinct mset_eq_imp_distinct_iff [of "map record_seq rs" "map record_seq (sl_records input)"]
    by (simp add: rs_def)
  moreover have "sorted (map record_seq rs)" by (simp add: rs_def)
  ultimately have asc: "sorted_wrt (<) (map record_seq rs)" by (simp add: strict_sorted_iff)
  have less: "record_seq (rs ! j) < record_seq (rs ! i)" if "j < i" "i < length rs" for i j
    using asc that by (simp add: sorted_wrt_iff_nth_less)
  obtain i where i: "i < length rs" "rs ! i = r" using r(1) set by (metis in_set_conv_nth)
  have "legal_record S (entries_table (sl_entries input)) (take i rs) (rs ! i)"
    using ok i(1) by (simp add: validate_record_log_iff legal_log_def Let_def flip: rs_def)
  then have run: "legal_run (take i rs) r"
    using i(2) r(2) by (cases r) (simp_all add: legal_record_def)
  have before: "record_seq x < record_seq r" if "x \<in> set (take i rs)" for x
    using that less i by (auto simp: in_set_conv_nth)
  obtain st where st: "Rec_OperationStarted st \<in> set (take i rs)" "rb_id (os_base st) = run"
    using run r(2) by (auto simp: legal_run_def started_in_def)
  have "record_seq r \<le> rb_seq (of_base f)" if f: "Rec_OperationFinished f \<in> set rs" "of_run_id f = run" for f
  proof -
    have no: "last_of (finish_of run) (take i rs) = None"
    proof (rule ccontr)
      assume "last_of (finish_of run) (take i rs) \<noteq> None"
      then obtain n where n: "last_of (finish_of run) (take i rs) = Some n" by blast
      then obtain x where x: "x \<in> set (take i rs)" "finish_of run x = Some n" using last_of_mem by metis
      then have "record_seq x = n"
        by (auto simp: finish_of_def record_seq_def split: lane_record.splits if_splits)
      with before [OF x(1)] run r n show False by (auto simp: legal_run_def)
    qed
    then have "Rec_OperationFinished f \<notin> set (take i rs)"
      using f(2) by (auto simp: last_of_None finish_of_def)
    then obtain j where j: "j < length rs" "rs ! j = Rec_OperationFinished f" "i \<le> j"
      using f(1) by (metis in_set_conv_nth leI length_take min_less_iff_conj nth_take)
    then have "record_seq r \<le> record_seq (rs ! j)"
      using less [of i j] i by (cases "i = j") auto
    then show ?thesis by (simp add: record_seq_def j(2))
  qed
  then show ?thesis
    using st before [OF st(1)] set_take_subset [of i rs] by (auto simp: set record_seq_def)
qed

subsection \<open>Properties of the validator\<close>

text \<open>
  C33. The validator accepts a slice exactly when it is a legal log: the rules, stated on the
  earlier records alone, agree with the tables the loop keeps, on every branch.
\<close>

theorem validator_accepts_legal_logs: "validate_record_log S input = Inr () \<longleftrightarrow> legal_log S input"
  by (rule validate_record_log_iff)

text \<open>The verdict, error message included, does not depend on the order in which a backend lists the records.\<close>

theorem validator_ignores_order:
  assumes "mset rs = mset (sl_records input)" and "distinct (map record_seq rs)"
  shows "validate_record_log S (input\<lparr>sl_records := rs\<rparr>) = validate_record_log S input"
  by (rule validate_record_log_perm [OF assms])

definition demo_slice :: "int record_log_slice" where
  "demo_slice =
     \<lparr>sl_lane = ''main'', sl_open_operations = [demo_started], sl_records = ix_records demo_state,
      sl_entries = ix_entries demo_state\<rparr>"

theorem validator_ignores_order_witness:
  "validate_record_log \<lparr>ser_message = \<lambda>_. JNull, ser_usage = \<lambda>_. JNull\<rparr>
       (demo_slice\<lparr>sl_records := rev (ix_records demo_state)\<rparr>) =
     validate_record_log \<lparr>ser_message = \<lambda>_. JNull, ser_usage = \<lambda>_. JNull\<rparr> demo_slice"
proof -
  have "distinct (map record_seq (rev (ix_records demo_state)))" by code_simp
  then show ?thesis by (intro validator_ignores_order) (simp_all add: demo_slice_def)
qed

text \<open>
  In an accepted slice with distinct sequence numbers, every record of a run other than a
  queue cancellation comes after the start of the run and not after its finish.
\<close>

theorem accepted_run_is_bracketed:
  assumes "validate_record_log S input = Inr ()" and "distinct (map record_seq (sl_records input))"
    and "r \<in> set (sl_records input)" and "record_run_id r = Some run" and "\<not> is_queue_cancelled r"
  shows "(\<exists>st. Rec_OperationStarted st \<in> set (sl_records input) \<and> rb_id (os_base st) = run
       \<and> rb_seq (os_base st) < record_seq r)
     \<and> (\<forall>f. Rec_OperationFinished f \<in> set (sl_records input) \<and> of_run_id f = run \<longrightarrow>
       record_seq r \<le> rb_seq (of_base f))"
  using accepted_bracketed [OF assms] by auto

theorem accepted_run_is_bracketed_witness:
  "\<exists>st. Rec_OperationStarted st \<in> set (ix_records demo_state) \<and> rb_id (os_base st) = ''run'' \<and> rb_seq (os_base st) < 8"
proof -
  have "validate_record_log \<lparr>ser_message = \<lambda>_. JNull, ser_usage = \<lambda>_. JNull\<rparr> demo_slice = Inr ()" by code_simp
  moreover have "distinct (map record_seq (sl_records demo_slice))" by code_simp
  moreover have "ix_records demo_state ! 1 \<in> set (sl_records demo_slice)"
  proof -
    have "length (ix_records demo_state) = 3" by code_simp
    then show ?thesis by (simp add: demo_slice_def)
  qed
  moreover have "record_run_id (ix_records demo_state ! 1) = Some ''run''"
    "\<not> is_queue_cancelled (ix_records demo_state ! 1)" "record_seq (ix_records demo_state ! 1) = 8" by code_simp+
  ultimately show ?thesis
    using accepted_run_is_bracketed [of _ demo_slice "ix_records demo_state ! 1" "''run''"]
    by (simp add: demo_slice_def)
qed

text \<open>
  An intent matches the entry that is later stored exactly when identifier and content agree:
  the storage-assigned sequence, parent and timestamp never matter, when the serializers tell the
  messages and the usage of the two apart.
\<close>

theorem intent_matches_iff:
  assumes "separates S (pe_kind p) (pe_kind p')"
  shows "matches_provisioned_entry S (provisioned_into_entry p sq parent ts)
       (entry_provisioned_json S (provisioned_into_entry p' sq' parent' ts')) \<longleftrightarrow> p = p'"
  using provisioned_json_iff [of S "provisioned_into_entry p sq parent ts" "provisioned_into_entry p' sq' parent' ts'"]
    assms
  by (auto simp: matches_provisioned_entry_def entry_id_def)

theorem intent_matches_iff_witness:
  "\<not> matches_provisioned_entry
       \<lparr>ser_message = (\<lambda>m. JBool (is_assistant m)), ser_usage = (\<lambda>_. JNull)\<rparr>
       (provisioned_into_entry \<lparr>pe_id = ''x'', pe_kind = Prov_Message (demo_user ''hi'') None\<rparr> 7 (Some ''a'') 3)
       (entry_provisioned_json \<lparr>ser_message = (\<lambda>m. JBool (is_assistant m)), ser_usage = (\<lambda>_. JNull)\<rparr>
         (provisioned_into_entry \<lparr>pe_id = ''x'', pe_kind = Prov_Message (demo_assistant []) None\<rparr> 0 None 0))"
  by (subst intent_matches_iff) (simp_all add: separates_def inj_on_def demo_user_def demo_assistant_def)

end
