(* ===== verification/Session_Snapshot.thy ===== *)
theory Session_Snapshot
  imports Session_Demo
begin

text \<open>
  \<open>crates/evo-harness/src/session/state/snapshot.rs\<close>: the indexed snapshot a SQLite
  storage keeps of a session. Writing it drops every derived table; reading it back checks
  the references and rebuilds the tables. The serialization of the fields themselves is
  derived (serde) and not modelled: a snapshot is the record of the fields.
\<close>

subsection \<open>Writing\<close>

datatype snapshot_error = Snapshot_Custom string | Snapshot_Panic

record 'f snapshot =
  sn_format :: string
  sn_sequence :: nat
  sn_entries :: "'f entry list"
  sn_records :: "'f lane_record list"
  sn_lanes :: "(string, string option) btree"
  sn_log :: "'f stored_log_item list"
  sn_stats :: "'f session_stats"
  sn_name :: "string option"
  sn_labels :: "string \<rightharpoonup> string"
  sn_reserved_ids :: "string list"

definition snapshot_format :: string where
  "snapshot_format = ''indexed-session-v1''"

definition take_snapshot :: "'f session_state \<Rightarrow> 'f snapshot" where
  "take_snapshot s =
     \<lparr>sn_format = snapshot_format, sn_sequence = ix_sequence s, sn_entries = ix_entries s,
      sn_records = ix_records s, sn_lanes = ix_lanes s, sn_log = ix_log s, sn_stats = ix_stats s,
      sn_name = ix_name s, sn_labels = ix_labels s,
      sn_reserved_ids =
        sorted_list_of_set
          (ix_used_ids s - set (map entry_id (ix_entries s) @ map record_id (ix_records s)))\<rparr>"

subsection \<open>Reading\<close>

text \<open>\<open>entries_by_id\<close>: a later entry of the same identifier would replace the earlier one.\<close>

definition snapshot_by_id :: "'f entry list \<Rightarrow> (string \<rightharpoonup> nat)" where
  "snapshot_by_id es = map_of (rev (zip (map entry_id es) [0..<length es]))"

fun reserve_ids :: "string set \<Rightarrow> string list \<Rightarrow> snapshot_error + string set" where
  "reserve_ids used [] = Inr used"
| "reserve_ids used (i # ids) =
     (if i \<in> used then Inl (Snapshot_Custom ''duplicate snapshot reserved id'')
      else reserve_ids (insert i used) ids)"

definition snapshot_ids :: "'f snapshot \<Rightarrow> snapshot_error + string set" where
  "snapshot_ids sn =
     (let ids = map entry_id (sn_entries sn);
          all_ids = ids @ map record_id (sn_records sn)
      in res_bind (ensure (card (set ids) = length (sn_entries sn))
           (Snapshot_Custom ''duplicate snapshot entry id'')) (\<lambda>_.
         res_bind (ensure (card (set all_ids) = length (sn_entries sn) + length (sn_records sn))
           (Snapshot_Custom ''duplicate snapshot payload id'')) (\<lambda>_.
         reserve_ids (set all_ids) (sn_reserved_ids sn))))"

text \<open>
  The loop over the log. Its state: the last sequence number and the entry and record
  indexes seen, in the order they were inserted.
\<close>

definition snapshot_item_seq ::
  "'f snapshot \<Rightarrow> nat list \<Rightarrow> nat list \<Rightarrow> 'f stored_log_item
     \<Rightarrow> snapshot_error + (nat list \<times> nat list \<times> nat)" where
  "snapshot_item_seq sn entries records item =
     (case item of
        Stored_Entry i \<Rightarrow>
          if i \<noteq> length entries \<or> i \<in> set entries
          then Inl (Snapshot_Custom ''invalid snapshot entry reference order'')
          else if i < length (sn_entries sn)
          then Inr (entries @ [i], records, entry_seq (sn_entries sn ! i))
          else Inl (Snapshot_Custom ''snapshot log index is out of bounds'')
      | Stored_Record i \<Rightarrow>
          if i \<noteq> length records \<or> i \<in> set records
          then Inl (Snapshot_Custom ''invalid snapshot record reference order'')
          else if i < length (sn_records sn)
          then Inr (entries, records @ [i], record_seq (sn_records sn ! i))
          else Inl (Snapshot_Custom ''snapshot log index is out of bounds'')
      | Stored_Other (Log_Entry _ _) \<Rightarrow> Inl (Snapshot_Custom ''snapshot payload must use an index'')
      | Stored_Other (Log_Record _ _) \<Rightarrow> Inl (Snapshot_Custom ''snapshot payload must use an index'')
      | Stored_Other x \<Rightarrow> Inr (entries, records, log_item_seq x))"

fun snapshot_check_log ::
  "'f snapshot \<Rightarrow> nat list \<Rightarrow> nat list \<Rightarrow> nat \<Rightarrow> 'f stored_log_item list
     \<Rightarrow> snapshot_error + unit" where
  "snapshot_check_log sn entries records last_seq [] =
     ensure (\<not> (length entries \<noteq> length (sn_entries sn) \<or> length records \<noteq> length (sn_records sn)))
       (Snapshot_Custom ''snapshot contains unreferenced payloads'')"
| "snapshot_check_log sn entries records last_seq (item # items) =
     res_bind (snapshot_item_seq sn entries records item) (\<lambda>(entries', records', sq).
     res_bind (ensure (\<not> (sq \<le> last_seq \<or> sq > sn_sequence sn))
       (Snapshot_Custom ''invalid snapshot log sequence'')) (\<lambda>_.
     snapshot_check_log sn entries' records' sq items))"

text \<open>Lane generations are the sequence numbers of the last move of each lane.\<close>

fun snapshot_generations ::
  "(string, string option) btree \<Rightarrow> (string, nat) btree \<Rightarrow> 'f stored_log_item list
     \<Rightarrow> snapshot_error + (string, nat) btree" where
  "snapshot_generations lanes gens [] = Inr gens"
| "snapshot_generations lanes gens (item # items) =
     (case item of
        Stored_Other (Log_Lane sq lane leaf) \<Rightarrow>
          if map_of lanes lane = None
          then Inl (Snapshot_Custom ''snapshot lane mutation has no lane'')
          else snapshot_generations lanes (bt_insert lane sq gens) items
      | _ \<Rightarrow> snapshot_generations lanes gens items)"

text \<open>Unlike the live index, this loop keeps a lane's tree when it becomes empty.\<close>

definition snapshot_operation ::
  "'f lane_record \<Rightarrow> (string \<rightharpoonup> (nat, 'f operation_started) btree)
     \<Rightarrow> (string \<rightharpoonup> (nat, 'f operation_started) btree)" where
  "snapshot_operation r ops =
     (case r of
        Rec_OperationStarted started \<Rightarrow>
          ops(rb_lane (os_base started) \<mapsto>
            bt_insert (rb_seq (os_base started)) started
              (case ops (rb_lane (os_base started)) of None \<Rightarrow> [] | Some m \<Rightarrow> m))
      | Rec_OperationFinished finished \<Rightarrow>
          (case ops (rb_lane (of_base finished)) of None \<Rightarrow> ops
           | Some open \<Rightarrow>
               ops(rb_lane (of_base finished) \<mapsto>
                 filter (\<lambda>(k, operation). rb_id (os_base operation) \<noteq> of_run_id finished) open))
      | _ \<Rightarrow> ops)"

fun snapshot_users ::
  "(string \<rightharpoonup> nat) \<Rightarrow> nat option list \<Rightarrow> 'f entry list \<Rightarrow> snapshot_error + nat option list" where
  "snapshot_users by_id nearest [] = Inr nearest"
| "snapshot_users by_id nearest (e # es) =
     (let index = length nearest in
      res_bind
        (case entry_parent_id e of
           None \<Rightarrow> Inr None
         | Some i \<Rightarrow>
             (case by_id i of
                None \<Rightarrow> Inl (Snapshot_Custom ''snapshot has a missing or forward parent'')
              | Some parent \<Rightarrow>
                  if \<not> parent < index
                  then Inl (Snapshot_Custom ''snapshot has a missing or forward parent'')
                  else if parent < length nearest then Inr (nearest ! parent)
                  else Inl Snapshot_Panic))
        (\<lambda>previous.
         snapshot_users by_id
           (nearest @ [case entry_as_message e of
                         Some (AgentMessage_User u) \<Rightarrow> Some index
                       | _ \<Rightarrow> previous]) es))"

definition clear_of :: "'f lane_record \<Rightarrow> 'f assistant_frame option" where
  "clear_of r =
     (case r of
        Rec_AssistantFrame f \<Rightarrow>
          if af_op f = Frame_ClearStream \<or> af_op f = Frame_ClearRun then Some f else None
      | _ \<Rightarrow> None)"

definition retire_cleared :: "'f session_state \<Rightarrow> 'f assistant_frame \<Rightarrow> snapshot_error + 'f session_state" where
  "retire_cleared s f =
     (case retire_cleared_frames s f of Inl _ \<Rightarrow> Inl Snapshot_Panic | Inr t \<Rightarrow> Inr t)"

definition snapshot_state ::
  "'f snapshot \<Rightarrow> string set \<Rightarrow> (string, nat) btree \<Rightarrow> nat option list \<Rightarrow> 'f session_state" where
  "snapshot_state sn used_ids lane_generations nearest_user =
     \<lparr>ix_sequence = sn_sequence sn, ix_used_ids = used_ids, ix_entries = sn_entries sn,
      ix_metadata = map entry_meta_of (sn_entries sn),
      ix_entries_by_id = snapshot_by_id (sn_entries sn), ix_nearest_user = nearest_user,
      ix_records = sn_records sn,
      ix_hot_append_count = length (filter is_append (sn_records sn)),
      ix_open_ops = fold snapshot_operation (sn_records sn) Map.empty,
      ix_lanes = sn_lanes sn, ix_lane_generations = lane_generations, ix_log = sn_log sn,
      ix_stats = sn_stats sn, ix_name = sn_name sn, ix_labels = sn_labels sn\<rparr>"

definition restore_snapshot :: "'f snapshot \<Rightarrow> snapshot_error + 'f session_state" where
  "restore_snapshot sn =
     res_bind (ensure (sn_format sn = snapshot_format)
       (Snapshot_Custom ''unsupported session snapshot format'')) (\<lambda>_.
     res_bind (snapshot_ids sn) (\<lambda>used_ids.
     res_bind (snapshot_check_log sn [] [] 0 (sn_log sn)) (\<lambda>_.
     res_bind (snapshot_generations (sn_lanes sn) (map (\<lambda>(lane, leaf). (lane, 0)) (sn_lanes sn)) (sn_log sn))
       (\<lambda>lane_generations.
     res_bind (snapshot_users (snapshot_by_id (sn_entries sn)) [] (sn_entries sn)) (\<lambda>nearest_user.
     fold_res retire_cleared (snapshot_state sn used_ids lane_generations nearest_user)
       (filter_map clear_of (sn_records sn)))))))"

subsection \<open>The checks\<close>

lemma snapshot_by_id_iff:
  "distinct (map entry_id es) \<Longrightarrow>
     snapshot_by_id es i = Some k \<longleftrightarrow> k < length es \<and> entry_id (es ! k) = i"
  unfolding snapshot_by_id_def
  by (subst map_of_eq_Some_iff) (auto simp: rev_map [symmetric] in_set_zip intro!: exI [of _ k])

lemma reserve_ids_iff:
  "reserve_ids used ids = Inr u \<longleftrightarrow> distinct ids \<and> used \<inter> set ids = {} \<and> u = used \<union> set ids"
  by (induction ids arbitrary: used) auto

lemma card_length_iff: "card (set xs) = length xs \<longleftrightarrow> distinct xs"
  by (auto intro: card_distinct distinct_card)

lemma snapshot_ids_iff:
  "snapshot_ids sn = Inr u \<longleftrightarrow>
     (let ids = map entry_id (sn_entries sn) @ map record_id (sn_records sn)
      in distinct (ids @ sn_reserved_ids sn) \<and> u = set (ids @ sn_reserved_ids sn))"
  using card_length_iff [of "map entry_id (sn_entries sn)"]
    card_length_iff [of "map entry_id (sn_entries sn) @ map record_id (sn_records sn)"]
  by (auto simp: snapshot_ids_def Let_def reserve_ids_iff)

definition snapshot_seq :: "'f snapshot \<Rightarrow> 'f stored_log_item \<Rightarrow> nat" where
  "snapshot_seq sn item =
     (case item of
        Stored_Entry i \<Rightarrow> entry_seq (sn_entries sn ! i)
      | Stored_Record i \<Rightarrow> record_seq (sn_records sn ! i)
      | Stored_Other x \<Rightarrow> log_item_seq x)"

lemma snapshot_item_seq_iff:
  "snapshot_item_seq sn [0..<m] [0..<n] item = Inr (es, rs, sq) \<longleftrightarrow>
     is_fact_item item \<and> sq = snapshot_seq sn item
     \<and> (\<forall>i. entry_ref item = Some i \<longrightarrow> i = m \<and> m < length (sn_entries sn))
     \<and> (\<forall>i. record_ref item = Some i \<longrightarrow> i = n \<and> n < length (sn_records sn))
     \<and> es = (if entry_ref item = None then [0..<m] else [0..<Suc m])
     \<and> rs = (if record_ref item = None then [0..<n] else [0..<Suc n])"
proof (cases item)
  case (Stored_Other x)
  then show ?thesis by (cases x) (auto simp: snapshot_item_seq_def snapshot_seq_def)
qed (auto simp: snapshot_item_seq_def snapshot_seq_def)

lemma cons_upt_iff: "i # xs = [m..<k] \<longleftrightarrow> i = m \<and> m < k \<and> xs = [Suc m..<k]"
  by (cases "m < k") (auto simp: upt_conv_Cons)

lemma nil_upt_iff: "[] = [m..<k] \<longleftrightarrow> k \<le> m"
  by (metis upt_eq_Nil_conv le_zero_eq linorder_not_le not_less0 upt_conv_Nil)

lemma sorted_cons2: "sorted_wrt (<) (q # x # xs) \<longleftrightarrow> q < (x :: nat) \<and> sorted_wrt (<) (x # xs)"
  by (subst sorted_wrt2) auto

lemma snapshot_check_log_iff:
  "m \<le> length (sn_entries sn) \<Longrightarrow> n \<le> length (sn_records sn) \<Longrightarrow>
   snapshot_check_log sn [0..<m] [0..<n] q items = Inr () \<longleftrightarrow>
     filter_map entry_ref items = [m..<length (sn_entries sn)]
     \<and> filter_map record_ref items = [n..<length (sn_records sn)]
     \<and> list_all is_fact_item items
     \<and> sorted_wrt (<) (q # map (snapshot_seq sn) items)
     \<and> (\<forall>x \<in> set items. snapshot_seq sn x \<le> sn_sequence sn)"
proof (induction items arbitrary: m n q)
  case (Cons item items)
  show ?case
  proof (cases "entry_ref item")
    case None
    show ?thesis
    proof (cases "record_ref item")
      case None2: None
      show ?thesis
        using Cons.IH [OF Cons.prems, of "snapshot_seq sn item"] None None2
        by (auto simp: snapshot_item_seq_iff sorted_cons2 simp del: sorted_wrt.simps)
    next
      case (Some i)
      show ?thesis
        using Cons.IH [OF Cons.prems(1), of "Suc n" "snapshot_seq sn item"] Cons.prems None Some
        by (auto simp: snapshot_item_seq_iff sorted_cons2 cons_upt_iff simp del: sorted_wrt.simps upt_Suc)
    qed
  next
    case (Some i)
    moreover have "record_ref item = None" using Some by simp
    ultimately show ?thesis
      using Cons.IH [OF _ Cons.prems(2), of "Suc m" "snapshot_seq sn item"] Cons.prems
      by (auto simp: snapshot_item_seq_iff sorted_cons2 cons_upt_iff simp del: sorted_wrt.simps upt_Suc)
  qed
qed (auto simp: nil_upt_iff)

subsection \<open>The rebuilt tables\<close>

text \<open>The entry of the nearest-user index at a position, read off the finished index.\<close>

definition user_at :: "(string \<rightharpoonup> nat) \<Rightarrow> nat option list \<Rightarrow> nat \<Rightarrow> 'f entry \<Rightarrow> nat option" where
  "user_at by_id nearest i e =
     (if meta_is_user (entry_meta_of e) then Some i
      else case Option.bind (entry_parent_id e) by_id of None \<Rightarrow> None | Some j \<Rightarrow> nearest ! j)"

definition parent_before :: "(string \<rightharpoonup> nat) \<Rightarrow> nat \<Rightarrow> 'f entry \<Rightarrow> bool" where
  "parent_before by_id i e \<longleftrightarrow> (\<forall>p. entry_parent_id e = Some p \<longrightarrow> (\<exists>j < i. by_id p = Some j))"

lemma snapshot_users_step:
  "snapshot_users by_id nearest (e # es) = Inr us \<longleftrightarrow>
     parent_before by_id (length nearest) e
     \<and> snapshot_users by_id (nearest @ [user_at by_id nearest (length nearest) e]) es = Inr us"
proof -
  have "(case entry_as_message e of Some (AgentMessage_User u) \<Rightarrow> Some k | _ \<Rightarrow> x)
      = (if meta_is_user (entry_meta_of e) then Some k else x)" for k and x :: "nat option"
    by (auto simp: meta_is_user_iff split: option.splits agent_message.splits)
  then show ?thesis
    by (auto simp: Let_def parent_before_def user_at_def split: option.splits)
qed

lemma snapshot_users_iff:
  "snapshot_users by_id nearest es = Inr us \<longleftrightarrow>
     take (length nearest) us = nearest \<and> length us = length nearest + length es
     \<and> (\<forall>i < length es. parent_before by_id (length nearest + i) (es ! i)
          \<and> us ! (length nearest + i) = user_at by_id us (length nearest + i) (es ! i))"
proof (induction es arbitrary: nearest)
  case Nil
  then show ?case by auto
next
  case (Cons e es)
  let ?n = "length nearest"
  have all: "(\<forall>i < length (e # es). Q (?n + i) ((e # es) ! i)) \<longleftrightarrow>
      Q ?n e \<and> (\<forall>i < length es. Q (Suc ?n + i) (es ! i))" for Q :: "nat \<Rightarrow> 'a entry \<Rightarrow> bool"
    by (auto simp: less_Suc_eq_0_disj)
  have same: "user_at by_id us ?n e = user_at by_id nearest ?n e"
    if "parent_before by_id ?n e" "take ?n us = nearest"
  proof -
    have "us ! j = nearest ! j" if "j < ?n" for j
      using that \<open>take ?n us = nearest\<close> by (metis nth_take)
    then show ?thesis
      using that(1)
      by (cases "entry_parent_id e") (auto simp: user_at_def parent_before_def split: option.splits)
  qed
  have pre: "take (Suc ?n) us = nearest @ [x] \<longleftrightarrow> take ?n us = nearest \<and> us ! ?n = x"
    if "?n < length us" for x
    using that by (auto simp: take_Suc_conv_app_nth)
  show ?case
    unfolding snapshot_users_step Cons.IH all [of "\<lambda>k e. parent_before by_id k e \<and> us ! k = user_at by_id us k e"]
    using same pre [of "user_at by_id nearest ?n e"]
    by (cases "?n < length us") auto
qed

lemma snapshot_users_no_panic: "snapshot_users by_id nearest es \<noteq> Inl Snapshot_Panic"
  by (induction es arbitrary: nearest) (auto simp: Let_def res_bind_Inl_iff split: option.splits)

definition moved_at :: "(string \<Rightarrow> nat) \<Rightarrow> 'f stored_log_item list \<Rightarrow> string \<Rightarrow> nat" where
  "moved_at g items lane =
     (let sqs = filter_map (lane_item lane) items in if sqs = [] then g lane else last sqs)"

lemma moved_at_simps:
  "moved_at g [] = g"
  "moved_at g (Stored_Other (Log_Lane sq lane leaf) # items) = moved_at (g(lane := sq)) items"
  "(\<And>l. lane_item l item = None) \<Longrightarrow> moved_at g (item # items) = moved_at g items"
  by (auto simp: moved_at_def Let_def lane_item_def fun_eq_iff)

lemma snapshot_generations_eq:
  assumes "bt_sorted lanes"
    and "\<forall>sq lane leaf. Stored_Other (Log_Lane sq lane leaf) \<in> set items \<longrightarrow> map_of lanes lane \<noteq> None"
  shows "snapshot_generations lanes (map (\<lambda>(lane, leaf). (lane, g lane)) lanes) items =
     Inr (map (\<lambda>(lane, leaf). (lane, moved_at g items lane)) lanes)"
  using assms(2)
proof (induction items arbitrary: g)
  case (Cons item items)
  have same: "map (\<lambda>(l, x). (l, h l)) m = map (\<lambda>(l, x). (l, h l)) lanes"
    if "map fst m = map fst lanes" for m :: "(string \<times> string option) list" and h :: "string \<Rightarrow> nat"
    using that by (simp only: gens_from_keys)
  show ?case
  proof (cases "\<exists>sq lane leaf. item = Stored_Other (Log_Lane sq lane leaf)")
    case True
    then obtain sq lane leaf where item: "item = Stored_Other (Log_Lane sq lane leaf)" by blast
    then have known: "map_of lanes lane \<noteq> None" using Cons.prems by auto
    have "bt_insert lane sq (map (\<lambda>(l, x). (l, g l)) lanes) = map (\<lambda>(l, x). (l, (g(lane := sq)) l)) lanes"
      unfolding bt_insert_map [OF assms(1), of lane sq g undefined]
      by (rule same) (rule bt_insert_same_keys [OF known assms(1)])
    moreover have "\<forall>sq lane leaf. Stored_Other (Log_Lane sq lane leaf) \<in> set items \<longrightarrow> map_of lanes lane \<noteq> None"
      using Cons.prems by (meson list.set_intros(2))
    ultimately show ?thesis
      using Cons.IH [of "g(lane := sq)"] known by (simp add: item moved_at_simps del: fun_upd_apply)
  next
    case False
    then have none: "lane_item l item = None" for l
      by (auto simp: lane_item_def split: stored_log_item.splits log_item.splits)
    have "snapshot_generations lanes gens (item # items) = snapshot_generations lanes gens items" for gens
      using False by (auto split: stored_log_item.splits log_item.splits)
    moreover have "\<forall>sq lane leaf. Stored_Other (Log_Lane sq lane leaf) \<in> set items \<longrightarrow> map_of lanes lane \<noteq> None"
      using Cons.prems by (meson list.set_intros(2))
    ultimately show ?thesis using Cons.IH [of g] none by (simp add: moved_at_simps)
  qed
qed (simp add: moved_at_simps)

lemma snapshot_generations_no_panic: "snapshot_generations lanes gens items \<noteq> Inl Snapshot_Panic"
  by (induction items arbitrary: gens) (auto split: stored_log_item.splits log_item.splits)

text \<open>Both ways of tracking open operations agree up to trees that are empty.\<close>

definition open_tree ::
  "(string \<rightharpoonup> (nat, 'f operation_started) btree) \<Rightarrow> string \<Rightarrow> (nat, 'f operation_started) btree" where
  "open_tree ops lane = (case ops lane of None \<Rightarrow> [] | Some m \<Rightarrow> m)"

lemma open_tree_step:
  assumes "open_tree ops = open_tree ops'"
  shows "open_tree (snapshot_operation r ops) = open_tree (track_operation (record_lane r) (record_seq r) r ops')"
proof (rule ext)
  fix lane
  have "open_tree ops l = open_tree ops' l" for l using assms by simp
  note eq = this [unfolded open_tree_def]
  show "open_tree (snapshot_operation r ops) lane =
      open_tree (track_operation (record_lane r) (record_seq r) r ops') lane"
    using eq [of lane] eq [of "record_lane r"]
    by (cases r)
      (auto simp: open_tree_def snapshot_operation_def track_operation_def record_lane_def record_seq_def Let_def
        split: option.splits)
qed

lemma open_tree_fold:
  "open_tree (fold snapshot_operation rs Map.empty) = open_tree (open_ops_of rs)"
proof -
  have "open_tree (fold snapshot_operation rs ops)
      = open_tree (fold (\<lambda>r. track_operation (record_lane r) (record_seq r) r) rs ops')"
    if "open_tree ops = open_tree ops'" for ops ops' :: "string \<Rightarrow> (nat \<times> 'a operation_started) list option"
    using that by (induction rs arbitrary: ops ops') (simp_all add: open_tree_step)
  then show ?thesis by (simp add: open_ops_of_def)
qed

subsection \<open>Retiring what old snapshots still hold\<close>

lemma retire_cleared_eq:
  assumes "records_in_order s"
  shows "retire_cleared s f = Inr (retire_spec (covered (Rec_AssistantFrame f)) s)"
proof -
  have "retire_spec (\<lambda>_. False) s = s" by (rule retire_spec_id [OF assms]) simp
  then show ?thesis
    by (cases "af_op f")
      (simp_all add: retire_cleared_def retire_cleared_frames_def retire_frames_eq [OF assms] covered_def [abs_def])
qed

lemma retire_spec_in_order: "records_in_order s \<Longrightarrow> records_in_order (retire_spec P s)"
  by (simp add: records_in_order_def record_ref_renumber filter_map_renumber retire_spec_def)

lemma retire_all_eq:
  "records_in_order s \<Longrightarrow>
     fold_res retire_cleared s fs = Inr (foldl (\<lambda>s f. retire_spec (covered (Rec_AssistantFrame f)) s) s fs)"
  by (induction fs arbitrary: s) (simp_all add: retire_cleared_eq retire_spec_in_order)

lemma retire_all_simps:
  "ix_sequence (foldl (\<lambda>s f. retire_spec (P f) s) s fs) = ix_sequence s"
  "ix_used_ids (foldl (\<lambda>s f. retire_spec (P f) s) s fs) = ix_used_ids s"
  "ix_entries (foldl (\<lambda>s f. retire_spec (P f) s) s fs) = ix_entries s"
  "ix_metadata (foldl (\<lambda>s f. retire_spec (P f) s) s fs) = ix_metadata s"
  "ix_entries_by_id (foldl (\<lambda>s f. retire_spec (P f) s) s fs) = ix_entries_by_id s"
  "ix_nearest_user (foldl (\<lambda>s f. retire_spec (P f) s) s fs) = ix_nearest_user s"
  "ix_records (foldl (\<lambda>s f. retire_spec (P f) s) s fs) = filter (\<lambda>r. \<forall>f \<in> set fs. \<not> P f r) (ix_records s)"
  by (induction fs arbitrary: s) (simp_all add: conj_commute)

lemma wf_log_retire_all: "wf_log s \<Longrightarrow> wf_log (foldl (\<lambda>s f. retire_spec (P f) s) s fs)"
  by (induction fs arbitrary: s) (simp_all add: wf_log_retire)

lemma covered_clear: "covered c r \<Longrightarrow> \<exists>f. c = Rec_AssistantFrame f \<and> clear_of c = Some f"
  by (auto simp: covered_def clear_of_def split: lane_record.splits frame_op.splits)

lemma clear_of_Some: "clear_of c = Some f \<Longrightarrow> c = Rec_AssistantFrame f"
  by (auto simp: clear_of_def split: lane_record.splits if_splits)

lemma retire_all_id:
  "records_in_order s \<Longrightarrow> \<forall>f \<in> set fs. \<forall>r \<in> set (ix_records s). \<not> P f r \<Longrightarrow>
     foldl (\<lambda>s f. retire_spec (P f) s) s fs = s"
  by (induction fs) (simp_all add: retire_spec_id)

subsection \<open>Reading back what was written\<close>

lemma snapshot_state_wf_log:
  assumes "snapshot_check_log sn [] [] 0 (sn_log sn) = Inr ()"
  shows "wf_log (snapshot_state sn used gens nearest)"
proof -
  let ?s = "snapshot_state sn used gens nearest"
  have ok: "filter_map entry_ref (sn_log sn) = [0..<length (sn_entries sn)]"
    "filter_map record_ref (sn_log sn) = [0..<length (sn_records sn)]"
    "list_all is_fact_item (sn_log sn)"
    "sorted_wrt (<) (0 # map (snapshot_seq sn) (sn_log sn))"
    "\<forall>x \<in> set (sn_log sn). snapshot_seq sn x \<le> sn_sequence sn"
    using assms snapshot_check_log_iff [of 0 sn 0 0 "sn_log sn"] by simp_all
  have "stored_seq ?s x = snapshot_seq sn x" if "x \<in> set (sn_log sn)" for x
  proof (cases x)
    case (Stored_Entry i)
    then have "i \<in> set (filter_map entry_ref (sn_log sn))"
      using that by (auto simp: set_filter_map)
    then show ?thesis
      by (simp add: ok(1) Stored_Entry stored_seq_def snapshot_seq_def snapshot_state_def)
  qed (simp_all add: stored_seq_def snapshot_seq_def snapshot_state_def)
  then have "log_seqs ?s = map (snapshot_seq sn) (sn_log sn)"
    by (simp add: log_seqs_def snapshot_state_def)
  then show ?thesis
    using ok by (auto simp: wf_log_def records_in_order_def snapshot_state_def)
qed

definition snapshot_accepts ::
  "'f snapshot \<Rightarrow> string set \<Rightarrow> (string, nat) btree \<Rightarrow> nat option list \<Rightarrow> bool" where
  "snapshot_accepts sn used gens nearest \<longleftrightarrow>
     sn_format sn = snapshot_format \<and> snapshot_ids sn = Inr used
     \<and> snapshot_check_log sn [] [] 0 (sn_log sn) = Inr ()
     \<and> snapshot_generations (sn_lanes sn) (map (\<lambda>(lane, leaf). (lane, 0)) (sn_lanes sn)) (sn_log sn) = Inr gens
     \<and> snapshot_users (snapshot_by_id (sn_entries sn)) [] (sn_entries sn) = Inr nearest"

definition retired_state :: "'f session_state \<Rightarrow> 'f session_state" where
  "retired_state s =
     foldl (\<lambda>s f. retire_spec (covered (Rec_AssistantFrame f)) s) s (filter_map clear_of (ix_records s))"

lemma restore_snapshot_iff:
  "restore_snapshot sn = Inr t \<longleftrightarrow>
     (\<exists>used gens nearest. snapshot_accepts sn used gens nearest
        \<and> t = retired_state (snapshot_state sn used gens nearest))"
proof -
  have "fold_res retire_cleared (snapshot_state sn used gens nearest) (filter_map clear_of (sn_records sn))
      = Inr (retired_state (snapshot_state sn used gens nearest))"
    if "snapshot_check_log sn [] [] 0 (sn_log sn) = Inr ()" for used gens nearest
  proof -
    have "records_in_order (snapshot_state sn used gens nearest)"
      using snapshot_state_wf_log [OF that] by (simp add: wf_log_def)
    then show ?thesis
      by (simp add: retire_all_eq retired_state_def snapshot_state_def)
  qed
  then show ?thesis
    by (auto simp: restore_snapshot_def snapshot_accepts_def)
qed

lemma reach_finite_ids: "session_reach s \<Longrightarrow> finite (ix_used_ids s)"
proof (induction rule: session_reach.induct)
  case (reach_mutation s m t out)
  then have order: "records_in_order s" by (simp add: reach_wf session_wfD)
  show ?case
    using reach_mutation(3,4)
    by (cases m)
      (auto simp: session_apply_def apply_mutation_def apply_entry_Inr_iff apply_record_Inr_iff [OF order]
        apply_lane_def apply_fact_name_def apply_fact_label_def)
qed (auto simp: session_new_def index_new_def reserve_cold_frame_def reserve_cold_frame_identity_def
    resync_sequence_def)

lemma by_id_rebuilt:
  assumes "session_wf s"
  shows "snapshot_by_id (ix_entries s) = ix_entries_by_id s"
proof -
  have "distinct (map entry_id (ix_entries s))"
    using session_wfD(2,5) [OF assms] by (simp add: wf_ids_def live_ids_def comp_def)
  note iff = snapshot_by_id_iff [OF this]
  have "snapshot_by_id (ix_entries s) i = Some k \<longleftrightarrow> ix_entries_by_id s i = Some k" for i k
    using iff session_id_of [OF assms] session_of_id [OF assms] by metis
  then show ?thesis by (metis ext not_Some_eq)
qed

lemma snapshot_accepted:
  assumes wf: "session_wf s" and fin: "finite (ix_used_ids s)"
  shows "snapshot_accepts (take_snapshot s) (ix_used_ids s) (ix_lane_generations s) (ix_nearest_user s)"
proof -
  let ?sn = "take_snapshot s"
  let ?live = "map entry_id (ix_entries s) @ map record_id (ix_records s)"
  note parts = session_wfD [OF wf]
  have live: "live_ids s = ?live" by (simp add: live_ids_def parts(2) comp_def)
  have "snapshot_ids ?sn = Inr (ix_used_ids s)"
    using parts(5) fin unfolding wf_ids_def live
    by (auto simp: snapshot_ids_iff take_snapshot_def)
  moreover have "snapshot_check_log ?sn [] [] 0 (sn_log ?sn) = Inr ()"
  proof -
    have "stored_seq s x = snapshot_seq ?sn x" if "x \<in> set (ix_log s)" for x
    proof (cases x)
      case (Stored_Entry i)
      then have "i \<in> set (filter_map entry_ref (ix_log s))" using that by (auto simp: set_filter_map)
      then have "i < length (ix_entries s)" using parts(2,7) by (simp add: wf_log_def)
      then show ?thesis
        by (simp add: Stored_Entry stored_seq_def snapshot_seq_def take_snapshot_def parts(2))
    qed (simp_all add: stored_seq_def snapshot_seq_def take_snapshot_def)
    then have "log_seqs s = map (snapshot_seq ?sn) (ix_log s)" by (simp add: log_seqs_def)
    moreover have "sn_entries ?sn = ix_entries s" "sn_records ?sn = ix_records s" "sn_log ?sn = ix_log s"
      "sn_sequence ?sn = ix_sequence s"
      by (simp_all add: take_snapshot_def)
    ultimately show ?thesis
      using parts(7) snapshot_check_log_iff [of 0 ?sn 0 0 "ix_log s"]
      by (auto simp: wf_log_def records_in_order_def parts(2))
  qed
  moreover have "snapshot_generations (sn_lanes ?sn) (map (\<lambda>(lane, leaf). (lane, 0)) (sn_lanes ?sn)) (sn_log ?sn)
      = Inr (ix_lane_generations s)"
  proof -
    have lanes: "bt_sorted (ix_lanes s)" "lanes_logged s"
      "ix_lane_generations s = map (\<lambda>(lane, leaf). (lane, last_lane_seq lane (ix_log s))) (ix_lanes s)"
      using parts(6) by (auto simp: wf_lanes_def)
    show ?thesis
      using snapshot_generations_eq [OF lanes(1), of "ix_log s" "\<lambda>_. 0"] lanes(2)
      by (simp add: lanes(3) take_snapshot_def lanes_logged_def moved_at_def last_lane_seq_def)
  qed
  moreover have "snapshot_users (snapshot_by_id (sn_entries ?sn)) [] (sn_entries ?sn) = Inr (ix_nearest_user s)"
    using parts(3,4) unfolding snapshot_users_iff
    by (auto simp: take_snapshot_def by_id_rebuilt [OF wf] wf_table_def wf_users_def parts(2)
        parent_before_def user_at_def)
  ultimately show ?thesis by (simp add: snapshot_accepts_def take_snapshot_def)
qed

lemma restore_taken:
  assumes wf: "session_wf s" and fin: "finite (ix_used_ids s)"
  shows "restore_snapshot (take_snapshot s) =
     Inr (s\<lparr>ix_open_ops := fold snapshot_operation (ix_records s) Map.empty\<rparr>)"
proof -
  let ?t = "snapshot_state (take_snapshot s) (ix_used_ids s) (ix_lane_generations s) (ix_nearest_user s)"
  note parts = session_wfD [OF wf]
  have t: "?t = s\<lparr>ix_open_ops := fold snapshot_operation (ix_records s) Map.empty\<rparr>"
    using parts(10) by (simp add: snapshot_state_def take_snapshot_def by_id_rebuilt [OF wf] parts(2) records_in_order_def)
  have "retired_state ?t = ?t"
    unfolding retired_state_def t
  proof (rule retire_all_id)
    show "records_in_order (s\<lparr>ix_open_ops := fold snapshot_operation (ix_records s) Map.empty\<rparr>)"
      using parts(10) by (simp add: records_in_order_def)
    show "\<forall>f \<in> set (filter_map clear_of (ix_records (s\<lparr>ix_open_ops := fold snapshot_operation (ix_records s) Map.empty\<rparr>))).
        \<forall>r \<in> set (ix_records (s\<lparr>ix_open_ops := fold snapshot_operation (ix_records s) Map.empty\<rparr>)).
          \<not> covered (Rec_AssistantFrame f) r"
      using parts(9) clear_of_Some by (auto simp: wf_frames_def set_filter_map)
  qed
  then show ?thesis
    using snapshot_accepted [OF wf fin] t restore_snapshot_iff by metis
qed

lemma restored_wf:
  assumes "restore_snapshot sn = Inr t"
  shows "wf_table t \<and> wf_users t \<and> wf_ids t \<and> wf_log t \<and> wf_frames t"
proof -
  obtain used gens nearest where ok: "snapshot_accepts sn used gens nearest"
    and t: "t = retired_state (snapshot_state sn used gens nearest)"
    using assms by (auto simp: restore_snapshot_iff)
  let ?s = "snapshot_state sn used gens nearest" and ?es = "sn_entries sn"
  have ids: "distinct (map entry_id ?es @ map record_id (sn_records sn))"
    "set (map entry_id ?es @ map record_id (sn_records sn)) \<subseteq> used"
    using ok by (auto simp: snapshot_accepts_def snapshot_ids_iff Let_def)
  have log: "wf_log ?s" using ok by (intro snapshot_state_wf_log) (simp add: snapshot_accepts_def)
  note by_id = snapshot_by_id_iff [of ?es]
  have users: "length nearest = length ?es"
    "\<forall>i < length ?es. parent_before (snapshot_by_id ?es) i (?es ! i)
       \<and> nearest ! i = user_at (snapshot_by_id ?es) nearest i (?es ! i)"
    using ok by (auto simp: snapshot_accepts_def snapshot_users_iff)
  have fields: "ix_records ?s = sn_records sn" "ix_metadata ?s = map entry_meta_of ?es" "ix_entries ?s = ?es"
    "ix_entries_by_id ?s = snapshot_by_id ?es" "ix_nearest_user ?s = nearest" "ix_used_ids ?s = used"
    by (simp_all add: snapshot_state_def)
  have "wf_table t"
    using ids(1) users by (auto simp: t wf_table_def retired_state_def retire_all_simps fields by_id parent_before_def)
  moreover have "wf_users t"
    using users by (auto simp: t wf_users_def retired_state_def retire_all_simps fields user_at_def cong: option.case_cong)
  moreover have "wf_ids t"
    using ids
    by (auto simp: t wf_ids_def live_ids_def retired_state_def retire_all_simps fields comp_def intro!: distinct_map_filter)
  moreover have "wf_log t"
    using log by (simp add: t retired_state_def wf_log_retire_all)
  moreover have "wf_frames t"
    unfolding wf_frames_def
  proof (intro ballI notI)
    fix c r assume in_t: "c \<in> set (ix_records t)" "r \<in> set (ix_records t)" and cov: "covered c r"
    from covered_clear [OF cov] obtain f where f: "c = Rec_AssistantFrame f" "clear_of c = Some f" by blast
    then have "f \<in> set (filter_map clear_of (ix_records ?s))"
      using in_t(1) by (auto simp: t retired_state_def retire_all_simps set_filter_map)
    then show False
      using in_t(2) cov f(1) by (auto simp: t retired_state_def retire_all_simps)
  qed
  ultimately show ?thesis by simp
qed

lemma restore_no_panic: "restore_snapshot sn \<noteq> Inl Snapshot_Panic"
proof
  assume panic: "restore_snapshot sn = Inl Snapshot_Panic"
  have ids: "snapshot_ids sn \<noteq> Inl Snapshot_Panic"
  proof -
    have "reserve_ids u is \<noteq> Inl Snapshot_Panic" for u "is"
      by (induction "is" arbitrary: u) auto
    then show ?thesis by (auto simp: snapshot_ids_def Let_def res_bind_Inl_iff)
  qed
  have log: "snapshot_check_log sn es rs q items \<noteq> Inl Snapshot_Panic" for es rs q items
  proof (induction items arbitrary: es rs q)
    case (Cons item items)
    have "snapshot_item_seq sn es rs item \<noteq> Inl Snapshot_Panic"
      by (auto simp: snapshot_item_seq_def split: stored_log_item.splits log_item.splits)
    with Cons show ?case by (auto simp: res_bind_Inl_iff)
  qed simp
  from panic ids log [of "[]"]
  obtain used gens nearest where ok: "snapshot_check_log sn [] [] 0 (sn_log sn) = Inr ()"
    and fold: "fold_res retire_cleared (snapshot_state sn used gens nearest)
      (filter_map clear_of (sn_records sn)) = Inl Snapshot_Panic"
    by (auto simp: restore_snapshot_def res_bind_Inl_iff snapshot_generations_no_panic snapshot_users_no_panic)
  have "records_in_order (snapshot_state sn used gens nearest)"
    using snapshot_state_wf_log [OF ok] by (simp add: wf_log_def)
  with fold show False by (simp add: retire_all_eq)
qed

subsection \<open>Properties\<close>

text \<open>
  C39. Restoring the snapshot of a reachable session gives the session back: every rebuilt table
  equals the live one, except that the open operations of a lane without any may be an empty tree
  instead of none.
\<close>

theorem snapshot_round_trip:
  assumes "session_reach s"
  shows "\<exists>ops. restore_snapshot (take_snapshot s) = Inr (s\<lparr>ix_open_ops := ops\<rparr>)
     \<and> open_tree ops = open_tree (ix_open_ops s)"
  using restore_taken [OF reach_wf [OF assms] reach_finite_ids [OF assms]]
    open_tree_fold [of "ix_records s"] session_wfD(8) [OF reach_wf [OF assms]]
  by (auto simp: wf_derived_def)

theorem snapshot_round_trip_witness:
  "\<exists>ops. restore_snapshot (take_snapshot demo_state) = Inr (demo_state\<lparr>ix_open_ops := ops\<rparr>)
     \<and> open_tree ops = open_tree (ix_open_ops demo_state)"
  by (rule snapshot_round_trip [OF demo_reach])

text \<open>
  No snapshot, however malformed, makes the restore index out of range, and whatever is
  accepted has consistent tables: parents precede children, the nearest-user index is exact,
  identifiers are distinct and reserved, the log lists every payload once in ascending sequence,
  and no cleared frame is left.
\<close>

theorem restored_snapshot_sound:
  "restore_snapshot sn \<noteq> Inl Snapshot_Panic
     \<and> (\<forall>t. restore_snapshot sn = Inr t \<longrightarrow>
           wf_table t \<and> wf_users t \<and> wf_ids t \<and> wf_log t \<and> wf_frames t)"
  using restore_no_panic restored_wf by blast

definition demo_snapshot :: "int snapshot" where
  "demo_snapshot = (take_snapshot demo_hot)
     \<lparr>sn_sequence := 8, sn_records := ix_records demo_hot @ [demo_frame ''f3'' 8 Frame_ClearStream],
      sn_log := ix_log demo_hot @ [Stored_Record 3]\<rparr>"

theorem restored_snapshot_sound_witness:
  "\<exists>t. restore_snapshot demo_snapshot = Inr t \<and> length (sn_records demo_snapshot) = 4
     \<and> length (ix_records t) = 2 \<and> wf_log t"
proof -
  have "\<not> isl (restore_snapshot demo_snapshot)" by code_simp
  then obtain t where t: "restore_snapshot demo_snapshot = Inr t" by (metis sum.collapse(2))
  have "length (ix_records (projr (restore_snapshot demo_snapshot))) = 2" "length (sn_records demo_snapshot) = 4"
    by code_simp+
  with t restored_snapshot_sound [of demo_snapshot] show ?thesis by auto
qed

end
