(* ===== verification/Harness_Messages.thy ===== *)
theory Harness_Messages
  imports Session_Types Rust_Text
begin

text \<open>
  \<open>crates/evo-harness/src/messages.rs\<close>: the four custom roles of the harness, the repair
  of interrupted tool batches and the conversion of a context to provider messages. The
  codecs serde derives for the role payloads are a parameter (\<open>role_codecs\<close>).
\<close>

subsection \<open>Role payloads\<close>

record bash_execution_data =
  bx_command :: string
  bx_output :: string
  bx_exit_code :: "32 word option"
  bx_cancelled :: bool
  bx_truncated :: bool
  bx_full_output_path :: "string option"
  bx_exclude_from_context :: "bool option"

record branch_summary_data =
  bd_summary :: string
  bd_from_id :: string

record compaction_summary_data =
  cd_summary :: string
  cd_tokens_before :: i64
  cd_estimated_before :: "i64 option"
  cd_retained_messages :: "nat option"

record 'f custom_data =
  cx_custom_type :: string
  cx_display :: bool
  cx_details :: "'f json option"

record 'f role_codecs =
  enc_bash :: "bash_execution_data \<Rightarrow> 'f json"
  dec_bash :: "'f json \<Rightarrow> bash_execution_data option"
  enc_branch :: "branch_summary_data \<Rightarrow> 'f json"
  dec_branch :: "'f json \<Rightarrow> branch_summary_data option"
  enc_compaction :: "compaction_summary_data \<Rightarrow> 'f json"
  dec_compaction :: "'f json \<Rightarrow> compaction_summary_data option"
  enc_custom :: "'f custom_data \<Rightarrow> 'f json"
  dec_custom :: "'f json \<Rightarrow> 'f custom_data option"

definition bash_execution_role :: string where "bash_execution_role = ''bashExecution''"
definition custom_role :: string where "custom_role = ''custom''"
definition branch_summary_role :: string where "branch_summary_role = ''branchSummary''"
definition compaction_summary_role :: string where "compaction_summary_role = ''compactionSummary''"

lemmas role_defs = bash_execution_role_def custom_role_def branch_summary_role_def
  compaction_summary_role_def

subsection \<open>Constructors and accessors\<close>

definition bash_execution_message ::
  "'f role_codecs \<Rightarrow> bash_execution_data \<Rightarrow> i64 \<Rightarrow> 'f agent_message" where
  "bash_execution_message C d ts =
     AgentMessage_Custom
       \<lparr>cm_role = bash_execution_role, cm_content = [], cm_data = enc_bash C d, cm_timestamp = ts\<rparr>"

definition create_branch_summary_message ::
  "'f role_codecs \<Rightarrow> string \<Rightarrow> string \<Rightarrow> i64 \<Rightarrow> 'f agent_message" where
  "create_branch_summary_message C summary from_id ts =
     AgentMessage_Custom
       \<lparr>cm_role = branch_summary_role, cm_content = [],
        cm_data = enc_branch C \<lparr>bd_summary = summary, bd_from_id = from_id\<rparr>, cm_timestamp = ts\<rparr>"

definition create_compaction_summary_message ::
  "'f role_codecs \<Rightarrow> string \<Rightarrow> i64 \<Rightarrow> i64 \<Rightarrow> 'f agent_message" where
  "create_compaction_summary_message C summary tokens_before ts =
     AgentMessage_Custom
       \<lparr>cm_role = compaction_summary_role, cm_content = [],
        cm_data = enc_compaction C
          \<lparr>cd_summary = summary, cd_tokens_before = tokens_before, cd_estimated_before = None,
           cd_retained_messages = None\<rparr>,
        cm_timestamp = ts\<rparr>"

definition create_custom_message ::
  "'f role_codecs \<Rightarrow> string \<Rightarrow> 'f user_content \<Rightarrow> bool \<Rightarrow> 'f json option \<Rightarrow> i64 \<Rightarrow> 'f agent_message" where
  "create_custom_message C custom_type content display details ts =
     AgentMessage_Custom
       \<lparr>cm_role = custom_role,
        cm_content = (case content of UserContent_Text s \<Rightarrow> [content_text s] | UserContent_Blocks b \<Rightarrow> b),
        cm_data = enc_custom C \<lparr>cx_custom_type = custom_type, cx_display = display, cx_details = details\<rparr>,
        cm_timestamp = ts\<rparr>"

fun with_compaction_facts :: "'f agent_message \<Rightarrow> nat \<Rightarrow> i64 option \<Rightarrow> 'f agent_message" where
  "with_compaction_facts (AgentMessage_Custom c) retained estimated =
     (let data = json_insert ''retainedMessages'' (JInt (int retained)) (cm_data c)
      in AgentMessage_Custom
           (c\<lparr>cm_data :=
               (case estimated of None \<Rightarrow> data
                | Some e \<Rightarrow> json_insert ''estimatedBefore'' (JInt (sint e)) data)\<rparr>))"
| "with_compaction_facts m retained estimated = m"

definition estimated_before_of :: "'f compaction_entry \<Rightarrow> i64 option" where
  "estimated_before_of e =
     map_option word_of_int
       (Option.bind (Option.bind (ce_details e) (json_get ''estimatedBefore'')) json_as_i64)"

definition compaction_summary_message_of ::
  "'f role_codecs \<Rightarrow> 'f compaction_entry \<Rightarrow> 'f agent_message" where
  "compaction_summary_message_of C e =
     with_compaction_facts
       (create_compaction_summary_message C (ce_summary e) (ce_tokens_before e) (eb_timestamp (ce_base e)))
       (length (ce_retained_tail e)) (estimated_before_of e)"

definition role_data :: "string \<Rightarrow> ('f json \<Rightarrow> 'a option) \<Rightarrow> 'f agent_message \<Rightarrow> 'a option" where
  "role_data role dec m =
     (case m of
        AgentMessage_Custom c \<Rightarrow> if cm_role c = role then dec (cm_data c) else None
      | _ \<Rightarrow> None)"

definition compaction_summary_data_of ::
  "'f role_codecs \<Rightarrow> 'f agent_message \<Rightarrow> compaction_summary_data option" where
  "compaction_summary_data_of C m = role_data compaction_summary_role (dec_compaction C) m"

definition branch_summary_data_of ::
  "'f role_codecs \<Rightarrow> 'f agent_message \<Rightarrow> branch_summary_data option" where
  "branch_summary_data_of C m = role_data branch_summary_role (dec_branch C) m"

definition bash_execution_data_of ::
  "'f role_codecs \<Rightarrow> 'f agent_message \<Rightarrow> bash_execution_data option" where
  "bash_execution_data_of C m = role_data bash_execution_role (dec_bash C) m"

definition custom_data_of :: "'f role_codecs \<Rightarrow> 'f agent_message \<Rightarrow> 'f custom_data option" where
  "custom_data_of C m = role_data custom_role (dec_custom C) m"

subsection \<open>Rendering\<close>

definition bash_execution_to_text :: "bash_execution_data \<Rightarrow> string" where
  "bash_execution_to_text d =
     ''Ran `'' @ bx_command d @ ''`'' @ newline
     @ (if bx_output d \<noteq> [] then ''```'' @ newline @ bx_output d @ newline @ ''```'' else ''(no output)'')
     @ (if bx_cancelled d then newline @ newline @ ''(command cancelled)''
        else case bx_exit_code d of
               Some code \<Rightarrow>
                 if code \<noteq> 0 then newline @ newline @ ''Command exited with code '' @ show_int (sint code) else []
             | None \<Rightarrow> [])
     @ (if bx_truncated d
        then case bx_full_output_path d of
               Some full \<Rightarrow> newline @ newline @ ''[Output truncated. Full output: '' @ full @ '']''
             | None \<Rightarrow> []
        else [])"

definition compaction_summary_prefix :: string where
  "compaction_summary_prefix =
     ''The conversation history before this point was compacted into the following summary:''
     @ newline @ newline @ ''<summary>'' @ newline"

definition compaction_summary_suffix :: string where
  "compaction_summary_suffix = newline @ ''</summary>''"

definition branch_summary_prefix :: string where
  "branch_summary_prefix =
     ''The following is a summary of a branch that this conversation came back from:''
     @ newline @ newline @ ''<summary>'' @ newline"

definition branch_summary_suffix :: string where
  "branch_summary_suffix = ''</summary>''"

subsection \<open>Repairing tool batches\<close>

text \<open>A pending call is its identifier and its tool name; duplicates are kept.\<close>

definition pending_calls :: "'f assistant_message \<Rightarrow> (string \<times> string) list" where
  "pending_calls a = map (\<lambda>t. (tcall_id t, tcall_name t)) (tool_calls_of (am_content a))"

definition answers :: "'f tool_result_message \<Rightarrow> string \<times> string \<Rightarrow> bool" where
  "answers r call \<longleftrightarrow> fst call = tr_tool_call_id r \<and> snd call = tr_tool_name r"

definition remove_at :: "nat \<Rightarrow> 'a list \<Rightarrow> 'a list" where
  "remove_at i xs = take i xs @ drop (Suc i) xs"

fun needs_no_repair_from :: "(string \<times> string) list \<Rightarrow> 'f agent_message list \<Rightarrow> bool" where
  "needs_no_repair_from pending [] = (pending = [])"
| "needs_no_repair_from pending (AgentMessage_Assistant a # ms) =
     (pending = [] \<and> needs_no_repair_from (pending @ pending_calls a) ms)"
| "needs_no_repair_from pending (AgentMessage_ToolResult r # ms) =
     (case position (answers r) pending of
        None \<Rightarrow> False
      | Some i \<Rightarrow> needs_no_repair_from (remove_at i pending) ms)"
| "needs_no_repair_from pending (m # ms) = (pending = [] \<and> needs_no_repair_from pending ms)"

definition tool_batches_need_no_repair :: "'f agent_message list \<Rightarrow> bool" where
  "tool_batches_need_no_repair ms = needs_no_repair_from [] ms"

definition recovery_tool_result :: string where
  "recovery_tool_result =
     ''Tool call was interrupted before its result was persisted. ''
     @ ''The tool was not re-executed during session recovery.''"

definition recovered_result :: "i64 \<Rightarrow> string \<times> string \<Rightarrow> 'f agent_message" where
  "recovered_result ts call =
     AgentMessage_ToolResult
       \<lparr>tr_tool_call_id = fst call, tr_tool_name = snd call,
        tr_content = [content_text recovery_tool_result], tr_details = None, tr_usage = None,
        tr_added_tool_names = [], tr_is_error = True, tr_timestamp = ts\<rparr>"

text \<open>
  The loop behind one assistant message, up to the next one: the results that answer a pending
  call, the other messages, the calls still pending and the rest of the input.
\<close>

fun settle_batch ::
  "(string \<times> string) list \<Rightarrow> 'f agent_message list \<Rightarrow> 'f agent_message list \<Rightarrow> 'f agent_message list
     \<Rightarrow> 'f agent_message list \<times> 'f agent_message list \<times> (string \<times> string) list \<times> 'f agent_message list" where
  "settle_batch pending repaired interleaved [] = (repaired, interleaved, pending, [])"
| "settle_batch pending repaired interleaved (m # ms) =
     (case m of
        AgentMessage_Assistant _ \<Rightarrow> (repaired, interleaved, pending, m # ms)
      | AgentMessage_ToolResult r \<Rightarrow>
          (case position (answers r) pending of
             Some i \<Rightarrow> settle_batch (remove_at i pending) (repaired @ [m]) interleaved ms
           | None \<Rightarrow> settle_batch pending repaired interleaved ms)
      | _ \<Rightarrow> settle_batch pending repaired (interleaved @ [m]) ms)"

lemma settle_batch_rest: "settle_batch p rs il ms = (rs', il', p', rest) \<Longrightarrow> length rest \<le> length ms"
  by (induction p rs il ms rule: settle_batch.induct)
    (auto split: agent_message.splits option.splits intro: le_SucI)

function repair_slow ::
  "'f agent_message list \<Rightarrow> string list \<Rightarrow> 'f agent_message list \<Rightarrow> 'f agent_message list \<times> string list" where
  "repair_slow repaired report [] = (repaired, report)"
| "repair_slow repaired report (m # ms) =
     (case m of
        AgentMessage_Assistant a \<Rightarrow>
          (case settle_batch (pending_calls a) (repaired @ [m]) [] ms of
             (repaired', interleaved, pending, rest) \<Rightarrow>
               repair_slow
                 (repaired' @ map (recovered_result (am_timestamp a)) pending @ interleaved)
                 (report @ map fst pending) rest)
      | AgentMessage_ToolResult _ \<Rightarrow> repair_slow repaired report ms
      | _ \<Rightarrow> repair_slow (repaired @ [m]) report ms)"
  by pat_completeness auto

termination
  by (relation "measure (\<lambda>(rs, rep, ms). length ms)")
    (auto simp: less_Suc_eq_le dest: settle_batch_rest [OF sym])

definition repair_orphaned_tool_calls_slow :: "'f agent_message list \<Rightarrow> 'f agent_message list \<times> string list" where
  "repair_orphaned_tool_calls_slow ms = repair_slow [] [] ms"

definition repair_orphaned_tool_calls :: "'f agent_message list \<Rightarrow> 'f agent_message list \<times> string list" where
  "repair_orphaned_tool_calls ms =
     (if tool_batches_need_no_repair ms then (ms, []) else repair_orphaned_tool_calls_slow ms)"

subsection \<open>Conversion to provider messages\<close>

datatype 'f message =
    Message_User "'f user_message"
  | Message_Assistant "'f assistant_message"
  | Message_ToolResult "'f tool_result_message"

definition user_message_new :: "'f user_content \<Rightarrow> i64 \<Rightarrow> 'f user_message" where
  "user_message_new content ts = \<lparr>um_content = content, um_timestamp = ts\<rparr>"

definition convert_custom_to_llm :: "'f role_codecs \<Rightarrow> 'f custom_message \<Rightarrow> 'f message option" where
  "convert_custom_to_llm C c =
     (let user = \<lambda>content. Some (Message_User (user_message_new content (cm_timestamp c)))
      in if cm_role c = bash_execution_role then
           Option.bind (dec_bash C (cm_data c)) (\<lambda>d.
             if bx_exclude_from_context d = Some True then None
             else user (UserContent_Text (bash_execution_to_text d)))
         else if cm_role c = custom_role then user (UserContent_Blocks (cm_content c))
         else if cm_role c = branch_summary_role then
           Option.bind (dec_branch C (cm_data c)) (\<lambda>d.
             user (UserContent_Text (branch_summary_prefix @ bd_summary d @ branch_summary_suffix)))
         else if cm_role c = compaction_summary_role then
           Option.bind (dec_compaction C (cm_data c)) (\<lambda>d.
             user (UserContent_Text (compaction_summary_prefix @ cd_summary d @ compaction_summary_suffix)))
         else None)"

definition convert_message :: "'f role_codecs \<Rightarrow> 'f agent_message \<Rightarrow> 'f message option" where
  "convert_message C m =
     (case m of
        AgentMessage_User u \<Rightarrow> Some (Message_User u)
      | AgentMessage_Assistant a \<Rightarrow> Some (Message_Assistant a)
      | AgentMessage_ToolResult t \<Rightarrow> Some (Message_ToolResult t)
      | AgentMessage_Custom c \<Rightarrow> convert_custom_to_llm C c)"

definition convert_to_llm :: "'f role_codecs \<Rightarrow> 'f agent_message list \<Rightarrow> 'f message list" where
  "convert_to_llm C ms = filter_map (convert_message C) (fst (repair_orphaned_tool_calls ms))"

definition convert_to_llm_incremental :: "'f role_codecs \<Rightarrow> 'f agent_message list \<Rightarrow> 'f message list" where
  "convert_to_llm_incremental C ms = filter_map (convert_message C) ms"

subsection \<open>What the repair guarantees\<close>

fun is_tool_result :: "'f agent_message \<Rightarrow> bool" where
  "is_tool_result (AgentMessage_ToolResult _) = True"
| "is_tool_result _ = False"

definition is_plain :: "'f agent_message \<Rightarrow> bool" where
  "is_plain m \<longleftrightarrow> \<not> is_assistant m \<and> \<not> is_tool_result m"

lemma is_plain_simps [simp]:
  "is_plain (AgentMessage_User u)" "is_plain (AgentMessage_Custom c)"
  "\<not> is_plain (AgentMessage_Assistant a)" "\<not> is_plain (AgentMessage_ToolResult r)"
  by (simp_all add: is_plain_def)

text \<open>The calls still pending after a piece of a transcript, when it is legal so far.\<close>

fun pending_step :: "(string \<times> string) list \<Rightarrow> 'f agent_message \<Rightarrow> (string \<times> string) list option" where
  "pending_step p (AgentMessage_Assistant a) = (if p = [] then Some (pending_calls a) else None)"
| "pending_step p (AgentMessage_ToolResult r) = map_option (\<lambda>i. remove_at i p) (position (answers r) p)"
| "pending_step p m = (if p = [] then Some p else None)"

fun pending_after :: "(string \<times> string) list \<Rightarrow> 'f agent_message list \<Rightarrow> (string \<times> string) list option" where
  "pending_after p [] = Some p"
| "pending_after p (m # ms) = Option.bind (pending_step p m) (\<lambda>q. pending_after q ms)"

lemma needs_no_repair_iff: "needs_no_repair_from p ms \<longleftrightarrow> pending_after p ms = Some []"
  by (induction p ms rule: needs_no_repair_from.induct) (auto split: option.splits)

lemma pending_after_append:
  "pending_after p (xs @ ys) = Option.bind (pending_after p xs) (\<lambda>q. pending_after q ys)"
  by (induction xs arbitrary: p) (simp_all add: Option.bind_assoc)

lemma pending_after_plain: "list_all is_plain ms \<Longrightarrow> pending_after [] ms = Some []"
proof (induction ms)
  case (Cons m ms)
  then show ?case by (cases m) (auto simp: is_plain_def)
qed simp

lemma pending_after_recovered: "pending_after p (map (recovered_result ts) p) = Some []"
  by (induction p) (auto simp: recovered_result_def answers_def remove_at_def)

lemma settle_batch_spec:
  "settle_batch p rs il ms = (rs', il', p', rest) \<Longrightarrow>
     \<exists>taken R. ms = taken @ rest \<and> rs' = rs @ R \<and> il' = il @ filter is_plain taken
       \<and> list_all (\<lambda>m. \<not> is_assistant m) taken \<and> list_all is_tool_result R \<and> set R \<subseteq> set taken
       \<and> pending_after p R = Some p'"
proof (induction p rs il ms rule: settle_batch.induct)
  case (1 p rs il)
  then show ?case by simp
next
  case (2 p rs il m ms)
  show ?case
  proof (cases m)
    case (AgentMessage_Assistant a)
    with 2 show ?thesis by auto
  next
    case (AgentMessage_ToolResult r)
    show ?thesis
    proof (cases "position (answers r) p")
      case None
      with 2 AgentMessage_ToolResult obtain taken R where
        "ms = taken @ rest \<and> rs' = rs @ R \<and> il' = il @ filter is_plain taken
         \<and> list_all (\<lambda>m. \<not> is_assistant m) taken \<and> list_all is_tool_result R \<and> set R \<subseteq> set taken
         \<and> pending_after p R = Some p'" by auto
      with AgentMessage_ToolResult show ?thesis
        by - (rule exI [of _ "m # taken"], rule exI [of _ R], auto)
    next
      case (Some i)
      with 2 AgentMessage_ToolResult obtain taken R where
        "ms = taken @ rest \<and> rs' = (rs @ [m]) @ R \<and> il' = il @ filter is_plain taken
         \<and> list_all (\<lambda>m. \<not> is_assistant m) taken \<and> list_all is_tool_result R \<and> set R \<subseteq> set taken
         \<and> pending_after (remove_at i p) R = Some p'" by fastforce
      with AgentMessage_ToolResult Some show ?thesis
        by - (rule exI [of _ "m # taken"], rule exI [of _ "m # R"], auto)
    qed
  next
    case (AgentMessage_User u)
    with 2 obtain taken R where
      "ms = taken @ rest \<and> rs' = rs @ R \<and> il' = (il @ [m]) @ filter is_plain taken
       \<and> list_all (\<lambda>m. \<not> is_assistant m) taken \<and> list_all is_tool_result R \<and> set R \<subseteq> set taken
       \<and> pending_after p R = Some p'" by auto
    with AgentMessage_User show ?thesis
      by - (rule exI [of _ "m # taken"], rule exI [of _ R], auto)
  next
    case (AgentMessage_Custom c)
    with 2 obtain taken R where
      "ms = taken @ rest \<and> rs' = rs @ R \<and> il' = (il @ [m]) @ filter is_plain taken
       \<and> list_all (\<lambda>m. \<not> is_assistant m) taken \<and> list_all is_tool_result R \<and> set R \<subseteq> set taken
       \<and> pending_after p R = Some p'" by auto
    with AgentMessage_Custom show ?thesis
      by - (rule exI [of _ "m # taken"], rule exI [of _ R], auto)
  qed
qed

definition repaired_from :: "'f agent_message list \<Rightarrow> string list \<Rightarrow> 'f agent_message \<Rightarrow> bool" where
  "repaired_from ms report m \<longleftrightarrow>
     m \<in> set ms \<or> (\<exists>ts call. m = recovered_result ts call \<and> fst call \<in> set report)"

lemma filter_no_tool_result:
  "list_all (\<lambda>m. \<not> is_assistant m) taken \<Longrightarrow> filter (\<lambda>m. \<not> is_tool_result m) taken = filter is_plain taken"
  by (induction taken) (auto simp: is_plain_def)

lemma recovered_is_result [simp]: "is_tool_result (recovered_result ts call)"
  by (simp add: recovered_result_def)

lemma repair_slow_spec:
  "repair_slow repaired report ms = (out, rep) \<Longrightarrow> pending_after [] repaired = Some [] \<Longrightarrow>
     pending_after [] out = Some []
     \<and> filter (\<lambda>m. \<not> is_tool_result m) out = filter (\<lambda>m. \<not> is_tool_result m) (repaired @ ms)
     \<and> set report \<subseteq> set rep
     \<and> (\<forall>m \<in> set out. m \<in> set repaired \<or> repaired_from ms rep m)"
proof (induction repaired report ms rule: repair_slow.induct)
  case (1 repaired report)
  then show ?case by (simp add: repaired_from_def)
next
  case (2 repaired report m ms)
  show ?case
  proof (cases m)
    case (AgentMessage_Assistant a)
    obtain rs il p rest where batch: "settle_batch (pending_calls a) (repaired @ [m]) [] ms = (rs, il, p, rest)"
      by (metis prod_cases4)
    from settle_batch_spec [OF batch] obtain taken R where
      ms: "ms = taken @ rest" and rs: "rs = (repaired @ [m]) @ R" and il: "il = filter is_plain taken"
      and taken: "list_all (\<lambda>m. \<not> is_assistant m) taken" and R: "list_all is_tool_result R" "set R \<subseteq> set taken"
      and p: "pending_after (pending_calls a) R = Some p" by auto
    let ?acc = "rs @ map (recovered_result (am_timestamp a)) p @ il"
    have run: "repair_slow ?acc (report @ map fst p) rest = (out, rep)"
      using "2.prems"(1) AgentMessage_Assistant batch by simp
    have "list_all is_plain il" by (simp add: il list_all_iff)
    then have acc: "pending_after [] ?acc = Some []"
      using "2.prems"(2) AgentMessage_Assistant p
      by (simp add: rs pending_after_append pending_after_recovered pending_after_plain)
    note IH = "2.IH"(2) [OF AgentMessage_Assistant batch [symmetric] refl refl run acc]
    have "filter (\<lambda>m. \<not> is_tool_result m) R = []"
      using R(1) by (auto simp: filter_empty_conv list_all_iff)
    moreover have "filter (\<lambda>m. \<not> is_tool_result m) (map (recovered_result (am_timestamp a)) p) = []"
      by (auto simp: filter_empty_conv)
    moreover have "filter (\<lambda>m. \<not> is_tool_result m) il = filter (\<lambda>m. \<not> is_tool_result m) taken"
      using filter_no_tool_result [OF taken] by (simp add: il is_plain_def [abs_def])
    ultimately have kept: "filter (\<lambda>m. \<not> is_tool_result m) (?acc @ rest)
        = filter (\<lambda>m. \<not> is_tool_result m) (repaired @ m # ms)"
      by (simp add: rs ms)
    have acc_origin: "x \<in> set repaired \<or> repaired_from (m # ms) rep x" if "x \<in> set ?acc" for x
      using that IH R(2) unfolding rs il repaired_from_def ms by (auto 0 4)
    have "repaired_from (m # ms) rep x" if "repaired_from rest rep x" for x
      using that by (auto simp: repaired_from_def ms)
    then have origin: "\<forall>x \<in> set out. x \<in> set repaired \<or> repaired_from (m # ms) rep x"
      using IH acc_origin by meson
    show ?thesis using IH kept origin by auto
  next
    case (AgentMessage_ToolResult r)
    with 2 show ?thesis by (auto simp: repaired_from_def)
  next
    case (AgentMessage_User u)
    with 2 show ?thesis by (auto simp: repaired_from_def pending_after_append)
  next
    case (AgentMessage_Custom c)
    with 2 show ?thesis by (auto simp: repaired_from_def pending_after_append)
  qed
qed

lemma settle_batch_clean:
  "pending_after p ms = Some [] \<Longrightarrow>
     \<exists>R I rest. settle_batch p rs il ms = (rs @ R, il @ I, [], rest) \<and> ms = R @ I @ rest
       \<and> (p = [] \<longrightarrow> R = []) \<and> (R \<noteq> [] \<or> p = [] \<or> ms = []) \<and> pending_after [] rest = Some []"
proof (induction p rs il ms rule: settle_batch.induct)
  case (1 p rs il)
  then show ?case by simp
next
  case (2 p rs il m ms)
  show ?case
  proof (cases m)
    case (AgentMessage_Assistant a)
    with "2.prems" have "p = []" by (auto split: if_splits)
    with 2 AgentMessage_Assistant show ?thesis
      by - (rule exI [of _ "[]"], rule exI [of _ "[]"], auto)
  next
    case (AgentMessage_ToolResult r)
    with "2.prems" obtain i where i: "position (answers r) p = Some i" "pending_after (remove_at i p) ms = Some []"
      by (auto simp: bind_eq_Some_conv)
    from "2.IH"(3) [OF AgentMessage_ToolResult i] obtain R I rest where
      "settle_batch (remove_at i p) (rs @ [m]) il ms = ((rs @ [m]) @ R, il @ I, [], rest)"
      "ms = R @ I @ rest" "pending_after [] rest = Some []" by auto
    moreover have "p \<noteq> []" using i(1) by auto
    ultimately show ?thesis
      using AgentMessage_ToolResult i(1) by - (rule exI [of _ "m # R"], rule exI [of _ I], auto)
  next
    case (AgentMessage_User u)
    with "2.prems" have p: "p = []" "pending_after [] ms = Some []" by (auto split: if_splits)
    with "2.IH" AgentMessage_User obtain I rest where
      "settle_batch [] rs (il @ [m]) ms = (rs, (il @ [m]) @ I, [], rest)" "ms = I @ rest"
      "pending_after [] rest = Some []" by fastforce
    then show ?thesis
      using AgentMessage_User p by - (rule exI [of _ "[]"], rule exI [of _ "m # I"], auto)
  next
    case (AgentMessage_Custom c)
    with "2.prems" have p: "p = []" "pending_after [] ms = Some []" by (auto split: if_splits)
    with "2.IH" AgentMessage_Custom obtain I rest where
      "settle_batch [] rs (il @ [m]) ms = (rs, (il @ [m]) @ I, [], rest)" "ms = I @ rest"
      "pending_after [] rest = Some []" by fastforce
    then show ?thesis
      using AgentMessage_Custom p by - (rule exI [of _ "[]"], rule exI [of _ "m # I"], auto)
  qed
qed

lemma repair_slow_clean:
  "pending_after [] ms = Some [] \<Longrightarrow> repair_slow repaired report ms = (repaired @ ms, report)"
proof (induction "length ms" arbitrary: repaired report ms rule: less_induct)
  case less
  show ?case
  proof (cases ms)
    case (Cons m ms')
    show ?thesis
    proof (cases m)
      case (AgentMessage_Assistant a)
      with less.prems Cons have "pending_after (pending_calls a) ms' = Some []" by simp
      from settle_batch_clean [OF this, of "repaired @ [m]" "[]"] obtain R I rest where
        batch: "settle_batch (pending_calls a) (repaired @ [m]) [] ms' = ((repaired @ [m]) @ R, I, [], rest)"
          "ms' = R @ I @ rest" "pending_after [] rest = Some []" by auto
      then have "length rest < length ms" using Cons by simp
      from less.hyps [OF this batch(3)] show ?thesis
        using batch(1,2) Cons AgentMessage_Assistant by simp
    next
      case (AgentMessage_ToolResult r)
      with less.prems Cons show ?thesis by simp
    next
      case (AgentMessage_User u)
      with less.prems less.hyps [of ms' "repaired @ [m]" report] Cons show ?thesis by simp
    next
      case (AgentMessage_Custom c)
      with less.prems less.hyps [of ms' "repaired @ [m]" report] Cons show ?thesis by simp
    qed
  qed simp
qed

lemma repair_equals_slow: "repair_orphaned_tool_calls ms = repair_orphaned_tool_calls_slow ms"
  by (simp add: repair_orphaned_tool_calls_def repair_orphaned_tool_calls_slow_def
      tool_batches_need_no_repair_def needs_no_repair_iff repair_slow_clean)

lemma repair_clean: "tool_batches_need_no_repair (fst (repair_orphaned_tool_calls ms))"
proof -
  obtain out rep where "repair_slow [] [] ms = (out, rep)" by (metis surj_pair)
  with repair_slow_spec [OF this] show ?thesis
    by (simp add: repair_equals_slow repair_orphaned_tool_calls_slow_def tool_batches_need_no_repair_def
        needs_no_repair_iff)
qed

subsection \<open>Properties\<close>

text \<open>
  Skipping the repair when every batch is already complete changes nothing: the fast path and
  the slow repair give the same messages and the same report on every transcript.
\<close>

theorem repair_fast_path: "repair_orphaned_tool_calls ms = repair_orphaned_tool_calls_slow ms"
  by (rule repair_equals_slow)

text \<open>
  C40. After the repair every tool call is answered before the next message that is not a tool
  result, the messages that are not tool results are the old ones in their order, and a tool
  result is an old one or the recovery notice of a call the report names.
\<close>

theorem repair_output_legal:
  assumes "repair_orphaned_tool_calls ms = (out, report)"
  shows "tool_batches_need_no_repair out
     \<and> filter (\<lambda>m. \<not> is_tool_result m) out = filter (\<lambda>m. \<not> is_tool_result m) ms
     \<and> (\<forall>m \<in> set out. repaired_from ms report m)"
proof -
  from assms have slow: "repair_slow [] [] ms = (out, report)"
    by (simp add: repair_equals_slow repair_orphaned_tool_calls_slow_def)
  from repair_slow_spec [OF this] repair_clean [of ms] assms show ?thesis by auto
qed

definition demo_transcript :: "int agent_message list" where
  "demo_transcript =
     (let call = \<lambda>i. Content_ToolCall \<lparr>tcall_id = i, tcall_name = ''read'', tcall_arguments = JNull,
            tcall_thought_signature = None, tcall_namespace = None, tcall_recorded = None\<rparr>;
          result = \<lambda>i. AgentMessage_ToolResult \<lparr>tr_tool_call_id = i, tr_tool_name = ''read'',
            tr_content = [], tr_details = None, tr_usage = None, tr_added_tool_names = [],
            tr_is_error = False, tr_timestamp = 0\<rparr>
      in [AgentMessage_Assistant ((assistant_empty Api_Faux ''faux'' ''faux-1'' 0)
            \<lparr>am_content := [call ''c1'', call ''c2'']\<rparr>),
          AgentMessage_User \<lparr>um_content = UserContent_Text ''wait'', um_timestamp = 1\<rparr>,
          result ''c2'', result ''c9''])"

theorem repair_output_legal_witness:
  "\<exists>out. repair_orphaned_tool_calls demo_transcript = (out, [''c1'']) \<and> length out = 4
     \<and> tool_batches_need_no_repair out"
proof -
  have "snd (repair_orphaned_tool_calls demo_transcript) = [''c1'']"
    "length (fst (repair_orphaned_tool_calls demo_transcript)) = 4" by code_simp+
  then obtain out where "repair_orphaned_tool_calls demo_transcript = (out, [''c1''])" "length out = 4"
    by (metis prod.collapse)
  with repair_output_legal [of demo_transcript out "[''c1'']"] show ?thesis by blast
qed

text \<open>
  Converting new messages on their own is converting the whole context again: behind a
  repaired transcript, a suffix whose batches are complete converts incrementally.
\<close>

theorem incremental_conversion:
  assumes "tool_batches_need_no_repair new"
  shows "convert_to_llm C (fst (repair_orphaned_tool_calls ms) @ new) =
     convert_to_llm C ms @ convert_to_llm_incremental C new"
proof -
  have "tool_batches_need_no_repair (fst (repair_orphaned_tool_calls ms) @ new)"
    using assms repair_clean [of ms]
    by (simp add: tool_batches_need_no_repair_def needs_no_repair_iff pending_after_append)
  then have "repair_orphaned_tool_calls (fst (repair_orphaned_tool_calls ms) @ new) =
      (fst (repair_orphaned_tool_calls ms) @ new, [])"
    unfolding repair_orphaned_tool_calls_def [of "fst _ @ _"] by simp
  then show ?thesis
    by (simp add: convert_to_llm_def convert_to_llm_incremental_def)
qed

definition demo_codecs :: "int role_codecs" where
  "demo_codecs =
     \<lparr>enc_bash = \<lambda>d. JString (bx_command d), dec_bash = \<lambda>_. None,
      enc_branch = \<lambda>d. JString (bd_summary d), dec_branch = \<lambda>_. None,
      enc_compaction = \<lambda>d. JString (cd_summary d), dec_compaction = \<lambda>_. None,
      enc_custom = \<lambda>d. JString (cx_custom_type d), dec_custom = \<lambda>_. None\<rparr>"

theorem incremental_conversion_witness:
  "length (convert_to_llm demo_codecs
     (fst (repair_orphaned_tool_calls demo_transcript) @ [hd (tl demo_transcript)])) = 5"
proof -
  have "tool_batches_need_no_repair [hd (tl demo_transcript)]" by code_simp
  moreover have "length (convert_to_llm demo_codecs demo_transcript) = 4"
    "length (convert_to_llm_incremental demo_codecs [hd (tl demo_transcript)]) = 1" by code_simp+
  ultimately show ?thesis by (simp add: incremental_conversion)
qed

end
