(* ===== verification/Session_Context.thy ===== *)
theory Session_Context
  imports Session_Branch Harness_Messages
begin

text \<open>
  \<open>crates/evo-harness/src/session/context.rs\<close> and \<open>SessionState::context_on_branch\<close>: the
  provider context of a branch. The code has one builder with caller hooks and two fast paths
  without; all three are modelled and compared.
\<close>

subsection \<open>The builders\<close>

record 'f session_context =
  sc_messages :: "'f agent_message list"
  sc_thinking_level :: string
  sc_model :: "(string \<times> string) option"
  sc_active_tool_names :: "string list option"

type_synonym 'f entry_projector = "'f custom_entry \<Rightarrow> nat \<Rightarrow> 'f entry list \<Rightarrow> 'f agent_message list"

record 'f context_options =
  co_entry_transforms :: "('f entry list \<Rightarrow> 'f entry list) list"
  co_entry_projectors :: "(string, 'f entry_projector) btree"

definition context_options_default :: "'f context_options" where
  "context_options_default = \<lparr>co_entry_transforms = [], co_entry_projectors = []\<rparr>"

definition is_body_entry :: "'f entry \<Rightarrow> bool" where
  "is_body_entry e =
     (case e of Entry_Custom c \<Rightarrow> is_tool_program_body_type (cu_custom_type c) | _ \<Rightarrow> False)"

definition context_start :: "'f entry list \<Rightarrow> nat" where
  "context_start es = (case rposition is_compaction es of None \<Rightarrow> 0 | Some i \<Rightarrow> i)"

definition default_context_entries :: "'f entry list \<Rightarrow> 'f entry list" where
  "default_context_entries es = drop (context_start es) es"

definition default_context_entry_transform :: "'f entry list \<Rightarrow> 'f entry list" where
  "default_context_entry_transform es = filter (\<lambda>e. \<not> is_body_entry e) (default_context_entries es)"

definition context_entries :: "'f entry list \<Rightarrow> 'f context_options \<Rightarrow> 'f entry list" where
  "context_entries es opts =
     (let slice = default_context_entries es;
          entries = (if list_ex is_body_entry slice then filter (\<lambda>e. \<not> is_body_entry e) slice else slice)
      in foldl (\<lambda>entries transform. filter (\<lambda>e. \<not> is_body_entry e) (transform entries))
           entries (co_entry_transforms opts))"

definition build_context_entries :: "'f entry list \<Rightarrow> 'f context_options \<Rightarrow> 'f entry list" where
  "build_context_entries es opts = context_entries es opts"

definition compaction_to_context_messages ::
  "'f role_codecs \<Rightarrow> 'f compaction_entry \<Rightarrow> 'f agent_message list" where
  "compaction_to_context_messages C c = compaction_summary_message_of C c # ce_retained_tail c"

definition branch_summary_to_context_messages ::
  "'f role_codecs \<Rightarrow> 'f branch_summary_entry \<Rightarrow> 'f agent_message list" where
  "branch_summary_to_context_messages C b =
     (if bs_summary b = [] then []
      else [create_branch_summary_message C (bs_summary b) (bs_from_id b) (eb_timestamp (bs_base b))])"

definition custom_to_context_messages ::
  "'f custom_entry \<Rightarrow> nat \<Rightarrow> 'f entry list \<Rightarrow> 'f context_options \<Rightarrow> 'f agent_message list" where
  "custom_to_context_messages c index entries opts =
     (if is_tool_program_body_type (cu_custom_type c) then []
      else case map_of (co_entry_projectors opts) (cu_custom_type c) of
             Some projector \<Rightarrow> projector c index entries
           | None \<Rightarrow> [])"

definition session_entry_to_context_messages ::
  "'f role_codecs \<Rightarrow> 'f entry \<Rightarrow> nat \<Rightarrow> 'f entry list \<Rightarrow> 'f context_options \<Rightarrow> 'f agent_message list" where
  "session_entry_to_context_messages C e index entries opts =
     (case e of
        Entry_Message m \<Rightarrow> if is_deferred_message (me_message m) then [] else [me_message m]
      | Entry_Compaction c \<Rightarrow> compaction_to_context_messages C c
      | Entry_BranchSummary b \<Rightarrow> branch_summary_to_context_messages C b
      | Entry_Custom c \<Rightarrow> custom_to_context_messages c index entries opts
      | _ \<Rightarrow> [])"

text \<open>The scan for the derived state, newest entry first, stops when all three are known.\<close>

type_synonym derived_state = "string option \<times> (string \<times> string) option \<times> string list option"

definition derive_entry :: "'f entry \<Rightarrow> derived_state \<Rightarrow> derived_state" where
  "derive_entry e st =
     (case st of (thinking, model, tools) \<Rightarrow>
       (case e of
          Entry_ThinkingLevel t \<Rightarrow>
            if thinking = None then (Some (tl_thinking_level t), model, tools) else st
        | Entry_ModelChange m \<Rightarrow>
            if model = None then (thinking, Some (mc_provider m, mc_model_id m), tools) else st
        | Entry_Message m \<Rightarrow>
            if model = None
            then (case me_message m of
                    AgentMessage_Assistant a \<Rightarrow> (thinking, Some (am_provider a, am_model a), tools)
                  | _ \<Rightarrow> st)
            else st
        | Entry_ActiveTools a \<Rightarrow>
            if tools = None then (thinking, model, Some (at_active_tool_names a)) else st
        | _ \<Rightarrow> st))"

fun derive_scan :: "derived_state \<Rightarrow> 'f entry list \<Rightarrow> derived_state" where
  "derive_scan st [] = st"
| "derive_scan st (e # es) =
     (case derive_entry e st of
        (Some thinking, Some model, Some tools) \<Rightarrow> (Some thinking, Some model, Some tools)
      | st' \<Rightarrow> derive_scan st' es)"

definition derive_session_context_state :: "'f entry list \<Rightarrow> 'f session_context" where
  "derive_session_context_state newest_first =
     (case derive_scan (None, None, None) newest_first of (thinking, model, tools) \<Rightarrow>
        \<lparr>sc_messages = [],
         sc_thinking_level = (case thinking of None \<Rightarrow> ''off'' | Some l \<Rightarrow> l),
         sc_model = model, sc_active_tool_names = tools\<rparr>)"

fun enumerated_messages ::
  "'f role_codecs \<Rightarrow> nat \<Rightarrow> 'f entry list \<Rightarrow> 'f entry list \<Rightarrow> 'f context_options \<Rightarrow> 'f agent_message list" where
  "enumerated_messages C index entries [] opts = []"
| "enumerated_messages C index entries (e # es) opts =
     session_entry_to_context_messages C e index entries opts @ enumerated_messages C (Suc index) entries es opts"

definition build_session_context ::
  "'f role_codecs \<Rightarrow> 'f entry list \<Rightarrow> 'f context_options \<Rightarrow> 'f session_context" where
  "build_session_context C es opts =
     (let entries = context_entries es opts
      in (derive_session_context_state (rev es))
           \<lparr>sc_messages := enumerated_messages C 0 entries entries opts\<rparr>)"

text \<open>The body of the two fast loops: no hook can see the entries.\<close>

definition plain_entry_messages :: "'f role_codecs \<Rightarrow> 'f entry \<Rightarrow> 'f agent_message list" where
  "plain_entry_messages C e =
     (case e of
        Entry_Message m \<Rightarrow> if \<not> is_deferred_message (me_message m) then [me_message m] else []
      | Entry_Compaction c \<Rightarrow> [compaction_summary_message_of C c] @ ce_retained_tail c
      | Entry_BranchSummary b \<Rightarrow>
          if bs_summary b \<noteq> []
          then [create_branch_summary_message C (bs_summary b) (bs_from_id b) (eb_timestamp (bs_base b))]
          else []
      | _ \<Rightarrow> [])"

definition build_session_context_from_borrowed ::
  "'f role_codecs \<Rightarrow> 'f entry list \<Rightarrow> 'f session_context" where
  "build_session_context_from_borrowed C es =
     (derive_session_context_state (rev es))
       \<lparr>sc_messages := concat (map (plain_entry_messages C) (drop (context_start es) es))\<rparr>"

definition build_session_context_owned ::
  "'f role_codecs \<Rightarrow> 'f entry list \<Rightarrow> 'f context_options \<Rightarrow> 'f session_context" where
  "build_session_context_owned C es opts =
     (if co_entry_transforms opts \<noteq> [] \<or> co_entry_projectors opts \<noteq> []
      then build_session_context C es opts
      else (derive_session_context_state (rev es))
             \<lparr>sc_messages := concat (map (plain_entry_messages C) (drop (context_start es) es))\<rparr>)"

definition cut_at_bound :: "branch_bounds \<Rightarrow> 'f entry list \<Rightarrow> 'f entry list" where
  "cut_at_bound b path =
     (if bb_stop_at_id b \<noteq> None \<or> bb_stop_at_type b \<noteq> None
      then (case position
                   (\<lambda>e. bb_stop_at_id b = Some (entry_id e)
                     \<or> (case bb_stop_at_type b of None \<Rightarrow> False | Some k \<Rightarrow> k = entry_type e)) path of
              None \<Rightarrow> path
            | Some end \<Rightarrow> take (end + 1) path)
      else path)"

definition context_on_branch ::
  "'f role_codecs \<Rightarrow> 'f session_state \<Rightarrow> branch_bounds \<Rightarrow> string \<Rightarrow> session_error + 'f session_context" where
  "context_on_branch C s b start =
     res_bind (walk_to_root s (Some start) b) (\<lambda>path.
     Inr (build_session_context_from_borrowed C (cut_at_bound b (rev (map ((!) (ix_entries s)) path)))))"

subsection \<open>The builders agree\<close>

lemma plain_messages_default:
  assumes "co_entry_projectors opts = []"
  shows "session_entry_to_context_messages C e index entries opts = plain_entry_messages C e"
  using assms
  by (cases e)
    (auto simp: session_entry_to_context_messages_def plain_entry_messages_def compaction_to_context_messages_def
      branch_summary_to_context_messages_def custom_to_context_messages_def)

lemma enumerated_plain:
  "co_entry_projectors opts = [] \<Longrightarrow>
     enumerated_messages C index entries es opts = concat (map (plain_entry_messages C) es)"
  by (induction es arbitrary: index) (simp_all add: plain_messages_default)

lemma body_entry_silent: "is_body_entry e \<Longrightarrow> plain_entry_messages C e = []"
  by (auto simp: is_body_entry_def plain_entry_messages_def split: entry.splits)

lemma concat_filter_silent:
  "(\<And>x. P x \<Longrightarrow> f x = []) \<Longrightarrow> concat (map f (filter (\<lambda>x. \<not> P x) xs)) = concat (map f xs)"
  by (induction xs) auto

lemma default_builder_plain:
  assumes "co_entry_transforms opts = []" and "co_entry_projectors opts = []"
  shows "build_session_context C es opts = build_session_context_from_borrowed C es"
  using assms concat_filter_silent [of is_body_entry "plain_entry_messages C", OF body_entry_silent]
  by (simp add: build_session_context_def build_session_context_from_borrowed_def context_entries_def
      default_context_entries_def enumerated_plain Let_def)

subsection \<open>The derived state\<close>

definition thinking_of :: "'f entry \<Rightarrow> string option" where
  "thinking_of e = (case e of Entry_ThinkingLevel t \<Rightarrow> Some (tl_thinking_level t) | _ \<Rightarrow> None)"

definition model_of :: "'f entry \<Rightarrow> (string \<times> string) option" where
  "model_of e =
     (case e of
        Entry_ModelChange m \<Rightarrow> Some (mc_provider m, mc_model_id m)
      | Entry_Message m \<Rightarrow>
          (case me_message m of
             AgentMessage_Assistant a \<Rightarrow> Some (am_provider a, am_model a)
           | _ \<Rightarrow> None)
      | _ \<Rightarrow> None)"

definition tools_of :: "'f entry \<Rightarrow> string list option" where
  "tools_of e = (case e of Entry_ActiveTools a \<Rightarrow> Some (at_active_tool_names a) | _ \<Rightarrow> None)"

definition or_else :: "'a option \<Rightarrow> 'a option \<Rightarrow> 'a option" where
  "or_else x y = (case x of None \<Rightarrow> y | Some _ \<Rightarrow> x)"

lemma or_else_simps [simp]: "or_else None y = y" "or_else (Some a) y = Some a" "or_else x None = x"
  by (auto simp: or_else_def split: option.split)

lemma or_else_assoc: "or_else (or_else x y) z = or_else x (or_else y z)"
  by (cases x) auto

lemma derive_entry_eq:
  "derive_entry e (t, m, a) = (or_else t (thinking_of e), or_else m (model_of e), or_else a (tools_of e))"
  by (auto simp: derive_entry_def thinking_of_def model_of_def tools_of_def or_else_def
      split: entry.split agent_message.split option.split)

lemma last_of_snoc_or: "last_of f (xs @ [x]) = or_else (f x) (last_of f xs)"
  by (simp add: or_else_def split: option.split)

lemma derive_scan_eq:
  "derive_scan (t, m, a) (rev es) =
     (or_else t (last_of thinking_of es), or_else m (last_of model_of es), or_else a (last_of tools_of es))"
proof (induction es arbitrary: t m a rule: rev_induct)
  case (snoc e es)
  let ?t = "or_else t (thinking_of e)" and ?m = "or_else m (model_of e)" and ?a = "or_else a (tools_of e)"
  have "derive_scan (t, m, a) (rev (es @ [e])) =
      (case (?t, ?m, ?a) of
         (Some thinking, Some model, Some tools) \<Rightarrow> (Some thinking, Some model, Some tools)
       | st' \<Rightarrow> derive_scan st' (rev es))"
    by (simp only: rev_append rev.simps append.simps derive_scan.simps derive_entry_eq)
  also have "\<dots> = (or_else ?t (last_of thinking_of es), or_else ?m (last_of model_of es),
      or_else ?a (last_of tools_of es))"
    using snoc.IH by (cases ?t; cases ?m; cases ?a) simp_all
  finally show ?case by (simp add: last_of_snoc_or or_else_assoc del: last_of_simps(2))
qed simp

lemma context_message_count: "length (plain_entry_messages C e) = context_message_count_of e"
  by (cases e) (simp_all add: plain_entry_messages_def)

lemma derive_state_eq:
  "derive_session_context_state (rev es) =
     \<lparr>sc_messages = [],
      sc_thinking_level = (case last_of thinking_of es of None \<Rightarrow> ''off'' | Some l \<Rightarrow> l),
      sc_model = last_of model_of es, sc_active_tool_names = last_of tools_of es\<rparr>"
  by (simp add: derive_session_context_state_def derive_scan_eq)

text \<open>The context of a branch, stated on the entries alone.\<close>

definition context_of :: "'f role_codecs \<Rightarrow> 'f entry list \<Rightarrow> 'f session_context" where
  "context_of C es =
     \<lparr>sc_messages = concat (map (plain_entry_messages C) (drop (context_start es) es)),
      sc_thinking_level = (case last_of thinking_of es of None \<Rightarrow> ''off'' | Some l \<Rightarrow> l),
      sc_model = last_of model_of es, sc_active_tool_names = last_of tools_of es\<rparr>"

lemma borrowed_eq: "build_session_context_from_borrowed C es = context_of C es"
  by (simp add: build_session_context_from_borrowed_def context_of_def derive_state_eq)

lemma context_of_count:
  "length (sc_messages (context_of C es)) = sum_list (map context_message_count_of (drop (context_start es) es))"
  by (simp add: context_of_def length_concat comp_def context_message_count)

lemma no_bound: "bb_stop_at_id b = None \<Longrightarrow> bb_stop_at_type b = None \<Longrightarrow> \<not> entry_bound b e"
  by (simp add: entry_bound_def)

lemma cut_bounded: "cut_at_bound b (rev (take_until (entry_bound b) es)) = bounded_branch b OldestFirst es"
proof (cases "bb_stop_at_id b = None \<and> bb_stop_at_type b = None")
  case True
  then have "find (entry_bound b) es = None" "take_until (entry_bound b) es = es"
    by (auto simp: find_None_iff no_bound intro: take_until_none)
  with True show ?thesis by (simp add: cut_at_bound_def bounded_branch_def)
next
  case False
  then show ?thesis
    using oldest_first_cut [of "entry_bound b" es]
    unfolding cut_at_bound_def entry_bound_def [symmetric] by (auto simp: bounded_branch_def)
qed

lemma context_on_branch_eq:
  assumes wf: "session_wf s" and start: "ix_entries_by_id s start = Some k"
  shows "context_on_branch C s b start = Inr (context_of C (bounded_branch b OldestFirst (branch_of s k)))"
proof -
  have meta: "ix_metadata s = map entry_meta_of (ix_entries s)" and table: "wf_table s"
    using session_wfD(2,3) [OF wf] by auto
  have k: "k < length (ix_metadata s)" using table start by (simp add: wf_table_def)
  let ?hit = "\<lambda>j. bound_hit b (ix_metadata s ! j)"
  have "map ((!) (ix_entries s)) (take_until ?hit (lineage s k)) = take_until (entry_bound b) (branch_of s k)"
  proof -
    have "?hit j = (entry_bound b \<circ> (!) (ix_entries s)) j" if "j \<in> set (lineage s k)" for j
      using lineage_bound [OF table k that] by (simp add: meta bound_hit_meta)
    then show ?thesis
      unfolding branch_of_def take_until_map by (metis (no_types, lifting) take_until_cong)
  qed
  then have "context_on_branch C s b start =
      Inr (context_of C (cut_at_bound b (rev (take_until (entry_bound b) (branch_of s k)))))"
    by (simp add: context_on_branch_def walk_to_root_eq [OF table] start borrowed_eq)
  then show ?thesis by (simp only: cut_bounded)
qed

subsection \<open>Properties\<close>

text \<open>
  The fast paths build the context of the general builder: for owned entries with any hooks,
  for borrowed entries without, archived tool bodies and all.
\<close>

theorem context_builders_agree:
  "build_session_context_owned C es opts = build_session_context C es opts
     \<and> build_session_context_from_borrowed C es = build_session_context C es context_options_default"
proof -
  have "build_session_context_owned C es opts = build_session_context_from_borrowed C es"
    if "co_entry_transforms opts = []" "co_entry_projectors opts = []"
    using that by (simp add: build_session_context_owned_def build_session_context_from_borrowed_def)
  moreover have "build_session_context_owned C es opts = build_session_context C es opts"
    if "\<not> (co_entry_transforms opts = [] \<and> co_entry_projectors opts = [])"
    using that by (auto simp: build_session_context_owned_def)
  ultimately show ?thesis
    using default_builder_plain [of opts C es] default_builder_plain [of context_options_default C es]
    by (cases "co_entry_transforms opts = [] \<and> co_entry_projectors opts = []")
      (simp_all add: context_options_default_def)
qed

text \<open>
  The context of a branch of a reachable session: the messages are those of the latest
  compaction and everything after it, as many as the index counts for these entries; model,
  thinking level and tools are the latest on the whole branch, compacted or not.
\<close>

theorem context_of_branch:
  assumes "session_reach s" and "ix_entries_by_id s start = Some k"
    and "path = bounded_branch b OldestFirst (branch_of s k)"
  shows "context_on_branch C s b start = Inr (context_of C path)
     \<and> length (sc_messages (context_of C path)) =
         sum_list (map (em_context_message_count \<circ> entry_meta_of) (drop (context_start path) path))"
  using context_on_branch_eq [OF reach_wf [OF assms(1)] assms(2)] assms(3)
  by (simp add: context_of_count comp_def)

theorem context_of_branch_witness:
  "context_on_branch demo_codecs demo_state branch_bounds_default ''b'' =
     Inr \<lparr>sc_messages = [demo_user ''hello'', demo_assistant [demo_call ''c1'']],
          sc_thinking_level = ''off'', sc_model = Some (''faux'', ''faux-1''), sc_active_tool_names = None\<rparr>"
proof -
  have "ix_entries_by_id demo_state ''b'' = Some 1" by code_simp
  from context_of_branch [OF demo_reach this refl, of demo_codecs branch_bounds_default]
  have "context_on_branch demo_codecs demo_state branch_bounds_default ''b'' =
      Inr (context_of demo_codecs (bounded_branch branch_bounds_default OldestFirst (branch_of demo_state 1)))"
    by (rule conjunct1)
  then show ?thesis by (rule trans) code_simp
qed

end
