(* ===== verification/Compaction_Tokens.thy ===== *)
theory Compaction_Tokens
  imports Session_Context
begin

text \<open>
  \<open>crates/evo-harness/src/compaction/tokens.rs\<close> and \<open>settings.rs\<close>: the files a piece of history
  touched, the text a summary request is made of, and the estimate of the tokens a context holds.
  A character estimate is a sum of lengths of strings in memory and is an \<open>int\<close>; a count a provider
  reported is an \<open>i64\<close> whose sums wrap. The operations on 64-bit floats (\<open>f64_ops\<close>) and the printing
  of JSON (\<open>json_text\<close>: a finite map does not keep the order in which members are printed) are
  parameters.
\<close>

record 'f f64_ops =
  f64_of :: "int \<Rightarrow> 'f"
  f64_div :: "'f \<Rightarrow> 'f \<Rightarrow> 'f"
  f64_mul :: "'f \<Rightarrow> 'f \<Rightarrow> 'f"
  f64_less :: "'f \<Rightarrow> 'f \<Rightarrow> bool"
  f64_ceil :: "'f \<Rightarrow> int"
  f64_round :: "'f \<Rightarrow> int"
  f64_floor :: "'f \<Rightarrow> int"
  f64_trunc :: "'f \<Rightarrow> int"

definition f64_min :: "'f f64_ops \<Rightarrow> 'f \<Rightarrow> 'f \<Rightarrow> 'f" where
  "f64_min F x y = (if f64_less F y x then y else x)"

definition f64_clamp :: "'f f64_ops \<Rightarrow> 'f \<Rightarrow> 'f \<Rightarrow> 'f \<Rightarrow> 'f" where
  "f64_clamp F lo hi x = (if f64_less F x lo then lo else if f64_less F hi x then hi else x)"

record 'f json_text =
  jt_print :: "'f json \<Rightarrow> string option"
  jt_members :: "'f json \<Rightarrow> (string \<times> 'f json) list option"

text \<open>\<open>i64\<close> addition of two counts.\<close>

definition wrap64 :: "int \<Rightarrow> int" where
  "wrap64 n = sint (word_of_int n :: i64)"

lemma wrap64_small: "- (2 ^ 63) \<le> n \<Longrightarrow> n < 2 ^ 63 \<Longrightarrow> wrap64 n = n"
  by (simp add: wrap64_def sint_sbintrunc' signed_take_bit_int_eq_self)

definition usage_context_tokens :: "'f usage \<Rightarrow> int" where
  "usage_context_tokens u =
     (if 0 < sint (us_total_tokens u) then sint (us_total_tokens u)
      else sint (us_input u + us_output u + us_cache_read u + us_cache_write u))"

definition add_optional :: "i64 option \<Rightarrow> i64 option \<Rightarrow> i64 option" where
  "add_optional mine other =
     (case other of None \<Rightarrow> mine | Some o' \<Rightarrow> Some ((case mine of None \<Rightarrow> 0 | Some m \<Rightarrow> m) + o'))"

definition usage_add :: "'f::plus usage \<Rightarrow> 'f usage \<Rightarrow> 'f usage" where
  "usage_add u v =
     \<lparr>us_input = us_input u + us_input v, us_output = us_output u + us_output v,
      us_cache_read = us_cache_read u + us_cache_read v,
      us_cache_write = us_cache_write u + us_cache_write v,
      us_cache_write_1h = add_optional (us_cache_write_1h u) (us_cache_write_1h v),
      us_reasoning = add_optional (us_reasoning u) (us_reasoning v),
      us_total_tokens = us_total_tokens u + us_total_tokens v,
      us_cost = \<lparr>uc_input = uc_input (us_cost u) + uc_input (us_cost v),
                 uc_output = uc_output (us_cost u) + uc_output (us_cost v),
                 uc_cache_read = uc_cache_read (us_cost u) + uc_cache_read (us_cost v),
                 uc_cache_write = uc_cache_write (us_cost u) + uc_cache_write (us_cost v),
                 uc_total = uc_total (us_cost u) + uc_total (us_cost v)\<rparr>\<rparr>"

fun content_as_text :: "'f content \<Rightarrow> string option" where
  "content_as_text (Content_Text t) = Some (tx_text t)"
| "content_as_text _ = None"

definition text_only :: "'f content list \<Rightarrow> string \<Rightarrow> string" where
  "text_only content sep = join sep (filter_map content_as_text content)"

subsection \<open>Settings\<close>

record compaction_settings =
  cset_enabled :: bool
  cset_reserve_tokens :: int
  cset_keep_recent_tokens :: int

definition default_compaction_settings :: compaction_settings where
  "default_compaction_settings =
     \<lparr>cset_enabled = True, cset_reserve_tokens = 16384, cset_keep_recent_tokens = 20000\<rparr>"

definition should_compact :: "int \<Rightarrow> int \<Rightarrow> compaction_settings \<Rightarrow> bool" where
  "should_compact context_tokens context_window settings =
     (if \<not> cset_enabled settings then False
      else let threshold = context_window - cset_reserve_tokens settings in threshold < context_tokens)"

subsection \<open>File operations\<close>

record file_operations =
  fo_read :: "string set"
  fo_written :: "string set"
  fo_edited :: "string set"

definition create_file_ops :: file_operations where
  "create_file_ops = \<lparr>fo_read = {}, fo_written = {}, fo_edited = {}\<rparr>"

fun extract_block :: "'f content \<Rightarrow> file_operations \<Rightarrow> file_operations" where
  "extract_block (Content_ToolCall call) ops =
     (case Option.bind (json_get ''path'' (tcall_arguments call)) json_as_str of
        None \<Rightarrow> ops
      | Some path \<Rightarrow>
          (if tcall_name call = ''read'' then ops\<lparr>fo_read := insert path (fo_read ops)\<rparr>
           else if tcall_name call = ''write'' then ops\<lparr>fo_written := insert path (fo_written ops)\<rparr>
           else if tcall_name call = ''edit'' then ops\<lparr>fo_edited := insert path (fo_edited ops)\<rparr>
           else ops))"
| "extract_block _ ops = ops"

fun extract_file_ops_from_message :: "'f agent_message \<Rightarrow> file_operations \<Rightarrow> file_operations" where
  "extract_file_ops_from_message (AgentMessage_Assistant a) ops = fold extract_block (am_content a) ops"
| "extract_file_ops_from_message _ ops = ops"

definition compute_file_lists :: "file_operations \<Rightarrow> string list \<times> string list" where
  "compute_file_lists ops =
     (let modified = fo_edited ops \<union> fo_written ops
      in (sorted_list_of_set (fo_read ops - modified), sorted_list_of_set modified))"

definition format_file_operations :: "string list \<Rightarrow> string list \<Rightarrow> string" where
  "format_file_operations read_files modified_files =
     (let sections =
            (if read_files \<noteq> []
             then [''<read-files>'' @ newline @ join newline read_files @ newline @ ''</read-files>''] else [])
          @ (if modified_files \<noteq> []
             then [''<modified-files>'' @ newline @ join newline modified_files @ newline @ ''</modified-files>'']
             else [])
      in if sections = [] then [] else newline @ newline @ join (newline @ newline) sections)"

subsection \<open>The text of a conversation\<close>

definition tool_result_max_chars :: nat where "tool_result_max_chars = 2000"

definition safe_json_stringify :: "'f json_text \<Rightarrow> 'f json \<Rightarrow> string" where
  "safe_json_stringify J v = (case jt_print J v of None \<Rightarrow> ''[unserializable]'' | Some s \<Rightarrow> s)"

definition truncate_for_summary :: "string \<Rightarrow> nat \<Rightarrow> string" where
  "truncate_for_summary text max_chars =
     (if utf8_len text \<le> max_chars then text
      else take max_chars text @ newline @ newline @ ''[... ''
           @ show_nat (length text - max_chars) @ '' more characters truncated]'')"

fun user_content_text :: "'f user_content \<Rightarrow> string" where
  "user_content_text (UserContent_Text s) = s"
| "user_content_text (UserContent_Blocks blocks) = text_only blocks []"

definition call_text :: "'f json_text \<Rightarrow> 'f tool_call \<Rightarrow> string" where
  "call_text J call =
     (let args = (case jt_members J (tcall_arguments call) of
                    Some kvs \<Rightarrow> join '', '' (map (\<lambda>(k, v). k @ ''='' @ safe_json_stringify J v) kvs)
                  | None \<Rightarrow> safe_json_stringify J (tcall_arguments call))
      in tcall_name call @ ''('' @ args @ '')'')"

fun content_as_thinking :: "'f content \<Rightarrow> string option" where
  "content_as_thinking (Content_Thinking t) = Some (th_thinking t)"
| "content_as_thinking _ = None"

fun is_text :: "'f content \<Rightarrow> bool" where
  "is_text (Content_Text _) = True"
| "is_text _ = False"

fun message_parts :: "'f json_text \<Rightarrow> 'f message \<Rightarrow> string list" where
  "message_parts J (Message_User u) =
     (let content = user_content_text (um_content u)
      in if content \<noteq> [] then [''[User]: '' @ content] else [])"
| "message_parts J (Message_Assistant a) =
     (let thinking = filter_map content_as_thinking (am_content a);
          calls = map (call_text J) (tool_calls_of (am_content a))
      in (if thinking \<noteq> [] then [''[Assistant thinking]: '' @ join newline thinking] else [])
         @ (if list_ex is_text (am_content a) then [''[Assistant]: '' @ text_only (am_content a) newline] else [])
         @ (if calls \<noteq> [] then [''[Assistant tool calls]: '' @ join ''; '' calls] else []))"
| "message_parts J (Message_ToolResult t) =
     (let content = text_only (tr_content t) []
      in if content \<noteq> [] then [''[Tool result]: '' @ truncate_for_summary content tool_result_max_chars] else [])"

definition serialize_conversation :: "'f json_text \<Rightarrow> 'f message list \<Rightarrow> string" where
  "serialize_conversation J ms = join (newline @ newline) (concat (map (message_parts J) ms))"

subsection \<open>Estimates\<close>

definition estimated_image_chars :: nat where "estimated_image_chars = 4800"

fun block_chars :: "'f content \<Rightarrow> nat" where
  "block_chars (Content_Text t) = utf8_len (tx_text t)"
| "block_chars (Content_Image _) = estimated_image_chars"
| "block_chars _ = 0"

definition estimate_text_and_image_chars :: "'f content list \<Rightarrow> nat" where
  "estimate_text_and_image_chars content = sum_list (map block_chars content)"

fun assistant_block_chars :: "'f json_text \<Rightarrow> 'f content \<Rightarrow> nat" where
  "assistant_block_chars J (Content_Text t) = utf8_len (tx_text t)"
| "assistant_block_chars J (Content_Thinking t) = utf8_len (th_thinking t)"
| "assistant_block_chars J (Content_ToolCall call) =
     utf8_len (tcall_name call) + utf8_len (safe_json_stringify J (tcall_arguments call))"
| "assistant_block_chars J _ = 0"

definition estimate_assistant_chars :: "'f json_text \<Rightarrow> 'f assistant_message \<Rightarrow> nat" where
  "estimate_assistant_chars J a = sum_list (map (assistant_block_chars J) (am_content a))"

definition estimate_custom_chars :: "'f role_codecs \<Rightarrow> 'f custom_message \<Rightarrow> nat" where
  "estimate_custom_chars C c =
     (if cm_role c = bash_execution_role
      then (case bash_execution_data_of C (AgentMessage_Custom c) of
              Some d \<Rightarrow> utf8_len (bx_command d) + utf8_len (bx_output d)
            | None \<Rightarrow> 0)
      else if cm_role c = branch_summary_role \<or> cm_role c = compaction_summary_role
      then (case branch_summary_data_of C (AgentMessage_Custom c) of
              Some d \<Rightarrow> utf8_len (bd_summary d)
            | None \<Rightarrow>
                (case compaction_summary_data_of C (AgentMessage_Custom c) of
                   Some d \<Rightarrow> utf8_len (cd_summary d)
                 | None \<Rightarrow> 0))
      else estimate_text_and_image_chars (cm_content c))"

fun estimate_message_chars :: "'f role_codecs \<Rightarrow> 'f json_text \<Rightarrow> 'f agent_message \<Rightarrow> nat" where
  "estimate_message_chars C J (AgentMessage_User u) =
     (case um_content u of
        UserContent_Text s \<Rightarrow> utf8_len s
      | UserContent_Blocks blocks \<Rightarrow> estimate_text_and_image_chars blocks)"
| "estimate_message_chars C J (AgentMessage_Assistant a) = estimate_assistant_chars J a"
| "estimate_message_chars C J (AgentMessage_ToolResult t) = estimate_text_and_image_chars (tr_content t)"
| "estimate_message_chars C J (AgentMessage_Custom c) = estimate_custom_chars C c"

definition div_ceil :: "int \<Rightarrow> int \<Rightarrow> int" where
  "div_ceil a b = (a + b - 1) div b"

definition estimate_tokens :: "'f role_codecs \<Rightarrow> 'f json_text \<Rightarrow> 'f agent_message \<Rightarrow> int" where
  "estimate_tokens C J m = div_ceil (int (estimate_message_chars C J m)) 4"

definition total_estimate :: "'f role_codecs \<Rightarrow> 'f json_text \<Rightarrow> 'f agent_message list \<Rightarrow> int" where
  "total_estimate C J ms = sum_list (map (estimate_tokens C J) ms)"

datatype stale = Stale_None | Stale_Before nat | Stale_Until i64

fun is_compaction_summary :: "'f agent_message \<Rightarrow> bool" where
  "is_compaction_summary (AgentMessage_Custom c) = (cm_role c = compaction_summary_role)"
| "is_compaction_summary _ = False"

definition stale_usage :: "'f agent_message list \<Rightarrow> stale" where
  "stale_usage ms =
     (case rposition is_compaction_summary ms of
        None \<Rightarrow> Stale_None
      | Some index \<Rightarrow>
          (case ms ! index of
             AgentMessage_Custom c \<Rightarrow>
               (case Option.bind (json_get ''retainedMessages'' (cm_data c)) json_as_u64 of
                  Some retained \<Rightarrow> Stale_Before (index + 1 + retained)
                | None \<Rightarrow> Stale_Until (cm_timestamp c))
           | _ \<Rightarrow> Stale_None))"

definition usage_is_current :: "stale \<Rightarrow> nat \<Rightarrow> 'f assistant_message \<Rightarrow> bool" where
  "usage_is_current st i a =
     (case st of
        Stale_None \<Rightarrow> True
      | Stale_Before end \<Rightarrow> end \<le> i
      | Stale_Until at \<Rightarrow> sint at < sint (am_timestamp a))"

definition usage_measures :: "stale \<Rightarrow> nat \<Rightarrow> 'f assistant_message \<Rightarrow> bool" where
  "usage_measures st i a \<longleftrightarrow>
     am_stop_reason a \<noteq> StopReason_Aborted \<and> am_stop_reason a \<noteq> StopReason_Error
     \<and> 0 < usage_context_tokens (am_usage a) \<and> usage_is_current st i a"

text \<open>The loop from the newest message back; the index of a message is the number of older ones.\<close>

fun scan_usage :: "stale \<Rightarrow> 'f agent_message list \<Rightarrow> ('f usage \<times> nat) option" where
  "scan_usage st [] = None"
| "scan_usage st (m # older) =
     (case m of
        AgentMessage_Assistant a \<Rightarrow>
          (if usage_measures st (length older) a then Some (am_usage a, length older)
           else scan_usage st older)
      | _ \<Rightarrow> scan_usage st older)"

definition last_assistant_usage_info :: "'f agent_message list \<Rightarrow> ('f usage \<times> nat) option" where
  "last_assistant_usage_info ms = scan_usage (stale_usage ms) (rev ms)"

record context_usage_estimate =
  cue_tokens :: int
  cue_usage_tokens :: int
  cue_trailing_tokens :: int
  cue_last_usage_index :: "nat option"

definition compaction_calibration :: "'f f64_ops \<Rightarrow> 'f role_codecs \<Rightarrow> 'f agent_message list \<Rightarrow> 'f" where
  "compaction_calibration F C ms =
     (case filter_map (compaction_summary_data_of C) (rev ms) of
        data # _ \<Rightarrow>
          (case cd_estimated_before data of
             Some estimated \<Rightarrow>
               (if 0 < sint estimated \<and> 0 < sint (cd_tokens_before data)
                then f64_clamp F (f64_of F 1) (f64_of F 8)
                       (f64_div F (f64_of F (sint (cd_tokens_before data))) (f64_of F (sint estimated)))
                else f64_of F 1)
           | None \<Rightarrow> f64_of F 1)
      | [] \<Rightarrow> f64_of F 1)"

definition estimate_context_tokens ::
  "'f f64_ops \<Rightarrow> 'f role_codecs \<Rightarrow> 'f json_text \<Rightarrow> 'f agent_message list \<Rightarrow> context_usage_estimate" where
  "estimate_context_tokens F C J ms =
     (case last_assistant_usage_info ms of
        None \<Rightarrow>
          (let estimated = total_estimate C J ms;
               calibration = compaction_calibration F C ms;
               estimated = (if f64_less F (f64_of F 1) calibration
                            then f64_ceil F (f64_mul F (f64_of F estimated) calibration) else estimated)
           in \<lparr>cue_tokens = estimated, cue_usage_tokens = 0, cue_trailing_tokens = estimated,
               cue_last_usage_index = None\<rparr>)
      | Some (usage, index) \<Rightarrow>
          (let usage_tokens = usage_context_tokens usage;
               trailing = total_estimate C J (drop (index + 1) ms)
           in \<lparr>cue_tokens = wrap64 (usage_tokens + trailing), cue_usage_tokens = usage_tokens,
               cue_trailing_tokens = trailing, cue_last_usage_index = Some index\<rparr>))"

subsection \<open>What a measured context counts\<close>

lemma scan_usage_spec:
  "scan_usage st (rev ms) = Some (u, i) \<longleftrightarrow>
     (\<exists>a. i < length ms \<and> ms ! i = AgentMessage_Assistant a \<and> u = am_usage a \<and> usage_measures st i a
       \<and> (\<forall>j b. i < j \<and> j < length ms \<and> ms ! j = AgentMessage_Assistant b \<longrightarrow> \<not> usage_measures st j b))"
proof (induction ms rule: rev_induct)
  case (snoc m ms)
  have step: "scan_usage st (rev (ms @ [m])) =
      (case m of AgentMessage_Assistant a \<Rightarrow>
         if usage_measures st (length ms) a then Some (am_usage a, length ms) else scan_usage st (rev ms)
       | _ \<Rightarrow> scan_usage st (rev ms))"
    by (simp split: agent_message.split)
  show ?case
  proof (cases "\<exists>a. m = AgentMessage_Assistant a \<and> usage_measures st (length ms) a")
    case True
    then obtain a where a: "m = AgentMessage_Assistant a" "usage_measures st (length ms) a" by blast
    have "scan_usage st (rev (ms @ [m])) = Some (u, i) \<longleftrightarrow> u = am_usage a \<and> i = length ms"
      using a unfolding step by auto
    moreover have "(u = am_usage a \<and> i = length ms) \<longleftrightarrow>
        (\<exists>b. i < length (ms @ [m]) \<and> (ms @ [m]) ! i = AgentMessage_Assistant b \<and> u = am_usage b \<and> usage_measures st i b
          \<and> (\<forall>j c. i < j \<and> j < length (ms @ [m]) \<and> (ms @ [m]) ! j = AgentMessage_Assistant c \<longrightarrow> \<not> usage_measures st j c))"
      (is "?L \<longleftrightarrow> ?R")
    proof
      assume ?L
      then show ?R using a by (intro exI [of _ a]) auto
    next
      assume ?R
      then obtain b where b: "i < length (ms @ [m])" "(ms @ [m]) ! i = AgentMessage_Assistant b" "u = am_usage b"
        "\<forall>j c. i < j \<and> j < length (ms @ [m]) \<and> (ms @ [m]) ! j = AgentMessage_Assistant c \<longrightarrow> \<not> usage_measures st j c"
        by blast
      have "\<not> i < length ms" using b(4) [rule_format, of "length ms" a] a by auto
      then have "i = length ms" using b(1) by simp
      then show ?L using a b(2,3) by simp
    qed
    ultimately show ?thesis by (rule trans)
  next
    case False
    then have "scan_usage st (rev (ms @ [m])) = scan_usage st (rev ms)"
      unfolding step by (auto split: agent_message.split)
    moreover have "(\<exists>a. i < length (ms @ [m]) \<and> (ms @ [m]) ! i = AgentMessage_Assistant a \<and> u = am_usage a \<and> usage_measures st i a
          \<and> (\<forall>j b. i < j \<and> j < length (ms @ [m]) \<and> (ms @ [m]) ! j = AgentMessage_Assistant b \<longrightarrow> \<not> usage_measures st j b))
        \<longleftrightarrow> (\<exists>a. i < length ms \<and> ms ! i = AgentMessage_Assistant a \<and> u = am_usage a \<and> usage_measures st i a
          \<and> (\<forall>j b. i < j \<and> j < length ms \<and> ms ! j = AgentMessage_Assistant b \<longrightarrow> \<not> usage_measures st j b))"
      (is "?L \<longleftrightarrow> ?R")
    proof
      assume ?L
      then obtain a where a: "i < length (ms @ [m])" "(ms @ [m]) ! i = AgentMessage_Assistant a" "u = am_usage a"
        "usage_measures st i a" "\<forall>j b. i < j \<and> j < length (ms @ [m]) \<and> (ms @ [m]) ! j = AgentMessage_Assistant b \<longrightarrow> \<not> usage_measures st j b"
        by blast
      have "i \<noteq> length ms" using False a(2,4) by auto
      then have i: "i < length ms" using a(1) by simp
      have "\<not> usage_measures st j b" if "i < j" "j < length ms" "ms ! j = AgentMessage_Assistant b" for j b
        using a(5) [rule_format, of j b] that by (simp add: nth_append)
      then show ?R using a(2-4) i by (auto simp: nth_append)
    next
      assume ?R
      then obtain a where a: "i < length ms" "ms ! i = AgentMessage_Assistant a" "u = am_usage a" "usage_measures st i a"
        "\<forall>j b. i < j \<and> j < length ms \<and> ms ! j = AgentMessage_Assistant b \<longrightarrow> \<not> usage_measures st j b" by blast
      have "\<not> usage_measures st j b" if "i < j" "j < length (ms @ [m])" "(ms @ [m]) ! j = AgentMessage_Assistant b" for j b
        using a(5) that False by (cases "j = length ms") (auto simp: nth_append)
      then show ?L using a(1-4) by (intro exI [of _ a]) (simp add: nth_append)
    qed
    ultimately show ?thesis using snoc.IH by simp
  qed
qed simp

lemma stale_retained:
  assumes "rposition is_compaction_summary ms = Some n" "ms ! n = AgentMessage_Custom c"
    and "Option.bind (json_get ''retainedMessages'' (cm_data c)) json_as_u64 = Some r"
  shows "usage_is_current (stale_usage ms) i a \<longleftrightarrow> n + 1 + r \<le> i"
  using assms by (simp add: stale_usage_def usage_is_current_def)

text \<open>
  A measured context is counted from its newest valid measurement: the usage of the last assistant
  message that neither failed nor was aborted and was measured behind the newest compaction's summary
  and the messages it kept, plus the estimate of every message after it.
\<close>

theorem measured_context:
  assumes "estimate_context_tokens F C J ms = e" and "cue_last_usage_index e = Some i"
  shows "\<exists>a. i < length ms \<and> ms ! i = AgentMessage_Assistant a \<and> usage_measures (stale_usage ms) i a
     \<and> (\<forall>j b. i < j \<and> j < length ms \<and> ms ! j = AgentMessage_Assistant b \<longrightarrow> \<not> usage_measures (stale_usage ms) j b)
     \<and> cue_tokens e = wrap64 (usage_context_tokens (am_usage a) + total_estimate C J (drop (i + 1) ms))
     \<and> (\<forall>n c r. rposition is_compaction_summary ms = Some n \<and> ms ! n = AgentMessage_Custom c
          \<and> Option.bind (json_get ''retainedMessages'' (cm_data c)) json_as_u64 = Some r \<longrightarrow> n + r < i)"
proof -
  obtain u where last: "last_assistant_usage_info ms = Some (u, i)"
    using assms by (auto simp: estimate_context_tokens_def Let_def split: option.splits)
  then obtain a where a: "i < length ms" "ms ! i = AgentMessage_Assistant a" "u = am_usage a"
    "usage_measures (stale_usage ms) i a"
    "\<forall>j b. i < j \<and> j < length ms \<and> ms ! j = AgentMessage_Assistant b \<longrightarrow> \<not> usage_measures (stale_usage ms) j b"
    unfolding last_assistant_usage_info_def scan_usage_spec by blast
  have "cue_tokens e = wrap64 (usage_context_tokens (am_usage a) + total_estimate C J (drop (i + 1) ms))"
    using assms(1) last a(3) by (auto simp: estimate_context_tokens_def Let_def)
  moreover have "n + r < i"
    if "rposition is_compaction_summary ms = Some n" "ms ! n = AgentMessage_Custom c"
      "Option.bind (json_get ''retainedMessages'' (cm_data c)) json_as_u64 = Some r" for n c r
    using stale_retained [OF that, of i a] a(4) by (simp add: usage_measures_def)
  ultimately show ?thesis using a by blast
qed

theorem measured_context_witness:
  "cue_tokens (estimate_context_tokens
     \<lparr>f64_of = id, f64_div = (div), f64_mul = (*), f64_less = (<), f64_ceil = id, f64_round = id,
      f64_floor = id, f64_trunc = id\<rparr> demo_codecs \<lparr>jt_print = (\<lambda>_. None), jt_members = (\<lambda>_. None)\<rparr>
     [AgentMessage_Assistant ((assistant_empty Api_Faux ''faux'' ''faux-1'' 0)
        \<lparr>am_usage := usage_zero\<lparr>us_total_tokens := 110\<rparr>, am_stop_reason := StopReason_Stop\<rparr>),
      AgentMessage_User \<lparr>um_content = UserContent_Text ''abcdefghi'', um_timestamp = 0\<rparr>]) = 113"
proof -
  let ?F = "\<lparr>f64_of = id, f64_div = (div), f64_mul = (*), f64_less = (<), f64_ceil = id, f64_round = id,
      f64_floor = id, f64_trunc = id\<rparr> :: int f64_ops"
  let ?J = "\<lparr>jt_print = (\<lambda>_. None), jt_members = (\<lambda>_. None)\<rparr> :: int json_text"
  let ?a = "(assistant_empty Api_Faux ''faux'' ''faux-1'' 0)
        \<lparr>am_usage := usage_zero\<lparr>us_total_tokens := 110\<rparr>, am_stop_reason := StopReason_Stop\<rparr> :: int assistant_message"
  let ?ms = "[AgentMessage_Assistant ?a,
      AgentMessage_User \<lparr>um_content = UserContent_Text ''abcdefghi'', um_timestamp = 0\<rparr>]"
  have "cue_last_usage_index (estimate_context_tokens ?F demo_codecs ?J ?ms) = Some 0" by code_simp
  from measured_context [OF refl this] have
    "cue_tokens (estimate_context_tokens ?F demo_codecs ?J ?ms) =
       wrap64 (usage_context_tokens (am_usage ?a) + total_estimate demo_codecs ?J (drop (0 + 1) ?ms))" by auto
  then show ?thesis by (rule trans) code_simp
qed

end
