(* ===== verification/Compaction.thy ===== *)
theory Compaction
  imports Compaction_Tokens
begin

text \<open>
  \<open>crates/evo-harness/src/compaction/cut_point.rs\<close>, \<open>compaction.rs\<close> and \<open>branch_summary.rs\<close>:
  where a long history is cut, what is summarized and what is kept, and the results built from the
  summaries. The model that writes a summary is a parameter of the functions that call it.
\<close>

subsection \<open>Cut points\<close>

fun is_valid_cut_point :: "'f entry \<Rightarrow> bool" where
  "is_valid_cut_point (Entry_Message m) =
     (case message_role (me_message m) of
        Role_User \<Rightarrow> True
      | Role_Assistant \<Rightarrow> True
      | Role_Custom role \<Rightarrow>
          role \<in> {bash_execution_role, custom_role, branch_summary_role, compaction_summary_role}
      | Role_ToolResult \<Rightarrow> False)"
| "is_valid_cut_point (Entry_BranchSummary _) = True"
| "is_valid_cut_point _ = False"

definition find_valid_cut_points :: "'f entry list \<Rightarrow> nat \<Rightarrow> nat \<Rightarrow> nat list" where
  "find_valid_cut_points es start end =
     filter (\<lambda>i. is_valid_cut_point (es ! i)) [start..<min end (length es)]"

fun starts_turn :: "'f entry \<Rightarrow> bool" where
  "starts_turn (Entry_BranchSummary _) = True"
| "starts_turn (Entry_Message m) =
     (message_role (me_message m) = Role_User
      \<or> message_role (me_message m) = Role_Custom bash_execution_role)"
| "starts_turn _ = False"

text \<open>The loop of \<open>find_turn_start_index\<close>, from \<open>start + n\<close> down to \<open>start\<close>.\<close>

fun turn_start_loop :: "'f entry list \<Rightarrow> nat \<Rightarrow> nat \<Rightarrow> nat option" where
  "turn_start_loop es start 0 = (if starts_turn (es ! start) then Some start else None)"
| "turn_start_loop es start (Suc n) =
     (if starts_turn (es ! (start + Suc n)) then Some (start + Suc n) else turn_start_loop es start n)"

definition find_turn_start_index :: "'f entry list \<Rightarrow> nat \<Rightarrow> nat \<Rightarrow> nat option" where
  "find_turn_start_index es i start = (if i < start then None else turn_start_loop es start (i - start))"

record cut_point_result =
  cpr_first_kept :: nat
  cpr_turn_start :: "nat option"
  cpr_is_split :: bool

text \<open>
  The walk back that sums the tokens: the index where the budget is reached, or \<open>None\<close>. \<open>n\<close> is the
  number of entries still to visit after \<open>start\<close>.
\<close>

fun budget_index ::
  "'f role_codecs \<Rightarrow> 'f json_text \<Rightarrow> 'f entry list \<Rightarrow> int \<Rightarrow> nat \<Rightarrow> nat \<Rightarrow> int \<Rightarrow> nat option" where
  "budget_index C J es keep start 0 acc = None"
| "budget_index C J es keep start (Suc n) acc =
     (case entry_as_message (es ! (start + n)) of
        None \<Rightarrow> budget_index C J es keep start n acc
      | Some m \<Rightarrow>
          (let acc = acc + estimate_tokens C J m
           in if keep \<le> acc then Some (start + n) else budget_index C J es keep start n acc))"

text \<open>The walk of the cut back over entries that are neither messages nor compactions.\<close>

fun is_boundary :: "'f entry \<Rightarrow> bool" where
  "is_boundary (Entry_Compaction _) = True"
| "is_boundary (Entry_Message _) = True"
| "is_boundary _ = False"

fun walk_cut :: "'f entry list \<Rightarrow> nat \<Rightarrow> nat \<Rightarrow> nat" where
  "walk_cut es start 0 = start"
| "walk_cut es start (Suc n) =
     (if is_boundary (es ! (start + n)) then start + Suc n else walk_cut es start n)"

fun is_user_entry :: "'f entry \<Rightarrow> bool" where
  "is_user_entry (Entry_Message m) = (message_role (me_message m) = Role_User)"
| "is_user_entry _ = False"

definition chosen_cut ::
  "'f role_codecs \<Rightarrow> 'f json_text \<Rightarrow> 'f entry list \<Rightarrow> nat \<Rightarrow> nat \<Rightarrow> int \<Rightarrow> nat list \<Rightarrow> nat" where
  "chosen_cut C J es start end keep cut_points =
     (let lo = min start (length es); hi = min end (length es)
      in case (if end > 0 then budget_index C J es keep lo (hi - lo) 0 else None) of
           None \<Rightarrow> hd cut_points
         | Some i \<Rightarrow>
             (case find (\<lambda>c. i \<le> c) cut_points of None \<Rightarrow> hd cut_points | Some c \<Rightarrow> c))"

definition find_cut_point ::
  "'f role_codecs \<Rightarrow> 'f json_text \<Rightarrow> 'f entry list \<Rightarrow> nat \<Rightarrow> nat \<Rightarrow> int \<Rightarrow> cut_point_result" where
  "find_cut_point C J es start end keep =
     (let cut_points = find_valid_cut_points es start end
      in if cut_points = []
         then \<lparr>cpr_first_kept = start, cpr_turn_start = None, cpr_is_split = False\<rparr>
         else
           (let cut = walk_cut es start (chosen_cut C J es start end keep cut_points - start);
                user = is_user_entry (es ! cut);
                turn_start = (if user then None else find_turn_start_index es cut start)
            in \<lparr>cpr_first_kept = cut, cpr_turn_start = turn_start,
                cpr_is_split = \<not> user \<and> turn_start \<noteq> None\<rparr>))"

subsection \<open>Preparing a compaction\<close>

record 'f compaction_preparation =
  prep_messages_to_summarize :: "'f agent_message list"
  prep_turn_prefix_messages :: "'f agent_message list"
  prep_retained_tail :: "'f agent_message list"
  prep_is_split_turn :: bool
  prep_tokens_before :: int
  prep_previous_summary :: "string option"
  prep_file_ops :: file_operations
  prep_settings :: compaction_settings

fun get_message_from_entry :: "'f role_codecs \<Rightarrow> 'f entry \<Rightarrow> 'f agent_message option" where
  "get_message_from_entry C (Entry_Message m) = Some (me_message m)"
| "get_message_from_entry C (Entry_BranchSummary b) =
     Some (create_branch_summary_message C (bs_summary b) (bs_from_id b) (eb_timestamp (bs_base b)))"
| "get_message_from_entry C (Entry_Compaction c) =
     Some (create_compaction_summary_message C (ce_summary c) (ce_tokens_before c) (eb_timestamp (ce_base c)))"
| "get_message_from_entry C _ = None"

definition get_message_for_compaction :: "'f role_codecs \<Rightarrow> 'f entry \<Rightarrow> 'f agent_message option" where
  "get_message_for_compaction C e = (if is_compaction e then None else get_message_from_entry C e)"

fun agent_message_timestamp :: "'f agent_message \<Rightarrow> i64" where
  "agent_message_timestamp (AgentMessage_User u) = um_timestamp u"
| "agent_message_timestamp (AgentMessage_Assistant a) = am_timestamp a"
| "agent_message_timestamp (AgentMessage_ToolResult t) = tr_timestamp t"
| "agent_message_timestamp (AgentMessage_Custom c) = cm_timestamp c"

fun json_as_array :: "'f json \<Rightarrow> 'f json list option" where
  "json_as_array (JArray vs) = Some vs"
| "json_as_array _ = None"

definition listed_files :: "string \<Rightarrow> 'f json \<Rightarrow> string list" where
  "listed_files key details =
     (case Option.bind (json_get key details) json_as_array of
        None \<Rightarrow> []
      | Some vs \<Rightarrow> filter_map json_as_str vs)"

text \<open>The lists stored by an earlier summary: what it modified counts as edited.\<close>

definition seed_file_ops :: "'f json option \<Rightarrow> file_operations \<Rightarrow> file_operations" where
  "seed_file_ops details ops =
     (case details of
        None \<Rightarrow> ops
      | Some d \<Rightarrow>
          ops\<lparr>fo_read := set (listed_files ''readFiles'' d) \<union> fo_read ops,
              fo_edited := set (listed_files ''modifiedFiles'' d) \<union> fo_edited ops\<rparr>)"

definition extract_file_operations ::
  "'f agent_message list \<Rightarrow> 'f entry list \<Rightarrow> nat option \<Rightarrow> file_operations" where
  "extract_file_operations ms es prev =
     (let ops = (case prev of
                   None \<Rightarrow> create_file_ops
                 | Some i \<Rightarrow>
                     (if i < length es
                      then (case es ! i of
                              Entry_Compaction c \<Rightarrow> seed_file_ops (ce_details c) create_file_ops
                            | _ \<Rightarrow> create_file_ops)
                      else create_file_ops))
      in fold extract_file_ops_from_message ms ops)"

definition virtual_entry :: "'f compaction_entry \<Rightarrow> nat \<Rightarrow> 'f agent_message \<Rightarrow> 'f entry" where
  "virtual_entry prev index m =
     (let prev_id = eb_id (ce_base prev)
      in Entry_Message
           \<lparr>me_base =
              \<lparr>eb_entry_type = ''message'', eb_id = prev_id @ '':retained:'' @ show_nat index,
               eb_seq = eb_seq (ce_base prev),
               eb_parent_id =
                 (if index = 0 then Some prev_id else Some (prev_id @ '':retained:'' @ show_nat (index - 1))),
               eb_timestamp = agent_message_timestamp m\<rparr>,
            me_message = m, me_terminate = None\<rparr>)"

definition compactable_entries :: "'f entry list \<Rightarrow> nat option \<Rightarrow> string option \<times> 'f entry list" where
  "compactable_entries es prev =
     (case prev of
        None \<Rightarrow> (None, es)
      | Some i \<Rightarrow>
          (case es ! i of
             Entry_Compaction c \<Rightarrow>
               (Some (ce_summary c),
                map (\<lambda>(index, m). virtual_entry c index m) (List.enumerate 0 (ce_retained_tail c))
                @ drop (i + 1) es)
           | _ \<Rightarrow> (None, es)))"

definition keep_recent_estimated ::
  "'f f64_ops \<Rightarrow> 'f role_codecs \<Rightarrow> 'f json_text \<Rightarrow> int \<Rightarrow> int \<Rightarrow> 'f agent_message list \<Rightarrow> int" where
  "keep_recent_estimated F C J keep tokens_before context =
     (let estimated = total_estimate C J context
      in if estimated \<le> 0 \<or> tokens_before \<le> estimated then keep
         else (let ratio = f64_min F (f64_div F (f64_of F tokens_before) (f64_of F estimated)) (f64_of F 8)
               in max (f64_round F (f64_div F (f64_of F keep) ratio)) 1))"

definition prepare_compaction ::
  "'f f64_ops \<Rightarrow> 'f role_codecs \<Rightarrow> 'f json_text \<Rightarrow> 'f entry list \<Rightarrow> compaction_settings
     \<Rightarrow> 'f compaction_preparation option" where
  "prepare_compaction F C J es settings =
     (if es = [] \<or> is_compaction (last es) then None
      else
        (let prev = rposition is_compaction es;
             (previous_summary, compactable) = compactable_entries es prev;
             context = sc_messages (build_session_context C es context_options_default);
             tokens_before = cue_tokens (estimate_context_tokens F C J context);
             cut = find_cut_point C J compactable 0 (length compactable)
                     (keep_recent_estimated F C J (cset_keep_recent_tokens settings) tokens_before context);
             history_end = (if cpr_is_split cut then the (cpr_turn_start cut) else cpr_first_kept cut);
             message = get_message_for_compaction C;
             to_summarize = filter_map message (take history_end compactable);
             turn_prefix = (if cpr_is_split cut
                            then filter_map message
                                   (drop (the (cpr_turn_start cut)) (take (cpr_first_kept cut) compactable))
                            else []);
             file_ops = fold extract_file_ops_from_message turn_prefix
                          (extract_file_operations to_summarize es prev)
         in Some \<lparr>prep_messages_to_summarize = to_summarize, prep_turn_prefix_messages = turn_prefix,
                  prep_retained_tail = filter_map message (drop (cpr_first_kept cut) compactable),
                  prep_is_split_turn = cpr_is_split cut, prep_tokens_before = tokens_before,
                  prep_previous_summary = previous_summary, prep_file_ops = file_ops,
                  prep_settings = settings\<rparr>))"

subsection \<open>Calls of the model\<close>

datatype compaction_error_code = Compaction_Aborted | Compaction_SummarizationFailed

record compaction_error =
  cerr_code :: compaction_error_code
  cerr_message :: string

fun compaction_error_code_str :: "compaction_error_code \<Rightarrow> string" where
  "compaction_error_code_str Compaction_Aborted = ''aborted''"
| "compaction_error_code_str Compaction_SummarizationFailed = ''summarization_failed''"

definition compaction_error_aborted :: "string \<Rightarrow> compaction_error" where
  "compaction_error_aborted message = \<lparr>cerr_code = Compaction_Aborted, cerr_message = message\<rparr>"

definition compaction_error_failed :: "string \<Rightarrow> compaction_error" where
  "compaction_error_failed message = \<lparr>cerr_code = Compaction_SummarizationFailed, cerr_message = message\<rparr>"

record retry_policy =
  rp_enabled :: bool
  rp_max_retries :: u32
  rp_base_delay_ms :: nat
  rp_max_agent_delay_ms :: nat

text \<open>\<open>to_lowercase\<close> on the first 256 code points.\<close>

definition lower_char :: "char \<Rightarrow> char" where
  "lower_char c =
     (let n = (of_char c :: nat)
      in if 65 \<le> n \<and> n \<le> 90 \<or> 192 \<le> n \<and> n \<le> 222 \<and> n \<noteq> 215 then char_of (n + 32) else c)"

definition non_retryable :: "string list" where
  "non_retryable =
     [''gousagelimiterror'', ''freeusagelimiterror'', ''monthly usage limit reached'', ''available balance'',
      ''insufficient_quota'', ''out of budget'', ''quota exceeded'', ''billing'']"

definition retryable :: "string list" where
  "retryable =
     [''overloaded'', ''rate limit'', ''too many requests'', ''429'', ''500'', ''502'', ''503'', ''504'', ''524'',
      ''service unavailable'', ''server error'', ''internal error'', ''provider returned error'',
      ''exceeded request buffer limit while retrying upstream'', ''network error'', ''connection error'',
      ''connection refused'', ''connection lost'', ''other side closed'', ''fetch failed'', ''getaddrinfo'',
      ''enotfound'', ''eai_again'', ''upstream connect'', ''reset before headers'', ''socket hang up'',
      ''socket connection was closed'', ''timed out'', ''timeout'', ''websocket closed'', ''websocket error'',
      ''ended without'', ''stream ended before message_stop'',
      ''stream ended before a terminal response event'', ''http2 request did not get a response'',
      ''retry delay'', ''you can retry your request'', ''try your request again'',
      ''please retry your request'', ''resourceexhausted'']"

definition is_retryable_assistant_error :: "'f assistant_message \<Rightarrow> bool" where
  "is_retryable_assistant_error a =
     (if am_stop_reason a \<noteq> StopReason_Error then False
      else case am_error_message a of
             None \<Rightarrow> False
           | Some msg \<Rightarrow>
               (let lower = map lower_char msg
                in if list_ex (\<lambda>p. contains_str p lower) non_retryable then False
                   else list_ex (\<lambda>p. contains_str p lower) retryable))"

text \<open>
  The delay before retry number \<open>attempt\<close> (from 1): the shift uses the low six bits of its distance,
  as in a release build, and the product saturates.
\<close>

definition retry_delay :: "nat \<Rightarrow> nat \<Rightarrow> nat \<Rightarrow> nat" where
  "retry_delay base limit attempt = min (min (base * 2 ^ ((attempt - 1) mod 64)) (2 ^ 64 - 1)) limit"

text \<open>
  The retry loop. A call is a step of the state \<open>'s\<close>; \<open>cancelled\<close> tells whether the signal fires
  during the sleep before a retry. \<open>left\<close> is the number of retries still allowed; the delays slept are
  returned with the message.
\<close>

fun retry_loop ::
  "('s \<Rightarrow> 'f assistant_message \<times> 's) \<Rightarrow> (nat \<Rightarrow> bool) \<Rightarrow> nat \<Rightarrow> nat \<Rightarrow> nat \<Rightarrow> nat \<Rightarrow> 's
     \<Rightarrow> 'f assistant_message \<times> nat list \<times> 's" where
  "retry_loop produce cancelled base limit attempt 0 s =
     (let (response, s) = produce s in (response, [], s))"
| "retry_loop produce cancelled base limit attempt (Suc left) s =
     (let (response, s) = produce s
      in if am_stop_reason response = StopReason_Aborted \<or> am_stop_reason response \<noteq> StopReason_Error
            \<or> \<not> is_retryable_assistant_error response
         then (response, [], s)
         else
           (let attempt = attempt + 1; delay = retry_delay base limit attempt
            in if cancelled attempt
               then (response\<lparr>am_stop_reason := StopReason_Aborted, am_error_message := None\<rparr>, [delay], s)
               else (let (response, delays, s) = retry_loop produce cancelled base limit attempt left s
                     in (response, delay # delays, s))))"

definition retry_assistant_call ::
  "('s \<Rightarrow> 'f assistant_message \<times> 's) \<Rightarrow> (nat \<Rightarrow> bool) \<Rightarrow> retry_policy option \<Rightarrow> 's
     \<Rightarrow> 'f assistant_message \<times> nat list \<times> 's" where
  "retry_assistant_call produce cancelled retry s =
     (case retry of
        Some p \<Rightarrow>
          (if rp_enabled p
           then retry_loop produce cancelled (rp_base_delay_ms p) (rp_max_agent_delay_ms p) 0
                  (unat (rp_max_retries p)) s
           else retry_loop produce cancelled 1000 60000 0 0 s)
      | None \<Rightarrow> retry_loop produce cancelled 1000 60000 0 0 s)"

subsection \<open>Summaries\<close>

text \<open>
  The requests for a summary: the prompts of the source and the caller's instructions, and the
  model as a step that answers a prompt within a number of tokens (with its retries).
\<close>

record summary_options =
  sop_summarization_prompt :: string
  sop_update_prompt :: string
  sop_turn_prefix_prompt :: string
  sop_custom_instructions :: "string option"
  sop_model_max_tokens :: nat

type_synonym ('s, 'f) llm = "'s \<Rightarrow> string \<Rightarrow> nat \<Rightarrow> 'f assistant_message \<times> 's"

definition share_of_reserve :: "'f f64_ops \<Rightarrow> int \<Rightarrow> int \<Rightarrow> nat \<Rightarrow> nat" where
  "share_of_reserve F tenths reserve model_max =
     (let budget = nat (f64_floor F (f64_mul F (f64_of F (max reserve 0)) (f64_div F (f64_of F tenths) (f64_of F 10))))
      in if 0 < model_max then min budget model_max else budget)"

definition summary_max_tokens :: "'f f64_ops \<Rightarrow> int \<Rightarrow> nat \<Rightarrow> nat" where
  "summary_max_tokens F = share_of_reserve F 8"

definition turn_prefix_max_tokens :: "'f f64_ops \<Rightarrow> int \<Rightarrow> nat \<Rightarrow> nat" where
  "turn_prefix_max_tokens F = share_of_reserve F 5"

definition summary_answer :: "string \<Rightarrow> 'f assistant_message \<Rightarrow> compaction_error + string \<times> 'f usage" where
  "summary_answer what response =
     (if am_stop_reason response = StopReason_Aborted
      then Inl (compaction_error_aborted
                 (case am_error_message response of Some e \<Rightarrow> e | None \<Rightarrow> what @ '' aborted''))
      else if am_stop_reason response = StopReason_Error
      then Inl (compaction_error_failed
                 (what @ '' failed: '' @ (case am_error_message response of Some e \<Rightarrow> e | None \<Rightarrow> ''Unknown error'')))
      else Inr (text_only (am_content response) newline, am_usage response))"

definition conversation_tag :: "'f role_codecs \<Rightarrow> 'f json_text \<Rightarrow> 'f agent_message list \<Rightarrow> string" where
  "conversation_tag C J ms =
     ''<conversation>'' @ newline @ serialize_conversation J (convert_to_llm C ms) @ newline
     @ ''</conversation>'' @ newline @ newline"

definition generate_summary_with_usage ::
  "'f f64_ops \<Rightarrow> 'f role_codecs \<Rightarrow> 'f json_text \<Rightarrow> summary_options \<Rightarrow> ('s, 'f) llm \<Rightarrow> 'f agent_message list
     \<Rightarrow> int \<Rightarrow> string option \<Rightarrow> 's \<Rightarrow> (compaction_error + string \<times> 'f usage) \<times> 's" where
  "generate_summary_with_usage F C J P llm ms reserve previous s =
     (let base = (case previous of Some _ \<Rightarrow> sop_update_prompt P | None \<Rightarrow> sop_summarization_prompt P)
                 @ (case sop_custom_instructions P of
                      None \<Rightarrow> [] | Some ci \<Rightarrow> newline @ newline @ ''Additional focus: '' @ ci);
          prompt = conversation_tag C J ms
                   @ (case previous of
                        None \<Rightarrow> []
                      | Some prev \<Rightarrow> ''<previous-summary>'' @ newline @ prev @ newline
                                      @ ''</previous-summary>'' @ newline @ newline)
                   @ base;
          (response, s) = llm s prompt (summary_max_tokens F reserve (sop_model_max_tokens P))
      in (summary_answer ''Summarization'' response, s))"

definition generate_turn_prefix_summary ::
  "'f f64_ops \<Rightarrow> 'f role_codecs \<Rightarrow> 'f json_text \<Rightarrow> summary_options \<Rightarrow> ('s, 'f) llm \<Rightarrow> 'f agent_message list
     \<Rightarrow> int \<Rightarrow> 's \<Rightarrow> (compaction_error + string \<times> 'f usage) \<times> 's" where
  "generate_turn_prefix_summary F C J P llm ms reserve s =
     (let (response, s) = llm s (conversation_tag C J ms @ sop_turn_prefix_prompt P)
                            (turn_prefix_max_tokens F reserve (sop_model_max_tokens P))
      in (summary_answer ''Turn prefix summarization'' response, s))"

record compaction_details =
  cdet_read_files :: "string list"
  cdet_modified_files :: "string list"
  cdet_estimated_before :: "int option"

record 'f compact_result =
  cres_summary :: string
  cres_tokens_before :: int
  cres_usage :: "'f usage option"
  cres_retained_tail :: "'f agent_message list"
  cres_details :: "compaction_details option"

definition prep_estimated_before ::
  "'f role_codecs \<Rightarrow> 'f json_text \<Rightarrow> 'f compaction_preparation \<Rightarrow> int" where
  "prep_estimated_before C J p =
     (case prep_previous_summary p of None \<Rightarrow> 0 | Some summary \<Rightarrow> (int (length summary) + 3) div 4)
     + total_estimate C J (prep_messages_to_summarize p @ prep_turn_prefix_messages p @ prep_retained_tail p)"

definition combine_usage :: "'f::plus usage \<Rightarrow> 'f usage \<Rightarrow> 'f usage" where
  "combine_usage first second = usage_add first second"

text \<open>The summaries of a compaction: two calls for a split turn, otherwise one.\<close>

definition summarize_split ::
  "'f::plus f64_ops \<Rightarrow> 'f role_codecs \<Rightarrow> 'f json_text \<Rightarrow> summary_options \<Rightarrow> ('s, 'f) llm
     \<Rightarrow> 'f compaction_preparation \<Rightarrow> 's \<Rightarrow> (compaction_error + string \<times> 'f usage option) \<times> 's" where
  "summarize_split F C J P llm p s =
     (let reserve = cset_reserve_tokens (prep_settings p);
          (history, s) =
            (if prep_messages_to_summarize p = [] then (Inr (''No prior history.'', None), s)
             else (case generate_summary_with_usage F C J P llm (prep_messages_to_summarize p) reserve
                          (prep_previous_summary p) s of
                     (Inl e, s) \<Rightarrow> (Inl e, s)
                   | (Inr (t, u), s) \<Rightarrow> (Inr (t, Some u), s)))
      in case history of
           Inl e \<Rightarrow> (Inl e, s)
         | Inr (history_text, history_usage) \<Rightarrow>
             (case generate_turn_prefix_summary F C J P llm (prep_turn_prefix_messages p) reserve s of
                (Inl e, s) \<Rightarrow> (Inl e, s)
              | (Inr (turn_text, turn_usage), s) \<Rightarrow>
                  (Inr (history_text @ newline @ newline @ ''---'' @ newline @ newline
                          @ ''**Turn Context (split turn):**'' @ newline @ newline @ turn_text,
                        Some (case history_usage of
                                Some hu \<Rightarrow> combine_usage hu turn_usage | None \<Rightarrow> turn_usage)), s)))"

definition compact ::
  "'f::plus f64_ops \<Rightarrow> 'f role_codecs \<Rightarrow> 'f json_text \<Rightarrow> summary_options \<Rightarrow> ('s, 'f) llm
     \<Rightarrow> 'f compaction_preparation \<Rightarrow> 's \<Rightarrow> (compaction_error + 'f compact_result) \<times> 's" where
  "compact F C J P llm p s =
     (let (summaries, s) =
            (if prep_is_split_turn p \<and> prep_turn_prefix_messages p \<noteq> []
             then summarize_split F C J P llm p s
             else (case generate_summary_with_usage F C J P llm (prep_messages_to_summarize p)
                          (cset_reserve_tokens (prep_settings p)) (prep_previous_summary p) s of
                     (Inl e, s) \<Rightarrow> (Inl e, s)
                   | (Inr (t, u), s) \<Rightarrow> (Inr (t, Some u), s)))
      in (res_bind summaries (\<lambda>(summary, usage).
            (let (read_files, modified_files) = compute_file_lists (prep_file_ops p)
             in Inr \<lparr>cres_summary = summary @ format_file_operations read_files modified_files,
                     cres_tokens_before = prep_tokens_before p, cres_usage = usage,
                     cres_retained_tail = prep_retained_tail p,
                     cres_details = Some \<lparr>cdet_read_files = read_files, cdet_modified_files = modified_files,
                       cdet_estimated_before = Some (prep_estimated_before C J p)\<rparr>\<rparr>)), s))"

subsection \<open>Leaving a branch\<close>

record 'f branch_preparation =
  bp_messages :: "'f agent_message list"
  bp_file_ops :: file_operations
  bp_total_tokens :: int

record 'f collected_entries =
  coll_entries :: "'f entry list"
  coll_common_ancestor :: "string option"

fun get_branch_message :: "'f role_codecs \<Rightarrow> 'f entry \<Rightarrow> 'f agent_message option" where
  "get_branch_message C (Entry_Message m) =
     (if message_role (me_message m) = Role_ToolResult then None else Some (me_message m))"
| "get_branch_message C e = get_message_from_entry C e"

definition collect_entries_for_branch_summary ::
  "'f session_state \<Rightarrow> string option \<Rightarrow> string \<Rightarrow> session_error + 'f collected_entries" where
  "collect_entries_for_branch_summary s old_leaf target =
     (case old_leaf of
        None \<Rightarrow> Inr \<lparr>coll_entries = [], coll_common_ancestor = None\<rparr>
      | Some old \<Rightarrow>
          res_bind (branch_ancestry s branch_bounds_default old) (\<lambda>old_entries.
          res_bind (branch_ancestry s branch_bounds_default target) (\<lambda>target_path.
          (let old_path = map ea_id old_entries;
               common = map_option ea_id (find (\<lambda>e. ea_id e \<in> set old_path) target_path)
           in res_bind
                (find_entries_on_branch s
                   (entry_query_default\<lparr>eq_exclude_tool_program_bodies := True, eq_order := Some NewestFirst\<rparr>)
                   (branch_bounds_default\<lparr>bb_stop_at_id := common\<rparr>) old)
                (\<lambda>entries.
                   Inr \<lparr>coll_entries = rev (filter (\<lambda>e. Some (entry_id e) \<noteq> common) entries),
                        coll_common_ancestor = common\<rparr>)))))"

text \<open>The walk back over the entries, newest first, that gathers messages within the budget.\<close>

fun gather_branch ::
  "'f f64_ops \<Rightarrow> 'f role_codecs \<Rightarrow> 'f json_text \<Rightarrow> int \<Rightarrow> 'f entry list \<Rightarrow> 'f branch_preparation
     \<Rightarrow> 'f branch_preparation" where
  "gather_branch F C J budget [] p = p"
| "gather_branch F C J budget (e # older) p =
     (case get_branch_message C e of
        None \<Rightarrow> gather_branch F C J budget older p
      | Some m \<Rightarrow>
          (let tokens = estimate_tokens C J m;
               p = p\<lparr>bp_file_ops := extract_file_ops_from_message m (bp_file_ops p)\<rparr>;
               taken = p\<lparr>bp_messages := m # bp_messages p, bp_total_tokens := bp_total_tokens p + tokens\<rparr>
           in if bp_total_tokens p + tokens > budget
              then (if (is_compaction e \<or> is_branch_summary e)
                       \<and> bp_total_tokens p < f64_trunc F (f64_mul F (f64_of F budget) (f64_div F (f64_of F 9) (f64_of F 10)))
                    then taken else p)
              else gather_branch F C J budget older taken))"

definition seed_branch_ops :: "'f entry list \<Rightarrow> file_operations" where
  "seed_branch_ops es =
     fold (\<lambda>e ops. case e of Entry_BranchSummary b \<Rightarrow> seed_file_ops (bs_details b) ops | _ \<Rightarrow> ops) es create_file_ops"

definition prepare_branch_entries ::
  "'f f64_ops \<Rightarrow> 'f role_codecs \<Rightarrow> 'f json_text \<Rightarrow> 'f entry list \<Rightarrow> int \<Rightarrow> 'f branch_preparation" where
  "prepare_branch_entries F C J es budget =
     (let seed = seed_branch_ops es
      in if 0 < budget
         then gather_branch F C J budget (rev es)
                \<lparr>bp_messages = [], bp_file_ops = seed, bp_total_tokens = 0\<rparr>
         else (let ms = filter_map (get_branch_message C) es
               in \<lparr>bp_messages = ms, bp_file_ops = fold extract_file_ops_from_message ms seed,
                   bp_total_tokens = total_estimate C J ms\<rparr>))"

text \<open>\<open>generate_branch_summary\<close>; the preamble and the prompt of the source are a parameter.\<close>

record 'f branch_summary_result =
  bres_summary :: string
  bres_usage :: "'f usage option"
  bres_read_files :: "string list"
  bres_modified_files :: "string list"

record branch_summary_options =
  bopt_preamble :: string
  bopt_prompt :: string
  bopt_custom_instructions :: "string option"
  bopt_replace_instructions :: bool
  bopt_context_window :: int
  bopt_reserve_tokens :: int

definition generate_branch_summary ::
  "'f f64_ops \<Rightarrow> 'f role_codecs \<Rightarrow> 'f json_text \<Rightarrow> branch_summary_options \<Rightarrow> ('s, 'f) llm \<Rightarrow> 'f entry list
     \<Rightarrow> 's \<Rightarrow> (compaction_error + 'f branch_summary_result) \<times> 's" where
  "generate_branch_summary F C J P llm es s =
     (let window = (if 0 < bopt_context_window P then bopt_context_window P else 128000);
          prep = prepare_branch_entries F C J es (window - bopt_reserve_tokens P)
      in if bp_messages prep = []
         then (Inr \<lparr>bres_summary = ''No content to summarize'', bres_usage = None,
                    bres_read_files = [], bres_modified_files = []\<rparr>, s)
         else
           (let instructions =
                  (case bopt_custom_instructions P of
                     Some ci \<Rightarrow> (if bopt_replace_instructions P then ci
                                 else bopt_prompt P @ newline @ newline @ ''Additional focus: '' @ ci)
                   | None \<Rightarrow> bopt_prompt P);
                (response, s) = llm s (conversation_tag C J (bp_messages prep) @ instructions) 2048
            in (res_bind (summary_answer ''Branch summary'' response) (\<lambda>(text, usage).
                  (let (read_files, modified_files) = compute_file_lists (bp_file_ops prep)
                   in Inr \<lparr>bres_summary = bopt_preamble P @ text @ format_file_operations read_files modified_files,
                           bres_usage = Some usage, bres_read_files = read_files,
                           bres_modified_files = modified_files\<rparr>)), s)))"

subsection \<open>Where the cut falls\<close>

lemma valid_is_boundary: "is_valid_cut_point e \<Longrightarrow> is_boundary e \<or> is_branch_summary e"
  by (cases e) auto

lemma turn_start_loop_Some:
  "turn_start_loop es start n = Some i \<Longrightarrow> start \<le> i \<and> i \<le> start + n \<and> starts_turn (es ! i)"
  by (induction n) (auto split: if_splits)

lemma find_turn_start_Some:
  "find_turn_start_index es i start = Some t \<Longrightarrow> start \<le> t \<and> t \<le> i \<and> starts_turn (es ! t)"
  using turn_start_loop_Some [of es start "i - start" t] by (auto simp: find_turn_start_index_def split: if_splits)

lemma walk_cut_bounds:
  "start \<le> walk_cut es start n \<and> walk_cut es start n \<le> start + n
     \<and> (\<forall>j. walk_cut es start n \<le> j \<and> j < start + n \<longrightarrow> \<not> is_boundary (es ! j))"
proof (induction n)
  case (Suc n)
  then show ?case by (auto simp: less_Suc_eq)
qed auto

lemma valid_cut_points_set:
  "set (find_valid_cut_points es start end) = {i. start \<le> i \<and> i < end \<and> i < length es \<and> is_valid_cut_point (es ! i)}"
  by (auto simp: find_valid_cut_points_def)

text \<open>The tokens of the messages among some entries.\<close>

definition entry_tokens :: "'f role_codecs \<Rightarrow> 'f json_text \<Rightarrow> 'f entry list \<Rightarrow> int" where
  "entry_tokens C J es = total_estimate C J (filter_map entry_as_message es)"

lemma estimate_nonneg [simp]: "0 \<le> estimate_tokens C J m"
  by (simp add: estimate_tokens_def div_ceil_def)

lemma total_estimate_simps [simp]:
  "total_estimate C J [] = 0" "total_estimate C J (m # ms) = estimate_tokens C J m + total_estimate C J ms"
  "total_estimate C J (ms @ ns) = total_estimate C J ms + total_estimate C J ns"
  by (simp_all add: total_estimate_def)

lemma total_estimate_nonneg [simp]: "0 \<le> total_estimate C J ms"
  by (induction ms) auto

lemma entry_tokens_simps [simp]:
  "entry_tokens C J [] = 0"
  "entry_tokens C J (e # es) =
     (case entry_as_message e of None \<Rightarrow> 0 | Some m \<Rightarrow> estimate_tokens C J m) + entry_tokens C J es"
  "entry_tokens C J (es @ fs) = entry_tokens C J es + entry_tokens C J fs"
  by (simp_all add: entry_tokens_def split: option.split)

lemma entry_tokens_nonneg [simp]: "0 \<le> entry_tokens C J es"
  by (simp add: entry_tokens_def)

lemma entry_tokens_drop_mono: "i \<le> j \<Longrightarrow> entry_tokens C J (drop j es) \<le> entry_tokens C J (drop i es)"
proof -
  assume "i \<le> j"
  then have "drop i es = take (j - i) (drop i es) @ drop j es"
    by (metis append_take_drop_id drop_drop le_add_diff_inverse2)
  then have "entry_tokens C J (drop i es) = entry_tokens C J (take (j - i) (drop i es)) + entry_tokens C J (drop j es)"
    by (metis entry_tokens_simps(3))
  then show ?thesis by simp
qed

text \<open>The walk back from \<open>n\<close>, with \<open>acc\<close> the tokens of the entries from \<open>n\<close> on.\<close>

lemma budget_index_spec:
  assumes "n \<le> length es" "acc = entry_tokens C J (drop n es)" "acc < keep"
  shows "(case budget_index C J es keep 0 n acc of
       None \<Rightarrow> entry_tokens C J es < keep
     | Some i \<Rightarrow> i < n \<and> keep \<le> entry_tokens C J (drop i es) \<and> entry_tokens C J (drop (Suc i) es) < keep)"
  using assms
proof (induction n arbitrary: acc)
  case (Suc n)
  have step: "entry_tokens C J (drop n es) =
      (case entry_as_message (es ! n) of None \<Rightarrow> 0 | Some m \<Rightarrow> estimate_tokens C J m) + acc"
    using Suc.prems(1) Cons_nth_drop_Suc [of n es, symmetric] by (simp add: Suc.prems(2))
  show ?case
  proof (cases "entry_as_message (es ! n)")
    case None
    then show ?thesis using Suc.IH [of acc] Suc.prems step by (auto split: option.splits)
  next
    case (Some m)
    let ?acc = "acc + estimate_tokens C J m"
    have acc: "?acc = entry_tokens C J (drop n es)" using step Some by simp
    show ?thesis
    proof (cases "keep \<le> ?acc")
      case True
      then show ?thesis using Some Suc.prems acc by (simp add: Let_def)
    next
      case False
      then show ?thesis using Suc.IH [of ?acc] Suc.prems Some acc by (auto simp: Let_def split: option.splits)
    qed
  qed
qed simp

lemma find_Some_first:
  "find P xs = Some x \<Longrightarrow> x \<in> set xs \<and> P x"
  by (induction xs) (auto split: if_splits)

lemma chosen_cut_cases:
  fixes C :: "'f role_codecs" and J :: "'f json_text" and es :: "'f entry list"
  assumes "find_valid_cut_points es 0 (length es) \<noteq> []" "0 < keep"
  defines "c \<equiv> chosen_cut C J es 0 (length es) keep (find_valid_cut_points es 0 (length es))"
  shows "c < length es \<and> is_valid_cut_point (es ! c)
    \<and> (entry_tokens C J (drop (Suc c) es) < keep
       \<or> (\<exists>i < length es. keep \<le> entry_tokens C J (drop i es) \<and> (\<forall>j. i \<le> j \<and> j < length es \<longrightarrow> \<not> is_valid_cut_point (es ! j)))
         \<and> c = hd (find_valid_cut_points es 0 (length es)))"
proof -
  let ?cs = "find_valid_cut_points es 0 (length es)"
  have hd: "hd ?cs \<in> set ?cs" using assms(1) by simp
  have len: "0 < length es" using assms(1) by (auto simp: find_valid_cut_points_def)
  note budget = budget_index_spec [of "length es" es 0 C J keep]
  show ?thesis
  proof (cases "budget_index C J es keep 0 (length es) 0")
    case None
    then have "c = hd ?cs" using len by (simp add: c_def chosen_cut_def)
    moreover have "entry_tokens C J (drop (Suc c) es) < keep"
      using budget None assms(2) entry_tokens_drop_mono [of 0 "Suc c" C J es] by simp
    ultimately show ?thesis using hd by (simp add: valid_cut_points_set)
  next
    case (Some i)
    then have i: "i < length es" "keep \<le> entry_tokens C J (drop i es)" "entry_tokens C J (drop (Suc i) es) < keep"
      using budget assms(2) by simp_all
    show ?thesis
    proof (cases "find (\<lambda>c. i \<le> c) ?cs")
      case None
      then have "c = hd ?cs" using len Some by (simp add: c_def chosen_cut_def)
      moreover have "\<forall>j. i \<le> j \<and> j < length es \<longrightarrow> \<not> is_valid_cut_point (es ! j)"
        using None by (auto simp: find_None_iff valid_cut_points_set)
      ultimately show ?thesis using hd i by (auto simp: valid_cut_points_set)
    next
      case found: (Some d)
      then have "c = d" using len Some by (simp add: c_def chosen_cut_def)
      moreover have "d \<in> set ?cs" "i \<le> d" using find_Some_first [OF found] by simp_all
      ultimately show ?thesis
        using i(3) entry_tokens_drop_mono [of "Suc i" "Suc d" C J es] by (auto simp: valid_cut_points_set)
    qed
  qed
qed

text \<open>The cut of a whole branch, once a valid cut point exists.\<close>

definition budget_met_behind ::
  "'f role_codecs \<Rightarrow> 'f json_text \<Rightarrow> 'f entry list \<Rightarrow> int \<Rightarrow> bool" where
  "budget_met_behind C J es keep \<longleftrightarrow>
     (\<exists>i < length es. keep \<le> entry_tokens C J (drop i es)
        \<and> (\<forall>j. i \<le> j \<and> j < length es \<longrightarrow> \<not> is_valid_cut_point (es ! j)))"

lemma find_cut_point_spec:
  fixes C :: "'f role_codecs" and J :: "'f json_text" and es :: "'f entry list"
  assumes "e \<in> set es" "is_valid_cut_point e" "0 < keep"
    and "find_cut_point C J es 0 (length es) keep = r"
  obtains c where "cpr_first_kept r \<le> c" "c < length es" "is_valid_cut_point (es ! c)"
    "\<forall>j. cpr_first_kept r \<le> j \<and> j < c \<longrightarrow> \<not> is_boundary (es ! j)"
    "entry_tokens C J (drop (Suc c) es) < keep \<or> budget_met_behind C J es keep"
    "cpr_is_split r \<longrightarrow> (\<exists>t. cpr_turn_start r = Some t \<and> t \<le> cpr_first_kept r \<and> starts_turn (es ! t))"
proof -
  let ?cs = "find_valid_cut_points es 0 (length es)"
  define c where "c = chosen_cut C J es 0 (length es) keep ?cs"
  define k where "k = walk_cut es 0 c"
  obtain i where "i < length es" "es ! i = e" using assms(1) by (auto simp: in_set_conv_nth)
  then have "i \<in> set ?cs" using assms(2) by (simp add: valid_cut_points_set)
  then have ne: "?cs \<noteq> []" by auto
  note c = chosen_cut_cases [OF ne assms(3), of C J, folded c_def]
  have k: "k \<le> c" "\<forall>j. k \<le> j \<and> j < c \<longrightarrow> \<not> is_boundary (es ! j)"
    using walk_cut_bounds [of 0 es c] by (auto simp: k_def)
  have r: "cpr_first_kept r = k" "cpr_is_split r = (\<not> is_user_entry (es ! k) \<and> cpr_turn_start r \<noteq> None)"
    "cpr_turn_start r = (if is_user_entry (es ! k) then None else find_turn_start_index es k 0)"
    using assms(4) ne by (auto simp: find_cut_point_def Let_def c_def [symmetric] k_def)
  show thesis
  proof (rule that [of c])
    show "cpr_is_split r \<longrightarrow> (\<exists>t. cpr_turn_start r = Some t \<and> t \<le> cpr_first_kept r \<and> starts_turn (es ! t))"
      using r find_turn_start_Some [of es k 0] by auto
  qed (use c k r(1) in \<open>auto simp: budget_met_behind_def\<close>)
qed

text \<open>
  What opens a turn: the summary of a branch that was left, a message of the user, or a command the user ran.
\<close>

definition opens_turn :: "'f entry \<Rightarrow> bool" where
  "opens_turn e \<longleftrightarrow> is_branch_summary e
     \<or> (\<exists>x. e = Entry_Message x \<and> message_role (me_message x) \<in> {Role_User, Role_Custom bash_execution_role})"

lemma starts_turn_opens: "starts_turn e = opens_turn e"
  by (cases e) (auto simp: opens_turn_def)

lemma turn_start_loop_last:
  "(case turn_start_loop es start n of
      None \<Rightarrow> \<forall>j. start \<le> j \<and> j \<le> start + n \<longrightarrow> \<not> opens_turn (es ! j)
    | Some t \<Rightarrow> start \<le> t \<and> t \<le> start + n \<and> opens_turn (es ! t)
        \<and> (\<forall>j. t < j \<and> j \<le> start + n \<longrightarrow> \<not> opens_turn (es ! j)))"
proof (induction n)
  case (Suc n)
  then show ?case by (auto simp: starts_turn_opens le_Suc_eq split: option.splits)
qed (auto simp: starts_turn_opens le_antisym)

lemma find_turn_start_last:
  "(case find_turn_start_index es k 0 of
      None \<Rightarrow> \<forall>j \<le> k. \<not> opens_turn (es ! j)
    | Some t \<Rightarrow> t \<le> k \<and> opens_turn (es ! t) \<and> (\<forall>j. t < j \<and> j \<le> k \<longrightarrow> \<not> opens_turn (es ! j)))"
  using turn_start_loop_last [where es = es and start = 0 and n = k] by (auto simp: find_turn_start_index_def split: option.splits)

text \<open>Which cut is found, whatever the budget: a valid one, and where its turn opened.\<close>

lemma cut_turn:
  assumes "e \<in> set es" "is_valid_cut_point e" and r: "find_cut_point C J es 0 (length es) keep = r"
  obtains c where "cpr_first_kept r \<le> c" "c < length es" "is_valid_cut_point (es ! c)"
    "\<forall>j. cpr_first_kept r \<le> j \<and> j < c \<longrightarrow> \<not> is_boundary (es ! j)"
    "cpr_is_split r \<longrightarrow> \<not> is_user_entry (es ! cpr_first_kept r)
       \<and> (\<exists>t \<le> cpr_first_kept r. cpr_turn_start r = Some t \<and> opens_turn (es ! t)
           \<and> (\<forall>j. t < j \<and> j \<le> cpr_first_kept r \<longrightarrow> \<not> opens_turn (es ! j)))"
    "\<not> cpr_is_split r \<longrightarrow> is_user_entry (es ! cpr_first_kept r) \<or> (\<forall>j \<le> cpr_first_kept r. \<not> opens_turn (es ! j))"
proof -
  let ?cs = "find_valid_cut_points es 0 (length es)"
  define c where "c = chosen_cut C J es 0 (length es) keep ?cs"
  define k where "k = walk_cut es 0 c"
  obtain i where "i < length es" "es ! i = e" using assms(1) by (auto simp: in_set_conv_nth)
  then have "i \<in> set ?cs" using assms(2) by (simp add: valid_cut_points_set)
  then have ne: "?cs \<noteq> []" by auto
  then have "c \<in> set ?cs"
    using find_Some_first [of _ ?cs] by (auto simp: c_def chosen_cut_def Let_def split: option.split)
  then have c: "c < length es" "is_valid_cut_point (es ! c)" by (simp_all add: valid_cut_points_set)
  have k: "k \<le> c" "\<forall>j. k \<le> j \<and> j < c \<longrightarrow> \<not> is_boundary (es ! j)"
    using walk_cut_bounds [of 0 es c] by (auto simp: k_def)
  have r: "cpr_first_kept r = k" "cpr_is_split r = (\<not> is_user_entry (es ! k) \<and> cpr_turn_start r \<noteq> None)"
    "cpr_turn_start r = (if is_user_entry (es ! k) then None else find_turn_start_index es k 0)"
    using r ne by (auto simp: find_cut_point_def Let_def c_def [symmetric] k_def)
  show thesis
    by (rule that [of c]) (use c k r find_turn_start_last [where es = es and k = k] in \<open>auto split: option.splits\<close>)
qed

lemma find_cut_point_bounds:
  assumes "find_cut_point C J es 0 (length es) keep = r"
  shows "cpr_first_kept r \<le> length es
    \<and> (cpr_is_split r \<longrightarrow> (\<exists>t. cpr_turn_start r = Some t \<and> t \<le> cpr_first_kept r))"
proof (cases "find_valid_cut_points es 0 (length es) = []")
  case True
  then show ?thesis using assms by (auto simp: find_cut_point_def)
next
  case False
  let ?cs = "find_valid_cut_points es 0 (length es)"
  define c where "c = chosen_cut C J es 0 (length es) keep ?cs"
  have "c \<in> set ?cs"
    using False find_Some_first [of _ ?cs] by (auto simp: c_def chosen_cut_def Let_def split: option.split)
  then have "walk_cut es 0 c \<le> length es"
    using walk_cut_bounds [of 0 es c] by (auto simp: valid_cut_points_set)
  then show ?thesis
    using assms False find_turn_start_Some [of es "walk_cut es 0 c" 0]
    by (auto simp: find_cut_point_def Let_def c_def [symmetric] split: if_splits)
qed

subsection \<open>What a compaction keeps\<close>

text \<open>The messages a compaction works on: those the last one kept, then those written since.\<close>

definition carried_messages :: "'f role_codecs \<Rightarrow> 'f entry list \<Rightarrow> 'f agent_message list" where
  "carried_messages C es =
     (case rposition is_compaction es of
        None \<Rightarrow> filter_map (get_message_from_entry C) es
      | Some i \<Rightarrow>
          (case es ! i of Entry_Compaction c \<Rightarrow> ce_retained_tail c | _ \<Rightarrow> [])
          @ filter_map (get_message_from_entry C) (drop (Suc i) es))"

lemma virtual_entry_message [simp]: "get_message_for_compaction C (virtual_entry c index m) = Some m"
  by (simp add: virtual_entry_def get_message_for_compaction_def Let_def)

lemma filter_map_virtual:
  "filter_map (get_message_for_compaction C) (map (\<lambda>(index, m). virtual_entry c index m) (List.enumerate n ms)) = ms"
  by (induction ms arbitrary: n) auto

lemma message_for_compaction_eq:
  "\<not> is_compaction e \<Longrightarrow> get_message_for_compaction C e = get_message_from_entry C e"
  by (simp add: get_message_for_compaction_def)

definition compactable :: "'f entry list \<Rightarrow> 'f entry list" where
  "compactable es = snd (compactable_entries es (rposition is_compaction es))"

lemma compactable_messages: "filter_map (get_message_for_compaction C) (compactable es) = carried_messages C es"
proof (cases "rposition is_compaction es")
  case None
  then have "\<forall>e \<in> set es. \<not> is_compaction e" by (simp add: rposition_None_iff)
  then show ?thesis
    using None filter_map_cong [of es "get_message_for_compaction C" "get_message_from_entry C"]
    by (simp add: compactable_def compactable_entries_def carried_messages_def message_for_compaction_eq)
next
  case (Some i)
  have "is_compaction (es ! i)" and after: "\<forall>e \<in> set (drop (Suc i) es). \<not> is_compaction e"
    using rposition_SomeD [OF Some] by (auto simp: in_set_conv_nth)
  then obtain c where c: "es ! i = Entry_Compaction c" by (cases "es ! i") auto
  have "filter_map (get_message_for_compaction C) (drop (Suc i) es) = filter_map (get_message_from_entry C) (drop (Suc i) es)"
    using after by (intro filter_map_cong) (simp add: message_for_compaction_eq)
  then show ?thesis
    using Some c by (simp add: compactable_def compactable_entries_def carried_messages_def filter_map_virtual)
qed

lemma prepare_compaction_fields:
  assumes "prepare_compaction F C J es settings = Some p"
  obtains keep r where
    "find_cut_point C J (compactable es) 0 (length (compactable es)) keep = r"
    "keep = keep_recent_estimated F C J (cset_keep_recent_tokens settings) (prep_tokens_before p)
       (sc_messages (build_session_context C es context_options_default))"
    "prep_messages_to_summarize p = filter_map (get_message_for_compaction C)
       (take (if cpr_is_split r then the (cpr_turn_start r) else cpr_first_kept r) (compactable es))"
    "prep_turn_prefix_messages p = (if cpr_is_split r then filter_map (get_message_for_compaction C)
       (drop (the (cpr_turn_start r)) (take (cpr_first_kept r) (compactable es))) else [])"
    "prep_retained_tail p = filter_map (get_message_for_compaction C) (drop (cpr_first_kept r) (compactable es))"
    "prep_is_split_turn p = cpr_is_split r"
    "prep_file_ops p = fold extract_file_ops_from_message (prep_turn_prefix_messages p)
       (extract_file_operations (prep_messages_to_summarize p) es (rposition is_compaction es))"
proof -
  obtain prev comp where split: "compactable_entries es (rposition is_compaction es) = (prev, comp)" by fastforce
  then have comp: "comp = compactable es" by (simp add: compactable_def)
  show thesis
    using assms unfolding prepare_compaction_def split Let_def prod.case comp
    by (intro that [OF refl]) (auto split: if_splits)
qed

lemma compaction_parts:
  assumes "prepare_compaction F C J es settings = Some p"
  shows "prep_messages_to_summarize p @ prep_turn_prefix_messages p @ prep_retained_tail p = carried_messages C es"
proof -
  obtain keep r where
    cut: "find_cut_point C J (compactable es) 0 (length (compactable es)) keep = r" and
    parts: "prep_messages_to_summarize p = filter_map (get_message_for_compaction C)
       (take (if cpr_is_split r then the (cpr_turn_start r) else cpr_first_kept r) (compactable es))"
    "prep_turn_prefix_messages p = (if cpr_is_split r then filter_map (get_message_for_compaction C)
       (drop (the (cpr_turn_start r)) (take (cpr_first_kept r) (compactable es))) else [])"
    "prep_retained_tail p = filter_map (get_message_for_compaction C) (drop (cpr_first_kept r) (compactable es))"
    using prepare_compaction_fields [OF assms] by metis
  let ?h = "if cpr_is_split r then the (cpr_turn_start r) else cpr_first_kept r" and ?es = "compactable es"
  have "?h \<le> cpr_first_kept r" using find_cut_point_bounds [OF cut] by auto
  then have "take ?h ?es @ drop ?h (take (cpr_first_kept r) ?es) @ drop (cpr_first_kept r) ?es = ?es"
    by (metis append.assoc append_take_drop_id min.absorb1 take_take)
  then have "filter_map (get_message_for_compaction C) (take ?h ?es)
      @ filter_map (get_message_for_compaction C) (drop ?h (take (cpr_first_kept r) ?es))
      @ filter_map (get_message_for_compaction C) (drop (cpr_first_kept r) ?es) = carried_messages C es"
    by (metis compactable_messages filter_map_append)
  then show ?thesis unfolding parts by (auto split: if_splits)
qed

text \<open>
  C36. A compaction loses and repeats nothing: the messages it summarizes, the prefix of a split turn it
  summarizes separately and the tail it keeps are, in this order, exactly the messages the last
  compaction kept followed by those written since.
\<close>

theorem compaction_partitions:
  assumes "prepare_compaction F C J es settings = Some p"
  shows "prep_messages_to_summarize p @ prep_turn_prefix_messages p @ prep_retained_tail p = carried_messages C es"
  by (rule compaction_parts [OF assms])

text \<open>The first message kept.\<close>

lemma boundary_message: "is_boundary e \<or> is_branch_summary e \<or> get_message_for_compaction C e = None"
  by (cases e) (auto simp: get_message_for_compaction_def)

lemma valid_cut_message:
  assumes "is_valid_cut_point e \<or> is_branch_summary e"
  shows "\<exists>m. get_message_for_compaction C e = Some m \<and> \<not> is_tool_result m"
  using assms
proof (cases e)
  case (Entry_Message x)
  then show ?thesis
    using assms by (cases "me_message x") (auto simp: get_message_for_compaction_def)
qed (auto simp: get_message_for_compaction_def create_branch_summary_message_def)

lemma filter_map_drop_first:
  assumes "k \<le> c" "c < length es" "f (es ! c) = Some m" "P m"
    and "\<forall>j. k \<le> j \<and> j < c \<longrightarrow> f (es ! j) = None \<or> (\<exists>m. f (es ! j) = Some m \<and> P m)"
  shows "\<exists>m ms. filter_map f (drop k es) = m # ms \<and> P m"
  using assms
proof (induction "c - k" arbitrary: k)
  case 0
  then have "drop k es = es ! c # drop (Suc c) es" using Cons_nth_drop_Suc [of c es] by simp
  then show ?case using 0 by simp
next
  case (Suc n)
  have "drop k es = es ! k # drop (Suc k) es" using Suc Cons_nth_drop_Suc [of k es] by simp
  moreover have "f (es ! k) = None \<or> (\<exists>m. f (es ! k) = Some m \<and> P m)" using Suc by simp
  moreover have "\<exists>m ms. filter_map f (drop (Suc k) es) = m # ms \<and> P m"
    using Suc by (intro Suc.hyps(1)) auto
  ultimately show ?case by auto
qed

lemma opens_turn_message: "opens_turn e \<Longrightarrow> \<exists>m. get_message_for_compaction C e = Some m"
  by (cases e) (auto simp: opens_turn_def get_message_for_compaction_def)

lemma nth_take_drop_range:
  assumes "e \<in> set (drop t (take k es))"
  shows "\<exists>j. t \<le> j \<and> j < k \<and> e = es ! j"
proof -
  from assms obtain i where i: "i < length (drop t (take k es))" "e = drop t (take k es) ! i"
    by (metis in_set_conv_nth)
  then have "e = es ! (t + i)" by (subst i(2), subst nth_drop) auto
  then show ?thesis using i(1) by (intro exI [of _ "t + i"]) simp
qed

text \<open>
  C37. What a compaction keeps starts where a request may start. As soon as the entries it works on hold one
  valid cut point, they fall into three parts: those summarized, the prefix of the turn the cut splits,
  and those kept. The kept messages are not empty and do not begin with a tool result, whose call would
  be summarized away. When the compaction reports a split turn, the first entry kept is no user message, and the prefix
  starts exactly at the entry that opened its turn: the last branch summary, user message or command of
  the user at or before the cut (the prefix is empty when that is the first entry kept itself). When it
  reports none, the prefix is empty, and the first entry kept is a user message, or no entry up to
  it opens a turn.
\<close>

theorem retained_tail_legal:
  assumes "prepare_compaction F C J es settings = Some p" and "e \<in> set (compactable es)"
    and "is_valid_cut_point e"
  shows "\<exists>summarized prefix first kept. compactable es = summarized @ prefix @ first # kept
     \<and> prep_messages_to_summarize p = filter_map (get_message_for_compaction C) summarized
     \<and> prep_turn_prefix_messages p = filter_map (get_message_for_compaction C) prefix
     \<and> prep_retained_tail p = filter_map (get_message_for_compaction C) (first # kept)
     \<and> (\<exists>m ms. prep_retained_tail p = m # ms \<and> \<not> is_tool_result m)
     \<and> (if prep_is_split_turn p
        then \<not> is_user_entry first \<and>
          (case prefix of
             [] \<Rightarrow> opens_turn first
           | x # xs \<Rightarrow> opens_turn x \<and> get_message_for_compaction C x = Some (hd (prep_turn_prefix_messages p))
               \<and> (\<forall>y \<in> set (xs @ [first]). \<not> opens_turn y))
        else prefix = [] \<and> (is_user_entry first \<or> (\<forall>y \<in> set (summarized @ [first]). \<not> opens_turn y)))"
proof -
  obtain keep r where
    cut: "find_cut_point C J (compactable es) 0 (length (compactable es)) keep = r" and
    parts: "prep_messages_to_summarize p = filter_map (get_message_for_compaction C)
       (take (if cpr_is_split r then the (cpr_turn_start r) else cpr_first_kept r) (compactable es))"
    "prep_turn_prefix_messages p = (if cpr_is_split r then filter_map (get_message_for_compaction C)
       (drop (the (cpr_turn_start r)) (take (cpr_first_kept r) (compactable es))) else [])"
    "prep_retained_tail p = filter_map (get_message_for_compaction C) (drop (cpr_first_kept r) (compactable es))"
    "prep_is_split_turn p = cpr_is_split r"
    using prepare_compaction_fields [OF assms(1)] by metis
  let ?es = "compactable es" and ?f = "get_message_for_compaction C" and ?k = "cpr_first_kept r"
  obtain c where c: "?k \<le> c" "c < length ?es" "is_valid_cut_point (?es ! c)"
    "\<forall>j. ?k \<le> j \<and> j < c \<longrightarrow> \<not> is_boundary (?es ! j)"
    and turn: "cpr_is_split r \<longrightarrow> \<not> is_user_entry (?es ! ?k)
       \<and> (\<exists>t \<le> ?k. cpr_turn_start r = Some t \<and> opens_turn (?es ! t) \<and> (\<forall>j. t < j \<and> j \<le> ?k \<longrightarrow> \<not> opens_turn (?es ! j)))"
    and whole: "\<not> cpr_is_split r \<longrightarrow> is_user_entry (?es ! ?k) \<or> (\<forall>j \<le> ?k. \<not> opens_turn (?es ! j))"
    by (rule cut_turn [OF assms(2,3) cut])
  obtain m where m: "?f (?es ! c) = Some m" "\<not> is_tool_result m" using valid_cut_message c(3) by blast
  have "\<forall>j. ?k \<le> j \<and> j < c \<longrightarrow> ?f (?es ! j) = None \<or> (\<exists>m. ?f (?es ! j) = Some m \<and> \<not> is_tool_result m)"
    using c(4) boundary_message valid_cut_message by metis
  then have tail: "\<exists>m ms. prep_retained_tail p = m # ms \<and> \<not> is_tool_result m"
    unfolding parts using c(1,2) m
    by (intro filter_map_drop_first [where P = "\<lambda>m. \<not> is_tool_result m" and f = ?f and c = c and m = m])
  have kept: "drop ?k ?es = ?es ! ?k # drop (Suc ?k) ?es" using Cons_nth_drop_Suc [of ?k ?es] c by simp
  show ?thesis
  proof (cases "cpr_is_split r")
    case False
    have "\<exists>j \<le> ?k. y = ?es ! j" if "y \<in> set (take ?k ?es @ [?es ! ?k])" for y
      using that nth_take_drop_range [of y 0 ?k ?es] by (auto intro: less_imp_le)
    with whole False have "is_user_entry (?es ! ?k) \<or> (\<forall>y \<in> set (take ?k ?es @ [?es ! ?k]). \<not> opens_turn y)" by blast
    then show ?thesis using tail parts False
      by (intro exI [of _ "take ?k ?es"] exI [of _ "[]"] exI [of _ "?es ! ?k"] exI [of _ "drop (Suc ?k) ?es"])
        (simp_all add: kept [symmetric])
  next
    case True
    with turn obtain t where t: "t \<le> ?k" "cpr_turn_start r = Some t" "opens_turn (?es ! t)"
      "\<forall>j. t < j \<and> j \<le> ?k \<longrightarrow> \<not> opens_turn (?es ! j)" "\<not> is_user_entry (?es ! ?k)" by blast
    let ?pre = "drop t (take ?k ?es)"
    have all: "?es = take t ?es @ ?pre @ ?es ! ?k # drop (Suc ?k) ?es"
      using t(1) kept by (metis append.assoc append_take_drop_id min.absorb1 take_take)
    have opened: "case ?pre of [] \<Rightarrow> opens_turn (?es ! ?k)
      | x # xs \<Rightarrow> opens_turn x \<and> ?f x = Some (hd (filter_map ?f ?pre)) \<and> (\<forall>y \<in> set (xs @ [?es ! ?k]). \<not> opens_turn y)"
    proof (cases "t = ?k")
      case False
      then have "?pre = ?es ! t # drop (Suc t) (take ?k ?es)"
        using Cons_nth_drop_Suc [of t "take ?k ?es"] t(1) c(1,2) by simp
      moreover have "\<forall>y \<in> set (drop (Suc t) (take ?k ?es) @ [?es ! ?k]). \<not> opens_turn y"
        using t(1,4) False nth_take_drop_range [of _ "Suc t" ?k ?es] by fastforce
      ultimately show ?thesis using t(3) opens_turn_message [OF t(3), of C] by auto
    qed (use t(3) in simp)
    have split: "prep_is_split_turn p" and sums: "prep_messages_to_summarize p = filter_map ?f (take t ?es)"
      and prefix: "prep_turn_prefix_messages p = filter_map ?f ?pre"
      and tail_eq: "prep_retained_tail p = filter_map ?f (?es ! ?k # drop (Suc ?k) ?es)"
      using parts True t(2) by (simp_all add: kept [symmetric])
    show ?thesis unfolding if_P [OF split]
      by (intro exI [of _ "take t ?es"] exI [of _ ?pre] exI [of _ "?es ! ?k"] exI [of _ "drop (Suc ?k) ?es"]
          conjI all sums prefix tail_eq tail t(5) opened [folded prefix])
  qed
qed

text \<open>
  C38. The cut respects the budget: the messages behind the first kept message hold fewer tokens than the
  budget (so the tail exceeds it by at most that one message), except when the budget is already met
  behind the last valid cut point. In that case (a large tool result at the end of the branch, say) the
  cut falls on the earliest valid cut point instead.
\<close>

theorem cut_respects_budget:
  assumes "find_cut_point C J es 0 (length es) keep = r" and "0 < keep"
    and "e \<in> set es" and "is_valid_cut_point e"
  shows "\<exists>c. cpr_first_kept r \<le> c \<and> c < length es \<and> is_valid_cut_point (es ! c)
     \<and> (\<forall>j. cpr_first_kept r \<le> j \<and> j < c \<longrightarrow> entry_as_message (es ! j) = None)
     \<and> (entry_tokens C J (drop (Suc c) es) < keep
        \<or> budget_met_behind C J es keep \<and> c = hd (find_valid_cut_points es 0 (length es)))"
proof -
  let ?cs = "find_valid_cut_points es 0 (length es)"
  define c where "c = chosen_cut C J es 0 (length es) keep ?cs"
  obtain i where "i < length es" "es ! i = e" using assms(3) by (auto simp: in_set_conv_nth)
  then have "i \<in> set ?cs" using assms(4) by (simp add: valid_cut_points_set)
  then have ne: "?cs \<noteq> []" by auto
  note spec = chosen_cut_cases [OF ne assms(2), of C J, folded c_def]
  have first: "cpr_first_kept r = walk_cut es 0 c"
    using assms(1) ne by (auto simp: find_cut_point_def Let_def c_def [symmetric])
  have "entry_as_message (es ! j) = None" if "cpr_first_kept r \<le> j" "j < c" for j
    using walk_cut_bounds [of 0 es c] that first by (cases "es ! j") auto
  moreover have "entry_tokens C J (drop (Suc c) es) < keep
      \<or> budget_met_behind C J es keep \<and> c = hd ?cs"
    using spec by (simp add: budget_met_behind_def)
  ultimately show ?thesis
    using spec first walk_cut_bounds [of 0 es c] by (intro exI [of _ c]) auto
qed

subsection \<open>The files of a summary\<close>

text \<open>The paths a message's tool calls of one name touch.\<close>

definition touched :: "string \<Rightarrow> 'f agent_message list \<Rightarrow> string set" where
  "touched name ms =
     {path. \<exists>a call. AgentMessage_Assistant a \<in> set ms \<and> Content_ToolCall call \<in> set (am_content a)
        \<and> tcall_name call = name \<and> Option.bind (json_get ''path'' (tcall_arguments call)) json_as_str = Some path}"

definition call_paths :: "string \<Rightarrow> 'f content list \<Rightarrow> string set" where
  "call_paths name cs =
     {path. \<exists>call. Content_ToolCall call \<in> set cs \<and> tcall_name call = name
        \<and> Option.bind (json_get ''path'' (tcall_arguments call)) json_as_str = Some path}"

lemma call_paths_Cons:
  "call_paths name (c # cs) = call_paths name [c] \<union> call_paths name cs"
  by (auto simp: call_paths_def)

lemma call_paths_Nil [simp]: "call_paths name [] = {}"
  by (simp add: call_paths_def)

lemma extract_block_eq:
  "extract_block c ops =
     \<lparr>fo_read = call_paths ''read'' [c] \<union> fo_read ops, fo_written = call_paths ''write'' [c] \<union> fo_written ops,
      fo_edited = call_paths ''edit'' [c] \<union> fo_edited ops\<rparr>"
  by (cases c) (auto simp: call_paths_def split: option.split)

lemma extract_blocks_eq:
  "fold extract_block cs ops =
     \<lparr>fo_read = call_paths ''read'' cs \<union> fo_read ops, fo_written = call_paths ''write'' cs \<union> fo_written ops,
      fo_edited = call_paths ''edit'' cs \<union> fo_edited ops\<rparr>"
proof (induction cs arbitrary: ops)
  case (Cons c cs)
  show ?case
    unfolding fold_simps Cons.IH extract_block_eq [of c ops] call_paths_Cons [of _ c cs]
    by (simp add: Un_ac)
qed simp

lemma touched_Cons:
  "touched name (m # ms) =
     (case m of AgentMessage_Assistant a \<Rightarrow> call_paths name (am_content a) | _ \<Rightarrow> {}) \<union> touched name ms"
  by (cases m) (auto simp: touched_def call_paths_def)

lemma touched_Nil [simp]: "touched name [] = {}"
  by (simp add: touched_def)

lemma extract_messages_eq:
  "fold extract_file_ops_from_message ms ops =
     \<lparr>fo_read = touched ''read'' ms \<union> fo_read ops, fo_written = touched ''write'' ms \<union> fo_written ops,
      fo_edited = touched ''edit'' ms \<union> fo_edited ops\<rparr>"
proof (induction ms arbitrary: ops)
  case (Cons m ms)
  then show ?case
    by (cases m) (simp_all add: extract_blocks_eq touched_Cons Un_ac)
qed simp

lemma touched_append: "touched name (ms @ ns) = touched name ms \<union> touched name ns"
  by (auto simp: touched_def)

lemma finite_call_paths: "finite (call_paths name cs)"
proof -
  have "call_paths name cs \<subseteq>
      (\<lambda>c. case c of Content_ToolCall call \<Rightarrow> the (Option.bind (json_get ''path'' (tcall_arguments call)) json_as_str)
                    | _ \<Rightarrow> []) ` set cs"
    by (force simp: call_paths_def)
  then show ?thesis by (rule finite_subset) simp
qed

lemma finite_touched: "finite (touched name ms)"
  by (induction ms) (auto simp: touched_Cons finite_call_paths split: agent_message.split)

text \<open>The files an earlier compaction listed.\<close>

definition earlier_files :: "string \<Rightarrow> 'f entry list \<Rightarrow> string set" where
  "earlier_files key es =
     (case rposition is_compaction es of
        None \<Rightarrow> {}
      | Some i \<Rightarrow>
          (case es ! i of
             Entry_Compaction c \<Rightarrow> (case ce_details c of None \<Rightarrow> {} | Some d \<Rightarrow> set (listed_files key d))
           | _ \<Rightarrow> {}))"

lemma extract_file_operations_eq:
  "extract_file_operations ms es (rposition is_compaction es) =
     \<lparr>fo_read = touched ''read'' ms \<union> earlier_files ''readFiles'' es, fo_written = touched ''write'' ms,
      fo_edited = touched ''edit'' ms \<union> earlier_files ''modifiedFiles'' es\<rparr>"
  by (auto simp: extract_file_operations_def extract_messages_eq earlier_files_def create_file_ops_def
      seed_file_ops_def Let_def dest: rposition_SomeD split: option.split entry.split)

text \<open>
  The file lists of a compaction are complete and disjoint: a file is listed as modified exactly when
  a summarized message edited or wrote it or the last compaction listed it as modified, and as read
  exactly when it was read and is not listed as modified; both lists are sorted and free of repetitions.
\<close>

theorem compaction_file_lists:
  assumes "prepare_compaction F C J es settings = Some p"
    and "compute_file_lists (prep_file_ops p) = (read_files, modified_files)"
    and "ms = prep_messages_to_summarize p @ prep_turn_prefix_messages p"
  shows "set modified_files = touched ''edit'' ms \<union> touched ''write'' ms \<union> earlier_files ''modifiedFiles'' es
     \<and> set read_files = (touched ''read'' ms \<union> earlier_files ''readFiles'' es) - set modified_files
     \<and> sorted read_files \<and> distinct read_files \<and> sorted modified_files \<and> distinct modified_files"
proof -
  have fin: "finite (earlier_files key es)" for key
    by (simp add: earlier_files_def split: option.split entry.split)
  have "prep_file_ops p = fold extract_file_ops_from_message (prep_turn_prefix_messages p)
       (extract_file_operations (prep_messages_to_summarize p) es (rposition is_compaction es))"
    using prepare_compaction_fields [OF assms(1)] by metis
  then have ops: "prep_file_ops p =
     \<lparr>fo_read = touched ''read'' ms \<union> earlier_files ''readFiles'' es, fo_written = touched ''write'' ms,
      fo_edited = touched ''edit'' ms \<union> earlier_files ''modifiedFiles'' es\<rparr>"
    by (simp add: extract_file_operations_eq extract_messages_eq touched_append assms(3) Un_ac)
  show ?thesis
    using assms(2) fin by (auto simp: compute_file_lists_def ops Let_def finite_touched)
qed

subsection \<open>Summaries of a branch\<close>

lemma gather_branch_spec:
  assumes "0 < budget" "bp_total_tokens p = total_estimate C J (bp_messages p)" "bp_total_tokens p \<le> budget"
  shows "\<exists>front. filter_map (get_branch_message C) (rev es) @ bp_messages p = front @ bp_messages (gather_branch F C J budget es p)
    \<and> bp_total_tokens (gather_branch F C J budget es p) = total_estimate C J (bp_messages (gather_branch F C J budget es p))
    \<and> (bp_total_tokens (gather_branch F C J budget es p) \<le> budget
       \<or> (\<exists>e \<in> set es. \<exists>m ms. (is_compaction e \<or> is_branch_summary e) \<and> get_branch_message C e = Some m
            \<and> bp_messages (gather_branch F C J budget es p) = m # ms \<and> total_estimate C J ms \<le> budget
            \<and> total_estimate C J ms < f64_trunc F (f64_mul F (f64_of F budget) (f64_div F (f64_of F 9) (f64_of F 10)))))"
  using assms
proof (induction es arbitrary: p)
  case (Cons e es)
  show ?case
  proof (cases "get_branch_message C e")
    case None
    then show ?thesis using Cons.IH [of p] Cons.prems by auto
  next
    case (Some m)
    let ?ops = "extract_file_ops_from_message m (bp_file_ops p)"
    let ?q = "p\<lparr>bp_file_ops := ?ops\<rparr>"
    let ?taken = "p\<lparr>bp_file_ops := ?ops, bp_messages := m # bp_messages p,
                    bp_total_tokens := bp_total_tokens p + estimate_tokens C J m\<rparr>"
    show ?thesis
    proof (cases "bp_total_tokens p + estimate_tokens C J m > budget")
      case True
      then show ?thesis using Some Cons.prems by (auto simp: Let_def)
    next
      case False
      have run: "gather_branch F C J budget (e # es) p = gather_branch F C J budget es ?taken"
        using Some False by (simp add: Let_def)
      show ?thesis
        using Cons.IH [of ?taken] Cons.prems Some False unfolding run by auto
    qed
  qed
qed simp

text \<open>
  With a budget, the messages gathered for a branch summary are the newest messages of the branch, in
  order and without a gap, and their estimate stays within the budget; it goes beyond it only by an older
  summary (a compaction or a branch summary) in front, when the rest takes less than nine tenths.
\<close>

theorem branch_entries_within_budget:
  assumes "0 < budget" and "prepare_branch_entries F C J es budget = p"
  shows "(\<exists>front. filter_map (get_branch_message C) es = front @ bp_messages p)
     \<and> bp_total_tokens p = total_estimate C J (bp_messages p)
     \<and> (bp_total_tokens p \<le> budget
        \<or> (\<exists>e \<in> set es. \<exists>m ms. (is_compaction e \<or> is_branch_summary e) \<and> get_branch_message C e = Some m
             \<and> bp_messages p = m # ms \<and> total_estimate C J ms \<le> budget
             \<and> total_estimate C J ms < f64_trunc F (f64_mul F (f64_of F budget) (f64_div F (f64_of F 9) (f64_of F 10)))))"
  using gather_branch_spec [of budget "\<lparr>bp_messages = [], bp_file_ops = seed_branch_ops es, bp_total_tokens = 0\<rparr>" C J "rev es" F]
    assms by (auto simp: prepare_branch_entries_def Let_def)

subsection \<open>The entries of an abandoned branch\<close>

lemma take_until_never: "take_until (\<lambda>x. False) xs = xs"
  by (simp add: take_until_none)

lemma ancestry_eq:
  assumes "session_reach s" "ix_entries_by_id s i = Some k"
  shows "branch_ancestry s branch_bounds_default i =
     Inr (map (\<lambda>j. \<lparr>ea_id = em_id (ix_metadata s ! j), ea_parent_id = em_parent_id (ix_metadata s ! j)\<rparr>) (lineage s k))"
  using walk_to_root_eq [OF session_wfD(3) [OF reach_wf [OF assms(1)]], of i branch_bounds_default] assms(2)
  by (simp add: branch_ancestry_def branch_bounds_default_def bound_hit_def take_until_never)

lemma find_descending:
  "sorted_wrt (>) (xs :: nat list) \<Longrightarrow>
     find P xs = Some x \<longleftrightarrow> x \<in> set xs \<and> P x \<and> (\<forall>y \<in> set xs. P y \<longrightarrow> y \<le> x)"
  by (induction xs) (auto dest: less_imp_le)

lemma find_common:
  assumes "sorted_wrt (>) (xs :: nat list)" "sorted_wrt (>) ys"
  shows "find (\<lambda>x. x \<in> set ys) xs = find (\<lambda>y. y \<in> set xs) ys"
proof (cases "find (\<lambda>x. x \<in> set ys) xs")
  case None
  then have "find (\<lambda>y. y \<in> set xs) ys = None" by (auto simp: find_None_iff)
  then show ?thesis using None by simp
next
  case (Some c)
  then have "find (\<lambda>y. y \<in> set xs) ys = Some c"
    using find_descending [OF assms(1)] find_descending [OF assms(2)] by auto
  then show ?thesis using Some by simp
qed

lemma cut_at_common:
  "find Q xs = Some c \<Longrightarrow> filter (\<lambda>x. x \<noteq> c) (take_until (\<lambda>x. x = c) xs) = takeWhile (\<lambda>x. \<not> Q x) xs"
  by (induction xs) (auto split: if_splits dest: find_Some_first)

lemma takeWhile_none: "find Q xs = None \<Longrightarrow> takeWhile (\<lambda>x. \<not> Q x) xs = xs"
  by (simp add: find_None_iff takeWhile_eq_all_conv)

lemma meta_custom_type:
  "em_custom_type (entry_meta_of e) = (case e of Entry_Custom c \<Rightarrow> Some (cu_custom_type c) | _ \<Rightarrow> None)"
proof (cases e)
  case (Entry_Message x)
  then show ?thesis by (cases "me_message x") (simp_all add: meta_base_def entry_meta_of.simps)
qed (simp_all add: meta_base_def entry_meta_of.simps)

lemma no_body_query:
  "matches_entry_query e (entry_query_default\<lparr>eq_exclude_tool_program_bodies := True, eq_order := Some NewestFirst\<rparr>)
     \<longleftrightarrow> \<not> is_body_entry e"
  by (simp add: matches_entry_query_def matches_query_def matches_entry_payload_def meta_custom_type
      entry_query_default_def is_body_entry_def outbox_matches_def tool_matches_def split: entry.split)

lemma drop_at_common:
  assumes "inj_on f (set xs)"
  shows "filter (\<lambda>x. Some (f x) \<noteq> map_option f (find Q xs)) (take_until (\<lambda>x. find Q xs = Some x) xs)
    = takeWhile (\<lambda>x. \<not> Q x) xs"
proof (cases "find Q xs")
  case None
  then show ?thesis by (simp add: take_until_never takeWhile_none del: takeWhile_eq_all_conv)
next
  case (Some c)
  have "filter (\<lambda>x. f x \<noteq> f c) (take_until (\<lambda>x. x = c) xs) = filter (\<lambda>x. x \<noteq> c) (take_until (\<lambda>x. x = c) xs)"
    by (rule filter_cong [OF refl])
      (use set_take_until [of "\<lambda>x. x = c" xs] find_Some_first [OF Some] assms in \<open>auto dest: inj_onD\<close>)
  then show ?thesis using Some cut_at_common [OF Some] by (simp add: eq_commute [of c])
qed

lemma shared_key:
  assumes "inj_on f (set xs \<union> set ys)" "sorted_wrt (>) (xs :: nat list)" "sorted_wrt (>) ys"
  shows "find (\<lambda>y. f y \<in> set (map f xs)) ys = find (\<lambda>x. x \<in> set ys) xs"
proof -
  have "find (\<lambda>y. f y \<in> set (map f xs)) ys = find (\<lambda>y. y \<in> set xs) ys"
    by (rule find_cong_set) (use assms(1) in \<open>auto dest: inj_onD\<close>)
  then show ?thesis using find_common [OF assms(2,3)] by simp
qed

lemma filter_swap: "filter P (filter Q xs) = filter Q (filter P xs)"
  by (simp add: conj_commute)

text \<open>Two branches of a well-formed session: distinct positions carry distinct ids.\<close>

lemma two_branches:
  assumes wf: "session_wf s" and old: "ix_entries_by_id s old = Some k" and target: "ix_entries_by_id s target = Some t"
  shows "inj_on (\<lambda>j. em_id (ix_metadata s ! j)) (set (lineage s k) \<union> set (lineage s t))"
    and "j \<in> set (lineage s k) \<union> set (lineage s t) \<Longrightarrow> entry_id (ix_entries s ! j) = em_id (ix_metadata s ! j)"
proof -
  note meta = session_wfD(2) [OF wf] and table = session_wfD(3) [OF wf]
  have kt: "k < length (ix_metadata s)" "t < length (ix_metadata s)"
    using table old target unfolding wf_table_def by blast+
  have bound: "j < length (ix_metadata s)" if "j \<in> set (lineage s k) \<union> set (lineage s t)" for j
    using that lineage_bound [OF table kt(1)] lineage_bound [OF table kt(2)] by blast
  show "inj_on (\<lambda>j. em_id (ix_metadata s ! j)) (set (lineage s k) \<union> set (lineage s t))"
  proof (rule inj_onI)
    fix i j assume "i \<in> set (lineage s k) \<union> set (lineage s t)" "j \<in> set (lineage s k) \<union> set (lineage s t)"
      and "em_id (ix_metadata s ! i) = em_id (ix_metadata s ! j)"
    with table bound [of i] bound [of j] show "i = j" unfolding wf_table_def by (metis option.inject)
  qed
  show "j \<in> set (lineage s k) \<union> set (lineage s t) \<Longrightarrow> entry_id (ix_entries s ! j) = em_id (ix_metadata s ! j)"
    using bound by (simp add: meta)
qed

text \<open>The query of the code: newest first, without bodies, back to the shared entry.\<close>

lemma abandoned_entries:
  assumes wf: "session_wf s" and old: "ix_entries_by_id s old = Some k"
    and hit: "\<And>j. j \<in> set (lineage s k) \<Longrightarrow> stop = Some (entry_id (ix_entries s ! j)) \<longleftrightarrow> common = Some j"
  shows "find_entries_on_branch s (entry_query_default\<lparr>eq_exclude_tool_program_bodies := True, eq_order := Some NewestFirst\<rparr>)
      (branch_bounds_default\<lparr>bb_stop_at_id := stop\<rparr>) old =
    Inr (filter (\<lambda>e. \<not> is_body_entry e)
      (map ((!) (ix_entries s)) (take_until (\<lambda>j. common = Some j) (lineage s k))))"
proof -
  let ?q = "entry_query_default\<lparr>eq_exclude_tool_program_bodies := True, eq_order := Some NewestFirst\<rparr>"
  let ?b = "branch_bounds_default\<lparr>bb_stop_at_id := stop\<rparr>"
  have "entry_bound ?b (ix_entries s ! j) \<longleftrightarrow> common = Some j" if "j \<in> set (lineage s k)" for j
    using hit [OF that] by (auto simp: entry_bound_def branch_bounds_default_def)
  then have "take_until (entry_bound ?b) (branch_of s k) =
      map ((!) (ix_entries s)) (take_until (\<lambda>j. common = Some j) (lineage s k))"
    unfolding branch_of_def take_until_map
    by (intro arg_cong [where f = "map _"] take_until_cong) (simp add: comp_def)
  moreover have "eq_limit ?q = None" "query_order ?q = NewestFirst"
    by (simp_all add: entry_query_default_def query_order_def)
  ultimately show ?thesis
    using find_entries_on_branch_eq [OF wf _ old, of ?q ?b]
    by (simp add: bounded_branch_def no_body_query take_opt_def)
qed

text \<open>
  Leaving a branch collects exactly what is left behind: the entries from the old leaf back to, and
  without, the newest entry it shares with the target's branch, oldest first and without the archived
  bodies of tool programs; that shared entry is reported as the common ancestor.
\<close>

theorem abandoned_branch_collected:
  assumes "session_reach s" and "ix_entries_by_id s old = Some k" and "ix_entries_by_id s target = Some t"
  shows "collect_entries_for_branch_summary s (Some old) target = Inr
     \<lparr>coll_entries = rev (filter (\<lambda>e. \<not> is_body_entry e)
        (map ((!) (ix_entries s)) (takeWhile (\<lambda>j. j \<notin> set (lineage s t)) (lineage s k)))),
      coll_common_ancestor = map_option (\<lambda>j. entry_id (ix_entries s ! j))
        (find (\<lambda>j. j \<in> set (lineage s t)) (lineage s k))\<rparr>"
proof -
  let ?K = "lineage s k" and ?T = "lineage s t" and ?id = "\<lambda>j. em_id (ix_metadata s ! j)"
  let ?anc = "\<lambda>j. \<lparr>ea_id = ?id j, ea_parent_id = em_parent_id (ix_metadata s ! j)\<rparr>"
  have wf: "session_wf s" by (rule reach_wf [OF assms(1)])
  note inj = two_branches(1) [OF wf assms(2,3)] and eid = two_branches(2) [OF wf assms(2,3)]
  define common where "common = find (\<lambda>j. j \<in> set ?T) ?K"
  have comm: "c \<in> set ?K" if "common = Some c" for c
    using find_Some_first [OF that [unfolded common_def]] by simp
  have "map_option ?id common = Some (entry_id (ix_entries s ! j)) \<longleftrightarrow> common = Some j" if "j \<in> set ?K" for j
    using that comm eid inj_onD [OF inj] by auto
  then have entries: "find_entries_on_branch s
        (entry_query_default\<lparr>eq_exclude_tool_program_bodies := True, eq_order := Some NewestFirst\<rparr>)
        (branch_bounds_default\<lparr>bb_stop_at_id := map_option ?id common\<rparr>) old =
      Inr (filter (\<lambda>e. \<not> is_body_entry e) (map ((!) (ix_entries s)) (take_until (\<lambda>j. common = Some j) ?K)))"
    by (rule abandoned_entries [OF wf assms(2)])
  have "map_option ea_id (find (\<lambda>e. ea_id e \<in> set (map ea_id (map ?anc ?K))) (map ?anc ?T)) = map_option ?id common"
    using shared_key [OF inj lineage_descending lineage_descending]
    by (simp add: common_def find_map comp_def image_image option.map_comp)
  note shared = this
  have "filter (\<lambda>j. Some (entry_id (ix_entries s ! j)) \<noteq> map_option ?id common) (take_until (\<lambda>j. common = Some j) ?K)
      = filter (\<lambda>j. Some (?id j) \<noteq> map_option ?id common) (take_until (\<lambda>j. common = Some j) ?K)"
    by (rule filter_cong [OF refl]) (use set_take_until eid in fastforce)
  also have "\<dots> = takeWhile (\<lambda>j. j \<notin> set ?T) ?K"
    unfolding common_def by (rule drop_at_common) (rule inj_on_subset [OF inj], simp)
  finally have left: "filter (\<lambda>e. Some (entry_id e) \<noteq> map_option ?id common)
        (filter (\<lambda>e. \<not> is_body_entry e) (map ((!) (ix_entries s)) (take_until (\<lambda>j. common = Some j) ?K)))
      = filter (\<lambda>e. \<not> is_body_entry e) (map ((!) (ix_entries s)) (takeWhile (\<lambda>j. j \<notin> set ?T) ?K))"
    by (simp add: filter_map comp_def filter_swap [of "\<lambda>j. Some (entry_id (ix_entries s ! j)) \<noteq> _"]
        del: filter_filter)
  have ancestor: "map_option ?id common = map_option (\<lambda>j. entry_id (ix_entries s ! j)) common"
    using comm eid by (cases common) auto
  show ?thesis
    unfolding collect_entries_for_branch_summary_def option.case ancestry_eq [OF assms(1,2)]
      ancestry_eq [OF assms(1,3)] res_bind.simps Let_def shared entries left
    unfolding ancestor by (simp add: common_def)
qed

subsection \<open>Retries and results\<close>

text \<open>The responses of the calls, in order, and the state after \<open>n\<close> of them.\<close>

fun after_calls :: "('s \<Rightarrow> 'r \<times> 's) \<Rightarrow> nat \<Rightarrow> 's \<Rightarrow> 's" where
  "after_calls produce 0 s = s"
| "after_calls produce (Suc n) s = after_calls produce n (snd (produce s))"

definition call_response :: "('s \<Rightarrow> 'r \<times> 's) \<Rightarrow> nat \<Rightarrow> 's \<Rightarrow> 'r" where
  "call_response produce n s = fst (produce (after_calls produce n s))"

lemma call_response_simps [simp]:
  "call_response produce 0 s = fst (produce s)"
  "call_response produce (Suc n) s = call_response produce n (snd (produce s))"
  by (simp_all add: call_response_def)

lemma retry_delay_bound: "retry_delay base limit attempt \<le> limit"
  by (simp add: retry_delay_def)

lemma retry_loop_spec:
  "retry_loop produce cancelled base limit attempt left s = (response, delays, s') \<Longrightarrow>
     \<exists>n. n \<le> left \<and> s' = after_calls produce (Suc n) s
       \<and> (\<forall>k < n. is_retryable_assistant_error (call_response produce k s) \<and> \<not> cancelled (attempt + k + 1))
       \<and> (response = call_response produce n s \<and> length delays = n
            \<and> (n < left \<longrightarrow> \<not> is_retryable_assistant_error response)
          \<or> n < left \<and> cancelled (attempt + n + 1) \<and> length delays = Suc n
            \<and> is_retryable_assistant_error (call_response produce n s)
            \<and> am_stop_reason response = StopReason_Aborted)
       \<and> (\<forall>d \<in> set delays. d \<le> limit)"
proof (induction left arbitrary: attempt s response delays s')
  case 0
  then show ?case by (auto simp: split_beta)
next
  case (Suc left)
  obtain r t where call: "produce s = (r, t)" by fastforce
  show ?case
  proof (cases "is_retryable_assistant_error r")
    case False
    then have "response = r \<and> delays = [] \<and> s' = t"
      using Suc.prems call by (auto simp: Let_def split_beta split: if_splits)
    then show ?thesis using False call by (intro exI [of _ 0]) simp
  next
    case True
    then have err: "am_stop_reason r = StopReason_Error"
      by (simp add: is_retryable_assistant_error_def split: if_splits)
    show ?thesis
    proof (cases "cancelled (attempt + 1)")
      case stop: True
      then have "response = r\<lparr>am_stop_reason := StopReason_Aborted, am_error_message := None\<rparr>
          \<and> delays = [retry_delay base limit (attempt + 1)] \<and> s' = t"
        using Suc.prems call True err by (simp add: Let_def)
      then show ?thesis using True stop call retry_delay_bound by (intro exI [of _ 0]) auto
    next
      case go: False
      obtain ds where ds: "retry_loop produce cancelled base limit (attempt + 1) left t = (response, ds, s')"
        and delays: "delays = retry_delay base limit (attempt + 1) # ds"
        using Suc.prems call True err go by (auto simp: Let_def split_beta prod_eq_iff)
      from Suc.IH [OF ds] obtain n where n: "n \<le> left" "s' = after_calls produce (Suc n) t"
        "\<forall>k < n. is_retryable_assistant_error (call_response produce k t) \<and> \<not> cancelled (attempt + 1 + k + 1)"
        "response = call_response produce n t \<and> length ds = n \<and> (n < left \<longrightarrow> \<not> is_retryable_assistant_error response)
         \<or> n < left \<and> cancelled (attempt + 1 + n + 1) \<and> length ds = Suc n
           \<and> is_retryable_assistant_error (call_response produce n t) \<and> am_stop_reason response = StopReason_Aborted"
        "\<forall>d \<in> set ds. d \<le> limit" by blast
      have "is_retryable_assistant_error (call_response produce k s) \<and> \<not> cancelled (attempt + k + 1)" if "k < Suc n" for k
        using that n(3) True go call by (cases k) auto
      then show ?thesis
        using n(1,2,4,5) call delays retry_delay_bound by (intro exI [of _ "Suc n"]) auto
    qed
  qed
qed

text \<open>
  A call with retries ends: it makes at most one call more than the policy allows retries, retries
  only after errors that are worth it, and sleeps no longer than the policy's cap each time. What it
  returns is the response of the last call, not retryable unless the retries are used up, or the abort
  of a cancelled sleep.
\<close>

theorem retries_end:
  assumes "retry_assistant_call produce cancelled (Some p) s = (response, delays, s')" and "rp_enabled p"
  shows "\<exists>n \<le> unat (rp_max_retries p). s' = after_calls produce (Suc n) s
     \<and> (\<forall>k < n. is_retryable_assistant_error (call_response produce k s))
     \<and> (response = call_response produce n s
          \<and> (n < unat (rp_max_retries p) \<longrightarrow> \<not> is_retryable_assistant_error response)
        \<or> cancelled (Suc n) \<and> am_stop_reason response = StopReason_Aborted)
     \<and> length delays \<le> unat (rp_max_retries p) \<and> (\<forall>d \<in> set delays. d \<le> rp_max_agent_delay_ms p)"
proof -
  have "retry_loop produce cancelled (rp_base_delay_ms p) (rp_max_agent_delay_ms p) 0 (unat (rp_max_retries p)) s
      = (response, delays, s')"
    using assms by (simp add: retry_assistant_call_def)
  from retry_loop_spec [OF this] obtain n where n: "n \<le> unat (rp_max_retries p)" "s' = after_calls produce (Suc n) s"
    "\<forall>k < n. is_retryable_assistant_error (call_response produce k s) \<and> \<not> cancelled (0 + k + 1)"
    "response = call_response produce n s \<and> length delays = n
        \<and> (n < unat (rp_max_retries p) \<longrightarrow> \<not> is_retryable_assistant_error response)
     \<or> n < unat (rp_max_retries p) \<and> cancelled (0 + n + 1) \<and> length delays = Suc n
        \<and> is_retryable_assistant_error (call_response produce n s) \<and> am_stop_reason response = StopReason_Aborted"
    "\<forall>d \<in> set delays. d \<le> rp_max_agent_delay_ms p" by blast
  show ?thesis by (intro exI [of _ n]) (use n in auto)
qed

text \<open>
  A deferred answer is a placeholder that the context of its branch leaves out. The tail a compaction
  keeps includes it, and the tail enters the context as it is: after the compaction it is visible.
\<close>

lemma deferred_kept_by_compaction:
  assumes "Entry_Message x \<in> set es" "\<not> (\<exists>e \<in> set es. is_compaction e)" "prepare_compaction F C J es settings = Some p"
  shows "me_message x \<in> set (prep_messages_to_summarize p @ prep_turn_prefix_messages p @ prep_retained_tail p)"
proof -
  have "carried_messages C es = filter_map (get_message_from_entry C) es"
    using assms(2) by (simp add: carried_messages_def rposition_None_iff [THEN iffD2])
  moreover have "me_message x \<in> set (filter_map (get_message_from_entry C) es)"
    using assms(1) by (force simp: set_filter_map)
  ultimately show ?thesis
    using compaction_parts [OF assms(3)] by simp
qed

subsection \<open>Witnesses\<close>

definition demo_f64 :: "int f64_ops" where
  "demo_f64 = \<lparr>f64_of = id, f64_div = (div), f64_mul = (*), f64_less = (<), f64_ceil = id, f64_round = id,
     f64_floor = id, f64_trunc = id\<rparr>"

definition demo_json_text :: "int json_text" where
  "demo_json_text = \<lparr>jt_print = (\<lambda>_. Some ''{}''), jt_members = (\<lambda>_. None)\<rparr>"

definition demo_branch :: "int entry list" where
  "demo_branch =
     [demo_message ''a'' 1 None (demo_user ''look at the files''),
      demo_message ''b'' 2 (Some ''a'') (demo_assistant
        [Content_ToolCall \<lparr>tcall_id = ''c'', tcall_name = ''edit'',
           tcall_arguments = json_object [(''path'', JString ''/x'')], tcall_thought_signature = None,
           tcall_namespace = None, tcall_recorded = None\<rparr>]),
      demo_message ''c'' 3 (Some ''b'') (demo_user ''and now?'')]"

definition demo_settings :: compaction_settings where
  "demo_settings = default_compaction_settings\<lparr>cset_keep_recent_tokens := 2\<rparr>"

definition demo_prep :: "int compaction_preparation" where
  "demo_prep = the (prepare_compaction demo_f64 demo_codecs demo_json_text demo_branch demo_settings)"

lemma demo_prepared:
  "prepare_compaction demo_f64 demo_codecs demo_json_text demo_branch demo_settings = Some demo_prep"
proof -
  have "prepare_compaction demo_f64 demo_codecs demo_json_text demo_branch demo_settings \<noteq> None"
    by (simp add: prepare_compaction_def demo_branch_def demo_message_def Let_def split_beta)
  then show ?thesis by (auto simp: demo_prep_def)
qed

theorem compaction_partitions_witness:
  "prep_messages_to_summarize demo_prep @ prep_turn_prefix_messages demo_prep @ prep_retained_tail demo_prep
     = carried_messages demo_codecs demo_branch"
  by (rule compaction_partitions [OF demo_prepared])

text \<open>A branch whose last turn is cut behind the user's message that opened it.\<close>

definition demo_split_branch :: "int entry list" where
  "demo_split_branch = take 2 demo_branch"

definition demo_split_prep :: "int compaction_preparation" where
  "demo_split_prep = the (prepare_compaction demo_f64 demo_codecs demo_json_text demo_split_branch demo_settings)"

theorem retained_tail_legal_witness:
  "\<exists>x. opens_turn x \<and> get_message_for_compaction demo_codecs x = Some (hd (prep_turn_prefix_messages demo_split_prep))
     \<and> (\<exists>m ms. prep_retained_tail demo_split_prep = m # ms \<and> \<not> is_tool_result m)"
proof -
  let ?run = "prepare_compaction demo_f64 demo_codecs demo_json_text demo_split_branch demo_settings"
  have "map_option (\<lambda>p. (prep_is_split_turn p, length (prep_turn_prefix_messages p))) ?run = Some (True, 1)" by code_simp
  then have run: "?run = Some demo_split_prep" and split: "prep_is_split_turn demo_split_prep"
    and one: "prep_turn_prefix_messages demo_split_prep \<noteq> []"
    by (auto simp: demo_split_prep_def)
  have "demo_message ''a'' 1 None (demo_user ''look at the files'') \<in> set (compactable demo_split_branch)"
    "is_valid_cut_point (demo_message ''a'' 1 None (demo_user ''look at the files''))" by code_simp+
  from retained_tail_legal [OF run this, unfolded if_P [OF split]] obtain prefix first where
      prefix: "prep_turn_prefix_messages demo_split_prep = filter_map (get_message_for_compaction demo_codecs) prefix"
      and tail: "\<exists>m ms. prep_retained_tail demo_split_prep = m # ms \<and> \<not> is_tool_result m"
      and opened: "case prefix of [] \<Rightarrow> opens_turn first | x # xs \<Rightarrow> opens_turn x
        \<and> get_message_for_compaction demo_codecs x = Some (hd (prep_turn_prefix_messages demo_split_prep))
        \<and> (\<forall>y \<in> set (xs @ [first]). \<not> opens_turn y)"
    by blast
  from prefix one obtain x xs where "prefix = x # xs" by (cases prefix) auto
  with opened have "opens_turn x \<and> get_message_for_compaction demo_codecs x = Some (hd (prep_turn_prefix_messages demo_split_prep))"
    by (simp only: list.case)
  with tail show ?thesis by blast
qed

theorem cut_respects_budget_witness:
  "entry_tokens demo_codecs demo_json_text
     (drop (Suc (cpr_first_kept (find_cut_point demo_codecs demo_json_text demo_branch 0 (length demo_branch) 2))) demo_branch) < 2
   \<or> budget_met_behind demo_codecs demo_json_text demo_branch 2"
proof -
  have cut: "demo_message ''a'' 1 None (demo_user ''look at the files'') \<in> set demo_branch"
    "is_valid_cut_point (demo_message ''a'' 1 None (demo_user ''look at the files''))" by code_simp+
  obtain c where c: "cpr_first_kept (find_cut_point demo_codecs demo_json_text demo_branch 0 (length demo_branch) 2) \<le> c"
    "c < length demo_branch"
    "\<forall>j. cpr_first_kept (find_cut_point demo_codecs demo_json_text demo_branch 0 (length demo_branch) 2) \<le> j \<and> j < c
        \<longrightarrow> entry_as_message (demo_branch ! j) = None"
    "entry_tokens demo_codecs demo_json_text (drop (Suc c) demo_branch) < 2
      \<or> budget_met_behind demo_codecs demo_json_text demo_branch 2"
    using cut_respects_budget [OF refl _ cut, of 2 demo_codecs demo_json_text] by auto
  have first: "cpr_first_kept (find_cut_point demo_codecs demo_json_text demo_branch 0 (length demo_branch) 2) = 2"
    by code_simp
  have "length demo_branch = 3" by code_simp
  then have "c = 2" using c(1,2) first by simp
  then show ?thesis using c(4) first by simp
qed

theorem compaction_file_lists_witness:
  "set (snd (compute_file_lists (prep_file_ops demo_prep))) = {''/x''}"
proof -
  have "set (snd (compute_file_lists (prep_file_ops demo_prep))) =
      touched ''edit'' (prep_messages_to_summarize demo_prep @ prep_turn_prefix_messages demo_prep)
      \<union> touched ''write'' (prep_messages_to_summarize demo_prep @ prep_turn_prefix_messages demo_prep)
      \<union> earlier_files ''modifiedFiles'' demo_branch"
    using compaction_file_lists [OF demo_prepared prod.collapse [symmetric] refl] by blast
  also have "\<dots> = {''/x''}"
  proof -
    have ms: "prep_messages_to_summarize demo_prep @ prep_turn_prefix_messages demo_prep =
        map (\<lambda>e. the (entry_as_message e)) (take 2 demo_branch)" by code_simp
    have "touched ''edit'' (map (\<lambda>e. the (entry_as_message e)) (take 2 demo_branch)) = {''/x''}"
      "touched ''write'' (map (\<lambda>e. the (entry_as_message e)) (take 2 demo_branch)) = {}"
      by (auto simp: demo_branch_def demo_message_def demo_user_def demo_assistant_def touched_def
          json_get_object)
    moreover have "earlier_files ''modifiedFiles'' demo_branch = {}" by code_simp
    ultimately show ?thesis unfolding ms by simp
  qed
  finally show ?thesis .
qed

theorem branch_entries_within_budget_witness:
  "bp_total_tokens (prepare_branch_entries demo_f64 demo_codecs demo_json_text demo_branch 3)
     = total_estimate demo_codecs demo_json_text
         (bp_messages (prepare_branch_entries demo_f64 demo_codecs demo_json_text demo_branch 3))"
  using branch_entries_within_budget [OF _ refl, where F = demo_f64 and C = demo_codecs
      and J = demo_json_text and es = demo_branch and budget = 3] by simp

theorem abandoned_branch_collected_witness:
  "collect_entries_for_branch_summary demo_state (Some ''b'') ''d'' =
     Inr \<lparr>coll_entries = [demo_message ''b'' 2 (Some ''a'') (demo_assistant [demo_call ''c1''])],
          coll_common_ancestor = Some ''a''\<rparr>"
proof -
  have "ix_entries_by_id demo_state ''b'' = Some 1" "ix_entries_by_id demo_state ''d'' = Some 2" by code_simp+
  from abandoned_branch_collected [OF demo_reach this] show ?thesis by (rule trans) code_simp
qed

definition demo_failure :: "int assistant_message" where
  "demo_failure = (assistant_empty Api_Faux ''faux'' ''faux-1'' 0)
     \<lparr>am_stop_reason := StopReason_Error, am_error_message := Some ''Service Unavailable''\<rparr>"

theorem retries_end_witness:
  "length (fst (snd (retry_assistant_call (\<lambda>n :: nat. (demo_failure, n + 1)) (\<lambda>_. False)
     (Some \<lparr>rp_enabled = True, rp_max_retries = 2, rp_base_delay_ms = 10, rp_max_agent_delay_ms = 15\<rparr>) 0))) \<le> 2"
proof -
  let ?p = "\<lparr>rp_enabled = True, rp_max_retries = 2, rp_base_delay_ms = 10, rp_max_agent_delay_ms = 15\<rparr>"
  let ?run = "retry_assistant_call (\<lambda>n :: nat. (demo_failure, n + 1)) (\<lambda>_. False) (Some ?p) 0"
  have run: "?run = (fst ?run, fst (snd ?run), snd (snd ?run))" by simp
  have "rp_enabled ?p" "unat (rp_max_retries ?p) = 2" by simp_all
  then show ?thesis using retries_end [OF run] by auto
qed

text \<open>
  Two behaviours worth knowing, on concrete branches. A tool result at the end that meets the budget
  alone: nothing is summarized, everything is kept. A deferred placeholder: the context leaves it out,
  the kept tail does not.
\<close>

definition demo_big_result :: "int entry list" where
  "demo_big_result =
     [demo_message ''a'' 1 None (demo_user ''look at the files''),
      demo_message ''b'' 2 (Some ''a'') (demo_assistant [demo_call ''c1'']),
      demo_message ''c'' 3 (Some ''b'') (AgentMessage_ToolResult
        \<lparr>tr_tool_call_id = ''c1'', tr_tool_name = ''read'', tr_content = [content_text ''a large file''],
         tr_details = None, tr_usage = None, tr_added_tool_names = [], tr_is_error = False, tr_timestamp = 0\<rparr>)]"

lemma large_trailing_result_keeps_everything:
  "map_option (\<lambda>p. (prep_messages_to_summarize p, prep_turn_prefix_messages p, length (prep_retained_tail p)))
     (prepare_compaction demo_f64 demo_codecs demo_json_text demo_big_result demo_settings) = Some ([], [], 3)"
  by code_simp

definition demo_deferred :: "int agent_message" where
  "demo_deferred = AgentMessage_Assistant
     ((assistant_empty Api_Faux ''faux'' ''faux-1'' 0)\<lparr>am_stop_reason := StopReason_Deferred\<rparr>)"

definition demo_deferred_branch :: "int entry list" where
  "demo_deferred_branch =
     [demo_message ''a'' 1 None (demo_user ''hello''), demo_message ''b'' 2 (Some ''a'') demo_deferred,
      demo_message ''c'' 3 (Some ''b'') (demo_user ''again'')]"

lemma deferred_placeholder_kept:
  "demo_deferred \<notin> set (sc_messages (build_session_context demo_codecs demo_deferred_branch context_options_default))
   \<and> map_option (\<lambda>p. demo_deferred \<in> set (prep_retained_tail p))
       (prepare_compaction demo_f64 demo_codecs demo_json_text demo_deferred_branch default_compaction_settings) = Some True"
  by code_simp

end
