(* ===== verification/Mesh_Wire.thy ===== *)
theory Mesh_Wire
  imports Json Rust_Text
begin

text \<open>
  \<open>crates/evo-mesh/src/wire.rs\<close>: the wire types of the session mesh. Addresses with their
  constructors and parser, nodes, events with their subscription level, commands, mail and the
  envelope that carries them. The codecs serde derives are a parameter (\<open>mesh_codecs\<close>).
\<close>

subsection \<open>Addresses\<close>

datatype node_kind = Node_Session | Node_Agent | Node_Side

fun kind_prefix :: "node_kind \<Rightarrow> string" where
  "kind_prefix Node_Session = ''s_''"
| "kind_prefix Node_Agent = ''a_''"
| "kind_prefix Node_Side = ''q_''"

definition kind_from_segment :: "string \<Rightarrow> node_kind option" where
  "kind_from_segment segment =
     find (\<lambda>kind. utf8_len segment > 2 \<and> starts_with (kind_prefix kind) segment)
       [Node_Session, Node_Agent, Node_Side]"

text \<open>\<open>Address(String)\<close>.\<close>

type_synonym address = string

definition clean_id :: "string \<Rightarrow> string" where
  "clean_id i =
     map (\<lambda>c. if c = CHR ''/'' \<or> is_whitespace c \<or> is_control c then CHR ''_'' else c) i"

definition address_session :: "string \<Rightarrow> address" where
  "address_session i = kind_prefix Node_Session @ clean_id i"

definition address_child :: "address \<Rightarrow> node_kind \<Rightarrow> string \<Rightarrow> address" where
  "address_child a kind i = a @ ''/'' @ kind_prefix kind @ clean_id i"

fun check_segments :: "string \<Rightarrow> string list \<Rightarrow> string + unit" where
  "check_segments text [] = Inr ()"
| "check_segments text (segment # segments) =
     (case kind_from_segment segment of
        Some Node_Agent \<Rightarrow> check_segments text segments
      | Some Node_Side \<Rightarrow> check_segments text segments
      | _ \<Rightarrow> Inl (''address `'' @ text @ ''` has an invalid segment `'' @ segment @ ''`''))"

definition address_parse :: "string \<Rightarrow> string + address" where
  "address_parse text =
     (case split_on (CHR ''/'') text of
        [] \<Rightarrow> Inl (''address `'' @ text @ ''` must start with a session segment `s_<id>`'')
      | first # segments \<Rightarrow>
          (case kind_from_segment first of
             Some Node_Session \<Rightarrow> res_bind (check_segments text segments) (\<lambda>_. Inr text)
           | _ \<Rightarrow> Inl (''address `'' @ text @ ''` must start with a session segment `s_<id>`'')))"

definition session_segment :: "address \<Rightarrow> string" where
  "session_segment a = hd (split_on (CHR ''/'') a)"

definition address_session_id :: "address \<Rightarrow> string" where
  "address_session_id a = drop (length (kind_prefix Node_Session)) (session_segment a)"

definition address_kind :: "address \<Rightarrow> node_kind" where
  "address_kind a =
     (case kind_from_segment (last (split_on (CHR ''/'') a)) of None \<Rightarrow> Node_Session | Some k \<Rightarrow> k)"

text \<open>\<open>rsplit_once('/')\<close>: everything before the last separator.\<close>

definition address_host :: "address \<Rightarrow> address option" where
  "address_host a =
     (let ss = split_on (CHR ''/'') a
      in if length ss \<le> 1 then None else Some (join ''/'' (butlast ss)))"

definition is_hosted_by :: "address \<Rightarrow> address \<Rightarrow> bool" where
  "is_hosted_by a session \<longleftrightarrow> session_segment a = session_segment session"

subsection \<open>Nodes\<close>

datatype node_state =
    NodeState_Proposed | NodeState_Starting | NodeState_Running | NodeState_Waiting
  | NodeState_Idle | NodeState_Settled | NodeState_Closed

datatype run_status = Run_Done | Run_Failed | Run_Cancelled

datatype origin = Origin_User | Origin_Agent | Origin_Plugin

record 'f mesh_usage =
  mu_input :: "64 word"
  mu_output :: "64 word"
  mu_cache_read :: "64 word"
  mu_cache_write :: "64 word"
  mu_total_tokens :: "64 word"
  mu_cost :: 'f

definition mesh_usage_default :: "'f::zero mesh_usage" where
  "mesh_usage_default =
     \<lparr>mu_input = 0, mu_output = 0, mu_cache_read = 0, mu_cache_write = 0, mu_total_tokens = 0, mu_cost = 0\<rparr>"

definition mesh_usage_add :: "'f::plus mesh_usage \<Rightarrow> 'f mesh_usage \<Rightarrow> 'f mesh_usage" where
  "mesh_usage_add u v =
     \<lparr>mu_input = mu_input u + mu_input v, mu_output = mu_output u + mu_output v,
      mu_cache_read = mu_cache_read u + mu_cache_read v,
      mu_cache_write = mu_cache_write u + mu_cache_write v,
      mu_total_tokens = mu_total_tokens u + mu_total_tokens v, mu_cost = mu_cost u + mu_cost v\<rparr>"

record 'f mesh_node =
  mn_id :: address
  mn_kind :: node_kind
  mn_parent :: "address option"
  mn_root :: address
  mn_depth :: "32 word"
  mn_title :: string
  mn_origin :: origin
  mn_state :: node_state
  mn_status :: "run_status option"
  mn_reason :: "string option"
  mn_caps :: "string list"
  mn_usage :: "'f mesh_usage"
  mn_started_at :: "64 word"
  mn_ended_at :: "64 word option"
  mn_meta :: "'f json"

definition mesh_node_new ::
  "address \<Rightarrow> 'f::zero mesh_node option \<Rightarrow> string \<Rightarrow> origin \<Rightarrow> 'f mesh_node" where
  "mesh_node_new i parent title orig =
     \<lparr>mn_id = i, mn_kind = address_kind i, mn_parent = map_option mn_id parent,
      mn_root = (case parent of None \<Rightarrow> i | Some p \<Rightarrow> mn_root p),
      mn_depth = (case parent of None \<Rightarrow> 0 | Some p \<Rightarrow> mn_depth p + 1),
      mn_title = title, mn_origin = orig, mn_state = NodeState_Running, mn_status = None,
      mn_reason = None, mn_caps = [], mn_usage = mesh_usage_default, mn_started_at = 0,
      mn_ended_at = None, mn_meta = json_object []\<rparr>"

subsection \<open>Events and commands\<close>

datatype level = Level_None | Level_State | Level_Summary | Level_Full

text \<open>The derived order of \<open>Level\<close>: each level includes the ones before it.\<close>

fun level_rank :: "level \<Rightarrow> nat" where
  "level_rank Level_None = 0"
| "level_rank Level_State = 1"
| "level_rank Level_Summary = 2"
| "level_rank Level_Full = 3"

lemma level_rank_inj: "level_rank l = level_rank l' \<Longrightarrow> l = l'"
  by (cases l; cases l') simp_all

instantiation level :: linorder
begin

definition less_eq_level :: "level \<Rightarrow> level \<Rightarrow> bool" where
  "l \<le> l' \<longleftrightarrow> level_rank l \<le> level_rank l'"

definition less_level :: "level \<Rightarrow> level \<Rightarrow> bool" where
  "l < l' \<longleftrightarrow> level_rank l < level_rank l'"

instance
  by standard (auto simp: less_eq_level_def less_level_def intro: level_rank_inj)

end

record 'f tool_row =
  trow_call_id :: string
  trow_name :: string
  trow_args :: "'f json"
  trow_phase :: string

datatype 'f mesh_event =
    Event_NodeState "'f mesh_node" "node_state option"
  | Event_NodeReport address run_status string "'f mesh_usage" "'f json option"
  | Event_NodeActivity address "32 word" "32 word" "'f tool_row option" "string option" "'f tool_row list option"
  | Event_NodeUsage address "'f mesh_usage" "'f mesh_usage"
  | Event_NodeEvent address "'f json"

fun event_level :: "'f mesh_event \<Rightarrow> level" where
  "event_level (Event_NodeState _ _) = Level_State"
| "event_level (Event_NodeReport _ _ _ _ _) = Level_State"
| "event_level (Event_NodeActivity _ _ _ _ _ _) = Level_Summary"
| "event_level (Event_NodeUsage _ _ _) = Level_Summary"
| "event_level (Event_NodeEvent _ _) = Level_Full"

fun event_node :: "'f mesh_event \<Rightarrow> address" where
  "event_node (Event_NodeState n _) = mn_id n"
| "event_node (Event_NodeReport a _ _ _ _) = a"
| "event_node (Event_NodeActivity a _ _ _ _ _) = a"
| "event_node (Event_NodeUsage a _ _) = a"
| "event_node (Event_NodeEvent a _) = a"

datatype list_scope = Scope_All | Scope_Children | Scope_Subtree

datatype mesh_command =
    Command_Subscribe level "64 word option"
  | Command_List list_scope "address option"
  | Command_Get address
  | Command_Cancel address bool

datatype mesh_error_code =
    Mesh_BadRequest | Mesh_NotFound | Mesh_Forbidden | Mesh_BudgetExceeded | Mesh_DepthExceeded
  | Mesh_TooManyChildren | Mesh_WouldDeadlock | Mesh_Timeout | Mesh_Unsupported

record mesh_error =
  mer_code :: mesh_error_code
  mer_message :: string

definition mesh_error_new :: "mesh_error_code \<Rightarrow> string \<Rightarrow> mesh_error" where
  "mesh_error_new code message = \<lparr>mer_code = code, mer_message = message\<rparr>"

subsection \<open>Mail and envelopes\<close>

datatype deliver = Deliver_Interrupt | Deliver_Queue | Deliver_Wake | Deliver_Prompt

record mail_body =
  mb_text :: string
  mb_deliver :: deliver
  mb_title :: "string option"

datatype envelope_kind = Kind_Cmd | Kind_Res | Kind_Evt | Kind_Mail

record trace =
  tc_root :: "string option"
  tc_cause :: "string option"
  tc_hops :: "32 word"

definition trace_default :: trace where
  "trace_default = \<lparr>tc_root = None, tc_cause = None, tc_hops = 0\<rparr>"

record 'f envelope =
  env_v :: "32 word"
  env_id :: string
  env_kind :: envelope_kind
  env_op :: string
  env_from :: string
  env_to :: string
  env_corr :: "string option"
  env_seq :: "64 word"
  env_ts :: "64 word"
  env_trace :: trace
  env_body :: "'f json"

record 'f mesh_codecs =
  enc_event :: "'f mesh_event \<Rightarrow> 'f json"
  dec_event :: "'f json \<Rightarrow> string + 'f mesh_event"
  enc_command :: "mesh_command \<Rightarrow> 'f json"
  dec_command :: "'f json \<Rightarrow> string + mesh_command"
  enc_mail_body :: "mail_body \<Rightarrow> 'f json"
  dec_mail_body :: "'f json \<Rightarrow> string + mail_body"
  enc_envelope :: "'f envelope \<Rightarrow> 'f json"
  dec_envelope :: "'f json \<Rightarrow> string + 'f envelope"
  enc_mesh_error :: "mesh_error \<Rightarrow> 'f json"
  print_json :: "'f json \<Rightarrow> string"

definition mesh_version :: "32 word" where "mesh_version = 1"
definition wire_type :: string where "wire_type = ''mesh''"
definition broadcast :: string where "broadcast = ''*''"
definition router :: string where "router = ''hub''"

definition op_body :: "'f json \<Rightarrow> string \<times> 'f json" where
  "op_body value =
     (case Option.bind (json_get ''op'' value) json_as_str of None \<Rightarrow> [] | Some op \<Rightarrow> op,
      case json_get ''body'' value of None \<Rightarrow> JNull | Some body \<Rightarrow> body)"

definition envelope_new ::
  "envelope_kind \<Rightarrow> string \<Rightarrow> string \<Rightarrow> string \<Rightarrow> string \<Rightarrow> 'f json \<Rightarrow> 'f envelope" where
  "envelope_new kind i op from to body =
     \<lparr>env_v = mesh_version, env_id = i, env_kind = kind, env_op = op, env_from = from, env_to = to,
      env_corr = None, env_seq = 0, env_ts = 0, env_trace = trace_default, env_body = body\<rparr>"

definition envelope_event ::
  "'f mesh_codecs \<Rightarrow> string \<Rightarrow> 64 word \<Rightarrow> 64 word \<Rightarrow> 'f mesh_event \<Rightarrow> 'f envelope" where
  "envelope_event C i sq ts event =
     (let (op, body) = op_body (enc_event C event)
      in (envelope_new Kind_Evt i op (event_node event) broadcast body)\<lparr>env_seq := sq, env_ts := ts\<rparr>)"

definition envelope_command ::
  "'f mesh_codecs \<Rightarrow> string \<Rightarrow> string \<Rightarrow> mesh_command \<Rightarrow> 'f envelope" where
  "envelope_command C i from command =
     (let (op, body) = op_body (enc_command C command)
      in envelope_new Kind_Cmd i op from router body)"

definition envelope_response ::
  "'f mesh_codecs \<Rightarrow> string \<Rightarrow> 'f envelope \<Rightarrow> mesh_error + 'f json \<Rightarrow> 'f envelope" where
  "envelope_response C i command result =
     (let body = (case result of Inr b \<Rightarrow> b | Inl e \<Rightarrow> json_object [(''error'', enc_mesh_error C e)])
      in (envelope_new Kind_Res i (env_op command) (env_to command) (env_from command) body)
           \<lparr>env_corr := Some (env_id command),
            env_trace := \<lparr>tc_root = tc_root (env_trace command), tc_cause = Some (env_id command), tc_hops = 0\<rparr>\<rparr>)"

definition op_object :: "'f envelope \<Rightarrow> 'f json" where
  "op_object e = json_object [(''op'', JString (env_op e)), (''body'', env_body e)]"

definition as_event :: "'f mesh_codecs \<Rightarrow> 'f envelope \<Rightarrow> 'f mesh_event option" where
  "as_event C e =
     (if env_kind e = Kind_Evt
      then (case dec_event C (op_object e) of Inl _ \<Rightarrow> None | Inr ev \<Rightarrow> Some ev)
      else None)"

definition version_error :: "32 word \<Rightarrow> mesh_error" where
  "version_error v =
     mesh_error_new Mesh_Unsupported (''mesh version '' @ show_nat (unat v) @ '' is not supported'')"

definition as_command :: "'f mesh_codecs \<Rightarrow> 'f envelope \<Rightarrow> mesh_error + mesh_command" where
  "as_command C e =
     (if env_kind e \<noteq> Kind_Cmd then Inl (mesh_error_new Mesh_BadRequest ''not a command'')
      else if env_v e \<noteq> mesh_version then Inl (version_error (env_v e))
      else case dec_command C (op_object e) of
             Inr c \<Rightarrow> Inr c
           | Inl err \<Rightarrow>
               Inl (mesh_error_new Mesh_BadRequest
                     (''invalid `'' @ env_op e @ ''` command: '' @ err)))"

definition envelope_mail ::
  "'f mesh_codecs \<Rightarrow> string \<Rightarrow> string \<Rightarrow> string \<Rightarrow> mail_body \<Rightarrow> 'f envelope" where
  "envelope_mail C i from to body = envelope_new Kind_Mail i ''message'' from to (enc_mail_body C body)"

definition as_mail :: "'f mesh_codecs \<Rightarrow> 'f envelope \<Rightarrow> mesh_error + mail_body" where
  "as_mail C e =
     (if env_kind e \<noteq> Kind_Mail \<or> env_op e \<noteq> ''message''
      then Inl (mesh_error_new Mesh_BadRequest (''not a mail message (`'' @ env_op e @ ''`)''))
      else if env_v e \<noteq> mesh_version then Inl (version_error (env_v e))
      else case dec_mail_body C (env_body e) of
             Inr b \<Rightarrow> Inr b
           | Inl err \<Rightarrow> Inl (mesh_error_new Mesh_BadRequest (''invalid mail: '' @ err)))"

definition is_envelope :: "'f json \<Rightarrow> bool" where
  "is_envelope value \<longleftrightarrow> Option.bind (json_get ''type'' value) json_as_str = Some wire_type"

subsection \<open>Addresses parse back\<close>

lemma clean_id_free: "CHR ''/'' \<notin> set (clean_id i)"
  by (auto simp: clean_id_def)

lemma clean_id_nil [simp]: "clean_id i = [] \<longleftrightarrow> i = []"
  by (simp add: clean_id_def)

lemma kind_of_segment:
  "kind_from_segment (kind_prefix k @ clean_id i) = (if i = [] then None else Some k)"
proof (cases "i = []")
  case True
  then show ?thesis by (cases k) (simp_all add: kind_from_segment_def clean_id_def utf8_len_def)
next
  case False
  have "0 < utf8_len (clean_id i)" using length_le_utf8 [of "clean_id i"] False clean_id_nil [of i]
    by (cases "clean_id i") simp_all
  then have long: "2 < utf8_len (kind_prefix k @ clean_id i)"
    by (cases k) (simp_all add: utf8_len_def)
  have own: "starts_with (kind_prefix k) (kind_prefix k @ clean_id i)" by simp
  have other: "\<not> starts_with (kind_prefix k') (kind_prefix k @ clean_id i)" if "k' \<noteq> k" for k'
    using that by (cases k; cases k') (simp_all add: starts_with_def)
  show ?thesis
    using long own other [of Node_Session] other [of Node_Agent] other [of Node_Side] False
    by (cases k) (simp_all add: kind_from_segment_def)
qed

lemma segment_free: "CHR ''/'' \<notin> set (kind_prefix k @ clean_id i)"
  using clean_id_free [of i] by (cases k) simp_all

lemma split_child:
  "split_on (CHR ''/'') (address_child a k i) = split_on (CHR ''/'') a @ [kind_prefix k @ clean_id i]"
  using split_on_at [of "CHR ''/''" a "kind_prefix k @ clean_id i"] segment_free [of k i]
  by (simp add: address_child_def split_on_free)

lemma split_session: "split_on (CHR ''/'') (address_session i) = [kind_prefix Node_Session @ clean_id i]"
  using segment_free [of Node_Session i] by (simp add: address_session_def split_on_free)

lemma check_segments_iff:
  "check_segments text ss = Inr () \<longleftrightarrow>
     (\<forall>s \<in> set ss. kind_from_segment s = Some Node_Agent \<or> kind_from_segment s = Some Node_Side)"
  by (induction ss) (auto split: option.split node_kind.split)

lemma address_parse_iff:
  "address_parse a = Inr b \<longleftrightarrow>
     b = a \<and> kind_from_segment (session_segment a) = Some Node_Session
     \<and> (\<forall>s \<in> set (tl (split_on (CHR ''/'') a)).
          kind_from_segment s = Some Node_Agent \<or> kind_from_segment s = Some Node_Side)"
  by (cases "split_on (CHR ''/'') a")
    (auto simp: address_parse_def session_segment_def check_segments_iff split: option.splits node_kind.splits)

text \<open>
  Addresses built by the constructors parse back to themselves and their parts read back: the
  session, its engine, the kind of the node and the node that hosts it. Only an empty identifier
  makes an address the parser refuses.
\<close>

theorem address_round_trip:
  assumes "i \<noteq> []" and "address_parse a = Inr a" and "k \<noteq> Node_Session"
  shows "address_parse (address_session i) = Inr (address_session i)
     \<and> address_session_id (address_session i) = clean_id i
     \<and> address_kind (address_session i) = Node_Session \<and> address_host (address_session i) = None
     \<and> address_parse (address_child a k i) = Inr (address_child a k i)
     \<and> address_kind (address_child a k i) = k \<and> address_host (address_child a k i) = Some a
     \<and> is_hosted_by (address_child a k i) a \<and> isl (address_parse (address_session []))"
proof -
  let ?c = "address_child a k i" and ?s = "address_session i"
  have seg: "session_segment ?c = session_segment a" "tl (split_on (CHR ''/'') ?c) =
      tl (split_on (CHR ''/'') a) @ [kind_prefix k @ clean_id i]"
    by (simp_all add: session_segment_def split_child)
  have "address_parse ?c = Inr ?c"
    using assms unfolding address_parse_iff seg
    by (cases k) (simp_all add: kind_of_segment del: kind_prefix.simps)
  moreover have "address_kind ?c = k" using assms(1) by (simp add: address_kind_def split_child kind_of_segment del: kind_prefix.simps)
  moreover have "address_host ?c = Some a"
    using join_split [of "CHR ''/''" a] by (simp add: address_host_def split_child Let_def)
  moreover have "is_hosted_by ?c a" by (simp add: is_hosted_by_def seg)
  moreover have "address_parse ?s = Inr ?s"
    using assms(1) by (simp add: address_parse_iff session_segment_def split_session kind_of_segment del: kind_prefix.simps)
  moreover have "address_kind ?s = Node_Session"
    using assms(1) by (simp add: address_kind_def split_session kind_of_segment del: kind_prefix.simps)
  moreover have "address_host ?s = None" "address_session_id ?s = clean_id i"
    by (simp_all add: address_host_def split_session address_session_id_def session_segment_def)
  moreover have "isl (address_parse (address_session []))" by code_simp
  ultimately show ?thesis by blast
qed

theorem address_round_trip_witness:
  "address_parse (address_child (address_session ''A'') Node_Agent ''x y'') = Inr ''s_A/a_x_y''
     \<and> address_host ''s_A/a_x_y'' = Some ''s_A''"
proof -
  have "''x y'' \<noteq> []" "address_parse (address_session ''A'') = Inr (address_session ''A'')"
    "Node_Agent \<noteq> Node_Session" by code_simp+
  from address_round_trip [OF this]
  have "address_parse (address_child (address_session ''A'') Node_Agent ''x y'') =
      Inr (address_child (address_session ''A'') Node_Agent ''x y'')"
    "address_host (address_child (address_session ''A'') Node_Agent ''x y'') = Some (address_session ''A'')"
    by blast+
  moreover have "address_child (address_session ''A'') Node_Agent ''x y'' = ''s_A/a_x_y''"
    "address_session ''A'' = ''s_A''" by code_simp+
  ultimately show ?thesis by simp
qed

text \<open>
  An envelope gives back what was put in: an event, a command or a mail read back from its
  envelope is the one it was made from, whenever the derived codec reads back the tagged object
  it wrote.
\<close>

theorem envelope_round_trip:
  assumes "enc_event C ev = json_object [(''op'', JString op), (''body'', body)]"
    and "dec_event C (enc_event C ev) = Inr ev"
    and "enc_command C cmd = json_object [(''op'', JString op'), (''body'', body')]"
    and "dec_command C (enc_command C cmd) = Inr cmd"
    and "dec_mail_body C (enc_mail_body C mail) = Inr mail"
  shows "as_event C (envelope_event C i sq ts ev) = Some ev
     \<and> as_command C (envelope_command C i from cmd) = Inr cmd
     \<and> as_mail C (envelope_mail C i from to mail) = Inr mail"
  using assms
  by (simp add: as_event_def envelope_event_def as_command_def envelope_command_def as_mail_def
      envelope_mail_def envelope_new_def op_body_def op_object_def json_get_object)

definition demo_mesh_codecs :: "int mesh_codecs" where
  "demo_mesh_codecs =
     \<lparr>enc_event = \<lambda>ev. json_object [(''op'', JString ''node_event''), (''body'', JString (event_node ev))],
      dec_event = \<lambda>j. (case Option.bind (json_get ''body'' j) json_as_str of
                          Some a \<Rightarrow> Inr (Event_NodeEvent a JNull) | None \<Rightarrow> Inl ''invalid event''),
      enc_command = \<lambda>c. json_object [(''op'', JString ''get''), (''body'', JNull)],
      dec_command = \<lambda>j. Inr (Command_Get ''s_A''),
      enc_mail_body = \<lambda>b. JString (mb_text b),
      dec_mail_body = \<lambda>j. (case json_as_str j of
                          Some t \<Rightarrow> Inr \<lparr>mb_text = t, mb_deliver = Deliver_Wake, mb_title = None\<rparr>
                        | None \<Rightarrow> Inl ''invalid mail body''),
      enc_envelope = \<lambda>e. json_object [(''type'', JString wire_type), (''id'', JString (env_id e)),
                         (''op'', JString (env_op e)), (''body'', env_body e)],
      dec_envelope = \<lambda>j. (case Option.bind (json_get ''id'' j) json_as_str of
                          Some i \<Rightarrow> Inr (envelope_new Kind_Evt i ''node_report'' [] [] JNull)
                        | None \<Rightarrow> Inl ''invalid envelope''),
      enc_mesh_error = \<lambda>e. JString (mer_message e), print_json = \<lambda>_. []\<rparr>"

theorem envelope_round_trip_witness:
  "as_event demo_mesh_codecs (envelope_event demo_mesh_codecs ''e1'' 1 2 (Event_NodeEvent ''s_A'' JNull)) =
     Some (Event_NodeEvent ''s_A'' JNull)"
proof -
  have "enc_event demo_mesh_codecs (Event_NodeEvent ''s_A'' JNull) =
      json_object [(''op'', JString ''node_event''), (''body'', JString ''s_A'')]"
    "dec_event demo_mesh_codecs (enc_event demo_mesh_codecs (Event_NodeEvent ''s_A'' JNull)) =
      Inr (Event_NodeEvent ''s_A'' JNull)"
    "enc_command demo_mesh_codecs (Command_Get ''s_A'') = json_object [(''op'', JString ''get''), (''body'', JNull)]"
    "dec_command demo_mesh_codecs (enc_command demo_mesh_codecs (Command_Get ''s_A'')) = Inr (Command_Get ''s_A'')"
    "dec_mail_body demo_mesh_codecs
       (enc_mail_body demo_mesh_codecs \<lparr>mb_text = ''hi'', mb_deliver = Deliver_Wake, mb_title = None\<rparr>) =
      Inr \<lparr>mb_text = ''hi'', mb_deliver = Deliver_Wake, mb_title = None\<rparr>"
    by (simp_all add: demo_mesh_codecs_def json_get_object)
  from envelope_round_trip [OF this] show ?thesis by blast
qed

end
