(* ===== verification/Mesh_Hub.thy ===== *)
theory Mesh_Hub
  imports Mesh_Wire "HOL-Library.AList"
begin

text \<open>
  \<open>crates/evo-mesh/src/hub.rs\<close>: the hub that relays mail between sessions. The mail store is an
  interface (\<open>trait MailStore\<close>, the record \<open>mail_store_ops\<close> and the locale \<open>mail_store\<close> of its
  laws), provided here by the store in memory. The mutexes of the source guard single maps; one
  call of the hub is one step of the state. The clock is an argument of the calls that read it.
\<close>

subsection \<open>Mail, the store and the effects\<close>

record mail =
  mail_id :: string
  mail_from :: string
  mail_to :: string
  mail_content :: mail_body
  mail_created :: int

definition mail_envelope :: "'f mesh_codecs \<Rightarrow> mail \<Rightarrow> 'f envelope" where
  "mail_envelope C m =
     envelope_mail C (mail_id m) (address_session (mail_from m)) (address_session (mail_to m)) (mail_content m)"

record session_spec =
  ss_title :: string
  ss_prompt :: string
  ss_fork :: bool
  ss_worktree :: bool

record created_session =
  cs_id :: string
  cs_title :: string
  cs_cwd :: "string option"

record child_info =
  ci_id :: string
  ci_title :: string
  ci_unread :: bool
  ci_preview :: "string option"

record 's mail_store_ops =
  ms_parent_of :: "'s \<Rightarrow> string \<Rightarrow> string option"
  ms_title_of :: "'s \<Rightarrow> string \<Rightarrow> string option"
  ms_insert :: "'s \<Rightarrow> mail \<Rightarrow> 's \<times> (string + unit)"
  ms_pending :: "'s \<Rightarrow> string \<Rightarrow> mail list"
  ms_mark_delivered :: "'s \<Rightarrow> string \<Rightarrow> 's"
  ms_children_of :: "'s \<Rightarrow> string \<Rightarrow> child_info list"
  ms_create_session :: "'s \<Rightarrow> string \<Rightarrow> session_spec \<Rightarrow> 's \<times> (string + created_session)"

datatype 'f hub_effect =
    Effect_Send string "'f json"
  | Effect_Host string "string option" bool
  | Effect_Prompted string string

definition report_chars :: nat where "report_chars = 400"
definition seen_reports :: nat where "seen_reports = 256"
definition max_running_children :: nat where "max_running_children = 8"

fun run_status_text :: "run_status \<Rightarrow> string" where
  "run_status_text Run_Done = ''done''"
| "run_status_text Run_Failed = ''error''"
| "run_status_text Run_Cancelled = ''cancelled''"

definition session_note :: "string \<Rightarrow> string \<Rightarrow> run_status \<Rightarrow> string \<Rightarrow> string" where
  "session_note chat title status text =
     (let cut = take report_chars (trim text);
          report = (if cut = [] then ''(no reply text)'' else cut)
      in ''<nested-session id='' @ quote @ chat @ quote @ '' title='' @ quote
         @ map (\<lambda>c. if c = CHR 0x22 then CHR 0x27 else c) title @ quote @ '' status='' @ quote
         @ run_status_text status @ quote @ ''>'' @ newline @ report @ newline @ ''</nested-session>'')"

definition session_tool_names :: "string list" where
  "session_tool_names = [''start_session'', ''message_session'', ''list_sessions'']"

definition is_session_tool :: "string \<Rightarrow> bool" where
  "is_session_tool name \<longleftrightarrow> name \<in> set session_tool_names"

definition json_str :: "string \<Rightarrow> 'f json \<Rightarrow> string option" where
  "json_str key j = Option.bind (json_get key j) json_as_str"

definition json_flag :: "string \<Rightarrow> 'f json \<Rightarrow> bool" where
  "json_flag key j =
     (case Option.bind (json_get key j) json_as_bool of None \<Rightarrow> False | Some b \<Rightarrow> b)"

definition or_empty :: "string option \<Rightarrow> string" where
  "or_empty x = (case x of None \<Rightarrow> [] | Some s \<Rightarrow> s)"

definition tool_result :: "string \<Rightarrow> 'f json option \<Rightarrow> bool \<Rightarrow> 'f json" where
  "tool_result text structured is_error =
     (let result = json_object [(''content'',
            JArray [json_object [(''type'', JString ''text''), (''text'', JString text)]])];
          result = (case structured of None \<Rightarrow> result
                    | Some s \<Rightarrow> json_insert ''structuredContent'' s result)
      in if is_error then json_insert ''isError'' (JBool True) result else result)"

subsection \<open>The state of the hub\<close>

record engine =
  en_ready :: bool
  en_hosted :: bool
  en_busy :: bool
  en_waiting :: "string set"

definition engine_default :: engine where
  "engine_default = \<lparr>en_ready = False, en_hosted = False, en_busy = False, en_waiting = {}\<rparr>"

text \<open>
  Every access to the engines goes through \<open>entry(..).or_default()\<close>, and so does every access to
  the reports seen: the two maps are total here.
\<close>

record 's hub =
  hb_store :: 's
  hb_engines :: "string \<Rightarrow> engine"
  hb_in_flight :: "string \<rightharpoonup> string"
  hb_seen :: "string \<Rightarrow> string list"
  hb_auto_start :: bool
  hb_epoch :: int
  hb_ids :: "64 word"

definition hub_new :: "int \<Rightarrow> 's \<Rightarrow> 's hub" where
  "hub_new now store =
     \<lparr>hb_store = store, hb_engines = (\<lambda>_. engine_default), hb_in_flight = Map.empty,
      hb_seen = (\<lambda>_. []), hb_auto_start = False, hb_epoch = now, hb_ids = 0\<rparr>"

definition set_auto_start :: "bool \<Rightarrow> 's hub \<Rightarrow> 's hub" where
  "set_auto_start on h = h\<lparr>hb_auto_start := on\<rparr>"

definition hub_next_id :: "string \<Rightarrow> 's hub \<Rightarrow> string \<times> 's hub" where
  "hub_next_id prefix h =
     (prefix @ ''_'' @ show_int (hb_epoch h) @ ''_'' @ show_nat (unat (hb_ids h + 1)),
      h\<lparr>hb_ids := hb_ids h + 1\<rparr>)"

definition with_engine :: "string \<Rightarrow> (engine \<Rightarrow> engine) \<Rightarrow> 's hub \<Rightarrow> 's hub" where
  "with_engine chat f h = h\<lparr>hb_engines := (hb_engines h)(chat := f (hb_engines h chat))\<rparr>"

definition is_ready :: "'s hub \<Rightarrow> string \<Rightarrow> bool" where
  "is_ready h chat = en_ready (hb_engines h chat)"

definition is_busy :: "'s hub \<Rightarrow> string \<Rightarrow> bool" where
  "is_busy h chat = en_busy (hb_engines h chat)"

definition on_start :: "string \<Rightarrow> 's hub \<Rightarrow> 's hub" where
  "on_start chat h =
     h\<lparr>hb_engines := (hb_engines h)(chat := engine_default),
       hb_in_flight := (\<lambda>i. if hb_in_flight h i = Some chat then None else hb_in_flight h i)\<rparr>"

subsection \<open>Mail\<close>

definition deliverable :: "'s hub \<Rightarrow> mail \<Rightarrow> bool option" where
  "deliverable h m =
     (let e = hb_engines h (mail_to m)
      in case mb_deliver (mail_content m) of
           Deliver_Prompt \<Rightarrow> (if en_hosted e then Some True else None)
         | _ \<Rightarrow> (if en_ready e then Some True else None))"

definition hub_send ::
  "'f mesh_codecs \<Rightarrow> mail \<Rightarrow> 's hub \<Rightarrow> 'f hub_effect list \<times> 's hub" where
  "hub_send C m h =
     (let h = h\<lparr>hb_in_flight := (hb_in_flight h)(mail_id m \<mapsto> mail_to m)\<rparr>;
          text = mb_text (mail_content m)
      in case mb_deliver (mail_content m) of
           Deliver_Prompt \<Rightarrow>
             (let busy = en_busy (hb_engines h (mail_to m));
                  h = with_engine (mail_to m) (\<lambda>e. e\<lparr>en_busy := True\<rparr>) h
              in if busy
                 then ([Effect_Send (mail_to m) (json_object
                         [(''type'', JString ''queue_message''), (''id'', JString (mail_id m)),
                          (''message'', JString text), (''deliverAs'', JString ''steer'')])], h)
                 else ([Effect_Prompted (mail_to m) text,
                        Effect_Send (mail_to m) (json_object
                         [(''type'', JString ''prompt''), (''id'', JString (mail_id m)),
                          (''message'', JString text)])], h))
         | _ \<Rightarrow> ([Effect_Send (mail_to m) (enc_envelope C (mail_envelope C m))], h))"

text \<open>The iterator of \<open>flush\<close> is lazy: each mail is tested just before it is sent.\<close>

fun send_each ::
  "'f mesh_codecs \<Rightarrow> mail list \<Rightarrow> 's hub \<Rightarrow> 'f hub_effect list \<times> 's hub" where
  "send_each C [] h = ([], h)"
| "send_each C (m # ms) h =
     (if deliverable h m = Some True
      then (let (es, h) = hub_send C m h; (fs, h) = send_each C ms h in (es @ fs, h))
      else send_each C ms h)"

definition flush ::
  "'s mail_store_ops \<Rightarrow> 'f mesh_codecs \<Rightarrow> string \<Rightarrow> 's hub \<Rightarrow> 'f hub_effect list \<times> 's hub" where
  "flush S C chat h =
     send_each C
       (filter (\<lambda>m. hb_in_flight h (mail_id m) = None) (ms_pending S (hb_store h) chat)) h"

definition hub_post ::
  "'s mail_store_ops \<Rightarrow> 'f mesh_codecs \<Rightarrow> int \<Rightarrow> string \<Rightarrow> string \<Rightarrow> mail_body \<Rightarrow> 's hub
     \<Rightarrow> 'f hub_effect list \<times> 's hub" where
  "hub_post S C now from to body h =
     (let (i, h) = hub_next_id ''mail'' h;
          m = \<lparr>mail_id = i, mail_from = from, mail_to = to, mail_content = body, mail_created = now\<rparr>;
          h = h\<lparr>hb_store := fst (ms_insert S (hb_store h) m)\<rparr>
      in case deliverable h m of
           Some True \<Rightarrow> hub_send C m h
         | Some False \<Rightarrow> ([], h)
         | None \<Rightarrow> ([Effect_Host to None True], h))"

definition answered :: "'s mail_store_ops \<Rightarrow> string \<Rightarrow> bool \<Rightarrow> 's hub \<Rightarrow> 's hub" where
  "answered S i delivered h =
     (let found = hb_in_flight h i \<noteq> None;
          h = h\<lparr>hb_in_flight := (hb_in_flight h)(i := None)\<rparr>
      in if found \<and> delivered then h\<lparr>hb_store := ms_mark_delivered S (hb_store h) i\<rparr> else h)"

definition line_says_busy :: "'f json \<Rightarrow> bool" where
  "line_says_busy line \<longleftrightarrow>
     (case json_str ''error'' line of
        None \<Rightarrow> False
      | Some e \<Rightarrow> contains_str ''active'' e \<or> contains_str ''running'' e)"

definition on_response :: "'s mail_store_ops \<Rightarrow> string \<Rightarrow> 'f json \<Rightarrow> 's hub \<Rightarrow> 's hub" where
  "on_response S chat line h =
     (case json_str ''id'' line of
        None \<Rightarrow> h
      | Some i \<Rightarrow>
          (let accepted = json_flag ''success'' line;
               h = (if hb_in_flight h i \<noteq> None \<and> \<not> accepted
                    then with_engine chat (\<lambda>e. e\<lparr>en_busy := en_busy e \<or> line_says_busy line\<rparr>) h
                    else h)
           in answered S i accepted h))"

definition on_exit ::
  "'s mail_store_ops \<Rightarrow> string \<Rightarrow> 's hub \<Rightarrow> 'f hub_effect list \<times> 's hub" where
  "on_exit S chat h =
     (let h = on_start chat h
      in (if ms_pending S (hb_store h) chat = [] then [] else [Effect_Host chat None True], h))"

definition on_hosted ::
  "'s mail_store_ops \<Rightarrow> 'f mesh_codecs \<Rightarrow> string \<Rightarrow> 's hub \<Rightarrow> 'f hub_effect list \<times> 's hub" where
  "on_hosted S C chat h =
     flush S C chat (with_engine chat (\<lambda>e. e\<lparr>en_ready := True, en_hosted := True\<rparr>) h)"

subsection \<open>Reports\<close>

text \<open>The report a session's engine makes about itself, with the identifier of its envelope.\<close>

definition own_report ::
  "'f mesh_codecs \<Rightarrow> string \<Rightarrow> 'f json \<Rightarrow> (string \<times> run_status \<times> string) option" where
  "own_report C chat line =
     (if json_str ''from'' line \<noteq> Some (address_session chat) then None
      else case dec_envelope C line of
             Inl _ \<Rightarrow> None
           | Inr envelope \<Rightarrow>
               (case as_event C envelope of
                  Some (Event_NodeReport _ status text _ _) \<Rightarrow> Some (env_id envelope, status, text)
                | _ \<Rightarrow> None))"

definition note_report ::
  "'s mail_store_ops \<Rightarrow> 'f mesh_codecs \<Rightarrow> int \<Rightarrow> string \<Rightarrow> string \<times> run_status \<times> string \<Rightarrow> 's hub
     \<Rightarrow> 'f hub_effect list \<times> 's hub" where
  "note_report S C now chat report h =
     (case report of (i, status, text) \<Rightarrow>
        (if i \<in> set (hb_seen h chat) then ([], h)
         else
           (let seen = hb_seen h chat @ [i];
                h = h\<lparr>hb_seen := (hb_seen h)(chat := drop (length seen - seen_reports) seen)\<rparr>
            in case ms_parent_of S (hb_store h) chat of
                 None \<Rightarrow> ([], h)
               | Some parent \<Rightarrow>
                   (let title = or_empty (ms_title_of S (hb_store h) chat)
                    in hub_post S C now chat parent
                         \<lparr>mb_text = session_note chat title status text, mb_deliver = Deliver_Wake,
                          mb_title = Some title\<rparr> h))))"

definition on_envelope ::
  "'s mail_store_ops \<Rightarrow> 'f mesh_codecs \<Rightarrow> int \<Rightarrow> string \<Rightarrow> 'f json \<Rightarrow> 's hub
     \<Rightarrow> 'f hub_effect list \<times> 's hub" where
  "on_envelope S C now chat line h =
     (let kind = json_str ''kind'' line; op = json_str ''op'' line
      in if kind = Some ''evt'' \<and> op = Some ''node_report''
         then (case own_report C chat line of
                 None \<Rightarrow> ([], h)
               | Some report \<Rightarrow> note_report S C now chat report h)
         else if kind = Some ''res''
         then ([], case json_str ''corr'' line of
                     None \<Rightarrow> h
                   | Some corr \<Rightarrow>
                       (let failed = Option.bind (json_get ''body'' line) (json_get ''error'') \<noteq> None
                        in answered S corr (\<not> failed) h))
         else ([], h))"

subsection \<open>Session tools\<close>

text \<open>The host effect of the new chat gets its folder and whether to restore a transcript.\<close>

fun host_created :: "created_session \<Rightarrow> bool \<Rightarrow> 'f hub_effect \<Rightarrow> 'f hub_effect" where
  "host_created created fork (Effect_Host chat cwd restore) =
     (if chat = cs_id created then Effect_Host chat (cs_cwd created) fork
      else Effect_Host chat cwd restore)"
| "host_created created fork effect = effect"

definition hub_start_session ::
  "'s mail_store_ops \<Rightarrow> 'f mesh_codecs \<Rightarrow> int \<Rightarrow> string \<Rightarrow> session_spec \<Rightarrow> 's hub
     \<Rightarrow> (string + created_session \<times> 'f hub_effect list) \<times> 's hub" where
  "hub_start_session S C now parent spec h =
     (case ms_create_session S (hb_store h) parent spec of
        (s, Inl e) \<Rightarrow> (Inl e, h\<lparr>hb_store := s\<rparr>)
      | (s, Inr created) \<Rightarrow>
          (let (effects, h) = hub_post S C now parent (cs_id created)
                 \<lparr>mb_text = ss_prompt spec, mb_deliver = Deliver_Prompt, mb_title = None\<rparr>
                 (h\<lparr>hb_store := s\<rparr>)
           in (Inr (created, map (host_created created (ss_fork spec)) effects), h)))"

definition children_running :: "'s mail_store_ops \<Rightarrow> string \<Rightarrow> 's hub \<Rightarrow> nat" where
  "children_running S parent h =
     length (filter (\<lambda>child. is_busy h (ci_id child)) (ms_children_of S (hb_store h) parent))"

definition start_title :: "'f json \<Rightarrow> string" where
  "start_title args = take 120 (join '' '' (split_whitespace (or_empty (json_str ''title'' args))))"

definition start_prompt :: "'f json \<Rightarrow> string" where
  "start_prompt args = trim (or_empty (json_str ''prompt'' args))"

definition call_start ::
  "'s mail_store_ops \<Rightarrow> 'f mesh_codecs \<Rightarrow> int \<Rightarrow> string \<Rightarrow> 'f json \<Rightarrow> 's hub
     \<Rightarrow> 'f json \<times> 'f hub_effect list \<times> 's hub" where
  "call_start S C now chat args h =
     (let title = start_title args;
          prompt = start_prompt args;
          fork = (json_str ''context'' args = Some ''fork'');
          worktree = json_flag ''worktree'' args;
          running = children_running S chat h;
          context = (if fork then ''fork'' else ''fresh'')
      in if title = [] \<or> prompt = []
         then (tool_result ''start_session needs a title and a prompt.'' None True, [], h)
         else if ms_parent_of S (hb_store h) chat \<noteq> None
         then (tool_result ''Nested sessions cannot start sessions of their own.'' None True, [], h)
         else if running \<ge> max_running_children
         then (tool_result (show_nat running
                 @ '' sessions from this chat are already running; wait for one to finish.'') None True, [], h)
         else if \<not> hb_auto_start h
         then (let (i, h) = hub_next_id ''proposal'' h;
                   proposal = json_object [(''status'', JString ''proposed''), (''proposalId'', JString i),
                     (''title'', JString title), (''prompt'', JString prompt),
                     (''context'', JString context), (''worktree'', JBool worktree)];
                   text = ''Proposed a session '' @ quote @ title @ quote @ ''. The user decides whether to start it; ''
                     @ ''if they do, you will get a note each time it finishes a turn. Do not wait for it.''
               in (tool_result text (Some proposal) False, [], h))
         else (case hub_start_session S C now chat
                      \<lparr>ss_title = title, ss_prompt = prompt, ss_fork = fork, ss_worktree = worktree\<rparr> h of
                 (Inr (created, effects), h) \<Rightarrow>
                   (let started = json_object [(''status'', JString ''started''),
                          (''sessionId'', JString (cs_id created)), (''title'', JString (cs_title created)),
                          (''prompt'', JString prompt), (''context'', JString context),
                          (''worktree'', JBool worktree)];
                        text = ''Started session '' @ cs_id created @ '' ('' @ quote @ cs_title created @ quote
                          @ ''). It runs on its own; you will get a note each time it finishes a turn. ''
                          @ ''Use message_session to follow up.''
                    in (tool_result text (Some started) False, effects, h))
               | (Inl e, h) \<Rightarrow>
                   (tool_result (''The session could not be started: '' @ e) None True, [], h)))"

definition call_message ::
  "'s mail_store_ops \<Rightarrow> 'f mesh_codecs \<Rightarrow> int \<Rightarrow> string \<Rightarrow> 'f json \<Rightarrow> 's hub
     \<Rightarrow> 'f json \<times> 'f hub_effect list \<times> 's hub" where
  "call_message S C now chat args h =
     (let target = or_empty (json_str ''sessionId'' args);
          message = trim (or_empty (json_str ''message'' args))
      in if target = [] \<or> ms_parent_of S (hb_store h) target \<noteq> Some chat
         then (tool_result (''No session '' @ target @ '' was started from this chat.'') None True, [], h)
         else if message = []
         then (tool_result ''message_session needs a message.'' None True, [], h)
         else (let title = or_empty (ms_title_of S (hb_store h) target);
                   (effects, h) = hub_post S C now chat target
                     \<lparr>mb_text = message, mb_deliver = Deliver_Prompt, mb_title = None\<rparr> h
               in (tool_result (''Sent to '' @ quote @ title @ quote
                     @ ''. You will get a note when it finishes its turn.'') None False, effects, h)))"

definition child_status :: "'s hub \<Rightarrow> string \<Rightarrow> string" where
  "child_status h child =
     (let e = hb_engines h child
      in if en_waiting e \<noteq> {} then ''waiting'' else if en_busy e then ''running'' else ''idle'')"

definition call_list ::
  "'s mail_store_ops \<Rightarrow> 'f mesh_codecs \<Rightarrow> string \<Rightarrow> 's hub \<Rightarrow> 'f json" where
  "call_list S C chat h =
     (let sessions = map (\<lambda>child. json_object
            [(''sessionId'', JString (ci_id child)), (''title'', JString (ci_title child)),
             (''status'', JString (child_status h (ci_id child))), (''unread'', JBool (ci_unread child)),
             (''lastReply'', json_nullable JString (ci_preview child))])
            (ms_children_of S (hb_store h) chat);
          structured = json_object [(''sessions'', JArray sessions)]
      in tool_result (print_json C structured) (Some structured) False)"

definition on_tool_call ::
  "'s mail_store_ops \<Rightarrow> 'f mesh_codecs \<Rightarrow> int \<Rightarrow> string \<Rightarrow> 'f json \<Rightarrow> 's hub
     \<Rightarrow> 'f hub_effect list \<times> 's hub" where
  "on_tool_call S C now chat line h =
     (case (json_str ''toolName'' line, json_str ''requestId'' line) of
        (Some name, Some request_id) \<Rightarrow>
          (if \<not> is_session_tool name then ([], h)
           else
             (let args = (case json_get ''arguments'' line of None \<Rightarrow> JNull | Some a \<Rightarrow> a);
                  (result, effects, h) =
                    (if name = ''start_session'' then call_start S C now chat args h
                     else if name = ''message_session'' then call_message S C now chat args h
                     else (call_list S C chat h, [], h));
                  (i, h) = hub_next_id ''hub'' h;
                  answer = json_object [(''type'', JString ''external_tool_response''),
                    (''id'', JString i), (''requestId'', JString request_id), (''result'', result)]
              in (Effect_Send chat answer # effects, h)))
      | _ \<Rightarrow> ([], h))"

subsection \<open>Lines of an engine\<close>

definition on_dialog :: "(string \<Rightarrow> string set \<Rightarrow> string set) \<Rightarrow> string \<Rightarrow> 'f json \<Rightarrow> 's hub \<Rightarrow> 's hub" where
  "on_dialog f chat line h =
     (case json_str ''requestId'' line of
        None \<Rightarrow> h
      | Some i \<Rightarrow> with_engine chat (\<lambda>e. e\<lparr>en_waiting := f i (en_waiting e)\<rparr>) h)"

definition on_line ::
  "'s mail_store_ops \<Rightarrow> 'f mesh_codecs \<Rightarrow> int \<Rightarrow> string \<Rightarrow> 'f json \<Rightarrow> 's hub
     \<Rightarrow> 'f hub_effect list \<times> 's hub" where
  "on_line S C now chat line h =
     (case json_str ''type'' line of
        None \<Rightarrow> ([], h)
      | Some t \<Rightarrow>
          (if t = ''ready'' then flush S C chat (with_engine chat (\<lambda>e. e\<lparr>en_ready := True\<rparr>) h)
           else if t = ''agent_start'' then ([], with_engine chat (\<lambda>e. e\<lparr>en_busy := True\<rparr>) h)
           else if t = ''agent_settled''
           then flush S C chat (with_engine chat (\<lambda>e. e\<lparr>en_busy := False\<rparr>) h)
           else if t = ''ui_dialog_request'' then ([], on_dialog insert chat line h)
           else if t = ''ui_dialog_closed'' then ([], on_dialog (\<lambda>i ws. ws - {i}) chat line h)
           else if t = ''response'' then ([], on_response S chat line h)
           else if t = ''external_tool_request'' then on_tool_call S C now chat line h
           else if t = wire_type then on_envelope S C now chat line h
           else ([], h)))"

text \<open>Everything a host does to a hub; a run of the hub is a sequence of these steps.\<close>

datatype 'f hub_input =
    In_AutoStart bool
  | In_Start string
  | In_Exit string
  | In_Hosted string
  | In_Line int string "'f json"
  | In_Post int string string mail_body
  | In_StartSession int string session_spec

fun hub_step ::
  "'s mail_store_ops \<Rightarrow> 'f mesh_codecs \<Rightarrow> 'f hub_input \<Rightarrow> 's hub \<Rightarrow> 'f hub_effect list \<times> 's hub" where
  "hub_step S C (In_AutoStart on) h = ([], set_auto_start on h)"
| "hub_step S C (In_Start chat) h = ([], on_start chat h)"
| "hub_step S C (In_Exit chat) h = on_exit S chat h"
| "hub_step S C (In_Hosted chat) h = on_hosted S C chat h"
| "hub_step S C (In_Line now chat line) h = on_line S C now chat line h"
| "hub_step S C (In_Post now from to body) h = hub_post S C now from to body h"
| "hub_step S C (In_StartSession now parent spec) h =
     (case hub_start_session S C now parent spec h of
        (Inl _, h) \<Rightarrow> ([], h)
      | (Inr (_, effects), h) \<Rightarrow> (effects, h))"

inductive hub_run :: "'s mail_store_ops \<Rightarrow> 'f mesh_codecs \<Rightarrow> 's hub \<Rightarrow> 's hub \<Rightarrow> bool"
  for S C h where
  run_none: "hub_run S C h h"
| run_step: "hub_run S C h h' \<Longrightarrow> hub_step S C i h' = (es, h'') \<Longrightarrow> hub_run S C h h''"

subsection \<open>The store in memory\<close>

record memory_store =
  mem_parents :: "(string \<times> string) list"
  mem_titles :: "(string \<times> string) list"
  mem_mail :: "(mail \<times> bool) list"
  mem_created :: "64 word"

definition memory_store_default :: memory_store where
  "memory_store_default = \<lparr>mem_parents = [], mem_titles = [], mem_mail = [], mem_created = 0\<rparr>"

definition memory_with_parent :: "string \<Rightarrow> string \<Rightarrow> string \<Rightarrow> memory_store \<Rightarrow> memory_store" where
  "memory_with_parent child parent title s =
     s\<lparr>mem_parents := AList.update child parent (mem_parents s),
       mem_titles := AList.update child title (mem_titles s)\<rparr>"

definition memory_insert :: "memory_store \<Rightarrow> mail \<Rightarrow> memory_store \<times> (string + unit)" where
  "memory_insert s m = (s\<lparr>mem_mail := mem_mail s @ [(m, False)]\<rparr>, Inr ())"

definition memory_pending :: "memory_store \<Rightarrow> string \<Rightarrow> mail list" where
  "memory_pending s chat =
     map fst (filter (\<lambda>(m, delivered). \<not> delivered \<and> mail_to m = chat) (mem_mail s))"

definition memory_mark_delivered :: "memory_store \<Rightarrow> string \<Rightarrow> memory_store" where
  "memory_mark_delivered s i =
     s\<lparr>mem_mail := map (\<lambda>(m, delivered). if mail_id m = i then (m, True) else (m, delivered)) (mem_mail s)\<rparr>"

definition memory_children_of :: "memory_store \<Rightarrow> string \<Rightarrow> child_info list" where
  "memory_children_of s parent =
     sort_key ci_id
       (map (\<lambda>(child, _). \<lparr>ci_id = child, ci_title = or_empty (map_of (mem_titles s) child),
                            ci_unread = False, ci_preview = None\<rparr>)
         (filter (\<lambda>(_, p). p = parent) (mem_parents s)))"

definition memory_create_session ::
  "memory_store \<Rightarrow> string \<Rightarrow> session_spec \<Rightarrow> memory_store \<times> (string + created_session)" where
  "memory_create_session s parent spec =
     (let i = ''new-'' @ show_nat (unat (mem_created s + 1))
      in ((memory_with_parent i parent (ss_title spec) s)\<lparr>mem_created := mem_created s + 1\<rparr>,
          Inr \<lparr>cs_id = i, cs_title = ss_title spec,
               cs_cwd = (if ss_worktree spec then Some (''/worktrees/'' @ i) else None)\<rparr>))"

definition memory_ops :: "memory_store mail_store_ops" where
  "memory_ops =
     \<lparr>ms_parent_of = (\<lambda>s. map_of (mem_parents s)), ms_title_of = (\<lambda>s. map_of (mem_titles s)),
      ms_insert = memory_insert, ms_pending = memory_pending,
      ms_mark_delivered = memory_mark_delivered, ms_children_of = memory_children_of,
      ms_create_session = memory_create_session\<rparr>"

subsection \<open>Sending\<close>

definition is_prompt :: "mail \<Rightarrow> bool" where
  "is_prompt m \<longleftrightarrow> mb_deliver (mail_content m) = Deliver_Prompt"

text \<open>The line that carries a mail to an engine, running (\<open>busy\<close>) or idle.\<close>

definition mail_line :: "'f mesh_codecs \<Rightarrow> bool \<Rightarrow> mail \<Rightarrow> 'f json" where
  "mail_line C busy m =
     (if is_prompt m
      then if busy
           then json_object [(''type'', JString ''queue_message''), (''id'', JString (mail_id m)),
                  (''message'', JString (mb_text (mail_content m))), (''deliverAs'', JString ''steer'')]
           else json_object [(''type'', JString ''prompt''), (''id'', JString (mail_id m)),
                  (''message'', JString (mb_text (mail_content m)))]
      else enc_envelope C (mail_envelope C m))"

definition can_take :: "'s hub \<Rightarrow> mail \<Rightarrow> bool" where
  "can_take h m \<longleftrightarrow>
     (if is_prompt m then en_hosted (hb_engines h (mail_to m)) else en_ready (hb_engines h (mail_to m)))"

lemma deliverable_iff: "deliverable h m = (if can_take h m then Some True else None)"
  by (simp add: deliverable_def can_take_def is_prompt_def Let_def split: deliver.split)

lemma hub_send_eq:
  "hub_send C m h =
     (let busy = en_busy (hb_engines h (mail_to m))
      in ((if is_prompt m \<and> \<not> busy then [Effect_Prompted (mail_to m) (mb_text (mail_content m))] else [])
            @ [Effect_Send (mail_to m) (mail_line C busy m)],
          (if is_prompt m then with_engine (mail_to m) (\<lambda>e. e\<lparr>en_busy := True\<rparr>) else id)
            (h\<lparr>hb_in_flight := (hb_in_flight h)(mail_id m \<mapsto> mail_to m)\<rparr>)))"
  by (simp add: hub_send_def is_prompt_def mail_line_def with_engine_def Let_def split: deliver.split)

text \<open>What a call of the hub leaves alone: the engines' readiness, the store.\<close>

definition same_setup :: "'s hub \<Rightarrow> 's hub \<Rightarrow> bool" where
  "same_setup h h' \<longleftrightarrow>
     (\<forall>c. en_ready (hb_engines h' c) = en_ready (hb_engines h c)
        \<and> en_hosted (hb_engines h' c) = en_hosted (hb_engines h c))"

lemma same_setup_refl [simp]: "same_setup h h"
  by (simp add: same_setup_def)

lemma same_setup_trans: "same_setup h h' \<Longrightarrow> same_setup h' h'' \<Longrightarrow> same_setup h h''"
  by (simp add: same_setup_def)

lemma can_take_setup: "same_setup h h' \<Longrightarrow> can_take h' m = can_take h m"
  by (simp add: same_setup_def can_take_def)

lemma hub_send_frame:
  "same_setup h (snd (hub_send C m h))" "hb_store (snd (hub_send C m h)) = hb_store h"
  "hb_in_flight (snd (hub_send C m h)) = (hb_in_flight h)(mail_id m \<mapsto> mail_to m)"
  "hb_seen (snd (hub_send C m h)) = hb_seen h"
  by (simp_all add: hub_send_eq same_setup_def with_engine_def Let_def)

lemma hub_send_busy:
  "en_busy (hb_engines (snd (hub_send C m h)) c) =
     (en_busy (hb_engines h c) \<or> mail_to m = c \<and> is_prompt m)"
  by (simp add: hub_send_eq with_engine_def Let_def)

lemmas hub_send_facts = hub_send_frame hub_send_busy

text \<open>Sending never changes which mail can go, so the lazy filter is an eager one.\<close>

fun send_all :: "'f mesh_codecs \<Rightarrow> mail list \<Rightarrow> 's hub \<Rightarrow> 'f hub_effect list \<times> 's hub" where
  "send_all C [] h = ([], h)"
| "send_all C (m # ms) h =
     (let (es, h) = hub_send C m h; (fs, h) = send_all C ms h in (es @ fs, h))"

lemma send_all_Cons:
  "fst (send_all C (m # ms) h) = fst (hub_send C m h) @ fst (send_all C ms (snd (hub_send C m h)))"
  "snd (send_all C (m # ms) h) = snd (send_all C ms (snd (hub_send C m h)))"
  by (simp_all add: Let_def split_beta)

lemma send_each_Cons:
  "send_each C (m # ms) h =
     (if can_take h m
      then (fst (hub_send C m h) @ fst (send_each C ms (snd (hub_send C m h))),
            snd (send_each C ms (snd (hub_send C m h))))
      else send_each C ms h)"
  by (simp add: deliverable_iff Let_def split_beta)

lemma send_each_eager: "send_each C ms h = send_all C (filter (can_take h) ms) h"
proof (induction ms arbitrary: h)
  case (Cons m ms)
  have "can_take (snd (hub_send C m h)) = can_take h"
    using can_take_setup [OF hub_send_frame(1)] by blast
  then show ?case
    using Cons.IH [of h] Cons.IH [of "snd (hub_send C m h)"]
    by (simp add: send_each_Cons prod_eq_iff send_all_Cons del: send_each.simps send_all.simps)
qed simp

fun is_send :: "'f hub_effect \<Rightarrow> bool" where
  "is_send (Effect_Send _ _) = True"
| "is_send _ = False"

fun is_prompted :: "'f hub_effect \<Rightarrow> bool" where
  "is_prompted (Effect_Prompted _ _) = True"
| "is_prompted _ = False"

lemma send_all_frame:
  "same_setup h (snd (send_all C ms h)) \<and> hb_store (snd (send_all C ms h)) = hb_store h
     \<and> hb_in_flight (snd (send_all C ms h)) = hb_in_flight h ++ map_of (rev (map (\<lambda>m. (mail_id m, mail_to m)) ms))
     \<and> hb_seen (snd (send_all C ms h)) = hb_seen h"
proof (induction ms arbitrary: h)
  case (Cons m ms)
  show ?case
    using Cons.IH [of "snd (hub_send C m h)"] hub_send_frame [where h = h and C = C and m = m]
      same_setup_trans [of h "snd (hub_send C m h)"]
    by (auto simp: send_all_Cons fun_eq_iff map_add_def split: option.splits simp del: send_all.simps)
qed simp

lemma send_all_sends:
  assumes "\<forall>m \<in> set ms. mail_to m = c"
  shows "filter is_send (fst (send_all C ms h)) =
     map (\<lambda>k. Effect_Send c (mail_line C (en_busy (hb_engines h c) \<or> (\<exists>m \<in> set (take k ms). is_prompt m)) (ms ! k)))
       [0..<length ms]"
  using assms
proof (induction ms arbitrary: h)
  case (Cons m ms)
  let ?h = "snd (hub_send C m h)"
  have head: "filter is_send (fst (hub_send C m h)) = [Effect_Send c (mail_line C (en_busy (hb_engines h c)) m)]"
    using Cons.prems by (simp add: hub_send_eq Let_def)
  have busy: "en_busy (hb_engines ?h c) = (en_busy (hb_engines h c) \<or> is_prompt m)"
    using Cons.prems by (simp add: hub_send_busy)
  have upt: "[0..<length (m # ms)] = 0 # map Suc [0..<length ms]"
    by (simp add: map_Suc_upt upt_conv_Cons del: upt_Suc)
  show ?case
    using Cons.IH [of ?h] Cons.prems unfolding upt
    by (simp add: send_all_Cons head busy comp_def disj_assoc del: send_all.simps)
qed simp

lemma send_all_prompted:
  assumes "\<forall>m \<in> set ms. mail_to m = c"
  shows "filter is_prompted (fst (send_all C ms h)) =
     (case filter is_prompt ms of
        m # _ \<Rightarrow> if en_busy (hb_engines h c) then [] else [Effect_Prompted c (mb_text (mail_content m))]
      | [] \<Rightarrow> [])"
  using assms
proof (induction ms arbitrary: h)
  case (Cons m ms)
  let ?h = "snd (hub_send C m h)"
  have busy: "en_busy (hb_engines ?h c) = (en_busy (hb_engines h c) \<or> is_prompt m)"
    using Cons.prems by (simp add: hub_send_busy)
  have head: "filter is_prompted (fst (hub_send C m h)) =
      (if is_prompt m \<and> \<not> en_busy (hb_engines h c) then [Effect_Prompted c (mb_text (mail_content m))] else [])"
    using Cons.prems by (simp add: hub_send_eq Let_def)
  show ?case
    using Cons.IH [of ?h] Cons.prems
    by (simp add: send_all_Cons head busy split: list.splits del: send_all.simps)
qed simp

text \<open>The mail a post creates, and the hub once it is stored.\<close>

definition posted_mail :: "int \<Rightarrow> string \<Rightarrow> string \<Rightarrow> mail_body \<Rightarrow> 's hub \<Rightarrow> mail" where
  "posted_mail now from to body h =
     \<lparr>mail_id = fst (hub_next_id ''mail'' h), mail_from = from, mail_to = to, mail_content = body, mail_created = now\<rparr>"

definition with_mail :: "'s mail_store_ops \<Rightarrow> mail \<Rightarrow> 's hub \<Rightarrow> 's hub" where
  "with_mail S m h = h\<lparr>hb_ids := hb_ids h + 1, hb_store := fst (ms_insert S (hb_store h) m)\<rparr>"

lemma with_mail_simps [simp]:
  "hb_store (with_mail S m h) = fst (ms_insert S (hb_store h) m)" "hb_engines (with_mail S m h) = hb_engines h"
  "hb_in_flight (with_mail S m h) = hb_in_flight h" "hb_seen (with_mail S m h) = hb_seen h"
  "can_take (with_mail S m h) = can_take h" "same_setup h (with_mail S m h)"
  by (simp_all add: with_mail_def can_take_def fun_eq_iff same_setup_def)

lemma hub_post_eq:
  "hub_post S C now from to body h =
     (let m = posted_mail now from to body h
      in if can_take h m then hub_send C m (with_mail S m h)
         else ([Effect_Host to None True], with_mail S m h))"
proof -
  have "hub_post S C now from to body h =
     (let m = posted_mail now from to body h; h = with_mail S m h
      in case deliverable h m of
           Some True \<Rightarrow> hub_send C m h | Some False \<Rightarrow> ([], h) | None \<Rightarrow> ([Effect_Host to None True], h))"
    by (simp add: hub_post_def hub_next_id_def Let_def posted_mail_def with_mail_def
        cong: option.case_cong bool.case_cong)
  then show ?thesis by (simp add: deliverable_iff Let_def)
qed

lemma hub_post_frame:
  "same_setup h (snd (hub_post S C now from to body h))"
  "hb_store (snd (hub_post S C now from to body h)) = fst (ms_insert S (hb_store h) (posted_mail now from to body h))"
  "hb_seen (snd (hub_post S C now from to body h)) = hb_seen h"
  by (auto simp: hub_post_eq Let_def hub_send_frame intro: same_setup_trans [OF with_mail_simps(6) hub_send_frame(1)])

subsection \<open>The interface of the mail store\<close>

locale mail_store =
  fixes S :: "'s mail_store_ops"
  assumes insert_ok: "ms_insert S s m = (s', Inr ()) \<Longrightarrow>
      ms_pending S s' c = ms_pending S s c @ (if mail_to m = c then [m] else [])"
    and insert_error: "ms_insert S s m = (s', Inl e) \<Longrightarrow> ms_pending S s' c = ms_pending S s c"
    and mark_delivered: "ms_pending S (ms_mark_delivered S s i) c = filter (\<lambda>m. mail_id m \<noteq> i) (ms_pending S s c)"
    and pending_to: "m \<in> set (ms_pending S s c) \<Longrightarrow> mail_to m = c"
    and create_keeps: "ms_pending S (fst (ms_create_session S s p spec)) c = ms_pending S s c"
begin

lemma insert_keeps:
  "set (ms_pending S s c) \<subseteq> set (ms_pending S (fst (ms_insert S s m)) c)"
proof (cases "ms_insert S s m")
  case (Pair s' r)
  then show ?thesis
    using insert_ok [of s m s' c] insert_error [of s m s' _ c] by (cases r) auto
qed

text \<open>The mail a flush of \<open>c\<close> sends.\<close>

lemma flush_eq:
  "flush S C c h = send_all C (filter (\<lambda>m. hb_in_flight h (mail_id m) = None \<and> can_take h m) (ms_pending S (hb_store h) c)) h"
  by (simp add: flush_def send_each_eager conj_commute)

lemma flush_to: "\<forall>m \<in> set (filter P (ms_pending S s c)). mail_to m = c"
  using pending_to by auto

lemma post_pending:
  "set (ms_pending S (hb_store h) c) \<subseteq> set (ms_pending S (hb_store (snd (hub_post S C now from to body h))) c)"
  by (simp add: hub_post_frame insert_keeps)

lemma flush_pending: "hb_store (snd (flush S C c h)) = hb_store h"
  by (simp add: flush_eq send_all_frame)

lemma start_session_pending:
  assumes "hub_start_session S C now p spec h = (r, h')"
  shows "set (ms_pending S (hb_store h) c) \<subseteq> set (ms_pending S (hb_store h') c)"
proof (cases "ms_create_session S (hb_store h) p spec")
  case (Pair s x)
  then have same: "ms_pending S s c = ms_pending S (hb_store h) c"
    using create_keeps [of "hb_store h" p spec c] by simp
  show ?thesis
  proof (cases x)
    case (Inl e)
    then show ?thesis using assms Pair same by (auto simp: hub_start_session_def)
  next
    case (Inr created)
    then have "h' = snd (hub_post S C now p (cs_id created)
        \<lparr>mb_text = ss_prompt spec, mb_deliver = Deliver_Prompt, mb_title = None\<rparr> (h\<lparr>hb_store := s\<rparr>))"
      using assms Pair by (simp add: hub_start_session_def Let_def split_beta)
    then show ?thesis
      using post_pending [of "h\<lparr>hb_store := s\<rparr>" c] same by simp
  qed
qed

end

lemma memory_pending_map:
  "memory_pending (s\<lparr>mem_mail := map (\<lambda>(m, d). if mail_id m = i then (m, True) else (m, d)) (mem_mail s)\<rparr>) c =
     filter (\<lambda>m. mail_id m \<noteq> i) (memory_pending s c)"
proof -
  have "map fst (filter (\<lambda>(m, d). \<not> d \<and> mail_to m = c)
          (map (\<lambda>(m, d). if mail_id m = i then (m, True) else (m, d)) xs)) =
        filter (\<lambda>m. mail_id m \<noteq> i) (map fst (filter (\<lambda>(m, d). \<not> d \<and> mail_to m = c) xs))" for xs
    by (induction xs) auto
  then show ?thesis by (simp add: memory_pending_def)
qed

interpretation mem: mail_store memory_ops
proof unfold_locales
  fix s s' :: memory_store and m c i and e :: string and p spec
  show "ms_pending memory_ops s' c = ms_pending memory_ops s c @ (if mail_to m = c then [m] else [])"
    if "ms_insert memory_ops s m = (s', Inr ())"
    using that by (auto simp: memory_ops_def memory_insert_def memory_pending_def)
  show "ms_pending memory_ops s' c = ms_pending memory_ops s c" if "ms_insert memory_ops s m = (s', Inl e)"
    using that by (simp add: memory_ops_def memory_insert_def)
  show "ms_pending memory_ops (ms_mark_delivered memory_ops s i) c =
      filter (\<lambda>m. mail_id m \<noteq> i) (ms_pending memory_ops s c)"
    by (simp add: memory_ops_def memory_mark_delivered_def memory_pending_map)
  show "mail_to m = c" if "m \<in> set (ms_pending memory_ops s c)"
    using that by (auto simp: memory_ops_def memory_pending_def)
  show "ms_pending memory_ops (fst (ms_create_session memory_ops s p spec)) c = ms_pending memory_ops s c"
    by (simp add: memory_ops_def memory_create_session_def memory_with_parent_def memory_pending_def Let_def)
qed

subsection \<open>The session tools\<close>

text \<open>What a call of \<open>start_session\<close> needs before a session is created.\<close>

definition start_allowed :: "'s mail_store_ops \<Rightarrow> string \<Rightarrow> 'f json \<Rightarrow> 's hub \<Rightarrow> bool" where
  "start_allowed S chat args h \<longleftrightarrow>
     start_title args \<noteq> [] \<and> start_prompt args \<noteq> [] \<and> ms_parent_of S (hb_store h) chat = None
     \<and> children_running S chat h < max_running_children \<and> hb_auto_start h"

definition start_spec :: "'f json \<Rightarrow> session_spec" where
  "start_spec args =
     \<lparr>ss_title = start_title args, ss_prompt = start_prompt args,
      ss_fork = (json_str ''context'' args = Some ''fork''), ss_worktree = json_flag ''worktree'' args\<rparr>"

definition message_allowed :: "'s mail_store_ops \<Rightarrow> string \<Rightarrow> 'f json \<Rightarrow> 's hub \<Rightarrow> bool" where
  "message_allowed S chat args h \<longleftrightarrow>
     (let target = or_empty (json_str ''sessionId'' args)
      in target \<noteq> [] \<and> ms_parent_of S (hb_store h) target = Some chat
         \<and> trim (or_empty (json_str ''message'' args)) \<noteq> [])"

definition message_body :: "'f json \<Rightarrow> mail_body" where
  "message_body args =
     \<lparr>mb_text = trim (or_empty (json_str ''message'' args)), mb_deliver = Deliver_Prompt, mb_title = None\<rparr>"

lemma call_start_refused:
  assumes "\<not> start_allowed S chat args h"
  shows "\<exists>r n. call_start S C now chat args h = (r, [], h\<lparr>hb_ids := n\<rparr>)"
proof -
  have "fst (snd (call_start S C now chat args h)) = []
      \<and> snd (snd (call_start S C now chat args h)) \<in> {h\<lparr>hb_ids := hb_ids h\<rparr>, h\<lparr>hb_ids := hb_ids h + 1\<rparr>}"
    using assms unfolding start_allowed_def call_start_def hub_next_id_def Let_def prod.case
    by (simp add: not_less del: not_None_eq; blast)
  then obtain n where "call_start S C now chat args h = (fst (call_start S C now chat args h), [], h\<lparr>hb_ids := n\<rparr>)"
    by (metis insertE prod.collapse singletonD)
  then show ?thesis by blast
qed

lemma call_start_starts:
  assumes "start_allowed S chat args h"
  shows "\<exists>r. call_start S C now chat args h =
     (r, case hub_start_session S C now chat (start_spec args) h of
           (Inl _, h') \<Rightarrow> ([], h') | (Inr (_, es), h') \<Rightarrow> (es, h'))"
  using assms unfolding start_allowed_def call_start_def start_spec_def Let_def
  by (cases "hub_start_session S C now chat (start_spec args) h")
    (auto simp: start_spec_def split: sum.split)

lemma call_message_refused:
  "\<not> message_allowed S chat args h \<Longrightarrow> \<exists>r. call_message S C now chat args h = (r, [], h)"
  unfolding message_allowed_def call_message_def Let_def by auto

lemma call_message_posts:
  "message_allowed S chat args h \<Longrightarrow>
     \<exists>r. call_message S C now chat args h =
       (r, hub_post S C now chat (or_empty (json_str ''sessionId'' args)) (message_body args) h)"
  unfolding message_allowed_def call_message_def Let_def message_body_def by (auto simp: split_beta)

text \<open>The answer to a call, and the call itself.\<close>

definition session_call ::
  "'s mail_store_ops \<Rightarrow> 'f mesh_codecs \<Rightarrow> int \<Rightarrow> string \<Rightarrow> string \<Rightarrow> 'f json \<Rightarrow> 's hub
     \<Rightarrow> 'f json \<times> 'f hub_effect list \<times> 's hub" where
  "session_call S C now chat name args h =
     (if name = ''start_session'' then call_start S C now chat args h
      else if name = ''message_session'' then call_message S C now chat args h
      else (call_list S C chat h, [], h))"

definition call_args :: "'f json \<Rightarrow> 'f json" where
  "call_args line = (case json_get ''arguments'' line of None \<Rightarrow> JNull | Some a \<Rightarrow> a)"

lemma on_tool_call_eq:
  assumes "json_str ''toolName'' line = Some name" "json_str ''requestId'' line = Some q" "is_session_tool name"
  shows "\<exists>answer. on_tool_call S C now chat line h =
     (let (r, es, h') = session_call S C now chat name (call_args line) h
      in (Effect_Send chat answer # es, snd (hub_next_id ''hub'' h')))"
  using assms by (simp add: on_tool_call_def session_call_def call_args_def Let_def split_beta)

lemma on_tool_call_other:
  assumes "json_str ''toolName'' line = None \<or> json_str ''requestId'' line = None
     \<or> \<not> is_session_tool (the (json_str ''toolName'' line))"
  shows "on_tool_call S C now chat line h = ([], h)"
  using assms by (auto simp: on_tool_call_def split: option.split)

lemma next_id_frame [simp]:
  "hb_store (snd (hub_next_id p h)) = hb_store h" "hb_engines (snd (hub_next_id p h)) = hb_engines h"
  "hb_in_flight (snd (hub_next_id p h)) = hb_in_flight h" "hb_seen (snd (hub_next_id p h)) = hb_seen h"
  by (simp_all add: hub_next_id_def)

text \<open>Every call of a session tool does one of three things to the hub.\<close>

lemma tool_call_cases:
  obtains (quiet) r n where "session_call S C now chat name args h = (r, [], h\<lparr>hb_ids := n\<rparr>)"
  | (starts) r x h' where "name = ''start_session''" "start_allowed S chat args h"
      "hub_start_session S C now chat (start_spec args) h = (x, h')"
      "session_call S C now chat name args h = (r, case x of Inl _ \<Rightarrow> [] | Inr (_, es) \<Rightarrow> es, h')"
  | (posts) r where "name = ''message_session''" "message_allowed S chat args h"
      "session_call S C now chat name args h =
        (r, hub_post S C now chat (or_empty (json_str ''sessionId'' args)) (message_body args) h)"
proof (cases "name = ''start_session''")
  case start: True
  show thesis
  proof (cases "start_allowed S chat args h")
    case True
    obtain x h' where run: "hub_start_session S C now chat (start_spec args) h = (x, h')" by fastforce
    obtain r where "call_start S C now chat args h = (r, case (x, h') of
        (Inl _, h') \<Rightarrow> ([], h') | (Inr (_, es), h') \<Rightarrow> (es, h'))"
      using call_start_starts [OF True, of C now] unfolding run by blast
    then have "session_call S C now chat name args h = (r, case x of Inl _ \<Rightarrow> [] | Inr (_, es) \<Rightarrow> es, h')"
      using start by (auto simp: session_call_def split: sum.split)
    then show thesis using starts start True run by blast
  next
    case False
    then show thesis
      using call_start_refused [OF False, of C now] start quiet by (auto simp: session_call_def)
  qed
next
  case other: False
  have same: "h = h\<lparr>hb_ids := hb_ids h\<rparr>" by simp
  show thesis
  proof (cases "name = ''message_session'' \<and> message_allowed S chat args h")
    case True
    then show thesis using call_message_posts [of S chat args h C now] posts other by (auto simp: session_call_def)
  next
    case False
    then have "\<exists>r. session_call S C now chat name args h = (r, [], h)"
      using call_message_refused [of S chat args h C now] other by (auto simp: session_call_def)
    then show thesis using quiet same by metis
  qed
qed

text \<open>
  A call of a session tool does nothing but answer, unless it is allowed to: only a top-level chat
  starts a session, with a title and a prompt, fewer than eight of its sessions running and the
  automatic start on; only the chat that started a session sends it a message. Otherwise the store,
  the engines, the mail in flight and the reports seen stay as they are, and no other effect leaves
  the hub.
\<close>

theorem tool_calls_guarded:
  assumes "on_tool_call S C now chat line h = (es, h')"
    and "json_str ''toolName'' line = Some name"
    and "\<not> (name = ''start_session'' \<and> start_allowed S chat (call_args line) h)"
    and "\<not> (name = ''message_session'' \<and> message_allowed S chat (call_args line) h)"
  shows "hb_store h' = hb_store h \<and> hb_engines h' = hb_engines h \<and> hb_in_flight h' = hb_in_flight h
     \<and> hb_seen h' = hb_seen h \<and> (es = [] \<or> (\<exists>answer. es = [Effect_Send chat answer]))"
proof (cases "json_str ''requestId'' line \<noteq> None \<and> is_session_tool name")
  case True
  then obtain q where q: "json_str ''requestId'' line = Some q" and tool: "is_session_tool name" by blast
  obtain r n where "session_call S C now chat name (call_args line) h = (r, [], h\<lparr>hb_ids := n\<rparr>)"
    by (rule tool_call_cases [of S C now chat name "call_args line" h]) (use assms(3,4) in blast)+
  moreover obtain answer where "on_tool_call S C now chat line h =
      (let (r, es, h') = session_call S C now chat name (call_args line) h
       in (Effect_Send chat answer # es, snd (hub_next_id ''hub'' h')))"
    using on_tool_call_eq [OF assms(2) q tool] by blast
  ultimately show ?thesis using assms(1) by auto
next
  case False
  then have "on_tool_call S C now chat line h = ([], h)"
    using assms(2) on_tool_call_other [of line S C now chat h] by auto
  then show ?thesis using assms(1) by simp
qed

subsection \<open>Durable delivery\<close>

text \<open>The lines with which an engine accepts the mail \<open>i\<close>.\<close>

definition accepts_mail :: "string \<Rightarrow> 'f json \<Rightarrow> bool" where
  "accepts_mail i line \<longleftrightarrow>
     json_str ''type'' line = Some ''response'' \<and> json_str ''id'' line = Some i \<and> json_flag ''success'' line
     \<or> json_str ''type'' line = Some wire_type \<and> json_str ''kind'' line = Some ''res''
       \<and> json_str ''corr'' line = Some i \<and> Option.bind (json_get ''body'' line) (json_get ''error'') = None"

lemma with_engine_frame [simp]:
  "hb_store (with_engine c f h) = hb_store h" "hb_in_flight (with_engine c f h) = hb_in_flight h"
  "hb_seen (with_engine c f h) = hb_seen h"
  "hb_engines (with_engine c f h) = (hb_engines h)(c := f (hb_engines h c))"
  by (simp_all add: with_engine_def)

lemma on_dialog_frame [simp]:
  "hb_store (on_dialog f c line h) = hb_store h" "hb_in_flight (on_dialog f c line h) = hb_in_flight h"
  "hb_seen (on_dialog f c line h) = hb_seen h" "same_setup h (on_dialog f c line h)"
  by (simp_all add: on_dialog_def same_setup_def split: option.split)

text \<open>The answers to mail, whichever line carries them.\<close>

definition answer_of :: "'f json \<Rightarrow> (string \<times> bool) option" where
  "answer_of line =
     (if json_str ''type'' line = Some ''response''
      then map_option (\<lambda>i. (i, json_flag ''success'' line)) (json_str ''id'' line)
      else if json_str ''type'' line = Some wire_type \<and> json_str ''kind'' line = Some ''res''
      then map_option (\<lambda>i. (i, Option.bind (json_get ''body'' line) (json_get ''error'') = None))
             (json_str ''corr'' line)
      else None)"

lemma answer_of_accepts: "answer_of line = Some (i, True) \<longleftrightarrow> accepts_mail i line"
  by (auto simp: answer_of_def accepts_mail_def wire_type_def)

lemma answered_frame:
  "hb_in_flight (answered S i d h) = (hb_in_flight h)(i := None)" "hb_engines (answered S i d h) = hb_engines h"
  "hb_store (answered S i d h) =
     (if hb_in_flight h i \<noteq> None \<and> d then ms_mark_delivered S (hb_store h) i else hb_store h)"
  "hb_seen (answered S i d h) = hb_seen h"
  by (simp_all add: answered_def Let_def)

text \<open>What a line can do, by its type.\<close>

lemma on_line_cases:
  obtains (flush) f where
      "on_line S C now chat line h = flush S C chat (with_engine chat f h)"
      "\<And>e. en_hosted (f e) = en_hosted e" "\<And>e. en_ready e \<longrightarrow> en_ready (f e)"
  | (quiet) h' where "on_line S C now chat line h = ([], h')" "same_setup h h'" "hb_store h' = hb_store h"
      "hb_in_flight h' = hb_in_flight h" "hb_seen h' = hb_seen h"
  | (answer) h' i d where "on_line S C now chat line h = ([], answered S i d h')" "answer_of line = Some (i, d)"
      "same_setup h h'" "hb_store h' = hb_store h" "hb_in_flight h' = hb_in_flight h" "hb_seen h' = hb_seen h"
  | (tool) name args answer r es h' where
      "session_call S C now chat name args h = (r, es, h')"
      "on_line S C now chat line h = (Effect_Send chat answer # es, snd (hub_next_id ''hub'' h'))"
  | (report) rep where "json_str ''type'' line = Some wire_type" "json_str ''kind'' line = Some ''evt''"
      "json_str ''op'' line = Some ''node_report''" "own_report C chat line = Some rep"
      "on_line S C now chat line h = note_report S C now chat rep h"
proof (cases "json_str ''type'' line")
  case None
  then show thesis using quiet [of h] by (simp add: on_line_def)
next
  case (Some t)
  consider "t = ''ready''" | "t = ''agent_start''" | "t = ''agent_settled''" | "t = ''ui_dialog_request''"
    | "t = ''ui_dialog_closed''" | "t = ''response''" | "t = ''external_tool_request''" | "t = wire_type"
    | (none) "t \<notin> {''ready'', ''agent_start'', ''agent_settled'', ''ui_dialog_request'',
        ''ui_dialog_closed'', ''response'', ''external_tool_request'', wire_type}"
    unfolding insert_iff empty_iff by satx
  then show thesis
  proof cases
    case 1
    then show thesis using Some flush [of "\<lambda>e. e\<lparr>en_ready := True\<rparr>"] by (simp add: on_line_def)
  next
    case 2
    then show thesis using Some quiet [of "with_engine chat (\<lambda>e. e\<lparr>en_busy := True\<rparr>) h"]
      by (simp add: on_line_def same_setup_def)
  next
    case 3
    then show thesis using Some flush [of "\<lambda>e. e\<lparr>en_busy := False\<rparr>"] by (simp add: on_line_def)
  next
    case 4
    then show thesis using Some quiet [of "on_dialog insert chat line h"] by (simp add: on_line_def)
  next
    case 5
    then show thesis using Some quiet [of "on_dialog (\<lambda>i ws. ws - {i}) chat line h"] by (simp add: on_line_def)
  next
    case 6
    show thesis
    proof (cases "json_str ''id'' line")
      case None
      then show thesis using Some 6 quiet [of h] by (simp add: on_line_def on_response_def)
    next
      case id: (Some i)
      then show thesis
        using Some 6 answer [of i "json_flag ''success'' line" "if hb_in_flight h i \<noteq> None \<and> \<not> json_flag ''success'' line
            then with_engine chat (\<lambda>e. e\<lparr>en_busy := en_busy e \<or> line_says_busy line\<rparr>) h else h"]
        by (simp add: on_line_def on_response_def answer_of_def same_setup_def Let_def)
    qed
  next
    case 7
    then have line: "on_line S C now chat line h = on_tool_call S C now chat line h"
      using Some by (simp add: on_line_def)
    show thesis
    proof (cases "json_str ''toolName'' line = None \<or> json_str ''requestId'' line = None
        \<or> \<not> is_session_tool (the (json_str ''toolName'' line))")
      case True
      then show thesis using quiet [of h] line on_tool_call_other [OF True, of S C now chat h] by simp
    next
      case False
      then obtain name q where "json_str ''toolName'' line = Some name" "json_str ''requestId'' line = Some q"
        "is_session_tool name" by auto
      from on_tool_call_eq [OF this, of S C now chat h] show thesis
        unfolding line [symmetric]
        by (cases "session_call S C now chat name (call_args line) h") (auto intro: tool)
    qed
  next
    case 8
    then have line: "on_line S C now chat line h = on_envelope S C now chat line h"
      using Some by (simp add: on_line_def wire_type_def)
    show thesis
    proof (cases "json_str ''kind'' line = Some ''evt'' \<and> json_str ''op'' line = Some ''node_report''")
      case True
      then show thesis
        using line Some 8 quiet [of h] report by (cases "own_report C chat line") (auto simp: on_envelope_def)
    next
      case False
      then show thesis
        using line Some 8 quiet [of h] answer [of _ _ h]
        by (auto simp: on_envelope_def answer_of_def wire_type_def Let_def split: option.splits if_splits)
    qed
  next
    case none
    then show thesis using Some quiet [of h] by (simp add: on_line_def)
  qed
qed

text \<open>Remembering a report, and what a report does.\<close>

definition remember :: "string \<Rightarrow> string \<Rightarrow> 's hub \<Rightarrow> 's hub" where
  "remember chat i h =
     (let seen = hb_seen h chat @ [i]
      in h\<lparr>hb_seen := (hb_seen h)(chat := drop (length seen - seen_reports) seen)\<rparr>)"

lemma remember_frame [simp]:
  "hb_store (remember chat i h) = hb_store h" "hb_engines (remember chat i h) = hb_engines h"
  "hb_in_flight (remember chat i h) = hb_in_flight h" "same_setup h (remember chat i h)"
  by (simp_all add: remember_def Let_def same_setup_def)

lemma remember_seen: "i \<in> set (hb_seen (remember chat i h) chat)"
  by (simp add: remember_def Let_def seen_reports_def)

lemma note_report_cases:
  obtains (old) "fst rep \<in> set (hb_seen h chat)" "note_report S C now chat rep h = ([], h)"
  | (quiet) "fst rep \<notin> set (hb_seen h chat)" "ms_parent_of S (hb_store h) chat = None"
      "note_report S C now chat rep h = ([], remember chat (fst rep) h)"
  | (posts) parent body where "fst rep \<notin> set (hb_seen h chat)" "ms_parent_of S (hb_store h) chat = Some parent"
      "mb_deliver body = Deliver_Wake"
      "note_report S C now chat rep h = hub_post S C now chat parent body (remember chat (fst rep) h)"
proof (cases rep)
  case (fields i status msg)
  show thesis
  proof (cases "i \<in> set (hb_seen h chat)")
    case True
    then show thesis using old fields by (simp add: note_report_def)
  next
    case new: False
    show thesis
    proof (cases "ms_parent_of S (hb_store h) chat")
      case None
      then show thesis using quiet fields new by (simp add: note_report_def remember_def Let_def)
    next
      case (Some parent)
      let ?title = "or_empty (ms_title_of S (hb_store h) chat)"
      show thesis
        using posts [of parent "\<lparr>mb_text = session_note chat ?title status msg, mb_deliver = Deliver_Wake,
            mb_title = Some ?title\<rparr>"] fields new Some
        by (simp add: note_report_def remember_def Let_def)
    qed
  qed
qed

context mail_store
begin

lemma tool_call_pending:
  assumes "session_call S C now chat name args h = (r, es, h')"
  shows "set (ms_pending S (hb_store h) c) \<subseteq> set (ms_pending S (hb_store h') c)"
proof (rule tool_call_cases [of S C now chat name args h])
  show ?thesis if "session_call S C now chat name args h = (r', [], h\<lparr>hb_ids := n\<rparr>)" for r' n
    using that assms by auto
  show ?thesis if "hub_start_session S C now chat (start_spec args) h = (x, g)"
      "session_call S C now chat name args h = (r', case x of Inl _ \<Rightarrow> [] | Inr (_, es) \<Rightarrow> es, g)" for r' x g
    using that assms start_session_pending [OF that(1), of c] by auto
  show ?thesis if "session_call S C now chat name args h =
      (r', hub_post S C now chat (or_empty (json_str ''sessionId'' args)) (message_body args) h)" for r'
    using that assms(1) [symmetric] post_pending [of h c C now chat "or_empty (json_str ''sessionId'' args)" "message_body args"]
    by (cases "hub_post S C now chat (or_empty (json_str ''sessionId'' args)) (message_body args) h") simp
qed

lemma note_report_pending:
  "set (ms_pending S (hb_store h) c) \<subseteq> set (ms_pending S (hb_store (snd (note_report S C now chat rep h))) c)"
proof (rule note_report_cases [of rep h chat S C now])
  show ?thesis if "note_report S C now chat rep h = hub_post S C now chat p body (remember chat (fst rep) h)"
    for p body
    using that post_pending [of "remember chat (fst rep) h" c C now chat p body] by simp
qed simp_all

text \<open>Mail stops being pending in one way only.\<close>

lemma on_line_pending:
  assumes "m \<in> set (ms_pending S (hb_store h) c)" "m \<notin> set (ms_pending S (hb_store (snd (on_line S C now chat line h))) c)"
  shows "accepts_mail (mail_id m) line \<and> hb_in_flight h (mail_id m) \<noteq> None
    \<and> hb_in_flight (snd (on_line S C now chat line h)) (mail_id m) = None"
proof (rule on_line_cases [of S C now chat line h])
  show ?thesis if "on_line S C now chat line h = flush S C chat (with_engine chat f h)" for f
    using that assms by (simp add: flush_pending)
  show ?thesis if "on_line S C now chat line h = ([], h')" "hb_store h' = hb_store h" for h'
    using that assms by simp
  show ?thesis if "on_line S C now chat line h = ([], answered S i d h')" "answer_of line = Some (i, d)"
      "hb_store h' = hb_store h" "hb_in_flight h' = hb_in_flight h" for h' i d
    using that assms by (auto simp: answered_frame mark_delivered answer_of_accepts [symmetric] split: if_splits)
  show ?thesis if "session_call S C now chat name args h = (r, es, h')"
      "on_line S C now chat line h = (Effect_Send chat answer # es, snd (hub_next_id ''hub'' h'))"
    for name args answer r es h'
    using that(2) assms tool_call_pending [OF that(1), of c] by auto
  show ?thesis if "on_line S C now chat line h = note_report S C now chat rep h" for rep
    using that assms note_report_pending [of h c C now chat rep] by auto
qed

lemma step_pending:
  assumes "hub_step S C i h = (es, h')"
    and "m \<in> set (ms_pending S (hb_store h) c)" "m \<notin> set (ms_pending S (hb_store h') c)"
  shows "\<exists>now chat line. i = In_Line now chat line \<and> accepts_mail (mail_id m) line
    \<and> hb_in_flight h (mail_id m) \<noteq> None \<and> hb_in_flight h' (mail_id m) = None"
proof (cases i)
  case (In_StartSession now p spec)
  then show ?thesis
    using assms start_session_pending [of C now p spec h _ h' c]
    by (auto split: prod.splits sum.splits)
next
  case (In_Line now chat line)
  then show ?thesis using assms on_line_pending [of m h c C now chat line] by auto
next
  case (In_Post now a b body)
  then show ?thesis using assms post_pending [of h c C now a b body] by auto
next
  case (In_Hosted chat)
  then show ?thesis using assms by (auto simp: on_hosted_def prod_eq_iff flush_pending)
qed (use assms in \<open>auto simp: set_auto_start_def on_start_def on_exit_def Let_def\<close>)

end

text \<open>
  C34. Mail is never lost: whatever the host does to the hub, a pending mail stops being pending only
  when an engine accepts it, with a successful response or an answer without an error that names the
  mail, while the mail is in flight; the mail is no longer in flight then.
\<close>

theorem mail_pending_until_accepted:
  assumes "mail_store S" and "hub_step S C i h = (es, h')"
    and "m \<in> set (ms_pending S (hb_store h) c)" and "m \<notin> set (ms_pending S (hb_store h') c)"
  shows "\<exists>now chat line. i = In_Line now chat line \<and> accepts_mail (mail_id m) line
     \<and> hb_in_flight h (mail_id m) \<noteq> None \<and> hb_in_flight h' (mail_id m) = None"
  by (rule mail_store.step_pending [OF assms])

subsection \<open>The invariant of the hub\<close>

definition hub_inv :: "'s hub \<Rightarrow> bool" where
  "hub_inv h \<longleftrightarrow>
     (\<forall>c. en_hosted (hb_engines h c) \<longrightarrow> en_ready (hb_engines h c))
     \<and> (\<forall>i c. hb_in_flight h i = Some c \<longrightarrow> en_ready (hb_engines h c))
     \<and> (\<forall>c. length (hb_seen h c) \<le> seen_reports \<and> distinct (hb_seen h c))"

lemma hub_inv_mono:
  assumes "hub_inv h" "same_setup h h'" "hb_seen h' = hb_seen h"
    "\<And>i c. hb_in_flight h' i = Some c \<Longrightarrow> hb_in_flight h i = Some c \<or> en_ready (hb_engines h c)"
  shows "hub_inv h'"
  using assms unfolding hub_inv_def same_setup_def by metis

lemma can_take_ready: "hub_inv h \<Longrightarrow> can_take h m \<Longrightarrow> en_ready (hb_engines h (mail_to m))"
  by (auto simp: hub_inv_def can_take_def split: if_splits)

lemma hub_inv_send: "hub_inv h \<Longrightarrow> can_take h m \<Longrightarrow> hub_inv (snd (hub_send C m h))"
  by (rule hub_inv_mono [of h]) (auto simp: hub_send_frame can_take_ready split: if_splits)

lemma hub_inv_send_each: "hub_inv h \<Longrightarrow> hub_inv (snd (send_each C ms h))"
proof (induction ms arbitrary: h)
  case (Cons m ms)
  then show ?case using hub_inv_send [of h m C] by (simp add: send_each_Cons del: send_each.simps)
qed simp

lemma hub_inv_flush: "hub_inv h \<Longrightarrow> hub_inv (snd (flush S C c h))"
  by (simp add: flush_def hub_inv_send_each)

lemma hub_inv_post:
  assumes "hub_inv h"
  shows "hub_inv (snd (hub_post S C now from to body h))"
proof -
  let ?m = "posted_mail now from to body h"
  have "hub_inv (with_mail S ?m h)" by (rule hub_inv_mono [OF assms]) simp_all
  then show ?thesis using hub_inv_send [of "with_mail S ?m h" ?m C] by (simp add: hub_post_eq Let_def)
qed

lemma hub_inv_start_session:
  assumes "hub_inv h" "hub_start_session S C now p spec h = (r, h')"
  shows "hub_inv h'"
proof -
  have keep: "hub_inv (h\<lparr>hb_store := s\<rparr>)" for s
    by (rule hub_inv_mono [OF assms(1)]) (simp_all add: same_setup_def)
  obtain s x where create: "ms_create_session S (hb_store h) p spec = (s, x)" by fastforce
  show ?thesis
    using assms(2) keep [of s] hub_inv_post [OF keep]
    by (cases x) (auto simp: hub_start_session_def create Let_def split_beta)
qed

lemma hub_inv_tool_call:
  assumes "hub_inv h" "session_call S C now chat name args h = (r, es, h')"
  shows "hub_inv h'"
proof (rule tool_call_cases [of S C now chat name args h])
  show ?thesis if "session_call S C now chat name args h = (r', [], h\<lparr>hb_ids := n\<rparr>)" for r' n
    using that assms(2) by (auto intro!: hub_inv_mono [OF assms(1)] simp: same_setup_def)
  show ?thesis if "hub_start_session S C now chat (start_spec args) h = (x, g)"
      "session_call S C now chat name args h = (r', case x of Inl _ \<Rightarrow> [] | Inr (_, es) \<Rightarrow> es, g)" for r' x g
    using that(2) assms(2) hub_inv_start_session [OF assms(1) that(1)] by simp
  show ?thesis if "session_call S C now chat name args h =
      (r', hub_post S C now chat (or_empty (json_str ''sessionId'' args)) (message_body args) h)" for r'
    using that assms(2) hub_inv_post [OF assms(1)] by (metis Pair_inject snd_conv)
qed

lemma hub_inv_remember:
  assumes "hub_inv h" "i \<notin> set (hb_seen h chat)"
  shows "hub_inv (remember chat i h)"
proof -
  have "distinct (drop n (hb_seen h chat @ [i]))" for n
    using assms by (intro distinct_drop) (simp add: hub_inv_def)
  then show ?thesis
    using assms(1) by (auto simp: hub_inv_def remember_def Let_def seen_reports_def simp del: drop_append)
qed

lemma hub_inv_line:
  assumes "hub_inv h"
  shows "hub_inv (snd (on_line S C now chat line h))"
proof (rule on_line_cases [of S C now chat line h])
  show ?thesis if "on_line S C now chat line h = flush S C chat (with_engine chat f h)"
    "\<And>e. en_hosted (f e) = en_hosted e" "\<And>e. en_ready e \<longrightarrow> en_ready (f e)" for f
  proof -
    have "hub_inv (with_engine chat f h)" using assms that(2,3) by (simp add: hub_inv_def)
    then show ?thesis using that(1) hub_inv_flush by simp
  qed
  show ?thesis if "on_line S C now chat line h = ([], h')" "same_setup h h'" "hb_in_flight h' = hb_in_flight h"
      "hb_seen h' = hb_seen h" for h'
    using that by (auto intro: hub_inv_mono [OF assms])
  show ?thesis if "on_line S C now chat line h = ([], answered S i d h')" "same_setup h h'"
      "hb_in_flight h' = hb_in_flight h" "hb_seen h' = hb_seen h" for h' i d
  proof -
    have "hub_inv (answered S i d h')"
      by (rule hub_inv_mono [OF assms]) (use that in \<open>simp_all add: answered_frame same_setup_def split: if_splits\<close>)
    then show ?thesis using that(1) by simp
  qed
  show ?thesis if "session_call S C now chat name args h = (r, es, h')"
      "on_line S C now chat line h = (Effect_Send chat answer # es, snd (hub_next_id ''hub'' h'))"
    for name args answer r es h'
  proof -
    have "hub_inv (snd (hub_next_id ''hub'' h'))"
      by (rule hub_inv_mono [OF hub_inv_tool_call [OF assms that(1)]]) (simp_all add: same_setup_def)
    then show ?thesis using that(2) by simp
  qed
  show ?thesis if "on_line S C now chat line h = note_report S C now chat rep h" for rep
    by (rule note_report_cases [of rep h chat S C now])
      (simp_all add: that assms hub_inv_post hub_inv_remember)
qed

lemma hub_inv_on_start: "hub_inv h \<Longrightarrow> hub_inv (on_start chat h)"
  by (auto simp: hub_inv_def on_start_def engine_default_def)

lemma hub_inv_step:
  assumes "hub_inv h" "hub_step S C i h = (es, h')"
  shows "hub_inv h'"
proof (cases i)
  case (In_StartSession now p spec)
  then show ?thesis
    using assms hub_inv_start_session [OF assms(1), of S C now p spec] by (auto split: prod.splits sum.splits)
next
  case (In_Line now chat line)
  then show ?thesis using assms hub_inv_line [OF assms(1), of S C now chat line] by simp
next
  case (In_Post now a b body)
  then show ?thesis using assms hub_inv_post [OF assms(1), of S C now a b body] by simp
next
  case (In_Hosted chat)
  have "hub_inv (with_engine chat (\<lambda>e. e\<lparr>en_ready := True, en_hosted := True\<rparr>) h)"
    using assms(1) by (simp add: hub_inv_def)
  then show ?thesis using In_Hosted assms(2) hub_inv_flush by (metis hub_step.simps(4) on_hosted_def snd_conv)
next
  case (In_AutoStart on)
  then show ?thesis using assms by (auto simp: set_auto_start_def hub_inv_def)
qed (use assms hub_inv_on_start in \<open>auto simp: on_exit_def Let_def\<close>)

lemma hub_inv_run: "hub_run S C h h' \<Longrightarrow> hub_inv h \<Longrightarrow> hub_inv h'"
  by (induction rule: hub_run.induct) (auto intro: hub_inv_step)

text \<open>
  C35. In every state a hub reaches from its creation, whatever lines, exits, restarts, posts and
  tool calls come in whatever order: an engine that was set up by a window is ready, mail is in
  flight only to an engine that is ready (so nothing waits for an answer of an engine that has
  exited), and at most 256 distinct reports of a chat are remembered.
\<close>

theorem reachable_hub_inv:
  assumes "hub_run S C (hub_new now s) h"
  shows "hub_inv h"
  by (rule hub_inv_run [OF assms]) (simp add: hub_inv_def hub_new_def engine_default_def)

text \<open>
  The mark \<open>busy\<close> of a prompt that was sent is not taken back when the engine refuses the prompt: only
  \<open>agent_settled\<close> or a restart clears it.
\<close>

lemma refused_prompt_stays_busy: "is_busy h c \<Longrightarrow> is_busy (on_response S chat line h) c"
  by (auto simp: on_response_def is_busy_def answered_frame Let_def split: option.split)

subsection \<open>Replays, flushes and restarts\<close>

lemma on_line_report:
  assumes "json_str ''type'' line = Some wire_type" "json_str ''kind'' line = Some ''evt''"
    "json_str ''op'' line = Some ''node_report''" "own_report C chat line = Some rep"
  shows "on_line S C now chat line h = note_report S C now chat rep h"
  using assms by (simp add: on_line_def on_envelope_def wire_type_def)

lemma note_report_remembers: "fst rep \<in> set (hb_seen (snd (note_report S C now chat rep h)) chat)"
  by (rule note_report_cases [of rep h chat S C now]) (simp_all add: hub_post_frame remember_seen)

lemma note_report_again: "fst rep \<in> set (hb_seen h chat) \<Longrightarrow> note_report S C now chat rep h = ([], h)"
  by (rule note_report_cases [of rep h chat S C now]) simp_all

text \<open>
  A report that passes by again, as an engine replays it to each new subscriber, changes nothing
  and has no effect, also after the engine restarted: the parent gets one note for each turn.
\<close>

theorem replayed_report_ignored:
  assumes "json_str ''type'' line = Some wire_type" and "json_str ''kind'' line = Some ''evt''"
    and "json_str ''op'' line = Some ''node_report''" and "own_report C chat line = Some rep"
    and "on_line S C now chat line h = (es, h1)"
  shows "on_line S C now' chat line h1 = ([], h1)
     \<and> on_line S C now' chat line (on_start chat h1) = ([], on_start chat h1)"
proof -
  have "fst rep \<in> set (hb_seen h1 chat)"
    using assms(5) note_report_remembers [of rep S C now chat h] by (simp add: on_line_report [OF assms(1-4)])
  then show ?thesis
    by (simp add: on_line_report [OF assms(1-4)] note_report_again on_start_def)
qed

text \<open>
  A flush sends, in the order of the store, exactly the pending mail of the chat that is not in
  flight and that its engine can take, and all of it is in flight afterwards. A prompt goes out as a
  prompt to an idle engine and as a steering message once the engine runs, so at most one turn is
  announced: that of the first prompt, if the engine was idle.
\<close>

theorem flush_sends:
  assumes "mail_store S" and "flush S C c h = (es, h')"
    and "ms = filter (\<lambda>m. hb_in_flight h (mail_id m) = None \<and> can_take h m) (ms_pending S (hb_store h) c)"
  shows "filter is_send es =
       map (\<lambda>k. Effect_Send c (mail_line C (en_busy (hb_engines h c) \<or> (\<exists>m \<in> set (take k ms). is_prompt m)) (ms ! k)))
         [0..<length ms]
     \<and> filter is_prompted es =
       (case filter is_prompt ms of
          m # _ \<Rightarrow> if en_busy (hb_engines h c) then [] else [Effect_Prompted c (mb_text (mail_content m))]
        | [] \<Rightarrow> [])
     \<and> hb_in_flight h' = hb_in_flight h ++ map_of (rev (map (\<lambda>m. (mail_id m, c)) ms))
     \<and> hb_store h' = hb_store h"
proof -
  have to_c: "\<forall>m \<in> set ms. mail_to m = c"
    unfolding assms(3) by (rule mail_store.flush_to [OF assms(1)])
  have run: "es = fst (send_all C ms h)" "h' = snd (send_all C ms h)"
    using assms(2) mail_store.flush_eq [OF assms(1), of C c h] by (simp_all add: assms(3))
  have same: "map (\<lambda>m. (mail_id m, mail_to m)) ms = map (\<lambda>m. (mail_id m, c)) ms"
    using to_c by simp
  show ?thesis
    unfolding run send_all_sends [OF to_c, of C h] send_all_prompted [OF to_c, of C h]
    using send_all_frame [of h C ms] unfolding same by blast
qed

lemma map_of_rev_const:
  assumes "x \<in> set xs" "\<forall>y \<in> set xs. g y = c"
  shows "map_of (rev (map (\<lambda>y. (f y, g y)) xs)) (f x) = Some c"
proof -
  let ?ys = "rev (map (\<lambda>y. (f y, g y)) xs)"
  have "f x \<in> fst ` set ?ys" using assms(1) by force
  then obtain y where "map_of ?ys (f x) = Some y" by (metis map_of_eq_None_iff not_None_eq)
  moreover from map_of_SomeD [OF this] have "y = c" using assms(2) by auto
  ultimately show ?thesis by simp
qed

context mail_store
begin

lemma flush_in_flight:
  assumes "m \<in> set (ms_pending S (hb_store h) c)" "can_take h m" "hb_in_flight h (mail_id m) = None"
  shows "hb_in_flight (snd (flush S C c h)) (mail_id m) = Some c"
proof -
  define ms where "ms = filter (\<lambda>m. hb_in_flight h (mail_id m) = None \<and> can_take h m) (ms_pending S (hb_store h) c)"
  have "m \<in> set ms" using assms by (simp add: ms_def)
  moreover have "\<forall>m \<in> set ms. mail_to m = c" using pending_to by (auto simp: ms_def)
  ultimately have "map_of (rev (map (\<lambda>m. (mail_id m, mail_to m)) ms)) (mail_id m) = Some c"
    by (rule map_of_rev_const)
  then show ?thesis
    using send_all_frame [of h C ms] by (simp add: flush_eq ms_def [symmetric])
qed

lemma flush_effect:
  assumes "m \<in> set (ms_pending S (hb_store h) c)" "can_take h m" "hb_in_flight h (mail_id m) = None"
  shows "\<exists>busy. Effect_Send c (mail_line C busy m) \<in> set (fst (flush S C c h))"
proof -
  define ms where "ms = filter (\<lambda>m. hb_in_flight h (mail_id m) = None \<and> can_take h m) (ms_pending S (hb_store h) c)"
  have "m \<in> set ms" using assms by (simp add: ms_def)
  then obtain k where k: "k < length ms" "ms ! k = m" by (auto simp: in_set_conv_nth)
  have "\<forall>m \<in> set ms. mail_to m = c" using pending_to by (auto simp: ms_def)
  from send_all_sends [OF this, of C h] k
  have "Effect_Send c (mail_line C (en_busy (hb_engines h c) \<or> (\<exists>m \<in> set (take k ms). is_prompt m)) m)
      \<in> set (filter is_send (fst (send_all C ms h)))" by auto
  then show ?thesis by (auto simp: flush_eq ms_def [symmetric])
qed

lemma restart_facts:
  fixes C :: "'f mesh_codecs"
  assumes "on_exit S chat h = (es1, h1)" "on_hosted S C chat h1 = (es2, h2)"
    and "m \<in> set (ms_pending S (hb_store h) chat)" "hb_in_flight h (mail_id m) \<in> {None, Some chat}"
  shows "es1 = [Effect_Host chat None True] \<and> hb_in_flight h2 (mail_id m) = Some chat
    \<and> (\<exists>busy. Effect_Send chat (mail_line C busy m) \<in> set es2)
    \<and> m \<in> set (ms_pending S (hb_store h2) chat)"
proof -
  let ?g = "with_engine chat (\<lambda>e. e\<lparr>en_ready := True, en_hosted := True\<rparr>) h1"
  have h1: "h1 = on_start chat h" "es1 = [Effect_Host chat None True]"
    using assms(1,3) by (auto simp: on_exit_def on_start_def Let_def split: if_splits)
  have pend: "m \<in> set (ms_pending S (hb_store ?g) chat)" using assms(3) by (simp add: h1 on_start_def)
  have "can_take ?g m" using pending_to [OF assms(3)] by (simp add: can_take_def)
  moreover have "hb_in_flight ?g (mail_id m) = None" using assms(4) by (auto simp: h1 on_start_def)
  ultimately show ?thesis
    using assms(2) h1(2) pend flush_in_flight [OF pend, of C] flush_effect [OF pend, of C] flush_pending [of C chat ?g]
    by (simp add: on_hosted_def)
qed

end

text \<open>
  After an engine exits, mail its chat has not accepted is asked for and sent again: the host is
  told to start the engine, and once a window has set it up every pending mail (in flight to that
  engine or not yet sent) has been sent to it again and is in flight, still pending in the store.
\<close>

theorem restart_resends:
  fixes C :: "'f mesh_codecs"
  assumes "mail_store S" and "on_exit S chat h = (es1, h1)" and "on_hosted S C chat h1 = (es2, h2)"
    and "m \<in> set (ms_pending S (hb_store h) chat)" and "hb_in_flight h (mail_id m) \<in> {None, Some chat}"
  shows "es1 = [Effect_Host chat None True] \<and> hb_in_flight h2 (mail_id m) = Some chat
     \<and> (\<exists>busy. Effect_Send chat (mail_line C busy m) \<in> set es2)
     \<and> m \<in> set (ms_pending S (hb_store h2) chat)"
  by (rule mail_store.restart_facts [OF assms])

subsection \<open>A hub at work\<close>

text \<open>A finished turn of a nested session becomes a note for its parent, which takes and accepts it.\<close>

definition hub_demo_codecs :: "int mesh_codecs" where
  "hub_demo_codecs =
     \<lparr>enc_event = (\<lambda>_. JNull), dec_event = (\<lambda>j. Inr (Event_NodeReport ''s_child'' Run_Done ''ok'' mesh_usage_default None)),
      enc_command = (\<lambda>_. JNull), dec_command = (\<lambda>_. Inl ''no''),
      enc_mail_body = (\<lambda>b. JString (mb_text b)), dec_mail_body = (\<lambda>_. Inl ''no''),
      enc_envelope = (\<lambda>e. json_object [(''type'', JString wire_type), (''id'', JString (env_id e))]),
      dec_envelope = (\<lambda>j. Inr (envelope_new Kind_Evt (or_empty (json_str ''id'' j)) ''node_report''
         (or_empty (json_str ''from'' j)) broadcast JNull)),
      enc_mesh_error = (\<lambda>_. JNull), print_json = (\<lambda>_. ''{}'')\<rparr>"

definition demo_store :: memory_store where
  "demo_store = memory_with_parent ''child'' ''p'' ''Fix'' memory_store_default"

definition demo_report :: "int json" where
  "demo_report = json_object [(''type'', JString ''mesh''), (''kind'', JString ''evt''),
     (''op'', JString ''node_report''), (''from'', JString ''s_child''), (''id'', JString ''r1'')]"

definition demo_ack :: "int json" where
  "demo_ack = json_object [(''type'', JString ''mesh''), (''kind'', JString ''res''), (''corr'', JString ''mail_0_1'')]"

definition demo_hub :: "memory_store hub" where
  "demo_hub = snd (on_line memory_ops hub_demo_codecs 1 ''child'' demo_report (hub_new 0 demo_store))"

definition demo_mail :: mail where
  "demo_mail = \<lparr>mail_id = ''mail_0_1'', mail_from = ''child'', mail_to = ''p'',
     mail_content = \<lparr>mb_text = session_note ''child'' ''Fix'' Run_Done ''ok'', mb_deliver = Deliver_Wake,
       mb_title = Some ''Fix''\<rparr>, mail_created = 1\<rparr>"

lemma demo_pending: "ms_pending memory_ops (hb_store demo_hub) ''p'' = [demo_mail]"
  by code_simp


theorem tool_calls_guarded_witness:
  "\<exists>es h'. on_tool_call memory_ops hub_demo_codecs 2 ''child''
       (json_object [(''toolName'', JString ''start_session''), (''requestId'', JString ''q'')]) demo_hub = (es, h')
     \<and> hb_store h' = hb_store demo_hub \<and> (es = [] \<or> (\<exists>answer. es = [Effect_Send ''child'' answer]))"
proof -
  let ?line = "json_object [(''toolName'', JString ''start_session''), (''requestId'', JString ''q'')] :: int json"
  have "\<not> start_allowed memory_ops ''child'' (call_args ?line) demo_hub" by code_simp
  moreover have "json_str ''toolName'' ?line = Some ''start_session''" by code_simp
  moreover obtain es h' where run: "on_tool_call memory_ops hub_demo_codecs 2 ''child'' ?line demo_hub = (es, h')"
    by fastforce
  ultimately show ?thesis using tool_calls_guarded [OF run] by fastforce
qed

definition demo_sent :: "memory_store hub" where
  "demo_sent = snd (on_line memory_ops hub_demo_codecs 2 ''p'' (json_object [(''type'', JString ''ready'')]) demo_hub)"

theorem mail_pending_until_accepted_witness:
  "\<exists>now chat line. In_Line 3 ''p'' demo_ack = In_Line now chat line \<and> accepts_mail ''mail_0_1'' line
     \<and> hb_in_flight demo_sent ''mail_0_1'' \<noteq> None
     \<and> hb_in_flight (snd (hub_step memory_ops hub_demo_codecs (In_Line 3 ''p'' demo_ack) demo_sent)) ''mail_0_1'' = None"
proof -
  let ?step = "hub_step memory_ops hub_demo_codecs (In_Line 3 ''p'' demo_ack) demo_sent"
  have "?step = (fst ?step, snd ?step)" by simp
  moreover have "demo_mail \<in> set (ms_pending memory_ops (hb_store demo_sent) ''p'')" by code_simp
  moreover have "demo_mail \<notin> set (ms_pending memory_ops (hb_store (snd ?step)) ''p'')" by code_simp
  ultimately show ?thesis
    using mail_pending_until_accepted [OF mem.mail_store_axioms] by (fastforce simp: demo_mail_def)
qed

theorem reachable_hub_inv_witness: "hub_inv demo_sent"
proof -
  let ?new = "hub_new 0 demo_store"
  have "hub_run memory_ops hub_demo_codecs ?new demo_hub"
    using run_step [OF run_none, of memory_ops hub_demo_codecs "In_Line 1 ''child'' demo_report" ?new]
    by (simp add: demo_hub_def) (metis prod.collapse)
  then have "hub_run memory_ops hub_demo_codecs ?new demo_sent"
    using run_step [of memory_ops hub_demo_codecs ?new demo_hub "In_Line 2 ''p'' (json_object [(''type'', JString ''ready'')])"]
    by (simp add: demo_sent_def) (metis prod.collapse)
  then show ?thesis by (rule reachable_hub_inv)
qed

theorem replayed_report_ignored_witness:
  "on_line memory_ops hub_demo_codecs 5 ''child'' demo_report demo_hub = ([], demo_hub)"
proof -
  have "json_str ''type'' demo_report = Some wire_type" "json_str ''kind'' demo_report = Some ''evt''"
    "json_str ''op'' demo_report = Some ''node_report''"
    "own_report hub_demo_codecs ''child'' demo_report = Some (''r1'', Run_Done, ''ok'')" by code_simp+
  from replayed_report_ignored [OF this, of memory_ops 1 "hub_new 0 demo_store" _ _ 5] show ?thesis
    by (metis demo_hub_def prod.collapse)
qed

theorem flush_sends_witness:
  "filter is_send (fst (flush memory_ops hub_demo_codecs ''p'' (with_engine ''p'' (\<lambda>e. e\<lparr>en_ready := True\<rparr>) demo_hub)))
     = [Effect_Send ''p'' (mail_line hub_demo_codecs False demo_mail)]"
proof -
  let ?h = "with_engine ''p'' (\<lambda>e. e\<lparr>en_ready := True\<rparr>) demo_hub"
  let ?ms = "filter (\<lambda>m. hb_in_flight ?h (mail_id m) = None \<and> can_take ?h m) (ms_pending memory_ops (hb_store ?h) ''p'')"
  have ms: "?ms = [demo_mail]" by code_simp
  have idle: "\<not> en_busy (hb_engines demo_hub ''p'')" by code_simp
  show ?thesis
    using flush_sends [OF mem.mail_store_axioms prod.collapse [symmetric] refl, of hub_demo_codecs "''p''" ?h]
    unfolding ms by (simp add: idle)
qed

theorem restart_resends_witness:
  "hb_in_flight (snd (on_hosted memory_ops hub_demo_codecs ''p'' (snd (on_exit memory_ops ''p'' demo_sent)))) ''mail_0_1''
     = Some ''p''"
proof -
  have "demo_mail \<in> set (ms_pending memory_ops (hb_store demo_sent) ''p'')"
    "hb_in_flight demo_sent (mail_id demo_mail) \<in> {None, Some ''p''}" by code_simp+
  from restart_resends [OF mem.mail_store_axioms prod.collapse [symmetric] prod.collapse [symmetric] this, of hub_demo_codecs]
  show ?thesis using arg_cong [OF demo_mail_def, of mail_id] by auto
qed

end
