(* ===== verification/Agent_Types.thy ===== *)
theory Agent_Types
  imports Harness_Messages "HOL-Library.State_Monad"
begin

text \<open>
  The contract of the agent layer (\<open>crates/evo-agent/src/types.rs\<close>, \<open>hooks.rs\<close>,
  \<open>events.rs\<close>, \<open>agent_tool.rs\<close>, \<open>error.rs\<close>, \<open>clock.rs\<close>): tools and
  their results, the hooks of a run, the events it emits. What lies outside the loop (the model
  provider, the tools' own work, the hooks of the host, the wall clock, the cancellation token, the
  order in which concurrent calls settle) is a function on a world \<open>'w\<close>; the loop is a state
  transformer that carries the world and records, in order, every effect it has on the outside.
\<close>

subsection \<open>Debug output of strings\<close>

definition hex_digit :: "nat \<Rightarrow> char" where
  "hex_digit n = char_of (if n < 10 then 48 + n else 87 + n)"

text \<open>\<open>{:?}\<close> of a string: quoted, with the escapes of \<open>char::escape_debug\<close>.\<close>

definition debug_char :: "char \<Rightarrow> string" where
  "debug_char c =
     (let n = (of_char c :: nat) in
      if n = 0 then [CHR 0x5C, CHR ''0'']
      else if n = 9 then [CHR 0x5C, CHR ''t'']
      else if n = 10 then [CHR 0x5C, CHR ''n'']
      else if n = 13 then [CHR 0x5C, CHR ''r'']
      else if n = 34 then [CHR 0x5C, CHR 0x22]
      else if n = 92 then [CHR 0x5C, CHR 0x5C]
      else if is_control c \<or> n = 160 \<or> n = 173 then
        [CHR 0x5C, CHR ''u'', CHR 0x7B] @ (if n < 16 then [] else [hex_digit (n div 16)])
          @ [hex_digit (n mod 16), CHR 0x7D]
      else [c])"

definition debug_str :: "string \<Rightarrow> string" where
  "debug_str s = quote @ concat (map debug_char s) @ quote"

subsection \<open>Tool results and errors\<close>

datatype text_or_image = TextOrImage_Text text_content | TextOrImage_Image image_content

definition text_or_image_text :: "string \<Rightarrow> text_or_image" where
  "text_or_image_text s = TextOrImage_Text \<lparr>tx_text = s, tx_text_signature = None\<rparr>"

record 'f agent_tool_result =
  atr_content :: "text_or_image list"
  atr_details :: "'f json"
  atr_usage :: "'f usage option"
  atr_added_tool_names :: "string list"
  atr_terminate :: bool

definition tool_result_text :: "string \<Rightarrow> 'f agent_tool_result" where
  "tool_result_text message =
     \<lparr>atr_content = [text_or_image_text message], atr_details = JNull, atr_usage = None,
      atr_added_tool_names = [], atr_terminate = False\<rparr>"

definition create_error_tool_result :: "string \<Rightarrow> 'f agent_tool_result" where
  "create_error_tool_result message = tool_result_text message"

fun block_content :: "text_or_image \<Rightarrow> 'f content" where
  "block_content (TextOrImage_Text t) = Content_Text t"
| "block_content (TextOrImage_Image i) = Content_Image i"

definition into_content :: "'f agent_tool_result \<Rightarrow> 'f content list" where
  "into_content r = map block_content (atr_content r)"

datatype 'f agent_error =
    AgentError_Tool string
  | AgentError_StructuredTool "'f agent_tool_result"
  | AgentError_Validation string
  | AgentError_Abort
  | AgentError_Provider string
  | AgentError_Queue string
  | AgentError_State string

fun agent_error_text :: "'f agent_error \<Rightarrow> string" where
  "agent_error_text (AgentError_Tool s) = ''tool error: '' @ s"
| "agent_error_text (AgentError_StructuredTool _) = ''structured tool error''"
| "agent_error_text (AgentError_Validation s) = ''validation error: '' @ s"
| "agent_error_text AgentError_Abort = ''operation aborted''"
| "agent_error_text (AgentError_Provider s) = ''provider error: '' @ s"
| "agent_error_text (AgentError_Queue s) = ''queue error: '' @ s"
| "agent_error_text (AgentError_State s) = ''invalid state: '' @ s"

subsection \<open>Tools\<close>

datatype tool_execution_mode = Mode_Sequential | Mode_Parallel

record 'f tool_schema =
  ts_name :: string
  ts_description :: string
  ts_parameters :: "'f json"
  ts_constrained_sampling :: "'f json option"

text \<open>
  What one \<open>execute\<close> does, as far as the loop can see it: the partial results it reports while
  it runs, those it reports after it has resolved, the results of the calls it made itself through
  the tool-program capability, and how it ends.
\<close>

datatype 'f tool_outcome = Tool_Ok "'f agent_tool_result" | Tool_Err "'f agent_error" | Tool_Panicked

record 'f tool_run =
  tn_updates :: "'f agent_tool_result list"
  tn_late_updates :: "'f agent_tool_result list"
  tn_children :: "'f agent_tool_result list"
  tn_outcome :: "'f tool_outcome"

record ('f, 'w) agent_tool =
  at_schema :: "'f tool_schema"
  at_mode :: tool_execution_mode
  at_prepare_arguments :: "'f json \<Rightarrow> 'f agent_error + 'f json"
  at_execute :: "string \<Rightarrow> 'f json \<Rightarrow> 'w \<Rightarrow> 'f tool_run \<times> 'w"

record ('f, 'w) agent_context =
  ac_system_prompt :: string
  ac_messages :: "'f agent_message list"
  ac_tools :: "('f, 'w) agent_tool list"

subsection \<open>Requests to the provider\<close>

record 'f ai_model =
  md_id :: string
  md_name :: string
  md_api :: api
  md_provider :: string
  md_base_url :: string
  md_settings :: "'f json"

datatype thinking_level =
    Thinking_Off | Thinking_Minimal | Thinking_Low | Thinking_Medium | Thinking_High | Thinking_Xhigh | Thinking_Max

datatype cache_retention = Retention_None | Retention_Short | Retention_Long

record 'f llm_context =
  lx_system_prompt :: "string option"
  lx_messages :: "'f message list"
  lx_tools :: "'f tool_schema list"

text \<open>Durations are milliseconds; the fields \<open>to_stream_options\<close> leaves at their default are left out.\<close>

record stream_options =
  so_api_key :: "string option"
  so_timeout :: "nat option"
  so_stream_idle_timeout :: "nat option"
  so_max_retries :: "u32 option"
  so_max_retry_delay :: "nat option"
  so_cache_retention :: cache_retention
  so_session_id :: "string option"
  so_reasoning :: "thinking_level option"

datatype done_reason = Done_Stop | Done_Length | Done_ToolUse | Done_Deferred

datatype error_reason = Error_Error | Error_Aborted

datatype 'f stream_event =
    Stream_Start "'f assistant_message"
  | Stream_TextStart nat "'f assistant_message"
  | Stream_TextDelta nat string "'f assistant_message"
  | Stream_TextEnd nat string "'f assistant_message"
  | Stream_ThinkingStart nat "'f assistant_message"
  | Stream_ThinkingDelta nat string "'f assistant_message"
  | Stream_ThinkingEnd nat string "'f assistant_message"
  | Stream_ToolCallStart nat "'f assistant_message"
  | Stream_ToolCallDelta nat string "'f assistant_message"
  | Stream_ToolCallEnd nat "'f tool_call" "'f assistant_message"
  | Stream_Done done_reason "'f assistant_message"
  | Stream_Error error_reason "'f assistant_message"

text \<open>
  A response: the events its stream yields before it ends, and what \<open>result()\<close> then resolves to,
  \<open>None\<close> when the stream ended without a terminal event.
\<close>

record 'f response =
  rs_events :: "'f stream_event list"
  rs_result :: "'f assistant_message option"

subsection \<open>Hooks\<close>

record 'f before_tool_call_result =
  bt_block :: bool
  bt_reason :: "string option"
  bt_terminate :: bool
  bt_args :: "'f json option"

record 'f after_tool_call_result =
  af_content :: "text_or_image list option"
  af_details :: "'f json option"
  af_is_error :: "bool option"
  af_usage :: "'f usage option"
  af_terminate :: "bool option"

record ('f, 'w) before_tool_call_context =
  bc_assistant_message :: "'f assistant_message"
  bc_tool_call :: "'f tool_call"
  bc_args :: "'f json"
  bc_context :: "('f, 'w) agent_context"

record ('f, 'w) after_tool_call_context =
  fc_assistant_message :: "'f assistant_message"
  fc_tool_call :: "'f tool_call"
  fc_args :: "'f json"
  fc_result :: "'f agent_tool_result"
  fc_is_error :: bool
  fc_context :: "('f, 'w) agent_context"

record ('f, 'w) turn_context =
  tc_message :: "'f assistant_message"
  tc_tool_results :: "'f tool_result_message list"
  tc_context :: "('f, 'w) agent_context"
  tc_new_messages :: "'f agent_message list"

record ('f, 'w) turn_update =
  tu_context :: "('f, 'w) agent_context option"
  tu_model :: "'f ai_model option"
  tu_thinking_level :: "thinking_level option"

record ('f, 'w) loop_config =
  lc_model :: "'f ai_model"
  lc_convert_to_llm :: "'f agent_message list \<Rightarrow> 'w \<Rightarrow> 'f message list \<times> 'w"
  lc_convert_to_llm_incremental :: "('f agent_message list \<Rightarrow> 'f message list) option"
  lc_transform_context :: "('f agent_message list \<Rightarrow> 'w \<Rightarrow> 'f agent_message list \<times> 'w) option"
  lc_get_api_key :: "(string \<Rightarrow> 'w \<Rightarrow> string option \<times> 'w) option"
  lc_should_stop_after_turn :: "(('f, 'w) turn_context \<Rightarrow> 'w \<Rightarrow> bool \<times> 'w) option"
  lc_prepare_next_turn :: "(('f, 'w) turn_context \<Rightarrow> 'w \<Rightarrow> ('f, 'w) turn_update option \<times> 'w) option"
  lc_after_tool_results :: "(('f, 'w) turn_context \<Rightarrow> 'w \<Rightarrow> ('f, 'w) turn_update option \<times> 'w) option"
  lc_get_steering_messages :: "('w \<Rightarrow> 'f agent_message list \<times> 'w) option"
  lc_get_follow_up_messages :: "('w \<Rightarrow> 'f agent_message list \<times> 'w) option"
  lc_pending_message_count :: "('w \<Rightarrow> nat) option"
  lc_before_tool_call ::
    "(('f, 'w) before_tool_call_context \<Rightarrow> 'w \<Rightarrow> 'f before_tool_call_result option \<times> 'w) option"
  lc_after_tool_call ::
    "(('f, 'w) after_tool_call_context \<Rightarrow> 'w \<Rightarrow> 'f after_tool_call_result option \<times> 'w) option"
  lc_tool_execution :: tool_execution_mode
  lc_thinking_level :: thinking_level
  lc_api_key :: "string option"
  lc_timeout :: "nat option"
  lc_stream_idle_timeout :: "nat option"
  lc_max_retries :: "u32 option"
  lc_max_retry_delay :: "nat option"
  lc_cache_retention :: cache_retention
  lc_session_id :: "string option"
  lc_is_cancelled :: "'w \<Rightarrow> bool \<times> 'w"

text \<open>The token may be cancelled at any moment, so each check of it asks the world afresh.\<close>

definition to_stream_options :: "('f, 'w) loop_config \<Rightarrow> string option \<Rightarrow> stream_options" where
  "to_stream_options c api_key =
     \<lparr>so_api_key = api_key, so_timeout = lc_timeout c, so_stream_idle_timeout = lc_stream_idle_timeout c,
      so_max_retries = lc_max_retries c, so_max_retry_delay = lc_max_retry_delay c,
      so_cache_retention = lc_cache_retention c, so_session_id = lc_session_id c,
      so_reasoning = (if lc_thinking_level c = Thinking_Off then None else Some (lc_thinking_level c))\<rparr>"

text \<open>The default converter keeps the base messages and drops the custom ones.\<close>

fun base_message :: "'f agent_message \<Rightarrow> 'f message option" where
  "base_message (AgentMessage_User u) = Some (Message_User u)"
| "base_message (AgentMessage_Assistant a) = Some (Message_Assistant a)"
| "base_message (AgentMessage_ToolResult t) = Some (Message_ToolResult t)"
| "base_message (AgentMessage_Custom _) = None"

fun default_convert_to_llm :: "'f agent_message list \<Rightarrow> 'f message list" where
  "default_convert_to_llm [] = []"
| "default_convert_to_llm (m # ms) =
     (case base_message m of Some x \<Rightarrow> x # default_convert_to_llm ms | None \<Rightarrow> default_convert_to_llm ms)"

definition default_convert_to_llm_incremental :: "'f agent_message list \<Rightarrow> 'f message list" where
  "default_convert_to_llm_incremental ms = filter_map base_message ms"

subsection \<open>Events and effects\<close>

datatype 'f agent_event =
    Agent_Start
  | Agent_End "'f agent_message list"
  | Retry_Scheduled u32 u32 nat string
  | Turn_Start
  | Turn_End "'f agent_message" "'f tool_result_message list" nat
  | Message_Start "string option" "'f agent_message"
  | Message_Update "string option" "'f assistant_message" "'f stream_event"
  | Message_End "string option" "'f agent_message"
  | Tool_Execution_Start string string "'f json"
  | Tool_Execution_Update string string "'f json" "'f agent_tool_result"
  | Tool_Execution_End string string "'f agent_tool_result" bool

text \<open>
  What the loop does to the outside, in order: the events it emits, through \<open>emit\<close>,
  \<open>emit_injected\<close> or \<open>try_emit\<close>, the requests it opens, the tools it executes, and the queued
  messages it takes from the steering and follow-up hooks.
\<close>

datatype 'f effect =
    Fx_Emit "'f agent_event"
  | Fx_Inject "'f agent_event"
  | Fx_Try "'f agent_event"
  | Fx_Request "'f llm_context" stream_options
  | Fx_Execute string string "'f json"
  | Fx_Drain "'f agent_message list"

text \<open>
  A run's surroundings: its configuration, the emitter, the stream function, the wall clock, the
  validation of arguments (\<open>evo_ai::validate_tool_arguments\<close>), the decoding of a content block
  from JSON, the test \<open>f64::is_finite\<close>, and the runtime's choices: which of the running calls
  settle during an await, and which one \<open>running.next()\<close> yields.
\<close>

record ('f, 'w) loop_env =
  le_config :: "('f, 'w) loop_config"
  le_emit :: "'f effect \<Rightarrow> 'w \<Rightarrow> 'w"
  le_stream_fn :: "'f ai_model \<Rightarrow> 'f llm_context \<Rightarrow> stream_options \<Rightarrow> 'w \<Rightarrow> 'f response \<times> 'w"
  le_wall_clock :: "'w \<Rightarrow> i64 \<times> 'w"
  le_validate :: "'f tool_schema \<Rightarrow> 'f tool_call \<Rightarrow> string + 'f json"
  le_decode_content :: "'f json \<Rightarrow> 'f content option"
  le_is_finite :: "'f \<Rightarrow> bool"
  le_settles :: "nat list \<Rightarrow> 'w \<Rightarrow> nat list \<times> 'w"
  le_next :: "nat list \<Rightarrow> 'w \<Rightarrow> nat \<times> 'w"

record ('f, 'w) io_state =
  io_world :: 'w
  io_last_ms :: i64
  io_trace :: "'f effect list"

type_synonym ('f, 'w, 'a) io = "(('f, 'w) io_state, 'a) state"

definition world_op :: "('w \<Rightarrow> 'a \<times> 'w) \<Rightarrow> ('f, 'w, 'a) io" where
  "world_op f = State (\<lambda>s. case f (io_world s) of (x, w) \<Rightarrow> (x, s\<lparr>io_world := w\<rparr>))"

definition note_effect :: "'f effect \<Rightarrow> ('f, 'w, unit) io" where
  "note_effect x = State (\<lambda>s. ((), s\<lparr>io_trace := io_trace s @ [x]\<rparr>))"

definition deliver :: "('f, 'w) loop_env \<Rightarrow> 'f effect \<Rightarrow> ('f, 'w, unit) io" where
  "deliver E x = do { note_effect x; world_op (\<lambda>w. ((), le_emit E x w)) }"

definition emit_event :: "('f, 'w) loop_env \<Rightarrow> 'f agent_event \<Rightarrow> ('f, 'w, unit) io" where
  "emit_event E ev = deliver E (Fx_Emit ev)"

definition emit_injected :: "('f, 'w) loop_env \<Rightarrow> 'f agent_event \<Rightarrow> ('f, 'w, unit) io" where
  "emit_injected E ev = deliver E (Fx_Inject ev)"

definition try_emit :: "('f, 'w) loop_env \<Rightarrow> 'f agent_event \<Rightarrow> ('f, 'w, unit) io" where
  "try_emit E ev = deliver E (Fx_Try ev)"

definition is_cancelled :: "('f, 'w) loop_env \<Rightarrow> ('f, 'w, bool) io" where
  "is_cancelled E = world_op (lc_is_cancelled (le_config E))"

text \<open>The clock of the crate: the wall clock, but always past the last value handed out.\<close>

definition next_ms :: "i64 \<Rightarrow> i64 \<Rightarrow> i64" where
  "next_ms previous wall = (if previous <s wall then wall else previous + 1)"

definition now_ms :: "('f, 'w) loop_env \<Rightarrow> ('f, 'w, i64) io" where
  "now_ms E = do {
     wall \<leftarrow> world_op (le_wall_clock E);
     State (\<lambda>s. let t = next_ms (io_last_ms s) wall in (t, s\<lparr>io_last_ms := t\<rparr>)) }"

text \<open>A loop over a list for its effects.\<close>

fun for_each :: "('a \<Rightarrow> ('f, 'w, unit) io) \<Rightarrow> 'a list \<Rightarrow> ('f, 'w, unit) io" where
  "for_each f [] = State_Monad.return ()"
| "for_each f (x # xs) = do { f x; for_each f xs }"

end
