(* ===== verification/Tool_Accounting.thy ===== *)
theory Tool_Accounting
  imports Agent_Types
begin

text \<open>
  The accounting of a tool that calls other tools (\<open>crates/evo-agent/src/tool_program_accounting.rs\<close>):
  usage, added tool names and the terminate hint of its children are kept, within bounds, and
  merged into its own result. \<open>fin\<close> is \<open>f64::is_finite\<close>.
\<close>

record 'f accounting =
  ta_has_children :: bool
  ta_usage :: "'f usage option"
  ta_names :: "string list"
  ta_terminate :: bool
  ta_invalid_usage :: bool
  ta_invalid_names :: bool

definition accounting_default :: "'f accounting" where
  "accounting_default =
     \<lparr>ta_has_children = False, ta_usage = None, ta_names = [], ta_terminate = False,
      ta_invalid_usage = False, ta_invalid_names = False\<rparr>"

definition checked_add_i64 :: "i64 \<Rightarrow> i64 \<Rightarrow> i64 option" where
  "checked_add_i64 a b =
     (let r = sint a + sint b in if - (2 ^ 63) \<le> r \<and> r < 2 ^ 63 then Some (word_of_int r) else None)"

text \<open>\<open>if let Some(b) = b { *a = Some(a.unwrap_or(0).checked_add(b)?) }\<close>\<close>

definition checked_add_opt :: "i64 option \<Rightarrow> i64 option \<Rightarrow> i64 option option" where
  "checked_add_opt a b =
     (case b of None \<Rightarrow> Some a
      | Some y \<Rightarrow> map_option Some (checked_add_i64 (case a of None \<Rightarrow> 0 | Some x \<Rightarrow> x) y))"

definition checked_cost :: "('f::plus \<Rightarrow> bool) \<Rightarrow> 'f \<Rightarrow> 'f \<Rightarrow> 'f option" where
  "checked_cost fin a b = (let r = a + b in if fin r then Some r else None)"

definition checked_add_usage :: "('f::plus \<Rightarrow> bool) \<Rightarrow> 'f usage \<Rightarrow> 'f usage \<Rightarrow> 'f usage option" where
  "checked_add_usage fin s v = do {
     input \<leftarrow> checked_add_i64 (us_input s) (us_input v);
     output \<leftarrow> checked_add_i64 (us_output s) (us_output v);
     cread \<leftarrow> checked_add_i64 (us_cache_read s) (us_cache_read v);
     cwrite \<leftarrow> checked_add_i64 (us_cache_write s) (us_cache_write v);
     total \<leftarrow> checked_add_i64 (us_total_tokens s) (us_total_tokens v);
     write1h \<leftarrow> checked_add_opt (us_cache_write_1h s) (us_cache_write_1h v);
     reasoning \<leftarrow> checked_add_opt (us_reasoning s) (us_reasoning v);
     cin \<leftarrow> checked_cost fin (uc_input (us_cost s)) (uc_input (us_cost v));
     cout \<leftarrow> checked_cost fin (uc_output (us_cost s)) (uc_output (us_cost v));
     ccread \<leftarrow> checked_cost fin (uc_cache_read (us_cost s)) (uc_cache_read (us_cost v));
     ccwrite \<leftarrow> checked_cost fin (uc_cache_write (us_cost s)) (uc_cache_write (us_cost v));
     ctotal \<leftarrow> checked_cost fin (uc_total (us_cost s)) (uc_total (us_cost v));
     Some \<lparr>us_input = input, us_output = output, us_cache_read = cread, us_cache_write = cwrite,
       us_cache_write_1h = write1h, us_reasoning = reasoning, us_total_tokens = total,
       us_cost = \<lparr>uc_input = cin, uc_output = cout, uc_cache_read = ccread, uc_cache_write = ccwrite,
         uc_total = ctotal\<rparr>\<rparr> }"

definition retain_usage :: "('f::{plus,zero} \<Rightarrow> bool) \<Rightarrow> 'f usage option \<Rightarrow> 'f accounting \<Rightarrow> 'f accounting" where
  "retain_usage fin u a =
     (case u of None \<Rightarrow> a
      | Some v \<Rightarrow>
          (case checked_add_usage fin (case ta_usage a of None \<Rightarrow> usage_zero | Some s \<Rightarrow> s) v of
             Some t \<Rightarrow>
               if ta_invalid_usage a then a\<lparr>ta_invalid_usage := True, ta_usage := None\<rparr>
               else a\<lparr>ta_usage := Some t\<rparr>
           | None \<Rightarrow> a\<lparr>ta_invalid_usage := True, ta_usage := None\<rparr>))"

definition retain_name :: "'f accounting \<Rightarrow> string \<Rightarrow> 'f accounting" where
  "retain_name a n =
     (if 256 < utf8_len n \<or> n \<notin> set (ta_names a) \<and> 256 \<le> length (ta_names a)
      then a\<lparr>ta_invalid_names := True\<rparr>
      else a\<lparr>ta_names := insort_insert n (ta_names a)\<rparr>)"

definition retain_child :: "('f::{plus,zero} \<Rightarrow> bool) \<Rightarrow> 'f accounting \<Rightarrow> 'f agent_tool_result \<Rightarrow> 'f accounting" where
  "retain_child fin a r =
     foldl retain_name
       (retain_usage fin (atr_usage r)
         (a\<lparr>ta_has_children := True, ta_terminate := ta_terminate a \<or> atr_terminate r\<rparr>))
       (atr_added_tool_names r)"

definition accounting_error :: string where
  "accounting_error = ''ToolProgram accounting overflow, non-finite cost, or metadata limit exceeded; invalid metadata omitted''"

text \<open>\<open>merge\<close>: the result with its metadata rewritten, and the message when metadata was dropped.\<close>

definition merge_accounting ::
  "('f::{plus,zero} \<Rightarrow> bool) \<Rightarrow> 'f accounting \<Rightarrow> 'f agent_tool_result \<Rightarrow> 'f agent_tool_result \<times> string option" where
  "merge_accounting fin a result =
     (if \<not> ta_has_children a then (result, None)
      else let own = retain_child fin accounting_default result;
               combined = retain_child fin own
                 \<lparr>atr_content = [], atr_details = JNull, atr_usage = ta_usage a,
                  atr_added_tool_names = ta_names a, atr_terminate = ta_terminate a\<rparr>;
               invalid_usage = (ta_invalid_usage a \<or> ta_invalid_usage combined);
               invalid_names = (ta_invalid_names a \<or> ta_invalid_names combined)
           in (result\<lparr>atr_usage := (if invalid_usage then None else ta_usage combined),
                      atr_added_tool_names := (if invalid_names then [] else ta_names combined),
                      atr_terminate := ta_terminate combined\<rparr>,
               if invalid_usage \<or> invalid_names then Some accounting_error else None))"

text \<open>The children of one call, in the order they finished.\<close>

definition account_children :: "('f::{plus,zero} \<Rightarrow> bool) \<Rightarrow> 'f agent_tool_result list \<Rightarrow> 'f accounting" where
  "account_children fin rs = foldl (retain_child fin) accounting_default rs"

subsection \<open>What the merge keeps\<close>

lemma retain_usage_simps [simp]:
  "ta_names (retain_usage fin u a) = ta_names a"
  "ta_terminate (retain_usage fin u a) = ta_terminate a"
  "ta_has_children (retain_usage fin u a) = ta_has_children a"
  "ta_invalid_names (retain_usage fin u a) = ta_invalid_names a"
  by (simp_all add: retain_usage_def split: option.split)

lemma retain_names_simps [simp]:
  "ta_terminate (foldl retain_name a ns) = ta_terminate a"
  "ta_has_children (foldl retain_name a ns) = ta_has_children a"
  by (induction ns arbitrary: a) (simp_all add: retain_name_def)

definition names_ok :: "string list \<Rightarrow> bool" where
  "names_ok ns \<longleftrightarrow> sorted ns \<and> distinct ns \<and> length ns \<le> 256 \<and> (\<forall>n \<in> set ns. utf8_len n \<le> 256)"

lemma names_ok_retain: "names_ok (ta_names a) \<Longrightarrow> names_ok (ta_names (foldl retain_name a ns))"
proof (induction ns arbitrary: a)
  case (Cons n ns)
  have "names_ok (ta_names (retain_name a n))"
    using Cons.prems
    by (cases "n \<in> set (ta_names a)")
      (auto simp: names_ok_def retain_name_def sorted_insort_insert distinct_insort_insert
        set_insort_insert insort_insert_triv insort_insert_insort sorted_insort distinct_insort set_insort_key)
  then show ?case using Cons.IH by simp
qed simp

lemma names_ok_child: "names_ok (ta_names a) \<Longrightarrow> names_ok (ta_names (retain_child fin a r))"
  unfolding retain_child_def by (rule names_ok_retain) simp

lemma merge_keeps:
  "atr_content (fst (merge_accounting fin a r)) = atr_content r"
  "atr_details (fst (merge_accounting fin a r)) = atr_details r"
  by (simp_all add: merge_accounting_def Let_def)

end
