(* ===== verification/Agent_Loop.thy ===== *)
theory Agent_Loop
  imports Tool_Accounting
begin

text \<open>
  The agent loop, \<open>crates/evo-agent/src/agent_loop.rs\<close>: one run drives the model and its
  tools turn by turn, injects queued messages between turns, and reports everything it does as
  events. Each definition is the function of the same name; an \<open>await\<close> on something outside the
  loop is a call of the world. \<open>Inl\<close> of a result is the run's error: an \<open>AgentError\<close>, or
  the unwinding of a panic.
\<close>

datatype 'f loop_error = Loop_Error "'f agent_error" | Loop_Panic

datatype loop_outcome = Outcome_Completed | Outcome_Aborted | Outcome_Failed

fun outcome_from_stop :: "stop_reason \<Rightarrow> loop_outcome" where
  "outcome_from_stop StopReason_Aborted = Outcome_Aborted"
| "outcome_from_stop StopReason_Error = Outcome_Failed"
| "outcome_from_stop _ = Outcome_Completed"

record 'f finalized_call =
  fz_tool_call :: "'f tool_call"
  fz_result :: "'f agent_tool_result"
  fz_is_error :: bool

record 'f executed_batch =
  eb_messages :: "'f tool_result_message list"
  eb_terminate :: bool

subsection \<open>Helpers\<close>

definition should_terminate_tool_batch :: "'f finalized_call list \<Rightarrow> bool" where
  "should_terminate_tool_batch fs \<longleftrightarrow> fs \<noteq> [] \<and> (\<forall>f \<in> set fs. atr_terminate (fz_result f))"

definition create_tool_result_message ::
  "('f, 'w) loop_env \<Rightarrow> 'f tool_call \<Rightarrow> 'f agent_tool_result \<Rightarrow> bool \<Rightarrow> ('f, 'w, 'f tool_result_message) io" where
  "create_tool_result_message E c r is_error = do {
     t \<leftarrow> now_ms E;
     State_Monad.return
       \<lparr>tr_tool_call_id = tcall_id c, tr_tool_name = tcall_name c, tr_content = into_content r,
        tr_details = Some (atr_details r), tr_usage = atr_usage r,
        tr_added_tool_names = atr_added_tool_names r, tr_is_error = is_error, tr_timestamp = t\<rparr> }"

definition emit_tool_execution_end :: "('f, 'w) loop_env \<Rightarrow> 'f finalized_call \<Rightarrow> ('f, 'w, unit) io" where
  "emit_tool_execution_end E f =
     emit_event E (Tool_Execution_End (tcall_id (fz_tool_call f)) (tcall_name (fz_tool_call f)) (fz_result f) (fz_is_error f))"

definition emit_message :: "('f, 'w) loop_env \<Rightarrow> 'f agent_message \<Rightarrow> ('f, 'w, unit) io" where
  "emit_message E m = do { emit_event E (Message_Start None m); emit_event E (Message_End None m) }"

definition emit_tool_result_message :: "('f, 'w) loop_env \<Rightarrow> 'f tool_result_message \<Rightarrow> ('f, 'w, unit) io" where
  "emit_tool_result_message E trm = emit_message E (AgentMessage_ToolResult trm)"

text \<open>The messages of one hook, none when the hook is not installed.\<close>

definition drain_hook :: "('w \<Rightarrow> 'f agent_message list \<times> 'w) option \<Rightarrow> ('f, 'w, 'f agent_message list) io" where
  "drain_hook h =
     (case h of
        None \<Rightarrow> State_Monad.return []
      | Some f \<Rightarrow> do { ms \<leftarrow> world_op f; note_effect (Fx_Drain ms); State_Monad.return ms })"

definition drain_steering :: "('f, 'w) loop_env \<Rightarrow> ('f, 'w, 'f agent_message list) io" where
  "drain_steering E = drain_hook (lc_get_steering_messages (le_config E))"

definition drain_follow_up :: "('f, 'w) loop_env \<Rightarrow> ('f, 'w, 'f agent_message list) io" where
  "drain_follow_up E = drain_hook (lc_get_follow_up_messages (le_config E))"

definition pending_count :: "('f, 'w) loop_env \<Rightarrow> ('f, 'w, nat) io" where
  "pending_count E =
     (case lc_pending_message_count (le_config E) of
        None \<Rightarrow> State_Monad.return 0
      | Some f \<Rightarrow> world_op (\<lambda>w. (f w, w)))"

definition turn_hook ::
  "(('f, 'w) turn_context \<Rightarrow> 'w \<Rightarrow> ('f, 'w) turn_update option \<times> 'w) option \<Rightarrow> ('f, 'w) turn_context
     \<Rightarrow> ('f, 'w, ('f, 'w) turn_update option) io" where
  "turn_hook h t = (case h of None \<Rightarrow> State_Monad.return None | Some f \<Rightarrow> world_op (f t))"

definition should_stop_after_turn :: "('f, 'w) loop_env \<Rightarrow> ('f, 'w) turn_context \<Rightarrow> ('f, 'w, bool) io" where
  "should_stop_after_turn E t =
     (case lc_should_stop_after_turn (le_config E) of
        None \<Rightarrow> State_Monad.return False
      | Some f \<Rightarrow> world_op (f t))"

subsection \<open>The cache of provider messages\<close>

record 'f message_cache =
  mc_initialized :: bool
  mc_source_len :: nat
  mc_messages :: "'f message list"

definition cache_new :: "'f message_cache" where
  "cache_new = \<lparr>mc_initialized = False, mc_source_len = 0, mc_messages = []\<rparr>"

definition cache_invalidate :: "'f message_cache \<Rightarrow> 'f message_cache" where
  "cache_invalidate c = c\<lparr>mc_initialized := False, mc_source_len := 0, mc_messages := []\<rparr>"

definition take_messages ::
  "'f message_cache \<Rightarrow> ('f, 'w) agent_context \<Rightarrow> ('f, 'w) loop_config \<Rightarrow> 'f message list option \<times> 'f message_cache" where
  "take_messages c ctx cfg =
     (if lc_transform_context cfg \<noteq> None then (None, c)
      else case lc_convert_to_llm_incremental cfg of
        None \<Rightarrow> (None, c)
      | Some convert \<Rightarrow>
          if \<not> mc_initialized c then (None, c)
          else if length (ac_messages ctx) < mc_source_len c then (None, cache_invalidate c)
          else (Some (mc_messages c @ convert (drop (mc_source_len c) (ac_messages ctx))),
                c\<lparr>mc_messages := [], mc_source_len := length (ac_messages ctx)\<rparr>))"

definition restore_messages :: "'f message list \<Rightarrow> 'f message_cache \<Rightarrow> 'f message_cache" where
  "restore_messages ms c = c\<lparr>mc_initialized := True, mc_messages := ms\<rparr>"

subsection \<open>Streaming one response\<close>

definition push_message :: "'f agent_message \<Rightarrow> ('f, 'w) agent_context \<Rightarrow> ('f, 'w) agent_context" where
  "push_message m ctx = ctx\<lparr>ac_messages := ac_messages ctx @ [m]\<rparr>"

text \<open>\<open>if let Some(last) = context.messages.last_mut() { *last = am }\<close>\<close>

definition replace_last_message :: "'f agent_message \<Rightarrow> ('f, 'w) agent_context \<Rightarrow> ('f, 'w) agent_context" where
  "replace_last_message m ctx =
     (if ac_messages ctx = [] then ctx else ctx\<lparr>ac_messages := butlast (ac_messages ctx) @ [m]\<rparr>)"

definition stream_end_error :: "'f agent_error" where
  "stream_end_error = AgentError_Provider ''assistant-message event stream ended without a terminal event''"

text \<open>Both ends of the stream: the terminal event, and a stream that just ends.\<close>

definition finish_response ::
  "('f, 'w) loop_env \<Rightarrow> bool \<Rightarrow> 'f assistant_message option \<Rightarrow> ('f, 'w) agent_context
     \<Rightarrow> ('f, 'w, ('f agent_error + 'f assistant_message) \<times> ('f, 'w) agent_context) io" where
  "finish_response E added_partial result ctx =
     (case result of
        None \<Rightarrow> State_Monad.return (Inl stream_end_error, ctx)
      | Some final \<Rightarrow>
          (let am = AgentMessage_Assistant final in
           if added_partial then do {
             emit_event E (Message_End None am);
             State_Monad.return (Inr final, replace_last_message am ctx) }
           else do {
             emit_event E (Message_Start None am);
             emit_event E (Message_End None am);
             State_Monad.return (Inr final, push_message am ctx) }))"

fun stream_partial :: "'f stream_event \<Rightarrow> 'f assistant_message" where
  "stream_partial (Stream_Start p) = p"
| "stream_partial (Stream_TextStart _ p) = p"
| "stream_partial (Stream_TextDelta _ _ p) = p"
| "stream_partial (Stream_TextEnd _ _ p) = p"
| "stream_partial (Stream_ThinkingStart _ p) = p"
| "stream_partial (Stream_ThinkingDelta _ _ p) = p"
| "stream_partial (Stream_ThinkingEnd _ _ p) = p"
| "stream_partial (Stream_ToolCallStart _ p) = p"
| "stream_partial (Stream_ToolCallDelta _ _ p) = p"
| "stream_partial (Stream_ToolCallEnd _ _ p) = p"
| "stream_partial (Stream_Done _ m) = m"
| "stream_partial (Stream_Error _ m) = m"

fun stream_terminal :: "'f stream_event \<Rightarrow> bool" where
  "stream_terminal (Stream_Done _ _) = True"
| "stream_terminal (Stream_Error _ _) = True"
| "stream_terminal _ = False"

fun fold_events ::
  "('f, 'w) loop_env \<Rightarrow> 'f assistant_message option \<Rightarrow> bool \<Rightarrow> 'f stream_event list \<Rightarrow> ('f, 'w) agent_context
     \<Rightarrow> ('f, 'w, ('f agent_error + 'f assistant_message) \<times> ('f, 'w) agent_context) io" where
  "fold_events E result added [] ctx = finish_response E added result ctx"
| "fold_events E result added (ev # evs) ctx =
     (if stream_terminal ev then finish_response E added result ctx
      else case ev of
        Stream_Start partial \<Rightarrow>
          (let am = AgentMessage_Assistant partial in do {
             emit_event E (Message_Start None am);
             fold_events E result True evs (push_message am ctx) })
      | _ \<Rightarrow>
          if added then do {
            emit_event E (Message_Update None (stream_partial ev) ev);
            fold_events E result added evs ctx }
          else fold_events E result added evs ctx)"

definition convert_history :: "('f, 'w) loop_env \<Rightarrow> ('f, 'w) agent_context \<Rightarrow> ('f, 'w, 'f message list) io" where
  "convert_history E ctx = do {
     ms \<leftarrow> (case lc_transform_context (le_config E) of
             None \<Rightarrow> State_Monad.return (ac_messages ctx)
           | Some transform \<Rightarrow> world_op (transform (ac_messages ctx)));
     world_op (lc_convert_to_llm (le_config E) ms) }"

definition resolve_api_key :: "('f, 'w) loop_env \<Rightarrow> ('f, 'w, string option) io" where
  "resolve_api_key E =
     (case lc_get_api_key (le_config E) of
        None \<Rightarrow> State_Monad.return (lc_api_key (le_config E))
      | Some get_key \<Rightarrow> do {
          k \<leftarrow> world_op (get_key (md_provider (lc_model (le_config E))));
          State_Monad.return (case k of None \<Rightarrow> lc_api_key (le_config E) | Some x \<Rightarrow> Some x) })"

definition open_stream ::
  "('f, 'w) loop_env \<Rightarrow> 'f llm_context \<Rightarrow> stream_options \<Rightarrow> ('f, 'w, 'f response) io" where
  "open_stream E lx opts = do {
     note_effect (Fx_Request lx opts);
     world_op (le_stream_fn E (lc_model (le_config E)) lx opts) }"

definition stream_assistant_response ::
  "('f, 'w) loop_env \<Rightarrow> ('f, 'w) agent_context \<Rightarrow> 'f message_cache
     \<Rightarrow> ('f, 'w, (('f agent_error + 'f assistant_message) \<times> ('f, 'w) agent_context) \<times> 'f message_cache) io" where
  "stream_assistant_response E ctx cache =
     (let (cached, cache) = take_messages cache ctx (le_config E);
          cache_enabled = (lc_transform_context (le_config E) = None
            \<and> lc_convert_to_llm_incremental (le_config E) \<noteq> None)
      in do {
        llm_messages \<leftarrow> (case cached of Some ms \<Rightarrow> State_Monad.return ms | None \<Rightarrow> convert_history E ctx);
        key \<leftarrow> resolve_api_key E;
        response \<leftarrow> open_stream E
          \<lparr>lx_system_prompt = (if ac_system_prompt ctx = [] then None else Some (ac_system_prompt ctx)),
           lx_messages = llm_messages, lx_tools = map at_schema (ac_tools ctx)\<rparr>
          (to_stream_options (le_config E) key);
        let cache = (if cache_enabled
                     then restore_messages llm_messages (cache\<lparr>mc_source_len := length (ac_messages ctx)\<rparr>)
                     else cache);
        r \<leftarrow> fold_events E (rs_result response) False (rs_events response) ctx;
        State_Monad.return (r, cache) })"

subsection \<open>Preparing one call\<close>

definition invalid_tool_call_reason :: "'f tool_call \<Rightarrow> string option" where
  "invalid_tool_call_reason c =
     (if trim (tcall_id c) = [] then
        Some (''Tool call for '' @ debug_str (tcall_name c) @ '' was rejected: provider returned an empty tool-call id'')
      else if trim (tcall_name c) = [] then
        Some ''Tool call was rejected: provider returned an empty tool name''
      else None)"

definition recording_invalid :: string where
  "recording_invalid = ''Recorded tool result is unavailable or invalid; replay cannot execute work''"

definition recording_version_unsupported :: string where
  "recording_version_unsupported = ''Unsupported recorded tool result version; replay cannot execute work''"

fun map_opt :: "('a \<Rightarrow> 'b option) \<Rightarrow> 'a list \<Rightarrow> 'b list option" where
  "map_opt f [] = Some []"
| "map_opt f (x # xs) = Option.bind (f x) (\<lambda>y. map_option ((#) y) (map_opt f xs))"

fun content_block :: "'f content \<Rightarrow> text_or_image option" where
  "content_block (Content_Text t) = Some (TextOrImage_Text t)"
| "content_block (Content_Image i) = Some (TextOrImage_Image i)"
| "content_block _ = None"

text \<open>
  The derived decoder of \<open>RecordedResult\<close>: an object, other keys ignored, or the sequence of its
  fields; \<open>details\<close> and \<open>terminate\<close> may be missing.
\<close>

definition decode_recorded_content ::
  "('f json \<Rightarrow> 'f content option) \<Rightarrow> 'f json \<Rightarrow> text_or_image list option" where
  "decode_recorded_content dec j =
     (case j of JArray xs \<Rightarrow> Option.bind (map_opt dec xs) (map_opt content_block) | _ \<Rightarrow> None)"

definition decode_recorded_fields ::
  "('f json \<Rightarrow> 'f content option) \<Rightarrow> 'f json option \<Rightarrow> 'f json option \<Rightarrow> 'f json option \<Rightarrow> 'f agent_tool_result option" where
  "decode_recorded_fields dec content details terminate =
     Option.bind (Option.bind content (decode_recorded_content dec)) (\<lambda>c.
       Option.bind (case terminate of None \<Rightarrow> Some False | Some t \<Rightarrow> json_as_bool t) (\<lambda>t.
         Some \<lparr>atr_content = c, atr_details = (case details of None \<Rightarrow> JNull | Some d \<Rightarrow> d), atr_usage = None,
           atr_added_tool_names = [], atr_terminate = t\<rparr>))"

fun decode_recorded_result :: "('f json \<Rightarrow> 'f content option) \<Rightarrow> 'f json \<Rightarrow> 'f agent_tool_result option" where
  "decode_recorded_result dec (JObject m) =
     decode_recorded_fields dec (fmlookup m ''content'') (fmlookup m ''details'') (fmlookup m ''terminate'')"
| "decode_recorded_result dec (JArray [c]) = decode_recorded_fields dec (Some c) None None"
| "decode_recorded_result dec (JArray [c, d]) = decode_recorded_fields dec (Some c) (Some d) None"
| "decode_recorded_result dec (JArray [c, d, t]) = decode_recorded_fields dec (Some c) (Some d) (Some t)"
| "decode_recorded_result dec _ = None"

definition decode_recording ::
  "('f json \<Rightarrow> 'f content option) \<Rightarrow> 'f json \<Rightarrow> ('f agent_tool_result \<times> bool) option" where
  "decode_recording dec j =
     (case j of
        JObject m \<Rightarrow>
          if fmdom m |\<subseteq>| {|''version'', ''isError'', ''result''|} then
            Option.bind (Option.bind (fmlookup m ''isError'') json_as_bool) (\<lambda>e.
              Option.bind (Option.bind (fmlookup m ''result'') (decode_recorded_result dec)) (\<lambda>r. Some (r, e)))
          else None
      | _ \<Rightarrow> None)"

definition recorded_tool_result ::
  "('f json \<Rightarrow> 'f content option) \<Rightarrow> 'f json \<Rightarrow> string + 'f agent_tool_result \<times> bool" where
  "recorded_tool_result dec j =
     (case Option.bind (json_get ''version'' j) json_as_u64 of
        None \<Rightarrow> Inl recording_invalid
      | Some v \<Rightarrow> if v \<noteq> 1 then Inl recording_version_unsupported
                  else ok_or (decode_recording dec j) recording_invalid)"

datatype ('f, 'w) prepared =
    Prepared_Immediate "'f agent_tool_result" bool
  | Prepared_Ready "('f, 'w) agent_tool" "'f json"

definition refused :: "string \<Rightarrow> ('f, 'w) prepared" where
  "refused reason = Prepared_Immediate (create_error_tool_result reason) True"

definition find_tool :: "('f, 'w) agent_context \<Rightarrow> string \<Rightarrow> ('f, 'w) agent_tool option" where
  "find_tool ctx n = find (\<lambda>t. ts_name (at_schema t) = n) (ac_tools ctx)"

text \<open>The last check before a call is ready.\<close>

definition ready_unless_cancelled ::
  "('f, 'w) loop_env \<Rightarrow> ('f, 'w) agent_tool \<Rightarrow> 'f json \<Rightarrow> ('f, 'w, ('f, 'w) prepared) io" where
  "ready_unless_cancelled E tool args = do {
     c \<leftarrow> is_cancelled E;
     State_Monad.return (if c then refused ''Operation aborted'' else Prepared_Ready tool args) }"

definition authorize_call ::
  "('f, 'w) loop_env \<Rightarrow> ('f, 'w) agent_context \<Rightarrow> 'f assistant_message \<Rightarrow> 'f tool_call \<Rightarrow> ('f, 'w) agent_tool
     \<Rightarrow> 'f json \<Rightarrow> ('f, 'w, ('f, 'w) prepared) io" where
  "authorize_call E ctx am prepared_call tool args =
     (case lc_before_tool_call (le_config E) of
        None \<Rightarrow> ready_unless_cancelled E tool args
      | Some before \<Rightarrow> do {
          before_result \<leftarrow> world_op (before
            \<lparr>bc_assistant_message = am, bc_tool_call = prepared_call, bc_args = args, bc_context = ctx\<rparr>);
          c \<leftarrow> is_cancelled E;
          if c then State_Monad.return (refused ''Operation aborted'')
          else case before_result of
            None \<Rightarrow> ready_unless_cancelled E tool args
          | Some br \<Rightarrow>
              (let args = (case bt_args br of None \<Rightarrow> args | Some replacement \<Rightarrow> replacement) in
               if bt_block br then
                 (let result = create_error_tool_result
                    (case bt_reason br of None \<Rightarrow> ''Tool execution was blocked'' | Some r \<Rightarrow> r)
                  in State_Monad.return
                    (Prepared_Immediate (if bt_terminate br then result\<lparr>atr_terminate := True\<rparr> else result) True))
               else ready_unless_cancelled E tool args) })"

definition prepare_tool_call ::
  "('f, 'w) loop_env \<Rightarrow> ('f, 'w) agent_context \<Rightarrow> 'f assistant_message \<Rightarrow> 'f tool_call \<Rightarrow> ('f, 'w, ('f, 'w) prepared) io" where
  "prepare_tool_call E ctx am c =
     (case invalid_tool_call_reason c of
        Some reason \<Rightarrow> State_Monad.return (refused reason)
      | None \<Rightarrow>
     (case tcall_recorded c of
        Some recording \<Rightarrow> State_Monad.return
          (case recorded_tool_result (le_decode_content E) recording of
             Inl reason \<Rightarrow> refused reason
           | Inr (result, is_error) \<Rightarrow> Prepared_Immediate result is_error)
      | None \<Rightarrow>
     (case find_tool ctx (tcall_name c) of
        None \<Rightarrow> State_Monad.return (refused (''Tool '' @ tcall_name c @ '' not found''))
      | Some tool \<Rightarrow>
     (case at_prepare_arguments tool (tcall_arguments c) of
        Inl e \<Rightarrow> State_Monad.return (refused (agent_error_text e))
      | Inr prepared_args \<Rightarrow>
     (let prepared_call = c\<lparr>tcall_arguments := prepared_args\<rparr> in
      case le_validate E (at_schema tool) prepared_call of
        Inl e \<Rightarrow> State_Monad.return (refused e)
      | Inr validated \<Rightarrow> authorize_call E ctx am prepared_call tool validated)))))"

subsection \<open>Executing one call\<close>

text \<open>\<open>on_update\<close> with its gate: open while \<open>execute\<close> runs, closed for good once it has resolved.\<close>

definition on_update ::
  "('f, 'w) loop_env \<Rightarrow> bool \<Rightarrow> 'f tool_call \<Rightarrow> 'f json \<Rightarrow> 'f agent_tool_result \<Rightarrow> ('f, 'w, unit) io" where
  "on_update E accepting c args partial =
     (if \<not> accepting then State_Monad.return ()
      else do {
        cancelled \<leftarrow> is_cancelled E;
        if cancelled then State_Monad.return ()
        else try_emit E (Tool_Execution_Update (tcall_id c) (tcall_name c) args partial) })"

record 'f executed_outcome =
  eo_result :: "'f agent_tool_result"
  eo_is_error :: bool

definition run_execute ::
  "('f, 'w) agent_tool \<Rightarrow> 'f tool_call \<Rightarrow> 'f json \<Rightarrow> ('f, 'w, 'f tool_run) io" where
  "run_execute tool c args = do {
     note_effect (Fx_Execute (tcall_id c) (tcall_name c) args);
     world_op (at_execute tool (tcall_id c) args) }"

text \<open>\<open>None\<close> when \<open>execute\<close> panicked and the panic is resumed.\<close>

definition execute_prepared_tool_call ::
  "('f::{plus,zero}, 'w) loop_env \<Rightarrow> 'f tool_call \<Rightarrow> ('f, 'w) agent_tool \<Rightarrow> 'f json
     \<Rightarrow> ('f, 'w, 'f executed_outcome option) io" where
  "execute_prepared_tool_call E c tool args = do {
     run \<leftarrow> run_execute tool c args;
     for_each (on_update E True c args) (tn_updates run);
     for_each (on_update E False c args) (tn_late_updates run);
     State_Monad.return
       (case (case tn_outcome run of
                Tool_Ok r \<Rightarrow> Some (r, False)
              | Tool_Err (AgentError_StructuredTool r) \<Rightarrow> Some (r, True)
              | Tool_Err e \<Rightarrow> Some (create_error_tool_result (agent_error_text e), True)
              | Tool_Panicked \<Rightarrow> None) of
          None \<Rightarrow> None
        | Some (r, e) \<Rightarrow>
            (case merge_accounting (le_is_finite E) (account_children (le_is_finite E) (tn_children run)) r of
               (r, None) \<Rightarrow> Some \<lparr>eo_result = r, eo_is_error = e\<rparr>
             | (r, Some message) \<Rightarrow>
                 Some \<lparr>eo_result = r\<lparr>atr_content := atr_content r @ [text_or_image_text message]\<rparr>,
                   eo_is_error = True\<rparr>)) }"

definition override_result :: "'f after_tool_call_result \<Rightarrow> 'f agent_tool_result \<Rightarrow> 'f agent_tool_result" where
  "override_result a r =
     r\<lparr>atr_content := (case af_content a of None \<Rightarrow> atr_content r | Some c \<Rightarrow> c),
       atr_details := (case af_details a of None \<Rightarrow> atr_details r | Some d \<Rightarrow> d),
       atr_usage := (case af_usage a of None \<Rightarrow> atr_usage r | Some u \<Rightarrow> Some u),
       atr_terminate := (case af_terminate a of None \<Rightarrow> atr_terminate r | Some t \<Rightarrow> t)\<rparr>"

definition finalize_executed_tool_call ::
  "('f, 'w) loop_env \<Rightarrow> ('f, 'w) agent_context \<Rightarrow> 'f assistant_message \<Rightarrow> 'f tool_call \<Rightarrow> 'f json
     \<Rightarrow> 'f executed_outcome \<Rightarrow> ('f, 'w, 'f finalized_call) io" where
  "finalize_executed_tool_call E ctx am c args out =
     (case lc_after_tool_call (le_config E) of
        None \<Rightarrow> State_Monad.return \<lparr>fz_tool_call = c, fz_result = eo_result out, fz_is_error = eo_is_error out\<rparr>
      | Some after \<Rightarrow> do {
          after_result \<leftarrow> world_op (after
            \<lparr>fc_assistant_message = am, fc_tool_call = c, fc_args = args, fc_result = eo_result out,
             fc_is_error = eo_is_error out, fc_context = ctx\<rparr>);
          State_Monad.return
            (case after_result of
               None \<Rightarrow> \<lparr>fz_tool_call = c, fz_result = eo_result out, fz_is_error = eo_is_error out\<rparr>
             | Some a \<Rightarrow>
                 \<lparr>fz_tool_call = c, fz_result = override_result a (eo_result out),
                  fz_is_error = (case af_is_error a of None \<Rightarrow> eo_is_error out | Some e \<Rightarrow> e)\<rparr>) })"

text \<open>\<open>None\<close> when the tool panicked.\<close>

definition execute_and_finalize ::
  "('f::{plus,zero}, 'w) loop_env \<Rightarrow> ('f, 'w) agent_context \<Rightarrow> 'f assistant_message \<Rightarrow> 'f tool_call \<Rightarrow> ('f, 'w) agent_tool
     \<Rightarrow> 'f json \<Rightarrow> ('f, 'w, 'f finalized_call option) io" where
  "execute_and_finalize E ctx am c tool args = do {
     out \<leftarrow> execute_prepared_tool_call E c tool args;
     case out of
       None \<Rightarrow> State_Monad.return None
     | Some o1 \<Rightarrow> do {
         f \<leftarrow> finalize_executed_tool_call E ctx am c args o1;
         State_Monad.return (Some f) } }"

definition run_one_tool_call ::
  "('f::{plus,zero}, 'w) loop_env \<Rightarrow> ('f, 'w) agent_context \<Rightarrow> 'f assistant_message \<Rightarrow> 'f tool_call
     \<Rightarrow> ('f, 'w, 'f loop_error + 'f finalized_call) io" where
  "run_one_tool_call E ctx am c = do {
     p \<leftarrow> prepare_tool_call E ctx am c;
     case p of
       Prepared_Immediate result is_error \<Rightarrow>
         State_Monad.return (Inr \<lparr>fz_tool_call = c, fz_result = result, fz_is_error = is_error\<rparr>)
     | Prepared_Ready tool args \<Rightarrow> do {
         f \<leftarrow> execute_and_finalize E ctx am c tool args;
         State_Monad.return (case f of None \<Rightarrow> Inl Loop_Panic | Some x \<Rightarrow> Inr x) } }"

end
