(* ===== verification/Agent_Run.thy ===== *)
theory Agent_Run
  imports Agent_Loop
begin

text \<open>
  Batches of tool calls and the run itself, the second half of \<open>crates/evo-agent/src/agent_loop.rs\<close>.
  Running calls are owned futures. Where the code awaits something while it drives them, the
  runtime chooses which of them settle meanwhile (\<open>le_settles\<close>); a call's work and its finalizing
  hook take place when it settles. The run is given fuel, one unit per round of its two nested
  loops, and is \<open>None\<close> when the fuel does not suffice.
\<close>

subsection \<open>Batches that are not executed\<close>

definition fail_call :: "('f, 'w) loop_env \<Rightarrow> 'f tool_call \<Rightarrow> string \<Rightarrow> ('f, 'w, 'f tool_result_message) io" where
  "fail_call E c reason =
     (let result = create_error_tool_result reason in do {
        emit_tool_execution_end E \<lparr>fz_tool_call = c, fz_result = result, fz_is_error = True\<rparr>;
        trm \<leftarrow> create_tool_result_message E c result True;
        emit_tool_result_message E trm;
        State_Monad.return trm })"

definition duplicate_ids_reason :: string where
  "duplicate_ids_reason = ''Tool batch was rejected: provider returned duplicate tool call IDs''"

definition reject_ambiguous_tool_batch ::
  "('f, 'w) loop_env \<Rightarrow> 'f tool_call list \<Rightarrow> ('f, 'w, 'f executed_batch option) io" where
  "reject_ambiguous_tool_batch E calls =
     (if distinct (map tcall_id calls) then State_Monad.return None
      else do {
        messages \<leftarrow> State_Monad.traverse_list (\<lambda>c. fail_call E c duplicate_ids_reason) calls;
        State_Monad.return (Some \<lparr>eb_messages = messages, eb_terminate = False\<rparr>) })"

definition emit_execution_start :: "('f, 'w) loop_env \<Rightarrow> 'f tool_call \<Rightarrow> ('f, 'w, unit) io" where
  "emit_execution_start E c =
     emit_event E (Tool_Execution_Start (tcall_id c) (tcall_name c) (tcall_arguments c))"

definition truncated_reason :: "'f tool_call \<Rightarrow> string" where
  "truncated_reason c = ''Tool call '' @ debug_str (tcall_name c) @
     '' was not executed: the response hit the output token limit, so its arguments may be truncated. Re-issue the tool call with complete arguments.''"

definition fail_tool_calls_from_truncated_message ::
  "('f, 'w) loop_env \<Rightarrow> 'f tool_call list \<Rightarrow> ('f, 'w, 'f executed_batch) io" where
  "fail_tool_calls_from_truncated_message E calls = do {
     rejected \<leftarrow> reject_ambiguous_tool_batch E calls;
     case rejected of
       Some b \<Rightarrow> State_Monad.return b
     | None \<Rightarrow> do {
         messages \<leftarrow> State_Monad.traverse_list
           (\<lambda>c. do { emit_execution_start E c; fail_call E c (truncated_reason c) }) calls;
         State_Monad.return \<lparr>eb_messages = messages, eb_terminate = False\<rparr> } }"

subsection \<open>Sequential execution\<close>

definition settle_result ::
  "('f, 'w) loop_env \<Rightarrow> 'f finalized_call \<Rightarrow> ('f, 'w, 'f tool_result_message) io" where
  "settle_result E f = do {
     trm \<leftarrow> create_tool_result_message E (fz_tool_call f) (fz_result f) (fz_is_error f);
     emit_tool_result_message E trm;
     State_Monad.return trm }"

text \<open>The body of the loop for one call: its message, its result, and whether the loop breaks after it.\<close>

definition sequential_call ::
  "('f::{plus,zero}, 'w) loop_env \<Rightarrow> ('f, 'w) agent_context \<Rightarrow> 'f assistant_message \<Rightarrow> 'f tool_call
     \<Rightarrow> ('f, 'w, 'f loop_error + 'f tool_result_message \<times> 'f finalized_call \<times> bool) io" where
  "sequential_call E ctx am c =
     (case invalid_tool_call_reason c of
        Some reason \<Rightarrow>
          (let f = \<lparr>fz_tool_call = c, fz_result = create_error_tool_result reason, fz_is_error = True\<rparr> in do {
             trm \<leftarrow> fail_call E c reason;
             State_Monad.return (Inr (trm, f, False)) })
      | None \<Rightarrow> do {
          emit_execution_start E c;
          r \<leftarrow> run_one_tool_call E ctx am c;
          case r of
            Inl e \<Rightarrow> State_Monad.return (Inl e)
          | Inr f \<Rightarrow> do {
              emit_tool_execution_end E f;
              trm \<leftarrow> settle_result E f;
              stop \<leftarrow> is_cancelled E;
              State_Monad.return (Inr (trm, f, stop)) } })"

fun sequential_calls ::
  "('f::{plus,zero}, 'w) loop_env \<Rightarrow> ('f, 'w) agent_context \<Rightarrow> 'f assistant_message \<Rightarrow> 'f tool_call list
     \<Rightarrow> ('f, 'w, 'f loop_error + ('f tool_result_message \<times> 'f finalized_call) list) io" where
  "sequential_calls E ctx am [] = State_Monad.return (Inr [])"
| "sequential_calls E ctx am (c # cs) = do {
     r \<leftarrow> sequential_call E ctx am c;
     case r of
       Inl e \<Rightarrow> State_Monad.return (Inl e)
     | Inr (trm, f, stop) \<Rightarrow>
         if stop then State_Monad.return (Inr [(trm, f)])
         else do {
           others \<leftarrow> sequential_calls E ctx am cs;
           State_Monad.return (map_sum id ((#) (trm, f)) others) } }"

definition execute_tool_calls_sequential ::
  "('f::{plus,zero}, 'w) loop_env \<Rightarrow> ('f, 'w) agent_context \<Rightarrow> 'f assistant_message \<Rightarrow> 'f tool_call list
     \<Rightarrow> ('f, 'w, 'f loop_error + 'f executed_batch) io" where
  "execute_tool_calls_sequential E ctx am calls = do {
     r \<leftarrow> sequential_calls E ctx am calls;
     State_Monad.return
       (map_sum id (\<lambda>xs. \<lparr>eb_messages = map fst xs, eb_terminate = should_terminate_tool_batch (map snd xs)\<rparr>) r) }"

subsection \<open>Parallel execution\<close>

record ('f, 'w) running_call =
  rc_index :: nat
  rc_tool_call :: "'f tool_call"
  rc_tool :: "('f, 'w) agent_tool"
  rc_args :: "'f json"

type_synonym 'f completed_calls = "(nat \<times> 'f finalized_call) list"

text \<open>One owned future: execute, finalize, and an error result in place of a panic.\<close>

definition settle_call ::
  "('f::{plus,zero}, 'w) loop_env \<Rightarrow> ('f, 'w) agent_context \<Rightarrow> 'f assistant_message \<Rightarrow> ('f, 'w) running_call
     \<Rightarrow> ('f, 'w, nat \<times> 'f finalized_call) io" where
  "settle_call E ctx am rc = do {
     f \<leftarrow> execute_and_finalize E ctx am (rc_tool_call rc) (rc_tool rc) (rc_args rc);
     State_Monad.return (rc_index rc,
       case f of Some x \<Rightarrow> x
       | None \<Rightarrow> \<lparr>fz_tool_call = rc_tool_call rc, fz_result = create_error_tool_result ''tool task panicked'',
           fz_is_error = True\<rparr>) }"

fun take_running ::
  "nat \<Rightarrow> ('f, 'w) running_call list \<Rightarrow> (('f, 'w) running_call \<times> ('f, 'w) running_call list) option" where
  "take_running i [] = None"
| "take_running i (r # rs) =
     (if rc_index r = i then Some (r, rs)
      else map_option (\<lambda>(x, others). (x, r # others)) (take_running i rs))"

fun settle_calls ::
  "('f::{plus,zero}, 'w) loop_env \<Rightarrow> ('f, 'w) agent_context \<Rightarrow> 'f assistant_message \<Rightarrow> nat list
     \<Rightarrow> ('f, 'w) running_call list \<times> 'f completed_calls
     \<Rightarrow> ('f, 'w, ('f, 'w) running_call list \<times> 'f completed_calls) io" where
  "settle_calls E ctx am [] rc = State_Monad.return rc"
| "settle_calls E ctx am (i # is) (running, completed) =
     (case take_running i running of
        None \<Rightarrow> settle_calls E ctx am is (running, completed)
      | Some (rc, others) \<Rightarrow> do {
          x \<leftarrow> settle_call E ctx am rc;
          settle_calls E ctx am is (others, completed @ [x]) })"

definition drive_tool_calls_while ::
  "('f::{plus,zero}, 'w) loop_env \<Rightarrow> ('f, 'w) agent_context \<Rightarrow> 'f assistant_message \<Rightarrow> ('f, 'w, 'a) io
     \<Rightarrow> ('f, 'w) running_call list \<times> 'f completed_calls
     \<Rightarrow> ('f, 'w, 'a \<times> ('f, 'w) running_call list \<times> 'f completed_calls) io" where
  "drive_tool_calls_while E ctx am future rc = do {
     x \<leftarrow> future;
     is \<leftarrow> world_op (le_settles E (map rc_index (fst rc)));
     rc \<leftarrow> settle_calls E ctx am is rc;
     State_Monad.return (x, rc) }"

definition prepare_in_batch ::
  "('f, 'w) loop_env \<Rightarrow> ('f, 'w) agent_context \<Rightarrow> 'f assistant_message \<Rightarrow> 'f tool_call
     \<Rightarrow> ('f, 'w, ('f, 'w) prepared) io" where
  "prepare_in_batch E ctx am c =
     (case invalid_tool_call_reason c of
        Some reason \<Rightarrow> State_Monad.return (refused reason)
      | None \<Rightarrow> do { emit_execution_start E c; prepare_tool_call E ctx am c })"

text \<open>The body of the first loop for one call. The slots are \<open>finalized_by_index\<close>.\<close>

definition prepare_slot ::
  "('f::{plus,zero}, 'w) loop_env \<Rightarrow> ('f, 'w) agent_context \<Rightarrow> 'f assistant_message
     \<Rightarrow> ('f, 'w) running_call list \<times> 'f completed_calls \<Rightarrow> 'f finalized_call option list \<Rightarrow> 'f tool_call
     \<Rightarrow> ('f, 'w, (('f, 'w) running_call list \<times> 'f completed_calls) \<times> 'f finalized_call option list) io" where
  "prepare_slot E ctx am rc slots c = do {
     (p, rc) \<leftarrow> drive_tool_calls_while E ctx am (prepare_in_batch E ctx am c) rc;
     case p of
       Prepared_Immediate result is_error \<Rightarrow>
         (let f = \<lparr>fz_tool_call = c, fz_result = result, fz_is_error = is_error\<rparr> in do {
            (_, rc) \<leftarrow> drive_tool_calls_while E ctx am (emit_tool_execution_end E f) rc;
            State_Monad.return (rc, slots @ [Some f]) })
     | Prepared_Ready tool args \<Rightarrow>
         State_Monad.return
           ((fst rc @ [\<lparr>rc_index = length slots, rc_tool_call = c, rc_tool = tool, rc_args = args\<rparr>], snd rc),
            slots @ [None]) }"

fun parallel_prepare ::
  "('f::{plus,zero}, 'w) loop_env \<Rightarrow> ('f, 'w) agent_context \<Rightarrow> 'f assistant_message
     \<Rightarrow> ('f, 'w) running_call list \<times> 'f completed_calls \<Rightarrow> 'f finalized_call option list \<Rightarrow> 'f tool_call list
     \<Rightarrow> ('f, 'w, (('f, 'w) running_call list \<times> 'f completed_calls) \<times> 'f finalized_call option list) io" where
  "parallel_prepare E ctx am rc slots [] = State_Monad.return (rc, slots)"
| "parallel_prepare E ctx am rc slots (c # cs) = do {
     (rc, slots) \<leftarrow> prepare_slot E ctx am rc slots c;
     stop \<leftarrow> is_cancelled E;
     if stop then State_Monad.return (rc, slots) else parallel_prepare E ctx am rc slots cs }"

text \<open>\<open>running.next()\<close>: one of the running calls, whichever the runtime yields.\<close>

definition next_running ::
  "('f::{plus,zero}, 'w) loop_env \<Rightarrow> ('f, 'w) agent_context \<Rightarrow> 'f assistant_message \<Rightarrow> ('f, 'w) running_call list
     \<Rightarrow> ('f, 'w, ((nat \<times> 'f finalized_call) \<times> ('f, 'w) running_call list) option) io" where
  "next_running E ctx am running =
     (case running of
        [] \<Rightarrow> State_Monad.return None
      | r # rs \<Rightarrow> do {
          i \<leftarrow> world_op (le_next E (map rc_index running));
          (let (rc, others) = (case take_running i running of Some x \<Rightarrow> x | None \<Rightarrow> (r, rs)) in do {
             x \<leftarrow> settle_call E ctx am rc;
             State_Monad.return (Some (x, others)) }) })"

text \<open>
  The second loop: the end of every call is reported, in the order of completion. Each round takes
  one call out of \<open>completed\<close> or \<open>running\<close>, so as many rounds as there are calls are enough.
\<close>

definition next_completed ::
  "('f::{plus,zero}, 'w) loop_env \<Rightarrow> ('f, 'w) agent_context \<Rightarrow> 'f assistant_message
     \<Rightarrow> ('f, 'w) running_call list \<times> 'f completed_calls
     \<Rightarrow> ('f, 'w, ((nat \<times> 'f finalized_call) \<times> ('f, 'w) running_call list \<times> 'f completed_calls) option) io" where
  "next_completed E ctx am rc =
     (case snd rc of
        x # cs \<Rightarrow> State_Monad.return (Some (x, fst rc, cs))
      | [] \<Rightarrow> do {
          y \<leftarrow> next_running E ctx am (fst rc);
          State_Monad.return (map_option (\<lambda>(x, others). (x, others, [])) y) })"

fun parallel_drain ::
  "('f::{plus,zero}, 'w) loop_env \<Rightarrow> ('f, 'w) agent_context \<Rightarrow> 'f assistant_message \<Rightarrow> nat
     \<Rightarrow> ('f, 'w) running_call list \<times> 'f completed_calls \<Rightarrow> 'f finalized_call option list
     \<Rightarrow> ('f, 'w, 'f finalized_call option list) io" where
  "parallel_drain E ctx am 0 rc slots = State_Monad.return slots"
| "parallel_drain E ctx am (Suc fuel) rc slots = do {
     next_call \<leftarrow> next_completed E ctx am rc;
     case next_call of
       None \<Rightarrow> State_Monad.return slots
     | Some ((i, f), rc) \<Rightarrow> do {
         (_, rc) \<leftarrow> drive_tool_calls_while E ctx am (emit_tool_execution_end E f) rc;
         parallel_drain E ctx am fuel rc (slots[i := Some f]) } }"

text \<open>The last loop: the result messages in source order. An empty slot is the \<open>expect\<close> that panics.\<close>

fun slot_results ::
  "('f, 'w) loop_env \<Rightarrow> 'f finalized_call option list
     \<Rightarrow> ('f, 'w, 'f loop_error + ('f tool_result_message \<times> 'f finalized_call) list) io" where
  "slot_results E [] = State_Monad.return (Inr [])"
| "slot_results E (None # slots) = State_Monad.return (Inl Loop_Panic)"
| "slot_results E (Some f # slots) = do {
     trm \<leftarrow> settle_result E f;
     others \<leftarrow> slot_results E slots;
     State_Monad.return (map_sum id ((#) (trm, f)) others) }"

definition execute_tool_calls_parallel ::
  "('f::{plus,zero}, 'w) loop_env \<Rightarrow> ('f, 'w) agent_context \<Rightarrow> 'f assistant_message \<Rightarrow> 'f tool_call list
     \<Rightarrow> ('f, 'w, 'f loop_error + 'f executed_batch) io" where
  "execute_tool_calls_parallel E ctx am calls = do {
     (rc, slots) \<leftarrow> parallel_prepare E ctx am ([], []) [] calls;
     slots \<leftarrow> parallel_drain E ctx am (length calls) rc slots;
     r \<leftarrow> slot_results E slots;
     State_Monad.return
       (map_sum id (\<lambda>xs. \<lparr>eb_messages = map fst xs, eb_terminate = should_terminate_tool_batch (map snd xs)\<rparr>) r) }"

definition has_sequential :: "('f, 'w) agent_context \<Rightarrow> 'f tool_call list \<Rightarrow> bool" where
  "has_sequential ctx calls \<longleftrightarrow>
     (\<exists>c \<in> set calls. case find_tool ctx (tcall_name c) of None \<Rightarrow> False | Some t \<Rightarrow> at_mode t = Mode_Sequential)"

definition execute_tool_calls ::
  "('f::{plus,zero}, 'w) loop_env \<Rightarrow> ('f, 'w) agent_context \<Rightarrow> 'f assistant_message \<Rightarrow> 'f tool_call list
     \<Rightarrow> ('f, 'w, 'f loop_error + 'f executed_batch) io" where
  "execute_tool_calls E ctx am calls = do {
     rejected \<leftarrow> reject_ambiguous_tool_batch E calls;
     case rejected of
       Some b \<Rightarrow> State_Monad.return (Inr b)
     | None \<Rightarrow>
         if lc_tool_execution (le_config E) = Mode_Sequential \<or> has_sequential ctx calls
         then execute_tool_calls_sequential E ctx am calls
         else execute_tool_calls_parallel E ctx am calls }"

subsection \<open>One turn\<close>

record ('f, 'w) loop_state =
  ls_context :: "('f, 'w) agent_context"
  ls_new_messages :: "'f agent_message list"
  ls_pending_assistant :: "'f assistant_message option"
  ls_cache :: "'f message_cache"
  ls_first_turn :: bool
  ls_pending :: "'f agent_message list"
  ls_has_more :: bool

text \<open>How a turn ends: the run is over, or the inner loop goes on.\<close>

datatype ('f, 'w) turn_end =
    Run_Over "'f loop_error + loop_outcome" "'f agent_message list"
  | Run_On "('f, 'w) loop_state"

definition record_message :: "'f agent_message \<Rightarrow> ('f, 'w) loop_state \<Rightarrow> ('f, 'w) loop_state" where
  "record_message m st =
     st\<lparr>ls_context := push_message m (ls_context st), ls_new_messages := ls_new_messages st @ [m]\<rparr>"

definition inject_message :: "('f, 'w) loop_env \<Rightarrow> 'f agent_message \<Rightarrow> ('f, 'w, unit) io" where
  "inject_message E m = do { emit_injected E (Message_Start None m); emit_event E (Message_End None m) }"

definition inject_pending :: "('f, 'w) loop_env \<Rightarrow> ('f, 'w) loop_state \<Rightarrow> ('f, 'w, ('f, 'w) loop_state) io" where
  "inject_pending E st =
     (if ls_pending st = [] then State_Monad.return st
      else do {
        for_each (inject_message E) (ls_pending st);
        State_Monad.return
          (fold record_message (ls_pending st) (st\<lparr>ls_cache := cache_invalidate (ls_cache st), ls_pending := []\<rparr>)) })"

definition next_response ::
  "('f, 'w) loop_env \<Rightarrow> ('f, 'w) loop_state \<Rightarrow> ('f, 'w, ('f agent_error + 'f assistant_message) \<times> ('f, 'w) loop_state) io" where
  "next_response E st =
     (case ls_pending_assistant st of
        Some m \<Rightarrow> State_Monad.return (Inr m, st\<lparr>ls_pending_assistant := None\<rparr>)
      | None \<Rightarrow> do {
          ((r, ctx), cache) \<leftarrow> stream_assistant_response E (ls_context st) (ls_cache st);
          let st = st\<lparr>ls_context := ctx, ls_cache := cache\<rparr>;
          State_Monad.return
            (case r of Inl e \<Rightarrow> (Inl e, st)
             | Inr m \<Rightarrow> (Inr m, st\<lparr>ls_new_messages := ls_new_messages st @ [AgentMessage_Assistant m]\<rparr>)) })"

definition emit_turn_end ::
  "('f, 'w) loop_env \<Rightarrow> 'f assistant_message \<Rightarrow> 'f tool_result_message list \<Rightarrow> ('f, 'w, unit) io" where
  "emit_turn_end E m results = do {
     n \<leftarrow> pending_count E;
     emit_event E (Turn_End (AgentMessage_Assistant m) results n) }"

definition end_run ::
  "('f, 'w) loop_env \<Rightarrow> loop_outcome \<Rightarrow> 'f agent_message list \<Rightarrow> ('f, 'w, ('f, 'w) turn_end) io" where
  "end_run E outcome msgs = do {
     emit_event E (Agent_End msgs);
     State_Monad.return (Run_Over (Inr outcome) msgs) }"

definition apply_update :: "('f, 'w) turn_update option \<Rightarrow> ('f, 'w) loop_state \<Rightarrow> ('f, 'w) loop_state" where
  "apply_update u st =
     (case Option.bind u tu_context of
        None \<Rightarrow> st
      | Some ctx \<Rightarrow> st\<lparr>ls_context := ctx, ls_cache := cache_invalidate (ls_cache st)\<rparr>)"

definition turn_context_of ::
  "('f, 'w) loop_state \<Rightarrow> 'f assistant_message \<Rightarrow> 'f tool_result_message list \<Rightarrow> ('f, 'w) turn_context" where
  "turn_context_of st m results =
     \<lparr>tc_message = m, tc_tool_results = results, tc_context = ls_context st, tc_new_messages = ls_new_messages st\<rparr>"

definition assistant_terminal ::
  "api \<Rightarrow> string \<Rightarrow> string \<Rightarrow> stop_reason \<Rightarrow> string \<Rightarrow> i64 \<Rightarrow> 'f::zero assistant_message" where
  "assistant_terminal a p m reason message t =
     \<lparr>am_content = [], am_api = a, am_provider = p, am_model = m, am_response_model = None,
      am_response_id = None, am_usage = usage_zero, am_stop_reason = reason,
      am_deferred = None, am_error_message = Some message, am_raw_stop_reason = None,
      am_end_turn = None, am_timestamp = t\<rparr>"

text \<open>The wrap-up of a cancelled run: queued steering is kept, and a new aborted message ends it.\<close>

definition abort_run ::
  "('f::{plus,zero}, 'w) loop_env \<Rightarrow> 'f assistant_message \<Rightarrow> ('f, 'w) loop_state \<Rightarrow> ('f, 'w, ('f, 'w) turn_end) io" where
  "abort_run E m st = do {
     emit_event E Turn_Start;
     t \<leftarrow> now_ms E;
     let aborted = assistant_terminal (am_api m) (am_provider m) (am_model m) StopReason_Aborted ''Operation aborted'' t;
     for_each (inject_message E) (ls_pending st);
     emit_message E (AgentMessage_Assistant aborted);
     emit_turn_end E aborted [];
     end_run E Outcome_Aborted (ls_new_messages st @ ls_pending st @ [AgentMessage_Assistant aborted]) }"

definition run_tool_calls ::
  "('f::{plus,zero}, 'w) loop_env \<Rightarrow> ('f, 'w) agent_context \<Rightarrow> 'f assistant_message \<Rightarrow> 'f tool_call list
     \<Rightarrow> ('f, 'w, 'f loop_error + 'f executed_batch) io" where
  "run_tool_calls E ctx m calls =
     (if calls = [] then State_Monad.return (Inr \<lparr>eb_messages = [], eb_terminate = True\<rparr>)
      else if am_stop_reason m = StopReason_Length then do {
        b \<leftarrow> fail_tool_calls_from_truncated_message E calls;
        State_Monad.return (Inr b) }
      else execute_tool_calls E ctx m calls)"

text \<open>The steering queued meanwhile is kept, also when a cancelled tool turn ends the run.\<close>

definition continue_or_abort ::
  "('f::{plus,zero}, 'w) loop_env \<Rightarrow> 'f assistant_message \<Rightarrow> 'f tool_call list \<Rightarrow> ('f, 'w) loop_state
     \<Rightarrow> ('f, 'w, ('f, 'w) turn_end) io" where
  "continue_or_abort E m calls st = do {
     pending \<leftarrow> drain_steering E;
     c \<leftarrow> is_cancelled E;
     if c \<and> calls \<noteq> [] then abort_run E m (st\<lparr>ls_pending := pending\<rparr>)
     else State_Monad.return (Run_On (st\<lparr>ls_pending := pending\<rparr>)) }"

text \<open>After the tool batch: the hooks, the end of the turn, and whether the run stops here.\<close>

definition finish_turn ::
  "('f::{plus,zero}, 'w) loop_env \<Rightarrow> 'f assistant_message \<Rightarrow> 'f tool_call list \<Rightarrow> 'f tool_result_message list
     \<Rightarrow> ('f, 'w) loop_state \<Rightarrow> ('f, 'w, ('f, 'w) turn_end) io" where
  "finish_turn E m calls results st = do {
     u \<leftarrow> (if results = [] then State_Monad.return None
           else turn_hook (lc_after_tool_results (le_config E)) (turn_context_of st m results));
     let st = apply_update u st;
     emit_turn_end E m results;
     u \<leftarrow> turn_hook (lc_prepare_next_turn (le_config E)) (turn_context_of st m results);
     let st = apply_update u st;
     stop \<leftarrow> should_stop_after_turn E (turn_context_of st m results);
     c \<leftarrow> (if stop then is_cancelled E else State_Monad.return False);
     if stop \<and> \<not> (c \<and> calls \<noteq> []) then end_run E Outcome_Completed (ls_new_messages st)
     else continue_or_abort E m calls st }"

text \<open>The tool calls of a response, their results, and the rest of its turn.\<close>

definition complete_turn ::
  "('f::{plus,zero}, 'w) loop_env \<Rightarrow> 'f assistant_message \<Rightarrow> ('f, 'w) loop_state \<Rightarrow> ('f, 'w, ('f, 'w) turn_end) io" where
  "complete_turn E m st =
     (let calls = tool_calls_of (am_content m) in do {
        batch \<leftarrow> run_tool_calls E (ls_context st) m calls;
        case batch of
          Inl e \<Rightarrow> State_Monad.return (Run_Over (Inl e) (ls_new_messages st))
        | Inr b \<Rightarrow>
            finish_turn E m calls (eb_messages b)
              (fold record_message (map AgentMessage_ToolResult (eb_messages b)) (st\<lparr>ls_has_more := \<not> eb_terminate b\<rparr>)) })"

definition loop_turn ::
  "('f::{plus,zero}, 'w) loop_env \<Rightarrow> ('f, 'w) loop_state \<Rightarrow> ('f, 'w, ('f, 'w) turn_end) io" where
  "loop_turn E st = do {
     (if ls_first_turn st then State_Monad.return () else emit_event E Turn_Start);
     st \<leftarrow> inject_pending E (st\<lparr>ls_first_turn := False\<rparr>);
     (r, st) \<leftarrow> next_response E st;
     case r of
       Inl e \<Rightarrow> State_Monad.return (Run_Over (Inl (Loop_Error e)) (ls_new_messages st))
     | Inr m \<Rightarrow>
         if am_stop_reason m = StopReason_Error \<or> am_stop_reason m = StopReason_Aborted then do {
           emit_turn_end E m [];
           end_run E (outcome_from_stop (am_stop_reason m)) (ls_new_messages st) }
         else complete_turn E m st }"

subsection \<open>The run\<close>

text \<open>Both loops: the inner one while there is work, else the follow-ups, else the end.\<close>

fun run_rounds ::
  "('f::{plus,zero}, 'w) loop_env \<Rightarrow> nat \<Rightarrow> ('f, 'w) loop_state
     \<Rightarrow> ('f, 'w, (('f loop_error + loop_outcome) \<times> 'f agent_message list) option) io" where
  "run_rounds E 0 st = State_Monad.return None"
| "run_rounds E (Suc fuel) st =
     (if ls_has_more st \<or> ls_pending st \<noteq> [] then do {
        t \<leftarrow> loop_turn E st;
        case t of
          Run_Over r msgs \<Rightarrow> State_Monad.return (Some (r, msgs))
        | Run_On st \<Rightarrow> run_rounds E fuel st }
      else do {
        follow_ups \<leftarrow> drain_follow_up E;
        if follow_ups \<noteq> [] then run_rounds E fuel (st\<lparr>ls_pending := follow_ups, ls_has_more := True\<rparr>)
        else do {
          emit_event E (Agent_End (ls_new_messages st));
          State_Monad.return (Some (Inr Outcome_Completed, ls_new_messages st)) } })"

definition run_loop ::
  "('f::{plus,zero}, 'w) loop_env \<Rightarrow> nat \<Rightarrow> ('f, 'w) agent_context \<Rightarrow> 'f agent_message list \<Rightarrow> 'f assistant_message option
     \<Rightarrow> ('f, 'w, (('f loop_error + loop_outcome) \<times> 'f agent_message list) option) io" where
  "run_loop E fuel ctx new_messages pending_assistant = do {
     pending \<leftarrow> drain_steering E;
     run_rounds E fuel
       \<lparr>ls_context = ctx, ls_new_messages = new_messages, ls_pending_assistant = pending_assistant,
        ls_cache = cache_new, ls_first_turn = True, ls_pending = pending, ls_has_more = True\<rparr> }"

text \<open>What an entry point returns: the new messages, or the error of the run.\<close>

definition new_messages_of ::
  "(('f loop_error + loop_outcome) \<times> 'f agent_message list) option \<Rightarrow> ('f loop_error + 'f agent_message list) option" where
  "new_messages_of r =
     map_option (\<lambda>(res, msgs). case res of Inl e \<Rightarrow> Inl e | Inr _ \<Rightarrow> Inr msgs) r"

definition begin_run :: "('f, 'w) loop_env \<Rightarrow> ('f, 'w, unit) io" where
  "begin_run E = do { emit_event E Agent_Start; emit_event E Turn_Start }"

definition run_agent_loop ::
  "('f::{plus,zero}, 'w) loop_env \<Rightarrow> nat \<Rightarrow> 'f agent_message list \<Rightarrow> ('f, 'w) agent_context
     \<Rightarrow> ('f, 'w, ('f loop_error + 'f agent_message list) option) io" where
  "run_agent_loop E fuel prompts ctx = do {
     begin_run E;
     for_each (emit_message E) prompts;
     r \<leftarrow> run_loop E fuel (ctx\<lparr>ac_messages := ac_messages ctx @ prompts\<rparr>) prompts None;
     State_Monad.return (new_messages_of r) }"

definition run_agent_loop_continue ::
  "('f::{plus,zero}, 'w) loop_env \<Rightarrow> nat \<Rightarrow> ('f, 'w) agent_context
     \<Rightarrow> ('f, 'w, ('f loop_error + 'f agent_message list) option) io" where
  "run_agent_loop_continue E fuel ctx =
     (if ac_messages ctx = [] then
        State_Monad.return (Some (Inl (Loop_Error (AgentError_State ''cannot continue: no messages in context''))))
      else if is_assistant (last (ac_messages ctx)) then
        State_Monad.return (Some (Inl (Loop_Error (AgentError_State ''cannot continue from message role: assistant''))))
      else do {
        begin_run E;
        r \<leftarrow> run_loop E fuel ctx [] None;
        State_Monad.return (new_messages_of r) })"

definition run_agent_loop_from_assistant ::
  "('f::{plus,zero}, 'w) loop_env \<Rightarrow> nat \<Rightarrow> ('f, 'w) agent_context
     \<Rightarrow> ('f, 'w, ('f loop_error + 'f agent_message list) option) io" where
  "run_agent_loop_from_assistant E fuel ctx =
     (case (if ac_messages ctx = [] then None else Some (last (ac_messages ctx))) of
        Some (AgentMessage_Assistant m) \<Rightarrow> do {
          begin_run E;
          r \<leftarrow> run_loop E fuel ctx [] (Some m);
          State_Monad.return (new_messages_of r) }
      | _ \<Rightarrow> State_Monad.return (Some (Inl (Loop_Error (AgentError_State
          ''cannot continue from an assistant whose tools already ran: the last message is not an              assistant message'')))))"

end
