(* ===== verification/Agent_Trace.thy ===== *)
theory Agent_Trace
  imports Agent_Run
begin

text \<open>
  A small program logic for the loop: \<open>traces m P\<close> says that \<open>m\<close>, started anywhere, only
  appends effects, and that what it appended and its result satisfy \<open>P\<close>. Its rules follow the
  structure of the code; the lemmas about single operations are collected in \<open>trace_rules\<close>.
\<close>

named_theorems trace_rules \<open>what the operations of the loop append to the trace\<close>

definition traces :: "('f, 'w, 'a) io \<Rightarrow> ('f effect list \<Rightarrow> 'a \<Rightarrow> bool) \<Rightarrow> bool" where
  "traces m P \<longleftrightarrow> (\<forall>s. \<exists>ts. io_trace (snd (run_state m s)) = io_trace s @ ts \<and> P ts (fst (run_state m s)))"

lemma tracesD:
  assumes "traces m P" "run_state m s = (x, s')"
  shows "\<exists>ts. io_trace s' = io_trace s @ ts \<and> P ts x"
  using assms by (metis fst_conv snd_conv traces_def)

lemma traces_mono: "traces m Q \<Longrightarrow> (\<And>ts x. Q ts x \<Longrightarrow> P ts x) \<Longrightarrow> traces m P"
  unfolding traces_def by blast

lemma traces_conj: "traces m P \<Longrightarrow> traces m Q \<Longrightarrow> traces m (\<lambda>ts x. P ts x \<and> Q ts x)"
  unfolding traces_def by (metis same_append_eq)

lemma traces_return [trace_rules]: "P [] x \<Longrightarrow> traces (State_Monad.return x) P"
  by (simp add: traces_def)

lemma traces_bind:
  assumes "traces m Q" and "\<And>ts x. Q ts x \<Longrightarrow> traces (f x) (\<lambda>us. P (ts @ us))"
  shows "traces (State_Monad.bind m f) P"
  unfolding traces_def
proof (intro allI)
  fix s
  obtain ts where ts: "io_trace (snd (run_state m s)) = io_trace s @ ts" "Q ts (fst (run_state m s))"
    using assms(1) unfolding traces_def by blast
  obtain us where "io_trace (snd (run_state (f (fst (run_state m s))) (snd (run_state m s)))) =
      io_trace s @ ts @ us" "P (ts @ us) (fst (run_state (f (fst (run_state m s))) (snd (run_state m s))))"
    using assms(2) [OF ts(2)] ts(1) unfolding traces_def by (metis append_assoc)
  then show "\<exists>us. io_trace (snd (run_state (State_Monad.bind m f) s)) = io_trace s @ us
      \<and> P us (fst (run_state (State_Monad.bind m f) s))"
    by (auto simp: split_beta)
qed

lemma traces_world_op [trace_rules]:
  assumes "\<And>w. P [] (fst (f w))"
  shows "traces (world_op f) P"
  using assms by (auto simp: traces_def world_op_def split: prod.split) (metis fst_conv)

lemma traces_note [trace_rules]: "P [x] () \<Longrightarrow> traces (note_effect x) P"
  by (simp add: traces_def note_effect_def)

lemma traces_deliver [trace_rules]: "P [x] () \<Longrightarrow> traces (deliver E x) P"
  unfolding deliver_def
  by (rule traces_bind [OF traces_note [where P = "\<lambda>ts _. ts = [x]"]]) (auto intro: traces_world_op)

lemma traces_emit [trace_rules]:
  "P [Fx_Emit ev] () \<Longrightarrow> traces (emit_event E ev) P"
  "P [Fx_Inject ev] () \<Longrightarrow> traces (emit_injected E ev) P"
  "P [Fx_Try ev] () \<Longrightarrow> traces (try_emit E ev) P"
  by (simp_all add: emit_event_def emit_injected_def try_emit_def traces_deliver)

lemma traces_cancelled: "(\<And>b. P [] b) \<Longrightarrow> traces (is_cancelled E) P"
  unfolding is_cancelled_def by (rule traces_world_op)

lemma traces_now [trace_rules]: "(\<And>t. P [] t) \<Longrightarrow> traces (now_ms E) P"
  unfolding now_ms_def
  by (rule traces_bind [OF traces_world_op [where P = "\<lambda>ts _. ts = []"]])
    (auto simp: traces_def Let_def)

lemma traces_drain:
  assumes "P [] []" "\<And>ms. P [Fx_Drain ms] ms"
  shows "traces (drain_hook h) P"
proof (cases h)
  case (Some f)
  show ?thesis
    unfolding drain_hook_def Some option.case
    by (rule traces_bind [OF traces_world_op [where P = "\<lambda>ts _. ts = []"]], rule refl,
        rule traces_bind [OF traces_note [where P = "\<lambda>ts _. ts = [Fx_Drain ms]" for ms]], rule refl,
        rule traces_return) (simp add: assms(2))
qed (simp add: drain_hook_def traces_return assms(1))

lemma traces_drains:
  "P [] [] \<Longrightarrow> (\<And>ms. P [Fx_Drain ms] ms) \<Longrightarrow> traces (drain_steering E) P"
  "P [] [] \<Longrightarrow> (\<And>ms. P [Fx_Drain ms] ms) \<Longrightarrow> traces (drain_follow_up E) P"
  by (simp_all add: drain_steering_def drain_follow_up_def traces_drain)

lemma traces_pending_count [trace_rules]: "(\<And>n. P [] n) \<Longrightarrow> traces (pending_count E) P"
  unfolding pending_count_def by (auto intro!: trace_rules split: option.split)

lemma traces_turn_hook [trace_rules]: "(\<And>u. P [] u) \<Longrightarrow> traces (turn_hook h t) P"
  unfolding turn_hook_def by (auto intro!: trace_rules split: option.split)

lemma traces_should_stop [trace_rules]: "(\<And>b. P [] b) \<Longrightarrow> traces (should_stop_after_turn E t) P"
  unfolding should_stop_after_turn_def by (auto intro!: trace_rules split: option.split)

lemma traces_for_each:
  assumes "\<And>x. x \<in> set xs \<Longrightarrow> traces (f x) (\<lambda>ts _. Q x ts)"
    and "\<And>tss. list_all2 Q xs tss \<Longrightarrow> P (concat tss) ()"
  shows "traces (for_each f xs) P"
  using assms
proof (induction xs arbitrary: P)
  case Nil
  then show ?case using Nil.prems(2) [of "[]"] by (simp add: trace_rules)
next
  case (Cons x xs)
  have step: "traces (for_each f xs) (\<lambda>us. P (ts @ us))" if "Q x ts" for ts
  proof (rule Cons.IH)
    show "\<And>y. y \<in> set xs \<Longrightarrow> traces (f y) (\<lambda>ts _. Q y ts)" using Cons.prems(1) by simp
    fix tss assume "list_all2 Q xs tss"
    then show "P (ts @ concat tss) ()" using Cons.prems(2) [of "ts # tss"] that by simp
  qed
  show ?case unfolding for_each.simps
    by (rule traces_bind [OF Cons.prems(1)]) (simp_all add: step)
qed

subsection \<open>Reading a trace\<close>

text \<open>The messages whose end is reported, and the executions.\<close>

fun ended_message :: "'f effect \<Rightarrow> 'f agent_message option" where
  "ended_message (Fx_Emit (Message_End _ m)) = Some m"
| "ended_message (Fx_Inject (Message_End _ m)) = Some m"
| "ended_message (Fx_Try (Message_End _ m)) = Some m"
| "ended_message _ = None"

definition ended_messages :: "'f effect list \<Rightarrow> 'f agent_message list" where
  "ended_messages ts = filter_map ended_message ts"

fun is_agent_end :: "'f effect \<Rightarrow> bool" where
  "is_agent_end (Fx_Emit (Agent_End _)) = True"
| "is_agent_end _ = False"

fun executed_call :: "'f effect \<Rightarrow> (string \<times> 'f json) option" where
  "executed_call (Fx_Execute i _ a) = Some (i, a)"
| "executed_call _ = None"

definition executed_calls :: "'f effect list \<Rightarrow> (string \<times> 'f json) list" where
  "executed_calls ts = filter_map executed_call ts"

lemma ended_messages_simps [simp]:
  "ended_messages [] = []"
  "ended_messages (x # ts) = (case ended_message x of None \<Rightarrow> ended_messages ts | Some m \<Rightarrow> m # ended_messages ts)"
  "ended_messages (ts @ us) = ended_messages ts @ ended_messages us"
  by (simp_all add: ended_messages_def split: option.split)

lemma executed_calls_simps [simp]:
  "executed_calls [] = []"
  "executed_calls (x # ts) = (case executed_call x of None \<Rightarrow> executed_calls ts | Some c \<Rightarrow> c # executed_calls ts)"
  "executed_calls (ts @ us) = executed_calls ts @ executed_calls us"
  by (simp_all add: executed_calls_def split: option.split)

text \<open>The calls whose end is reported, in the order of the reports.\<close>

fun finished_call :: "'f effect \<Rightarrow> string option" where
  "finished_call (Fx_Emit (Tool_Execution_End i _ _ _)) = Some i"
| "finished_call _ = None"

definition finished_calls :: "'f effect list \<Rightarrow> string list" where
  "finished_calls ts = filter_map finished_call ts"

lemma finished_calls_simps [simp]:
  "finished_calls [] = []"
  "finished_calls (x # ts) = (case finished_call x of None \<Rightarrow> finished_calls ts | Some c \<Rightarrow> c # finished_calls ts)"
  "finished_calls (ts @ us) = finished_calls ts @ finished_calls us"
  by (simp_all add: finished_calls_def split: option.split)

text \<open>
  The summary of a stretch of the trace that does not end the run: the messages it reports, the
  executions, and the calls it reports as finished.
\<close>

definition summary ::
  "'f agent_message list \<Rightarrow> (string \<times> 'f json) list \<Rightarrow> string list \<Rightarrow> 'f effect list \<Rightarrow> bool" where
  "summary ms xs fs ts \<longleftrightarrow> ended_messages ts = ms \<and> executed_calls ts = xs \<and> finished_calls ts = fs
     \<and> \<not> list_ex is_agent_end ts"

lemma summary_Nil [simp]: "summary ms xs fs [] \<longleftrightarrow> ms = [] \<and> xs = [] \<and> fs = []"
  by (auto simp: summary_def)

lemma summary_append:
  "summary ms xs fs ts \<Longrightarrow> summary ms' xs' fs' us \<Longrightarrow> summary (ms @ ms') (xs @ xs') (fs @ fs') (ts @ us)"
  by (simp add: summary_def)

lemma summary_Cons:
  "summary ms xs fs ts \<Longrightarrow> \<not> is_agent_end x \<Longrightarrow>
     summary ((case ended_message x of None \<Rightarrow> [] | Some m \<Rightarrow> [m]) @ ms)
       ((case executed_call x of None \<Rightarrow> [] | Some c \<Rightarrow> [c]) @ xs)
       ((case finished_call x of None \<Rightarrow> [] | Some c \<Rightarrow> [c]) @ fs) (x # ts)"
  by (simp add: summary_def split: option.split)

lemma summary_single:
  "summary ms xs fs [x] \<longleftrightarrow> \<not> is_agent_end x \<and> ms = (case ended_message x of None \<Rightarrow> [] | Some m \<Rightarrow> [m])
     \<and> xs = (case executed_call x of None \<Rightarrow> [] | Some c \<Rightarrow> [c])
     \<and> fs = (case finished_call x of None \<Rightarrow> [] | Some c \<Rightarrow> [c])"
  by (auto simp: summary_def split: option.split)

text \<open>Steps that neither report a message nor execute or finish a call.\<close>

abbreviation quiet :: "'f effect list \<Rightarrow> bool" where
  "quiet ts \<equiv> summary [] [] [] ts"

lemma quiet_append: "quiet ts \<Longrightarrow> summary ms xs fs us \<Longrightarrow> summary ms xs fs (ts @ us)"
  using summary_append [of "[]" "[]" "[]"] by fastforce

lemma append_quiet: "summary ms xs fs ts \<Longrightarrow> quiet us \<Longrightarrow> summary ms xs fs (ts @ us)"
  using summary_append [of ms xs fs ts "[]" "[]" "[]"] by fastforce

lemma quiet_concat: "list_all2 (\<lambda>_. quiet) xs tss \<Longrightarrow> quiet (concat tss)"
  by (induction rule: list_all2_induct) (auto intro: quiet_append)

lemma traces_traverse:
  assumes "\<And>x. x \<in> set xs \<Longrightarrow> traces (f x) (\<lambda>ts y. summary (g y) [] (h x) ts \<and> R x y)"
  shows "traces (State_Monad.traverse_list f xs)
    (\<lambda>ts ys. summary (concat (map g ys)) [] (concat (map h xs)) ts \<and> list_all2 R xs ys)"
  using assms
proof (induction xs)
  case (Cons x xs)
  show ?case unfolding State_Monad.traverse_list.simps
  proof (rule traces_bind [OF Cons.prems], simp)
    fix ts y assume first: "summary (g y) [] (h x) ts \<and> R x y"
    have rest: "traces (State_Monad.traverse_list f xs)
        (\<lambda>ts ys. summary (concat (map g ys)) [] (concat (map h xs)) ts \<and> list_all2 R xs ys)"
      using Cons.IH Cons.prems by simp
    show "traces (State_Monad.bind (State_Monad.traverse_list f xs) (\<lambda>ys. State_Monad.return (y # ys)))
        (\<lambda>us ys. summary (concat (map g ys)) [] (concat (map h (x # xs))) (ts @ us) \<and> list_all2 R (x # xs) ys)"
      by (rule traces_bind [OF rest], rule traces_return)
        (use first summary_append [of "g y" "[]" "h x" ts _ "[]"] in fastforce)
  qed
qed (simp add: trace_rules)

end
