(* ===== verification/Agent_Invariant.thy ===== *)
theory Agent_Invariant
  imports Agent_Trace
begin

text \<open>
  Invariants of a run. \<open>keeps I m Q\<close>: started where \<open>I\<close> holds, \<open>m\<close> ends where \<open>I\<close> holds, with
  a result that satisfies \<open>Q\<close>. Contracts say what the surroundings of the loop owe an invariant:
  \<open>calls_invariant\<close> is enough for executing tool calls, \<open>batch_invariant\<close> for streaming a response as
  well, \<open>turn_invariant\<close> for the rest of a turn, \<open>run_invariant\<close>, which joins them, for whole runs. The loop itself keeps whatever they keep.
\<close>

definition keeps :: "(('f, 'w) io_state \<Rightarrow> bool) \<Rightarrow> ('f, 'w, 'a) io \<Rightarrow> ('a \<Rightarrow> bool) \<Rightarrow> bool" where
  "keeps I m Q \<longleftrightarrow> (\<forall>s. I s \<longrightarrow> I (snd (run_state m s)) \<and> Q (fst (run_state m s)))"

lemma keepsD: "keeps I m Q \<Longrightarrow> run_state m s = (x, s') \<Longrightarrow> I s \<Longrightarrow> I s' \<and> Q x"
  by (metis fst_conv keeps_def snd_conv)

lemma keeps_mono: "keeps I m Q \<Longrightarrow> (\<And>x. Q x \<Longrightarrow> R x) \<Longrightarrow> keeps I m R"
  by (simp add: keeps_def)

lemma keeps_weaken: "keeps I m Q \<Longrightarrow> keeps I m (\<lambda>_. True)"
  by (simp add: keeps_def)

lemma keeps_return: "Q x \<Longrightarrow> keeps I (State_Monad.return x) Q"
  by (simp add: keeps_def)

lemma keeps_bind: "keeps I m R \<Longrightarrow> (\<And>x. R x \<Longrightarrow> keeps I (f x) Q) \<Longrightarrow> keeps I (State_Monad.bind m f) Q"
  by (simp add: keeps_def split_beta)

lemma keeps_then: "keeps I m (\<lambda>_. True) \<Longrightarrow> (\<And>x. keeps I (f x) Q) \<Longrightarrow> keeps I (State_Monad.bind m f) Q"
  by (rule keeps_bind)

lemma keeps_world_op:
  "keeps I (world_op f) Q \<longleftrightarrow> (\<forall>s. I s \<longrightarrow> I (s\<lparr>io_world := snd (f (io_world s))\<rparr>) \<and> Q (fst (f (io_world s))))"
  by (simp add: keeps_def world_op_def split_beta)

lemma keeps_note: "keeps I (note_effect x) Q \<longleftrightarrow> (\<forall>s. I s \<longrightarrow> I (s\<lparr>io_trace := io_trace s @ [x]\<rparr>) \<and> Q ())"
  by (simp add: keeps_def note_effect_def)

lemma keeps_for_each: "(\<And>x. x \<in> set xs \<Longrightarrow> keeps I (f x) (\<lambda>_. True)) \<Longrightarrow> keeps I (for_each f xs) (\<lambda>_. True)"
  by (induction xs) (auto intro!: keeps_return keeps_then)

lemma keeps_traverse: "(\<And>x. keeps I (f x) (\<lambda>_. True)) \<Longrightarrow> keeps I (State_Monad.traverse_list f xs) (\<lambda>_. True)"
  by (induction xs) (auto intro!: keeps_return keeps_then)

text \<open>An optional hook whose every use keeps the invariant.\<close>

definition keeps_hook :: "(('f, 'w) io_state \<Rightarrow> bool) \<Rightarrow> ('a \<Rightarrow> 'w \<Rightarrow> 'b \<times> 'w) option \<Rightarrow> ('b \<Rightarrow> bool) \<Rightarrow> bool" where
  "keeps_hook I h Q \<longleftrightarrow> (\<forall>f x. h = Some f \<longrightarrow> keeps I (world_op (f x)) Q)"

lemma keeps_hookD: "keeps_hook I h Q \<Longrightarrow> h = Some f \<Longrightarrow> keeps I (world_op (f x)) Q"
  by (simp add: keeps_hook_def)

lemma keeps_hook_None [simp]: "keeps_hook I None Q"
  by (simp add: keeps_hook_def)

lemma keeps_hook_Some [simp]: "keeps_hook I (Some f) Q \<longleftrightarrow> (\<forall>x. keeps I (world_op (f x)) Q)"
  by (simp add: keeps_hook_def)

text \<open>The effects of a batch: everything but injected messages.\<close>

fun delivered_plain :: "'f effect \<Rightarrow> bool" where
  "delivered_plain (Fx_Emit _) = True"
| "delivered_plain (Fx_Try _) = True"
| "delivered_plain _ = False"

definition tools_ok :: "(('f, 'w) agent_tool \<Rightarrow> bool) \<Rightarrow> ('f, 'w) agent_context \<Rightarrow> bool" where
  "tools_ok P ctx \<longleftrightarrow> (\<forall>t \<in> set (ac_tools ctx). P t)"

lemma tools_ok_found: "tools_ok P ctx \<Longrightarrow> find_tool ctx n = Some t \<Longrightarrow> P t"
  unfolding tools_ok_def find_tool_def by (metis find_Some_iff nth_mem)

locale calls_invariant =
  fixes E :: "('f::{plus,zero}, 'w) loop_env"
    and I :: "('f, 'w) io_state \<Rightarrow> bool"
    and P :: "('f, 'w) agent_tool \<Rightarrow> bool"
  assumes deliver_keeps: "delivered_plain x \<Longrightarrow> keeps I (deliver E x) (\<lambda>_. True)"
    and execution_keeps: "keeps I (note_effect (Fx_Execute i n a)) (\<lambda>_. True)"
    and cancelled_keeps: "keeps I (is_cancelled E) (\<lambda>_. True)"
    and clock_keeps: "keeps I (now_ms E) (\<lambda>_. True)"
    and runtime_keeps: "keeps I (world_op (le_settles E is)) (\<lambda>_. True)" "keeps I (world_op (le_next E is)) (\<lambda>_. True)"
    and before_keeps: "keeps_hook I (lc_before_tool_call (le_config E)) (\<lambda>_. True)"
    and after_keeps: "keeps_hook I (lc_after_tool_call (le_config E)) (\<lambda>_. True)"
    and tool_keeps: "P t \<Longrightarrow> keeps I (world_op (at_execute t i a)) (\<lambda>_. True)"
begin

lemma emit_keeps: "keeps I (emit_event E ev) (\<lambda>_. True)" "keeps I (try_emit E ev) (\<lambda>_. True)"
  by (simp_all add: emit_event_def try_emit_def deliver_keeps)

lemmas primitive_keeps = emit_keeps cancelled_keeps clock_keeps

subsection \<open>The events of a response\<close>

text \<open>They keep the tools of the context, too.\<close>

lemma finish_keeps: "keeps I (finish_response E added result ctx) (\<lambda>x. ac_tools (snd x) = ac_tools ctx)"
  by (auto simp: finish_response_def Let_def replace_last_message_def push_message_def split: option.split
      intro!: keeps_return keeps_then primitive_keeps)

lemma events_keep: "keeps I (fold_events E result added evs ctx) (\<lambda>x. ac_tools (snd x) = ac_tools ctx)"
proof (induction evs arbitrary: added ctx)
  case (Cons ev evs)
  have start: "keeps I (fold_events E result True evs (push_message m ctx)) (\<lambda>x. ac_tools (snd x) = ac_tools ctx)" for m
    using Cons.IH [of True "push_message m ctx"] by (simp add: push_message_def)
  show ?case
    using Cons.IH start finish_keeps
    by (cases ev) (auto simp: Let_def intro!: keeps_then primitive_keeps)
qed (simp add: finish_keeps)

subsection \<open>One tool call\<close>

text \<open>A prepared call that is ready runs one of the context's tools.\<close>

definition ready_ok :: "('f, 'w) prepared \<Rightarrow> bool" where
  "ready_ok p \<longleftrightarrow> (case p of Prepared_Ready t _ \<Rightarrow> P t | Prepared_Immediate _ _ \<Rightarrow> True)"

lemma ready_ok_simps [simp]: "ready_ok (Prepared_Ready t a) \<longleftrightarrow> P t" "ready_ok (Prepared_Immediate r e)" "ready_ok (refused s)"
  by (simp_all add: ready_ok_def refused_def)

lemma ready_keeps: "P tool \<Longrightarrow> keeps I (ready_unless_cancelled E tool args) ready_ok"
  unfolding ready_unless_cancelled_def by (auto intro!: keeps_then [OF cancelled_keeps] keeps_return)

lemma authorize_keeps: "P tool \<Longrightarrow> keeps I (authorize_call E ctx am c tool args) ready_ok"
  unfolding authorize_call_def
  by (auto simp: Let_def split: option.split intro!: ready_keeps keeps_return
      keeps_then [OF keeps_hookD [OF before_keeps]] keeps_then [OF cancelled_keeps])

lemma prepare_keeps: "tools_ok P ctx \<Longrightarrow> keeps I (prepare_tool_call E ctx am c) ready_ok"
  unfolding prepare_tool_call_def
  by (auto simp: Let_def split: option.split sum.split intro!: keeps_return authorize_keeps dest: tools_ok_found)

lemma update_keeps: "keeps I (on_update E accepting c args partial) (\<lambda>_. True)"
  unfolding on_update_def by (auto intro!: keeps_return keeps_then primitive_keeps)

lemma execute_keeps: "P tool \<Longrightarrow> keeps I (execute_prepared_tool_call E c tool args) (\<lambda>_. True)"
  unfolding execute_prepared_tool_call_def run_execute_def
  by (intro keeps_then keeps_for_each execution_keeps tool_keeps update_keeps keeps_return TrueI)

lemma finalize_keeps: "keeps I (finalize_executed_tool_call E ctx am c args out) (\<lambda>_. True)"
  unfolding finalize_executed_tool_call_def
  by (auto split: option.split intro!: keeps_return keeps_then [OF keeps_hookD [OF after_keeps]])

lemma call_keeps: "P tool \<Longrightarrow> keeps I (execute_and_finalize E ctx am c tool args) (\<lambda>_. True)"
  unfolding execute_and_finalize_def
  by (auto split: option.split intro!: keeps_return keeps_then [OF execute_keeps] keeps_then [OF finalize_keeps])

lemma result_keeps: "keeps I (create_tool_result_message E c r e) (\<lambda>_. True)"
  unfolding create_tool_result_message_def by (intro keeps_then clock_keeps keeps_return TrueI)

lemma message_keeps: "keeps I (emit_message E m) (\<lambda>_. True)"
  unfolding emit_message_def by (intro keeps_then emit_keeps)

lemma report_keeps: "keeps I (settle_result E f) (\<lambda>_. True)" "keeps I (emit_tool_execution_end E f) (\<lambda>_. True)"
  "keeps I (emit_execution_start E c) (\<lambda>_. True)"
  unfolding settle_result_def emit_tool_result_message_def emit_tool_execution_end_def emit_execution_start_def
  by (intro keeps_then result_keeps message_keeps emit_keeps keeps_return TrueI)+

lemma fail_keeps: "keeps I (fail_call E c reason) (\<lambda>_. True)"
  unfolding fail_call_def Let_def emit_tool_result_message_def
  by (intro keeps_then result_keeps message_keeps report_keeps keeps_return TrueI)

subsection \<open>Batches\<close>

lemma one_call_keeps: "tools_ok P ctx \<Longrightarrow> keeps I (run_one_tool_call E ctx am c) (\<lambda>_. True)"
  unfolding run_one_tool_call_def
  by (rule keeps_bind [OF prepare_keeps])
    (auto simp: ready_ok_def split: prepared.split intro!: keeps_return keeps_then [OF call_keeps])

lemma sequential_call_keeps: "tools_ok P ctx \<Longrightarrow> keeps I (sequential_call E ctx am c) (\<lambda>_. True)"
  unfolding sequential_call_def Let_def
  by (auto split: option.split sum.split intro!: keeps_return keeps_then [OF fail_keeps] keeps_then [OF report_keeps(3)]
      keeps_then [OF one_call_keeps] keeps_then [OF report_keeps(2)] keeps_then [OF report_keeps(1)]
      keeps_then [OF cancelled_keeps])

lemma sequential_keeps: "tools_ok P ctx \<Longrightarrow> keeps I (sequential_calls E ctx am cs) (\<lambda>_. True)"
  by (induction cs)
    (auto split: sum.split intro!: keeps_return keeps_then [OF sequential_call_keeps] elim: keeps_then)

text \<open>The running calls of a parallel batch all run one of the context's tools.\<close>

definition running_ok :: "('f, 'w) running_call list \<Rightarrow> bool" where
  "running_ok rs \<longleftrightarrow> (\<forall>r \<in> set rs. P (rc_tool r))"

lemma running_ok_simps [simp]:
  "running_ok []" "running_ok (r # rs) \<longleftrightarrow> P (rc_tool r) \<and> running_ok rs"
  "running_ok (rs @ rs') \<longleftrightarrow> running_ok rs \<and> running_ok rs'"
  by (auto simp: running_ok_def)

lemma take_running_ok:
  "take_running i rs = Some (r, rs') \<Longrightarrow> running_ok rs \<Longrightarrow> P (rc_tool r) \<and> running_ok rs'"
  by (induction rs arbitrary: rs') (auto split: if_splits)

lemma settle_keeps: "P (rc_tool r) \<Longrightarrow> keeps I (settle_call E ctx am r) (\<lambda>_. True)"
  unfolding settle_call_def by (intro keeps_then [OF call_keeps] keeps_return TrueI)

lemma settles_keep: "running_ok (fst rc) \<Longrightarrow> keeps I (settle_calls E ctx am is rc) (\<lambda>rc. running_ok (fst rc))"
proof (induction "is" arbitrary: rc)
  case (Cons i "is")
  then show ?case
    by (cases rc)
      (auto split: option.split dest: take_running_ok intro!: keeps_then [OF settle_keeps])
qed (simp add: keeps_return)

lemma drive_keeps:
  assumes "keeps I future Q" "running_ok (fst rc)"
  shows "keeps I (drive_tool_calls_while E ctx am future rc) (\<lambda>x. Q (fst x) \<and> running_ok (fst (snd x)))"
  unfolding drive_tool_calls_while_def
  by (rule keeps_bind [OF assms(1)], rule keeps_then [OF runtime_keeps(1)], rule keeps_bind [OF settles_keep],
      rule assms(2), rule keeps_return) simp

lemma batch_prepare_keeps: "tools_ok P ctx \<Longrightarrow> keeps I (prepare_in_batch E ctx am c) ready_ok"
  unfolding prepare_in_batch_def
  by (auto split: option.split intro!: keeps_return keeps_then [OF report_keeps(3)] prepare_keeps)

lemma slot_keeps:
  assumes "tools_ok P ctx" "running_ok (fst rc)"
  shows "keeps I (prepare_slot E ctx am rc slots c) (\<lambda>x. running_ok (fst (fst x)))"
proof -
  have ended: "keeps I (State_Monad.bind (drive_tool_calls_while E ctx am (emit_tool_execution_end E f) rc')
      (\<lambda>(_, rc). State_Monad.return (rc, slots'))) (\<lambda>x. running_ok (fst (fst x)))"
    if "running_ok (fst rc')" for f rc' and slots' :: "'f finalized_call option list"
    by (rule keeps_bind [OF drive_keeps [OF report_keeps(2) that]]) (auto intro: keeps_return)
  show ?thesis
    unfolding prepare_slot_def Let_def
    by (rule keeps_bind [OF drive_keeps [OF batch_prepare_keeps]])
      (auto simp: assms split: prepared.split intro!: keeps_return ended)
qed

lemma parallel_prepare_keeps:
  "tools_ok P ctx \<Longrightarrow> running_ok (fst rc) \<Longrightarrow>
     keeps I (parallel_prepare E ctx am rc slots cs) (\<lambda>x. running_ok (fst (fst x)))"
proof (induction cs arbitrary: rc slots)
  case (Cons c cs)
  show ?case
    unfolding parallel_prepare.simps
    by (rule keeps_bind [OF slot_keeps [OF Cons.prems]])
      (auto intro!: keeps_then [OF cancelled_keeps] keeps_return Cons.IH Cons.prems(1))
qed (simp add: keeps_return)

lemma next_keeps:
  assumes "running_ok (fst rc)"
  shows "keeps I (next_completed E ctx am rc) (\<lambda>x. \<forall>y. x = Some y \<longrightarrow> running_ok (fst (snd y)))"
proof (cases "snd rc")
  case (Cons x xs)
  then show ?thesis using assms by (simp add: next_completed_def keeps_return)
next
  case Nil
  have "keeps I (next_running E ctx am (fst rc)) (\<lambda>x. \<forall>y. x = Some y \<longrightarrow> running_ok (snd y))"
  proof (cases "fst rc")
    case (Cons r rs)
    have "P (rc_tool r) \<and> running_ok rs" using assms Cons by simp
    moreover have "\<And>i x. take_running i (r # rs) = Some x \<Longrightarrow> P (rc_tool (fst x)) \<and> running_ok (snd x)"
      using take_running_ok [of _ "r # rs"] assms Cons by (metis prod.collapse)
    ultimately show ?thesis
      unfolding next_running_def Cons list.case Let_def
      by (intro keeps_then [OF runtime_keeps(2)])
        (auto simp del: take_running.simps split: option.split prod.split
          intro!: keeps_then [OF settle_keeps] keeps_return)
  qed (simp add: next_running_def keeps_return)
  then show ?thesis
    unfolding next_completed_def Nil list.case
    by (rule keeps_bind) (auto intro!: keeps_return)
qed

lemma drain_keeps: "running_ok (fst rc) \<Longrightarrow> keeps I (parallel_drain E ctx am fuel rc slots) (\<lambda>_. True)"
proof (induction fuel arbitrary: rc slots)
  case (Suc fuel)
  have go: "keeps I (State_Monad.bind (drive_tool_calls_while E ctx am (emit_tool_execution_end E f) rc')
      (\<lambda>(_, rc). parallel_drain E ctx am fuel rc slots')) (\<lambda>_. True)" if "running_ok (fst rc')" for f rc' slots'
    by (rule keeps_bind [OF drive_keeps [OF report_keeps(2) that]]) (auto intro: Suc.IH)
  show ?case
    unfolding parallel_drain.simps
    by (rule keeps_bind [OF next_keeps [OF Suc.prems]]) (auto split: option.split intro!: keeps_return go)
qed (simp add: keeps_return)

lemma slot_results_keep: "keeps I (slot_results E slots) (\<lambda>_. True)"
proof (induction slots)
  case (Cons slot slots)
  then show ?case
    by (cases slot) (auto intro!: keeps_return keeps_then [OF report_keeps(1)] elim: keeps_then)
qed (simp add: keeps_return)

lemma reject_keeps: "keeps I (reject_ambiguous_tool_batch E calls) (\<lambda>_. True)"
  unfolding reject_ambiguous_tool_batch_def
  by (auto intro!: keeps_return keeps_then [OF keeps_traverse] fail_keeps)

lemma truncated_keeps: "keeps I (fail_tool_calls_from_truncated_message E calls) (\<lambda>_. True)"
  unfolding fail_tool_calls_from_truncated_message_def
  by (auto split: option.split intro!: keeps_then [OF reject_keeps] keeps_return keeps_then [OF keeps_traverse]
      keeps_then [OF report_keeps(3)] fail_keeps)

lemma parallel_keeps: "tools_ok P ctx \<Longrightarrow> keeps I (execute_tool_calls_parallel E ctx am calls) (\<lambda>_. True)"
  unfolding execute_tool_calls_parallel_def
  by (rule keeps_bind [OF parallel_prepare_keeps])
    (auto intro!: keeps_then [OF drain_keeps] keeps_then [OF slot_results_keep] keeps_return)

lemma execute_calls_keeps: "tools_ok P ctx \<Longrightarrow> keeps I (execute_tool_calls E ctx am calls) (\<lambda>_. True)"
  unfolding execute_tool_calls_def execute_tool_calls_sequential_def
  by (auto split: option.split intro!: keeps_then [OF reject_keeps] keeps_return parallel_keeps
      keeps_then [OF sequential_keeps])

lemma calls_keep: "tools_ok P ctx \<Longrightarrow> keeps I (run_tool_calls E ctx m calls) (\<lambda>_. True)"
  unfolding run_tool_calls_def
  by (auto intro!: keeps_return keeps_then [OF truncated_keeps] execute_calls_keeps)

end

text \<open>Streaming a response takes a provider, a converter and its hooks in addition.\<close>

locale batch_invariant = calls_invariant E I P
  for E :: "('f::{plus,zero}, 'w) loop_env"
    and I :: "('f, 'w) io_state \<Rightarrow> bool"
    and P :: "('f, 'w) agent_tool \<Rightarrow> bool" +
  assumes request_keeps: "keeps I (note_effect (Fx_Request lx opts)) (\<lambda>_. True)"
    and stream_keeps: "keeps I (world_op (le_stream_fn E md lx opts)) (\<lambda>_. True)"
    and convert_keeps: "keeps I (world_op (lc_convert_to_llm (le_config E) ms)) (\<lambda>_. True)"
    and transform_keeps: "keeps_hook I (lc_transform_context (le_config E)) (\<lambda>_. True)"
    and api_key_keeps: "keeps_hook I (lc_get_api_key (le_config E)) (\<lambda>_. True)"
begin

subsection \<open>Streaming\<close>

lemma history_keeps: "keeps I (convert_history E ctx) (\<lambda>_. True)"
  unfolding convert_history_def
  by (rule keeps_then)
    (auto intro!: keeps_return convert_keeps keeps_hookD [OF transform_keeps] split: option.split)

lemma key_keeps: "keeps I (resolve_api_key E) (\<lambda>_. True)"
  unfolding resolve_api_key_def
  by (auto intro!: keeps_return keeps_then keeps_hookD [OF api_key_keeps] split: option.split)

lemma response_keeps:
  "keeps I (stream_assistant_response E ctx cache) (\<lambda>x. ac_tools (snd (fst x)) = ac_tools ctx)"
proof -
  obtain cached cache' where take: "take_messages cache ctx (le_config E) = (cached, cache')" by fastforce
  have history: "keeps I (case cached of Some ms \<Rightarrow> State_Monad.return ms | None \<Rightarrow> convert_history E ctx) (\<lambda>_. True)"
    by (cases cached) (auto intro: keeps_return history_keeps)
  have open': "keeps I (open_stream E lx opts) (\<lambda>_. True)" for lx opts
    unfolding open_stream_def by (intro keeps_then request_keeps stream_keeps)
  show ?thesis
    unfolding stream_assistant_response_def take Let_def prod.case
    by (intro keeps_then [OF history] keeps_then [OF key_keeps] keeps_then [OF open'] keeps_bind [OF events_keep] keeps_return) simp
qed

end

subsection \<open>Runs\<close>

text \<open>A new context must bring tools that keep the invariant, too.\<close>

definition update_ok :: "(('f, 'w) agent_tool \<Rightarrow> bool) \<Rightarrow> ('f, 'w) turn_update option \<Rightarrow> bool" where
  "update_ok P u \<longleftrightarrow> (\<forall>ctx. Option.bind u tu_context = Some ctx \<longrightarrow> tools_ok P ctx)"

lemma tools_ok_record [simp]: "ac_tools (ls_context (fold record_message ms st)) = ac_tools (ls_context st)"
  by (induction ms arbitrary: st) (simp_all add: record_message_def push_message_def)

lemma tools_ok_update: "update_ok P u \<Longrightarrow> tools_ok P (ls_context st) \<Longrightarrow> tools_ok P (ls_context (apply_update u st))"
  by (auto simp: update_ok_def apply_update_def split: option.split)

text \<open>What a turn does around its response takes the queues and the hooks of a turn.\<close>

locale turn_invariant = calls_invariant E I P
  for E :: "('f::{plus,zero}, 'w) loop_env"
    and I :: "('f, 'w) io_state \<Rightarrow> bool"
    and P :: "('f, 'w) agent_tool \<Rightarrow> bool" +
  assumes inject_keeps: "keeps I (deliver E (Fx_Inject ev)) (\<lambda>_. True)"
    and drained_keeps: "keeps I (drain_steering E) (\<lambda>_. True)" "keeps I (drain_follow_up E) (\<lambda>_. True)"
    and results_hook_keeps: "keeps_hook I (lc_after_tool_results (le_config E)) (update_ok P)"
    and turn_hook_keeps: "keeps_hook I (lc_prepare_next_turn (le_config E)) (update_ok P)"
    and stop_keeps: "keeps_hook I (lc_should_stop_after_turn (le_config E)) (\<lambda>_. True)"
begin

lemma injection_keeps: "keeps I (inject_message E m) (\<lambda>_. True)"
  unfolding inject_message_def emit_injected_def by (intro keeps_then inject_keeps emit_keeps)

lemma pending_keeps:
  "tools_ok P (ls_context st) \<Longrightarrow> keeps I (inject_pending E st) (\<lambda>st. tools_ok P (ls_context st))"
  unfolding inject_pending_def
  by (auto intro!: keeps_return keeps_then [OF keeps_for_each] injection_keeps simp: tools_ok_def)

lemma turn_end_keeps: "keeps I (emit_turn_end E m results) (\<lambda>_. True)"
proof -
  have "keeps I (pending_count E) (\<lambda>_. True)"
    by (auto simp: pending_count_def keeps_world_op split: option.split intro!: keeps_return)
  then show ?thesis unfolding emit_turn_end_def by (intro keeps_then emit_keeps)
qed

text \<open>A turn that goes on leaves a context whose tools keep the invariant.\<close>

definition going_ok :: "('f, 'w) turn_end \<Rightarrow> bool" where
  "going_ok t \<longleftrightarrow> (case t of Run_On st \<Rightarrow> tools_ok P (ls_context st) | Run_Over _ _ \<Rightarrow> True)"

lemma going_ok_simps [simp]: "going_ok (Run_On st) \<longleftrightarrow> tools_ok P (ls_context st)" "going_ok (Run_Over r msgs)"
  by (simp_all add: going_ok_def)

lemma end_keeps: "keeps I (end_run E outcome msgs) going_ok"
  unfolding end_run_def by (intro keeps_then emit_keeps keeps_return) simp

lemma abort_keeps: "keeps I (abort_run E m st) going_ok"
  unfolding abort_run_def Let_def
  by (intro keeps_then emit_keeps clock_keeps keeps_for_each injection_keeps message_keeps turn_end_keeps end_keeps)

lemma continue_keeps: "tools_ok P (ls_context st) \<Longrightarrow> keeps I (continue_or_abort E m calls st) going_ok"
  unfolding continue_or_abort_def
  by (intro keeps_then drained_keeps cancelled_keeps) (auto intro: abort_keeps keeps_return)

lemma hook_keeps:
  "keeps_hook I h Q \<Longrightarrow> Q None \<Longrightarrow> keeps I (turn_hook h t) Q"
  unfolding turn_hook_def by (auto split: option.split intro: keeps_return)

lemma update_ok_None [simp]: "update_ok P None"
  by (simp add: update_ok_def)

lemma finish_turn_keeps: "tools_ok P (ls_context st) \<Longrightarrow> keeps I (finish_turn E m calls results st) going_ok"
  unfolding finish_turn_def Let_def
proof (rule keeps_bind [where R = "update_ok P"])
  show "keeps I (if results = [] then State_Monad.return None
      else turn_hook (lc_after_tool_results (le_config E)) (turn_context_of st m results)) (update_ok P)"
    by (simp add: keeps_return hook_keeps [OF results_hook_keeps])
  fix u assume "tools_ok P (ls_context st)" "update_ok P u"
  then have 1: "tools_ok P (ls_context (apply_update u st))" by (simp add: tools_ok_update)
  have ask: "keeps I (should_stop_after_turn E t) (\<lambda>_. True)" for t
    unfolding should_stop_after_turn_def using stop_keeps by (auto split: option.split intro: keeps_return)
  have check: "keeps I (if stop then is_cancelled E else State_Monad.return False) (\<lambda>_. True)" for stop
    by (auto intro: cancelled_keeps keeps_return)
  show "keeps I (State_Monad.bind (emit_turn_end E m results) (\<lambda>_.
      State_Monad.bind (turn_hook (lc_prepare_next_turn (le_config E)) (turn_context_of (apply_update u st) m results)) (\<lambda>u'.
        State_Monad.bind (should_stop_after_turn E (turn_context_of (apply_update u' (apply_update u st)) m results)) (\<lambda>stop.
          State_Monad.bind (if stop then is_cancelled E else State_Monad.return False) (\<lambda>c.
            if stop \<and> \<not> (c \<and> calls \<noteq> [])
            then end_run E Outcome_Completed (ls_new_messages (apply_update u' (apply_update u st)))
            else continue_or_abort E m calls (apply_update u' (apply_update u st))))))) going_ok"
    by (rule keeps_then [OF turn_end_keeps], rule keeps_bind [OF hook_keeps [OF turn_hook_keeps]], simp,
        rule keeps_then [OF ask], rule keeps_then [OF check])
      (simp add: end_keeps continue_keeps tools_ok_update 1)
qed

lemma complete_keeps: "tools_ok P (ls_context st) \<Longrightarrow> keeps I (complete_turn E m st) going_ok"
  unfolding complete_turn_def Let_def
  by (rule keeps_then [OF calls_keep])
    (auto split: sum.split intro!: keeps_return finish_turn_keeps simp: tools_ok_def)

lemma begin_keeps: "keeps I (begin_run E) (\<lambda>_. True)"
  unfolding begin_run_def by (intro keeps_then emit_keeps)

end

text \<open>Whole runs take both.\<close>

locale run_invariant = batch_invariant E I P + turn_invariant E I P
  for E :: "('f::{plus,zero}, 'w) loop_env"
    and I :: "('f, 'w) io_state \<Rightarrow> bool"
    and P :: "('f, 'w) agent_tool \<Rightarrow> bool"
begin

lemma answer_keeps:
  assumes "tools_ok P (ls_context st)"
  shows "keeps I (next_response E st) (\<lambda>x. tools_ok P (ls_context (snd x)))"
proof (cases "ls_pending_assistant st")
  case None
  show ?thesis
    unfolding next_response_def None option.case
    by (rule keeps_bind [OF response_keeps])
      (use assms in \<open>auto simp: Let_def tools_ok_def split: sum.splits intro!: keeps_return\<close>)
qed (use assms in \<open>simp add: next_response_def keeps_return\<close>)

lemma turn_keeps:
  assumes "tools_ok P (ls_context st)"
  shows "keeps I (loop_turn E st) going_ok"
proof -
  have start: "keeps I (if ls_first_turn st then State_Monad.return () else emit_event E Turn_Start) (\<lambda>_. True)"
    by (auto intro: keeps_return emit_keeps)
  have failed: "keeps I (State_Monad.bind (emit_turn_end E m []) (\<lambda>_. end_run E outcome msgs)) going_ok" for m outcome msgs
    by (intro keeps_then turn_end_keeps end_keeps)
  show ?thesis
    unfolding loop_turn_def
    by (rule keeps_then [OF start], rule keeps_bind [OF pending_keeps], use assms in simp,
        rule keeps_bind [OF answer_keeps], assumption)
      (auto split: sum.split intro!: keeps_return failed complete_keeps)
qed

lemma rounds_keep: "tools_ok P (ls_context st) \<Longrightarrow> keeps I (run_rounds E fuel st) (\<lambda>_. True)"
proof (induction fuel arbitrary: st)
  case (Suc fuel)
  have turn: "keeps I (State_Monad.bind (loop_turn E st) (\<lambda>t. case t of
      Run_Over r msgs \<Rightarrow> State_Monad.return (Some (r, msgs)) | Run_On st \<Rightarrow> run_rounds E fuel st)) (\<lambda>_. True)"
    by (rule keeps_bind [OF turn_keeps [OF Suc.prems]]) (auto split: turn_end.split intro: keeps_return Suc.IH)
  show ?case
    using turn Suc by (auto intro!: keeps_then drained_keeps emit_keeps keeps_return)
qed (simp add: keeps_return)

lemma run_loop_keeps: "tools_ok P ctx \<Longrightarrow> keeps I (run_loop E fuel ctx new_messages pending) (\<lambda>_. True)"
  unfolding run_loop_def by (rule keeps_then [OF drained_keeps(1)]) (simp add: rounds_keep)

lemma run_keeps: "tools_ok P ctx \<Longrightarrow> keeps I (run_agent_loop E fuel prompts ctx) (\<lambda>_. True)"
  unfolding run_agent_loop_def
  by (intro keeps_then [OF begin_keeps] keeps_then [OF keeps_for_each] message_keeps keeps_then [OF run_loop_keeps]
      keeps_return) (simp_all add: tools_ok_def)

lemma continued_run_keeps: "tools_ok P ctx \<Longrightarrow> keeps I (run_agent_loop_continue E fuel ctx) (\<lambda>_. True)"
  unfolding run_agent_loop_continue_def
  by (auto intro!: keeps_return keeps_then [OF begin_keeps] keeps_then [OF run_loop_keeps])

end

end
