(* ===== verification/Agent_Batches.thy ===== *)
theory Agent_Batches
  imports Agent_Trace "HOL-Library.Multiset"
begin

text \<open>
  What a batch of tool calls does, whichever way it runs: which calls are answered, by which
  messages, what is executed, and with whose approval.
\<close>

lemma distinct_submset:
  assumes "mset xs \<subseteq># mset ys" "distinct ys"
  shows "distinct xs"
proof -
  obtain zs where "mset ys = mset (xs @ zs)"
    using assms(1) by (metis ex_mset mset_append subset_mset.add_diff_inverse)
  then show ?thesis using assms(2) by (metis distinct_append mset_eq_imp_distinct_iff)
qed

subsection \<open>One call\<close>

text \<open>
  The only arguments a call may run with: a valid call that carries no recording, of a known
  tool, with the tool's prepared and validated arguments, let through by the host's hook, which may
  have replaced them.
\<close>

definition hook_allows ::
  "('f, 'w) loop_env \<Rightarrow> ('f, 'w) before_tool_call_context \<Rightarrow> 'f json \<Rightarrow> bool" where
  "hook_allows E bc args \<longleftrightarrow>
     (case lc_before_tool_call (le_config E) of
        None \<Rightarrow> args = bc_args bc
      | Some before \<Rightarrow> \<exists>w. case fst (before bc w) of
            None \<Rightarrow> args = bc_args bc
          | Some br \<Rightarrow> \<not> bt_block br \<and> args = (case bt_args br of None \<Rightarrow> bc_args bc | Some replacement \<Rightarrow> replacement))"

definition approved ::
  "('f, 'w) loop_env \<Rightarrow> ('f, 'w) agent_context \<Rightarrow> 'f assistant_message \<Rightarrow> 'f tool_call \<Rightarrow> 'f json \<Rightarrow> bool" where
  "approved E ctx am c args \<longleftrightarrow>
     invalid_tool_call_reason c = None \<and> tcall_recorded c = None \<and>
     (\<exists>tool prepared_args validated.
        find_tool ctx (tcall_name c) = Some tool
        \<and> at_prepare_arguments tool (tcall_arguments c) = Inr prepared_args
        \<and> le_validate E (at_schema tool) (c\<lparr>tcall_arguments := prepared_args\<rparr>) = Inr validated
        \<and> hook_allows E \<lparr>bc_assistant_message = am, bc_tool_call = c\<lparr>tcall_arguments := prepared_args\<rparr>,
             bc_args = validated, bc_context = ctx\<rparr> args)"

lemma refused_not_ready [simp]: "refused reason \<noteq> Prepared_Ready tool args"
  by (simp add: refused_def)

lemma traces_ready:
  "(P [] (refused ''Operation aborted'')) \<Longrightarrow> P [] (Prepared_Ready tool args) \<Longrightarrow>
     traces (ready_unless_cancelled E tool args) P"
  unfolding ready_unless_cancelled_def
  by (rule traces_bind [OF traces_cancelled [where P = "\<lambda>ts _. ts = []"]]) (auto intro: traces_return)

lemma traces_authorize:
  fixes E :: "('f, 'w) loop_env"
  assumes bc: "bc = \<lparr>bc_assistant_message = am, bc_tool_call = pc, bc_args = args, bc_context = ctx\<rparr>"
  shows "traces (authorize_call E ctx am pc tool args)
    (\<lambda>ts p. ts = [] \<and> (\<forall>t a. p = Prepared_Ready t a \<longrightarrow> t = tool \<and> hook_allows E bc a))"
proof (cases "lc_before_tool_call (le_config E)")
  case None
  then show ?thesis
    unfolding authorize_call_def by (auto simp: bc hook_allows_def intro!: traces_ready)
next
  case (Some before)
  have hook: "traces (world_op (before bc)) (\<lambda>ts r. ts = [] \<and> (\<exists>w. r = fst (before bc w)))"
    by (rule traces_world_op) auto
  show ?thesis
    unfolding authorize_call_def Some option.case bc [symmetric]
  proof (rule traces_bind [OF hook], rule traces_bind [OF traces_cancelled [where P = "\<lambda>ts _. ts = []"]])
    fix ts us :: "'f effect list" and r c
    assume "ts = [] \<and> (\<exists>w. r = fst (before bc w))" "us = []"
    then obtain w where "ts = []" "us = []" and r: "fst (before bc w) = r" by auto
    have allowed: "hook_allows E bc a" if "r = None \<Longrightarrow> a = args"
      "\<And>br. r = Some br \<Longrightarrow> \<not> bt_block br \<and> a = (case bt_args br of None \<Rightarrow> args | Some x \<Rightarrow> x)" for a
      unfolding hook_allows_def Some using that r
      by (auto simp: bc split: option.split intro!: exI [of _ w])
    show "traces (if c then State_Monad.return (refused ''Operation aborted'')
        else case r of None \<Rightarrow> ready_unless_cancelled E tool args
          | Some br \<Rightarrow> let args = case bt_args br of None \<Rightarrow> args | Some replacement \<Rightarrow> replacement in
              if bt_block br then let result = create_error_tool_result
                 (case bt_reason br of None \<Rightarrow> ''Tool execution was blocked'' | Some r \<Rightarrow> r)
                in State_Monad.return
                 (Prepared_Immediate (if bt_terminate br then result\<lparr>atr_terminate := True\<rparr> else result) True)
              else ready_unless_cancelled E tool args)
      (\<lambda>vs p. ts @ us @ vs = [] \<and> (\<forall>t a. p = Prepared_Ready t a \<longrightarrow> t = tool \<and> hook_allows E bc a))"
      using \<open>ts = []\<close> \<open>us = []\<close> allowed
      by (auto simp: Let_def split: option.split intro!: traces_return traces_ready)
  qed auto
qed

lemma traces_prepare [trace_rules]:
  "traces (prepare_tool_call E ctx am c)
     (\<lambda>ts p. ts = [] \<and> (\<forall>tool args. p = Prepared_Ready tool args \<longrightarrow> approved E ctx am c args))"
proof (cases "invalid_tool_call_reason c \<noteq> None \<or> tcall_recorded c \<noteq> None \<or> find_tool ctx (tcall_name c) = None")
  case True
  then show ?thesis
    by (auto simp: prepare_tool_call_def split: option.split sum.split intro!: traces_return)
next
  case False
  then obtain tool where c: "invalid_tool_call_reason c = None" "tcall_recorded c = None"
    and tool: "find_tool ctx (tcall_name c) = Some tool" by auto
  show ?thesis
  proof (cases "at_prepare_arguments tool (tcall_arguments c)")
    case (Inl e)
    then show ?thesis using c tool by (auto simp: prepare_tool_call_def intro!: traces_return)
  next
    case (Inr pargs)
    show ?thesis
    proof (cases "le_validate E (at_schema tool) (c\<lparr>tcall_arguments := pargs\<rparr>)")
      case (Inl e)
      then show ?thesis using c tool Inr by (auto simp: prepare_tool_call_def intro!: traces_return)
    next
      case validated: (Inr v)
      show ?thesis
        using c tool Inr validated
        by (auto simp: prepare_tool_call_def approved_def intro: traces_mono [OF traces_authorize [OF refl]])
    qed
  qed
qed

lemma traces_on_update: "traces (on_update E g c args p) (\<lambda>ts _. quiet ts)"
  unfolding on_update_def
  by (auto intro!: traces_bind [OF traces_cancelled [where P = "\<lambda>ts _. ts = []"]] traces_return traces_emit
      simp: summary_single)

lemma traces_updates: "traces (for_each (on_update E g c args) ps) (\<lambda>ts _. quiet ts)"
  by (rule traces_for_each [where Q = "\<lambda>_. quiet"]) (rule traces_on_update, rule quiet_concat)

lemma traces_execute:
  "traces (execute_prepared_tool_call E c tool args) (\<lambda>ts _. summary [] [(tcall_id c, args)] [] ts)"
  unfolding execute_prepared_tool_call_def
proof (rule traces_bind [where Q = "\<lambda>ts _. summary [] [(tcall_id c, args)] [] ts"])
  show "traces (run_execute tool c args) (\<lambda>ts _. summary [] [(tcall_id c, args)] [] ts)"
    unfolding run_execute_def
    by (rule traces_bind [OF traces_note [where P = "\<lambda>ts _. ts = [Fx_Execute (tcall_id c) (tcall_name c) args]"]])
      (auto intro!: traces_world_op simp: summary_single)
  fix ts and run :: "'a tool_run" assume "summary [] [(tcall_id c, args)] [] ts"
  then show "traces (State_Monad.bind (for_each (on_update E True c args) (tn_updates run))
      (\<lambda>_. State_Monad.bind (for_each (on_update E False c args) (tn_late_updates run)) (\<lambda>_. State_Monad.return r)))
      (\<lambda>us _. summary [] [(tcall_id c, args)] [] (ts @ us))" for r :: "'a executed_outcome option"
    by (auto intro!: traces_bind [OF traces_updates] traces_return append_quiet [OF _ quiet_append])
qed

lemma traces_finalize [trace_rules]:
  "traces (finalize_executed_tool_call E ctx am c args out) (\<lambda>ts f. ts = [] \<and> fz_tool_call f = c)"
  unfolding finalize_executed_tool_call_def
  by (cases "lc_after_tool_call (le_config E)")
    (auto intro!: traces_return traces_bind [OF traces_world_op [where P = "\<lambda>ts _. ts = []"]] split: option.split)

lemma traces_execute_and_finalize:
  "traces (execute_and_finalize E ctx am c tool args)
     (\<lambda>ts f. summary [] [(tcall_id c, args)] [] ts \<and> (\<forall>x. f = Some x \<longrightarrow> fz_tool_call x = c))"
  unfolding execute_and_finalize_def
  by (rule traces_bind [OF traces_execute])
    (auto split: option.split intro!: traces_return traces_bind [OF traces_finalize])

text \<open>The executions of one call: none, or one with approved arguments.\<close>

definition own_execution ::
  "('f, 'w) loop_env \<Rightarrow> ('f, 'w) agent_context \<Rightarrow> 'f assistant_message \<Rightarrow> 'f tool_call \<Rightarrow> (string \<times> 'f json) list \<Rightarrow> bool" where
  "own_execution E ctx am c xs \<longleftrightarrow> xs = [] \<or> (\<exists>a. xs = [(tcall_id c, a)] \<and> approved E ctx am c a)"

lemma traces_run_one:
  fixes E :: "('f::{plus,zero}, 'w) loop_env"
  shows "traces (run_one_tool_call E ctx am c)
     (\<lambda>ts r. (\<exists>xs. summary [] xs [] ts \<and> own_execution E ctx am c xs)
       \<and> (case r of Inl e \<Rightarrow> e = Loop_Panic | Inr f \<Rightarrow> fz_tool_call f = c))"
  unfolding run_one_tool_call_def
proof (rule traces_bind [OF traces_prepare])
  fix ts :: "'f effect list" and p :: "('f, 'w) prepared"
  assume p: "ts = [] \<and> (\<forall>tool args. p = Prepared_Ready tool args \<longrightarrow> approved E ctx am c args)"
  show "traces (case p of
        Prepared_Immediate result is_error \<Rightarrow>
          State_Monad.return (Inr \<lparr>fz_tool_call = c, fz_result = result, fz_is_error = is_error\<rparr>)
      | Prepared_Ready tool args \<Rightarrow> State_Monad.bind (execute_and_finalize E ctx am c tool args)
          (\<lambda>f. State_Monad.return (case f of None \<Rightarrow> Inl Loop_Panic | Some x \<Rightarrow> Inr x)))
     (\<lambda>us r. (\<exists>xs. summary [] xs [] (ts @ us) \<and> own_execution E ctx am c xs)
       \<and> (case r of Inl e \<Rightarrow> e = Loop_Panic | Inr f \<Rightarrow> fz_tool_call f = c))"
  proof (cases p)
    case (Prepared_Immediate result is_error)
    then show ?thesis using p by (auto simp: own_execution_def intro!: traces_return)
  next
    case (Prepared_Ready tool args)
    then have own: "own_execution E ctx am c [(tcall_id c, args)]" using p by (simp add: own_execution_def)
    show ?thesis
      unfolding Prepared_Ready prepared.case
      by (rule traces_bind [OF traces_execute_and_finalize])
        (use p own in \<open>auto intro!: traces_return split: option.split\<close>)
  qed
qed

subsection \<open>The shape of a batch\<close>

definition answer :: "'f tool_call \<Rightarrow> 'f tool_result_message \<Rightarrow> bool" where
  "answer c t \<longleftrightarrow> tr_tool_call_id t = tcall_id c \<and> tr_tool_name t = tcall_name c"

definition never_cancelled :: "('f, 'w) loop_env \<Rightarrow> bool" where
  "never_cancelled E \<longleftrightarrow> (\<forall>w. \<not> fst (lc_is_cancelled (le_config E) w))"

lemma traces_is_cancelled [trace_rules]:
  "traces (is_cancelled E) (\<lambda>ts b. ts = [] \<and> (never_cancelled E \<longrightarrow> \<not> b))"
  unfolding is_cancelled_def by (rule traces_world_op) (simp add: never_cancelled_def)

lemma traces_create_result: "traces (create_tool_result_message E c r e) (\<lambda>ts t. ts = [] \<and> answer c t)"
  unfolding create_tool_result_message_def
  by (rule traces_bind [OF traces_now [where P = "\<lambda>ts _. ts = []"]]) (auto simp: answer_def intro!: traces_return)

lemma traces_emit_message: "traces (emit_message E m) (\<lambda>ts _. summary [m] [] [] ts)"
  unfolding emit_message_def
  by (rule traces_bind [OF traces_emit(1) [where P = "\<lambda>ts _. quiet ts"]])
    (auto intro!: traces_emit quiet_append simp: summary_single)

lemma traces_settle_result:
  "traces (settle_result E f) (\<lambda>ts t. summary [AgentMessage_ToolResult t] [] [] ts \<and> answer (fz_tool_call f) t)"
  unfolding settle_result_def emit_tool_result_message_def
  by (rule traces_bind [OF traces_create_result], rule traces_bind [OF traces_emit_message])
    (auto intro!: traces_return)

lemma traces_execution_end:
  "traces (emit_tool_execution_end E f) (\<lambda>ts _. summary [] [] [tcall_id (fz_tool_call f)] ts)"
  unfolding emit_tool_execution_end_def by (rule traces_emit) (simp add: summary_single)

lemma traces_fail_call:
  "traces (fail_call E c reason) (\<lambda>ts t. summary [AgentMessage_ToolResult t] [] [tcall_id c] ts \<and> answer c t)"
proof -
  have "traces (settle_result E \<lparr>fz_tool_call = c, fz_result = create_error_tool_result reason, fz_is_error = True\<rparr>)
      (\<lambda>us t. summary [AgentMessage_ToolResult t] [] [tcall_id c] (ts @ us) \<and> answer c t)"
    if "summary [] [] [tcall_id c] ts" for ts
    by (rule traces_mono [OF traces_settle_result]) (use summary_append [OF that] in fastforce)
  then show ?thesis
    unfolding fail_call_def Let_def
    by (intro traces_bind [OF traces_execution_end]) (simp add: settle_result_def)
qed

lemma concat_singles [simp]: "concat (map (\<lambda>x. [f x]) xs) = map f xs"
  by (induction xs) simp_all

lemma traces_reject:
  "traces (reject_ambiguous_tool_batch E calls)
     (\<lambda>ts r. case r of None \<Rightarrow> ts = [] \<and> distinct (map tcall_id calls)
       | Some b \<Rightarrow> \<not> distinct (map tcall_id calls) \<and> list_all2 answer calls (eb_messages b)
           \<and> summary (map AgentMessage_ToolResult (eb_messages b)) [] (map tcall_id calls) ts)"
proof (cases "distinct (map tcall_id calls)")
  case True
  then show ?thesis by (auto simp: reject_ambiguous_tool_batch_def intro!: traces_return)
next
  case False
  have "traces (State_Monad.traverse_list (\<lambda>c. fail_call E c duplicate_ids_reason) calls)
      (\<lambda>ts ms. summary (concat (map (\<lambda>t. [AgentMessage_ToolResult t]) ms)) []
         (concat (map (\<lambda>c. [tcall_id c]) calls)) ts \<and> list_all2 answer calls ms)"
    by (rule traces_traverse) (rule traces_fail_call)
  then show ?thesis
    unfolding reject_ambiguous_tool_batch_def if_not_P [OF False]
    by (rule traces_bind) (use False in \<open>auto intro!: traces_return\<close>)
qed

lemma traces_truncated:
  fixes E :: "('f, 'w) loop_env"
  shows "traces (fail_tool_calls_from_truncated_message E calls)
     (\<lambda>ts b. list_all2 answer calls (eb_messages b)
        \<and> summary (map AgentMessage_ToolResult (eb_messages b)) [] (map tcall_id calls) ts)"
  unfolding fail_tool_calls_from_truncated_message_def
proof (rule traces_bind [OF traces_reject])
  fix ts :: "'f effect list" and r :: "'f executed_batch option"
  let ?fail = "\<lambda>c. State_Monad.bind (emit_execution_start E c) (\<lambda>_. fail_call E c (truncated_reason c))"
  let ?P = "\<lambda>ts b. list_all2 answer calls (eb_messages b)
     \<and> summary (map AgentMessage_ToolResult (eb_messages b)) [] (map tcall_id calls) ts"
  assume r: "case r of None \<Rightarrow> ts = [] \<and> distinct (map tcall_id calls)
     | Some b \<Rightarrow> \<not> distinct (map tcall_id calls) \<and> list_all2 answer calls (eb_messages b)
         \<and> summary (map AgentMessage_ToolResult (eb_messages b)) [] (map tcall_id calls) ts"
  have one: "traces (?fail c) (\<lambda>ts t. summary [AgentMessage_ToolResult t] [] [tcall_id c] ts \<and> answer c t)" for c
    unfolding emit_execution_start_def
    by (rule traces_bind [OF traces_emit(1) [where P = "\<lambda>ts _. quiet ts"]])
      (auto simp: summary_single intro: quiet_append traces_mono [OF traces_fail_call])
  have "traces (State_Monad.traverse_list ?fail calls)
      (\<lambda>ts ms. summary (concat (map (\<lambda>t. [AgentMessage_ToolResult t]) ms)) []
         (concat (map (\<lambda>c. [tcall_id c]) calls)) ts \<and> list_all2 answer calls ms)"
    by (rule traces_traverse) (rule one)
  then have all: "traces (State_Monad.bind (State_Monad.traverse_list ?fail calls)
      (\<lambda>messages. State_Monad.return \<lparr>eb_messages = messages, eb_terminate = False\<rparr>)) ?P"
    by (rule traces_bind) (auto intro!: traces_return)
  show "traces (case r of None \<Rightarrow> State_Monad.bind (State_Monad.traverse_list ?fail calls)
      (\<lambda>messages. State_Monad.return \<lparr>eb_messages = messages, eb_terminate = False\<rparr>)
    | Some b \<Rightarrow> State_Monad.return b) (\<lambda>us. ?P (ts @ us))"
    using r all by (cases r) (auto intro: traces_return)
qed

text \<open>
  A batch that ran: at most approved executions of its own calls, no message but tool results, and,
  unless a tool panicked, the results of its first \<open>n\<close> calls in source order; all of them when the run
  is never cancelled.
\<close>

definition batch_ok ::
  "('f, 'w) loop_env \<Rightarrow> ('f, 'w) agent_context \<Rightarrow> 'f assistant_message \<Rightarrow> 'f tool_call list \<Rightarrow> 'f effect list
     \<Rightarrow> 'f loop_error + 'f tool_result_message list \<Rightarrow> bool" where
  "batch_ok E ctx am cs ts r \<longleftrightarrow>
     (\<exists>ms xs fs. summary ms xs fs ts \<and> (\<exists>rs. ms = map AgentMessage_ToolResult rs)
        \<and> (\<forall>(i, a) \<in> set xs. \<exists>c \<in> set cs. tcall_id c = i \<and> approved E ctx am c a)
        \<and> mset (map fst xs) \<subseteq># mset (map tcall_id cs)
        \<and> (case r of Inl e \<Rightarrow> e = Loop_Panic
           | Inr new \<Rightarrow> \<exists>n \<le> length cs. (cs \<noteq> [] \<longrightarrow> 0 < n) \<and> (never_cancelled E \<longrightarrow> n = length cs)
               \<and> list_all2 answer (take n cs) new \<and> ms = map AgentMessage_ToolResult new
               \<and> mset fs = mset (map tcall_id (take n cs))))"

lemma batch_ok_Nil: "batch_ok E ctx am [] [] (Inr [])"
  by (simp add: batch_ok_def)

lemma own_execution_facts:
  assumes "own_execution E ctx am c xs"
  shows "(i, a) \<in> set xs \<Longrightarrow> tcall_id c = i \<and> approved E ctx am c a"
    and "mset (map fst xs) \<subseteq># {#tcall_id c#}"
  using assms by (auto simp: own_execution_def)

lemma batch_ok_panic:
  assumes "summary [] xs fs ts" "own_execution E ctx am c xs"
  shows "batch_ok E ctx am (c # cs) ts (Inl Loop_Panic)"
  unfolding batch_ok_def
  by (intro exI [of _ "[]"] exI [of _ xs] exI [of _ fs] conjI) (use assms own_execution_facts [OF assms(2)] in
    \<open>auto intro: subset_mset.order_trans [of _ "{#tcall_id c#}"]\<close>)

lemma batch_ok_stop:
  assumes "summary [AgentMessage_ToolResult t] xs [tcall_id c] ts" "own_execution E ctx am c xs" "answer c t"
    and "\<not> never_cancelled E"
  shows "batch_ok E ctx am (c # cs) ts (Inr [t])"
  unfolding batch_ok_def
  by (intro exI [of _ "[AgentMessage_ToolResult t]"] exI [of _ xs] exI [of _ "[tcall_id c]"] conjI)
    (use assms own_execution_facts [OF assms(2)] in
      \<open>auto intro!: exI [of _ 1] exI [of _ "[t]"] intro: subset_mset.order_trans [of _ "{#tcall_id c#}"]\<close>)

lemma batch_ok_Cons:
  assumes first: "summary [AgentMessage_ToolResult t] xs [tcall_id c] ts" "own_execution E ctx am c xs" "answer c t"
    and rest: "batch_ok E ctx am cs us r"
  shows "batch_ok E ctx am (c # cs) (ts @ us) (map_sum id ((#) t) r)"
proof -
  obtain ms ys fs where us: "summary ms ys fs us" and ms: "\<exists>rs. ms = map AgentMessage_ToolResult rs"
    and ys: "\<forall>(i, a) \<in> set ys. \<exists>c \<in> set cs. tcall_id c = i \<and> approved E ctx am c a"
      "mset (map fst ys) \<subseteq># mset (map tcall_id cs)"
    and r: "case r of Inl e \<Rightarrow> e = Loop_Panic
      | Inr new \<Rightarrow> \<exists>n \<le> length cs. (cs \<noteq> [] \<longrightarrow> 0 < n) \<and> (never_cancelled E \<longrightarrow> n = length cs)
          \<and> list_all2 answer (take n cs) new \<and> ms = map AgentMessage_ToolResult new
          \<and> mset fs = mset (map tcall_id (take n cs))"
    using rest unfolding batch_ok_def by blast
  have "mset (map fst (xs @ ys)) \<subseteq># mset (map tcall_id (c # cs))"
    using subset_mset.add_mono [OF own_execution_facts(2) [OF first(2)] ys(2)] by simp
  moreover have "\<forall>(i, a) \<in> set (xs @ ys). \<exists>d \<in> set (c # cs). tcall_id d = i \<and> approved E ctx am d a"
    using own_execution_facts(1) [OF first(2)] ys(1) by fastforce
  moreover have "case map_sum id ((#) t) r of Inl e \<Rightarrow> e = Loop_Panic
      | Inr new \<Rightarrow> \<exists>n \<le> length (c # cs). (c # cs \<noteq> [] \<longrightarrow> 0 < n) \<and> (never_cancelled E \<longrightarrow> n = length (c # cs))
          \<and> list_all2 answer (take n (c # cs)) new
          \<and> [AgentMessage_ToolResult t] @ ms = map AgentMessage_ToolResult new
          \<and> mset ([tcall_id c] @ fs) = mset (map tcall_id (take n (c # cs)))"
  proof (cases r)
    case (Inr new)
    then obtain n where "n \<le> length cs" "never_cancelled E \<longrightarrow> n = length cs" "list_all2 answer (take n cs) new"
      "ms = map AgentMessage_ToolResult new" "mset fs = mset (map tcall_id (take n cs))" using r by auto
    then show ?thesis using Inr first(3) by (auto intro!: exI [of _ "Suc n"])
  qed (use r in simp)
  moreover have "\<exists>rs. [AgentMessage_ToolResult t] @ ms = map AgentMessage_ToolResult rs"
    using ms by (auto intro: exI [of _ "t # _"])
  ultimately show ?thesis
    unfolding batch_ok_def using summary_append [OF first(1) us] by blast
qed

subsection \<open>Sequential batches\<close>

lemma traces_start: "traces (emit_execution_start E c) (\<lambda>ts _. quiet ts)"
  unfolding emit_execution_start_def by (rule traces_emit) (simp add: summary_single)

lemma traces_sequential_call:
  fixes E :: "('f::{plus,zero}, 'w) loop_env"
  shows "traces (sequential_call E ctx am c)
     (\<lambda>ts r. \<exists>xs. own_execution E ctx am c xs \<and>
        (case r of Inl e \<Rightarrow> e = Loop_Panic \<and> summary [] xs [] ts
         | Inr (t, f, stop) \<Rightarrow> summary [AgentMessage_ToolResult t] xs [tcall_id c] ts \<and> answer c t
             \<and> (never_cancelled E \<longrightarrow> \<not> stop)))"
proof (cases "invalid_tool_call_reason c")
  case (Some reason)
  then show ?thesis
    by (auto simp: sequential_call_def own_execution_def intro!: traces_bind [OF traces_fail_call] traces_return)
next
  case None
  show ?thesis
    unfolding sequential_call_def None option.case
  proof (rule traces_bind [OF traces_start], rule traces_bind [OF traces_run_one])
    fix us vs :: "'f effect list" and r :: "'f loop_error + 'f finalized_call"
    assume "quiet us" and r: "(\<exists>xs. summary [] xs [] vs \<and> own_execution E ctx am c xs)
      \<and> (case r of Inl e \<Rightarrow> e = Loop_Panic | Inr f \<Rightarrow> fz_tool_call f = c)"
    then obtain xs where xs: "summary [] xs [] (us @ vs)" "own_execution E ctx am c xs"
      by (auto intro: quiet_append)
    have ends: "summary [AgentMessage_ToolResult t] xs [tcall_id c] (us @ vs @ ws @ zs)"
      if "summary [] [] [tcall_id c] ws" "summary [AgentMessage_ToolResult t] [] [] zs" for t ws zs
      using summary_append [OF xs(1) summary_append [OF that]] by simp
    show "traces (case r of Inl e \<Rightarrow> State_Monad.return (Inl e)
        | Inr f \<Rightarrow> State_Monad.bind (emit_tool_execution_end E f) (\<lambda>_. State_Monad.bind (settle_result E f) (\<lambda>t.
            State_Monad.bind (is_cancelled E) (\<lambda>stop. State_Monad.return (Inr (t, f, stop))))))
      (\<lambda>ws r. \<exists>xs. own_execution E ctx am c xs \<and>
        (case r of Inl e \<Rightarrow> e = Loop_Panic \<and> summary [] xs [] (us @ vs @ ws)
         | Inr (t, f, stop) \<Rightarrow> summary [AgentMessage_ToolResult t] xs [tcall_id c] (us @ vs @ ws) \<and> answer c t
             \<and> (never_cancelled E \<longrightarrow> \<not> stop)))"
      using r xs ends
      by (cases r) (auto intro!: traces_return traces_bind [OF traces_execution_end]
        traces_bind [OF traces_settle_result] traces_bind [OF traces_is_cancelled] exI [of _ xs])
  qed
qed

lemma traces_sequential:
  fixes E :: "('f::{plus,zero}, 'w) loop_env"
  shows "traces (sequential_calls E ctx am cs) (\<lambda>ts r. batch_ok E ctx am cs ts (map_sum id (map fst) r))"
proof (induction cs)
  case (Cons c cs)
  show ?case
    unfolding sequential_calls.simps
  proof (rule traces_bind [OF traces_sequential_call])
    fix ts :: "'f effect list" and r :: "'f loop_error + 'f tool_result_message \<times> 'f finalized_call \<times> bool"
    assume "\<exists>xs. own_execution E ctx am c xs \<and>
        (case r of Inl e \<Rightarrow> e = Loop_Panic \<and> summary [] xs [] ts
         | Inr (t, f, stop) \<Rightarrow> summary [AgentMessage_ToolResult t] xs [tcall_id c] ts \<and> answer c t
             \<and> (never_cancelled E \<longrightarrow> \<not> stop))"
    then obtain xs where own: "own_execution E ctx am c xs"
      and r: "case r of Inl e \<Rightarrow> e = Loop_Panic \<and> summary [] xs [] ts
         | Inr (t, f, stop) \<Rightarrow> summary [AgentMessage_ToolResult t] xs [tcall_id c] ts \<and> answer c t
             \<and> (never_cancelled E \<longrightarrow> \<not> stop)" by blast
    have go_on: "traces (State_Monad.bind (sequential_calls E ctx am cs)
          (\<lambda>others. State_Monad.return (map_sum id ((#) (t, f)) others)))
        (\<lambda>us r. batch_ok E ctx am (c # cs) (ts @ us) (map_sum id (map fst) r))"
      if "summary [AgentMessage_ToolResult t] xs [tcall_id c] ts" "answer c t" for t f
    proof (rule traces_bind [OF Cons.IH], rule traces_return)
      fix us :: "'f effect list" and r :: "'f loop_error + ('f tool_result_message \<times> 'f finalized_call) list"
      assume "batch_ok E ctx am cs us (map_sum id (map fst) r)"
      then have "batch_ok E ctx am (c # cs) (ts @ us) (map_sum id ((#) t) (map_sum id (map fst) r))"
        by (rule batch_ok_Cons [OF that(1) own that(2)])
      then show "batch_ok E ctx am (c # cs) (ts @ us @ []) (map_sum id (map fst) (map_sum id ((#) (t, f)) r))"
        by (cases r) simp_all
    qed
    show "traces (case r of Inl e \<Rightarrow> State_Monad.return (Inl e)
        | Inr (t, f, stop) \<Rightarrow> if stop then State_Monad.return (Inr [(t, f)])
            else State_Monad.bind (sequential_calls E ctx am cs)
              (\<lambda>others. State_Monad.return (map_sum id ((#) (t, f)) others)))
      (\<lambda>us r. batch_ok E ctx am (c # cs) (ts @ us) (map_sum id (map fst) r))"
      using r go_on batch_ok_panic [OF _ own] batch_ok_stop [OF _ own]
      by (cases r) (auto intro!: traces_return)
  qed
qed (auto intro!: traces_return simp: batch_ok_Nil)

subsection \<open>Parallel batches\<close>

text \<open>The calls under way, by index, and the arguments of those that have not settled.\<close>

definition jobs :: "('f, 'w) running_call list \<times> 'f completed_calls \<Rightarrow> (nat \<times> 'f tool_call) multiset" where
  "jobs rc = image_mset (\<lambda>r. (rc_index r, rc_tool_call r)) (mset (fst rc))
     + image_mset (\<lambda>x. (fst x, fz_tool_call (snd x))) (mset (snd rc))"

definition unsettled :: "('f, 'w) running_call list \<Rightarrow> (string \<times> 'f json) multiset" where
  "unsettled running = image_mset (\<lambda>r. (tcall_id (rc_tool_call r), rc_args r)) (mset running)"

lemma jobs_simps [simp]:
  "jobs ([], []) = {#}"
  "jobs (r # rs, cs) = add_mset (rc_index r, rc_tool_call r) (jobs (rs, cs))"
  "jobs (rs @ [r], cs) = add_mset (rc_index r, rc_tool_call r) (jobs (rs, cs))"
  "jobs (rs, x # cs) = add_mset (fst x, fz_tool_call (snd x)) (jobs (rs, cs))"
  "jobs (rs, cs @ [x]) = add_mset (fst x, fz_tool_call (snd x)) (jobs (rs, cs))"
  by (simp_all add: jobs_def)

lemma unsettled_simps [simp]:
  "unsettled [] = {#}"
  "unsettled (r # rs) = add_mset (tcall_id (rc_tool_call r), rc_args r) (unsettled rs)"
  "unsettled (rs @ [r]) = add_mset (tcall_id (rc_tool_call r), rc_args r) (unsettled rs)"
  by (simp_all add: unsettled_def)

lemma take_running_mset: "take_running i rs = Some (r, others) \<Longrightarrow> mset rs = add_mset r (mset others)"
  by (induction rs arbitrary: r others) (auto split: if_splits)

lemma take_running_jobs:
  assumes "take_running i rs = Some (r, others)"
  shows "jobs (rs, cs) = add_mset (rc_index r, rc_tool_call r) (jobs (others, cs))"
    and "unsettled rs = add_mset (tcall_id (rc_tool_call r), rc_args r) (unsettled others)"
  using take_running_mset [OF assms] by (simp_all add: jobs_def unsettled_def)

text \<open>Settling some of the running calls: they execute once each, and none is lost.\<close>

definition settled ::
  "('f, 'w) running_call list \<times> 'f completed_calls \<Rightarrow> 'f effect list
     \<Rightarrow> ('f, 'w) running_call list \<times> 'f completed_calls \<Rightarrow> bool" where
  "settled rc ts rc' \<longleftrightarrow> (\<exists>xs. summary [] xs [] ts \<and> unsettled (fst rc) = unsettled (fst rc') + mset xs
     \<and> jobs rc' = jobs rc)"

lemma settled_refl: "settled rc [] rc"
  by (simp add: settled_def)

lemma settled_trans:
  assumes "settled rc ts rc'" "settled rc' us rc''"
  shows "settled rc (ts @ us) rc''"
proof -
  obtain xs where xs: "summary [] xs [] ts" "unsettled (fst rc) = unsettled (fst rc') + mset xs" "jobs rc' = jobs rc"
    using assms(1) unfolding settled_def by blast
  obtain ys where ys: "summary [] ys [] us" "unsettled (fst rc') = unsettled (fst rc'') + mset ys" "jobs rc'' = jobs rc'"
    using assms(2) unfolding settled_def by blast
  have "summary [] (xs @ ys) [] (ts @ us)" using summary_append [OF xs(1) ys(1)] by simp
  moreover have "unsettled (fst rc) = unsettled (fst rc'') + mset (xs @ ys)" unfolding xs(2) ys(2) by (simp add: ac_simps)
  ultimately show ?thesis using xs(3) ys(3) unfolding settled_def by auto
qed

lemma traces_settle_call:
  "traces (settle_call E ctx am r)
     (\<lambda>ts x. summary [] [(tcall_id (rc_tool_call r), rc_args r)] [] ts
        \<and> fst x = rc_index r \<and> fz_tool_call (snd x) = rc_tool_call r)"
  unfolding settle_call_def
  by (rule traces_bind [OF traces_execute_and_finalize], rule traces_return) (simp split: option.split)

lemma traces_settle_calls:
  "traces (settle_calls E ctx am is rc) (\<lambda>ts rc'. settled rc ts rc')"
proof (induction "is" arbitrary: rc)
  case Nil
  then show ?case by (auto intro: traces_return settled_refl)
next
  case (Cons i "is")
  obtain running completed where rc: "rc = (running, completed)" by (cases rc)
  show ?case
  proof (cases "take_running i running")
    case None
    then show ?thesis using Cons.IH by (simp add: rc)
  next
    case (Some x)
    then obtain r others where taken: "take_running i running = Some (r, others)" by (cases x) auto
    have one: "settled rc ts (others, completed @ [y])"
      if "summary [] [(tcall_id (rc_tool_call r), rc_args r)] [] ts"
        "fst y = rc_index r \<and> fz_tool_call (snd y) = rc_tool_call r" for ts y
      unfolding settled_def rc using that take_running_jobs [OF taken]
      by (auto intro!: exI [of _ "[(tcall_id (rc_tool_call r), rc_args r)]"])
    show ?thesis
      unfolding rc settle_calls.simps taken option.case prod.case
      by (rule traces_bind [OF traces_settle_call], rule traces_mono [OF Cons.IH])
        (use one rc in \<open>blast intro: settled_trans\<close>)
  qed
qed

lemma traces_drive:
  assumes "traces future Q"
    and "\<And>ts us x rc'. Q ts x \<Longrightarrow> settled rc us rc' \<Longrightarrow> P (ts @ us) (x, rc')"
  shows "traces (drive_tool_calls_while E ctx am future rc) P"
  unfolding drive_tool_calls_while_def
  by (rule traces_bind [OF assms(1)], rule traces_bind [OF traces_world_op [where P = "\<lambda>ts _. ts = []"]], simp,
      rule traces_bind [OF traces_settle_calls]) (auto intro!: traces_return assms(2))

lemma traces_prepare_in_batch:
  "traces (prepare_in_batch E ctx am c)
     (\<lambda>ts p. quiet ts \<and> (\<forall>tool args. p = Prepared_Ready tool args \<longrightarrow> approved E ctx am c args))"
  unfolding prepare_in_batch_def
  by (cases "invalid_tool_call_reason c")
    (auto intro!: traces_return traces_bind [OF traces_start] traces_mono [OF traces_prepare])

text \<open>Where the batch stands: \<open>slots\<close> are filled for the finished calls, the others are under way.\<close>

definition open_slots :: "'a option list \<Rightarrow> nat set" where
  "open_slots slots = {j. j < length slots \<and> slots ! j = None}"

definition filled_slots :: "'a option list \<Rightarrow> nat set" where
  "filled_slots slots = {j. j < length slots \<and> slots ! j \<noteq> None}"

lemma slots_finite [simp]: "finite (open_slots slots)" "finite (filled_slots slots)"
  by (simp_all add: open_slots_def filled_slots_def)

lemma slots_snoc:
  "open_slots (slots @ [None]) = insert (length slots) (open_slots slots)"
  "open_slots (slots @ [Some f]) = open_slots slots"
  "filled_slots (slots @ [None]) = filled_slots slots"
  "filled_slots (slots @ [Some f]) = insert (length slots) (filled_slots slots)"
  by (auto simp: open_slots_def filled_slots_def nth_append less_Suc_eq)

lemma slots_update:
  assumes "i \<in> open_slots slots"
  shows "open_slots (slots[i := Some f]) = open_slots slots - {i}"
    and "filled_slots (slots[i := Some f]) = insert i (filled_slots slots)" "i \<notin> filled_slots slots"
  using assms by (auto simp: open_slots_def filled_slots_def nth_list_update split: if_splits)

definition batch_inv ::
  "('f, 'w) loop_env \<Rightarrow> ('f, 'w) agent_context \<Rightarrow> 'f assistant_message \<Rightarrow> 'f tool_call list
     \<Rightarrow> ('f, 'w) running_call list \<times> 'f completed_calls \<Rightarrow> 'f finalized_call option list \<Rightarrow> 'f effect list \<Rightarrow> bool" where
  "batch_inv E ctx am calls rc slots ts \<longleftrightarrow>
     length slots \<le> length calls
     \<and> (\<forall>j f. j < length slots \<longrightarrow> slots ! j = Some f \<longrightarrow> fz_tool_call f = calls ! j)
     \<and> jobs rc = image_mset (\<lambda>j. (j, calls ! j)) (mset_set (open_slots slots))
     \<and> (\<exists>xs fs. summary [] xs fs ts
        \<and> (\<forall>x \<in># mset xs + unsettled (fst rc). \<exists>c \<in> set calls. tcall_id c = fst x \<and> approved E ctx am c (snd x))
        \<and> image_mset fst (mset xs + unsettled (fst rc)) \<subseteq># mset (map tcall_id (take (length slots) calls))
        \<and> mset fs = image_mset (\<lambda>j. tcall_id (calls ! j)) (mset_set (filled_slots slots)))"

lemma batch_inv_start: "batch_inv E ctx am calls ([], []) [] []"
  by (simp add: batch_inv_def open_slots_def filled_slots_def)

lemma batch_inv_settled:
  assumes "batch_inv E ctx am calls rc slots ts" "settled rc us rc'"
  shows "batch_inv E ctx am calls rc' slots (ts @ us)"
proof -
  obtain ys where ys: "summary [] ys [] us" "unsettled (fst rc) = unsettled (fst rc') + mset ys" "jobs rc' = jobs rc"
    using assms(2) unfolding settled_def by blast
  obtain xs fs where xs: "summary [] xs fs ts"
    "\<forall>x \<in># mset xs + unsettled (fst rc). \<exists>c \<in> set calls. tcall_id c = fst x \<and> approved E ctx am c (snd x)"
    "image_mset fst (mset xs + unsettled (fst rc)) \<subseteq># mset (map tcall_id (take (length slots) calls))"
    "mset fs = image_mset (\<lambda>j. tcall_id (calls ! j)) (mset_set (filled_slots slots))"
    using assms(1) unfolding batch_inv_def by blast
  have moved: "mset (xs @ ys) + unsettled (fst rc') = mset xs + unsettled (fst rc)" using ys(2) by (simp add: ac_simps)
  have "summary [] (xs @ ys) fs (ts @ us)" using summary_append [OF xs(1) ys(1)] by simp
  then show ?thesis
    using assms(1) unfolding batch_inv_def ys(3)
    by (elim conjE, intro conjI exI [of _ "xs @ ys"] exI [of _ fs]) (use xs(2-4) in \<open>simp_all only: moved\<close>)
qed

lemma batch_inv_quiet:
  "batch_inv E ctx am calls rc slots ts \<Longrightarrow> quiet us \<Longrightarrow> batch_inv E ctx am calls rc slots (ts @ us)"
  by (rule batch_inv_settled) (auto simp: settled_def intro!: exI [of _ "[]"])

lemma batch_inv_fill:
  assumes inv: "batch_inv E ctx am calls rc slots ts" and n: "length slots < length calls"
    and f: "fz_tool_call f = calls ! length slots" and us: "summary [] [] [tcall_id (fz_tool_call f)] us"
  shows "batch_inv E ctx am calls rc (slots @ [Some f]) (ts @ us)"
proof -
  obtain xs fs where xs: "summary [] xs fs ts"
    "\<forall>x \<in># mset xs + unsettled (fst rc). \<exists>c \<in> set calls. tcall_id c = fst x \<and> approved E ctx am c (snd x)"
    "image_mset fst (mset xs + unsettled (fst rc)) \<subseteq># mset (map tcall_id (take (length slots) calls))"
    "mset fs = image_mset (\<lambda>j. tcall_id (calls ! j)) (mset_set (filled_slots slots))"
    using inv unfolding batch_inv_def by blast
  have "summary [] xs (fs @ [tcall_id (fz_tool_call f)]) (ts @ us)" using summary_append [OF xs(1) us] by simp
  moreover have "image_mset fst (mset xs + unsettled (fst rc)) \<subseteq># mset (map tcall_id (take (Suc (length slots)) calls))"
    by (rule subset_mset.order_trans [OF xs(3)]) (simp add: take_Suc_conv_app_nth [OF n])
  moreover have "length slots \<notin> filled_slots slots" by (simp add: filled_slots_def)
  ultimately show ?thesis
    using inv n f xs(2,4) unfolding batch_inv_def slots_snoc
    by (auto simp: nth_append less_Suc_eq slots_snoc intro!: exI [of _ xs] exI [of _ "fs @ [tcall_id (fz_tool_call f)]"])
qed

lemma batch_inv_run:
  assumes inv: "batch_inv E ctx am calls (running, completed) slots ts" and n: "length slots < length calls"
    and r: "rc_index r = length slots" "rc_tool_call r = calls ! length slots" "approved E ctx am (rc_tool_call r) (rc_args r)"
  shows "batch_inv E ctx am calls (running @ [r], completed) (slots @ [None]) ts"
proof -
  obtain xs fs where xs: "summary [] xs fs ts"
    "\<forall>x \<in># mset xs + unsettled running. \<exists>c \<in> set calls. tcall_id c = fst x \<and> approved E ctx am c (snd x)"
    "image_mset fst (mset xs + unsettled running) \<subseteq># mset (map tcall_id (take (length slots) calls))"
    "mset fs = image_mset (\<lambda>j. tcall_id (calls ! j)) (mset_set (filled_slots slots))"
    using inv unfolding batch_inv_def by auto
  have "image_mset fst (mset xs + unsettled (running @ [r])) \<subseteq># mset (map tcall_id (take (Suc (length slots)) calls))"
    using xs(3) r(2) by (simp add: take_Suc_conv_app_nth [OF n])
  moreover have "length slots \<notin> open_slots slots" by (simp add: open_slots_def)
  ultimately show ?thesis
    using inv n r xs nth_mem [OF n] unfolding batch_inv_def slots_snoc
    by (auto simp: nth_append less_Suc_eq slots_snoc intro!: exI [of _ xs] exI [of _ fs])
qed

lemma batch_inv_finish:
  assumes inv: "batch_inv E ctx am calls rc slots ts" and one: "jobs rc = add_mset (i, fz_tool_call f) (jobs rc')"
    and same: "fst rc' = fst rc" and us: "summary [] [] [tcall_id (fz_tool_call f)] us"
  shows "batch_inv E ctx am calls rc' (slots[i := Some f]) (ts @ us)"
proof -
  obtain xs fs where xs: "summary [] xs fs ts"
    "\<forall>x \<in># mset xs + unsettled (fst rc). \<exists>c \<in> set calls. tcall_id c = fst x \<and> approved E ctx am c (snd x)"
    "image_mset fst (mset xs + unsettled (fst rc)) \<subseteq># mset (map tcall_id (take (length slots) calls))"
    "mset fs = image_mset (\<lambda>j. tcall_id (calls ! j)) (mset_set (filled_slots slots))"
    and all: "jobs rc = image_mset (\<lambda>j. (j, calls ! j)) (mset_set (open_slots slots))"
    using inv unfolding batch_inv_def by blast
  have "(i, fz_tool_call f) \<in># jobs rc" unfolding one by simp
  then have i: "i \<in> open_slots slots" and f: "fz_tool_call f = calls ! i" unfolding all by auto
  have "add_mset (i, fz_tool_call f) (jobs rc') =
      add_mset (i, calls ! i) (image_mset (\<lambda>j. (j, calls ! j)) (mset_set (open_slots slots - {i})))"
    using one all mset_set.remove [OF slots_finite(1) i] by simp
  then have open_jobs: "jobs rc' = image_mset (\<lambda>j. (j, calls ! j)) (mset_set (open_slots (slots[i := Some f])))"
    using f slots_update(1) [OF i] by simp
  have filled: "mset (fs @ [tcall_id (fz_tool_call f)]) =
      image_mset (\<lambda>j. tcall_id (calls ! j)) (mset_set (filled_slots (slots[i := Some f])))"
    using xs(4) f slots_update(2,3) [OF i] by simp
  have trace: "summary [] xs (fs @ [tcall_id (fz_tool_call f)]) (ts @ us)" using summary_append [OF xs(1) us] by simp
  have own: "\<forall>j g. j < length slots \<longrightarrow> slots[i := Some f] ! j = Some g \<longrightarrow> fz_tool_call g = calls ! j"
  proof (intro allI impI)
    fix j g assume j: "j < length slots" "slots[i := Some f] ! j = Some g"
    have old: "\<forall>j f. j < length slots \<longrightarrow> slots ! j = Some f \<longrightarrow> fz_tool_call f = calls ! j"
      using inv unfolding batch_inv_def by (elim conjE)
    show "fz_tool_call g = calls ! j"
    proof (cases "j = i")
      case True
      then have "g = f" using j by simp
      then show ?thesis using f True by simp
    next
      case False
      then show ?thesis using j(2) by (intro old [rule_format, OF j(1)]) simp
    qed
  qed
  have len: "length slots \<le> length calls" using inv unfolding batch_inv_def by blast
  show ?thesis
    unfolding batch_inv_def same length_list_update
    by (intro conjI exI [of _ xs] exI [of _ "fs @ [tcall_id (fz_tool_call f)]"])
      (fact len own open_jobs trace xs(2) xs(3) filled)+
qed

lemma traces_prepare_slot:
  fixes E :: "('f::{plus,zero}, 'w) loop_env"
  assumes inv: "batch_inv E ctx am calls rc slots ts" and n: "length slots < length calls"
  shows "traces (prepare_slot E ctx am rc slots (calls ! length slots))
     (\<lambda>us (rc', slots'). batch_inv E ctx am calls rc' slots' (ts @ us) \<and> length slots' = Suc (length slots))"
proof -
  let ?c = "calls ! length slots"
  have prep: "traces (drive_tool_calls_while E ctx am (prepare_in_batch E ctx am ?c) rc)
      (\<lambda>us (p, rc'). batch_inv E ctx am calls rc' slots (ts @ us)
         \<and> (\<forall>tool args. p = Prepared_Ready tool args \<longrightarrow> approved E ctx am ?c args))"
    by (rule traces_drive [OF traces_prepare_in_batch])
      (use inv in \<open>auto simp flip: append_assoc intro: batch_inv_settled batch_inv_quiet\<close>)
  have immediate: "traces (State_Monad.bind (drive_tool_calls_while E ctx am (emit_tool_execution_end E f) rc')
        (\<lambda>x. case x of (_, rc) \<Rightarrow> State_Monad.return (rc, slots @ [Some f])))
      (\<lambda>vs (rc', slots'). batch_inv E ctx am calls rc' slots' ((ts @ us) @ vs) \<and> length slots' = Suc (length slots))"
    if "batch_inv E ctx am calls rc' slots (ts @ us)" "fz_tool_call f = ?c" for rc' us f
  proof (rule traces_bind [OF traces_drive [OF traces_execution_end,
          where P = "\<lambda>vs x. batch_inv E ctx am calls (snd x) (slots @ [Some f]) ((ts @ us) @ vs)"]])
    fix vs ws :: "'f effect list" and x rc'' assume "summary [] [] [tcall_id (fz_tool_call f)] vs" "settled rc' ws rc''"
    then show "batch_inv E ctx am calls (snd (x :: unit, rc'')) (slots @ [Some f]) ((ts @ us) @ vs @ ws)"
      using batch_inv_settled [OF batch_inv_fill [OF that(1) n that(2)]] by simp
  qed (auto intro!: traces_return)
  show ?thesis
    unfolding prepare_slot_def
  proof (rule traces_bind [OF prep])
    fix us :: "'f effect list" and x :: "('f, 'w) prepared \<times> ('f, 'w) running_call list \<times> 'f completed_calls"
    assume "case x of (p, rc') \<Rightarrow> batch_inv E ctx am calls rc' slots (ts @ us)
      \<and> (\<forall>tool args. p = Prepared_Ready tool args \<longrightarrow> approved E ctx am ?c args)"
    then show "traces (case x of (p, rc) \<Rightarrow> (case p of
        Prepared_Immediate result is_error \<Rightarrow>
          let f = \<lparr>fz_tool_call = ?c, fz_result = result, fz_is_error = is_error\<rparr> in
            State_Monad.bind (drive_tool_calls_while E ctx am (emit_tool_execution_end E f) rc)
              (\<lambda>x. case x of (_, rc) \<Rightarrow> State_Monad.return (rc, slots @ [Some f]))
      | Prepared_Ready tool args \<Rightarrow>
          State_Monad.return
            ((fst rc @ [\<lparr>rc_index = length slots, rc_tool_call = ?c, rc_tool = tool, rc_args = args\<rparr>], snd rc),
             slots @ [None])))
      (\<lambda>vs (rc', slots'). batch_inv E ctx am calls rc' slots' (ts @ us @ vs) \<and> length slots' = Suc (length slots))"
      using immediate n
      by (auto simp: Let_def split: prepared.split intro!: traces_return batch_inv_run simp flip: append_assoc)
  qed
qed

lemma traces_parallel_prepare:
  fixes E :: "('f::{plus,zero}, 'w) loop_env"
  assumes "batch_inv E ctx am calls rc slots ts" and "cs = drop (length slots) calls"
  shows "traces (parallel_prepare E ctx am rc slots cs)
     (\<lambda>us (rc', slots'). batch_inv E ctx am calls rc' slots' (ts @ us) \<and> length slots \<le> length slots'
        \<and> (cs \<noteq> [] \<longrightarrow> 0 < length slots') \<and> (never_cancelled E \<longrightarrow> length slots' = length calls))"
  using assms
proof (induction cs arbitrary: rc slots ts)
  case Nil
  then have "length slots = length calls" by (auto simp: batch_inv_def)
  then show ?case using Nil.prems(1) by (auto intro!: traces_return)
next
  case (Cons c cs)
  have n: "length slots < length calls" using Cons.prems(2) by (cases "length slots < length calls") auto
  then have c: "c = calls ! length slots" and cs: "cs = drop (Suc (length slots)) calls"
    using Cons.prems(2) Cons_nth_drop_Suc [OF n, symmetric] by simp_all
  have go_on: "traces (parallel_prepare E ctx am rc' slots' cs)
      (\<lambda>vs (rc'', slots''). batch_inv E ctx am calls rc'' slots'' ((ts @ us) @ vs) \<and> length slots \<le> length slots''
        \<and> (c # cs \<noteq> [] \<longrightarrow> 0 < length slots'') \<and> (never_cancelled E \<longrightarrow> length slots'' = length calls))"
    if "batch_inv E ctx am calls rc' slots' (ts @ us)" "length slots' = Suc (length slots)" for rc' slots' us
    by (rule traces_mono [OF Cons.IH [OF that(1)]]) (use cs that(2) in auto)
  show ?case
    unfolding parallel_prepare.simps c
  proof (rule traces_bind [OF traces_prepare_slot [OF Cons.prems(1) n]], clarify,
      rule traces_bind [OF traces_is_cancelled])
    fix us vs :: "'f effect list" and running :: "('f, 'w) running_call list" and completed slots' stop
    assume inv: "batch_inv E ctx am calls (running, completed) slots' (ts @ us)" "length slots' = Suc (length slots)"
      and stop: "vs = [] \<and> (never_cancelled E \<longrightarrow> \<not> stop)"
    then show "traces (if stop then State_Monad.return ((running, completed), slots')
          else parallel_prepare E ctx am (running, completed) slots' cs)
        (\<lambda>ws (rc', slots'). batch_inv E ctx am calls rc' slots' (ts @ us @ vs @ ws) \<and> length slots \<le> length slots'
          \<and> (calls ! length slots # cs \<noteq> [] \<longrightarrow> 0 < length slots')
          \<and> (never_cancelled E \<longrightarrow> length slots' = length calls))"
      using go_on [OF inv] by (auto intro!: traces_return)
  qed
qed

text \<open>What \<open>running.next()\<close> yields: the chosen call, or the first one.\<close>

lemma traces_next_running:
  fixes E :: "('f::{plus,zero}, 'w) loop_env"
  assumes "snd rc = []"
  shows "traces (next_running E ctx am (fst rc))
     (\<lambda>ts y. case y of None \<Rightarrow> ts = [] \<and> jobs rc = {#} | Some (x, others) \<Rightarrow> settled rc ts (others, [x]))"
proof (cases "fst rc")
  case Nil
  then show ?thesis using assms
    by (cases rc) (auto simp: next_running_def intro!: traces_return)
next
  case (Cons r rs)
  define pick where "pick i = (case take_running i (fst rc) of Some x \<Rightarrow> x | None \<Rightarrow> (r, rs))" for i
  have pick: "mset (fst rc) = add_mset (fst (pick i)) (mset (snd (pick i)))" for i
  proof (cases "take_running i (fst rc)")
    case None
    show ?thesis unfolding pick_def None by (simp add: Cons)
  next
    case (Some p)
    then show ?thesis using take_running_mset [of i "fst rc" "fst p" "snd p"] by (simp add: pick_def)
  qed
  have one: "settled rc ts (snd (pick i), [x])"
    if "summary [] [(tcall_id (rc_tool_call (fst (pick i))), rc_args (fst (pick i)))] [] ts \<and>
      fst x = rc_index (fst (pick i)) \<and> fz_tool_call (snd x) = rc_tool_call (fst (pick i))" for i x ts
    unfolding settled_def using that pick [of i] assms
    by (intro exI [of _ "[(tcall_id (rc_tool_call (fst (pick i))), rc_args (fst (pick i)))]"])
      (simp add: jobs_def unsettled_def)
  have step: "next_running E ctx am (fst rc) =
      State_Monad.bind (world_op (le_next E (map rc_index (fst rc)))) (\<lambda>i.
        State_Monad.bind (settle_call E ctx am (fst (pick i))) (\<lambda>x. State_Monad.return (Some (x, snd (pick i)))))"
    unfolding next_running_def Cons list.case pick_def by (simp only: split_beta Let_def)
  show ?thesis
    unfolding step
  proof (rule traces_bind [OF traces_world_op [where P = "\<lambda>ts _. ts = []"]], rule refl, simp only: append_Nil,
      rule traces_bind [OF traces_settle_call], rule traces_return)
    fix i us and x :: "nat \<times> 'f finalized_call"
    assume "summary [] [(tcall_id (rc_tool_call (fst (pick i))), rc_args (fst (pick i)))] [] us \<and>
      fst x = rc_index (fst (pick i)) \<and> fz_tool_call (snd x) = rc_tool_call (fst (pick i))"
    from one [OF this] show "case Some (x, snd (pick i)) of None \<Rightarrow> us @ [] = [] \<and> jobs rc = {#}
      | Some (x, others) \<Rightarrow> settled rc (us @ []) (others, [x])" by simp
  qed
qed

lemma traces_next_completed:
  "traces (next_completed E ctx am rc)
     (\<lambda>ts r. case r of None \<Rightarrow> ts = [] \<and> jobs rc = {#}
        | Some (x, rc') \<Rightarrow> settled rc ts (fst rc', x # snd rc'))"
proof (cases "snd rc")
  case (Cons x cs)
  then have "rc = (fst rc, x # cs)" by (cases rc) simp
  then have "settled rc [] (fst rc, x # cs)" using settled_refl [of rc] by simp
  then show ?thesis
    unfolding next_completed_def Cons list.case by (intro traces_return) simp
next
  case Nil
  show ?thesis
    unfolding next_completed_def Nil list.case
    by (rule traces_bind [OF traces_next_running [OF Nil]], rule traces_return) (auto split: option.splits)
qed

lemma settled_size: "settled rc ts rc' \<Longrightarrow> size (jobs rc') = size (jobs rc)"
  by (auto simp: settled_def)

lemma traces_parallel_drain:
  fixes E :: "('f::{plus,zero}, 'w) loop_env"
  assumes "batch_inv E ctx am calls rc slots ts" and "size (jobs rc) \<le> fuel"
  shows "traces (parallel_drain E ctx am fuel rc slots)
     (\<lambda>us slots'. length slots' = length slots \<and> batch_inv E ctx am calls ([], []) slots' (ts @ us))"
  using assms
proof (induction fuel arbitrary: rc slots ts)
  case 0
  then have "rc = ([], [])" by (cases rc) (simp add: jobs_def)
  then show ?case using 0 by (auto intro!: traces_return)
next
  case (Suc fuel)
  show ?case
    unfolding parallel_drain.simps
  proof (rule traces_bind [OF traces_next_completed])
    fix us :: "'f effect list" and r :: "((nat \<times> 'f finalized_call) \<times> ('f, 'w) running_call list \<times> 'f completed_calls) option"
    assume r: "case r of None \<Rightarrow> us = [] \<and> jobs rc = {#} | Some (x, rc') \<Rightarrow> settled rc us (fst rc', x # snd rc')"
    show "traces (case r of None \<Rightarrow> State_Monad.return slots
        | Some ((i, f), rc) \<Rightarrow> State_Monad.bind (drive_tool_calls_while E ctx am (emit_tool_execution_end E f) rc)
            (\<lambda>x. case x of (_, rc) \<Rightarrow> parallel_drain E ctx am fuel rc (slots[i := Some f])))
      (\<lambda>vs slots'. length slots' = length slots \<and> batch_inv E ctx am calls ([], []) slots' (ts @ us @ vs))"
    proof (cases r)
      case None
      then have "rc = ([], [])" using r by (cases rc) (simp add: jobs_def)
      then show ?thesis using None r Suc.prems(1) by (auto intro!: traces_return)
    next
      case (Some y)
      then obtain i f rc' where y: "r = Some ((i, f), rc')" by (cases y) auto
      then have moved: "settled rc us (fst rc', (i, f) # snd rc')" using r by simp
      have one: "jobs (fst rc', (i, f) # snd rc') = add_mset (i, fz_tool_call f) (jobs rc')" by (cases rc') simp
      have size: "size (jobs rc') \<le> fuel" using Suc.prems(2) settled_size [OF moved] unfolding one by simp
      have ended: "batch_inv E ctx am calls rc' (slots[i := Some f]) ((ts @ us) @ vs)"
        if "summary [] [] [tcall_id (fz_tool_call f)] vs" for vs
        by (rule batch_inv_finish [OF batch_inv_settled [OF Suc.prems(1) moved] one _ that]) simp
      have drive: "traces (drive_tool_calls_while E ctx am (emit_tool_execution_end E f) rc')
          (\<lambda>vs x. batch_inv E ctx am calls (snd x) (slots[i := Some f]) ((ts @ us) @ vs) \<and> size (jobs (snd x)) \<le> fuel)"
      proof (rule traces_drive [OF traces_execution_end])
        fix vs ws :: "'f effect list" and x :: unit and rc''
        assume "summary [] [] [tcall_id (fz_tool_call f)] vs" "settled rc' ws rc''"
        then show "batch_inv E ctx am calls (snd (x, rc'')) (slots[i := Some f]) ((ts @ us) @ vs @ ws)
            \<and> size (jobs (snd (x, rc''))) \<le> fuel"
          using batch_inv_settled [OF ended, of vs ws rc''] settled_size [of rc' ws rc''] size by simp
      qed
      show ?thesis
        unfolding y option.case prod.case
        by (rule traces_bind [OF drive]) (use Suc.IH in \<open>fastforce simp: split_beta intro: traces_mono\<close>)
    qed
  qed
qed

lemma traces_slot_results:
  "traces (slot_results E slots)
     (\<lambda>ts r. if None \<in> set slots then r = Inl Loop_Panic
        else \<exists>new. map_sum id (map fst) r = (Inr new :: 'f loop_error + _)
          \<and> list_all2 (\<lambda>s t. answer (fz_tool_call (the s)) t) slots new
          \<and> summary (map AgentMessage_ToolResult new) [] [] ts)"
proof (induction slots)
  case (Cons s slots)
  show ?case
  proof (cases s)
    case (Some f)
    show ?thesis
      unfolding Some slot_results.simps
    proof (rule traces_bind [OF traces_settle_result], rule traces_bind [OF Cons.IH], rule traces_return)
      fix ts us t and r :: "'f loop_error + ('f tool_result_message \<times> 'f finalized_call) list"
      assume "summary [AgentMessage_ToolResult t] [] [] ts \<and> answer (fz_tool_call f) t"
        and "if None \<in> set slots then r = Inl Loop_Panic
          else \<exists>new. map_sum id (map fst) r = Inr new
            \<and> list_all2 (\<lambda>s t. answer (fz_tool_call (the s)) t) slots new
            \<and> summary (map AgentMessage_ToolResult new) [] [] us"
      then show "if None \<in> set (Some f # slots) then map_sum id ((#) (t, f)) r = Inl Loop_Panic
          else \<exists>new. map_sum id (map fst) (map_sum id ((#) (t, f)) r) = Inr new
            \<and> list_all2 (\<lambda>s t. answer (fz_tool_call (the s)) t) (Some f # slots) new
            \<and> summary (map AgentMessage_ToolResult new) [] [] (ts @ us @ [])"
        using summary_append [of "[AgentMessage_ToolResult t]" "[]" "[]" ts _ "[]" "[]" us]
        by (cases r) (auto split: if_splits intro!: exI [of _ "t # _"])
    qed
  qed (auto intro!: traces_return)
qed (auto intro!: traces_return)

lemma batch_ok_parallel:
  assumes inv: "batch_inv E ctx am calls ([], []) slots ts"
    and some: "calls \<noteq> [] \<longrightarrow> 0 < length slots" "never_cancelled E \<longrightarrow> length slots = length calls"
    and new: "list_all2 (\<lambda>s t. answer (fz_tool_call (the s)) t) slots new"
    and us: "summary (map AgentMessage_ToolResult new) [] [] us"
  shows "batch_ok E ctx am calls (ts @ us) (Inr new)"
proof -
  obtain xs fs where len: "length slots \<le> length calls"
    and own: "\<forall>j f. j < length slots \<longrightarrow> slots ! j = Some f \<longrightarrow> fz_tool_call f = calls ! j"
    and none: "image_mset (\<lambda>j. (j, calls ! j)) (mset_set (open_slots slots)) = {#}"
    and xs: "summary [] xs fs ts" "\<forall>x \<in># mset xs. \<exists>c \<in> set calls. tcall_id c = fst x \<and> approved E ctx am c (snd x)"
      "image_mset fst (mset xs) \<subseteq># mset (map tcall_id (take (length slots) calls))"
    and fs: "mset fs = image_mset (\<lambda>j. tcall_id (calls ! j)) (mset_set (filled_slots slots))"
    using inv unfolding batch_inv_def by auto
  have all: "filled_slots slots = {0..<length slots}"
    using none by (auto simp: open_slots_def filled_slots_def mset_set_empty_iff)
  have slot: "slots ! j = Some (the (slots ! j)) \<and> fz_tool_call (the (slots ! j)) = calls ! j" if "j < length slots" for j
  proof -
    have "j \<in> filled_slots slots" using all that by simp
    then obtain f where "slots ! j = Some f" by (auto simp: filled_slots_def)
    then show ?thesis using own that by simp
  qed
  have "list_all2 answer (take (length slots) calls) new"
    using new len slot by (auto simp: list_all2_conv_all_nth)
  moreover have "mset fs = mset (map tcall_id (take (length slots) calls))"
    unfolding fs all mset_map [symmetric] mset_upt [symmetric]
    by (rule arg_cong [where f = mset], rule nth_equalityI) (use len in auto)
  moreover have "mset (map fst xs) \<subseteq># mset (map tcall_id calls)"
  proof -
    have "mset (map tcall_id (take (length slots) calls)) \<subseteq># mset (map tcall_id calls)"
      by (metis append_take_drop_id map_append mset_append mset_subset_eq_add_left)
    then show ?thesis using subset_mset.order_trans [OF xs(3)] by simp
  qed
  moreover have "\<forall>(i, a) \<in> set xs. \<exists>c \<in> set calls. tcall_id c = i \<and> approved E ctx am c a"
    using xs(2) by fastforce
  ultimately show ?thesis
    unfolding batch_ok_def using summary_append [OF xs(1) us] len some
    by (intro exI [of _ "map AgentMessage_ToolResult new"] exI [of _ xs] exI [of _ fs]) auto
qed

lemma traces_parallel:
  fixes E :: "('f::{plus,zero}, 'w) loop_env"
  shows "traces (execute_tool_calls_parallel E ctx am calls)
     (\<lambda>ts r. batch_ok E ctx am calls ts (map_sum id eb_messages r))"
proof -
  have prepare: "traces (parallel_prepare E ctx am ([], []) [] calls)
     (\<lambda>us (rc, slots). batch_inv E ctx am calls rc slots us
        \<and> (calls \<noteq> [] \<longrightarrow> 0 < length slots) \<and> (never_cancelled E \<longrightarrow> length slots = length calls))"
    by (rule traces_mono [OF traces_parallel_prepare [OF batch_inv_start]]) auto
  have small: "size (jobs rc) \<le> length calls" if "batch_inv E ctx am calls rc slots us" for rc slots us
  proof -
    have "size (jobs rc) = card (open_slots slots)" using that by (simp add: batch_inv_def)
    also have "\<dots> \<le> card {..<length slots}" by (rule card_mono) (auto simp: open_slots_def)
    finally show ?thesis using that by (simp add: batch_inv_def)
  qed
  have full: "None \<notin> set slots" if "batch_inv E ctx am calls ([], []) slots us" for slots us
    using that by (auto simp: batch_inv_def mset_set_empty_iff open_slots_def in_set_conv_nth)
  show ?thesis
    unfolding execute_tool_calls_parallel_def
  proof (rule traces_bind [OF prepare], clarify, rule traces_bind [OF traces_parallel_drain [OF _ small]],
      assumption, assumption, clarify, rule traces_bind [OF traces_slot_results], rule traces_return)
    fix us running completed and slots slots' :: "'f finalized_call option list" and vs ws
      and r :: "'f loop_error + ('f tool_result_message \<times> 'f finalized_call) list"
    assume some: "calls \<noteq> [] \<longrightarrow> 0 < length slots" "never_cancelled E \<longrightarrow> length slots = length calls"
      and len: "length slots' = length slots" and inv: "batch_inv E ctx am calls ([], []) slots' (us @ vs)"
      and r: "if None \<in> set slots' then r = Inl Loop_Panic
        else \<exists>new. map_sum id (map fst) r = (Inr new :: 'f loop_error + _)
          \<and> list_all2 (\<lambda>s t. answer (fz_tool_call (the s)) t) slots' new
          \<and> summary (map AgentMessage_ToolResult new) [] [] ws"
    obtain new where new: "map_sum id (map fst) r = (Inr new :: 'f loop_error + _)"
      "list_all2 (\<lambda>s t. answer (fz_tool_call (the s)) t) slots' new"
      "summary (map AgentMessage_ToolResult new) [] [] ws"
      using r full [OF inv] by auto
    have "batch_ok E ctx am calls ((us @ vs) @ ws) (Inr new)"
      by (rule batch_ok_parallel [OF inv _ _ new(2,3)]) (use some len in simp_all)
    moreover have "map_sum id eb_messages (map_sum id (\<lambda>xs. \<lparr>eb_messages = map fst xs,
        eb_terminate = should_terminate_tool_batch (map snd xs)\<rparr>) r) = Inr new"
      using new(1) by (cases r) simp_all
    ultimately show "batch_ok E ctx am calls (us @ vs @ ws @ []) (map_sum id eb_messages
        (map_sum id (\<lambda>xs. \<lparr>eb_messages = map fst xs, eb_terminate = should_terminate_tool_batch (map snd xs)\<rparr>) r))"
      by simp
  qed
qed

subsection \<open>Any batch\<close>

lemma batch_ok_refused:
  assumes "list_all2 answer calls new" "summary (map AgentMessage_ToolResult new) [] (map tcall_id calls) ts"
  shows "batch_ok E ctx am calls ts (Inr new)" "executed_calls ts = []"
proof -
  show "batch_ok E ctx am calls ts (Inr new)"
    unfolding batch_ok_def using assms
    by (intro exI [of _ "map AgentMessage_ToolResult new"] exI [of _ "[]"] exI [of _ "map tcall_id calls"])
      (auto intro!: exI [of _ "length calls"])
  show "executed_calls ts = []" using assms(2) by (simp add: summary_def)
qed

lemma traces_execute_tool_calls:
  fixes E :: "('f::{plus,zero}, 'w) loop_env"
  shows "traces (execute_tool_calls E ctx am calls)
     (\<lambda>ts r. batch_ok E ctx am calls ts (map_sum id eb_messages r)
        \<and> (\<not> distinct (map tcall_id calls) \<longrightarrow> executed_calls ts = []))"
  unfolding execute_tool_calls_def
proof (rule traces_bind [OF traces_reject])
  fix ts :: "'f effect list" and r :: "'f executed_batch option"
  assume r: "case r of None \<Rightarrow> ts = [] \<and> distinct (map tcall_id calls)
     | Some b \<Rightarrow> \<not> distinct (map tcall_id calls) \<and> list_all2 answer calls (eb_messages b)
         \<and> summary (map AgentMessage_ToolResult (eb_messages b)) [] (map tcall_id calls) ts"
  have sequential: "traces (execute_tool_calls_sequential E ctx am calls)
      (\<lambda>ts r. batch_ok E ctx am calls ts (map_sum id eb_messages r))"
    unfolding execute_tool_calls_sequential_def
    by (rule traces_bind [OF traces_sequential], rule traces_return) (simp add: sum.map_comp comp_def id_def)
  show "traces (case r of None \<Rightarrow>
          if lc_tool_execution (le_config E) = Mode_Sequential \<or> has_sequential ctx calls
          then execute_tool_calls_sequential E ctx am calls else execute_tool_calls_parallel E ctx am calls
        | Some b \<Rightarrow> State_Monad.return (Inr b))
      (\<lambda>us r. batch_ok E ctx am calls (ts @ us) (map_sum id eb_messages r)
        \<and> (\<not> distinct (map tcall_id calls) \<longrightarrow> executed_calls (ts @ us) = []))"
  proof (cases r)
    case None
    then show ?thesis
      using r by (auto intro: traces_mono [OF sequential] traces_mono [OF traces_parallel])
  next
    case (Some b)
    then show ?thesis
      using r batch_ok_refused [of calls "eb_messages b" ts] by (auto intro!: traces_return)
  qed
qed

lemma traces_run_tool_calls:
  fixes E :: "('f::{plus,zero}, 'w) loop_env"
  shows "traces (run_tool_calls E ctx m calls)
     (\<lambda>ts r. batch_ok E ctx m calls ts (map_sum id eb_messages r)
        \<and> (\<not> distinct (map tcall_id calls) \<or> am_stop_reason m = StopReason_Length \<longrightarrow> executed_calls ts = []))"
proof (cases "calls = []")
  case True
  then show ?thesis by (auto simp: run_tool_calls_def batch_ok_Nil intro!: traces_return)
next
  case False
  show ?thesis
  proof (cases "am_stop_reason m = StopReason_Length")
    case True
    have "traces (State_Monad.bind (fail_tool_calls_from_truncated_message E calls) (\<lambda>b. State_Monad.return (Inr b)))
      (\<lambda>ts r. batch_ok E ctx m calls ts (map_sum id eb_messages r) \<and> executed_calls ts = [])"
      by (rule traces_bind [OF traces_truncated], rule traces_return) (use batch_ok_refused in fastforce)
    then show ?thesis using True False by (auto simp: run_tool_calls_def elim: traces_mono)
  next
    case no_length: False
    then show ?thesis
      using False by (auto simp: run_tool_calls_def intro: traces_mono [OF traces_execute_tool_calls])
  qed
qed

end
