(* ===== verification/Agent_Cancel.thy ===== *)
theory Agent_Cancel
  imports Agent_Batches Agent_Invariant
begin

text \<open>
  Cancellation. A run that sees its signal cancelled may leave calls of a response without an answer; where
  the surroundings never take a cancellation back, the turn that did so is the last one.
\<close>

definition cancelled :: "('f, 'w) loop_env \<Rightarrow> ('f, 'w) io_state \<Rightarrow> bool" where
  "cancelled E s \<longleftrightarrow> fst (lc_is_cancelled (le_config E) (io_world s))"

text \<open>\<open>barring I m Q\<close>: the result of \<open>m\<close> satisfies \<open>Q\<close>, or \<open>I\<close> holds where it ends.\<close>

definition barring :: "(('f, 'w) io_state \<Rightarrow> bool) \<Rightarrow> ('f, 'w, 'a) io \<Rightarrow> ('a \<Rightarrow> bool) \<Rightarrow> bool" where
  "barring I m Q \<longleftrightarrow> (\<forall>s. Q (fst (run_state m s)) \<or> I (snd (run_state m s)))"

lemma barring_keeps: "keeps (\<lambda>_. True) m Q \<Longrightarrow> barring I m Q"
  by (simp add: barring_def keeps_def)

lemma barring_return: "Q x \<Longrightarrow> barring I (State_Monad.return x) Q"
  by (simp add: barring_def)

lemma barring_then: "(\<And>x. barring I (f x) Q) \<Longrightarrow> barring I (State_Monad.bind m f) Q"
  by (simp add: barring_def split_beta)

lemma barring_bind:
  assumes "barring I m R" "\<And>x. R x \<Longrightarrow> barring I (f x) Q" "\<And>x. keeps I (f x) (\<lambda>_. True)"
  shows "barring I (State_Monad.bind m f) Q"
  using assms by (simp add: barring_def keeps_def split_beta) blast

lemma keeps_branch:
  assumes "barring I m R" "keeps (\<lambda>_. True) m S"
    and "\<And>x. S x \<Longrightarrow> R x \<Longrightarrow> keeps (\<lambda>_. True) (f x) Q" "\<And>x. S x \<Longrightarrow> \<not> R x \<Longrightarrow> keeps I (f x) Q"
  shows "keeps (\<lambda>_. True) (State_Monad.bind m f) Q"
  using assms by (simp add: barring_def keeps_def split_beta) blast

lemma keeps_any: "keeps (\<lambda>_. True) m (\<lambda>_. True)"
  by (simp add: keeps_def)

lemma traces_result:
  assumes "traces m P" "\<And>ts x. P ts x \<Longrightarrow> Q x"
  shows "keeps (\<lambda>_. True) m Q"
  using assms unfolding traces_def keeps_def by blast

lemma traverse_length: "keeps (\<lambda>_. True) (State_Monad.traverse_list f xs) (\<lambda>ys. length ys = length xs)"
proof (induction xs)
  case (Cons x xs)
  then show ?case by (auto intro!: keeps_then [OF keeps_any] keeps_bind [OF Cons.IH] keeps_return)
qed (simp add: keeps_return)

lemma map_sum_right_iff: "map_sum f g x = Inr y \<longleftrightarrow> (\<exists>z. x = Inr z \<and> y = g z)"
  by (cases x) auto

lemma read_cancelled: "keeps (cancelled E) (is_cancelled E) (\<lambda>_. True) \<Longrightarrow> barring (cancelled E) (is_cancelled E) (\<lambda>c. \<not> c)"
  by (auto simp: barring_def keeps_def cancelled_def is_cancelled_def world_op_def split_beta)

lemma sees_cancelled: "keeps (cancelled E) (is_cancelled E) (\<lambda>_. True) \<Longrightarrow> keeps (cancelled E) (is_cancelled E) (\<lambda>c. c)"
  by (auto simp: keeps_def cancelled_def is_cancelled_def world_op_def split_beta)

subsection \<open>Every call is answered, or the signal is cancelled\<close>

context calls_invariant
begin

lemma sequential_call_goes_on:
  assumes "barring I (is_cancelled E) (\<lambda>c. \<not> c)"
  shows "barring I (sequential_call E ctx am c) (\<lambda>r. \<forall>t f stop. r = Inr (t, f, stop) \<longrightarrow> \<not> stop)"
proof -
  have last: "barring I (State_Monad.bind (is_cancelled E) (\<lambda>stop. State_Monad.return (Inr (trm, x, stop))))
      (\<lambda>r. \<forall>t f stop. r = Inr (t, f, stop) \<longrightarrow> \<not> stop)" for trm :: "'f tool_result_message" and x :: "'f finalized_call"
    by (rule barring_bind [OF assms]) (auto intro: barring_return keeps_return)
  show ?thesis
    unfolding sequential_call_def
    by (auto simp: Let_def split: option.split sum.split intro!: barring_then barring_return last)
qed

lemma sequential_answers:
  assumes "barring I (is_cancelled E) (\<lambda>c. \<not> c)" "tools_ok P ctx"
  shows "barring I (sequential_calls E ctx am cs) (\<lambda>r. \<forall>xs. r = Inr xs \<longrightarrow> length xs = length cs)"
proof (induction cs)
  case (Cons c cs)
  show ?case
    unfolding sequential_calls.simps
  proof (rule barring_bind [OF sequential_call_goes_on [OF assms(1)]])
    fix r :: "'f loop_error + 'f tool_result_message \<times> 'f finalized_call \<times> bool"
    assume "\<forall>t f stop. r = Inr (t, f, stop) \<longrightarrow> \<not> stop"
    then show "barring I (case r of Inl e \<Rightarrow> State_Monad.return (Inl e)
        | Inr (trm, f, stop) \<Rightarrow> if stop then State_Monad.return (Inr [(trm, f)])
            else State_Monad.bind (sequential_calls E ctx am cs) (\<lambda>others. State_Monad.return (map_sum id ((#) (trm, f)) others)))
      (\<lambda>r. \<forall>xs. r = Inr xs \<longrightarrow> length xs = length (c # cs))"
      by (auto split: sum.split intro!: barring_return keeps_return barring_bind [OF Cons.IH] simp: map_sum_right_iff)
  next
    fix r :: "'f loop_error + 'f tool_result_message \<times> 'f finalized_call \<times> bool"
    show "keeps I (case r of Inl e \<Rightarrow> State_Monad.return (Inl e)
        | Inr (trm, f, stop) \<Rightarrow> if stop then State_Monad.return (Inr [(trm, f)])
            else State_Monad.bind (sequential_calls E ctx am cs) (\<lambda>others. State_Monad.return (map_sum id ((#) (trm, f)) others)))
      (\<lambda>_. True)"
      by (auto split: sum.split intro!: keeps_return keeps_then [OF sequential_keeps] assms(2))
  qed
qed (simp add: barring_return)

end

lemma prepare_slot_length:
  "keeps (\<lambda>_. True) (prepare_slot E ctx am rc slots c) (\<lambda>x. length (snd x) = Suc (length slots))"
  unfolding prepare_slot_def
  by (auto simp: Let_def split: prepared.split intro!: keeps_then [OF keeps_any] keeps_return)

lemma drain_length: "keeps (\<lambda>_. True) (parallel_drain E ctx am fuel rc slots) (\<lambda>ys. length ys = length slots)"
proof (induction fuel arbitrary: rc slots)
  case (Suc fuel)
  have "keeps (\<lambda>_. True) (parallel_drain E ctx am fuel rc (slots[i := x])) (\<lambda>ys. length ys = length slots)" for rc i x
    using Suc.IH [of rc "slots[i := x]"] by simp
  then show ?case by (auto split: option.split intro!: keeps_then [OF keeps_any] keeps_return)
qed (simp add: keeps_return)

lemma results_length:
  "keeps (\<lambda>_. True) (slot_results E slots) (\<lambda>r. \<forall>xs. r = Inr xs \<longrightarrow> length xs = length slots)"
proof (induction slots)
  case (Cons slot slots)
  show ?case
  proof (cases slot)
    case (Some f)
    show ?thesis
      unfolding Some slot_results.simps
    proof (rule keeps_then [OF keeps_any], rule keeps_bind [OF Cons.IH], rule keeps_return)
      fix trm :: "'a tool_result_message" and others :: "'a loop_error + ('a tool_result_message \<times> 'a finalized_call) list"
      assume "\<forall>xs. others = Inr xs \<longrightarrow> length xs = length slots"
      then show "\<forall>xs. map_sum id ((#) (trm, f)) others = Inr xs \<longrightarrow> length xs = length (Some f # slots)"
        by (cases others) auto
    qed
  qed (simp add: keeps_return)
qed (simp add: keeps_return)

context calls_invariant
begin

lemma all_ok: "(\<And>t. P t) \<Longrightarrow> running_ok rs" "(\<And>t. P t) \<Longrightarrow> tools_ok P ctx"
  by (simp_all add: running_ok_def tools_ok_def)

lemma prepare_answers:
  assumes "barring I (is_cancelled E) (\<lambda>c. \<not> c)" "\<And>t. P t"
  shows "barring I (parallel_prepare E ctx am rc slots cs) (\<lambda>x. length (snd x) = length slots + length cs)"
proof (induction cs arbitrary: rc slots)
  case (Cons c cs)
  have loop: "barring I (State_Monad.bind (is_cancelled E)
      (\<lambda>stop. if stop then State_Monad.return (rc', slots') else parallel_prepare E ctx am rc' slots' cs))
      (\<lambda>x. length (snd x) = length slots + length (c # cs))" if "length slots' = Suc (length slots)" for rc' slots'
    by (rule barring_bind [OF assms(1)])
      (use Cons.IH [of rc' slots'] that in \<open>auto intro: keeps_return keeps_weaken [OF parallel_prepare_keeps] all_ok assms(2)\<close>)
  have kept: "keeps I (State_Monad.bind (is_cancelled E)
      (\<lambda>stop. if stop then State_Monad.return (rc', slots') else parallel_prepare E ctx am rc' slots' cs)) (\<lambda>_. True)" for rc' slots'
    by (auto intro!: keeps_then [OF cancelled_keeps] keeps_return keeps_weaken [OF parallel_prepare_keeps] all_ok assms(2))
  show ?case
    unfolding parallel_prepare.simps
  proof (rule barring_bind [OF barring_keeps [OF prepare_slot_length]])
    fix x :: "(('f, 'w) running_call list \<times> 'f completed_calls) \<times> 'f finalized_call option list"
    show "barring I (case x of (rc, slots) \<Rightarrow> State_Monad.bind (is_cancelled E)
        (\<lambda>stop. if stop then State_Monad.return (rc, slots) else parallel_prepare E ctx am rc slots cs))
        (\<lambda>x. length (snd x) = length slots + length (c # cs))" if "length (snd x) = Suc (length slots)"
      using loop [OF that, of "fst x"] by (simp only: split_beta)
    show "keeps I (case x of (rc, slots) \<Rightarrow> State_Monad.bind (is_cancelled E)
        (\<lambda>stop. if stop then State_Monad.return (rc, slots) else parallel_prepare E ctx am rc slots cs)) (\<lambda>_. True)"
      using kept by (cases x) simp
  qed
qed (simp add: barring_return)

text \<open>A batch of the loop answers every call of its response, unless it ends where \<open>I\<close> holds.\<close>

definition full :: "'f tool_call list \<Rightarrow> 'f loop_error + 'f executed_batch \<Rightarrow> bool" where
  "full calls r \<longleftrightarrow> (\<forall>b. r = Inr b \<longrightarrow> length (eb_messages b) = length calls)"

lemma parallel_answers:
  assumes "barring I (is_cancelled E) (\<lambda>c. \<not> c)" "\<And>t. P t"
  shows "barring I (execute_tool_calls_parallel E ctx am calls) (full calls)"
proof -
  let ?rest = "\<lambda>x. State_Monad.bind (parallel_drain E ctx am (length calls) (fst x) (snd x)) (\<lambda>slots.
      State_Monad.bind (slot_results E slots) (\<lambda>r. State_Monad.return
        (map_sum id (\<lambda>xs. \<lparr>eb_messages = map fst xs, eb_terminate = should_terminate_tool_batch (map snd xs)\<rparr>) r)))"
  have kept: "keeps I (?rest x) (\<lambda>_. True)" for x
    by (intro keeps_then [OF drain_keeps] keeps_then [OF slot_results_keep] keeps_return all_ok assms(2) TrueI)
  have filled: "keeps (\<lambda>_. True) (?rest x) (full calls)" if "length (snd x) = length calls" for x
    by (rule keeps_bind [OF drain_length], rule keeps_bind [OF results_length], rule keeps_return)
      (use that in \<open>auto simp: full_def map_sum_right_iff\<close>)
  have "barring I (State_Monad.bind (parallel_prepare E ctx am ([], []) [] calls) ?rest) (full calls)"
    by (rule barring_bind [OF prepare_answers [OF assms]]) (simp_all add: barring_keeps filled kept)
  then show ?thesis unfolding execute_tool_calls_parallel_def by (simp only: case_prod_unfold)
qed

lemma rejected_length:
  "keeps (\<lambda>_. True) (reject_ambiguous_tool_batch E calls) (\<lambda>r. \<forall>b. r = Some b \<longrightarrow> length (eb_messages b) = length calls)"
  unfolding reject_ambiguous_tool_batch_def
  by (auto intro!: keeps_return keeps_bind [OF traverse_length])

lemma truncated_length: "keeps (\<lambda>_. True) (fail_tool_calls_from_truncated_message E calls) (\<lambda>b. length (eb_messages b) = length calls)"
  unfolding fail_tool_calls_from_truncated_message_def
  by (rule keeps_bind [OF rejected_length])
    (auto split: option.split intro!: keeps_return keeps_bind [OF traverse_length])

lemma execute_answers:
  assumes "barring I (is_cancelled E) (\<lambda>c. \<not> c)" "\<And>t. P t"
  shows "barring I (execute_tool_calls E ctx am calls) (full calls)"
proof -
  have sequential: "barring I (execute_tool_calls_sequential E ctx am calls) (full calls)"
    unfolding execute_tool_calls_sequential_def
    by (rule barring_bind [OF sequential_answers [OF assms(1) all_ok(2) [OF assms(2)]]])
      (auto simp: full_def map_sum_right_iff intro!: barring_return keeps_return)
  have both: "keeps I (execute_tool_calls_sequential E ctx am calls) (\<lambda>_. True)"
    "keeps I (execute_tool_calls_parallel E ctx am calls) (\<lambda>_. True)"
    by (simp_all add: parallel_keeps execute_tool_calls_sequential_def keeps_return keeps_then [OF sequential_keeps] all_ok(2) assms(2))
  show ?thesis
    unfolding execute_tool_calls_def
    by (rule barring_bind [OF barring_keeps [OF rejected_length]])
      (auto split: option.split intro!: barring_return keeps_return sequential parallel_answers assms both simp: full_def)
qed

lemma run_answers:
  assumes "barring I (is_cancelled E) (\<lambda>c. \<not> c)" "\<And>t. P t"
  shows "barring I (run_tool_calls E ctx m calls) (full calls)"
proof -
  have "barring I (State_Monad.bind (fail_tool_calls_from_truncated_message E calls) (\<lambda>b. State_Monad.return (Inr b))) (full calls)"
    by (rule barring_keeps, rule keeps_bind [OF truncated_length], rule keeps_return) (simp add: full_def)
  then show ?thesis
    unfolding run_tool_calls_def by (auto intro!: barring_return execute_answers assms simp: full_def)
qed

end

text \<open>A turn that finds the signal cancelled after its tool calls is the last.\<close>

context turn_invariant
begin

lemma cancelled_turn_ends:
  assumes "keeps I (is_cancelled E) (\<lambda>c. c)" "\<And>t. P t" "calls \<noteq> []"
  shows "keeps I (finish_turn E m calls results st) (\<lambda>t. \<forall>st'. t \<noteq> Run_On st')"
proof -
  have aborts: "keeps I (abort_run E m st) (\<lambda>t. \<forall>st'. t \<noteq> Run_On st')" for st
    unfolding abort_run_def end_run_def Let_def
    by (intro keeps_then emit_keeps clock_keeps keeps_for_each injection_keeps message_keeps turn_end_keeps keeps_return) simp
  have ends: "keeps I (continue_or_abort E m calls st) (\<lambda>t. \<forall>st'. t \<noteq> Run_On st')" for st
    unfolding continue_or_abort_def
    by (rule keeps_then [OF drained_keeps(1)], rule keeps_bind [OF assms(1)]) (use assms(3) aborts in simp)
  have over: "keeps I (end_run E outcome msgs) (\<lambda>t. \<forall>st'. t \<noteq> Run_On st')" for outcome msgs
    unfolding end_run_def by (intro keeps_then emit_keeps keeps_return) simp
  have hook: "keeps I (turn_hook h t) (\<lambda>_. True)" if "keeps_hook I h (update_ok P)" for h t
    using that by (auto intro: keeps_weaken [OF hook_keeps])
  have ask: "keeps I (should_stop_after_turn E t) (\<lambda>_. True)" for t
    unfolding should_stop_after_turn_def using stop_keeps by (auto split: option.split intro: keeps_return)
  show ?thesis
    unfolding finish_turn_def Let_def
    by (intro keeps_then turn_end_keeps hook [OF turn_hook_keeps] ask)
      (auto intro!: keeps_return hook results_hook_keeps cancelled_keeps ends over)
qed

end

end
