(* ===== verification/Agent_Runs.thy ===== *)
theory Agent_Runs
  imports Agent_Batches Agent_Cancel Agent_Invariant "HOL-Library.Sublist"
begin

text \<open>
  What a whole run reports: the messages whose end it reports are, in order, the messages it
  returns, its last effect is its only \<open>AgentEnd\<close>, and everything it executed is a call of the response
  reported last, approved in the context the run had then.
\<close>

definition reports :: "'f agent_message list \<Rightarrow> 'f effect list \<Rightarrow> bool" where
  "reports ms ts \<longleftrightarrow> ended_messages ts = ms \<and> \<not> list_ex is_agent_end ts"

lemma reports_summary: "summary ms xs fs ts \<Longrightarrow> reports ms ts"
  by (simp add: reports_def summary_def)

lemma reports_append: "reports ms ts \<Longrightarrow> reports ns us \<Longrightarrow> reports (ms @ ns) (ts @ us)"
  by (simp add: reports_def)

lemma reports_Nil [simp]: "reports ms [] \<longleftrightarrow> ms = []"
  by (auto simp: reports_def)

subsection \<open>The context of a run\<close>

text \<open>
  The context at any time, from what has been reported: the messages reported since follow those of the
  context the run began with, or of one that a hook put in its place, whose prompt and tools it has. A stream
  that starts a response more than once leaves the earlier partial answers in between.
\<close>

fun is_start :: "'f stream_event \<Rightarrow> bool" where
  "is_start (Stream_Start _) = True"
| "is_start _ = False"

definition single_start :: "('f, 'w) loop_env \<Rightarrow> bool" where
  "single_start E \<longleftrightarrow> (\<forall>md lx opts w. length (filter is_start (rs_events (fst (le_stream_fn E md lx opts w)))) \<le> 1)"

definition grown :: "('f, 'w) loop_env \<Rightarrow> ('f, 'w) agent_context \<Rightarrow> 'f agent_message list \<Rightarrow> ('f, 'w) agent_context \<Rightarrow> bool" where
  "grown E b new ctx \<longleftrightarrow> ac_system_prompt ctx = ac_system_prompt b \<and> ac_tools ctx = ac_tools b
     \<and> subseq (ac_messages b @ new) (ac_messages ctx) \<and> (single_start E \<longrightarrow> ac_messages ctx = ac_messages b @ new)"

definition given_by_hook :: "('f, 'w) loop_env \<Rightarrow> ('f, 'w) agent_context \<Rightarrow> bool" where
  "given_by_hook E b \<longleftrightarrow> (\<exists>f t w. (lc_after_tool_results (le_config E) = Some f \<or> lc_prepare_next_turn (le_config E) = Some f)
     \<and> Option.bind (fst (f t w)) tu_context = Some b)"

definition run_context ::
  "('f, 'w) loop_env \<Rightarrow> ('f, 'w) agent_context \<Rightarrow> 'f agent_message list \<Rightarrow> ('f, 'w) agent_context \<Rightarrow> bool" where
  "run_context E ctx0 reported ctx \<longleftrightarrow> grown E ctx0 reported ctx
     \<or> (\<exists>b old new. reported = old @ new \<and> given_by_hook E b \<and> grown E b new ctx)"

lemma grown_refl: "grown E b [] b"
  by (simp add: grown_def)

lemma grown_response:
  assumes "grown E b new ctx" and "ctx' = ctx\<lparr>ac_messages := ac_messages ctx @ ps @ [m]\<rparr>" "single_start E \<longrightarrow> ps = []"
  shows "grown E b (new @ [m]) ctx'"
proof -
  have "subseq ((ac_messages b @ new) @ [m]) (ac_messages ctx @ ps @ [m])"
    using assms(1) by (intro list_emb_append_mono) (auto simp: grown_def)
  then show ?thesis using assms by (simp add: grown_def)
qed

lemma run_context_start: "run_context E ctx [] ctx"
  by (simp add: run_context_def grown_refl)

lemma run_context_response:
  assumes "run_context E ctx0 reported ctx" and "ctx' = ctx\<lparr>ac_messages := ac_messages ctx @ ps @ [m]\<rparr>" "single_start E \<longrightarrow> ps = []"
  shows "run_context E ctx0 (reported @ [m]) ctx'"
  using assms(1) grown_response [OF _ assms(2,3)] unfolding run_context_def by (metis append_assoc)

lemma run_context_push: "run_context E ctx0 reported ctx \<Longrightarrow> run_context E ctx0 (reported @ [m]) (push_message m ctx)"
  by (rule run_context_response [where ps = "[]"]) (simp_all add: push_message_def)

lemma run_context_pushes:
  "run_context E ctx0 reported ctx \<Longrightarrow> run_context E ctx0 (reported @ ms) (ctx\<lparr>ac_messages := ac_messages ctx @ ms\<rparr>)"
proof (induction ms rule: rev_induct)
  case (snoc m ms)
  from run_context_push [OF snoc.IH [OF snoc.prems], of m] show ?case by (simp add: push_message_def)
qed simp

lemma run_context_hook: "given_by_hook E b \<Longrightarrow> run_context E ctx0 reported b"
  unfolding run_context_def by (intro disjI2 exI [of _ b] exI [of _ reported] exI [of _ "[]"]) (simp add: grown_refl)

subsection \<open>Vetted executions\<close>

text \<open>
  Where a run starts: its context, and the assistant message whose calls are still to be run, if it
  continues from one. \<open>m\<close> is answered in \<open>ctx\<close>, after \<open>before\<close> was reported: it is that message, or the
  one reported last, which also ends the context.
\<close>

type_synonym ('f, 'w) run_origin = "('f, 'w) agent_context \<times> 'f assistant_message option"

definition answering ::
  "('f, 'w) loop_env \<Rightarrow> ('f, 'w) run_origin \<Rightarrow> 'f agent_message list \<Rightarrow> 'f assistant_message \<Rightarrow> ('f, 'w) agent_context \<Rightarrow> bool" where
  "answering E o1 before m ctx \<longleftrightarrow> run_context E (fst o1) before ctx \<and>
     (snd o1 = Some m
      \<or> (\<exists>ms ns. before = ms @ [AgentMessage_Assistant m] \<and> ac_messages ctx = ns @ [AgentMessage_Assistant m]))"

definition justified ::
  "('f, 'w) loop_env \<Rightarrow> ('f, 'w) run_origin \<Rightarrow> 'f agent_message list \<Rightarrow> string \<Rightarrow> 'f json \<Rightarrow> bool" where
  "justified E o1 past i a \<longleftrightarrow> (\<exists>before rs m ctx c. past = before @ map AgentMessage_ToolResult rs \<and> answering E o1 before m ctx
     \<and> c \<in> set (tool_calls_of (am_content m)) \<and> tcall_id c = i \<and> approved E ctx m c a)"

fun vetted :: "('f, 'w) loop_env \<Rightarrow> ('f, 'w) run_origin \<Rightarrow> 'f agent_message list \<Rightarrow> 'f effect list \<Rightarrow> bool" where
  "vetted E o1 past [] \<longleftrightarrow> True"
| "vetted E o1 past (x # ts) \<longleftrightarrow>
     (\<forall>i a. executed_call x = Some (i, a) \<longrightarrow> justified E o1 past i a) \<and> vetted E o1 (past @ ended_messages [x]) ts"

lemma vetted_append [simp]:
  "vetted E o1 past (ts @ us) \<longleftrightarrow> vetted E o1 past ts \<and> vetted E o1 (past @ ended_messages ts) us"
proof (induction ts arbitrary: past)
  case (Cons x ts)
  have "past @ ended_messages (x # ts) = (past @ ended_messages [x]) @ ended_messages ts"
    by (simp split: option.split)
  then show ?case using Cons by simp
qed simp

lemma vetted_quiet: "summary ms [] fs ts \<Longrightarrow> vetted E o1 past ts"
proof -
  have "executed_calls ts = [] \<Longrightarrow> vetted E o1 past ts"
    by (induction ts arbitrary: past) (auto split: option.splits)
  then show "summary ms [] fs ts \<Longrightarrow> vetted E o1 past ts" by (simp add: summary_def)
qed

lemma vetted_batch:
  assumes "answering E o1 past m ctx" and "set cs \<subseteq> set (tool_calls_of (am_content m))"
  shows "ended_messages ts = map AgentMessage_ToolResult rs \<Longrightarrow>
    \<forall>(i, a) \<in> set (executed_calls ts). \<exists>c \<in> set cs. tcall_id c = i \<and> approved E ctx m c a \<Longrightarrow>
    vetted E o1 (past @ map AgentMessage_ToolResult rs0) ts"
proof (induction ts arbitrary: rs0 rs)
  case (Cons x ts)
  have "justified E o1 (past @ map AgentMessage_ToolResult rs0) i a" if "executed_call x = Some (i, a)" for i a
    using Cons.prems(2) that assms unfolding justified_def by fastforce
  moreover have "\<exists>rs1 rs2. ended_messages [x] = map AgentMessage_ToolResult rs1 \<and> ended_messages ts = map AgentMessage_ToolResult rs2"
  proof (cases "ended_message x")
    case None
    then show ?thesis using Cons.prems(1) by (intro exI [of _ "[]"] exI [of _ rs]) simp
  next
    case (Some y)
    then obtain z zs where "y = AgentMessage_ToolResult z" "ended_messages ts = map AgentMessage_ToolResult zs"
      using Cons.prems(1) by (cases rs) auto
    then show ?thesis using Some by (intro exI [of _ "[z]"] exI [of _ zs]) simp
  qed
  moreover have "\<forall>(i, a) \<in> set (executed_calls ts). \<exists>c \<in> set cs. tcall_id c = i \<and> approved E ctx m c a"
    using Cons.prems(2) by (auto split: option.splits)
  ultimately show ?case using Cons.IH by (auto simp flip: map_append)
qed simp

text \<open>A run that is over, with its messages \<open>msgs\<close>, after it had produced \<open>new\<close>.\<close>

definition closes :: "'f agent_message list \<Rightarrow> 'f agent_message list \<Rightarrow> 'f effect list \<Rightarrow> bool" where
  "closes new msgs ts \<longleftrightarrow> (\<exists>us ms. ts = us @ [Fx_Emit (Agent_End msgs)] \<and> reports ms us \<and> msgs = new @ ms)"

lemma closes_append: "reports ms ts \<Longrightarrow> closes (new @ ms) msgs us \<Longrightarrow> closes new msgs (ts @ us)"
  unfolding closes_def by (metis append_assoc reports_append)

lemma closes_end: "closes new new [Fx_Emit (Agent_End new)]"
  unfolding closes_def by (intro exI [of _ "[]"]) simp

text \<open>A state of the loop whose context is what has been reported.\<close>

definition fits :: "('f, 'w) loop_env \<Rightarrow> ('f, 'w) run_origin \<Rightarrow> ('f, 'w) loop_state \<Rightarrow> bool" where
  "fits E o1 st \<longleftrightarrow> run_context E (fst o1) (ls_new_messages st) (ls_context st)
     \<and> ls_pending_assistant st \<in> {None, snd o1}"

lemma fits_simps [simp]:
  "fits E o1 (st\<lparr>ls_pending := ps\<rparr>) = fits E o1 st" "fits E o1 (st\<lparr>ls_cache := c\<rparr>) = fits E o1 st"
  "fits E o1 (st\<lparr>ls_first_turn := b\<rparr>) = fits E o1 st" "fits E o1 (st\<lparr>ls_has_more := b\<rparr>) = fits E o1 st"
  by (simp_all add: fits_def)

lemma fits_record: "fits E o1 st \<Longrightarrow> fits E o1 (fold record_message ms st)"
proof (induction ms arbitrary: st)
  case (Cons m ms)
  have "fits E o1 (record_message m st)"
    using Cons.prems by (auto simp: fits_def record_message_def intro: run_context_push)
  then show ?case using Cons.IH by simp
qed simp

lemma fits_update:
  assumes "fits E o1 st" "\<forall>b. Option.bind u tu_context = Some b \<longrightarrow> given_by_hook E b"
  shows "fits E o1 (apply_update u st)"
  using assms run_context_hook by (auto simp: apply_update_def fits_def split: option.split)

definition turn_ok ::
  "('f, 'w) loop_env \<Rightarrow> ('f, 'w) run_origin \<Rightarrow> 'f agent_message list \<Rightarrow> 'f effect list \<Rightarrow> ('f, 'w) turn_end \<Rightarrow> bool" where
  "turn_ok E o1 new ts r \<longleftrightarrow> vetted E o1 new ts \<and>
     (case r of
        Run_On st \<Rightarrow> fits E o1 st \<and> (\<exists>ms. ls_new_messages st = new @ ms \<and> reports ms ts)
      | Run_Over res msgs \<Rightarrow>
          (case res of Inl _ \<Rightarrow> \<not> list_ex is_agent_end ts | Inr _ \<Rightarrow> closes new msgs ts))"

lemma turn_ok_append:
  assumes "vetted E o1 new ts" "reports ms ts" "turn_ok E o1 (new @ ms) us r"
  shows "turn_ok E o1 new (ts @ us) r"
proof (cases r)
  case (Run_Over res msgs)
  then show ?thesis
    using assms closes_append [OF assms(2)] by (cases res) (auto simp: turn_ok_def reports_def)
next
  case (Run_On st)
  then show ?thesis using assms reports_append [OF assms(2)] by (auto simp: turn_ok_def reports_def)
qed

lemma turn_ok_quiet: "quiet ts \<Longrightarrow> turn_ok E o1 new us r \<Longrightarrow> turn_ok E o1 new (ts @ us) r"
  by (rule turn_ok_append [where ms = "[]"]) (auto intro: vetted_quiet reports_summary)

subsection \<open>The steps of a turn\<close>

lemma traces_finish_response:
  "traces (finish_response E added result ctx)
     (\<lambda>ts r. case fst r of Inl _ \<Rightarrow> quiet ts | Inr m \<Rightarrow> summary [AgentMessage_Assistant m] [] [] ts)"
proof (cases result)
  case (Some m)
  have start: "traces (emit_event E (Message_Start None am)) (\<lambda>ts _. quiet ts)" for am
    by (rule traces_emit) (simp add: summary_single)
  have ended: "traces (emit_event E (Message_End None (AgentMessage_Assistant m)))
      (\<lambda>ts _. summary [AgentMessage_Assistant m] [] [] ts)"
    by (rule traces_emit) (simp add: summary_single)
  show ?thesis
  proof (cases added)
    case True
    then show ?thesis
      unfolding finish_response_def Some Let_def by (auto intro!: traces_bind [OF ended] traces_return)
  next
    case False
    then show ?thesis
      unfolding finish_response_def Some Let_def
      by (auto intro!: traces_bind [OF start] traces_bind [OF ended] traces_return intro: quiet_append)
  qed
qed (auto simp: finish_response_def intro!: traces_return)

text \<open>What a response leaves in the context: the answer, after one partial answer for each start but the first.\<close>

lemma traces_with:
  assumes "traces m P" "keeps (\<lambda>_. True) m Q"
  shows "traces m (\<lambda>ts x. P ts x \<and> Q x)"
  using assms unfolding traces_def keeps_def by blast

definition answered_in ::
  "bool \<Rightarrow> nat \<Rightarrow> ('f, 'w) agent_context \<Rightarrow> ('f agent_error + 'f assistant_message) \<times> ('f, 'w) agent_context \<Rightarrow> bool" where
  "answered_in added starts ctx x \<longleftrightarrow> (\<forall>m. fst x = Inr m \<longrightarrow> (\<exists>ps. length ps \<le> starts - (if added then 0 else 1)
     \<and> snd x = ctx\<lparr>ac_messages := (if added then butlast (ac_messages ctx) else ac_messages ctx) @ ps @ [AgentMessage_Assistant m]\<rparr>))"

lemma finish_extends:
  "added \<longrightarrow> ac_messages ctx \<noteq> [] \<Longrightarrow> keeps (\<lambda>_. True) (finish_response E added result ctx) (answered_in added n ctx)"
  by (auto simp: finish_response_def Let_def replace_last_message_def push_message_def answered_in_def split: option.split
      intro!: keeps_then [OF keeps_any] keeps_return exI [of _ "[]"])

lemma answered_in_start:
  assumes "answered_in True n (push_message p ctx) x" "added \<longrightarrow> ac_messages ctx \<noteq> []"
  shows "answered_in added (Suc n) ctx x"
  unfolding answered_in_def
proof (intro allI impI)
  fix m assume "fst x = Inr m"
  then obtain ps where ps: "length ps \<le> n" "snd x = ctx\<lparr>ac_messages := ac_messages ctx @ ps @ [AgentMessage_Assistant m]\<rparr>"
    using assms(1) by (auto simp: answered_in_def push_message_def)
  let ?ps = "if added then last (ac_messages ctx) # ps else ps"
  have "(if added then butlast (ac_messages ctx) else ac_messages ctx) @ ?ps = ac_messages ctx @ ps"
    using assms(2) by simp
  then show "\<exists>ps. length ps \<le> Suc n - (if added then 0 else 1)
      \<and> snd x = ctx\<lparr>ac_messages := (if added then butlast (ac_messages ctx) else ac_messages ctx) @ ps @ [AgentMessage_Assistant m]\<rparr>"
    using ps by (intro exI [of _ ?ps]) (simp flip: append_assoc)
qed

lemma events_extend:
  "added \<longrightarrow> ac_messages ctx \<noteq> [] \<Longrightarrow>
     keeps (\<lambda>_. True) (fold_events E result added evs ctx) (answered_in added (length (filter is_start evs)) ctx)"
proof (induction evs arbitrary: added ctx)
  case Nil
  then show ?case using finish_extends [of added ctx E result] by simp
next
  case (Cons ev evs)
  show ?case
  proof (cases "stream_terminal ev")
    case True
    then show ?thesis using finish_extends [OF Cons.prems] by simp
  next
    case other: False
    show ?thesis
    proof (cases ev)
      case (Stream_Start p)
      have "keeps (\<lambda>_. True) (fold_events E result True evs (push_message (AgentMessage_Assistant p) ctx))
          (answered_in added (Suc (length (filter is_start evs))) ctx)"
        by (rule keeps_mono [OF Cons.IH answered_in_start [OF _ Cons.prems]]) (simp_all add: push_message_def)
      then show ?thesis using Stream_Start by (auto simp: Let_def intro!: keeps_then [OF keeps_any])
    qed (use other Cons.IH [OF Cons.prems] in \<open>auto intro!: keeps_then [OF keeps_any]\<close>)
  qed
qed

lemma traces_fold_events:
  "traces (fold_events E result added evs ctx)
     (\<lambda>ts r. case fst r of Inl _ \<Rightarrow> quiet ts | Inr m \<Rightarrow> summary [AgentMessage_Assistant m] [] [] ts)"
  (is "traces _ ?P")
proof (induction evs arbitrary: added ctx)
  case (Cons ev evs)
  have event: "traces (State_Monad.bind (emit_event E e) (\<lambda>_. fold_events E result added evs ctx)) ?P"
    if "\<not> is_agent_end (Fx_Emit e)" "ended_message (Fx_Emit e) = None" "finished_call (Fx_Emit e) = None" for e added ctx
    by (rule traces_bind [OF traces_emit(1) [where P = "\<lambda>ts _. quiet ts"]], use that in \<open>simp add: summary_single\<close>,
        rule traces_mono [OF Cons.IH]) (auto split: sum.splits intro: quiet_append)
  show ?case
    using event Cons.IH by (cases ev) (auto simp: Let_def intro: traces_finish_response)
qed (simp add: traces_finish_response)

lemma traces_convert: "(\<And>ms. P [] ms) \<Longrightarrow> traces (convert_history E ctx) P"
  unfolding convert_history_def
  by (rule traces_bind [where Q = "\<lambda>ts _. ts = []"])
    (auto intro!: trace_rules split: option.split)

lemma traces_api_key: "(\<And>k. P [] k) \<Longrightarrow> traces (resolve_api_key E) P"
  unfolding resolve_api_key_def
  by (auto intro!: traces_return traces_bind [OF traces_world_op [where P = "\<lambda>ts _. ts = []"]] split: option.split)

lemma traces_open_stream:
  "traces (open_stream E lx opts) (\<lambda>ts r. quiet ts \<and> (single_start E \<longrightarrow> length (filter is_start (rs_events r)) \<le> 1))"
  unfolding open_stream_def
  by (rule traces_bind [OF traces_note [where P = "\<lambda>ts _. quiet ts"]])
    (auto intro!: traces_world_op simp: summary_single single_start_def)

lemma traces_stream:
  "traces (stream_assistant_response E ctx cache)
     (\<lambda>ts x. case fst (fst x) of Inl _ \<Rightarrow> quiet ts
        | Inr m \<Rightarrow> summary [AgentMessage_Assistant m] [] [] ts
            \<and> (\<exists>ps. snd (fst x) = ctx\<lparr>ac_messages := ac_messages ctx @ ps @ [AgentMessage_Assistant m]\<rparr> \<and> (single_start E \<longrightarrow> ps = [])))"
proof -
  obtain cached cache' where take: "take_messages cache ctx (le_config E) = (cached, cache')" by fastforce
  have history: "traces (case cached of Some ms \<Rightarrow> State_Monad.return ms | None \<Rightarrow> convert_history E ctx) (\<lambda>ts _. ts = [])"
    by (cases cached) (auto intro: traces_return traces_convert)
  have events: "traces (fold_events E result False evs ctx) (\<lambda>ts r.
      (case fst r of Inl _ \<Rightarrow> quiet ts | Inr m \<Rightarrow> summary [AgentMessage_Assistant m] [] [] ts)
      \<and> answered_in False (length (filter is_start evs)) ctx r)" for result evs
    by (rule traces_with [OF traces_fold_events events_extend]) simp
  show ?thesis
    unfolding stream_assistant_response_def take Let_def prod.case
    by (rule traces_bind [OF history], rule traces_bind [OF traces_api_key [where P = "\<lambda>ts _. ts = []"]], rule refl,
        rule traces_bind [OF traces_open_stream], rule traces_bind [OF events], rule traces_return)
      (auto split: sum.splits intro: quiet_append simp: answered_in_def)
qed

lemma traces_inject: "traces (inject_message E m) (\<lambda>ts _. summary [m] [] [] ts)"
  unfolding inject_message_def
  by (rule traces_bind [OF traces_emit(2) [where P = "\<lambda>ts _. quiet ts"]])
    (auto intro!: traces_emit quiet_append simp: summary_single)

lemma traces_inject_all: "traces (for_each (inject_message E) ms) (\<lambda>ts _. summary ms [] [] ts)"
proof (rule traces_for_each [OF traces_inject])
  fix tss assume "list_all2 (\<lambda>m ts. summary [m] [] [] ts) ms tss"
  then show "summary ms [] [] (concat tss)"
    by (induction rule: list_all2_induct) (use summary_append in fastforce)+
qed

lemma recorded_new [simp]:
  "ls_new_messages (fold record_message ms st) = ls_new_messages st @ ms"
  by (induction ms arbitrary: st) (simp_all add: record_message_def)

lemma traces_inject_pending:
  "fits E o1 st \<Longrightarrow> traces (inject_pending E st)
     (\<lambda>ts st'. fits E o1 st' \<and> (\<exists>ms. ls_new_messages st' = ls_new_messages st @ ms \<and> summary ms [] [] ts))"
  by (cases "ls_pending st = []")
    (auto simp: inject_pending_def intro!: traces_return traces_bind [OF traces_inject_all] fits_record)

lemma traces_next_response:
  assumes "fits E o1 st"
  shows "traces (next_response E st)
     (\<lambda>ts x. case fst x of Inl _ \<Rightarrow> quiet ts
        | Inr m \<Rightarrow> fits E o1 (snd x) \<and> answering E o1 (ls_new_messages (snd x)) m (ls_context (snd x))
            \<and> (\<exists>ms. ls_new_messages (snd x) = ls_new_messages st @ ms \<and> summary ms [] [] ts))"
proof (cases "ls_pending_assistant st")
  case None
  have ctx: "run_context E (fst o1) (ls_new_messages st) (ls_context st)" using assms by (simp add: fits_def)
  show ?thesis
    unfolding next_response_def None option.case
  proof (rule traces_bind [OF traces_stream], simp only: Let_def split_beta, rule traces_return)
    fix ts and x :: "(('a agent_error + 'a assistant_message) \<times> ('a, 'b) agent_context) \<times> 'a message_cache"
    let ?st = "st\<lparr>ls_context := snd (fst x), ls_cache := snd x\<rparr>"
    assume x: "case fst (fst x) of Inl _ \<Rightarrow> quiet ts
      | Inr m \<Rightarrow> summary [AgentMessage_Assistant m] [] [] ts
          \<and> (\<exists>ps. snd (fst x) = (ls_context st)\<lparr>ac_messages := ac_messages (ls_context st) @ ps @ [AgentMessage_Assistant m]\<rparr>
              \<and> (single_start E \<longrightarrow> ps = []))"
    show "case fst (case fst (fst x) of Inl e \<Rightarrow> (Inl e, ?st)
        | Inr m \<Rightarrow> (Inr m, ?st\<lparr>ls_new_messages := ls_new_messages ?st @ [AgentMessage_Assistant m]\<rparr>)) of
        Inl _ \<Rightarrow> quiet (ts @ [])
      | Inr m \<Rightarrow> fits E o1 (snd (case fst (fst x) of Inl e \<Rightarrow> (Inl e, ?st)
          | Inr m \<Rightarrow> (Inr m, ?st\<lparr>ls_new_messages := ls_new_messages ?st @ [AgentMessage_Assistant m]\<rparr>)))
        \<and> answering E o1 (ls_new_messages (snd (case fst (fst x) of Inl e \<Rightarrow> (Inl e, ?st)
          | Inr m \<Rightarrow> (Inr m, ?st\<lparr>ls_new_messages := ls_new_messages ?st @ [AgentMessage_Assistant m]\<rparr>)))) m
          (ls_context (snd (case fst (fst x) of Inl e \<Rightarrow> (Inl e, ?st)
          | Inr m \<Rightarrow> (Inr m, ?st\<lparr>ls_new_messages := ls_new_messages ?st @ [AgentMessage_Assistant m]\<rparr>))))
        \<and> (\<exists>ms. ls_new_messages (snd (case fst (fst x) of Inl e \<Rightarrow> (Inl e, ?st)
          | Inr m \<Rightarrow> (Inr m, ?st\<lparr>ls_new_messages := ls_new_messages ?st @ [AgentMessage_Assistant m]\<rparr>)))
              = ls_new_messages st @ ms \<and> summary ms [] [] (ts @ []))"
    proof (cases "fst (fst x)")
      case (Inr m)
      with x obtain ps where ps: "snd (fst x) = (ls_context st)\<lparr>ac_messages := ac_messages (ls_context st) @ ps @ [AgentMessage_Assistant m]\<rparr>"
        "single_start E \<longrightarrow> ps = []" and sum: "summary [AgentMessage_Assistant m] [] [] ts" by auto
      have rc: "run_context E (fst o1) (ls_new_messages st @ [AgentMessage_Assistant m]) (snd (fst x))"
        by (rule run_context_response [OF ctx ps])
      have "\<exists>ns. ac_messages (snd (fst x)) = ns @ [AgentMessage_Assistant m]" using ps(1) by simp
      then show ?thesis using rc sum assms Inr by (simp add: fits_def answering_def None)
    qed (use x in simp)
  qed
next
  case (Some m)
  then have "snd o1 = Some m" using assms by (auto simp: fits_def)
  then show ?thesis
    unfolding next_response_def Some option.case
    by (intro traces_return) (use assms in \<open>simp add: fits_def answering_def\<close>)
qed

lemma traces_turn_end: "traces (emit_turn_end E m results) (\<lambda>ts _. quiet ts)"
  unfolding emit_turn_end_def
  by (rule traces_bind [OF traces_pending_count [where P = "\<lambda>ts _. ts = []"]])
    (auto intro!: traces_emit simp: summary_single)

lemma traces_end_run: "traces (end_run E outcome msgs) (\<lambda>ts r. turn_ok E o1 msgs ts r)"
  unfolding end_run_def
  by (rule traces_bind [OF traces_emit(1) [where P = "\<lambda>ts _. ts = [Fx_Emit (Agent_End msgs)]"]])
    (auto intro!: traces_return simp: turn_ok_def closes_end)

lemma updated_new [simp]: "ls_new_messages (apply_update u st) = ls_new_messages st"
  by (simp add: apply_update_def split: option.split)

subsection \<open>A turn\<close>

lemma traces_abort_run:
  fixes E :: "('f::{plus,zero}, 'w) loop_env"
  shows "traces (abort_run E m st) (\<lambda>ts r. turn_ok E o1 (ls_new_messages st) ts r)"
proof -
  have start: "traces (emit_event E Turn_Start) (\<lambda>ts _. quiet ts)"
    by (rule traces_emit) (simp add: summary_single)
  have rest: "traces (State_Monad.bind (for_each (inject_message E) (ls_pending st)) (\<lambda>_.
        State_Monad.bind (emit_message E (AgentMessage_Assistant a)) (\<lambda>_. State_Monad.bind (emit_turn_end E a []) (\<lambda>_.
          end_run E Outcome_Aborted (ls_new_messages st @ ls_pending st @ [AgentMessage_Assistant a])))))
      (\<lambda>ts r. turn_ok E o1 (ls_new_messages st) ts r)" for a :: "'f assistant_message"
  proof (rule traces_bind [OF traces_inject_all], rule traces_bind [OF traces_emit_message],
      rule traces_bind [OF traces_turn_end], rule traces_mono [OF traces_end_run])
    fix ts us vs ws :: "'f effect list" and r
    assume "summary (ls_pending st) [] [] ts" "summary [AgentMessage_Assistant a] [] [] us" "quiet vs"
    then have "summary (ls_pending st @ [AgentMessage_Assistant a]) [] [] (ts @ us @ vs)"
      using summary_append append_quiet by fastforce
    moreover assume "turn_ok E o1 (ls_new_messages st @ ls_pending st @ [AgentMessage_Assistant a]) ws r"
    ultimately show "turn_ok E o1 (ls_new_messages st) (ts @ us @ vs @ ws) r"
      using turn_ok_append [OF vetted_quiet reports_summary, of "ls_pending st @ [AgentMessage_Assistant a]" _ "ts @ us @ vs"]
      by simp
  qed
  show ?thesis
    unfolding abort_run_def Let_def
    by (rule traces_bind [OF start], rule traces_bind [OF traces_now [where P = "\<lambda>ts _. ts = []"]], rule refl,
        rule traces_mono [OF rest]) (simp add: turn_ok_quiet)
qed

lemma traces_quiet_drains:
  "traces (drain_steering E) (\<lambda>ts _. quiet ts)" "traces (drain_follow_up E) (\<lambda>ts _. quiet ts)"
  by (rule traces_drains; simp add: summary_single)+

lemma traces_continue_or_abort:
  fixes E :: "('f::{plus,zero}, 'w) loop_env"
  assumes "fits E o1 st"
  shows "traces (continue_or_abort E m calls st) (\<lambda>ts r. turn_ok E o1 (ls_new_messages st) ts r)"
  unfolding continue_or_abort_def
proof (rule traces_bind [OF traces_quiet_drains(1)], rule traces_bind [OF traces_is_cancelled])
  fix pending and ts us :: "'f effect list" and c assume "quiet ts" "us = [] \<and> (never_cancelled E \<longrightarrow> \<not> c)"
  moreover have "turn_ok E o1 (ls_new_messages st) [] (Run_On (st\<lparr>ls_pending := pending\<rparr>))"
    using assms by (simp add: turn_ok_def)
  ultimately show "traces (if c \<and> calls \<noteq> [] then abort_run E m (st\<lparr>ls_pending := pending\<rparr>)
      else State_Monad.return (Run_On (st\<lparr>ls_pending := pending\<rparr>)))
      (\<lambda>vs r. turn_ok E o1 (ls_new_messages st) (ts @ us @ vs) r)"
    using traces_abort_run [of E m "st\<lparr>ls_pending := pending\<rparr>" o1]
    by (auto intro!: traces_return turn_ok_quiet elim!: traces_mono)
qed

lemma traces_given:
  "h = lc_after_tool_results (le_config E) \<or> h = lc_prepare_next_turn (le_config E) \<Longrightarrow>
     traces (turn_hook h t) (\<lambda>ts u. ts = [] \<and> (\<forall>b. Option.bind u tu_context = Some b \<longrightarrow> given_by_hook E b))"
  unfolding turn_hook_def given_by_hook_def by (auto intro!: traces_return traces_world_op split: option.split)

lemma traces_finish_turn:
  fixes E :: "('f::{plus,zero}, 'w) loop_env"
  assumes "fits E o1 st"
  shows "traces (finish_turn E m calls results st) (\<lambda>ts r. turn_ok E o1 (ls_new_messages st) ts r)"
proof -
  have hook: "traces (if results = [] then State_Monad.return None
      else turn_hook (lc_after_tool_results (le_config E)) (turn_context_of st m results))
      (\<lambda>ts u. ts = [] \<and> (\<forall>b. Option.bind u tu_context = Some b \<longrightarrow> given_by_hook E b))"
    using traces_given [of "lc_after_tool_results (le_config E)" E] by (auto intro: traces_return)
  have stop: "traces (if stop then is_cancelled E else State_Monad.return False) (\<lambda>ts _. ts = [])" for stop
    by (auto intro: traces_return traces_cancelled)
  have last: "traces (if stop \<and> \<not> (c \<and> calls \<noteq> []) then end_run E Outcome_Completed (ls_new_messages st')
        else continue_or_abort E m calls st') (\<lambda>us r. turn_ok E o1 (ls_new_messages st) (ts @ us) r)"
    if "quiet ts" "ls_new_messages st' = ls_new_messages st" "fits E o1 st'" for stop c st' ts
    using that traces_end_run [of E Outcome_Completed "ls_new_messages st'" o1] traces_continue_or_abort [of E o1 st' m calls]
    by (auto elim!: traces_mono intro: turn_ok_quiet)
  show ?thesis
    unfolding finish_turn_def Let_def
  proof (rule traces_bind [OF hook], rule traces_bind [OF traces_turn_end],
      rule traces_bind [OF traces_given], rule disjI2, rule refl,
      rule traces_bind [OF traces_should_stop [where P = "\<lambda>ts _. ts = []"]], rule refl, rule traces_bind [OF stop])
    fix ts us vs ws xs :: "'f effect list" and u u' :: "('f, 'w) turn_update option" and stop c
    assume "ts = [] \<and> (\<forall>b. Option.bind u tu_context = Some b \<longrightarrow> given_by_hook E b)" "quiet us"
      "vs = [] \<and> (\<forall>b. Option.bind u' tu_context = Some b \<longrightarrow> given_by_hook E b)" "ws = []" "xs = []"
    then show "traces (if stop \<and> \<not> (c \<and> calls \<noteq> [])
        then end_run E Outcome_Completed (ls_new_messages (apply_update u' (apply_update u st)))
        else continue_or_abort E m calls (apply_update u' (apply_update u st)))
      (\<lambda>ys r. turn_ok E o1 (ls_new_messages st) (ts @ us @ vs @ ws @ xs @ ys) r)"
      using last [of us "apply_update u' (apply_update u st)" stop c] assms by (simp add: fits_update)
  qed
qed

lemma batch_okD:
  assumes "batch_ok E ctx am cs ts r"
  obtains rs xs fs where "summary (map AgentMessage_ToolResult rs) xs fs ts"
    "\<forall>(i, a) \<in> set xs. \<exists>c \<in> set cs. tcall_id c = i \<and> approved E ctx am c a"
    "\<forall>new. r = Inr new \<longrightarrow> rs = new"
proof -
  obtain ms xs fs where a: "summary ms xs fs ts" "\<exists>rs. ms = map AgentMessage_ToolResult rs"
    and b: "\<forall>(i, a) \<in> set xs. \<exists>c \<in> set cs. tcall_id c = i \<and> approved E ctx am c a"
    and r: "case r of Inl e \<Rightarrow> e = Loop_Panic
       | Inr new \<Rightarrow> \<exists>n \<le> length cs. (cs \<noteq> [] \<longrightarrow> 0 < n) \<and> (never_cancelled E \<longrightarrow> n = length cs)
           \<and> list_all2 answer (take n cs) new \<and> ms = map AgentMessage_ToolResult new
           \<and> mset fs = mset (map tcall_id (take n cs))"
    using assms unfolding batch_ok_def by (elim exE conjE) blast
  obtain rs where rs: "ms = map AgentMessage_ToolResult rs" using a(2) by blast
  have "\<forall>new. r = Inr new \<longrightarrow> rs = new"
    using r rs by (cases r) (auto simp: inj_on_def dest: map_injective)
  then show thesis by (rule that [OF a(1) [unfolded rs] b])
qed

lemma traces_complete_turn:
  fixes E :: "('f::{plus,zero}, 'w) loop_env"
  assumes "fits E o1 st" "answering E o1 (ls_new_messages st) m (ls_context st)"
  shows "traces (complete_turn E m st) (\<lambda>ts r. turn_ok E o1 (ls_new_messages st) ts r)"
  unfolding complete_turn_def Let_def
proof (rule traces_bind [OF traces_run_tool_calls])
  fix ts :: "'f effect list" and r :: "'f loop_error + 'f executed_batch"
  let ?calls = "tool_calls_of (am_content m)"
  assume ok: "batch_ok E (ls_context st) m ?calls ts (map_sum id eb_messages r)
    \<and> (\<not> distinct (map tcall_id ?calls) \<or> am_stop_reason m = StopReason_Length \<longrightarrow> executed_calls ts = [])"
  obtain rs xs fs where ts: "summary (map AgentMessage_ToolResult rs) xs fs ts"
    and xs: "\<forall>(i, a) \<in> set xs. \<exists>c \<in> set ?calls. tcall_id c = i \<and> approved E (ls_context st) m c a"
    and r: "\<forall>new. map_sum id eb_messages r = Inr new \<longrightarrow> rs = new"
    by (rule batch_okD [OF conjunct1 [OF ok]])
  have vet: "vetted E o1 (ls_new_messages st) ts"
    using vetted_batch [OF assms(2) subset_refl, of ts rs "[]"] ts xs by (simp add: summary_def)
  show "traces (case r of Inl e \<Rightarrow> State_Monad.return (Run_Over (Inl e) (ls_new_messages st))
      | Inr b \<Rightarrow> finish_turn E m ?calls (eb_messages b) (fold record_message (map AgentMessage_ToolResult (eb_messages b))
          (st\<lparr>ls_has_more := \<not> eb_terminate b\<rparr>)))
    (\<lambda>us r. turn_ok E o1 (ls_new_messages st) (ts @ us) r)"
  proof (cases r)
    case (Inl e)
    then show ?thesis using vet ts by (auto intro!: traces_return simp: turn_ok_def summary_def)
  next
    case (Inr b)
    then have "reports (map AgentMessage_ToolResult (eb_messages b)) ts" using r reports_summary [OF ts] by simp
    moreover have "fits E o1 (fold record_message (map AgentMessage_ToolResult (eb_messages b)) (st\<lparr>ls_has_more := \<not> eb_terminate b\<rparr>))"
      using assms(1) by (simp add: fits_record)
    ultimately show ?thesis
      unfolding Inr sum.case by (intro traces_mono [OF traces_finish_turn] turn_ok_append [OF vet]) simp_all
  qed
qed

lemma traces_loop_turn:
  fixes E :: "('f::{plus,zero}, 'w) loop_env"
  assumes "fits E o1 st"
  shows "traces (loop_turn E st) (\<lambda>ts r. turn_ok E o1 (ls_new_messages st) ts r)"
proof -
  have start: "traces (if ls_first_turn st then State_Monad.return () else emit_event E Turn_Start) (\<lambda>ts _. quiet ts)"
    by (auto intro!: traces_return traces_emit simp: summary_single)
  have respond: "traces (State_Monad.bind (next_response E st1) (\<lambda>x. case x of (r, st) \<Rightarrow> (case r of
          Inl e \<Rightarrow> State_Monad.return (Run_Over (Inl (Loop_Error e)) (ls_new_messages st))
        | Inr m \<Rightarrow> if am_stop_reason m = StopReason_Error \<or> am_stop_reason m = StopReason_Aborted
            then State_Monad.bind (emit_turn_end E m []) (\<lambda>_.
              end_run E (outcome_from_stop (am_stop_reason m)) (ls_new_messages st))
            else complete_turn E m st)))
      (\<lambda>ts r. turn_ok E o1 (ls_new_messages st1) ts r)" if st1: "fits E o1 st1" for st1
  proof (rule traces_bind [OF traces_next_response [OF st1]])
    fix ts :: "'f effect list" and x :: "('f agent_error + 'f assistant_message) \<times> ('f, 'w) loop_state"
    assume x: "case fst x of Inl _ \<Rightarrow> quiet ts
      | Inr m \<Rightarrow> fits E o1 (snd x) \<and> answering E o1 (ls_new_messages (snd x)) m (ls_context (snd x))
          \<and> (\<exists>ms. ls_new_messages (snd x) = ls_new_messages st1 @ ms \<and> summary ms [] [] ts)"
    obtain r st2 where x': "x = (r, st2)" by (cases x)
    show "traces (case x of (r, st) \<Rightarrow> (case r of
          Inl e \<Rightarrow> State_Monad.return (Run_Over (Inl (Loop_Error e)) (ls_new_messages st))
        | Inr m \<Rightarrow> if am_stop_reason m = StopReason_Error \<or> am_stop_reason m = StopReason_Aborted
            then State_Monad.bind (emit_turn_end E m []) (\<lambda>_.
              end_run E (outcome_from_stop (am_stop_reason m)) (ls_new_messages st))
            else complete_turn E m st))
      (\<lambda>us r. turn_ok E o1 (ls_new_messages st1) (ts @ us) r)"
    proof (cases r)
      case (Inl e)
      then show ?thesis using x x' vetted_quiet [of "[]" "[]" ts E o1]
        by (auto intro!: traces_return simp: turn_ok_def summary_def)
    next
      case (Inr m)
      then obtain ms where ms: "ls_new_messages st2 = ls_new_messages st1 @ ms" "summary ms [] [] ts"
        and st2: "fits E o1 st2" "answering E o1 (ls_new_messages st2) m (ls_context st2)" using x x' by auto
      note shift = turn_ok_append [OF vetted_quiet reports_summary, OF ms(2) ms(2), of E o1 "ls_new_messages st1", folded ms(1)]
      have over: "traces (State_Monad.bind (emit_turn_end E m []) (\<lambda>_. end_run E outcome (ls_new_messages st2)))
          (\<lambda>us r. turn_ok E o1 (ls_new_messages st1) (ts @ us) r)" for outcome
        by (rule traces_bind [OF traces_turn_end], rule traces_mono [OF traces_end_run [of E outcome _ o1]])
          (simp add: shift turn_ok_quiet)
      have go: "traces (complete_turn E m st2) (\<lambda>us r. turn_ok E o1 (ls_new_messages st1) (ts @ us) r)"
        by (rule traces_mono [OF traces_complete_turn [OF st2]]) (rule shift)
      show ?thesis
        unfolding x' Inr prod.case sum.case using over go by simp
    qed
  qed
  show ?thesis
    unfolding loop_turn_def
  proof (rule traces_bind [OF start], rule traces_bind [OF traces_inject_pending [where ?o1.0 = o1]], simp add: assms,
      elim exE conjE, rule traces_mono [OF respond], assumption)
    fix ts us vs :: "'f effect list" and st' ms r
    assume "quiet ts" "ls_new_messages st' = ls_new_messages (st\<lparr>ls_first_turn := False\<rparr>) @ ms"
      and us: "summary ms [] [] us" and "turn_ok E o1 (ls_new_messages st') vs r"
    then show "turn_ok E o1 (ls_new_messages st) (ts @ us @ vs) r"
      by (intro turn_ok_quiet turn_ok_append [OF vetted_quiet [OF us] reports_summary [OF us]]) simp_all
  qed
qed

subsection \<open>The whole run\<close>

definition run_ok ::
  "('f, 'w) loop_env \<Rightarrow> ('f, 'w) run_origin \<Rightarrow> 'f agent_message list \<Rightarrow> 'f effect list
     \<Rightarrow> (('f loop_error + loop_outcome) \<times> 'f agent_message list) option \<Rightarrow> bool" where
  "run_ok E o1 new ts r \<longleftrightarrow> vetted E o1 new ts \<and>
     (case r of None \<Rightarrow> True
      | Some (Inl _, _) \<Rightarrow> \<not> list_ex is_agent_end ts
      | Some (Inr _, msgs) \<Rightarrow> closes new msgs ts)"

lemma run_ok_quiet:
  assumes "quiet ts" "run_ok E o1 new us r"
  shows "run_ok E o1 new (ts @ us) r"
  using assms closes_append [OF reports_summary [OF assms(1)], of new] vetted_quiet [OF assms(1), of E o1 new]
  by (auto simp: run_ok_def summary_def split: option.splits sum.splits)

lemma traces_run_rounds:
  fixes E :: "('f::{plus,zero}, 'w) loop_env"
  assumes "fits E o1 st"
  shows "traces (run_rounds E fuel st) (\<lambda>ts r. run_ok E o1 (ls_new_messages st) ts r)"
  using assms
proof (induction fuel arbitrary: st)
  case (Suc fuel)
  have turn: "traces (State_Monad.bind (loop_turn E st) (\<lambda>t. case t of
        Run_Over r msgs \<Rightarrow> State_Monad.return (Some (r, msgs)) | Run_On st \<Rightarrow> run_rounds E fuel st))
      (\<lambda>ts r. run_ok E o1 (ls_new_messages st) ts r)"
  proof (rule traces_bind [OF traces_loop_turn [OF Suc.prems]])
    fix ts :: "'f effect list" and t :: "('f, 'w) turn_end"
    assume t: "turn_ok E o1 (ls_new_messages st) ts t"
    show "traces (case t of Run_Over r msgs \<Rightarrow> State_Monad.return (Some (r, msgs)) | Run_On st \<Rightarrow> run_rounds E fuel st)
      (\<lambda>us r. run_ok E o1 (ls_new_messages st) (ts @ us) r)"
    proof (cases t)
      case (Run_Over r msgs)
      then show ?thesis using t by (auto intro!: traces_return simp: turn_ok_def run_ok_def split: sum.split)
    next
      case (Run_On st')
      then obtain ms where ms: "ls_new_messages st' = ls_new_messages st @ ms" "reports ms ts"
        and st': "vetted E o1 (ls_new_messages st) ts" "fits E o1 st'"
        using t by (auto simp: turn_ok_def)
      then show ?thesis
        unfolding Run_On turn_end.case
        using st' by (intro traces_mono [OF Suc.IH])
          (auto simp: run_ok_def reports_def split: option.split sum.split intro: closes_append [OF ms(2)])
    qed
  qed
  have follow: "traces (State_Monad.bind (drain_follow_up E) (\<lambda>follow_ups.
        if follow_ups \<noteq> [] then run_rounds E fuel (st\<lparr>ls_pending := follow_ups, ls_has_more := True\<rparr>)
        else State_Monad.bind (emit_event E (Agent_End (ls_new_messages st)))
          (\<lambda>_. State_Monad.return (Some (Inr Outcome_Completed, ls_new_messages st)))))
      (\<lambda>ts r. run_ok E o1 (ls_new_messages st) ts r)"
  proof (rule traces_bind [OF traces_quiet_drains(2)])
    fix ts :: "'f effect list" and follow_ups
    assume quiet: "quiet ts"
    have "traces (State_Monad.bind (emit_event E (Agent_End (ls_new_messages st)))
          (\<lambda>_. State_Monad.return (Some (Inr Outcome_Completed, ls_new_messages st))))
        (\<lambda>ts r. run_ok E o1 (ls_new_messages st) ts r)"
      by (rule traces_bind [OF traces_emit(1) [where P = "\<lambda>ts _. ts = [Fx_Emit (Agent_End (ls_new_messages st))]"]])
        (auto intro!: traces_return simp: run_ok_def closes_end)
    then show "traces (if follow_ups \<noteq> [] then run_rounds E fuel (st\<lparr>ls_pending := follow_ups, ls_has_more := True\<rparr>)
        else State_Monad.bind (emit_event E (Agent_End (ls_new_messages st)))
          (\<lambda>_. State_Monad.return (Some (Inr Outcome_Completed, ls_new_messages st))))
      (\<lambda>us r. run_ok E o1 (ls_new_messages st) (ts @ us) r)"
      using Suc.IH [of "st\<lparr>ls_pending := follow_ups, ls_has_more := True\<rparr>"] Suc.prems
      by (auto elim!: traces_mono intro: run_ok_quiet [OF quiet])
  qed
  show ?case unfolding run_rounds.simps using turn follow by simp
qed (auto intro!: traces_return simp: run_ok_def)

lemma traces_run_loop:
  fixes E :: "('f::{plus,zero}, 'w) loop_env"
  assumes "run_context E ctx0 new ctx"
  shows "traces (run_loop E fuel ctx new p) (\<lambda>ts r. run_ok E (ctx0, p) new ts r)"
  unfolding run_loop_def
  by (rule traces_bind [OF traces_quiet_drains(1)], rule traces_mono [OF traces_run_rounds [where ?o1.0 = "(ctx0, p)"]])
    (simp_all add: run_ok_quiet fits_def assms)

text \<open>What an entry point leaves behind.\<close>

definition entry_ok ::
  "'f agent_message list \<Rightarrow> 'f effect list \<Rightarrow> ('f loop_error + 'f agent_message list) option \<Rightarrow> bool" where
  "entry_ok new ts r \<longleftrightarrow>
     (case r of None \<Rightarrow> True
      | Some (Inl _) \<Rightarrow> \<not> list_ex is_agent_end ts
      | Some (Inr msgs) \<Rightarrow> closes [] msgs ts \<and> (\<exists>ms. msgs = new @ ms))"

lemma entry_ok_run:
  assumes "summary new [] [] ts" "run_ok E o1 new us r"
  shows "entry_ok new (ts @ us) (new_messages_of r) \<and> vetted E o1 [] (ts @ us)"
proof -
  have "entry_ok new (ts @ us) (new_messages_of r)"
    using closes_append [OF reports_summary [OF assms(1)], of "[]" _ us] assms
    by (cases r) (auto simp: run_ok_def entry_ok_def new_messages_of_def summary_def closes_def split: sum.splits prod.splits)
  moreover have "vetted E o1 [] (ts @ us)"
    using assms vetted_quiet [OF assms(1), of E o1 "[]"] by (simp add: run_ok_def summary_def)
  ultimately show ?thesis by blast
qed

lemma traces_begin_run: "traces (begin_run E) (\<lambda>ts _. quiet ts)"
  unfolding begin_run_def
  by (rule traces_bind [OF traces_emit(1) [where P = "\<lambda>ts _. quiet ts"]])
    (auto intro!: traces_emit quiet_append simp: summary_single)

lemma traces_prompts: "traces (for_each (emit_message E) ms) (\<lambda>ts _. summary ms [] [] ts)"
proof (rule traces_for_each [OF traces_emit_message])
  fix tss assume "list_all2 (\<lambda>m ts. summary [m] [] [] ts) ms tss"
  then show "summary ms [] [] (concat tss)"
    by (induction rule: list_all2_induct) (use summary_append in fastforce)+
qed

lemma traces_run_agent_loop:
  fixes E :: "('f::{plus,zero}, 'w) loop_env"
  shows "traces (run_agent_loop E fuel prompts ctx) (\<lambda>ts r. entry_ok prompts ts r \<and> vetted E (ctx, None) [] ts)"
  unfolding run_agent_loop_def
proof (rule traces_bind [OF traces_begin_run], rule traces_bind [OF traces_prompts],
    rule traces_bind [OF traces_run_loop [OF run_context_pushes [OF run_context_start, of E ctx prompts, simplified]]],
    rule traces_return)
  fix ts us vs :: "'f effect list" and r
  assume "quiet ts" "summary prompts [] [] us" and r: "run_ok E (ctx, None) prompts vs r"
  then have both: "summary prompts [] [] (ts @ us)" by (simp add: quiet_append)
  from entry_ok_run [OF both r]
  show "entry_ok prompts (ts @ us @ vs @ []) (new_messages_of r) \<and> vetted E (ctx, None) [] (ts @ us @ vs @ [])" by simp
qed

lemma traces_run_from:
  fixes E :: "('f::{plus,zero}, 'w) loop_env"
  shows "traces (State_Monad.bind (begin_run E) (\<lambda>_. State_Monad.bind (run_loop E fuel ctx [] p)
      (\<lambda>r. State_Monad.return (new_messages_of r)))) (\<lambda>ts r. entry_ok [] ts r \<and> vetted E (ctx, p) [] ts)"
proof (rule traces_bind [OF traces_begin_run], rule traces_bind [OF traces_run_loop [OF run_context_start]], rule traces_return)
  fix ts us :: "'f effect list" and r
  assume "quiet ts" and r: "run_ok E (ctx, p) [] us r"
  from entry_ok_run [OF this] show "entry_ok [] (ts @ us @ []) (new_messages_of r) \<and> vetted E (ctx, p) [] (ts @ us @ [])" by simp
qed

lemma traces_continue:
  fixes E :: "('f::{plus,zero}, 'w) loop_env"
  shows "traces (run_agent_loop_continue E fuel ctx) (\<lambda>ts r. entry_ok [] ts r \<and> vetted E (ctx, None) [] ts)"
  unfolding run_agent_loop_continue_def using traces_run_from [of E fuel ctx None]
  by (auto intro!: traces_return simp: entry_ok_def)

lemma traces_from_assistant:
  fixes E :: "('f::{plus,zero}, 'w) loop_env"
  shows "traces (run_agent_loop_from_assistant E fuel ctx)
    (\<lambda>ts r. entry_ok [] ts r \<and> (\<exists>p. vetted E (ctx, p) [] ts))"
proof -
  have refused: "traces (State_Monad.return (Some (Inl e))) (\<lambda>ts r. entry_ok [] ts r \<and> (\<exists>p. vetted E (ctx, p) [] ts))" for e
    by (rule traces_return) (simp add: entry_ok_def)
  have go: "traces (State_Monad.bind (begin_run E) (\<lambda>_. State_Monad.bind (run_loop E fuel ctx [] (Some m))
      (\<lambda>r. State_Monad.return (new_messages_of r)))) (\<lambda>ts r. entry_ok [] ts r \<and> (\<exists>p. vetted E (ctx, p) [] ts))" for m
    by (rule traces_mono [OF traces_run_from]) blast
  show ?thesis
    unfolding run_agent_loop_from_assistant_def
    by (simp only: refused go split: option.split agent_message.split) (simp add: refused go)
qed

subsection \<open>A demonstration\<close>

text \<open>A provider that calls the tool \<open>echo\<close> once and then answers; the world counts its responses.\<close>

definition demo_echo_call :: "nat tool_call" where
  "demo_echo_call =
     \<lparr>tcall_id = ''c1'', tcall_name = ''echo'', tcall_arguments = JNull, tcall_thought_signature = None,
      tcall_namespace = None, tcall_recorded = None\<rparr>"

definition demo_reply :: "stop_reason \<Rightarrow> nat content list \<Rightarrow> nat assistant_message" where
  "demo_reply reason cs = (assistant_empty Api_Faux ''p'' ''m'' 0)\<lparr>am_content := cs, am_stop_reason := reason\<rparr>"

definition demo_echo :: "(nat, nat) agent_tool" where
  "demo_echo =
     \<lparr>at_schema = \<lparr>ts_name = ''echo'', ts_description = [], ts_parameters = JNull, ts_constrained_sampling = None\<rparr>,
      at_mode = Mode_Parallel, at_prepare_arguments = Inr,
      at_execute = (\<lambda>_ _ w. (\<lparr>tn_updates = [], tn_late_updates = [tool_result_text ''late''], tn_children = [],
         tn_outcome = Tool_Ok (tool_result_text ''hello'')\<rparr>, w))\<rparr>"

definition demo_config :: "(nat, nat) loop_config" where
  "demo_config =
     \<lparr>lc_model = \<lparr>md_id = ''m'', md_name = ''m'', md_api = Api_Faux, md_provider = ''p'', md_base_url = [], md_settings = JNull\<rparr>,
      lc_convert_to_llm = (\<lambda>ms w. (default_convert_to_llm ms, w)),
      lc_convert_to_llm_incremental = Some default_convert_to_llm_incremental,
      lc_transform_context = None, lc_get_api_key = None, lc_should_stop_after_turn = None,
      lc_prepare_next_turn = None, lc_after_tool_results = None, lc_get_steering_messages = None,
      lc_get_follow_up_messages = None, lc_pending_message_count = None, lc_before_tool_call = None,
      lc_after_tool_call = None, lc_tool_execution = Mode_Parallel, lc_thinking_level = Thinking_Off,
      lc_api_key = None, lc_timeout = None, lc_stream_idle_timeout = None, lc_max_retries = None,
      lc_max_retry_delay = None, lc_cache_retention = Retention_Short, lc_session_id = None,
      lc_is_cancelled = (\<lambda>w. (False, w))\<rparr>"

definition demo_env :: "(nat, nat) loop_env" where
  "demo_env =
     \<lparr>le_config = demo_config, le_emit = (\<lambda>_ w. w),
      le_stream_fn = (\<lambda>_ _ _ n. (\<lparr>rs_events = [],
         rs_result = Some (if n = 0 then demo_reply StopReason_ToolUse [Content_ToolCall demo_echo_call]
                           else demo_reply StopReason_Stop [content_text ''done''])\<rparr>, Suc n)),
      le_wall_clock = (\<lambda>w. (0, w)), le_validate = (\<lambda>_ c. Inr (tcall_arguments c)),
      le_decode_content = (\<lambda>_. None), le_is_finite = (\<lambda>_. True), le_settles = (\<lambda>_ w. ([], w)),
      le_next = (\<lambda>_ w. (0, w))\<rparr>"

definition demo_io :: "(nat, nat) io_state" where
  "demo_io = \<lparr>io_world = 0, io_last_ms = 0, io_trace = []\<rparr>"

definition demo_prompt :: "nat agent_message" where
  "demo_prompt = AgentMessage_User (user_message_new (UserContent_Text ''hi'') 0)"

definition demo_context :: "(nat, nat) agent_context" where
  "demo_context = \<lparr>ac_system_prompt = [], ac_messages = [], ac_tools = [demo_echo]\<rparr>"

definition demo_run :: "(nat loop_error + nat agent_message list) option \<times> (nat, nat) io_state" where
  "demo_run = run_state (run_agent_loop demo_env (Suc (Suc (Suc 0))) [demo_prompt] demo_context) demo_io"

definition demo_roles :: "(nat loop_error + nat agent_message list) option \<Rightarrow> agent_message_role list" where
  "demo_roles r = (case r of Some (Inr msgs) \<Rightarrow> map message_role msgs | _ \<Rightarrow> [])"

text \<open>
  Running the loop by rewriting: an operation is unfolded only where it is run, so that the
  continuations that are not reached stay as they are.
\<close>

lemma run_world_op [simp]: "run_state (world_op f) s = (fst (f (io_world s)), s\<lparr>io_world := snd (f (io_world s))\<rparr>)"
  by (simp add: world_op_def split_beta)

lemma run_note_effect [simp]: "run_state (note_effect x) s = ((), s\<lparr>io_trace := io_trace s @ [x]\<rparr>)"
  by (simp add: note_effect_def)

lemma run_now_ms [simp]:
  "run_state (now_ms E) s = (let (wall, w) = le_wall_clock E (io_world s); t = next_ms (io_last_ms s) wall
     in (t, s\<lparr>io_world := w, io_last_ms := t\<rparr>))"
  by (simp add: now_ms_def Let_def split_beta)

lemmas loop_definitions =
  deliver_def emit_event_def emit_injected_def try_emit_def is_cancelled_def create_tool_result_message_def
  emit_tool_execution_end_def emit_message_def emit_tool_result_message_def drain_hook_def drain_steering_def
  drain_follow_up_def pending_count_def turn_hook_def should_stop_after_turn_def finish_response_def
  convert_history_def resolve_api_key_def open_stream_def stream_assistant_response_def
  ready_unless_cancelled_def authorize_call_def prepare_tool_call_def on_update_def run_execute_def
  execute_prepared_tool_call_def finalize_executed_tool_call_def execute_and_finalize_def
  run_one_tool_call_def fail_call_def reject_ambiguous_tool_batch_def emit_execution_start_def
  fail_tool_calls_from_truncated_message_def settle_result_def sequential_call_def
  execute_tool_calls_sequential_def settle_call_def drive_tool_calls_while_def prepare_in_batch_def
  prepare_slot_def next_running_def next_completed_def execute_tool_calls_parallel_def execute_tool_calls_def
  inject_message_def inject_pending_def next_response_def emit_turn_end_def end_run_def abort_run_def
  run_tool_calls_def continue_or_abort_def finish_turn_def complete_turn_def loop_turn_def run_loop_def
  begin_run_def run_agent_loop_def run_agent_loop_continue_def run_agent_loop_from_assistant_def
  for_each.simps fold_events.simps sequential_calls.simps settle_calls.simps parallel_prepare.simps
  parallel_drain.simps slot_results.simps run_rounds.simps

lemmas run_eqs = loop_definitions [THEN arg_cong [where f = "\<lambda>m. run_state m s"]] for s

lemma demo_call_valid: "invalid_tool_call_reason demo_echo_call = None"
  by code_simp

lemma demo_call_no_recording:
  "tcall_recorded demo_echo_call = None" "tcall_id demo_echo_call = ''c1''" "tcall_name demo_echo_call = ''echo''"
  "tcall_arguments demo_echo_call = JNull" "content_tool_call (Content_ToolCall demo_echo_call) = Some demo_echo_call"
  by (simp_all add: demo_echo_call_def)

text \<open>The values the operations compute with.\<close>

lemmas loop_values =
  Let_def take_messages_def cache_new_def cache_invalidate_def restore_messages_def push_message_def
  replace_last_message_def find_tool_def apply_update_def turn_context_of_def record_message_def
  has_sequential_def should_terminate_tool_batch_def new_messages_of_def refused_def merge_accounting_def
  account_children_def accounting_default_def to_stream_options_def assistant_empty_def
  tool_result_text_def content_text_def

lemmas demo_defs = demo_run_def demo_env_def demo_config_def demo_context_def demo_prompt_def demo_echo_def
  demo_io_def demo_reply_def demo_call_valid
  demo_call_no_recording

lemma demo_run_roles: "demo_roles (fst demo_run) = [Role_User, Role_Assistant, Role_ToolResult, Role_Assistant]"
  by (simp add: run_eqs demo_defs demo_roles_def demo_call_valid loop_values)

lemma demo_run_executed: "map fst (executed_calls (io_trace (snd demo_run))) = [''c1'']"
  by (simp add: run_eqs demo_defs loop_values)

text \<open>Two calls in parallel, the second one of a tool that does not exist.\<close>

definition demo_missing_call :: "nat tool_call" where
  "demo_missing_call = demo_echo_call\<lparr>tcall_id := ''c2'', tcall_name := ''missing''\<rparr>"

definition demo_batch :: "(nat loop_error + nat executed_batch) \<times> (nat, nat) io_state" where
  "demo_batch = run_state (execute_tool_calls demo_env demo_context (demo_reply StopReason_ToolUse [])
     [demo_echo_call, demo_missing_call]) demo_io"

lemma demo_missing_valid:
  "invalid_tool_call_reason demo_missing_call = None" "tcall_recorded demo_missing_call = None"
  "tcall_id demo_missing_call = ''c2''" "tcall_name demo_missing_call = ''missing''"
  "tcall_arguments demo_missing_call = JNull"
  by code_simp+

lemma demo_batch_result:
  "map_sum (\<lambda>_. ()) (map (\<lambda>t. (tr_tool_call_id t, tr_is_error t)) \<circ> eb_messages) (fst demo_batch)
     = Inr [(''c1'', False), (''c2'', True)]"
  "map fst (executed_calls (io_trace (snd demo_batch))) = [''c1'']"
  by (simp_all add: demo_batch_def run_eqs demo_defs demo_missing_valid loop_values)

subsection \<open>Properties of a run\<close>

text \<open>
  C22. A run that returns has reported the end of exactly the messages it returns, in order, the
  prompts first, and its last effect, and only that, is the end of the run, which carries those
  messages.
\<close>

theorem run_reports_its_messages:
  fixes E :: "('f::{plus,zero}, 'w) loop_env"
  assumes "run_state (run_agent_loop E fuel prompts ctx) s = (Some (Inr msgs), s')"
  shows "\<exists>us ms. io_trace s' = io_trace s @ us @ [Fx_Emit (Agent_End msgs)]
     \<and> ended_messages us = msgs \<and> \<not> list_ex is_agent_end us \<and> msgs = prompts @ ms"
  using tracesD [OF traces_run_agent_loop assms] by (auto simp: entry_ok_def closes_def reports_def simp del: vetted.simps)

theorem run_reports_its_messages_witness:
  "\<exists>msgs us. map message_role msgs = [Role_User, Role_Assistant, Role_ToolResult, Role_Assistant]
     \<and> io_trace (snd demo_run) = us @ [Fx_Emit (Agent_End msgs)] \<and> ended_messages us = msgs"
proof -
  obtain msgs where msgs: "fst demo_run = Some (Inr msgs)" "map message_role msgs = [Role_User, Role_Assistant, Role_ToolResult, Role_Assistant]"
    using demo_run_roles by (auto simp: demo_roles_def split: option.splits sum.splits)
  then have "run_state (run_agent_loop demo_env (Suc (Suc (Suc 0))) [demo_prompt] demo_context) demo_io = (Some (Inr msgs), snd demo_run)"
    unfolding demo_run_def by (simp add: prod_eq_iff)
  from run_reports_its_messages [OF this] show ?thesis using msgs(2) by (auto simp: demo_io_def)
qed

text \<open>
  C23. Whatever a run executes, also a run that fails or does not end, is a call of the response it reported
  last: since then it has reported nothing but results of that response's calls. The call is valid, not recorded
  and of a tool that the context the run has at that point knows; its arguments are those the tool
  prepared from the call's own, as the validation accepted them and the host's hook, asked about this call, this
  response and this context, let them through. The context at that point is the one the run began with,
  or one that a hook put in its place, with its tools and system prompt, and behind its messages those reported since,
  the response as the last; a provider that starts a response more than once leaves partial answers in between, any other nothing.
\<close>

theorem run_executes_approved_calls:
  fixes E :: "('f::{plus,zero}, 'w) loop_env"
  assumes "run_state (run_agent_loop E fuel prompts ctx) s = (r, s')"
  shows "\<exists>ts. io_trace s' = io_trace s @ ts \<and>
     (\<forall>us i n a vs. ts = us @ Fx_Execute i n a # vs \<longrightarrow>
       (\<exists>before m rs now earlier c.
          ended_messages us = before @ [AgentMessage_Assistant m] @ map AgentMessage_ToolResult rs
          \<and> run_context E ctx (before @ [AgentMessage_Assistant m]) now
          \<and> ac_messages now = earlier @ [AgentMessage_Assistant m]
          \<and> c \<in> set (tool_calls_of (am_content m)) \<and> tcall_id c = i \<and> approved E now m c a))"
proof -
  obtain ts where ts: "io_trace s' = io_trace s @ ts" "vetted E (ctx, None) [] ts"
    using tracesD [OF traces_run_agent_loop assms] by blast
  have "justified E (ctx, None) (ended_messages us) i a" if "ts = us @ Fx_Execute i n a # vs" for us i n a vs
    using ts(2) unfolding that by simp
  then show ?thesis using ts(1) unfolding justified_def answering_def by fastforce
qed

lemma executed_at: "(i, a) \<in> set (executed_calls ts) \<Longrightarrow> \<exists>us n vs. ts = us @ Fx_Execute i n a # vs"
proof (induction ts)
  case (Cons x ts)
  show ?case
  proof (cases "executed_call x = Some (i, a)")
    case True
    then show ?thesis by (cases x) (auto intro: exI [of _ "[]"])
  next
    case False
    then have "(i, a) \<in> set (executed_calls ts)" using Cons.prems by (auto split: option.splits)
    then obtain us n vs where "ts = us @ Fx_Execute i n a # vs" using Cons.IH by blast
    then show ?thesis by (intro exI [of _ "x # us"]) simp
  qed
qed simp

theorem run_executes_approved_calls_witness:
  "\<exists>us n a vs before m rs now c. io_trace (snd demo_run) = us @ Fx_Execute ''c1'' n a # vs
     \<and> ended_messages us = before @ [AgentMessage_Assistant m] @ map AgentMessage_ToolResult rs
     \<and> run_context demo_env demo_context (before @ [AgentMessage_Assistant m]) now
     \<and> c \<in> set (tool_calls_of (am_content m)) \<and> tcall_id c = ''c1'' \<and> approved demo_env now m c a"
proof -
  have run: "run_state (run_agent_loop demo_env (Suc (Suc (Suc 0))) [demo_prompt] demo_context) demo_io = (fst demo_run, snd demo_run)"
    by (simp add: demo_run_def)
  obtain a where "(''c1'', a) \<in> set (executed_calls (io_trace (snd demo_run)))" using demo_run_executed by auto
  then obtain us n vs where us: "io_trace (snd demo_run) = us @ Fx_Execute ''c1'' n a # vs" using executed_at by blast
  from run_executes_approved_calls [OF run] obtain ts where "io_trace (snd demo_run) = io_trace demo_io @ ts" and
    all: "\<forall>us i n a vs. ts = us @ Fx_Execute i n a # vs \<longrightarrow> (\<exists>before m rs now earlier c.
        ended_messages us = before @ [AgentMessage_Assistant m] @ map AgentMessage_ToolResult rs
        \<and> run_context demo_env demo_context (before @ [AgentMessage_Assistant m]) now
        \<and> ac_messages now = earlier @ [AgentMessage_Assistant m]
        \<and> c \<in> set (tool_calls_of (am_content m)) \<and> tcall_id c = i \<and> approved demo_env now m c a)"
    by (elim exE conjE)
  then have "ts = us @ Fx_Execute ''c1'' n a # vs" using us by (simp add: demo_io_def)
  from all [rule_format, OF this] us show ?thesis by (elim exE conjE) (intro exI conjI; assumption)
qed

text \<open>
  C20. A batch of tool calls, in either mode and whatever the order in which the calls settle: it
  answers its first \<open>n\<close> calls in source order, all of them unless the run is cancelled, reports
  the end of each answered call exactly once, and reports the result messages in source order.
\<close>

theorem tool_batch_answers_in_order:
  fixes E :: "('f::{plus,zero}, 'w) loop_env"
  assumes "run_state (execute_tool_calls E ctx am calls) s = (Inr b, s')"
  shows "\<exists>ts n. io_trace s' = io_trace s @ ts \<and> n \<le> length calls \<and> (calls \<noteq> [] \<longrightarrow> 0 < n)
     \<and> ((\<forall>w. \<not> fst (lc_is_cancelled (le_config E) w)) \<longrightarrow> n = length calls)
     \<and> map (\<lambda>t. (tr_tool_call_id t, tr_tool_name t)) (eb_messages b)
         = map (\<lambda>c. (tcall_id c, tcall_name c)) (take n calls)
     \<and> ended_messages ts = map AgentMessage_ToolResult (eb_messages b)
     \<and> mset (finished_calls ts) = mset (map tcall_id (take n calls))"
proof -
  obtain ts where ts: "io_trace s' = io_trace s @ ts" and "batch_ok E ctx am calls ts (Inr (eb_messages b))"
    using tracesD [OF traces_execute_tool_calls assms] by auto
  then obtain ms xs fs where "summary ms xs fs ts" and "\<exists>n \<le> length calls. (calls \<noteq> [] \<longrightarrow> 0 < n) \<and> (never_cancelled E \<longrightarrow> n = length calls)
      \<and> list_all2 answer (take n calls) (eb_messages b) \<and> ms = map AgentMessage_ToolResult (eb_messages b)
      \<and> mset fs = mset (map tcall_id (take n calls))"
    unfolding batch_ok_def sum.case by (elim exE conjE, intro that) (assumption | blast)+
  then obtain n where "summary ms xs fs ts" and n: "n \<le> length calls" "calls \<noteq> [] \<longrightarrow> 0 < n"
    "never_cancelled E \<longrightarrow> n = length calls" "list_all2 answer (take n calls) (eb_messages b)"
    "ms = map AgentMessage_ToolResult (eb_messages b)" "mset fs = mset (map tcall_id (take n calls))"
    by blast
  moreover have "map (\<lambda>t. (tr_tool_call_id t, tr_tool_name t)) (eb_messages b)
      = map (\<lambda>c. (tcall_id c, tcall_name c)) (take n calls)"
    using n(4) by (induction rule: list_all2_induct) (simp_all add: answer_def)
  ultimately show ?thesis
    using ts unfolding summary_def never_cancelled_def by (intro exI [of _ ts] exI [of _ n]) auto
qed

theorem tool_batch_answers_in_order_witness:
  "\<exists>b ts. fst demo_batch = Inr b \<and> io_trace (snd demo_batch) = ts
     \<and> map tr_tool_call_id (eb_messages b) = [''c1'', ''c2''] \<and> mset (finished_calls ts) = {#''c1'', ''c2''#}"
proof -
  obtain b where b: "fst demo_batch = Inr b"
    and ids: "map (\<lambda>t. (tr_tool_call_id t, tr_is_error t)) (eb_messages b) = [(''c1'', False), (''c2'', True)]"
    using demo_batch_result(1) by (cases "fst demo_batch") auto
  have ids': "map tr_tool_call_id (eb_messages b) = [''c1'', ''c2'']"
    using arg_cong [OF ids, where f = "map fst"] by (simp add: comp_def)
  have "run_state (execute_tool_calls demo_env demo_context (demo_reply StopReason_ToolUse [])
      [demo_echo_call, demo_missing_call]) demo_io = (Inr b, snd demo_batch)"
    using b by (simp add: demo_batch_def prod_eq_iff)
  from tool_batch_answers_in_order [OF this]
  obtain ts n where ts: "io_trace (snd demo_batch) = ts"
    and n: "\<forall>w. \<not> fst (lc_is_cancelled (le_config demo_env) w) \<Longrightarrow> n = 2"
    and fin: "mset (finished_calls ts) = mset (map tcall_id (take n [demo_echo_call, demo_missing_call]))"
    by (auto simp: demo_io_def)
  have "n = 2" by (rule n) (simp add: demo_env_def demo_config_def)
  then have "mset (finished_calls ts) = {#''c1'', ''c2''#}"
    using fin by (simp add: demo_missing_valid demo_call_no_recording)
  then show ?thesis using b ts ids' by simp
qed

text \<open>
  C21. A batch executes each of its calls at most once, and only with approved arguments; a batch in
  which two calls share an id executes nothing.
\<close>

theorem tool_batch_executes_once:
  fixes E :: "('f::{plus,zero}, 'w) loop_env"
  assumes "run_state (execute_tool_calls E ctx am calls) s = (r, s')"
  shows "\<exists>ts. io_trace s' = io_trace s @ ts \<and> distinct (map fst (executed_calls ts))
     \<and> (\<forall>(i, a) \<in> set (executed_calls ts). \<exists>c \<in> set calls. tcall_id c = i \<and> approved E ctx am c a)
     \<and> (\<not> distinct (map tcall_id calls) \<longrightarrow> executed_calls ts = [])"
proof -
  obtain ts where ts: "io_trace s' = io_trace s @ ts" "batch_ok E ctx am calls ts (map_sum id eb_messages r)"
    and dup: "\<not> distinct (map tcall_id calls) \<longrightarrow> executed_calls ts = []"
    using tracesD [OF traces_execute_tool_calls assms] by auto
  then obtain ms xs fs where xs: "summary ms xs fs ts"
    "\<forall>(i, a) \<in> set xs. \<exists>c \<in> set calls. tcall_id c = i \<and> approved E ctx am c a"
    "mset (map fst xs) \<subseteq># mset (map tcall_id calls)"
    unfolding batch_ok_def by blast
  have "distinct (map fst xs)" if "distinct (map tcall_id calls)"
    by (rule distinct_submset [OF xs(3) that])
  then show ?thesis using ts(1) dup xs by (auto simp: summary_def)
qed

theorem tool_batch_executes_once_witness:
  "\<exists>a. executed_calls (io_trace (snd demo_batch)) = [(''c1'', a)]
     \<and> approved demo_env demo_context (demo_reply StopReason_ToolUse []) demo_echo_call a"
proof -
  let ?calls = "[demo_echo_call, demo_missing_call]"
  have "run_state (execute_tool_calls demo_env demo_context (demo_reply StopReason_ToolUse []) ?calls) demo_io
      = (fst demo_batch, snd demo_batch)"
    by (simp add: demo_batch_def)
  from tool_batch_executes_once [OF this] have
    ok: "\<forall>(i, a) \<in> set (executed_calls (io_trace (snd demo_batch))). \<exists>c \<in> set ?calls. tcall_id c = i
      \<and> approved demo_env demo_context (demo_reply StopReason_ToolUse []) c a"
    by (auto simp: demo_io_def)
  obtain a where a: "executed_calls (io_trace (snd demo_batch)) = [(''c1'', a)]"
    using demo_batch_result(2) by (auto simp: map_eq_Cons_conv)
  then show ?thesis using ok by (auto simp: demo_missing_valid)
qed

end
