(* ===== verification/Agent_Delivery.thy ===== *)
theory Agent_Delivery
  imports Agent_Invariant Agent_Runs
begin

text \<open>
  Queued messages are delivered: what a run takes from the steering and follow-up hooks it injects,
  in order and once. \<open>carries p m G\<close>: with \<open>p\<close> taken but not yet injected, \<open>m\<close> ends with some
  \<open>q\<close> such that \<open>G\<close> holds of its result and \<open>q\<close>.
\<close>

fun injected_message :: "'f effect \<Rightarrow> 'f agent_message option" where
  "injected_message (Fx_Inject (Message_Start _ m)) = Some m"
| "injected_message _ = None"

fun drained_of :: "'f effect \<Rightarrow> 'f agent_message list" where
  "drained_of (Fx_Drain ms) = ms"
| "drained_of _ = []"

definition injected_messages :: "'f effect list \<Rightarrow> 'f agent_message list" where
  "injected_messages ts = filter_map injected_message ts"

definition drained_messages :: "'f effect list \<Rightarrow> 'f agent_message list" where
  "drained_messages ts = concat (map drained_of ts)"

lemma delivery_simps [simp]:
  "injected_messages [] = []" "drained_messages [] = []"
  "injected_messages (ts @ us) = injected_messages ts @ injected_messages us"
  "drained_messages (ts @ us) = drained_messages ts @ drained_messages us"
  "injected_messages (x # ts) = (case injected_message x of None \<Rightarrow> [] | Some m \<Rightarrow> [m]) @ injected_messages ts"
  "drained_messages (x # ts) = drained_of x @ drained_messages ts"
  by (simp_all add: injected_messages_def drained_messages_def split: option.split)

definition balanced :: "'f agent_message list \<Rightarrow> ('f, 'w) io_state \<Rightarrow> bool" where
  "balanced p s \<longleftrightarrow> drained_messages (io_trace s) = injected_messages (io_trace s) @ p"

definition carries ::
  "'f agent_message list \<Rightarrow> ('f, 'w, 'a) io \<Rightarrow> ('a \<Rightarrow> 'f agent_message list \<Rightarrow> bool) \<Rightarrow> bool" where
  "carries p m G \<longleftrightarrow> (\<forall>s. balanced p s \<longrightarrow> (\<exists>q. G (fst (run_state m s)) q \<and> balanced q (snd (run_state m s))))"

lemma carriesD:
  "carries p m G \<Longrightarrow> run_state m s = (x, s') \<Longrightarrow> balanced p s \<Longrightarrow> \<exists>q. G x q \<and> balanced q s'"
  unfolding carries_def by (metis fst_conv snd_conv)

lemma carries_mono: "carries p m G \<Longrightarrow> (\<And>x q. G x q \<Longrightarrow> H x q) \<Longrightarrow> carries p m H"
  unfolding carries_def by blast

lemma carries_return: "G x p \<Longrightarrow> carries p (State_Monad.return x) G"
  by (auto simp: carries_def)

lemma carries_bind: "carries p m G \<Longrightarrow> (\<And>x q. G x q \<Longrightarrow> carries q (f x) H) \<Longrightarrow> carries p (State_Monad.bind m f) H"
  unfolding carries_def by (simp add: split_beta) blast

lemma carries_then:
  "carries p m (\<lambda>_ q. q = p') \<Longrightarrow> (\<And>x. carries p' (f x) H) \<Longrightarrow> carries p (State_Monad.bind m f) H"
  unfolding carries_def by (simp add: split_beta)

text \<open>Operations that neither take nor inject messages, by the invariant that both are what they were.\<close>

definition untouched :: "'f agent_message list \<Rightarrow> 'f agent_message list \<Rightarrow> ('f, 'w) io_state \<Rightarrow> bool" where
  "untouched xs ys s \<longleftrightarrow> injected_messages (io_trace s) = xs \<and> drained_messages (io_trace s) = ys"

lemma carries_inert:
  assumes "\<And>xs ys. keeps (untouched xs ys) m (\<lambda>_. True)"
  shows "carries p m (\<lambda>_ q. q = p)"
  using assms unfolding keeps_def carries_def untouched_def balanced_def by auto

lemma untouched_world [simp]: "keeps (untouched xs ys) (world_op f) (\<lambda>_. True)"
  by (simp add: keeps_world_op untouched_def)

lemma untouched_deliver: "delivered_plain x \<Longrightarrow> keeps (untouched xs ys) (deliver E x) (\<lambda>_. True)"
  unfolding deliver_def
  by (rule keeps_then) (cases x; auto simp: keeps_note untouched_def)+

lemma untouched_now: "keeps (untouched xs ys) (now_ms E) (\<lambda>_. True)"
  unfolding now_ms_def by (rule keeps_then) (auto simp: keeps_def untouched_def Let_def)

interpretation inert: batch_invariant E "untouched xs ys" "\<lambda>_. True" for E xs ys
  by unfold_locales
    (auto simp: untouched_deliver untouched_now keeps_hook_def is_cancelled_def keeps_note untouched_def)

lemma all_tools_ok [simp]: "tools_ok (\<lambda>_. True) ctx"
  by (simp add: tools_ok_def)

lemma carries_world: "carries p (world_op f) (\<lambda>_ q. q = p)"
  by (rule carries_inert) simp

lemma carries_emit: "carries p (emit_event E ev) (\<lambda>_ q. q = p)"
  for E :: "('f::{plus,zero}, 'w) loop_env"
  by (rule carries_inert) (rule inert.emit_keeps)

lemma carries_turn_hook: "carries p (turn_hook h t) (\<lambda>_ q. q = p)"
  unfolding turn_hook_def by (auto intro: carries_return carries_world split: option.split)

lemma carries_turn_end: "carries p (emit_turn_end E m results) (\<lambda>_ q. q = p)"
  for E :: "('f::{plus,zero}, 'w) loop_env"
  unfolding emit_turn_end_def pending_count_def
  by (rule carries_bind [where G = "\<lambda>_ q. q = p"])
    (auto intro: carries_return carries_world carries_emit split: option.split)

lemma carries_cancelled: "carries p (is_cancelled E) (\<lambda>_ q. q = p)"
  unfolding is_cancelled_def by (rule carries_world)

subsection \<open>Taking and injecting\<close>

lemma carries_drain: "carries [] (drain_hook h) (\<lambda>ms q. q = ms)"
  by (cases h) (auto simp: drain_hook_def carries_def balanced_def world_op_def note_effect_def split_beta)

lemma carries_drains: "carries [] (drain_steering E) (\<lambda>ms q. q = ms)" "carries [] (drain_follow_up E) (\<lambda>ms q. q = ms)"
  by (simp_all add: drain_steering_def drain_follow_up_def carries_drain)

lemma carries_inject: "carries (m # p) (inject_message E m) (\<lambda>_ q. q = p)"
  by (auto simp: inject_message_def emit_injected_def emit_event_def deliver_def carries_def balanced_def
      world_op_def note_effect_def split_beta)

lemma carries_inject_all: "carries (ms @ p) (for_each (inject_message E) ms) (\<lambda>_ q. q = p)"
proof (induction ms)
  case (Cons m ms)
  then show ?case using carries_bind [OF carries_inject [of m "ms @ p" E]] by simp
qed (simp add: carries_return)

lemma carries_inject_pending: "carries (ls_pending st) (inject_pending E st) (\<lambda>_ q. q = [])"
proof (cases "ls_pending st = []")
  case False
  have "carries (ls_pending st) (for_each (inject_message E) (ls_pending st)) (\<lambda>_ q. q = [])"
    using carries_inject_all [of "ls_pending st" "[]" E] by simp
  then show ?thesis
    using False unfolding inject_pending_def by (auto intro: carries_then carries_return)
qed (simp add: inject_pending_def carries_return)

subsection \<open>Turns and runs\<close>

text \<open>What is still to be injected when a turn has ended.\<close>

fun turn_pending :: "('f, 'w) turn_end \<Rightarrow> 'f agent_message list" where
  "turn_pending (Run_On st) = ls_pending st"
| "turn_pending (Run_Over _ _) = []"

lemma carries_response: "carries p (next_response E st) (\<lambda>_ q. q = p)"
  for E :: "('f::{plus,zero}, 'w) loop_env"
proof (cases "ls_pending_assistant st")
  case None
  have "carries p (stream_assistant_response E (ls_context st) (ls_cache st)) (\<lambda>_ q. q = p)"
    by (rule carries_inert) (rule keeps_weaken [OF inert.response_keeps])
  then show ?thesis
    unfolding next_response_def None option.case
    by (rule carries_bind) (auto simp: Let_def intro!: carries_return split: prod.split)
qed (simp add: next_response_def carries_return)

lemma carries_end: "carries [] (end_run E outcome msgs) (\<lambda>t q. q = turn_pending t)"
  for E :: "('f::{plus,zero}, 'w) loop_env"
  unfolding end_run_def by (rule carries_bind [OF carries_emit]) (simp add: carries_return)

lemma carries_abort: "carries (ls_pending st) (abort_run E m st) (\<lambda>t q. q = turn_pending t)"
  for E :: "('f::{plus,zero}, 'w) loop_env"
proof -
  have clock: "carries p (now_ms E) (\<lambda>_ q. q = p)" for p
    by (rule carries_inert) (rule untouched_now)
  have said: "carries p (emit_message E a) (\<lambda>_ q. q = p)" for p a
    by (rule carries_inert) (rule inert.message_keeps)
  have rest: "carries (ls_pending st) (State_Monad.bind (for_each (inject_message E) (ls_pending st)) (\<lambda>_.
      State_Monad.bind (emit_message E (AgentMessage_Assistant a)) (\<lambda>_. State_Monad.bind (emit_turn_end E a [])
        (\<lambda>_. end_run E Outcome_Aborted msgs)))) (\<lambda>t q. q = turn_pending t)" for a msgs
    by (rule carries_then [where p' = "[]"], use carries_inject_all [of "ls_pending st" "[]" E] in simp)
      (intro carries_then [OF said] carries_then [OF carries_turn_end] carries_end)
  show ?thesis
    unfolding abort_run_def Let_def
    by (rule carries_then [OF carries_emit], rule carries_then [OF clock], rule rest)
qed

lemma carries_continue: "carries [] (continue_or_abort E m calls st) (\<lambda>t q. q = turn_pending t)"
  for E :: "('f::{plus,zero}, 'w) loop_env"
proof -
  have "carries ms (if c \<and> calls \<noteq> [] then abort_run E m (st\<lparr>ls_pending := ms\<rparr>)
      else State_Monad.return (Run_On (st\<lparr>ls_pending := ms\<rparr>))) (\<lambda>t q. q = turn_pending t)" for c ms
    using carries_abort [of "st\<lparr>ls_pending := ms\<rparr>" E m] by (simp add: carries_return)
  then show ?thesis
    unfolding continue_or_abort_def
    by (intro carries_bind [OF carries_drains(1)] carries_bind [OF carries_cancelled]) simp
qed

lemma carries_finish: "carries [] (finish_turn E m calls results st) (\<lambda>t q. q = turn_pending t)"
  for E :: "('f::{plus,zero}, 'w) loop_env"
proof -
  have hook: "carries [] (if results = [] then State_Monad.return None
      else turn_hook (lc_after_tool_results (le_config E)) (turn_context_of st m results)) (\<lambda>_ q. q = [])"
    by (auto intro: carries_return carries_turn_hook)
  have ask: "carries [] (should_stop_after_turn E t) (\<lambda>_ q. q = [])" for t
    unfolding should_stop_after_turn_def by (auto intro: carries_return carries_world split: option.split)
  have check: "carries [] (if stop then is_cancelled E else State_Monad.return False) (\<lambda>_ q. q = [])" for stop
    by (auto intro: carries_return carries_cancelled)
  show ?thesis
    unfolding finish_turn_def Let_def
    by (rule carries_then [OF hook], rule carries_then [OF carries_turn_end], rule carries_then [OF carries_turn_hook],
        rule carries_then [OF ask], rule carries_then [OF check]) (simp add: carries_end carries_continue)
qed

lemma carries_complete: "carries [] (complete_turn E m st) (\<lambda>t q. q = turn_pending t)"
  for E :: "('f::{plus,zero}, 'w) loop_env"
proof -
  have "carries [] (run_tool_calls E (ls_context st) m calls) (\<lambda>_ q. q = [])" for calls
    by (rule carries_inert) (rule inert.calls_keep [OF all_tools_ok])
  then show ?thesis
    unfolding complete_turn_def Let_def
    by (rule carries_bind) (auto split: sum.split intro: carries_return carries_finish)
qed

lemma carries_turn: "carries (ls_pending st) (loop_turn E st) (\<lambda>t q. q = turn_pending t)"
  for E :: "('f::{plus,zero}, 'w) loop_env"
proof -
  have start: "carries p (if ls_first_turn st then State_Monad.return () else emit_event E Turn_Start) (\<lambda>_ q. q = p)" for p
    by (auto intro: carries_return carries_emit)
  have failed: "carries [] (State_Monad.bind (emit_turn_end E m []) (\<lambda>_. end_run E o1 msgs)) (\<lambda>t q. q = turn_pending t)"
    for m o1 msgs
    by (rule carries_then [OF carries_turn_end]) (rule carries_end)
  show ?thesis
    unfolding loop_turn_def
    by (rule carries_then [OF start], rule carries_then [where p' = "[]"],
        use carries_inject_pending [of "st\<lparr>ls_first_turn := False\<rparr>" E] in simp,
        rule carries_then [OF carries_response])
      (auto simp: failed carries_complete split: sum.split intro!: carries_return)
qed

lemma carries_rounds: "carries (ls_pending st) (run_rounds E fuel st) (\<lambda>r q. r \<noteq> None \<longrightarrow> q = [])"
  for E :: "('f::{plus,zero}, 'w) loop_env"
proof (induction fuel arbitrary: st)
  case (Suc fuel)
  have turn: "carries (ls_pending st) (State_Monad.bind (loop_turn E st) (\<lambda>t. case t of
      Run_Over r msgs \<Rightarrow> State_Monad.return (Some (r, msgs)) | Run_On st \<Rightarrow> run_rounds E fuel st))
      (\<lambda>r q. r \<noteq> None \<longrightarrow> q = [])"
    by (rule carries_bind [OF carries_turn]) (use Suc.IH in \<open>auto split: turn_end.split intro!: carries_return\<close>)
  have over: "carries [] (State_Monad.bind (emit_event E ev) (\<lambda>_. State_Monad.return (Some r)))
      (\<lambda>r q. r \<noteq> None \<longrightarrow> q = [])" for ev and r :: "('f loop_error + loop_outcome) \<times> 'f agent_message list"
    by (rule carries_bind [OF carries_emit]) (simp add: carries_return)
  have follow: "carries [] (State_Monad.bind (drain_follow_up E) (\<lambda>follow_ups.
        if follow_ups \<noteq> [] then run_rounds E fuel (st\<lparr>ls_pending := follow_ups, ls_has_more := True\<rparr>)
        else State_Monad.bind (emit_event E (Agent_End (ls_new_messages st)))
          (\<lambda>_. State_Monad.return (Some (Inr Outcome_Completed, ls_new_messages st)))))
      (\<lambda>r q. r \<noteq> None \<longrightarrow> q = [])"
    by (rule carries_bind [OF carries_drains(2)])
      (use Suc.IH [of "st\<lparr>ls_pending := _, ls_has_more := True\<rparr>"] over in auto)
  show ?case using turn follow by simp
qed (auto intro: carries_return)

lemma carries_run_loop: "carries [] (run_loop E fuel ctx new_messages pending) (\<lambda>r q. r \<noteq> None \<longrightarrow> q = [])"
  for E :: "('f::{plus,zero}, 'w) loop_env"
  unfolding run_loop_def
proof (rule carries_bind [OF carries_drains(1)])
  fix ms q assume "q = (ms :: 'f agent_message list)"
  then show "carries q (run_rounds E fuel \<lparr>ls_context = ctx, ls_new_messages = new_messages,
      ls_pending_assistant = pending, ls_cache = cache_new, ls_first_turn = True, ls_pending = ms, ls_has_more = True\<rparr>)
      (\<lambda>r q. r \<noteq> None \<longrightarrow> q = [])"
    using carries_rounds [of "\<lparr>ls_context = ctx, ls_new_messages = new_messages,
      ls_pending_assistant = pending, ls_cache = cache_new, ls_first_turn = True, ls_pending = ms, ls_has_more = True\<rparr>"] by simp
qed

lemma carries_begin: "carries p (begin_run E) (\<lambda>_ q. q = p)"
  for E :: "('f::{plus,zero}, 'w) loop_env"
  unfolding begin_run_def by (rule carries_then [OF carries_emit]) (rule carries_emit)

lemma carries_entry:
  "carries [] (State_Monad.bind (run_loop E fuel ctx new_messages pending) (\<lambda>r. State_Monad.return (new_messages_of r)))
     (\<lambda>r q. r \<noteq> None \<longrightarrow> q = [])"
  for E :: "('f::{plus,zero}, 'w) loop_env"
  by (rule carries_bind [OF carries_run_loop]) (simp add: carries_return new_messages_of_def)

lemma carries_run: "carries [] (run_agent_loop E fuel prompts ctx) (\<lambda>r q. r \<noteq> None \<longrightarrow> q = [])"
  for E :: "('f::{plus,zero}, 'w) loop_env"
proof -
  have "carries [] (for_each (emit_message E) prompts) (\<lambda>_ q. q = [])"
    by (rule carries_inert) (intro keeps_for_each inert.message_keeps)
  then show ?thesis
    unfolding run_agent_loop_def by (intro carries_then [OF carries_begin] carries_then [OF _ carries_entry])
qed

lemma carries_continue_entry:
  "carries [] (run_agent_loop_continue E fuel ctx) (\<lambda>r q. r \<noteq> None \<longrightarrow> q = [])"
  for E :: "('f::{plus,zero}, 'w) loop_env"
  unfolding run_agent_loop_continue_def
  by (auto simp del: not_None_eq intro!: carries_return carries_then [OF carries_begin] carries_entry)

lemma carries_assistant_entry:
  "carries [] (run_agent_loop_from_assistant E fuel ctx) (\<lambda>r q. r \<noteq> None \<longrightarrow> q = [])"
  for E :: "('f::{plus,zero}, 'w) loop_env"
  unfolding run_agent_loop_from_assistant_def
  by (auto simp del: not_None_eq split: option.split agent_message.split intro!: carries_return carries_then [OF carries_begin] carries_entry)

subsection \<open>The property\<close>

text \<open>
  C24. A run injects the messages it takes from the steering and follow-up hooks, each once and in the
  order it took them; when it has returned, with or without an error, none is left over.
\<close>

theorem queued_messages_delivered:
  fixes E :: "('f::{plus,zero}, 'w) loop_env"
  assumes "run_state (run_agent_loop E fuel prompts ctx) s = (r, s')"
    and "drained_messages (io_trace s) = injected_messages (io_trace s)"
  shows "\<exists>q. drained_messages (io_trace s') = injected_messages (io_trace s') @ q \<and> (r \<noteq> None \<longrightarrow> q = [])"
  using carriesD [OF carries_run assms(1)] assms(2) by (auto simp: balanced_def)

text \<open>A steering message that waits when the run starts.\<close>

definition demo_steered_env :: "(nat, nat) loop_env" where
  "demo_steered_env = demo_env\<lparr>le_config := demo_config\<lparr>lc_get_steering_messages :=
     Some (\<lambda>n. (if n = 0 then [demo_prompt] else [], n))\<rparr>\<rparr>"

definition demo_steered_run :: "(nat loop_error + nat agent_message list) option \<times> (nat, nat) io_state" where
  "demo_steered_run = run_state (run_agent_loop demo_steered_env (Suc (Suc (Suc 0))) [] demo_context) demo_io"

lemma demo_steered_values:
  "fst demo_steered_run \<noteq> None" "drained_messages (io_trace (snd demo_steered_run)) = [demo_prompt]"
  by (simp_all add: demo_steered_run_def demo_steered_env_def run_eqs demo_env_def demo_config_def demo_context_def
      demo_echo_def demo_io_def demo_reply_def demo_call_valid demo_call_no_recording loop_values)

theorem queued_messages_delivered_witness:
  "injected_messages (io_trace (snd demo_steered_run)) = [demo_prompt]"
proof -
  have "run_state (run_agent_loop demo_steered_env (Suc (Suc (Suc 0))) [] demo_context) demo_io
      = (fst demo_steered_run, snd demo_steered_run)"
    by (simp add: demo_steered_run_def)
  from queued_messages_delivered [OF this] demo_steered_values show ?thesis by (auto simp: demo_io_def)
qed

end
