(* ===== verification/Agent.thy ===== *)
theory Agent
  imports Agent_Delivery
begin

text \<open>
  The stateful agent (\<open>crates/evo-agent/src/agent.rs\<close>, \<open>queue.rs\<close>): it owns the transcript and the
  two message queues, runs the loop on them, and folds every event of a run into its state before it
  broadcasts it. During a run the agent is the world of the loop. Other threads may call \<open>steer\<close>,
  \<open>follow_up\<close> and \<open>abort\<close> at any time; their calls take effect before the next event, queue access
  or cancellation check, the only places where the run can notice them.
\<close>

subsection \<open>The queues\<close>

datatype queue_mode = Queue_All | Queue_OneAtATime

record 'f message_queue =
  pq_mode :: queue_mode
  pq_pending :: "'f agent_message list"

definition queue_new :: "queue_mode \<Rightarrow> 'f message_queue" where
  "queue_new mode = \<lparr>pq_mode = mode, pq_pending = []\<rparr>"

definition enqueue :: "'f agent_message \<Rightarrow> 'f message_queue \<Rightarrow> 'f message_queue" where
  "enqueue m q = q\<lparr>pq_pending := pq_pending q @ [m]\<rparr>"

definition queue_is_empty :: "'f message_queue \<Rightarrow> bool" where
  "queue_is_empty q \<longleftrightarrow> pq_pending q = []"

definition queue_len :: "'f message_queue \<Rightarrow> nat" where
  "queue_len q = length (pq_pending q)"

definition try_drain :: "'f message_queue \<Rightarrow> 'f agent_message list \<times> 'f message_queue" where
  "try_drain q =
     (case pq_pending q of
        [] \<Rightarrow> ([], q)
      | m # ms \<Rightarrow>
          (case pq_mode q of
             Queue_All \<Rightarrow> (m # ms, q\<lparr>pq_pending := []\<rparr>)
           | Queue_OneAtATime \<Rightarrow> ([m], q\<lparr>pq_pending := ms\<rparr>)))"

subsection \<open>The state\<close>

text \<open>Tools and hooks of the host act on the outside world \<open>'w\<close>.\<close>

record ('f, 'w) mutable_state =
  mu_system_prompt :: string
  mu_model :: "'f ai_model"
  mu_thinking_level :: thinking_level
  mu_tools :: "('f, 'w) agent_tool list"
  mu_messages :: "'f agent_message list"
  mu_is_streaming :: bool
  mu_streaming_message :: "'f assistant_message option"
  mu_pending_tool_calls :: "string set"
  mu_error_message :: "string option"

fun message_as_assistant :: "'f agent_message \<Rightarrow> 'f assistant_message option" where
  "message_as_assistant (AgentMessage_Assistant a) = Some a"
| "message_as_assistant _ = None"

text \<open>\<open>reduce\<close>: an event folded into the state.\<close>

fun reduce :: "'f agent_event \<Rightarrow> ('f, 'w) mutable_state \<Rightarrow> ('f, 'w) mutable_state" where
  "reduce (Message_Start _ m) st = st\<lparr>mu_streaming_message := message_as_assistant m\<rparr>"
| "reduce (Message_Update _ a _) st = st\<lparr>mu_streaming_message := Some a\<rparr>"
| "reduce (Message_End _ m) st = st\<lparr>mu_streaming_message := None, mu_messages := mu_messages st @ [m]\<rparr>"
| "reduce (Tool_Execution_Start i _ _) st = st\<lparr>mu_pending_tool_calls := insert i (mu_pending_tool_calls st)\<rparr>"
| "reduce (Tool_Execution_End i _ _ _) st = st\<lparr>mu_pending_tool_calls := mu_pending_tool_calls st - {i}\<rparr>"
| "reduce (Turn_End m _ _) st =
     (case message_as_assistant m of
        None \<Rightarrow> st
      | Some a \<Rightarrow> if am_error_message a \<noteq> None then st\<lparr>mu_error_message := am_error_message a\<rparr> else st)"
| "reduce (Agent_End _) st = st\<lparr>mu_streaming_message := None\<rparr>"
| "reduce _ st = st"

text \<open>The agent: its state, its queues, the run in progress with its token, the events broadcast so far.\<close>

record ('f, 'w) agent =
  ag_state :: "('f, 'w) mutable_state"
  ag_steering :: "'f message_queue"
  ag_follow_up :: "'f message_queue"
  ag_active_run :: "bool option"
  ag_broadcast :: "'f agent_event list"
  ag_outside :: 'w

definition agent_steer :: "'f agent_message \<Rightarrow> ('f, 'w) agent \<Rightarrow> ('f, 'w) agent" where
  "agent_steer m a = a\<lparr>ag_steering := enqueue m (ag_steering a)\<rparr>"

definition agent_follow_up :: "'f agent_message \<Rightarrow> ('f, 'w) agent \<Rightarrow> ('f, 'w) agent" where
  "agent_follow_up m a = a\<lparr>ag_follow_up := enqueue m (ag_follow_up a)\<rparr>"

definition has_queued_messages :: "('f, 'w) agent \<Rightarrow> bool" where
  "has_queued_messages a \<longleftrightarrow> (if \<not> queue_is_empty (ag_steering a) then True else \<not> queue_is_empty (ag_follow_up a))"

definition agent_abort :: "('f, 'w) agent \<Rightarrow> ('f, 'w) agent" where
  "agent_abort a = (case ag_active_run a of None \<Rightarrow> a | Some _ \<Rightarrow> a\<lparr>ag_active_run := Some True\<rparr>)"

datatype 'f agent_call = Call_Steer "'f agent_message" | Call_FollowUp "'f agent_message" | Call_Abort

fun agent_called :: "'f agent_call \<Rightarrow> ('f, 'w) agent \<Rightarrow> ('f, 'w) agent" where
  "agent_called (Call_Steer m) a = agent_steer m a"
| "agent_called (Call_FollowUp m) a = agent_follow_up m a"
| "agent_called Call_Abort a = agent_abort a"

text \<open>
  What an agent is built with, and its surroundings; \<open>ho_meanwhile\<close> yields the calls other threads
  have made since it was last asked.
\<close>

record ('f, 'w) agent_host =
  ho_convert_to_llm :: "'f agent_message list \<Rightarrow> 'w \<Rightarrow> 'f message list \<times> 'w"
  ho_convert_to_llm_incremental :: "('f agent_message list \<Rightarrow> 'f message list) option"
  ho_stream_fn :: "'f ai_model \<Rightarrow> 'f llm_context \<Rightarrow> stream_options \<Rightarrow> 'w \<Rightarrow> 'f response \<times> 'w"
  ho_session_id :: "string option"
  ho_tool_execution :: tool_execution_mode
  ho_wall_clock :: "'w \<Rightarrow> i64 \<times> 'w"
  ho_validate :: "'f tool_schema \<Rightarrow> 'f tool_call \<Rightarrow> string + 'f json"
  ho_decode_content :: "'f json \<Rightarrow> 'f content option"
  ho_is_finite :: "'f \<Rightarrow> bool"
  ho_settles :: "nat list \<Rightarrow> 'w \<Rightarrow> nat list \<times> 'w"
  ho_next :: "nat list \<Rightarrow> 'w \<Rightarrow> nat \<times> 'w"
  ho_meanwhile :: "'w \<Rightarrow> 'f agent_call list \<times> 'w"

definition meanwhile :: "('f, 'w) agent_host \<Rightarrow> ('f, 'w) agent \<Rightarrow> ('f, 'w) agent" where
  "meanwhile H a =
     (case ho_meanwhile H (ag_outside a) of (calls, w) \<Rightarrow> fold agent_called calls (a\<lparr>ag_outside := w\<rparr>))"

text \<open>An operation on the outside world, as one on the agent.\<close>

definition on_outside :: "('w \<Rightarrow> 'a \<times> 'w) \<Rightarrow> ('f, 'w) agent \<Rightarrow> 'a \<times> ('f, 'w) agent" where
  "on_outside f a = (case f (ag_outside a) of (x, w) \<Rightarrow> (x, a\<lparr>ag_outside := w\<rparr>))"

definition outside_tool :: "('f, 'w) agent_tool \<Rightarrow> ('f, ('f, 'w) agent) agent_tool" where
  "outside_tool t =
     \<lparr>at_schema = at_schema t, at_mode = at_mode t, at_prepare_arguments = at_prepare_arguments t,
      at_execute = (\<lambda>i args. on_outside (at_execute t i args))\<rparr>"

subsection \<open>A run of the agent\<close>

text \<open>\<open>StatefulEmitter\<close>: reduce, then broadcast. Injections go the same way.\<close>

definition broadcast_event :: "'f agent_event \<Rightarrow> ('f, 'w) agent \<Rightarrow> ('f, 'w) agent" where
  "broadcast_event ev a = a\<lparr>ag_state := reduce ev (ag_state a), ag_broadcast := ag_broadcast a @ [ev]\<rparr>"

fun effect_event :: "'f effect \<Rightarrow> 'f agent_event option" where
  "effect_event (Fx_Emit ev) = Some ev"
| "effect_event (Fx_Inject ev) = Some ev"
| "effect_event (Fx_Try ev) = Some ev"
| "effect_event _ = None"

definition stateful_emit :: "('f, 'w) agent_host \<Rightarrow> 'f effect \<Rightarrow> ('f, 'w) agent \<Rightarrow> ('f, 'w) agent" where
  "stateful_emit H x a =
     meanwhile H (case effect_event x of None \<Rightarrow> a | Some ev \<Rightarrow> broadcast_event ev a)"

definition drain_agent_steering :: "('f, 'w) agent_host \<Rightarrow> ('f, 'w) agent \<Rightarrow> 'f agent_message list \<times> ('f, 'w) agent" where
  "drain_agent_steering H a =
     (let a = meanwhile H a; (ms, q) = try_drain (ag_steering a) in (ms, a\<lparr>ag_steering := q\<rparr>))"

definition drain_agent_follow_up :: "('f, 'w) agent_host \<Rightarrow> ('f, 'w) agent \<Rightarrow> 'f agent_message list \<times> ('f, 'w) agent" where
  "drain_agent_follow_up H a =
     (let a = meanwhile H a; (ms, q) = try_drain (ag_follow_up a) in (ms, a\<lparr>ag_follow_up := q\<rparr>))"

definition abort_signalled :: "('f, 'w) agent_host \<Rightarrow> ('f, 'w) agent \<Rightarrow> bool \<times> ('f, 'w) agent" where
  "abort_signalled H a = (let a = meanwhile H a in (ag_active_run a = Some True, a))"

definition context_snapshot :: "('f, 'w) agent \<Rightarrow> ('f, ('f, 'w) agent) agent_context" where
  "context_snapshot a =
     \<lparr>ac_system_prompt = mu_system_prompt (ag_state a), ac_messages = mu_messages (ag_state a),
      ac_tools = map outside_tool (mu_tools (ag_state a))\<rparr>"

definition build_config :: "('f, 'w) agent_host \<Rightarrow> ('f, 'w) agent \<Rightarrow> ('f, ('f, 'w) agent) loop_config" where
  "build_config H a =
     \<lparr>lc_model = mu_model (ag_state a),
      lc_convert_to_llm = (\<lambda>ms. on_outside (ho_convert_to_llm H ms)),
      lc_convert_to_llm_incremental = ho_convert_to_llm_incremental H,
      lc_transform_context = None, lc_get_api_key = None, lc_should_stop_after_turn = None,
      lc_prepare_next_turn = None, lc_after_tool_results = None,
      lc_get_steering_messages = Some (drain_agent_steering H),
      lc_get_follow_up_messages = Some (drain_agent_follow_up H),
      lc_pending_message_count = Some (\<lambda>a. queue_len (ag_steering a) + queue_len (ag_follow_up a)),
      lc_before_tool_call = None, lc_after_tool_call = None, lc_tool_execution = ho_tool_execution H,
      lc_thinking_level = mu_thinking_level (ag_state a), lc_api_key = None, lc_timeout = None,
      lc_stream_idle_timeout = None, lc_max_retries = None, lc_max_retry_delay = None,
      lc_cache_retention = Retention_Short, lc_session_id = ho_session_id H,
      lc_is_cancelled = abort_signalled H\<rparr>"

definition agent_env :: "('f, 'w) agent_host \<Rightarrow> ('f, 'w) agent \<Rightarrow> ('f, ('f, 'w) agent) loop_env" where
  "agent_env H a =
     \<lparr>le_config = build_config H a, le_emit = stateful_emit H,
      le_stream_fn = (\<lambda>md lx opts. on_outside (ho_stream_fn H md lx opts)),
      le_wall_clock = on_outside (ho_wall_clock H), le_validate = ho_validate H,
      le_decode_content = ho_decode_content H, le_is_finite = ho_is_finite H,
      le_settles = (\<lambda>is. on_outside (ho_settles H is)), le_next = (\<lambda>is. on_outside (ho_next H is))\<rparr>"

definition busy_error :: "'f agent_error" where
  "busy_error = AgentError_State ''Agent is already processing a prompt. Use steer() or followUp() to queue messages, or wait for completion.''"

definition start_active_run :: "('f, 'w) agent \<Rightarrow> 'f agent_error + ('f, 'w) agent" where
  "start_active_run a =
     (if ag_active_run a \<noteq> None then Inl busy_error
      else Inr (a\<lparr>ag_active_run := Some False,
        ag_state := (ag_state a)\<lparr>mu_is_streaming := True, mu_streaming_message := None, mu_error_message := None\<rparr>\<rparr>))"

definition finish_run :: "('f, 'w) agent \<Rightarrow> ('f, 'w) agent" where
  "finish_run a =
     a\<lparr>ag_active_run := None,
       ag_state := (ag_state a)\<lparr>mu_is_streaming := False, mu_streaming_message := None, mu_pending_tool_calls := {}\<rparr>\<rparr>"

text \<open>
  A run with its bookkeeping. A panic unwinds past \<open>finish_run\<close>; a run whose fuel is used up is
  still going on.
\<close>

definition lifecycle ::
  "('f, ('f, 'w) agent, ('f loop_error + 'b) option) io \<Rightarrow> ('f, ('f, 'w) agent, ('f loop_error + unit) option) io" where
  "lifecycle run = do {
     outcome \<leftarrow> run;
     case outcome of
       None \<Rightarrow> State_Monad.return None
     | Some (Inl Loop_Panic) \<Rightarrow> State_Monad.return (Some (Inl Loop_Panic))
     | Some r \<Rightarrow> do {
         world_op (\<lambda>a. ((), finish_run a));
         State_Monad.return (Some (map_sum id (\<lambda>_. ()) r)) } }"

definition start_run :: "('f, ('f, 'w) agent, 'f agent_error option) io" where
  "start_run = world_op (\<lambda>a. case start_active_run a of Inl e \<Rightarrow> (Some e, a) | Inr a' \<Rightarrow> (None, a'))"

definition current_agent :: "('f, ('f, 'w) agent, ('f, 'w) agent) io" where
  "current_agent = world_op (\<lambda>a. (a, a))"

definition prompt_messages ::
  "('f::{plus,zero}, 'w) agent_host \<Rightarrow> nat \<Rightarrow> 'f agent_message list
     \<Rightarrow> ('f, ('f, 'w) agent, ('f loop_error + unit) option) io" where
  "prompt_messages H fuel messages = do {
     refused \<leftarrow> start_run;
     case refused of
       Some e \<Rightarrow> State_Monad.return (Some (Inl (Loop_Error e)))
     | None \<Rightarrow> do {
         a \<leftarrow> current_agent;
         lifecycle (run_agent_loop (agent_env H a) fuel messages (context_snapshot a)) } }"

definition prompt ::
  "('f::{plus,zero}, 'w) agent_host \<Rightarrow> nat \<Rightarrow> string \<Rightarrow> ('f, ('f, 'w) agent, ('f loop_error + unit) option) io" where
  "prompt H fuel s = do {
     a \<leftarrow> current_agent;
     t \<leftarrow> now_ms (agent_env H a);
     prompt_messages H fuel [AgentMessage_User (user_message_new (UserContent_Text s) t)] }"

definition run_continue ::
  "('f::{plus,zero}, 'w) agent_host \<Rightarrow> nat \<Rightarrow> ('f, 'w) agent
     \<Rightarrow> ('f, ('f, 'w) agent, ('f loop_error + 'f agent_message list) option) io" where
  "run_continue H fuel a =
     (let ctx = context_snapshot a in
      if ac_messages ctx = [] then
        State_Monad.return (Some (Inl (Loop_Error (AgentError_State ''No messages to continue from''))))
      else if is_assistant (last (ac_messages ctx)) then
        State_Monad.return (Some (Inl (Loop_Error (AgentError_State ''Cannot continue from message role: assistant''))))
      else run_agent_loop_continue (agent_env H a) fuel ctx)"

definition continue_run ::
  "('f::{plus,zero}, 'w) agent_host \<Rightarrow> nat \<Rightarrow> ('f, ('f, 'w) agent, ('f loop_error + unit) option) io" where
  "continue_run H fuel = do {
     refused \<leftarrow> start_run;
     case refused of
       Some e \<Rightarrow> State_Monad.return (Some (Inl (Loop_Error e)))
     | None \<Rightarrow> do { a \<leftarrow> current_agent; lifecycle (run_continue H fuel a) } }"

definition agent_reset :: "('f, 'w) agent \<Rightarrow> 'f agent_error + ('f, 'w) agent" where
  "agent_reset a =
     (if ag_active_run a \<noteq> None then
        Inl (AgentError_State ''Agent is already processing. Wait for completion before resetting.'')
      else Inr (a\<lparr>
        ag_state := (ag_state a)\<lparr>mu_messages := [], mu_is_streaming := False, mu_streaming_message := None,
          mu_pending_tool_calls := {}, mu_error_message := None\<rparr>,
        ag_steering := snd (try_drain (ag_steering a)),
        ag_follow_up := snd (try_drain (ag_follow_up a))\<rparr>))"

subsection \<open>Building an agent\<close>

text \<open>The options of the builder, those of \<open>InitialState\<close> among them.\<close>

record ('f, 'w) agent_options =
  op_system_prompt :: "string option"
  op_model :: "'f ai_model option"
  op_initial_thinking :: "thinking_level option"
  op_tools :: "('f, 'w) agent_tool list option"
  op_messages :: "'f agent_message list option"
  op_convert_to_llm :: "('f agent_message list \<Rightarrow> 'w \<Rightarrow> 'f message list \<times> 'w) option"
  op_stream_fn :: "('f ai_model \<Rightarrow> 'f llm_context \<Rightarrow> stream_options \<Rightarrow> 'w \<Rightarrow> 'f response \<times> 'w) option"
  op_thinking_level :: "thinking_level option"
  op_queue_mode :: "queue_mode option"
  op_follow_up_mode :: "queue_mode option"
  op_tool_execution :: "tool_execution_mode option"
  op_session_id :: "string option"

definition unwrap_or :: "'a \<Rightarrow> 'a option \<Rightarrow> 'a" where
  "unwrap_or d x = (case x of None \<Rightarrow> d | Some y \<Rightarrow> y)"

definition default_model :: "'f json \<Rightarrow> 'f ai_model" where
  "default_model settings =
     \<lparr>md_id = ''unknown'', md_name = ''unknown'', md_api = Api_Other ''unknown'', md_provider = ''unknown'',
      md_base_url = [], md_settings = settings\<rparr>"

definition initial_agent_state :: "'f json \<Rightarrow> ('f, 'w) agent_options \<Rightarrow> ('f, 'w) mutable_state" where
  "initial_agent_state settings op =
     \<lparr>mu_system_prompt = unwrap_or [] (op_system_prompt op),
      mu_model = unwrap_or (default_model settings) (op_model op),
      mu_thinking_level = (case op_thinking_level op of Some l \<Rightarrow> l | None \<Rightarrow> unwrap_or Thinking_Off (op_initial_thinking op)),
      mu_tools = unwrap_or [] (op_tools op), mu_messages = unwrap_or [] (op_messages op),
      mu_is_streaming = False, mu_streaming_message = None, mu_pending_tool_calls = {}, mu_error_message = None\<rparr>"

text \<open>
  \<open>build\<close>: \<open>fallback\<close> is the installed default stream function (or the error that there is none),
  \<open>settings\<close> the remaining fields of a default model, \<open>H\<close> and \<open>w\<close> the surroundings.
\<close>

definition agent_build ::
  "('f agent_error + ('f ai_model \<Rightarrow> 'f llm_context \<Rightarrow> stream_options \<Rightarrow> 'w \<Rightarrow> 'f response \<times> 'w)) \<Rightarrow> 'f json
     \<Rightarrow> ('f, 'w) agent_host \<Rightarrow> 'w \<Rightarrow> ('f, 'w) agent_options \<Rightarrow> 'f agent_error + ('f, 'w) agent_host \<times> ('f, 'w) agent" where
  "agent_build fallback settings H w op =
     (case (case op_stream_fn op of Some f \<Rightarrow> Inr f | None \<Rightarrow> fallback) of
        Inl e \<Rightarrow> Inl e
      | Inr stream \<Rightarrow> Inr
          (H\<lparr>ho_convert_to_llm := unwrap_or (\<lambda>ms w. (default_convert_to_llm ms, w)) (op_convert_to_llm op),
             ho_convert_to_llm_incremental :=
               (if op_convert_to_llm op = None then Some default_convert_to_llm_incremental else None),
             ho_stream_fn := stream, ho_session_id := op_session_id op,
             ho_tool_execution := unwrap_or Mode_Parallel (op_tool_execution op)\<rparr>,
           \<lparr>ag_state = initial_agent_state settings op,
            ag_steering = queue_new (unwrap_or Queue_OneAtATime (op_queue_mode op)),
            ag_follow_up = queue_new (unwrap_or Queue_OneAtATime (op_follow_up_mode op)),
            ag_active_run = None, ag_broadcast = [], ag_outside = w\<rparr>))"

end
