(* ===== verification/Agent_Prompt.thy ===== *)
theory Agent_Prompt
  imports Agent
begin

text \<open>
  What a prompt does to the agent. The invariant \<open>tracked\<close> says that, since the run started, the state
  is the fold of the events broadcast; it satisfies the contract of \<open>run_invariant\<close>, so every run
  keeps it, whatever other threads call meanwhile.
\<close>

definition events_of :: "'f effect list \<Rightarrow> 'f agent_event list" where
  "events_of ts = filter_map effect_event ts"

lemma events_of_simps [simp]:
  "events_of [] = []" "events_of (ts @ us) = events_of ts @ events_of us"
  "events_of [x] = (case effect_event x of None \<Rightarrow> [] | Some ev \<Rightarrow> [ev])"
  by (simp_all add: events_of_def split: option.split)

definition reduce_all :: "'f agent_event list \<Rightarrow> ('f, 'w) mutable_state \<Rightarrow> ('f, 'w) mutable_state" where
  "reduce_all evs st = fold reduce evs st"

lemma reduce_all_simps [simp]:
  "reduce_all [] st = st" "reduce_all (evs @ evs') st = reduce_all evs' (reduce_all evs st)"
  "reduce_all [ev] st = reduce ev st"
  by (simp_all add: reduce_all_def)

definition tracked :: "('f, ('f, 'w) agent) io_state \<Rightarrow> ('f, ('f, 'w) agent) io_state \<Rightarrow> bool" where
  "tracked s0 s \<longleftrightarrow>
     (\<exists>ts. io_trace s = io_trace s0 @ ts
        \<and> ag_state (io_world s) = reduce_all (events_of ts) (ag_state (io_world s0))
        \<and> ag_broadcast (io_world s) = ag_broadcast (io_world s0) @ events_of ts
        \<and> (ag_active_run (io_world s) = None \<longleftrightarrow> ag_active_run (io_world s0) = None))"

text \<open>Calls of other threads touch neither the state nor the broadcast, and neither start nor end a run.\<close>

lemma agent_called_frame [simp]:
  "ag_state (agent_called c a) = ag_state a" "ag_broadcast (agent_called c a) = ag_broadcast a"
  "ag_active_run (agent_called c a) = None \<longleftrightarrow> ag_active_run a = None"
  by (cases c; simp add: agent_steer_def agent_follow_up_def agent_abort_def split: option.split)+

lemma agent_calls_frame [simp]:
  "ag_state (fold agent_called cs a) = ag_state a" "ag_broadcast (fold agent_called cs a) = ag_broadcast a"
  "ag_active_run (fold agent_called cs a) = None \<longleftrightarrow> ag_active_run a = None"
  by (induction cs arbitrary: a) simp_all

lemma meanwhile_frame [simp]:
  "ag_state (meanwhile H a) = ag_state a" "ag_broadcast (meanwhile H a) = ag_broadcast a"
  "ag_active_run (meanwhile H a) = None \<longleftrightarrow> ag_active_run a = None"
  by (simp_all add: meanwhile_def split: prod.split)

text \<open>Operations that leave state, broadcast and run alone keep \<open>tracked\<close>.\<close>

lemma tracked_world:
  assumes "\<And>a. ag_state (snd (f a)) = ag_state a" "\<And>a. ag_broadcast (snd (f a)) = ag_broadcast a"
    "\<And>a. ag_active_run (snd (f a)) = None \<longleftrightarrow> ag_active_run a = None"
  shows "keeps (tracked s0) (world_op f) (\<lambda>_. True)"
  using assms by (simp add: keeps_world_op tracked_def)

lemma on_outside_frame [simp]:
  "ag_state (snd (on_outside f a)) = ag_state a" "ag_broadcast (snd (on_outside f a)) = ag_broadcast a"
  "ag_active_run (snd (on_outside f a)) = ag_active_run a"
  by (simp_all add: on_outside_def split: prod.split)

lemma tracked_outside [simp]: "keeps (tracked s0) (world_op (on_outside f)) (\<lambda>_. True)"
  by (rule tracked_world) simp_all

lemma tracked_step:
  assumes "tracked s0 s" "io_trace s' = io_trace s @ ts"
    "ag_state (io_world s') = reduce_all (events_of ts) (ag_state (io_world s))"
    "ag_broadcast (io_world s') = ag_broadcast (io_world s) @ events_of ts"
    "ag_active_run (io_world s') = None \<longleftrightarrow> ag_active_run (io_world s) = None"
  shows "tracked s0 s'"
proof -
  obtain us where us: "io_trace s = io_trace s0 @ us"
    "ag_state (io_world s) = reduce_all (events_of us) (ag_state (io_world s0))"
    "ag_broadcast (io_world s) = ag_broadcast (io_world s0) @ events_of us"
    "ag_active_run (io_world s) = None \<longleftrightarrow> ag_active_run (io_world s0) = None"
    using assms(1) unfolding tracked_def by (elim exE conjE)
  show ?thesis
    unfolding tracked_def by (rule exI [of _ "us @ ts"]) (simp add: assms(2-) us)
qed

lemma tracked_note: "effect_event x = None \<Longrightarrow> keeps (tracked s0) (note_effect x) (\<lambda>_. True)"
  unfolding keeps_note by (auto elim!: tracked_step [where ts = "[x]"])

lemma tracked_deliver:
  assumes "le_emit E = stateful_emit H"
  shows "keeps (tracked s0) (deliver E x) (\<lambda>_. True)"
proof -
  have "run_state (deliver E x) s
      = ((), s\<lparr>io_trace := io_trace s @ [x], io_world := stateful_emit H x (io_world s)\<rparr>)" for s
    using assms by (simp add: deliver_def world_op_def note_effect_def)
  then show ?thesis
    unfolding keeps_def
    by (auto elim!: tracked_step [where ts = "[x]"] simp: stateful_emit_def broadcast_event_def split: option.split)
qed

lemma tracked_drain:
  assumes "\<And>a. ag_state (snd (f a)) = ag_state a" "\<And>a. ag_broadcast (snd (f a)) = ag_broadcast a"
    "\<And>a. ag_active_run (snd (f a)) = None \<longleftrightarrow> ag_active_run a = None"
  shows "keeps (tracked s0) (drain_hook (Some f)) (\<lambda>_. True)"
  unfolding drain_hook_def option.case
  by (intro keeps_then tracked_world assms tracked_note keeps_return TrueI) simp

lemma tracked_clock: "le_wall_clock E = on_outside f \<Longrightarrow> keeps (tracked s0) (now_ms E) (\<lambda>_. True)"
  unfolding now_ms_def
  by (rule keeps_then [where m = "world_op _"]) (simp_all add: keeps_def Let_def tracked_def)

text \<open>The tools of the agent act on the outside.\<close>

definition acts_outside :: "('f, ('f, 'w) agent) agent_tool \<Rightarrow> bool" where
  "acts_outside t \<longleftrightarrow> t \<in> range outside_tool"

lemma snapshot_tools [simp]: "tools_ok acts_outside (context_snapshot a)"
  by (auto simp: tools_ok_def context_snapshot_def acts_outside_def)

lemma tracked_tool: "acts_outside t \<Longrightarrow> keeps (tracked s0) (world_op (at_execute t i args)) (\<lambda>_. True)"
  by (auto simp: acts_outside_def outside_tool_def)

interpretation run: run_invariant "agent_env H a" "tracked s0" acts_outside for H a s0
proof unfold_locales
  show "keeps (tracked s0) (is_cancelled (agent_env H a)) (\<lambda>_. True)"
    unfolding is_cancelled_def agent_env_def build_config_def
    by (simp, rule tracked_world) (simp_all add: abort_signalled_def Let_def)
  show "keeps (tracked s0) (drain_steering (agent_env H a)) (\<lambda>_. True)"
    unfolding drain_steering_def agent_env_def build_config_def
    by (simp, rule tracked_drain) (simp_all add: drain_agent_steering_def Let_def split: prod.split)
  show "keeps (tracked s0) (drain_follow_up (agent_env H a)) (\<lambda>_. True)"
    unfolding drain_follow_up_def agent_env_def build_config_def
    by (simp, rule tracked_drain) (simp_all add: drain_agent_follow_up_def Let_def split: prod.split)
qed (simp_all add: agent_env_def build_config_def tracked_deliver [where H = H] tracked_note tracked_tool
    tracked_clock [where f = "ho_wall_clock H"])

subsection \<open>The stages of a prompt\<close>

definition started :: "('f, 'w) agent \<Rightarrow> ('f, 'w) agent" where
  "started a = a\<lparr>ag_active_run := Some False,
     ag_state := (ag_state a)\<lparr>mu_is_streaming := True, mu_streaming_message := None, mu_error_message := None\<rparr>\<rparr>"

lemma started_simps [simp]:
  "ag_active_run (started a) = Some False" "ag_broadcast (started a) = ag_broadcast a"
  "mu_messages (ag_state (started a)) = mu_messages (ag_state a)"
  by (simp_all add: started_def)

lemma finish_run_simps [simp]:
  "ag_active_run (finish_run a) = None" "ag_broadcast (finish_run a) = ag_broadcast a"
  "mu_messages (ag_state (finish_run a)) = mu_messages (ag_state a)"
  "\<not> mu_is_streaming (ag_state (finish_run a))" "mu_streaming_message (ag_state (finish_run a)) = None"
  "mu_pending_tool_calls (ag_state (finish_run a)) = {}"
  by (simp_all add: finish_run_def)

text \<open>Whether the run got as far as \<open>finish_run\<close>.\<close>

definition finished :: "('f loop_error + 'b) option \<Rightarrow> bool" where
  "finished r \<longleftrightarrow> (case r of None \<Rightarrow> False | Some (Inl Loop_Panic) \<Rightarrow> False | Some _ \<Rightarrow> True)"

lemma finished_simps [simp]:
  "\<not> finished None" "\<not> finished (Some (Inl Loop_Panic))" "finished (Some (Inl (Loop_Error e)))" "finished (Some (Inr x))"
  by (simp_all add: finished_def)

lemma run_lifecycle:
  "run_state (lifecycle run) s = (let (r, s1) = run_state run s
     in (map_option (map_sum id (\<lambda>_. ())) r,
         if finished r then s1\<lparr>io_world := finish_run (io_world s1)\<rparr> else s1))"
  by (auto simp: lifecycle_def Let_def finished_def world_op_def split: prod.split option.split sum.split loop_error.split)

lemma run_prompt_idle:
  assumes "ag_active_run (io_world s) = None"
  shows "run_state (prompt_messages H fuel msgs) s =
    run_state (lifecycle (run_agent_loop (agent_env H (started (io_world s))) fuel msgs (context_snapshot (started (io_world s)))))
      (s\<lparr>io_world := started (io_world s)\<rparr>)"
  using assms
  by (simp add: prompt_messages_def start_run_def current_agent_def start_active_run_def started_def world_op_def)

lemma reduced_messages: "mu_messages (reduce_all (events_of ts) st) = mu_messages st @ ended_messages ts"
proof (induction ts arbitrary: st)
  case (Cons x ts)
  have head: "mu_messages (reduce ev st) = mu_messages st @ (case ended_message x of None \<Rightarrow> [] | Some m \<Rightarrow> [m])"
    if "effect_event x = Some ev" for ev
    using that by (cases x; cases ev) (auto split: option.split)
  have none: "ended_message x = None" if "effect_event x = None"
    using that by (cases x) auto
  show ?case
    using Cons.IH head none
    by (cases "effect_event x") (auto simp: events_of_def reduce_all_def split: option.split)
qed simp

lemma run_facts:
  assumes "run_state (run_agent_loop (agent_env H a) fuel msgs (context_snapshot a)) s = (r, s1)" "io_world s = a"
  obtains ts where "io_trace s1 = io_trace s @ ts" "entry_ok msgs ts r"
    "ag_state (io_world s1) = reduce_all (events_of ts) (ag_state a)"
    "ag_broadcast (io_world s1) = ag_broadcast a @ events_of ts"
    "ag_active_run (io_world s1) = None \<longleftrightarrow> ag_active_run a = None"
proof -
  have "tracked s s" by (auto simp: tracked_def intro: exI [of _ "[]"])
  then have "tracked s s1"
    using keepsD [OF run.run_keeps [OF snapshot_tools] assms(1)] by simp
  moreover obtain ts where "io_trace s1 = io_trace s @ ts" "entry_ok msgs ts r"
    using tracesD [OF traces_run_agent_loop assms(1)] by blast
  ultimately show thesis using assms(2) that unfolding tracked_def by auto
qed

lemma prompt_facts:
  assumes "ag_active_run (io_world s) = None" "run_state (prompt_messages H fuel msgs) s = (r, s')"
  obtains r0 s1 ts where "r = map_option (map_sum id (\<lambda>_. ())) r0"
    "s' = (if finished r then s1\<lparr>io_world := finish_run (io_world s1)\<rparr> else s1)"
    "entry_ok msgs ts r0"
    "ag_state (io_world s1) = reduce_all (events_of ts) (ag_state (started (io_world s)))"
    "ag_broadcast (io_world s1) = ag_broadcast (io_world s) @ events_of ts"
    "ag_active_run (io_world s1) \<noteq> None"
proof -
  let ?a = "started (io_world s)"
  obtain r0 s1 where run: "run_state (run_agent_loop (agent_env H ?a) fuel msgs (context_snapshot ?a)) (s\<lparr>io_world := ?a\<rparr>) = (r0, s1)"
    by fastforce
  have s': "r = map_option (map_sum id (\<lambda>_. ())) r0" "s' = (if finished r0 then s1\<lparr>io_world := finish_run (io_world s1)\<rparr> else s1)"
    using assms run by (simp_all add: run_prompt_idle run_lifecycle)
  have fin: "finished r = finished r0"
    using s'(1) by (auto simp: finished_def split: option.splits sum.splits)
  show thesis
    by (rule run_facts [OF run]) (use that s' fin in simp_all)
qed

subsection \<open>Properties\<close>

text \<open>
  C27. The state is what subscribers can see: after a prompt of an idle agent, however it ends and
  whatever other threads queue or abort meanwhile, the agent's state is the fold of exactly the events
  broadcast since, starting from the started state; a run that returned is then marked finished.
\<close>

theorem state_is_fold_of_events:
  fixes H :: "('f::{plus,zero}, 'w) agent_host"
  assumes "ag_active_run (io_world s) = None" "run_state (prompt_messages H fuel msgs) s = (r, s')"
  shows "\<exists>evs. ag_broadcast (io_world s') = ag_broadcast (io_world s) @ evs
     \<and> ag_state (io_world s') =
         (let st = fold reduce evs (ag_state (started (io_world s)))
          in if finished r then st\<lparr>mu_is_streaming := False, mu_streaming_message := None, mu_pending_tool_calls := {}\<rparr> else st)
     \<and> (ag_active_run (io_world s') = None \<longleftrightarrow> finished r)"
proof -
  obtain s1 ts where "s' = (if finished r then s1\<lparr>io_world := finish_run (io_world s1)\<rparr> else s1)"
    "ag_state (io_world s1) = reduce_all (events_of ts) (ag_state (started (io_world s)))"
    "ag_broadcast (io_world s1) = ag_broadcast (io_world s) @ events_of ts" "ag_active_run (io_world s1) \<noteq> None"
    by (rule prompt_facts [OF assms])
  then show ?thesis
    by (intro exI [of _ "events_of ts"]) (auto simp: reduce_all_def finish_run_def Let_def)
qed

text \<open>
  C28. A prompt that succeeds extends the transcript by the prompts and what the run produced, and by
  nothing else, ends with the event that carries exactly these messages, and leaves the agent idle.
\<close>

theorem prompt_extends_transcript:
  fixes H :: "('f::{plus,zero}, 'w) agent_host"
  assumes "ag_active_run (io_world s) = None" "run_state (prompt_messages H fuel msgs) s = (Some (Inr ()), s')"
  shows "\<exists>new evs. mu_messages (ag_state (io_world s')) = mu_messages (ag_state (io_world s)) @ msgs @ new
     \<and> ag_broadcast (io_world s') = ag_broadcast (io_world s) @ evs @ [Agent_End (msgs @ new)]
     \<and> ag_active_run (io_world s') = None \<and> \<not> mu_is_streaming (ag_state (io_world s'))
     \<and> mu_pending_tool_calls (ag_state (io_world s')) = {}"
proof -
  obtain r0 s1 ts where r0: "Some (Inr ()) = map_option (map_sum id (\<lambda>_. ())) r0"
    and fin: "s' = (if finished (Some (Inr () :: 'f loop_error + unit)) then s1\<lparr>io_world := finish_run (io_world s1)\<rparr> else s1)"
    and ts: "entry_ok msgs ts r0"
      "ag_state (io_world s1) = reduce_all (events_of ts) (ag_state (started (io_world s)))"
      "ag_broadcast (io_world s1) = ag_broadcast (io_world s) @ events_of ts"
    by (rule prompt_facts [OF assms])
  have s': "s' = s1\<lparr>io_world := finish_run (io_world s1)\<rparr>" using fin by simp
  obtain out where out: "r0 = Some (Inr out)"
    using r0 by (cases r0; cases "the r0") auto
  obtain us where us: "ts = us @ [Fx_Emit (Agent_End out)]" "ended_messages us = out"
    using ts(1) out by (auto simp: entry_ok_def closes_def reports_def)
  obtain new where new: "out = msgs @ new"
    using ts(1) out by (auto simp: entry_ok_def)
  show ?thesis
    by (rule exI [of _ new], rule exI [of _ "events_of us"]) (use ts us new s' in \<open>simp add: reduced_messages\<close>)
qed

text \<open>A busy agent refuses.\<close>

lemma busy_refuses:
  fixes H :: "('f::{plus,zero}, 'w) agent_host"
  assumes "ag_active_run (io_world s) \<noteq> None"
  shows "run_state (prompt_messages H fuel msgs) s = (Some (Inl (Loop_Error busy_error)), s)"
    "run_state (continue_run H fuel) s = (Some (Inl (Loop_Error busy_error)), s)"
  using assms
  by (auto simp: prompt_messages_def continue_run_def start_run_def start_active_run_def world_op_def)

text \<open>
  C29. A panic that unwinds a prompt leaves the agent busy for good: every later prompt, and every
  attempt to continue or reset, is refused and changes nothing.
\<close>

theorem panic_blocks_agent:
  fixes H :: "('f::{plus,zero}, 'w) agent_host"
  assumes "ag_active_run (io_world s) = None" "run_state (prompt_messages H fuel msgs) s = (Some (Inl Loop_Panic), s')"
  shows "run_state (prompt_messages H' fuel' msgs') s' = (Some (Inl (Loop_Error busy_error)), s')
     \<and> run_state (continue_run H' fuel') s' = (Some (Inl (Loop_Error busy_error)), s')
     \<and> (\<exists>e. agent_reset (io_world s') = Inl e)"
proof -
  obtain s1 where "s' = (if finished (Some (Inl Loop_Panic) :: ('f loop_error + unit) option)
      then s1\<lparr>io_world := finish_run (io_world s1)\<rparr> else s1)" "ag_active_run (io_world s1) \<noteq> None"
    by (rule prompt_facts [OF assms])
  then have "ag_active_run (io_world s') \<noteq> None" by simp
  then show ?thesis by (simp add: busy_refuses agent_reset_def)
qed

text \<open>
  A reset of an idle agent clears the transcript and the run's traces, but of each queue only what
  one drain takes: in the default mode all messages behind the first one stay queued.
\<close>

theorem reset_drains_once:
  assumes "ag_active_run a = None"
  shows "\<exists>a'. agent_reset a = Inr a' \<and> ac_messages (context_snapshot a') = [] \<and> mu_pending_tool_calls (ag_state a') = {}
     \<and> pq_pending (ag_steering a') = (case pq_mode (ag_steering a) of Queue_All \<Rightarrow> [] | Queue_OneAtATime \<Rightarrow> tl (pq_pending (ag_steering a)))
     \<and> pq_pending (ag_follow_up a') = (case pq_mode (ag_follow_up a) of Queue_All \<Rightarrow> [] | Queue_OneAtATime \<Rightarrow> tl (pq_pending (ag_follow_up a)))"
  using assms
  by (auto simp: agent_reset_def context_snapshot_def try_drain_def split: list.split queue_mode.split)

subsection \<open>Demonstrations\<close>

definition demo_host :: "(nat, nat) agent_host" where
  "demo_host =
     \<lparr>ho_convert_to_llm = (\<lambda>ms w. (default_convert_to_llm ms, w)),
      ho_convert_to_llm_incremental = Some default_convert_to_llm_incremental,
      ho_stream_fn = le_stream_fn demo_env, ho_session_id = None, ho_tool_execution = Mode_Sequential,
      ho_wall_clock = (\<lambda>w. (0, w)), ho_validate = (\<lambda>_ c. Inr (tcall_arguments c)),
      ho_decode_content = (\<lambda>_. None), ho_is_finite = (\<lambda>_. True), ho_settles = (\<lambda>_ w. ([], w)),
      ho_next = (\<lambda>_ w. (0, w)), ho_meanwhile = (\<lambda>w. ([], w))\<rparr>"

definition demo_agent_with :: "(nat, nat) agent_tool \<Rightarrow> (nat, nat) agent" where
  "demo_agent_with tool =
     \<lparr>ag_state = \<lparr>mu_system_prompt = [], mu_model = lc_model demo_config, mu_thinking_level = Thinking_Off,
        mu_tools = [tool], mu_messages = [], mu_is_streaming = False, mu_streaming_message = None,
        mu_pending_tool_calls = {}, mu_error_message = None\<rparr>,
      ag_steering = queue_new Queue_OneAtATime, ag_follow_up = queue_new Queue_OneAtATime,
      ag_active_run = None, ag_broadcast = [], ag_outside = 0\<rparr>"

definition demo_agent_io :: "(nat, nat) agent_tool \<Rightarrow> (nat, (nat, nat) agent) io_state" where
  "demo_agent_io tool = \<lparr>io_world = demo_agent_with tool, io_last_ms = 0, io_trace = []\<rparr>"

definition demo_panicking :: "(nat, nat) agent_tool" where
  "demo_panicking = demo_echo\<lparr>at_execute := (\<lambda>_ _ w.
     (\<lparr>tn_updates = [], tn_late_updates = [], tn_children = [], tn_outcome = Tool_Panicked\<rparr>, w))\<rparr>"

definition demo_agent_run where
  "demo_agent_run tool = run_state (prompt_messages demo_host (Suc (Suc (Suc 0))) [demo_prompt]) (demo_agent_io tool)"

lemmas agent_values =
  agent_env_def build_config_def context_snapshot_def outside_tool_def on_outside_def stateful_emit_def
  broadcast_event_def meanwhile_def drain_agent_steering_def drain_agent_follow_up_def abort_signalled_def
  try_drain_def queue_new_def queue_len_def started_def

lemma demo_agent_idle: "ag_active_run (io_world (demo_agent_io tool)) = None"
  by (simp add: demo_agent_io_def demo_agent_with_def)

lemma demo_agent_results:
  "fst (demo_agent_run demo_echo) = Some (Inr ())" "fst (demo_agent_run demo_panicking) = Some (Inl Loop_Panic)"
  by (simp_all add: demo_agent_run_def run_prompt_idle demo_agent_idle run_lifecycle run_eqs demo_agent_io_def
      demo_agent_with_def demo_host_def agent_values demo_panicking_def demo_defs loop_values)

lemma demo_agent_run_eq:
  "run_state (prompt_messages demo_host (Suc (Suc (Suc 0))) [demo_prompt]) (demo_agent_io tool)
     = (fst (demo_agent_run tool), snd (demo_agent_run tool))"
  by (simp add: demo_agent_run_def)

theorem state_is_fold_of_events_witness:
  "\<exists>evs. ag_broadcast (io_world (snd (demo_agent_run demo_panicking))) = evs
     \<and> ag_state (io_world (snd (demo_agent_run demo_panicking))) = fold reduce evs (ag_state (started (demo_agent_with demo_panicking)))"
  using state_is_fold_of_events [OF demo_agent_idle demo_agent_run_eq [of demo_panicking]]
  by (auto simp: demo_agent_results demo_agent_io_def demo_agent_with_def)

theorem prompt_extends_transcript_witness:
  "\<exists>new. mu_messages (ag_state (io_world (snd (demo_agent_run demo_echo)))) = demo_prompt # new
     \<and> last (ag_broadcast (io_world (snd (demo_agent_run demo_echo)))) = Agent_End (demo_prompt # new)"
proof -
  have "run_state (prompt_messages demo_host (Suc (Suc (Suc 0))) [demo_prompt]) (demo_agent_io demo_echo)
      = (Some (Inr ()), snd (demo_agent_run demo_echo))"
    using demo_agent_run_eq [of demo_echo] by (simp add: demo_agent_results)
  from prompt_extends_transcript [OF demo_agent_idle this] show ?thesis
    by (auto simp: demo_agent_io_def demo_agent_with_def)
qed

theorem panic_blocks_agent_witness:
  "fst (run_state (prompt_messages demo_host 1 [demo_prompt]) (snd (demo_agent_run demo_panicking)))
     = Some (Inl (Loop_Error busy_error))"
proof -
  have "run_state (prompt_messages demo_host (Suc (Suc (Suc 0))) [demo_prompt]) (demo_agent_io demo_panicking)
      = (Some (Inl Loop_Panic), snd (demo_agent_run demo_panicking))"
    using demo_agent_run_eq [of demo_panicking] by (simp add: demo_agent_results)
  from panic_blocks_agent [OF demo_agent_idle this] show ?thesis by simp
qed

theorem reset_drains_once_witness:
  "\<exists>a'. agent_reset (agent_steer demo_prompt (agent_steer demo_prompt (demo_agent_with demo_echo))) = Inr a'
     \<and> has_queued_messages a'"
  using reset_drains_once [of "agent_steer demo_prompt (agent_steer demo_prompt (demo_agent_with demo_echo))"]
  by (auto simp: agent_steer_def demo_agent_with_def queue_new_def enqueue_def has_queued_messages_def queue_is_empty_def)

end
