(* ===== verification/Agent_Progress.thy ===== *)
theory Agent_Progress
  imports Agent_Invariant Agent_Runs
begin

text \<open>
  Runs end. \<open>finite_work E b P\<close>: the surroundings have a budget \<open>b\<close> that no operation raises and
  that every response with tool calls and every non-empty drain of a queue lowers. \<open>costs m G\<close>: \<open>m\<close>
  spends some \<open>k\<close> of it, and \<open>G\<close> holds of its result and \<open>k\<close>.
\<close>

definition calls_tools :: "'f response \<Rightarrow> bool" where
  "calls_tools r \<longleftrightarrow> (\<exists>m. rs_result r = Some m \<and> tool_calls_of (am_content m) \<noteq> [])"

definition drain_spends ::
  "('w \<Rightarrow> nat) \<Rightarrow> ('w \<Rightarrow> 'f agent_message list \<times> 'w) option \<Rightarrow> bool" where
  "drain_spends b h \<longleftrightarrow> (\<forall>f w. h = Some f \<longrightarrow> fst (f w) \<noteq> [] \<longrightarrow> b (snd (f w)) < b w)"

definition finite_work ::
  "('f::{plus,zero}, 'w) loop_env \<Rightarrow> ('w \<Rightarrow> nat) \<Rightarrow> (('f, 'w) agent_tool \<Rightarrow> bool) \<Rightarrow> bool" where
  "finite_work E b P \<longleftrightarrow>
     (\<forall>n. run_invariant E (\<lambda>s. b (io_world s) \<le> n) P)
     \<and> (\<forall>md lx opts w. calls_tools (fst (le_stream_fn E md lx opts w)) \<longrightarrow> b (snd (le_stream_fn E md lx opts w)) < b w)
     \<and> drain_spends b (lc_get_steering_messages (le_config E))
     \<and> drain_spends b (lc_get_follow_up_messages (le_config E))"

definition costs :: "('w \<Rightarrow> nat) \<Rightarrow> ('f, 'w, 'a) io \<Rightarrow> ('a \<Rightarrow> nat \<Rightarrow> bool) \<Rightarrow> bool" where
  "costs b m G \<longleftrightarrow>
     (\<forall>s. \<exists>k. b (io_world (snd (run_state m s))) + k \<le> b (io_world s) \<and> G (fst (run_state m s)) k)"

lemma costsD:
  "costs b m G \<Longrightarrow> run_state m s = (x, s') \<Longrightarrow> \<exists>k. b (io_world s') + k \<le> b (io_world s) \<and> G x k"
  unfolding costs_def by (metis fst_conv snd_conv)

lemma costs_mono: "costs b m G \<Longrightarrow> (\<And>x k. G x k \<Longrightarrow> H x k) \<Longrightarrow> costs b m H"
  unfolding costs_def by blast

lemma costs_return: "G x 0 \<Longrightarrow> costs b (State_Monad.return x) G"
  by (auto simp: costs_def intro: exI [of _ 0])

lemma costs_bind:
  assumes "costs b m G" "\<And>x k. G x k \<Longrightarrow> costs b (f x) (\<lambda>y l. H y (k + l))"
  shows "costs b (State_Monad.bind m f) H"
  unfolding costs_def
proof
  fix s
  obtain x s1 where m: "run_state m s = (x, s1)" by fastforce
  obtain k where k: "b (io_world s1) + k \<le> b (io_world s)" "G x k" using costsD [OF assms(1) m] by blast
  obtain y s2 where f: "run_state (f x) s1 = (y, s2)" by fastforce
  obtain l where "b (io_world s2) + l \<le> b (io_world s1)" "H y (k + l)"
    using costsD [OF assms(2) [OF k(2)] f] by blast
  then show "\<exists>k. b (io_world (snd (run_state (State_Monad.bind m f) s))) + k \<le> b (io_world s)
      \<and> H (fst (run_state (State_Monad.bind m f) s)) k"
    using k(1) m f by (intro exI [of _ "k + l"]) simp
qed

text \<open>What the invariants \<open>b \<le> n\<close> keep costs nothing or more.\<close>

lemma costs_keeps:
  assumes "\<And>n. keeps (\<lambda>s. b (io_world s) \<le> n) m Q"
  shows "costs b m (\<lambda>x k. k = 0 \<and> Q x)"
  using assms unfolding keeps_def costs_def by force

lemma costs_free:
  assumes "\<And>n. keeps (\<lambda>s. b (io_world s) \<le> n) m Q" "\<And>x. Q x \<Longrightarrow> costs b (f x) H"
  shows "costs b (State_Monad.bind m f) H"
  by (rule costs_bind [OF costs_keeps [OF assms(1)]]) (use assms(2) in simp)

lemma costs_conj:
  assumes "costs b m G" "\<And>n. keeps (\<lambda>s. b (io_world s) \<le> n) m Q"
  shows "costs b m (\<lambda>x k. G x k \<and> Q x)"
  using assms unfolding costs_def keeps_def by (metis order_refl)

lemma finite_workD:
  assumes "finite_work E b P"
  shows "run_invariant E (\<lambda>s. b (io_world s) \<le> n) P" "batch_invariant E (\<lambda>s. b (io_world s) \<le> n) P"
    "calls_invariant E (\<lambda>s. b (io_world s) \<le> n) P" "turn_invariant E (\<lambda>s. b (io_world s) \<le> n) P"
  using assms by (simp_all add: finite_work_def run_invariant_def batch_invariant_def)

lemma budget_kept:
  fixes b :: "'w \<Rightarrow> nat"
  assumes "\<And>n. keeps (\<lambda>s. b (io_world s) \<le> n) (world_op f) Q"
  shows "b (snd (f w)) \<le> b w"
  using assms [of "b w"] unfolding keeps_world_op
  by (auto dest!: spec [of _ "undefined\<lparr>io_world := w\<rparr>"])

lemma costs_world:
  fixes b :: "'w \<Rightarrow> nat" and f :: "'w \<Rightarrow> 'a \<times> 'w"
  assumes "\<And>n. keeps (\<lambda>s. b (io_world s) \<le> n) (world_op f :: ('f, 'w, 'a) io) Q" "\<And>w. R (fst (f w)) \<Longrightarrow> b (snd (f w)) < b w"
  shows "costs b (world_op f :: ('f, 'w, 'a) io) (\<lambda>x k. R x \<longrightarrow> 0 < k)"
  unfolding costs_def
proof
  fix s :: "('f, 'w) io_state"
  have "b (snd (f (io_world s))) \<le> b (io_world s)" by (rule budget_kept [OF assms(1)])
  then show "\<exists>k. b (io_world (snd (run_state (world_op f :: ('f, 'w, 'a) io) s))) + k \<le> b (io_world s)
      \<and> (R (fst (run_state (world_op f :: ('f, 'w, 'a) io) s)) \<longrightarrow> 0 < k)"
    using assms(2) [of "io_world s"]
    by (intro exI [of _ "b (io_world s) - b (snd (f (io_world s)))"]) (simp add: world_op_def split_beta)
qed

lemma costs_drain:
  fixes h :: "('w \<Rightarrow> 'f agent_message list \<times> 'w) option"
  assumes "drain_spends b h" "\<And>n. keeps (\<lambda>s. b (io_world s) \<le> n) (drain_hook h) (\<lambda>_. True)"
  shows "costs b (drain_hook h) (\<lambda>ms k. ms \<noteq> [] \<longrightarrow> 0 < k)"
proof (cases h)
  case (Some f)
  have "keeps (\<lambda>s. b (io_world s) \<le> n) (world_op f :: ('f, 'w, 'f agent_message list) io) (\<lambda>_. True)" for n
    using assms(2) [of n] unfolding Some drain_hook_def keeps_def by (simp add: world_op_def note_effect_def split_beta)
  then have taken: "costs b (world_op f :: ('f, 'w, 'f agent_message list) io) (\<lambda>ms k. ms \<noteq> [] \<longrightarrow> 0 < k)"
    by (rule costs_world) (use assms(1) Some in \<open>simp add: drain_spends_def\<close>)
  have "keeps (\<lambda>s. b (io_world s) \<le> n) (note_effect x) (\<lambda>_. True)" for n and x :: "'f effect"
    by (simp add: keeps_note)
  then show ?thesis
    unfolding Some drain_hook_def option.case
    by (intro costs_bind [OF taken] costs_free costs_return) auto
qed (simp add: drain_hook_def costs_return)

subsection \<open>One turn\<close>

lemma finish_is_result:
  assumes "calls_invariant E I P"
  shows "keeps I (finish_response E added result ctx) (\<lambda>x. \<forall>m. fst x = Inr m \<longrightarrow> result = Some m)"
  by (auto simp: finish_response_def Let_def split: option.split
      intro!: keeps_return keeps_then [OF calls_invariant.emit_keeps(1) [OF assms]])

lemma answer_is_result:
  assumes "calls_invariant E I P"
  shows "keeps I (fold_events E result added evs ctx) (\<lambda>x. \<forall>m. fst x = Inr m \<longrightarrow> result = Some m)"
proof (induction evs arbitrary: added ctx)
  case (Cons ev evs)
  then show ?case
    using finish_is_result [OF assms]
    by (cases ev) (auto simp: Let_def intro!: keeps_then [OF calls_invariant.emit_keeps(1) [OF assms]])
qed (simp add: finish_is_result [OF assms])

lemma costs_open:
  fixes E :: "('f::{plus,zero}, 'w) loop_env"
  assumes "finite_work E b P"
  shows "costs b (open_stream E lx opts) (\<lambda>r k. calls_tools r \<longrightarrow> 0 < k)"
proof -
  let ?f = "le_stream_fn E (lc_model (le_config E)) lx opts"
  note batch = finite_workD(2) [OF assms] and calls = finite_workD(3) [OF assms]
  have "costs b (world_op ?f :: ('f, 'w, 'f response) io) (\<lambda>r k. calls_tools r \<longrightarrow> 0 < k)"
    by (rule costs_world [OF batch_invariant.stream_keeps [OF batch]]) (use assms in \<open>simp add: finite_work_def\<close>)
  then show ?thesis
    unfolding open_stream_def by (intro costs_free [OF batch_invariant.request_keeps [OF batch]])
qed

lemma costs_stream:
  assumes "finite_work E b P"
  shows "costs b (stream_assistant_response E ctx cache)
    (\<lambda>x k. \<forall>m. fst (fst x) = Inr m \<longrightarrow> tool_calls_of (am_content m) \<noteq> [] \<longrightarrow> 0 < k)"
proof -
  note batch = finite_workD(2) [OF assms] and calls = finite_workD(3) [OF assms]
  obtain cached cache' where take: "take_messages cache ctx (le_config E) = (cached, cache')" by fastforce
  have history: "keeps (\<lambda>s. b (io_world s) \<le> n)
      (case cached of Some ms \<Rightarrow> State_Monad.return ms | None \<Rightarrow> convert_history E ctx) (\<lambda>_. True)" for n
    by (cases cached) (auto intro: keeps_return batch_invariant.history_keeps [OF batch])
  show ?thesis
    unfolding stream_assistant_response_def take Let_def prod.case
    by (rule costs_free [OF history], rule costs_free [OF batch_invariant.key_keeps [OF batch]],
        rule costs_bind [OF costs_open [OF assms]], rule costs_free [OF answer_is_result [OF calls]],
        rule costs_return) (auto simp: calls_tools_def)
qed

text \<open>The inner loop goes on: there is more to do after this turn.\<close>

definition active :: "('f, 'w) loop_state \<Rightarrow> bool" where
  "active st \<longleftrightarrow> ls_has_more st \<or> ls_pending st \<noteq> []"

lemma costs_response:
  assumes "finite_work E b P"
  shows "costs b (next_response E st) (\<lambda>x k. ls_pending_assistant (snd x) = None
    \<and> (\<forall>m. fst x = Inr m \<longrightarrow> tool_calls_of (am_content m) \<noteq> [] \<longrightarrow> ls_pending_assistant st = None \<longrightarrow> 0 < k))"
proof (cases "ls_pending_assistant st")
  case None
  show ?thesis
    unfolding next_response_def None option.case
    by (rule costs_bind [OF costs_stream [OF assms]])
      (auto simp: Let_def None split: sum.splits intro!: costs_return)
qed (simp add: next_response_def costs_return)

text \<open>A turn that goes on with more to do either met the condition \<open>c\<close> or has spent something.\<close>

definition turn_spends :: "bool \<Rightarrow> ('f, 'w) turn_end \<Rightarrow> nat \<Rightarrow> bool" where
  "turn_spends c t k \<longleftrightarrow>
     (\<forall>st. t = Run_On st \<longrightarrow> ls_pending_assistant st = None \<and> (active st \<longrightarrow> c \<or> 0 < k))"

lemma turn_spends_over [simp]: "turn_spends c (Run_Over r msgs) k"
  by (simp add: turn_spends_def)

lemma turn_spends_mono: "turn_spends c t k \<Longrightarrow> (c \<Longrightarrow> d \<or> 0 < l) \<Longrightarrow> turn_spends d t (l + k)"
  by (auto simp: turn_spends_def)

lemma costs_over:
  assumes "finite_work E b P"
  shows "costs b (end_run E outcome msgs) (turn_spends c)"
    and "costs b (abort_run E m st) (turn_spends c)"
proof -
  note run = finite_workD(1) [OF assms] and calls = finite_workD(3) [OF assms] and turn = finite_workD(4) [OF assms]
  have over: "keeps (\<lambda>s. b (io_world s) \<le> n) (end_run E outcome msgs) (\<lambda>t. \<exists>r ms. t = Run_Over r ms)" for n outcome msgs
    unfolding end_run_def by (auto intro!: keeps_then [OF calls_invariant.emit_keeps(1) [OF calls]] keeps_return)
  then show "costs b (end_run E outcome msgs) (turn_spends c)"
    by (rule costs_mono [OF costs_keeps]) auto
  have "keeps (\<lambda>s. b (io_world s) \<le> n) (abort_run E m st) (\<lambda>t. \<exists>r ms. t = Run_Over r ms)" for n
    unfolding abort_run_def Let_def
    by (intro keeps_then calls_invariant.emit_keeps [OF calls] calls_invariant.clock_keeps [OF calls] keeps_for_each
        turn_invariant.injection_keeps [OF turn] calls_invariant.message_keeps [OF calls]
        turn_invariant.turn_end_keeps [OF turn] over)
  then show "costs b (abort_run E m st) (turn_spends c)"
    by (rule costs_mono [OF costs_keeps]) auto
qed

lemma costs_steering:
  assumes "finite_work E b P"
  shows "costs b (drain_steering E) (\<lambda>ms k. ms \<noteq> [] \<longrightarrow> 0 < k)" "costs b (drain_follow_up E) (\<lambda>ms k. ms \<noteq> [] \<longrightarrow> 0 < k)"
  using assms turn_invariant.drained_keeps [OF finite_workD(4) [OF assms]]
  unfolding drain_steering_def drain_follow_up_def by (auto simp: finite_work_def intro!: costs_drain)

lemma costs_continue:
  fixes E :: "('f::{plus,zero}, 'w) loop_env"
  assumes "finite_work E b P" "ls_pending_assistant st = None" "ls_has_more st \<longrightarrow> c"
  shows "costs b (continue_or_abort E m calls st) (turn_spends c)"
  unfolding continue_or_abort_def
proof (rule costs_bind [OF costs_steering(1) [OF assms(1)]],
    rule costs_free [OF calls_invariant.cancelled_keeps [OF finite_workD(3) [OF assms(1)]]])
  fix ms :: "'f agent_message list" and k :: nat and stop :: bool assume k: "ms \<noteq> [] \<longrightarrow> 0 < k"
  have "costs b (abort_run E m (st\<lparr>ls_pending := ms\<rparr>)) (\<lambda>t l. turn_spends c t (k + l))"
    by (rule costs_mono [OF costs_over(2) [OF assms(1)]]) (rule turn_spends_mono)
  then show "costs b (if stop \<and> calls \<noteq> [] then abort_run E m (st\<lparr>ls_pending := ms\<rparr>)
      else State_Monad.return (Run_On (st\<lparr>ls_pending := ms\<rparr>))) (\<lambda>t l. turn_spends c t (k + l))"
    using assms(2,3) k by (auto intro!: costs_return simp: turn_spends_def active_def)
qed

lemma updated_simps [simp]:
  "ls_pending_assistant (apply_update u st) = ls_pending_assistant st" "ls_has_more (apply_update u st) = ls_has_more st"
  by (simp_all add: apply_update_def split: option.split)

lemma recorded_simps [simp]:
  "ls_pending_assistant (fold record_message ms st) = ls_pending_assistant st"
  "ls_has_more (fold record_message ms st) = ls_has_more st"
  by (induction ms arbitrary: st) (simp_all add: record_message_def)

lemma costs_finish:
  fixes E :: "('f::{plus,zero}, 'w) loop_env"
  assumes "finite_work E b P" "ls_pending_assistant st = None" "ls_has_more st \<longrightarrow> c"
  shows "costs b (finish_turn E m calls results st) (turn_spends c)"
proof -
  note run = finite_workD(1) [OF assms(1)] and calls = finite_workD(3) [OF assms(1)]
    and turn = finite_workD(4) [OF assms(1)]
  have hook: "keeps (\<lambda>s. b (io_world s) \<le> n) (if results = [] then State_Monad.return None
      else turn_hook (lc_after_tool_results (le_config E)) (turn_context_of st m results)) (\<lambda>_. True)" for n
    using keeps_weaken [OF turn_invariant.hook_keeps [OF turn turn_invariant.results_hook_keeps [OF turn]]]
    by (simp add: keeps_return turn_invariant.update_ok_None [OF turn])
  have prepare: "keeps (\<lambda>s. b (io_world s) \<le> n) (turn_hook (lc_prepare_next_turn (le_config E)) t) (\<lambda>_. True)" for n t
    using keeps_weaken [OF turn_invariant.hook_keeps [OF turn turn_invariant.turn_hook_keeps [OF turn]]]
    by (simp add: turn_invariant.update_ok_None [OF turn])
  have ask: "keeps (\<lambda>s. b (io_world s) \<le> n) (should_stop_after_turn E t) (\<lambda>_. True)" for n t
    unfolding should_stop_after_turn_def using turn_invariant.stop_keeps [OF turn]
    by (auto split: option.split intro: keeps_return)
  have check: "keeps (\<lambda>s. b (io_world s) \<le> n) (if stop then is_cancelled E else State_Monad.return False) (\<lambda>_. True)" for n stop
    by (auto intro: keeps_return calls_invariant.cancelled_keeps [OF calls])
  show ?thesis
    unfolding finish_turn_def Let_def
    by (rule costs_free [OF hook], rule costs_free [OF turn_invariant.turn_end_keeps [OF turn]],
        rule costs_free [OF prepare], rule costs_free [OF ask], rule costs_free [OF check])
      (auto intro!: costs_over [OF assms(1)] costs_continue [OF assms(1)] simp: assms(2,3))
qed

lemma costs_complete:
  fixes E :: "('f::{plus,zero}, 'w) loop_env"
  assumes "finite_work E b P" "ls_pending_assistant st = None" "tools_ok P (ls_context st)"
  shows "costs b (complete_turn E m st) (turn_spends (tool_calls_of (am_content m) \<noteq> []))"
proof (cases "tool_calls_of (am_content m) = []")
  case True
  then show ?thesis
    using assms(2) costs_finish [OF assms(1), of "st\<lparr>ls_has_more := False\<rparr>" False m "[]" "[]"]
    by (simp add: complete_turn_def run_tool_calls_def)
next
  case False
  show ?thesis
    unfolding complete_turn_def Let_def
    by (rule costs_free [OF calls_invariant.calls_keep [OF finite_workD(3) [OF assms(1)] assms(3)]])
      (use False assms(2) in \<open>auto split: sum.split intro!: costs_return costs_finish [OF assms(1)]\<close>)
qed

lemma keeps_conj: "keeps I m Q \<Longrightarrow> keeps I m R \<Longrightarrow> keeps I m (\<lambda>x. Q x \<and> R x)"
  by (simp add: keeps_def)

lemma injected_keeps_assistant:
  "keeps I (inject_pending E st) (\<lambda>st'. ls_pending_assistant st' = ls_pending_assistant st)" if "turn_invariant E I P"
  unfolding inject_pending_def
  by (auto intro!: keeps_return keeps_then [OF keeps_for_each] turn_invariant.injection_keeps [OF that])

lemma costs_turn:
  fixes E :: "('f::{plus,zero}, 'w) loop_env"
  assumes "finite_work E b P" "tools_ok P (ls_context st)"
  shows "costs b (loop_turn E st) (turn_spends (ls_pending_assistant st \<noteq> None))"
proof -
  note run = finite_workD(1) [OF assms(1)] and calls = finite_workD(3) [OF assms(1)]
    and turn = finite_workD(4) [OF assms(1)]
  have start: "keeps (\<lambda>s. b (io_world s) \<le> n)
      (if ls_first_turn st then State_Monad.return () else emit_event E Turn_Start) (\<lambda>_. True)" for n
    by (auto intro: keeps_return calls_invariant.emit_keeps [OF calls])
  have failed: "costs b (State_Monad.bind (emit_turn_end E m []) (\<lambda>_. end_run E outcome msgs)) (turn_spends c)"
    for m outcome msgs c
    by (rule costs_free [OF turn_invariant.turn_end_keeps [OF turn]]) (rule costs_over [OF assms(1)])
  have rest: "costs b (case r of Inl e \<Rightarrow> State_Monad.return (Run_Over (Inl (Loop_Error e)) (ls_new_messages st'))
      | Inr m \<Rightarrow> if am_stop_reason m = StopReason_Error \<or> am_stop_reason m = StopReason_Aborted
          then State_Monad.bind (emit_turn_end E m [])
            (\<lambda>_. end_run E (outcome_from_stop (am_stop_reason m)) (ls_new_messages st'))
          else complete_turn E m st') (\<lambda>t l. turn_spends c t (k + l))"
    if "ls_pending_assistant st' = None" "tools_ok P (ls_context st')"
      "\<forall>m. r = Inr m \<longrightarrow> tool_calls_of (am_content m) \<noteq> [] \<longrightarrow> c \<or> 0 < k" for r st' c k
    using that
    by (auto split: sum.split intro!: costs_return
        costs_mono [OF failed [where c = c]] costs_mono [OF costs_complete [OF assms(1)]] elim!: turn_spends_mono)
  show ?thesis
    unfolding loop_turn_def
    by (rule costs_free [OF start], rule costs_free [OF keeps_conj [OF turn_invariant.pending_keeps [OF turn]
          injected_keeps_assistant [OF turn]]], use assms(2) in simp,
        rule costs_bind [OF costs_conj [OF costs_response [OF assms(1)] run_invariant.answer_keeps [OF run]]], simp)
      (auto intro!: rest)
qed

subsection \<open>The whole run\<close>

definition rounds_needed :: "nat \<Rightarrow> ('f, 'w) loop_state \<Rightarrow> nat" where
  "rounds_needed n st = 2 * n + (if active st then 1 else 0) + (if ls_pending_assistant st \<noteq> None then 2 else 0)"

lemma rounds_return:
  fixes E :: "('f::{plus,zero}, 'w) loop_env"
  assumes "finite_work E b P" "tools_ok P (ls_context st)" "rounds_needed (b (io_world s)) st < fuel"
  shows "fst (run_state (run_rounds E fuel st) s) \<noteq> None"
  using assms(2,3)
proof (induction fuel arbitrary: st s)
  case (Suc fuel)
  note run = finite_workD(1) [OF assms(1)] and turn = finite_workD(4) [OF assms(1)]
  show ?case
  proof (cases "active st")
    case True
    obtain t s1 where t: "run_state (loop_turn E st) s = (t, s1)" by fastforce
    obtain k where k: "b (io_world s1) + k \<le> b (io_world s)" "turn_spends (ls_pending_assistant st \<noteq> None) t k"
      using costsD [OF costs_turn [OF assms(1) Suc.prems(1)] t] by blast
    have "fst (run_state (run_rounds E fuel st') s1) \<noteq> None" if "t = Run_On st'" for st'
    proof (rule Suc.IH)
      show "tools_ok P (ls_context st')"
        using keepsD [OF run_invariant.turn_keeps [OF run [of "b (io_world s)"] Suc.prems(1)] t] that
        by (simp add: turn_invariant.going_ok_simps [OF turn])
      show "rounds_needed (b (io_world s1)) st' < fuel"
        using k that True Suc.prems(2) by (auto simp: turn_spends_def rounds_needed_def split: if_splits)
    qed
    then show ?thesis using True t by (cases t) (auto simp: active_def)
  next
    case False
    obtain ms s1 where ms: "run_state (drain_follow_up E) s = (ms, s1)" by fastforce
    obtain k where "b (io_world s1) + k \<le> b (io_world s)" "ms \<noteq> [] \<longrightarrow> 0 < k"
      using costsD [OF costs_steering(2) [OF assms(1)] ms] by blast
    then have "fst (run_state (run_rounds E fuel (st\<lparr>ls_pending := ms, ls_has_more := True\<rparr>)) s1) \<noteq> None" if "ms \<noteq> []"
      using that False Suc.prems by (intro Suc.IH) (auto simp: rounds_needed_def active_def)
    then show ?thesis using False ms by (auto simp: active_def split_beta)
  qed
qed simp

lemma run_loop_returns:
  fixes E :: "('f::{plus,zero}, 'w) loop_env"
  assumes "finite_work E b P" "tools_ok P ctx" "2 * b (io_world s) + 3 < fuel"
  shows "fst (run_state (run_loop E fuel ctx new_messages pending) s) \<noteq> None"
proof -
  obtain ms s1 where ms: "run_state (drain_steering E) s = (ms, s1)" by fastforce
  have "b (io_world s1) \<le> b (io_world s)"
    using costsD [OF costs_steering(1) [OF assms(1)] ms] by auto
  then show ?thesis
    unfolding run_loop_def using assms ms
    by (simp add: rounds_return [OF assms(1)] rounds_needed_def active_def)
qed

text \<open>
  C26. Runs end. When the surroundings have a budget that no operation raises, and that every response
  with tool calls and every non-empty drain of a queue lowers, the run returns: fuel for two rounds per
  unit of the budget and a few more suffice. A run goes on forever only if the provider keeps calling
  tools or the queues keep filling.
\<close>

theorem run_returns:
  fixes E :: "('f::{plus,zero}, 'w) loop_env"
  assumes "finite_work E b P" "tools_ok P ctx" "2 * b (io_world s) + 3 < fuel"
  shows "\<exists>r s'. run_state (run_agent_loop E fuel prompts ctx) s = (Some r, s')"
proof -
  note run = finite_workD(1) [OF assms(1)] and calls = finite_workD(3) [OF assms(1)]
    and turn = finite_workD(4) [OF assms(1)]
  let ?n = "b (io_world s)" and ?ctx = "ctx\<lparr>ac_messages := ac_messages ctx @ prompts\<rparr>"
  obtain s1 where s1: "run_state (begin_run E) s = ((), s1)" by (metis old.unit.exhaust surj_pair)
  obtain s2 where s2: "run_state (for_each (emit_message E) prompts) s1 = ((), s2)" by (metis old.unit.exhaust surj_pair)
  have "b (io_world s1) \<le> ?n"
    using keepsD [OF turn_invariant.begin_keeps [OF turn [of ?n]] s1] by simp
  then have "b (io_world s2) \<le> ?n"
    using keepsD [OF keeps_for_each [OF calls_invariant.message_keeps [OF calls [of ?n]]] s2] by simp
  then have "fst (run_state (run_loop E fuel ?ctx prompts None) s2) \<noteq> None"
    using assms(2,3) by (intro run_loop_returns [OF assms(1)]) (simp_all add: tools_ok_def)
  then show ?thesis
    unfolding run_agent_loop_def using s1 s2 by (auto simp: new_messages_of_def split_beta)
qed

text \<open>The demonstration's provider calls a tool once, so that its budget is one.\<close>

lemma demo_finite_work: "finite_work demo_env (\<lambda>n. 1 - n) (\<lambda>t. t = demo_echo)"
proof -
  have "run_invariant demo_env (\<lambda>s. 1 - io_world s \<le> n) (\<lambda>t. t = demo_echo)" for n
    by unfold_locales
      (auto simp: demo_env_def demo_config_def demo_echo_def keeps_world_op keeps_note deliver_def is_cancelled_def
        drain_steering_def drain_follow_up_def drain_hook_def now_ms_def keeps_def world_op_def note_effect_def Let_def)
  then show ?thesis
    by (auto simp: finite_work_def drain_spends_def calls_tools_def demo_env_def demo_config_def demo_reply_def
        assistant_empty_def content_text_def split: if_splits)
qed

theorem run_returns_witness:
  "\<exists>r s'. run_state (run_agent_loop demo_env 6 [demo_prompt] demo_context) demo_io = (Some r, s')"
  by (rule run_returns [OF demo_finite_work]) (simp_all add: tools_ok_def demo_context_def demo_io_def)

end
