(* ===== verification/Agent_Converters.thy ===== *)
theory Agent_Converters
  imports Agent_Batches Harness_Messages
begin

text \<open>
  The contract between the loop's message cache and a pair of converters, and the two pairs of the
  program that meet it: the agent's own, and the harness's, which repairs the history it converts.
\<close>

text \<open>
  What a finished turn appends to the history: a response, and behind it the results of all its calls, in order. That is all
  the loop ever gives the incremental converter.
\<close>

definition finished_turn :: "'f agent_message list \<Rightarrow> bool" where
  "finished_turn ms \<longleftrightarrow> (\<exists>m rs. ms = AgentMessage_Assistant m # map AgentMessage_ToolResult rs
     \<and> list_all2 answer (tool_calls_of (am_content m)) rs)"

locale incremental_converter =
  fixes conv incr :: "'f::{plus,zero} agent_message list \<Rightarrow> 'f message list"
  assumes conv_turn: "finished_turn turn \<Longrightarrow> conv (xs @ turn) = conv xs @ incr turn"
begin

text \<open>
  A cache whose messages are the conversion of the whole history; one whose messages are that of all but the last turn.
\<close>

definition holds :: "'f message_cache \<Rightarrow> 'f agent_message list \<Rightarrow> bool" where
  "holds c ms \<longleftrightarrow> (mc_initialized c \<longrightarrow> mc_source_len c = length ms \<and> mc_messages c = conv ms)"

definition covers :: "'f message_cache \<Rightarrow> 'f agent_message list \<Rightarrow> bool" where
  "covers c ms \<longleftrightarrow> (mc_initialized c \<longrightarrow> (\<exists>h turn. ms = h @ turn \<and> finished_turn turn \<and> holds c h))"

lemma covers_new [simp]: "covers cache_new ms" "covers (cache_invalidate c) ms"
  by (simp_all add: covers_def cache_new_def cache_invalidate_def)

lemma covers_turn: "holds c h \<Longrightarrow> finished_turn turn \<Longrightarrow> covers c (h @ turn)"
  by (auto simp: covers_def)

lemma taken_messages:
  assumes "take_messages c ctx cfg = (Some ms, c')" "covers c (ac_messages ctx)" "lc_convert_to_llm_incremental cfg \<in> {None, Some incr}"
  shows "ms = conv (ac_messages ctx)"
proof -
  have "mc_initialized c" and ms: "ms = mc_messages c @ incr (drop (mc_source_len c) (ac_messages ctx))"
    using assms(1,3) by (auto simp: take_messages_def split: if_splits option.splits)
  then obtain h turn where "ac_messages ctx = h @ turn" "finished_turn turn" "holds c h"
    using assms(2) by (auto simp: covers_def)
  then show ?thesis using ms conv_turn \<open>mc_initialized c\<close> by (simp add: holds_def)
qed

lemma holds_restored: "holds (restore_messages (conv ms) (c\<lparr>mc_source_len := length ms\<rparr>)) ms"
  by (simp add: holds_def restore_messages_def)

end

subsection \<open>The agent's converter\<close>

lemma default_convert_append:
  "default_convert_to_llm (xs @ ys) = default_convert_to_llm xs @ default_convert_to_llm_incremental ys"
proof (induction xs)
  case Nil
  show ?case by (induction ys) (simp_all add: default_convert_to_llm_incremental_def split: option.split)
qed (simp split: option.split)

interpretation default: incremental_converter default_convert_to_llm default_convert_to_llm_incremental
  by unfold_locales (rule default_convert_append)

subsection \<open>The harness's converter\<close>

text \<open>A response ends the batch before it, so what the repair does with the history does not depend on a turn behind it.\<close>

definition ends_batch :: "'f agent_message list \<Rightarrow> bool" where
  "ends_batch ys \<longleftrightarrow> (\<forall>p rs il. settle_batch p rs il ys = (rs, il, p, ys))"

lemma settle_batch_turn:
  assumes "ends_batch ys" "settle_batch p rs il xs = (rs', il', p', rest)"
  shows "settle_batch p rs il (xs @ ys) = (rs', il', p', rest @ ys)"
  using assms(2)
  by (induction p rs il xs rule: settle_batch.induct)
    (use assms(1) in \<open>auto simp: ends_batch_def split: agent_message.splits option.splits\<close>)

lemma repair_slow_turn:
  assumes "ends_batch ys"
  shows "repair_slow repaired report (xs @ ys) = (case repair_slow repaired report xs of (out, rep) \<Rightarrow> repair_slow out rep ys)"
proof (induction repaired report xs rule: repair_slow.induct)
  case (2 repaired report x xs)
  show ?case
  proof (cases x)
    case (AgentMessage_Assistant a)
    obtain rs il p rest where batch: "settle_batch (pending_calls a) (repaired @ [x]) [] xs = (rs, il, p, rest)"
      by (metis prod_cases4)
    from "2.IH"(2) [OF AgentMessage_Assistant batch [symmetric] refl refl] show ?thesis
      using batch settle_batch_turn [OF assms batch] AgentMessage_Assistant by simp
  qed (use 2 in \<open>simp_all\<close>)
qed simp

lemma answered_calls:
  "list_all2 answer cs rs \<Longrightarrow> pending_after (map (\<lambda>t. (tcall_id t, tcall_name t)) cs) (map AgentMessage_ToolResult rs) = Some []"
  by (induction rule: list_all2_induct) (simp_all add: answer_def answers_def remove_at_def)

lemma repair_finished_turn:
  assumes "finished_turn turn"
  shows "fst (repair_orphaned_tool_calls (xs @ turn)) = fst (repair_orphaned_tool_calls xs) @ turn"
proof -
  obtain m rs where turn: "turn = AgentMessage_Assistant m # map AgentMessage_ToolResult rs"
    and all: "list_all2 answer (tool_calls_of (am_content m)) rs"
    using assms by (auto simp: finished_turn_def)
  have "pending_after [] turn = Some []"
    using answered_calls [OF all] by (simp add: turn pending_calls_def)
  then have "repair_slow out rep turn = (out @ turn, rep)" for out rep by (rule repair_slow_clean)
  then show ?thesis
    using repair_slow_turn [of turn "[]" "[]" xs]
    by (simp add: repair_equals_slow repair_orphaned_tool_calls_slow_def split_beta ends_batch_def turn)
qed

interpretation harness: incremental_converter "convert_to_llm C" "convert_to_llm_incremental C" for C
  by unfold_locales (simp add: convert_to_llm_def convert_to_llm_incremental_def repair_finished_turn)

end
