(* ===== verification/Agent_Requests.thy ===== *)
theory Agent_Requests
  imports Agent_Cancel Agent_Converters Agent_Runs
begin

text \<open>
  What the provider is sent. With converters that keep their contract (\<open>incremental_converter\<close>) the message cache of the
  loop is invisible: every request is the conversion of the whole context the run has at that point.
\<close>

subsection \<open>Requests in a trace\<close>

fun is_request :: "'f effect \<Rightarrow> bool" where
  "is_request (Fx_Request _ _) = True"
| "is_request _ = False"

text \<open>The request a context stands for, when its messages are transformed with \<open>T\<close> and converted with \<open>conv\<close>.\<close>

definition request_for ::
  "('f agent_message list \<Rightarrow> 'f message list) \<Rightarrow> ('f agent_message list \<Rightarrow> 'f agent_message list) \<Rightarrow> ('f, 'w) agent_context
     \<Rightarrow> 'f llm_context" where
  "request_for conv T ctx =
     \<lparr>lx_system_prompt = (if ac_system_prompt ctx = [] then None else Some (ac_system_prompt ctx)),
      lx_messages = conv (T (ac_messages ctx)), lx_tools = map at_schema (ac_tools ctx)\<rparr>"

text \<open>Every request in \<open>ts\<close> stands for the context at its time.\<close>

definition carries ::
  "('f, 'w) loop_env \<Rightarrow> ('f agent_message list \<Rightarrow> 'f message list) \<Rightarrow> ('f agent_message list \<Rightarrow> 'f agent_message list)
     \<Rightarrow> ('f, 'w) agent_context \<Rightarrow> 'f agent_message list \<Rightarrow> 'f effect \<Rightarrow> bool" where
  "carries E conv T ctx past x \<longleftrightarrow>
     (\<forall>lx opts. x = Fx_Request lx opts \<longrightarrow> (\<exists>now. run_context E ctx past now \<and> lx = request_for conv T now))"

fun requests_carry ::
  "('f, 'w) loop_env \<Rightarrow> ('f agent_message list \<Rightarrow> 'f message list) \<Rightarrow> ('f agent_message list \<Rightarrow> 'f agent_message list)
     \<Rightarrow> ('f, 'w) agent_context \<Rightarrow> 'f agent_message list \<Rightarrow> 'f effect list \<Rightarrow> bool" where
  "requests_carry E conv T ctx past [] \<longleftrightarrow> True"
| "requests_carry E conv T ctx past (x # ts) \<longleftrightarrow>
     carries E conv T ctx past x \<and> requests_carry E conv T ctx (past @ ended_messages [x]) ts"

lemma requests_carry_append [simp]:
  "requests_carry E conv T ctx past (ts @ us) \<longleftrightarrow>
     requests_carry E conv T ctx past ts \<and> requests_carry E conv T ctx (past @ ended_messages ts) us"
proof (induction ts arbitrary: past)
  case (Cons x ts)
  have "past @ ended_messages (x # ts) = (past @ ended_messages [x]) @ ended_messages ts"
    by (simp split: option.split)
  then show ?case using Cons by simp
qed simp

lemma silent_carry: "\<not> list_ex is_request ts \<Longrightarrow> requests_carry E conv T ctx past ts"
  by (induction ts arbitrary: past) (auto simp: carries_def)

definition asked :: "'f effect list \<Rightarrow> ('f, 'w) io_state \<Rightarrow> bool" where
  "asked xs s \<longleftrightarrow> filter is_request (io_trace s) = xs"

lemma asked_world [simp]: "keeps (asked xs) (world_op f) (\<lambda>_. True)"
  by (simp add: keeps_world_op asked_def)

lemma asked_note: "\<not> is_request x \<Longrightarrow> keeps (asked xs) (note_effect x) (\<lambda>_. True)"
  by (simp add: keeps_note asked_def)

lemma asked_deliver: "\<not> is_request x \<Longrightarrow> keeps (asked xs) (deliver E x) (\<lambda>_. True)"
  unfolding deliver_def by (rule keeps_then) (auto intro: asked_note)

lemma asked_now: "keeps (asked xs) (now_ms E) (\<lambda>_. True)"
  unfolding now_ms_def by (rule keeps_then) (auto simp: keeps_def asked_def Let_def)

lemma asked_drain: "keeps (asked xs) (drain_hook h) (\<lambda>_. True)"
  unfolding drain_hook_def by (auto intro!: keeps_return keeps_then asked_note split: option.split)

lemma plain_no_request: "delivered_plain x \<Longrightarrow> \<not> is_request x"
  by (cases x) auto

interpretation silent_calls: calls_invariant E "asked xs" "\<lambda>_. True" for E xs
  by unfold_locales
    (auto simp: asked_deliver plain_no_request asked_now asked_note keeps_hook_def is_cancelled_def)

interpretation silent: turn_invariant E "asked xs" "\<lambda>_. True" for E xs
  by unfold_locales
    (auto simp: asked_deliver keeps_hook_def asked_drain drain_steering_def drain_follow_up_def update_ok_def tools_ok_def
      intro: keeps_mono [OF asked_world])

lemma traces_silent:
  assumes "traces m P" "\<And>xs. keeps (asked xs) m Q"
  shows "traces m (\<lambda>ts x. P ts x \<and> \<not> list_ex is_request ts)"
  unfolding traces_def
proof
  fix s
  obtain ts where ts: "io_trace (snd (run_state m s)) = io_trace s @ ts" "P ts (fst (run_state m s))"
    using assms(1) unfolding traces_def by blast
  have "filter is_request (io_trace s @ ts) = filter is_request (io_trace s)"
    using assms(2) [of "filter is_request (io_trace s)"] ts(1) unfolding keeps_def asked_def by metis
  then have "\<not> list_ex is_request ts" by (auto simp: filter_empty_conv list_ex_iff)
  then show "\<exists>ts. io_trace (snd (run_state m s)) = io_trace s @ ts \<and> P ts (fst (run_state m s)) \<and> \<not> list_ex is_request ts"
    using ts by blast
qed

subsection \<open>A configuration with such converters\<close>

definition cache_enabled :: "('f, 'w) loop_env \<Rightarrow> bool" where
  "cache_enabled E \<longleftrightarrow> lc_transform_context (le_config E) = None \<and> lc_convert_to_llm_incremental (le_config E) \<noteq> None"

text \<open>
  The history is transformed with \<open>T\<close>, if at all, and converted with \<open>conv\<close>, all at once or with \<open>incr\<close> for what is new;
  a response starts at most once, as the contract of the stream has it.
\<close>

definition converts_with ::
  "('f agent_message list \<Rightarrow> 'f message list) \<Rightarrow> ('f agent_message list \<Rightarrow> 'f message list)
     \<Rightarrow> ('f agent_message list \<Rightarrow> 'f agent_message list) \<Rightarrow> ('f, 'w) loop_env \<Rightarrow> bool" where
  "converts_with conv incr T E \<longleftrightarrow>
     (case lc_transform_context (le_config E) of None \<Rightarrow> T = id | Some f \<Rightarrow> \<forall>ms w. fst (f ms w) = T ms)
     \<and> (\<forall>ms w. fst (lc_convert_to_llm (le_config E) ms w) = conv ms)
     \<and> lc_convert_to_llm_incremental (le_config E) \<in> {None, Some incr} \<and> single_start E"

lemma converts_withD:
  assumes "converts_with conv incr T E"
  shows "lc_transform_context (le_config E) = None \<Longrightarrow> T = id"
    "lc_transform_context (le_config E) = Some f \<Longrightarrow> fst (f ms w) = T ms"
    "fst (lc_convert_to_llm (le_config E) ms w) = conv ms"
    "lc_convert_to_llm_incremental (le_config E) \<in> {None, Some incr}" "single_start E"
  using assms by (auto simp: converts_with_def)

lemma traces_converted:
  assumes "converts_with conv incr T E"
  shows "traces (convert_history E ctx) (\<lambda>ts ms. ts = [] \<and> ms = conv (T (ac_messages ctx)))"
  unfolding convert_history_def
proof (rule traces_bind [where Q = "\<lambda>ts ms. ts = [] \<and> ms = T (ac_messages ctx)"])
  show "traces (case lc_transform_context (le_config E) of None \<Rightarrow> State_Monad.return (ac_messages ctx)
      | Some transform \<Rightarrow> world_op (transform (ac_messages ctx))) (\<lambda>ts ms. ts = [] \<and> ms = T (ac_messages ctx))"
    using converts_withD(1,2) [OF assms]
    by (auto split: option.split intro!: traces_return traces_world_op)
qed (auto intro!: traces_world_op simp: converts_withD(3) [OF assms])

lemma taken_enabled:
  "take_messages c ctx (le_config E) = (Some ms, c') \<Longrightarrow> cache_enabled E \<and> lc_transform_context (le_config E) = None"
  by (auto simp: take_messages_def cache_enabled_def split: if_splits option.splits)

abbreviation history :: "('f, 'w) loop_state \<Rightarrow> 'f agent_message list" where
  "history st \<equiv> ac_messages (ls_context st)"

lemma history_recorded [simp]: "history (fold record_message ms st) = history st @ ms"
  by (induction ms arbitrary: st) (simp_all add: record_message_def push_message_def)

lemma cache_recorded [simp]: "ls_cache (fold record_message ms st) = ls_cache st"
  by (induction ms arbitrary: st) (simp_all add: record_message_def)

subsection \<open>The end of a turn\<close>

text \<open>A turn that goes on leaves the history and the cache alone, or replaces the one and empties the other.\<close>

definition undisturbed :: "('f, 'w) loop_state \<Rightarrow> ('f, 'w) loop_state \<Rightarrow> bool" where
  "undisturbed st st' \<longleftrightarrow> \<not> mc_initialized (ls_cache st') \<or> ls_cache st' = ls_cache st \<and> history st' = history st"

lemma undisturbed_update: "undisturbed st st' \<Longrightarrow> undisturbed st (apply_update u st')"
  by (auto simp: undisturbed_def apply_update_def cache_invalidate_def split: option.split)

lemma undisturbed_simps [simp]:
  "undisturbed st st" "undisturbed st (st'\<lparr>ls_pending := ps\<rparr>) = undisturbed st st'"
  by (simp_all add: undisturbed_def)

lemma end_not_on: "keeps (\<lambda>_. True) (end_run E outcome msgs) (\<lambda>t. \<forall>st'. t \<noteq> Run_On st')"
  unfolding end_run_def by (auto intro!: keeps_then [OF keeps_any] keeps_return)

lemma abort_not_on: "keeps (\<lambda>_. True) (abort_run E m st) (\<lambda>t. \<forall>st'. t \<noteq> Run_On st')"
  unfolding abort_run_def Let_def by (intro keeps_then [OF keeps_any] end_not_on)

lemma finish_undisturbed:
  fixes E :: "('f::{plus,zero}, 'w) loop_env"
  shows "keeps (\<lambda>_. True) (finish_turn E m calls results st) (\<lambda>t. \<forall>st'. t = Run_On st' \<longrightarrow> undisturbed st st')"
proof -
  have go: "keeps (\<lambda>_. True) (continue_or_abort E m calls st1) (\<lambda>t. \<forall>st'. t = Run_On st' \<longrightarrow> undisturbed st st')"
    if "undisturbed st st1" for st1
    unfolding continue_or_abort_def
    using that by (auto intro!: keeps_then [OF keeps_any] keeps_return keeps_mono [OF abort_not_on])
  show ?thesis
    unfolding finish_turn_def Let_def
    by (auto intro!: keeps_then [OF keeps_any] go undisturbed_update keeps_mono [OF end_not_on])
qed

text \<open>A response that was answered in full.\<close>

definition turn_kept :: "'f assistant_message \<Rightarrow> ('f, 'w) loop_state \<Rightarrow> ('f, 'w) turn_end \<Rightarrow> bool" where
  "turn_kept m st t \<longleftrightarrow> (\<forall>st'. t = Run_On st' \<longrightarrow> (\<exists>rs. list_all2 answer (tool_calls_of (am_content m)) rs
     \<and> (\<not> mc_initialized (ls_cache st') \<or> ls_cache st' = ls_cache st \<and> history st' = history st @ map AgentMessage_ToolResult rs)))"

lemma complete_kept:
  fixes E :: "('f::{plus,zero}, 'w) loop_env"
  assumes "turn_invariant E (cancelled E) (\<lambda>_. True)"
  shows "keeps (\<lambda>_. True) (complete_turn E m st) (turn_kept m st)"
proof -
  let ?calls = "tool_calls_of (am_content m)"
  have calls: "calls_invariant E (cancelled E) (\<lambda>_. True)" using assms by (rule turn_invariant.axioms)
  note stays = calls_invariant.cancelled_keeps [OF calls]
  have answered: "keeps (\<lambda>_. True) (run_tool_calls E (ls_context st) m ?calls)
      (\<lambda>r. \<forall>b. r = Inr b \<longrightarrow> (\<exists>n \<le> length ?calls. list_all2 answer (take n ?calls) (eb_messages b)))"
    by (rule traces_result [OF traces_run_tool_calls]) (auto simp: batch_ok_def)
  show ?thesis
    unfolding complete_turn_def Let_def
  proof (rule keeps_branch [OF calls_invariant.run_answers [OF calls read_cancelled [OF stays]] answered])
    fix r :: "'f loop_error + 'f executed_batch"
    let ?finish = "case r of Inl e \<Rightarrow> State_Monad.return (Run_Over (Inl e) (ls_new_messages st))
      | Inr b \<Rightarrow> finish_turn E m ?calls (eb_messages b)
          (fold record_message (map AgentMessage_ToolResult (eb_messages b)) (st\<lparr>ls_has_more := \<not> eb_terminate b\<rparr>))"
    assume r: "\<forall>b. r = Inr b \<longrightarrow> (\<exists>n \<le> length ?calls. list_all2 answer (take n ?calls) (eb_messages b))"
    show "keeps (\<lambda>_. True) ?finish (turn_kept m st)" if "calls_invariant.full ?calls r"
    proof (cases r)
      case (Inr b)
      then obtain n where "n \<le> length ?calls" "list_all2 answer (take n ?calls) (eb_messages b)" using r by blast
      moreover have "length (eb_messages b) = length ?calls"
        using that Inr by (simp add: calls_invariant.full_def [OF calls])
      moreover have "length (take n ?calls) = length (eb_messages b)"
        using \<open>list_all2 answer (take n ?calls) (eb_messages b)\<close> by (rule list_all2_lengthD)
      ultimately have "list_all2 answer ?calls (eb_messages b)" by simp
      then show ?thesis
        unfolding Inr sum.case
        by (intro keeps_mono [OF finish_undisturbed]) (auto simp: turn_kept_def undisturbed_def)
    qed (simp add: keeps_return turn_kept_def)
    show "keeps (cancelled E) ?finish (turn_kept m st)" if "\<not> calls_invariant.full ?calls r"
    proof (cases r)
      case (Inr b)
      then have "length (eb_messages b) \<noteq> length ?calls"
        using that by (simp add: calls_invariant.full_def [OF calls])
      then have "?calls \<noteq> []" using r Inr by auto
      from turn_invariant.cancelled_turn_ends [OF assms sees_cancelled [OF stays] TrueI this]
      show ?thesis unfolding Inr sum.case by (rule keeps_mono) (simp add: turn_kept_def)
    qed (simp add: keeps_return turn_kept_def)
  qed simp
qed

subsection \<open>A turn\<close>

context incremental_converter
begin

text \<open>The cache of a turn that begins.\<close>

definition ready :: "('f, 'w) loop_env \<Rightarrow> ('f, 'w) loop_state \<Rightarrow> bool" where
  "ready E st \<longleftrightarrow> (cache_enabled E \<longrightarrow> covers (ls_cache st) (history st))"

lemma traces_request:
  fixes E :: "('f, 'w) loop_env"
  assumes "converts_with conv incr T E" "cache_enabled E \<longrightarrow> covers cache (ac_messages ctx)"
  shows "traces (stream_assistant_response E ctx cache) (\<lambda>ts x.
    (\<exists>opts us. ts = Fx_Request (request_for conv T ctx) opts # us \<and> \<not> list_ex is_request us)
    \<and> (cache_enabled E \<longrightarrow> holds (snd x) (ac_messages ctx)))"
proof -
  obtain cached cache' where take: "take_messages cache ctx (le_config E) = (cached, cache')" by fastforce
  have history: "traces (case cached of Some ms \<Rightarrow> State_Monad.return ms | None \<Rightarrow> convert_history E ctx)
      (\<lambda>ts ms. ts = [] \<and> ms = conv (T (ac_messages ctx)))"
  proof (cases cached)
    case (Some ms)
    then have "cache_enabled E" "T = id" using taken_enabled [OF take [unfolded Some]] converts_withD(1) [OF assms(1)] by simp_all
    then show ?thesis
      using taken_messages [of cache ctx "le_config E" ms cache'] take assms(2) converts_withD(4) [OF assms(1)] Some
      by (simp add: traces_return)
  qed (simp add: traces_converted [OF assms(1)])
  have T: "cache_enabled E \<Longrightarrow> T = id" using converts_withD(1) [OF assms(1)] by (simp add: cache_enabled_def)
  have opened: "traces (open_stream E lx opts) (\<lambda>ts _. ts = [Fx_Request lx opts])" for lx opts
    unfolding open_stream_def by (rule traces_bind [OF traces_note [where P = "\<lambda>ts _. ts = [Fx_Request lx opts]"]])
      (auto intro!: traces_world_op)
  have events: "traces (fold_events E result False evs ctx) (\<lambda>ts _. True \<and> \<not> list_ex is_request ts)" for result evs
    by (rule traces_silent [OF traces_mono [OF traces_fold_events] silent_calls.events_keep]) simp
  show ?thesis
    unfolding stream_assistant_response_def take Let_def prod.case cache_enabled_def [symmetric]
    by (rule traces_bind [OF history], rule traces_bind [OF traces_api_key [where P = "\<lambda>ts _. ts = []"]], rule refl,
        rule traces_bind [OF opened], rule traces_bind [OF events], rule traces_return)
      (use holds_restored T in \<open>auto simp: request_for_def\<close>)
qed

lemma traces_response_request:
  fixes E :: "('f, 'w) loop_env"
  assumes "converts_with conv incr T E" "ready E st" "fits E (ctx, None) st"
  shows "traces (next_response E st) (\<lambda>ts x. requests_carry E conv T ctx (ls_new_messages st) ts
    \<and> (cache_enabled E \<longrightarrow> holds (ls_cache (snd x)) (history st)))"
proof -
  have none: "ls_pending_assistant st = None" and now: "run_context E ctx (ls_new_messages st) (ls_context st)"
    using assms(3) by (auto simp: fits_def)
  have carried: "carries E conv T ctx (ls_new_messages st) (Fx_Request (request_for conv T (ls_context st)) opts)" for opts
    using now by (auto simp: carries_def)
  show ?thesis
    unfolding next_response_def none option.case
    by (rule traces_bind [OF traces_request [OF assms(1) assms(2) [unfolded ready_def]]])
      (auto simp: Let_def carried silent_carry split: prod.split sum.split intro!: traces_return)
qed

text \<open>What a turn does, and that the next one may begin.\<close>

definition served ::
  "('f, 'w) loop_env \<Rightarrow> ('f agent_message list \<Rightarrow> 'f agent_message list) \<Rightarrow> ('f, 'w) agent_context
     \<Rightarrow> 'f agent_message list \<Rightarrow> 'f effect list \<Rightarrow> ('f, 'w) turn_end \<Rightarrow> bool" where
  "served E T ctx past ts t \<longleftrightarrow> requests_carry E conv T ctx past ts \<and> (\<forall>st'. t = Run_On st' \<longrightarrow> ready E st')"

lemma served_append: "requests_carry E conv T ctx past ts \<Longrightarrow> \<not> list_ex is_request us \<Longrightarrow>
    (\<forall>st'. t = Run_On st' \<longrightarrow> ready E st') \<Longrightarrow> served E T ctx past (ts @ us) t"
  by (simp add: served_def silent_carry)

lemma inject_ready:
  assumes "ready E st"
  shows "keeps (\<lambda>_. True) (inject_pending E st) (ready E)"
  using assms unfolding inject_pending_def
  by (auto simp: ready_def intro!: keeps_return keeps_then [OF keeps_any])

lemma complete_ready:
  fixes E :: "('f, 'w) loop_env"
  assumes "turn_invariant E (cancelled E) (\<lambda>_. True)" "cache_enabled E \<longrightarrow> holds (ls_cache st) h"
    and "history st = h @ [AgentMessage_Assistant m]"
  shows "keeps (\<lambda>_. True) (complete_turn E m st) (\<lambda>t. \<forall>st'. t = Run_On st' \<longrightarrow> ready E st')"
proof (rule keeps_mono [OF complete_kept [OF assms(1)]])
  fix t :: "('f, 'w) turn_end" assume t: "turn_kept m st t"
  have "covers (ls_cache st') (history st')" if st': "t = Run_On st'" "cache_enabled E" for st'
  proof -
    obtain rs where rs: "list_all2 answer (tool_calls_of (am_content m)) rs"
      "\<not> mc_initialized (ls_cache st') \<or> ls_cache st' = ls_cache st \<and> history st' = history st @ map AgentMessage_ToolResult rs"
      using t st'(1) unfolding turn_kept_def by blast
    have "finished_turn (AgentMessage_Assistant m # map AgentMessage_ToolResult rs)"
      using rs(1) by (auto simp: finished_turn_def)
    then have "covers (ls_cache st) (history st @ map AgentMessage_ToolResult rs)"
      using covers_turn [of "ls_cache st" h] assms(2,3) st'(2) by simp
    moreover have "covers (ls_cache st') (history st')" if "\<not> mc_initialized (ls_cache st')"
      using that by (simp add: covers_def)
    ultimately show ?thesis using rs(2) by auto
  qed
  then show "\<forall>st'. t = Run_On st' \<longrightarrow> ready E st'" by (simp add: ready_def)
qed

lemma traces_served_complete:
  fixes E :: "('f, 'w) loop_env"
  assumes "turn_invariant E (cancelled E) (\<lambda>_. True)" "cache_enabled E \<longrightarrow> holds (ls_cache st) h"
    and "fits E o1 st" "answering E o1 (ls_new_messages st) m (ls_context st)" "history st = h @ [AgentMessage_Assistant m]"
  shows "traces (complete_turn E m st) (\<lambda>us t. \<not> list_ex is_request us \<and> (\<forall>st'. t = Run_On st' \<longrightarrow> ready E st'))"
proof (rule traces_mono [OF traces_silent [OF traces_with [OF traces_complete_turn [OF assms(3,4)] complete_ready [OF assms(1,2,5)]]]])
  show "keeps (asked xs) (complete_turn E m st) (\<lambda>t. True)" for xs
    by (rule keeps_weaken [OF silent.complete_keeps]) (simp add: tools_ok_def)
qed blast

lemma traces_failed_turn:
  "traces (State_Monad.bind (emit_turn_end E m []) (\<lambda>_. end_run E outcome msgs))
     (\<lambda>us t. \<not> list_ex is_request us \<and> (\<forall>st'. t = Run_On st' \<longrightarrow> ready E st'))"
proof (rule traces_mono [OF traces_silent [OF traces_with]])
  show "traces (State_Monad.bind (emit_turn_end E m []) (\<lambda>_. end_run E outcome msgs)) (\<lambda>_ _. True)"
    by (rule traces_bind [OF traces_turn_end], rule traces_mono [OF traces_end_run]) simp
  show "keeps (\<lambda>_. True) (State_Monad.bind (emit_turn_end E m []) (\<lambda>_. end_run E outcome msgs)) (\<lambda>t. \<forall>st'. t \<noteq> Run_On st')"
    by (intro keeps_then [OF keeps_any] end_not_on)
  show "keeps (asked xs) (State_Monad.bind (emit_turn_end E m []) (\<lambda>_. end_run E outcome msgs)) (\<lambda>_. True)" for xs
    by (intro keeps_then silent.turn_end_keeps keeps_weaken [OF silent.end_keeps])
qed simp

lemma next_history:
  fixes E :: "('f, 'w) loop_env"
  assumes "single_start E" "ls_pending_assistant st = None"
  shows "keeps (\<lambda>_. True) (next_response E st)
    (\<lambda>x. \<forall>m. fst x = Inr m \<longrightarrow> history (snd x) = history st @ [AgentMessage_Assistant m])"
  unfolding next_response_def assms(2) option.case
  by (rule keeps_bind [OF traces_result [OF traces_stream, where Q = "\<lambda>x. \<forall>m. fst (fst x) = Inr m \<longrightarrow>
        ac_messages (snd (fst x)) = history st @ [AgentMessage_Assistant m]"]])
    (use assms(1) in \<open>auto simp: Let_def split: sum.splits intro!: keeps_return\<close>)

lemma traces_served_turn:
  fixes E :: "('f, 'w) loop_env"
  assumes "turn_invariant E (cancelled E) (\<lambda>_. True)" "converts_with conv incr T E" "ready E st" "fits E (ctx, None) st"
  shows "traces (loop_turn E st) (served E T ctx (ls_new_messages st))"
proof -
  let ?st = "st\<lparr>ls_first_turn := False\<rparr>"
  have start: "traces (if ls_first_turn st then State_Monad.return () else emit_event E Turn_Start)
      (\<lambda>ts _. ended_messages ts = [] \<and> \<not> list_ex is_request ts)"
    by (auto intro!: traces_return traces_emit)
  have inject: "traces (inject_pending E ?st) (\<lambda>ts st'. ((fits E (ctx, None) st'
      \<and> (\<exists>ms. ls_new_messages st' = ls_new_messages ?st @ ms \<and> summary ms [] [] ts)) \<and> ready E st') \<and> \<not> list_ex is_request ts)"
  proof (intro traces_silent traces_with traces_inject_pending inject_ready)
    show "keeps (asked xs) (inject_pending E ?st) (\<lambda>_. True)" for xs
      by (rule keeps_weaken [OF silent.pending_keeps]) (simp add: tools_ok_def)
  qed (use assms(3,4) in \<open>simp_all add: ready_def\<close>)
  have respond: "traces (State_Monad.bind (next_response E st1) (\<lambda>x. case x of (r, st) \<Rightarrow> (case r of
          Inl e \<Rightarrow> State_Monad.return (Run_Over (Inl (Loop_Error e)) (ls_new_messages st))
        | Inr m \<Rightarrow> if am_stop_reason m = StopReason_Error \<or> am_stop_reason m = StopReason_Aborted
            then State_Monad.bind (emit_turn_end E m []) (\<lambda>_. end_run E (outcome_from_stop (am_stop_reason m)) (ls_new_messages st))
            else complete_turn E m st)))
      (served E T ctx (ls_new_messages st1))" if st1: "ready E st1" "fits E (ctx, None) st1" for st1
  proof -
    have none: "ls_pending_assistant st1 = None" using st1(2) by (auto simp: fits_def)
    note facts = traces_conj [OF traces_next_response [OF st1(2)]
        traces_with [OF traces_response_request [OF assms(2) st1] next_history [OF converts_withD(5) [OF assms(2)] none]]]
    show ?thesis
    proof (rule traces_bind [OF facts], elim conjE)
      fix ts :: "'f effect list" and x :: "('f agent_error + 'f assistant_message) \<times> ('f, 'w) loop_state"
      obtain r st2 where x': "x = (r, st2)" by (cases x)
      assume x: "case fst x of Inl _ \<Rightarrow> quiet ts
          | Inr m \<Rightarrow> fits E (ctx, None) (snd x) \<and> answering E (ctx, None) (ls_new_messages (snd x)) m (ls_context (snd x))
              \<and> (\<exists>ms. ls_new_messages (snd x) = ls_new_messages st1 @ ms \<and> summary ms [] [] ts)"
        "requests_carry E conv T ctx (ls_new_messages st1) ts" "cache_enabled E \<longrightarrow> holds (ls_cache (snd x)) (history st1)"
        "\<forall>m. fst x = Inr m \<longrightarrow> history (snd x) = history st1 @ [AgentMessage_Assistant m]"
      show "traces (case x of (r, st) \<Rightarrow> (case r of
          Inl e \<Rightarrow> State_Monad.return (Run_Over (Inl (Loop_Error e)) (ls_new_messages st))
        | Inr m \<Rightarrow> if am_stop_reason m = StopReason_Error \<or> am_stop_reason m = StopReason_Aborted
            then State_Monad.bind (emit_turn_end E m []) (\<lambda>_. end_run E (outcome_from_stop (am_stop_reason m)) (ls_new_messages st))
            else complete_turn E m st)) (\<lambda>us t. served E T ctx (ls_new_messages st1) (ts @ us) t)"
      proof (cases r)
        case (Inl e)
        then show ?thesis using x(2) x' by (auto intro!: traces_return simp: served_def)
      next
        case (Inr m)
        have "traces (complete_turn E m st2) (\<lambda>us t. \<not> list_ex is_request us \<and> (\<forall>st'. t = Run_On st' \<longrightarrow> ready E st'))"
          by (rule traces_served_complete [OF assms(1), where h = "history st1" and ?o1.0 = "(ctx, None)"])
            (use x x' Inr in simp_all)
        then show ?thesis
          unfolding x' Inr prod.case sum.case
          by (auto intro!: traces_mono [OF traces_failed_turn] elim!: traces_mono intro: served_append [OF x(2)])
      qed
    qed
  qed
  show ?thesis
    unfolding loop_turn_def
  proof (rule traces_bind [OF start], rule traces_bind [OF inject], elim conjE exE, rule traces_mono [OF respond], assumption, assumption)
    fix ts us vs :: "'f effect list" and st' ms t
    assume "ended_messages ts = []" "\<not> list_ex is_request ts" "\<not> list_ex is_request us" "summary ms [] [] us"
      "ls_new_messages st' = ls_new_messages ?st @ ms" "served E T ctx (ls_new_messages st') vs t"
    then show "served E T ctx (ls_new_messages st) (ts @ us @ vs) t"
      by (auto simp: served_def silent_carry summary_def)
  qed
qed

subsection \<open>The run\<close>

lemma traces_served_rounds:
  fixes E :: "('f, 'w) loop_env"
  assumes "turn_invariant E (cancelled E) (\<lambda>_. True)" "converts_with conv incr T E" "ready E st" "fits E (ctx, None) st"
  shows "traces (run_rounds E fuel st) (\<lambda>ts _. requests_carry E conv T ctx (ls_new_messages st) ts)"
  using assms(3,4)
proof (induction fuel arbitrary: st)
  case (Suc fuel)
  have turn: "traces (State_Monad.bind (loop_turn E st) (\<lambda>t. case t of
      Run_Over r msgs \<Rightarrow> State_Monad.return (Some (r, msgs)) | Run_On st \<Rightarrow> run_rounds E fuel st))
      (\<lambda>ts _. requests_carry E conv T ctx (ls_new_messages st) ts)"
  proof (rule traces_bind [OF traces_conj [OF traces_loop_turn [OF Suc.prems(2)] traces_served_turn [OF assms(1,2) Suc.prems]]])
    fix ts :: "'f effect list" and t
    assume t: "turn_ok E (ctx, None) (ls_new_messages st) ts t \<and> served E T ctx (ls_new_messages st) ts t"
    show "traces (case t of Run_Over r msgs \<Rightarrow> State_Monad.return (Some (r, msgs)) | Run_On st \<Rightarrow> run_rounds E fuel st)
        (\<lambda>us _. requests_carry E conv T ctx (ls_new_messages st) (ts @ us))"
    proof (cases t)
      case (Run_On st')
      then have "ready E st'" "fits E (ctx, None) st'" "ls_new_messages st' = ls_new_messages st @ ended_messages ts"
        "requests_carry E conv T ctx (ls_new_messages st) ts"
        using t by (auto simp: turn_ok_def served_def reports_def)
      then show ?thesis using Run_On Suc.IH [of st'] by simp
    qed (use t in \<open>auto simp: served_def intro: traces_return\<close>)
  qed
  have drained: "traces (drain_follow_up E) (\<lambda>ts _. ended_messages ts = [] \<and> \<not> list_ex is_request ts)"
    by (rule traces_drains) simp_all
  have over: "traces (State_Monad.bind (emit_event E (Agent_End msgs)) (\<lambda>_. State_Monad.return x))
      (\<lambda>us _. requests_carry E conv T ctx past us)" for msgs past and x :: "(('f loop_error + loop_outcome) \<times> 'f agent_message list) option"
    by (rule traces_bind [OF traces_emit(1) [where P = "\<lambda>ts _. ts = [Fx_Emit (Agent_End msgs)]"]])
      (auto intro!: traces_return simp: carries_def)
  have "traces (State_Monad.bind (drain_follow_up E) (\<lambda>follow_ups.
        if follow_ups \<noteq> [] then run_rounds E fuel (st\<lparr>ls_pending := follow_ups, ls_has_more := True\<rparr>)
        else State_Monad.bind (emit_event E (Agent_End (ls_new_messages st)))
          (\<lambda>_. State_Monad.return (Some (Inr Outcome_Completed, ls_new_messages st)))))
      (\<lambda>ts _. requests_carry E conv T ctx (ls_new_messages st) ts)"
    by (rule traces_bind [OF drained])
      (use Suc.IH [of "st\<lparr>ls_pending := _, ls_has_more := True\<rparr>"] Suc.prems over in \<open>auto simp: silent_carry ready_def\<close>)
  then show ?case using turn by simp
qed (simp add: traces_return)

lemma traces_served_run:
  fixes E :: "('f, 'w) loop_env"
  assumes "turn_invariant E (cancelled E) (\<lambda>_. True)" "converts_with conv incr T E"
  shows "traces (run_agent_loop E fuel prompts ctx) (\<lambda>ts _. requests_carry E conv T ctx [] ts)"
proof -
  let ?ctx = "ctx\<lparr>ac_messages := ac_messages ctx @ prompts\<rparr>"
  have begin': "traces (begin_run E) (\<lambda>ts _. quiet ts \<and> \<not> list_ex is_request ts)"
    by (rule traces_silent [OF traces_begin_run silent.begin_keeps])
  have prompts: "traces (for_each (emit_message E) prompts) (\<lambda>ts _. summary prompts [] [] ts \<and> \<not> list_ex is_request ts)"
    by (rule traces_silent [OF traces_prompts keeps_for_each [OF silent_calls.message_keeps]])
  have drained: "traces (drain_steering E) (\<lambda>ts _. ended_messages ts = [] \<and> \<not> list_ex is_request ts)"
    by (rule traces_drains) simp_all
  have "run_context E ctx prompts ?ctx"
    using run_context_pushes [OF run_context_start, of E ctx prompts] by simp
  then have loop: "traces (run_loop E fuel ?ctx prompts None) (\<lambda>ts _. requests_carry E conv T ctx prompts ts)"
    unfolding run_loop_def
    by (intro traces_bind [OF drained] traces_mono [OF traces_served_rounds [OF assms]])
      (auto simp: silent_carry ready_def fits_def)
  show ?thesis
    unfolding run_agent_loop_def
    by (rule traces_bind [OF begin'], rule traces_bind [OF prompts], rule traces_bind [OF loop], rule traces_return)
      (auto simp: summary_def silent_carry)
qed

end

subsection \<open>The property\<close>


lemma demo_converts: "converts_with default_convert_to_llm default_convert_to_llm_incremental id demo_env"
  by (auto simp: converts_with_def demo_env_def demo_config_def single_start_def)

lemma demo_stays: "turn_invariant demo_env (cancelled demo_env) (\<lambda>_. True)"
proof -
  have "cancelled demo_env = (\<lambda>_. False)" by (auto simp: cancelled_def demo_env_def demo_config_def)
  then show ?thesis
    by unfold_locales (simp_all add: keeps_def keeps_hook_def)
qed

text \<open>No hook of the demonstration replaces the context.\<close>

lemma demo_context_of: "run_context demo_env demo_context past now \<Longrightarrow>
    single_start demo_env \<Longrightarrow> ac_messages now = past \<and> ac_system_prompt now = ac_system_prompt demo_context"
  by (auto simp: run_context_def given_by_hook_def grown_def demo_env_def demo_config_def demo_context_def)


end
