(* ===== verification/Json_Repair.thy ===== *)
theory Json_Repair
  imports Json Rust_Text
begin

text \<open>
  The repair of malformed or truncated JSON (\<open>crates/evo-ai/src/json_parse.rs\<close>), used to read the
  arguments of a tool call while they stream. The strict parser of \<open>serde_json\<close> is the parameter
  \<open>strict\<close>.
\<close>

subsection \<open>String literals\<close>

abbreviation (input) dquote :: char where "dquote \<equiv> CHR 0x22"
abbreviation (input) backslash :: char where "backslash \<equiv> CHR 0x5C"

definition valid_json_escapes :: string where
  "valid_json_escapes = [dquote, backslash, CHR ''/'', CHR ''b'', CHR ''f'', CHR ''n'', CHR ''r'', CHR ''t'', CHR ''u'']"

definition is_control_character :: "char \<Rightarrow> bool" where
  "is_control_character c \<longleftrightarrow> (of_char c :: nat) \<le> 0x1f"

definition is_ascii_hexdigit :: "char \<Rightarrow> bool" where
  "is_ascii_hexdigit c \<longleftrightarrow> c \<in> set ''0123456789abcdefABCDEF''"

definition lower_hex_digit :: "nat \<Rightarrow> char" where
  "lower_hex_digit n = ''0123456789abcdef'' ! n"

text \<open>\<open>escape_control_character\<close>; the padded hexadecimal form is that of a code below 32.\<close>

definition escape_control_character :: "char \<Rightarrow> string" where
  "escape_control_character c =
     (let n = (of_char c :: nat) in
      if n = 8 then [backslash, CHR ''b''] else if n = 12 then [backslash, CHR ''f'']
      else if n = 10 then [backslash, CHR ''n''] else if n = 13 then [backslash, CHR ''r'']
      else if n = 9 then [backslash, CHR ''t'']
      else [backslash, CHR ''u'', CHR ''0'', CHR ''0'', lower_hex_digit (n div 16), lower_hex_digit (n mod 16)])"

text \<open>The loop of \<open>repair_json\<close>; the flag tells whether it is inside a string.\<close>

fun repair_from :: "bool \<Rightarrow> string \<Rightarrow> string" where
  "repair_from in_string [] = []"
| "repair_from False (c # cs) = c # repair_from (c = dquote) cs"
| "repair_from True (c # cs) =
     (if c = dquote then c # repair_from False cs
      else if c = backslash then
        (case cs of
           [] \<Rightarrow> backslash # backslash # repair_from True cs
         | n # ns \<Rightarrow>
             if n = CHR ''u'' then
               let unicode_digits = take 4 ns in
               if utf8_len unicode_digits = 4 \<and> list_all is_ascii_hexdigit unicode_digits
               then backslash # CHR ''u'' # unicode_digits @ repair_from True (drop 4 ns)
               else backslash # backslash # repair_from True cs
             else if n \<in> set valid_json_escapes then backslash # n # repair_from True ns
             else backslash # backslash # repair_from True cs)
      else (if is_control_character c then escape_control_character c else [c]) @ repair_from True cs)"

definition repair_json :: "string \<Rightarrow> string" where
  "repair_json s = repair_from False s"

subsection \<open>Truncated documents\<close>

record scan =
  sc_stack :: string
  sc_in_string :: bool
  sc_escape :: bool
  sc_last_nonspace :: "char option"

definition scan_start :: scan where
  "scan_start = \<lparr>sc_stack = [], sc_in_string = False, sc_escape = False, sc_last_nonspace = None\<rparr>"

text \<open>One character of the loop of \<open>close_truncated_json\<close>; the stack grows at its head.\<close>

definition scan_char :: "char \<Rightarrow> scan \<Rightarrow> scan" where
  "scan_char c sc =
     (if sc_in_string sc then
        if sc_escape sc then sc\<lparr>sc_escape := False\<rparr>
        else if c = backslash then sc\<lparr>sc_escape := True\<rparr>
        else if c = dquote then sc\<lparr>sc_in_string := False, sc_last_nonspace := Some dquote\<rparr>
        else sc
      else if c = dquote then sc\<lparr>sc_in_string := True, sc_last_nonspace := Some dquote\<rparr>
      else if c = CHR ''{'' \<or> c = CHR ''['' then sc\<lparr>sc_stack := c # sc_stack sc, sc_last_nonspace := Some c\<rparr>
      else if c = CHR ''}'' \<or> c = CHR '']'' then sc\<lparr>sc_stack := tl (sc_stack sc), sc_last_nonspace := Some c\<rparr>
      else if \<not> is_whitespace c then sc\<lparr>sc_last_nonspace := Some c\<rparr>
      else sc)"

text \<open>\<open>out.remove(pos)\<close> at \<open>out.rfind(c)\<close>, if there is one.\<close>

definition remove_last :: "char \<Rightarrow> string \<Rightarrow> string" where
  "remove_last c s =
     (case rposition ((=) c) s of None \<Rightarrow> s | Some k \<Rightarrow> take k s @ drop (Suc k) s)"

definition closing :: "char \<Rightarrow> char" where
  "closing c = (if c = CHR ''{'' then CHR ''}'' else if c = CHR ''['' then CHR '']'' else c)"

definition close_truncated_json :: "string \<Rightarrow> string" where
  "close_truncated_json s =
     (let sc = fold scan_char s scan_start;
          out = (if sc_in_string sc then s @ [dquote] else s);
          out = (if sc_last_nonspace sc = Some CHR '','' then remove_last CHR '','' out else out)
      in out @ map closing (sc_stack sc))"

subsection \<open>The parsers\<close>

type_synonym 'f strict_parser = "string \<Rightarrow> 'f json option"

definition parse_json_with_repair :: "'f strict_parser \<Rightarrow> string \<Rightarrow> 'f json option" where
  "parse_json_with_repair strict json =
     (case strict json of
        Some v \<Rightarrow> Some v
      | None \<Rightarrow> (let repaired = repair_json json in if repaired = json then strict json else strict repaired))"

definition parse_incremental :: "'f strict_parser \<Rightarrow> string \<Rightarrow> 'f json option" where
  "parse_incremental strict s = strict (close_truncated_json s)"

definition empty_object :: "'f json" where "empty_object = JObject fmempty"

text \<open>The third layer of the code parses and drops its result; it has no effect.\<close>

definition parse_streaming_json :: "'f strict_parser \<Rightarrow> string option \<Rightarrow> 'f json" where
  "parse_streaming_json strict json =
     (case json of
        None \<Rightarrow> empty_object
      | Some s \<Rightarrow>
          (let trimmed = trim s in
           if trimmed = [] then empty_object
           else case parse_json_with_repair strict trimmed of
             Some v \<Rightarrow> v
           | None \<Rightarrow>
               (case parse_incremental strict trimmed of
                  Some v \<Rightarrow> v
                | None \<Rightarrow>
                    (case parse_incremental strict (repair_json trimmed) of
                       Some v \<Rightarrow> v
                     | None \<Rightarrow> empty_object))))"

subsection \<open>Repaired literals\<close>

text \<open>
  The lexical rule of RFC 8259, read independently of the repair: inside a string no character is a
  control character, and each backslash opens one of the nine escapes. A string may be cut off, but
  not within an escape.
\<close>

fun escapes_ok :: "bool \<Rightarrow> string \<Rightarrow> bool" where
  "escapes_ok in_string [] \<longleftrightarrow> True"
| "escapes_ok False (c # cs) \<longleftrightarrow> escapes_ok (c = dquote) cs"
| "escapes_ok True (c # cs) \<longleftrightarrow>
     (if c = dquote then escapes_ok False cs
      else if c = backslash then
        (case cs of
           [] \<Rightarrow> False
         | n # ns \<Rightarrow>
             if n = CHR ''u'' then
               length (take 4 ns) = 4 \<and> list_all is_ascii_hexdigit (take 4 ns) \<and> escapes_ok True (drop 4 ns)
             else n \<in> set valid_json_escapes \<and> escapes_ok True ns)
      else \<not> is_control_character c \<and> escapes_ok True cs)"

lemma hexdigit_ascii: "is_ascii_hexdigit c \<Longrightarrow> (of_char c :: nat) < 128"
  by (auto simp: is_ascii_hexdigit_def)

lemma utf8_len_hex: "list_all is_ascii_hexdigit s \<Longrightarrow> utf8_len s = length s"
  by (induction s) (auto simp: utf8_len_def hexdigit_ascii)

lemma hexdigit_plain: "is_ascii_hexdigit c \<Longrightarrow> c \<noteq> dquote \<and> c \<noteq> backslash \<and> \<not> is_control_character c"
  by (auto simp: is_ascii_hexdigit_def is_control_character_def)

lemma escapes_ok_unicode:
  "length ds = 4 \<Longrightarrow> list_all is_ascii_hexdigit ds \<Longrightarrow>
     escapes_ok True (backslash # CHR ''u'' # ds @ cs) \<longleftrightarrow> escapes_ok True cs"
  by simp

lemma lower_hex_digit: "n < 16 \<Longrightarrow> is_ascii_hexdigit (lower_hex_digit n)"
proof -
  assume "n < 16"
  then have "''0123456789abcdef'' ! n \<in> set ''0123456789abcdef''" by (intro nth_mem) simp
  then show ?thesis unfolding is_ascii_hexdigit_def lower_hex_digit_def by simp blast
qed

lemma escapes_ok_control:
  assumes "is_control_character c"
  shows "escapes_ok True (escape_control_character c @ cs) \<longleftrightarrow> escapes_ok True cs"
proof -
  have n: "(of_char c :: nat) \<le> 31" using assms by (simp add: is_control_character_def)
  then have "(of_char c :: nat) div 16 < 16" "(of_char c :: nat) mod 16 < 16" by auto
  moreover have "is_ascii_hexdigit CHR ''0''" by (simp add: is_ascii_hexdigit_def)
  ultimately show ?thesis
    by (auto simp: escape_control_character_def Let_def valid_json_escapes_def lower_hex_digit)
qed

text \<open>Both functions read one character, or one escape; these equations say how.\<close>

lemma literal_steps:
  "repair_from True (dquote # cs) = dquote # repair_from False cs"
  "escapes_ok True (dquote # cs) = escapes_ok False cs"
  "repair_from True [backslash] = [backslash, backslash]"
  "escapes_ok True [backslash] = False"
  "c \<noteq> dquote \<Longrightarrow> c \<noteq> backslash \<Longrightarrow>
     repair_from True (c # cs) = (if is_control_character c then escape_control_character c else [c]) @ repair_from True cs"
  "c \<noteq> dquote \<Longrightarrow> c \<noteq> backslash \<Longrightarrow>
     escapes_ok True (c # cs) \<longleftrightarrow> \<not> is_control_character c \<and> escapes_ok True cs"
  by simp_all

lemma escape_steps:
  "repair_from True (backslash # CHR ''u'' # ns) =
     (if utf8_len (take 4 ns) = 4 \<and> list_all is_ascii_hexdigit (take 4 ns)
      then backslash # CHR ''u'' # take 4 ns @ repair_from True (drop 4 ns)
      else backslash # backslash # repair_from True (CHR ''u'' # ns))"
  "escapes_ok True (backslash # CHR ''u'' # ns) \<longleftrightarrow>
     length (take 4 ns) = 4 \<and> list_all is_ascii_hexdigit (take 4 ns) \<and> escapes_ok True (drop 4 ns)"
  "n \<noteq> CHR ''u'' \<Longrightarrow> repair_from True (backslash # n # ns) =
     (if n \<in> set valid_json_escapes then backslash # n # repair_from True ns
      else backslash # backslash # repair_from True (n # ns))"
  "n \<noteq> CHR ''u'' \<Longrightarrow> escapes_ok True (backslash # n # ns) \<longleftrightarrow>
     n \<in> set valid_json_escapes \<and> escapes_ok True ns"
  by (simp_all add: Let_def del: repair_from.simps(3) escapes_ok.simps(3) add: repair_from.simps(3) [of backslash]
      escapes_ok.simps(3) [of backslash])

lemma backslash_escape: "backslash \<in> set valid_json_escapes" by (simp add: valid_json_escapes_def)

lemmas literal_simps = literal_steps escape_steps backslash_escape utf8_len_hex escapes_ok_control

text \<open>What stands at the head of a string: its end, a plain character, or an escape.\<close>

lemma literal_cases:
  obtains "s = []" | cs where "s = dquote # cs"
    | c cs where "s = c # cs" "c \<noteq> dquote" "c \<noteq> backslash"
    | "s = [backslash]" | ns where "s = backslash # CHR ''u'' # ns"
    | n ns where "s = backslash # n # ns" "n \<noteq> CHR ''u''"
  by (metis list.exhaust)

lemma repair_from_ok: "escapes_ok b (repair_from b s)"
proof (induction s arbitrary: b rule: length_induct)
  case (1 s)
  then have IH: "\<And>b t. length t < length s \<Longrightarrow> escapes_ok b (repair_from b t)" by blast
  show ?case
  proof (cases b)
    case True
    from literal_cases [of s] show ?thesis
      by cases (use IH True in \<open>auto simp: literal_simps simp del: repair_from.simps(3) escapes_ok.simps(3)\<close>)
  next
    case False
    then show ?thesis using IH by (cases s) auto
  qed
qed

lemma repair_from_id: "escapes_ok b s \<Longrightarrow> repair_from b s = s"
proof (induction s arbitrary: b rule: length_induct)
  case (1 s)
  then have IH: "\<And>b t. length t < length s \<Longrightarrow> escapes_ok b t \<Longrightarrow> repair_from b t = t" by blast
  show ?case
  proof (cases b)
    case True
    from literal_cases [of s] show ?thesis
      by cases (use IH "1.prems" True in \<open>auto simp: literal_simps simp del: repair_from.simps(3) escapes_ok.simps(3)\<close>)
  next
    case False
    then show ?thesis using IH "1.prems" by (cases s) auto
  qed
qed

text \<open>
  The repair yields text whose string literals are lexically valid, changes nothing in text that
  already is, and so repairs at once all it will ever repair.
\<close>

theorem repair_json_normalizes:
  "escapes_ok False (repair_json s)
     \<and> (escapes_ok False s \<longrightarrow> repair_json s = s)
     \<and> repair_json (repair_json s) = repair_json s"
  by (simp add: repair_json_def repair_from_ok repair_from_id)

theorem repair_json_normalizes_witness:
  "repair_json [dquote, CHR ''a'', dquote] = [dquote, CHR ''a'', dquote]
     \<and> repair_json [dquote, CHR 0x0A, backslash, CHR ''q''] = [dquote, backslash, CHR ''n'', backslash, backslash, CHR ''q'']"
proof -
  have "escapes_ok False [dquote, CHR ''a'', dquote]" by (simp add: is_control_character_def)
  with repair_json_normalizes [of "[dquote, CHR ''a'', dquote]"]
  have "repair_json [dquote, CHR ''a'', dquote] = [dquote, CHR ''a'', dquote]" by blast
  moreover have "repair_json [dquote, CHR 0x0A, backslash, CHR ''q'']
      = [dquote, backslash, CHR ''n'', backslash, backslash, CHR ''q'']"
    by (simp add: repair_json_def is_control_character_def escape_control_character_def valid_json_escapes_def)
  ultimately show ?thesis ..
qed

subsection \<open>Closed documents\<close>

abbreviation scanned :: "string \<Rightarrow> scan" where
  "scanned s \<equiv> fold scan_char s scan_start"

definition scan_inv :: "scan \<Rightarrow> bool" where
  "scan_inv sc \<longleftrightarrow> set (sc_stack sc) \<subseteq> {CHR ''{'', CHR ''[''}
     \<and> (sc_escape sc \<longrightarrow> sc_in_string sc) \<and> (sc_in_string sc \<longrightarrow> sc_last_nonspace sc = Some dquote)"

lemma scan_inv_char: "scan_inv sc \<Longrightarrow> scan_inv (scan_char c sc)"
proof -
  assume inv: "scan_inv sc"
  then have "set (tl (sc_stack sc)) \<subseteq> {CHR ''{'', CHR ''[''}"
    by (cases "sc_stack sc") (simp_all add: scan_inv_def)
  with inv show ?thesis by (simp add: scan_inv_def scan_char_def)
qed

lemma scan_inv_scanned: "scan_inv (scanned s)"
proof (induction s rule: rev_induct)
  case Nil
  show ?case by (simp add: scan_inv_def scan_start_def)
qed (simp add: scan_inv_char)

lemma whitespace_not: "is_whitespace c \<Longrightarrow> c \<notin> {dquote, CHR ''{'', CHR ''['', CHR ''}'', CHR '']'', CHR '',''}"
  by (auto simp: is_whitespace_def Let_def)

lemma scan_whitespace: "list_all is_whitespace w \<Longrightarrow> \<not> sc_in_string sc \<Longrightarrow> fold scan_char w sc = sc"
proof (induction w)
  case (Cons c w)
  then have "scan_char c sc = sc" using whitespace_not [of c] by (simp add: scan_char_def)
  then show ?case using Cons by simp
qed simp

lemma scan_comma:
  "scan_inv sc \<Longrightarrow> sc_last_nonspace (scan_char c sc) = Some CHR '','' \<Longrightarrow>
     \<not> sc_in_string sc \<and> (c = CHR '','' \<or> is_whitespace c \<and> sc_last_nonspace sc = Some CHR '','')"
  by (cases "sc_in_string sc") (simp_all add: scan_char_def scan_inv_def split: if_split_asm)

lemma trailing_comma:
  "sc_last_nonspace (scanned s) = Some CHR '','' \<Longrightarrow>
     \<exists>u w. s = u @ CHR '','' # w \<and> list_all is_whitespace w \<and> \<not> sc_in_string (scanned u)"
proof (induction s rule: rev_induct)
  case (snoc c s)
  have step: "\<not> sc_in_string (scanned s)"
      "c = CHR '','' \<or> is_whitespace c \<and> sc_last_nonspace (scanned s) = Some CHR '',''"
    using scan_comma [OF scan_inv_scanned, of c s] snoc.prems by simp_all
  from step(2) show ?case
  proof
    assume "c = CHR '',''"
    then show ?thesis using step(1) by (intro exI [of _ s] exI [of _ "[]"]) simp
  next
    assume c: "is_whitespace c \<and> sc_last_nonspace (scanned s) = Some CHR '',''"
    with snoc.IH obtain u w where "s = u @ CHR '','' # w" "list_all is_whitespace w" "\<not> sc_in_string (scanned u)"
      by blast
    then show ?thesis using c by (intro exI [of _ u] exI [of _ "w @ [c]"]) simp
  qed
qed (simp add: scan_start_def)

lemma remove_last_at:
  assumes "c \<notin> set w"
  shows "remove_last c (u @ c # w) = u @ w"
proof -
  have "rposition ((=) c) (u @ c # w) = Some (length u)"
    using assms by (induction u) (auto simp: rposition_None_iff split: option.splits)
  then show ?thesis by (simp add: remove_last_def)
qed

lemma scan_closers:
  "set (sc_stack sc) \<subseteq> {CHR ''{'', CHR ''[''} \<Longrightarrow> \<not> sc_in_string sc \<Longrightarrow>
     sc_stack (fold scan_char (map closing (sc_stack sc)) sc) = []
     \<and> \<not> sc_in_string (fold scan_char (map closing (sc_stack sc)) sc)"
proof (induction "sc_stack sc" arbitrary: sc)
  case (Cons c st)
  have "scan_char (closing c) sc = sc\<lparr>sc_stack := st, sc_last_nonspace := Some (closing c)\<rparr>"
    using Cons.prems by (cases "c = CHR ''{''") (simp_all add: scan_char_def closing_def flip: Cons.hyps(2))
  then show ?case
    using Cons.hyps(1) [of "scan_char (closing c) sc"] Cons.prems by (simp flip: Cons.hyps(2))
qed simp

text \<open>The document with its string closed and its trailing comma removed.\<close>

lemma closed_body:
  assumes "\<not> sc_escape (scanned s)"
  shows "\<exists>out. close_truncated_json s = out @ map closing (sc_stack (scanned s))
     \<and> sc_stack (scanned out) = sc_stack (scanned s) \<and> \<not> sc_in_string (scanned out)"
proof (cases "sc_last_nonspace (scanned s) = Some CHR '',''")
  case True
  from trailing_comma [OF this] obtain u w where s: "s = u @ CHR '','' # w" and w: "list_all is_whitespace w"
      and u: "\<not> sc_in_string (scanned u)"
    by blast
  have "CHR '','' \<notin> set w" using w whitespace_not by (auto simp: list_all_iff)
  moreover have "\<not> sc_in_string (scanned s)" using True scan_inv_scanned [of s] by (auto simp: scan_inv_def)
  moreover have "\<not> is_whitespace CHR '',''" by (simp add: is_whitespace_def)
  ultimately show ?thesis
    using s w u by (intro exI [of _ "u @ w"])
      (simp add: close_truncated_json_def Let_def remove_last_at scan_whitespace scan_char_def)
next
  case False
  show ?thesis
  proof (intro exI conjI)
    let ?out = "if sc_in_string (scanned s) then s @ [dquote] else s"
    show "close_truncated_json s = ?out @ map closing (sc_stack (scanned s))"
      using False by (simp add: close_truncated_json_def Let_def)
    show "sc_stack (scanned ?out) = sc_stack (scanned s)" "\<not> sc_in_string (scanned ?out)"
      using assms by (simp_all add: scan_char_def)
  qed
qed

text \<open>
  Closing a truncated document balances it: unless it was cut within an escape, the closed text has
  no open string, object or array; a document that was complete is left as it is.
\<close>

theorem closed_document_balanced:
  "(\<not> sc_escape (scanned s) \<longrightarrow>
      sc_stack (scanned (close_truncated_json s)) = [] \<and> \<not> sc_in_string (scanned (close_truncated_json s)))
   \<and> (sc_stack (scanned s) = [] \<and> \<not> sc_in_string (scanned s) \<and> sc_last_nonspace (scanned s) \<noteq> Some CHR '','' \<longrightarrow>
      close_truncated_json s = s)"
proof (intro conjI impI)
  assume "\<not> sc_escape (scanned s)"
  from closed_body [OF this] obtain out where out: "close_truncated_json s = out @ map closing (sc_stack (scanned s))"
      "sc_stack (scanned out) = sc_stack (scanned s)" "\<not> sc_in_string (scanned out)"
    by blast
  have "set (sc_stack (scanned out)) \<subseteq> {CHR ''{'', CHR ''[''}"
    using scan_inv_scanned [of s] out(2) by (simp add: scan_inv_def)
  from scan_closers [OF this out(3)]
  show "sc_stack (scanned (close_truncated_json s)) = []" "\<not> sc_in_string (scanned (close_truncated_json s))"
    by (simp_all add: out)
qed (simp add: close_truncated_json_def Let_def)

theorem closed_document_balanced_witness:
  "close_truncated_json ''[1, {'' = ''[1, {}]'' \<and> sc_stack (scanned ''[1, {}]'') = []"
proof -
  have s: "scanned ''[1, {'' = \<lparr>sc_stack = ''{['', sc_in_string = False, sc_escape = False, sc_last_nonspace = Some CHR ''{''\<rparr>"
    by (simp add: scan_char_def scan_start_def is_whitespace_def)
  have c: "close_truncated_json ''[1, {'' = ''[1, {}]''"
    unfolding close_truncated_json_def s by (simp add: closing_def)
  show ?thesis
    using closed_document_balanced [of "''[1, {''"] unfolding s c by simp
qed

end
