(* ===== verification/Frames.thy ===== *)
theory Frames
  imports Agent_Types Json_Repair
begin

text \<open>
  Assistant message frames (\<open>crates/evo-ai/src/frames.rs\<close>): the encoder that turns the events of one
  assistant stream into frames small enough to be stored one by one, and the reducer that replays a
  committed prefix of them into the message. The strict JSON parser and the JSON printer are
  parameters. Maps with ordered keys that are only looked up are maps; the reducer's, which is
  traversed, is a sorted association list.
\<close>

subsection \<open>Frames\<close>

datatype 'f message_frame =
    Frame_Start "'f assistant_message"
  | Frame_TextStart nat text_content
  | Frame_TextDelta nat string
  | Frame_TextEnd nat string "string option"
  | Frame_ThinkingStart nat thinking_content
  | Frame_ThinkingDelta nat string
  | Frame_ThinkingEnd nat string "string option" "bool option"
  | Frame_ToolcallStart nat "'f tool_call"
  | Frame_ToolcallCheckpoint nat string
  | Frame_ToolcallDelta nat string
  | Frame_ToolcallEnd nat string string "'f json" "string option" "string option" "'f json option"

fun frame_type_tag :: "'f message_frame \<Rightarrow> string" where
  "frame_type_tag (Frame_Start _) = ''start''"
| "frame_type_tag (Frame_TextStart _ _) = ''text_start''"
| "frame_type_tag (Frame_TextDelta _ _) = ''text_delta''"
| "frame_type_tag (Frame_TextEnd _ _ _) = ''text_end''"
| "frame_type_tag (Frame_ThinkingStart _ _) = ''thinking_start''"
| "frame_type_tag (Frame_ThinkingDelta _ _) = ''thinking_delta''"
| "frame_type_tag (Frame_ThinkingEnd _ _ _ _) = ''thinking_end''"
| "frame_type_tag (Frame_ToolcallStart _ _) = ''toolcall_start''"
| "frame_type_tag (Frame_ToolcallCheckpoint _ _) = ''toolcall_checkpoint''"
| "frame_type_tag (Frame_ToolcallDelta _ _) = ''toolcall_delta''"
| "frame_type_tag (Frame_ToolcallEnd _ _ _ _ _ _ _) = ''toolcall_end''"

fun event_type_tag :: "'f stream_event \<Rightarrow> string" where
  "event_type_tag (Stream_Start _) = ''start''"
| "event_type_tag (Stream_TextStart _ _) = ''text_start''"
| "event_type_tag (Stream_TextDelta _ _ _) = ''text_delta''"
| "event_type_tag (Stream_TextEnd _ _ _) = ''text_end''"
| "event_type_tag (Stream_ThinkingStart _ _) = ''thinking_start''"
| "event_type_tag (Stream_ThinkingDelta _ _ _) = ''thinking_delta''"
| "event_type_tag (Stream_ThinkingEnd _ _ _) = ''thinking_end''"
| "event_type_tag (Stream_ToolCallStart _ _) = ''toolcall_start''"
| "event_type_tag (Stream_ToolCallDelta _ _ _) = ''toolcall_delta''"
| "event_type_tag (Stream_ToolCallEnd _ _ _) = ''toolcall_end''"
| "event_type_tag (Stream_Done _ _) = ''done''"
| "event_type_tag (Stream_Error _ _) = ''error''"

datatype frame_error = FrameError string

definition clone_start_message :: "'f assistant_message \<Rightarrow> 'f assistant_message" where
  "clone_start_message m = m\<lparr>am_content := [], am_stop_reason := StopReason_Pending, am_error_message := None\<rparr>"

fun content_kind :: "'f content \<Rightarrow> string" where
  "content_kind (Content_Text _) = ''text''"
| "content_kind (Content_Thinking _) = ''thinking''"
| "content_kind (Content_ToolCall _) = ''toolCall''"
| "content_kind (Content_Image _) = ''image''"

definition content_at :: "'f assistant_message \<Rightarrow> nat \<Rightarrow> string \<Rightarrow> frame_error + 'f content" where
  "content_at partial i frame_type =
     (if i < length (am_content partial) then Inr (am_content partial ! i)
      else Inl (FrameError (frame_type @ '' event has no content block at index '' @ show_nat i)))"

definition wrong_block :: "string \<Rightarrow> 'f content \<Rightarrow> nat \<Rightarrow> frame_error" where
  "wrong_block frame_type c i =
     FrameError (frame_type @ '' event points to '' @ content_kind c @ '' block at index '' @ show_nat i)"

definition text_block :: "'f assistant_message \<Rightarrow> nat \<Rightarrow> string \<Rightarrow> frame_error + text_content" where
  "text_block partial i frame_type =
     res_bind (content_at partial i frame_type) (\<lambda>c. case c of
        Content_Text t \<Rightarrow> Inr t | other \<Rightarrow> Inl (wrong_block frame_type other i))"

definition thinking_block :: "'f assistant_message \<Rightarrow> nat \<Rightarrow> string \<Rightarrow> frame_error + thinking_content" where
  "thinking_block partial i frame_type =
     res_bind (content_at partial i frame_type) (\<lambda>c. case c of
        Content_Thinking t \<Rightarrow> Inr t | other \<Rightarrow> Inl (wrong_block frame_type other i))"

definition tool_call_block :: "'f assistant_message \<Rightarrow> nat \<Rightarrow> string \<Rightarrow> frame_error + 'f tool_call" where
  "tool_call_block partial i frame_type =
     res_bind (content_at partial i frame_type) (\<lambda>c. case c of
        Content_ToolCall t \<Rightarrow> Inr t | other \<Rightarrow> Inl (wrong_block frame_type other i))"

text \<open>\<open>is_json_prefix\<close>: every string of the snapshot is a prefix of its counterpart.\<close>

primrec is_json_prefix :: "'f json \<Rightarrow> 'f json \<Rightarrow> bool" where
  "is_json_prefix JNull current = (current = JNull)"
| "is_json_prefix (JBool b) current = (current = JBool b)"
| "is_json_prefix (JInt n) current = (current = JInt n)"
| "is_json_prefix (JFloat x) current = (current = JFloat x)"
| "is_json_prefix (JString s) current =
     (case current of JString c \<Rightarrow> starts_with s c | _ \<Rightarrow> False)"
| "is_json_prefix (JArray snapshot) current =
     (case current of
        JArray cs \<Rightarrow> length snapshot \<le> length cs \<and> list_all (\<lambda>(p, c). p c) (zip (map is_json_prefix snapshot) cs)
      | _ \<Rightarrow> False)"
| "is_json_prefix (JObject snapshot) current =
     (case current of
        JObject m \<Rightarrow> fmpred (\<lambda>key p. case fmlookup m key of None \<Rightarrow> False | Some c \<Rightarrow> p c) (fmmap is_json_prefix snapshot)
      | _ \<Rightarrow> False)"

subsection \<open>The encoder\<close>

record 'f json_io =
  jio_strict :: "'f strict_parser"
  jio_show :: "'f json \<Rightarrow> string"

datatype encoder_block =
    Encoder_Text nat nat
  | Encoder_Thinking nat nat
  | Encoder_ToolCall bool string string

fun encoder_kind :: "encoder_block \<Rightarrow> string" where
  "encoder_kind (Encoder_Text _ _) = ''text''"
| "encoder_kind (Encoder_Thinking _ _) = ''thinking''"
| "encoder_kind (Encoder_ToolCall _ _ _) = ''toolCall''"

record encoder =
  en_started :: bool
  en_terminal :: bool
  en_blocks :: "nat \<Rightarrow> encoder_block option"

definition encoder_new :: encoder where
  "encoder_new = \<lparr>en_started = False, en_terminal = False, en_blocks = Map.empty\<rparr>"

definition parse_arguments :: "'f json_io \<Rightarrow> string \<Rightarrow> 'f json" where
  "parse_arguments J s = parse_streaming_json (jio_strict J) (Some s)"

definition empty_parsed_tool_arguments :: "'f json_io \<Rightarrow> string" where
  "empty_parsed_tool_arguments J = jio_show J (parse_arguments J [])"

definition start_block :: "nat \<Rightarrow> encoder_block \<Rightarrow> encoder \<Rightarrow> frame_error + encoder" where
  "start_block i state en =
     (if en_blocks en i \<noteq> None
      then Inl (FrameError (''Assistant message block '' @ show_nat i @ '' starts more than once''))
      else Inr (en\<lparr>en_blocks := (en_blocks en)(i \<mapsto> state)\<rparr>))"

definition block_mut :: "nat \<Rightarrow> string \<Rightarrow> encoder \<Rightarrow> frame_error + encoder_block" where
  "block_mut i kind en =
     (case en_blocks en i of
        None \<Rightarrow> Inl (FrameError (''Assistant message '' @ kind @ '' block '' @ show_nat i @ '' has not started''))
      | Some state \<Rightarrow>
          if encoder_kind state \<noteq> kind
          then Inl (FrameError (''Assistant message block '' @ show_nat i @ '' is '' @ encoder_kind state @ '', not '' @ kind))
          else Inr state)"

definition end_block :: "nat \<Rightarrow> string \<Rightarrow> encoder \<Rightarrow> frame_error + encoder" where
  "end_block i kind en = res_bind (block_mut i kind en) (\<lambda>_. Inr (en\<lparr>en_blocks := (en_blocks en)(i := None)\<rparr>))"

type_synonym 'f encoded = "frame_error + 'f message_frame option \<times> encoder"

text \<open>The part of a delta behind what the snapshot of its block already contained.\<close>

definition uncovered :: "nat \<Rightarrow> nat \<Rightarrow> string \<Rightarrow> string" where
  "uncovered covered_chars delta_start delta = drop (covered_chars - delta_start) delta"

definition encode_text_delta :: "nat \<Rightarrow> string \<Rightarrow> string \<Rightarrow> encoder \<Rightarrow> 'f encoded" where
  "encode_text_delta i delta kind en =
     res_bind (block_mut i kind en) (\<lambda>state.
       let emit = (\<lambda>covered delta_start put.
         let remaining = uncovered covered delta_start delta;
             en' = en\<lparr>en_blocks := (en_blocks en)(i \<mapsto> put (delta_start + length delta))\<rparr> in
         Inr (if remaining = [] then None
              else Some (if kind = ''thinking'' then Frame_ThinkingDelta i remaining else Frame_TextDelta i remaining), en'))
       in case state of
            Encoder_Text covered n \<Rightarrow> emit covered n (Encoder_Text covered)
          | Encoder_Thinking covered n \<Rightarrow> emit covered n (Encoder_Thinking covered)
          | Encoder_ToolCall _ _ _ \<Rightarrow> Inl (FrameError ''Unreachable text encoder state''))"

text \<open>Whether the raw arguments streamed so far have reached the snapshot of the start event.\<close>

definition reaches_snapshot :: "'f json_io \<Rightarrow> string \<Rightarrow> string \<Rightarrow> bool" where
  "reaches_snapshot J snapshot_arguments buffer =
     (let arguments_value = parse_arguments J buffer in
      if jio_show J arguments_value \<noteq> snapshot_arguments
      then is_json_prefix (parse_arguments J snapshot_arguments) arguments_value
      else True)"

definition encode_tool_delta :: "'f json_io \<Rightarrow> nat \<Rightarrow> string \<Rightarrow> encoder \<Rightarrow> 'f encoded" where
  "encode_tool_delta J i delta en =
     res_bind (block_mut i ''toolCall'' en) (\<lambda>state. case state of
        Encoder_ToolCall caught_up catchup_json snapshot_arguments \<Rightarrow>
          if caught_up then Inr (if delta = [] then None else Some (Frame_ToolcallDelta i delta), en)
          else
            let buffer = catchup_json @ delta; put = (\<lambda>b. en\<lparr>en_blocks := (en_blocks en)(i \<mapsto> b)\<rparr>) in
            if \<not> reaches_snapshot J snapshot_arguments buffer
            then Inr (None, put (Encoder_ToolCall False buffer snapshot_arguments))
            else Inr (if buffer = [] then None else Some (Frame_ToolcallCheckpoint i buffer),
                      put (Encoder_ToolCall True [] []))
      | _ \<Rightarrow> Inl (FrameError ''Unreachable tool-call encoder state''))"

text \<open>The events of the blocks of a stream that has started.\<close>

fun encode_block_event :: "'f json_io \<Rightarrow> 'f stream_event \<Rightarrow> encoder \<Rightarrow> 'f encoded" where
  "encode_block_event J (Stream_TextStart i partial) en =
     res_bind (text_block partial i ''text_start'') (\<lambda>content.
     res_bind (start_block i (Encoder_Text (length (tx_text content)) 0) en) (\<lambda>en.
     Inr (Some (Frame_TextStart i content), en)))"
| "encode_block_event J (Stream_TextDelta i delta _) en = encode_text_delta i delta ''text'' en"
| "encode_block_event J (Stream_TextEnd i content partial) en =
     res_bind (text_block partial i ''text_end'') (\<lambda>block.
     res_bind (end_block i ''text'' en) (\<lambda>en.
     Inr (Some (Frame_TextEnd i content (tx_text_signature block)), en)))"
| "encode_block_event J (Stream_ThinkingStart i partial) en =
     res_bind (thinking_block partial i ''thinking_start'') (\<lambda>content.
     res_bind (start_block i (Encoder_Thinking (length (th_thinking content)) 0) en) (\<lambda>en.
     Inr (Some (Frame_ThinkingStart i content), en)))"
| "encode_block_event J (Stream_ThinkingDelta i delta _) en = encode_text_delta i delta ''thinking'' en"
| "encode_block_event J (Stream_ThinkingEnd i content partial) en =
     res_bind (thinking_block partial i ''thinking_end'') (\<lambda>block.
     res_bind (end_block i ''thinking'' en) (\<lambda>en.
     Inr (Some (Frame_ThinkingEnd i content (th_thinking_signature block) (Some (th_redacted block))), en)))"
| "encode_block_event J (Stream_ToolCallStart i partial) en =
     res_bind (tool_call_block partial i ''toolcall_start'') (\<lambda>content.
     let snapshot_arguments = jio_show J (tcall_arguments content);
         caught_up = (snapshot_arguments = empty_parsed_tool_arguments J) in
     res_bind (start_block i (Encoder_ToolCall caught_up [] (if caught_up then [] else snapshot_arguments)) en) (\<lambda>en.
     Inr (Some (Frame_ToolcallStart i content), en)))"
| "encode_block_event J (Stream_ToolCallDelta i delta _) en = encode_tool_delta J i delta en"
| "encode_block_event J (Stream_ToolCallEnd i call partial) en =
     res_bind (tool_call_block partial i ''toolcall_end'') (\<lambda>_.
     res_bind (end_block i ''toolCall'' en) (\<lambda>en.
     Inr (Some (Frame_ToolcallEnd i (tcall_id call) (tcall_name call) (tcall_arguments call)
            (tcall_thought_signature call) (tcall_namespace call) (tcall_recorded call)), en)))"
| "encode_block_event J _ en = Inl (FrameError ''handled above'')"

text \<open>\<open>encode\<close>. An event that is refused leaves the encoder as it was.\<close>

definition encode_event :: "'f json_io \<Rightarrow> encoder \<Rightarrow> 'f stream_event \<Rightarrow> 'f encoded" where
  "encode_event J en event =
     (if en_terminal en then
        Inl (FrameError (''Assistant message event '' @ event_type_tag event @ '' follows a terminal event''))
      else case event of
        Stream_Start partial \<Rightarrow>
          if en_started en then Inl (FrameError ''Assistant message stream contains more than one start event'')
          else Inr (Some (Frame_Start (clone_start_message partial)), en\<lparr>en_started := True\<rparr>)
      | Stream_Done _ _ \<Rightarrow>
          if \<not> en_started en then Inl (FrameError ''Assistant message done event appears before start'')
          else Inr (None, en\<lparr>en_terminal := True\<rparr>)
      | Stream_Error _ _ \<Rightarrow> Inr (None, en\<lparr>en_terminal := True\<rparr>)
      | _ \<Rightarrow>
          if \<not> en_started en then
            Inl (FrameError (''Assistant message '' @ event_type_tag event @ '' event appears before start''))
          else encode_block_event J event en)"

subsection \<open>The reducer\<close>

record reducer_block =
  rb_kind :: string
  rb_ended :: bool
  rb_json :: string

record 'f reducer =
  rd_message :: "'f assistant_message"
  rd_states :: "(nat, reducer_block) btree"

definition append_block :: "nat \<Rightarrow> 'f content \<Rightarrow> string \<Rightarrow> 'f reducer \<Rightarrow> frame_error + 'f reducer" where
  "append_block i block kind rd =
     (let n = length (am_content (rd_message rd)) in
      if i \<noteq> n then
        Inl (FrameError (''Cannot start assistant message block at index '' @ show_nat i @ '': '' @
          (if i < n then ''already exists'' else ''would leave a gap'')))
      else Inr (rd\<lparr>rd_message := (rd_message rd)\<lparr>am_content := am_content (rd_message rd) @ [block]\<rparr>,
        rd_states := bt_insert i \<lparr>rb_kind = kind, rb_ended = False, rb_json = []\<rparr> (rd_states rd)\<rparr>))"

definition active_block ::
  "nat \<Rightarrow> string \<Rightarrow> string \<Rightarrow> 'f reducer \<Rightarrow> frame_error + 'f content \<times> reducer_block" where
  "active_block i expected_kind frame_type rd =
     (case map_of (rd_states rd) i of
        None \<Rightarrow> Inl (FrameError (frame_type @ '' frame has no started block at index '' @ show_nat i))
      | Some state \<Rightarrow>
          if rb_kind state \<noteq> expected_kind then
            Inl (FrameError (frame_type @ '' frame expected '' @ expected_kind @ '' block at index '' @ show_nat i
              @ '', found '' @ rb_kind state))
          else if rb_ended state then
            Inl (FrameError (frame_type @ '' frame follows the end of block at index '' @ show_nat i))
          else if length (am_content (rd_message rd)) \<le> i then
            Inl (FrameError (frame_type @ '' frame has no started block at index '' @ show_nat i))
          else
            let block = am_content (rd_message rd) ! i in
            if content_kind block \<noteq> expected_kind then
              Inl (FrameError (frame_type @ '' frame expected '' @ expected_kind @ '' block at index '' @ show_nat i
                @ '', found '' @ content_kind block))
            else Inr (block, state))"

text \<open>The block and its state written back.\<close>

definition put_block :: "nat \<Rightarrow> 'f content \<Rightarrow> reducer_block \<Rightarrow> 'f reducer \<Rightarrow> 'f reducer" where
  "put_block i block state rd =
     rd\<lparr>rd_message := (rd_message rd)\<lparr>am_content := (am_content (rd_message rd))[i := block]\<rparr>,
        rd_states := bt_insert i state (rd_states rd)\<rparr>"

fun map_text :: "(text_content \<Rightarrow> text_content) \<Rightarrow> 'f content \<Rightarrow> 'f content" where
  "map_text f (Content_Text t) = Content_Text (f t)"
| "map_text f c = c"

fun map_thinking :: "(thinking_content \<Rightarrow> thinking_content) \<Rightarrow> 'f content \<Rightarrow> 'f content" where
  "map_thinking f (Content_Thinking t) = Content_Thinking (f t)"
| "map_thinking f c = c"

fun map_tool_call :: "('f tool_call \<Rightarrow> 'f tool_call) \<Rightarrow> 'f content \<Rightarrow> 'f content" where
  "map_tool_call f (Content_ToolCall t) = Content_ToolCall (f t)"
| "map_tool_call f c = c"

text \<open>One frame after the start frame.\<close>

fun reduce_frame :: "'f json_io \<Rightarrow> 'f message_frame \<Rightarrow> 'f reducer \<Rightarrow> frame_error + 'f reducer" where
  "reduce_frame J (Frame_TextStart i content) rd = append_block i (Content_Text content) ''text'' rd"
| "reduce_frame J (Frame_TextDelta i delta) rd =
     res_bind (active_block i ''text'' ''text_delta'' rd) (\<lambda>(block, state).
     Inr (put_block i (map_text (\<lambda>t. t\<lparr>tx_text := tx_text t @ delta\<rparr>) block) state rd))"
| "reduce_frame J (Frame_TextEnd i content signature) rd =
     res_bind (active_block i ''text'' ''text_end'' rd) (\<lambda>(block, state).
     Inr (put_block i (map_text (\<lambda>t. t\<lparr>tx_text := content, tx_text_signature := signature\<rparr>) block)
       (state\<lparr>rb_ended := True\<rparr>) rd))"
| "reduce_frame J (Frame_ThinkingStart i content) rd = append_block i (Content_Thinking content) ''thinking'' rd"
| "reduce_frame J (Frame_ThinkingDelta i delta) rd =
     res_bind (active_block i ''thinking'' ''thinking_delta'' rd) (\<lambda>(block, state).
     Inr (put_block i (map_thinking (\<lambda>t. t\<lparr>th_thinking := th_thinking t @ delta\<rparr>) block) state rd))"
| "reduce_frame J (Frame_ThinkingEnd i content signature redacted) rd =
     res_bind (active_block i ''thinking'' ''thinking_end'' rd) (\<lambda>(block, state).
     Inr (put_block i (map_thinking (\<lambda>t. t\<lparr>th_thinking := content, th_thinking_signature := signature,
         th_redacted := (redacted = Some True)\<rparr>) block) (state\<lparr>rb_ended := True\<rparr>) rd))"
| "reduce_frame J (Frame_ToolcallStart i call) rd = append_block i (Content_ToolCall call) ''toolCall'' rd"
| "reduce_frame J (Frame_ToolcallCheckpoint i json) rd =
     res_bind (active_block i ''toolCall'' ''toolcall_checkpoint'' rd) (\<lambda>(block, state).
     Inr (put_block i (map_tool_call (\<lambda>t. t\<lparr>tcall_arguments := parse_arguments J json\<rparr>) block)
       (state\<lparr>rb_json := json\<rparr>) rd))"
| "reduce_frame J (Frame_ToolcallDelta i delta) rd =
     res_bind (active_block i ''toolCall'' ''toolcall_delta'' rd) (\<lambda>(block, state).
     Inr (put_block i block (state\<lparr>rb_json := rb_json state @ delta\<rparr>) rd))"
| "reduce_frame J (Frame_ToolcallEnd i call_id name arguments thought namespace recorded) rd =
     res_bind (active_block i ''toolCall'' ''toolcall_end'' rd) (\<lambda>(block, state).
     Inr (put_block i (map_tool_call (\<lambda>t. t\<lparr>tcall_id := call_id, tcall_name := name, tcall_arguments := arguments,
         tcall_thought_signature := thought, tcall_namespace := namespace, tcall_recorded := recorded\<rparr>) block)
       (state\<lparr>rb_ended := True\<rparr>) rd))"
| "reduce_frame J (Frame_Start _) rd = Inl (FrameError ''handled above'')"

text \<open>
  The loop of \<open>reduce_frames\<close>: before the start frame (with the tag of the first frame that came too
  early) and after it.
\<close>

datatype 'f reduction = Before_Start "string option" | After_Start "'f reducer"

fun reduction_step :: "'f json_io \<Rightarrow> 'f reduction \<Rightarrow> 'f message_frame \<Rightarrow> frame_error + 'f reduction" where
  "reduction_step J (After_Start rd) (Frame_Start _) =
     Inl (FrameError ''Assistant message frame sequence contains more than one start frame'')"
| "reduction_step J (Before_Start (Some before)) (Frame_Start _) =
     Inl (FrameError (before @ '' frame appears before the start frame''))"
| "reduction_step J (Before_Start None) (Frame_Start partial) =
     Inr (After_Start \<lparr>rd_message = clone_start_message partial, rd_states = []\<rparr>)"
| "reduction_step J (Before_Start early) frame =
     Inr (Before_Start (if early = None then Some (frame_type_tag frame) else early))"
| "reduction_step J (After_Start rd) frame = res_bind (reduce_frame J frame rd) (\<lambda>rd. Inr (After_Start rd))"

text \<open>Tool calls without an end frame still have the arguments their buffer holds.\<close>

definition salvage_arguments ::
  "'f json_io \<Rightarrow> 'f assistant_message \<Rightarrow> nat \<times> reducer_block \<Rightarrow> frame_error + 'f assistant_message" where
  "salvage_arguments J m = (\<lambda>(i, state).
     if rb_kind state \<noteq> ''toolCall'' \<or> rb_ended state \<or> rb_json state = [] then Inr m
     else if length (am_content m) \<le> i then Inl (FrameError ''Unreachable tool-call frame state'')
     else case am_content m ! i of
       Content_ToolCall call \<Rightarrow>
         Inr (m\<lparr>am_content := (am_content m)[i := Content_ToolCall (call\<lparr>tcall_arguments := parse_arguments J (rb_json state)\<rparr>)]\<rparr>)
     | _ \<Rightarrow> Inl (FrameError ''Unreachable tool-call frame state''))"

definition reduce_frames :: "'f json_io \<Rightarrow> 'f message_frame list \<Rightarrow> frame_error + 'f assistant_message option" where
  "reduce_frames J frames =
     res_bind (fold_res (reduction_step J) (Before_Start None) frames) (\<lambda>r. case r of
        Before_Start _ \<Rightarrow> Inr None
      | After_Start rd \<Rightarrow>
          res_bind (fold_res (salvage_arguments J) (rd_message rd) (rd_states rd)) (\<lambda>m. Inr (Some m)))"

end
