(* ===== verification/Frame_Replay.thy ===== *)
theory Frame_Replay
  imports Frames
begin

text \<open>
  What a stored frame stream replays to. A block of a stream is viewed as the snapshot of its start
  event, the deltas seen since and what its end event settled; the views are read off the events
  alone, and the frames of any prefix of a stream replay to the message they describe.
\<close>

subsection \<open>Views of blocks\<close>

datatype 'f block_view =
    View_Text text_content string "text_content option"
  | View_Thinking thinking_content string "thinking_content option"
  | View_Tool "'f tool_call" "string list" "'f tool_call option"

fun with_delta :: "string \<Rightarrow> 'f block_view \<Rightarrow> 'f block_view" where
  "with_delta d (View_Text snap ds end) = View_Text snap (ds @ d) end"
| "with_delta d (View_Thinking snap ds end) = View_Thinking snap (ds @ d) end"
| "with_delta d (View_Tool snap ds end) = View_Tool snap (ds @ [d]) end"

fun settled_text :: "string \<Rightarrow> 'f content \<Rightarrow> 'f block_view \<Rightarrow> 'f block_view" where
  "settled_text s (Content_Text b) (View_Text snap ds _) =
     View_Text snap ds (Some \<lparr>tx_text = s, tx_text_signature = tx_text_signature b\<rparr>)"
| "settled_text s (Content_Thinking b) (View_Thinking snap ds _) =
     View_Thinking snap ds (Some \<lparr>th_thinking = s, th_thinking_signature = th_thinking_signature b, th_redacted = th_redacted b\<rparr>)"
| "settled_text s _ v = v"

fun settled_call :: "'f tool_call \<Rightarrow> 'f block_view \<Rightarrow> 'f block_view" where
  "settled_call call (View_Tool snap ds _) = View_Tool snap ds (Some call)"
| "settled_call call v = v"

fun fresh_view :: "'f content \<Rightarrow> 'f block_view list" where
  "fresh_view (Content_Text t) = [View_Text t [] None]"
| "fresh_view (Content_Thinking t) = [View_Thinking t [] None]"
| "fresh_view (Content_ToolCall t) = [View_Tool t [] None]"
| "fresh_view (Content_Image _) = []"

fun observe :: "'f block_view list \<Rightarrow> 'f stream_event \<Rightarrow> 'f block_view list" where
  "observe vs (Stream_TextStart i partial) = vs @ fresh_view (am_content partial ! i)"
| "observe vs (Stream_TextDelta i delta _) = vs[i := with_delta delta (vs ! i)]"
| "observe vs (Stream_TextEnd i content partial) = vs[i := settled_text content (am_content partial ! i) (vs ! i)]"
| "observe vs (Stream_ThinkingStart i partial) = vs @ fresh_view (am_content partial ! i)"
| "observe vs (Stream_ThinkingDelta i delta _) = vs[i := with_delta delta (vs ! i)]"
| "observe vs (Stream_ThinkingEnd i content partial) = vs[i := settled_text content (am_content partial ! i) (vs ! i)]"
| "observe vs (Stream_ToolCallStart i partial) = vs @ fresh_view (am_content partial ! i)"
| "observe vs (Stream_ToolCallDelta i delta _) = vs[i := with_delta delta (vs ! i)]"
| "observe vs (Stream_ToolCallEnd i call _) = vs[i := settled_call call (vs ! i)]"
| "observe vs _ = vs"

text \<open>The streamed arguments count once some prefix of them has reached the snapshot.\<close>

definition caught :: "'f json_io \<Rightarrow> 'f tool_call \<Rightarrow> string list \<Rightarrow> bool" where
  "caught J snap ds \<longleftrightarrow> jio_show J (tcall_arguments snap) = empty_parsed_tool_arguments J
     \<or> (\<exists>k \<in> {1..length ds}. reaches_snapshot J (jio_show J (tcall_arguments snap)) (concat (take k ds)))"

fun view_content :: "'f json_io \<Rightarrow> 'f block_view \<Rightarrow> 'f content" where
  "view_content J (View_Text snap ds None) =
     Content_Text (snap\<lparr>tx_text := tx_text snap @ drop (length (tx_text snap)) ds\<rparr>)"
| "view_content J (View_Text _ _ (Some t)) = Content_Text t"
| "view_content J (View_Thinking snap ds None) =
     Content_Thinking (snap\<lparr>th_thinking := th_thinking snap @ drop (length (th_thinking snap)) ds\<rparr>)"
| "view_content J (View_Thinking _ _ (Some t)) = Content_Thinking t"
| "view_content J (View_Tool snap ds None) =
     Content_ToolCall (if caught J snap ds \<and> concat ds \<noteq> []
       then snap\<lparr>tcall_arguments := parse_arguments J (concat ds)\<rparr> else snap)"
| "view_content J (View_Tool _ _ (Some call)) = Content_ToolCall call"

subsection \<open>Encoder, reducer and views agree\<close>

fun block_rel :: "'f json_io \<Rightarrow> 'f block_view \<Rightarrow> encoder_block option \<Rightarrow> 'f content \<Rightarrow> reducer_block \<Rightarrow> bool" where
  "block_rel J (View_Text snap ds None) b c s \<longleftrightarrow>
     b = Some (Encoder_Text (length (tx_text snap)) (length ds)) \<and> c = view_content J (View_Text snap ds None)
     \<and> s = \<lparr>rb_kind = ''text'', rb_ended = False, rb_json = []\<rparr>"
| "block_rel J (View_Text snap ds (Some t)) b c s \<longleftrightarrow>
     b = None \<and> c = Content_Text t \<and> rb_kind s = ''text'' \<and> rb_ended s"
| "block_rel J (View_Thinking snap ds None) b c s \<longleftrightarrow>
     b = Some (Encoder_Thinking (length (th_thinking snap)) (length ds)) \<and> c = view_content J (View_Thinking snap ds None)
     \<and> s = \<lparr>rb_kind = ''thinking'', rb_ended = False, rb_json = []\<rparr>"
| "block_rel J (View_Thinking snap ds (Some t)) b c s \<longleftrightarrow>
     b = None \<and> c = Content_Thinking t \<and> rb_kind s = ''thinking'' \<and> rb_ended s"
| "block_rel J (View_Tool snap ds None) b c s \<longleftrightarrow>
     rb_kind s = ''toolCall'' \<and> \<not> rb_ended s
     \<and> (if caught J snap ds
        then b = Some (Encoder_ToolCall True [] []) \<and> rb_json s = concat ds
          \<and> (\<exists>call. c = Content_ToolCall call \<and> call\<lparr>tcall_arguments := tcall_arguments snap\<rparr> = snap
               \<and> (concat ds = [] \<longrightarrow> call = snap))
        else b = Some (Encoder_ToolCall False (concat ds) (jio_show J (tcall_arguments snap)))
          \<and> rb_json s = [] \<and> c = Content_ToolCall snap)"
| "block_rel J (View_Tool snap ds (Some call)) b c s \<longleftrightarrow>
     b = None \<and> c = Content_ToolCall call \<and> rb_kind s = ''toolCall'' \<and> rb_ended s"

definition agrees :: "'f json_io \<Rightarrow> 'f block_view list \<Rightarrow> encoder \<Rightarrow> 'f reducer \<Rightarrow> bool" where
  "agrees J vs en rd \<longleftrightarrow>
     length (am_content (rd_message rd)) = length vs \<and> bt_sorted (rd_states rd)
     \<and> (\<forall>i. length vs \<le> i \<longrightarrow> en_blocks en i = None \<and> map_of (rd_states rd) i = None)
     \<and> (\<forall>i < length vs. \<exists>s. map_of (rd_states rd) i = Some s
          \<and> block_rel J (vs ! i) (en_blocks en i) (am_content (rd_message rd) ! i) s)"

lemma agrees_append:
  assumes "agrees J vs en rd" and "block_rel J v (Some b) c \<lparr>rb_kind = kind, rb_ended = False, rb_json = []\<rparr>"
  shows "\<exists>rd'. append_block (length vs) c kind rd = Inr rd'
     \<and> agrees J (vs @ [v]) (en\<lparr>en_blocks := (en_blocks en)(length vs \<mapsto> b)\<rparr>) rd'"
  using assms by (auto simp: agrees_def append_block_def nth_append less_Suc_eq)

lemma agrees_update:
  assumes "agrees J vs en rd" and "i < length vs" and "block_rel J v b c s"
  shows "agrees J (vs[i := v]) (en\<lparr>en_blocks := (en_blocks en)(i := b)\<rparr>) (put_block i c s rd)"
  using assms by (auto simp: agrees_def put_block_def nth_list_update)

lemma agrees_open:
  assumes "agrees J vs en rd" and "en_blocks en i = Some b"
  shows "i < length vs \<and> (\<exists>s. map_of (rd_states rd) i = Some s
     \<and> block_rel J (vs ! i) (Some b) (am_content (rd_message rd) ! i) s)"
  using assms by (auto simp: agrees_def) (metis option.distinct(1) not_le_imp_less)+

text \<open>An open block is one the reducer finds active.\<close>

lemma block_rel_open:
  assumes "block_rel J v (Some b) c s"
  shows "content_kind c = encoder_kind b \<and> rb_kind s = encoder_kind b \<and> \<not> rb_ended s"
  using assms by (cases "(J, v, Some b, c, s)" rule: block_rel.cases) (auto split: if_splits)

lemma agrees_active:
  assumes "agrees J vs en rd" and "block_mut i kind en = Inr b"
  obtains s where "\<forall>tag. active_block i kind tag rd = Inr (am_content (rd_message rd) ! i, s)"
    and "i < length vs" "en_blocks en i = Some b" "encoder_kind b = kind"
    and "block_rel J (vs ! i) (Some b) (am_content (rd_message rd) ! i) s"
proof -
  have b: "en_blocks en i = Some b" "encoder_kind b = kind"
    using assms(2) by (auto simp: block_mut_def split: option.splits if_splits)
  from agrees_open [OF assms(1) b(1)] obtain s where s: "i < length vs" "map_of (rd_states rd) i = Some s"
      "block_rel J (vs ! i) (Some b) (am_content (rd_message rd) ! i) s"
    by blast
  from block_rel_open [OF s(3)] b assms(1) s
  have "\<forall>tag. active_block i kind tag rd = Inr (am_content (rd_message rd) ! i, s)"
    by (simp add: active_block_def agrees_def Let_def)
  then show thesis using s b that by blast
qed

lemma agrees_keep:
  assumes "agrees J vs en rd" and "i < length vs" and "map_of (rd_states rd) i = Some s"
    and "block_rel J v b (am_content (rd_message rd) ! i) s"
  shows "agrees J (vs[i := v]) (en\<lparr>en_blocks := (en_blocks en)(i := b)\<rparr>) rd"
  using assms by (auto simp: agrees_def nth_list_update)

subsection \<open>One event\<close>

fun feed :: "'f json_io \<Rightarrow> 'f message_frame option \<Rightarrow> 'f reducer \<Rightarrow> frame_error + 'f reducer" where
  "feed J None rd = Inr rd"
| "feed J (Some f) rd = reduce_frame J f rd"

definition follows :: "'f json_io \<Rightarrow> 'f block_view list \<Rightarrow> 'f message_frame option \<Rightarrow> encoder \<Rightarrow> 'f reducer \<Rightarrow> bool" where
  "follows J vs fo en rd \<longleftrightarrow> (\<exists>rd'. feed J fo rd = Inr rd' \<and> agrees J vs en rd')"

lemma active_state:
  "active_block i kind tag rd = Inr (c, s) \<Longrightarrow> map_of (rd_states rd) i = Some s"
  by (auto simp: active_block_def Let_def split: option.splits if_splits)

lemma text_block_Inr:
  "text_block p i tag = Inr t \<Longrightarrow> am_content p ! i = Content_Text t"
  "thinking_block p i tag = Inr t' \<Longrightarrow> am_content p ! i = Content_Thinking t'"
  "tool_call_block p i tag = Inr c \<Longrightarrow> am_content p ! i = Content_ToolCall c"
  by (auto simp: text_block_def thinking_block_def tool_call_block_def content_at_def split: if_splits content.splits)

lemma start_block_Inr:
  "start_block i b en = Inr en' \<Longrightarrow> en' = en\<lparr>en_blocks := (en_blocks en)(i \<mapsto> b)\<rparr>"
  by (auto simp: start_block_def split: if_splits)

lemma caught_Nil: "caught J snap [] \<longleftrightarrow> jio_show J (tcall_arguments snap) = empty_parsed_tool_arguments J"
  by (simp add: caught_def)

lemma caught_snoc:
  "caught J snap (ds @ [d]) \<longleftrightarrow> caught J snap ds
     \<or> reaches_snapshot J (jio_show J (tcall_arguments snap)) (concat ds @ d)"
proof -
  have "{1..length (ds @ [d])} = insert (Suc (length ds)) {1..length ds}" by auto
  then show ?thesis by (auto simp: caught_def)
qed

lemma follows_start:
  assumes "agrees J vs en rd" and "encode_block_event J ev en = Inr (fo, en')"
    and "ev = Stream_TextStart (length vs) p \<or> ev = Stream_ThinkingStart (length vs) p \<or> ev = Stream_ToolCallStart (length vs) p"
  shows "follows J (observe vs ev) fo en' rd"
proof -
  have app: "\<And>v b c kind. block_rel J v (Some b) c \<lparr>rb_kind = kind, rb_ended = False, rb_json = []\<rparr> \<Longrightarrow>
      \<exists>rd'. append_block (length vs) c kind rd = Inr rd'
        \<and> agrees J (vs @ [v]) (en\<lparr>en_blocks := (en_blocks en)(length vs \<mapsto> b)\<rparr>) rd'"
    using agrees_append [OF assms(1)] .
  from assms(3) show ?thesis
  proof (elim disjE)
    assume ev: "ev = Stream_TextStart (length vs) p"
    then obtain t where "am_content p ! length vs = Content_Text t" "fo = Some (Frame_TextStart (length vs) t)"
        "en' = en\<lparr>en_blocks := (en_blocks en)(length vs \<mapsto> Encoder_Text (length (tx_text t)) 0)\<rparr>"
      using assms(2) by (auto dest: text_block_Inr start_block_Inr)
    then show ?thesis using ev app [of "View_Text t [] None"] by (simp add: follows_def)
  next
    assume ev: "ev = Stream_ThinkingStart (length vs) p"
    then obtain t where "am_content p ! length vs = Content_Thinking t" "fo = Some (Frame_ThinkingStart (length vs) t)"
        "en' = en\<lparr>en_blocks := (en_blocks en)(length vs \<mapsto> Encoder_Thinking (length (th_thinking t)) 0)\<rparr>"
      using assms(2) by (auto dest: text_block_Inr start_block_Inr)
    then show ?thesis using ev app [of "View_Thinking t [] None"] by (simp add: follows_def)
  next
    assume ev: "ev = Stream_ToolCallStart (length vs) p"
    then obtain c where c: "am_content p ! length vs = Content_ToolCall c" "fo = Some (Frame_ToolcallStart (length vs) c)"
        "en' = en\<lparr>en_blocks := (en_blocks en)(length vs \<mapsto>
           Encoder_ToolCall (caught J c []) [] (if caught J c [] then [] else jio_show J (tcall_arguments c)))\<rparr>"
      using assms(2) by (auto simp: Let_def caught_Nil dest: text_block_Inr start_block_Inr)
    have "block_rel J (View_Tool c [] None)
        (Some (Encoder_ToolCall (caught J c []) [] (if caught J c [] then [] else jio_show J (tcall_arguments c))))
        (Content_ToolCall c) \<lparr>rb_kind = ''toolCall'', rb_ended = False, rb_json = []\<rparr>"
      by simp
    from app [OF this] show ?thesis using ev c by (simp add: follows_def)
  qed
qed

lemma uncovered_append:
  "s @ drop (length s) (ds @ d) = (s @ drop (length s) ds) @ uncovered (length s) (length ds) d"
  by (simp add: uncovered_def)

lemma follows_open_text:
  assumes "agrees J vs en rd" and "i < length vs" and "vs ! i = View_Text snap ds None"
    and "block_rel J (vs ! i) b (am_content (rd_message rd) ! i) s"
    and "active_block i ''text'' ''text_delta'' rd = Inr (am_content (rd_message rd) ! i, s)"
  shows "follows J (vs[i := with_delta d (vs ! i)])
     (if uncovered (length (tx_text snap)) (length ds) d = [] then None
      else Some (Frame_TextDelta i (uncovered (length (tx_text snap)) (length ds) d)))
     (en\<lparr>en_blocks := (en_blocks en)(i \<mapsto> Encoder_Text (length (tx_text snap)) (length (ds @ d)))\<rparr>) rd"
proof -
  let ?u = "uncovered (length (tx_text snap)) (length ds) d"
  let ?c = "map_text (\<lambda>t. t\<lparr>tx_text := tx_text t @ ?u\<rparr>) (am_content (rd_message rd) ! i)"
  have rel: "block_rel J (View_Text snap (ds @ d) None) (Some (Encoder_Text (length (tx_text snap)) (length (ds @ d)))) ?c s"
    using assms(3,4) uncovered_append [of "tx_text snap" ds d] by simp
  show ?thesis
  proof (cases "?u = []")
    case True
    then have "?c = am_content (rd_message rd) ! i" using assms(3,4) by simp
    with agrees_keep [OF assms(1,2) active_state [OF assms(5)]] rel True assms(3) show ?thesis
      by (simp add: follows_def)
  next
    case False
    with agrees_update [OF assms(1,2) rel] assms(3,5) show ?thesis by (simp add: follows_def)
  qed
qed

lemma follows_open_thinking:
  assumes "agrees J vs en rd" and "i < length vs" and "vs ! i = View_Thinking snap ds None"
    and "block_rel J (vs ! i) b (am_content (rd_message rd) ! i) s"
    and "active_block i ''thinking'' ''thinking_delta'' rd = Inr (am_content (rd_message rd) ! i, s)"
  shows "follows J (vs[i := with_delta d (vs ! i)])
     (if uncovered (length (th_thinking snap)) (length ds) d = [] then None
      else Some (Frame_ThinkingDelta i (uncovered (length (th_thinking snap)) (length ds) d)))
     (en\<lparr>en_blocks := (en_blocks en)(i \<mapsto> Encoder_Thinking (length (th_thinking snap)) (length (ds @ d)))\<rparr>) rd"
proof -
  let ?u = "uncovered (length (th_thinking snap)) (length ds) d"
  let ?c = "map_thinking (\<lambda>t. t\<lparr>th_thinking := th_thinking t @ ?u\<rparr>) (am_content (rd_message rd) ! i)"
  have rel: "block_rel J (View_Thinking snap (ds @ d) None) (Some (Encoder_Thinking (length (th_thinking snap)) (length (ds @ d)))) ?c s"
    using assms(3,4) uncovered_append [of "th_thinking snap" ds d] by simp
  show ?thesis
  proof (cases "?u = []")
    case True
    then have "?c = am_content (rd_message rd) ! i" using assms(3,4) by simp
    with agrees_keep [OF assms(1,2) active_state [OF assms(5)]] rel True assms(3) show ?thesis
      by (simp add: follows_def)
  next
    case False
    with agrees_update [OF assms(1,2) rel] assms(3,5) show ?thesis by (simp add: follows_def)
  qed
qed

lemma follows_text_delta:
  assumes "agrees J vs en rd" and "encode_text_delta i d kind en = Inr (fo, en')"
    and "kind = ''text'' \<or> kind = ''thinking''"
  shows "follows J (vs[i := with_delta d (vs ! i)]) fo en' rd"
proof -
  from assms(2) obtain b where b: "block_mut i kind en = Inr b" by (auto simp: encode_text_delta_def)
  obtain s where act: "\<forall>tag. active_block i kind tag rd = Inr (am_content (rd_message rd) ! i, s)"
      and i: "i < length vs" and kb: "encoder_kind b = kind"
      and rel: "block_rel J (vs ! i) (Some b) (am_content (rd_message rd) ! i) s"
    by (rule agrees_active [OF assms(1) b]) blast
  show ?thesis
  proof (cases "(J, vs ! i, Some b, am_content (rd_message rd) ! i, s)" rule: block_rel.cases)
    case (1 _ snap ds)
    then have v: "vs ! i = View_Text snap ds None" and k: "kind = ''text''" using rel kb by auto
    have "en' = en\<lparr>en_blocks := (en_blocks en)(i \<mapsto> Encoder_Text (length (tx_text snap)) (length (ds @ d)))\<rparr>"
        "fo = (if uncovered (length (tx_text snap)) (length ds) d = [] then None
               else Some (Frame_TextDelta i (uncovered (length (tx_text snap)) (length ds) d)))"
      using v k rel b assms(2) by (auto simp: encode_text_delta_def Let_def)
    with follows_open_text [OF assms(1) i v rel act [rule_format, of "kind @ ''_delta''", unfolded k, simplified]] show ?thesis by (simp only:)
  next
    case (3 _ snap ds)
    then have v: "vs ! i = View_Thinking snap ds None" and k: "kind = ''thinking''" using rel kb by auto
    have "en' = en\<lparr>en_blocks := (en_blocks en)(i \<mapsto> Encoder_Thinking (length (th_thinking snap)) (length (ds @ d)))\<rparr>"
        "fo = (if uncovered (length (th_thinking snap)) (length ds) d = [] then None
               else Some (Frame_ThinkingDelta i (uncovered (length (th_thinking snap)) (length ds) d)))"
      using v k rel b assms(2) by (auto simp: encode_text_delta_def Let_def)
    with follows_open_thinking [OF assms(1) i v rel act [rule_format, of "kind @ ''_delta''", unfolded k, simplified]] show ?thesis by (simp only:)
  qed (use rel kb assms(3) in \<open>auto split: if_splits\<close>)
qed

text \<open>An open tool call, as the views see it.\<close>

lemma block_rel_tool:
  assumes "block_rel J v (Some b) c s" and "encoder_kind b = ''toolCall''"
  obtains snap ds call where "v = View_Tool snap ds None" "c = Content_ToolCall call" "rb_kind s = ''toolCall''" "\<not> rb_ended s"
    and "call\<lparr>tcall_arguments := tcall_arguments snap\<rparr> = snap" "concat ds = [] \<or> \<not> caught J snap ds \<longrightarrow> call = snap"
    and "rb_json s = (if caught J snap ds then concat ds else [])"
    and "b = (if caught J snap ds then Encoder_ToolCall True [] []
              else Encoder_ToolCall False (concat ds) (jio_show J (tcall_arguments snap)))"
proof (cases "(J, v, Some b, c, s)" rule: block_rel.cases)
  case (5 _ snap ds)
  with assms(1) obtain call where "c = Content_ToolCall call" "call\<lparr>tcall_arguments := tcall_arguments snap\<rparr> = snap"
      "concat ds = [] \<or> \<not> caught J snap ds \<longrightarrow> call = snap"
    by (cases "caught J snap ds") (auto simp del: concat_eq_Nil_conv)
  moreover have "rb_json s = (if caught J snap ds then concat ds else [])"
      "b = (if caught J snap ds then Encoder_ToolCall True [] []
            else Encoder_ToolCall False (concat ds) (jio_show J (tcall_arguments snap)))"
      "rb_kind s = ''toolCall''" "\<not> rb_ended s"
    using 5 assms(1) by (auto split: if_splits)
  ultimately show thesis using 5 that by blast
qed (use assms in \<open>auto split: if_splits\<close>)

lemma follows_tool_delta:
  assumes "agrees J vs en rd" and "encode_tool_delta J i d en = Inr (fo, en')"
  shows "follows J (vs[i := with_delta d (vs ! i)]) fo en' rd"
proof -
  from assms(2) obtain b where b: "block_mut i ''toolCall'' en = Inr b" by (auto simp: encode_tool_delta_def)
  obtain s where act: "\<forall>tag. active_block i ''toolCall'' tag rd = Inr (am_content (rd_message rd) ! i, s)"
      and i: "i < length vs" and eb: "en_blocks en i = Some b" and kb: "encoder_kind b = ''toolCall''"
      and rel: "block_rel J (vs ! i) (Some b) (am_content (rd_message rd) ! i) s"
    by (rule agrees_active [OF assms(1) b]) blast
  obtain snap ds call where v: "vs ! i = View_Tool snap ds None" and c: "am_content (rd_message rd) ! i = Content_ToolCall call"
      and s: "rb_kind s = ''toolCall''" "\<not> rb_ended s" "rb_json s = (if caught J snap ds then concat ds else [])"
      and call: "call\<lparr>tcall_arguments := tcall_arguments snap\<rparr> = snap" "concat ds = [] \<or> \<not> caught J snap ds \<longrightarrow> call = snap"
      and bv: "b = (if caught J snap ds then Encoder_ToolCall True [] []
              else Encoder_ToolCall False (concat ds) (jio_show J (tcall_arguments snap)))"
    by (rule block_rel_tool [OF rel kb])
  note keep = agrees_keep [OF assms(1) i active_state [OF act [rule_format]]] and upd = agrees_update [OF assms(1) i]
  show ?thesis
  proof (cases "caught J snap ds")
    case True
    have same: "en' = en\<lparr>en_blocks := (en_blocks en)(i := Some b)\<rparr>"
      using assms(2) b bv True eb by (simp add: encode_tool_delta_def fun_upd_idem)
    have fo: "fo = (if d = [] then None else Some (Frame_ToolcallDelta i d))"
      using assms(2) b bv True by (simp add: encode_tool_delta_def)
    have rel': "block_rel J (View_Tool snap (ds @ [d]) None) (Some b) (am_content (rd_message rd) ! i) (s\<lparr>rb_json := rb_json s @ d\<rparr>)"
      using s call bv True unfolding c by (auto simp: caught_snoc)
    show ?thesis
    proof (cases "d = []")
      case True
      then have "s\<lparr>rb_json := rb_json s @ d\<rparr> = s" by simp
      from keep [OF rel' [unfolded this]] True same fo v show ?thesis by (simp add: follows_def del: block_rel.simps)
    next
      case False
      from upd [OF rel'] False same fo v act show ?thesis by (simp add: follows_def del: block_rel.simps)
    qed
  next
    case False
    let ?buf = "concat ds @ d"
    let ?reach = "reaches_snapshot J (jio_show J (tcall_arguments snap)) ?buf"
    let ?b = "if ?reach then Encoder_ToolCall True [] [] else Encoder_ToolCall False ?buf (jio_show J (tcall_arguments snap))"
    have en': "en' = en\<lparr>en_blocks := (en_blocks en)(i \<mapsto> ?b)\<rparr>"
        "fo = (if ?reach \<and> ?buf \<noteq> [] then Some (Frame_ToolcallCheckpoint i ?buf) else None)"
      using assms(2) b bv False by (auto simp: encode_tool_delta_def Let_def split: if_splits)
    show ?thesis
    proof (cases "?reach \<and> ?buf \<noteq> []")
      case True
      have "block_rel J (View_Tool snap (ds @ [d]) None) (Some ?b)
          (Content_ToolCall (call\<lparr>tcall_arguments := parse_arguments J ?buf\<rparr>)) (s\<lparr>rb_json := ?buf\<rparr>)"
        using s call True by (auto simp: caught_snoc)
      from upd [OF this] en' True v c act show ?thesis by (simp add: follows_def)
    next
      case no: False
      have "block_rel J (View_Tool snap (ds @ [d]) None) (Some ?b) (Content_ToolCall call) s"
        using s call False no by (auto simp: caught_snoc)
      moreover have "fo = None" using en'(2) no by (simp del: concat_eq_Nil_conv append_is_Nil_conv)
      ultimately show ?thesis
        using keep [of "View_Tool snap (ds @ [d]) None" "Some ?b"] en'(1) v c
        by (simp add: follows_def del: block_rel.simps)
    qed
  qed
qed

lemma end_block_Inr:
  "end_block i kind en = Inr en' \<Longrightarrow> \<exists>b. block_mut i kind en = Inr b \<and> en' = en\<lparr>en_blocks := (en_blocks en)(i := None)\<rparr>"
  by (auto simp: end_block_def)

lemma follows_end:
  assumes "agrees J vs en rd" and "encode_block_event J ev en = Inr (fo, en')"
    and "ev = Stream_TextEnd i content p \<or> ev = Stream_ThinkingEnd i content p \<or> ev = Stream_ToolCallEnd i call p"
  shows "follows J (observe vs ev) fo en' rd"
proof -
  obtain kind b where b: "block_mut i kind en = Inr b" and en': "en' = en\<lparr>en_blocks := (en_blocks en)(i := None)\<rparr>"
      and kind: "kind = (case ev of Stream_TextEnd _ _ _ \<Rightarrow> ''text'' | Stream_ThinkingEnd _ _ _ \<Rightarrow> ''thinking'' | _ \<Rightarrow> ''toolCall'')"
    using assms(2,3) by (auto dest!: end_block_Inr)
  obtain s where act: "\<forall>tag. active_block i kind tag rd = Inr (am_content (rd_message rd) ! i, s)"
      and i: "i < length vs" and kb: "encoder_kind b = kind"
      and rel: "block_rel J (vs ! i) (Some b) (am_content (rd_message rd) ! i) s"
    by (rule agrees_active [OF assms(1) b]) blast
  note upd = agrees_update [OF assms(1) i, of _ None _ "s\<lparr>rb_ended := True\<rparr>"]
  from assms(3) show ?thesis
  proof (elim disjE)
    assume ev: "ev = Stream_TextEnd i content p"
    then obtain t where t: "am_content p ! i = Content_Text t" "fo = Some (Frame_TextEnd i content (tx_text_signature t))"
      using assms(2) by (auto dest: text_block_Inr)
    have k: "encoder_kind b = ''text''" using kb kind ev by simp
    obtain snap ds t' where v: "vs ! i = View_Text snap ds None" "am_content (rd_message rd) ! i = Content_Text t'" "rb_kind s = ''text''"
      using rel k by (cases "(J, vs ! i, Some b, am_content (rd_message rd) ! i, s)" rule: block_rel.cases) (auto split: if_splits)
    show ?thesis
      using upd [of "View_Text snap ds (Some \<lparr>tx_text = content, tx_text_signature = tx_text_signature t\<rparr>)"
          "Content_Text \<lparr>tx_text = content, tx_text_signature = tx_text_signature t\<rparr>"] ev t v act kind en'
      by (cases t') (simp add: follows_def)
  next
    assume ev: "ev = Stream_ThinkingEnd i content p"
    then obtain t where t: "am_content p ! i = Content_Thinking t"
        "fo = Some (Frame_ThinkingEnd i content (th_thinking_signature t) (Some (th_redacted t)))"
      using assms(2) by (auto dest: text_block_Inr)
    have k: "encoder_kind b = ''thinking''" using kb kind ev by simp
    obtain snap ds t' where v: "vs ! i = View_Thinking snap ds None" "am_content (rd_message rd) ! i = Content_Thinking t'" "rb_kind s = ''thinking''"
      using rel k by (cases "(J, vs ! i, Some b, am_content (rd_message rd) ! i, s)" rule: block_rel.cases) (auto split: if_splits)
    let ?t = "\<lparr>th_thinking = content, th_thinking_signature = th_thinking_signature t, th_redacted = th_redacted t\<rparr>"
    show ?thesis
      using upd [of "View_Thinking snap ds (Some ?t)" "Content_Thinking ?t"] ev t v act kind en'
      by (cases t') (simp add: follows_def)
  next
    assume ev: "ev = Stream_ToolCallEnd i call p"
    then have fo: "fo = Some (Frame_ToolcallEnd i (tcall_id call) (tcall_name call) (tcall_arguments call)
        (tcall_thought_signature call) (tcall_namespace call) (tcall_recorded call))"
      using assms(2) by auto
    have k: "encoder_kind b = ''toolCall''" using kb kind ev by simp
    obtain snap ds t' where v: "vs ! i = View_Tool snap ds None" "am_content (rd_message rd) ! i = Content_ToolCall t'" "rb_kind s = ''toolCall''"
      by (rule block_rel_tool [OF rel k])
    show ?thesis
      using upd [of "View_Tool snap ds (Some call)" "Content_ToolCall call"] ev fo v act kind en'
      by (cases t'; cases call) (simp add: follows_def)
  qed
qed

subsection \<open>Streams\<close>

fun starts_at :: "'f stream_event \<Rightarrow> nat option" where
  "starts_at (Stream_TextStart i _) = Some i"
| "starts_at (Stream_ThinkingStart i _) = Some i"
| "starts_at (Stream_ToolCallStart i _) = Some i"
| "starts_at _ = None"

text \<open>The blocks start at the indices 0, 1, 2 and so on, from \<open>n\<close>.\<close>

fun starts_in_order :: "nat \<Rightarrow> 'f stream_event list \<Rightarrow> bool" where
  "starts_in_order n [] \<longleftrightarrow> True"
| "starts_in_order n (ev # es) \<longleftrightarrow>
     (case starts_at ev of None \<Rightarrow> starts_in_order n es | Some i \<Rightarrow> i = n \<and> starts_in_order (Suc n) es)"

lemma follows_block_event:
  assumes "agrees J vs en rd" and "encode_block_event J ev en = Inr (fo, en')" and "\<forall>i. starts_at ev = Some i \<longrightarrow> i = length vs"
  shows "follows J (observe vs ev) fo en' rd"
  using assms follows_start [OF assms(1,2)] follows_end [OF assms(1,2)]
  by (cases ev) (auto intro: follows_text_delta follows_tool_delta)

lemma observe_length:
  assumes "encode_block_event J ev en = Inr (fo, en')"
  shows "length (observe vs ev) = (if starts_at ev = None then length vs else Suc (length vs))"
  using assms by (cases ev) (auto dest: text_block_Inr)

text \<open>A stream encoded event by event; every event must be accepted.\<close>

fun encode_all :: "'f json_io \<Rightarrow> encoder \<Rightarrow> 'f stream_event list \<Rightarrow> frame_error + 'f message_frame option list" where
  "encode_all J en [] = Inr []"
| "encode_all J en (ev # es) =
     res_bind (encode_event J en ev) (\<lambda>(fo, en). res_bind (encode_all J en es) (\<lambda>fos. Inr (fo # fos)))"

abbreviation frames_of :: "'f message_frame option list \<Rightarrow> 'f message_frame list" where
  "frames_of \<equiv> filter_map (\<lambda>fo. fo)"

lemma encode_delta_started:
  "encode_text_delta i d kind en = Inr (fo, en') \<Longrightarrow> en_started en' = en_started en \<and> (\<forall>p. fo \<noteq> Some (Frame_Start p))"
  "encode_tool_delta J i d en = Inr (fo, en') \<Longrightarrow> en_started en' = en_started en \<and> (\<forall>p. fo \<noteq> Some (Frame_Start p))"
proof -
  assume "encode_text_delta i d kind en = Inr (fo, en')"
  then obtain b where "block_mut i kind en = Inr b" by (auto simp: encode_text_delta_def)
  with \<open>encode_text_delta i d kind en = Inr (fo, en')\<close>
  show "en_started en' = en_started en \<and> (\<forall>p. fo \<noteq> Some (Frame_Start p))"
    by (cases b) (auto simp: encode_text_delta_def Let_def split: if_splits)
next
  assume a: "encode_tool_delta J i d en = Inr (fo, en')"
  then obtain b where "block_mut i ''toolCall'' en = Inr b" by (auto simp: encode_tool_delta_def)
  with a show "en_started en' = en_started en \<and> (\<forall>p. fo \<noteq> Some (Frame_Start p))"
    by (cases b) (auto simp: encode_tool_delta_def Let_def split: if_splits)
qed

lemma encode_started:
  assumes "en_started en" and "encode_event J en ev = Inr (fo, en')"
  shows "en_started en' \<and> (\<forall>p. fo \<noteq> Some (Frame_Start p))
     \<and> (encode_block_event J ev en = Inr (fo, en') \<or> fo = None \<and> observe vs ev = vs \<and> starts_at ev = None \<and> en_blocks en' = en_blocks en)"
proof -
  have "en_started en' \<and> (\<forall>p. fo \<noteq> Some (Frame_Start p))" if "encode_block_event J ev en = Inr (fo, en')"
    using that assms(1)
    by (cases ev) (auto simp: Let_def dest!: end_block_Inr start_block_Inr dest: encode_delta_started)
  moreover have "encode_block_event J ev en = Inr (fo, en')
      \<or> fo = None \<and> observe vs ev = vs \<and> starts_at ev = None \<and> en' = en\<lparr>en_terminal := True\<rparr>"
    using assms by (cases ev) (auto simp: encode_event_def split: if_splits)
  ultimately show ?thesis using assms(1) by auto
qed

lemma agrees_blocks: "en_blocks en' = en_blocks en \<Longrightarrow> agrees J vs en' rd = agrees J vs en rd"
  by (simp add: agrees_def)

lemma step_after_start:
  "\<forall>p. f \<noteq> Frame_Start p \<Longrightarrow> reduction_step J (After_Start rd) f = res_bind (reduce_frame J f rd) (\<lambda>rd. Inr (After_Start rd))"
  by (cases f) auto

lemma replay_blocks:
  assumes "agrees J vs en rd" and "en_started en" and "encode_all J en es = Inr fos" and "starts_in_order (length vs) es"
  shows "\<exists>en' rd'. fold_res (reduction_step J) (After_Start rd) (frames_of fos) = Inr (After_Start rd')
     \<and> agrees J (foldl observe vs es) en' rd'"
  using assms
proof (induction es arbitrary: vs en rd fos)
  case Nil
  then show ?case by auto
next
  case (Cons ev es)
  from Cons.prems(3) obtain fo en' fos' where ev: "encode_event J en ev = Inr (fo, en')"
      and rest: "encode_all J en' es = Inr fos'" "fos = fo # fos'"
    by auto
  note st = encode_started [OF Cons.prems(2) ev, of vs]
  have order: "\<forall>i. starts_at ev = Some i \<longrightarrow> i = length vs"
      "starts_in_order (if starts_at ev = None then length vs else Suc (length vs)) es"
    using Cons.prems(4) by (auto split: option.splits)
  have "follows J (observe vs ev) fo en' rd \<and> length (observe vs ev) = (if starts_at ev = None then length vs else Suc (length vs))"
  proof (cases "encode_block_event J ev en = Inr (fo, en')")
    case True
    then show ?thesis
      using follows_block_event [OF Cons.prems(1) True order(1)] observe_length [OF True] by blast
  next
    case False
    then show ?thesis using st Cons.prems(1) by (simp add: follows_def agrees_blocks [of en' en])
  qed
  then obtain rd' where rd': "feed J fo rd = Inr rd'" "agrees J (observe vs ev) en' rd'"
      and len: "starts_in_order (length (observe vs ev)) es"
    using order(2) by (auto simp: follows_def)
  have "fold_res (reduction_step J) (After_Start rd) (frames_of fos)
      = fold_res (reduction_step J) (After_Start rd') (frames_of fos')"
    using rest rd'(1) st by (cases fo) (simp_all add: step_after_start)
  with Cons.IH [OF rd'(2) _ rest(1) len] st show ?case by auto
qed

subsection \<open>The replayed message\<close>

definition salvaged :: "'f json_io \<Rightarrow> reducer_block \<Rightarrow> 'f content \<Rightarrow> 'f content" where
  "salvaged J s c =
     (if rb_kind s \<noteq> ''toolCall'' \<or> rb_ended s \<or> rb_json s = [] then c
      else map_tool_call (\<lambda>call. call\<lparr>tcall_arguments := parse_arguments J (rb_json s)\<rparr>) c)"

lemma salvage_all:
  assumes "distinct (map fst l)"
    and "\<forall>(i, s) \<in> set l. i < length (am_content m) \<and> (rb_kind s = ''toolCall'' \<longrightarrow> (\<exists>call. am_content m ! i = Content_ToolCall call))"
  shows "\<exists>m'. fold_res (salvage_arguments J) m l = Inr m' \<and> m'\<lparr>am_content := am_content m\<rparr> = m
     \<and> length (am_content m') = length (am_content m)
     \<and> (\<forall>i < length (am_content m). am_content m' ! i =
          (case map_of l i of None \<Rightarrow> am_content m ! i | Some s \<Rightarrow> salvaged J s (am_content m ! i)))"
  using assms
proof (induction l arbitrary: m)
  case (Cons x l)
  obtain i s where x: "x = (i, s)" by (cases x)
  let ?m = "m\<lparr>am_content := (am_content m)[i := salvaged J s (am_content m ! i)]\<rparr>"
  have step: "salvage_arguments J m x = Inr ?m"
    using Cons.prems(2) x by (auto simp: salvage_arguments_def salvaged_def)
  have "i \<notin> fst ` set l" using Cons.prems(1) x by auto
  then have pre: "\<forall>(j, t) \<in> set l. j < length (am_content ?m)
      \<and> (rb_kind t = ''toolCall'' \<longrightarrow> (\<exists>call. am_content ?m ! j = Content_ToolCall call))"
    using Cons.prems(2) by (force simp: nth_list_update)
  from Cons.IH [OF _ pre] Cons.prems(1) obtain m' where m': "fold_res (salvage_arguments J) ?m l = Inr m'"
      "m'\<lparr>am_content := am_content ?m\<rparr> = ?m" "length (am_content m') = length (am_content ?m)"
      "\<forall>j < length (am_content ?m). am_content m' ! j =
         (case map_of l j of None \<Rightarrow> am_content ?m ! j | Some t \<Rightarrow> salvaged J t (am_content ?m ! j))"
    by auto
  have "map_of l i = None" using \<open>i \<notin> fst ` set l\<close> by (simp add: map_of_eq_None_iff)
  moreover have "m'\<lparr>am_content := am_content m\<rparr> = m"
    using m'(2) by (cases m; cases m') simp
  ultimately show ?case
    using m' step x by (auto simp: nth_list_update split: option.splits)
qed auto

lemma same_call:
  "call\<lparr>tcall_arguments := a\<rparr> = snap \<Longrightarrow> call\<lparr>tcall_arguments := x\<rparr> = snap\<lparr>tcall_arguments := x\<rparr>"
  by (drule sym) simp

lemma block_rel_final: "block_rel J v b c s \<Longrightarrow> salvaged J s c = view_content J v"
  by (cases "(J, v, b, c, s)" rule: block_rel.cases)
    (auto simp: salvaged_def split: if_splits simp del: concat_eq_Nil_conv intro: same_call)

lemma final_content:
  assumes "agrees J vs en rd"
  shows "fold_res (salvage_arguments J) (rd_message rd) (rd_states rd)
    = Inr ((rd_message rd)\<lparr>am_content := map (view_content J) vs\<rparr>)"
proof -
  have keys: "i < length vs" "block_rel J (vs ! i) (en_blocks en i) (am_content (rd_message rd) ! i) s"
    if "(i, s) \<in> set (rd_states rd)" for i s
  proof -
    have "map_of (rd_states rd) i = Some s"
      using that assms by (intro map_of_is_SomeI bt_sorted_distinct) (auto simp: agrees_def)
    then show "i < length vs" "block_rel J (vs ! i) (en_blocks en i) (am_content (rd_message rd) ! i) s"
      using assms by (auto simp: agrees_def) (metis linorder_not_le option.distinct(1) option.inject)+
  qed
  have calls: "\<forall>(i, s) \<in> set (rd_states rd). i < length (am_content (rd_message rd))
      \<and> (rb_kind s = ''toolCall'' \<longrightarrow> (\<exists>call. am_content (rd_message rd) ! i = Content_ToolCall call))"
  proof (clarify, intro conjI impI)
    fix i s assume el: "(i, s) \<in> set (rd_states rd)"
    then show "i < length (am_content (rd_message rd))" using keys assms by (simp add: agrees_def)
    assume "rb_kind s = ''toolCall''"
    moreover have "block_rel J (vs ! i) (en_blocks en i) (am_content (rd_message rd) ! i) s" using keys(2) [OF el] by blast
    ultimately show "\<exists>call. am_content (rd_message rd) ! i = Content_ToolCall call"
      by (cases "(J, vs ! i, en_blocks en i, am_content (rd_message rd) ! i, s)" rule: block_rel.cases) (auto split: if_splits)
  qed
  from salvage_all [OF bt_sorted_distinct calls, of J] assms obtain m where
      m: "fold_res (salvage_arguments J) (rd_message rd) (rd_states rd) = Inr m"
      "m\<lparr>am_content := am_content (rd_message rd)\<rparr> = rd_message rd" "length (am_content m) = length vs"
      "\<forall>i < length vs. am_content m ! i = (case map_of (rd_states rd) i of
         None \<Rightarrow> am_content (rd_message rd) ! i | Some s \<Rightarrow> salvaged J s (am_content (rd_message rd) ! i))"
    by (auto simp: agrees_def)
  have "am_content m = map (view_content J) vs"
    using m(3,4) assms by (intro nth_equalityI) (auto simp: agrees_def dest!: spec block_rel_final)
  then have "m = (rd_message rd)\<lparr>am_content := map (view_content J) vs\<rparr>"
    using m(2) by (cases m; cases "rd_message rd") simp
  then show ?thesis using m(1) by simp
qed

text \<open>The reducer changes nothing of the message but its content.\<close>

lemma reduce_frame_identity:
  "reduce_frame J f rd = Inr rd' \<Longrightarrow> (rd_message rd')\<lparr>am_content := x\<rparr> = (rd_message rd)\<lparr>am_content := x\<rparr>"
  by (cases f) (auto simp: append_block_def put_block_def Let_def split: if_splits)

lemma replay_identity:
  "fold_res (reduction_step J) (After_Start rd) fs = Inr (After_Start rd') \<Longrightarrow>
     (rd_message rd')\<lparr>am_content := x\<rparr> = (rd_message rd)\<lparr>am_content := x\<rparr>"
proof (induction fs arbitrary: rd)
  case (Cons f fs)
  show ?case
  proof (cases "\<exists>p. f = Frame_Start p")
    case False
    then show ?thesis using Cons by (auto simp: step_after_start dest: reduce_frame_identity)
  qed (use Cons in auto)
qed simp

lemma encode_all_take: "encode_all J en es = Inr fos \<Longrightarrow> encode_all J en (take n es) = Inr (take n fos)"
proof (induction es arbitrary: en fos n)
  case (Cons ev es)
  then show ?case by (cases n) auto
qed simp

lemma starts_in_order_take: "starts_in_order k es \<Longrightarrow> starts_in_order k (take n es)"
proof (induction es arbitrary: k n)
  case (Cons ev es)
  then show ?case by (cases n) (auto split: option.splits)
qed simp

lemma agrees_new: "agrees J [] (encoder_new\<lparr>en_started := True\<rparr>) \<lparr>rd_message = clone_start_message p, rd_states = []\<rparr>"
  by (simp add: agrees_def encoder_new_def clone_start_message_def)

lemma clone_clone: "clone_start_message (clone_start_message p) = clone_start_message p"
  by (simp add: clone_start_message_def)

text \<open>The frames of a started stream, run through the reducer.\<close>

lemma replay_started:
  assumes "encode_all J encoder_new (Stream_Start p # es) = Inr fos" and "starts_in_order 0 es"
  shows "\<exists>fos' en rd. fos = Some (Frame_Start (clone_start_message p)) # fos'
     \<and> encode_all J (encoder_new\<lparr>en_started := True\<rparr>) es = Inr fos'
     \<and> agrees J (foldl observe [] es) en rd
     \<and> reduce_frames J (frames_of fos)
         = Inr (Some ((clone_start_message p)\<lparr>am_content := map (view_content J) (foldl observe [] es)\<rparr>))"
proof -
  obtain fos' where fos: "fos = Some (Frame_Start (clone_start_message p)) # fos'"
      "encode_all J (encoder_new\<lparr>en_started := True\<rparr>) es = Inr fos'"
    using assms(1) by (auto simp: encode_event_def encoder_new_def)
  obtain en rd where rd: "fold_res (reduction_step J) (After_Start \<lparr>rd_message = clone_start_message p, rd_states = []\<rparr>)
        (frames_of fos') = Inr (After_Start rd)" "agrees J (foldl observe [] es) en rd"
    using replay_blocks [OF agrees_new [of J p] _ fos(2)] assms(2) by auto
  have "(rd_message rd)\<lparr>am_content := x\<rparr> = (clone_start_message p)\<lparr>am_content := x\<rparr>" for x
    using replay_identity [OF rd(1)] by simp
  then have "reduce_frames J (frames_of fos)
      = Inr (Some ((clone_start_message p)\<lparr>am_content := map (view_content J) (foldl observe [] es)\<rparr>))"
    using fos rd final_content [OF rd(2)] by (simp add: reduce_frames_def clone_clone)
  then show ?thesis using fos rd by blast
qed

text \<open>
  C5. Whatever prefix of a stream was committed, replaying it restores the message as far as it had come:
  the identity of the start event, and per block its settled content or, while it was open, the
  snapshot and exactly the streamed characters behind it (no character of a delta is replayed twice);
  the arguments of an open call are those streamed, once they reach the snapshot.
\<close>

theorem replay_restores_prefix:
  assumes "encode_all J encoder_new (Stream_Start p # es) = Inr fos" and "starts_in_order 0 es"
  shows "reduce_frames J (frames_of (take n fos)) = Inr (if n = 0 then None else
     Some ((clone_start_message p)\<lparr>am_content := map (view_content J) (foldl observe [] (take (n - 1) es))\<rparr>))"
proof (cases n)
  case 0
  then show ?thesis by (simp add: reduce_frames_def)
next
  case (Suc k)
  have "encode_all J encoder_new (Stream_Start p # take k es) = Inr (take n fos)"
    using encode_all_take [OF assms(1), of n] Suc by simp
  from replay_started [OF this starts_in_order_take [OF assms(2)]] Suc show ?thesis by auto
qed

text \<open>When snapshot and deltas tell the same text, an open block holds the longer of the two.\<close>

lemma live_text:
  "take (length s) ds = s \<or> take (length ds) s = ds \<Longrightarrow>
     s @ drop (length s) ds = (if length s \<le> length ds then ds else s)"
proof (elim disjE)
  assume s: "take (length s) ds = s"
  then have "length s \<le> length ds" by (metis length_take min.absorb_iff2)
  then show ?thesis using append_take_drop_id [of "length s" ds] s by simp
next
  assume "take (length ds) s = ds"
  then show ?thesis by (cases "length s \<le> length ds") (auto dest: order_antisym [of "length s"])
qed

subsection \<open>Settled streams\<close>

fun view_settled :: "'f block_view \<Rightarrow> bool" where
  "view_settled (View_Text _ _ end) = (end \<noteq> None)"
| "view_settled (View_Thinking _ _ end) = (end \<noteq> None)"
| "view_settled (View_Tool _ _ end) = (end \<noteq> None)"

fun ends_at :: "'f stream_event \<Rightarrow> nat option" where
  "ends_at (Stream_TextEnd i _ _) = Some i"
| "ends_at (Stream_ThinkingEnd i _ _) = Some i"
| "ends_at (Stream_ToolCallEnd i _ _) = Some i"
| "ends_at _ = None"

text \<open>An end event settles its block as the final content \<open>c\<close> has it.\<close>

fun ends_as :: "'f content list \<Rightarrow> 'f stream_event \<Rightarrow> bool" where
  "ends_as cs (Stream_TextEnd i s p) \<longleftrightarrow>
     cs ! i = map_text (\<lambda>b. b\<lparr>tx_text := s\<rparr>) (am_content p ! i)"
| "ends_as cs (Stream_ThinkingEnd i s p) \<longleftrightarrow>
     cs ! i = map_thinking (\<lambda>b. b\<lparr>th_thinking := s\<rparr>) (am_content p ! i)"
| "ends_as cs (Stream_ToolCallEnd i call _) \<longleftrightarrow> cs ! i = Content_ToolCall call"
| "ends_as cs _ \<longleftrightarrow> True"

lemma nth_update_at: "j < length xs \<Longrightarrow> xs[i := x] ! j = (if i = j then x else xs ! j)"
  by (cases "i = j") simp_all

lemma observe_settles:
  assumes "encode_block_event J ev en = Inr (fo, en')" and "ends_as cs ev"
    and "\<forall>i < length vs. view_settled (vs ! i) \<longrightarrow> view_content J (vs ! i) = cs ! i"
  shows "\<forall>i < length (observe vs ev). view_settled (observe vs ev ! i) \<longrightarrow> view_content J (observe vs ev ! i) = cs ! i"
proof -
  have delta: "view_settled (with_delta d v) = view_settled v" "view_settled v \<Longrightarrow> view_content J (with_delta d v) = view_content J v" for d v
    by (cases v; auto)+
  have call: "view_settled (settled_call call v) \<Longrightarrow> (view_settled v \<Longrightarrow> view_content J v = Content_ToolCall call) \<Longrightarrow>
      view_content J (settled_call call v) = Content_ToolCall call" for call v
    by (cases v) auto
  have tx: "view_settled (settled_text s c v) \<Longrightarrow>
      c = Content_Text b \<and> view_content J (settled_text s c v) = Content_Text (b\<lparr>tx_text := s\<rparr>) \<or> settled_text s c v = v"
    if "c = Content_Text b" for s c v b
    using that by (cases v; cases b) auto
  have think: "view_settled (settled_text s c v) \<Longrightarrow>
      c = Content_Thinking b \<and> view_content J (settled_text s c v) = Content_Thinking (b\<lparr>th_thinking := s\<rparr>) \<or> settled_text s c v = v"
    if "c = Content_Thinking b" for s c v b
    using that by (cases v; cases b) auto
  show ?thesis
    using assms by (cases ev) (auto simp: nth_append nth_update_at delta less_Suc_eq
      dest!: text_block_Inr dest: tx think intro: call split: if_splits)
qed

lemma observe_keeps_settled:
  assumes "i < length vs" and "view_settled (vs ! i)"
  shows "view_settled (observe vs ev ! i)"
proof -
  have "view_settled v \<Longrightarrow> view_settled (with_delta d v)" "view_settled v \<Longrightarrow> view_settled (settled_call call v)" for v d call
    by (cases v; simp)+
  moreover have "view_settled v \<Longrightarrow> view_settled (settled_text s c v)" for s c v
    by (cases v; cases c) auto
  ultimately show ?thesis
    using assms by (cases ev) (auto simp: nth_append nth_update_at)
qed

lemma agrees_settled:
  assumes "agrees J vs en rd" and "i < length vs" and "en_blocks en i = None"
  shows "view_settled (vs ! i)"
proof -
  from assms obtain s where "block_rel J (vs ! i) None (am_content (rd_message rd) ! i) s"
    by (auto simp: agrees_def)
  then show ?thesis
    by (cases "(J, vs ! i, None :: encoder_block option, am_content (rd_message rd) ! i, s)" rule: block_rel.cases)
      (auto split: if_splits)
qed

text \<open>The views of an accepted stream: settled where a block has ended, and then as its end event said.\<close>

definition views_ended :: "'f json_io \<Rightarrow> 'f content list \<Rightarrow> nat set \<Rightarrow> 'f block_view list \<Rightarrow> bool" where
  "views_ended J cs ended vs \<longleftrightarrow>
     (\<forall>i < length vs. (view_settled (vs ! i) \<longrightarrow> view_content J (vs ! i) = cs ! i) \<and> (i \<in> ended \<longrightarrow> view_settled (vs ! i)))
     \<and> (\<forall>i \<in> ended. i < length vs)"

lemma views_ended_step:
  assumes "agrees J vs en rd" and "encode_block_event J ev en = Inr (fo, en')" and "\<forall>i. starts_at ev = Some i \<longrightarrow> i = length vs"
    and "ends_as cs ev" and "views_ended J cs ended vs"
  shows "views_ended J cs (ended \<union> set_option (ends_at ev)) (observe vs ev)"
proof -
  obtain rd' where rd': "agrees J (observe vs ev) en' rd'"
    using follows_block_event [OF assms(1,2,3)] by (auto simp: follows_def)
  have len: "length (observe vs ev) \<ge> length vs" using observe_length [OF assms(2), of vs] by auto
  have ended: "i < length vs \<and> en_blocks en' i = None" if "ends_at ev = Some i" for i
  proof -
    from that assms(2) obtain kind b where "block_mut i kind en = Inr b" "en_blocks en' i = None"
      by (cases ev) (auto dest!: end_block_Inr)
    with agrees_active [OF assms(1)] show ?thesis by blast
  qed
  have settled: "view_settled (observe vs ev ! i)" if "ends_at ev = Some i" for i
    using agrees_settled [OF rd', of i] ended [OF that] len by simp
  show ?thesis
    using observe_settles [OF assms(2,4)] assms(5) settled ended len observe_keeps_settled
    by (fastforce simp: views_ended_def)
qed

lemma views_ended_stream:
  assumes "agrees J vs en rd" and "en_started en" and "encode_all J en es = Inr fos" and "starts_in_order (length vs) es"
    and "\<forall>ev \<in> set es. ends_as cs ev" and "views_ended J cs ended vs"
  shows "views_ended J cs (ended \<union> (\<Union>ev \<in> set es. set_option (ends_at ev))) (foldl observe vs es)"
  using assms
proof (induction es arbitrary: vs en rd fos ended)
  case (Cons ev es)
  from Cons.prems(3) obtain fo en' fos' where ev: "encode_event J en ev = Inr (fo, en')" "encode_all J en' es = Inr fos'"
    by auto
  note st = encode_started [OF Cons.prems(2) ev(1), of vs]
  have order: "\<forall>i. starts_at ev = Some i \<longrightarrow> i = length vs"
      "starts_in_order (if starts_at ev = None then length vs else Suc (length vs)) es"
    using Cons.prems(4) by (auto split: option.splits)
  have "\<exists>rd'. agrees J (observe vs ev) en' rd' \<and> starts_in_order (length (observe vs ev)) es
      \<and> views_ended J cs (ended \<union> set_option (ends_at ev)) (observe vs ev)"
  proof (cases "encode_block_event J ev en = Inr (fo, en')")
    case True
    have "ends_as cs ev" using Cons.prems(5) by simp
    from views_ended_step [OF Cons.prems(1) True order(1) this Cons.prems(6)]
      follows_block_event [OF Cons.prems(1) True order(1)] observe_length [OF True, of vs] order(2)
    show ?thesis by (auto simp: follows_def)
  next
    case False
    then have same: "observe vs ev = vs" "starts_at ev = None" "en_blocks en' = en_blocks en" using st by auto
    moreover have "ends_at ev = None"
      using False ev(1) Cons.prems(2) by (cases ev) (auto simp: encode_event_def split: if_splits)
    ultimately show ?thesis using Cons.prems(1,6) order(2) agrees_blocks [of en' en] by auto
  qed
  then obtain rd' where rd': "agrees J (observe vs ev) en' rd'" "starts_in_order (length (observe vs ev)) es"
      "views_ended J cs (ended \<union> set_option (ends_at ev)) (observe vs ev)"
    by blast
  from Cons.IH [OF rd'(1) _ ev(2) rd'(2) _ rd'(3)] st Cons.prems(5) show ?case by (simp add: Un_assoc)
qed simp

lemma starts_are_blocks:
  assumes "en_started en" and "encode_all J en es = Inr fos" and "starts_in_order (length vs) es"
  shows "length vs \<le> length (foldl observe vs es)
     \<and> {i. \<exists>ev \<in> set es. starts_at ev = Some i} = {length vs ..< length (foldl observe vs es)}"
  using assms
proof (induction es arbitrary: vs en fos)
  case (Cons ev es)
  from Cons.prems(2) obtain fo en' fos' where ev: "encode_event J en ev = Inr (fo, en')" "encode_all J en' es = Inr fos'"
    by auto
  note st = encode_started [OF Cons.prems(1) ev(1), of vs]
  have len: "length (observe vs ev) = (if starts_at ev = None then length vs else Suc (length vs))"
    using st observe_length [of J ev en fo en' vs] by auto
  have order: "starts_in_order (length (observe vs ev)) es" "\<forall>i. starts_at ev = Some i \<longrightarrow> i = length vs"
    using Cons.prems(3) len by (auto split: option.splits)
  have "{i. \<exists>e \<in> set (ev # es). starts_at e = Some i} = set_option (starts_at ev) \<union> {i. \<exists>e \<in> set es. starts_at e = Some i}"
    by auto
  with Cons.IH [OF _ ev(2) order(1)] st len order(2) show ?case by (auto split: if_splits)
qed simp

text \<open>
  C6. Frames lose nothing of a settled stream: when every block of the message was started and ended, each
  ended with its final content, the frames replay to the message, with the identity of the start event.
\<close>

theorem settled_stream_round_trip:
  assumes "encode_all J encoder_new (Stream_Start p # es) = Inr fos" and "starts_in_order 0 es"
    and "\<forall>ev \<in> set es. ends_as (am_content m) ev"
    and "{i. \<exists>ev \<in> set es. starts_at ev = Some i} = {..<length (am_content m)}"
    and "{i. \<exists>ev \<in> set es. ends_at ev = Some i} = {..<length (am_content m)}"
  shows "reduce_frames J (frames_of fos) = Inr (Some ((clone_start_message p)\<lparr>am_content := am_content m\<rparr>))"
proof -
  let ?vs = "foldl observe [] es"
  obtain fos' where fos': "encode_all J (encoder_new\<lparr>en_started := True\<rparr>) es = Inr fos'"
      and red: "reduce_frames J (frames_of fos) = Inr (Some ((clone_start_message p)\<lparr>am_content := map (view_content J) ?vs\<rparr>))"
    using replay_started [OF assms(1,2)] by blast
  have "length ?vs = length (am_content m)"
    using starts_are_blocks [OF _ fos', of "[]"] assms(2,4) by (simp add: atLeast0LessThan)
  moreover have "views_ended J (am_content m) {i. \<exists>ev \<in> set es. ends_at ev = Some i} ?vs"
  proof -
    have "views_ended J (am_content m) {} []" by (simp add: views_ended_def)
    from views_ended_stream [OF agrees_new _ fos' _ assms(3) this] assms(2)
    have "views_ended J (am_content m) ({} \<union> (\<Union>ev \<in> set es. set_option (ends_at ev))) ?vs" by simp
    moreover have "{} \<union> (\<Union>ev \<in> set es. set_option (ends_at ev)) = {i. \<exists>ev \<in> set es. ends_at ev = Some i}" by auto
    ultimately show ?thesis by simp
  qed
  ultimately have "map (view_content J) ?vs = am_content m"
    using assms(5) by (intro nth_equalityI) (auto simp: views_ended_def)
  then show ?thesis using red by simp
qed

subsection \<open>A concrete stream\<close>

text \<open>Two blocks; the start events already hold characters the deltas bring again.\<close>

definition demo_json_io :: "nat json_io" where
  "demo_json_io = \<lparr>jio_strict = (\<lambda>_. None), jio_show = (\<lambda>j. if j = empty_object then ''{}'' else ''?'')\<rparr>"

definition demo_partial :: "nat content list \<Rightarrow> nat assistant_message" where
  "demo_partial cs = (assistant_empty Api_Faux ''p'' ''m'' 0)\<lparr>am_content := cs\<rparr>"

definition demo_text :: "string \<Rightarrow> nat content" where
  "demo_text s = Content_Text \<lparr>tx_text = s, tx_text_signature = None\<rparr>"

definition demo_tool :: "nat json \<Rightarrow> nat tool_call" where
  "demo_tool args = \<lparr>tcall_id = ''c'', tcall_name = ''read'', tcall_arguments = args,
     tcall_thought_signature = None, tcall_namespace = None, tcall_recorded = None\<rparr>"

definition demo_events :: "nat stream_event list" where
  "demo_events =
     [Stream_TextStart 0 (demo_partial [demo_text ''he'']),
      Stream_TextDelta 0 ''hel'' (demo_partial []), Stream_TextDelta 0 ''lo'' (demo_partial []),
      Stream_TextEnd 0 ''hello'' (demo_partial [demo_text ''hello'']),
      Stream_ToolCallStart 1 (demo_partial [demo_text ''hello'', Content_ToolCall (demo_tool empty_object)]),
      Stream_ToolCallDelta 1 ''[1]'' (demo_partial []),
      Stream_ToolCallEnd 1 (demo_tool (JArray [JInt 1])) (demo_partial [demo_text ''hello'', Content_ToolCall (demo_tool (JArray [JInt 1]))]),
      Stream_Done Done_Stop (demo_partial [])]"

lemmas demo_frame_values =
  demo_events_def demo_json_io_def demo_partial_def demo_text_def demo_tool_def encode_event_def encoder_new_def
  assistant_empty_def clone_start_message_def text_block_def tool_call_block_def content_at_def start_block_def
  end_block_def block_mut_def encode_text_delta_def encode_tool_delta_def uncovered_def parse_arguments_def
  parse_streaming_json_def empty_parsed_tool_arguments_def trim_def trim_start_def trim_end_def Let_def

definition demo_fos :: "nat message_frame option list" where
  "demo_fos =
     [Some (Frame_Start (demo_partial [])), Some (Frame_TextStart 0 \<lparr>tx_text = ''he'', tx_text_signature = None\<rparr>),
      Some (Frame_TextDelta 0 ''l''), Some (Frame_TextDelta 0 ''lo''), Some (Frame_TextEnd 0 ''hello'' None),
      Some (Frame_ToolcallStart 1 (demo_tool empty_object)), Some (Frame_ToolcallDelta 1 ''[1]''),
      Some (Frame_ToolcallEnd 1 ''c'' ''read'' (JArray [JInt 1]) None None None), None]"

lemma demo_encoded: "encode_all demo_json_io encoder_new (Stream_Start (demo_partial []) # demo_events) = Inr demo_fos"
  by (simp add: demo_frame_values demo_fos_def)

lemma demo_in_order: "starts_in_order 0 demo_events"
  by (simp add: demo_events_def)

theorem replay_restores_prefix_witness:
  "reduce_frames demo_json_io (frames_of (take 4 demo_fos)) = Inr (Some (demo_partial [demo_text ''hello'']))"
proof -
  have "take 3 demo_events = [Stream_TextStart 0 (demo_partial [demo_text ''he'']),
      Stream_TextDelta 0 ''hel'' (demo_partial []), Stream_TextDelta 0 ''lo'' (demo_partial [])]"
    by (simp add: demo_events_def)
  then show ?thesis
    using replay_restores_prefix [OF demo_encoded demo_in_order, of 4] by (simp add: demo_frame_values)
qed

theorem settled_stream_round_trip_witness:
  "reduce_frames demo_json_io (frames_of demo_fos)
     = Inr (Some (demo_partial [demo_text ''hello'', Content_ToolCall (demo_tool (JArray [JInt 1]))]))"
proof -
  let ?m = "demo_partial [demo_text ''hello'', Content_ToolCall (demo_tool (JArray [JInt 1]))]"
  have "\<forall>ev \<in> set demo_events. ends_as (am_content ?m) ev"
    by (simp add: demo_events_def demo_partial_def demo_text_def)
  moreover have "{i. \<exists>ev \<in> set demo_events. starts_at ev = Some i} = {..<length (am_content ?m)}"
      "{i. \<exists>ev \<in> set demo_events. ends_at ev = Some i} = {..<length (am_content ?m)}"
    by (auto simp: demo_events_def demo_partial_def)
  ultimately show ?thesis
    using settled_stream_round_trip [OF demo_encoded demo_in_order, of ?m]
    by (simp add: demo_partial_def clone_start_message_def assistant_empty_def)
qed

end
