(* ===== verification/Progress.thy ===== *)
theory Progress
  imports Session_Records
begin

text \<open>
  The store of active progress (\<open>crates/evo-durable/src/progress.rs\<close>) for the frames of streaming
  messages (\<open>crates/evo-harness/src/session/progress.rs\<close>): batches are validated and stamped, then
  applied; clear records retire the frames of a stream or a run. The trait \<open>ProgressRecord\<close> has one
  implementation, \<open>AssistantFrameRecord\<close>, and appears here as its accessors. Sequence numbers are
  \<open>u64\<close>: naturals up to \<open>u64_max\<close>. A \<open>now\<close> closure is the sequence of times it returns.
\<close>

datatype progress_error =
    Progress_InvalidPayload string
  | Progress_InvalidCheckpoint string
  | Progress_SequenceOverflow string
  | Progress_Panic string

definition u64_max :: nat where "u64_max = 2 ^ 64 - 1"

subsection \<open>The records\<close>

abbreviation pr_id :: "'f assistant_frame \<Rightarrow> string" where "pr_id r \<equiv> rb_id (af_base r)"
abbreviation pr_lane :: "'f assistant_frame \<Rightarrow> string" where "pr_lane r \<equiv> rb_lane (af_base r)"
abbreviation pr_sequence :: "'f assistant_frame \<Rightarrow> nat" where "pr_sequence r \<equiv> rb_seq (af_base r)"

definition has_payload :: "'f assistant_frame \<Rightarrow> bool" where
  "has_payload r \<longleftrightarrow> af_frame r \<noteq> None"

definition stamp_frame :: "nat \<Rightarrow> i64 \<Rightarrow> 'f assistant_frame \<Rightarrow> 'f assistant_frame" where
  "stamp_frame sequence timestamp r =
     r\<lparr>af_base := (af_base r)\<lparr>rb_seq := sequence, rb_timestamp := timestamp\<rparr>\<rparr>"

definition clears :: "'f assistant_frame \<Rightarrow> 'f assistant_frame \<Rightarrow> bool" where
  "clears record frame \<longleftrightarrow> af_run_id frame = af_run_id record \<and> pr_lane frame = pr_lane record
     \<and> (af_op record = Frame_ClearRun
        \<or> af_op record = Frame_ClearStream \<and> af_stream_index frame = af_stream_index record)"

definition is_completed :: "(string \<Rightarrow> string set option) \<Rightarrow> 'f assistant_frame \<Rightarrow> bool" where
  "is_completed completed frame \<longleftrightarrow>
     (case completed (pr_lane frame) of None \<Rightarrow> False | Some runs \<Rightarrow> af_run_id frame \<in> runs)"

subsection \<open>The store\<close>

record 'f progress_state =
  pg_sequence :: nat
  pg_frames :: "'f assistant_frame list"
  pg_ids :: "string set"

definition progress_at :: "nat \<Rightarrow> 'f progress_state" where
  "progress_at sequence = \<lparr>pg_sequence = sequence, pg_frames = [], pg_ids = {}\<rparr>"

definition payload_fits :: "'f assistant_frame \<Rightarrow> bool" where
  "payload_fits r =
     (case af_op r of
        Frame_Append \<Rightarrow> has_payload r
      | Frame_ClearRun \<Rightarrow> \<not> has_payload r
      | Frame_ClearStream \<Rightarrow> \<not> has_payload r
      | Frame_CommitStream \<Rightarrow> False)"

text \<open>The loops of \<open>prepare\<close>: every record is checked before the first is stamped.\<close>

fun check_progress :: "string set \<Rightarrow> string set \<Rightarrow> 'f assistant_frame list \<Rightarrow> progress_error + unit" where
  "check_progress known ids [] = Inr ()"
| "check_progress known ids (r # rs) =
     (if pr_id r = [] \<or> pr_lane r = [] \<or> af_run_id r = [] then
        Inl (Progress_InvalidPayload ''progress identity must not be empty'')
      else if pr_id r \<in> known \<or> pr_id r \<in> ids then Inl (Progress_InvalidPayload ''duplicate progress id'')
      else if \<not> payload_fits r then
        Inl (Progress_InvalidPayload ''invalid progress operation; bindings belong to history'')
      else check_progress known (insert (pr_id r) ids) rs)"

fun stamp_progress :: "(nat \<Rightarrow> i64) \<Rightarrow> nat \<Rightarrow> nat \<Rightarrow> 'f assistant_frame list \<Rightarrow> progress_error + 'f assistant_frame list" where
  "stamp_progress now k sequence [] = Inr []"
| "stamp_progress now k sequence (r # rs) =
     (if sequence = u64_max then Inl (Progress_SequenceOverflow ''progress sequence overflow'')
      else res_bind (stamp_progress now (Suc k) (Suc sequence) rs) (\<lambda>rest.
             Inr (stamp_frame (Suc sequence) (now k) r # rest)))"

definition progress_prepare ::
  "(nat \<Rightarrow> i64) \<Rightarrow> 'f assistant_frame list \<Rightarrow> 'f progress_state \<Rightarrow> progress_error + 'f assistant_frame list" where
  "progress_prepare now records pg =
     res_bind (check_progress (pg_ids pg) {} records) (\<lambda>_. stamp_progress now 0 (pg_sequence pg) records)"

text \<open>One record of \<open>apply\<close>: frames a clear record retires are removed one by one with their ids.\<close>

definition retain_frames :: "('f assistant_frame \<Rightarrow> bool) \<Rightarrow> 'f progress_state \<Rightarrow> 'f progress_state" where
  "retain_frames drops pg =
     pg\<lparr>pg_frames := filter (\<lambda>f. \<not> drops f) (pg_frames pg),
        pg_ids := pg_ids pg - pr_id ` set (filter drops (pg_frames pg))\<rparr>"

definition progress_apply_record :: "'f progress_state \<Rightarrow> 'f assistant_frame \<Rightarrow> progress_error + 'f progress_state" where
  "progress_apply_record pg r =
     (let pg = pg\<lparr>pg_sequence := pr_sequence r\<rparr> in
      case af_op r of
        Frame_Append \<Rightarrow> Inr (pg\<lparr>pg_ids := insert (pr_id r) (pg_ids pg), pg_frames := pg_frames pg @ [r]\<rparr>)
      | Frame_ClearStream \<Rightarrow> Inr (retain_frames (clears r) pg)
      | Frame_ClearRun \<Rightarrow> Inr (retain_frames (clears r) pg)
      | Frame_CommitStream \<Rightarrow> Inl (Progress_Panic ''validated progress batch''))"

definition progress_apply :: "'f assistant_frame list \<Rightarrow> 'f progress_state \<Rightarrow> progress_error + 'f progress_state" where
  "progress_apply records pg = fold_res progress_apply_record pg records"

definition progress_project :: "'f assistant_frame list \<Rightarrow> 'f progress_state \<Rightarrow> progress_error + 'f progress_state" where
  "progress_project records pg =
     (let frames = filter (\<lambda>f. \<not> list_ex (\<lambda>r. clears r f) records) (pg_frames pg) in
      progress_apply records \<lparr>pg_sequence = pg_sequence pg, pg_frames = frames, pg_ids = pr_id ` set frames\<rparr>)"

definition prune_completed :: "(string \<Rightarrow> string set option) \<Rightarrow> 'f progress_state \<Rightarrow> nat \<times> 'f progress_state" where
  "prune_completed completed pg =
     (let pg' = retain_frames (is_completed completed) pg in
      (length (pg_frames pg) - length (pg_frames pg'), pg'))"

definition project_completed :: "(string \<Rightarrow> string set option) \<Rightarrow> 'f progress_state \<Rightarrow> 'f progress_state option" where
  "project_completed completed pg =
     (if \<not> list_ex (is_completed completed) (pg_frames pg) then None
      else let frames = filter (\<lambda>f. \<not> is_completed completed f) (pg_frames pg) in
        Some \<lparr>pg_sequence = pg_sequence pg, pg_frames = frames, pg_ids = pr_id ` set frames\<rparr>)"

definition progress_read :: "string \<Rightarrow> 'f progress_state \<Rightarrow> 'f assistant_frame list" where
  "progress_read run_id pg = filter (\<lambda>f. af_run_id f = run_id) (pg_frames pg)"

fun check_checkpoint :: "nat \<Rightarrow> nat \<Rightarrow> string set \<Rightarrow> 'f assistant_frame list \<Rightarrow> progress_error + string set" where
  "check_checkpoint sequence previous ids [] = Inr ids"
| "check_checkpoint sequence previous ids (f # fs) =
     (if af_op f \<noteq> Frame_Append \<or> \<not> has_payload f \<or> pr_sequence f \<le> previous \<or> pr_sequence f > sequence
         \<or> pr_id f = [] \<or> pr_lane f = [] \<or> af_run_id f = [] \<or> pr_id f \<in> ids
      then Inl (Progress_InvalidCheckpoint ''invalid progress checkpoint'')
      else check_checkpoint sequence (pr_sequence f) (insert (pr_id f) ids) fs)"

definition progress_validate :: "'f progress_state \<Rightarrow> progress_error + 'f progress_state" where
  "progress_validate pg =
     res_bind (check_checkpoint (pg_sequence pg) 0 {} (pg_frames pg)) (\<lambda>ids. Inr (pg\<lparr>pg_ids := ids\<rparr>))"

subsection \<open>The invariant\<close>

definition live_frame :: "'f assistant_frame \<Rightarrow> bool" where
  "live_frame f \<longleftrightarrow> af_op f = Frame_Append \<and> has_payload f \<and> pr_id f \<noteq> [] \<and> pr_lane f \<noteq> [] \<and> af_run_id f \<noteq> []"

definition progress_wf :: "'f progress_state \<Rightarrow> bool" where
  "progress_wf pg \<longleftrightarrow>
     pg_sequence pg \<le> u64_max
     \<and> sorted_wrt (<) (map pr_sequence (pg_frames pg))
     \<and> (\<forall>f \<in> set (pg_frames pg). live_frame f \<and> 0 < pr_sequence f \<and> pr_sequence f \<le> pg_sequence pg)
     \<and> distinct (map pr_id (pg_frames pg)) \<and> pg_ids pg = pr_id ` set (pg_frames pg)"

lemma stamp_frame_simps [simp]:
  "pr_id (stamp_frame q t r) = pr_id r" "pr_lane (stamp_frame q t r) = pr_lane r"
  "pr_sequence (stamp_frame q t r) = q" "af_run_id (stamp_frame q t r) = af_run_id r"
  "af_op (stamp_frame q t r) = af_op r" "has_payload (stamp_frame q t r) = has_payload r"
  "af_stream_index (stamp_frame q t r) = af_stream_index r" "af_frame (stamp_frame q t r) = af_frame r"
  by (simp_all add: stamp_frame_def has_payload_def)

lemma payload_fits_stamp [simp]: "payload_fits (stamp_frame q t r) = payload_fits r"
  by (cases "af_op r") (simp_all add: payload_fits_def)

lemma check_progress_Inr:
  "check_progress known ids rs = Inr u \<longleftrightarrow>
     (\<forall>r \<in> set rs. pr_id r \<noteq> [] \<and> pr_lane r \<noteq> [] \<and> af_run_id r \<noteq> [] \<and> payload_fits r)
     \<and> distinct (map pr_id rs) \<and> pr_id ` set rs \<inter> (known \<union> ids) = {}"
  by (induction known ids rs rule: check_progress.induct) auto

lemma stamp_progress_Inr:
  "stamp_progress now k q rs = Inr ps \<longleftrightarrow>
     (rs = [] \<or> q + length rs \<le> u64_max) \<and> ps = map (\<lambda>i. stamp_frame (q + Suc i) (now (k + i)) (rs ! i)) [0..<length rs]"
  if "q \<le> u64_max"
  using that
proof (induction now k q rs arbitrary: ps rule: stamp_progress.induct)
  case (2 now k q r rs)
  show ?case
  proof (cases "q = u64_max")
    case False
    with 2 have "Suc q \<le> u64_max" by simp
    note IH = "2.IH" [OF False this]
    have "[0..<length (r # rs)] = 0 # map Suc [0..<length rs]"
      by (simp add: upt_conv_Cons map_Suc_upt del: upt_Suc)
    then show ?thesis using IH False "2.prems" by (auto simp: comp_def del: upt_Suc)
  qed auto
qed auto

text \<open>What a prepared batch is.\<close>

lemma prepared_batch:
  assumes "progress_prepare now rs pg = Inr ps" and "progress_wf pg"
  shows "length ps = length rs \<and> pg_sequence pg + length rs \<le> u64_max
     \<and> (\<forall>i < length rs. ps ! i = stamp_frame (pg_sequence pg + Suc i) (now i) (rs ! i))
     \<and> (\<forall>r \<in> set ps. pr_id r \<noteq> [] \<and> pr_lane r \<noteq> [] \<and> af_run_id r \<noteq> [] \<and> payload_fits r \<and> pr_id r \<notin> pg_ids pg)
     \<and> distinct (map pr_id ps)"
proof -
  have q: "pg_sequence pg \<le> u64_max" using assms(2) by (simp add: progress_wf_def)
  from assms(1) have chk: "check_progress (pg_ids pg) {} rs = Inr ()"
      and ps: "rs = [] \<or> pg_sequence pg + length rs \<le> u64_max"
        "ps = map (\<lambda>i. stamp_frame (pg_sequence pg + Suc i) (now i) (rs ! i)) [0..<length rs]"
    by (auto simp: progress_prepare_def stamp_progress_Inr [OF q])
  have ids: "map pr_id ps = map pr_id rs" by (rule nth_equalityI) (simp_all add: ps(2))
  have "\<forall>r \<in> set ps. pr_id r \<noteq> [] \<and> pr_lane r \<noteq> [] \<and> af_run_id r \<noteq> [] \<and> payload_fits r \<and> pr_id r \<notin> pg_ids pg"
    using chk by (auto simp: ps(2) check_progress_Inr disjoint_iff dest: nth_mem)
  moreover have "distinct (map pr_id ps)" using chk by (simp add: ids check_progress_Inr)
  ultimately show ?thesis using ps q by auto
qed

subsection \<open>What the store holds\<close>

text \<open>The frames of a history that no later record clears.\<close>

fun survivors :: "'f assistant_frame list \<Rightarrow> 'f assistant_frame list" where
  "survivors [] = []"
| "survivors (r # rs) =
     (if af_op r = Frame_Append \<and> \<not> list_ex (\<lambda>c. clears c r) rs then [r] else []) @ survivors rs"

lemma survivors_append:
  "survivors (xs @ ys) = filter (\<lambda>f. \<not> list_ex (\<lambda>c. clears c f) ys) (survivors xs) @ survivors ys"
  by (induction xs) auto

lemma survivors_live: "\<forall>f \<in> set fs. af_op f = Frame_Append \<Longrightarrow> survivors fs = fs"
  by (induction fs) (auto simp: clears_def list_ex_iff)

lemma survivors_idem: "survivors (survivors xs @ ys) = survivors (xs @ ys)"
proof -
  have "\<forall>f \<in> set (survivors xs). af_op f = Frame_Append" by (induction xs) auto
  then show ?thesis by (simp add: survivors_append survivors_live)
qed

definition progress_step ::
  "'f progress_state \<Rightarrow> (nat \<Rightarrow> i64) \<times> 'f assistant_frame list \<Rightarrow> progress_error + 'f progress_state" where
  "progress_step pg = (\<lambda>(now, rs). res_bind (progress_prepare now rs pg) (\<lambda>ps. progress_apply ps pg))"

text \<open>A state between two records of a prepared batch; \<open>ids\<close> are those of the records still to come.\<close>

lemma apply_record_step:
  assumes "progress_wf pg" and "payload_fits r" "pr_id r \<noteq> []" "pr_lane r \<noteq> []" "af_run_id r \<noteq> []"
    and "pr_id r \<notin> pg_ids pg" and "pr_sequence r = Suc (pg_sequence pg)" and "pr_sequence r \<le> u64_max"
  shows "\<exists>pg'. progress_apply_record pg r = Inr pg' \<and> progress_wf pg' \<and> pg_sequence pg' = pr_sequence r
     \<and> pg_frames pg' = survivors (pg_frames pg @ [r]) \<and> pg_ids pg' \<subseteq> insert (pr_id r) (pg_ids pg)"
proof -
  have live: "survivors (pg_frames pg) = pg_frames pg"
    using assms(1) by (intro survivors_live) (simp add: progress_wf_def live_frame_def)
  have frames: "survivors (pg_frames pg @ [r])
      = filter (\<lambda>f. \<not> clears r f) (pg_frames pg) @ (if af_op r = Frame_Append then [r] else [])"
    by (simp add: survivors_append live)
  have retain: "progress_wf (retain_frames (clears r) (pg\<lparr>pg_sequence := pr_sequence r\<rparr>))"
    using assms by (fastforce simp: progress_wf_def retain_frames_def sorted_wrt_map distinct_map
      intro: sorted_wrt_filter inj_on_subset dest: inj_onD)
  show ?thesis
  proof (cases "af_op r")
    case Frame_Append
    then have none: "\<not> clears r f" for f by (simp add: clears_def)
    have "progress_wf (pg\<lparr>pg_sequence := pr_sequence r, pg_ids := insert (pr_id r) (pg_ids pg), pg_frames := pg_frames pg @ [r]\<rparr>)"
      using assms Frame_Append by (fastforce simp: progress_wf_def sorted_wrt_append live_frame_def payload_fits_def)
    then show ?thesis
      using Frame_Append none by (auto simp: progress_apply_record_def frames Let_def)
  next
    case Frame_ClearStream
    then show ?thesis using retain by (auto simp: progress_apply_record_def frames Let_def retain_frames_def)
  next
    case Frame_ClearRun
    then show ?thesis using retain by (auto simp: progress_apply_record_def frames Let_def retain_frames_def)
  qed (use assms(2) in \<open>simp add: payload_fits_def\<close>)
qed

lemma apply_batch:
  assumes "progress_wf pg" and "\<forall>r \<in> set ps. payload_fits r \<and> pr_id r \<noteq> [] \<and> pr_lane r \<noteq> [] \<and> af_run_id r \<noteq> [] \<and> pr_id r \<notin> pg_ids pg"
    and "distinct (map pr_id ps)" and "\<forall>i < length ps. pr_sequence (ps ! i) = pg_sequence pg + Suc i"
    and "pg_sequence pg + length ps \<le> u64_max"
  shows "\<exists>pg'. progress_apply ps pg = Inr pg' \<and> progress_wf pg'
     \<and> pg_sequence pg' = pg_sequence pg + length ps \<and> pg_frames pg' = survivors (pg_frames pg @ ps)"
  using assms
proof (induction ps arbitrary: pg)
  case Nil
  then have "survivors (pg_frames pg) = pg_frames pg"
    by (intro survivors_live) (simp add: progress_wf_def live_frame_def)
  with Nil show ?case by (simp add: progress_apply_def)
next
  case (Cons r ps)
  have seq: "pr_sequence r = Suc (pg_sequence pg)" using Cons.prems(4) by force
  from apply_record_step [OF Cons.prems(1), of r] Cons.prems(2,5) seq
  obtain pg' where pg': "progress_apply_record pg r = Inr pg'" "progress_wf pg'" "pg_sequence pg' = Suc (pg_sequence pg)"
      "pg_frames pg' = survivors (pg_frames pg @ [r])" "pg_ids pg' \<subseteq> insert (pr_id r) (pg_ids pg)"
    by auto
  have ids: "\<forall>q \<in> set ps. pr_id q \<notin> pg_ids pg'"
    using Cons.prems(2,3) pg'(5) by (fastforce simp: image_iff)
  have "\<forall>i < length ps. pr_sequence (ps ! i) = pg_sequence pg' + Suc i"
    using Cons.prems(4) pg'(3) by force
  then obtain pg'' where "progress_apply ps pg' = Inr pg''" "progress_wf pg''"
      "pg_sequence pg'' = pg_sequence pg' + length ps" "pg_frames pg'' = survivors (pg_frames pg' @ ps)"
    using Cons.IH [OF pg'(2)] Cons.prems(2,3,5) ids pg'(3) by auto
  then show ?case
    using pg' by (auto simp: progress_apply_def survivors_idem [of "pg_frames pg @ [r]" ps, simplified])
qed

lemma prepared_applies:
  assumes "progress_prepare now rs pg = Inr ps" and "progress_wf pg"
  shows "\<exists>pg'. progress_apply ps pg = Inr pg' \<and> progress_wf pg'
     \<and> pg_sequence pg' = pg_sequence pg + length ps \<and> pg_frames pg' = survivors (pg_frames pg @ ps)"
  using apply_batch [OF assms(2), of ps] prepared_batch [OF assms] by auto

subsection \<open>The abstract store\<close>

text \<open>The history of everything acknowledged, stamped; the store holds its survivors.\<close>

definition stamped_batch :: "nat \<Rightarrow> (nat \<Rightarrow> i64) \<Rightarrow> 'f assistant_frame list \<Rightarrow> 'f assistant_frame list" where
  "stamped_batch q now rs = map (\<lambda>i. stamp_frame (q + Suc i) (now i) (rs ! i)) [0..<length rs]"

definition progress_spec ::
  "nat \<times> 'f assistant_frame list \<Rightarrow> (nat \<Rightarrow> i64) \<times> 'f assistant_frame list \<Rightarrow> nat \<times> 'f assistant_frame list" where
  "progress_spec = (\<lambda>(q, fs) (now, rs). (q + length rs, survivors (fs @ stamped_batch q now rs)))"

definition progress_abs :: "'f progress_state \<Rightarrow> nat \<times> 'f assistant_frame list" where
  "progress_abs pg = (pg_sequence pg, pg_frames pg)"

lemma prepare_stamps:
  "progress_prepare now rs pg = Inr ps \<Longrightarrow> progress_wf pg \<Longrightarrow> ps = stamped_batch (pg_sequence pg) now rs"
  using prepared_batch [of now rs pg ps] by (intro nth_equalityI) (auto simp: stamped_batch_def)

interpretation progress: refined_steps progress_step progress_wf progress_abs progress_spec
proof unfold_locales
  fix pg :: "'f progress_state" and m pg'
  assume wf: "progress_wf pg" and step: "progress_step pg m = Inr pg'"
  obtain now rs where m: "m = (now, rs)" by (cases m)
  from step obtain ps where ps: "progress_prepare now rs pg = Inr ps" "progress_apply ps pg = Inr pg'"
    by (auto simp: progress_step_def m)
  from prepared_applies [OF ps(1) wf] ps(2) have "progress_wf pg'" "pg_sequence pg' = pg_sequence pg + length ps"
      "pg_frames pg' = survivors (pg_frames pg @ ps)"
    by auto
  then show "progress_wf pg'" "progress_abs pg' = progress_spec (progress_abs pg) m"
    using prepare_stamps [OF ps(1) wf] by (auto simp: progress_abs_def progress_spec_def m stamped_batch_def)
qed

lemma progress_wf_at: "q \<le> u64_max \<Longrightarrow> progress_wf (progress_at q)"
  by (simp add: progress_at_def progress_wf_def)

text \<open>The records of a sequence of batches as they were stamped.\<close>

fun stamped_history :: "nat \<Rightarrow> ((nat \<Rightarrow> i64) \<times> 'f assistant_frame list) list \<Rightarrow> 'f assistant_frame list" where
  "stamped_history q [] = []"
| "stamped_history q ((now, rs) # bs) = stamped_batch q now rs @ stamped_history (q + length rs) bs"

lemma progress_spec_history:
  "foldl progress_spec (q, survivors h) bs
     = (q + length (stamped_history q bs), survivors (h @ stamped_history q bs))"
proof (induction bs arbitrary: q h)
  case (Cons b bs)
  obtain now rs where b: "b = (now, rs)" by (cases b)
  have "progress_spec (q, survivors h) b = (q + length rs, survivors (h @ stamped_batch q now rs))"
    by (simp add: progress_spec_def b survivors_idem)
  then show ?case using Cons [of "q + length rs" "h @ stamped_batch q now rs"] by (simp add: b stamped_batch_def)
qed simp

text \<open>
  C7. The progress store is the history of what was acknowledged, less what was cleared: after any
  sequence of accepted batches it holds, in order, exactly the appended frames no later record clears,
  each stamped with the next sequence number; its ids are distinct and known, and it would pass the
  validation of a checkpoint.
\<close>

theorem progress_is_surviving_history:
  assumes "fold_res progress_step (progress_at 0) batches = Inr pg"
  shows "progress_wf pg \<and> pg_frames pg = survivors (stamped_history 0 batches)
     \<and> pg_sequence pg = length (stamped_history 0 batches)
     \<and> progress_read run pg = filter (\<lambda>f. af_run_id f = run) (survivors (stamped_history 0 batches))"
proof -
  have wf: "progress_wf (progress_at 0 :: 'a progress_state)" by (rule progress_wf_at) simp
  from progress.replay_refines [OF wf assms] have "progress_abs pg = foldl progress_spec (0, survivors []) batches"
    by (simp add: progress_abs_def progress_at_def)
  then have "pg_sequence pg = length (stamped_history 0 batches)" "pg_frames pg = survivors (stamped_history 0 batches)"
    unfolding progress_spec_history by (simp_all add: progress_abs_def)
  then show ?thesis using progress.replay_keeps [OF wf assms] by (simp add: progress_read_def)
qed

subsection \<open>Candidates and checkpoints\<close>

lemma progress_wf_eqI:
  "progress_wf a \<Longrightarrow> progress_wf b \<Longrightarrow> pg_sequence a = pg_sequence b \<Longrightarrow> pg_frames a = pg_frames b \<Longrightarrow> a = b"
  by (cases a; cases b) (simp add: progress_wf_def)

lemma retain_wf: "progress_wf pg \<Longrightarrow> progress_wf (retain_frames drops pg)"
  by (fastforce simp: progress_wf_def retain_frames_def sorted_wrt_map distinct_map
      intro: sorted_wrt_filter inj_on_subset dest: inj_onD)

lemma projected_state:
  assumes "progress_wf pg"
  shows "\<lparr>pg_sequence = pg_sequence pg, pg_frames = filter (\<lambda>f. \<not> drops f) (pg_frames pg),
     pg_ids = pr_id ` set (filter (\<lambda>f. \<not> drops f) (pg_frames pg))\<rparr> = retain_frames drops pg"
proof -
  have "pr_id ` {f \<in> set (pg_frames pg). \<not> drops f} = pg_ids pg - pr_id ` {f \<in> set (pg_frames pg). drops f}"
    using assms by (auto simp: progress_wf_def distinct_map dest: inj_onD)
  then show ?thesis by (simp add: retain_frames_def)
qed

text \<open>
  A candidate is what would be applied: projecting a prepared batch, which copies no frame the batch
  retires, gives the state that applying the batch in place gives; likewise for the frames of completed
  runs, where no candidate means that there is nothing to prune.
\<close>

theorem projection_is_application:
  assumes "progress_wf pg" and "progress_prepare now rs pg = Inr ps"
  shows "progress_project ps pg = progress_apply ps pg
     \<and> snd (prune_completed completed pg) = (case project_completed completed pg of None \<Rightarrow> pg | Some pg' \<Rightarrow> pg')
     \<and> progress_wf (snd (prune_completed completed pg))"
proof (intro conjI)
  let ?drops = "\<lambda>f. list_ex (\<lambda>r. clears r f) ps"
  let ?pg = "retain_frames ?drops pg"
  have live: "survivors fs = fs" if "set fs \<subseteq> set (pg_frames pg)" for fs
    using assms(1) that by (intro survivors_live) (auto simp: progress_wf_def live_frame_def)
  have "pg_ids ?pg \<subseteq> pg_ids pg" "pg_sequence ?pg = pg_sequence pg"
      "pg_frames ?pg = filter (\<lambda>f. \<not> ?drops f) (pg_frames pg)"
    by (auto simp: retain_frames_def)
  moreover obtain a where a: "progress_apply ps ?pg = Inr a" "progress_wf a" "pg_sequence a = pg_sequence pg + length ps"
      "pg_frames a = survivors (pg_frames ?pg @ ps)"
    using apply_batch [OF retain_wf [OF assms(1)], of ps ?drops] prepared_batch [OF assms(2,1)] calculation by auto
  moreover obtain b where b: "progress_apply ps pg = Inr b" "progress_wf b" "pg_sequence b = pg_sequence pg + length ps"
      "pg_frames b = survivors (pg_frames pg @ ps)"
    using prepared_applies [OF assms(2,1)] by blast
  ultimately have "a = b" by (intro progress_wf_eqI) (auto simp: survivors_append live)
  then show "progress_project ps pg = progress_apply ps pg"
    using a(1) b(1) projected_state [OF assms(1), of ?drops] by (simp add: progress_project_def Let_def)
  show "progress_wf (snd (prune_completed completed pg))"
    by (simp add: prune_completed_def Let_def retain_wf [OF assms(1)])
  have "retain_frames (is_completed completed) pg = pg" if "\<not> list_ex (is_completed completed) (pg_frames pg)"
    using that assms(1) by (intro progress_wf_eqI retain_wf) (auto simp: retain_frames_def list_ex_iff intro!: filter_True)
  then show "snd (prune_completed completed pg) = (case project_completed completed pg of None \<Rightarrow> pg | Some pg' \<Rightarrow> pg')"
    using projected_state [OF assms(1), of "is_completed completed"]
    by (auto simp: prune_completed_def project_completed_def Let_def)
qed

lemma check_checkpoint_Inr:
  "check_checkpoint q previous ids fs = Inr ids' \<longleftrightarrow>
     sorted_wrt (<) (map pr_sequence fs) \<and> (\<forall>f \<in> set fs. live_frame f \<and> previous < pr_sequence f \<and> pr_sequence f \<le> q)
     \<and> distinct (map pr_id fs) \<and> pr_id ` set fs \<inter> ids = {} \<and> ids' = ids \<union> pr_id ` set fs"
proof (induction q previous ids fs rule: check_checkpoint.induct)
  case (2 q previous ids f fs)
  show ?case
  proof (cases "live_frame f \<and> previous < pr_sequence f \<and> pr_sequence f \<le> q \<and> pr_id f \<notin> ids")
    case True
    then have step: "check_checkpoint q previous ids (f # fs) = check_checkpoint q (pr_sequence f) (insert (pr_id f) ids) fs"
      by (auto simp: live_frame_def)
    have "check_checkpoint q (pr_sequence f) (insert (pr_id f) ids) fs = Inr ids' \<longleftrightarrow>
        sorted_wrt (<) (map pr_sequence fs) \<and> (\<forall>g \<in> set fs. live_frame g \<and> pr_sequence f < pr_sequence g \<and> pr_sequence g \<le> q)
        \<and> distinct (map pr_id fs) \<and> pr_id ` set fs \<inter> insert (pr_id f) ids = {} \<and> ids' = insert (pr_id f) ids \<union> pr_id ` set fs"
      using True by (intro 2) (auto simp: live_frame_def)
    moreover have "(\<forall>g \<in> set (f # fs). live_frame g \<and> previous < pr_sequence g \<and> pr_sequence g \<le> q) \<longleftrightarrow>
        (\<forall>g \<in> set fs. live_frame g \<and> pr_sequence g \<le> q)" if "\<forall>g \<in> set fs. pr_sequence f < pr_sequence g"
      using True that by auto
    ultimately show ?thesis unfolding step using True by auto
  next
    case False
    then show ?thesis by (auto simp: live_frame_def)
  qed
qed auto

text \<open>
  A checkpoint passes validation exactly when it satisfies the invariant of the store (its ids are
  then rebuilt from its frames), so a store can go on from it.
\<close>

theorem checkpoint_valid_iff:
  assumes "pg_sequence pg \<le> u64_max"
  shows "progress_validate pg = Inr pg' \<longleftrightarrow> pg' = pg\<lparr>pg_ids := pr_id ` set (pg_frames pg)\<rparr> \<and> progress_wf pg'"
  using assms by (auto simp: progress_validate_def check_checkpoint_Inr progress_wf_def)

subsection \<open>A concrete store\<close>

definition demo_progress :: "string \<Rightarrow> nat \<Rightarrow> frame_op \<Rightarrow> nat assistant_frame" where
  "demo_progress i stream op =
     \<lparr>af_base = \<lparr>rb_id = i, rb_seq = 0, rb_lane = ''main'', rb_timestamp = 0\<rparr>, af_run_id = ''run'',
      af_stream_index = stream, af_op = op, af_frame = (if op = Frame_Append then Some JNull else None)\<rparr>"

definition demo_batches :: "((nat \<Rightarrow> i64) \<times> nat assistant_frame list) list" where
  "demo_batches =
     [(\<lambda>_. 7, [demo_progress ''a'' 0 Frame_Append, demo_progress ''b'' 1 Frame_Append]),
      (\<lambda>_. 8, [demo_progress ''c'' 0 Frame_ClearStream, demo_progress ''d'' 0 Frame_Append])]"

definition demo_store :: "nat progress_state" where
  "demo_store = \<lparr>pg_sequence = 4, pg_frames =
     [stamp_frame 2 7 (demo_progress ''b'' 1 Frame_Append), stamp_frame 4 8 (demo_progress ''d'' 0 Frame_Append)],
     pg_ids = {''b'', ''d''}\<rparr>"

lemmas progress_values =
  demo_batches_def demo_progress_def demo_store_def progress_step_def progress_prepare_def progress_apply_def
  progress_apply_record_def retain_frames_def payload_fits_def has_payload_def clears_def u64_max_def progress_at_def
  stamp_frame_def Let_def

lemma demo_store_run: "fold_res progress_step (progress_at 0) demo_batches = Inr demo_store"
  by (auto simp: progress_values simp del: set_filter)

theorem progress_is_surviving_history_witness:
  "map pr_id (survivors (stamped_history 0 demo_batches)) = [''b'', ''d''] \<and> progress_wf demo_store"
proof -
  have "map pr_id (pg_frames demo_store) = [''b'', ''d'']" by (simp add: demo_store_def demo_progress_def)
  then show ?thesis using progress_is_surviving_history [OF demo_store_run, of "''run''"] by simp
qed

theorem projection_is_application_witness:
  "progress_project [stamp_frame 5 9 (demo_progress ''e'' 0 Frame_ClearRun)] demo_store
     = Inr \<lparr>pg_sequence = 5, pg_frames = [], pg_ids = {}\<rparr>"
proof -
  have wf: "progress_wf demo_store"
    by (auto simp: progress_wf_def demo_store_def demo_progress_def live_frame_def has_payload_def u64_max_def stamp_frame_def)
  have prepared: "progress_prepare (\<lambda>_. 9) [demo_progress ''e'' 0 Frame_ClearRun] demo_store
      = Inr [stamp_frame 5 9 (demo_progress ''e'' 0 Frame_ClearRun)]"
    by (simp add: progress_values)
  have "progress_apply [stamp_frame 5 9 (demo_progress ''e'' 0 Frame_ClearRun)] demo_store
      = Inr \<lparr>pg_sequence = 5, pg_frames = [], pg_ids = {}\<rparr>"
    by (auto simp: progress_values simp del: set_filter)
  with projection_is_application [OF wf prepared, of Map.empty] show ?thesis by simp
qed

theorem checkpoint_valid_iff_witness:
  "progress_validate (demo_store\<lparr>pg_ids := {}\<rparr>) = Inr demo_store"
proof -
  have wf: "progress_wf demo_store"
    by (auto simp: progress_wf_def demo_store_def demo_progress_def live_frame_def has_payload_def u64_max_def stamp_frame_def)
  have "pg_sequence (demo_store\<lparr>pg_ids := {}\<rparr>) \<le> u64_max" by (simp add: demo_store_def u64_max_def)
  from checkpoint_valid_iff [OF this, of demo_store] wf show ?thesis
    by (simp add: demo_store_def stamp_frame_def demo_progress_def)
qed

end
