(* ===== verification/Memory_Storage.thy ===== *)
theory Memory_Storage
  imports Session_Query Session_Fork Progress
begin

text \<open>
  The storage in memory (\<open>crates/evo-harness/src/session/memory.rs\<close>), the reference of the other back
  ends: it stamps what its callers append, checks what the state alone does not (conditional writers,
  one open operation per lane) and applies it. Every operation takes the locks it needs once, so it is
  a step on the pair of state and progress; between the two locks of \<open>append_progress\<close> and
  \<open>prune_completed_progress\<close> other operations only add lanes and finished runs. The readings of the
  clock are arguments.
\<close>

subsection \<open>Stamping\<close>

record session_metadata =
  sm_id :: string
  sm_created_at :: i64
  sm_parent_session_id :: "string option"

fun record_base_mut :: "(record_base \<Rightarrow> record_base) \<Rightarrow> 'f lane_record \<Rightarrow> 'f lane_record" where
  "record_base_mut g (Rec_OperationStarted r) = Rec_OperationStarted (r\<lparr>os_base := g (os_base r)\<rparr>)"
| "record_base_mut g (Rec_AbortRequested r) = Rec_AbortRequested (r\<lparr>ar_base := g (ar_base r)\<rparr>)"
| "record_base_mut g (Rec_OperationFinished r) = Rec_OperationFinished (r\<lparr>of_base := g (of_base r)\<rparr>)"
| "record_base_mut g (Rec_StepAttempt r) = Rec_StepAttempt (r\<lparr>sa_base := g (sa_base r)\<rparr>)"
| "record_base_mut g (Rec_ToolStarted r) = Rec_ToolStarted (r\<lparr>ts_base := g (ts_base r)\<rparr>)"
| "record_base_mut g (Rec_QueueEnqueued r) = Rec_QueueEnqueued (r\<lparr>qe_base := g (qe_base r)\<rparr>)"
| "record_base_mut g (Rec_QueueCancelled r) = Rec_QueueCancelled (r\<lparr>qc_base := g (qc_base r)\<rparr>)"
| "record_base_mut g (Rec_WriteDeferred r) = Rec_WriteDeferred (r\<lparr>wd_base := g (wd_base r)\<rparr>)"
| "record_base_mut g (Rec_Usage r) = Rec_Usage (r\<lparr>ur_base := g (ur_base r)\<rparr>)"
| "record_base_mut g (Rec_AssistantFrame r) = Rec_AssistantFrame (r\<lparr>af_base := g (af_base r)\<rparr>)"
| "record_base_mut g (Rec_RetryPending r) = Rec_RetryPending (r\<lparr>rp_base := g (rp_base r)\<rparr>)"

definition stamp_record :: "'f lane_record \<Rightarrow> nat \<Rightarrow> string \<Rightarrow> i64 \<Rightarrow> 'f lane_record" where
  "stamp_record record sq lane timestamp =
     record_base_mut (\<lambda>base. base\<lparr>rb_seq := sq, rb_lane := lane, rb_timestamp := timestamp\<rparr>) record"

lemma record_base_of_mut [simp]: "record_base_of (record_base_mut g r) = g (record_base_of r)"
  by (cases r) simp_all

lemma stamp_record_simps [simp]:
  "record_seq (stamp_record r sq lane ts) = sq" "record_lane (stamp_record r sq lane ts) = lane"
  "record_id (stamp_record r sq lane ts) = record_id r"
  by (simp_all add: stamp_record_def record_seq_def record_lane_def record_id_def)

subsection \<open>The storage\<close>

record 'f memory_storage =
  mst_metadata :: session_metadata
  mst_state :: "'f session_state"
  mst_progress :: "'f progress_state"

definition storage_new :: "session_metadata \<Rightarrow> 'f::zero memory_storage" where
  "storage_new metadata = \<lparr>mst_metadata = metadata, mst_state = session_new, mst_progress = progress_at 0\<rparr>"

definition storage_from_state :: "session_metadata \<Rightarrow> 'f session_state \<Rightarrow> 'f memory_storage" where
  "storage_from_state metadata s = \<lparr>mst_metadata = metadata, mst_state = s, mst_progress = progress_at 0\<rparr>"

definition replace_state :: "'f session_state \<Rightarrow> 'f memory_storage \<Rightarrow> 'f memory_storage" where
  "replace_state s st = st\<lparr>mst_state := s\<rparr>"

definition check_expected :: "nat option \<Rightarrow> 'f session_state \<Rightarrow> session_error + unit" where
  "check_expected expected s = (case expected of None \<Rightarrow> Inr () | Some n \<Rightarrow> check_revision s n)"

definition append_entry_checked ::
  "'f::plus provisioned_entry \<Rightarrow> string \<Rightarrow> nat option \<Rightarrow> i64 \<Rightarrow> 'f memory_storage
     \<Rightarrow> session_error + 'f entry \<times> 'f memory_storage" where
  "append_entry_checked p lane expected now st =
     (let s = mst_state st in
      res_bind (check_expected expected s) (\<lambda>_.
      res_bind (require_lane s lane) (\<lambda>parent_id.
      res_bind (validate_unused_id s (pe_id p)) (\<lambda>_.
      let sq = next_sequence s in
      res_bind (session_apply s (Mut_Entry sq now (Some lane) (provisioned_into_entry p sq parent_id now))) (\<lambda>(s', out).
      case out of
        Applied_Entry stamped \<Rightarrow> Inr (stamped, st\<lparr>mst_state := s'\<rparr>)
      | _ \<Rightarrow> Inl (err_storage ''append_entry did not persist''))))))"

definition append_record_checked ::
  "'f::plus lane_record \<Rightarrow> nat option \<Rightarrow> i64 \<Rightarrow> 'f memory_storage
     \<Rightarrow> session_error + 'f lane_record \<times> 'f memory_storage" where
  "append_record_checked r expected now st =
     (let s = mst_state st; lane = record_lane r in
      res_bind (check_expected expected s) (\<lambda>_.
      res_bind (require_lane s lane) (\<lambda>_.
      res_bind (validate_unused_id s (record_id r)) (\<lambda>_.
      res_bind
        (case r of
           Rec_OperationStarted _ \<Rightarrow>
             res_bind (find_open_operations s lane (Some 1)) (\<lambda>ops.
             case ops of
               [] \<Rightarrow> Inr ()
             | current # _ \<Rightarrow> Inl (err_storage (''Lane '' @ lane @ '' already has an open operation '' @ rb_id (os_base current))))
         | _ \<Rightarrow> Inr ()) (\<lambda>_.
      res_bind (session_apply s (Mut_Record (stamp_record r (next_sequence s) lane now))) (\<lambda>(s', out).
      case out of
        Applied_Record stamped \<Rightarrow> Inr (stamped, st\<lparr>mst_state := s'\<rparr>)
      | _ \<Rightarrow> Inl (err_storage ''append_record did not persist'')))))))"

definition create_lane :: "string \<Rightarrow> string option \<Rightarrow> 'f::plus memory_storage \<Rightarrow> session_error + 'f memory_storage" where
  "create_lane lane at st =
     (let s = mst_state st in
      res_bind (validate_new_lane s lane) (\<lambda>_.
      res_bind (validate_target s at) (\<lambda>_.
      res_bind (session_step s (Mut_Lane (next_sequence s) lane at)) (\<lambda>s'. Inr (st\<lparr>mst_state := s'\<rparr>)))))"

definition move_lane :: "string \<Rightarrow> string option \<Rightarrow> 'f::plus memory_storage \<Rightarrow> session_error + 'f memory_storage" where
  "move_lane lane target st =
     (let s = mst_state st in
      res_bind (require_lane s lane) (\<lambda>_.
      res_bind (validate_target s target) (\<lambda>_.
      res_bind (session_step s (Mut_Lane (next_sequence s) lane target)) (\<lambda>s'. Inr (st\<lparr>mst_state := s'\<rparr>)))))"

text \<open>
  The loop that commits validated cancellations. An error inside it would leave the records before it
  applied; a lemma below shows that there is none.
\<close>

fun commit_cancellations ::
  "(nat \<Rightarrow> i64) \<Rightarrow> nat \<Rightarrow> 'f::plus lane_record list \<Rightarrow> 'f session_state
     \<Rightarrow> session_error + 'f lane_record list \<times> 'f session_state" where
  "commit_cancellations now k [] s = Inr ([], s)"
| "commit_cancellations now k (r # rs) s =
     res_bind (session_apply s (Mut_Record (stamp_record r (next_sequence s) (record_lane r) (now k)))) (\<lambda>(s', out).
     res_bind (commit_cancellations now (Suc k) rs s') (\<lambda>(committed, s'').
     Inr (case out of Applied_Record record \<Rightarrow> record # committed | _ \<Rightarrow> committed, s'')))"

definition append_queue_cancellations ::
  "'f::plus lane_record list \<Rightarrow> (nat \<Rightarrow> i64) \<Rightarrow> 'f memory_storage
     \<Rightarrow> session_error + 'f lane_record list \<times> 'f memory_storage" where
  "append_queue_cancellations rs now st =
     res_bind (validate_queue_cancellations (mst_state st) rs) (\<lambda>_.
     res_bind (commit_cancellations now 0 rs (mst_state st)) (\<lambda>(committed, s').
     Inr (committed, st\<lparr>mst_state := s'\<rparr>)))"

definition set_name :: "string option \<Rightarrow> 'f::plus memory_storage \<Rightarrow> session_error + 'f memory_storage" where
  "set_name name st =
     res_bind (session_step (mst_state st) (Mut_FactName (next_sequence (mst_state st)) name)) (\<lambda>s'.
     Inr (st\<lparr>mst_state := s'\<rparr>))"

definition set_label :: "string \<Rightarrow> string option \<Rightarrow> 'f::plus memory_storage \<Rightarrow> session_error + 'f memory_storage" where
  "set_label i label st =
     (let s = mst_state st in
      res_bind (validate_target s (Some i)) (\<lambda>_.
      res_bind (session_step s (Mut_FactLabel (next_sequence s) i label)) (\<lambda>s'. Inr (st\<lparr>mst_state := s'\<rparr>))))"

fun progress_error_into :: "progress_error \<Rightarrow> session_error" where
  "progress_error_into (Progress_InvalidPayload m) = Session_Error InvalidPayload m"
| "progress_error_into (Progress_InvalidCheckpoint m) = err_invalid_entry m"
| "progress_error_into (Progress_SequenceOverflow m) = err_storage m"
| "progress_error_into (Progress_Panic m) = Index_Panic"

fun require_lanes :: "'f session_state \<Rightarrow> 'f assistant_frame list \<Rightarrow> session_error + unit" where
  "require_lanes s [] = Inr ()"
| "require_lanes s (r # rs) = res_bind (require_lane s (rb_lane (af_base r))) (\<lambda>_. require_lanes s rs)"

definition append_progress ::
  "'f assistant_frame list \<Rightarrow> (nat \<Rightarrow> i64) \<Rightarrow> 'f memory_storage
     \<Rightarrow> session_error + 'f assistant_frame list \<times> 'f memory_storage" where
  "append_progress rs now st =
     res_bind (require_lanes (mst_state st) rs) (\<lambda>_.
     res_bind (map_sum progress_error_into id (progress_prepare now rs (mst_progress st))) (\<lambda>stamped.
     res_bind (map_sum progress_error_into id (progress_apply stamped (mst_progress st))) (\<lambda>pg.
     Inr (stamped, st\<lparr>mst_progress := pg\<rparr>))))"

definition read_progress :: "string \<Rightarrow> 'f memory_storage \<Rightarrow> 'f assistant_frame list" where
  "read_progress run_id st = progress_read run_id (mst_progress st)"

definition prune_completed_progress :: "'f memory_storage \<Rightarrow> nat \<times> 'f memory_storage" where
  "prune_completed_progress st =
     (let (n, pg) = prune_completed (completed_progress_runs (mst_state st)) (mst_progress st)
      in (n, st\<lparr>mst_progress := pg\<rparr>))"

definition fork_from ::
  "session_metadata \<Rightarrow> fork_options \<Rightarrow> 'f::{zero,plus} memory_storage \<Rightarrow> session_error + 'f memory_storage" where
  "fork_from metadata options st =
     res_bind (create_fork_mutations (mst_state st) options) (\<lambda>ms.
     res_bind (fold_res session_step session_new ms) (\<lambda>s. Inr ((storage_new metadata)\<lparr>mst_state := s\<rparr>)))"

subsection \<open>One call\<close>

datatype 'f storage_call =
    Call_AppendEntry "'f provisioned_entry" string "nat option" i64
  | Call_AppendRecord "'f lane_record" "nat option" i64
  | Call_CreateLane string "string option"
  | Call_MoveLane string "string option"
  | Call_Cancel "'f lane_record list" "nat \<Rightarrow> i64"
  | Call_SetName "string option"
  | Call_SetLabel string "string option"
  | Call_AppendProgress "'f assistant_frame list" "nat \<Rightarrow> i64"
  | Call_PruneProgress

fun storage_step :: "'f::plus memory_storage \<Rightarrow> 'f storage_call \<Rightarrow> session_error + 'f memory_storage" where
  "storage_step st (Call_AppendEntry p lane expected now) = map_sum id snd (append_entry_checked p lane expected now st)"
| "storage_step st (Call_AppendRecord r expected now) = map_sum id snd (append_record_checked r expected now st)"
| "storage_step st (Call_CreateLane lane at) = create_lane lane at st"
| "storage_step st (Call_MoveLane lane target) = move_lane lane target st"
| "storage_step st (Call_Cancel rs now) = map_sum id snd (append_queue_cancellations rs now st)"
| "storage_step st (Call_SetName name) = set_name name st"
| "storage_step st (Call_SetLabel i label) = set_label i label st"
| "storage_step st (Call_AppendProgress rs now) = map_sum id snd (append_progress rs now st)"
| "storage_step st Call_PruneProgress = Inr (snd (prune_completed_progress st))"

text \<open>Calls in sequence; one that fails leaves the storage as it is.\<close>

fun run_calls :: "'f::plus storage_call list \<Rightarrow> 'f memory_storage \<Rightarrow> 'f memory_storage" where
  "run_calls [] st = st"
| "run_calls (c # cs) st = run_calls cs (case storage_step st c of Inl _ \<Rightarrow> st | Inr st' \<Rightarrow> st')"

subsection \<open>The repository\<close>

text \<open>
  A storage is shared by all who opened it: the repository maps an id to a handle, its place in the
  list of storages. A deleted session leaves the map; who holds its handle goes on using it. The
  generator of identifiers is a parameter; its counter advances even when the creation then fails.
\<close>

record 'f memory_repo =
  rp_sessions :: "string \<rightharpoonup> nat"
  rp_storages :: "'f memory_storage list"
  rp_issued :: nat

record session_create_options =
  co_id :: "string option"
  co_parent_session_id :: "string option"

definition counter_id :: "nat \<Rightarrow> string" where
  "counter_id n = ''id-'' @ show_nat (Suc n)"

definition repo_new :: "'f memory_repo" where
  "repo_new = \<lparr>rp_sessions = Map.empty, rp_storages = [], rp_issued = 0\<rparr>"

definition require_storage :: "'f memory_repo \<Rightarrow> string \<Rightarrow> session_error + nat" where
  "require_storage r i = ok_or (rp_sessions r i) (err_not_found (''Session not found: '' @ i))"

definition session_id_for ::
  "(nat \<Rightarrow> string) \<Rightarrow> session_create_options \<Rightarrow> 'f memory_repo \<Rightarrow> string \<times> 'f memory_repo" where
  "session_id_for ids options r =
     (case co_id options of
        Some i \<Rightarrow> (i, r)
      | None \<Rightarrow> (ids (rp_issued r), r\<lparr>rp_issued := Suc (rp_issued r)\<rparr>))"

definition insert_session :: "string \<Rightarrow> 'f memory_storage \<Rightarrow> 'f memory_repo \<Rightarrow> nat \<times> 'f memory_repo" where
  "insert_session i st r =
     (length (rp_storages r),
      r\<lparr>rp_sessions := (rp_sessions r)(i \<mapsto> length (rp_storages r)), rp_storages := rp_storages r @ [st]\<rparr>)"

definition repo_create ::
  "(nat \<Rightarrow> string) \<Rightarrow> i64 \<Rightarrow> session_create_options \<Rightarrow> 'f::zero memory_repo \<Rightarrow> (session_error + nat) \<times> 'f memory_repo" where
  "repo_create ids now options r =
     (let (i, r) = session_id_for ids options r in
      if rp_sessions r i \<noteq> None then (Inl (err_already_exists (''Session already exists: '' @ i)), r)
      else let metadata = \<lparr>sm_id = i, sm_created_at = now, sm_parent_session_id = co_parent_session_id options\<rparr>;
               (h, r) = insert_session i (storage_new metadata) r
           in (Inr h, r))"

definition repo_delete :: "session_metadata \<Rightarrow> 'f memory_repo \<Rightarrow> 'f memory_repo" where
  "repo_delete metadata r = r\<lparr>rp_sessions := (rp_sessions r)(sm_id metadata := None)\<rparr>"

definition repo_fork ::
  "(nat \<Rightarrow> string) \<Rightarrow> i64 \<Rightarrow> session_metadata \<Rightarrow> session_create_options \<Rightarrow> fork_options
     \<Rightarrow> 'f::{zero,plus} memory_repo \<Rightarrow> (session_error + nat) \<times> 'f memory_repo" where
  "repo_fork ids now source options fork_opts r =
     (case require_storage r (sm_id source) of
        Inl e \<Rightarrow> (Inl e, r)
      | Inr src \<Rightarrow>
          (let (i, r) = session_id_for ids options r in
           if rp_sessions r i \<noteq> None then (Inl (err_already_exists (''Session already exists: '' @ i)), r)
           else let metadata = \<lparr>sm_id = i, sm_created_at = now,
                      sm_parent_session_id = (case co_parent_session_id options of None \<Rightarrow> Some (sm_id source) | p \<Rightarrow> p)\<rparr>
                in case fork_from metadata fork_opts (rp_storages r ! src) of
                     Inl e \<Rightarrow> (Inl e, r)
                   | Inr forked \<Rightarrow> (let (h, r) = insert_session i forked r in (Inr h, r))))"

text \<open>What the holders of a repository and of its handles do.\<close>

datatype 'f repo_call =
    Repo_Create i64 session_create_options
  | Repo_Delete session_metadata
  | Repo_Fork i64 session_metadata session_create_options fork_options
  | Repo_Storage nat "'f storage_call"

fun repo_step :: "(nat \<Rightarrow> string) \<Rightarrow> 'f::{zero,plus} repo_call \<Rightarrow> 'f memory_repo \<Rightarrow> 'f memory_repo" where
  "repo_step ids (Repo_Create now options) r = snd (repo_create ids now options r)"
| "repo_step ids (Repo_Delete metadata) r = repo_delete metadata r"
| "repo_step ids (Repo_Fork now source options f) r = snd (repo_fork ids now source options f r)"
| "repo_step ids (Repo_Storage h c) r =
     (if h < length (rp_storages r)
      then r\<lparr>rp_storages := (rp_storages r)[h := run_calls [c] (rp_storages r ! h)]\<rparr> else r)"

subsection \<open>What a mutation does to a reached state\<close>

definition lane_names :: "'f session_state \<Rightarrow> string set" where
  "lane_names s = dom (map_of (ix_lanes s))"

text \<open>At most one operation is open on a lane.\<close>

definition one_open :: "'f session_state \<Rightarrow> bool" where
  "one_open s \<longleftrightarrow> (\<forall>lane ops. ix_open_ops s lane = Some ops \<longrightarrow> length ops \<le> 1)"

definition admitted :: "'f session_state \<Rightarrow> 'f session_mutation \<Rightarrow> bool" where
  "admitted s m \<longleftrightarrow> well_stamped m \<and>
     (\<forall>r. m = Mut_Record (Rec_OperationStarted r) \<longrightarrow>
        ix_open_ops s (rb_lane (os_base r)) = None \<or> ix_open_ops s (rb_lane (os_base r)) = Some [])"

definition state_ok :: "'f::{zero,plus} session_state \<Rightarrow> bool" where
  "state_ok s \<longleftrightarrow> session_reach s \<and> one_open s"

lemma state_ok_new: "state_ok session_new"
  unfolding state_ok_def by (intro conjI reach_new) (simp add: one_open_def session_new_def index_new_def)

lemma apply_effect:
  assumes wf: "session_wf s" and ok: "session_apply s m = Inr (t, out)"
  shows "ix_sequence t = Suc (ix_sequence s) \<and> lane_names s \<subseteq> lane_names t
     \<and> ix_open_ops t = (case m of Mut_Record r \<Rightarrow> track_operation (record_lane r) (record_seq r) r (ix_open_ops s)
                      | _ \<Rightarrow> ix_open_ops s)"
proof (cases m)
  case (Mut_Record r)
  then show ?thesis
    using ok by (auto simp: session_apply_def apply_mutation_def apply_record_Inr_iff [OF session_wfD(10) [OF wf]]
      retire_spec_def push_record_def lane_names_def)
next
  case (Mut_Entry sq ts lane e)
  then show ?thesis
    using ok by (auto simp: session_apply_def apply_mutation_def apply_entry_Inr_iff extend_entry_def lane_names_def
      set_lane_leaf_def split: option.splits)
qed (use ok in \<open>auto simp: session_apply_def apply_mutation_def apply_lane_def apply_fact_name_def apply_fact_label_def
      lane_names_def split: option.splits\<close>)

lemma track_one_open:
  assumes "\<forall>lane ops. tab lane = Some ops \<longrightarrow> length ops \<le> 1"
    and "\<forall>st. r = Rec_OperationStarted st \<longrightarrow> tab lane = None \<or> tab lane = Some []"
  shows "\<forall>l ops. track_operation lane sq r tab l = Some ops \<longrightarrow> length ops \<le> 1"
proof (cases r)
  case (Rec_OperationStarted st)
  then show ?thesis using assms by (auto simp: track_operation_def split: option.splits)
next
  case (Rec_OperationFinished f)
  then show ?thesis
    using assms(1) by (auto simp: track_operation_def Let_def split: option.splits if_splits
      intro: order_trans [OF length_filter_le])
qed (use assms(1) in \<open>simp_all add: track_operation_def\<close>)

lemma state_ok_apply:
  assumes "state_ok s" and "admitted s m" and "session_apply s m = Inr (t, out)"
  shows "state_ok t \<and> ix_sequence t = Suc (ix_sequence s) \<and> lane_names s \<subseteq> lane_names t"
proof -
  have wf: "session_wf s" and reach: "session_reach t"
    using assms by (auto simp: state_ok_def admitted_def intro: reach_wf reach_mutation)
  note eff = apply_effect [OF wf assms(3)]
  have "one_open t"
  proof (cases m)
    case (Mut_Record r)
    then have "ix_open_ops t = track_operation (record_lane r) (record_seq r) r (ix_open_ops s)" using eff by simp
    then show ?thesis
      unfolding one_open_def
      by (simp only:, intro track_one_open)
        (use assms(1,2) Mut_Record in \<open>auto simp: state_ok_def one_open_def admitted_def\<close>)
  qed (use eff assms(1) in \<open>auto simp: state_ok_def one_open_def\<close>)
  with reach eff show ?thesis by (simp add: state_ok_def)
qed

lemma state_ok_step:
  "state_ok s \<Longrightarrow> admitted s m \<Longrightarrow> session_step s m = Inr t \<Longrightarrow>
     state_ok t \<and> ix_sequence t = Suc (ix_sequence s) \<and> lane_names s \<subseteq> lane_names t"
  by (auto simp: session_step_iff dest: state_ok_apply)

lemma admitted_simps [simp]:
  "admitted s (Mut_Lane sq name leaf)" "admitted s (Mut_FactName sq name')" "admitted s (Mut_FactLabel sq i label)"
  "admitted s (Mut_Entry sq ts l e) \<longleftrightarrow> entry_seq e = sq"
  by (simp_all add: admitted_def)

lemma entry_seq_into [simp]: "entry_seq (provisioned_into_entry p sq parent ts) = sq"
  by (simp add: entry_seq_def base_simps)

subsection \<open>Every operation keeps the invariant\<close>

definition storage_wf :: "'f::{zero,plus} memory_storage \<Rightarrow> bool" where
  "storage_wf st \<longleftrightarrow> state_ok (mst_state st) \<and> progress_wf (mst_progress st)
     \<and> (\<forall>f \<in> set (pg_frames (mst_progress st)). pr_lane f \<in> lane_names (mst_state st))"

lemma storage_wf_new: "storage_wf (storage_new md)"
  by (simp add: storage_wf_def storage_new_def state_ok_new progress_wf_at) (simp add: progress_at_def)

text \<open>A call on the state keeps what was there: lanes stay, the revision does not go back.\<close>

definition extends :: "'f::{zero,plus} memory_storage \<Rightarrow> 'f memory_storage \<Rightarrow> bool" where
  "extends st st' \<longleftrightarrow> state_ok (mst_state st') \<and> mst_progress st' = mst_progress st \<and> mst_metadata st' = mst_metadata st
     \<and> lane_names (mst_state st) \<subseteq> lane_names (mst_state st')"

lemma extends_wf: "storage_wf st \<Longrightarrow> extends st st' \<Longrightarrow> storage_wf st'"
  by (auto simp: storage_wf_def extends_def)

lemma extends_step:
  assumes "storage_wf st" and "admitted (mst_state st) m" and "session_step (mst_state st) m = Inr t"
  shows "extends st (st\<lparr>mst_state := t\<rparr>) \<and> ix_sequence t = Suc (ix_sequence (mst_state st))"
  using state_ok_step [OF _ assms(2,3)] assms(1) by (auto simp: extends_def storage_wf_def)

text \<open>A durable backend that installs a state it restored keeps the invariant if no lane of the progress is lost.\<close>

lemma replace_state_keeps:
  "storage_wf st \<Longrightarrow> state_ok s \<Longrightarrow> lane_names (mst_state st) \<subseteq> lane_names s \<Longrightarrow> storage_wf (replace_state s st)"
  by (auto simp: storage_wf_def replace_state_def)

lemma outcome_cases:
  "(case out of Applied_Entry e \<Rightarrow> Inr (e, st) | _ \<Rightarrow> Inl x) = Inr y \<longleftrightarrow> (\<exists>e. out = Applied_Entry e \<and> y = (e, st))"
  "(case out of Applied_Record r \<Rightarrow> Inr (r, st) | _ \<Rightarrow> Inl x) = Inr z \<longleftrightarrow> (\<exists>r. out = Applied_Record r \<and> z = (r, st))"
  by (cases out; auto)+

lemma append_entry_Inr:
  "append_entry_checked p lane expected now st = Inr (e, st') \<longleftrightarrow>
     (\<exists>parent_id s'. check_expected expected (mst_state st) = Inr () \<and> require_lane (mst_state st) lane = Inr parent_id
        \<and> pe_id p \<notin> ix_used_ids (mst_state st)
        \<and> session_apply (mst_state st) (Mut_Entry (Suc (ix_sequence (mst_state st))) now (Some lane)
            (provisioned_into_entry p (Suc (ix_sequence (mst_state st))) parent_id now)) = Inr (s', Applied_Entry e)
        \<and> st' = st\<lparr>mst_state := s'\<rparr>)"
  by (fastforce simp: append_entry_checked_def Let_def validate_unused_id_def next_sequence_def outcome_cases)

lemma extends_apply:
  assumes "storage_wf st" and "session_apply (mst_state st) m = Inr (t, out)" and "admitted (mst_state st) m"
  shows "extends st (st\<lparr>mst_state := t\<rparr>)" "ix_sequence t = Suc (ix_sequence (mst_state st))"
  using extends_step [OF assms(1,3), of t] assms(2) by (auto simp: session_step_iff)

lemma entry_extends:
  assumes "storage_wf st" and "append_entry_checked p lane expected now st = Inr (e, st')"
  shows "extends st st' \<and> ix_sequence (mst_state st') = Suc (ix_sequence (mst_state st))"
  using assms(2) by (auto simp: append_entry_Inr intro: extends_apply [OF assms(1)])

lemma no_open_operation:
  "find_open_operations s lane (Some (Suc 0)) = Inr [] \<Longrightarrow> ix_open_ops s lane = None \<or> ix_open_ops s lane = Some []"
  by (auto simp: find_open_operations_def validate_limit_def take_opt_def split: option.splits)

lemma append_record_Inr:
  "append_record_checked r expected now st = Inr (r', st') \<longleftrightarrow>
     (\<exists>s'. check_expected expected (mst_state st) = Inr () \<and> map_of (ix_lanes (mst_state st)) (record_lane r) \<noteq> None
        \<and> record_id r \<notin> ix_used_ids (mst_state st)
        \<and> (\<forall>sr. r = Rec_OperationStarted sr \<longrightarrow> find_open_operations (mst_state st) (record_lane r) (Some 1) = Inr [])
        \<and> session_apply (mst_state st) (Mut_Record (stamp_record r (Suc (ix_sequence (mst_state st))) (record_lane r) now))
            = Inr (s', Applied_Record r')
        \<and> st' = st\<lparr>mst_state := s'\<rparr>)"
proof -
  have "(case r of Rec_OperationStarted _ \<Rightarrow>
             res_bind (find_open_operations (mst_state st) (record_lane r) (Some 1)) (\<lambda>ops.
             case ops of
               [] \<Rightarrow> Inr ()
             | current # _ \<Rightarrow> Inl (err_storage (''Lane '' @ record_lane r @ '' already has an open operation '' @ rb_id (os_base current))))
         | _ \<Rightarrow> Inr ()) = Inr () \<longleftrightarrow>
      (\<forall>sr. r = Rec_OperationStarted sr \<longrightarrow> find_open_operations (mst_state st) (record_lane r) (Some 1) = Inr [])"
    by (cases r; cases "find_open_operations (mst_state st) (record_lane r) (Some 1)")
      (auto split: list.splits)
  then show ?thesis
    by (fastforce simp: append_record_checked_def Let_def validate_unused_id_def next_sequence_def outcome_cases
      require_lane_def)
qed

lemma record_base_mut_started:
  "record_base_mut g r = Rec_OperationStarted q \<longleftrightarrow> (\<exists>sr. r = Rec_OperationStarted sr \<and> q = sr\<lparr>os_base := g (os_base sr)\<rparr>)"
  by (cases r) auto

lemma record_extends:
  assumes "storage_wf st" and "append_record_checked r expected now st = Inr (r', st')"
  shows "extends st st' \<and> ix_sequence (mst_state st') = Suc (ix_sequence (mst_state st))"
proof -
  from assms(2) obtain s' where
      once: "\<forall>sr. r = Rec_OperationStarted sr \<longrightarrow> find_open_operations (mst_state st) (record_lane r) (Some 1) = Inr []"
    and ok: "session_apply (mst_state st) (Mut_Record (stamp_record r (Suc (ix_sequence (mst_state st))) (record_lane r) now))
            = Inr (s', Applied_Record r')" "st' = st\<lparr>mst_state := s'\<rparr>"
    by (auto simp: append_record_Inr)
  have "admitted (mst_state st) (Mut_Record (stamp_record r (Suc (ix_sequence (mst_state st))) (record_lane r) now))"
    using once by (auto simp: admitted_def stamp_record_def record_base_mut_started dest: no_open_operation)
  with extends_apply [OF assms(1) ok(1)] ok(2) show ?thesis by simp
qed

lemma lane_extends:
  assumes "storage_wf st" and "create_lane lane at st = Inr st' \<or> move_lane lane at st = Inr st'"
  shows "extends st st' \<and> ix_sequence (mst_state st') = Suc (ix_sequence (mst_state st))"
  using assms(2) by (auto simp: create_lane_def move_lane_def Let_def session_step_iff intro: extends_apply [OF assms(1)])

lemma fact_extends:
  assumes "storage_wf st" and "set_name name st = Inr st' \<or> set_label i label st = Inr st'"
  shows "extends st st' \<and> ix_sequence (mst_state st') = Suc (ix_sequence (mst_state st))"
  using assms(2) by (auto simp: set_name_def set_label_def Let_def session_step_iff intro: extends_apply [OF assms(1)])

text \<open>Validated cancellations commit: the loop has no error, and returns its records stamped in order.\<close>

definition stamped_cancellations :: "(nat \<Rightarrow> i64) \<Rightarrow> nat \<Rightarrow> nat \<Rightarrow> 'f lane_record list \<Rightarrow> 'f lane_record list" where
  "stamped_cancellations now k sq rs =
     map (\<lambda>i. stamp_record (rs ! i) (sq + Suc i) (record_lane (rs ! i)) (now (k + i))) [0..<length rs]"

lemma stamped_cancellations_Cons:
  "stamped_cancellations now k sq (r # rs) =
     stamp_record r (Suc sq) (record_lane r) (now k) # stamped_cancellations now (Suc k) (Suc sq) rs"
proof -
  have "[0..<length (r # rs)] = 0 # map Suc [0..<length rs]"
    by (simp add: upt_conv_Cons map_Suc_upt del: upt_Suc)
  then show ?thesis by (simp add: stamped_cancellations_def comp_def del: upt_Suc)
qed

lemma is_cancellation_stamp [simp]: "is_cancellation (stamp_record r sq lane ts) = is_cancellation r"
  by (cases r) (simp_all add: stamp_record_def)

lemma commit_cancellations_eq:
  assumes "list_all is_cancellation rs" and "distinct (map record_id rs)"
    and "\<forall>r \<in> set rs. map_of (ix_lanes s) (record_lane r) \<noteq> None \<and> record_id r \<notin> ix_used_ids s"
  shows "commit_cancellations now k rs s =
     Inr (stamped_cancellations now k (ix_sequence s) rs,
       fold (\<lambda>r s. push_record s r) (stamped_cancellations now k (ix_sequence s) rs) s)"
  using assms
proof (induction rs arbitrary: s k)
  case Nil
  then show ?case by (simp add: stamped_cancellations_def)
next
  case (Cons r rs)
  let ?r = "stamp_record r (Suc (ix_sequence s)) (record_lane r) (now k)"
  have "session_step s (Mut_Record ?r) = Inr (push_record s ?r)"
    using Cons.prems by (intro apply_cancellation) auto
  then obtain out where out: "session_apply s (Mut_Record ?r) = Inr (push_record s ?r, out)"
    by (auto simp: session_step_iff)
  then have "out = Applied_Record ?r"
    by (auto simp: session_apply_def apply_mutation_def apply_record_def)
  moreover have "commit_cancellations now (Suc k) rs (push_record s ?r) =
      Inr (stamped_cancellations now (Suc k) (ix_sequence (push_record s ?r)) rs,
        fold (\<lambda>r s. push_record s r) (stamped_cancellations now (Suc k) (ix_sequence (push_record s ?r)) rs) (push_record s ?r))"
    using Cons.prems by (intro Cons.IH) (auto simp: push_record_def image_iff)
  ultimately show ?case using out by (simp add: next_sequence_def stamped_cancellations_Cons push_record_def)
qed

lemma commit_keeps:
  "list_all is_cancellation rs \<Longrightarrow> state_ok s \<Longrightarrow> commit_cancellations now k rs s = Inr (committed, t) \<Longrightarrow>
     state_ok t \<and> ix_sequence t = ix_sequence s + length rs \<and> lane_names s \<subseteq> lane_names t"
proof (induction now k rs s arbitrary: committed rule: commit_cancellations.induct)
  case (2 now k r rs s)
  let ?m = "Mut_Record (stamp_record r (next_sequence s) (record_lane r) (now k))"
  from "2.prems"(3) obtain s' out rest where
      ok: "session_apply s ?m = Inr (s', out)" "commit_cancellations now (Suc k) rs s' = Inr (rest, t)"
    by auto
  have "admitted s ?m"
    using "2.prems"(1) by (cases r) (auto simp: admitted_def stamp_record_def)
  from state_ok_apply [OF "2.prems"(2) this ok(1)] "2.IH" [OF _ _ ok(2)] "2.prems"(1)
  show ?case by auto
qed simp

lemma cancellations_extend:
  assumes "storage_wf st" and "append_queue_cancellations rs now st = Inr (committed, st')"
  shows "extends st st' \<and> ix_sequence (mst_state st') = ix_sequence (mst_state st) + length rs"
proof -
  from assms(2) obtain s' where v: "validate_queue_cancellations (mst_state st) rs = Inr ()"
      and ok: "commit_cancellations now 0 rs (mst_state st) = Inr (committed, s')" "st' = st\<lparr>mst_state := s'\<rparr>"
    by (auto simp: append_queue_cancellations_def)
  have "list_all is_cancellation rs"
    using check_cancellations_facts [of "mst_state st" "{}" "{}" rs] v by (simp add: validate_queue_cancellations_def)
  with commit_keeps [OF _ _ ok(1)] assms(1) ok(2) show ?thesis by (auto simp: extends_def storage_wf_def)
qed

lemma require_lanes_Inr: "require_lanes s rs = Inr () \<longleftrightarrow> (\<forall>r \<in> set rs. pr_lane r \<in> lane_names s)"
  by (induction rs) (auto simp: require_lane_def lane_names_def)

lemma map_sum_Inr: "map_sum f g x = Inr y \<longleftrightarrow> (\<exists>z. x = Inr z \<and> y = g z)"
  by (cases x) auto

lemma survivors_subset: "set (survivors rs) \<subseteq> set rs"
  by (induction rs) auto

lemma progress_keeps:
  assumes "storage_wf st" and "append_progress rs now st = Inr (stamped, st')"
  shows "storage_wf st' \<and> mst_state st' = mst_state st"
proof -
  from assms(2) obtain pg where lanes: "\<forall>r \<in> set rs. pr_lane r \<in> lane_names (mst_state st)"
      and prep: "progress_prepare now rs (mst_progress st) = Inr stamped"
      and app: "progress_apply stamped (mst_progress st) = Inr pg" and st': "st' = st\<lparr>mst_progress := pg\<rparr>"
    by (auto simp: append_progress_def map_sum_Inr require_lanes_Inr)
  have wf: "progress_wf (mst_progress st)" using assms(1) by (simp add: storage_wf_def)
  from prepared_applies [OF prep wf] app have pg: "progress_wf pg" "set (pg_frames pg) \<subseteq> set (pg_frames (mst_progress st)) \<union> set stamped"
    using survivors_subset [of "pg_frames (mst_progress st) @ stamped"] by auto
  have "pr_lane r \<in> lane_names (mst_state st)" if "r \<in> set stamped" for r
    using that prepared_batch [OF prep wf] lanes by (metis in_set_conv_nth nth_mem stamp_frame_simps(2))
  then show ?thesis using assms(1) pg by (auto simp: storage_wf_def st')
qed

lemma prune_keeps:
  assumes "storage_wf st" and "prune_completed_progress st = (n, st')"
  shows "storage_wf st' \<and> mst_state st' = mst_state st"
proof -
  have "progress_wf (retain_frames drops pg)" if "progress_wf pg" for drops and pg :: "'a progress_state"
    using that by (fastforce simp: progress_wf_def retain_frames_def sorted_wrt_map distinct_map
      intro: sorted_wrt_filter inj_on_subset dest: inj_onD)
  then show ?thesis
    using assms by (auto simp: prune_completed_progress_def prune_completed_def Let_def storage_wf_def retain_frames_def)
qed

definition changes_history :: "'f storage_call \<Rightarrow> bool" where
  "changes_history c = (case c of Call_AppendProgress _ _ \<Rightarrow> False | Call_PruneProgress \<Rightarrow> False
     | Call_Cancel rs _ \<Rightarrow> rs \<noteq> [] | _ \<Rightarrow> True)"

lemma storage_step_keeps:
  assumes "storage_wf st" and "storage_step st c = Inr st'"
  shows "storage_wf st' \<and> ix_sequence (mst_state st) \<le> ix_sequence (mst_state st')
     \<and> (changes_history c \<longrightarrow> ix_sequence (mst_state st) < ix_sequence (mst_state st'))"
proof (cases c)
  case (Call_AppendEntry p lane expected now)
  then show ?thesis using assms entry_extends [OF assms(1)] extends_wf [OF assms(1)] by (fastforce simp: map_sum_Inr)
next
  case (Call_AppendRecord r expected now)
  then show ?thesis using assms record_extends [OF assms(1)] extends_wf [OF assms(1)] by (fastforce simp: map_sum_Inr)
next
  case (Call_Cancel rs now)
  then show ?thesis
    using assms cancellations_extend [OF assms(1)] extends_wf [OF assms(1)]
    by (fastforce simp: map_sum_Inr changes_history_def)
next
  case (Call_AppendProgress rs now)
  then show ?thesis using assms progress_keeps [OF assms(1)] by (fastforce simp: map_sum_Inr changes_history_def)
next
  case Call_PruneProgress
  then show ?thesis
    using assms prune_keeps [OF assms(1)] by (cases "prune_completed_progress st") (fastforce simp: changes_history_def)
next
  case (Call_CreateLane lane at)
  then show ?thesis using assms lane_extends [OF assms(1), of lane at st'] extends_wf [OF assms(1)] by simp
next
  case (Call_MoveLane lane at)
  then show ?thesis using assms lane_extends [OF assms(1), of lane at st'] extends_wf [OF assms(1)] by simp
next
  case (Call_SetName name)
  then show ?thesis using assms fact_extends [OF assms(1), of name st'] extends_wf [OF assms(1)] by simp
next
  case (Call_SetLabel i label)
  then show ?thesis using assms fact_extends [OF assms(1), of _ st' i label] extends_wf [OF assms(1)] by simp
qed

interpretation storage: checked_steps storage_step storage_wf
  by unfold_locales (blast dest: storage_step_keeps)

lemma run_calls_keeps:
  "storage_wf st \<Longrightarrow> storage_wf (run_calls cs st) \<and> ix_sequence (mst_state st) \<le> ix_sequence (mst_state (run_calls cs st))"
proof (induction cs arbitrary: st)
  case (Cons c cs)
  then show ?case
    using storage_step_keeps [OF Cons.prems, of c] by (cases "storage_step st c") (auto intro: order_trans)
qed simp

lemma served_ok:
  assumes "st = run_calls cs (storage_new md)"
  shows "storage_wf st" "session_wf (mst_state st)"
  using run_calls_keeps [OF storage_wf_new, of cs md] assms by (simp_all add: storage_wf_def state_ok_def reach_wf)

lemma open_ops_eq:
  "session_wf s \<Longrightarrow> ix_open_ops s lane = (if still_open lane (ix_records s) = [] then None
     else Some (map (\<lambda>r. (rb_seq (os_base r), r)) (still_open lane (ix_records s))))"
  using session_wfD(8) [of s] open_ops_still_open [OF records_ascending [OF session_wfD(7) [of s]]]
  by (simp add: wf_derived_def)

text \<open>A fork is a new storage that meets the invariant.\<close>

lemma fork_mutations_plain:
  assumes "create_fork_mutations s opts = Inr ms"
  shows "list_all (\<lambda>m. well_stamped m \<and> (\<forall>r. m \<noteq> Mut_Record r)) ms"
proof -
  have "list_all (\<lambda>m. well_stamped m \<and> (\<forall>r. m \<noteq> Mut_Record r)) (fork_entries q es)" for q and es :: "'a entry list"
    by (induction es arbitrary: q) simp_all
  moreover have "list_all (\<lambda>m. well_stamped m \<and> (\<forall>r. m \<noteq> Mut_Record r)) (fork_pointers q ps :: 'a session_mutation list)" for q ps
    by (induction ps arbitrary: q) simp_all
  moreover have "list_all (\<lambda>m. well_stamped m \<and> (\<forall>r. m \<noteq> Mut_Record r)) (fork_labels q labels es)"
    for q labels and es :: "'a entry list"
    by (induction es arbitrary: q) (simp_all split: option.split)
  ultimately show ?thesis
    using assms by (auto simp: create_fork_mutations_def fork_plan_def Let_def split: option.splits prod.splits)
qed

lemma fork_keeps:
  assumes "fork_from metadata options st = Inr st'"
  shows "storage_wf st' \<and> mst_metadata st' = metadata"
proof -
  from assms obtain ms s where ms: "create_fork_mutations (mst_state st) options = Inr ms"
      and s: "fold_res session_step session_new ms = Inr s" and st': "st' = (storage_new metadata)\<lparr>mst_state := s\<rparr>"
    by (auto simp: fork_from_def)
  have "state_ok u \<Longrightarrow> list_all (\<lambda>m. well_stamped m \<and> (\<forall>r. m \<noteq> Mut_Record r)) ns \<Longrightarrow> fold_res session_step u ns = Inr t \<Longrightarrow>
      state_ok t" for u t and ns :: "'a session_mutation list"
  proof (induction ns arbitrary: u)
    case (Cons n ns)
    then obtain v where v: "session_step u n = Inr v" "fold_res session_step v ns = Inr t" by auto
    have "admitted u n" using Cons.prems(2) by (auto simp: admitted_def)
    then have "state_ok v" using state_ok_step [OF Cons.prems(1) _ v(1)] by blast
    with Cons.IH v(2) Cons.prems(2) show ?case by simp
  qed simp
  from this [OF state_ok_new fork_mutations_plain [OF ms] s] show ?thesis
    by (simp add: storage_wf_def st' storage_new_def progress_wf_at) (simp add: progress_at_def)
qed

definition repo_wf :: "'f::{zero,plus} memory_repo \<Rightarrow> bool" where
  "repo_wf r \<longleftrightarrow> (\<forall>st \<in> set (rp_storages r). storage_wf st)
     \<and> (\<forall>i h. rp_sessions r i = Some h \<longrightarrow> h < length (rp_storages r) \<and> sm_id (mst_metadata (rp_storages r ! h)) = i)"

lemma step_metadata: "storage_step st c = Inr st' \<Longrightarrow> mst_metadata st' = mst_metadata st"
  by (cases c) (auto simp: map_sum_Inr append_entry_Inr append_record_Inr create_lane_def move_lane_def Let_def
    append_queue_cancellations_def set_name_def set_label_def append_progress_def prune_completed_progress_def
    split: prod.splits)

lemma run_metadata: "mst_metadata (run_calls cs st) = mst_metadata st"
  by (induction cs arbitrary: st) (auto split: sum.split dest: step_metadata)

lemma session_id_for_simps:
  "session_id_for ids options r = (i, r') \<Longrightarrow> rp_sessions r' = rp_sessions r \<and> rp_storages r' = rp_storages r"
  by (auto simp: session_id_for_def split: option.splits)

lemma inserted_keeps:
  "repo_wf r \<Longrightarrow> storage_wf st \<Longrightarrow> sm_id (mst_metadata st) = i \<Longrightarrow> repo_wf (snd (insert_session i st r))"
  by (auto simp: repo_wf_def insert_session_def nth_append less_Suc_eq)

lemma repo_step_keeps:
  assumes "repo_wf r"
  shows "repo_wf (repo_step ids c r)"
proof (cases c)
  case (Repo_Create now options)
  obtain i r' where i: "session_id_for ids options r = (i, r')" by fastforce
  then have "repo_wf r'" using assms session_id_for_simps [OF i] by (simp add: repo_wf_def)
  then have "repo_wf (snd (insert_session i (storage_new md) r'))" if "sm_id md = i" for md
    using that by (intro inserted_keeps storage_wf_new) (simp_all add: storage_new_def)
  with \<open>repo_wf r'\<close> show ?thesis
    using Repo_Create i by (auto simp: repo_create_def Let_def insert_session_def)
next
  case (Repo_Delete metadata)
  then show ?thesis using assms by (auto simp: repo_wf_def repo_delete_def)
next
  case (Repo_Fork now source options f)
  obtain i r' where i: "session_id_for ids options r = (i, r')" by fastforce
  then have r': "repo_wf r'" using assms session_id_for_simps [OF i] by (simp add: repo_wf_def)
  have "repo_wf (snd (insert_session i forked r'))" if "fork_from md f st = Inr forked" "sm_id md = i" for md st forked
    using fork_keeps [OF that(1)] that(2) r' by (intro inserted_keeps) simp_all
  with r' assms show ?thesis
    using Repo_Fork i by (auto simp: repo_fork_def Let_def insert_session_def split: sum.split)
next
  case (Repo_Storage h c')
  then show ?thesis
    using assms run_calls_keeps [of "rp_storages r ! h" "[c']"]
    by (auto simp: repo_wf_def nth_list_update run_metadata simp del: run_calls.simps dest!: subsetD [OF set_update_subset_insert])
qed

lemma fold_push_records [simp]: "ix_records (fold (\<lambda>r s. push_record s r) rs s) = ix_records s @ rs"
  by (induction rs arbitrary: s) (simp_all add: push_record_def)

subsection \<open>Properties of the storage\<close>

text \<open>
  C8. Whatever sequence of calls a storage has served, failed ones included: its session is well
  formed, its progress passes validation and names lanes that exist, and no lane has two open
  operations.
\<close>

theorem served_storage_sound:
  assumes "st = run_calls cs (storage_new md)"
  shows "session_wf (mst_state st) \<and> progress_wf (mst_progress st)
     \<and> (\<forall>f \<in> set (pg_frames (mst_progress st)). map_of (ix_lanes (mst_state st)) (pr_lane f) \<noteq> None)
     \<and> (\<forall>lane. length (still_open lane (ix_records (mst_state st))) \<le> 1)"
proof -
  note wf = served_ok [OF assms]
  note ops = open_ops_eq [OF wf(2)]
  have "length (still_open lane (ix_records (mst_state st))) \<le> 1" for lane
  proof (cases "still_open lane (ix_records (mst_state st)) = []")
    case False
    then have "length (map (\<lambda>r. (rb_seq (os_base r), r)) (still_open lane (ix_records (mst_state st)))) \<le> 1"
      using wf(1) ops [of lane] unfolding storage_wf_def state_ok_def one_open_def by metis
    then show ?thesis by simp
  qed simp
  with wf show ?thesis by (auto simp: storage_wf_def lane_names_def domIff)
qed

text \<open>
  An append is accepted exactly when the revision the caller expects is current, the lane exists
  and the identifier is unused. Then the entry goes under the leaf of its lane with the next sequence
  number, the lane moves to it, and nothing else changes: no other lane, no record, no progress.
\<close>

theorem append_entry_effect:
  assumes "st = run_calls cs (storage_new md)"
  shows "((\<exists>r. append_entry_checked p lane expected now st = Inr r) \<longleftrightarrow>
       (\<forall>n. expected = Some n \<longrightarrow> n = ix_sequence (mst_state st))
       \<and> map_of (ix_lanes (mst_state st)) lane \<noteq> None \<and> pe_id p \<notin> ix_used_ids (mst_state st))
     \<and> (\<forall>e st'. append_entry_checked p lane expected now st = Inr (e, st') \<longrightarrow>
       e = provisioned_into_entry p (Suc (ix_sequence (mst_state st))) (the (map_of (ix_lanes (mst_state st)) lane)) now
       \<and> ix_entries (mst_state st') = ix_entries (mst_state st) @ [e]
       \<and> map_of (ix_lanes (mst_state st')) = (map_of (ix_lanes (mst_state st)))(lane \<mapsto> Some (pe_id p))
       \<and> ix_records (mst_state st') = ix_records (mst_state st) \<and> mst_progress st' = mst_progress st)"
proof -
  let ?s = "mst_state st"
  note wf = served_ok(2) [OF assms]
  let ?m = "\<lambda>leaf. Mut_Entry (Suc (ix_sequence ?s)) now (Some lane) (provisioned_into_entry p (Suc (ix_sequence ?s)) leaf now)"
  have leaf: "get_entry ?s i \<noteq> None" if "map_of (ix_lanes ?s) lane = Some (Some i)" for i
    using session_wfD(6) [OF wf] that by (auto simp: wf_lanes_def dest: map_of_SomeD)
  have applied: "(\<exists>t. session_apply ?s (?m leaf) = Inr (t, Applied_Entry (provisioned_into_entry p (Suc (ix_sequence ?s)) leaf now)))
      \<longleftrightarrow> accepts ?s (?m leaf)" for leaf
  proof -
    have "out = Applied_Entry (provisioned_into_entry p (Suc (ix_sequence ?s)) leaf now)"
      if "session_apply ?s (?m leaf) = Inr (t, out)" for t out
      using that by (auto simp: session_apply_def apply_mutation_def apply_entry_def)
    then show ?thesis using apply_iff_accepts [OF wf, of "?m leaf"] by blast
  qed
  have "accepts ?s (?m leaf)" if "map_of (ix_lanes ?s) lane = Some leaf" "pe_id p \<notin> ix_used_ids ?s" for leaf
    using that leaf by (auto simp: accepts_def opt_all_def entry_id_def entry_parent_id_def base_simps split: option.split)
  then have "(\<exists>r. append_entry_checked p lane expected now st = Inr r) \<longleftrightarrow>
       (\<forall>n. expected = Some n \<longrightarrow> n = ix_sequence ?s) \<and> map_of (ix_lanes ?s) lane \<noteq> None \<and> pe_id p \<notin> ix_used_ids ?s"
    using applied
    by (auto simp: append_entry_Inr check_expected_def check_revision_def require_lane_def split: option.splits) blast+
  moreover have "e = provisioned_into_entry p (Suc (ix_sequence ?s)) (the (map_of (ix_lanes ?s) lane)) now
       \<and> ix_entries (mst_state st') = ix_entries ?s @ [e]
       \<and> map_of (ix_lanes (mst_state st')) = (map_of (ix_lanes ?s))(lane \<mapsto> Some (pe_id p))
       \<and> ix_records (mst_state st') = ix_records ?s \<and> mst_progress st' = mst_progress st"
    if "append_entry_checked p lane expected now st = Inr (e, st')" for e st'
    using that
    by (auto simp: append_entry_Inr require_lane_def session_apply_def apply_mutation_def apply_entry_Inr_iff
        extend_entry_def set_lane_leaf_def entry_id_def base_simps)
  ultimately show ?thesis by blast
qed

text \<open>
  C9. Of two writers that read the same revision, one at most writes: after any call that changed the
  history, and whatever was called since, an append conditional on the old revision is refused.
\<close>

theorem stale_writer_refused:
  assumes "st = run_calls cs (storage_new md)" and "changes_history c" and "storage_step st c = Inr st1"
    and "st2 = run_calls cs' st1"
  shows "append_entry_checked p lane (Some (ix_sequence (mst_state st))) now st2
        = Inl (err_storage ''branch write conflict: history changed during conditional write'')
     \<and> append_record_checked r (Some (ix_sequence (mst_state st))) now st2
        = Inl (err_storage ''branch write conflict: history changed during conditional write'')"
proof -
  note wf = served_ok(1) [OF assms(1)]
  have "ix_sequence (mst_state st) < ix_sequence (mst_state st2)"
    using storage_step_keeps [OF wf assms(3)] assms(2,4) run_calls_keeps [of st1 cs'] by auto
  then have "check_revision (mst_state st2) (ix_sequence (mst_state st))
      = Inl (err_storage ''branch write conflict: history changed during conditional write'')"
    by (simp add: check_revision_def)
  then show ?thesis by (simp add: append_entry_checked_def append_record_checked_def check_expected_def Let_def)
qed

text \<open>
  An operation starts only on an idle lane: the append of its start record is accepted exactly when
  the expected revision is current, the lane exists, the identifier is unused and no operation of the
  lane is open; it is then the one open operation of the lane, and every other lane is as it was.
\<close>

theorem operation_starts_on_idle_lane:
  assumes "st = run_calls cs (storage_new md)"
  shows "((\<exists>x. append_record_checked (Rec_OperationStarted r) expected now st = Inr x) \<longleftrightarrow>
       (\<forall>n. expected = Some n \<longrightarrow> n = ix_sequence (mst_state st))
       \<and> map_of (ix_lanes (mst_state st)) (rb_lane (os_base r)) \<noteq> None \<and> rb_id (os_base r) \<notin> ix_used_ids (mst_state st)
       \<and> still_open (rb_lane (os_base r)) (ix_records (mst_state st)) = [])
     \<and> (\<forall>r' st'. append_record_checked (Rec_OperationStarted r) expected now st = Inr (r', st') \<longrightarrow>
       (\<forall>lane. still_open lane (ix_records (mst_state st')) = still_open lane (ix_records (mst_state st))
          @ (if lane = rb_lane (os_base r) then
               [r\<lparr>os_base := (os_base r)\<lparr>rb_seq := Suc (ix_sequence (mst_state st)), rb_timestamp := now\<rparr>\<rparr>] else [])))"
proof -
  let ?s = "mst_state st" and ?r = "Rec_OperationStarted r"
  let ?m = "stamp_record ?r (Suc (ix_sequence ?s)) (record_lane ?r) now"
  note wf = served_ok(2) [OF assms]
  have idle: "find_open_operations ?s (rb_lane (os_base r)) (Some (Suc 0)) = Inr [] \<longleftrightarrow>
      still_open (rb_lane (os_base r)) (ix_records ?s) = []"
    using find_open_operations_eq [OF session_wfD(1) [OF wf], of "Some (Suc 0)"] by (simp add: take_opt_def)
  have applied: "session_apply ?s (Mut_Record ?m) = Inr (t, out) \<longleftrightarrow>
      map_of (ix_lanes ?s) (rb_lane (os_base r)) \<noteq> None \<and> rb_id (os_base r) \<notin> ix_used_ids ?s
      \<and> t = push_record ?s ?m \<and> out = Applied_Record ?m" for t out
    by (auto simp: session_apply_def apply_mutation_def apply_record_def validate_unused_id_def record_id_def
        stamp_record_def record_lane_def record_seq_def)
  have "(\<exists>x. append_record_checked ?r expected now st = Inr x) \<longleftrightarrow>
       (\<forall>n. expected = Some n \<longrightarrow> n = ix_sequence ?s)
       \<and> map_of (ix_lanes ?s) (rb_lane (os_base r)) \<noteq> None \<and> rb_id (os_base r) \<notin> ix_used_ids ?s
       \<and> still_open (rb_lane (os_base r)) (ix_records ?s) = []"
    using idle applied
    by (auto simp: append_record_Inr check_expected_def check_revision_def record_id_def split: option.splits)
  moreover have "still_open lane (ix_records (mst_state st')) = still_open lane (ix_records ?s)
          @ (if lane = rb_lane (os_base r) then
               [r\<lparr>os_base := (os_base r)\<lparr>rb_seq := Suc (ix_sequence ?s), rb_timestamp := now\<rparr>\<rparr>] else [])"
    if "append_record_checked ?r expected now st = Inr (r', st')" for r' st' lane
  proof -
    from that applied have "st' = st\<lparr>mst_state := push_record ?s ?m\<rparr>" by (auto simp: append_record_Inr)
    then show ?thesis by (simp add: push_record_def still_open_snoc stamp_record_def finishes_def)
  qed
  ultimately show ?thesis by blast
qed

text \<open>
  A batch of queue cancellations commits as a whole or not at all: it is refused exactly when its
  validation fails, and otherwise every record is appended in order with its own sequence number and no
  target of the batch is pending any more.
\<close>

theorem cancellations_all_or_nothing:
  assumes "st = run_calls cs (storage_new md)"
  shows "case validate_queue_cancellations (mst_state st) rs of
       Inl e \<Rightarrow> append_queue_cancellations rs now st = Inl e
     | Inr _ \<Rightarrow> \<exists>st'. append_queue_cancellations rs now st
           = Inr (stamped_cancellations now 0 (ix_sequence (mst_state st)) rs, st')
         \<and> ix_records (mst_state st') = ix_records (mst_state st) @ stamped_cancellations now 0 (ix_sequence (mst_state st)) rs
         \<and> (\<forall>c. Rec_QueueCancelled c \<in> set rs \<longrightarrow> find_records (mst_state st') (pending_query c) = Inr [])"
proof (cases "validate_queue_cancellations (mst_state st) rs")
  case (Inl e)
  then show ?thesis by (simp add: append_queue_cancellations_def)
next
  case (Inr u)
  let ?s = "mst_state st"
  let ?rs = "stamped_cancellations now 0 (ix_sequence ?s) rs"
  have "list_all is_cancellation rs \<and>
      (\<forall>r \<in> set rs. map_of (ix_lanes ?s) (record_lane r) \<noteq> None \<and> record_id r \<notin> ix_used_ids ?s) \<and> distinct (map record_id rs)"
    using check_cancellations_facts [of ?s "{}" "{}" rs] Inr by (simp add: validate_queue_cancellations_def)
  then have ok: "append_queue_cancellations rs now st = Inr (?rs, st\<lparr>mst_state := fold (\<lambda>r s. push_record s r) ?rs ?s\<rparr>)"
    using Inr by (simp add: append_queue_cancellations_def commit_cancellations_eq)
  have "find_records (fold (\<lambda>r s. push_record s r) ?rs ?s) (pending_query c) = Inr []" if c: "Rec_QueueCancelled c \<in> set rs" for c
  proof -
    obtain i where i: "i < length rs" "rs ! i = Rec_QueueCancelled c" using c by (auto simp: in_set_conv_nth)
    let ?c = "c\<lparr>qc_base := (qc_base c)\<lparr>rb_seq := ix_sequence ?s + Suc i, rb_timestamp := now i\<rparr>\<rparr>"
    have "Rec_QueueCancelled ?c = ?rs ! i"
      using i by (simp add: stamped_cancellations_def stamp_record_def)
    then have "Rec_QueueCancelled ?c \<in> set ?rs" using i(1) by (simp add: stamped_cancellations_def del: upt_Suc)
    then have "find_records (fold (\<lambda>r s. push_record s r) ?rs ?s) (pending_query ?c) = Inr []"
      by (intro cancelled_not_pending) (simp add: fold_push_records)
    then show ?thesis by (simp add: pending_query_def)
  qed
  then show ?thesis using Inr ok by (simp add: fold_push_records)
qed

subsection \<open>A storage in use\<close>

definition demo_metadata :: session_metadata where
  "demo_metadata = \<lparr>sm_id = ''s'', sm_created_at = 0, sm_parent_session_id = None\<rparr>"

definition demo_note :: "string \<Rightarrow> int provisioned_entry" where
  "demo_note i = \<lparr>pe_id = i, pe_kind = Prov_Custom ''note'' None\<rparr>"

definition demo_calls :: "int storage_call list" where
  "demo_calls =
     [Call_AppendEntry (demo_note ''a'') ''main'' None 1,
      Call_CreateLane ''side'' (Some ''a''),
      Call_AppendEntry (demo_note ''a'') ''side'' None 2,
      Call_AppendRecord (Rec_OperationStarted demo_started) (Some 2) 3,
      Call_AppendRecord (Rec_OperationStarted (demo_started\<lparr>os_base := demo_base ''other'' 0\<rparr>)) None 4,
      Call_AppendRecord (Rec_QueueEnqueued demo_enqueued) None 5]"

definition demo_storage :: "int memory_storage" where
  "demo_storage = run_calls demo_calls (storage_new demo_metadata)"

lemmas storage_demo_defs = demo_storage_def demo_calls_def demo_metadata_def demo_note_def demo_defs

theorem served_storage_sound_witness:
  "map record_id (ix_records (mst_state demo_storage)) = [''run'', ''q''] \<and> session_wf (mst_state demo_storage)
     \<and> length (still_open ''main'' (ix_records (mst_state demo_storage))) \<le> 1"
proof -
  have "map record_id (ix_records (mst_state demo_storage)) = [''run'', ''q'']" by code_simp
  with served_storage_sound [OF demo_storage_def] show ?thesis by blast
qed

theorem append_entry_effect_witness:
  "\<exists>e st'. append_entry_checked (demo_note ''b'') ''side'' (Some 4) 7 demo_storage = Inr (e, st')
     \<and> entry_parent_id e = Some ''a'' \<and> map_of (ix_lanes (mst_state st')) ''side'' = Some (Some ''b'')"
proof -
  have "ix_sequence (mst_state demo_storage) = 4" by code_simp
  note rev = this
  have side: "map_of (ix_lanes (mst_state demo_storage)) ''side'' = Some (Some ''a'')" by code_simp
  have "pe_id (demo_note ''b'') \<notin> ix_used_ids (mst_state demo_storage)" by code_simp
  note effect = append_entry_effect [OF demo_storage_def, of "demo_note ''b''" "''side''" "Some 4" 7, unfolded rev side]
  then obtain e st' where ok: "append_entry_checked (demo_note ''b'') ''side'' (Some 4) 7 demo_storage = Inr (e, st')"
    using \<open>pe_id _ \<notin> _\<close> by (metis option.distinct(1) option.inject surj_pair)
  with conjunct2 [OF effect, rule_format, OF ok] show ?thesis
    by (intro exI [of _ e] exI [of _ st']) (simp add: demo_note_def entry_parent_id_def)
qed

theorem stale_writer_refused_witness:
  "append_entry_checked (demo_note ''b'') ''side'' (Some 0) 7 (run_calls [Call_PruneProgress] demo_storage)
     = Inl (err_storage ''branch write conflict: history changed during conditional write'')"
proof -
  have "\<not> isl (storage_step (storage_new demo_metadata) (hd demo_calls))" by code_simp
  then have step: "storage_step (storage_new demo_metadata) (hd demo_calls)
      = Inr (run_calls [hd demo_calls] (storage_new demo_metadata))"
    by (cases "storage_step (storage_new demo_metadata) (hd demo_calls)") simp_all
  have "changes_history (hd demo_calls)" "ix_sequence (mst_state (storage_new demo_metadata :: int memory_storage)) = 0"
    by (simp_all add: changes_history_def demo_calls_def storage_new_def session_new_def index_new_def)
  moreover have "run_calls [Call_PruneProgress] demo_storage
      = run_calls (tl demo_calls @ [Call_PruneProgress]) (run_calls [hd demo_calls] (storage_new demo_metadata))"
    by (simp add: demo_storage_def demo_calls_def)
  ultimately show ?thesis
    using stale_writer_refused [of "storage_new demo_metadata" "[]" demo_metadata "hd demo_calls", OF _ _ step] by simp
qed

theorem operation_starts_on_idle_lane_witness:
  "\<not> (\<exists>x. append_record_checked (Rec_OperationStarted (demo_started\<lparr>os_base := demo_base ''other'' 0\<rparr>)) None 7 demo_storage = Inr x)"
proof -
  have "\<not> still_open ''main'' (ix_records (mst_state demo_storage)) = []" by code_simp
  then show ?thesis
    using operation_starts_on_idle_lane [OF demo_storage_def, of "demo_started\<lparr>os_base := demo_base ''other'' 0\<rparr>" None 7]
    by (simp add: demo_base_def)
qed

theorem cancellations_all_or_nothing_witness:
  "\<exists>st'. append_queue_cancellations [Rec_QueueCancelled demo_cancelled] (\<lambda>_. 8) demo_storage
       = Inr (stamped_cancellations (\<lambda>_. 8) 0 4 [Rec_QueueCancelled demo_cancelled], st')
     \<and> find_records (mst_state st') (pending_query demo_cancelled) = Inr []"
proof -
  have "validate_queue_cancellations (mst_state demo_storage) [Rec_QueueCancelled demo_cancelled] = Inr ()" by code_simp
  moreover have "ix_sequence (mst_state demo_storage) = 4" by code_simp
  ultimately show ?thesis
    using cancellations_all_or_nothing [OF demo_storage_def, of "[Rec_QueueCancelled demo_cancelled]" "\<lambda>_. 8"] by auto
qed

subsection \<open>The repository as a map of sessions\<close>

definition sessions_of :: "'f memory_repo \<Rightarrow> (string \<rightharpoonup> 'f memory_storage)" where
  "sessions_of r = (\<lambda>i. map_option (\<lambda>h. rp_storages r ! h) (rp_sessions r i))"

text \<open>The id of a new session, why a fork of a session is refused, and what a fork holds.\<close>

definition chosen_id :: "(nat \<Rightarrow> string) \<Rightarrow> session_create_options \<Rightarrow> 'f memory_repo \<Rightarrow> string" where
  "chosen_id ids options r = (case co_id options of Some i \<Rightarrow> i | None \<Rightarrow> ids (rp_issued r))"

definition fork_refusal :: "fork_options \<Rightarrow> 'f session_state \<Rightarrow> session_error option" where
  "fork_refusal opts s =
     (case opts of
        Fork_Tree \<Rightarrow> None
      | Fork_Branch entry pos \<Rightarrow> (case fork_target s entry pos of Inl e \<Rightarrow> Some e | Inr _ \<Rightarrow> None))"

definition forked :: "fork_options \<Rightarrow> 'f::{zero,plus} session_state \<Rightarrow> 'f session_state \<Rightarrow> bool" where
  "forked opts s t \<longleftrightarrow> session_wf t \<and> ix_name t = ix_name s \<and>
     (case opts of
        Fork_Tree \<Rightarrow> ix_entries t = restamped 1 (ix_entries s) \<and> ix_lanes t = ix_lanes s \<and> ix_labels t = ix_labels s
      | Fork_Branch entry pos \<Rightarrow> (\<exists>target. fork_target s entry pos = Inr target
          \<and> ix_entries t = restamped 1 (branch_copy s target) \<and> ix_lanes t = [(''main'', target)]
          \<and> ix_labels t = ix_labels s |` (entry_id ` set (branch_copy s target))))"

lemma fork_from_spec:
  assumes "storage_wf st"
  shows "case fork_refusal opts (mst_state st) of
      Some e \<Rightarrow> fork_from md opts st = Inl e
    | None \<Rightarrow> \<exists>t. fork_from md opts st = Inr ((storage_new md)\<lparr>mst_state := t\<rparr>) \<and> forked opts (mst_state st) t"
proof -
  have wf: "session_wf (mst_state st)" using assms by (auto simp: storage_wf_def state_ok_def intro: reach_wf)
  show ?thesis
  proof (cases opts)
    case Fork_Tree
    with fork_tree_replay [OF wf] show ?thesis by (auto simp: fork_refusal_def forked_def fork_from_def)
  next
    case (Fork_Branch entry pos)
    show ?thesis
    proof (cases "fork_target (mst_state st) entry pos")
      case (Inl e)
      then show ?thesis
        by (simp add: Fork_Branch fork_refusal_def fork_from_def create_fork_mutations_def fork_selection_def)
    next
      case (Inr target)
      then have "ix_entries_by_id (mst_state st) i \<noteq> None" if "target = Some i" for i
        using fork_target_known [OF wf] that by blast
      from fork_branch_replay [OF wf Inr this] Inr show ?thesis
        by (auto simp: Fork_Branch fork_refusal_def forked_def fork_from_def)
    qed
  qed
qed

lemma inserted_view:
  assumes "repo_wf r" and "insert_session i st r = (h, r')"
  shows "sessions_of r' = (sessions_of r)(i \<mapsto> st) \<and> rp_sessions r' i = Some h"
proof -
  have r': "r' = r\<lparr>rp_sessions := (rp_sessions r)(i \<mapsto> length (rp_storages r)), rp_storages := rp_storages r @ [st]\<rparr>"
      and h: "h = length (rp_storages r)"
    using assms(2) by (auto simp: insert_session_def)
  have "g < length (rp_storages r)" if "rp_sessions r j = Some g" for g j using assms(1) that by (simp add: repo_wf_def)
  then have "sessions_of r' j = ((sessions_of r)(i \<mapsto> st)) j" for j
    by (cases "rp_sessions r j") (simp_all add: r' sessions_of_def nth_append)
  then show ?thesis by (simp add: r' h fun_eq_iff)
qed

lemma reached_repo_wf: "repo_wf (fold (repo_step ids) cs repo_new)"
proof -
  have "repo_wf q \<Longrightarrow> repo_wf (fold (repo_step ids) cs q)" for q
    by (induction cs arbitrary: q) (simp_all add: repo_step_keeps)
  moreover have "repo_wf repo_new" by (simp add: repo_wf_def repo_new_def)
  ultimately show ?thesis by blast
qed

lemma session_id_chosen:
  obtains q where "session_id_for ids options r = (chosen_id ids options r, q)"
    "rp_sessions q = rp_sessions r" "rp_storages q = rp_storages r" "sessions_of q = sessions_of r" "repo_wf q = repo_wf r"
  by (cases "co_id options") (auto simp: session_id_for_def chosen_id_def sessions_of_def repo_wf_def)

lemma dom_view: "i \<in> dom (sessions_of r) \<longleftrightarrow> rp_sessions r i \<noteq> None"
  by (auto simp: sessions_of_def)

lemma repo_create_view:
  assumes "repo_wf r" and "chosen_id ids options r = i" and "repo_create ids now options r = (out, r')"
  shows "if i \<in> dom (sessions_of r)
     then out = Inl (err_already_exists (''Session already exists: '' @ i)) \<and> sessions_of r' = sessions_of r
     else out = Inr (the (rp_sessions r' i)) \<and> sessions_of r' = (sessions_of r)(i \<mapsto>
       storage_new \<lparr>sm_id = i, sm_created_at = now, sm_parent_session_id = co_parent_session_id options\<rparr>)"
proof -
  let ?st = "storage_new \<lparr>sm_id = i, sm_created_at = now, sm_parent_session_id = co_parent_session_id options\<rparr>"
  obtain q where q: "session_id_for ids options r = (i, q)" "rp_sessions q = rp_sessions r"
      "sessions_of q = sessions_of r" "repo_wf q"
    using session_id_chosen [of ids options r] assms(1,2) by metis
  obtain h q' where ins: "insert_session i ?st q = (h, q')" by fastforce
  from inserted_view [OF q(4) ins] show ?thesis
    using assms(3) ins q by (auto simp: repo_create_def dom_view)
qed

lemma repo_fork_view:
  fixes r :: "'f::{zero,plus} memory_repo"
  assumes "repo_wf r" and "chosen_id ids options r = i" and "repo_fork ids now source options opts r = (out, r')"
  shows "case sessions_of r (sm_id source) of
       None \<Rightarrow> out = Inl (err_not_found (''Session not found: '' @ sm_id source)) \<and> sessions_of r' = sessions_of r
     | Some st \<Rightarrow>
         if i \<in> dom (sessions_of r)
         then out = Inl (err_already_exists (''Session already exists: '' @ i)) \<and> sessions_of r' = sessions_of r
         else (case fork_refusal opts (mst_state st) of
                 Some e \<Rightarrow> out = Inl e \<and> sessions_of r' = sessions_of r
               | None \<Rightarrow> \<exists>t. forked opts (mst_state st) t \<and> out = Inr (the (rp_sessions r' i))
                   \<and> sessions_of r' = (sessions_of r)(i \<mapsto> (storage_new \<lparr>sm_id = i, sm_created_at = now,
                        sm_parent_session_id = (case co_parent_session_id options of None \<Rightarrow> Some (sm_id source) | q \<Rightarrow> q)\<rparr>)
                          \<lparr>mst_state := t\<rparr>))"
proof (cases "rp_sessions r (sm_id source)")
  case None
  then show ?thesis using assms(3) by (simp add: repo_fork_def require_storage_def sessions_of_def)
next
  case (Some src)
  let ?st = "rp_storages r ! src"
  let ?md = "\<lparr>sm_id = i, sm_created_at = now,
    sm_parent_session_id = (case co_parent_session_id options of None \<Rightarrow> Some (sm_id source) | q \<Rightarrow> q)\<rparr>"
  obtain q where q: "session_id_for ids options r = (i, q)" "rp_sessions q = rp_sessions r"
      "rp_storages q = rp_storages r" "sessions_of q = sessions_of r" "repo_wf q"
    using session_id_chosen [of ids options r] assms(1,2) by metis
  have st: "sessions_of r (sm_id source) = Some ?st" using Some by (simp add: sessions_of_def)
  have wf: "storage_wf ?st" using assms(1) Some by (auto simp: repo_wf_def)
  show ?thesis
  proof (cases "i \<in> dom (sessions_of r)")
    case True
    then show ?thesis using assms(3) Some q st by (auto simp: repo_fork_def require_storage_def dom_view)
  next
    case False
    then have run: "repo_fork ids now source options opts r = (case fork_from ?md opts ?st of
        Inl e \<Rightarrow> (Inl e, q) | Inr st' \<Rightarrow> (let (h, r) = insert_session i st' q in (Inr h, r)))"
      using Some q by (simp add: repo_fork_def require_storage_def dom_view)
    show ?thesis
    proof (cases "fork_refusal opts (mst_state ?st)")
      case (Some e)
      with fork_from_spec [OF wf, where opts = opts and md = ?md] run assms(3) False st q show ?thesis by simp
    next
      case None
      with fork_from_spec [OF wf, where opts = opts and md = ?md] obtain t where
          t: "fork_from ?md opts ?st = Inr ((storage_new ?md)\<lparr>mst_state := t\<rparr>)" "forked opts (mst_state ?st) t" by auto
      obtain h q' where ins: "insert_session i ((storage_new ?md)\<lparr>mst_state := t\<rparr>) q = (h, q')" by fastforce
      have "out = Inr h" "r' = q'" using run t(1) ins assms(3) by simp_all
      with inserted_view [OF q(5) ins] t(2) False st None q(4) show ?thesis by auto
    qed
  qed
qed

lemma repo_storage_view:
  assumes "repo_wf r"
  shows "rp_sessions r i = Some h \<Longrightarrow> sessions_of (repo_step ids (Repo_Storage h c) r)
      = (sessions_of r)(i \<mapsto> run_calls [c] (rp_storages r ! h))"
    and "h \<notin> ran (rp_sessions r) \<Longrightarrow> sessions_of (repo_step ids (Repo_Storage h c) r) = sessions_of r"
proof -
  have open_handle: "g < length (rp_storages r)" "sm_id (mst_metadata (rp_storages r ! g)) = j"
    if "rp_sessions r j = Some g" for g j using assms that by (simp_all add: repo_wf_def)
  assume i: "rp_sessions r i = Some h"
  have "sessions_of (repo_step ids (Repo_Storage h c) r) j = ((sessions_of r)(i \<mapsto> run_calls [c] (rp_storages r ! h))) j" for j
    using i open_handle [OF i] open_handle [of j]
    by (cases "rp_sessions r j") (auto simp: sessions_of_def nth_list_update simp del: run_calls.simps)
  then show "sessions_of (repo_step ids (Repo_Storage h c) r) = (sessions_of r)(i \<mapsto> run_calls [c] (rp_storages r ! h))" by blast
next
  assume "h \<notin> ran (rp_sessions r)"
  then have other: "rp_sessions r j = Some g \<Longrightarrow> g \<noteq> h" for j g by (auto simp: ran_def)
  have "sessions_of (repo_step ids (Repo_Storage h c) r) j = sessions_of r j" for j
    using other [of j] by (cases "rp_sessions r j") (auto simp: sessions_of_def simp del: run_calls.simps)
  then show "sessions_of (repo_step ids (Repo_Storage h c) r) = sessions_of r" by blast
qed

text \<open>
  C31. A repository is a map from ids to sessions, whatever calls led to it. Creating a session is refused when its
  id, the one asked for or the next one of the generator, is taken, and otherwise adds exactly one empty session
  under it with the metadata asked for. A fork is refused when its source is unknown, its id taken or its target
  illegal, and otherwise adds exactly one session: the copy of the source's tree or branch, with no
  progress, and the source as its parent unless another is named. Deleting removes exactly the session
  named. A call through the handle of a session changes that session and no other, and through the handle of a
  session that was deleted it changes none.
\<close>

theorem repository_is_session_map:
  fixes r :: "'f::{zero,plus} memory_repo"
  assumes "r = fold (repo_step ids) cs repo_new" and "chosen_id ids options r = i"
    and "repo_create ids now options r = (created, r1)" and "repo_fork ids now source options opts r = (copied, r2)"
  shows "(if i \<in> dom (sessions_of r)
      then created = Inl (err_already_exists (''Session already exists: '' @ i)) \<and> sessions_of r1 = sessions_of r
      else created = Inr (the (rp_sessions r1 i)) \<and> sessions_of r1 = (sessions_of r)(i \<mapsto>
        storage_new \<lparr>sm_id = i, sm_created_at = now, sm_parent_session_id = co_parent_session_id options\<rparr>))
    \<and> (case sessions_of r (sm_id source) of
         None \<Rightarrow> copied = Inl (err_not_found (''Session not found: '' @ sm_id source)) \<and> sessions_of r2 = sessions_of r
       | Some st \<Rightarrow>
           if i \<in> dom (sessions_of r)
           then copied = Inl (err_already_exists (''Session already exists: '' @ i)) \<and> sessions_of r2 = sessions_of r
           else (case fork_refusal opts (mst_state st) of
                   Some e \<Rightarrow> copied = Inl e \<and> sessions_of r2 = sessions_of r
                 | None \<Rightarrow> \<exists>t. forked opts (mst_state st) t \<and> copied = Inr (the (rp_sessions r2 i))
                     \<and> sessions_of r2 = (sessions_of r)(i \<mapsto> (storage_new \<lparr>sm_id = i, sm_created_at = now,
                          sm_parent_session_id = (case co_parent_session_id options of None \<Rightarrow> Some (sm_id source) | q \<Rightarrow> q)\<rparr>)
                            \<lparr>mst_state := t\<rparr>)))
    \<and> sessions_of (repo_delete source r) = (sessions_of r)(sm_id source := None)
    \<and> (\<forall>j h c. rp_sessions r j = Some h \<longrightarrow>
         sessions_of (repo_step ids (Repo_Storage h c) r) = (sessions_of r)(j \<mapsto> run_calls [c] (rp_storages r ! h)))
    \<and> (\<forall>h c. h \<notin> ran (rp_sessions r) \<longrightarrow> sessions_of (repo_step ids (Repo_Storage h c) r) = sessions_of r)"
proof -
  have wf: "repo_wf r" unfolding assms(1) by (rule reached_repo_wf)
  have "sessions_of (repo_delete source r) = (sessions_of r)(sm_id source := None)"
    by (simp add: sessions_of_def repo_delete_def fun_eq_iff)
  with repo_create_view [OF wf assms(2,3)] repo_fork_view [OF wf assms(2,4)] repo_storage_view [OF wf]
  show ?thesis by blast
qed

text \<open>A repository with a session of one entry, its fork, and what a second session of the same id is told.\<close>

definition demo_repo_calls :: "int repo_call list" where
  "demo_repo_calls =
     [Repo_Create 0 \<lparr>co_id = Some ''s'', co_parent_session_id = None\<rparr>,
      Repo_Storage 0 (Call_AppendEntry (demo_note ''a'') ''main'' None 1)]"

theorem repository_is_session_map_witness:
  "let r = fold (repo_step counter_id) demo_repo_calls repo_new in
     fst (repo_create counter_id 5 \<lparr>co_id = Some ''s'', co_parent_session_id = None\<rparr> r)
       = Inl (err_already_exists ''Session already exists: s'')
     \<and> (\<exists>t. forked Fork_Tree (mst_state (rp_storages r ! 0)) t
         \<and> sessions_of (snd (repo_fork counter_id 5 \<lparr>sm_id = ''s'', sm_created_at = 0, sm_parent_session_id = None\<rparr>
               \<lparr>co_id = None, co_parent_session_id = None\<rparr> Fork_Tree r)) ''id-1''
             = Some ((storage_new \<lparr>sm_id = ''id-1'', sm_created_at = 5, sm_parent_session_id = Some ''s''\<rparr>)\<lparr>mst_state := t\<rparr>))"
proof -
  let ?r = "fold (repo_step counter_id) demo_repo_calls repo_new"
  let ?o = "\<lparr>co_id = Some ''s'', co_parent_session_id = None\<rparr>"
  let ?n = "\<lparr>co_id = None, co_parent_session_id = None\<rparr>"
  let ?src = "\<lparr>sm_id = ''s'', sm_created_at = 0, sm_parent_session_id = None\<rparr>"
  have facts: "rp_sessions ?r ''s'' = Some 0" "rp_sessions ?r ''id-1'' = None"
    "chosen_id counter_id ?o ?r = ''s''" "chosen_id counter_id ?n ?r = ''id-1''" by code_simp+
  then have view: "''s'' \<in> dom (sessions_of ?r)" "''id-1'' \<notin> dom (sessions_of ?r)"
    "sessions_of ?r (sm_id ?src) = Some (rp_storages ?r ! 0)"
    by (simp_all add: dom_view) (simp add: sessions_of_def)
  note spec = repository_is_session_map [OF refl facts(3) prod.collapse [symmetric] prod.collapse [symmetric]]
    repository_is_session_map [OF refl facts(4) prod.collapse [symmetric] prod.collapse [symmetric],
      where source = ?src and opts = Fork_Tree and now = 5]
  have "fst (repo_create counter_id 5 ?o ?r) = Inl (err_already_exists ''Session already exists: s'')"
    using conjunct1 [OF spec(1)] view(1) by simp
  moreover have "\<exists>t. forked Fork_Tree (mst_state (rp_storages ?r ! 0)) t
      \<and> sessions_of (snd (repo_fork counter_id 5 ?src ?n Fork_Tree ?r)) ''id-1''
        = Some ((storage_new \<lparr>sm_id = ''id-1'', sm_created_at = 5, sm_parent_session_id = Some ''s''\<rparr>)\<lparr>mst_state := t\<rparr>)"
    using conjunct1 [OF conjunct2 [OF spec(2)]] view(2) unfolding view(3) by (auto simp: fork_refusal_def)
  ultimately show ?thesis by (simp add: Let_def)
qed

end
