(* ===== verification/Utf8.thy ===== *)
theory Utf8
  imports Rust_Text
begin

text \<open>
  Bytes and UTF-8: the strings of the components that count or cut bytes are lists of bytes here.
\<close>

type_synonym u8 = "8 word"

subsection \<open>Validity\<close>

text \<open>The check of \<open>std::str::from_utf8\<close>: the well-formed sequences of the Unicode standard.\<close>

definition continuation :: "u8 \<Rightarrow> bool" where
  "continuation b \<longleftrightarrow> 0x80 \<le> b \<and> b \<le> 0xBF"

fun utf8_tail :: "u8 \<Rightarrow> u8 list \<Rightarrow> nat option" where
  "utf8_tail a (b # bs) =
     (if 0xC2 \<le> a \<and> a \<le> 0xDF then if continuation b then Some 1 else None
      else if 0xE0 \<le> a \<and> a \<le> 0xEF then
        (case bs of
           c # _ \<Rightarrow> if (if a = 0xE0 then 0xA0 \<le> b \<and> b \<le> 0xBF else if a = 0xED then 0x80 \<le> b \<and> b \<le> 0x9F else continuation b)
               \<and> continuation c then Some 2 else None
         | [] \<Rightarrow> None)
      else if 0xF0 \<le> a \<and> a \<le> 0xF4 then
        (case bs of
           c # e # _ \<Rightarrow> if (if a = 0xF0 then 0x90 \<le> b \<and> b \<le> 0xBF else if a = 0xF4 then 0x80 \<le> b \<and> b \<le> 0x8F else continuation b)
               \<and> continuation c \<and> continuation e then Some 3 else None
         | _ \<Rightarrow> None)
      else None)"
| "utf8_tail a [] = None"

function utf8_valid :: "u8 list \<Rightarrow> bool" where
  "utf8_valid [] = True"
| "utf8_valid (a # bs) =
     (if a \<le> 0x7F then utf8_valid bs
      else case utf8_tail a bs of None \<Rightarrow> False | Some n \<Rightarrow> utf8_valid (drop n bs))"
  by pat_completeness auto
termination by (relation "measure length") auto

subsection \<open>Boundaries\<close>

text \<open>\<open>str::is_char_boundary\<close> and \<open>str::chars\<close>, a character being the list of its bytes.\<close>

definition is_char_boundary :: "u8 list \<Rightarrow> nat \<Rightarrow> bool" where
  "is_char_boundary s i \<longleftrightarrow> i = 0 \<or> i = length s \<or> i < length s \<and> \<not> continuation (s ! i)"

function utf8_chars :: "u8 list \<Rightarrow> u8 list list" where
  "utf8_chars [] = []"
| "utf8_chars (a # bs) = (a # takeWhile continuation bs) # utf8_chars (dropWhile continuation bs)"
  by pat_completeness auto
termination by (relation "measure length") (auto simp: le_imp_less_Suc length_dropWhile_le)

text \<open>The first byte of a character is none of its continuation bytes.\<close>

definition starts_char :: "u8 list \<Rightarrow> bool" where
  "starts_char s \<longleftrightarrow> s = [] \<or> \<not> continuation (hd s)"

lemma utf8_tail_Some:
  assumes "utf8_tail a bs = Some n"
  shows "n \<le> length bs" and "\<forall>b \<in> set (take n bs). continuation b" and "\<not> continuation a"
proof -
  have range: "continuation b" if "0xA0 \<le> b \<and> b \<le> 0xBF \<or> 0x80 \<le> b \<and> b \<le> 0x9F \<or> 0x90 \<le> b \<and> b \<le> 0xBF \<or> 0x80 \<le> b \<and> b \<le> 0x8F"
    for b :: u8
    using that by (auto simp: continuation_def word_le_nat_alt)
  show "n \<le> length bs" using assms
    by (induction a bs rule: utf8_tail.induct) (auto split: if_splits list.splits)
  show "\<forall>b \<in> set (take n bs). continuation b" using assms
    by (induction a bs rule: utf8_tail.induct) (auto split: if_splits list.splits intro: range)
  show "\<not> continuation a" using assms
    by (induction a bs rule: utf8_tail.induct)
      (auto simp: continuation_def word_le_nat_alt split: if_splits)
qed

lemma utf8_tail_take: "utf8_tail a bs = Some n \<Longrightarrow> utf8_tail a (take n bs @ cs) = Some n"
  by (induction a bs rule: utf8_tail.induct) (auto split: if_splits list.splits)

lemma ascii_not_continuation: "a \<le> 0x7F \<Longrightarrow> \<not> continuation a"
  by (auto simp: continuation_def word_le_nat_alt)

lemma utf8_valid_starts: "utf8_valid s \<Longrightarrow> starts_char s"
  by (cases s) (auto simp: starts_char_def ascii_not_continuation split: if_splits option.splits dest: utf8_tail_Some(3))

lemma utf8_valid_append: "utf8_valid s \<Longrightarrow> utf8_valid (s @ t) \<longleftrightarrow> utf8_valid t"
proof (induction s rule: utf8_valid.induct)
  case (2 a bs)
  show ?case
  proof (cases "a \<le> 0x7F")
    case False
    with 2 obtain n where n: "utf8_tail a bs = Some n" "utf8_valid (drop n bs)" by (auto split: option.splits)
    have "utf8_tail a (bs @ t) = Some n" using utf8_tail_take [OF n(1), of "drop n bs @ t"] by (metis append.assoc append_take_drop_id)
    then show ?thesis using 2 False n utf8_tail_Some(1) [OF n(1)] by simp
  qed (use 2 in simp)
qed simp

lemma utf8_valid_concat: "\<forall>s \<in> set ss. utf8_valid s \<Longrightarrow> utf8_valid (concat ss)"
  by (induction ss) (auto simp: utf8_valid_append)

lemma utf8_valid_drop: "utf8_valid s \<Longrightarrow> is_char_boundary s i \<Longrightarrow> utf8_valid (drop i s)"
proof (induction s arbitrary: i rule: utf8_valid.induct)
  case (2 a bs)
  show ?case
  proof (cases i)
    case (Suc j)
    show ?thesis
    proof (cases "a \<le> 0x7F")
      case True
      then show ?thesis using 2(1) [of j] 2(3,4) Suc by (auto simp: is_char_boundary_def)
    next
      case False
      with 2(3) obtain n where n: "utf8_tail a bs = Some n" "utf8_valid (drop n bs)" by (auto split: option.splits)
      have "\<not> j < n"
      proof
        assume "j < n"
        then have "bs ! j \<in> set (take n bs)" using utf8_tail_Some(1) [OF n(1)]
          by (metis in_set_conv_nth length_take min.absorb2 nth_take)
        then show False using 2(4) Suc \<open>j < n\<close> utf8_tail_Some(1,2) [OF n(1)] by (auto simp: is_char_boundary_def)
      qed
      then have "is_char_boundary (drop n bs) (j - n)" using 2(4) Suc utf8_tail_Some(1) [OF n(1)]
        by (auto simp: is_char_boundary_def)
      then show ?thesis using 2(2) [OF False n(1), of "j - n"] n Suc \<open>\<not> j < n\<close> by simp
    qed
  qed (use 2 in simp)
qed simp

lemma concat_utf8_chars [simp]: "concat (utf8_chars s) = s"
  by (induction s rule: utf8_chars.induct) auto

lemma utf8_chars_append: "starts_char t \<Longrightarrow> utf8_chars (s @ t) = utf8_chars s @ utf8_chars t"
proof (induction s rule: utf8_chars.induct)
  case (2 a bs)
  show ?case
  proof (cases "\<forall>b \<in> set bs. continuation b")
    case True
    then have bs: "takeWhile continuation bs = bs" "dropWhile continuation bs = []" by auto
    have t: "takeWhile continuation t = []" "dropWhile continuation t = t"
      using 2(2) by (cases t; auto simp: starts_char_def)+
    from True t have "takeWhile continuation (bs @ t) = bs" "dropWhile continuation (bs @ t) = t"
      by (simp_all add: takeWhile_append dropWhile_append del: takeWhile_eq_Nil_iff)
    then show ?thesis using bs by (simp only: append_Cons utf8_chars.simps append_Nil)
  next
    case False
    then show ?thesis using 2 by (auto simp: takeWhile_append dropWhile_append)
  qed
qed simp

end
