(* ===== verification/Wire_Framing.thy ===== *)
theory Wire_Framing
  imports Utf8 "HOL-Library.Sublist"
begin

text \<open>
  The framing of the binary protocol (\<open>crates/evo-protocol/src/framing.rs\<close>): a payload behind its
  length in four bytes, and the decoder that splits arbitrary chunks of a stream into payloads.
\<close>

subsection \<open>Big-endian numbers\<close>

text \<open>\<open>to_be_bytes\<close> and \<open>from_be_bytes\<close> of the unsigned integer types, on the number they stand for.\<close>

primrec be_bytes :: "nat \<Rightarrow> nat \<Rightarrow> u8 list" where
  "be_bytes 0 v = []"
| "be_bytes (Suc n) v = be_bytes n (v div 256) @ [of_nat v]"

definition from_be :: "u8 list \<Rightarrow> nat" where
  "from_be bs = foldl (\<lambda>v b. v * 256 + unat b) 0 bs"

lemma length_be_bytes [simp]: "length (be_bytes n v) = n"
  by (induction n arbitrary: v) simp_all

lemma unat_byte: "unat (of_nat v :: u8) = v mod 256"
  by (simp add: unat_of_nat)

lemma from_be_bytes [simp]: "from_be (be_bytes n v) = v mod 256 ^ n"
proof (induction n arbitrary: v)
  case (Suc n)
  have "from_be (be_bytes (Suc n) v) = (v div 256) mod 256 ^ n * 256 + v mod 256"
    using Suc [of "v div 256"] by (simp add: from_be_def unat_byte)
  also have "\<dots> = v mod (256 * 256 ^ n)" by (simp add: mod_mult2_eq)
  finally show ?case by simp
qed (simp add: from_be_def)

subsection \<open>Frames\<close>

definition frame_header_length :: nat where "frame_header_length = 4"
definition default_max_frame_length :: nat where "default_max_frame_length = 16 * 1024 * 1024"

datatype framing_error =
    Frame_Too_Long nat nat | Framing_Error string
  | Framing_Panic

definition encode_frame :: "u8 list \<Rightarrow> framing_error + u8 list" where
  "encode_frame payload =
     (if int (length payload) > 0xFFFFFFFF then Inl (Framing_Error ''Frame payload exceeds the unsigned 32-bit length limit'')
      else Inr (be_bytes 4 (length payload) @ payload))"

definition assert_complete_frame :: "u8 list \<Rightarrow> nat \<Rightarrow> framing_error + unit" where
  "assert_complete_frame frame max_frame_length =
     (if length frame < frame_header_length then Inl (Framing_Error ''Frame does not contain a complete length prefix'')
      else let length' = from_be (take 4 frame) in
        if length' > max_frame_length then Inl (Frame_Too_Long length' max_frame_length)
        else if length frame \<noteq> frame_header_length + length'
          then Inl (Framing_Error ''Frame must contain exactly one complete payload'')
        else Inr ())"

subsection \<open>The decoder\<close>

datatype decoder_state = Decoder_Open | Decoder_Ended | Decoder_Failed

text \<open>\<open>fd_header\<close> is the filled part of the header array, its length is \<open>header_len\<close>.\<close>

record frame_decoder =
  fd_header :: "u8 list"
  fd_max_frame_length :: nat
  fd_payload :: "u8 list"
  fd_expected :: "nat option"
  fd_state :: decoder_state

definition frame_decoder_new :: "nat \<Rightarrow> frame_decoder" where
  "frame_decoder_new max_frame_length =
     \<lparr>fd_header = [], fd_max_frame_length = max_frame_length, fd_payload = [], fd_expected = None,
      fd_state = Decoder_Open\<rparr>"

text \<open>
  One pass of the loop of \<open>push\<close>: the header is filled as far as the chunk goes, then the payload.
  The subtraction \<open>expected - payload.len()\<close> panics where it would be negative.
\<close>

datatype header_outcome =
    Header_Partial | Header_Empty_Frame | Header_Rejected nat | Header_Ready

definition read_header :: "u8 list \<Rightarrow> frame_decoder \<Rightarrow> header_outcome \<times> u8 list \<times> frame_decoder" where
  "read_header bs d =
     (if fd_expected d \<noteq> None then (Header_Ready, bs, d)
      else let taken = min (frame_header_length - length (fd_header d)) (length bs);
               header = fd_header d @ take taken bs;
               rest = drop taken bs
           in if length header < frame_header_length then (Header_Partial, rest, d\<lparr>fd_header := header\<rparr>)
              else let frame_length = from_be header; d = d\<lparr>fd_header := []\<rparr> in
                if frame_length > fd_max_frame_length d then (Header_Rejected frame_length, rest, d\<lparr>fd_state := Decoder_Failed\<rparr>)
                else if frame_length = 0 then (Header_Empty_Frame, rest, d)
                else (Header_Ready, rest, d\<lparr>fd_expected := Some frame_length, fd_payload := []\<rparr>))"

definition read_payload :: "u8 list \<Rightarrow> frame_decoder \<Rightarrow> (u8 list option \<times> u8 list \<times> frame_decoder) option" where
  "read_payload bs d =
     (case fd_expected d of
        None \<Rightarrow> None
      | Some expected \<Rightarrow>
          if length (fd_payload d) > expected then None
          else let taken = min (expected - length (fd_payload d)) (length bs);
                   payload = fd_payload d @ take taken bs;
                   rest = drop taken bs
               in if length payload = expected
                  then Some (Some payload, rest, d\<lparr>fd_payload := [], fd_expected := None\<rparr>)
                  else Some (None, rest, d\<lparr>fd_payload := payload\<rparr>))"

fun add_frame :: "u8 list option \<Rightarrow> ('e + u8 list list) \<times> frame_decoder \<Rightarrow> ('e + u8 list list) \<times> frame_decoder" where
  "add_frame frame (r, d) = (map_sum id (\<lambda>fs. case frame of None \<Rightarrow> fs | Some f \<Rightarrow> f # fs) r, d)"

lemma add_frame_None [simp]: "add_frame None r = r"
  by (cases r; cases "fst r") auto

text \<open>The loop ends for every decoder: what is left of the chunk shrinks, or the decoder moves on.\<close>

definition header_full :: "frame_decoder \<Rightarrow> bool" where
  "header_full d \<longleftrightarrow> frame_header_length \<le> length (fd_header d)"

definition loop_measure :: "u8 list \<Rightarrow> frame_decoder \<Rightarrow> nat" where
  "loop_measure bs d = 4 * length bs + (if header_full d then 2 else 0) + (if fd_expected d = None then 0 else 1)"

lemma read_header_shrinks:
  assumes "bs \<noteq> []" and "read_header bs d = (out, rest, d')" and "out \<noteq> Header_Ready"
  shows "loop_measure rest d' < loop_measure bs d"
proof -
  have n: "fd_expected d = None" using assms(2,3) by (auto simp: read_header_def split: if_splits)
  show ?thesis
  proof (cases "header_full d")
    case True
    then have "min (frame_header_length - length (fd_header d)) (length bs) = 0" by (simp add: header_full_def)
    with True n assms(2,3) show ?thesis
      by (auto simp: read_header_def Let_def loop_measure_def header_full_def frame_header_length_def split: if_splits)
  next
    case False
    then have "0 < min (frame_header_length - length (fd_header d)) (length bs)"
      using assms(1) by (simp add: header_full_def)
    then have "length rest < length bs" using n assms(2) by (auto simp: read_header_def Let_def split: if_splits)
    with n show ?thesis by (auto simp: loop_measure_def)
  qed
qed

lemma read_payload_shrinks:
  assumes "bs \<noteq> []" and "read_header bs d = (Header_Ready, rest, d')" and "read_payload rest d' = Some (frame, rest', d'')"
  shows "loop_measure rest' d'' < loop_measure bs d"
proof -
  have p: "loop_measure rest' d'' < loop_measure rest d' \<or> rest = [] \<and> loop_measure rest' d'' \<le> loop_measure rest d'"
    using assms(3) by (cases rest)
      (auto simp: read_payload_def Let_def loop_measure_def header_full_def split: option.splits if_splits)
  show ?thesis
  proof (cases "fd_expected d")
    case (Some e)
    then show ?thesis using p assms(1,2) by (auto simp: read_header_def)
  next
    case None
    then have d': "\<not> header_full d'" "fd_expected d' \<noteq> None" and le: "length rest \<le> length bs"
      using assms(2) by (auto simp: read_header_def Let_def header_full_def frame_header_length_def split: if_splits)
    have "header_full d \<or> length rest < length bs"
      using None assms(1,2) by (auto simp: read_header_def Let_def header_full_def split: if_splits)
    with p d' le None assms(1) show ?thesis by (cases bs) (auto simp: loop_measure_def)
  qed
qed

function push_loop :: "u8 list \<Rightarrow> frame_decoder \<Rightarrow> (framing_error + u8 list list) \<times> frame_decoder" where
  "push_loop bs d =
     (if bs = [] then (Inr [], d)
      else case read_header bs d of
        (Header_Partial, rest, d') \<Rightarrow> push_loop rest d'
      | (Header_Rejected n, rest, d') \<Rightarrow> (Inl (Frame_Too_Long n (fd_max_frame_length d')), d')
      | (Header_Empty_Frame, rest, d') \<Rightarrow> add_frame (Some []) (push_loop rest d')
      | (Header_Ready, rest, d') \<Rightarrow>
          (case read_payload rest d' of
             None \<Rightarrow> (Inl Framing_Panic, d')
           | Some (frame, rest', d'') \<Rightarrow> add_frame frame (push_loop rest' d'')))"
  by pat_completeness auto
termination
  by (relation "measure (\<lambda>(bs, d). loop_measure bs d)")
    (auto intro: read_header_shrinks [OF _ sym] read_payload_shrinks [OF _ sym sym])

declare push_loop.simps [simp del]

definition push :: "frame_decoder \<Rightarrow> u8 list \<Rightarrow> (framing_error + u8 list list) \<times> frame_decoder" where
  "push d chunk =
     (case fd_state d of
        Decoder_Ended \<Rightarrow> (Inl (Framing_Error ''Frame decoder has ended''), d)
      | Decoder_Failed \<Rightarrow> (Inl (Framing_Error ''Frame decoder has failed''), d)
      | Decoder_Open \<Rightarrow> push_loop chunk d)"

definition decoder_end :: "frame_decoder \<Rightarrow> (framing_error + unit) \<times> frame_decoder" where
  "decoder_end d =
     (if length (fd_header d) \<noteq> 0 \<or> fd_expected d \<noteq> None
      then (Inl (Framing_Error ''Frame decoder ended mid-frame''), d\<lparr>fd_state := Decoder_Failed\<rparr>)
      else (Inr (), d\<lparr>fd_state := Decoder_Ended\<rparr>))"

subsection \<open>The reference: one byte at a time\<close>

definition decoder_wf :: "frame_decoder \<Rightarrow> bool" where
  "decoder_wf d \<longleftrightarrow> length (fd_header d) < frame_header_length
     \<and> (case fd_expected d of
          None \<Rightarrow> fd_payload d = []
        | Some e \<Rightarrow> fd_header d = [] \<and> length (fd_payload d) < e \<and> e \<le> fd_max_frame_length d)"

definition feed_byte :: "frame_decoder \<Rightarrow> u8 \<Rightarrow> (framing_error \<times> frame_decoder) + (u8 list option \<times> frame_decoder)" where
  "feed_byte d b =
     (case fd_expected d of
        None \<Rightarrow>
          if length (fd_header d) < 3 then Inr (None, d\<lparr>fd_header := fd_header d @ [b]\<rparr>)
          else let n = from_be (fd_header d @ [b]); d = d\<lparr>fd_header := []\<rparr> in
            if n > fd_max_frame_length d then Inl (Frame_Too_Long n (fd_max_frame_length d), d\<lparr>fd_state := Decoder_Failed\<rparr>)
            else if n = 0 then Inr (Some [], d) else Inr (None, d\<lparr>fd_expected := Some n, fd_payload := []\<rparr>)
      | Some e \<Rightarrow>
          let payload = fd_payload d @ [b] in
          if length payload = e then Inr (Some payload, d\<lparr>fd_payload := [], fd_expected := None\<rparr>)
          else Inr (None, d\<lparr>fd_payload := payload\<rparr>))"

fun feed_all :: "frame_decoder \<Rightarrow> u8 list \<Rightarrow> (framing_error + u8 list list) \<times> frame_decoder" where
  "feed_all d [] = (Inr [], d)"
| "feed_all d (b # bs) =
     (case feed_byte d b of
        Inl (e, d) \<Rightarrow> (Inl e, d)
      | Inr (frame, d) \<Rightarrow> add_frame frame (feed_all d bs))"

lemma feed_header:
  "fd_expected d = None \<Longrightarrow> length (fd_header d) + length xs \<le> 3 \<Longrightarrow>
     feed_all d (xs @ ys) = feed_all (d\<lparr>fd_header := fd_header d @ xs\<rparr>) ys"
proof (induction xs arbitrary: d)
  case (Cons b xs)
  then show ?case by (simp add: feed_byte_def)
qed simp

lemma feed_payload:
  "fd_expected d = Some e \<Longrightarrow> length (fd_payload d) + length xs < e \<Longrightarrow>
     feed_all d (xs @ ys) = feed_all (d\<lparr>fd_payload := fd_payload d @ xs\<rparr>) ys"
proof (induction xs arbitrary: d)
  case (Cons b xs)
  then show ?case by (simp add: feed_byte_def Let_def)
qed simp

text \<open>A block of the loop is the run of its bytes.\<close>

lemma split_block:
  assumes "0 < k" and "k \<le> length bs"
  shows "bs = take (k - 1) bs @ bs ! (k - 1) # drop k bs" and "take k bs = take (k - 1) bs @ [bs ! (k - 1)]"
  using assms id_take_nth_drop [of "k - 1" bs] take_Suc_conv_app_nth [of "k - 1" bs] by simp_all

lemma payload_block:
  assumes wf: "decoder_wf d" and e: "fd_expected d = Some e"
  shows "\<exists>frame rest d'. read_payload bs d = Some (frame, rest, d') \<and> decoder_wf d' \<and> fd_state d' = fd_state d
     \<and> feed_all d bs = add_frame frame (feed_all d' rest)"
proof (cases "length (fd_payload d) + length bs < e")
  case True
  then have "read_payload bs d = Some (None, [], d\<lparr>fd_payload := fd_payload d @ bs\<rparr>)"
    using e by (simp add: read_payload_def Let_def)
  moreover have "feed_all d bs = feed_all (d\<lparr>fd_payload := fd_payload d @ bs\<rparr>) []"
    using feed_payload [OF e, of bs "[]"] True by simp
  ultimately show ?thesis using wf e True by (auto simp: decoder_wf_def)
next
  case False
  define k where "k = e - length (fd_payload d)"
  have k: "0 < k" "k \<le> length bs" "length (fd_payload d) + k = e"
    using wf e False by (auto simp: decoder_wf_def k_def)
  note split = split_block [OF k(1,2)]
  let ?d = "d\<lparr>fd_payload := [], fd_expected := None\<rparr>"
  have "read_payload bs d = Some (Some (fd_payload d @ take k bs), drop k bs, ?d)"
    using e k by (simp add: read_payload_def Let_def k_def [symmetric])
  moreover have "feed_all d bs = add_frame (Some (fd_payload d @ take k bs)) (feed_all ?d (drop k bs))"
  proof -
    have "feed_all d bs = feed_all (d\<lparr>fd_payload := fd_payload d @ take (k - 1) bs\<rparr>) (bs ! (k - 1) # drop k bs)"
      by (subst split(1), rule feed_payload [OF e]) (use k in simp)
    then show ?thesis using k e by (simp add: feed_byte_def split(2) Let_def)
  qed
  ultimately show ?thesis using wf by (auto simp: decoder_wf_def frame_header_length_def split: option.splits)
qed

lemma header_block:
  assumes wf: "decoder_wf d" and out: "read_header bs d = (out, rest, d')"
  shows "decoder_wf d' \<and> (out = Header_Ready \<longleftrightarrow> fd_expected d' \<noteq> None)
     \<and> feed_all d bs =
       (case out of
          Header_Partial \<Rightarrow> feed_all d' rest
        | Header_Rejected n \<Rightarrow> (Inl (Frame_Too_Long n (fd_max_frame_length d')), d')
        | Header_Empty_Frame \<Rightarrow> add_frame (Some []) (feed_all d' rest)
        | Header_Ready \<Rightarrow> feed_all d' rest)"
proof (cases "fd_expected d")
  case (Some e)
  then show ?thesis using assms by (auto simp: read_header_def)
next
  case None
  show ?thesis
  proof (cases "length (fd_header d) + length bs < 4")
    case True
    then have "out = Header_Partial" "rest = []" "d' = d\<lparr>fd_header := fd_header d @ bs\<rparr>"
      using out None by (auto simp: read_header_def Let_def frame_header_length_def)
    then show ?thesis
      using feed_header [OF None, of bs "[]"] True wf None by (auto simp: decoder_wf_def frame_header_length_def)
  next
    case False
    define k where "k = frame_header_length - length (fd_header d)"
    have k: "0 < k" "k \<le> length bs" "length (fd_header d) + k = 4"
      using wf False by (auto simp: decoder_wf_def k_def frame_header_length_def)
    note split = split_block [OF k(1,2)]
    have "feed_all d bs = feed_all (d\<lparr>fd_header := fd_header d @ take (k - 1) bs\<rparr>) (bs ! (k - 1) # drop k bs)"
      by (subst split(1), rule feed_header [OF None]) (use k in simp)
    moreover have "fd_header d @ take k bs = (fd_header d @ take (k - 1) bs) @ [bs ! (k - 1)]" using split(2) by simp
    ultimately show ?thesis
      using out None k wf
      by (auto simp: read_header_def Let_def frame_header_length_def k_def [symmetric, unfolded frame_header_length_def]
          feed_byte_def decoder_wf_def split: if_splits)
  qed
qed

lemma push_loop_feed:
  "decoder_wf d \<Longrightarrow> push_loop bs d = feed_all d bs"
proof (induction bs d rule: push_loop.induct)
  case (1 bs d)
  show ?case
  proof (cases "bs = []")
    case True
    then show ?thesis by (simp add: push_loop.simps)
  next
    case False
    obtain out rest d' where out: "read_header bs d = (out, rest, d')" by (cases "read_header bs d")
    note block = header_block [OF "1.prems" out]
    show ?thesis
    proof (cases out)
      case Header_Partial
      then show ?thesis using block "1.IH"(1) [OF False out [symmetric] Header_Partial refl] out False
        by (subst push_loop.simps) simp
    next
      case Header_Empty_Frame
      then show ?thesis using block "1.IH"(2) [OF False out [symmetric] Header_Empty_Frame refl] out False
        by (subst push_loop.simps) simp
    next
      case (Header_Rejected n)
      then show ?thesis using block out False by (subst push_loop.simps) simp
    next
      case Header_Ready
      with block obtain e where e: "fd_expected d' = Some e" by blast
      from payload_block [OF conjunct1 [OF block] e, of rest] obtain frame rest' d'' where
          p: "read_payload rest d' = Some (frame, rest', d'')" "decoder_wf d''"
            "feed_all d' rest = add_frame frame (feed_all d'' rest')"
        by blast
      then show ?thesis
        using block "1.IH"(3) [OF False out [symmetric] Header_Ready refl p(1) refl refl] out False Header_Ready
        by (subst push_loop.simps) simp
    qed
  qed
qed

subsection \<open>Chunks\<close>

text \<open>
  A stream fed chunk by chunk, as the reader of a connection does: the frames the pushes returned up to
  the first one that failed, and the error of that push.
\<close>

fun push_chunks :: "frame_decoder \<Rightarrow> u8 list list \<Rightarrow> u8 list list \<times> framing_error option \<times> frame_decoder" where
  "push_chunks d [] = ([], None, d)"
| "push_chunks d (c # cs) =
     (case push d c of
        (Inl e, d) \<Rightarrow> ([], Some e, d)
      | (Inr fs, d) \<Rightarrow> (case push_chunks d cs of (gs, e, d) \<Rightarrow> (fs @ gs, e, d)))"

text \<open>The reference for a stream: every frame completed before the error, whichever chunk it ended in.\<close>

fun feed_stream :: "frame_decoder \<Rightarrow> u8 list \<Rightarrow> u8 list list \<times> framing_error option \<times> frame_decoder" where
  "feed_stream d [] = ([], None, d)"
| "feed_stream d (b # bs) =
     (case feed_byte d b of
        Inl (e, d) \<Rightarrow> ([], Some e, d)
      | Inr (frame, d) \<Rightarrow> (case feed_stream d bs of (gs, e, d) \<Rightarrow> (case frame of None \<Rightarrow> gs | Some f \<Rightarrow> f # gs, e, d)))"

lemma feed_byte_keeps:
  assumes "decoder_wf d"
  shows "feed_byte d b = Inl (e, d') \<Longrightarrow> decoder_wf d' \<and> fd_state d' = Decoder_Failed"
    and "feed_byte d b = Inr (f, d') \<Longrightarrow> decoder_wf d' \<and> fd_state d' = fd_state d \<and> fd_max_frame_length d' = fd_max_frame_length d"
  using assms
  by (auto simp: feed_byte_def Let_def decoder_wf_def frame_header_length_def split: option.splits if_splits)

lemma feed_all_keeps:
  "decoder_wf d \<Longrightarrow> feed_all d bs = (r, d') \<Longrightarrow> decoder_wf d'
     \<and> (case r of Inl _ \<Rightarrow> fd_state d' = Decoder_Failed
       | Inr _ \<Rightarrow> fd_state d' = fd_state d \<and> fd_max_frame_length d' = fd_max_frame_length d)"
proof (induction d bs arbitrary: r rule: feed_all.induct)
  case (2 d b bs)
  show ?case
  proof (cases "feed_byte d b")
    case (Inl x)
    then show ?thesis using "2.prems" feed_byte_keeps(1) [OF "2.prems"(1)] by (cases x) auto
  next
    case (Inr x)
    obtain f d1 where x: "x = (f, d1)" by (cases x)
    obtain r1 where r1: "feed_all d1 bs = (r1, d')"
      using Inr x "2.prems"(2) by (cases "feed_all d1 bs") auto
    have d1: "decoder_wf d1 \<and> fd_state d1 = fd_state d \<and> fd_max_frame_length d1 = fd_max_frame_length d"
      using feed_byte_keeps(2) [OF "2.prems"(1)] Inr x by blast
    with "2.IH" [OF Inr x [symmetric] _ r1] Inr x r1 "2.prems"(2) show ?thesis by (cases r1) auto
  qed
qed simp

lemma feed_max: "feed_all d bs = (r, d') \<Longrightarrow> fd_max_frame_length d' = fd_max_frame_length d"
proof (induction d bs arbitrary: r rule: feed_all.induct)
  case (2 d b bs)
  have step: "case feed_byte d b of Inl (e, d1) \<Rightarrow> fd_max_frame_length d1 = fd_max_frame_length d
      | Inr (f, d1) \<Rightarrow> fd_max_frame_length d1 = fd_max_frame_length d"
    by (auto simp: feed_byte_def Let_def split: option.splits)
  show ?case
  proof (cases "feed_byte d b")
    case (Inl x)
    with step "2.prems" show ?thesis by (cases x) auto
  next
    case (Inr x)
    then obtain f d1 where fd: "feed_byte d b = Inr (f, d1)" by (cases x) auto
    obtain r1 where "feed_all d1 bs = (r1, d')" using fd "2.prems" by (cases "feed_all d1 bs") auto
    with "2.IH" [OF fd refl] step fd show ?thesis by auto
  qed
qed simp

lemma feed_all_append:
  "feed_all d (xs @ ys) =
     (case feed_all d xs of
        (Inl e, d') \<Rightarrow> (Inl e, d')
      | (Inr fs, d') \<Rightarrow> (case feed_all d' ys of (r, d'') \<Rightarrow> (map_sum id (\<lambda>gs. fs @ gs) r, d'')))"
proof (induction d xs rule: feed_all.induct)
  case (1 d)
  have "map_sum id ((@) []) r = r" for r :: "framing_error + u8 list list" by (cases r) auto
  then show ?case by (simp split: prod.split)
next
  case (2 d b bs)
  show ?case
  proof (cases "feed_byte d b")
    case (Inl x)
    then show ?thesis by (cases x) simp
  next
    case (Inr x)
    then obtain f d1 where fd: "feed_byte d b = Inr (f, d1)" by (cases x) auto
    obtain r1 d2 where r1: "feed_all d1 bs = (r1, d2)" by (cases "feed_all d1 bs")
    obtain r2 d3 where r2: "feed_all d2 ys = (r2, d3)" by (cases "feed_all d2 ys")
    show ?thesis using "2.IH" [OF fd refl] fd r1 r2 by (cases r1; cases r2; cases f) simp_all
  qed
qed

lemma feed_stream_all:
  "feed_all d bs = (case feed_stream d bs of (fs, e, d') \<Rightarrow> (case e of None \<Rightarrow> Inr fs | Some e \<Rightarrow> Inl e, d'))"
proof (induction d bs rule: feed_all.induct)
  case (2 d b bs)
  show ?case
  proof (cases "feed_byte d b")
    case (Inl x)
    then show ?thesis by (cases x) simp
  next
    case (Inr x)
    then obtain f d1 where fd: "feed_byte d b = Inr (f, d1)" by (cases x) auto
    then show ?thesis using "2.IH" [OF fd refl]
      by (cases f) (auto split: prod.splits option.splits)
  qed
qed simp

lemma feed_stream_append:
  "feed_stream d (xs @ ys) =
     (case feed_stream d xs of
        (fs, Some e, d') \<Rightarrow> (fs, Some e, d')
      | (fs, None, d') \<Rightarrow> (case feed_stream d' ys of (gs, e, d'') \<Rightarrow> (fs @ gs, e, d'')))"
  by (induction d xs rule: feed_stream.induct) (auto split: prod.splits option.splits sum.splits)

text \<open>Cut anyhow, the pushes reach the reference's error and state, and deliver a prefix of its frames.\<close>

lemma push_chunks_stream:
  assumes "decoder_wf d" and "fd_state d = Decoder_Open"
    and "push_chunks d cs = (fs, e, d1)" and "feed_stream d (concat cs) = (gs, e', d2)"
  shows "e = e' \<and> d1 = d2 \<and> prefix fs gs \<and> (e = None \<longrightarrow> fs = gs)"
  using assms
proof (induction cs arbitrary: d fs gs e e' d1 d2)
  case (Cons c cs)
  obtain hs x dc where hs: "feed_stream d c = (hs, x, dc)" by (cases "feed_stream d c")
  have p: "push d c = (case x of None \<Rightarrow> Inr hs | Some e \<Rightarrow> Inl e, dc)"
    using Cons.prems(1,2) hs by (simp add: push_def push_loop_feed feed_stream_all)
  show ?case
  proof (cases x)
    case None
    then have keep: "decoder_wf dc" "fd_state dc = Decoder_Open"
      using feed_all_keeps [OF Cons.prems(1), of c "Inr hs" dc] hs Cons.prems(2) by (simp_all add: feed_stream_all)
    obtain f2 e2 d2' where f2: "push_chunks dc cs = (f2, e2, d2')" by (cases "push_chunks dc cs")
    obtain g2 e3 d3 where g2: "feed_stream dc (concat cs) = (g2, e3, d3)" by (cases "feed_stream dc (concat cs)")
    from Cons.IH [OF keep f2 g2] show ?thesis
      using Cons.prems(3,4) p hs None f2 g2 by (auto simp: feed_stream_append)
  next
    case (Some e)
    then show ?thesis using Cons.prems(3,4) p hs by (auto simp: feed_stream_append)
  qed
qed simp

text \<open>One byte at a time nothing is lost.\<close>

lemma push_bytes_stream:
  "decoder_wf d \<Longrightarrow> fd_state d = Decoder_Open \<Longrightarrow> push_chunks d (map (\<lambda>b. [b]) bs) = feed_stream d bs"
proof (induction d bs rule: feed_stream.induct)
  case (2 d b bs)
  have p: "push d [b] = feed_all d [b]" using "2.prems" by (simp add: push_def push_loop_feed)
  show ?case
  proof (cases "feed_byte d b")
    case (Inl x)
    then show ?thesis using p by (cases x) simp
  next
    case (Inr x)
    then obtain f d1 where fd: "feed_byte d b = Inr (f, d1)" by (cases x) auto
    have "decoder_wf d1" "fd_state d1 = Decoder_Open"
      using feed_byte_keeps(2) [OF "2.prems"(1) fd] "2.prems"(2) by simp_all
    from "2.IH" [OF fd refl this] p fd show ?thesis by (cases f) (auto split: prod.splits)
  qed
qed simp

lemma push_chunks_feed:
  assumes "decoder_wf d" and "fd_state d = Decoder_Open" and "feed_all d (concat cs) = (Inr fs, d')"
  shows "push_chunks d cs = (fs, None, d')"
proof -
  obtain hs e d1 where a: "push_chunks d cs = (hs, e, d1)" by (cases "push_chunks d cs")
  obtain gs e' d2 where b: "feed_stream d (concat cs) = (gs, e', d2)" by (cases "feed_stream d (concat cs)")
  from push_chunks_stream [OF assms(1,2) a b] a b assms(3) show ?thesis
    by (auto simp: feed_stream_all split: option.splits)
qed

lemma decoder_wf_new [simp]: "decoder_wf (frame_decoder_new n)" "fd_state (frame_decoder_new n) = Decoder_Open"
  by (simp_all add: decoder_wf_def frame_decoder_new_def frame_header_length_def)

subsection \<open>Encoded frames\<close>

lemma feed_frame:
  assumes "encode_frame p = Inr f" and "length p \<le> n"
  shows "feed_all (frame_decoder_new n) (f @ ys) = add_frame (Some p) (feed_all (frame_decoder_new n) ys)"
proof -
  let ?d = "frame_decoder_new n"
  have f: "f = be_bytes 4 (length p) @ p" and p32: "length p < 256 ^ 4"
    using assms(1) by (auto simp: encode_frame_def split: if_splits)
  define hs :: "u8 list" where "hs = be_bytes 3 (length p div 256)"
  define b :: u8 where "b = of_nat (length p)"
  have hb: "be_bytes 4 (length p) = hs @ [b]"
    using be_bytes.simps(2) [of 3 "length p"] by (simp add: hs_def b_def)
  have hs: "length hs = 3" by (simp add: hs_def)
  have n: "from_be (hs @ [b]) = length p" using p32 from_be_bytes [of 4 "length p"] by (simp add: hb)
  have "feed_all ?d (f @ ys) = feed_all (?d\<lparr>fd_header := hs\<rparr>) (b # p @ ys)"
    using feed_header [of ?d hs "b # p @ ys"] hs by (simp add: f hb frame_decoder_new_def)
  also have "\<dots> = add_frame (Some p) (feed_all ?d ys)"
  proof (cases p rule: rev_cases)
    case Nil
    then show ?thesis using n hs assms(2) by (simp add: feed_byte_def frame_decoder_new_def)
  next
    case (snoc qs q)
    let ?e = "?d\<lparr>fd_expected := Some (length p)\<rparr>"
    have "feed_all (?d\<lparr>fd_header := hs\<rparr>) (b # p @ ys) = feed_all ?e (qs @ q # ys)"
      using n hs assms(2) snoc by (simp add: feed_byte_def frame_decoder_new_def)
    also have "\<dots> = feed_all (?e\<lparr>fd_payload := qs\<rparr>) (q # ys)"
      using feed_payload [of ?e "length p" qs "q # ys"] snoc by (simp add: frame_decoder_new_def)
    also have "\<dots> = add_frame (Some p) (feed_all ?d ys)"
      using snoc by (simp add: feed_byte_def frame_decoder_new_def)
    finally show ?thesis .
  qed
  finally show ?thesis .
qed

lemma feed_frames:
  assumes "map encode_frame ps = map Inr fs" and "\<forall>p \<in> set ps. length p \<le> n"
  shows "feed_all (frame_decoder_new n) (concat fs) = (Inr ps, frame_decoder_new n)"
  using assms
proof (induction ps arbitrary: fs)
  case (Cons p ps)
  then obtain f gs where "fs = f # gs" "encode_frame p = Inr f" "map encode_frame ps = map Inr gs" by (cases fs) auto
  with Cons show ?case by (simp add: feed_frame)
qed simp

lemma assert_encoded:
  assumes "encode_frame p = Inr f"
  shows "assert_complete_frame f n = (if length p > n then Inl (Frame_Too_Long (length p) n) else Inr ())" and "drop 4 f = p"
  using assms by (auto simp: encode_frame_def assert_complete_frame_def frame_header_length_def Let_def split: if_splits)

text \<open>Ending a decoder that failed succeeds: the failing header was consumed.\<close>

lemma failed_decoder_ends:
  "push_loop bs d = (Inl (Frame_Too_Long k n), d') \<Longrightarrow> decoder_wf d \<Longrightarrow> fst (decoder_end d') = Inr ()"
proof -
  assume "push_loop bs d = (Inl (Frame_Too_Long k n), d')" and wf: "decoder_wf d"
  then have "feed_all d bs = (Inl (Frame_Too_Long k n), d')" by (simp add: push_loop_feed)
  then have "fd_header d' = [] \<and> fd_expected d' = None"
    using wf
  proof (induction d bs rule: feed_all.induct)
    case (2 d b bs)
    show ?case
    proof (cases "feed_byte d b")
      case (Inl x)
      then show ?thesis using "2.prems"(1) by (auto simp: feed_byte_def Let_def split: option.splits if_splits)
    next
      case (Inr x)
      obtain f d1 where x: "x = (f, d1)" by (cases x)
      have "feed_all d1 bs = (Inl (Frame_Too_Long k n), d')"
        using Inr x "2.prems"(1) by (cases "feed_all d1 bs"; cases "fst (feed_all d1 bs)") auto
      then show ?thesis using "2.IH" [OF Inr x [symmetric]] feed_byte_keeps(2) [OF "2.prems"(2)] Inr x by blast
    qed
  qed simp
  then show ?thesis by (simp add: decoder_end_def)
qed

lemma feed_stream_bounded:
  "decoder_wf d \<Longrightarrow> feed_stream d bs = (fs, e, d') \<Longrightarrow> \<forall>f \<in> set fs. length f \<le> fd_max_frame_length d"
proof (induction d bs arbitrary: fs rule: feed_stream.induct)
  case (2 d b bs)
  show ?case
  proof (cases "feed_byte d b")
    case (Inl x)
    then show ?thesis using "2.prems"(2) by (cases x) auto
  next
    case (Inr x)
    then obtain f d1 where fd: "feed_byte d b = Inr (f, d1)" by (cases x) auto
    then obtain gs where gs: "feed_stream d1 bs = (gs, e, d')" and fs: "fs = (case f of None \<Rightarrow> gs | Some f \<Rightarrow> f # gs)"
      using "2.prems"(2) by (auto split: prod.splits)
    have "\<forall>g. f = Some g \<longrightarrow> length g \<le> fd_max_frame_length d"
      using fd "2.prems"(1) by (auto simp: feed_byte_def Let_def decoder_wf_def split: option.splits if_splits)
    moreover note feed_byte_keeps(2) [OF "2.prems"(1) fd]
    ultimately show ?thesis using "2.IH" [OF fd refl _ gs] fs by (auto split: option.splits)
  qed
qed simp

subsection \<open>Properties of the decoder\<close>

text \<open>
  C11. How a stream is cut into chunks decides neither the decoder's state nor the error. Two cuts of the same
  bytes end in the same decoder with the same error or none, and without an error their pushes return
  the same frames in the same order. With an error the pushes that succeeded before it have returned a
  prefix, which depends on the cut, of the frames that a cut into single bytes returns: the push that
  fails drops the frames completed in its own chunk.
\<close>

theorem chunking_irrelevant:
  assumes "concat cs = concat cs'"
    and "push_chunks (frame_decoder_new n) cs = (fs, e, d)"
    and "push_chunks (frame_decoder_new n) cs' = (fs', e', d')"
    and "push_chunks (frame_decoder_new n) (map (\<lambda>b. [b]) (concat cs)) = (all, e'', d'')"
  shows "e = e' \<and> d = d' \<and> (e = None \<longrightarrow> fs = fs' \<and> fs = all)
     \<and> e'' = e \<and> d'' = d \<and> prefix fs all \<and> prefix fs' all"
proof -
  have all: "feed_stream (frame_decoder_new n) (concat cs) = (all, e'', d'')"
    using assms(4) push_bytes_stream [of "frame_decoder_new n" "concat cs"] by simp
  from push_chunks_stream [OF _ _ assms(2) all] push_chunks_stream [OF _ _ assms(3) all [unfolded assms(1)]]
  show ?thesis by auto
qed

theorem chunking_irrelevant_witness:
  "push_chunks (frame_decoder_new 8) [[0, 0], [0, 2, 7], [9, 0]] = push_chunks (frame_decoder_new 8) [[0, 0, 0, 2, 7, 9, 0]]
     \<and> fst (push_chunks (frame_decoder_new 8) [[0, 0, 0, 1, 5, 0, 0, 0, 9]]) = []
     \<and> prefix (fst (push_chunks (frame_decoder_new 8) [[0, 0, 0, 1, 5], [0, 0, 0, 9]])) [[5]]"
proof -
  let ?a = "[[0, 0], [0, 2, 7], [9, 0]] :: u8 list list"
  let ?b = "[[0, 0, 0, 1, 5], [0, 0, 0, 9]] :: u8 list list"
  let ?d = "frame_decoder_new 8"
  let ?bytes = "\<lambda>cs. push_chunks ?d (map (\<lambda>b. [b]) (concat cs))"
  have run_a: "fst (push_chunks ?d ?a) = [[7, 9]]" "fst (snd (push_chunks ?d ?a)) = None" by code_simp+
  have run_b: "fst (?bytes ?b) = [[5]]" "fst (push_chunks ?d [concat ?b]) = []" by code_simp+
  obtain e d where a: "push_chunks ?d ?a = ([[7, 9]], e, d)" "e = None" using run_a by (cases "push_chunks ?d ?a") auto
  obtain f2 e2 d2 where a2: "push_chunks ?d [[0, 0, 0, 2, 7, 9, 0]] = (f2, e2, d2)" by (cases "push_chunks ?d [[0, 0, 0, 2, 7, 9, 0]]")
  obtain f3 e3 d3 where a3: "?bytes ?a = (f3, e3, d3)" by (cases "?bytes ?a")
  obtain f4 e4 d4 where b: "push_chunks ?d ?b = (f4, e4, d4)" by (cases "push_chunks ?d ?b")
  obtain e5 d5 where b2: "?bytes ?b = ([[5]], e5, d5)" using run_b(1) by (cases "?bytes ?b") simp
  show ?thesis
    using chunking_irrelevant [OF _ a(1) a2 a3] a a2 chunking_irrelevant [OF refl b b b2] b run_b(2) by simp
qed

text \<open>
  A peer cannot make the decoder grow: whatever bytes it sends in whatever chunks, the buffers hold
  less than a header and at most the configured length, and so does every frame that comes out.
\<close>

theorem decoder_bounded:
  assumes "push_chunks (frame_decoder_new n) cs = (fs, e, d)"
  shows "length (fd_header d) < frame_header_length \<and> length (fd_payload d) \<le> n \<and> (\<forall>f \<in> set fs. length f \<le> n)"
proof -
  obtain gs e' d' where s: "feed_stream (frame_decoder_new n) (concat cs) = (gs, e', d')"
    by (cases "feed_stream (frame_decoder_new n) (concat cs)")
  have d': "d' = d" and gs: "prefix fs gs" using push_chunks_stream [OF _ _ assms s] by simp_all
  have r: "feed_all (frame_decoder_new n) (concat cs) = (case e' of None \<Rightarrow> Inr gs | Some e \<Rightarrow> Inl e, d)"
    using s d' by (simp add: feed_stream_all)
  have wf: "decoder_wf d" using feed_all_keeps [OF _ r] by simp
  have max: "fd_max_frame_length d = n" using feed_max [OF r] by (simp add: frame_decoder_new_def)
  have "\<forall>f \<in> set fs. length f \<le> n"
    using feed_stream_bounded [OF decoder_wf_new(1) s] set_mono_prefix [OF gs] by (auto simp: frame_decoder_new_def)
  then show ?thesis using wf max by (auto simp: decoder_wf_def split: option.splits)
qed

theorem decoder_bounded_witness:
  "length (fd_payload (snd (snd (push_chunks (frame_decoder_new 8) [[0, 0, 0, 2, 7], [9, 0, 0, 0, 3, 1]])))) \<le> 8"
  using decoder_bounded [of 8 "[[0, 0, 0, 2, 7], [9, 0, 0, 0, 3, 1]]"]
  by (cases "push_chunks (frame_decoder_new 8) [[0, 0, 0, 2, 7], [9, 0, 0, 0, 3, 1]]") auto

end
