(* ===== verification/Wire_Cbor.thy ===== *)
theory Wire_Cbor
  imports Wire_Framing
begin

text \<open>
  The CBOR codec of the binary protocol (\<open>crates/evo-protocol/src/cbor.rs\<close>). A value of
  \<open>serde_json\<close> keeps the order of its object keys; a string is its UTF-8 bytes, a float the bits of
  its \<open>f64\<close>. \<open>decode_value\<close> runs on fuel, one unit per level of recursion of the code.
\<close>

subsection \<open>Values\<close>

type_synonym u64 = "64 word"
type_synonym f64_bits = "64 word"

datatype wire_number = Num_PosInt u64 | Num_NegInt "64 word" | Num_Float f64_bits

datatype wire_value =
    W_Null
  | W_Bool bool
  | W_Number wire_number
  | W_String "u8 list"
  | W_Array "wire_value list"
  | W_Object "(u8 list \<times> wire_value) list"

subsection \<open>Floats\<close>

text \<open>
  \<open>Number::from_f64\<close> refuses infinities and NaN, whose exponent is all ones; \<open>f32 as f64\<close> rebiases the
  exponent and normalizes a subnormal.
\<close>

definition f64_finite :: "f64_bits \<Rightarrow> bool" where
  "f64_finite f \<longleftrightarrow> and (drop_bit 52 f) 0x7FF \<noteq> 0x7FF"

definition f64_of_parts :: "u64 \<Rightarrow> u64 \<Rightarrow> u64 \<Rightarrow> f64_bits" where
  "f64_of_parts sign exponent mantissa = or (push_bit 63 sign) (or (push_bit 52 exponent) mantissa)"

primrec high_bit :: "u64 \<Rightarrow> nat \<Rightarrow> nat" where
  "high_bit m 0 = 0"
| "high_bit m (Suc k) = (if bit m (Suc k) then Suc k else high_bit m k)"

definition f32_to_f64 :: "u64 \<Rightarrow> f64_bits" where
  "f32_to_f64 v =
     (let sign = drop_bit 31 v; exponent = and (drop_bit 23 v) 0xFF; mantissa = and v 0x7FFFFF in
      if exponent = 0xFF then f64_of_parts sign 0x7FF (push_bit 29 mantissa)
      else if exponent = 0 then
        if mantissa = 0 then f64_of_parts sign 0 0
        else let k = high_bit mantissa 22 in
          f64_of_parts sign (of_nat (k + 874)) (push_bit (52 - k) (and mantissa (mask k)))
      else f64_of_parts sign (exponent + 896) (push_bit 29 mantissa))"

definition number_from_f64 :: "f64_bits \<Rightarrow> wire_value" where
  "number_from_f64 f = (if f64_finite f then W_Number (Num_Float f) else W_Null)"

subsection \<open>Options and errors\<close>

record cbor_options =
  cb_max_byte_length :: u64
  cb_max_container_length :: u64
  cb_max_depth :: nat

definition cbor_options_default :: cbor_options where
  "cbor_options_default =
     \<lparr>cb_max_byte_length = 16 * 1024 * 1024, cb_max_container_length = 1000000, cb_max_depth = 64\<rparr>"

text \<open>\<open>Cbor_Out_Of_Fuel\<close> is not a value of the source.\<close>

datatype cbor_error = Cbor_Error string | Cbor_Out_Of_Fuel

abbreviation cbor_exceeds :: "string \<Rightarrow> cbor_error" where
  "cbor_exceeds what \<equiv> Cbor_Error (''CBOR '' @ what)"

subsection \<open>Encoding\<close>

primrec word_be_bytes :: "nat \<Rightarrow> u64 \<Rightarrow> u8 list" where
  "word_be_bytes 0 v = []"
| "word_be_bytes (Suc n) v = word_be_bytes n (drop_bit 8 v) @ [ucast v]"

definition write_head :: "u8 \<Rightarrow> u64 \<Rightarrow> u8 list" where
  "write_head major value =
     (let m = push_bit 5 major in
      if value < 24 then [or m (ucast value)]
      else if value \<le> 0xFF then [or m 24, ucast value]
      else if value \<le> 0xFFFF then or m 25 # word_be_bytes 2 value
      else if value \<le> 0xFFFFFFFF then or m 26 # word_be_bytes 4 value
      else or m 27 # word_be_bytes 8 value)"

definition exceeds :: "nat \<Rightarrow> u64 \<Rightarrow> bool" where
  "exceeds n limit \<longleftrightarrow> uint limit < int n"

fun encode_number :: "wire_number \<Rightarrow> u8 list" where
  "encode_number (Num_PosInt u) = write_head 0 u"
| "encode_number (Num_NegInt i) = write_head 1 (of_int (- sint i - 1))"
| "encode_number (Num_Float f) = 0xFB # word_be_bytes 8 f"

definition encode_string :: "cbor_options \<Rightarrow> u8 list \<Rightarrow> cbor_error + u8 list" where
  "encode_string options s =
     (if exceeds (length s) (cb_max_byte_length options) then Inl (cbor_exceeds ''string exceeds max byte length'')
      else Inr (write_head 3 (of_nat (length s)) @ s))"

fun encode_value :: "cbor_options \<Rightarrow> nat \<Rightarrow> wire_value \<Rightarrow> cbor_error + u8 list"
  and encode_items :: "cbor_options \<Rightarrow> nat \<Rightarrow> wire_value list \<Rightarrow> cbor_error + u8 list"
  and encode_fields :: "cbor_options \<Rightarrow> nat \<Rightarrow> (u8 list \<times> wire_value) list \<Rightarrow> cbor_error + u8 list" where
  "encode_value options depth v =
     (if depth > cb_max_depth options then Inl (cbor_exceeds ''nesting depth exceeded'')
      else case v of
        W_Null \<Rightarrow> Inr [0xF6]
      | W_Bool b \<Rightarrow> Inr [if b then 0xF5 else 0xF4]
      | W_Number n \<Rightarrow> Inr (encode_number n)
      | W_String s \<Rightarrow> encode_string options s
      | W_Array items \<Rightarrow>
          if exceeds (length items) (cb_max_container_length options) then Inl (cbor_exceeds ''array exceeds max container length'')
          else res_bind (encode_items options (depth + 1) items) (\<lambda>bs.
                 Inr (write_head 4 (of_nat (length items)) @ bs))
      | W_Object members \<Rightarrow>
          if exceeds (length members) (cb_max_container_length options) then Inl (cbor_exceeds ''map exceeds max container length'')
          else res_bind (encode_fields options (depth + 1) members) (\<lambda>bs.
                 Inr (write_head 5 (of_nat (length members)) @ bs)))"
| "encode_items options depth [] = Inr []"
| "encode_items options depth (v # vs) =
     res_bind (encode_value options depth v) (\<lambda>bs. res_bind (encode_items options depth vs) (\<lambda>rest. Inr (bs @ rest)))"
| "encode_fields options depth [] = Inr []"
| "encode_fields options depth ((key, v) # members) =
     res_bind (encode_string options key) (\<lambda>kb.
     res_bind (encode_value options depth v) (\<lambda>bs.
     res_bind (encode_fields options depth members) (\<lambda>rest. Inr (kb @ bs @ rest))))"

definition encode :: "wire_value \<Rightarrow> cbor_options \<Rightarrow> cbor_error + u8 list" where
  "encode v options =
     res_bind (encode_value options 0 v) (\<lambda>out.
     if exceeds (length out) (cb_max_byte_length options) then Inl (cbor_exceeds ''payload exceeds max byte length'')
     else Inr out)"

subsection \<open>Decoding\<close>

text \<open>The reader is what is left of the bytes.\<close>

type_synonym 'a read = "cbor_error + 'a \<times> u8 list"

definition take_bytes :: "nat \<Rightarrow> u8 list \<Rightarrow> u8 list read" where
  "take_bytes n bs =
     (if n > length bs then Inl (Cbor_Error ''unexpected end of CBOR input'') else Inr (take n bs, drop n bs))"

definition read_u8 :: "u8 list \<Rightarrow> u8 read" where
  "read_u8 bs = res_bind (take_bytes 1 bs) (\<lambda>(b, bs). Inr (hd b, bs))"

definition word_from_be :: "u8 list \<Rightarrow> u64" where
  "word_from_be bs = foldl (\<lambda>v b. v * 256 + ucast b) 0 bs"

definition read_len :: "u8 \<Rightarrow> u8 list \<Rightarrow> u64 option read" where
  "read_len additional bs =
     (if additional < 24 then Inr (Some (ucast additional), bs)
      else if additional = 24 then res_bind (read_u8 bs) (\<lambda>(b, bs). Inr (Some (ucast b), bs))
      else if additional = 25 then res_bind (take_bytes 2 bs) (\<lambda>(b, bs). Inr (Some (word_from_be b), bs))
      else if additional = 26 then res_bind (take_bytes 4 bs) (\<lambda>(b, bs). Inr (Some (word_from_be b), bs))
      else if additional = 27 then res_bind (take_bytes 8 bs) (\<lambda>(b, bs). Inr (Some (word_from_be b), bs))
      else Inr (None, bs))"

definition need_len :: "u8 \<Rightarrow> string \<Rightarrow> u8 list \<Rightarrow> u64 read" where
  "need_len additional what bs =
     res_bind (read_len additional bs) (\<lambda>(n, bs).
     case n of None \<Rightarrow> Inl (Cbor_Error (''invalid CBOR '' @ what)) | Some n \<Rightarrow> Inr (n, bs))"

text \<open>The loops over the elements of an array and of a map, and \<open>Map::insert\<close> of \<open>serde_json\<close>.\<close>

primrec decode_items :: "(u8 list \<Rightarrow> wire_value read) \<Rightarrow> nat \<Rightarrow> u8 list \<Rightarrow> wire_value list read" where
  "decode_items item 0 bs = Inr ([], bs)"
| "decode_items item (Suc n) bs =
     res_bind (item bs) (\<lambda>(v, bs). res_bind (decode_items item n bs) (\<lambda>(vs, bs). Inr (v # vs, bs)))"

fun map_insert :: "u8 list \<Rightarrow> wire_value \<Rightarrow> (u8 list \<times> wire_value) list \<Rightarrow> (u8 list \<times> wire_value) list" where
  "map_insert k v [] = [(k, v)]"
| "map_insert k v ((k', v') # m) = (if k = k' then (k', v) # m else (k', v') # map_insert k v m)"

primrec decode_fields ::
  "(u8 list \<Rightarrow> wire_value read) \<Rightarrow> nat \<Rightarrow> (u8 list \<times> wire_value) list \<Rightarrow> u8 list \<Rightarrow> (u8 list \<times> wire_value) list read" where
  "decode_fields item 0 m bs = Inr (m, bs)"
| "decode_fields item (Suc n) m bs =
     res_bind (item bs) (\<lambda>(key, bs).
     case key of
       W_String key \<Rightarrow> res_bind (item bs) (\<lambda>(v, bs). decode_fields item n (map_insert key v m) bs)
     | _ \<Rightarrow> Inl (Cbor_Error ''CBOR map key must be a text string''))"

definition decode_simple :: "u8 \<Rightarrow> u8 list \<Rightarrow> wire_value read" where
  "decode_simple additional bs =
     (if additional = 20 then Inr (W_Bool False, bs)
      else if additional = 21 then Inr (W_Bool True, bs)
      else if additional = 22 then Inr (W_Null, bs)
      else if additional = 26 then res_bind (take_bytes 4 bs) (\<lambda>(b, bs). Inr (number_from_f64 (f32_to_f64 (word_from_be b)), bs))
      else if additional = 27 then res_bind (take_bytes 8 bs) (\<lambda>(b, bs). Inr (number_from_f64 (word_from_be b), bs))
      else Inl (Cbor_Error ''unsupported CBOR simple value''))"

text \<open>\<open>nested\<close> decodes a value one level deeper, \<open>tagged\<close> at the same depth.\<close>

definition decode_major ::
  "cbor_options \<Rightarrow> (u8 list \<Rightarrow> wire_value read) \<Rightarrow> (u8 list \<Rightarrow> wire_value read) \<Rightarrow> u8 \<Rightarrow> u8 \<Rightarrow> u8 list \<Rightarrow> wire_value read" where
  "decode_major options nested tagged major additional bs =
     (if major = 0 then
        res_bind (need_len additional ''integer'' bs) (\<lambda>(n, bs). Inr (W_Number (Num_PosInt n), bs))
      else if major = 1 then
        res_bind (need_len additional ''integer'' bs) (\<lambda>(n, bs).
        if n > 0x7FFFFFFFFFFFFFFF then Inl (Cbor_Error ''CBOR negative integer out of range'')
        else Inr (W_Number (Num_NegInt (- n - 1)), bs))
      else if major = 2 then
        res_bind (need_len additional ''byte string'' bs) (\<lambda>(n, bs).
        if n > cb_max_byte_length options then Inl (cbor_exceeds ''string exceeds max byte length'')
        else res_bind (take_bytes (unat n) bs) (\<lambda>(b, bs). Inr (W_Array (map (\<lambda>x. W_Number (Num_PosInt (ucast x))) b), bs)))
      else if major = 3 then
        res_bind (need_len additional ''text string'' bs) (\<lambda>(n, bs).
        if n > cb_max_byte_length options then Inl (cbor_exceeds ''string exceeds max byte length'')
        else res_bind (take_bytes (unat n) bs) (\<lambda>(b, bs).
          if utf8_valid b then Inr (W_String b, bs) else Inl (Cbor_Error ''invalid UTF-8 in CBOR text string'')))
      else if major = 4 then
        res_bind (need_len additional ''array'' bs) (\<lambda>(n, bs).
        if n > cb_max_container_length options then Inl (cbor_exceeds ''array exceeds max container length'')
        else res_bind (decode_items nested (unat n) bs) (\<lambda>(vs, bs). Inr (W_Array vs, bs)))
      else if major = 5 then
        res_bind (need_len additional ''map'' bs) (\<lambda>(n, bs).
        if n > cb_max_container_length options then Inl (cbor_exceeds ''map exceeds max container length'')
        else res_bind (decode_fields nested (unat n) [] bs) (\<lambda>(m, bs). Inr (W_Object m, bs)))
      else if major = 6 then res_bind (read_len additional bs) (\<lambda>(_, bs). tagged bs)
      else if major = 7 then decode_simple additional bs
      else Inl (Cbor_Error ''unsupported CBOR major type''))"

primrec decode_value :: "nat \<Rightarrow> cbor_options \<Rightarrow> nat \<Rightarrow> u8 list \<Rightarrow> wire_value read" where
  "decode_value 0 options depth bs = Inl Cbor_Out_Of_Fuel"
| "decode_value (Suc fuel) options depth bs =
     (if depth > cb_max_depth options then Inl (cbor_exceeds ''nesting depth exceeded'')
      else res_bind (read_u8 bs) (\<lambda>(initial, bs).
        decode_major options (decode_value fuel options (depth + 1)) (decode_value fuel options depth)
          (drop_bit 5 initial) (and initial 0x1F) bs))"

text \<open>A level of recursion reads a byte, so there are no more levels than bytes.\<close>

definition decode :: "u8 list \<Rightarrow> cbor_options \<Rightarrow> cbor_error + wire_value" where
  "decode bytes options =
     (if exceeds (length bytes) (cb_max_byte_length options) then Inl (cbor_exceeds ''payload exceeds max byte length'')
      else res_bind (decode_value (Suc (length bytes)) options 0 bytes) (\<lambda>(v, rest).
        if rest \<noteq> [] then Inl (Cbor_Error ''trailing bytes after CBOR value'') else Inr v))"

subsection \<open>Heads\<close>

lemma unat_byte_less: "unat (b :: u8) < 256"
proof -
  have "unat b < 2 ^ LENGTH(8)" by (rule unsigned_less)
  then show ?thesis by simp
qed

lemma unat_ucast_byte: "unat (ucast (v :: u64) :: u8) = unat v mod 256"
  by (simp add: unsigned_ucast_eq take_bit_eq_mod)

lemma unat_ucast_wide [simp]: "unat (ucast (b :: u8) :: u64) = unat b"
  using unat_byte_less [of b] by (simp add: unsigned_ucast_eq take_bit_nat_eq_self)

lemma word_be_bytes_nat: "word_be_bytes n v = be_bytes n (unat v)"
proof (induction n arbitrary: v)
  case (Suc n)
  have "unat (drop_bit 8 v) = unat v div 256" by (simp add: drop_bit_eq_div unat_div)
  then show ?case by (simp add: Suc)
qed simp

lemma word_from_be_nat: "word_from_be bs = of_nat (from_be bs)"
proof -
  have "foldl (\<lambda>v b. v * 256 + ucast b) (of_nat k) bs = (of_nat (foldl (\<lambda>v b. v * 256 + unat b) k bs) :: u64)" for k
  proof (induction bs arbitrary: k)
    case (Cons b bs)
    have "(of_nat k * 256 + ucast b :: u64) = of_nat (k * 256 + unat b)" by simp
    then show ?case using Cons [of "k * 256 + unat b"] by (simp del: of_nat_add of_nat_mult of_nat_unat)
  qed simp
  from this [of 0] show ?thesis by (simp add: word_from_be_def from_be_def)
qed

lemma word_be_round_trip: "unat v < 256 ^ n \<Longrightarrow> word_from_be (word_be_bytes n v) = v"
  by (simp add: word_be_bytes_nat word_from_be_nat)

lemma length_word_be_bytes [simp]: "length (word_be_bytes n v) = n"
  by (simp add: word_be_bytes_nat)

lemma head_byte:
  fixes major x :: u8
  assumes "major < 8" and "x < 32"
  shows "drop_bit 5 (or (push_bit 5 major) x) = major" and "and (or (push_bit 5 major) x) 0x1F = x"
proof -
  have m: "take_bit 3 major = major" and x: "take_bit 5 x = x"
    using assms less_mask_eq [of major 3] less_mask_eq [of x 5] by (simp_all add: take_bit_eq_mask)
  have major: "bit major n \<Longrightarrow> n < 3" and low: "bit x n \<Longrightarrow> n < 5" for n
    using arg_cong [OF m, of "\<lambda>w. bit w n"] arg_cong [OF x, of "\<lambda>w. bit w n"] by (auto simp: bit_take_bit_iff)
  show "drop_bit 5 (or (push_bit 5 major) x) = major"
    by (rule bit_word_eqI) (auto simp: bit_simps dest: major low)
  have "and (or (push_bit 5 major) x) (mask 5) = x"
    by (rule bit_word_eqI) (auto simp: bit_simps dest: major low)
  then show "and (or (push_bit 5 major) x) 0x1F = x" by (simp add: mask_eq_exp_minus_1)
qed

lemma take_bytes_append [simp]: "take_bytes n (bs @ rest) = Inr (bs, rest)" if "length bs = n"
  using that by (auto simp: take_bytes_def)

lemma read_u8_Cons [simp]: "read_u8 (b # bs) = Inr (b, bs)"
  by (simp add: read_u8_def take_bytes_def)

text \<open>What a head is read as: its major type and its value.\<close>

lemma read_head:
  assumes "major < 8"
  shows "\<exists>b t. write_head major v = b # t \<and> drop_bit 5 b = major \<and> need_len (and b 0x1F) what (t @ bs) = Inr (v, bs)"
proof -
  have c: "v < 24 \<longleftrightarrow> unat v < 24" "v \<le> 0xFF \<longleftrightarrow> unat v \<le> 0xFF" "v \<le> 0xFFFF \<longleftrightarrow> unat v \<le> 0xFFFF"
      "v \<le> 0xFFFFFFFF \<longleftrightarrow> unat v \<le> 0xFFFFFFFF"
    by (simp_all add: word_less_nat_alt word_le_nat_alt)
  have small: "ucast v < (32 :: u8)" "ucast (ucast v :: u8) = v" "(ucast v :: u8) < 24" if "unat v < 24"
    using that by (simp_all add: word_less_nat_alt word_unat_eq_iff unat_ucast_byte)
  have byte: "ucast (ucast v :: u8) = v" if "unat v \<le> 0xFF"
    using that by (simp add: word_unat_eq_iff unat_ucast_byte)
  note head = head_byte [OF assms]
  consider "unat v < 24" | "\<not> unat v < 24" "unat v \<le> 0xFF" | "\<not> unat v \<le> 0xFF" "unat v \<le> 0xFFFF"
    | "\<not> unat v \<le> 0xFFFF" "unat v \<le> 0xFFFFFFFF" | "\<not> unat v \<le> 0xFFFFFFFF" by linarith
  then show ?thesis
  proof cases
    case 1
    then show ?thesis using head [OF small(1) [OF 1]] small [OF 1] by (simp add: write_head_def c need_len_def read_len_def)
  next
    case 2
    then show ?thesis using head [of 24] byte [OF 2(2)] by (simp add: write_head_def c need_len_def read_len_def)
  next
    case 3
    then have "word_from_be (word_be_bytes 2 v) = v" by (intro word_be_round_trip) simp
    with 3 show ?thesis using head [of 25] by (simp add: write_head_def c need_len_def read_len_def del: word_be_bytes.simps)
  next
    case 4
    then have "word_from_be (word_be_bytes 4 v) = v" by (intro word_be_round_trip) simp
    with 4 show ?thesis using head [of 26] by (simp add: write_head_def c need_len_def read_len_def del: word_be_bytes.simps)
  next
    case 5
    have "word_from_be (word_be_bytes 8 v) = v"
      by (rule word_be_round_trip) (use unsigned_less [of v, where ?'a = nat] in simp)
    with 5 show ?thesis using head [of 27] by (simp add: write_head_def c need_len_def read_len_def del: word_be_bytes.simps)
  qed
qed

subsection \<open>Values a decoder yields\<close>

text \<open>What the types of the source guarantee: UTF-8 strings, distinct keys, finite floats, \<open>NegInt\<close> negative.\<close>

fun number_wf :: "wire_number \<Rightarrow> bool" where
  "number_wf (Num_PosInt u) = True"
| "number_wf (Num_NegInt i) = (sint i < 0)"
| "number_wf (Num_Float f) = f64_finite f"

fun value_wf :: "wire_value \<Rightarrow> bool" where
  "value_wf W_Null = True"
| "value_wf (W_Bool b) = True"
| "value_wf (W_Number n) = number_wf n"
| "value_wf (W_String s) = utf8_valid s"
| "value_wf (W_Array vs) = (\<forall>v \<in> set vs. value_wf v)"
| "value_wf (W_Object ms) = (distinct (map fst ms) \<and> (\<forall>m \<in> set ms. utf8_valid (fst m) \<and> value_wf (snd m)))"

text \<open>
  The limits, \<open>d\<close> levels down: every value lies within the depth, strings and keys within the byte
  length, arrays and objects within the container length. Only the array of byte values that a byte
  string becomes has the bound of a string instead, and its numbers no level of their own.
\<close>

fun byte_number :: "wire_value \<Rightarrow> bool" where
  "byte_number (W_Number (Num_PosInt n)) = (unat n < 256)"
| "byte_number v = False"

fun value_within :: "cbor_options \<Rightarrow> nat \<Rightarrow> wire_value \<Rightarrow> bool" where
  "value_within options d W_Null = (d \<le> cb_max_depth options)"
| "value_within options d (W_Bool b) = (d \<le> cb_max_depth options)"
| "value_within options d (W_Number n) = (d \<le> cb_max_depth options)"
| "value_within options d (W_String s) = (d \<le> cb_max_depth options \<and> length s \<le> unat (cb_max_byte_length options))"
| "value_within options d (W_Array vs) =
     (d \<le> cb_max_depth options
      \<and> (length vs \<le> unat (cb_max_container_length options) \<and> (\<forall>v \<in> set vs. value_within options (Suc d) v)
         \<or> length vs \<le> unat (cb_max_byte_length options) \<and> (\<forall>v \<in> set vs. byte_number v)))"
| "value_within options d (W_Object ms) =
     (d \<le> cb_max_depth options \<and> length ms \<le> unat (cb_max_container_length options)
      \<and> (\<forall>m \<in> set ms. length (fst m) \<le> unat (cb_max_byte_length options) \<and> value_within options (Suc d) (snd m)))"

subsection \<open>Round trip\<close>

lemma exceeds_iff: "exceeds n limit \<longleftrightarrow> unat limit < n"
  unfolding exceeds_def by (metis of_nat_less_iff of_nat_unat)

lemma length_fits: "\<not> exceeds n limit \<Longrightarrow> unat (of_nat n :: u64) = n \<and> \<not> limit < of_nat n"
proof -
  assume "\<not> exceeds n limit"
  then have n: "n \<le> unat limit" by (simp add: exceeds_iff)
  moreover have "unat limit < 2 ^ LENGTH(64)" by (rule unsigned_less)
  ultimately have "unat (of_nat n :: u64) = n" by (simp add: unsigned_of_nat take_bit_nat_eq_self)
  with n show ?thesis by (simp add: word_less_nat_alt)
qed

lemma decode_head:
  assumes "major < 8" and "depth \<le> cb_max_depth options"
  shows "\<exists>additional t. (\<forall>what. need_len additional what (t @ bs) = Inr (v, bs)) \<and> length (write_head major v) = Suc (length t)
     \<and> decode_value (Suc fuel) options depth (write_head major v @ bs) =
       decode_major options (decode_value fuel options (depth + 1)) (decode_value fuel options depth) major additional (t @ bs)"
proof -
  from read_head [OF assms(1), of v "[]" bs] obtain b t where
      h: "write_head major v = b # t" "drop_bit 5 b = major" and n: "need_len (and b 0x1F) [] (t @ bs) = Inr (v, bs)"
    by blast
  have "need_len (and b 0x1F) what (t @ bs) = Inr (v, bs)" for what
    using n by (auto simp: need_len_def split: option.splits)
  with h assms(2) show ?thesis by (intro exI [of _ "and b 0x1F"] exI [of _ t]) simp
qed

declare decode_value.simps(2) [simp del]

lemma decode_major_simps [simp]:
  "decode_major options nested tagged 0 a bs =
     res_bind (need_len a ''integer'' bs) (\<lambda>(n, bs). Inr (W_Number (Num_PosInt n), bs))"
  "decode_major options nested tagged 1 a bs =
     res_bind (need_len a ''integer'' bs) (\<lambda>(n, bs).
     if n > 0x7FFFFFFFFFFFFFFF then Inl (Cbor_Error ''CBOR negative integer out of range'')
     else Inr (W_Number (Num_NegInt (- n - 1)), bs))"
  "decode_major options nested tagged 3 a bs =
     res_bind (need_len a ''text string'' bs) (\<lambda>(n, bs).
     if n > cb_max_byte_length options then Inl (cbor_exceeds ''string exceeds max byte length'')
     else res_bind (take_bytes (unat n) bs) (\<lambda>(b, bs).
       if utf8_valid b then Inr (W_String b, bs) else Inl (Cbor_Error ''invalid UTF-8 in CBOR text string'')))"
  "decode_major options nested tagged 4 a bs =
     res_bind (need_len a ''array'' bs) (\<lambda>(n, bs).
     if n > cb_max_container_length options then Inl (cbor_exceeds ''array exceeds max container length'')
     else res_bind (decode_items nested (unat n) bs) (\<lambda>(vs, bs). Inr (W_Array vs, bs)))"
  "decode_major options nested tagged 5 a bs =
     res_bind (need_len a ''map'' bs) (\<lambda>(n, bs).
     if n > cb_max_container_length options then Inl (cbor_exceeds ''map exceeds max container length'')
     else res_bind (decode_fields nested (unat n) [] bs) (\<lambda>(m, bs). Inr (W_Object m, bs)))"
  by (simp_all add: decode_major_def)

lemma map_insert_new: "k \<notin> fst ` set m \<Longrightarrow> map_insert k v m = m @ [(k, v)]"
  by (induction m) auto

lemma decode_string:
  assumes "encode_string options s = Inr bs" and "utf8_valid s" and "depth \<le> cb_max_depth options"
  shows "bs \<noteq> [] \<and> decode_value (Suc fuel) options depth (bs @ rest) = Inr (W_String s, rest)"
proof -
  from assms(1) have n: "\<not> exceeds (length s) (cb_max_byte_length options)"
      and bs: "bs = write_head 3 (of_nat (length s)) @ s"
    by (auto simp: encode_string_def split: if_splits)
  from decode_head [OF _ assms(3), of 3 "s @ rest" "of_nat (length s)" fuel] show ?thesis
    using length_fits [OF n] assms(2) by (fastforce simp: bs)
qed

lemma decode_number:
  assumes "number_wf n" and "depth \<le> cb_max_depth options"
  shows "encode_number n \<noteq> [] \<and> decode_value (Suc fuel) options depth (encode_number n @ rest) = Inr (W_Number n, rest)"
proof (cases n)
  case (Num_PosInt u)
  then show ?thesis using decode_head [OF _ assms(2), of 0 rest u fuel] by fastforce
next
  case (Num_NegInt i)
  define u :: u64 where "u = of_int (- sint i - 1)"
  have i: "- (2 ^ 63) \<le> sint i" "sint i < 0"
    using assms(1) Num_NegInt sint_greater_eq [of i] by simp_all
  have "uint u = (- sint i - 1) mod 2 ^ LENGTH(64)" unfolding u_def by (rule uint_word_of_int)
  then have "uint u = - sint i - 1" using i by (simp add: mod_pos_pos_trivial)
  then have "\<not> u > 0x7FFFFFFFFFFFFFFF" "- u - 1 = i"
    using i by (simp_all add: word_less_def u_def)
  moreover obtain a t where "\<forall>what. need_len a what (t @ rest) = Inr (u, rest)" "length (write_head 1 u) = Suc (length t)"
      "decode_value (Suc fuel) options depth (write_head 1 u @ rest) =
         decode_major options (decode_value fuel options (depth + 1)) (decode_value fuel options depth) 1 a (t @ rest)"
    using decode_head [OF _ assms(2), of 1 rest u fuel] by auto
  ultimately show ?thesis using Num_NegInt by (auto simp: u_def [symmetric])
next
  case (Num_Float f)
  have "word_from_be (word_be_bytes 8 f) = f"
    by (rule word_be_round_trip) (use unsigned_less [of f, where ?'a = nat] in simp)
  then show ?thesis
    using Num_Float assms
    by (simp add: decode_value.simps decode_major_def decode_simple_def number_from_f64_def del: word_be_bytes.simps)
qed

text \<open>
  What is encoded decodes to the value it was, from whatever level and whatever follows; the fuel is at
  most the number of bytes.
\<close>

lemma write_head_nonempty [simp]: "write_head m v \<noteq> []"
  by (simp add: write_head_def Let_def)

lemma fuel_positive: "bs \<noteq> [] \<Longrightarrow> length bs \<le> fuel \<Longrightarrow> \<exists>k. fuel = Suc k"
  by (cases fuel) auto

lemma decode_encoded:
  "encode_value options depth v = Inr bs \<Longrightarrow> value_wf v \<Longrightarrow> length bs \<le> fuel \<Longrightarrow>
     bs \<noteq> [] \<and> depth \<le> cb_max_depth options \<and> decode_value fuel options depth (bs @ rest) = Inr (v, rest)"
  "encode_items options depth vs = Inr bs \<Longrightarrow> \<forall>v \<in> set vs. value_wf v \<Longrightarrow> length bs \<le> fuel \<Longrightarrow>
     decode_items (decode_value fuel options depth) (length vs) (bs @ rest) = Inr (vs, rest)"
  "encode_fields options depth ms = Inr bs \<Longrightarrow> \<forall>m \<in> set ms. utf8_valid (fst m) \<and> value_wf (snd m) \<Longrightarrow>
     distinct (map fst ms) \<Longrightarrow> fst ` set ms \<inter> fst ` set acc = {} \<Longrightarrow> length bs \<le> fuel \<Longrightarrow>
     decode_fields (decode_value fuel options depth) (length ms) acc (bs @ rest) = Inr (acc @ ms, rest)"
proof (induction options depth v and options depth vs and options depth ms arbitrary: bs fuel rest and bs fuel rest
    and bs fuel rest acc rule: encode_value_encode_items_encode_fields.induct)
  case (1 options depth v)
  have d: "\<not> depth > cb_max_depth options" using "1.prems"(1) by (auto split: if_splits)
  show ?case
  proof (cases v)
    case (W_Number n)
    with "1.prems" d have bs: "bs = encode_number n" "number_wf n" by simp_all
    with d decode_number [of n depth options] obtain k where "fuel = Suc k"
      using fuel_positive "1.prems"(3) by (metis leI)
    with bs d W_Number decode_number [of n depth options k rest] show ?thesis by simp
  next
    case (W_String s)
    then have bs: "encode_string options s = Inr bs" "utf8_valid s" using "1.prems" d by simp_all
    then obtain k where "fuel = Suc k"
      using fuel_positive "1.prems"(3) decode_string d by (metis leI)
    with bs d W_String decode_string [OF bs, of depth k rest] show ?thesis by simp
  next
    case (W_Array items)
    with "1.prems" d obtain ib where n: "\<not> exceeds (length items) (cb_max_container_length options)"
        and ib: "encode_items options (depth + 1) items = Inr ib" and bs: "bs = write_head 4 (of_nat (length items)) @ ib"
      by (auto split: if_splits)
    obtain k where k: "fuel = Suc k"
      using fuel_positive [of bs fuel] "1.prems"(3) bs by auto
    from decode_head [of 4 depth options "ib @ rest" "of_nat (length items)" k] d obtain a t where
        h: "\<forall>what. need_len a what (t @ ib @ rest) = Inr (of_nat (length items), ib @ rest)"
          "length (write_head 4 (of_nat (length items))) = Suc (length t)"
          "decode_value (Suc k) options depth (write_head 4 (of_nat (length items)) @ ib @ rest)
             = decode_major options (decode_value k options (depth + 1)) (decode_value k options depth) 4 a (t @ ib @ rest)"
      by auto
    have "decode_items (decode_value k options (depth + 1)) (length items) (ib @ rest) = Inr (items, rest)"
      using "1.IH"(1) [OF d W_Array _ ib] n "1.prems"(2,3) W_Array bs h(2) k by simp
    then show ?thesis using h length_fits [OF n] d W_Array by (auto simp: bs k)
  next
    case (W_Object ms)
    with "1.prems" d obtain ib where n: "\<not> exceeds (length ms) (cb_max_container_length options)"
        and ib: "encode_fields options (depth + 1) ms = Inr ib" and bs: "bs = write_head 5 (of_nat (length ms)) @ ib"
      by (auto split: if_splits)
    obtain k where k: "fuel = Suc k"
      using fuel_positive [of bs fuel] "1.prems"(3) bs by auto
    from decode_head [of 5 depth options "ib @ rest" "of_nat (length ms)" k] d obtain a t where
        h: "\<forall>what. need_len a what (t @ ib @ rest) = Inr (of_nat (length ms), ib @ rest)"
          "length (write_head 5 (of_nat (length ms))) = Suc (length t)"
          "decode_value (Suc k) options depth (write_head 5 (of_nat (length ms)) @ ib @ rest)
             = decode_major options (decode_value k options (depth + 1)) (decode_value k options depth) 5 a (t @ ib @ rest)"
      by auto
    have "decode_fields (decode_value k options (depth + 1)) (length ms) [] (ib @ rest) = Inr (ms, rest)"
      using "1.IH"(2) [OF d W_Object _ ib, of "[]"] n "1.prems"(2,3) W_Object bs h(2) k by simp
    then show ?thesis using h length_fits [OF n] d W_Object by (auto simp: bs k)
  qed (use "1.prems" d fuel_positive [of bs fuel] in \<open>auto simp: decode_value.simps decode_major_def decode_simple_def\<close>)
next
  case (3 options depth v vs)
  from "3.prems"(1) obtain vb rb where vb: "encode_value options depth v = Inr vb"
      and rb: "encode_items options depth vs = Inr rb" and bs: "bs = vb @ rb"
    by auto
  from "3.IH"(1) [OF vb, of fuel "rb @ rest"] "3.IH"(2) [OF rb, of fuel rest] "3.prems" show ?case by (simp add: bs)
next
  case (5 options depth key v ms)
  from "5.prems"(1) obtain kb vb rb where kb: "encode_string options key = Inr kb"
      and vb: "encode_value options depth v = Inr vb" and rb: "encode_fields options depth ms = Inr rb"
      and bs: "bs = kb @ vb @ rb"
    by auto
  have v: "vb \<noteq> [] \<and> depth \<le> cb_max_depth options \<and> decode_value fuel options depth (vb @ rb @ rest) = Inr (v, rb @ rest)"
    using "5.IH"(1) [OF vb, of fuel "rb @ rest"] "5.prems" by (simp add: bs)
  then obtain k where k: "fuel = Suc k" using fuel_positive [of bs fuel] "5.prems"(5) by (auto simp: bs)
  have key: "decode_value fuel options depth (kb @ vb @ rb @ rest) = Inr (W_String key, vb @ rb @ rest)"
    using decode_string [OF kb] "5.prems"(2) v by (simp add: k)
  have "decode_fields (decode_value fuel options depth) (length ms) (map_insert key v acc) (rb @ rest)
      = Inr (acc @ (key, v) # ms, rest)"
    using "5.IH"(2) [OF rb, of "acc @ [(key, v)]" fuel rest] "5.prems" by (auto simp: bs map_insert_new)
  with key v show ?case by (simp add: bs)
qed simp_all

subsection \<open>Fuel\<close>

text \<open>Every reader consumes: what a value is decoded from is longer than what it leaves.\<close>

definition consuming :: "(u8 list \<Rightarrow> 'a read) \<Rightarrow> bool" where
  "consuming f \<longleftrightarrow> (\<forall>bs v rest. f bs = Inr (v, rest) \<longrightarrow> length rest < length bs)"

lemma consumes: "consuming f \<Longrightarrow> f bs = Inr (v, rest) \<Longrightarrow> length rest < length bs"
  by (simp add: consuming_def)

lemma take_bytes_Inr: "take_bytes n bs = Inr (b, rest) \<longleftrightarrow> n \<le> length bs \<and> b = take n bs \<and> rest = drop n bs"
  by (auto simp: take_bytes_def)

lemma read_len_rest: "read_len a bs = Inr (n, rest) \<Longrightarrow> length rest \<le> length bs"
  by (auto simp: read_len_def read_u8_def take_bytes_Inr split: if_splits)

lemma need_len_rest: "need_len a what bs = Inr (n, rest) \<Longrightarrow> length rest \<le> length bs"
  by (auto simp: need_len_def split: option.splits dest: read_len_rest)

lemma decode_items_rest:
  "consuming item \<Longrightarrow> decode_items item n bs = Inr (vs, rest) \<Longrightarrow> length rest \<le> length bs \<and> length vs = n"
proof (induction n arbitrary: bs vs)
  case (Suc n)
  then obtain v bs' vs' where "item bs = Inr (v, bs')" "decode_items item n bs' = Inr (vs', rest)" "vs = v # vs'" by auto
  with Suc show ?case by (fastforce simp: consuming_def)
qed simp

lemma decode_fields_Inr:
  "decode_fields item (Suc n) m bs = Inr r \<longleftrightarrow>
     (\<exists>key bs1 v bs2. item bs = Inr (W_String key, bs1) \<and> item bs1 = Inr (v, bs2)
        \<and> decode_fields item n (map_insert key v m) bs2 = Inr r)"
proof (cases "item bs")
  case (Inr x)
  obtain key bs1 where x: "x = (key, bs1)" by (cases x)
  show ?thesis by (cases key) (auto simp: Inr x)
qed simp

lemma decode_fields_rest:
  "consuming item \<Longrightarrow> decode_fields item n m bs = Inr (m', rest) \<Longrightarrow> length rest \<le> length bs"
proof (induction n arbitrary: bs m)
  case (Suc n)
  from Suc.prems(2) obtain key bs1 v bs2 where "item bs = Inr (W_String key, bs1)" "item bs1 = Inr (v, bs2)"
      "decode_fields item n (map_insert key v m) bs2 = Inr (m', rest)"
    using decode_fields_Inr by blast
  with Suc show ?case unfolding consuming_def by (meson le_trans less_imp_le)
qed simp

lemma decode_major_rest:
  assumes "consuming nested" and "consuming tagged" and "decode_major options nested tagged major a bs = Inr (v, rest)"
  shows "length rest \<le> length bs"
proof -
  have tag: "length rest \<le> length bs" if "read_len a bs = Inr (x, bs')" "tagged bs' = Inr (v, rest)" for x bs'
    using assms(2) that read_len_rest [OF that(1)] unfolding consuming_def by (meson le_trans less_imp_le)
  have simple: "length rest \<le> length bs" if "decode_simple a bs = Inr (v, rest)"
    using that by (auto simp: decode_simple_def take_bytes_Inr split: if_splits)
  show ?thesis
    using assms(3) unfolding decode_major_def
    by (auto split: if_splits simp: take_bytes_Inr
        dest!: need_len_rest decode_items_rest [OF assms(1)] decode_fields_rest [OF assms(1)] dest: tag simple)
qed

lemma decode_value_consuming: "consuming (decode_value fuel options depth)"
proof (induction fuel arbitrary: depth)
  case (Suc fuel)
  have "length rest < length bs" if "decode_value (Suc fuel) options depth bs = Inr (v, rest)" for bs v rest
  proof -
    from that obtain b bs' where "read_u8 bs = Inr (b, bs')"
        "decode_major options (decode_value fuel options (depth + 1)) (decode_value fuel options depth) (drop_bit 5 b) (and b 0x1F) bs' = Inr (v, rest)"
      by (auto simp: decode_value.simps split: if_splits)
    with decode_major_rest [OF Suc [of "depth + 1"] Suc [of depth]] show ?thesis
      by (fastforce simp: read_u8_def take_bytes_Inr)
  qed
  then show ?case unfolding consuming_def by blast
qed (simp add: consuming_def)

text \<open>More fuel than bytes is as good as any: the decoders agree, and none runs out.\<close>

lemma decode_items_cong:
  assumes "consuming f" and "\<forall>bs. length bs \<le> L \<longrightarrow> f bs = g bs \<and> f bs \<noteq> Inl Cbor_Out_Of_Fuel" and "length bs \<le> L"
  shows "decode_items f n bs = decode_items g n bs \<and> decode_items f n bs \<noteq> Inl Cbor_Out_Of_Fuel"
  using assms(3)
proof (induction n arbitrary: bs)
  case (Suc n)
  show ?case
  proof (cases "f bs")
    case (Inl e)
    moreover have "g bs = Inl e" "e \<noteq> Cbor_Out_Of_Fuel" using assms(2) Suc.prems Inl by metis+
    ultimately show ?thesis by simp
  next
    case (Inr x)
    obtain v bs' where x: "x = (v, bs')" by (cases x)
    have "length bs' \<le> L" using consumes [OF assms(1) Inr [unfolded x]] Suc.prems by simp
    note rest = conjunct1 [OF Suc.IH [OF this]] conjunct2 [OF Suc.IH [OF this]]
    have "g bs = Inr x" using assms(2) Suc.prems Inr by metis
    then show ?thesis using Inr x rest by (cases "decode_items g n bs'") auto
  qed
qed simp

lemma decode_fields_cong:
  assumes "consuming f" and "\<forall>bs. length bs \<le> L \<longrightarrow> f bs = g bs \<and> f bs \<noteq> Inl Cbor_Out_Of_Fuel" and "length bs \<le> L"
  shows "decode_fields f n m bs = decode_fields g n m bs \<and> decode_fields f n m bs \<noteq> Inl Cbor_Out_Of_Fuel"
  using assms(3)
proof (induction n arbitrary: bs m)
  case (Suc n)
  show ?case
  proof (cases "f bs")
    case (Inl e)
    moreover have "g bs = Inl e" "e \<noteq> Cbor_Out_Of_Fuel" using assms(2) Suc.prems Inl by metis+
    ultimately show ?thesis by simp
  next
    case (Inr x)
    obtain key bs1 where x: "x = (key, bs1)" by (cases x)
    have g: "g bs = Inr x" using assms(2) Suc.prems Inr by metis
    have bs1: "length bs1 \<le> L" using consumes [OF assms(1) Inr [unfolded x]] Suc.prems by simp
    then have same: "g bs1 = f bs1" "f bs1 \<noteq> Inl Cbor_Out_Of_Fuel" using assms(2) by metis+
    show ?thesis
    proof (cases key)
      case (W_String k)
      show ?thesis
      proof (cases "f bs1")
        case (Inl e)
        then show ?thesis using Inr x g W_String same by auto
      next
        case (Inr y)
        obtain v bs2 where y: "y = (v, bs2)" by (cases y)
        have "length bs2 \<le> L" using consumes [OF assms(1) Inr [unfolded y]] bs1 by simp
        from Suc.IH [OF this, of "map_insert k v m"] show ?thesis
          using \<open>f bs = Inr x\<close> x g W_String same Inr y by auto
      qed
    qed (use Inr x g in auto)
  qed
qed simp

lemma no_fuel_error [simp]:
  "take_bytes n bs \<noteq> Inl Cbor_Out_Of_Fuel" "read_len a bs \<noteq> Inl Cbor_Out_Of_Fuel"
  "need_len a what bs \<noteq> Inl Cbor_Out_Of_Fuel" "decode_simple a bs \<noteq> Inl Cbor_Out_Of_Fuel"
  "read_u8 bs \<noteq> Inl Cbor_Out_Of_Fuel"
proof -
  show take: "take_bytes n bs \<noteq> Inl Cbor_Out_Of_Fuel" for n bs by (simp add: take_bytes_def)
  show u8: "read_u8 bs \<noteq> Inl Cbor_Out_Of_Fuel" for bs by (auto simp: read_u8_def res_bind_Inl_iff take)
  show len: "read_len a bs \<noteq> Inl Cbor_Out_Of_Fuel" for a bs by (auto simp: read_len_def res_bind_Inl_iff take u8)
  show "need_len a what bs \<noteq> Inl Cbor_Out_Of_Fuel"
    by (auto simp: need_len_def res_bind_Inl_iff len split: option.splits)
  show "decode_simple a bs \<noteq> Inl Cbor_Out_Of_Fuel" by (auto simp: decode_simple_def res_bind_Inl_iff take)
qed

lemma decode_major_cong:
  assumes "consuming nested"
    and nested: "\<forall>bs. length bs \<le> L \<longrightarrow> nested bs = nested' bs \<and> nested bs \<noteq> Inl Cbor_Out_Of_Fuel"
    and tagged: "\<forall>bs. length bs \<le> L \<longrightarrow> tagged bs = tagged' bs \<and> tagged bs \<noteq> Inl Cbor_Out_Of_Fuel" and "length bs \<le> L"
  shows "decode_major options nested tagged major a bs = decode_major options nested' tagged' major a bs
     \<and> decode_major options nested tagged major a bs \<noteq> Inl Cbor_Out_Of_Fuel"
proof -
  have items: "need_len a what bs = Inr (n, bs') \<Longrightarrow> decode_items nested k bs' = decode_items nested' k bs'
      \<and> decode_items nested k bs' \<noteq> Inl Cbor_Out_Of_Fuel" for what n bs' k
    by (rule decode_items_cong [OF assms(1) nested order_trans [OF need_len_rest assms(4)]])
  have members: "need_len a what bs = Inr (n, bs') \<Longrightarrow> decode_fields nested k m bs' = decode_fields nested' k m bs'
      \<and> decode_fields nested k m bs' \<noteq> Inl Cbor_Out_Of_Fuel" for what n bs' k m
    by (rule decode_fields_cong [OF assms(1) nested order_trans [OF need_len_rest assms(4)]])
  have tag: "read_len a bs = Inr (x, bs') \<Longrightarrow> tagged bs' = tagged' bs' \<and> tagged bs' \<noteq> Inl Cbor_Out_Of_Fuel" for x bs'
    using tagged read_len_rest [of a bs x bs'] assms(4) by (meson le_trans)
  consider "major = 4" | "major = 5" | "major = 6" | "major \<notin> {4, 5, 6}" by blast
  then show ?thesis
  proof cases
    case 1
    show ?thesis
    proof (cases "need_len a ''array'' bs")
      case (Inr x)
      then obtain n bs' where x: "need_len a ''array'' bs = Inr (n, bs')" by (cases x) auto
      note eq = conjunct1 [OF items [OF x]]
      note ne = conjunct2 [OF items [OF x], unfolded eq]
      show ?thesis using ne [of "unat n"] by (auto simp: 1 x eq res_bind_Inl_iff)
    qed (use no_fuel_error(3) [of a "''array''" bs] in \<open>auto simp: 1\<close>)
  next
    case 2
    show ?thesis
    proof (cases "need_len a ''map'' bs")
      case (Inr x)
      then obtain n bs' where x: "need_len a ''map'' bs = Inr (n, bs')" by (cases x) auto
      note eq = conjunct1 [OF members [OF x]]
      note ne = conjunct2 [OF members [OF x], unfolded eq]
      show ?thesis using ne [of "unat n" "[]"] by (auto simp: 2 x eq res_bind_Inl_iff)
    qed (use no_fuel_error(3) [of a "''map''" bs] in \<open>auto simp: 2\<close>)
  next
    case 3
    show ?thesis
    proof (cases "read_len a bs")
      case (Inr x)
      then obtain n bs' where x: "read_len a bs = Inr (n, bs')" by (cases x) auto
      note eq = conjunct1 [OF tag [OF x]]
      note ne = conjunct2 [OF tag [OF x], unfolded eq]
      show ?thesis using ne by (auto simp: decode_major_def 3 x eq)
    qed (use no_fuel_error(2) [of a bs] in \<open>auto simp: 3 decode_major_def\<close>)
  next
    case 4
    then have "decode_major options nested tagged major a bs = decode_major options nested' tagged' major a bs"
      by (simp add: decode_major_def)
    moreover have "decode_major options nested tagged major a bs \<noteq> Inl Cbor_Out_Of_Fuel"
      using 4 by (auto simp: decode_major_def res_bind_Inl_iff split: if_splits)
    ultimately show ?thesis by simp
  qed
qed

lemma decode_value_fuel:
  "length bs < m \<Longrightarrow> length bs < n \<Longrightarrow>
     decode_value m options depth bs = decode_value n options depth bs \<and> decode_value m options depth bs \<noteq> Inl Cbor_Out_Of_Fuel"
proof (induction m arbitrary: n depth bs)
  case (Suc m)
  then obtain k where n: "n = Suc k" by (cases n) auto
  show ?case
  proof (cases bs)
    case Nil
    then show ?thesis by (simp add: n decode_value.simps read_u8_def take_bytes_def)
  next
    case (Cons b bs')
    have "\<forall>xs. length xs \<le> length bs' \<longrightarrow> decode_value m options d xs = decode_value k options d xs
        \<and> decode_value m options d xs \<noteq> Inl Cbor_Out_Of_Fuel" for d
      by (intro allI impI Suc.IH) (use Suc.prems n Cons in simp_all)
    note cong = decode_major_cong [OF decode_value_consuming this this order_refl]
    note eq = conjunct1 [OF cong]
    note ne = conjunct2 [OF cong, unfolded eq]
    show ?thesis using ne by (simp add: n decode_value.simps Cons eq)
  qed
qed simp

subsection \<open>What a decoder yields is a value within the limits\<close>

lemma map_insert_facts:
  "fst ` set (map_insert k v m) = insert k (fst ` set m)"
  "distinct (map fst m) \<Longrightarrow> distinct (map fst (map_insert k v m))"
  "set (map_insert k v m) \<subseteq> insert (k, v) (set m)" "length (map_insert k v m) \<le> Suc (length m)"
proof -
  show keys: "fst ` set (map_insert k v m) = insert k (fst ` set m)" for m
  proof (induction m)
    case (Cons x m)
    then show ?case by (cases x; cases "k = fst x") (simp_all add: insert_commute)
  qed simp
  show "distinct (map fst m) \<Longrightarrow> distinct (map fst (map_insert k v m))"
  proof (induction m)
    case (Cons x m)
    with keys [of m] show ?case by (cases x) auto
  qed simp
  show "set (map_insert k v m) \<subseteq> insert (k, v) (set m)" by (induction m) (auto split: if_splits)
  show "length (map_insert k v m) \<le> Suc (length m)" by (induction m) auto
qed

lemma decode_items_all:
  assumes "\<And>bs v rest. item bs = Inr (v, rest) \<Longrightarrow> P v"
  shows "decode_items item n bs = Inr (vs, rest) \<Longrightarrow> (\<forall>v \<in> set vs. P v) \<and> length vs = n"
proof (induction n arbitrary: bs vs)
  case (Suc n)
  then obtain v bs' vs' where "item bs = Inr (v, bs')" "decode_items item n bs' = Inr (vs', rest)" "vs = v # vs'" by auto
  with Suc.IH [of bs' vs'] assms show ?case by auto
qed simp

lemma decode_fields_all:
  assumes "\<And>bs v rest. item bs = Inr (v, rest) \<Longrightarrow> P v"
  shows "decode_fields item n m bs = Inr (m', rest) \<Longrightarrow> distinct (map fst m) \<Longrightarrow>
     \<forall>x \<in> set m. P (W_String (fst x)) \<and> P (snd x) \<Longrightarrow>
     distinct (map fst m') \<and> (\<forall>x \<in> set m'. P (W_String (fst x)) \<and> P (snd x)) \<and> length m' \<le> length m + n"
proof (induction n arbitrary: bs m)
  case (Suc n)
  from Suc.prems(1) obtain key bs1 v bs2 where step: "item bs = Inr (W_String key, bs1)" "item bs1 = Inr (v, bs2)"
      "decode_fields item n (map_insert key v m) bs2 = Inr (m', rest)"
    using decode_fields_Inr by blast
  have "\<forall>x \<in> set (map_insert key v m). P (W_String (fst x)) \<and> P (snd x)"
    using map_insert_facts(3) [of key v m] Suc.prems(3) assms [OF step(1)] assms [OF step(2)] by auto
  from Suc.IH [OF step(3) map_insert_facts(2) [OF Suc.prems(2)] this] map_insert_facts(4) [of key v m]
  show ?case by auto
qed simp

lemma negative_number:
  fixes n :: u64
  assumes "\<not> n > 0x7FFFFFFFFFFFFFFF"
  shows "sint (- n - 1) < 0"
proof -
  have n: "uint n \<le> 0x7FFFFFFFFFFFFFFF" using assms by (simp add: word_less_def)
  have "0 \<le> uint n" by (rule unsigned_greater_eq)
  then have neg: "- uint n - 1 < 0" by linarith
  have "- n - 1 = of_int (- uint n - 1)" by simp
  then have "sint (- n - 1) = signed_take_bit (LENGTH(64) - 1) (- uint n - 1)" by (simp only: sint_sbintrunc')
  also have "\<dots> = - uint n - 1" using n less_trans [OF neg, of "2 ^ 63"]
    by (intro signed_take_bit_int_eq_self) simp_all
  finally show ?thesis using neg by simp
qed

lemma decode_value_sound:
  "decode_value fuel options depth bs = Inr (v, rest) \<Longrightarrow> value_wf v \<and> value_within options depth v"
proof (induction fuel arbitrary: depth bs v rest)
  case (Suc fuel)
  let ?P = "\<lambda>v. value_wf v \<and> value_within options (Suc depth) v"
  from Suc.prems obtain b bs' where d: "depth \<le> cb_max_depth options"
      and maj: "decode_major options (decode_value fuel options (Suc depth)) (decode_value fuel options depth) (drop_bit 5 b) (and b 0x1F) bs'
        = Inr (v, rest)"
    by (auto simp: decode_value.simps split: if_splits)
  have items: "decode_items (decode_value fuel options (Suc depth)) n bs = Inr (vs, rest') \<Longrightarrow> (\<forall>v \<in> set vs. ?P v) \<and> length vs = n"
    for n bs vs rest' by (rule decode_items_all) (rule Suc.IH)
  have members: "decode_fields (decode_value fuel options (Suc depth)) n [] bs = Inr (ms, rest') \<Longrightarrow>
      distinct (map fst ms) \<and> (\<forall>x \<in> set ms. ?P (W_String (fst x)) \<and> ?P (snd x)) \<and> length ms \<le> n"
    for n bs ms rest' using decode_fields_all [of "decode_value fuel options (Suc depth)" ?P n "[]" bs ms rest'] Suc.IH by simp
  have limit: "unat n \<le> unat k" if "\<not> n > k" for n k :: u64 using that by (simp add: word_less_nat_alt)
  consider "drop_bit 5 b = 4" | "drop_bit 5 b = 5" | "drop_bit 5 b = 6" | "drop_bit 5 b = 1"
    | "drop_bit 5 b \<notin> {1, 4, 5, 6}" by blast
  then show ?case
  proof cases
    case 1
    with maj obtain n bs1 vs where n: "\<not> n > cb_max_container_length options"
        and "decode_items (decode_value fuel options (Suc depth)) (unat n) bs1 = Inr (vs, rest)" and v: "v = W_Array vs"
      by (auto split: if_splits)
    then show ?thesis using items [of "unat n" bs1 vs rest] limit [OF n] d unfolding v by simp
  next
    case 2
    with maj obtain n bs1 ms where n: "\<not> n > cb_max_container_length options"
        and "decode_fields (decode_value fuel options (Suc depth)) (unat n) [] bs1 = Inr (ms, rest)" and v: "v = W_Object ms"
      by (auto split: if_splits)
    then show ?thesis using members [of "unat n" bs1 ms rest] order_trans [OF _ limit [OF n]] d unfolding v by auto
  next
    case 3
    then show ?thesis using maj Suc.IH by (auto simp: decode_major_def)
  next
    case 4
    with maj obtain n where n: "\<not> n > 0x7FFFFFFFFFFFFFFF" and v: "v = W_Number (Num_NegInt (- n - 1))"
      by (auto split: if_splits)
    with negative_number [OF n] d show ?thesis by simp
  next
    case 5
    with maj d show ?thesis
      by (auto simp: decode_major_def decode_simple_def number_from_f64_def take_bytes_Inr word_less_nat_alt not_less linorder_not_le [THEN iffD2, OF unat_byte_less]
          split: if_splits)
  qed
qed simp

subsection \<open>Properties of the codec\<close>

text \<open>
  Nothing is lost on the wire: whatever value the encoder accepts under some limits, the decoder
  returns it under the same limits, numbers of every width, nesting and key order included.
\<close>

theorem cbor_round_trip:
  assumes "value_wf v" and "encode v options = Inr bs"
  shows "decode bs options = Inr v"
proof -
  from assms(2) have enc: "encode_value options 0 v = Inr bs" and len: "\<not> exceeds (length bs) (cb_max_byte_length options)"
    by (auto simp: encode_def split: if_splits)
  from decode_encoded(1) [OF enc assms(1), of "Suc (length bs)" "[]"] show ?thesis by (simp add: decode_def len)
qed

definition demo_value :: wire_value where
  "demo_value = W_Object [([0x61], W_Array [W_Number (Num_PosInt 300), W_Number (Num_NegInt (- 300)), W_Null]),
     ([0xC3, 0xA9], W_Number (Num_Float 0x3FF8000000000000))]"

theorem cbor_round_trip_witness:
  "decode (projr (encode demo_value cbor_options_default)) cbor_options_default = Inr demo_value"
proof (rule cbor_round_trip)
  show "value_wf demo_value" by code_simp
  have "\<not> isl (encode demo_value cbor_options_default)" by code_simp
  then show "encode demo_value cbor_options_default = Inr (projr (encode demo_value cbor_options_default))"
    by (simp add: sum.expand)
qed

text \<open>
  C12. Whatever bytes a peer sends, what the decoder accepts is a value the program may hold: strings are
  UTF-8, keys are distinct, floats finite, negative integers negative; and it is within the limits. No
  value lies deeper than the maximal depth, no string or key is longer than the byte limit, no array or
  object holds more than the container limit. The one exception is the array a byte string decodes to:
  it may be as long as a string, its elements are numbers below 256, and they count as no level.
\<close>

theorem decoded_value_legal:
  assumes "decode bs options = Inr v"
  shows "value_wf v \<and> value_within options 0 v"
  using assms decode_value_sound [of "Suc (length bs)" options 0 bs v "[]"] by (auto simp: decode_def split: if_splits)

theorem decoded_value_legal_witness:
  "value_wf (W_Array [W_Number (Num_PosInt 7), W_Object []])
     \<and> value_within (cbor_options_default\<lparr>cb_max_depth := 1, cb_max_container_length := 2\<rparr>) 0
         (W_Array [W_Number (Num_PosInt 7), W_Object []])"
proof -
  have "decode [0x82, 7, 0xA0] (cbor_options_default\<lparr>cb_max_depth := 1, cb_max_container_length := 2\<rparr>)
      = Inr (W_Array [W_Number (Num_PosInt 7), W_Object []])" by code_simp
  then show ?thesis using decoded_value_legal by blast
qed

text \<open>
  Decoding ends, with a result that does not depend on the fuel: one level of recursion per byte is
  enough, and no input exhausts it.
\<close>

theorem decoding_returns:
  "length bs < n \<Longrightarrow> decode_value n options depth bs = decode_value (Suc (length bs)) options depth bs
     \<and> decode bs options \<noteq> Inl Cbor_Out_Of_Fuel"
proof -
  assume n: "length bs < n"
  have "decode_value (Suc (length bs)) options 0 bs \<noteq> Inl Cbor_Out_Of_Fuel"
    using decode_value_fuel [of bs "Suc (length bs)" "Suc (length bs)" options 0] by simp
  then have "decode bs options \<noteq> Inl Cbor_Out_Of_Fuel" by (auto simp: decode_def res_bind_Inl_iff split: if_splits)
  then show ?thesis using decode_value_fuel [OF n, of "Suc (length bs)"] by simp
qed

theorem decoding_returns_witness:
  "decode_value 9 cbor_options_default 0 [0x81, 0xF6] = decode_value 3 cbor_options_default 0 [0x81, 0xF6]"
  using decoding_returns [of "[0x81, 0xF6]" 9 cbor_options_default 0] by (simp add: numeral_eq_Suc)

text \<open>
  C13. The depth limit does not count tags: a value behind \<open>n\<close> tags takes \<open>n + 1\<close> levels of recursion to
  decode and is accepted, even by a decoder that allows no nesting at all.
\<close>

theorem tags_escape_depth_limit:
  "decode_value n options 0 (replicate n 0xC0 @ [0xF6]) = Inl Cbor_Out_Of_Fuel
     \<and> decode_value (Suc n) options 0 (replicate n 0xC0 @ [0xF6]) = Inr (W_Null, [])"
proof (induction n)
  case 0
  show ?case by (simp add: decode_value.simps decode_major_def decode_simple_def)
next
  case (Suc n)
  then show ?case
    by (simp add: decode_value.simps(2) [of n] decode_value.simps(2) [of "Suc n"] decode_major_def read_len_def)
qed

end
