(* ===== verification/Wire_Codec.thy ===== *)
theory Wire_Codec
  imports Wire_Cbor
begin

text \<open>
  The codec of the binary protocol (\<open>crates/evo-protocol/src/codec.rs\<close>): CBOR in frames, and the
  decoder that turns arbitrary chunks of a stream into messages.
\<close>

subsection \<open>Messages\<close>

datatype protocol_error =
    Protocol_Frame framing_error | Protocol_Cbor cbor_error | Protocol_Encode nat nat

definition encode_message_with :: "wire_value \<Rightarrow> cbor_options \<Rightarrow> nat \<Rightarrow> protocol_error + u8 list" where
  "encode_message_with v options max_frame_length =
     res_bind (map_sum Protocol_Cbor id (encode v options)) (\<lambda>payload.
     if length payload > max_frame_length then Inl (Protocol_Encode (length payload) max_frame_length)
     else map_sum Protocol_Frame id (encode_frame payload))"

definition encode_message :: "wire_value \<Rightarrow> protocol_error + u8 list" where
  "encode_message v = encode_message_with v cbor_options_default default_max_frame_length"

definition decode_message :: "u8 list \<Rightarrow> cbor_options \<Rightarrow> nat \<Rightarrow> protocol_error + wire_value" where
  "decode_message frame options max_frame_length =
     res_bind (map_sum Protocol_Frame id (assert_complete_frame frame max_frame_length)) (\<lambda>_.
     map_sum Protocol_Cbor id (decode (drop frame_header_length frame) options))"

record message_decoder =
  md_frames :: frame_decoder
  md_cbor_options :: cbor_options

definition message_decoder_new :: "nat \<Rightarrow> cbor_options \<Rightarrow> message_decoder" where
  "message_decoder_new max_frame_length options =
     \<lparr>md_frames = frame_decoder_new max_frame_length, md_cbor_options = options\<rparr>"

fun decode_payloads :: "cbor_options \<Rightarrow> u8 list list \<Rightarrow> protocol_error + wire_value list" where
  "decode_payloads options [] = Inr []"
| "decode_payloads options (p # ps) =
     res_bind (map_sum Protocol_Cbor id (decode p options)) (\<lambda>v.
     res_bind (decode_payloads options ps) (\<lambda>vs. Inr (v # vs)))"

definition message_push :: "message_decoder \<Rightarrow> u8 list \<Rightarrow> (protocol_error + wire_value list) \<times> message_decoder" where
  "message_push d chunk =
     (case push (md_frames d) chunk of (r, frames) \<Rightarrow>
        (res_bind (map_sum Protocol_Frame id r) (decode_payloads (md_cbor_options d)), d\<lparr>md_frames := frames\<rparr>))"

definition message_end :: "message_decoder \<Rightarrow> (protocol_error + unit) \<times> message_decoder" where
  "message_end d =
     (case decoder_end (md_frames d) of (r, frames) \<Rightarrow> (map_sum Protocol_Frame id r, d\<lparr>md_frames := frames\<rparr>))"

subsection \<open>Streams\<close>

fun message_push_all :: "message_decoder \<Rightarrow> u8 list list \<Rightarrow> (protocol_error + wire_value list) \<times> message_decoder" where
  "message_push_all d [] = (Inr [], d)"
| "message_push_all d (c # cs) =
     (case message_push d c of
        (Inl e, d) \<Rightarrow> (Inl e, d)
      | (Inr vs, d) \<Rightarrow> (case message_push_all d cs of (r, d) \<Rightarrow> (map_sum id (\<lambda>ws. vs @ ws) r, d)))"

lemma map_sum_Inr_iff: "map_sum f g x = Inr y \<longleftrightarrow> (\<exists>z. x = Inr z \<and> y = g z)"
  by (cases x) auto

lemma decode_payloads_append:
  "decode_payloads options (ps @ qs) =
     res_bind (decode_payloads options ps) (\<lambda>vs. res_bind (decode_payloads options qs) (\<lambda>ws. Inr (vs @ ws)))"
proof (induction ps)
  case Nil
  show ?case by (cases "decode_payloads options qs") auto
next
  case (Cons p ps)
  then show ?case
    by (cases "decode p options"; cases "decode_payloads options ps"; cases "decode_payloads options qs") auto
qed

lemma message_push_all_payloads:
  "push_chunks (md_frames d) cs = (ps, None, frames) \<Longrightarrow> decode_payloads (md_cbor_options d) ps = Inr vs \<Longrightarrow>
     message_push_all d cs = (Inr vs, d\<lparr>md_frames := frames\<rparr>)"
proof (induction cs arbitrary: d ps vs)
  case (Cons c cs)
  obtain r f1 where r: "push (md_frames d) c = (r, f1)" by (cases "push (md_frames d) c")
  with Cons.prems(1) obtain ps1 where ps1: "r = Inr ps1" by (cases r) auto
  obtain ps2 e f2 where p2: "push_chunks f1 cs = (ps2, e, f2)" by (cases "push_chunks f1 cs")
  with Cons.prems(1) r ps1 have ps2: "e = None" "ps = ps1 @ ps2" "f2 = frames" by simp_all
  with Cons.prems(2) obtain vs1 vs2 where vs: "decode_payloads (md_cbor_options d) ps1 = Inr vs1"
      "decode_payloads (md_cbor_options d) ps2 = Inr vs2" "vs = vs1 @ vs2"
    by (auto simp: decode_payloads_append)
  from Cons.IH [of "d\<lparr>md_frames := f1\<rparr>" ps2 vs2] p2 ps2 vs(2)
  have "message_push_all (d\<lparr>md_frames := f1\<rparr>) cs = (Inr vs2, d\<lparr>md_frames := frames\<rparr>)" by simp
  then show ?case using r ps1 vs by (simp add: message_push_def)
qed simp

lemma encode_message_Inr:
  "encode_message_with v options n = Inr f \<longleftrightarrow>
     (\<exists>p. encode v options = Inr p \<and> length p \<le> n \<and> encode_frame p = Inr f)"
  by (cases "encode v options") (auto simp: encode_message_with_def map_sum_Inr_iff split: if_splits)

lemma encoded_messages:
  assumes "map (\<lambda>v. encode_message_with v options n) vs = map Inr fs" and "\<forall>v \<in> set vs. value_wf v"
  shows "\<exists>ps. map encode_frame ps = map Inr fs \<and> (\<forall>p \<in> set ps. length p \<le> n) \<and> decode_payloads options ps = Inr vs"
  using assms
proof (induction vs arbitrary: fs)
  case (Cons v vs)
  then obtain f gs where fs: "fs = f # gs" "encode_message_with v options n = Inr f"
      "map (\<lambda>v. encode_message_with v options n) vs = map Inr gs"
    by (cases fs) auto
  from fs(2) obtain p where p: "encode v options = Inr p" "length p \<le> n" "encode_frame p = Inr f"
    by (auto simp: encode_message_Inr)
  have "decode p options = Inr v"
    using p(1) Cons.prems(2) decode_encoded(1) [of options 0 v p "Suc (length p)" "[]"]
    by (auto simp: encode_def decode_def split: if_splits)
  moreover from Cons.IH [OF fs(3)] Cons.prems(2) obtain ps where
      "map encode_frame ps = map Inr gs" "\<forall>p \<in> set ps. length p \<le> n" "decode_payloads options ps = Inr vs"
    by auto
  ultimately show ?case using p fs(1) by (intro exI [of _ "p # ps"]) simp
qed simp

subsection \<open>Properties of the codec\<close>

text \<open>
  C10. Messages survive the wire: the messages one side encodes arrive on the other side, all and in
  order, however the transport cuts the stream into chunks, and the end of the stream is accepted.
\<close>

theorem message_stream_round_trip:
  assumes "map (\<lambda>v. encode_message_with v options n) vs = map Inr fs" and "\<forall>v \<in> set vs. value_wf v"
    and "concat chunks = concat fs"
  shows "message_push_all (message_decoder_new n options) chunks = (Inr vs, message_decoder_new n options)
     \<and> fst (message_end (message_decoder_new n options)) = Inr ()"
proof -
  from encoded_messages [OF assms(1,2)] obtain ps where
      ps: "map encode_frame ps = map Inr fs" "\<forall>p \<in> set ps. length p \<le> n" "decode_payloads options ps = Inr vs"
    by blast
  have "push_chunks (frame_decoder_new n) chunks = (ps, None, frame_decoder_new n)"
    using feed_frames [OF ps(1,2)] assms(3) by (intro push_chunks_feed) simp_all
  then have "message_push_all (message_decoder_new n options) chunks = (Inr vs, message_decoder_new n options)"
    using message_push_all_payloads [of "message_decoder_new n options" chunks ps "frame_decoder_new n" vs] ps(3)
    by (simp add: message_decoder_new_def)
  then show ?thesis by (simp add: message_end_def message_decoder_new_def decoder_end_def frame_decoder_new_def)
qed

theorem message_stream_round_trip_witness:
  "message_push_all (message_decoder_new 64 cbor_options_default) [[0, 0, 0], [3, 0x82, 1], [0xF6, 0, 0, 0, 1], [0x20]]
     = (Inr [W_Array [W_Number (Num_PosInt 1), W_Null], W_Number (Num_NegInt (- 1))], message_decoder_new 64 cbor_options_default)"
proof -
  let ?vs = "[W_Array [W_Number (Num_PosInt 1), W_Null], W_Number (Num_NegInt (- 1))]"
  have "map (\<lambda>v. encode_message_with v cbor_options_default 64) ?vs = map Inr [[0, 0, 0, 3, 0x82, 1, 0xF6], [0, 0, 0, 1, 0x20]]"
    by code_simp
  from message_stream_round_trip [OF this, of "[[0, 0, 0], [3, 0x82, 1], [0xF6, 0, 0, 0, 1], [0x20]]"] show ?thesis by simp
qed

text \<open>
  C14. A payload that does not decode fails the push of its whole chunk: the messages decoded before it
  and the payloads behind it in the chunk are lost, while the decoder stays open, at the end of the
  chunk, and decodes what comes next.
\<close>

theorem failed_payload_loses_chunk:
  assumes "push (md_frames d) chunk = (Inr (ps @ p # qs), frames)" and "fd_state (md_frames d) = Decoder_Open"
    and "decoder_wf (md_frames d)" and "decode_payloads (md_cbor_options d) ps = Inr vs" and "decode p (md_cbor_options d) = Inl e"
  shows "message_push d chunk = (Inl (Protocol_Cbor e), d\<lparr>md_frames := frames\<rparr>)
     \<and> fd_state frames = Decoder_Open \<and> decoder_wf frames"
proof -
  have "feed_all (md_frames d) chunk = (Inr (ps @ p # qs), frames)"
    using assms(1,2) push_loop_feed [OF assms(3)] by (simp add: push_def)
  from feed_all_keeps [OF assms(3) this] assms(2) have "fd_state frames = Decoder_Open" "decoder_wf frames" by simp_all
  then show ?thesis
    using assms(1,4,5) by (simp add: message_push_def decode_payloads_append)
qed

theorem failed_payload_loses_chunk_witness:
  "message_push (message_decoder_new 64 cbor_options_default) [0, 0, 0, 1, 0xF6, 0, 0, 0, 1, 0xFF, 0, 0, 0, 1, 0xF5]
     = (Inl (Protocol_Cbor (Cbor_Error ''unsupported CBOR simple value'')), message_decoder_new 64 cbor_options_default)"
proof -
  let ?d = "message_decoder_new 64 cbor_options_default"
  have "push_loop [0, 0, 0, 1, 0xF6, 0, 0, 0, 1, 0xFF, 0, 0, 0, 1, 0xF5] (frame_decoder_new 64)
      = (Inr ([[0xF6]] @ [0xFF] # [[0xF5]]), frame_decoder_new 64)"
    by code_simp
  then have "push (md_frames ?d) [0, 0, 0, 1, 0xF6, 0, 0, 0, 1, 0xFF, 0, 0, 0, 1, 0xF5]
      = (Inr ([[0xF6]] @ [0xFF] # [[0xF5]]), frame_decoder_new 64)"
    by (simp add: push_def message_decoder_new_def frame_decoder_new_def)
  moreover have "decode_payloads cbor_options_default [[0xF6]] = Inr [W_Null]" by code_simp
  moreover have "decode [0xFF] cbor_options_default = Inl (Cbor_Error ''unsupported CBOR simple value'')" by code_simp
  ultimately show ?thesis
    using failed_payload_loses_chunk [of ?d _ "[[0xF6]]" "[0xFF]" "[[0xF5]]" "frame_decoder_new 64"]
    by (simp add: message_decoder_new_def)
qed

end
