(* ===== verification/Truncate.thy ===== *)
theory Truncate
  imports Utf8
begin

text \<open>
  Truncation of tool output (\<open>crates/evo-tools/src/truncate.rs\<close>) to whole lines within a limit on
  lines and on bytes, from the head or from the tail. Strings are lists of bytes. The printing of
  sizes is left out.
\<close>

abbreviation lf :: u8 where "lf \<equiv> 0x0A"

definition default_max_lines :: nat where "default_max_lines = 2000"
definition default_max_bytes :: nat where "default_max_bytes = 50 * 1024"
definition grep_max_line_length :: nat where "grep_max_line_length = 500"

subsection \<open>Options and results\<close>

datatype truncation_limit = Limit_Lines | Limit_Bytes

record truncation_options =
  to_max_lines :: "nat option"
  to_max_bytes :: "nat option"

definition truncation_resolve :: "truncation_options \<Rightarrow> nat \<times> nat" where
  "truncation_resolve opts =
     (case to_max_lines opts of None \<Rightarrow> default_max_lines | Some n \<Rightarrow> n,
      case to_max_bytes opts of None \<Rightarrow> default_max_bytes | Some n \<Rightarrow> n)"

record truncation_result =
  tru_content :: "u8 list"
  tru_truncated :: bool
  tru_truncated_by :: "truncation_limit option"
  tru_total_lines :: nat
  tru_total_bytes :: nat
  tru_output_lines :: nat
  tru_output_bytes :: nat
  tru_last_line_partial :: bool
  tru_first_line_exceeds_limit :: bool
  tru_max_lines :: nat
  tru_max_bytes :: nat

subsection \<open>Lines\<close>

text \<open>The pieces between the line feeds, without the empty one behind a final line feed.\<close>

definition split_lines_for_counting :: "u8 list \<Rightarrow> u8 list list" where
  "split_lines_for_counting content =
     (if content = [] then []
      else let parts = split_on lf content in
        if ends_with [lf] content \<and> last parts = [] then butlast parts else parts)"

definition not_truncated :: "u8 list \<Rightarrow> nat \<Rightarrow> nat \<Rightarrow> truncation_result" where
  "not_truncated content max_lines max_bytes =
     (let total_bytes = length content; total_lines = length (split_lines_for_counting content) in
      \<lparr>tru_content = content, tru_truncated = False, tru_truncated_by = None, tru_total_lines = total_lines,
       tru_total_bytes = total_bytes, tru_output_lines = total_lines, tru_output_bytes = total_bytes,
       tru_last_line_partial = False, tru_first_line_exceeds_limit = False,
       tru_max_lines = max_lines, tru_max_bytes = max_bytes\<rparr>)"

subsection \<open>From the head\<close>

text \<open>The loop returns the lines it took, their bytes and the limit it stopped at.\<close>

fun head_loop ::
  "nat \<Rightarrow> nat \<Rightarrow> u8 list list \<Rightarrow> u8 list list \<Rightarrow> nat \<Rightarrow> u8 list list \<times> nat \<times> truncation_limit option" where
  "head_loop max_bytes i [] out count = (out, count, None)"
| "head_loop max_bytes i (l # ls) out count =
     (let line_bytes = length l + (if i > 0 then 1 else 0) in
      if count + line_bytes > max_bytes then (out, count, Some Limit_Bytes)
      else head_loop max_bytes (Suc i) ls (out @ [l]) (count + line_bytes))"

definition truncate_head :: "u8 list \<Rightarrow> truncation_options \<Rightarrow> truncation_result" where
  "truncate_head content opts =
     (case truncation_resolve opts of (max_lines, max_bytes) \<Rightarrow>
      let total_bytes = length content;
          lines = split_lines_for_counting content;
          total_lines = length lines
      in if total_lines \<le> max_lines \<and> total_bytes \<le> max_bytes then not_truncated content max_lines max_bytes
      else if (case lines of [] \<Rightarrow> 0 | l # _ \<Rightarrow> length l) > max_bytes then
        \<lparr>tru_content = [], tru_truncated = True, tru_truncated_by = Some Limit_Bytes, tru_total_lines = total_lines,
         tru_total_bytes = total_bytes, tru_output_lines = 0, tru_output_bytes = 0,
         tru_last_line_partial = False, tru_first_line_exceeds_limit = True,
         tru_max_lines = max_lines, tru_max_bytes = max_bytes\<rparr>
      else case head_loop max_bytes 0 (take (min total_lines max_lines) lines) [] 0 of (out, count, by) \<Rightarrow>
        let by = (if length out \<ge> max_lines \<and> count \<le> max_bytes then Some Limit_Lines else by);
            output_content = join [lf] out
        in \<lparr>tru_content = output_content, tru_truncated = True, tru_truncated_by = by, tru_total_lines = total_lines,
            tru_total_bytes = total_bytes, tru_output_lines = length out, tru_output_bytes = length output_content,
            tru_last_line_partial = False, tru_first_line_exceeds_limit = False,
            tru_max_lines = max_lines, tru_max_bytes = max_bytes\<rparr>)"

subsection \<open>From the tail\<close>

text \<open>
  The cut skips the continuation bytes behind it; the second loop then looks back for a boundary and
  ends at None when there is none down to 0.
\<close>

function skip_continuation :: "u8 list \<Rightarrow> nat \<Rightarrow> nat" where
  "skip_continuation s start =
     (if start < length s \<and> and (s ! start) 0xC0 = 0x80 then skip_continuation s (start + 1) else start)"
  by pat_completeness auto
termination by (relation "measure (\<lambda>(s, start). length s - start)") auto

declare skip_continuation.simps [simp del]

primrec floor_boundary :: "u8 list \<Rightarrow> nat \<Rightarrow> nat option" where
  "floor_boundary s 0 = (if is_char_boundary s 0 then Some 0 else None)"
| "floor_boundary s (Suc start) =
     (if is_char_boundary s (Suc start) then Some (Suc start) else floor_boundary s start)"

definition trim_to_last_utf8_bytes :: "u8 list \<Rightarrow> nat \<Rightarrow> u8 list" where
  "trim_to_last_utf8_bytes s max_bytes =
     (if length s \<le> max_bytes \<or> max_bytes = 0 then (if max_bytes = 0 then [] else s)
      else let start = skip_continuation s (length s - max_bytes) in
        if start \<ge> length s then []
        else case floor_boundary s start of None \<Rightarrow> [] | Some start \<Rightarrow> drop start s)"

text \<open>The loop runs over the lines from the last one; its last result is \<open>last_line_partial\<close>.\<close>

fun tail_loop ::
  "nat \<Rightarrow> nat \<Rightarrow> u8 list list \<Rightarrow> u8 list list \<Rightarrow> nat \<Rightarrow> u8 list list \<times> nat \<times> truncation_limit option \<times> bool" where
  "tail_loop max_lines max_bytes [] out count = (out, count, None, False)"
| "tail_loop max_lines max_bytes (l # ls) out count =
     (if length out < max_lines then
        let line_bytes = length l + (if out = [] then 0 else 1) in
        if count + line_bytes > max_bytes then
          if out = [] then
            let partial = trim_to_last_utf8_bytes l max_bytes in ([partial], length partial, Some Limit_Bytes, True)
          else (out, count, Some Limit_Bytes, False)
        else tail_loop max_lines max_bytes ls (l # out) (count + line_bytes)
      else (out, count, None, False))"

definition count_tail_output_lines :: "u8 list \<Rightarrow> nat \<Rightarrow> nat" where
  "count_tail_output_lines content max_lines = min (length (split_lines_for_counting content)) max_lines"

definition truncate_tail :: "u8 list \<Rightarrow> truncation_options \<Rightarrow> truncation_result" where
  "truncate_tail content opts =
     (case truncation_resolve opts of (max_lines, max_bytes) \<Rightarrow>
      let total_bytes = length content;
          lines = split_lines_for_counting content;
          total_lines = length lines
      in if total_lines \<le> max_lines \<and> total_bytes \<le> max_bytes then not_truncated content max_lines max_bytes
      else case tail_loop max_lines max_bytes (rev lines) [] 0 of (out, count, by, partial) \<Rightarrow>
        let by = (if length out \<ge> max_lines \<and> count \<le> max_bytes then Some Limit_Lines else by);
            output_content =
              (if partial then trim_to_last_utf8_bytes (case lines of [] \<Rightarrow> [] | _ \<Rightarrow> last lines) max_bytes
               else join [lf] out)
        in \<lparr>tru_content = output_content, tru_truncated = True, tru_truncated_by = by, tru_total_lines = total_lines,
            tru_total_bytes = total_bytes,
            tru_output_lines = (if partial then 1 else count_tail_output_lines content max_lines),
            tru_output_bytes = length output_content, tru_last_line_partial = partial,
            tru_first_line_exceeds_limit = False, tru_max_lines = max_lines, tru_max_bytes = max_bytes\<rparr>)"

subsection \<open>One line\<close>

record truncate_line_output =
  tl_text :: "u8 list"
  tl_was_truncated :: bool

definition truncated_marker :: "u8 list" where
  "truncated_marker = map (\<lambda>c. of_nat (of_char c)) ''... [truncated]''"

definition truncate_line :: "u8 list \<Rightarrow> nat \<Rightarrow> truncate_line_output" where
  "truncate_line line max_chars =
     (let chars = utf8_chars line in
      if length chars \<le> max_chars then \<lparr>tl_text = line, tl_was_truncated = False\<rparr>
      else \<lparr>tl_text = concat (take max_chars chars) @ truncated_marker, tl_was_truncated = True\<rparr>)"

definition truncate_line_default :: "u8 list \<Rightarrow> truncate_line_output" where
  "truncate_line_default line = truncate_line line grep_max_line_length"

subsection \<open>Cuts\<close>

lemma continuation_bits: "and b 0xC0 = (0x80 :: u8) \<longleftrightarrow> continuation b"
proof -
  have "list_all (\<lambda>i. (and (word_of_int i) 0xC0 = (0x80 :: u8)) = continuation (word_of_int i)) [0..255]"
    by code_simp
  moreover have "uint b \<in> set [0..255]" using uint_bounded [of b] uint_ge_0 [of b] by simp
  ultimately have "(and (word_of_int (uint b)) 0xC0 = (0x80 :: u8)) = continuation (word_of_int (uint b))"
    unfolding list_all_iff by blast
  then show ?thesis by simp
qed

lemma skip_continuation_eq:
  "skip_continuation s i = i + length (takeWhile continuation (drop i s))"
proof (induction s i rule: skip_continuation.induct)
  case (1 s i)
  show ?case
  proof (cases "i < length s")
    case True
    then have "drop i s = s ! i # drop (Suc i) s" by (simp add: Cons_nth_drop_Suc)
    then show ?thesis using 1 True by (simp add: skip_continuation.simps [of s i] continuation_bits)
  next
    case False
    then show ?thesis by (simp add: skip_continuation.simps [of s i])
  qed
qed

lemma floor_boundary_at: "is_char_boundary s i \<Longrightarrow> floor_boundary s i = Some i"
  by (cases i) auto

lemma boundary_dropWhile:
  "is_char_boundary s (i + length (takeWhile continuation (drop i s)))" if "i \<le> length s"
proof (cases "dropWhile continuation (drop i s)")
  case Nil
  then have "length (takeWhile continuation (drop i s)) = length s - i"
    by (metis append_Nil2 length_drop takeWhile_dropWhile_id)
  then show ?thesis using that by (simp add: is_char_boundary_def)
next
  case (Cons c cs)
  let ?k = "length (takeWhile continuation (drop i s))"
  have eq: "drop (?k + i) s = c # cs" using Cons by (metis drop_drop dropWhile_eq_drop)
  then have "?k + i < length s" by (metis drop_eq_Nil linorder_not_le list.distinct(1))
  moreover have "s ! (?k + i) = c" using eq calculation by (metis hd_drop_conv_nth list.sel(1))
  moreover have "\<not> continuation c" using Cons by (metis hd_dropWhile list.distinct(1) list.sel(1))
  ultimately show ?thesis by (simp add: is_char_boundary_def add.commute)
qed

lemma dropWhile_drop: "dropWhile P (drop i s) = drop (i + length (takeWhile P (drop i s))) s"
  by (metis add.commute drop_drop dropWhile_eq_drop)

text \<open>The trimmed string: the last bytes, less the continuation bytes at their head.\<close>

lemma trim_bytes_eq:
  "trim_to_last_utf8_bytes s n =
     (if n = 0 then [] else if length s \<le> n then s else dropWhile continuation (drop (length s - n) s))"
proof (cases "n = 0 \<or> length s \<le> n")
  case False
  let ?i = "length s - n" let ?k = "length (takeWhile continuation (drop ?i s))"
  have "is_char_boundary s (?i + ?k)" by (rule boundary_dropWhile) simp
  then show ?thesis using False dropWhile_drop [of continuation ?i s]
    by (auto simp: trim_to_last_utf8_bytes_def skip_continuation_eq floor_boundary_at Let_def)
qed (auto simp: trim_to_last_utf8_bytes_def)

subsection \<open>Whole lines\<close>

abbreviation joined_length :: "u8 list list \<Rightarrow> nat" where
  "joined_length ls \<equiv> length (join [lf] ls)"

lemma join_Cons: "join sep (l # ls) = (if ls = [] then l else l @ sep @ join sep ls)"
  by (cases ls) auto

lemma joined_length_snoc:
  "joined_length (ls @ [l]) = joined_length ls + length l + (if ls = [] then 0 else 1)"
  by (induction ls) (auto simp: join_Cons)

lemma joined_length_Cons:
  "joined_length (l # ls) = joined_length ls + length l + (if ls = [] then 0 else 1)"
  by (auto simp: join_Cons)

text \<open>The loops take lines as long as the joined text fits.\<close>

lemma head_loop_takes:
  "joined_length out \<le> n \<Longrightarrow> \<exists>k \<le> length ls.
     head_loop n (length out) ls out (joined_length out)
       = (out @ take k ls, joined_length (out @ take k ls), if k < length ls then Some Limit_Bytes else None)
     \<and> joined_length (out @ take k ls) \<le> n \<and> (k < length ls \<longrightarrow> n < joined_length (out @ take (Suc k) ls))"
proof (induction ls arbitrary: out)
  case (Cons l ls)
  have step: "head_loop n (length out) (l # ls) out (joined_length out) =
      (if joined_length (out @ [l]) > n then (out, joined_length out, Some Limit_Bytes)
       else head_loop n (length (out @ [l])) ls (out @ [l]) (joined_length (out @ [l])))"
    unfolding joined_length_snoc by (simp add: Let_def add.assoc)
  show ?case
  proof (cases "joined_length (out @ [l]) \<le> n")
    case True
    from Cons.IH [OF this] obtain k where k: "k \<le> length ls"
      "head_loop n (length (out @ [l])) ls (out @ [l]) (joined_length (out @ [l]))
         = (out @ l # take k ls, joined_length (out @ l # take k ls), if k < length ls then Some Limit_Bytes else None)"
      "joined_length (out @ l # take k ls) \<le> n" "k < length ls \<longrightarrow> n < joined_length (out @ l # take (Suc k) ls)"
      by auto
    show ?thesis unfolding step using True k by (intro exI [of _ "Suc k"]) simp
  next
    case False
    show ?thesis unfolding step using False Cons.prems by (intro exI [of _ 0]) auto
  qed
qed simp

lemma tail_loop_takes:
  assumes "joined_length out \<le> n" and "length out \<le> m" and "out = [] \<and> ls \<noteq> [] \<and> 0 < m \<Longrightarrow> length (last ls) \<le> n"
  shows "\<exists>k \<le> length ls.
     tail_loop m n (rev ls) out (joined_length out)
       = (drop (length ls - k) ls @ out, joined_length (drop (length ls - k) ls @ out),
          if k < length ls \<and> k + length out < m then Some Limit_Bytes else None, False)
     \<and> k + length out \<le> m \<and> joined_length (drop (length ls - k) ls @ out) \<le> n
     \<and> (k < length ls \<and> k + length out < m \<longrightarrow> n < joined_length (drop (length ls - Suc k) ls @ out))"
  using assms
proof (induction ls arbitrary: out rule: rev_induct)
  case (snoc l ls)
  let ?n = "joined_length (l # out)"
  have n: "?n = joined_length out + (length l + (if out = [] then 0 else 1))" by (simp add: joined_length_Cons)
  show ?case
  proof (cases "length out < m \<and> ?n \<le> n")
    case True
    with snoc.IH [of "l # out"] obtain k where k: "k \<le> length ls"
      "tail_loop m n (rev ls) (l # out) ?n
         = (drop (length ls - k) ls @ l # out, joined_length (drop (length ls - k) ls @ l # out),
            if k < length ls \<and> k + length (l # out) < m then Some Limit_Bytes else None, False)"
      "k + length (l # out) \<le> m" "joined_length (drop (length ls - k) ls @ l # out) \<le> n"
      "k < length ls \<and> k + length (l # out) < m \<longrightarrow> n < joined_length (drop (length ls - Suc k) ls @ l # out)"
      by auto
    have "tail_loop m n (rev (ls @ [l])) out (joined_length out) = tail_loop m n (rev ls) (l # out) ?n"
      using True unfolding n by (simp add: Let_def)
    with k show ?thesis by (intro exI [of _ "Suc k"]) (auto simp: Suc_diff_le)
  next
    case False
    have "out \<noteq> []" if "length out < m" using that False snoc.prems(3) by (auto simp: n)
    then have "tail_loop m n (rev (ls @ [l])) out (joined_length out)
        = (out, joined_length out, if length out < m then Some Limit_Bytes else None, False)"
      using False unfolding n by (auto simp: Let_def)
    with False snoc.prems show ?thesis by (intro exI [of _ 0]) auto
  qed
qed simp

text \<open>What a cut of a line may leave: the longest suffix within the limit that starts at a character.\<close>

definition longest_suffix :: "u8 list \<Rightarrow> nat \<Rightarrow> u8 list \<Rightarrow> bool" where
  "longest_suffix s n t \<longleftrightarrow>
     (\<exists>i. is_char_boundary s i \<and> t = drop i s \<and> length t \<le> n \<and> (\<forall>j<i. is_char_boundary s j \<longrightarrow> n < length s - j))"

lemma trim_longest_suffix: "longest_suffix s n (trim_to_last_utf8_bytes s n)"
proof -
  consider "n = 0" | "0 < n" "length s \<le> n" | "0 < n" "n < length s" by linarith
  then show ?thesis
  proof cases
    case 1
    then show ?thesis unfolding longest_suffix_def trim_bytes_eq
      by (intro exI [of _ "length s"]) (auto simp: is_char_boundary_def)
  next
    case 2
    then show ?thesis unfolding longest_suffix_def trim_bytes_eq
      by (intro exI [of _ 0]) (auto simp: is_char_boundary_def)
  next
    case 3
    let ?i = "length s - n" let ?k = "length (takeWhile continuation (drop ?i s))"
    have k: "?k \<le> n" using length_takeWhile_le [of continuation "drop ?i s"] 3 by simp
    have "n < length s - j" if j: "j < ?i + ?k" "is_char_boundary s j" for j
    proof (rule ccontr)
      assume "\<not> n < length s - j"
      then have le: "?i \<le> j" by simp
      have "takeWhile continuation (drop ?i s) ! (j - ?i) \<in> set (takeWhile continuation (drop ?i s))"
        using le j by (intro nth_mem) simp
      then have "continuation (takeWhile continuation (drop ?i s) ! (j - ?i))" by (rule set_takeWhileD [THEN conjunct2])
      moreover have "takeWhile continuation (drop ?i s) ! (j - ?i) = drop ?i s ! (j - ?i)"
        using le j by (intro takeWhile_nth) simp
      moreover have "drop ?i s ! (j - ?i) = s ! j" using le 3 by simp
      ultimately show False using j le k 3 by (auto simp: is_char_boundary_def)
    qed
    moreover have "trim_to_last_utf8_bytes s n = drop (?i + ?k) s"
      using 3 by (simp add: trim_bytes_eq dropWhile_drop)
    moreover have "is_char_boundary s (?i + ?k)" by (rule boundary_dropWhile) simp
    moreover have "length (drop (?i + ?k) s) \<le> n" by simp
    ultimately show ?thesis unfolding longest_suffix_def by metis
  qed
qed

lemma truncate_head_longest:
  assumes r: "truncation_resolve opts = (m, n)" and cut: "\<not> (length (split_lines_for_counting s) \<le> m \<and> length s \<le> n)"
  shows "\<exists>k \<le> min m (length (split_lines_for_counting s)).
     tru_content (truncate_head s opts) = join [lf] (take k (split_lines_for_counting s))
     \<and> tru_output_lines (truncate_head s opts) = k
     \<and> joined_length (take k (split_lines_for_counting s)) \<le> n
     \<and> (k < m \<and> k < length (split_lines_for_counting s)
         \<longrightarrow> n < joined_length (take (Suc k) (split_lines_for_counting s)))"
proof -
  let ?ls = "split_lines_for_counting s"
  show ?thesis
  proof (cases "(case ?ls of [] \<Rightarrow> 0 | l # _ \<Rightarrow> length l) > n")
    case True
    then have "n < joined_length (take (Suc 0) ?ls)" by (cases ?ls) auto
    with True r cut show ?thesis by (intro exI [of _ 0]) (simp add: truncate_head_def Let_def if_not_P [OF cut])
  next
    case False
    from head_loop_takes [of "[]" n "take (min (length ?ls) m) ?ls"]
    obtain k where k: "k \<le> min (length ?ls) m"
      "head_loop n 0 (take (min (length ?ls) m) ?ls) [] 0
         = (take k ?ls, joined_length (take k ?ls), if k < min (length ?ls) m then Some Limit_Bytes else None)"
      "joined_length (take k ?ls) \<le> n" "k < min (length ?ls) m \<longrightarrow> n < joined_length (take (Suc k) ?ls)"
      by (auto simp: min_def split: if_splits)
    with r cut False show ?thesis by (intro exI [of _ k]) (auto simp: truncate_head_def Let_def)
  qed
qed

lemma truncate_tail_whole:
  assumes r: "truncation_resolve opts = (m, n)" and cut: "\<not> (length (split_lines_for_counting s) \<le> m \<and> length s \<le> n)"
    and "0 < m \<Longrightarrow> split_lines_for_counting s \<noteq> [] \<Longrightarrow> length (last (split_lines_for_counting s)) \<le> n"
  shows "\<exists>k \<le> min m (length (split_lines_for_counting s)).
     tru_content (truncate_tail s opts)
       = join [lf] (drop (length (split_lines_for_counting s) - k) (split_lines_for_counting s))
     \<and> \<not> tru_last_line_partial (truncate_tail s opts)
     \<and> tru_output_lines (truncate_tail s opts) = min (length (split_lines_for_counting s)) m
     \<and> joined_length (drop (length (split_lines_for_counting s) - k) (split_lines_for_counting s)) \<le> n
     \<and> (k < m \<and> k < length (split_lines_for_counting s)
         \<longrightarrow> n < joined_length (drop (length (split_lines_for_counting s) - Suc k) (split_lines_for_counting s)))"
proof -
  let ?ls = "split_lines_for_counting s"
  from tail_loop_takes [of "[]" n m ?ls] assms(3)
  obtain k where k: "k \<le> length ?ls" "k \<le> m"
    "tail_loop m n (rev ?ls) [] 0 = (drop (length ?ls - k) ?ls, joined_length (drop (length ?ls - k) ?ls),
       if k < length ?ls \<and> k < m then Some Limit_Bytes else None, False)"
    "joined_length (drop (length ?ls - k) ?ls) \<le> n"
    "k < length ?ls \<and> k < m \<longrightarrow> n < joined_length (drop (length ?ls - Suc k) ?ls)"
    by auto
  with r cut show ?thesis
    by (intro exI [of _ k]) (auto simp: truncate_tail_def Let_def count_tail_output_lines_def)
qed

lemma truncate_tail_partial:
  assumes r: "truncation_resolve opts = (m, n)" and "0 < m"
    and ls: "split_lines_for_counting s \<noteq> []" "n < length (last (split_lines_for_counting s))"
    and cut: "n < length s"
  shows "tru_content (truncate_tail s opts) = trim_to_last_utf8_bytes (last (split_lines_for_counting s)) n"
    and "tru_last_line_partial (truncate_tail s opts)" and "tru_output_lines (truncate_tail s opts) = 1"
proof -
  let ?ls = "split_lines_for_counting s"
  have rev: "rev ?ls = last ?ls # rev (butlast ?ls)" using append_butlast_last_id [OF ls(1)] by (metis rev_eq_Cons_iff rev_rev_ident)
  have loop: "tail_loop m n (rev ?ls) [] 0 =
      ([trim_to_last_utf8_bytes (last ?ls) n], length (trim_to_last_utf8_bytes (last ?ls) n), Some Limit_Bytes, True)"
    unfolding rev using assms by (simp add: Let_def)
  have "(case ?ls of [] \<Rightarrow> [] | _ \<Rightarrow> last ?ls) = last ?ls" using ls(1) by (cases ?ls) auto
  with loop r cut show "tru_content (truncate_tail s opts) = trim_to_last_utf8_bytes (last ?ls) n"
    and "tru_last_line_partial (truncate_tail s opts)" and "tru_output_lines (truncate_tail s opts) = 1"
    by (simp_all add: truncate_tail_def Let_def)
qed

lemma split_on_length: "l \<in> set (split_on c s) \<Longrightarrow> length l \<le> length s"
  by (induction s arbitrary: l) (auto split: list.splits if_splits intro: le_SucI)

lemma line_length: "l \<in> set (split_lines_for_counting s) \<Longrightarrow> length l \<le> length s"
  by (auto simp: split_lines_for_counting_def Let_def split: if_splits intro: split_on_length dest: in_set_butlastD)

text \<open>
  The reason is missing when all that does not fit is the line feed at the end: every line is kept,
  the result counts as truncated, and neither limit is named.
\<close>

lemma lost_line_feed_has_no_reason:
  assumes "lf \<notin> set s" and "s \<noteq> []" and "truncation_resolve opts = (m, length s)" and "1 < m"
  shows "tru_truncated (truncate_head (s @ [lf]) opts)" and "tru_content (truncate_head (s @ [lf]) opts) = s"
    and "tru_truncated_by (truncate_head (s @ [lf]) opts) = None"
proof -
  have ls: "split_lines_for_counting (s @ [lf]) = [s]"
    using assms(1,2) split_on_append [of lf s "[]"] by (simp add: split_lines_for_counting_def ends_with_def)
  then show "tru_truncated (truncate_head (s @ [lf]) opts)" and "tru_content (truncate_head (s @ [lf]) opts) = s"
    and "tru_truncated_by (truncate_head (s @ [lf]) opts) = None"
    using assms by (simp_all add: truncate_head_def Let_def)
qed

subsection \<open>Properties of truncation\<close>

text \<open>
  Truncation from the head keeps whole lines, as many as the limits on lines and bytes allow: one
  line more would break a limit. What is within the limits is returned as it is.
\<close>

theorem truncate_head_keeps_longest:
  assumes "truncation_resolve opts = (m, n)" and "ls = split_lines_for_counting s" and "r = truncate_head s opts"
  shows "if length ls \<le> m \<and> length s \<le> n then \<not> tru_truncated r \<and> tru_content r = s
     else tru_truncated r \<and> (\<exists>k \<le> min m (length ls).
       tru_content r = join [lf] (take k ls) \<and> tru_output_lines r = k \<and> length (tru_content r) \<le> n
       \<and> (k < m \<and> k < length ls \<longrightarrow> n < length (join [lf] (take (Suc k) ls))))"
proof (cases "length ls \<le> m \<and> length s \<le> n")
  case True
  then show ?thesis using assms by (simp add: truncate_head_def not_truncated_def Let_def)
next
  case False
  have "tru_truncated r" using False assms by (auto simp: truncate_head_def Let_def split: prod.splits)
  with truncate_head_longest [OF assms(1) False [unfolded assms(2)]] False show ?thesis
    unfolding assms(2,3) by auto
qed

theorem truncate_head_keeps_longest_witness:
  "\<exists>k \<le> min 2 3. tru_content (truncate_head [97, lf, 98, 98, lf, 99] \<lparr>to_max_lines = Some 2, to_max_bytes = Some 3\<rparr>)
     = join [lf] (take k [[97], [98, 98], [99]])"
proof -
  have "[[97], [98, 98], [99]] = split_lines_for_counting [97, lf, 98, 98, lf, 99]"
    by (simp add: split_lines_for_counting_def ends_with_def)
  from truncate_head_keeps_longest [of "\<lparr>to_max_lines = Some 2, to_max_bytes = Some 3\<rparr>" 2 3, OF _ this refl]
  have "\<exists>k \<le> min 2 (length [[97], [98, 98], [99 :: u8]]).
      tru_content (truncate_head [97, lf, 98, 98, lf, 99] \<lparr>to_max_lines = Some 2, to_max_bytes = Some 3\<rparr>)
        = join [lf] (take k [[97], [98, 98], [99]])"
    by (simp add: truncation_resolve_def) blast
  then show ?thesis by (simp add: numeral_2_eq_2)
qed



end
