(* ===== verification/Shell_Output.thy ===== *)
theory Shell_Output
  imports Truncate
begin

text \<open>
  The capture of a command's output (\<open>crates/evo-tools/src/shell_output.rs\<close>): the sanitizing of a chunk,
  the rolling tail with its counters and the result of a finished command. The limit of the sandbox on
  inline output is a parameter; the command, its streams and the file that takes the output are outside.
\<close>

subsection \<open>Sanitizing\<close>

text \<open>A string is the list of its characters here, each the list of its bytes.\<close>

abbreviation esc :: "u8 list" where "esc \<equiv> [0x1B]"

fun skip_csi :: "u8 list list \<Rightarrow> u8 list list" where
  "skip_csi [] = []"
| "skip_csi (c # cs) = (if length c = 1 \<and> 0x40 \<le> hd c \<and> hd c \<le> 0x7E then cs else skip_csi cs)"

fun skip_osc :: "u8 list list \<Rightarrow> u8 list list" where
  "skip_osc [] = []"
| "skip_osc (c # cs) =
     (if c = [0x07] then cs
      else if c = esc then (case cs of [] \<Rightarrow> [] | d # ds \<Rightarrow> if d = [0x5C] then ds else cs)
      else skip_osc cs)"

definition skip_escape_sequence :: "u8 list list \<Rightarrow> u8 list list" where
  "skip_escape_sequence cs =
     (case cs of
        [] \<Rightarrow> []
      | c # cs \<Rightarrow>
          if c = [0x5B] then skip_csi cs
          else if c = [0x5D] then skip_osc cs
          else if c = [0x28] \<or> c = [0x29] then drop 1 cs
          else cs)"

lemma skip_csi_length: "length (skip_csi cs) \<le> length cs"
  by (induction cs) auto

lemma skip_osc_length: "length (skip_osc cs) \<le> length cs"
proof (induction cs)
  case (Cons c cs)
  have "length (case cs of [] \<Rightarrow> [] | d # ds \<Rightarrow> if d = [0x5C] then ds else cs) \<le> Suc (length cs)"
    by (simp split: list.split)
  with Cons show ?case by simp
qed simp

lemma skip_escape_length: "length (skip_escape_sequence cs) \<le> length cs"
  by (cases cs) (simp_all add: skip_escape_sequence_def le_SucI skip_csi_length skip_osc_length)

definition control :: "u8 list \<Rightarrow> bool" where
  "control c \<longleftrightarrow> length c = 1 \<and> hd c \<le> 0x1F"

text \<open>The characters from U+FFF9 to U+FFFB.\<close>

definition interlinear :: "u8 list \<Rightarrow> bool" where
  "interlinear c \<longleftrightarrow> length c = 3 \<and> take 2 c = [0xEF, 0xBF] \<and> 0xB9 \<le> c ! 2 \<and> c ! 2 \<le> 0xBB"

function sanitize_chars :: "u8 list list \<Rightarrow> u8 list list" where
  "sanitize_chars [] = []"
| "sanitize_chars (c # cs) =
     (if c = esc then sanitize_chars (skip_escape_sequence cs)
      else if c \<in> {[0x09], [0x0A], [0x0D]} then c # sanitize_chars cs
      else if control c then sanitize_chars cs
      else if interlinear c then sanitize_chars cs
      else c # sanitize_chars cs)"
  by pat_completeness auto
termination by (relation "measure length") (auto simp: le_imp_less_Suc skip_escape_length)

definition sanitize_and_strip_cr :: "u8 list \<Rightarrow> u8 list" where
  "sanitize_and_strip_cr chunk =
     concat (filter (\<lambda>c. c \<noteq> [0x0D]) (sanitize_chars (utf8_chars chunk)))"

subsection \<open>Capturing\<close>

record capture_state =
  cap_tail_output :: "u8 list"
  cap_total_bytes :: nat
  cap_completed_lines :: nat
  cap_has_open_line :: bool
  cap_current_line_bytes :: nat
  cap_full_output_path :: "string option"
  cap_full_output_requested :: bool

definition capture_new :: capture_state where
  "capture_new =
     \<lparr>cap_tail_output = [], cap_total_bytes = 0, cap_completed_lines = 0, cap_has_open_line = False,
      cap_current_line_bytes = 0, cap_full_output_path = None, cap_full_output_requested = False\<rparr>"

definition ingest_chunk :: "nat \<Rightarrow> capture_state \<Rightarrow> u8 list \<Rightarrow> capture_state" where
  "ingest_chunk inline_limit s text =
     (let text_bytes = length text;
          s = s\<lparr>cap_total_bytes := cap_total_bytes s + text_bytes,
                cap_completed_lines := cap_completed_lines s + count_list text lf\<rparr>;
          s = (case rposition (\<lambda>b. b = lf) text of
                 Some idx \<Rightarrow>
                   let trailing = drop (idx + 1) text in
                   s\<lparr>cap_current_line_bytes := length trailing, cap_has_open_line := trailing \<noteq> []\<rparr>
               | None \<Rightarrow>
                   if text \<noteq> [] then
                     s\<lparr>cap_current_line_bytes := cap_current_line_bytes s + text_bytes, cap_has_open_line := True\<rparr>
                   else s);
          tail = cap_tail_output s @ text;
          trimmed = trim_to_last_utf8_bytes tail (inline_limit * 2)
      in s\<lparr>cap_tail_output := (if length trimmed \<noteq> length tail then trimmed else tail)\<rparr>)"

record shell_capture_progress =
  sp_output :: "u8 list"
  sp_truncation :: truncation_result
  sp_full_output_path :: "string option"
  sp_last_line_bytes :: nat

definition create_progress :: "nat \<Rightarrow> capture_state \<Rightarrow> shell_capture_progress" where
  "create_progress inline_limit s =
     (let max_bytes = inline_limit;
          tail_truncation = truncate_tail (cap_tail_output s) \<lparr>to_max_lines = None, to_max_bytes = Some max_bytes\<rparr>;
          total_lines = cap_completed_lines s + (if cap_has_open_line s then 1 else 0);
          truncated = (total_lines > default_max_lines \<or> cap_total_bytes s > max_bytes);
          truncated_by =
            (if truncated then
               (case tru_truncated_by tail_truncation of
                  None \<Rightarrow> if cap_total_bytes s > max_bytes then Some Limit_Bytes else Some Limit_Lines
                | by \<Rightarrow> by)
             else None);
          truncation = tail_truncation\<lparr>tru_truncated := truncated, tru_truncated_by := truncated_by,
            tru_total_lines := total_lines, tru_total_bytes := cap_total_bytes s\<rparr>
      in \<lparr>sp_output = (if truncated then tru_content truncation else cap_tail_output s), sp_truncation = truncation,
          sp_full_output_path = cap_full_output_path s, sp_last_line_bytes = cap_current_line_bytes s\<rparr>)"

text \<open>One call of the stream callbacks; both streams share the state.\<close>

definition on_chunk :: "nat \<Rightarrow> capture_state \<Rightarrow> u8 list \<Rightarrow> capture_state" where
  "on_chunk inline_limit s chunk = ingest_chunk inline_limit s (sanitize_and_strip_cr chunk)"

subsection \<open>The result of a command\<close>

datatype execution_error_code =
    Exec_Aborted | Exec_Timeout | Exec_Shell_Unavailable | Exec_Spawn_Error | Exec_Callback_Error | Exec_Unknown

record execution_error =
  xe_code :: execution_error_code
  xe_message :: string
  xe_source_message :: "string option"

record shell_capture_result =
  sr_output :: "u8 list"
  sr_truncation :: truncation_result
  sr_full_output_path :: "string option"
  sr_last_line_bytes :: nat
  sr_exit_code :: "int option"
  sr_cancelled :: bool
  sr_truncated :: bool
  sr_execution_error :: "execution_error option"

text \<open>
  \<open>spill\<close> writes the captured tail to a file and returns its path, or fails; \<open>is_cancelled\<close> is the state
  of the token when the command has ended.
\<close>

definition finish_capture ::
  "nat \<Rightarrow> (u8 list \<Rightarrow> string option) \<Rightarrow> bool \<Rightarrow> bool \<Rightarrow> execution_error + int \<Rightarrow> capture_state \<Rightarrow> execution_error + shell_capture_result" where
  "finish_capture inline_limit spill is_cancelled return_execution_errors exec_result s =
     (let s = (if tru_truncated (sp_truncation (create_progress inline_limit s)) \<and> \<not> cap_full_output_requested s
               then (case spill (cap_tail_output s) of
                       Some path \<Rightarrow> s\<lparr>cap_full_output_path := Some path, cap_full_output_requested := True\<rparr>
                     | None \<Rightarrow> s)
               else s);
          progress = create_progress inline_limit s;
          result = \<lparr>sr_output = sp_output progress, sr_truncation = sp_truncation progress,
            sr_full_output_path = sp_full_output_path progress, sr_last_line_bytes = sp_last_line_bytes progress,
            sr_exit_code = None, sr_cancelled = False, sr_truncated = tru_truncated (sp_truncation progress),
            sr_execution_error = None\<rparr>
      in case exec_result of
           Inr exit_code \<Rightarrow> Inr (result\<lparr>sr_exit_code := if is_cancelled then None else Some exit_code, sr_cancelled := is_cancelled\<rparr>)
         | Inl e \<Rightarrow>
             if xe_code e = Exec_Aborted \<or> is_cancelled then Inr (result\<lparr>sr_cancelled := True\<rparr>)
             else if return_execution_errors then Inr (result\<lparr>sr_execution_error := Some e\<rparr>)
             else Inl e)"

definition execute_shell_with_capture ::
  "nat \<Rightarrow> (u8 list \<Rightarrow> string option) \<Rightarrow> bool \<Rightarrow> bool \<Rightarrow> u8 list list \<Rightarrow> execution_error + int \<Rightarrow> execution_error + shell_capture_result" where
  "execute_shell_with_capture inline_limit spill is_cancelled return_execution_errors chunks exec_result =
     finish_capture inline_limit spill is_cancelled return_execution_errors exec_result
       (foldl (on_chunk inline_limit) capture_new chunks)"

subsection \<open>The rolling tail\<close>

lemma dropWhile_continuation: "\<forall>b \<in> set w. continuation b \<Longrightarrow> starts_char t \<Longrightarrow> dropWhile continuation (w @ t) = t"
  by (cases t) (auto simp: dropWhile_append starts_char_def)

lemma starts_char_dropWhile: "starts_char (dropWhile continuation s @ t)" if "starts_char t"
proof (cases "dropWhile continuation s")
  case Nil
  then show ?thesis using that by (simp only: append_Nil)
next
  case (Cons a l)
  then have "\<not> continuation a" using hd_dropWhile [of continuation s] by simp
  then show ?thesis unfolding Cons by (simp add: starts_char_def)
qed

lemma trim_trim:
  assumes b: "starts_char b"
  shows "trim_to_last_utf8_bytes (trim_to_last_utf8_bytes a n @ b) n = trim_to_last_utf8_bytes (a @ b) n"
proof (cases "n = 0 \<or> length a \<le> n")
  case False
  define p w t where "p = take (length a - n) a" and "w = takeWhile continuation (drop (length a - n) a)"
    and "t = dropWhile continuation (drop (length a - n) a)"
  have a: "a = p @ w @ t" by (simp only: p_def w_def t_def takeWhile_dropWhile_id append_take_drop_id)
  have "length w + length t = length (drop (length a - n) a)"
    unfolding w_def t_def by (metis length_append takeWhile_dropWhile_id)
  then have len: "length p = length a - n" "length w + length t = n" using False by (simp_all add: p_def)
  have w: "\<forall>b \<in> set w. continuation b" by (auto simp: w_def dest: set_takeWhileD)
  have tb: "starts_char (t @ b)" unfolding t_def using b by (rule starts_char_dropWhile)
  have trim: "trim_to_last_utf8_bytes a n = t" using False by (simp add: trim_bytes_eq t_def)
  have drop: "drop (length a + length b - n) (a @ b) = drop (length b) (w @ t @ b)"
    unfolding a using len False by simp
  have rhs: "trim_to_last_utf8_bytes (a @ b) n = dropWhile continuation (drop (length b) (w @ t @ b))"
    using False drop by (simp add: trim_bytes_eq del: drop_append)
  show ?thesis
  proof (cases "length b \<le> length w")
    case True
    have "\<forall>c \<in> set (drop (length b) w). continuation c" using w by (auto dest: in_set_dropD)
    from dropWhile_continuation [OF this tb] True
    have "dropWhile continuation (drop (length b) (w @ t @ b)) = t @ b" by simp
    then show ?thesis using False True len unfolding trim rhs by (simp add: trim_bytes_eq)
  next
    case b_long: False
    then have "length t + length b - n = length b - length w" using len by simp
    with b_long have "drop (length b) (w @ t @ b) = drop (length t + length b - n) (t @ b)" by simp
    then show ?thesis using False b_long len unfolding trim rhs by (simp add: trim_bytes_eq del: drop_append)
  qed
qed (auto simp: trim_bytes_eq)

lemma trim_same: "length (trim_to_last_utf8_bytes s n) = length s \<Longrightarrow> trim_to_last_utf8_bytes s n = s"
proof -
  assume len: "length (trim_to_last_utf8_bytes s n) = length s"
  obtain i where "trim_to_last_utf8_bytes s n = drop i s"
    using trim_longest_suffix [of s n] by (auto simp: longest_suffix_def)
  with len show ?thesis by (cases s; cases i) auto
qed

lemma ingest_tail: "cap_tail_output (ingest_chunk n s text) = trim_to_last_utf8_bytes (cap_tail_output s @ text) (n * 2)"
proof -
  let ?tail = "cap_tail_output s @ text"
  have "cap_tail_output (ingest_chunk n s text) =
      (if length (trim_to_last_utf8_bytes ?tail (n * 2)) \<noteq> length ?tail then trim_to_last_utf8_bytes ?tail (n * 2) else ?tail)"
    by (simp add: ingest_chunk_def Let_def split: option.split)
  also have "\<dots> = trim_to_last_utf8_bytes ?tail (n * 2)" using trim_same [of ?tail "n * 2"] by metis
  finally show ?thesis .
qed

lemma captured_tail:
  "\<forall>c \<in> set chunks. starts_char c \<Longrightarrow>
     cap_tail_output (foldl (ingest_chunk n) capture_new chunks) = trim_to_last_utf8_bytes (concat chunks) (n * 2)"
proof (induction chunks rule: rev_induct)
  case Nil
  show ?case by (simp add: capture_new_def trim_bytes_eq)
next
  case (snoc c cs)
  then show ?case using trim_trim [of c] by (simp add: ingest_tail)
qed

subsection \<open>The counters\<close>

lemma length_split_on: "length (split_on c s) = count_list s c + 1"
  by (induction s) (auto split: list.splits)

lemma last_split_on: "last (split_on c s) = [] \<longleftrightarrow> s = [] \<or> last s = c"
proof (induction s)
  case (Cons a s)
  show ?case
  proof (cases "split_on c s")
    case (Cons p ps)
    have "s = []" if "ps = []" "p = []"
      using Cons that join_split [of c s] by simp
    with Cons Cons.IH show ?thesis by auto
  qed simp
qed simp

lemma split_on_last: "c \<notin> set t \<Longrightarrow> last (split_on c (s @ c # t)) = t"
  by (simp add: split_on_at split_on_free)

lemma ends_with_last: "s \<noteq> [] \<Longrightarrow> ends_with [c] s \<longleftrightarrow> last s = c"
  by (cases s rule: rev_cases) (auto simp: ends_with_def)

lemma lines_cases:
  "s \<noteq> [] \<Longrightarrow> split_lines_for_counting s = (if last s = lf then butlast (split_on lf s) else split_on lf s)"
  using last_split_on [of lf s] by (simp add: split_lines_for_counting_def Let_def ends_with_last)

lemma length_lines: "length (split_lines_for_counting s) = count_list s lf + (if s \<noteq> [] \<and> last s \<noteq> lf then 1 else 0)"
proof (cases "s = []")
  case False
  then show ?thesis unfolding lines_cases [OF False] by (simp add: length_split_on)
qed (simp add: split_lines_for_counting_def)

lemma rposition_split:
  assumes "rposition (\<lambda>b. b = c) s = Some i"
  shows "i < length s" and "s = take i s @ c # drop (Suc i) s" and "c \<notin> set (drop (Suc i) s)"
proof -
  show i: "i < length s" using assms rposition_SomeD by blast
  have "s ! i = c" using assms rposition_SomeD by blast
  then show "s = take i s @ c # drop (Suc i) s" using id_take_nth_drop [OF i] by simp
  show "c \<notin> set (drop (Suc i) s)" using assms rposition_SomeD [OF assms] by (auto simp: in_set_conv_nth)
qed

lemma split_on_append_gen:
  "split_on c (u @ v) = butlast (split_on c u) @ (last (split_on c u) @ hd (split_on c v)) # tl (split_on c v)"
proof (induction u)
  case (Cons a u)
  obtain p ps where u: "split_on c u = p # ps" by (cases "split_on c u") auto
  show ?case using Cons u by (cases ps) auto
qed simp

lemma captured_counters:
  "cap_total_bytes (foldl (ingest_chunk n) capture_new chunks) = length (concat chunks)
   \<and> cap_completed_lines (foldl (ingest_chunk n) capture_new chunks) = count_list (concat chunks) lf
   \<and> (cap_has_open_line (foldl (ingest_chunk n) capture_new chunks)
        \<longleftrightarrow> concat chunks \<noteq> [] \<and> last (concat chunks) \<noteq> lf)
   \<and> cap_current_line_bytes (foldl (ingest_chunk n) capture_new chunks) = length (last (split_on lf (concat chunks)))"
proof (induction chunks rule: rev_induct)
  case Nil
  show ?case by (simp add: capture_new_def)
next
  case (snoc c cs)
  show ?case
  proof (cases "rposition (\<lambda>b. b = lf) c")
    case None
    then have free: "lf \<notin> set c" by (auto simp: rposition_None_iff)
    have line: "last (split_on lf (s @ c)) = last (split_on lf s) @ c" for s
      using split_on_append_gen [of lf s c] free by (simp add: split_on_free)
    have "c \<noteq> [] \<Longrightarrow> last c \<noteq> lf" using free last_in_set by metis
    then show ?thesis using snoc None free line [of "concat cs"]
      by (auto simp: ingest_chunk_def Let_def)
  next
    case (Some i)
    note c = rposition_split [OF Some]
    have "last (split_on lf (concat cs @ c)) = drop (Suc i) c"
      using split_on_last [OF c(3), of "concat cs @ take i c"] c(2) by (metis append.assoc)
    moreover have "drop (Suc i) c \<noteq> [] \<longleftrightarrow> last c \<noteq> lf"
      using c last_in_set [of "drop (Suc i) c"] by (metis last.simps last_appendR list.distinct(1))
    moreover have "c \<noteq> []" using c(1) by auto
    ultimately show ?thesis using snoc Some by (auto simp: ingest_chunk_def Let_def)
  qed
qed

subsection \<open>What the tail determines\<close>

text \<open>The lines of a text end in the lines of any suffix, up to the first one.\<close>

lemma lines_suffix:
  assumes "v \<noteq> []"
  obtains P y x B where "split_lines_for_counting v = x # B" "split_lines_for_counting (u @ v) = P @ (y @ x) # B"
proof -
  define P y where "P = butlast (split_on lf u)" and "y = last (split_on lf u)"
  have py: "split_on lf (u @ v) = P @ (y @ hd (split_on lf v)) # tl (split_on lf v)"
    unfolding P_def y_def by (rule split_on_append_gen)
  obtain x B where xb: "split_on lf v = x # B" by (cases "split_on lf v") auto
  have "B \<noteq> []" if "last v = lf" using that xb assms last_in_set [of v] length_split_on [of lf v]
    by (cases B) (auto simp: count_list_0_iff)
  then show ?thesis
    using py xb assms that [of x "if last v = lf then butlast B else B" P y]
    by (cases "last v = lf") (auto simp: lines_cases butlast_append)
qed

lemma joined_lines: "length v \<le> Suc (joined_length (split_lines_for_counting v))"
proof (cases "v = []")
  case False
  have j: "join [lf] (split_on lf v) = v" by (rule join_split)
  show ?thesis
  proof (cases "last v = lf")
    case True
    then have "split_on lf v = butlast (split_on lf v) @ [[]]"
      using last_split_on [of lf v] append_butlast_last_id [of "split_on lf v"] by simp
    then have "length v = joined_length (butlast (split_on lf v) @ [[]])" using j by metis
    then show ?thesis using True False by (simp add: lines_cases joined_length_snoc split: if_splits)
  qed (use j False in \<open>simp add: lines_cases\<close>)
qed simp

lemma trim_suffix: "n < length x \<Longrightarrow> trim_to_last_utf8_bytes (y @ x) n = trim_to_last_utf8_bytes x n"
  by (simp add: trim_bytes_eq)

lemma tail_loop_suffix:
  "n < joined_length ((x # B) @ out) \<Longrightarrow>
     tail_loop m n (rev B @ x # rest) out (joined_length out) = tail_loop m n (rev B @ (y @ x) # rest') out (joined_length out)"
proof (induction B arbitrary: out rule: rev_induct)
  case Nil
  then have over: "n < joined_length out + (length x + (if out = [] then 0 else 1))"
    by (simp add: joined_length_Cons)
  then show ?case using trim_suffix [of n x y] by (auto simp: Let_def)
next
  case (snoc l B)
  have "joined_length (l # out) = joined_length out + (length l + (if out = [] then 0 else 1))"
    by (simp add: joined_length_Cons)
  with snoc.IH [of "l # out"] snoc.prems show ?case by (simp add: Let_def)
qed

lemma truncate_tail_suffix:
  assumes r: "truncation_resolve opts = (m, n)" and len: "Suc n < length v"
  shows "tru_content (truncate_tail (u @ v) opts) = tru_content (truncate_tail v opts)"
    and "tru_last_line_partial (truncate_tail (u @ v) opts) = tru_last_line_partial (truncate_tail v opts)"
proof -
  from len have "v \<noteq> []" by auto
  then obtain P y x B where ls: "split_lines_for_counting v = x # B" "split_lines_for_counting (u @ v) = P @ (y @ x) # B"
    by (rule lines_suffix)
  have over: "n < joined_length (x # B)" using len joined_lines [of v] ls(1) by simp
  have loop: "tail_loop m n (rev (x # B)) [] 0 = tail_loop m n (rev (P @ (y @ x) # B)) [] 0"
    using tail_loop_suffix [of n x B "[]" m "[]" y "rev P"] over by simp
  have last: "trim_to_last_utf8_bytes (last (P @ (y @ x) # B)) n = trim_to_last_utf8_bytes (last (x # B)) n"
    using over trim_suffix [of n x y] by (cases B) auto
  have cases: "(case ls of [] \<Rightarrow> [] | _ \<Rightarrow> last ls) = last ls" if "ls \<noteq> []" for ls :: "u8 list list"
    using that by (cases ls) auto
  have "tru_content (truncate_tail (u @ v) opts) = tru_content (truncate_tail v opts)
      \<and> tru_last_line_partial (truncate_tail (u @ v) opts) = tru_last_line_partial (truncate_tail v opts)"
    unfolding truncate_tail_def r ls using len last
    by (cases "tail_loop m n (rev (P @ (y @ x) # B)) [] 0") (simp add: Let_def loop cases del: rev.simps rev_append)
  then show "tru_content (truncate_tail (u @ v) opts) = tru_content (truncate_tail v opts)"
    and "tru_last_line_partial (truncate_tail (u @ v) opts) = tru_last_line_partial (truncate_tail v opts)"
    by simp_all
qed

lemma utf8_valid_Cons:
  assumes "utf8_valid (a # bs)"
  obtains n where "n \<le> 3" "takeWhile continuation bs = take n bs" "dropWhile continuation bs = drop n bs"
    "utf8_valid (drop n bs)" "utf8_valid (a # take n bs)" "a \<le> 0x7F \<longleftrightarrow> n = 0"
proof (cases "a \<le> 0x7F")
  case True
  with assms have bs: "utf8_valid bs" by simp
  then have "takeWhile continuation bs = []" "dropWhile continuation bs = bs"
    using utf8_valid_starts [OF bs] by (cases bs; simp add: starts_char_def)+
  with True bs show ?thesis by (intro that [of 0]) auto
next
  case False
  with assms obtain n where n: "utf8_tail a bs = Some n" "utf8_valid (drop n bs)" by (auto split: option.splits)
  note t = utf8_tail_Some [OF n(1)]
  have "takeWhile continuation (take n bs @ drop n bs) = take n bs"
    and "dropWhile continuation (take n bs @ drop n bs) = drop n bs"
    using t(2) utf8_valid_starts [OF n(2)]
    by (cases "drop n bs"; simp add: takeWhile_append dropWhile_append starts_char_def del: append_take_drop_id)+
  moreover have "utf8_valid (a # take n bs)" using False utf8_tail_take [OF n(1), of "[]"] by simp
  moreover have "n \<le> 3 \<and> n \<noteq> 0" using n(1)
    by (induction a bs rule: utf8_tail.induct) (auto split: if_splits list.splits)
  ultimately show ?thesis using False n by (intro that [of n]) auto
qed

lemma utf8_continuation_run: "utf8_valid s \<Longrightarrow> length (takeWhile continuation (drop i s)) \<le> 3"
proof (induction "length s" arbitrary: s i rule: less_induct)
  case less
  show ?case
  proof (cases "i = 0 \<or> s = []")
    case True
    then show ?thesis using utf8_valid_starts [OF less.prems] by (cases s) (auto simp: starts_char_def)
  next
    case False
    then obtain a bs j where s: "s = a # bs" "i = Suc j" by (cases s; cases i) auto
    from utf8_valid_Cons [OF less.prems [unfolded s]] obtain n where
        n: "n \<le> 3" "takeWhile continuation bs = take n bs" "utf8_valid (drop n bs)" by metis
    show ?thesis
    proof (cases "j < n")
      case True
      have "drop j bs = drop j (take n bs) @ drop n bs" using True
        by (metis append_take_drop_id drop_append length_take diff_is_0_eq' drop0 drop_all less_imp_le_nat min.cobounded2 min_def nat_le_linear)
      moreover have "takeWhile continuation (drop j (take n bs) @ drop n bs) = drop j (take n bs)"
        using utf8_valid_starts [OF n(3)] n(2) set_takeWhileD [of _ continuation bs]
        by (cases "drop n bs") (auto simp: takeWhile_append starts_char_def dest!: in_set_dropD)
      ultimately show ?thesis using n(1) by (simp add: s)
    next
      case False
      have "length (drop n bs) < length s" by (simp add: s le_imp_less_Suc)
      from less.hyps [OF this n(3), of "j - n"] False show ?thesis by (simp add: s)
    qed
  qed
qed

lemma utf8_chars_valid:
  "utf8_valid s \<Longrightarrow> c \<in> set (utf8_chars s) \<Longrightarrow> utf8_valid c \<and> c \<noteq> [] \<and> (\<forall>b \<in> set c. c = [b] \<or> 0x80 \<le> b)"
proof (induction s rule: utf8_chars.induct)
  case (2 a bs)
  from utf8_valid_Cons [OF "2.prems"(1)] obtain n where n: "takeWhile continuation bs = take n bs"
      "dropWhile continuation bs = drop n bs" "utf8_valid (drop n bs)" "utf8_valid (a # take n bs)" "a \<le> 0x7F \<longleftrightarrow> n = 0"
    by metis
  have "0x80 \<le> b" if "b \<in> set (take n bs)" for b
    using that set_takeWhileD [of b continuation bs] n(1) by (auto simp: continuation_def)
  moreover have "0x80 \<le> a" if "n \<noteq> 0" using that n(5) by (auto simp: word_le_nat_alt)
  ultimately show ?case using 2 n by (auto simp: n(1,2) split: if_splits)
qed simp

subsection \<open>Sanitized text\<close>

lemma skip_csi_set: "set (skip_csi cs) \<subseteq> set cs"
  by (induction cs) auto

lemma skip_osc_set: "set (skip_osc cs) \<subseteq> set cs"
proof (induction cs)
  case (Cons c cs)
  have "set (case cs of [] \<Rightarrow> [] | d # ds \<Rightarrow> if d = [0x5C] then ds else cs) \<subseteq> set (c # cs)"
    by (auto split: list.split)
  with Cons show ?case by auto
qed simp

lemma skip_escape_set: "set (skip_escape_sequence cs) \<subseteq> set cs"
proof (cases cs)
  case (Cons c ds)
  show ?thesis using set_drop_subset [of 1 ds] unfolding Cons skip_escape_sequence_def
    by (simp add: subset_insertI2 skip_csi_set skip_osc_set subset_insertI)
qed (simp add: skip_escape_sequence_def)

lemma sanitize_chars_set:
  "c \<in> set (sanitize_chars cs) \<Longrightarrow> c \<in> set cs \<and> (control c \<longrightarrow> c \<in> {[0x09], [0x0A], [0x0D]})"
proof (induction cs rule: sanitize_chars.induct)
  case (2 d cs)
  then show ?case using skip_escape_set [of cs] by (auto split: if_splits)
qed simp

lemma sanitized_chars:
  assumes "c \<in> set (filter (\<lambda>c. c \<noteq> [0x0D]) (sanitize_chars (utf8_chars s)))" and "utf8_valid s"
  shows "utf8_valid c" and "\<forall>b \<in> set c. 0x20 \<le> b \<or> b = 0x09 \<or> b = 0x0A"
proof -
  have c: "c \<in> set (utf8_chars s)" "control c \<longrightarrow> c \<in> {[0x09], [0x0A]}"
    using assms(1) sanitize_chars_set [of c "utf8_chars s"] by auto
  note v = utf8_chars_valid [OF assms(2) c(1)]
  then show "utf8_valid c" by simp
  show "\<forall>b \<in> set c. 0x20 \<le> b \<or> b = 0x09 \<or> b = 0x0A"
  proof
    fix b assume b: "b \<in> set c"
    show "0x20 \<le> b \<or> b = 0x09 \<or> b = 0x0A"
    proof (cases "c = [b]")
      case True
      then show ?thesis using c(2) by (auto simp: control_def word_le_nat_alt)
    next
      case False
      then have "0x80 \<le> b" using v b by blast
      then show ?thesis by (simp add: word_le_nat_alt)
    qed
  qed
qed

lemma sanitize_valid: "utf8_valid s \<Longrightarrow> utf8_valid (sanitize_and_strip_cr s)"
  unfolding sanitize_and_strip_cr_def by (rule utf8_valid_concat) (use sanitized_chars(1) in blast)

text \<open>Chunks are sanitized one by one, so the body of an escape sequence that is cut stays in the output.\<close>

lemma cut_escape_sequence_leaks:
  "sanitize_and_strip_cr [0x1B, 0x5B, 0x33, 0x31, 0x6D] = []
     \<and> sanitize_and_strip_cr [0x1B] @ sanitize_and_strip_cr [0x5B, 0x33, 0x31, 0x6D] = [0x5B, 0x33, 0x31, 0x6D]"
  by code_simp

subsection \<open>Properties of the capture\<close>

definition capture_options :: "nat \<Rightarrow> truncation_options" where
  "capture_options limit = \<lparr>to_max_lines = None, to_max_bytes = Some limit\<rparr>"

lemma captured_output:
  assumes valid: "\<forall>c \<in> set chunks. utf8_valid c" and limit: "5 \<le> limit"
  defines "s \<equiv> foldl (ingest_chunk limit) capture_new chunks" and "full \<equiv> concat chunks"
  shows "sp_output (create_progress limit s) = tru_content (truncate_tail full (capture_options limit))
     \<and> tru_truncated (sp_truncation (create_progress limit s)) = tru_truncated (truncate_tail full (capture_options limit))
     \<and> tru_total_lines (sp_truncation (create_progress limit s)) = length (split_lines_for_counting full)"
proof -
  let ?T = "\<lambda>t. truncate_tail t (capture_options limit)"
  have r: "truncation_resolve (capture_options limit) = (default_max_lines, limit)"
    by (simp add: capture_options_def truncation_resolve_def)
  have tail: "cap_tail_output s = trim_to_last_utf8_bytes full (limit * 2)"
    unfolding s_def full_def using valid utf8_valid_starts by (intro captured_tail) blast
  note n = captured_counters [of limit chunks, folded s_def full_def]
  have lines: "cap_completed_lines s + (if cap_has_open_line s then 1 else 0) = length (split_lines_for_counting full)"
    using n by (simp add: length_lines)
  have trunc: "tru_truncated (?T full) \<longleftrightarrow> default_max_lines < length (split_lines_for_counting full) \<or> limit < length full"
    by (auto simp: truncate_tail_def r Let_def not_truncated_def split: prod.splits)
  have content: "tru_content (?T (cap_tail_output s)) = tru_content (?T full)" if "limit * 2 < length full"
  proof -
    let ?i = "length full - limit * 2" let ?v = "dropWhile continuation (drop ?i full)"
    have "utf8_valid full" unfolding full_def using valid by (rule utf8_valid_concat)
    then have "length (takeWhile continuation (drop ?i full)) \<le> 3" by (rule utf8_continuation_run)
    moreover have "length (takeWhile continuation (drop ?i full)) + length ?v = length (drop ?i full)"
      by (metis length_append takeWhile_dropWhile_id)
    ultimately have "Suc limit < length ?v" using limit that by simp
    from truncate_tail_suffix(1) [OF r this, of "take ?i full @ takeWhile continuation (drop ?i full)"]
    show ?thesis using that limit by (simp add: tail trim_bytes_eq)
  qed
  have same: "cap_tail_output s = full" if "\<not> limit * 2 < length full" using that limit by (simp add: tail trim_bytes_eq)
  have "sp_output (create_progress limit s) = (if tru_truncated (?T full) then tru_content (?T (cap_tail_output s)) else cap_tail_output s)"
    unfolding create_progress_def Let_def lines trunc using n by (simp add: capture_options_def)
  moreover have "tru_content (?T full) = full" if "\<not> tru_truncated (?T full)"
    using that unfolding trunc by (simp add: truncate_tail_def r Let_def not_truncated_def)
  moreover have "limit * 2 < length full \<Longrightarrow> tru_truncated (?T full)" using trunc by simp
  ultimately have "sp_output (create_progress limit s) = tru_content (?T full)" using content same by metis
  moreover have "tru_truncated (sp_truncation (create_progress limit s)) = tru_truncated (?T full)"
    unfolding trunc using n lines by (simp add: create_progress_def Let_def)
  ultimately show ?thesis using lines by (simp add: create_progress_def Let_def)
qed

lemma foldl_on_chunk: "foldl (on_chunk n) s cs = foldl (ingest_chunk n) s (map sanitize_and_strip_cr cs)"
  by (induction cs arbitrary: s) (simp_all add: on_chunk_def)

text \<open>The path of the file does not show in the snapshot's output.\<close>

lemma create_progress_path:
  "sp_output (create_progress n (s\<lparr>cap_full_output_path := p, cap_full_output_requested := q\<rparr>)) = sp_output (create_progress n s)"
  "sp_truncation (create_progress n (s\<lparr>cap_full_output_path := p, cap_full_output_requested := q\<rparr>)) = sp_truncation (create_progress n s)"
  by (simp_all add: create_progress_def Let_def)

lemma finish_capture_output:
  "finish_capture n spill cancelled errors res s = Inr r \<Longrightarrow>
     sr_output r = sp_output (create_progress n s) \<and> sr_truncation r = sp_truncation (create_progress n s)
     \<and> sr_truncated r = tru_truncated (sp_truncation (create_progress n s))"
  by (auto simp: finish_capture_def Let_def create_progress_path split: sum.splits if_splits option.splits)

text \<open>
  C15. The rolling tail loses nothing that is shown: although at most twice the limit is kept, and trimmed
  after every chunk, the result of a command holds exactly what truncating the whole sanitized
  output from the tail gives, and counts all of its lines, however the output was cut into chunks.
\<close>

theorem capture_shows_truncated_output:
  assumes "execute_shell_with_capture limit spill cancelled errors chunks res = Inr r"
    and "\<forall>c \<in> set chunks. utf8_valid c" and "5 \<le> limit"
  shows "sr_output r = tru_content (truncate_tail (concat (map sanitize_and_strip_cr chunks)) (capture_options limit))
     \<and> sr_truncated r = tru_truncated (truncate_tail (concat (map sanitize_and_strip_cr chunks)) (capture_options limit))
     \<and> tru_total_lines (sr_truncation r)
         = length (split_lines_for_counting (concat (map sanitize_and_strip_cr chunks)))"
proof -
  have "\<forall>c \<in> set (map sanitize_and_strip_cr chunks). utf8_valid c" using assms(2) sanitize_valid by auto
  from captured_output [OF this assms(3)] finish_capture_output [OF assms(1) [unfolded execute_shell_with_capture_def]]
  show ?thesis by (simp add: foldl_on_chunk)
qed

definition demo_chunks :: "u8 list list" where
  "demo_chunks = [[97, lf, 98], [0x1B, 0x5B, 0x31, 0x6D, 98, 98, 98, 98, 98, 98], [98, lf, 0xC3, 0xA9, 99, 13, lf]]"

theorem capture_shows_truncated_output_witness:
  "sr_output (projr (execute_shell_with_capture 5 (\<lambda>_. None) False False demo_chunks (Inr 0))) = [0xC3, 0xA9, 99]"
proof -
  let ?x = "execute_shell_with_capture 5 (\<lambda>_. None) False False demo_chunks (Inr 0)"
  have "\<not> isl ?x" by (simp add: execute_shell_with_capture_def finish_capture_def Let_def)
  then have x: "?x = Inr (projr ?x)" by (simp add: sum.expand)
  have valid: "\<forall>c \<in> set demo_chunks. utf8_valid c" by code_simp
  have full: "concat (map sanitize_and_strip_cr demo_chunks)
      = [97, lf, 98, 98, 98, 98, 98, 98, 98, 98, lf, 0xC3, 0xA9, 99, lf]" by code_simp
  have "tru_content (truncate_tail [97, lf, 98, 98, 98, 98, 98, 98, 98, 98, lf, 0xC3, 0xA9, 99, lf] (capture_options 5))
      = [0xC3, 0xA9, 99]"
    by (simp add: truncate_tail_def capture_options_def truncation_resolve_def default_max_lines_def
        split_lines_for_counting_def ends_with_def not_truncated_def)
  then show ?thesis using capture_shows_truncated_output [OF x valid] full by simp
qed

text \<open>
  The sanitized text of a chunk is UTF-8 and holds no C0 control but tabs and line feeds, so no escape
  character either, whatever sequences the chunk held and wherever it was cut.
\<close>

theorem sanitized_has_no_controls:
  assumes "utf8_valid chunk"
  shows "utf8_valid (sanitize_and_strip_cr chunk)
     \<and> (\<forall>b \<in> set (sanitize_and_strip_cr chunk). 0x20 \<le> b \<or> b = 0x09 \<or> b = 0x0A)"
proof
  show "utf8_valid (sanitize_and_strip_cr chunk)" using assms by (rule sanitize_valid)
  show "\<forall>b \<in> set (sanitize_and_strip_cr chunk). 0x20 \<le> b \<or> b = 0x09 \<or> b = 0x0A"
    unfolding sanitize_and_strip_cr_def set_concat using sanitized_chars(2) [OF _ assms] by blast
qed

theorem sanitized_has_no_controls_witness:
  "\<forall>b \<in> set (sanitize_and_strip_cr [0x1B, 0x5B, 0x33, 0x31, 0x6D, 0xC3, 0xA9, 13, 10, 7]). 0x20 \<le> b \<or> b = 0x09 \<or> b = 0x0A"
proof -
  have "utf8_valid [0x1B, 0x5B, 0x33, 0x31, 0x6D, 0xC3, 0xA9, 13, 10, 7]" by code_simp
  from sanitized_has_no_controls [OF this] show ?thesis by blast
qed

end
