(* ===== verification/Edit_Diff.thy ===== *)
theory Edit_Diff
  imports Rust_Text "HOL-Library.Multiset"
begin

text \<open>
  The engine of the edit tool (\<open>crates/evo-tools/src/tools/edit_diff.rs\<close>, its use in \<open>edit.rs\<close>): the
  line endings of a file, the exact and the fuzzy search for the text to replace, the checks on a batch
  of edits and the two ways of splicing them in. A string is the list of its Unicode scalar values, and
  offsets count them; the code counts bytes, but uses an offset only to cut a string where a match or
  a line begins or ends. NFKC normalization is a parameter; errors keep the numbers of their message.
\<close>

type_synonym scalar = "32 word"
type_synonym chars = "scalar list"

abbreviation lf_char :: scalar where "lf_char \<equiv> 0x0A"
abbreviation cr_char :: scalar where "cr_char \<equiv> 0x0D"

subsection \<open>Searching and replacing\<close>

text \<open>\<open>str::find\<close>, and \<open>str::replace\<close> and \<open>str::matches\<close> for a pattern that is not empty.\<close>

fun find_str :: "'a list \<Rightarrow> 'a list \<Rightarrow> nat option" where
  "find_str p [] = (if p = [] then Some 0 else None)"
| "find_str p (x # xs) = (if starts_with p (x # xs) then Some 0 else map_option Suc (find_str p xs))"

function str_replace :: "'a list \<Rightarrow> 'a list \<Rightarrow> 'a list \<Rightarrow> 'a list" where
  "str_replace p t [] = []"
| "str_replace p t (x # xs) =
     (if p \<noteq> [] \<and> starts_with p (x # xs) then t @ str_replace p t (drop (length p) (x # xs))
      else x # str_replace p t xs)"
  by pat_completeness auto
termination by (relation "measure (\<lambda>(p, t, s). length s)") auto

function count_matches :: "'a list \<Rightarrow> 'a list \<Rightarrow> nat" where
  "count_matches p [] = 0"
| "count_matches p (x # xs) =
     (if p \<noteq> [] \<and> starts_with p (x # xs) then Suc (count_matches p (drop (length p) (x # xs)))
      else count_matches p xs)"
  by pat_completeness auto
termination by (relation "measure (\<lambda>(p, s). length s)") auto

subsection \<open>Line endings\<close>

definition bom_char :: scalar where "bom_char = 0xFEFF"

definition strip_bom :: "chars \<Rightarrow> chars \<times> chars" where
  "strip_bom content = (if starts_with [bom_char] content then ([bom_char], drop 1 content) else ([], content))"

definition detect_line_ending :: "chars \<Rightarrow> chars" where
  "detect_line_ending content =
     (case (find_str [cr_char, lf_char] content, find_str [lf_char] content) of
        (None, None) \<Rightarrow> [lf_char]
      | (Some _, None) \<Rightarrow> [lf_char]
      | (Some crlf, Some lf) \<Rightarrow> if crlf \<le> lf then [cr_char, lf_char] else [lf_char]
      | (None, Some _) \<Rightarrow> [lf_char])"

definition normalize_to_lf :: "chars \<Rightarrow> chars" where
  "normalize_to_lf s = str_replace [cr_char] [lf_char] (str_replace [cr_char, lf_char] [lf_char] s)"

definition restore_line_endings :: "chars \<Rightarrow> chars \<Rightarrow> chars" where
  "restore_line_endings s ending =
     (if ending = [cr_char, lf_char] then str_replace [lf_char] [cr_char, lf_char] s else s)"

subsection \<open>The fuzzy normal form\<close>

text \<open>\<open>char::is_whitespace\<close>.\<close>

definition scalar_whitespace :: "scalar \<Rightarrow> bool" where
  "scalar_whitespace c \<longleftrightarrow>
     0x09 \<le> c \<and> c \<le> 0x0D \<or> c = 0x20 \<or> c = 0x85 \<or> c = 0xA0 \<or> c = 0x1680 \<or> 0x2000 \<le> c \<and> c \<le> 0x200A
     \<or> c = 0x2028 \<or> c = 0x2029 \<or> c = 0x202F \<or> c = 0x205F \<or> c = 0x3000"

definition trim_line_end :: "chars \<Rightarrow> chars" where
  "trim_line_end l = rev (dropWhile scalar_whitespace (rev l))"

definition plain_char :: "scalar \<Rightarrow> scalar" where
  "plain_char c =
     (if 0x2018 \<le> c \<and> c \<le> 0x201B then 0x27
      else if 0x201C \<le> c \<and> c \<le> 0x201F then 0x22
      else if 0x2010 \<le> c \<and> c \<le> 0x2015 \<or> c = 0x2212 then 0x2D
      else if c = 0xA0 \<or> 0x2002 \<le> c \<and> c \<le> 0x200A \<or> c = 0x202F \<or> c = 0x205F \<or> c = 0x3000 then 0x20
      else c)"

definition normalize_for_fuzzy_match :: "(chars \<Rightarrow> chars) \<Rightarrow> chars \<Rightarrow> chars" where
  "normalize_for_fuzzy_match nfkc s =
     map plain_char (join [lf_char] (map trim_line_end (split_on lf_char (nfkc s))))"

text \<open>\<open>fm_index\<close> is None where the code has \<open>found: false\<close>.\<close>

record fuzzy_match_result =
  fm_index :: "nat option"
  fm_match_length :: nat
  fm_used_fuzzy_match :: bool
  fm_content_for_replacement :: chars

definition fuzzy_find_text :: "(chars \<Rightarrow> chars) \<Rightarrow> chars \<Rightarrow> chars \<Rightarrow> fuzzy_match_result" where
  "fuzzy_find_text nfkc content old_text =
     (case find_str old_text content of
        Some idx \<Rightarrow> \<lparr>fm_index = Some idx, fm_match_length = length old_text, fm_used_fuzzy_match = False,
          fm_content_for_replacement = content\<rparr>
      | None \<Rightarrow>
          let fuzzy_content = normalize_for_fuzzy_match nfkc content;
              fuzzy_old = normalize_for_fuzzy_match nfkc old_text
          in case find_str fuzzy_old fuzzy_content of
               Some idx \<Rightarrow> \<lparr>fm_index = Some idx, fm_match_length = length fuzzy_old, fm_used_fuzzy_match = True,
                 fm_content_for_replacement = fuzzy_content\<rparr>
             | None \<Rightarrow> \<lparr>fm_index = None, fm_match_length = 0, fm_used_fuzzy_match = False,
                 fm_content_for_replacement = content\<rparr>)"

definition count_occurrences :: "(chars \<Rightarrow> chars) \<Rightarrow> chars \<Rightarrow> chars \<Rightarrow> nat" where
  "count_occurrences nfkc content old_text =
     (let fc = normalize_for_fuzzy_match nfkc content; fo = normalize_for_fuzzy_match nfkc old_text in
      if fo = [] then 0 else count_matches fo fc)"

subsection \<open>Edits\<close>

record replace_edit =
  re_old_text :: chars
  re_new_text :: chars

record matched_edit =
  me_edit_index :: nat
  me_match_index :: nat
  me_match_length :: nat
  me_new_text :: chars

record apply_result =
  ar_base_content :: chars
  ar_new_content :: chars
  ar_used_fuzzy_match :: bool

datatype edit_error =
    Edit_Empty_Old_Text nat
  | Edit_Not_Found nat
  | Edit_Duplicate nat nat
  | Edit_Overlap nat nat
  | Edit_No_Change
  | Edit_Line_Count
  | Edit_Panic

text \<open>\<open>replace_range\<close>; the sort is stable and in descending order.\<close>

definition replace_range :: "chars \<Rightarrow> nat \<Rightarrow> nat \<Rightarrow> chars \<Rightarrow> chars" where
  "replace_range s i j new = take i s @ new @ drop j s"

definition apply_one :: "chars \<Rightarrow> matched_edit \<Rightarrow> chars" where
  "apply_one s r =
     (let start = me_match_index r; stop = start + me_match_length r in
      if stop \<le> length s then replace_range s start stop (me_new_text r) else s)"

definition apply_replacements :: "chars \<Rightarrow> matched_edit list \<Rightarrow> chars" where
  "apply_replacements content replacements =
     foldl apply_one content (sort_key (\<lambda>r. - int (me_match_index r)) replacements)"

subsection \<open>Replacements that keep the other lines\<close>

fun split_endings :: "chars \<Rightarrow> chars \<Rightarrow> chars list" where
  "split_endings acc [] = (if acc \<noteq> [] then [acc] else [])"
| "split_endings acc (c # cs) =
     (if c = lf_char then (acc @ [c]) # split_endings [] cs else split_endings (acc @ [c]) cs)"

definition split_lines_with_endings :: "chars \<Rightarrow> chars list" where
  "split_lines_with_endings content = split_endings [] content"

fun line_spans_from :: "nat \<Rightarrow> nat \<Rightarrow> chars \<Rightarrow> (nat \<times> nat) list" where
  "line_spans_from start i [] = (if start < i then [(start, i)] else [])"
| "line_spans_from start i (c # cs) =
     (if c = lf_char then (start, i + 1) # line_spans_from (i + 1) (i + 1) cs else line_spans_from start (i + 1) cs)"

definition get_line_spans :: "chars \<Rightarrow> (nat \<times> nat) list" where
  "get_line_spans content = line_spans_from 0 0 content"

definition find_start_line :: "(nat \<times> nat) list \<Rightarrow> nat \<Rightarrow> nat" where
  "find_start_line spans start_offset =
     (case position (\<lambda>(a, b). a \<le> start_offset \<and> start_offset < b) spans of Some i \<Rightarrow> i | None \<Rightarrow> length spans)"

function find_end_line :: "(nat \<times> nat) list \<Rightarrow> nat \<Rightarrow> nat \<Rightarrow> nat" where
  "find_end_line spans end_offset end_line =
     (if end_line < length spans \<and> snd (spans ! (end_line - 1)) < end_offset
      then find_end_line spans end_offset (end_line + 1) else end_line)"
  by pat_completeness auto
termination by (relation "measure (\<lambda>(spans, e, i). length spans - i)") auto

declare find_end_line.simps [simp del]

definition get_replacement_line_range :: "(nat \<times> nat) list \<Rightarrow> nat \<Rightarrow> nat \<Rightarrow> nat \<times> nat" where
  "get_replacement_line_range spans start_offset end_offset =
     (let start_line = find_start_line spans start_offset
      in (start_line, find_end_line spans end_offset (start_line + 1)))"

type_synonym edit_group = "nat \<times> nat \<times> matched_edit list"

definition add_to_groups :: "(nat \<times> nat) list \<Rightarrow> edit_group list \<Rightarrow> matched_edit \<Rightarrow> edit_group list" where
  "add_to_groups spans groups r =
     (case get_replacement_line_range spans (me_match_index r) (me_match_index r + me_match_length r) of
        (start_line, end_line) \<Rightarrow>
          if groups \<noteq> [] \<and> start_line < fst (snd (last groups))
          then butlast groups @ [(fst (last groups), max (fst (snd (last groups))) end_line, snd (snd (last groups)) @ [r])]
          else groups @ [(start_line, end_line, [r])])"

text \<open>Out-of-range line numbers panic.\<close>

fun splice_groups :: "chars list \<Rightarrow> (nat \<times> nat) list \<Rightarrow> chars \<Rightarrow> nat \<Rightarrow> edit_group list \<Rightarrow> edit_error + chars" where
  "splice_groups original spans base idx [] =
     Inr (if idx < length original then concat (drop idx original) else [])"
| "splice_groups original spans base idx ((start_line, end_line, reps) # groups) =
     (if \<not> (start_line < length spans \<and> end_line - 1 < length spans) then Inl Edit_Panic
      else
        let unchanged = (if idx < start_line then concat (take (start_line - idx) (drop idx original)) else []);
            group_start = fst (spans ! start_line);
            group_end = snd (spans ! (end_line - 1));
            slice = take (group_end - group_start) (drop group_start base);
            reps = map (\<lambda>r. r\<lparr>me_match_index := me_match_index r - group_start\<rparr>) reps
        in res_bind (splice_groups original spans base end_line groups) (\<lambda>rest.
           Inr (unchanged @ apply_replacements slice reps @ rest)))"

definition apply_replacements_preserving_unchanged_lines ::
  "chars \<Rightarrow> chars \<Rightarrow> matched_edit list \<Rightarrow> edit_error + chars" where
  "apply_replacements_preserving_unchanged_lines original_content base_content replacements =
     (let original_lines = split_lines_with_endings original_content; base_lines = get_line_spans base_content in
      if length original_lines \<noteq> length base_lines then Inl Edit_Line_Count
      else splice_groups original_lines base_lines base_content 0
             (foldl (add_to_groups base_lines) [] (sort_key me_match_index replacements)))"

subsection \<open>Applying a batch\<close>

definition check_empty :: "nat \<times> replace_edit \<Rightarrow> edit_error + unit" where
  "check_empty p = (case p of (i, e) \<Rightarrow> if re_old_text e = [] then Inl (Edit_Empty_Old_Text i) else Inr ())"

definition match_edit :: "(chars \<Rightarrow> chars) \<Rightarrow> chars \<Rightarrow> matched_edit list \<Rightarrow> nat \<times> replace_edit \<Rightarrow> edit_error + matched_edit list" where
  "match_edit nfkc base matched p =
     (case p of (i, e) \<Rightarrow>
      let m = fuzzy_find_text nfkc base (re_old_text e) in
      case fm_index m of
        None \<Rightarrow> Inl (Edit_Not_Found i)
      | Some idx \<Rightarrow>
          let occurrences = count_occurrences nfkc base (re_old_text e) in
          if occurrences > 1 then Inl (Edit_Duplicate i occurrences)
          else Inr (matched @ [\<lparr>me_edit_index = i, me_match_index = idx, me_match_length = fm_match_length m,
                                me_new_text = re_new_text e\<rparr>]))"

fun check_overlap :: "matched_edit list \<Rightarrow> edit_error + unit" where
  "check_overlap (prev # cur # rest) =
     (if me_match_index prev + me_match_length prev > me_match_index cur
      then Inl (Edit_Overlap (me_edit_index prev) (me_edit_index cur))
      else check_overlap (cur # rest))"
| "check_overlap _ = Inr ()"

definition normalize_edit :: "replace_edit \<Rightarrow> replace_edit" where
  "normalize_edit e = \<lparr>re_old_text = normalize_to_lf (re_old_text e), re_new_text = normalize_to_lf (re_new_text e)\<rparr>"

definition apply_edits_to_normalized_content ::
  "(chars \<Rightarrow> chars) \<Rightarrow> chars \<Rightarrow> replace_edit list \<Rightarrow> edit_error + apply_result" where
  "apply_edits_to_normalized_content nfkc normalized_content edits =
     (let normalized_edits = map normalize_edit edits in
      res_bind (fold_res (\<lambda>_. check_empty) () (enumerate 0 normalized_edits)) (\<lambda>_.
      let used_fuzzy_match =
            list_ex (\<lambda>e. fm_used_fuzzy_match (fuzzy_find_text nfkc normalized_content (re_old_text e))) normalized_edits;
          base = (if used_fuzzy_match then normalize_for_fuzzy_match nfkc normalized_content else normalized_content)
      in
      res_bind (fold_res (match_edit nfkc base) [] (enumerate 0 normalized_edits)) (\<lambda>matched.
      let matched = sort_key me_match_index matched in
      res_bind (check_overlap matched) (\<lambda>_.
      res_bind (if used_fuzzy_match then apply_replacements_preserving_unchanged_lines normalized_content base matched
                else Inr (apply_replacements base matched)) (\<lambda>new_content.
      if normalized_content = new_content then Inl Edit_No_Change
      else Inr \<lparr>ar_base_content = normalized_content, ar_new_content = new_content,
                ar_used_fuzzy_match = used_fuzzy_match\<rparr>)))))"

text \<open>What the edit tool writes for what it has read.\<close>

definition edit_content :: "(chars \<Rightarrow> chars) \<Rightarrow> chars \<Rightarrow> replace_edit list \<Rightarrow> edit_error + chars \<times> apply_result" where
  "edit_content nfkc read edits =
     (case strip_bom read of (bom, content) \<Rightarrow>
      let original_ending = detect_line_ending content; normalized = normalize_to_lf content in
      res_bind (apply_edits_to_normalized_content nfkc normalized edits) (\<lambda>apply.
      Inr (bom @ restore_line_endings (ar_new_content apply) original_ending, apply)))"

subsection \<open>Searching\<close>

lemma find_str_Some: "find_str p s = Some i \<Longrightarrow> i + length p \<le> length s \<and> take (length p) (drop i s) = p"
proof (induction s arbitrary: i)
  case (Cons x xs)
  then show ?case
    by (auto simp: starts_with_def split: if_splits) (metis length_Cons length_take min.bounded_iff order_refl)
qed (auto split: if_splits)

lemma fuzzy_exact:
  "fm_index (fuzzy_find_text nfkc s p) = Some i \<Longrightarrow> \<not> fm_used_fuzzy_match (fuzzy_find_text nfkc s p) \<Longrightarrow>
     find_str p s = Some i \<and> fm_match_length (fuzzy_find_text nfkc s p) = length p"
  by (auto simp: fuzzy_find_text_def Let_def split: option.splits)

subsection \<open>Splicing\<close>

text \<open>A text cut into pieces, each a gap with the text to replace and its replacement, and a tail.\<close>

abbreviation pieces_before :: "('a list \<times> 'a list \<times> 'a list) list \<Rightarrow> 'a list" where
  "pieces_before ps \<equiv> concat (map (\<lambda>(g, old, new). g @ old) ps)"

abbreviation pieces_after :: "('a list \<times> 'a list \<times> 'a list) list \<Rightarrow> 'a list" where
  "pieces_after ps \<equiv> concat (map (\<lambda>(g, old, new). g @ new) ps)"

abbreviation match_end :: "matched_edit \<Rightarrow> nat" where
  "match_end m \<equiv> me_match_index m + me_match_length m"

definition matched_text :: "chars \<Rightarrow> matched_edit \<Rightarrow> chars" where
  "matched_text s m = take (me_match_length m) (drop (me_match_index m) s)"

lemma check_overlap_Cons:
  "check_overlap (m # ms) = Inr () \<longleftrightarrow> (ms = [] \<or> match_end m \<le> me_match_index (hd ms)) \<and> check_overlap ms = Inr ()"
  by (cases ms) auto

lemma check_overlap_sorted:
  "check_overlap ms = Inr () \<Longrightarrow> \<forall>m \<in> set ms. 0 < me_match_length m \<Longrightarrow> sorted_wrt (<) (map me_match_index ms)"
proof (induction ms)
  case (Cons m ms)
  then have IH: "sorted_wrt (<) (map me_match_index ms)" by (simp add: check_overlap_Cons)
  show ?case
  proof (cases ms)
    case (Cons m' ms')
    then have "me_match_index m < me_match_index m'" using Cons.prems(2) iffD1 [OF check_overlap_Cons Cons.prems(1)] by simp
    with IH Cons show ?thesis by (auto intro: less_trans)
  qed simp
qed simp

lemma apply_replacements_sorted:
  assumes "sorted_wrt (<) (map me_match_index ms)"
  shows "apply_replacements s ms = foldr (\<lambda>m s. apply_one s m) ms s"
proof -
  have "distinct (map me_match_index ms)" using assms strict_sorted_iff by blast
  then have "inj_on (\<lambda>m. - int (me_match_index m)) (set ms)" by (auto simp: distinct_map inj_on_def)
  moreover have "sorted (map (\<lambda>m. - int (me_match_index m)) (rev ms))"
    unfolding rev_map [symmetric] sorted_wrt_rev sorted_wrt_map
    using assms [unfolded sorted_wrt_map] by (rule sorted_wrt_mono_rel [rotated]) simp
  ultimately have "sort_key (\<lambda>m. - int (me_match_index m)) ms = rev ms"
    by (intro sort_key_inj_key_eq) auto
  then show ?thesis by (simp add: apply_replacements_def foldl_conv_foldr)
qed

lemma splice_pieces:
  assumes "check_overlap ms = Inr ()" and "\<forall>m \<in> set ms. match_end m \<le> length s"
    and "ms \<noteq> [] \<Longrightarrow> k \<le> me_match_index (hd ms)" and "k \<le> length s"
  shows "\<exists>ps t. map snd ps = map (\<lambda>m. (matched_text s m, me_new_text m)) ms
     \<and> drop k s = pieces_before ps @ t \<and> foldr (\<lambda>m s. apply_one s m) ms s = take k s @ pieces_after ps @ t"
  using assms
proof (induction ms arbitrary: k)
  case Nil
  show ?case by (intro exI [of _ "[]"] exI [of _ "drop k s"]) simp
next
  case (Cons m ms)
  let ?i = "me_match_index m" let ?e = "match_end m"
  from Cons.prems have le: "k \<le> ?i" "?e \<le> length s" by auto
  from Cons.prems have "check_overlap ms = Inr ()" "ms \<noteq> [] \<Longrightarrow> ?e \<le> me_match_index (hd ms)"
    by (auto simp: check_overlap_Cons)
  from Cons.IH [OF this(1) _ this(2) le(2)] Cons.prems(2) obtain ps t where
      ps: "map snd ps = map (\<lambda>m. (matched_text s m, me_new_text m)) ms" "drop ?e s = pieces_before ps @ t"
        "foldr (\<lambda>m s. apply_one s m) ms s = take ?e s @ pieces_after ps @ t" by auto
  have "drop k s = take (?i - k) (drop k s) @ matched_text s m @ drop ?e s"
    using le by (metis add_diff_inverse_nat append_take_drop_id drop_drop linorder_not_le matched_text_def add.commute)
  moreover have "apply_one (take ?e s @ pieces_after ps @ t) m = take ?i s @ me_new_text m @ pieces_after ps @ t"
    using le by (simp add: apply_one_def replace_range_def)
  moreover have "take ?i s = take k s @ take (?i - k) (drop k s)"
    using le by (metis le_add_diff_inverse take_add)
  ultimately show ?case using ps
    by (intro exI [of _ "(take (?i - k) (drop k s), matched_text s m, me_new_text m) # ps"] exI [of _ t]) simp
qed

subsection \<open>The batch\<close>

lemma match_edits:
  "fold_res (match_edit nfkc base) acc (enumerate n es) = Inr ms \<Longrightarrow>
     \<exists>new. ms = acc @ new \<and> list_all2 (\<lambda>e m.
       fm_index (fuzzy_find_text nfkc base (re_old_text e)) = Some (me_match_index m)
       \<and> me_match_length m = fm_match_length (fuzzy_find_text nfkc base (re_old_text e))
       \<and> me_new_text m = re_new_text e \<and> count_occurrences nfkc base (re_old_text e) \<le> 1) es new"
proof (induction es arbitrary: acc n)
  case (Cons e es)
  then obtain acc' where step: "match_edit nfkc base acc (n, e) = Inr acc'"
      "fold_res (match_edit nfkc base) acc' (enumerate (Suc n) es) = Inr ms" by auto
  from step(1) obtain i where i: "fm_index (fuzzy_find_text nfkc base (re_old_text e)) = Some i"
      "acc' = acc @ [\<lparr>me_edit_index = n, me_match_index = i,
         me_match_length = fm_match_length (fuzzy_find_text nfkc base (re_old_text e)), me_new_text = re_new_text e\<rparr>]"
      "count_occurrences nfkc base (re_old_text e) \<le> 1"
    by (auto simp: match_edit_def Let_def split: option.splits if_splits)
  from Cons.IH [OF step(2)] i show ?case by auto
qed simp

lemma check_empty_all:
  "fold_res (\<lambda>_. check_empty) () (enumerate n es) = Inr () \<Longrightarrow> \<forall>e \<in> set es. re_old_text e \<noteq> []"
  by (induction es arbitrary: n) (auto simp: check_empty_def split: if_splits)

lemma apply_edits_Inr:
  assumes "apply_edits_to_normalized_content nfkc content edits = Inr r"
  defines "es \<equiv> map normalize_edit edits"
    and "fuzzy \<equiv> list_ex (\<lambda>e. fm_used_fuzzy_match (fuzzy_find_text nfkc content (re_old_text e))) (map normalize_edit edits)"
  obtains ms where "\<forall>e \<in> set es. re_old_text e \<noteq> []" and "ar_used_fuzzy_match r = fuzzy" and "ar_base_content r = content"
    and "fold_res (match_edit nfkc (if fuzzy then normalize_for_fuzzy_match nfkc content else content)) [] (enumerate 0 es) = Inr ms"
    and "check_overlap (sort_key me_match_index ms) = Inr ()"
    and "(if fuzzy then apply_replacements_preserving_unchanged_lines content (normalize_for_fuzzy_match nfkc content) (sort_key me_match_index ms)
      else Inr (apply_replacements content (sort_key me_match_index ms))) = Inr (ar_new_content r)"
    and "ar_new_content r \<noteq> content"
  using assms check_empty_all [of 0 es]
  by (auto simp: apply_edits_to_normalized_content_def Let_def split: if_splits)

lemma list_all2_mset: "list_all2 (\<lambda>x y. f x = g y) xs ys \<Longrightarrow> image_mset f (mset xs) = image_mset g (mset ys)"
  by (induction rule: list_all2_induct) auto

text \<open>
  C17. An edit that matches exactly changes nothing but the text it replaces: the file falls into gaps and the
  old texts of all edits, each edit once, and the result holds the same gaps with the new texts in their
  place, whatever the order of the batch.
\<close>

theorem exact_edits_splice:
  assumes "apply_edits_to_normalized_content nfkc content edits = Inr r" and "\<not> ar_used_fuzzy_match r"
  shows "\<exists>pieces tail.
     mset (map snd pieces) = mset (map (\<lambda>e. (normalize_to_lf (re_old_text e), normalize_to_lf (re_new_text e))) edits)
     \<and> content = concat (map (\<lambda>(gap, old, new). gap @ old) pieces) @ tail
     \<and> ar_new_content r = concat (map (\<lambda>(gap, old, new). gap @ new) pieces) @ tail"
proof -
  define es where "es = map normalize_edit edits"
  from apply_edits_Inr [OF assms(1)] assms(2) obtain ms where
      ne: "\<forall>e \<in> set es. re_old_text e \<noteq> []"
      and exact: "\<not> list_ex (\<lambda>e. fm_used_fuzzy_match (fuzzy_find_text nfkc content (re_old_text e))) es"
      and ms: "fold_res (match_edit nfkc content) [] (enumerate 0 es) = Inr ms"
      and over: "check_overlap (sort_key me_match_index ms) = Inr ()"
      and new: "apply_replacements content (sort_key me_match_index ms) = ar_new_content r"
    unfolding es_def by (auto split: if_splits)
  define sorted where "sorted = sort_key me_match_index ms"
  have found: "(re_old_text e, re_new_text e) = (matched_text content m, me_new_text m)
      \<and> match_end m \<le> length content \<and> 0 < me_match_length m"
    if "e \<in> set es" and "fm_index (fuzzy_find_text nfkc content (re_old_text e)) = Some (me_match_index m)
        \<and> me_match_length m = fm_match_length (fuzzy_find_text nfkc content (re_old_text e))
        \<and> me_new_text m = re_new_text e \<and> count_occurrences nfkc content (re_old_text e) \<le> 1" for e m
  proof -
    from that exact have "find_str (re_old_text e) content = Some (me_match_index m)" "me_match_length m = length (re_old_text e)"
      using fuzzy_exact [of nfkc content "re_old_text e" "me_match_index m"] by (auto simp: list_ex_iff)
    moreover have "0 < length (re_old_text e)" using that(1) ne by simp
    ultimately show ?thesis using find_str_Some [of "re_old_text e" content "me_match_index m"] that
      by (simp add: matched_text_def)
  qed
  from match_edits [OF ms] have "list_all2 (\<lambda>e m. (re_old_text e, re_new_text e) = (matched_text content m, me_new_text m)
      \<and> match_end m \<le> length content \<and> 0 < me_match_length m) es ms"
    using found by (auto elim!: list.rel_mono_strong)
  then have "list_all2 (\<lambda>e m. (re_old_text e, re_new_text e) = (matched_text content m, me_new_text m)) es ms"
      and bounds: "\<forall>m \<in> set ms. match_end m \<le> length content \<and> 0 < me_match_length m"
    by (auto elim: list.rel_mono_strong simp: list_all2_conv_all_nth in_set_conv_nth)
  note pairs = list_all2_mset [OF this(1)]
  have "sorted_wrt (<) (map me_match_index sorted)"
    using check_overlap_sorted [OF over] bounds by (simp add: sorted_def)
  then have res: "ar_new_content r = foldr (\<lambda>m s. apply_one s m) sorted content"
    using new by (simp add: apply_replacements_sorted sorted_def)
  have "check_overlap sorted = Inr ()" "\<forall>m \<in> set sorted. match_end m \<le> length content"
    using over bounds by (simp_all add: sorted_def)
  from splice_pieces [OF this, of 0]
  have "\<exists>ps t. map snd ps = map (\<lambda>m. (matched_text content m, me_new_text m)) sorted
      \<and> content = pieces_before ps @ t \<and> foldr (\<lambda>m s. apply_one s m) sorted content = pieces_after ps @ t"
    unfolding drop_0 take_0 append_Nil by simp
  then obtain ps t where ps: "map snd ps = map (\<lambda>m. (matched_text content m, me_new_text m)) sorted"
      "content = pieces_before ps @ t" "foldr (\<lambda>m s. apply_one s m) sorted content = pieces_after ps @ t"
    by (elim exE conjE) (rule that)
  have "mset (map (\<lambda>m. (matched_text content m, me_new_text m)) sorted)
      = mset (map (\<lambda>e. (normalize_to_lf (re_old_text e), normalize_to_lf (re_new_text e))) edits)"
    using pairs by (simp add: sorted_def es_def normalize_edit_def comp_def image_mset.compositionality)
  then show ?thesis using ps res by (intro exI [of _ ps] exI [of _ t]) simp
qed

definition demo_edits :: "replace_edit list" where
  "demo_edits = [\<lparr>re_old_text = [99, 100], re_new_text = [120]\<rparr>, \<lparr>re_old_text = [97], re_new_text = [121, 13, 10]\<rparr>]"

theorem exact_edits_splice_witness:
  "\<exists>pieces tail. mset (map snd pieces) = {#([99, 100] :: chars, [120] :: chars), ([97], [121, 10])#}
     \<and> [97, 98, 99, 100, 101] = concat (map (\<lambda>(gap, old, new). gap @ old) pieces) @ tail
     \<and> [121, 10, 98, 120, 101] = concat (map (\<lambda>(gap, old, new). gap @ new) pieces) @ tail"
proof -
  have run: "apply_edits_to_normalized_content (\<lambda>s. s) [97, 98, 99, 100, 101] demo_edits
      = Inr \<lparr>ar_base_content = [97, 98, 99, 100, 101], ar_new_content = [121, 10, 98, 120, 101], ar_used_fuzzy_match = False\<rparr>"
    by code_simp
  have edits: "map (\<lambda>e. (normalize_to_lf (re_old_text e), normalize_to_lf (re_new_text e))) demo_edits
      = [([99, 100], [120]), ([97], [121, 10])]"
    by code_simp
  from exact_edits_splice [OF run] show ?thesis unfolding edits apply_result.simps mset.simps by blast
qed

subsection \<open>Lines\<close>

lemma line_spans_chain:
  "start \<le> i \<Longrightarrow> (line_spans_from start i cs \<noteq> [] \<longrightarrow> fst (line_spans_from start i cs ! 0) = start)
     \<and> (\<forall>k < length (line_spans_from start i cs). fst (line_spans_from start i cs ! k) < snd (line_spans_from start i cs ! k))
     \<and> (\<forall>k. Suc k < length (line_spans_from start i cs) \<longrightarrow>
          fst (line_spans_from start i cs ! Suc k) = snd (line_spans_from start i cs ! k))"
proof (induction start i cs rule: line_spans_from.induct)
  case (2 start i c cs)
  show ?case
  proof (cases "c = lf_char")
    case True
    from "2.IH"(1) [OF True] True "2.prems" show ?thesis by (auto simp: nth_Cons split: nat.splits)
  next
    case False
    from "2.IH"(2) [OF False] False "2.prems" show ?thesis by simp
  qed
qed auto

lemma line_spans:
  assumes "k < length (get_line_spans s)"
  shows "fst (get_line_spans s ! k) < snd (get_line_spans s ! k)"
    and "Suc k < length (get_line_spans s) \<Longrightarrow> fst (get_line_spans s ! Suc k) = snd (get_line_spans s ! k)"
  using assms line_spans_chain [of 0 0 s] by (simp_all add: get_line_spans_def)

lemma line_spans_mono:
  "i \<le> j \<Longrightarrow> j < length (get_line_spans s) \<Longrightarrow> snd (get_line_spans s ! i) \<le> snd (get_line_spans s ! j)"
proof (induction j)
  case (Suc j)
  then show ?case using line_spans [of j s] line_spans(1) [of "Suc j" s]
    by (cases "i = Suc j") auto
qed simp

text \<open>A match touches the line its start lies in and every line that begins before its end.\<close>

definition touches :: "(nat \<times> nat) list \<Rightarrow> matched_edit \<Rightarrow> nat \<Rightarrow> bool" where
  "touches spans m i \<longleftrightarrow> me_match_index m < snd (spans ! i)
     \<and> fst (spans ! i) < max (Suc (me_match_index m)) (match_end m)"

lemma find_end_line_range:
  "n \<le> find_end_line spans e n \<and> (\<forall>i. n \<le> i \<and> i < find_end_line spans e n \<longrightarrow> i < length spans \<and> snd (spans ! (i - 1)) < e)"
proof (induction spans e n rule: find_end_line.induct)
  case (1 spans e n)
  show ?case
  proof (cases "n < length spans \<and> snd (spans ! (n - 1)) < e")
    case True
    then have step: "find_end_line spans e n = find_end_line spans e (n + 1)" by (simp add: find_end_line.simps [of spans e n])
    from "1.IH" [OF True] True show ?thesis unfolding step
      by (metis Suc_eq_plus1 Suc_leI Suc_leD le_neq_implies_less)
  next
    case False
    then have "find_end_line spans e n = n" by (auto simp: find_end_line.simps [of spans e n])
    then show ?thesis by simp
  qed
qed

lemma range_touched:
  assumes "get_replacement_line_range (get_line_spans s) (me_match_index m) (match_end m) = (a, b)"
  shows "a < b" and "a \<le> i \<Longrightarrow> i < b \<Longrightarrow> i < length (get_line_spans s) \<Longrightarrow> touches (get_line_spans s) m i"
proof -
  let ?L = "get_line_spans s"
  from assms have a: "a = find_start_line ?L (me_match_index m)" and b: "b = find_end_line ?L (match_end m) (a + 1)"
    by (auto simp: get_replacement_line_range_def Let_def)
  note range = find_end_line_range [of "a + 1" ?L "match_end m", folded b]
  show "a < b" using range by simp
  assume i: "a \<le> i" "i < b" "i < length ?L"
  then have "a < length ?L" by simp
  then have start: "fst (?L ! a) \<le> me_match_index m" "me_match_index m < snd (?L ! a)"
  proof -
    have "position (\<lambda>(x, y). x \<le> me_match_index m \<and> me_match_index m < y) ?L = Some a"
      using \<open>a < length ?L\<close> unfolding a find_start_line_def by (auto split: option.splits)
    then show "fst (?L ! a) \<le> me_match_index m" and "me_match_index m < snd (?L ! a)"
      by (auto simp: position_Some_iff case_prod_beta)
  qed
  show "touches ?L m i"
  proof (cases "i = a")
    case True
    with start show ?thesis by (simp add: touches_def)
  next
    case False
    with i range have "snd (?L ! (i - 1)) < match_end m" by simp
    moreover have "fst (?L ! i) = snd (?L ! (i - 1))" using line_spans(2) [of "i - 1" s] i False by simp
    moreover have "snd (?L ! a) \<le> snd (?L ! i)" using i by (intro line_spans_mono)
    ultimately show ?thesis using start by (simp add: touches_def)
  qed
qed

subsection \<open>Groups\<close>

definition groups_ok :: "(nat \<times> nat) list \<Rightarrow> matched_edit set \<Rightarrow> edit_group list \<Rightarrow> bool" where
  "groups_ok spans ms groups \<longleftrightarrow> sorted_wrt (\<lambda>g h. fst (snd g) \<le> fst h) groups
     \<and> (\<forall>(a, b, reps) \<in> set groups. a < b \<and> (\<forall>i. a \<le> i \<and> i < b \<and> i < length spans \<longrightarrow> (\<exists>m \<in> ms. touches spans m i)))"

lemma groups_ok_snoc:
  "groups_ok spans ms (gs @ [(a, b, reps)]) \<longleftrightarrow> groups_ok spans ms gs \<and> (\<forall>g \<in> set gs. fst (snd g) \<le> a) \<and> a < b
     \<and> (\<forall>i. a \<le> i \<and> i < b \<and> i < length spans \<longrightarrow> (\<exists>m \<in> ms. touches spans m i))"
  by (auto simp: groups_ok_def sorted_wrt_append)

lemma groups_ok_mono: "groups_ok spans ms gs \<Longrightarrow> groups_ok spans (insert r ms) gs"
  unfolding groups_ok_def by fast

lemma add_to_groups_ok:
  assumes ok: "groups_ok (get_line_spans s) ms groups"
  shows "groups_ok (get_line_spans s) (insert r ms) (add_to_groups (get_line_spans s) groups r)"
proof (cases groups rule: rev_cases)
  case Nil
  obtain a b where ab: "get_replacement_line_range (get_line_spans s) (me_match_index r) (match_end r) = (a, b)" by fastforce
  then have "add_to_groups (get_line_spans s) groups r = [] @ [(a, b, [r])]" using Nil by (simp add: add_to_groups_def)
  then show ?thesis using range_touched [OF ab] by (simp only: groups_ok_snoc) (simp add: groups_ok_def)
next
  case (snoc gs g)
  let ?L = "get_line_spans s"
  obtain a b where ab: "get_replacement_line_range ?L (me_match_index r) (match_end r) = (a, b)" by fastforce
  note t = range_touched [OF ab]
  obtain c d reps where g: "g = (c, d, reps)" by (cases g) auto
  from ok have gs: "groups_ok ?L (insert r ms) gs" "\<forall>g \<in> set gs. fst (snd g) \<le> c" "c < d"
      "\<And>i. c \<le> i \<Longrightarrow> i < d \<Longrightarrow> i < length ?L \<Longrightarrow> \<exists>m \<in> ms. touches ?L m i"
    by (auto simp: snoc g groups_ok_snoc intro: groups_ok_mono)
  show ?thesis
  proof (cases "a < d")
    case True
    have "\<exists>m \<in> insert r ms. touches ?L m i" if "c \<le> i" "i < max d b" "i < length ?L" for i
      using gs(4) [of i] t(2) [of i] that True by (cases "i < d") auto
    moreover have "add_to_groups ?L groups r = gs @ [(c, max d b, reps @ [r])]"
      using True ab by (simp add: snoc g add_to_groups_def)
    ultimately show ?thesis using gs by (simp add: groups_ok_snoc)
  next
    case False
    have "add_to_groups ?L groups r = (gs @ [(c, d, reps)]) @ [(a, b, [r])]"
      using False ab by (simp add: snoc g add_to_groups_def)
    moreover have "\<forall>g \<in> set (gs @ [(c, d, reps)]). fst (snd g) \<le> a" using gs(2,3) False by fastforce
    moreover have "groups_ok ?L (insert r ms) (gs @ [(c, d, reps)])" using ok groups_ok_mono by (simp add: snoc g)
    ultimately show ?thesis using t by (simp only: groups_ok_snoc) blast
  qed
qed

lemma groups_ok_foldl:
  "groups_ok (get_line_spans s) ms groups \<Longrightarrow>
     groups_ok (get_line_spans s) (ms \<union> set rs) (foldl (add_to_groups (get_line_spans s)) groups rs)"
proof (induction rs arbitrary: ms groups)
  case (Cons r rs)
  from Cons.IH [OF add_to_groups_ok [OF Cons.prems, of r]] show ?case by (simp add: insert_commute)
qed simp

text \<open>The lines with some ranges of them replaced.\<close>

fun keep_lines :: "chars list \<Rightarrow> nat \<Rightarrow> (nat \<times> nat \<times> chars) list \<Rightarrow> chars" where
  "keep_lines ls k [] = concat (drop k ls)"
| "keep_lines ls k ((a, b, x) # rs) = concat (take (a - k) (drop k ls)) @ x @ keep_lines ls b rs"

lemma splice_groups_keep:
  "splice_groups ls spans base k groups = Inr out \<Longrightarrow> \<exists>xs. length xs = length groups
     \<and> out = keep_lines ls k (map2 (\<lambda>g x. (fst g, fst (snd g), x)) groups xs)
     \<and> (\<forall>(a, b, reps) \<in> set groups. a < length spans \<and> b - 1 < length spans)"
proof (induction groups arbitrary: k out)
  case (Cons g groups)
  obtain a b reps where g: "g = (a, b, reps)" by (cases g)
  from Cons.prems obtain x rest where rest: "splice_groups ls spans base b groups = Inr rest"
      and out: "out = concat (take (a - k) (drop k ls)) @ x @ rest" and len: "a < length spans" "b - 1 < length spans"
    by (auto simp: g Let_def split: if_splits)
  from Cons.IH [OF rest] obtain xs where "length xs = length groups"
      "rest = keep_lines ls b (map2 (\<lambda>g x. (fst g, fst (snd g), x)) groups xs)"
      "\<forall>(a, b, reps) \<in> set groups. a < length spans \<and> b - 1 < length spans"
    by blast
  then show ?case using out len by (intro exI [of _ "x # xs"]) (simp add: g)
qed auto

lemma map2_in_set: "(a, b, x) \<in> set (map2 (\<lambda>g x. (fst g, fst (snd g), x)) gs xs) \<Longrightarrow> \<exists>reps. (a, b, reps) \<in> set gs"
  by (auto dest!: set_zip_leftD)

lemma sorted_map2:
  "sorted_wrt (\<lambda>g h. fst (snd g) \<le> fst h) gs \<Longrightarrow>
     sorted_wrt (\<lambda>r q. fst (snd r) \<le> fst q) (map2 (\<lambda>g x. (fst g, fst (snd g), x)) gs xs)"
proof (induction gs arbitrary: xs)
  case (Cons g gs)
  have "fst (snd g) \<le> fst h" if "(h, z) \<in> set (zip gs ys)" for h z and ys :: "'c list"
    using Cons.prems set_zip_leftD [OF that] by simp
  with Cons show ?case by (cases xs) fastforce+
qed simp

lemma preserving_keeps_lines:
  assumes "apply_replacements_preserving_unchanged_lines original base ms = Inr out"
  shows "\<exists>rs. out = keep_lines (split_lines_with_endings original) 0 rs
     \<and> sorted_wrt (\<lambda>r q. fst (snd r) \<le> fst q) rs
     \<and> (\<forall>(a, b, x) \<in> set rs. a < b \<and> b \<le> length (split_lines_with_endings original)
         \<and> (\<forall>i. a \<le> i \<and> i < b \<longrightarrow> (\<exists>m \<in> set ms. touches (get_line_spans base) m i)))"
proof -
  let ?L = "get_line_spans base" let ?ls = "split_lines_with_endings original"
  define groups where "groups = foldl (add_to_groups ?L) [] (sort_key me_match_index ms)"
  from assms have len: "length ?ls = length ?L" and run: "splice_groups ?ls ?L base 0 groups = Inr out"
    by (auto simp: apply_replacements_preserving_unchanged_lines_def Let_def groups_def split: if_splits)
  have ok: "groups_ok ?L (set ms) groups"
    using groups_ok_foldl [of base "{}" "[]" "sort_key me_match_index ms"] by (simp add: groups_def groups_ok_def)
  from splice_groups_keep [OF run] obtain xs where xs: "length xs = length groups"
      "out = keep_lines ?ls 0 (map2 (\<lambda>g x. (fst g, fst (snd g), x)) groups xs)"
      "\<forall>(a, b, reps) \<in> set groups. a < length ?L \<and> b - 1 < length ?L" by blast
  have "a < b \<and> b \<le> length ?ls \<and> (\<forall>i. a \<le> i \<and> i < b \<longrightarrow> (\<exists>m \<in> set ms. touches ?L m i))"
    if member: "(a, b, x) \<in> set (map2 (\<lambda>g x. (fst g, fst (snd g), x)) groups xs)" for a b x
  proof -
    from map2_in_set [OF member] obtain reps where g: "(a, b, reps) \<in> set groups" ..
    with xs(3) have "b - 1 < length ?L" by auto
    moreover from g ok have "a < b" "\<forall>i. a \<le> i \<and> i < b \<and> i < length ?L \<longrightarrow> (\<exists>m \<in> set ms. touches ?L m i)"
      by (auto simp: groups_ok_def)
    ultimately show ?thesis using len by auto
  qed
  moreover have "sorted_wrt (\<lambda>r q. fst (snd r) \<le> fst q) (map2 (\<lambda>g x. (fst g, fst (snd g), x)) groups xs)"
    using ok by (intro sorted_map2) (simp add: groups_ok_def)
  ultimately show ?thesis using xs(2)
    by (intro exI [of _ "map2 (\<lambda>g x. (fst g, fst (snd g), x)) groups xs"]) blast
qed

text \<open>Where an edit was found in the text it is applied to.\<close>

definition located :: "(chars \<Rightarrow> chars) \<Rightarrow> chars \<Rightarrow> replace_edit \<Rightarrow> matched_edit \<Rightarrow> bool" where
  "located nfkc base e m \<longleftrightarrow>
     fm_index (fuzzy_find_text nfkc base (normalize_to_lf (re_old_text e))) = Some (me_match_index m)
     \<and> me_match_length m = fm_match_length (fuzzy_find_text nfkc base (normalize_to_lf (re_old_text e)))
     \<and> me_new_text m = normalize_to_lf (re_new_text e)"

text \<open>
  C18. A fuzzy match does not rewrite the file: although the edits are located in a normalized copy, each
  line that no match touches comes out as it was, in its place, with every character the normal form
  would have changed.
\<close>

theorem fuzzy_edits_keep_other_lines:
  assumes "apply_edits_to_normalized_content nfkc content edits = Inr r" and "ar_used_fuzzy_match r"
  shows "\<exists>ms rs. list_all2 (located nfkc (normalize_for_fuzzy_match nfkc content)) edits ms
     \<and> ar_new_content r = keep_lines (split_lines_with_endings content) 0 rs
     \<and> sorted_wrt (\<lambda>r q. fst (snd r) \<le> fst q) rs
     \<and> (\<forall>(a, b, x) \<in> set rs. a < b \<and> b \<le> length (split_lines_with_endings content)
         \<and> (\<forall>i. a \<le> i \<and> i < b \<longrightarrow>
              (\<exists>m \<in> set ms. touches (get_line_spans (normalize_for_fuzzy_match nfkc content)) m i)))"
proof -
  let ?base = "normalize_for_fuzzy_match nfkc content"
  from apply_edits_Inr [OF assms(1)] assms(2) obtain ms where
      ms: "fold_res (match_edit nfkc ?base) [] (enumerate 0 (map normalize_edit edits)) = Inr ms"
      and out: "apply_replacements_preserving_unchanged_lines content ?base (sort_key me_match_index ms) = Inr (ar_new_content r)"
    by (auto split: if_splits)
  from match_edits [OF ms] have "list_all2 (located nfkc ?base) edits ms"
    by (auto simp: list_all2_map1 located_def normalize_edit_def elim: list.rel_mono_strong)
  with preserving_keeps_lines [OF out] show ?thesis unfolding set_sort by blast
qed

subsection \<open>Old texts of white space\<close>

lemma line_spans_hd: "s \<noteq> [] \<Longrightarrow> \<exists>b rest. get_line_spans s = (0, b) # rest \<and> 0 < b"
proof -
  assume "s \<noteq> []"
  have "start < i \<or> start \<le> i \<and> cs \<noteq> [] \<Longrightarrow> line_spans_from start i cs \<noteq> []" for start i cs
    by (induction start i cs rule: line_spans_from.induct) auto
  then have "get_line_spans s \<noteq> []" using \<open>s \<noteq> []\<close> by (simp add: get_line_spans_def)
  then obtain p rest where p: "get_line_spans s = p # rest" by (cases "get_line_spans s") auto
  have "fst p = 0" using line_spans_chain [of 0 0 s] p by (simp add: get_line_spans_def)
  moreover have "0 < snd p" using line_spans(1) [of 0 s] p by simp
  ultimately show ?thesis using p by (cases p) auto
qed

lemma apply_edits_blank:
  assumes old: "normalize_to_lf (re_old_text e) \<noteq> []"
      "normalize_for_fuzzy_match nfkc (normalize_to_lf (re_old_text e)) = []"
    and absent: "find_str (normalize_to_lf (re_old_text e)) content = None"
      "find_str (normalize_to_lf (re_old_text e)) (normalize_for_fuzzy_match nfkc content) = None"
  defines "m \<equiv> \<lparr>me_edit_index = 0, me_match_index = 0, me_match_length = 0, me_new_text = normalize_to_lf (re_new_text e)\<rparr>"
  shows "apply_edits_to_normalized_content nfkc content [e] =
     res_bind (apply_replacements_preserving_unchanged_lines content (normalize_for_fuzzy_match nfkc content) [m]) (\<lambda>new.
     if content = new then Inl Edit_No_Change
     else Inr \<lparr>ar_base_content = content, ar_new_content = new, ar_used_fuzzy_match = True\<rparr>)"
proof -
  let ?base = "normalize_for_fuzzy_match nfkc content" let ?old = "normalize_to_lf (re_old_text e)"
  have empty: "find_str [] s = Some 0" for s :: chars by (cases s) (auto simp: starts_with_def)
  have fuzzy: "fuzzy_find_text nfkc s ?old = \<lparr>fm_index = Some 0, fm_match_length = 0, fm_used_fuzzy_match = True,
      fm_content_for_replacement = normalize_for_fuzzy_match nfkc s\<rparr>" if "find_str ?old s = None" for s
    using that old(2) by (simp add: fuzzy_find_text_def empty)
  show ?thesis
    using old(1) fuzzy [OF absent(1)] fuzzy [OF absent(2)] old(2)
    by (simp add: apply_edits_to_normalized_content_def normalize_edit_def check_empty_def match_edit_def
        count_occurrences_def Let_def m_def cong: if_cong)
qed

lemma preserving_at_start:
  assumes "base \<noteq> []" and "length (split_lines_with_endings content) = length (get_line_spans base)"
    and "me_match_index m = 0" and "me_match_length m = 0"
  shows "apply_replacements_preserving_unchanged_lines content base [m] =
     Inr (me_new_text m @ take (snd (hd (get_line_spans base))) base @ concat (drop 1 (split_lines_with_endings content)))"
proof -
  from line_spans_hd [OF assms(1)] obtain b rest where L: "get_line_spans base = (0, b) # rest" "0 < b" by blast
  have "find_end_line (get_line_spans base) 0 (Suc 0) = Suc 0" by (simp add: find_end_line.simps)
  moreover have "find_start_line (get_line_spans base) 0 = 0" using L by (simp add: find_start_line_def)
  ultimately have "get_replacement_line_range (get_line_spans base) 0 0 = (0, 1)"
    by (simp add: get_replacement_line_range_def Let_def)
  then have "foldl (add_to_groups (get_line_spans base)) [] (sort_key me_match_index [m]) = [(0, 1, [m])]"
    using assms(3,4) by (simp add: add_to_groups_def)
  then show ?thesis
    using assms L by (simp add: apply_replacements_preserving_unchanged_lines_def Let_def apply_replacements_def
        apply_one_def replace_range_def)
qed

text \<open>
  C19. An old text that is white space only is not reported as missing when it is not there. Take a single edit
  whose old text is not empty, normalizes to nothing, and occurs neither in the content nor in the
  content's normalized copy. If content and copy have different numbers of lines, the edit fails with
  the error about the line counts; with the same number and an empty copy (an empty file) it panics.
  Otherwise it counts as a fuzzy match of nothing at the start: the new text is written at the top,
  before the normalized first line and the other lines as they were, unless that is the content itself,
  which is reported as no change. No case reports that the old text was not found.
\<close>

theorem blank_old_text_inserts_at_top:
  assumes "normalize_to_lf (re_old_text e) \<noteq> []" and "find_str (normalize_to_lf (re_old_text e)) content = None"
    and "normalize_for_fuzzy_match nfkc (normalize_to_lf (re_old_text e)) = []"
    and "base = normalize_for_fuzzy_match nfkc content" and "find_str (normalize_to_lf (re_old_text e)) base = None"
    and "new = normalize_to_lf (re_new_text e) @ take (snd (hd (get_line_spans base))) base
      @ concat (drop 1 (split_lines_with_endings content))"
  shows "apply_edits_to_normalized_content nfkc content [e] =
     (if length (split_lines_with_endings content) \<noteq> length (get_line_spans base) then Inl Edit_Line_Count
      else if base = [] then Inl Edit_Panic
      else if content = new then Inl Edit_No_Change
      else Inr \<lparr>ar_base_content = content, ar_new_content = new, ar_used_fuzzy_match = True\<rparr>)"
proof -
  note blank = apply_edits_blank [of e nfkc content, OF assms(1,3,2) assms(5) [unfolded assms(4)], folded assms(4)]
  consider "length (split_lines_with_endings content) \<noteq> length (get_line_spans base)"
    | "length (split_lines_with_endings content) = length (get_line_spans base)" "base = []"
    | "length (split_lines_with_endings content) = length (get_line_spans base)" "base \<noteq> []" by blast
  then show ?thesis
  proof cases
    case 1
    then show ?thesis by (simp add: blank apply_replacements_preserving_unchanged_lines_def Let_def)
  next
    case 2
    then show ?thesis
      by (simp add: blank apply_replacements_preserving_unchanged_lines_def Let_def get_line_spans_def add_to_groups_def
          get_replacement_line_range_def find_start_line_def find_end_line.simps)
  next
    case 3
    then show ?thesis using blank preserving_at_start [of base content] assms(6) by simp
  qed
qed

theorem blank_old_text_inserts_at_top_witness:
  "apply_edits_to_normalized_content (\<lambda>s. s) [97, 32, 10, 98] [\<lparr>re_old_text = [9, 9], re_new_text = [120]\<rparr>]
     = Inr \<lparr>ar_base_content = [97, 32, 10, 98], ar_new_content = [120, 97, 10, 98], ar_used_fuzzy_match = True\<rparr>"
proof -
  let ?e = "\<lparr>re_old_text = [9, 9], re_new_text = [120]\<rparr>"
  have "normalize_to_lf (re_old_text ?e) \<noteq> []" "find_str (normalize_to_lf (re_old_text ?e)) [97, 32, 10, 98] = None"
    "normalize_for_fuzzy_match (\<lambda>s. s) (normalize_to_lf (re_old_text ?e)) = []"
    "[97, 10, 98] = normalize_for_fuzzy_match (\<lambda>s. s) [97, 32, 10, 98]"
    "find_str (normalize_to_lf (re_old_text ?e)) [97, 10, 98] = None"
    "[120, 97, 10, 98] = normalize_to_lf (re_new_text ?e) @ take (snd (hd (get_line_spans [97, 10, 98]))) [97, 10, 98]
      @ concat (drop 1 (split_lines_with_endings [97, 32, 10, 98]))"
    by code_simp+
  note run = blank_old_text_inserts_at_top [OF this]
  have "(length (split_lines_with_endings [97, 32, 10, 98]) \<noteq> length (get_line_spans [97, 10, 98])) = False" by code_simp
  then show ?thesis unfolding run by (simp only: if_False) simp
qed

theorem fuzzy_edits_keep_other_lines_witness:
  "\<exists>ms rs. [97, 32, 10, 120] = keep_lines [[97, 32, 10], [0x2019]] 0 rs
     \<and> (\<forall>(a, b, x) \<in> set rs. \<forall>i. a \<le> i \<and> i < b \<longrightarrow> (\<exists>m \<in> set ms. touches [(0, 2), (2, 3)] m i))"
proof -
  have run: "apply_edits_to_normalized_content (\<lambda>s. s) [97, 32, 10, 0x2019] [\<lparr>re_old_text = [0x27], re_new_text = [120]\<rparr>]
      = Inr \<lparr>ar_base_content = [97, 32, 10, 0x2019], ar_new_content = [97, 32, 10, 120], ar_used_fuzzy_match = True\<rparr>"
    by code_simp
  have lines: "split_lines_with_endings [97, 32, 10, 0x2019] = [[97, 32, 10], [0x2019]]"
    "get_line_spans (normalize_for_fuzzy_match (\<lambda>s. s) [97, 32, 10, 0x2019]) = [(0, 2), (2, 3)]"
    by code_simp+
  from fuzzy_edits_keep_other_lines [OF run] show ?thesis unfolding lines apply_result.simps by blast
qed

subsection \<open>Line endings\<close>

lemma replace_free: "c \<notin> set s \<Longrightarrow> str_replace (c # p) t s = s"
  by (induction "c # p" t s rule: str_replace.induct) (auto simp: starts_with_def)

lemma crlf_text:
  "cr_char \<notin> set t \<Longrightarrow> str_replace [cr_char, lf_char] [lf_char] (str_replace [lf_char] [cr_char, lf_char] t) = t"
proof (induction t)
  case (Cons c t)
  then show ?case by (cases "c = lf_char") (auto simp: starts_with_def)
qed simp

lemma find_crlf:
  "cr_char \<notin> set t \<Longrightarrow> lf_char \<in> set t \<Longrightarrow>
     \<exists>i. find_str [cr_char, lf_char] (str_replace [lf_char] [cr_char, lf_char] t) = Some i
       \<and> find_str [lf_char] (str_replace [lf_char] [cr_char, lf_char] t) = Some (Suc i)"
proof (induction t)
  case (Cons c t)
  show ?case
  proof (cases "c = lf_char")
    case True
    then show ?thesis by (auto simp: starts_with_def)
  next
    case False
    with Cons show ?thesis by (auto simp: starts_with_def)
  qed
qed simp

lemma find_absent: "c \<notin> set s \<Longrightarrow> find_str (c # p) s = None"
  by (induction s) (auto simp: starts_with_def)

text \<open>
  Editing keeps the line endings of a file: a text whose lines all end alike is what restoring its
  endings in its normal form gives.
\<close>

theorem line_endings_round_trip:
  assumes "cr_char \<notin> set t" and "s = t \<or> s = restore_line_endings t [cr_char, lf_char]"
  shows "restore_line_endings (normalize_to_lf s) (detect_line_ending s) = s \<and> normalize_to_lf s = t"
proof -
  have plain: "restore_line_endings (normalize_to_lf t) (detect_line_ending t) = t \<and> normalize_to_lf t = t"
    using assms(1) by (simp add: normalize_to_lf_def replace_free detect_line_ending_def find_absent
        restore_line_endings_def split: option.splits)
  show ?thesis
  proof (cases "lf_char \<in> set t \<and> s \<noteq> t")
    case True
    then have s: "s = str_replace [lf_char] [cr_char, lf_char] t" using assms(2) by (simp add: restore_line_endings_def)
    have "normalize_to_lf s = t" using assms(1) by (simp add: s normalize_to_lf_def crlf_text replace_free)
    moreover have "detect_line_ending s = [cr_char, lf_char]"
      using find_crlf [OF assms(1)] True unfolding s by (auto simp: detect_line_ending_def)
    ultimately show ?thesis by (simp add: s restore_line_endings_def)
  next
    case False
    then have "s = t" using assms(2) by (auto simp: restore_line_endings_def replace_free)
    from plain show ?thesis unfolding \<open>s = t\<close> .
  qed
qed

theorem line_endings_round_trip_witness:
  "restore_line_endings (normalize_to_lf [97, 13, 10, 98]) (detect_line_ending [97, 13, 10, 98]) = [97, 13, 10, 98]"
proof -
  have "[97, 13, 10, 98] = restore_line_endings [97, 10, 98] [cr_char, lf_char]" by code_simp
  from line_endings_round_trip [OF _ disjI2 [OF this], THEN conjunct1] show ?thesis by simp
qed

end
