(* ===== verification/Spec2Isabelle.thy ===== *)
theory Spec2Isabelle
  imports Session_Fork Session_Messages Record_Log Session_Snapshot Session_Context Compaction Mesh_Hub
    Agent_Prompt Agent_Progress Agent_Requests
    Frame_Replay Memory_Storage Wire_Codec Shell_Output Edit_Diff
begin

text \<open>
  The core of evoflux: the agent loop (\<open>src/crates/evo-agent/src/\<close>), the durable session tree it
  works on (\<open>src/crates/evo-harness/src/session/\<close>) with context building and compaction, and the mesh
  that lets sessions talk to each other (\<open>src/crates/evo-mesh/src/\<close>).

  A session is a tree of entries (messages, model changes, compactions, branch summaries, custom
  entries) plus an ordered log of lane records (operations, attempts, frames, tools, queues).
  Storages persist \<open>SessionMutation\<close>s and keep one \<open>SessionState\<close> in memory, which validates every
  mutation and answers every query. A run of the agent sends a transcript to a model, executes the
  tool calls of the reply, appends both and repeats until the model asks for nothing more; the host
  may queue messages meanwhile. Compaction shortens a branch whose context has grown too long.

  Theories, in the order of the code:

  \<^item> \<open>Prelude\<close>: integers at their width, results as sums, folds that stop at the first error,
    binary search, and two contracts: \<open>checked_steps\<close> (a fallible step that keeps an invariant,
    hence so does a replay) and its extension \<open>refined_steps\<close> (the step also refines an abstract
    one, hence so does a replay).
  \<^item> \<open>Json\<close>, \<open>Ai_Types\<close>: JSON values; messages and content blocks (\<open>evo-ai/src/types.rs\<close>,
    \<open>evo-agent/src/message.rs\<close>).
  \<^item> \<open>Session_Types\<close>, \<open>Session_Records\<close>: entries, records, mutations, queries
    (\<open>session/types.rs\<close>, \<open>error.rs\<close>).
  \<^item> \<open>Entry_Meta\<close>: the payload-free index row of an entry (\<open>state/metadata.rs\<close>).
  \<^item> \<open>Session_Index\<close>: \<open>IndexedState\<close> of \<open>state/index.rs\<close>, one definition per method.
    \<open>apply_mutation\<close> is the whole dispatch: sequence check, identifier check, lane chain, parent,
    tables, log, statistics, open operations, frame retirement. An out-of-range index of a vector is
    the error \<open>Index_Panic\<close>, which a later theorem excludes.
  \<^item> \<open>Session_Retire\<close>: the in-place retirement of cleared frames against a filter.
  \<^item> \<open>Session_Wf\<close>, \<open>Session_State\<close>: the invariant \<open>session_wf\<close>, its preservation by every
    operation, reachability (\<open>session_reach\<close>) and the interpretation of \<open>checked_steps\<close>.
  \<^item> \<open>Session_Demo\<close>: one concrete session, replayed by evaluation, used by the witnesses.
  \<^item> \<open>Session_History\<close>: the abstract specification. A history is the resolved log; a mutation
    is accepted exactly when \<open>accepts\<close> says so; the replay refines \<open>history_step\<close>; every table of
    the state is a function of the history.
  \<^item> \<open>Session_Snapshot\<close>: the serialized state (\<open>state/snapshot.rs\<close>): a snapshot restores the
    state it was taken from, and what is restored from any snapshot is checked.
  \<^item> \<open>Rust_Text\<close>: the string operations of the standard library.
  \<^item> \<open>Harness_Messages\<close>, \<open>Session_Context\<close>: the repair of orphaned tool calls and the conversion
    for the model (\<open>messages.rs\<close>), the context of a branch (\<open>session/context.rs\<close>).
  \<^item> \<open>Compaction_Tokens\<close>, \<open>Compaction\<close>: token estimates, cut points, the preparation of a
    compaction, the calls of the model with their retries, branch summaries
    (\<open>src/crates/evo-harness/src/compaction/\<close>). The operations on floats, the printing of JSON, the
    prompts and the model are parameters; the retry loop runs on the number of retries left.
  \<^item> \<open>Session_Branch\<close>, \<open>Session_Query\<close>: walks to the root, entry and branch queries
    (\<open>state/selection.rs\<close>), record queries, pages, open operations, queue cancellations and the log
    (\<open>state.rs\<close>).
  \<^item> \<open>Session_Fork\<close>: \<open>create_fork_mutations\<close> and what the fork holds after replay.
  \<^item> \<open>Session_Messages\<close>: message pages, windows and previews (\<open>state/message_queries.rs\<close>,
    \<open>message_preview.rs\<close>). The loops over parent links have no bound in the code, so they are
    \<open>partial_function (option)\<close>; that they return on a reachable session is proved.
  \<^item> \<open>Record_Log\<close>: the recovery validator of \<open>reducer.rs\<close> against a declarative notion of a legal
    log.
  \<^item> \<open>Mesh_Wire\<close>, \<open>Mesh_Hub\<close>: the session mesh (\<open>src/crates/evo-mesh/src/wire.rs\<close>, \<open>hub.rs\<close>).
    The hub's store is the locale \<open>mail_store\<close>, interpreted by the store in memory; everything a
    host does to a hub is one \<open>hub_step\<close>, and the theorems quantify over sequences of them.

  \<^item> \<open>Agent_Types\<close>, \<open>Tool_Accounting\<close>, \<open>Agent_Loop\<close>, \<open>Agent_Run\<close>: \<open>agent_loop.rs\<close> with its tools,
    hooks, events and clock (\<open>types.rs\<close>, \<open>hooks.rs\<close>, \<open>events.rs\<close>, \<open>clock.rs\<close>). What lies outside the
    loop (tools, hooks, provider, subscribers) is a function on a world \<open>'w\<close>; the loop is a state
    monad over that world and the trace of its effects. The calls of a parallel batch run at the same
    time: they take effect when they settle, and the order in which they do is the world's choice
    (\<open>le_settles\<close> while calls are still prepared, \<open>le_next\<close> afterwards). The two nested loops of
    \<open>run_loop\<close> run on fuel, one unit per round; None is a run that is still going on.
  \<^item> \<open>Agent_Trace\<close>, \<open>Agent_Batches\<close>, \<open>Agent_Runs\<close>: the trace logic \<open>traces\<close>, one rule per operation,
    and what it yields: a batch answers its calls in order and executes each approved one once, a run
    reports exactly its messages and executes only calls of the response it reported last, approved in the context it has at
    that point. \<open>run_context\<close> says which context that is, from what has been reported.
  \<^item> \<open>Agent_Invariant\<close>: the logic \<open>keeps\<close> of invariants on world and trace, and the locales
    \<open>calls_invariant\<close>, \<open>batch_invariant\<close>, \<open>turn_invariant\<close> and \<open>run_invariant\<close>: an invariant that the
    single operations of the surroundings keep is kept by batches, turns and whole runs.
  \<^item> \<open>Agent_Cancel\<close>: where a cancelled run stays cancelled (a \<open>turn_invariant\<close>), a turn that leaves a
    call without an answer is the last.
  \<^item> \<open>Agent_Converters\<close>: the contract \<open>incremental_converter\<close> between the loop's message cache and its
    converters, about the one suffix the cache is ever extended with, a response and the results of all its
    calls; interpreted by the agent's own converter and by the harness's, which repairs the history.
  \<^item> \<open>Agent_Delivery\<close>, \<open>Agent_Requests\<close>, \<open>Agent_Progress\<close>: the messages taken from the queues are
    delivered; every request carries the conversion of the run's context, cached or not; runs end, with a
    bound on the fuel, when the surroundings have a budget (\<open>finite_work\<close>).
  \<^item> \<open>Agent\<close>, \<open>Agent_Prompt\<close>: the stateful agent (\<open>agent.rs\<close>, \<open>queue.rs\<close>), which is the world of its own
    runs. The calls of other threads enter through \<open>ho_meanwhile\<close>, before each event, drain and
    cancellation check.

  \<^item> \<open>Json_Repair\<close>: the tolerant JSON parser of streamed tool arguments (\<open>evo-ai/src/json_parse.rs\<close>):
    what the repair of string literals and the closing of a truncated document guarantee. The strict
    parser is a parameter.
  \<^item> \<open>Frames\<close>, \<open>Frame_Replay\<close>: the durable frames of a response (\<open>evo-ai/src/frames.rs\<close>). The encoder
    and the reducer run side by side in one simulation (\<open>agrees\<close>), over the views an observer of the
    stream has of each block: every committed prefix replays to the message as far as it had come, and
    a settled stream to the whole message. JSON objects are unordered maps here, so the comparison of
    printed arguments in the code is that of the printed maps.
  \<^item> \<open>Progress\<close>: the store of the frames of running operations (\<open>evo-durable/src/progress.rs\<close>), an
    interpretation of \<open>refined_steps\<close> over the history of acknowledged batches.
  \<^item> \<open>Memory_Storage\<close>: the storage in memory and its repository (\<open>session/memory.rs\<close>). Everything a
    client does to a storage is one \<open>storage_call\<close>, to a repository one \<open>repo_call\<close>; the theorems
    quantify over sequences of them, failed calls included. \<open>replace_state\<close>, with which an owner restores a storage, keeps the
    invariant too, but is not a call of a client. Sessions are a heap of storages and an index
    of identifiers; \<open>sessions_of\<close> abstracts both to a map, which every repository call refines.

  \<^item> \<open>Wire_Framing\<close>: length-prefixed frames (\<open>src/crates/evo-protocol/src/framing.rs\<close>). The loop of
    \<open>push\<close> is a total function (\<open>loop_measure\<close>), equal to the reference \<open>feed_all\<close> that takes one
    byte at a time. \<open>push_chunks\<close> is a caller that pushes one chunk after another and keeps the frames it was handed
    when a later push fails; \<open>feed_stream\<close> is its reference.
  \<^item> \<open>Wire_Cbor\<close>: the CBOR codec (\<open>cbor.rs\<close>). Objects keep the order of their keys, a string is its
    UTF-8 bytes, a float the bits of its \<open>f64\<close>. The decoder runs on fuel, one unit per level of
    recursion; one more than there are bytes is enough (\<open>decoding_returns\<close>).
  \<^item> \<open>Wire_Codec\<close>: messages in frames (\<open>codec.rs\<close>), from chunks of a stream to values and back.

  \<^item> \<open>Utf8\<close>: bytes, the check of UTF-8 and the boundaries of characters.
  \<^item> \<open>Truncate\<close>, \<open>Shell_Output\<close>: the truncation of tool output to whole lines from the head or the tail
    and the capture of the output of a command (\<open>src/crates/evo-tools/src/truncate.rs\<close>,
    \<open>shell_output.rs\<close>). The chunks of both streams, in the order they arrive, are a list; the file that
    takes the full output is a parameter.
  \<^item> \<open>Edit_Diff\<close>: the edit tool's engine (\<open>src/crates/evo-tools/src/tools/edit_diff.rs\<close>): exact edits are a
    splice of the file, fuzzy ones leave the lines they do not touch, line endings survive. Strings are
    Unicode scalar values, NFKC is a parameter; the display of differences is left out.

  Conventions. Sequence numbers and counters are \<open>int\<close> or \<open>nat\<close> where the code only compares and
  increments values far below their width, and words where it multiplies or narrows. Timestamps and
  other payload the code only copies are kept as they are. Hash maps are maps, a \<open>BTreeMap\<close> is a
  sorted association list, a \<open>Vec\<close> a list. The derived serializers are a parameter
  (\<open>serializers\<close>) of the definitions that compare serialized values.

  Not modelled: the persistent storages (files, SQLite), the asynchronous facade, the run loop of the harness,
  the programs through which a tool calls other tools, the providers and the crates that wrap files,
  processes and the network; the manifest lists them with the reason.
\<close>

end
